(* ===== verification/Decoy_Prelude.thy ===== *)
theory Decoy_Prelude
  imports Main "HOL-Library.Word"
begin

text \<open>
  Shared vocabulary of the development: the result type of fallible code, big-endian byte
  codecs (Python's \<open>int.to_bytes\<close> and \<open>int.from_bytes\<close>), base-\<open>n\<close> numeral lists, decimal text
  (Python's \<open>str\<close> and \<open>int\<close> on ASCII digits), and the generic list lemmas the components use.

  Conventions. A Python exception is \<open>Inl\<close> of a component's error type, a normal return is
  \<open>Inr\<close>. A Python \<open>int\<close> is \<open>int\<close>, a length or count is \<open>nat\<close>, a \<open>bytes\<close> object is a list of
  \<open>8 word\<close>, and a \<open>str\<close> is a \<open>string\<close>: code points up to 255.
\<close>

type_synonym byte = "8 word"
type_synonym bytes = "byte list"

named_theorems result_simps \<open>rewriting of the result type\<close>
named_theorems codec_simps \<open>byte and numeral codecs\<close>

section \<open>Results\<close>

fun and_then :: "'e + 'a \<Rightarrow> ('a \<Rightarrow> 'e + 'b) \<Rightarrow> 'e + 'b" where
  "and_then (Inl e) f = Inl e"
| "and_then (Inr x) f = f x"

definition require :: "bool \<Rightarrow> 'e \<Rightarrow> 'e + unit" where
  "require b e = (if b then Inr () else Inl e)"

definition of_option :: "'e \<Rightarrow> 'a option \<Rightarrow> 'e + 'a" where
  "of_option e x = (case x of None \<Rightarrow> Inl e | Some y \<Rightarrow> Inr y)"

fun map_result :: "('a \<Rightarrow> 'e + 'b) \<Rightarrow> 'a list \<Rightarrow> 'e + 'b list" where
  "map_result f [] = Inr []"
| "map_result f (x # xs) =
     and_then (f x) (\<lambda>y. and_then (map_result f xs) (\<lambda>ys. Inr (y # ys)))"

fun fold_result :: "('s \<Rightarrow> 'a \<Rightarrow> 'e + 's) \<Rightarrow> 's \<Rightarrow> 'a list \<Rightarrow> 'e + 's" where
  "fold_result f s [] = Inr s"
| "fold_result f s (x # xs) = and_then (f s x) (\<lambda>s'. fold_result f s' xs)"

definition on_error :: "('e \<Rightarrow> 'f) \<Rightarrow> 'e + 'a \<Rightarrow> 'f + 'a" where
  "on_error f r = (case r of Inl e \<Rightarrow> Inl (f e) | Inr x \<Rightarrow> Inr x)"

lemma on_error_simps [simp]: "on_error f (Inl e) = Inl (f e)" "on_error f (Inr x) = Inr x"
  by (simp_all add: on_error_def)

lemma on_error_eq_Inr [result_simps]: "on_error f r = Inr x \<longleftrightarrow> r = Inr x"
  by (cases r) auto

lemma on_error_eq_Inl [result_simps]: "on_error f r = Inl e' \<longleftrightarrow> (\<exists>e. r = Inl e \<and> e' = f e)"
  by (cases r) auto

lemma and_then_cong [fundef_cong]:
  "r = r' \<Longrightarrow> (\<And>x. r' = Inr x \<Longrightarrow> f x = g x) \<Longrightarrow> and_then r f = and_then r' g"
  by (cases r') auto

lemma and_then_eq_Inr [result_simps]:
  "and_then r f = Inr y \<longleftrightarrow> (\<exists>x. r = Inr x \<and> f x = Inr y)"
  by (cases r) auto

lemma and_then_eq_Inl [result_simps]:
  "and_then r f = Inl e \<longleftrightarrow> r = Inl e \<or> (\<exists>x. r = Inr x \<and> f x = Inl e)"
  by (cases r) auto

lemma require_eq_Inr [result_simps]: "require b e = Inr u \<longleftrightarrow> b"
  by (simp add: require_def)

lemma require_eq_Inl [result_simps]: "require b e = Inl e' \<longleftrightarrow> \<not> b \<and> e' = e"
  by (auto simp: require_def)

lemma require_simps [simp]: "require True e = Inr ()" "require False e = Inl e"
  by (simp_all add: require_def)

lemma of_option_simps [simp]: "of_option e None = Inl e" "of_option e (Some y) = Inr y"
  by (simp_all add: of_option_def)

lemma of_option_eq_Inr [result_simps]: "of_option e x = Inr y \<longleftrightarrow> x = Some y"
  by (cases x) auto

lemma of_option_eq_Inl [result_simps]: "of_option e x = Inl e' \<longleftrightarrow> x = None \<and> e' = e"
  by (cases x) auto

lemma fold_result_append:
  "fold_result f s (xs @ ys) = and_then (fold_result f s xs) (\<lambda>s'. fold_result f s' ys)"
proof (induction xs arbitrary: s)
  case Nil
  then show ?case by simp
next
  case (Cons x xs)
  then show ?case by (cases "f s x") auto
qed

text \<open>A fold keeps what every step keeps, and what one step establishes and the others keep holds at
  the end.\<close>

lemma fold_result_keeps:
  assumes "\<And>s x s'. x \<in> set xs \<Longrightarrow> P s \<Longrightarrow> f s x = Inr s' \<Longrightarrow> P s'"
    and "P s" and "fold_result f s xs = Inr t"
  shows "P t"
  using assms
proof (induction xs arbitrary: s)
  case Nil
  then show ?case by simp
next
  case (Cons x xs)
  obtain s' where s': "f s x = Inr s'" "fold_result f s' xs = Inr t"
    using Cons.prems(3) by (auto simp: result_simps)
  show ?case
  proof (rule Cons.IH)
    show "P s'"
      by (rule Cons.prems(1) [OF _ Cons.prems(2) s'(1)]) simp
    show "fold_result f s' xs = Inr t"
      by (rule s'(2))
    show "P u'" if "y \<in> set xs" "P u" "f u y = Inr u'" for u y u'
      by (rule Cons.prems(1) [OF _ that(2,3)]) (simp add: that(1))
  qed
qed

lemma fold_result_establishes:
  assumes "x \<in> set xs"
    and keeps: "\<And>s y s'. y \<in> set xs \<Longrightarrow> P s \<Longrightarrow> f s y = Inr s' \<Longrightarrow> P s' \<and> (Q s \<longrightarrow> Q s')"
    and est: "\<And>s s'. P s \<Longrightarrow> f s x = Inr s' \<Longrightarrow> Q s'"
    and "P s" and "fold_result f s xs = Inr t"
  shows "Q t"
proof -
  obtain ys zs where xs: "xs = ys @ x # zs"
    using assms(1) by (meson split_list)
  then obtain u v where u: "fold_result f s ys = Inr u" "f u x = Inr v" "fold_result f v zs = Inr t"
    using assms(5) by (auto simp: fold_result_append result_simps)
  have "P u"
  proof (rule fold_result_keeps [where xs = ys and f = f and s = s and P = P])
    show "P s" "fold_result f s ys = Inr u"
      using assms(4) u(1) by simp_all
    show "P s'" if "y \<in> set ys" "P s" "f s y = Inr s'" for s y s'
      using that keeps [of y s s'] xs by simp
  qed
  then have v: "P v \<and> Q v"
    using keeps [OF assms(1)] est u(2) by blast
  have "P t \<and> Q t"
  proof (rule fold_result_keeps [where xs = zs and f = f and s = v])
    show "P v \<and> Q v" "fold_result f v zs = Inr t"
      using v u(3) by simp_all
    show "P s' \<and> Q s'" if "y \<in> set zs" "P s \<and> Q s" "f s y = Inr s'" for s y s'
      using that keeps [of y s s'] xs by simp
  qed
  then show ?thesis
    by simp
qed

lemma map_result_length: "map_result f xs = Inr ys \<Longrightarrow> length ys = length xs"
  by (induction xs arbitrary: ys) (auto simp: result_simps)

lemma map_result_eq_map:
  "(\<And>x. x \<in> set xs \<Longrightarrow> f x = Inr (g x)) \<Longrightarrow> map_result f xs = Inr (map g xs)"
  by (induction xs) auto

lemma map_result_nth:
  "map_result f xs = Inr ys \<Longrightarrow> i < length xs \<Longrightarrow> f (xs ! i) = Inr (ys ! i)"
proof (induction xs arbitrary: ys i)
  case Nil
  then show ?case by simp
next
  case (Cons x xs)
  then show ?case by (cases i) (auto simp: result_simps)
qed

lemma map_result_set: "map_result f xs = Inr ys \<Longrightarrow> Inr ` set ys = f ` set xs"
  by (induction xs arbitrary: ys) (simp, clarsimp simp: result_simps)

lemma distinct_length_le_1:
  "distinct xs \<Longrightarrow> \<not> 1 < length xs \<longleftrightarrow> (\<forall>p \<in> set xs. \<forall>q \<in> set xs. p = q)"
proof (cases xs)
  case (Cons a ys)
  then show "distinct xs \<Longrightarrow> ?thesis"
    by (cases ys) auto
qed simp

lemma map_result_eq_Inl: "map_result f xs = Inl e \<Longrightarrow> \<exists>x \<in> set xs. f x = Inl e"
  by (induction xs) (auto simp: result_simps)

lemma map_result_total: "(\<exists>ys. map_result f xs = Inr ys) \<longleftrightarrow> (\<forall>x \<in> set xs. \<exists>y. f x = Inr y)"
proof (induction xs)
  case Nil
  then show ?case by simp
next
  case (Cons x xs)
  then show ?case by (cases "f x") (auto simp: result_simps)
qed

section \<open>Dictionary order\<close>

text \<open>A dictionary keeps the first position of a repeated key.\<close>

definition dict_keys :: "'a list \<Rightarrow> 'a list" where
  "dict_keys xs = foldl (\<lambda>acc x. if x \<in> set acc then acc else acc @ [x]) [] xs"

lemma dict_keys_set [simp]: "set (dict_keys xs) = set xs"
proof -
  have "set (foldl (\<lambda>acc x. if x \<in> set acc then acc else acc @ [x]) acc xs) = set acc \<union> set xs" for acc
    by (induction xs arbitrary: acc) auto
  then show ?thesis
    by (simp add: dict_keys_def)
qed

lemma distinct_dict_keys [simp]: "distinct (dict_keys xs)"
proof -
  have "distinct acc \<Longrightarrow> distinct (foldl (\<lambda>acc x. if x \<in> set acc then acc else acc @ [x]) acc xs)" for acc
    by (induction xs arbitrary: acc) auto
  then show ?thesis
    by (simp add: dict_keys_def)
qed

section \<open>Big-endian bytes\<close>

text \<open>\<open>from_bytes\<close> is \<open>int.from_bytes(b, "big")\<close>; \<open>to_bytes x n\<close> is \<open>x.to_bytes(n, "big")\<close>,
  \<open>None\<close> where Python raises \<open>OverflowError\<close>.\<close>

fun from_bytes :: "bytes \<Rightarrow> int" where
  "from_bytes bs = foldl (\<lambda>acc b. acc * 256 + uint b) 0 bs"

declare from_bytes.simps [simp del]

fun be_bytes :: "nat \<Rightarrow> int \<Rightarrow> bytes" where
  "be_bytes 0 x = []"
| "be_bytes (Suc n) x = be_bytes n (x div 256) @ [word_of_int (x mod 256)]"

definition to_bytes :: "int \<Rightarrow> nat \<Rightarrow> bytes option" where
  "to_bytes x n = (if 0 \<le> x \<and> x < 256 ^ n then Some (be_bytes n x) else None)"

lemma length_be_bytes [simp]: "length (be_bytes n x) = n"
  by (induction n arbitrary: x) auto

lemma from_bytes_Nil [simp]: "from_bytes [] = 0"
  by (simp add: from_bytes.simps)

lemma from_bytes_snoc [simp]: "from_bytes (bs @ [b]) = from_bytes bs * 256 + uint b"
  by (simp add: from_bytes.simps)

lemma from_bytes_nonneg [simp]: "0 \<le> from_bytes bs"
  by (induction bs rule: rev_induct) auto

lemma uint_byte_less: "uint (b :: byte) < 256"
  using uint_lt2p [of b] by simp

lemma from_bytes_less: "from_bytes bs < 256 ^ length bs"
proof (induction bs rule: rev_induct)
  case Nil
  then show ?case by simp
next
  case (snoc b bs)
  have "from_bytes bs + 1 \<le> 256 ^ length bs"
    using snoc by simp
  then have "(from_bytes bs + 1) * 256 \<le> 256 ^ length bs * 256"
    by simp
  then show ?case
    using uint_byte_less [of b] by (simp add: algebra_simps)
qed

lemma from_bytes_be_bytes: "0 \<le> x \<Longrightarrow> x < 256 ^ n \<Longrightarrow> from_bytes (be_bytes n x) = x"
proof (induction n arbitrary: x)
  case 0
  then show ?case by simp
next
  case (Suc n)
  have "0 \<le> x div 256"
    using Suc.prems(1) by simp
  moreover have "x div 256 < 256 ^ n"
    using Suc.prems(2) by (simp add: div_less_iff_less_mult mult.commute)
  ultimately have "from_bytes (be_bytes n (x div 256)) = x div 256"
    by (rule Suc.IH)
  moreover have "uint (word_of_int (x mod 256) :: byte) = x mod 256"
    by (simp add: uint_word_of_int)
  ultimately show ?case
    by simp
qed

lemma be_bytes_from_bytes: "be_bytes (length bs) (from_bytes bs) = bs"
proof (induction bs rule: rev_induct)
  case Nil
  then show ?case by simp
next
  case (snoc b bs)
  have "(from_bytes bs * 256 + uint b) div 256 = from_bytes bs"
    using uint_byte_less [of b] by simp
  moreover have "(from_bytes bs * 256 + uint b) mod 256 = uint b"
    using uint_byte_less [of b] by simp
  ultimately show ?case
    using snoc by simp
qed

lemma to_bytes_Some_iff [codec_simps]:
  "to_bytes x n = Some bs \<longleftrightarrow> 0 \<le> x \<and> x < 256 ^ n \<and> bs = be_bytes n x"
  by (auto simp: to_bytes_def)

lemma from_to_bytes [codec_simps]: "to_bytes x n = Some bs \<Longrightarrow> from_bytes bs = x"
  by (simp add: codec_simps from_bytes_be_bytes)

lemma to_bytes_inj: "to_bytes x n = Some bs \<Longrightarrow> to_bytes y n = Some bs \<Longrightarrow> x = y"
  using from_to_bytes by metis

section \<open>Bit length\<close>

text \<open>Python's \<open>int.bit_length\<close> on a non-negative integer.\<close>

function bit_length :: "int \<Rightarrow> nat" where
  "bit_length x = (if x \<le> 0 then 0 else Suc (bit_length (x div 2)))"
  by pat_completeness auto
termination
  by (relation "measure nat") auto

declare bit_length.simps [simp del]

lemma bit_length_le: "x < 2 ^ n \<Longrightarrow> bit_length x \<le> n"
proof (induction n arbitrary: x)
  case 0
  then show ?case by (simp add: bit_length.simps [of x])
next
  case (Suc n)
  then have "x div 2 < 2 ^ n"
    by simp
  then have "bit_length (x div 2) \<le> n"
    by (rule Suc.IH)
  then show ?case
    by (simp add: bit_length.simps [of x])
qed

lemma bit_length_bound: "x < 2 ^ bit_length x"
proof (induction x rule: bit_length.induct)
  case (1 x)
  show ?case
  proof (cases "x \<le> 0")
    case True
    then show ?thesis by (simp add: bit_length.simps [of x])
  next
    case False
    then have "x div 2 < 2 ^ bit_length (x div 2)"
      using 1 by simp
    then show ?thesis
      using False by (simp add: bit_length.simps [of x])
  qed
qed

section \<open>List lemmas\<close>

lemma take_drop_append_eq:
  "length a = n \<Longrightarrow> take n (a @ b) = a \<and> drop n (a @ b) = b"
  by auto

end
