(* ===== verification/FF1.thy ===== *)
theory FF1
  imports Decoy_Prelude
begin

text \<open>
  The FF1 primitive of \<open>transforms/_ff1.py\<close> (NIST SP 800-38G, Algorithms 5 and 6): numeral
  codecs, the CBC-MAC round value, ten Feistel rounds in both directions, and the parameter
  checks in the order of the source. AES comes from the \<open>cryptography\<close> package and is a
  parameter: a record with the single-block cipher and the zero-IV CBC mode. The only thing
  assumed of it, as \<open>aes_lengths\<close>, is the documented output sizes of a 16-byte block cipher.

  The locale \<open>reversible_rounds\<close> is the interface of a Feistel network whose rounds can fail;
  it is interpreted on the model's own rounds, with validity of the parameters and of the two
  halves as the predicate every round keeps.
\<close>

unbundle bit_operations_syntax

section \<open>Model\<close>

record aes =
  ecb :: "bytes \<Rightarrow> bytes \<Rightarrow> bytes"
  cbc0 :: "bytes \<Rightarrow> bytes \<Rightarrow> bytes"

definition aes_lengths :: "aes \<Rightarrow> bool" where
  "aes_lengths A \<longleftrightarrow>
     (\<forall>key block. length block = 16 \<longrightarrow> length (ecb A key block) = 16) \<and>
     (\<forall>key data. length data mod 16 = 0 \<longrightarrow> length (cbc0 A key data) = length data)"

datatype ff1_error =
    KeyLength nat | RadixTooSmall int | RadixTooLarge int | TooFewNumerals nat
  | NumeralRange nat | TweakTooLong nat | PrfUnaligned nat | DigitOverflow nat
  | IntOverflow | OutOfFuel

definition FF1_MIN_RADIX :: int where "FF1_MIN_RADIX = 2"
definition FF1_MAX_RADIX :: int where "FF1_MAX_RADIX = 64"
definition FF1_MAX_LEN :: nat where "FF1_MAX_LEN = 256"
definition FF1_MAX_TWEAK_LEN :: nat where "FF1_MAX_TWEAK_LEN = 256"
definition FF1_KEY_BYTES :: nat where "FF1_KEY_BYTES = 32"
definition FF1_STANDARD_MAX_RADIX :: int where "FF1_STANDARD_MAX_RADIX = 2 ^ 16"
definition FF1_MIN_DOMAIN :: int where "FF1_MIN_DOMAIN = 1000000"
definition ROUNDS :: nat where "ROUNDS = 10"

text \<open>The search loop of \<open>min_domain_length\<close>: \<open>value\<close> is multiplied until it reaches the floor.\<close>

function min_domain_loop :: "int \<Rightarrow> nat \<Rightarrow> int \<Rightarrow> nat" where
  "min_domain_loop radix len val =
     (if val < FF1_MIN_DOMAIN \<and> 2 \<le> radix \<and> 0 < val
      then min_domain_loop radix (len + 1) (val * radix) else len)"
  by pat_completeness auto
termination
proof (relation "measure (\<lambda>(radix, len, val). nat (FF1_MIN_DOMAIN - val))")
  show "wf (measure (\<lambda>(radix :: int, len :: nat, val). nat (FF1_MIN_DOMAIN - val)))"
    by simp
next
  fix radix val :: int and len :: nat
  assume a: "val < FF1_MIN_DOMAIN \<and> 2 \<le> radix \<and> 0 < val"
  then have "val * 2 \<le> val * radix"
    by simp
  with a have "val < val * radix"
    by linarith
  with a show "((radix, len + 1, val * radix), radix, len, val)
      \<in> measure (\<lambda>(radix, len, val). nat (FF1_MIN_DOMAIN - val))"
    by simp
qed

declare min_domain_loop.simps [simp del]

definition min_domain_length :: "int \<Rightarrow> ff1_error + nat" where
  "min_domain_length radix =
     (if radix < 2 then Inl (RadixTooSmall radix) else Inr (min_domain_loop radix 1 radix))"

definition prf_ff1 :: "aes \<Rightarrow> bytes \<Rightarrow> bytes \<Rightarrow> ff1_error + bytes" where
  "prf_ff1 A key data =
     (if length data mod 16 \<noteq> 0 then Inl (PrfUnaligned (length data))
      else (let ciphertext = cbc0 A key data in Inr (drop (length ciphertext - 16) ciphertext)))"

fun s_loop :: "aes \<Rightarrow> bytes \<Rightarrow> bytes \<Rightarrow> nat \<Rightarrow> nat \<Rightarrow> int \<Rightarrow> bytes \<Rightarrow> ff1_error + bytes" where
  "s_loop A key r d 0 j s = (if length s < d then Inl OutOfFuel else Inr s)"
| "s_loop A key r d (Suc fuel) j s =
     (if length s < d
      then and_then (of_option IntOverflow (to_bytes (from_bytes r XOR j) 16))
             (\<lambda>block. s_loop A key r d fuel (j + 1) (s @ ecb A key block))
      else Inr s)"

definition s_block :: "aes \<Rightarrow> bytes \<Rightarrow> bytes \<Rightarrow> nat \<Rightarrow> ff1_error + bytes" where
  "s_block A key r d = and_then (s_loop A key r d d 1 r) (\<lambda>s. Inr (take d s))"

definition num_radix :: "int list \<Rightarrow> int \<Rightarrow> int" where
  "num_radix numerals radix = foldl (\<lambda>x numeral. x * radix + numeral) 0 numerals"

fun divmod_digits :: "nat \<Rightarrow> int \<Rightarrow> int \<Rightarrow> int list \<times> int" where
  "divmod_digits 0 x radix = ([], x)"
| "divmod_digits (Suc m) x radix =
     (let (digits, rest) = divmod_digits m (x div radix) radix in (digits @ [x mod radix], rest))"

definition str_m_radix :: "int \<Rightarrow> nat \<Rightarrow> int \<Rightarrow> ff1_error + int list" where
  "str_m_radix x m radix =
     (let (digits, rest) = divmod_digits m x radix
      in if rest \<noteq> 0 then Inl (DigitOverflow m) else Inr digits)"

definition byte_len_for_radix_power :: "int \<Rightarrow> nat \<Rightarrow> nat" where
  "byte_len_for_radix_power radix len =
     (let max_value = radix ^ len - 1; bits = (if 0 < max_value then bit_length max_value else 0)
      in (bits + 7) div 8)"

definition build_p :: "int \<Rightarrow> nat \<Rightarrow> nat \<Rightarrow> nat \<Rightarrow> ff1_error + bytes" where
  "build_p radix u n tweak_len =
     and_then (of_option IntOverflow (to_bytes radix 3)) (\<lambda>rb.
     and_then (of_option IntOverflow (to_bytes (int n) 4)) (\<lambda>nb.
     and_then (of_option IntOverflow (to_bytes (int tweak_len) 4)) (\<lambda>tb.
     Inr ([1, 2, 1] @ rb @ [word_of_nat ROUNDS, word_of_nat u] @ nb @ tb))))"

definition out_of_range :: "int \<Rightarrow> int list \<Rightarrow> nat" where
  "out_of_range radix numerals = length (filter (\<lambda>digit. \<not> (0 \<le> digit \<and> digit < radix)) numerals)"

definition validate_common ::
    "bytes \<Rightarrow> bytes \<Rightarrow> int \<Rightarrow> int list \<Rightarrow> ff1_error + (nat \<times> nat)" where
  "validate_common key tweak radix numerals =
     (if length key \<notin> {16, 24, 32} then Inl (KeyLength (length key))
      else if radix < 2 then Inl (RadixTooSmall radix)
      else if FF1_STANDARD_MAX_RADIX < radix then Inl (RadixTooLarge radix)
      else if length numerals < 2 then Inl (TooFewNumerals (length numerals))
      else if 0 < out_of_range radix numerals then Inl (NumeralRange (out_of_range radix numerals))
      else if 2 ^ 32 \<le> length tweak then Inl (TweakTooLong (length tweak))
      else Inr (length numerals, length tweak))"

text \<open>The local variables of \<open>encrypt\<close> and \<open>decrypt\<close> that the rounds read.\<close>

record ff1_setup =
  s_key :: bytes
  s_tweak :: bytes
  s_radix :: int
  s_u :: nat
  s_v :: nat
  s_byte_len :: nat
  s_d :: nat
  s_p :: bytes
  s_zero_pad :: bytes

definition setup_rounds :: "bytes \<Rightarrow> bytes \<Rightarrow> int \<Rightarrow> int list \<Rightarrow> ff1_error + ff1_setup" where
  "setup_rounds k t r numerals =
     and_then (validate_common k t r numerals) (\<lambda>(n, tl).
     let uu = n div 2; vv = n - uu; bl = byte_len_for_radix_power r vv in
     and_then (build_p r uu n tl) (\<lambda>pp.
     Inr \<lparr>s_key = k, s_tweak = t, s_radix = r, s_u = uu, s_v = vv, s_byte_len = bl,
          s_d = 4 * ((bl + 3) div 4) + 4, s_p = pp,
          s_zero_pad = replicate (nat ((- int tl - int bl - 1) mod 16)) 0\<rparr>))"

definition round_value :: "aes \<Rightarrow> ff1_setup \<Rightarrow> nat \<Rightarrow> int list \<Rightarrow> ff1_error + int" where
  "round_value A st i half =
     and_then (of_option IntOverflow (to_bytes (num_radix half (s_radix st)) (s_byte_len st))) (\<lambda>nb.
     and_then (prf_ff1 A (s_key st) (s_p st @ s_tweak st @ s_zero_pad st @ [word_of_nat i] @ nb)) (\<lambda>r.
     and_then (s_block A (s_key st) r (s_d st)) (\<lambda>s. Inr (from_bytes s))))"

definition round_width :: "ff1_setup \<Rightarrow> nat \<Rightarrow> nat" where
  "round_width st i = (if i mod 2 = 0 then s_u st else s_v st)"

definition encrypt_round ::
    "aes \<Rightarrow> ff1_setup \<Rightarrow> int list \<times> int list \<Rightarrow> nat \<Rightarrow> ff1_error + (int list \<times> int list)" where
  "encrypt_round A st ab i =
     (let (a, b) = ab; m = round_width st i in
      and_then (round_value A st i b) (\<lambda>y.
      and_then (str_m_radix ((num_radix a (s_radix st) + y) mod s_radix st ^ m) m (s_radix st)) (\<lambda>c.
      Inr (b, c))))"

definition decrypt_round ::
    "aes \<Rightarrow> ff1_setup \<Rightarrow> int list \<times> int list \<Rightarrow> nat \<Rightarrow> ff1_error + (int list \<times> int list)" where
  "decrypt_round A st ab i =
     (let (a, b) = ab; m = round_width st i in
      and_then (round_value A st i a) (\<lambda>y.
      and_then (str_m_radix ((num_radix b (s_radix st) - y) mod s_radix st ^ m) m (s_radix st)) (\<lambda>c.
      Inr (c, a))))"

definition encrypt :: "aes \<Rightarrow> bytes \<Rightarrow> bytes \<Rightarrow> int \<Rightarrow> int list \<Rightarrow> ff1_error + int list" where
  "encrypt A k t r numerals =
     and_then (setup_rounds k t r numerals) (\<lambda>st.
     and_then (fold_result (encrypt_round A st) (take (s_u st) numerals, drop (s_u st) numerals)
                 [0..<ROUNDS]) (\<lambda>(a, b). Inr (a @ b)))"

definition decrypt :: "aes \<Rightarrow> bytes \<Rightarrow> bytes \<Rightarrow> int \<Rightarrow> int list \<Rightarrow> ff1_error + int list" where
  "decrypt A k t r numerals =
     and_then (setup_rounds k t r numerals) (\<lambda>st.
     and_then (fold_result (decrypt_round A st) (take (s_u st) numerals, drop (s_u st) numerals)
                 (rev [0..<ROUNDS])) (\<lambda>(a, b). Inr (a @ b)))"

section \<open>Numeral strings\<close>

definition numerals_ok :: "int \<Rightarrow> int list \<Rightarrow> bool" where
  "numerals_ok r xs \<longleftrightarrow> (\<forall>x \<in> set xs. 0 \<le> x \<and> x < r)"

lemma numerals_ok_append [simp]:
  "numerals_ok r (xs @ ys) \<longleftrightarrow> numerals_ok r xs \<and> numerals_ok r ys"
  by (auto simp: numerals_ok_def)

lemma numerals_ok_Nil [simp]: "numerals_ok r []"
  by (simp add: numerals_ok_def)

lemma numerals_ok_single [simp]: "numerals_ok r [x] \<longleftrightarrow> 0 \<le> x \<and> x < r"
  by (simp add: numerals_ok_def)

lemma out_of_range_zero: "0 < out_of_range r xs \<longleftrightarrow> \<not> numerals_ok r xs"
  by (auto simp: out_of_range_def numerals_ok_def filter_empty_conv)

lemma num_radix_Nil [simp]: "num_radix [] r = 0"
  by (simp add: num_radix_def)

lemma num_radix_snoc [simp]: "num_radix (xs @ [x]) r = num_radix xs r * r + x"
  by (simp add: num_radix_def)

lemma num_radix_bounds:
  assumes "2 \<le> r"
  shows "numerals_ok r xs \<Longrightarrow> 0 \<le> num_radix xs r \<and> num_radix xs r < r ^ length xs"
proof (induction xs rule: rev_induct)
  case Nil
  then show ?case by simp
next
  case (snoc x xs)
  then have bounds: "0 \<le> num_radix xs r" "num_radix xs r + 1 \<le> r ^ length xs" and x: "0 \<le> x" "x < r"
    by auto
  from bounds(2) assms have "(num_radix xs r + 1) * r \<le> r ^ length xs * r"
    by (intro mult_right_mono) auto
  with bounds(1) x assms show ?case
    by (simp add: algebra_simps)
qed

lemma divmod_digits_length [simp]: "length (fst (divmod_digits m x r)) = m"
  by (induction m arbitrary: x) (auto simp: split_beta Let_def)

lemma divmod_digits_num: "num_radix (fst (divmod_digits m x r)) r + snd (divmod_digits m x r) * r ^ m = x"
proof (induction m arbitrary: x)
  case 0
  then show ?case by simp
next
  case (Suc m)
  let ?q = "divmod_digits m (x div r) r"
  have "num_radix (fst ?q) r * r + snd ?q * (r * r ^ m) = (x div r) * r"
    by (subst Suc.IH [of "x div r", symmetric]) (simp add: algebra_simps)
  then show ?case
    by (simp add: split_beta Let_def algebra_simps)
qed

lemma divmod_digits_ok: "2 \<le> r \<Longrightarrow> numerals_ok r (fst (divmod_digits m x r))"
  by (induction m arbitrary: x) (auto simp: split_beta Let_def)

lemma divmod_digits_rest: "snd (divmod_digits m x r) = x div r ^ m" if "0 < r"
  using that
  by (induction m arbitrary: x) (auto simp: split_beta Let_def zdiv_zmult2_eq [symmetric] mult.commute)

lemma str_m_radix_total:
  assumes "2 \<le> r" "0 \<le> x" "x < r ^ m"
  obtains ds where "str_m_radix x m r = Inr ds" "length ds = m" "numerals_ok r ds" "num_radix ds r = x"
proof
  let ?q = "divmod_digits m x r"
  have rest: "snd ?q = 0"
    using assms by (simp add: divmod_digits_rest)
  then show "str_m_radix x m r = Inr (fst ?q)"
    by (simp add: str_m_radix_def split_beta Let_def)
  show "length (fst ?q) = m" by simp
  show "numerals_ok r (fst ?q)"
    using assms(1) by (rule divmod_digits_ok)
  show "num_radix (fst ?q) r = x"
    using divmod_digits_num [of m x r] rest by simp
qed

lemma str_m_radix_num_radix:
  assumes "2 \<le> r" "numerals_ok r xs"
  shows "str_m_radix (num_radix xs r) (length xs) r = Inr xs"
proof -
  have "divmod_digits (length xs) (num_radix xs r) r = (xs, 0)"
    using assms(2)
  proof (induction xs rule: rev_induct)
    case Nil
    then show ?case by simp
  next
    case (snoc x xs)
    then have "(num_radix xs r * r + x) div r = num_radix xs r" "(num_radix xs r * r + x) mod r = x"
      by auto
    with snoc show ?case by simp
  qed
  then show ?thesis by (simp add: str_m_radix_def)
qed

section \<open>The round value never fails on valid parameters\<close>

lemma byte_len_enough:
  assumes "1 \<le> r"
  shows "r ^ n \<le> 256 ^ byte_len_for_radix_power r n"
proof -
  let ?m = "r ^ n - 1" and ?b = "byte_len_for_radix_power r n"
  have m0: "0 \<le> ?m"
    using assms by simp
  have "?m < 2 ^ (if 0 < ?m then bit_length ?m else 0)"
    using bit_length_bound [of ?m] m0 by auto
  also have "\<dots> \<le> 2 ^ (8 * ?b)"
    by (rule power_increasing) (auto simp: byte_len_for_radix_power_def Let_def)
  finally show ?thesis
    by (simp add: power_mult)
qed

lemma byte_len_small:
  assumes "1 \<le> r" "r \<le> 2 ^ 16"
  shows "byte_len_for_radix_power r n \<le> 2 * n"
proof -
  have "r ^ n \<le> (2 ^ 16) ^ n"
    using assms by (intro power_mono) auto
  then have "r ^ n - 1 < 2 ^ (16 * n)"
    by (simp add: power_mult)
  then have "bit_length (r ^ n - 1) \<le> 16 * n"
    by (rule bit_length_le)
  then show ?thesis
    by (auto simp: byte_len_for_radix_power_def Let_def)
qed

lemma zero_pad_aligns_int: "(16 + t + (- t - b - 1) mod 16 + 1 + b) mod 16 = (0::int)"
proof -
  have "(16 + t + (- t - b - 1) mod 16 + 1 + b) mod 16 = ((16 + t + 1 + b) + (- t - b - 1) mod 16) mod 16"
    by (simp only: ac_simps)
  also have "\<dots> = ((16 + t + 1 + b) + (- t - b - 1)) mod 16"
    by (rule mod_add_right_eq)
  finally show ?thesis
    by simp
qed

lemma zero_pad_aligns:
  "(16 + t + nat ((- int t - int b - 1) mod 16) + 1 + b) mod 16 = 0"
proof -
  have "int (16 + t + nat ((- int t - int b - 1) mod 16) + 1 + b) mod 16 = 0"
    using zero_pad_aligns_int [of "int t" "int b"] by simp
  then show ?thesis
    by presburger
qed

lemma xor_j_to_bytes:
  assumes "length r = 16" "0 \<le> j" "j < 2 ^ 128"
  shows "\<exists>block. to_bytes (from_bytes r XOR j) 16 = Some block \<and> length block = 16"
proof -
  have "from_bytes r < 2 ^ 128"
    using from_bytes_less [of r] assms(1) by simp
  then have "from_bytes r XOR j < 2 ^ 128"
    using assms by (intro XOR_upper) auto
  moreover have "0 \<le> from_bytes r XOR j"
    using assms by simp
  ultimately show ?thesis
    by (simp add: to_bytes_def)
qed

lemma s_loop_total:
  assumes aes: "aes_lengths A" and r: "length r = 16"
  shows "d \<le> length s + fuel \<Longrightarrow> 0 \<le> j \<Longrightarrow> j + int fuel < 2 ^ 128 \<Longrightarrow>
    \<exists>s'. s_loop A k r d fuel j s = Inr s' \<and> d \<le> length s'"
proof (induction fuel arbitrary: j s)
  case 0
  then show ?case by auto
next
  case (Suc fuel)
  show ?case
  proof (cases "length s < d")
    case True
    obtain block where b: "to_bytes (from_bytes r XOR j) 16 = Some block" "length block = 16"
      using xor_j_to_bytes [OF r, of j] Suc.prems by auto
    then have "length (ecb A k block) = 16"
      using aes by (simp add: aes_lengths_def)
    then have "\<exists>s'. s_loop A k r d fuel (j + 1) (s @ ecb A k block) = Inr s' \<and> d \<le> length s'"
      using Suc.prems by (intro Suc.IH) auto
    then show ?thesis
      using True b by simp
  next
    case False
    then show ?thesis by auto
  qed
qed

lemma s_block_total:
  assumes "aes_lengths A" "length r = 16" "int d < 2 ^ 100"
  shows "\<exists>s. s_block A k r d = Inr s \<and> length s = d"
proof -
  have "(2::int) ^ 100 + 1 < 2 ^ 128"
    by simp
  then have "\<exists>s'. s_loop A k r d d 1 r = Inr s' \<and> d \<le> length s'"
    using assms by (intro s_loop_total) auto
  then show ?thesis
    by (auto simp: s_block_def)
qed

lemma prf_total:
  assumes "aes_lengths A" "length data mod 16 = 0" "16 \<le> length data"
  shows "\<exists>r. prf_ff1 A k data = Inr r \<and> length r = 16"
  using assms by (auto simp: prf_ff1_def aes_lengths_def Let_def)

text \<open>What \<open>setup_rounds\<close> establishes for the rounds.\<close>

definition setup_ok :: "ff1_setup \<Rightarrow> bool" where
  "setup_ok st \<longleftrightarrow> 2 \<le> s_radix st \<and> s_u st \<le> s_v st \<and>
     s_radix st ^ s_v st \<le> 256 ^ s_byte_len st \<and> int (s_d st) < 2 ^ 100 \<and> length (s_p st) = 16 \<and>
     (length (s_p st) + length (s_tweak st) + length (s_zero_pad st) + 1 + s_byte_len st) mod 16 = 0"

lemma round_value_total:
  assumes "aes_lengths A" and st: "setup_ok st" and half: "numerals_ok (s_radix st) half"
    and len: "length half \<le> s_v st"
  shows "\<exists>y. round_value A st i half = Inr y"
proof -
  let ?n = "num_radix half (s_radix st)"
  have "0 \<le> ?n" "?n < s_radix st ^ length half"
    using num_radix_bounds [of "s_radix st" half] st half by (auto simp: setup_ok_def)
  moreover have "s_radix st ^ length half \<le> s_radix st ^ s_v st"
    using st len by (intro power_increasing) (auto simp: setup_ok_def)
  ultimately obtain nb where nb: "to_bytes ?n (s_byte_len st) = Some nb" "length nb = s_byte_len st"
    using st by (fastforce simp: to_bytes_def setup_ok_def)
  let ?q = "s_p st @ s_tweak st @ s_zero_pad st @ [word_of_nat i] @ nb"
  have "length ?q mod 16 = 0" "16 \<le> length ?q"
    using st nb(2) by (auto simp: setup_ok_def algebra_simps)
  from prf_total [OF assms(1) this] obtain r where "prf_ff1 A (s_key st) ?q = Inr r" "length r = 16"
    by blast
  then show ?thesis
    using nb s_block_total [OF assms(1), of r "s_d st" "s_key st"] st
    by (auto simp: round_value_def setup_ok_def)
qed

section \<open>Feistel networks with fallible rounds\<close>

locale reversible_rounds =
  fixes fwd :: "'s \<Rightarrow> nat \<Rightarrow> 'e + 's"
    and bwd :: "'s \<Rightarrow> nat \<Rightarrow> 'e + 's"
    and good :: "nat \<Rightarrow> 's \<Rightarrow> bool"
  assumes fwd_step: "good i s \<Longrightarrow> \<exists>t. fwd s i = Inr t \<and> good (Suc i) t \<and> bwd t i = Inr s"
    and bwd_step: "good (Suc i) t \<Longrightarrow> \<exists>s. bwd t i = Inr s \<and> good i s \<and> fwd s i = Inr t"
begin

lemma run_forward:
  "good 0 s \<Longrightarrow> \<exists>t. fold_result fwd s [0..<n] = Inr t \<and> good n t \<and>
     fold_result bwd t (rev [0..<n]) = Inr s"
proof (induction n)
  case 0
  then show ?case by simp
next
  case (Suc n)
  then obtain t where t: "fold_result fwd s [0..<n] = Inr t" "good n t"
      "fold_result bwd t (rev [0..<n]) = Inr s"
    by blast
  from fwd_step [OF t(2)] obtain t' where "fwd t n = Inr t'" "good (Suc n) t'" "bwd t' n = Inr t"
    by blast
  with t show ?case
    by (simp add: fold_result_append)
qed

lemma run_backward:
  "good n t \<Longrightarrow> \<exists>s. fold_result bwd t (rev [0..<n]) = Inr s \<and> good 0 s \<and>
     fold_result fwd s [0..<n] = Inr t"
proof (induction n arbitrary: t)
  case 0
  then show ?case by simp
next
  case (Suc n)
  from bwd_step [OF Suc.prems] obtain t' where t': "bwd t n = Inr t'" "good n t'" "fwd t' n = Inr t"
    by blast
  from Suc.IH [OF t'(2)] obtain s where "fold_result bwd t' (rev [0..<n]) = Inr s" "good 0 s"
      "fold_result fwd s [0..<n] = Inr t'"
    by blast
  with t' show ?case
    by (simp add: fold_result_append)
qed

end

text \<open>The state every round keeps: valid parameters and halves of the round's widths.\<close>

definition halves_ok :: "aes \<Rightarrow> ff1_setup \<Rightarrow> nat \<Rightarrow> int list \<times> int list \<Rightarrow> bool" where
  "halves_ok A st i ab \<longleftrightarrow> aes_lengths A \<and> setup_ok st \<and>
     length (fst ab) = round_width st i \<and> length (snd ab) = round_width st (Suc i) \<and>
     numerals_ok (s_radix st) (fst ab) \<and> numerals_ok (s_radix st) (snd ab)"

lemma round_width_le: "setup_ok st \<Longrightarrow> round_width st i \<le> s_v st"
  by (auto simp: round_width_def setup_ok_def)

lemma round_width_step: "round_width st (Suc (Suc i)) = round_width st i"
  by (simp add: round_width_def)

lemma encrypt_round_step:
  assumes "halves_ok A st i s"
  shows "\<exists>t. encrypt_round A st s i = Inr t \<and> halves_ok A st (Suc i) t \<and> decrypt_round A st t i = Inr s"
proof -
  obtain a b where s: "s = (a, b)" by (cases s)
  let ?r = "s_radix st" and ?m = "round_width st i"
  have r: "2 \<le> ?r" and a: "numerals_ok ?r a" "length a = ?m"
    using assms s by (auto simp: halves_ok_def setup_ok_def)
  obtain y where y: "round_value A st i b = Inr y"
    using round_value_total [of A st b i] assms s round_width_le by (auto simp: halves_ok_def)
  let ?c = "(num_radix a ?r + y) mod ?r ^ ?m"
  have "0 \<le> ?c" "?c < ?r ^ ?m"
    using r by auto
  then obtain c where c: "str_m_radix ?c ?m ?r = Inr c" "length c = ?m" "numerals_ok ?r c"
      "num_radix c ?r = ?c"
    using str_m_radix_total [OF r] by metis
  have "(?c - y) mod ?r ^ ?m = num_radix a ?r"
    using num_radix_bounds [OF r a(1)] a(2) by (simp add: mod_diff_left_eq)
  then have "decrypt_round A st (b, c) i = Inr (a, b)"
    using y c str_m_radix_num_radix [OF r a(1)] a(2) by (simp add: decrypt_round_def Let_def)
  moreover have "encrypt_round A st s i = Inr (b, c)"
    using s y c by (simp add: encrypt_round_def Let_def)
  moreover have "halves_ok A st (Suc i) (b, c)"
    using assms s c by (simp add: halves_ok_def round_width_step)
  ultimately show ?thesis
    using s by blast
qed

lemma decrypt_round_step:
  assumes "halves_ok A st (Suc i) t"
  shows "\<exists>s. decrypt_round A st t i = Inr s \<and> halves_ok A st i s \<and> encrypt_round A st s i = Inr t"
proof -
  obtain a b where t: "t = (a, b)" by (cases t)
  let ?r = "s_radix st" and ?m = "round_width st i"
  have r: "2 \<le> ?r" and b: "numerals_ok ?r b" "length b = ?m"
    using assms t by (auto simp: halves_ok_def setup_ok_def round_width_step)
  obtain y where y: "round_value A st i a = Inr y"
    using round_value_total [of A st a i] assms t round_width_le by (auto simp: halves_ok_def)
  let ?c = "(num_radix b ?r - y) mod ?r ^ ?m"
  have "0 \<le> ?c" "?c < ?r ^ ?m"
    using r by auto
  then obtain c where c: "str_m_radix ?c ?m ?r = Inr c" "length c = ?m" "numerals_ok ?r c"
      "num_radix c ?r = ?c"
    using str_m_radix_total [OF r] by metis
  have "(?c + y) mod ?r ^ ?m = num_radix b ?r"
    using num_radix_bounds [OF r b(1)] b(2) by (simp add: mod_add_left_eq)
  then have "encrypt_round A st (c, a) i = Inr (a, b)"
    using y c str_m_radix_num_radix [OF r b(1)] b(2) by (simp add: encrypt_round_def Let_def)
  moreover have "decrypt_round A st t i = Inr (c, a)"
    using t y c by (simp add: decrypt_round_def Let_def)
  moreover have "halves_ok A st i (c, a)"
    using assms t c by (simp add: halves_ok_def round_width_step)
  ultimately show ?thesis
    using t by blast
qed

interpretation ff1: reversible_rounds "encrypt_round A st" "decrypt_round A st" "halves_ok A st"
  by unfold_locales (fact encrypt_round_step, fact decrypt_round_step)

section \<open>Encryption and decryption are inverse\<close>

definition ff1_input_ok :: "bytes \<Rightarrow> bytes \<Rightarrow> int \<Rightarrow> int list \<Rightarrow> bool" where
  "ff1_input_ok k t r xs \<longleftrightarrow> length k \<in> {16, 24, 32} \<and> 2 \<le> r \<and> r \<le> FF1_STANDARD_MAX_RADIX \<and>
     2 \<le> length xs \<and> length xs < 2 ^ 32 \<and> numerals_ok r xs \<and> length t < 2 ^ 32"

lemma validate_common_ok:
  "ff1_input_ok k t r xs \<Longrightarrow> validate_common k t r xs = Inr (length xs, length t)"
  using out_of_range_zero [of r xs] by (auto simp: validate_common_def ff1_input_ok_def)

lemma build_p_ok:
  assumes "0 \<le> r" "r \<le> 2 ^ 16" "n < 2 ^ 32" "t < 2 ^ 32"
  shows "\<exists>pp. build_p r uu n t = Inr pp \<and> length pp = 16"
proof -
  have "int n < int (2 ^ 32)" "int t < int (2 ^ 32)"
    using assms(3,4) by (simp_all only: of_nat_less_iff)
  then have "to_bytes r 3 = Some (be_bytes 3 r)" "to_bytes (int n) 4 = Some (be_bytes 4 (int n))"
      "to_bytes (int t) 4 = Some (be_bytes 4 (int t))"
    using assms by (auto simp: to_bytes_def)
  then show ?thesis
    by (simp add: build_p_def)
qed

lemma setup_rounds_ok:
  assumes "ff1_input_ok k t r xs"
  shows "\<exists>st. setup_rounds k t r xs = Inr st \<and> setup_ok st \<and> s_radix st = r \<and>
    s_u st = length xs div 2 \<and> s_v st = length xs - length xs div 2"
proof -
  let ?v = "length xs - length xs div 2"
  let ?bl = "byte_len_for_radix_power r ?v"
  have r: "2 \<le> r" "r \<le> 2 ^ 16"
    using assms by (auto simp: ff1_input_ok_def FF1_STANDARD_MAX_RADIX_def)
  have v: "?v < 2 ^ 32"
    using assms by (auto simp: ff1_input_ok_def)
  obtain pp where pp: "build_p r (length xs div 2) (length xs) (length t) = Inr pp" "length pp = 16"
    using build_p_ok [of r "length xs" "length t"] r assms by (auto simp: ff1_input_ok_def)
  have "int ?bl \<le> 2 * int ?v"
    using byte_len_small [of r ?v] r by simp
  moreover have "int ?v < int (2 ^ 32)"
    using v by (simp only: of_nat_less_iff)
  moreover have "4 * ((int ?bl + 3) div 4) \<le> int ?bl + 3"
    by simp
  moreover have "int (4 * ((?bl + 3) div 4) + 4) = 4 * ((int ?bl + 3) div 4) + 4"
    by simp
  moreover have "2 * int (2 ^ 32) + 7 < (2::int) ^ 100"
    by simp
  ultimately have "int (4 * ((?bl + 3) div 4) + 4) < 2 ^ 100"
    by linarith
  moreover have "length xs div 2 \<le> ?v"
    by simp
  ultimately have "setup_ok \<lparr>s_key = k, s_tweak = t, s_radix = r, s_u = length xs div 2, s_v = ?v,
      s_byte_len = ?bl, s_d = 4 * ((?bl + 3) div 4) + 4, s_p = pp,
      s_zero_pad = replicate (nat ((- int (length t) - int ?bl - 1) mod 16)) 0\<rparr>"
    using pp r byte_len_enough [of r ?v] zero_pad_aligns [of "length t" ?bl]
    by (simp add: setup_ok_def)
  then show ?thesis
    using validate_common_ok [OF assms] pp by (simp add: setup_rounds_def Let_def)
qed

lemma setup_rounds_depends:
  "length xs = length ys \<Longrightarrow> ff1_input_ok k t r xs \<Longrightarrow> ff1_input_ok k t r ys \<Longrightarrow>
   setup_rounds k t r xs = setup_rounds k t r ys"
  by (simp add: setup_rounds_def validate_common_ok)

lemma halves_ok_split:
  assumes "aes_lengths A" "setup_ok st" "s_radix st = r" "s_u st = length xs div 2"
    "s_v st = length xs - length xs div 2" "numerals_ok r xs" "even i"
  shows "halves_ok A st i (take (s_u st) xs, drop (s_u st) xs)"
  using assms set_take_subset [of "s_u st" xs] set_drop_subset [of "s_u st" xs]
  by (auto simp: halves_ok_def round_width_def numerals_ok_def)

lemma ff1_output:
  assumes "halves_ok A st i (a, b)" "even i" "ff1_input_ok k t r xs" "s_radix st = r"
    "s_u st = length xs div 2" "s_v st = length xs - length xs div 2"
  shows "length (a @ b) = length xs" "ff1_input_ok k t r (a @ b)"
    "take (s_u st) (a @ b) = a" "drop (s_u st) (a @ b) = b"
  using assms by (auto simp: halves_ok_def round_width_def ff1_input_ok_def)

lemma encrypt_decrypt_total:
  assumes aes: "aes_lengths A" and ok: "ff1_input_ok k t r xs"
  shows "\<exists>ys. encrypt A k t r xs = Inr ys \<and> length ys = length xs \<and> ff1_input_ok k t r ys \<and>
    decrypt A k t r ys = Inr xs"
proof -
  obtain st where st: "setup_rounds k t r xs = Inr st" "setup_ok st" "s_radix st = r"
      "s_u st = length xs div 2" "s_v st = length xs - length xs div 2"
    using setup_rounds_ok [OF ok] by blast
  have "halves_ok A st 0 (take (s_u st) xs, drop (s_u st) xs)"
    using aes st ok by (intro halves_ok_split) (auto simp: ff1_input_ok_def)
  then obtain a b where run: "fold_result (encrypt_round A st) (take (s_u st) xs, drop (s_u st) xs)
        [0..<ROUNDS] = Inr (a, b)" "halves_ok A st ROUNDS (a, b)"
      "fold_result (decrypt_round A st) (a, b) (rev [0..<ROUNDS]) =
        Inr (take (s_u st) xs, drop (s_u st) xs)"
    using ff1.run_forward [of A st _ ROUNDS] by (metis surj_pair)
  have "even ROUNDS" by (simp add: ROUNDS_def)
  note out = ff1_output [OF run(2) this ok st(3-5)]
  have "setup_rounds k t r (a @ b) = Inr st"
    using setup_rounds_depends [OF out(1) out(2) ok] st(1) by simp
  then show ?thesis
    using st(1) run out by (auto simp: encrypt_def decrypt_def)
qed

lemma decrypt_encrypt_total:
  assumes aes: "aes_lengths A" and ok: "ff1_input_ok k t r ys"
  shows "\<exists>xs. decrypt A k t r ys = Inr xs \<and> length xs = length ys \<and> ff1_input_ok k t r xs \<and>
    encrypt A k t r xs = Inr ys"
proof -
  obtain st where st: "setup_rounds k t r ys = Inr st" "setup_ok st" "s_radix st = r"
      "s_u st = length ys div 2" "s_v st = length ys - length ys div 2"
    using setup_rounds_ok [OF ok] by blast
  have "halves_ok A st ROUNDS (take (s_u st) ys, drop (s_u st) ys)"
    using aes st ok by (intro halves_ok_split) (auto simp: ff1_input_ok_def ROUNDS_def)
  then obtain a b where run: "fold_result (decrypt_round A st) (take (s_u st) ys, drop (s_u st) ys)
        (rev [0..<ROUNDS]) = Inr (a, b)" "halves_ok A st 0 (a, b)"
      "fold_result (encrypt_round A st) (a, b) [0..<ROUNDS] =
        Inr (take (s_u st) ys, drop (s_u st) ys)"
    using ff1.run_backward [of A st ROUNDS] by (metis surj_pair)
  have "even (0::nat)" by simp
  note out = ff1_output [OF run(2) this ok st(3-5)]
  have "setup_rounds k t r (a @ b) = Inr st"
    using setup_rounds_depends [OF out(1) out(2) ok] st(1) by simp
  then show ?thesis
    using st(1) run out by (auto simp: encrypt_def decrypt_def)
qed

section \<open>Properties\<close>

lemma validate_common_Inr:
  "validate_common k t r xs = Inr nt \<longleftrightarrow>
     nt = (length xs, length t) \<and> length k \<in> {16, 24, 32} \<and> 2 \<le> r \<and> r \<le> FF1_STANDARD_MAX_RADIX \<and>
     2 \<le> length xs \<and> numerals_ok r xs \<and> length t < 2 ^ 32"
  using out_of_range_zero [of r xs] by (auto simp: validate_common_def)

lemma validate_common_input_ok:
  "validate_common k t r xs = Inr nt \<Longrightarrow> length xs < 2 ^ 32 \<Longrightarrow> ff1_input_ok k t r xs"
  by (auto simp: validate_common_Inr ff1_input_ok_def)

lemma input_ok_validate_common:
  "ff1_input_ok k t r ys \<Longrightarrow> length ys = n \<Longrightarrow> validate_common k t r ys = Inr (n, length t)"
  using validate_common_ok by blast

lemma min_domain_loop_least:
  assumes "2 \<le> r" "0 < len" "val = r ^ len" "\<forall>m. 0 < m \<and> m < len \<longrightarrow> r ^ m < FF1_MIN_DOMAIN"
  shows "0 < min_domain_loop r len val \<and> FF1_MIN_DOMAIN \<le> r ^ min_domain_loop r len val \<and>
    (\<forall>m. 0 < m \<and> m < min_domain_loop r len val \<longrightarrow> r ^ m < FF1_MIN_DOMAIN)"
  using assms
proof (induction r len val rule: min_domain_loop.induct)
  case (1 r len val)
  show ?case
  proof (cases "val < FF1_MIN_DOMAIN")
    case True
    have val: "val * r = r ^ (len + 1)" "0 < val"
      using "1.prems" by auto
    have below: "\<forall>m. 0 < m \<and> m < len + 1 \<longrightarrow> r ^ m < FF1_MIN_DOMAIN"
      using "1.prems" True less_Suc_eq by auto
    have eq: "min_domain_loop r len val = min_domain_loop r (len + 1) (val * r)"
      using True "1.prems"(1) val(2) by (subst min_domain_loop.simps) simp
    show ?thesis
      unfolding eq by (rule "1.IH") (use True "1.prems"(1) val below in auto)
  next
    case False
    then have "min_domain_loop r len val = len"
      by (subst min_domain_loop.simps) simp
    then show ?thesis
      using "1.prems" False by simp
  qed
qed

definition demo_aes :: aes where
  "demo_aes = \<lparr>ecb = (\<lambda>key block. rev block), cbc0 = (\<lambda>key data. rev data)\<rparr>"

lemma demo_aes_lengths: "aes_lengths demo_aes"
  by (simp add: aes_lengths_def demo_aes_def)

text \<open>C1. FF1 round trip. Whenever the parameter check of \<open>_ff1.encrypt\<close> accepts the key, tweak,
  radix and numeral string (and the length fits the 4-byte length field), encryption returns: its
  ten rounds raise no overflow, alignment or digit error, the ciphertext has the same length and
  passes the same check, and \<open>_ff1.decrypt\<close> under the same key and tweak gives the plaintext
  back.\<close>

theorem ff1_decrypt_encrypt:
  assumes "aes_lengths A" and "validate_common k t r xs = Inr nt" and "length xs < 2 ^ 32"
  shows "\<exists>ys. encrypt A k t r xs = Inr ys \<and> length ys = length xs \<and>
    validate_common k t r ys = Inr nt \<and> decrypt A k t r ys = Inr xs"
proof -
  have "nt = (length xs, length t)"
    using assms(2) by (simp add: validate_common_Inr)
  with encrypt_decrypt_total [OF assms(1) validate_common_input_ok [OF assms(2,3)]]
  show ?thesis
    using input_ok_validate_common by metis
qed

theorem ff1_decrypt_encrypt_witness:
  "\<exists>ys. encrypt demo_aes (replicate 32 7) [1, 2] 10 [4, 0, 9, 9, 1, 3] = Inr ys \<and>
     length ys = length [4 :: int, 0, 9, 9, 1, 3] \<and>
     validate_common (replicate 32 7) [1, 2] 10 ys = Inr (6, 2) \<and>
     decrypt demo_aes (replicate 32 7) [1, 2] 10 ys = Inr [4, 0, 9, 9, 1, 3]"
proof -
  have "validate_common (replicate 32 7) [1, 2] 10 [4, 0, 9, 9, 1, 3] = Inr (6, 2)"
    by (simp add: validate_common_def FF1_STANDARD_MAX_RADIX_def out_of_range_def)
  from ff1_decrypt_encrypt [OF demo_aes_lengths this] show ?thesis
    by simp
qed

text \<open>FF1 is onto: every numeral string the parameter check accepts is the ciphertext of
  exactly the string that \<open>_ff1.decrypt\<close> returns for it, and decryption never raises on it. With
  the round trip this makes encryption a length-preserving permutation of the valid strings.\<close>

theorem ff1_encrypt_decrypt:
  assumes "aes_lengths A" and "validate_common k t r ys = Inr nt" and "length ys < 2 ^ 32"
  shows "\<exists>xs. decrypt A k t r ys = Inr xs \<and> length xs = length ys \<and>
    validate_common k t r xs = Inr nt \<and> encrypt A k t r xs = Inr ys"
proof -
  have "nt = (length ys, length t)"
    using assms(2) by (simp add: validate_common_Inr)
  with decrypt_encrypt_total [OF assms(1) validate_common_input_ok [OF assms(2,3)]]
  show ?thesis
    using input_ok_validate_common by metis
qed

theorem ff1_encrypt_decrypt_witness:
  "\<exists>xs. decrypt demo_aes (replicate 16 1) [] 2 [1, 0, 1] = Inr xs \<and> length xs = length [1 :: int, 0, 1] \<and>
     validate_common (replicate 16 1) [] 2 xs = Inr (3, 0) \<and>
     encrypt demo_aes (replicate 16 1) [] 2 xs = Inr [1, 0, 1]"
proof -
  have "validate_common (replicate 16 1) [] 2 [1, 0, 1] = Inr (3, 0)"
    by (simp add: validate_common_def FF1_STANDARD_MAX_RADIX_def out_of_range_def)
  from ff1_encrypt_decrypt [OF demo_aes_lengths this] show ?thesis
    by simp
qed

text \<open>The primitive fails only where its parameter check fails, and with that check's error:
  no other exception of the round machinery is reachable below the length field's limit.\<close>

theorem ff1_errors_are_validation_errors:
  assumes "aes_lengths A" and "length xs < 2 ^ 32"
  shows "(encrypt A k t r xs = Inl e \<longleftrightarrow> validate_common k t r xs = Inl e) \<and>
    (decrypt A k t r xs = Inl e \<longleftrightarrow> validate_common k t r xs = Inl e)"
proof -
  have bad: "encrypt A k t r xs = Inl e' \<and> decrypt A k t r xs = Inl e'"
    if "validate_common k t r xs = Inl e'" for e'
    using that by (simp add: encrypt_def decrypt_def setup_rounds_def)
  have good: "\<exists>ys zs. encrypt A k t r xs = Inr ys \<and> decrypt A k t r xs = Inr zs"
    if "validate_common k t r xs = Inr nt" for nt
    using encrypt_decrypt_total decrypt_encrypt_total assms(1)
      validate_common_input_ok [OF that assms(2)] by blast
  show ?thesis
    using bad good by (cases "validate_common k t r xs") fastforce+
qed

theorem ff1_errors_are_validation_errors_witness:
  "encrypt demo_aes [] [] 10 [1, 2] = Inl (KeyLength 0) \<and>
   decrypt demo_aes (replicate 16 0) [] 10 [1, 12] = Inl (NumeralRange 1)"
proof -
  have "validate_common [] [] 10 [1, 2] = Inl (KeyLength 0)"
    by (simp add: validate_common_def)
  moreover have "validate_common (replicate 16 0) [] 10 [1, 12] = Inl (NumeralRange 1)"
    by (simp add: validate_common_def FF1_STANDARD_MAX_RADIX_def out_of_range_def)
  ultimately show ?thesis
    using ff1_errors_are_validation_errors [OF demo_aes_lengths, of "[1, 2]" "[]" "[]" 10]
      ff1_errors_are_validation_errors [OF demo_aes_lengths, of "[1, 12]" "replicate 16 0" "[]" 10]
    by simp
qed

text \<open>\<open>min_domain_length\<close> returns the least positive length whose domain \<open>radix ** length\<close>
  reaches the one-million floor, for every radix it accepts.\<close>

theorem min_domain_length_least:
  assumes "min_domain_length r = Inr n"
  shows "0 < n \<and> FF1_MIN_DOMAIN \<le> r ^ n \<and> (\<forall>m. 0 < m \<and> m < n \<longrightarrow> r ^ m < FF1_MIN_DOMAIN)"
  using assms min_domain_loop_least [of r 1 r] by (auto simp: min_domain_length_def split: if_splits)

theorem min_domain_length_least_witness:
  "min_domain_length 10 = Inr 6 \<and> FF1_MIN_DOMAIN \<le> 10 ^ 6 \<and> (10::int) ^ 5 < FF1_MIN_DOMAIN"
proof -
  have "min_domain_length 10 = Inr 6"
    by (simp add: min_domain_length_def min_domain_loop.simps FF1_MIN_DOMAIN_def)
  moreover from min_domain_length_least [OF this]
  have "FF1_MIN_DOMAIN \<le> 10 ^ 6" and "0 < (5::nat) \<and> (5::nat) < 6 \<longrightarrow> (10::int) ^ 5 < FF1_MIN_DOMAIN"
    by blast+
  then have "FF1_MIN_DOMAIN \<le> 10 ^ 6" "(10::int) ^ 5 < FF1_MIN_DOMAIN"
    by simp_all
  ultimately show ?thesis
    by blast
qed

end
