(* ===== verification/Decimal_Text.thy ===== *)
theory Decimal_Text
  imports Decoy_Prelude
begin

text \<open>
  ASCII decimal text: Python's \<open>str\<close> of a non-negative integer (\<open>dec_str\<close>), \<open>int\<close> of a digit
  string (\<open>dec_val\<close>), right-justification with zeros (\<open>rjust\<close>), and the facts that make them
  inverse. Shared by the check-digit, declared-casting and identifier components.
\<close>

named_theorems dec_simps \<open>decimal text\<close>

section \<open>Digits\<close>

definition is_digit :: "char \<Rightarrow> bool" where
  "is_digit c \<longleftrightarrow> 48 \<le> (of_char c :: nat) \<and> (of_char c :: nat) \<le> 57"

definition digit_val :: "char \<Rightarrow> nat" where
  "digit_val c = of_char c - 48"

definition digit_char :: "nat \<Rightarrow> char" where
  "digit_char n = char_of (n + 48)"

definition all_digits :: "string \<Rightarrow> bool" where
  "all_digits s = list_all is_digit s"

lemma of_char_digit_char [simp]: "n < 10 \<Longrightarrow> (of_char (digit_char n) :: nat) = n + 48"
  by (simp add: digit_char_def of_char_of)

lemma is_digit_digit_char [simp]: "n < 10 \<Longrightarrow> is_digit (digit_char n)"
  by (simp add: is_digit_def)

lemma digit_val_digit_char [simp]: "n < 10 \<Longrightarrow> digit_val (digit_char n) = n"
  by (simp add: digit_val_def)

lemma digit_char_digit_val [simp]: "is_digit c \<Longrightarrow> digit_char (digit_val c) = c"
  by (simp add: is_digit_def digit_char_def digit_val_def)

lemma digit_val_less: "is_digit c \<Longrightarrow> digit_val c < 10"
  unfolding is_digit_def digit_val_def by linarith

lemma digit_char_inj: "m < 10 \<Longrightarrow> n < 10 \<Longrightarrow> digit_char m = digit_char n \<longleftrightarrow> m = n"
  using digit_val_digit_char by metis

lemma all_digits_simps [simp]:
  "all_digits []" "all_digits (c # s) \<longleftrightarrow> is_digit c \<and> all_digits s"
  "all_digits (s @ t) \<longleftrightarrow> all_digits s \<and> all_digits t"
  by (simp_all add: all_digits_def)

lemma all_digits_replicate [simp]: "all_digits (replicate n (CHR ''0''))"
  by (induction n) (auto simp: is_digit_def)

lemma all_digits_iff: "all_digits s \<longleftrightarrow> (\<forall>c \<in> set s. is_digit c)"
  by (simp add: all_digits_def list_all_iff)

lemma all_digits_take: "all_digits s \<Longrightarrow> all_digits (take n s)"
  using in_set_takeD by (fastforce simp: all_digits_iff)

lemma all_digits_drop: "all_digits s \<Longrightarrow> all_digits (drop n s)"
  using in_set_dropD by (fastforce simp: all_digits_iff)

lemma zero_digit_char [simp]: "digit_char 0 = CHR ''0''"
  by code_simp

lemma zero_digit [simp]: "is_digit (CHR ''0'')" "digit_val (CHR ''0'') = 0"
  by (simp_all add: is_digit_def digit_val_def)

section \<open>Values and numerals\<close>

definition dec_val :: "string \<Rightarrow> nat" where
  "dec_val s = foldl (\<lambda>acc c. acc * 10 + digit_val c) 0 s"

fun dec_str :: "nat \<Rightarrow> string" where
  "dec_str n = (if n < 10 then [digit_char n] else dec_str (n div 10) @ [digit_char (n mod 10)])"

declare dec_str.simps [simp del]

definition rjust :: "string \<Rightarrow> nat \<Rightarrow> char \<Rightarrow> string" where
  "rjust s w c = replicate (w - length s) c @ s"

definition ljust :: "string \<Rightarrow> nat \<Rightarrow> char \<Rightarrow> string" where
  "ljust s w c = s @ replicate (w - length s) c"

lemma dec_val_Nil [simp]: "dec_val [] = 0"
  by (simp add: dec_val_def)

lemma dec_val_snoc [simp]: "dec_val (s @ [c]) = dec_val s * 10 + digit_val c"
  by (simp add: dec_val_def)

lemma dec_val_append: "dec_val (s @ t) = dec_val s * 10 ^ length t + dec_val t"
proof (induction t rule: rev_induct)
  case Nil
  then show ?case by simp
next
  case (snoc c t)
  have "dec_val (s @ t @ [c]) = dec_val ((s @ t) @ [c])"
    by simp
  also have "\<dots> = dec_val (s @ t) * 10 + digit_val c"
    by (simp only: dec_val_snoc)
  finally show ?case
    by (simp add: snoc algebra_simps)
qed

lemma dec_val_zeros [simp]: "dec_val (replicate n (CHR ''0'')) = 0"
  by (induction n) (simp_all flip: replicate_append_same)

lemma dec_val_less: "all_digits s \<Longrightarrow> dec_val s < 10 ^ length s"
proof (induction s rule: rev_induct)
  case Nil
  then show ?case by simp
next
  case (snoc c s)
  then have "dec_val s + 1 \<le> 10 ^ length s" "digit_val c < 10"
    by (auto simp: digit_val_less)
  then have "(dec_val s + 1) * 10 \<le> 10 ^ length s * 10"
    by (intro mult_right_mono) auto
  with \<open>digit_val c < 10\<close> show ?case
    by simp
qed

lemma dec_str_small: "n < 10 \<Longrightarrow> dec_str n = [digit_char n]"
  by (simp add: dec_str.simps [of n])

lemma dec_str_big: "10 \<le> n \<Longrightarrow> dec_str n = dec_str (n div 10) @ [digit_char (n mod 10)]"
  by (simp add: dec_str.simps [of n])

lemma dec_str_induct [case_names small big]:
  assumes "\<And>n. n < 10 \<Longrightarrow> P n" and "\<And>n. 10 \<le> n \<Longrightarrow> P (n div 10) \<Longrightarrow> P n"
  shows "P (n :: nat)"
proof (induction n rule: less_induct)
  case (less n)
  then show ?case
    using assms by (cases "n < 10") auto
qed

lemma dec_str_digits [simp]: "all_digits (dec_str n)"
  by (induction n rule: dec_str_induct) (auto simp: dec_str_small dec_str_big)

lemma dec_str_nonempty [simp]: "dec_str n \<noteq> []"
  by (subst dec_str.simps) simp

lemma dec_val_dec_str [simp]: "dec_val (dec_str n) = n"
proof (induction n rule: dec_str_induct)
  case (small n)
  then show ?case using dec_val_snoc [of "[]"] by (simp add: dec_str_small)
next
  case (big n)
  then show ?case by (simp add: dec_str_big)
qed

lemma dec_str_length_le: "n < 10 ^ w \<Longrightarrow> 0 < w \<Longrightarrow> length (dec_str n) \<le> w"
proof (induction n arbitrary: w rule: dec_str_induct)
  case (small n)
  then show ?case by (simp add: dec_str_small)
next
  case (big n)
  then obtain w' where w: "w = Suc w'" by (cases w) auto
  with big have "n div 10 < 10 ^ w'" "0 < w'"
    by (auto intro: gr0I)
  with big w show ?case
    by (simp add: dec_str_big)
qed

lemma dec_val_eq_length:
  "all_digits s \<Longrightarrow> all_digits t \<Longrightarrow> length s = length t \<Longrightarrow> dec_val s = dec_val t \<Longrightarrow> s = t"
proof (induction s arbitrary: t rule: rev_induct)
  case Nil
  then show ?case by simp
next
  case (snoc c s)
  from snoc.prems obtain c' t' where t: "t = t' @ [c']"
    by (metis append_Nil2 length_0_conv rev_exhaust snoc_eq_iff_butlast)
  then have d: "digit_val c < 10" "digit_val c' < 10"
    using snoc.prems by (auto simp: digit_val_less)
  then have "dec_val s = dec_val t'" "digit_val c = digit_val c'"
    using snoc.prems t by (auto; presburger)+
  then have "s = t'" "c = c'"
    using snoc.IH [of t'] snoc.prems t digit_char_digit_val by (auto; metis)+
  then show ?case using t by simp
qed

lemma rjust_zero_digits [simp]: "all_digits (rjust s w (CHR ''0'')) \<longleftrightarrow> all_digits s"
  by (simp add: rjust_def)

lemma rjust_zero_val [simp]: "dec_val (rjust s w (CHR ''0'')) = dec_val s"
  by (simp add: rjust_def dec_val_append)

lemma length_rjust [simp]: "length (rjust s w c) = max w (length s)"
  by (simp add: rjust_def max_def)

lemma rjust_dec_str_length: "n < 10 ^ w \<Longrightarrow> 0 < w \<Longrightarrow> length (rjust (dec_str n) w c) = w"
  using dec_str_length_le [of n w] by (simp add: max_def)

text \<open>Zero-padded numerals are unique: a digit string is the padded numeral of its value.\<close>

lemma rjust_dec_str_val:
  assumes "all_digits s" "0 < length s"
  shows "rjust (dec_str (dec_val s)) (length s) (CHR ''0'') = s"
proof (rule dec_val_eq_length)
  show "length (rjust (dec_str (dec_val s)) (length s) (CHR ''0'')) = length s"
    using rjust_dec_str_length dec_val_less assms by blast
qed (use assms in auto)

text \<open>No leading zero, unless the numeral is the single digit zero.\<close>

lemma dec_str_hd: "0 < n \<Longrightarrow> hd (dec_str n) \<noteq> CHR ''0''"
proof (induction n rule: dec_str_induct)
  case (small n)
  then show ?case
    using digit_char_inj [of n 0] by (simp add: dec_str_small)
next
  case (big n)
  then show ?case by (simp add: dec_str_big hd_append)
qed

lemma dec_str_dec_val:
  assumes "all_digits s" "s \<noteq> []" "hd s \<noteq> CHR ''0''"
  shows "dec_str (dec_val s) = s"
proof -
  obtain c t where s: "s = c # t"
    using assms(2) by (cases s) auto
  have "digit_val c \<noteq> 0"
    using assms s digit_char_digit_val [of c] zero_digit_char by (metis all_digits_simps(2) list.sel(1))
  then have "10 ^ length t \<le> digit_val c * 10 ^ length t"
    by simp
  moreover have "dec_val s = digit_val c * 10 ^ length t + dec_val t"
    using dec_val_append [of "[c]" t] s dec_val_snoc [of "[]" c] by simp
  ultimately have lower: "10 ^ length t \<le> dec_val s"
    by linarith
  have "length (dec_str (dec_val s)) \<le> length s"
    using dec_str_length_le [OF dec_val_less] assms by simp
  moreover have "\<not> length (dec_str (dec_val s)) \<le> length t"
  proof
    assume "length (dec_str (dec_val s)) \<le> length t"
    then have "dec_val s < 10 ^ length t"
      using dec_val_less [of "dec_str (dec_val s)"]
      by (metis dec_str_digits dec_val_dec_str less_le_trans one_le_numeral power_increasing)
    with lower show False by simp
  qed
  ultimately have "length (dec_str (dec_val s)) = length s"
    using s by simp
  then show ?thesis
    using dec_val_eq_length assms(1) by simp
qed

end
