(* ===== verification/Py_Text.thy ===== *)
theory Py_Text
  imports Decimal_Text
begin

text \<open>
  Python string methods the components call, on code points up to 255: \<open>strip\<close>, \<open>upper\<close>,
  \<open>isdigit\<close>, \<open>isalpha\<close>, \<open>split\<close>, \<open>int\<close> of a signed digit string, \<open>str\<close> of an integer and the
  zero-padding format \<open>f"{n:0{w}d}"\<close>.
\<close>

text \<open>\<open>str.strip\<close> and \<open>str.upper\<close> on code points up to 255. Two of these code points have an
  upper case above 255 (U+00B5 and U+00FF); they are left unchanged here, which no caller
  of these models can tell apart. U+00DF becomes two letters.\<close>

definition py_space :: "char \<Rightarrow> bool" where
  "py_space c \<longleftrightarrow> (let n = (of_char c :: nat) in
     (9 \<le> n \<and> n \<le> 13) \<or> (28 \<le> n \<and> n \<le> 32) \<or> n = 133 \<or> n = 160)"

definition py_strip :: "string \<Rightarrow> string" where
  "py_strip s = rev (dropWhile py_space (rev (dropWhile py_space s)))"

definition py_upper_char :: "char \<Rightarrow> string" where
  "py_upper_char c = (let n = (of_char c :: nat) in
     if (97 \<le> n \<and> n \<le> 122) \<or> (224 \<le> n \<and> n \<le> 254 \<and> n \<noteq> 247) then [char_of (n - 32)]
     else if n = 223 then ''SS'' else [c])"

definition py_upper :: "string \<Rightarrow> string" where
  "py_upper s = concat (map py_upper_char s)"

text \<open>\<open>str.isdigit\<close> also accepts the superscripts U+00B2, U+00B3 and U+00B9.\<close>

definition py_isdigit_char :: "char \<Rightarrow> bool" where
  "py_isdigit_char c \<longleftrightarrow> is_digit c \<or> (of_char c :: nat) \<in> {178, 179, 185}"

definition py_isdigit :: "string \<Rightarrow> bool" where
  "py_isdigit s \<longleftrightarrow> s \<noteq> [] \<and> list_all py_isdigit_char s"

definition py_isalpha_char :: "char \<Rightarrow> bool" where
  "py_isalpha_char c \<longleftrightarrow> (let n = (of_char c :: nat) in
     (65 \<le> n \<and> n \<le> 90) \<or> (97 \<le> n \<and> n \<le> 122) \<or> n \<in> {170, 181, 186} \<or>
     (192 \<le> n \<and> n \<noteq> 215 \<and> n \<noteq> 247))"

definition py_isalpha :: "string \<Rightarrow> bool" where
  "py_isalpha s \<longleftrightarrow> s \<noteq> [] \<and> list_all py_isalpha_char s"

text \<open>\<open>s.split(c)\<close> for a one-character separator.\<close>

fun py_split :: "char \<Rightarrow> string \<Rightarrow> string list" where
  "py_split c [] = [[]]"
| "py_split c (x # xs) =
     (if x = c then [] # py_split c xs
      else case py_split c xs of [] \<Rightarrow> [[x]] | p # ps \<Rightarrow> (x # p) # ps)"

text \<open>\<open>int(s)\<close> on an optional sign followed by digits; \<open>None\<close> where it raises. (Surrounding space and
  underscores, which \<open>int\<close> also accepts, never reach the callers modelled here.)\<close>

fun py_int :: "string \<Rightarrow> int option" where
  "py_int s =
     (case s of [] \<Rightarrow> None
      | c # t \<Rightarrow>
          if c = CHR ''-'' then (if t \<noteq> [] \<and> all_digits t then Some (- int (dec_val t)) else None)
          else if c = CHR ''+'' then (if t \<noteq> [] \<and> all_digits t then Some (int (dec_val t)) else None)
          else if all_digits s then Some (int (dec_val s)) else None)"

declare py_int.simps [simp del]

definition py_str_int :: "int \<Rightarrow> string" where
  "py_str_int n = (if n < 0 then CHR ''-'' # dec_str (nat (- n)) else dec_str (nat n))"

definition zfill :: "nat \<Rightarrow> nat \<Rightarrow> string" where
  "zfill w n = rjust (dec_str n) w (CHR ''0'')"

section \<open>Lemmas\<close>

lemma digit_not_sign: "is_digit c \<Longrightarrow> c \<noteq> CHR ''-'' \<and> c \<noteq> CHR ''+'' \<and> c \<noteq> CHR ''.''"
  by (auto simp: is_digit_def)

lemma py_int_digits [simp]: "all_digits s \<Longrightarrow> s \<noteq> [] \<Longrightarrow> py_int s = Some (int (dec_val s))"
  by (cases s) (auto simp: py_int.simps digit_not_sign)

lemma py_isdigit_digits [simp]: "all_digits s \<Longrightarrow> py_isdigit s \<longleftrightarrow> s \<noteq> []"
  by (auto simp: py_isdigit_def py_isdigit_char_def all_digits_iff list_all_iff)

lemma is_digit_isdigit [simp]: "is_digit c \<Longrightarrow> py_isdigit_char c"
  by (simp add: py_isdigit_char_def)

lemma py_split_Nil_iff [simp]: "py_split c s \<noteq> []"
  by (induction s) (auto split: list.splits)

lemma py_split_none: "c \<notin> set s \<Longrightarrow> py_split c s = [s]"
  by (induction s) auto

lemma py_split_sep: "c \<notin> set a \<Longrightarrow> py_split c (a @ c # b) = a # py_split c b"
  by (induction a) auto

lemma zfill_facts:
  assumes "n < 10 ^ w" "0 < w"
  shows "length (zfill w n) = w" "all_digits (zfill w n)" "dec_val (zfill w n) = n"
  using assms dec_str_length_le [of n w] by (auto simp: zfill_def rjust_def dec_val_append)

lemma upper_fixed: "(of_char c :: nat) < 97 \<Longrightarrow> py_upper_char c = [c]"
  by (simp add: py_upper_char_def)

lemma py_upper_id: "\<forall>c \<in> set s. py_upper_char c = [c] \<Longrightarrow> py_upper s = s"
  by (induction s) (auto simp: py_upper_def)

lemma py_strip_id: "\<forall>c \<in> set s. \<not> py_space c \<Longrightarrow> py_strip s = s"
proof -
  assume a: "\<forall>c \<in> set s. \<not> py_space c"
  have *: "dropWhile py_space t = t" if "\<forall>c \<in> set t. \<not> py_space c" for t
    using that by (cases t) auto
  show ?thesis
    using * [OF a] * [of "rev s"] a by (simp add: py_strip_def)
qed

lemma digit_plain: "is_digit c \<Longrightarrow> \<not> py_space c \<and> py_upper_char c = [c]"
  by (auto simp: is_digit_def py_space_def py_upper_char_def Let_def)

end
