(* ===== verification/Checksums.thy ===== *)
theory Checksums
  imports Py_Text
begin

text \<open>
  The check-digit registry \<open>checksums.py\<close> and the NPI validator of
  \<open>providers_v2/identifiers/_npi.py\<close>. The hand-rolled schemes (npi, vin) are modelled in full;
  luhn, ean13, gtin, isbn13 and iban delegate to \<open>python-stdnum\<close>, which is a parameter: a record
  of its entry points. What the fpe strategy relies on is the named hypothesis \<open>stdnum_laws\<close>:
  on digit strings the validator accepts exactly the strings whose last digit is the computed one
  (for ISBN-13 with the 978/979 prefix).
\<close>

section \<open>Model\<close>

datatype checksum_error = UnknownScheme string | ValueErr | KeyErr | IndexErr

record stdnum =
  luhn_is_valid :: "string \<Rightarrow> bool"
  luhn_calc :: "string \<Rightarrow> checksum_error + string"
  ean_is_valid :: "string \<Rightarrow> bool"
  ean_calc :: "string \<Rightarrow> checksum_error + string"
  isbn_is_valid :: "string \<Rightarrow> bool"
  iban_is_valid :: "string \<Rightarrow> bool"
  iban_calc :: "string \<Rightarrow> checksum_error + string"

definition gtin_lengths :: "nat list" where
  "gtin_lengths = [8, 12, 13, 14]"

definition stdnum_laws :: "stdnum \<Rightarrow> bool" where
  "stdnum_laws S \<longleftrightarrow>
     (\<forall>body c. all_digits (body @ [c]) \<longrightarrow> body \<noteq> [] \<longrightarrow>
        (\<exists>k. luhn_calc S body = Inr [k] \<and> is_digit k) \<and>
        (luhn_is_valid S (body @ [c]) \<longleftrightarrow> luhn_calc S body = Inr [c])) \<and>
     (\<forall>body c. all_digits (body @ [c]) \<longrightarrow> Suc (length body) \<in> set gtin_lengths \<longrightarrow>
        (\<exists>k. ean_calc S body = Inr [k] \<and> is_digit k) \<and>
        (ean_is_valid S (body @ [c]) \<longleftrightarrow> ean_calc S body = Inr [c])) \<and>
     (\<forall>body c. all_digits (body @ [c]) \<longrightarrow> length body = 12 \<longrightarrow>
        (isbn_is_valid S (body @ [c]) \<longleftrightarrow>
           take 3 body \<in> {''978'', ''979''} \<and> ean_calc S body = Inr [c]))"

definition py_int_char :: "char \<Rightarrow> checksum_error + nat" where
  "py_int_char c = (if is_digit c then Inr (digit_val c) else Inl ValueErr)"

definition luhn_doubled :: "nat \<Rightarrow> nat \<Rightarrow> nat" where
  "luhn_doubled i n = (if i mod 2 = 0 then (if 2 * n > 9 then 2 * n - 9 else 2 * n) else n)"

fun luhn_loop :: "nat \<Rightarrow> nat \<Rightarrow> string \<Rightarrow> checksum_error + nat" where
  "luhn_loop i acc [] = Inr acc"
| "luhn_loop i acc (ch # rest) =
     and_then (py_int_char ch) (\<lambda>n. luhn_loop (i + 1) (acc + luhn_doubled i n) rest)"

definition luhn_cd :: "string \<Rightarrow> checksum_error + string" where
  "luhn_cd digits =
     and_then (luhn_loop 0 0 (rev digits)) (\<lambda>acc. Inr (dec_str ((10 - acc mod 10) mod 10)))"

definition NPI_PREFIX :: string where "NPI_PREFIX = ''80840''"

definition npi_calc_check_digit :: "string \<Rightarrow> checksum_error + string" where
  "npi_calc_check_digit body = luhn_cd (NPI_PREFIX @ body)"

text \<open>\<open>re.compile(r"^\\d{10}$").match\<close>: in Python \<open>$\<close> also matches before a final newline.\<close>

definition npi_re_match :: "string \<Rightarrow> bool" where
  "npi_re_match s \<longleftrightarrow> 10 \<le> length s \<and> all_digits (take 10 s) \<and>
     (length s = 10 \<or> drop 10 s = [CHR 0x0A])"

definition npi_validate :: "string \<Rightarrow> checksum_error + bool" where
  "npi_validate s =
     (if \<not> npi_re_match s then Inr False
      else if s ! 0 \<notin> {CHR ''1'', CHR ''2''} then Inr False
      else and_then (npi_calc_check_digit (take 9 s)) (\<lambda>cd. Inr ([s ! 9] = cd)))"

definition iban_calc_check_digit :: "stdnum \<Rightarrow> string \<Rightarrow> checksum_error + string" where
  "iban_calc_check_digit S body = iban_calc S (take 2 body @ ''xx'' @ drop 2 body)"

definition VIN_TRANS :: "(char \<times> nat) list" where
  "VIN_TRANS =
     [(CHR ''A'', 1), (CHR ''B'', 2), (CHR ''C'', 3), (CHR ''D'', 4), (CHR ''E'', 5),
      (CHR ''F'', 6), (CHR ''G'', 7), (CHR ''H'', 8), (CHR ''J'', 1), (CHR ''K'', 2),
      (CHR ''L'', 3), (CHR ''M'', 4), (CHR ''N'', 5), (CHR ''P'', 7), (CHR ''R'', 9),
      (CHR ''S'', 2), (CHR ''T'', 3), (CHR ''U'', 4), (CHR ''V'', 5), (CHR ''W'', 6),
      (CHR ''X'', 7), (CHR ''Y'', 8), (CHR ''Z'', 9), (CHR ''0'', 0), (CHR ''1'', 1),
      (CHR ''2'', 2), (CHR ''3'', 3), (CHR ''4'', 4), (CHR ''5'', 5), (CHR ''6'', 6),
      (CHR ''7'', 7), (CHR ''8'', 8), (CHR ''9'', 9)]"

definition VIN_WEIGHTS :: "nat list" where
  "VIN_WEIGHTS = [8, 7, 6, 5, 4, 3, 2, 10, 0, 9, 8, 7, 6, 5, 4, 3, 2]"

definition VIN_CHARSET :: string where
  "VIN_CHARSET = map fst VIN_TRANS"

fun vin_loop :: "nat \<Rightarrow> nat \<Rightarrow> string \<Rightarrow> checksum_error + nat" where
  "vin_loop i acc [] = Inr acc"
| "vin_loop i acc (c # rest) =
     and_then (of_option KeyErr (map_of VIN_TRANS c)) (\<lambda>t.
       if i < length VIN_WEIGHTS then vin_loop (i + 1) (acc + t * VIN_WEIGHTS ! i) rest
       else Inl IndexErr)"

definition vin_check_from_full :: "string \<Rightarrow> checksum_error + string" where
  "vin_check_from_full vin17 =
     and_then (vin_loop 0 0 vin17) (\<lambda>acc.
       let r = acc mod 11 in Inr (if r = 10 then ''X'' else dec_str r))"

definition vin_calc_check_digit :: "string \<Rightarrow> checksum_error + string" where
  "vin_calc_check_digit body = vin_check_from_full (take 8 body @ ''0'' @ drop 8 body)"

definition vin_validate :: "string \<Rightarrow> checksum_error + bool" where
  "vin_validate s =
     (let w = py_upper (py_strip s) in
      if length w \<noteq> 17 then Inr False
      else if \<not> list_all (\<lambda>c. c \<in> set VIN_CHARSET) w then Inr False
      else and_then (vin_check_from_full w) (\<lambda>cd. Inr (cd = [w ! 8])))"

definition KNOWN_SCHEMES :: "string list" where
  "KNOWN_SCHEMES = [''luhn'', ''npi'', ''iban'', ''vin'', ''isbn13'', ''ean13'', ''gtin'']"

definition validate :: "stdnum \<Rightarrow> string \<Rightarrow> string \<Rightarrow> checksum_error + bool" where
  "validate S scheme s =
     (if scheme \<notin> set KNOWN_SCHEMES then Inl (UnknownScheme scheme)
      else if scheme = ''luhn'' then Inr (luhn_is_valid S s)
      else if scheme = ''npi'' then npi_validate s
      else if scheme = ''iban'' then Inr (iban_is_valid S s)
      else if scheme = ''vin'' then vin_validate s
      else if scheme = ''isbn13'' then Inr (isbn_is_valid S s)
      else Inr (ean_is_valid S s))"

definition calc_check_digit :: "stdnum \<Rightarrow> string \<Rightarrow> string \<Rightarrow> checksum_error + string" where
  "calc_check_digit S scheme body =
     (if scheme \<notin> set KNOWN_SCHEMES then Inl (UnknownScheme scheme)
      else if scheme = ''luhn'' then luhn_calc S body
      else if scheme = ''npi'' then npi_calc_check_digit body
      else if scheme = ''iban'' then iban_calc_check_digit S body
      else if scheme = ''vin'' then vin_calc_check_digit body
      else ean_calc S body)"

text \<open>The engine's other NPI check, \<open>_is_valid_npi\<close>; \<open>str.isdigit\<close> accepts superscript digits, on
  which \<open>int\<close> raises.\<close>

definition is_valid_npi :: "string \<Rightarrow> checksum_error + bool" where
  "is_valid_npi s =
     (if length s \<noteq> 10 \<or> \<not> list_all py_isdigit_char s then Inr False
      else if s ! 0 \<notin> {CHR ''1'', CHR ''2''} then Inr False
      else and_then (luhn_loop 0 0 (rev (NPI_PREFIX @ take 9 s))) (\<lambda>acc.
           and_then (py_int_char (s ! 9)) (\<lambda>n. Inr (n = (10 - acc mod 10) mod 10))))"

section \<open>Luhn sums\<close>

fun luhn_sum :: "nat \<Rightarrow> string \<Rightarrow> nat" where
  "luhn_sum i [] = 0"
| "luhn_sum i (c # s) = luhn_doubled i (digit_val c) + luhn_sum (Suc i) s"

lemma luhn_loop_digits: "all_digits s \<Longrightarrow> luhn_loop i t s = Inr (t + luhn_sum i s)"
  by (induction s arbitrary: i t) (auto simp: py_int_char_def)

lemma luhn_loop_Inr: "luhn_loop i t s = Inr n \<Longrightarrow> all_digits s"
  by (induction s arbitrary: i t) (auto simp: py_int_char_def split: if_splits)

lemma all_digits_rev [simp]: "all_digits (rev s) = all_digits s"
  by (simp add: all_digits_iff)

lemma luhn_cd_digits:
  "all_digits s \<Longrightarrow> luhn_cd s = Inr (dec_str ((10 - luhn_sum 0 (rev s) mod 10) mod 10))"
  by (simp add: luhn_cd_def luhn_loop_digits)

lemma check_digit_mod:
  assumes "d < (10 :: nat)"
  shows "d = (10 - t mod 10) mod 10 \<longleftrightarrow> (t + d) mod 10 = 0"
proof -
  define r where "r = t mod 10"
  have "r < 10"
    by (simp add: r_def)
  have "(t + d) mod 10 = (r + d) mod 10"
    by (simp add: r_def mod_add_left_eq)
  also have "\<dots> = (if r + d < 10 then r + d else r + d - 10)"
    using assms \<open>r < 10\<close> by (auto simp: mod_if)
  finally have sum: "(t + d) mod 10 = (if r + d < 10 then r + d else r + d - 10)" .
  have "(10 - r) mod 10 = (if r = 0 then 0 else 10 - r)"
    using \<open>r < 10\<close> by auto
  then show ?thesis
    unfolding r_def [symmetric] sum using assms \<open>r < 10\<close> by (auto split: if_splits)
qed

lemma luhn_cd_iff:
  assumes "all_digits (s @ [c])"
  shows "luhn_cd s = Inr [c] \<longleftrightarrow> (luhn_sum 0 (rev s) + digit_val c) mod 10 = 0"
proof -
  let ?k = "(10 - luhn_sum 0 (rev s) mod 10) mod 10"
  have "luhn_cd s = Inr [digit_char ?k]"
    using assms by (simp add: luhn_cd_digits dec_str_small)
  moreover have "[digit_char ?k] = [c] \<longleftrightarrow> digit_val c = ?k"
    using assms by (metis all_digits_simps digit_char_digit_val digit_val_digit_char list.inject
        mod_less_divisor zero_less_numeral)
  ultimately show ?thesis
    using check_digit_mod [of "digit_val c"] digit_val_less assms by auto
qed

lemma luhn_sum_update:
  "k < length s \<Longrightarrow>
   luhn_sum i (s[k := c]) + luhn_doubled (i + k) (digit_val (s ! k)) =
   luhn_sum i s + luhn_doubled (i + k) (digit_val c)"
proof (induction s arbitrary: i k)
  case Nil
  then show ?case by simp
next
  case (Cons x s)
  then show ?case
    using Cons.IH [of "k - 1" "Suc i"] by (cases k) auto
qed

text \<open>Doubling permutes the digits, so no two digits weigh the same in any position.\<close>

lemma luhn_doubled_inj:
  "m < 10 \<Longrightarrow> n < 10 \<Longrightarrow> luhn_doubled i m mod 10 = luhn_doubled i n mod 10 \<Longrightarrow> m = n"
  unfolding luhn_doubled_def by (auto split: if_splits; presburger)

lemma luhn_sum_change:
  assumes "all_digits s" "is_digit c" "k < length s"
    and "(luhn_sum i s + d) mod 10 = 0" "(luhn_sum i (s[k := c]) + d) mod 10 = 0"
  shows "c = s ! k"
proof -
  have dk: "is_digit (s ! k)"
    using assms(1,3) by (simp add: all_digits_iff)
  have "(luhn_sum i (s[k := c]) + d + luhn_doubled (i + k) (digit_val (s ! k))) mod 10 =
      (luhn_sum i s + d + luhn_doubled (i + k) (digit_val c)) mod 10"
    using luhn_sum_update [OF assms(3), of i c] by (metis add.commute add.left_commute)
  then have "luhn_doubled (i + k) (digit_val (s ! k)) mod 10 = luhn_doubled (i + k) (digit_val c) mod 10"
    using assms(4,5) by (metis add_0 mod_add_left_eq)
  then have "digit_val (s ! k) = digit_val c"
    using luhn_doubled_inj digit_val_less dk assms(2) by blast
  then show ?thesis
    using digit_char_digit_val dk assms(2) by metis
qed

section \<open>NPI\<close>

lemma NPI_PREFIX_digits [simp]: "all_digits NPI_PREFIX"
  by (simp add: NPI_PREFIX_def is_digit_def)

lemma npi_validate_iff:
  assumes "length s = 10"
  shows "npi_validate s = Inr True \<longleftrightarrow> all_digits s \<and> s ! 0 \<in> {CHR ''1'', CHR ''2''} \<and>
    (luhn_sum 0 (rev (NPI_PREFIX @ take 9 s)) + digit_val (s ! 9)) mod 10 = 0"
proof -
  have s: "s = take 9 s @ [s ! 9]"
    using assms take_Suc_conv_app_nth [of 9 s] by simp
  show ?thesis
  proof (cases "all_digits s")
    case True
    then have "all_digits ((NPI_PREFIX @ take 9 s) @ [s ! 9])"
      using s by (metis NPI_PREFIX_digits all_digits_simps(3))
    from luhn_cd_iff [OF this] True assms show ?thesis
      by (auto simp: npi_validate_def npi_re_match_def npi_calc_check_digit_def result_simps)
  next
    case False
    with assms show ?thesis
      by (auto simp: npi_validate_def npi_re_match_def)
  qed
qed

lemma npi_validate_digits:
  assumes "length s = 10" "all_digits s"
  shows "\<exists>b. npi_validate s = Inr b"
  using assms all_digits_take [of s 9]
  by (auto simp: npi_validate_def npi_calc_check_digit_def luhn_cd_digits)

lemma rev_update: "k < length s \<Longrightarrow> rev (s[k := c]) = (rev s)[length s - 1 - k := c]"
  by (rule nth_equalityI) (auto simp: rev_nth nth_list_update)

text \<open>A valid NPI with exactly one digit replaced by a different digit is never valid: the
  validator detects every single-digit error.\<close>

theorem npi_detects_single_digit_error:
  assumes "length s = 10" "npi_validate s = Inr True" "k < 10" "is_digit c" "c \<noteq> s ! k"
  shows "npi_validate (s[k := c]) = Inr False"
proof -
  have sd: "all_digits s" and s0: "(luhn_sum 0 (rev (NPI_PREFIX @ take 9 s)) + digit_val (s ! 9)) mod 10 = 0"
    using assms(2) npi_validate_iff [OF assms(1)] by auto
  have ud: "all_digits (s[k := c])"
    using sd assms(4) set_update_subset_insert [of s k c] by (auto simp: all_digits_iff)
  have "npi_validate (s[k := c]) \<noteq> Inr True"
  proof
    assume "npi_validate (s[k := c]) = Inr True"
    then have u0: "(luhn_sum 0 (rev (NPI_PREFIX @ take 9 (s[k := c]))) + digit_val (s[k := c] ! 9)) mod 10 = 0"
      using npi_validate_iff [of "s[k := c]"] assms(1) by simp
    show False
    proof (cases "k = 9")
      case True
      have d9: "is_digit (s ! 9)"
        using sd assms(1) by (simp add: all_digits_iff)
      have "digit_val c = digit_val (s ! 9)"
        using s0 u0 True assms(1) check_digit_mod [OF digit_val_less [OF d9]]
          check_digit_mod [OF digit_val_less [OF assms(4)]]
        by (simp add: take_update_cancel) metis
      then show False
        using True assms(4,5) d9 digit_char_digit_val by metis
    next
      case False
      let ?b = "NPI_PREFIX @ take 9 s"
      have k: "5 + k < length ?b" "length ?b = 14"
        using False assms(1,3) by (auto simp: NPI_PREFIX_def)
      have upd: "NPI_PREFIX @ take 9 (s[k := c]) = ?b[5 + k := c]"
        using False assms(3) by (simp add: list_update_append NPI_PREFIX_def take_update_swap)
      have "(luhn_sum 0 ((rev ?b)[length ?b - 1 - (5 + k) := c]) + digit_val (s ! 9)) mod 10 = 0"
        using u0 False unfolding upd rev_update [OF k(1)] by simp
      then have "c = rev ?b ! (length ?b - 1 - (5 + k))"
        using luhn_sum_change [of "rev ?b" c "length ?b - 1 - (5 + k)" 0] s0 sd assms(4) k
        by (simp add: all_digits_take)
      then have "c = ?b ! (5 + k)"
        using k rev_nth [of "length ?b - 1 - (5 + k)" ?b] by (simp del: rev_append length_append append.simps)
      then show False
        using False assms(3,5) by (simp add: nth_append NPI_PREFIX_def)
    qed
  qed
  then show ?thesis
    using npi_validate_digits [OF _ ud] assms(1) by auto
qed

theorem npi_detects_single_digit_error_witness:
  "npi_validate ''1234567893'' = Inr True \<and> npi_validate (''1234567893''[4 := CHR ''9'']) = Inr False"
proof -
  have "npi_validate ''1234567893'' = Inr True"
    by code_simp
  moreover have "npi_validate (''1234567893''[4 := CHR ''9'']) = Inr False"
    by (rule npi_detects_single_digit_error) (code_simp | simp add: is_digit_def)+
  ultimately show ?thesis
    by blast
qed

text \<open>A nine-digit body that starts with 1 or 2 has a one-digit check digit, and appending it
  gives a string that both NPI validators of the engine accept.\<close>

theorem npi_check_digit_validates:
  assumes "length body = 9" "all_digits body" "body ! 0 \<in> {CHR ''1'', CHR ''2''}"
  shows "\<exists>c. npi_calc_check_digit body = Inr [c] \<and> npi_validate (body @ [c]) = Inr True \<and>
    is_valid_npi (body @ [c]) = Inr True"
proof -
  define t where "t = luhn_sum 0 (rev (NPI_PREFIX @ body))"
  define k where "k = (10 - t mod 10) mod 10"
  have k: "k < 10"
    by (simp add: k_def)
  have calc: "npi_calc_check_digit body = Inr [digit_char k]"
    using assms(2) k by (simp add: npi_calc_check_digit_def luhn_cd_digits dec_str_small k_def t_def)
  have "npi_validate (body @ [digit_char k]) = Inr True"
    using assms calc k by (simp add: npi_validate_def npi_re_match_def nth_append)
  moreover have "is_valid_npi (body @ [digit_char k]) = Inr True"
  proof -
    have "list_all py_isdigit_char (body @ [digit_char k])"
      using assms(2) k by (auto simp: list_all_iff py_isdigit_char_def all_digits_iff)
    moreover have "luhn_loop 0 0 (rev (NPI_PREFIX @ body)) = Inr t"
      using assms(2) luhn_loop_digits [of "rev (NPI_PREFIX @ body)" 0 0] by (simp add: t_def)
    ultimately show ?thesis
      using assms k by (simp add: is_valid_npi_def nth_append py_int_char_def k_def)
  qed
  ultimately show ?thesis
    using calc by blast
qed

theorem npi_check_digit_validates_witness:
  "\<exists>c. npi_calc_check_digit ''123456789'' = Inr [c] \<and> npi_validate (''123456789'' @ [c]) = Inr True \<and>
    is_valid_npi (''123456789'' @ [c]) = Inr True"
  by (rule npi_check_digit_validates) (simp_all add: is_digit_def)

text \<open>The two validators differ outside that domain: the regular expression of one accepts a final
  newline, and the other raises on a superscript digit.\<close>

lemma npi_validators_disagree_newline:
  "npi_validate (''1234567893'' @ [CHR 0x0A]) = Inr True \<and>
   is_valid_npi (''1234567893'' @ [CHR 0x0A]) = Inr False"
  by code_simp

lemma is_valid_npi_superscript_raises:
  "is_valid_npi (''12345678'' @ [CHR 0xB2] @ ''3'') = Inl ValueErr"
  by code_simp

section \<open>VIN\<close>

fun vin_sum :: "nat \<Rightarrow> string \<Rightarrow> nat" where
  "vin_sum i [] = 0"
| "vin_sum i (c # s) = the (map_of VIN_TRANS c) * VIN_WEIGHTS ! i + vin_sum (Suc i) s"

lemma vin_sum_append: "vin_sum i (s @ t) = vin_sum i s + vin_sum (i + length s) t"
  by (induction s arbitrary: i) auto

lemma vin_loop_value:
  "set s \<subseteq> set VIN_CHARSET \<Longrightarrow> i + length s \<le> 17 \<Longrightarrow> vin_loop i t s = Inr (t + vin_sum i s)"
proof (induction s arbitrary: i t)
  case Nil
  then show ?case by simp
next
  case (Cons c s)
  then have "c \<in> fst ` set VIN_TRANS"
    by (simp add: VIN_CHARSET_def)
  then obtain v where v: "map_of VIN_TRANS c = Some v"
    by (metis domIff dom_map_of_conv_image_fst option.exhaust_sel)
  moreover have "i < length VIN_WEIGHTS"
    using Cons.prems by (simp add: VIN_WEIGHTS_def)
  ultimately show ?case
    using Cons by simp
qed

definition vin_digit :: "nat \<Rightarrow> string" where
  "vin_digit n = (let r = n mod 11 in if r = 10 then ''X'' else dec_str r)"

lemma vin_check_value:
  "set s \<subseteq> set VIN_CHARSET \<Longrightarrow> length s = 17 \<Longrightarrow> vin_check_from_full s = Inr (vin_digit (vin_sum 0 s))"
  by (simp add: vin_check_from_full_def vin_loop_value vin_digit_def Let_def)

lemma vin_digit_single: "\<exists>c. vin_digit n = [c] \<and> c \<in> set VIN_CHARSET"
proof -
  have "list_all (\<lambda>r. case (if r = 10 then ''X'' else dec_str r) of [c] \<Rightarrow> c \<in> set VIN_CHARSET | _ \<Rightarrow> False) [0..<11]"
    by code_simp
  moreover have "n mod 11 \<in> set [0..<11]"
    by simp
  ultimately show ?thesis
    unfolding list_all_iff vin_digit_def Let_def by (fastforce split: list.splits)
qed

lemma vin_slot_weightless: "length a = 8 \<Longrightarrow> vin_sum 0 (a @ [c] @ b) = vin_sum 0 (a @ [d] @ b)"
  by (simp add: vin_sum_append VIN_WEIGHTS_def)

lemma vin_char_facts: "c \<in> set VIN_CHARSET \<Longrightarrow> \<not> py_space c \<and> py_upper_char c = [c]"
proof -
  have "list_all (\<lambda>c. \<not> py_space c \<and> py_upper_char c = [c]) VIN_CHARSET"
    by code_simp
  then show "c \<in> set VIN_CHARSET \<Longrightarrow> \<not> py_space c \<and> py_upper_char c = [c]"
    by (simp add: list_all_iff)
qed

lemma py_upper_vin: "set s \<subseteq> set VIN_CHARSET \<Longrightarrow> py_upper s = s"
  using vin_char_facts by (intro py_upper_id) blast

lemma py_strip_vin: "set s \<subseteq> set VIN_CHARSET \<Longrightarrow> py_strip s = s"
  using vin_char_facts by (intro py_strip_id) blast

lemma vin_insert_validates:
  assumes "set (a @ b) \<subseteq> set VIN_CHARSET" "length a = 8" "length b = 8"
    and "vin_calc_check_digit (a @ b) = Inr cd"
  shows "\<exists>c. cd = [c] \<and> c \<in> set VIN_CHARSET \<and> vin_validate (a @ [c] @ b) = Inr True"
proof -
  have z: "CHR ''0'' \<in> set VIN_CHARSET"
    by code_simp
  have cd: "cd = vin_digit (vin_sum 0 (a @ [CHR ''0''] @ b))"
    using assms z vin_check_value [of "a @ [CHR ''0''] @ b"] by (simp add: vin_calc_check_digit_def)
  then obtain c where c: "cd = [c]" "c \<in> set VIN_CHARSET"
    using vin_digit_single by blast
  let ?w = "a @ [c] @ b"
  have w: "set ?w \<subseteq> set VIN_CHARSET" "length ?w = 17" "?w ! 8 = c"
    using assms c by (auto simp: nth_append)
  have "vin_check_from_full ?w = Inr [c]"
    using vin_check_value [OF w(1,2)] cd c vin_slot_weightless [OF assms(2)] by metis
  then have "vin_validate ?w = Inr True"
    using w by (simp only: vin_validate_def py_strip_vin py_upper_vin Let_def) (auto simp: list_all_iff)
  then show ?thesis
    using c by blast
qed

section \<open>An instance of the stdnum parameter\<close>

definition trailing_luhn :: "string \<Rightarrow> bool" where
  "trailing_luhn s \<longleftrightarrow> s \<noteq> [] \<and> luhn_cd (butlast s) = Inr [last s]"

definition demo_stdnum :: stdnum where
  "demo_stdnum = \<lparr>luhn_is_valid = trailing_luhn, luhn_calc = luhn_cd, ean_is_valid = trailing_luhn,
     ean_calc = luhn_cd, isbn_is_valid = (\<lambda>s. take 3 s \<in> {''978'', ''979''} \<and> trailing_luhn s),
     iban_is_valid = (\<lambda>s. False), iban_calc = (\<lambda>s. Inl ValueErr)\<rparr>"

lemma luhn_cd_single: "all_digits s \<Longrightarrow> \<exists>k. luhn_cd s = Inr [k] \<and> is_digit k"
  by (auto simp: luhn_cd_digits dec_str_small)

lemma demo_stdnum_laws: "stdnum_laws demo_stdnum"
  unfolding stdnum_laws_def demo_stdnum_def
  by (intro conjI allI impI) (auto simp: trailing_luhn_def luhn_cd_single)

section \<open>VIN property\<close>

text \<open>For every sixteen characters of the VIN alphabet the check character is computed without
  error, and inserting it at position 8 gives a VIN the validator accepts.\<close>

theorem vin_check_digit_validates:
  assumes "length body = 16" "set body \<subseteq> set VIN_CHARSET"
  shows "\<exists>c. calc_check_digit S ''vin'' body = Inr [c] \<and>
    validate S ''vin'' (take 8 body @ [c] @ drop 8 body) = Inr True"
proof -
  have z: "CHR ''0'' \<in> set VIN_CHARSET"
    by code_simp
  have "set (take 8 body @ [CHR ''0''] @ drop 8 body) \<subseteq> set VIN_CHARSET"
    using assms(2) z set_take_subset [of 8 body] set_drop_subset [of 8 body] by auto
  then obtain cd where "vin_calc_check_digit (take 8 body @ drop 8 body) = Inr cd"
    using vin_check_value assms(1) by (simp add: vin_calc_check_digit_def)
  with vin_insert_validates [of "take 8 body" "drop 8 body" cd] assms show ?thesis
    by (auto simp: calc_check_digit_def validate_def KNOWN_SCHEMES_def)
qed

theorem vin_check_digit_validates_witness:
  "\<exists>c. calc_check_digit demo_stdnum ''vin'' ''1HGCM826A0B23456'' = Inr [c] \<and>
    validate demo_stdnum ''vin'' (take 8 ''1HGCM826A0B23456'' @ [c] @ drop 8 ''1HGCM826A0B23456'') = Inr True"
  by (rule vin_check_digit_validates) (simp, code_simp)

end
