(* ===== verification/Utf8.thy ===== *)
theory Utf8
  imports Decoy_Prelude
begin

text \<open>
  \<open>str.encode("utf-8")\<close> on code points up to 255, and that it is injective. Shared by the tweak
  frame of the fpe strategy and the envelope of the determinism layer.
\<close>

definition utf8_char :: "char \<Rightarrow> bytes" where
  "utf8_char c = (let n = (of_char c :: nat) in
     if n < 128 then [word_of_nat n] else [word_of_nat (192 + n div 64), word_of_nat (128 + n mod 64)])"

definition utf8 :: "string \<Rightarrow> bytes" where
  "utf8 s = concat (map utf8_char s)"

lemma byte_of_nat_inj: "m < 256 \<Longrightarrow> n < 256 \<Longrightarrow> (word_of_nat m :: byte) = word_of_nat n \<longleftrightarrow> m = n"
  by (simp add: word_of_nat_eq_iff take_bit_nat_eq_self)

lemma utf8_char_shape:
  "(of_char c :: nat) < 128 \<Longrightarrow> utf8_char c = [word_of_nat (of_char c)]"
  "128 \<le> (of_char c :: nat) \<Longrightarrow>
     utf8_char c = [word_of_nat (192 + of_char c div 64), word_of_nat (128 + of_char c mod 64)]"
  by (simp_all add: utf8_char_def Let_def)

lemma utf8_inj: "utf8 s = utf8 t \<Longrightarrow> s = t"
proof (induction s arbitrary: t)
  case Nil
  then show ?case
    by (cases t) (auto simp: utf8_def utf8_char_def Let_def split: if_splits)
next
  case (Cons c s)
  obtain d t' where t: "t = d # t'"
    using Cons.prems by (cases t) (auto simp: utf8_def utf8_char_def Let_def split: if_splits)
  define m n where "m = (of_char c :: nat)" and "n = (of_char d :: nat)"
  have b: "m < 256" "n < 256"
    by (simp_all add: m_def n_def)
  have eq: "utf8_char c @ utf8 s = utf8_char d @ utf8 t'"
    using Cons.prems t by (simp add: utf8_def)
  note shapes = utf8_char_shape [of c, folded m_def] utf8_char_shape [of d, folded n_def]
  have "m = n \<and> utf8 s = utf8 t'"
  proof (cases "m < 128"; cases "n < 128")
    assume "m < 128" "n < 128"
    then show ?thesis
      using eq b byte_of_nat_inj [of m n] shapes by (simp only: append.simps list.inject)
  next
    assume "m < 128" "\<not> n < 128"
    then show ?thesis
      using eq b byte_of_nat_inj [of m "192 + n div 64"] shapes by (simp only: append.simps list.inject; simp)
  next
    assume "\<not> m < 128" "n < 128"
    then show ?thesis
      using eq b byte_of_nat_inj [of "192 + m div 64" n] shapes by (simp only: append.simps list.inject; simp)
  next
    assume "\<not> m < 128" "\<not> n < 128"
    then have "m div 64 = n div 64 \<and> m mod 64 = n mod 64 \<and> utf8 s = utf8 t'"
      using eq b byte_of_nat_inj [of "192 + m div 64" "192 + n div 64"]
        byte_of_nat_inj [of "128 + m mod 64" "128 + n mod 64"] shapes
      by (simp only: append.simps list.inject; simp)
    then show ?thesis
      by (metis div_mult_mod_eq)
  qed
  then show ?case
    using Cons.IH [of t'] t by (simp add: m_def n_def)
qed

end
