(* ===== verification/FPE.thy ===== *)
theory FPE
  imports FF1 Checksums Utf8
begin

text \<open>
  The format-preserving-encryption strategy: \<open>transforms/fpe.py\<close> and
  \<open>transforms/_fpe_checksum.py\<close>. One definition per function, in the order of the source:
  charset resolution and checks, the tweak frame, the leaf permutation over FF1, the check-digit
  modes and the separator-preserving orchestration. The cipher under the string layers is used
  through the locale \<open>string_cipher\<close> (what a client may rely on: same length, same alphabet,
  invertible), which is interpreted on the model's own \<open>permute\<close> in both directions.
\<close>

section \<open>Model\<close>

datatype fpe_code = FPE_UNENCRYPTABLE | FPE_UNENCRYPTABLE_DOMAIN | FPE_UNENCRYPTABLE_LENGTH

text \<open>\<open>Unencryptable\<close> is \<open>FpeUnencryptableError\<close> with its code, the next two are
  \<open>FpeChecksumError\<close> with its two codes and the scheme; the last two are exceptions that no handler
  of the module catches.\<close>

datatype fpe_error =
    Unencryptable fpe_code | ChecksumUnsupported string | ChecksumInvalidSource string
  | RaisedFf1 ff1_error | RaisedPy checksum_error

definition DIGITS_ONLY :: string where "DIGITS_ONLY = ''0123456789''"

definition CHARSETS :: "(string \<times> string) list" where
  "CHARSETS =
     [(''digits'', ''0123456789''),
      (''alpha'', ''abcdefghijklmnopqrstuvwxyz''),
      (''ALPHA'', ''ABCDEFGHIJKLMNOPQRSTUVWXYZ''),
      (''alphanum'', ''0123456789abcdefghijklmnopqrstuvwxyz''),
      (''ALPHANUM'', ''0123456789ABCDEFGHIJKLMNOPQRSTUVWXYZabcdefghijklmnopqrstuvwxyz'')]"

text \<open>The \<open>{char: index}\<close> dictionary; on a repeated character the last index wins.\<close>

definition char_lookup :: "string \<Rightarrow> char \<Rightarrow> nat option" where
  "char_lookup charset = map_of (rev (zip charset [0..<length charset]))"

definition resolve_fpe_charset :: "string \<Rightarrow> string" where
  "resolve_fpe_charset spec = (case map_of CHARSETS spec of Some cs \<Rightarrow> cs | None \<Rightarrow> spec)"

definition check_charset_unique :: "string \<Rightarrow> fpe_error + unit" where
  "check_charset_unique charset = require (distinct charset) (Unencryptable FPE_UNENCRYPTABLE_LENGTH)"

definition check_charset_ascii_printable :: "string \<Rightarrow> fpe_error + unit" where
  "check_charset_ascii_printable charset =
     require (list_all (\<lambda>ch. 0x21 \<le> (of_char ch :: nat) \<and> (of_char ch :: nat) \<le> 0x7E) charset)
       (Unencryptable FPE_UNENCRYPTABLE_LENGTH)"

definition FF1_TWEAK_VERSION :: nat where "FF1_TWEAK_VERSION = 1"
definition FF1_TWEAK_SCOPE_COLUMN :: nat where "FF1_TWEAK_SCOPE_COLUMN = 1"
definition FF1_TWEAK_SCOPE_JOIN_GROUP :: nat where "FF1_TWEAK_SCOPE_JOIN_GROUP = 2"
definition FF1_TWEAK_SCOPE_TEXT_SPAN :: nat where "FF1_TWEAK_SCOPE_TEXT_SPAN = 3"

definition FF1_KEY_LABEL :: bytes where "FF1_KEY_LABEL = utf8 ''ff1-key/v1''"

definition build_ff1_tweak :: "nat \<Rightarrow> string \<Rightarrow> fpe_error + bytes" where
  "build_ff1_tweak scope identity =
     (let identity_bytes = utf8 identity in
      if 0xFFFF < length identity_bytes then Inl (Unencryptable FPE_UNENCRYPTABLE_LENGTH)
      else if 256 \<le> scope then Inl (RaisedPy ValueErr)
      else and_then (of_option (RaisedFf1 IntOverflow) (to_bytes (int (length identity_bytes)) 2)) (\<lambda>lb.
        let tweak = [word_of_nat FF1_TWEAK_VERSION, word_of_nat scope] @ lb @ identity_bytes in
        if FF1_MAX_TWEAK_LEN < length tweak then Inl (Unencryptable FPE_UNENCRYPTABLE_LENGTH)
        else Inr tweak))"

text \<open>\<open>fpe._luhn_check_digit\<close> has the same body as \<open>checksums._luhn_cd\<close>.\<close>

definition luhn_check_digit :: "string \<Rightarrow> fpe_error + string" where
  "luhn_check_digit body =
     on_error RaisedPy (and_then (luhn_loop 0 0 (rev body)) (\<lambda>acc. Inr (dec_str ((10 - acc mod 10) mod 10))))"

text \<open>\<open>except Ff1Error\<close>: every error of the primitive but an integer overflow.\<close>

definition wrap_ff1 :: "ff1_error \<Rightarrow> fpe_error" where
  "wrap_ff1 e = (if e = IntOverflow then RaisedFf1 e else Unencryptable FPE_UNENCRYPTABLE_LENGTH)"

definition permute :: "aes \<Rightarrow> bool \<Rightarrow> bytes \<Rightarrow> string \<Rightarrow> bytes \<Rightarrow> string \<Rightarrow> fpe_error + string" where
  "permute A forward key charset tweak s =
     (let n = length s; radix = length charset in
      if n = 0 then Inr s
      else if length key \<noteq> FF1_KEY_BYTES then Inl (Unencryptable FPE_UNENCRYPTABLE_LENGTH)
      else if \<not> (FF1_MIN_RADIX \<le> int radix \<and> int radix \<le> FF1_MAX_RADIX)
        then Inl (Unencryptable FPE_UNENCRYPTABLE_LENGTH)
      else if \<not> distinct charset then Inl (Unencryptable FPE_UNENCRYPTABLE_LENGTH)
      else and_then (check_charset_ascii_printable charset) (\<lambda>_.
        and_then (on_error RaisedFf1 (min_domain_length (int radix))) (\<lambda>min_len.
        if n < min_len then Inl (Unencryptable FPE_UNENCRYPTABLE_DOMAIN)
        else if FF1_MAX_LEN < n then Inl (Unencryptable FPE_UNENCRYPTABLE_LENGTH)
        else if FF1_MAX_TWEAK_LEN < length tweak then Inl (Unencryptable FPE_UNENCRYPTABLE_LENGTH)
        else if \<not> list_all (\<lambda>ch. char_lookup charset ch \<noteq> None) s
          then Inl (Unencryptable FPE_UNENCRYPTABLE_LENGTH)
        else let numerals = map (\<lambda>ch. int (the (char_lookup charset ch))) s in
          and_then (on_error wrap_ff1
              (if forward then encrypt A key tweak (int radix) numerals
               else decrypt A key tweak (int radix) numerals)) (\<lambda>res.
          Inr (map (\<lambda>i. charset ! nat i) res)))))"

definition EXACT_LENGTHS :: "(string \<times> nat list) list" where
  "EXACT_LENGTHS = [(''npi'', [10]), (''isbn13'', [13]), (''ean13'', [13]), (''vin'', [17]),
     (''gtin'', [8, 12, 13, 14])]"

definition MIN_LENGTHS :: "(string \<times> nat) list" where
  "MIN_LENGTHS = [(''luhn'', 2)]"

text \<open>The minimum alphabet of each scheme (\<open>checksums._SCHEME_REQUIRED_CHARSET\<close>).\<close>

definition SCHEME_REQUIRED_CHARSET :: "(string \<times> string) list" where
  "SCHEME_REQUIRED_CHARSET =
     [(''luhn'', DIGITS_ONLY), (''npi'', DIGITS_ONLY), (''ean13'', DIGITS_ONLY),
      (''isbn13'', DIGITS_ONLY), (''gtin'', DIGITS_ONLY), (''vin'', VIN_CHARSET)]"

definition validate_scheme_length :: "string \<Rightarrow> string \<Rightarrow> fpe_error + unit" where
  "validate_scheme_length scheme s =
     (case map_of EXACT_LENGTHS scheme of
        Some exact \<Rightarrow> require (length s \<in> set exact) (ChecksumUnsupported scheme)
      | None \<Rightarrow> (case map_of MIN_LENGTHS scheme of
          Some minimum \<Rightarrow> require (minimum \<le> length s) (ChecksumUnsupported scheme)
        | None \<Rightarrow> Inr ()))"

definition fpe_checksum_permute ::
    "aes \<Rightarrow> stdnum \<Rightarrow> bool \<Rightarrow> bytes \<Rightarrow> string \<Rightarrow> bytes \<Rightarrow> string \<Rightarrow> string \<Rightarrow> fpe_error + string" where
  "fpe_checksum_permute A S forward key charset tweak scheme s =
     (if scheme \<notin> set KNOWN_SCHEMES then Inl (ChecksumUnsupported scheme)
      else if scheme = ''iban'' then Inl (ChecksumUnsupported scheme)
      else and_then (validate_scheme_length scheme s) (\<lambda>_.
        and_then (if forward then on_error RaisedPy (validate S scheme s) else Inr True) (\<lambda>valid.
        if \<not> valid then Inl (ChecksumInvalidSource scheme)
        else if scheme \<in> {''luhn'', ''ean13'', ''gtin''} then
          and_then (permute A forward key DIGITS_ONLY tweak (butlast s)) (\<lambda>body.
          and_then (on_error RaisedPy (calc_check_digit S scheme body)) (\<lambda>cd. Inr (body @ cd)))
        else if scheme = ''npi'' then
          and_then (permute A forward key DIGITS_ONLY tweak (take 8 (drop 1 s))) (\<lambda>middle_body.
          let body9 = s ! 0 # middle_body in
          and_then (on_error RaisedPy (calc_check_digit S ''npi'' body9)) (\<lambda>cd. Inr (body9 @ cd)))
        else if scheme = ''isbn13'' then
          and_then (permute A forward key DIGITS_ONLY tweak (take 9 (drop 3 s))) (\<lambda>inner.
          let body12 = take 3 s @ inner in
          and_then (on_error RaisedPy (calc_check_digit S ''isbn13'' body12)) (\<lambda>cd. Inr (body12 @ cd)))
        else if scheme = ''vin'' then
          let filtered = filter (\<lambda>c. c \<in> set VIN_CHARSET) charset;
              vin_charset = (if length filtered < 2 then DIGITS_ONLY else filtered) in
          and_then (permute A forward key vin_charset tweak (take 8 s @ drop 9 s)) (\<lambda>enc.
          and_then (on_error RaisedPy (calc_check_digit S ''vin'' enc)) (\<lambda>cd.
          Inr (take 8 enc @ cd @ drop 8 enc)))
        else Inl (ChecksumUnsupported scheme))))"

text \<open>The configuration a value is masked under.\<close>

record fpe_config =
  fc_key :: bytes
  fc_charset :: string
  fc_tweak :: bytes
  fc_preserve_separators :: bool
  fc_validate_luhn :: bool
  fc_checksum :: "string option"

definition fpe_pure_value :: "aes \<Rightarrow> stdnum \<Rightarrow> bool \<Rightarrow> fpe_config \<Rightarrow> string \<Rightarrow> fpe_error + string" where
  "fpe_pure_value A S forward cfg s =
     (if s = [] then Inr s
      else case fc_checksum cfg of
        Some scheme \<Rightarrow>
          fpe_checksum_permute A S forward (fc_key cfg) (fc_charset cfg) (fc_tweak cfg) scheme s
      | None \<Rightarrow>
          if fc_validate_luhn cfg \<and> 2 \<le> length s then
            and_then (permute A forward (fc_key cfg) (fc_charset cfg) (fc_tweak cfg) (butlast s)) (\<lambda>body.
            and_then (luhn_check_digit body) (\<lambda>cd. Inr (body @ cd)))
          else permute A forward (fc_key cfg) (fc_charset cfg) (fc_tweak cfg) s)"

definition in_charset_positions :: "string \<Rightarrow> string \<Rightarrow> nat list" where
  "in_charset_positions charset s = filter (\<lambda>i. s ! i \<in> set charset) [0..<length s]"

definition reinsert :: "string \<Rightarrow> nat list \<Rightarrow> string \<Rightarrow> string" where
  "reinsert s positions body = foldl (\<lambda>res (pos, ch). res[pos := ch]) s (zip positions body)"

definition fpe_value :: "aes \<Rightarrow> stdnum \<Rightarrow> bool \<Rightarrow> fpe_config \<Rightarrow> string \<Rightarrow> fpe_error + string" where
  "fpe_value A S forward cfg s =
     (if s = [] then Inl (Unencryptable FPE_UNENCRYPTABLE_DOMAIN)
      else if fc_preserve_separators cfg then
        let positions = in_charset_positions (fc_charset cfg) s in
        if positions = [] then Inl (Unencryptable FPE_UNENCRYPTABLE)
        else and_then (fpe_pure_value A S forward cfg (map (\<lambda>i. s ! i) positions)) (\<lambda>body.
          if length body \<noteq> length positions then Inl (Unencryptable FPE_UNENCRYPTABLE)
          else Inr (reinsert s positions body))
      else if \<not> list_all (\<lambda>ch. ch \<in> set (fc_charset cfg)) s then Inl (Unencryptable FPE_UNENCRYPTABLE)
      else fpe_pure_value A S forward cfg s)"

definition fpe_encrypt_value :: "aes \<Rightarrow> stdnum \<Rightarrow> fpe_config \<Rightarrow> string \<Rightarrow> fpe_error + string" where
  "fpe_encrypt_value A S cfg s = fpe_value A S True cfg s"

definition fpe_decrypt_value :: "aes \<Rightarrow> stdnum \<Rightarrow> fpe_config \<Rightarrow> string \<Rightarrow> fpe_error + string" where
  "fpe_decrypt_value A S cfg s = fpe_value A S False cfg s"

section \<open>The leaf permutation\<close>

lemma char_lookup_eq:
  assumes "distinct cs"
  shows "char_lookup cs c = Some i \<longleftrightarrow> i < length cs \<and> cs ! i = c"
proof -
  have "map_of (rev (zip cs [0..<length cs])) c = Some i \<longleftrightarrow> (c, i) \<in> set (rev (zip cs [0..<length cs]))"
    using assms by (intro map_of_eq_Some_iff) (simp flip: rev_map)
  then show ?thesis
    by (auto simp: char_lookup_def set_zip)
qed

lemma char_lookup_None: "char_lookup cs c = None \<longleftrightarrow> c \<notin> set cs"
proof -
  have "fst ` set (zip cs [0..<length cs]) = set cs"
    by (simp flip: set_map)
  then show ?thesis
    by (simp add: char_lookup_def map_of_eq_None_iff)
qed

lemma char_lookup_Some:
  assumes "distinct cs" "c \<in> set cs"
  obtains i where "char_lookup cs c = Some i" "i < length cs" "cs ! i = c"
  using assms char_lookup_None char_lookup_eq by (metis option.exhaust)

definition profile_ok :: "bytes \<Rightarrow> string \<Rightarrow> bytes \<Rightarrow> nat \<Rightarrow> bool" where
  "profile_ok key cs tw n \<longleftrightarrow>
     0 < n \<and> length key = FF1_KEY_BYTES \<and> FF1_MIN_RADIX \<le> int (length cs) \<and>
     int (length cs) \<le> FF1_MAX_RADIX \<and> distinct cs \<and> check_charset_ascii_printable cs = Inr () \<and>
     (\<exists>m. min_domain_length (int (length cs)) = Inr m \<and> m \<le> n) \<and> n \<le> FF1_MAX_LEN \<and>
     length tw \<le> FF1_MAX_TWEAK_LEN"

definition numerals_of :: "string \<Rightarrow> string \<Rightarrow> int list" where
  "numerals_of cs s = map (\<lambda>ch. int (the (char_lookup cs ch))) s"

definition chars_of :: "string \<Rightarrow> int list \<Rightarrow> string" where
  "chars_of cs xs = map (\<lambda>i. cs ! nat i) xs"

lemma permute_eval:
  assumes "profile_ok key cs tw (length s)" "set s \<subseteq> set cs"
  shows "permute A fwd key cs tw s =
    and_then (on_error wrap_ff1 ((if fwd then encrypt else decrypt) A key tw (int (length cs)) (numerals_of cs s)))
      (\<lambda>res. Inr (chars_of cs res))"
proof -
  have "list_all (\<lambda>ch. char_lookup cs ch \<noteq> None) s"
    using assms(2) by (auto simp: list_all_iff char_lookup_None)
  then show ?thesis
    using assms(1) unfolding profile_ok_def permute_def Let_def numerals_of_def chars_of_def by auto
qed

lemma permute_Inr_ok:
  assumes "permute A fwd key cs tw s = Inr t" "s \<noteq> []"
  shows "profile_ok key cs tw (length s) \<and> set s \<subseteq> set cs"
proof -
  have "list_all (\<lambda>ch. char_lookup cs ch \<noteq> None) s"
    using assms by (auto simp: permute_def Let_def result_simps split: if_splits)
  moreover have "profile_ok key cs tw (length s)"
    using assms by (auto simp: permute_def profile_ok_def Let_def result_simps split: if_splits)
  ultimately show ?thesis
    by (fastforce simp: list_all_iff char_lookup_None)
qed

lemma numerals_input_ok:
  assumes "profile_ok key cs tw (length s)" "set s \<subseteq> set cs"
  shows "ff1_input_ok key tw (int (length cs)) (numerals_of cs s)"
proof -
  have d: "distinct cs" and r: "2 \<le> length cs" "length cs \<le> 64"
    using assms(1) by (auto simp: profile_ok_def FF1_MIN_RADIX_def FF1_MAX_RADIX_def)
  obtain m where m: "min_domain_length (int (length cs)) = Inr m" "m \<le> length s"
    using assms(1) by (auto simp: profile_ok_def)
  have "FF1_MIN_DOMAIN \<le> int (length cs) ^ m" "0 < m"
    using m(1) r min_domain_loop_least [of "int (length cs)" 1 "int (length cs)"]
    by (auto simp: min_domain_length_def split: if_splits)
  then have "2 \<le> m"
    using r by (cases "m = 1") (auto simp: FF1_MIN_DOMAIN_def)
  moreover have "numerals_ok (int (length cs)) (numerals_of cs s)"
    unfolding numerals_ok_def numerals_of_def
  proof
    fix x
    assume "x \<in> set (map (\<lambda>ch. int (the (char_lookup cs ch))) s)"
    then obtain c where c: "c \<in> set cs" "x = int (the (char_lookup cs c))"
      using assms(2) by auto
    then show "0 \<le> x \<and> x < int (length cs)"
      using char_lookup_Some [OF d c(1)] by (metis nat_int option.sel of_nat_0_le_iff of_nat_less_iff)
  qed
  ultimately show ?thesis
    using assms(1) m(2) r
    by (auto simp: profile_ok_def ff1_input_ok_def numerals_of_def FF1_KEY_BYTES_def FF1_MAX_LEN_def
        FF1_MAX_TWEAK_LEN_def FF1_STANDARD_MAX_RADIX_def)
qed

lemma chars_numerals: "distinct cs \<Longrightarrow> set s \<subseteq> set cs \<Longrightarrow> chars_of cs (numerals_of cs s) = s"
proof (induction s)
  case Nil
  then show ?case by (simp add: chars_of_def numerals_of_def)
next
  case (Cons c s)
  then obtain i where "char_lookup cs c = Some i" "cs ! i = c"
    using char_lookup_Some by (metis list.set_intros(1) subsetD)
  with Cons show ?case
    by (auto simp: chars_of_def numerals_of_def)
qed

lemma numerals_chars:
  "distinct cs \<Longrightarrow> numerals_ok (int (length cs)) xs \<Longrightarrow> numerals_of cs (chars_of cs xs) = xs"
proof (induction xs)
  case Nil
  then show ?case by (simp add: chars_of_def numerals_of_def)
next
  case (Cons x xs)
  then have "char_lookup cs (cs ! nat x) = Some (nat x)"
    by (auto simp: char_lookup_eq numerals_ok_def)
  with Cons show ?case
    by (auto simp: chars_of_def numerals_of_def numerals_ok_def)
qed

lemma chars_of_set: "numerals_ok (int (length cs)) xs \<Longrightarrow> set (chars_of cs xs) \<subseteq> set cs"
  by (auto simp: chars_of_def numerals_ok_def)

lemma permute_total:
  assumes aes: "aes_lengths A" and ok: "profile_ok key cs tw (length s)" "set s \<subseteq> set cs"
  shows "\<exists>t. permute A fwd key cs tw s = Inr t \<and> length t = length s \<and> set t \<subseteq> set cs \<and>
    permute A (\<not> fwd) key cs tw t = Inr s"
proof -
  let ?xs = "numerals_of cs s" and ?r = "int (length cs)"
  have d: "distinct cs"
    using ok by (simp add: profile_ok_def)
  obtain ys where ys: "(if fwd then encrypt else decrypt) A key tw ?r ?xs = Inr ys"
      "length ys = length ?xs" "ff1_input_ok key tw ?r ys"
      "(if \<not> fwd then encrypt else decrypt) A key tw ?r ys = Inr ?xs"
    using encrypt_decrypt_total [OF aes numerals_input_ok [OF ok]]
      decrypt_encrypt_total [OF aes numerals_input_ok [OF ok]] by (cases fwd) auto
  have nok: "numerals_ok ?r ys"
    using ys(3) by (simp add: ff1_input_ok_def)
  have len: "length (chars_of cs ys) = length s"
    using ys(2) by (simp add: chars_of_def numerals_of_def)
  have "permute A (\<not> fwd) key cs tw (chars_of cs ys) = Inr (chars_of cs ?xs)"
    using permute_eval [of key cs tw "chars_of cs ys" A "\<not> fwd"] ok len chars_of_set [OF nok]
      numerals_chars [OF d nok] ys(4) by simp
  then show ?thesis
    using permute_eval [OF ok] ys(1) len chars_of_set [OF nok] chars_numerals [OF d ok(2)] by auto
qed

text \<open>The leaf raises its own error class on every violation of the profile, and the primitive below
  it never fails.\<close>

lemma permute_fails:
  assumes "aes_lengths A" "s \<noteq> []" "set s \<subseteq> set cs" "\<not> profile_ok key cs tw (length s)"
  shows "\<exists>code. permute A fwd key cs tw s = Inl (Unencryptable code)"
proof -
  have look: "list_all (\<lambda>ch. char_lookup cs ch \<noteq> None) s"
    using assms(3) by (auto simp: list_all_iff char_lookup_None)
  show ?thesis
  proof (cases "FF1_MIN_RADIX \<le> int (length cs)")
    case True
    then obtain m where "min_domain_length (int (length cs)) = Inr m"
      by (auto simp: min_domain_length_def FF1_MIN_RADIX_def)
    moreover have "check_charset_ascii_printable cs = Inr () \<or>
        check_charset_ascii_printable cs = Inl (Unencryptable FPE_UNENCRYPTABLE_LENGTH)"
      by (auto simp: check_charset_ascii_printable_def require_def)
    ultimately show ?thesis
      using assms(2,4) True unfolding permute_def Let_def profile_ok_def by auto
  next
    case False
    then show ?thesis
      using assms(2) unfolding permute_def Let_def by auto
  qed
qed

section \<open>The cipher interface\<close>

text \<open>What the string layers rely on. \<open>trusted\<close> is the condition on the parameters (here the
  documented sizes of AES) under which the laws hold.\<close>

locale string_cipher =
  fixes trusted :: bool and enc dec :: "string \<Rightarrow> 'e + string" and alphabet :: "char set"
  assumes enc_sound: "trusted \<Longrightarrow> enc s = Inr t \<Longrightarrow>
    length t = length s \<and> set s \<subseteq> alphabet \<and> set t \<subseteq> alphabet \<and> dec t = Inr s"
begin

lemma enc_inj: "trusted \<Longrightarrow> enc s = Inr t \<Longrightarrow> enc s' = Inr t \<Longrightarrow> s = s'"
  using enc_sound by (metis sum.inject(2))

text \<open>A body permuted by the cipher followed by a check digit computed from the result.\<close>

lemma with_check_digit:
  assumes "trusted"
    and "and_then (enc (butlast s)) (\<lambda>body. and_then (cd body) (\<lambda>d. Inr (body @ d))) = Inr t"
    and "s \<noteq> []" "cd (butlast s) = Inr [last s]" "\<And>b d. cd b = Inr d \<Longrightarrow> length d = 1"
  shows "length t = length s \<and> cd (butlast t) = Inr [last t] \<and> set (butlast t) \<subseteq> alphabet \<and>
    and_then (dec (butlast t)) (\<lambda>body. and_then (cd body) (\<lambda>d. Inr (body @ d))) = Inr s"
proof -
  obtain b d where b: "enc (butlast s) = Inr b" "cd b = Inr d" "t = b @ d"
    using assms(2) by (auto simp: result_simps)
  obtain c where "d = [c]"
    using assms(5) [OF b(2)] by (cases d) auto
  then show ?thesis
    using enc_sound [OF assms(1) b(1)] b assms(3,4) by (auto simp: append_butlast_last_id)
qed

end

lemma permute_sound:
  assumes "aes_lengths A" "permute A fwd key cs tw s = Inr t"
  shows "length t = length s \<and> set s \<subseteq> set cs \<and> set t \<subseteq> set cs \<and> permute A (\<not> fwd) key cs tw t = Inr s"
proof (cases "s = []")
  case True
  then show ?thesis
    using assms(2) by (simp add: permute_def)
next
  case False
  then show ?thesis
    using permute_Inr_ok [OF assms(2)] permute_total [OF assms(1), of key cs tw s fwd] assms(2) by auto
qed

interpretation fpe: string_cipher "aes_lengths A" "permute A True key cs tw" "permute A False key cs tw" "set cs"
  by unfold_locales (use permute_sound in fastforce)

interpretation fpe_inv: string_cipher "aes_lengths A" "permute A False key cs tw" "permute A True key cs tw" "set cs"
  by unfold_locales (use permute_sound in fastforce)

section \<open>Separators\<close>

definition in_body :: "string \<Rightarrow> string \<Rightarrow> string" where
  "in_body cs s = filter (\<lambda>c. c \<in> set cs) s"

lemma positions_body: "map (\<lambda>i. s ! i) (in_charset_positions cs s) = in_body cs s"
proof -
  have "in_body cs s = filter (\<lambda>c. c \<in> set cs) (map (\<lambda>i. s ! i) [0..<length s])"
    by (simp add: in_body_def map_nth)
  also have "\<dots> = map (\<lambda>i. s ! i) (in_charset_positions cs s)"
    by (simp add: in_charset_positions_def filter_map comp_def)
  finally show ?thesis by simp
qed

lemma positions_facts [simp]:
  "distinct (in_charset_positions cs s)"
  "i \<in> set (in_charset_positions cs s) \<longleftrightarrow> i < length s \<and> s ! i \<in> set cs"
  "length (in_charset_positions cs s) = length (in_body cs s)"
  by (auto simp: in_charset_positions_def simp flip: positions_body)

lemma reinsert_length [simp]: "length (reinsert s ps b) = length s"
proof -
  have "length (foldl (\<lambda>res (pos, ch). res[pos := ch]) s zs) = length s" for zs :: "(nat \<times> char) list"
    by (induction zs arbitrary: s) auto
  then show ?thesis
    by (simp add: reinsert_def)
qed

lemma reinsert_Cons: "reinsert s (p # ps) (c # b) = reinsert (s[p := c]) ps b"
  by (simp add: reinsert_def)

lemma reinsert_Nil: "reinsert s [] b = s" "reinsert s ps [] = s"
  by (simp_all add: reinsert_def)

lemma reinsert_out: "i \<notin> set ps \<Longrightarrow> reinsert s ps b ! i = s ! i"
proof (induction ps arbitrary: s b)
  case Nil
  then show ?case by (simp add: reinsert_Nil)
next
  case (Cons p ps)
  then show ?case by (cases b) (auto simp: reinsert_Nil reinsert_Cons)
qed

lemma reinsert_read:
  "distinct ps \<Longrightarrow> length b = length ps \<Longrightarrow> set ps \<subseteq> {..<length s} \<Longrightarrow> map (\<lambda>i. reinsert s ps b ! i) ps = b"
proof (induction ps arbitrary: s b)
  case Nil
  then show ?case by simp
next
  case (Cons p ps)
  then obtain c b' where b: "b = c # b'"
    by (cases b) auto
  with Cons show ?case
    by (auto simp: reinsert_Cons reinsert_out)
qed

lemma reinsert_in_charset:
  assumes "length b = length (in_body cs s)" "set b \<subseteq> set cs"
  defines "r \<equiv> reinsert s (in_charset_positions cs s) b"
  shows "in_charset_positions cs r = in_charset_positions cs s" "in_body cs r = b"
    "reinsert r (in_charset_positions cs s) (in_body cs s) = s"
    "\<forall>i < length s. if s ! i \<in> set cs then r ! i \<in> set cs else r ! i = s ! i"
proof -
  let ?p = "in_charset_positions cs s"
  have read: "map (\<lambda>i. r ! i) ?p = b"
    unfolding r_def using assms(1) by (intro reinsert_read) auto
  have inside: "r ! i \<in> set cs" if "i < length s" "s ! i \<in> set cs" for i
  proof -
    have "r ! i \<in> set (map (\<lambda>i. r ! i) ?p)"
      using that by simp
    then show ?thesis
      using read assms(2) by auto
  qed
  have outside: "r ! i = s ! i" if "s ! i \<notin> set cs" for i
    using that by (simp add: r_def reinsert_out)
  show "\<forall>i < length s. if s ! i \<in> set cs then r ! i \<in> set cs else r ! i = s ! i"
    using inside outside by simp
  have len: "length r = length s"
    by (simp add: r_def)
  show pos: "in_charset_positions cs r = ?p"
    unfolding in_charset_positions_def len by (rule filter_cong) (use inside outside in force)+
  show "in_body cs r = b"
    using read positions_body [of r cs] pos by simp
  let ?q = "reinsert r ?p (in_body cs s)"
  have restored: "map (\<lambda>i. ?q ! i) ?p = map (\<lambda>i. s ! i) ?p"
    using len by (subst reinsert_read) (auto simp: positions_body)
  show "?q = s"
  proof (rule nth_equalityI)
    show "length ?q = length s"
      by (simp add: len)
    fix i
    assume "i < length ?q"
    then show "?q ! i = s ! i"
      using restored outside len by (cases "s ! i \<in> set cs") (auto simp: reinsert_out map_eq_conv)
  qed
qed

lemma positions_Nil: "in_charset_positions cs s = [] \<longleftrightarrow> in_body cs s = []"
  by (simp flip: length_0_conv)

lemma in_body_id: "set s \<subseteq> set cs \<Longrightarrow> in_body cs s = s"
  by (auto simp: in_body_def filter_id_conv)

lemma fpe_value_eq:
  "fpe_value A S fwd cfg s =
     (let b = in_body (fc_charset cfg) s; pure = fpe_pure_value A S fwd cfg b in
      if s = [] then Inl (Unencryptable FPE_UNENCRYPTABLE_DOMAIN)
      else if fc_preserve_separators cfg then
        if b = [] then Inl (Unencryptable FPE_UNENCRYPTABLE)
        else and_then pure (\<lambda>body. if length body \<noteq> length b then Inl (Unencryptable FPE_UNENCRYPTABLE)
          else Inr (reinsert s (in_charset_positions (fc_charset cfg) s) body))
      else if \<not> set s \<subseteq> set (fc_charset cfg) then Inl (Unencryptable FPE_UNENCRYPTABLE)
      else pure)"
proof -
  have "list_all (\<lambda>ch. ch \<in> set (fc_charset cfg)) s \<longleftrightarrow> set s \<subseteq> set (fc_charset cfg)"
    by (auto simp: list_all_iff)
  then show ?thesis
    unfolding fpe_value_def Let_def positions_body positions_Nil positions_facts(3)
    by (simp add: in_body_id)
qed

lemma fpe_value_lift:
  assumes "fpe_value A S fwd cfg s = Inr out"
    and step: "\<And>b. fpe_pure_value A S fwd cfg (in_body (fc_charset cfg) s) = Inr b \<Longrightarrow>
      length b = length (in_body (fc_charset cfg) s) \<and> set b \<subseteq> set (fc_charset cfg) \<and>
      fpe_pure_value A S (\<not> fwd) cfg b = Inr (in_body (fc_charset cfg) s)"
  shows "length out = length s \<and> fpe_value A S (\<not> fwd) cfg out = Inr s \<and>
    fpe_pure_value A S fwd cfg (in_body (fc_charset cfg) s) = Inr (in_body (fc_charset cfg) out) \<and>
    (\<forall>i < length s. if s ! i \<in> set (fc_charset cfg) then out ! i \<in> set (fc_charset cfg) else out ! i = s ! i)"
proof (cases "fc_preserve_separators cfg")
  case True
  let ?cs = "fc_charset cfg" and ?p = "in_charset_positions (fc_charset cfg) s"
  obtain b where b: "fpe_pure_value A S fwd cfg (in_body ?cs s) = Inr b" "out = reinsert s ?p b"
      "s \<noteq> []" "?p \<noteq> []"
    using assms(1) True by (auto simp: fpe_value_def Let_def result_simps positions_body split: if_splits)
  note st = step [OF b(1)]
  note re = reinsert_in_charset [of b ?cs s, folded b(2)]
  have "out \<noteq> []"
    using b(2,3) by (metis length_0_conv reinsert_length)
  then have "fpe_value A S (\<not> fwd) cfg out = Inr (reinsert out ?p (in_body ?cs s))"
    using True st re b(4) positions_body [of out ?cs] by (simp add: fpe_value_def Let_def)
  then show ?thesis
    using st re b by simp
next
  case False
  then have s: "s \<noteq> []" "set s \<subseteq> set (fc_charset cfg)" "fpe_pure_value A S fwd cfg s = Inr out"
    using assms(1) by (auto simp: fpe_value_def list_all_iff split: if_splits)
  then have "in_body (fc_charset cfg) s = s"
    by (auto simp: in_body_def filter_id_conv)
  with step s(3) have st: "length out = length s" "set out \<subseteq> set (fc_charset cfg)"
      "fpe_pure_value A S (\<not> fwd) cfg out = Inr s"
    by auto
  then have "in_body (fc_charset cfg) out = out" "out \<noteq> []"
    using s(1) by (auto simp: in_body_def filter_id_conv)
  then show ?thesis
    using False s st \<open>in_body (fc_charset cfg) s = s\<close>
    by (auto simp: fpe_value_def list_all_iff dest: nth_mem)
qed

section \<open>Check-digit modes\<close>

lemma DIGITS_ONLY_set: "c \<in> set DIGITS_ONLY \<longleftrightarrow> is_digit c"
proof
  show "c \<in> set DIGITS_ONLY \<Longrightarrow> is_digit c"
    by (auto simp: DIGITS_ONLY_def is_digit_def)
next
  assume "is_digit c"
  then have "digit_char (digit_val c) = c" "digit_val c < 10"
    by (simp_all add: digit_val_less)
  moreover have "list_all (\<lambda>k. digit_char k \<in> set DIGITS_ONLY) [0..<10]"
    by code_simp
  ultimately show "c \<in> set DIGITS_ONLY"
    by (metis atLeast_upt list_all_iff lessThan_iff)
qed

lemma DIGITS_ONLY_sub: "set s \<subseteq> set DIGITS_ONLY \<longleftrightarrow> all_digits s"
  by (auto simp: all_digits_iff DIGITS_ONLY_set)

definition scheme_sound :: "aes \<Rightarrow> stdnum \<Rightarrow> bytes \<Rightarrow> string \<Rightarrow> bytes \<Rightarrow> string \<Rightarrow> string \<Rightarrow> bool \<Rightarrow> string \<Rightarrow> string \<Rightarrow> bool" where
  "scheme_sound A S key cs tw scheme req fwd s t \<longleftrightarrow>
     length t = length s \<and> set t \<subseteq> set req \<and> validate S scheme t = Inr True \<and>
     fpe_checksum_permute A S (\<not> fwd) key cs tw scheme t = Inr s"

lemma scheme_cases:
  assumes "fpe_checksum_permute A S fwd key cs tw scheme s = Inr t"
  obtains "scheme \<in> {''luhn'', ''ean13'', ''gtin''}" | "scheme = ''npi''" | "scheme = ''isbn13''"
    | "scheme = ''vin''"
  using assms by (auto simp: fpe_checksum_permute_def result_simps split: if_splits)

lemma scheme_gate:
  assumes "fpe_checksum_permute A S True key cs tw scheme s = Inr t"
  shows "validate_scheme_length scheme s = Inr () \<and> validate S scheme s = Inr True"
  using assms by (auto simp: fpe_checksum_permute_def result_simps split: if_splits)

lemmas scheme_simps = KNOWN_SCHEMES_def EXACT_LENGTHS_def MIN_LENGTHS_def validate_scheme_length_def
  validate_def calc_check_digit_def

lemma scheme_length_eq:
  "validate_scheme_length scheme s = Inr () \<Longrightarrow> length t = length s \<Longrightarrow> validate_scheme_length scheme t = Inr ()"
  by (auto simp: validate_scheme_length_def result_simps split: option.splits)

text \<open>The digit schemes permute the string between a pinned prefix and the trailing check digit.\<close>

definition pin :: "string \<Rightarrow> nat" where
  "pin scheme = (if scheme = ''npi'' then 1 else if scheme = ''isbn13'' then 3 else 0)"

definition pin_ok :: "string \<Rightarrow> string \<Rightarrow> bool" where
  "pin_ok scheme prefix \<longleftrightarrow>
     (scheme = ''npi'' \<longrightarrow> prefix \<in> {''1'', ''2''}) \<and> (scheme = ''isbn13'' \<longrightarrow> prefix \<in> {''978'', ''979''})"

definition digit_schemes :: "string list" where
  "digit_schemes = [''luhn'', ''ean13'', ''gtin'', ''npi'', ''isbn13'']"

lemma digit_scheme_law:
  assumes laws: "stdnum_laws S" and sch: "scheme \<in> set digit_schemes"
    and len: "validate_scheme_length scheme (body @ [c]) = Inr ()" and dig: "all_digits (body @ [c])"
  shows "(\<exists>k. calc_check_digit S scheme body = Inr [k] \<and> is_digit k) \<and>
    (validate S scheme (body @ [c]) = Inr True \<longleftrightarrow>
       pin_ok scheme (take (pin scheme) body) \<and> calc_check_digit S scheme body = Inr [c])"
proof -
  note luhn = laws [unfolded stdnum_laws_def, THEN conjunct1, rule_format, OF dig]
  note ean = laws [unfolded stdnum_laws_def, THEN conjunct2, THEN conjunct1, rule_format, OF dig]
  note isbn = laws [unfolded stdnum_laws_def, THEN conjunct2, THEN conjunct2, rule_format, OF dig]
  consider "scheme = ''luhn''" | "scheme = ''ean13'' \<or> scheme = ''gtin''" | "scheme = ''npi''" | "scheme = ''isbn13''"
    using sch by (auto simp: digit_schemes_def)
  then show ?thesis
  proof cases
    case 1
    then show ?thesis
      using luhn len by (cases body) (auto simp: scheme_simps result_simps pin_ok_def)
  next
    case 2
    then have "Suc (length body) \<in> set gtin_lengths"
      using len by (auto simp: scheme_simps result_simps gtin_lengths_def)
    then show ?thesis
      using ean 2 by (auto simp: scheme_simps pin_ok_def)
  next
    case 3
    then have l: "length body = 9" "take 9 (body @ [c]) = body" "(body @ [c]) ! 9 = c"
      using len by (auto simp: scheme_simps result_simps nth_append)
    have "take 1 body = [(body @ [c]) ! 0]"
      using l(1) by (cases body) auto
    then have pin: "pin_ok scheme (take (pin scheme) body) \<longleftrightarrow> (body @ [c]) ! 0 \<in> {CHR ''1'', CHR ''2''}"
      using 3 by (simp add: pin_ok_def pin_def)
    have match: "npi_re_match (body @ [c])"
      using dig l by (simp add: npi_re_match_def)
    have "\<exists>k. npi_calc_check_digit body = Inr [k] \<and> is_digit k"
      using dig luhn_cd_single [of "NPI_PREFIX @ body"] by (simp add: npi_calc_check_digit_def)
    then show ?thesis
      using 3 l match pin by (auto simp: scheme_simps npi_validate_def)
  next
    case 4
    then have l: "length body = 12"
      using len by (auto simp: scheme_simps result_simps)
    then show ?thesis
      using isbn ean 4 by (auto simp: scheme_simps pin_ok_def pin_def gtin_lengths_def)
  qed
qed

lemma digit_scheme_eval:
  assumes "scheme \<in> set digit_schemes" "validate_scheme_length scheme s = Inr ()"
    and "fwd \<Longrightarrow> validate S scheme s = Inr True"
  shows "fpe_checksum_permute A S fwd key cs tw scheme s =
    and_then (permute A fwd key DIGITS_ONLY tw (drop (pin scheme) (butlast s))) (\<lambda>b.
    and_then (on_error RaisedPy (calc_check_digit S scheme (take (pin scheme) s @ b))) (\<lambda>cd.
    Inr ((take (pin scheme) s @ b) @ cd)))"
proof -
  have gate: "(if fwd then on_error RaisedPy (validate S scheme s) else Inr True) = Inr True"
    using assms(3) by simp
  have npi: "take 8 (drop 1 s) = drop 1 (butlast s) \<and> take 1 s = [s ! 0]" if "scheme = ''npi''"
  proof -
    have "length s = 10"
      using assms(2) that by (auto simp: scheme_simps result_simps)
    then show ?thesis
      by (cases s) (auto simp: butlast_conv_take take_drop)
  qed
  have isbn: "take 9 (drop 3 s) = drop 3 (butlast s)" if "scheme = ''isbn13''"
  proof -
    have "length s = 13"
      using assms(2) that by (auto simp: scheme_simps result_simps)
    then show ?thesis
      by (simp add: butlast_conv_take take_drop)
  qed
  show ?thesis
    unfolding fpe_checksum_permute_def gate assms(2)
    using assms(1) npi isbn by (auto simp: digit_schemes_def KNOWN_SCHEMES_def pin_def Let_def)
qed

lemma digit_scheme_pin_length:
  "scheme \<in> set digit_schemes \<Longrightarrow> validate_scheme_length scheme s = Inr () \<Longrightarrow> Suc (pin scheme) \<le> length s"
  by (auto simp: digit_schemes_def pin_def scheme_simps result_simps)

lemma digit_scheme_sound:
  assumes aes: "aes_lengths A" and laws: "stdnum_laws S" and sch: "scheme \<in> set digit_schemes"
    and dig: "all_digits s" and enc: "fpe_checksum_permute A S True key cs tw scheme s = Inr t"
  shows "scheme_sound A S key cs tw scheme DIGITS_ONLY True s t"
proof -
  let ?p = "pin scheme"
  have gate: "validate_scheme_length scheme s = Inr ()" "validate S scheme s = Inr True"
    using scheme_gate [OF enc] by auto
  have p: "Suc ?p \<le> length s"
    using digit_scheme_pin_length [OF sch gate(1)] .
  define pre mid where "pre = take ?p s" and "mid = drop ?p (butlast s)"
  have "butlast s = pre @ mid"
    using append_take_drop_id [of ?p "butlast s"] p by (simp add: pre_def mid_def take_butlast)
  then have s: "s = (pre @ mid) @ [last s]" "length pre = ?p"
    using p append_butlast_last_id [of s] by (cases "s = []"; simp add: pre_def)+
  obtain b cd where b: "permute A True key DIGITS_ONLY tw mid = Inr b"
      "calc_check_digit S scheme (pre @ b) = Inr cd" "t = (pre @ b) @ cd"
    using enc digit_scheme_eval [OF sch gate(1), of True S A key cs tw] gate(2)
    by (auto simp: result_simps pre_def mid_def)
  note cipher = fpe.enc_sound [OF aes b(1)]
  have bd: "all_digits (pre @ b)" "all_digits (pre @ mid)" "is_digit (last s)"
    using cipher dig s(1) by (metis DIGITS_ONLY_sub all_digits_simps)+
  note src = digit_scheme_law [OF laws sch, of "pre @ mid" "last s"]
  have cs: "pin_ok scheme pre" "calc_check_digit S scheme (pre @ mid) = Inr [last s]"
    using src gate bd s by auto
  have "length (pre @ b @ [last s]) = length s"
    using cipher s by (metis append_assoc length_append)
  then have lt: "validate_scheme_length scheme ((pre @ b) @ [c]) = Inr ()" for c
    using scheme_length_eq [OF gate(1)] by simp
  obtain k where k: "cd = [k]" "is_digit k"
    using digit_scheme_law [OF laws sch lt, of "last s"] bd b(2) by auto
  have val: "validate S scheme t = Inr True"
    using digit_scheme_law [OF laws sch lt, of k] bd b k cs(1) s(2) by simp
  have len: "length t = length s"
    using \<open>length (pre @ b @ [last s]) = length s\<close> b(3) k by simp
  have "take ?p t = pre" "drop ?p (butlast t) = b"
    using b(3) k s(2) by (simp_all add: butlast_append)
  then have "fpe_checksum_permute A S False key cs tw scheme t = Inr s"
    using digit_scheme_eval [OF sch, of t False S A key cs tw] scheme_length_eq [OF gate(1) len]
      cipher cs(2) s(1) by simp
  moreover have "set t \<subseteq> set DIGITS_ONLY"
    using bd b k by (simp add: DIGITS_ONLY_sub DIGITS_ONLY_set)
  ultimately show ?thesis
    using val len by (simp add: scheme_sound_def)
qed

lemma vin_sound:
  assumes aes: "aes_lengths A" and cs: "set VIN_CHARSET \<subseteq> set cs" and vin: "set s \<subseteq> set VIN_CHARSET"
    and enc: "fpe_checksum_permute A S True key cs tw ''vin'' s = Inr t"
  shows "scheme_sound A S key cs tw ''vin'' VIN_CHARSET True s t"
proof -
  let ?f = "filter (\<lambda>c. c \<in> set VIN_CHARSET) cs"
  have sf: "set ?f = set VIN_CHARSET"
    using cs by auto
  have "\<not> length ?f < 2"
  proof -
    have "card (set VIN_CHARSET) \<le> length ?f"
      using sf card_length by metis
    moreover have "card (set VIN_CHARSET) = 33"
      by code_simp
    ultimately show ?thesis by simp
  qed
  then have eval: "fpe_checksum_permute A S fwd key cs tw ''vin'' x =
      and_then (permute A fwd key ?f tw (take 8 x @ drop 9 x)) (\<lambda>enc.
      and_then (on_error RaisedPy (vin_calc_check_digit enc)) (\<lambda>cd. Inr (take 8 enc @ cd @ drop 8 enc)))"
    if "length x = 17" "fwd \<Longrightarrow> vin_validate x = Inr True" for fwd x
    using that by (cases fwd) (simp_all add: fpe_checksum_permute_def scheme_simps)
  have l: "length s = 17" and v: "vin_validate s = Inr True"
    using scheme_gate [OF enc] by (auto simp: scheme_simps result_simps)
  obtain e cd where e: "permute A True key ?f tw (take 8 s @ drop 9 s) = Inr e"
      "vin_calc_check_digit e = Inr cd" "t = take 8 e @ cd @ drop 8 e"
    using enc eval [OF l] v by (auto simp: result_simps)
  note cipher = fpe.enc_sound [OF aes e(1), unfolded sf]
  have le: "length e = 16"
    using cipher l by simp
  obtain c where c: "cd = [c]" "c \<in> set VIN_CHARSET" "vin_validate t = Inr True"
    using vin_insert_validates [of "take 8 e" "drop 8 e" cd] cipher le l e(2,3) by auto
  have t: "length t = 17" "take 8 t @ drop 9 t = e" "set t \<subseteq> set VIN_CHARSET"
    using le c e(3) cipher set_take_subset [of 8 e] set_drop_subset [of 8 e] by (auto simp: drop_Cons')
  have z: "CHR ''0'' \<in> set VIN_CHARSET"
    by code_simp
  have s: "s = take 8 s @ [s ! 8] @ drop 9 s"
    using l id_take_nth_drop [of 8 s] by simp
  have "vin_check_from_full s = Inr [s ! 8]"
    using v vin unfolding vin_validate_def py_strip_vin [OF vin] py_upper_vin [OF vin] Let_def
    by (auto simp: result_simps split: if_splits)
  then have "vin_calc_check_digit (take 8 s @ drop 9 s) = Inr [s ! 8]"
    using vin_slot_weightless [of "take 8 s" "CHR ''0''" "drop 9 s" "s ! 8"] s l vin z cipher
      vin_check_value [of s] vin_check_value [of "take 8 s @ [CHR ''0''] @ drop 9 s"]
    by (simp add: vin_calc_check_digit_def)
  then have "fpe_checksum_permute A S False key cs tw ''vin'' t = Inr s"
    using eval [OF t(1), of False] t(2) cipher l s by simp
  then show ?thesis
    using t c l by (simp add: scheme_sound_def validate_def KNOWN_SCHEMES_def)
qed

lemma checksum_sound:
  assumes aes: "aes_lengths A" and laws: "stdnum_laws S"
    and req: "map_of SCHEME_REQUIRED_CHARSET scheme = Some req" "set req \<subseteq> set cs" "set s \<subseteq> set req"
    and enc: "fpe_checksum_permute A S True key cs tw scheme s = Inr t"
  shows "scheme_sound A S key cs tw scheme req True s t"
proof (cases "scheme = ''vin''")
  case True
  then show ?thesis
    using vin_sound [OF aes, of cs s S key tw t] req enc by (simp add: SCHEME_REQUIRED_CHARSET_def)
next
  case False
  then have "scheme \<in> set digit_schemes" "req = DIGITS_ONLY"
    using req(1) by (auto simp: SCHEME_REQUIRED_CHARSET_def digit_schemes_def split: if_splits)
  then show ?thesis
    using digit_scheme_sound [OF aes laws] req(3) enc by (simp add: DIGITS_ONLY_sub)
qed

lemma luhn_check_digit_single: "luhn_check_digit b = Inr d \<Longrightarrow> length d = 1 \<and> all_digits d"
  by (auto simp: luhn_check_digit_def result_simps dec_str_small)

lemma luhn_check_digit_total: "all_digits b \<Longrightarrow> \<exists>d. luhn_check_digit b = Inr d"
  by (simp add: luhn_check_digit_def luhn_loop_digits)

lemma fpe_plain_total:
  assumes "aes_lengths A" "fc_checksum cfg = None" "\<not> fc_validate_luhn cfg"
    and "profile_ok (fc_key cfg) (fc_charset cfg) (fc_tweak cfg) (length (in_body (fc_charset cfg) s))"
    and "fc_preserve_separators cfg \<or> set s \<subseteq> set (fc_charset cfg)"
  shows "\<exists>out. fpe_encrypt_value A S cfg s = Inr out"
proof -
  let ?b = "in_body (fc_charset cfg) s"
  have pure: "fpe_pure_value A S True cfg ?b =
      permute A True (fc_key cfg) (fc_charset cfg) (fc_tweak cfg) ?b"
    using assms(2,3) by (simp add: fpe_pure_value_def permute_def)
  have "?b \<noteq> []" "s \<noteq> []" "set ?b \<subseteq> set (fc_charset cfg)"
    using assms(4) by (auto simp: profile_ok_def in_body_def)
  moreover obtain t where "permute A True (fc_key cfg) (fc_charset cfg) (fc_tweak cfg) ?b = Inr t" "length t = length ?b"
    using permute_total [OF assms(1,4)] calculation(3) by blast
  ultimately show ?thesis
    using assms(5) by (auto simp: fpe_encrypt_value_def fpe_value_eq Let_def pure)
qed

text \<open>The two directions of a value undo each other.\<close>

lemma fpe_plain_inverts:
  assumes "aes_lengths A" "fc_checksum cfg = None" "\<not> fc_validate_luhn cfg"
    and "fpe_encrypt_value A S cfg s = Inr out"
  shows "length out = length s \<and> fpe_decrypt_value A S cfg out = Inr s \<and>
    (\<forall>i < length s. if s ! i \<in> set (fc_charset cfg) then out ! i \<in> set (fc_charset cfg) else out ! i = s ! i)"
proof -
  have pure: "fpe_pure_value A S fwd cfg x = permute A fwd (fc_key cfg) (fc_charset cfg) (fc_tweak cfg) x" for fwd x
    using assms(2,3) by (simp add: fpe_pure_value_def permute_def)
  show ?thesis
    using fpe_value_lift [OF assms(4) [unfolded fpe_encrypt_value_def]] fpe.enc_sound [OF assms(1)]
    by (simp add: pure fpe_decrypt_value_def)
qed

lemma fpe_checksum_inverts:
  assumes "aes_lengths A" "stdnum_laws S" "fc_checksum cfg = Some scheme"
    and "map_of SCHEME_REQUIRED_CHARSET scheme = Some req" "set req \<subseteq> set (fc_charset cfg)"
    and "set (in_body (fc_charset cfg) s) \<subseteq> set req"
    and "fpe_encrypt_value A S cfg s = Inr out"
  shows "length out = length s \<and> fpe_decrypt_value A S cfg out = Inr s \<and>
    validate S scheme (in_body (fc_charset cfg) out) = Inr True"
proof -
  let ?cs = "fc_charset cfg" and ?b = "in_body (fc_charset cfg) s"
  have ne: "?b \<noteq> []"
    using assms(7) by (auto simp: fpe_encrypt_value_def fpe_value_eq Let_def in_body_id split: if_splits)
  have pure: "fpe_pure_value A S fwd cfg x =
      fpe_checksum_permute A S fwd (fc_key cfg) ?cs (fc_tweak cfg) scheme x" if "x \<noteq> []" for fwd x
    using assms(3) that by (simp add: fpe_pure_value_def)
  have step: "length t = length ?b \<and> validate S scheme t = Inr True \<and> set t \<subseteq> set ?cs \<and>
      fpe_pure_value A S False cfg t = Inr ?b" if "fpe_pure_value A S True cfg ?b = Inr t" for t
  proof -
    have snd: "scheme_sound A S (fc_key cfg) ?cs (fc_tweak cfg) scheme req True ?b t"
      using checksum_sound [OF assms(1,2,4,5,6)] that pure [OF ne] by simp
    then have "t \<noteq> []"
      using ne by (auto simp: scheme_sound_def)
    then show ?thesis
      using snd pure assms(5) by (auto simp: scheme_sound_def)
  qed
  then show ?thesis
    using fpe_value_lift [OF assms(7) [unfolded fpe_encrypt_value_def]]
    by (auto simp: fpe_decrypt_value_def)
qed

lemma fpe_luhn_inverts:
  assumes "aes_lengths A" "fc_checksum cfg = None" "fc_validate_luhn cfg"
    and "set DIGITS_ONLY \<subseteq> set (fc_charset cfg)" "2 \<le> length (in_body (fc_charset cfg) s)"
    and "luhn_check_digit (butlast (in_body (fc_charset cfg) s)) = Inr [last (in_body (fc_charset cfg) s)]"
    and "fpe_encrypt_value A S cfg s = Inr out"
  shows "length out = length s \<and> fpe_decrypt_value A S cfg out = Inr s \<and>
    luhn_check_digit (butlast (in_body (fc_charset cfg) out)) = Inr [last (in_body (fc_charset cfg) out)]"
proof -
  let ?cs = "fc_charset cfg" and ?P = "\<lambda>fwd. permute A fwd (fc_key cfg) (fc_charset cfg) (fc_tweak cfg)"
  let ?b = "in_body ?cs s"
  have pure: "fpe_pure_value A S fwd cfg x =
      and_then (?P fwd (butlast x)) (\<lambda>body. and_then (luhn_check_digit body) (\<lambda>d. Inr (body @ d)))"
    if "2 \<le> length x" for fwd x
    using assms(2,3) that by (auto simp: fpe_pure_value_def)
  have step: "length t = length ?b \<and> luhn_check_digit (butlast t) = Inr [last t] \<and> set t \<subseteq> set ?cs \<and>
      fpe_pure_value A S False cfg t = Inr ?b" if "fpe_pure_value A S True cfg ?b = Inr t" for t
  proof -
    note wc = fpe.with_check_digit [OF assms(1) that [unfolded pure [OF assms(5)]] _ assms(6)
        luhn_check_digit_single [THEN conjunct1]]
    have "?b \<noteq> []"
      using assms(5) by auto
    note wc = wc [OF this]
    then have "t \<noteq> []" "is_digit (last t)"
      using luhn_check_digit_single [of "butlast t"] \<open>?b \<noteq> []\<close> by auto
    then have "set t \<subseteq> set ?cs"
      using wc assms(4) DIGITS_ONLY_set by (cases t rule: rev_cases) auto
    then show ?thesis
      using wc pure [of t False] assms(5) by simp
  qed
  then show ?thesis
    using fpe_value_lift [OF assms(7) [unfolded fpe_encrypt_value_def]]
    by (auto simp: fpe_decrypt_value_def)
qed

section \<open>Properties\<close>

text \<open>C3. Plain mode round trip. Whenever encrypting a value succeeds, the output has the same length,
  keeps every character outside the charset where it was, has a charset character at every other
  position, and decrypts under the same configuration to the value.\<close>

theorem fpe_plain_roundtrip:
  assumes "aes_lengths A" "fc_checksum cfg = None" "\<not> fc_validate_luhn cfg"
    and "fpe_encrypt_value A S cfg s = Inr out"
  shows "length out = length s \<and> fpe_decrypt_value A S cfg out = Inr s \<and>
    (\<forall>i < length s. if s ! i \<in> set (fc_charset cfg) then out ! i \<in> set (fc_charset cfg) else out ! i = s ! i)"
  using fpe_plain_inverts [OF assms] .

text \<open>Luhn mode round trip. For a charset that contains the digits and a value whose in-charset
  characters are Luhn-valid, a successful encryption is again Luhn-valid and decrypts to the value.\<close>

theorem fpe_luhn_roundtrip:
  assumes "aes_lengths A" "fc_checksum cfg = None" "fc_validate_luhn cfg"
    and "set DIGITS_ONLY \<subseteq> set (fc_charset cfg)" "2 \<le> length (in_body (fc_charset cfg) s)"
    and "luhn_check_digit (butlast (in_body (fc_charset cfg) s)) = Inr [last (in_body (fc_charset cfg) s)]"
    and "fpe_encrypt_value A S cfg s = Inr out"
  shows "length out = length s \<and> fpe_decrypt_value A S cfg out = Inr s \<and>
    luhn_check_digit (butlast (in_body (fc_charset cfg) out)) = Inr [last (in_body (fc_charset cfg) out)]"
  using fpe_luhn_inverts [OF assms] .

text \<open>C2. Checksum mode round trip, for every supported scheme. When the charset contains the
  scheme's alphabet and the in-charset characters of the value lie in it, a successful encryption is
  valid for the scheme and decrypts to the value.\<close>

theorem fpe_checksum_roundtrip:
  assumes "aes_lengths A" "stdnum_laws S" "fc_checksum cfg = Some scheme"
    and "map_of SCHEME_REQUIRED_CHARSET scheme = Some req" "set req \<subseteq> set (fc_charset cfg)"
    and "set (in_body (fc_charset cfg) s) \<subseteq> set req"
    and "fpe_encrypt_value A S cfg s = Inr out"
  shows "length out = length s \<and> fpe_decrypt_value A S cfg out = Inr s \<and>
    validate S scheme (in_body (fc_charset cfg) out) = Inr True"
  using fpe_checksum_inverts [OF assms] .

text \<open>C28. Plain mode fails closed and only there. Encryption returns exactly when the value meets the
  deployable profile (key size, radix range, duplicate-free printable alphabet, domain floor, length
  and tweak caps) and has no foreign character without separator preservation; otherwise it raises
  \<open>FpeUnencryptableError\<close> and no other exception.\<close>

theorem fpe_plain_fails_closed:
  assumes "aes_lengths A" "fc_checksum cfg = None" "\<not> fc_validate_luhn cfg"
  shows "if profile_ok (fc_key cfg) (fc_charset cfg) (fc_tweak cfg) (length (in_body (fc_charset cfg) s)) \<and>
      (fc_preserve_separators cfg \<or> set s \<subseteq> set (fc_charset cfg))
    then \<exists>out. fpe_encrypt_value A S cfg s = Inr out
    else \<exists>code. fpe_encrypt_value A S cfg s = Inl (Unencryptable code)"
proof -
  let ?cs = "fc_charset cfg" and ?b = "in_body (fc_charset cfg) s"
  let ?P = "permute A True (fc_key cfg) ?cs (fc_tweak cfg)"
  have pure: "fpe_pure_value A S True cfg x = ?P x" for x
    using assms(2,3) by (simp add: fpe_pure_value_def permute_def)
  have sub: "set ?b \<subseteq> set ?cs"
    by (auto simp: in_body_def)
  show ?thesis
  proof (cases "profile_ok (fc_key cfg) ?cs (fc_tweak cfg) (length ?b)")
    case True
    then show ?thesis
      using fpe_plain_total [OF assms True, of S]
      by (auto simp: fpe_encrypt_value_def fpe_value_eq Let_def profile_ok_def in_body_def)
  next
    case False
    have "\<exists>c. ?P ?b = Inl (Unencryptable c)" if "?b \<noteq> []"
      using permute_fails [OF assms(1) that sub False] .
    moreover have "?b \<noteq> []" if "s \<noteq> []" "set s \<subseteq> set ?cs"
      using that by (simp add: in_body_id)
    ultimately have "\<exists>code. fpe_encrypt_value A S cfg s = Inl (Unencryptable code)"
      by (auto simp: fpe_encrypt_value_def fpe_value_eq Let_def pure)
    then show ?thesis
      using False by simp
  qed
qed

text \<open>Distinct (scope, identity) pairs never share a tweak: equal tweaks come from the same scope
  and the same identity.\<close>

theorem build_ff1_tweak_inj:
  assumes "build_ff1_tweak scope identity = Inr tweak" "build_ff1_tweak scope' identity' = Inr tweak"
  shows "scope = scope' \<and> identity = identity' \<and> length tweak \<le> FF1_MAX_TWEAK_LEN"
proof -
  have frame: "sc < 256 \<and> length tweak \<le> FF1_MAX_TWEAK_LEN \<and>
      (\<exists>lb. length lb = 2 \<and> tweak = [word_of_nat FF1_TWEAK_VERSION, word_of_nat sc] @ lb @ utf8 idn)"
    if "build_ff1_tweak sc idn = Inr tweak" for sc idn
    using that by (auto simp: build_ff1_tweak_def Let_def result_simps codec_simps split: if_splits)
  from frame [OF assms(1)] frame [OF assms(2)] show ?thesis
    by (auto simp: byte_of_nat_inj dest: utf8_inj)
qed

text \<open>The IBAN scheme is refused for every value.\<close>

lemma fpe_iban_always_unsupported:
  assumes "fc_checksum cfg = Some ''iban''"
  shows "\<exists>e. fpe_encrypt_value A S cfg s = Inl e"
proof -
  have "fpe_pure_value A S True cfg x = Inl (ChecksumUnsupported ''iban'')" if "x \<noteq> []" for x
    using assms that by (simp add: fpe_pure_value_def fpe_checksum_permute_def KNOWN_SCHEMES_def)
  then show ?thesis
    by (cases s) (auto simp: fpe_encrypt_value_def fpe_value_eq Let_def in_body_id)
qed

section \<open>Witnesses\<close>

definition demo_cfg :: fpe_config where
  "demo_cfg = \<lparr>fc_key = replicate 32 7, fc_charset = ''0123456789'', fc_tweak = [1, 1, 0, 1, 97],
     fc_preserve_separators = True, fc_validate_luhn = False, fc_checksum = None\<rparr>"

lemma demo_profile: "6 \<le> n \<Longrightarrow> n \<le> 256 \<Longrightarrow> profile_ok (replicate 32 7) DIGITS_ONLY [1, 1, 0, 1, 97] n"
proof -
  assume n: "6 \<le> n" "n \<le> 256"
  have "min_domain_length 10 = Inr 6"
    by (simp add: min_domain_length_def min_domain_loop.simps FF1_MIN_DOMAIN_def)
  moreover have "check_charset_ascii_printable DIGITS_ONLY = Inr ()"
    by code_simp
  ultimately show ?thesis
    using n by (simp add: profile_ok_def FF1_KEY_BYTES_def FF1_MIN_RADIX_def FF1_MAX_RADIX_def
        FF1_MAX_LEN_def FF1_MAX_TWEAK_LEN_def DIGITS_ONLY_def)
qed

lemma demo_encrypts:
  "\<exists>out. fpe_encrypt_value demo_aes demo_stdnum demo_cfg ''555-12-3456'' = Inr out"
proof (rule fpe_plain_total [OF demo_aes_lengths])
  have "in_body (fc_charset demo_cfg) ''555-12-3456'' = ''555123456''"
    by code_simp
  moreover have "length ''555123456'' = 9"
    by simp
  ultimately show "profile_ok (fc_key demo_cfg) (fc_charset demo_cfg) (fc_tweak demo_cfg)
      (length (in_body (fc_charset demo_cfg) ''555-12-3456''))"
    using demo_profile [of 9] by (simp only: demo_cfg_def fpe_config.simps DIGITS_ONLY_def)
qed (simp_all add: demo_cfg_def)

theorem fpe_plain_roundtrip_witness:
  "\<exists>out. fpe_encrypt_value demo_aes demo_stdnum demo_cfg ''555-12-3456'' = Inr out \<and>
     fpe_decrypt_value demo_aes demo_stdnum demo_cfg out = Inr ''555-12-3456'' \<and> out ! 3 = CHR ''-''"
proof -
  obtain out where out: "fpe_encrypt_value demo_aes demo_stdnum demo_cfg ''555-12-3456'' = Inr out"
    using demo_encrypts by blast
  have "fc_checksum demo_cfg = None" "\<not> fc_validate_luhn demo_cfg"
    by (simp_all add: demo_cfg_def)
  from fpe_plain_roundtrip [OF demo_aes_lengths this out] show ?thesis
    using out by (force simp: demo_cfg_def)
qed

text \<open>A configuration with a check digit, on digits without separators: encryption returns.\<close>

lemma digits_in_body: "all_digits s \<Longrightarrow> in_body DIGITS_ONLY s = s"
  by (simp add: in_body_id DIGITS_ONLY_sub)

definition demo_luhn_cfg :: fpe_config where
  "demo_luhn_cfg = demo_cfg\<lparr>fc_validate_luhn := True\<rparr>"

definition demo_npi_cfg :: fpe_config where
  "demo_npi_cfg = demo_cfg\<lparr>fc_checksum := Some ''npi''\<rparr>"

lemma demo_cfg_charset: "fc_charset demo_luhn_cfg = DIGITS_ONLY" "fc_charset demo_npi_cfg = DIGITS_ONLY"
  by (simp_all add: demo_luhn_cfg_def demo_npi_cfg_def demo_cfg_def DIGITS_ONLY_def)

lemma demo_body: "in_body DIGITS_ONLY ''4539 1488 0343 6467'' = ''4539148803436467''"
  by code_simp

lemma demo_permutes:
  assumes "6 \<le> length s" "length s \<le> 256" "all_digits s"
  shows "\<exists>t. permute demo_aes True (replicate 32 7) DIGITS_ONLY [1, 1, 0, 1, 97] s = Inr t \<and>
    length t = length s \<and> all_digits t"
  using permute_total [OF demo_aes_lengths demo_profile [OF assms(1,2)], of True] assms(3)
  by (auto simp: DIGITS_ONLY_sub)

theorem fpe_luhn_roundtrip_witness:
  "\<exists>out. fpe_encrypt_value demo_aes demo_stdnum demo_luhn_cfg ''4539 1488 0343 6467'' = Inr out \<and>
     fpe_decrypt_value demo_aes demo_stdnum demo_luhn_cfg out = Inr ''4539 1488 0343 6467''"
proof -
  have cfg: "fc_checksum demo_luhn_cfg = None" "fc_validate_luhn demo_luhn_cfg" "fc_preserve_separators demo_luhn_cfg"
      "fc_key demo_luhn_cfg = replicate 32 7" "fc_tweak demo_luhn_cfg = [1, 1, 0, 1, 97]"
    by (simp_all add: demo_luhn_cfg_def demo_cfg_def)
  have luhn: "luhn_check_digit (butlast ''4539148803436467'') = Inr [last ''4539148803436467'']"
    by code_simp
  obtain t where t: "permute demo_aes True (replicate 32 7) DIGITS_ONLY [1, 1, 0, 1, 97] ''453914880343646'' = Inr t"
      "length t = length ''453914880343646''" "all_digits t"
    using demo_permutes [of "''453914880343646''"] by (auto simp: is_digit_def)
  obtain d where d: "luhn_check_digit t = Inr d" "length d = 1"
    using luhn_check_digit_total [OF t(3)] luhn_check_digit_single by blast
  have "fpe_pure_value demo_aes demo_stdnum True demo_luhn_cfg ''4539148803436467'' = Inr (t @ d)"
    using cfg t d by (simp add: fpe_pure_value_def demo_cfg_charset)
  then obtain out where "fpe_encrypt_value demo_aes demo_stdnum demo_luhn_cfg ''4539 1488 0343 6467'' = Inr out"
    using cfg t d by (simp add: fpe_encrypt_value_def fpe_value_eq Let_def demo_cfg_charset demo_body)
  with fpe_luhn_roundtrip [OF demo_aes_lengths cfg(1,2), of "''4539 1488 0343 6467''" demo_stdnum out] luhn
  show ?thesis
    by (simp add: demo_cfg_charset demo_body)
qed

theorem fpe_checksum_roundtrip_witness:
  "\<exists>out. fpe_encrypt_value demo_aes demo_stdnum demo_npi_cfg ''1234567893'' = Inr out \<and>
     fpe_decrypt_value demo_aes demo_stdnum demo_npi_cfg out = Inr ''1234567893'' \<and>
     validate demo_stdnum ''npi'' (in_body DIGITS_ONLY out) = Inr True"
proof -
  have cfg: "fc_checksum demo_npi_cfg = Some ''npi''" "fc_preserve_separators demo_npi_cfg"
      "fc_key demo_npi_cfg = replicate 32 7" "fc_tweak demo_npi_cfg = [1, 1, 0, 1, 97]"
    by (simp_all add: demo_npi_cfg_def demo_cfg_def)
  have body: "in_body DIGITS_ONLY ''1234567893'' = ''1234567893''"
    by code_simp
  have gate: "validate_scheme_length ''npi'' ''1234567893'' = Inr ()" "validate demo_stdnum ''npi'' ''1234567893'' = Inr True"
    by code_simp+
  obtain t where t: "permute demo_aes True (replicate 32 7) DIGITS_ONLY [1, 1, 0, 1, 97] ''23456789'' = Inr t"
      "length t = length ''23456789''" "all_digits t"
    using demo_permutes [of "''23456789''"] by (auto simp: is_digit_def)
  obtain k where "npi_calc_check_digit (CHR ''1'' # t) = Inr [k]"
    using luhn_cd_single [of "NPI_PREFIX @ CHR ''1'' # t"] t(3) by (auto simp: npi_calc_check_digit_def is_digit_def)
  then have "fpe_pure_value demo_aes demo_stdnum True demo_npi_cfg ''1234567893'' = Inr (CHR ''1'' # t @ [k])"
    using cfg t gate digit_scheme_eval [of "''npi''" "''1234567893''" True demo_stdnum]
    by (simp add: fpe_pure_value_def demo_cfg_charset digit_schemes_def pin_def calc_check_digit_def KNOWN_SCHEMES_def)
  then obtain out where "fpe_encrypt_value demo_aes demo_stdnum demo_npi_cfg ''1234567893'' = Inr out"
    using cfg t(2) by (simp add: fpe_encrypt_value_def fpe_value_eq Let_def demo_cfg_charset body)
  with fpe_checksum_roundtrip [OF demo_aes_lengths demo_stdnum_laws cfg(1), of DIGITS_ONLY "''1234567893''" out] body
  show ?thesis
    by (simp add: demo_cfg_charset SCHEME_REQUIRED_CHARSET_def DIGITS_ONLY_set is_digit_def)
qed

theorem fpe_plain_fails_closed_witness:
  "(\<exists>out. fpe_encrypt_value demo_aes demo_stdnum demo_cfg ''123456'' = Inr out) \<and>
   (\<exists>code. fpe_encrypt_value demo_aes demo_stdnum demo_cfg ''1234'' = Inl (Unencryptable code))"
proof -
  have cfg: "fc_checksum demo_cfg = None" "\<not> fc_validate_luhn demo_cfg"
    by (simp_all add: demo_cfg_def)
  have b: "in_body (fc_charset demo_cfg) ''123456'' = ''123456''" "in_body (fc_charset demo_cfg) ''1234'' = ''1234''"
    by code_simp+
  have ok: "profile_ok (fc_key demo_cfg) (fc_charset demo_cfg) (fc_tweak demo_cfg) (length ''123456'')"
    using demo_profile [of "length ''123456''"] by (simp add: demo_cfg_def DIGITS_ONLY_def)
  have bad: "\<not> profile_ok (fc_key demo_cfg) (fc_charset demo_cfg) (fc_tweak demo_cfg) (length ''1234'')"
    by (simp add: profile_ok_def demo_cfg_def min_domain_length_def min_domain_loop.simps FF1_MIN_DOMAIN_def)
  have ps: "fc_preserve_separators demo_cfg"
    by (simp add: demo_cfg_def)
  show ?thesis
    using fpe_plain_fails_closed [OF demo_aes_lengths cfg, of "''123456''" demo_stdnum]
      fpe_plain_fails_closed [OF demo_aes_lengths cfg, of "''1234''" demo_stdnum]
    unfolding b using ok bad ps by presburger
qed

theorem build_ff1_tweak_inj_witness:
  "build_ff1_tweak 1 ''ssn'' = Inr [1, 1, 0, 3, 115, 115, 110] \<and>
   build_ff1_tweak 2 ''ssn'' \<noteq> Inr [1, 1, 0, 3, 115, 115, 110]"
proof -
  have "build_ff1_tweak 1 ''ssn'' = Inr [1, 1, 0, 3, 115, 115, 110]"
    by (simp add: build_ff1_tweak_def utf8_def utf8_char_def FF1_MAX_TWEAK_LEN_def FF1_TWEAK_VERSION_def Let_def to_bytes_def numeral_2_eq_2)
  with build_ff1_tweak_inj [OF this, of 2] show ?thesis
    by fastforce
qed

end
