(* ===== verification/Sha256.thy ===== *)
theory Sha256
  imports Decoy_Prelude
begin

text \<open>
  SHA-256 and HMAC-SHA256, the parts of Python's \<open>hashlib\<close> and \<open>hmac\<close> that the determinism layer
  uses (FIPS 180-4 and RFC 2104), as executable definitions over 32-bit words. The only facts the
  engine's code relies on are the digest sizes and that a streaming object digests the
  concatenation of what it absorbed.
\<close>

unbundle bit_operations_syntax

type_synonym word32 = "32 word"

text \<open>The constants are the first 32 bits of the fractional parts of the cube roots (rounds) and
  square roots (initial state) of the first primes: \<open>iroot k b n 0\<close> is the integer \<open>k\<close>-th root of
  \<open>n\<close> below \<open>2 ^ b\<close>, found bit by bit.\<close>

fun iroot :: "nat \<Rightarrow> nat \<Rightarrow> int \<Rightarrow> int \<Rightarrow> int" where
  "iroot k 0 n r = r"
| "iroot k (Suc b) n r = iroot k b n (if (r + 2 ^ b) ^ k \<le> n then r + 2 ^ b else r)"

definition first_primes :: "int list" where
  "first_primes = filter (\<lambda>n. list_all (\<lambda>d. n mod d \<noteq> 0) [2..n - 1]) [2..311]"

definition root_constant :: "nat \<Rightarrow> int \<Rightarrow> word32" where
  "root_constant k p = word_of_int (iroot k 40 (p * 2 ^ (32 * k)) 0)"

definition sha_k :: "word32 list" where
  "sha_k = map (root_constant 3) first_primes"

definition sha_init :: "word32 list" where
  "sha_init = map (root_constant 2) [2, 3, 5, 7, 11, 13, 17, 19]"

definition small_sigma0 :: "word32 \<Rightarrow> word32" where
  "small_sigma0 x = word_rotr 7 x XOR word_rotr 18 x XOR drop_bit 3 x"

definition small_sigma1 :: "word32 \<Rightarrow> word32" where
  "small_sigma1 x = word_rotr 17 x XOR word_rotr 19 x XOR drop_bit 10 x"

definition big_sigma0 :: "word32 \<Rightarrow> word32" where
  "big_sigma0 x = word_rotr 2 x XOR word_rotr 13 x XOR word_rotr 22 x"

definition big_sigma1 :: "word32 \<Rightarrow> word32" where
  "big_sigma1 x = word_rotr 6 x XOR word_rotr 11 x XOR word_rotr 25 x"

definition be_word32 :: "bytes \<Rightarrow> word32" where
  "be_word32 bs = word_of_int (from_bytes bs)"

fun words_of :: "bytes \<Rightarrow> word32 list" where
  "words_of (a # b # c # d # rest) = be_word32 [a, b, c, d] # words_of rest"
| "words_of _ = []"

fun schedule :: "nat \<Rightarrow> word32 list \<Rightarrow> word32 list" where
  "schedule 0 w = w"
| "schedule (Suc n) w =
     (let t = length w in
      schedule n (w @ [small_sigma1 (w ! (t - 2)) + w ! (t - 7) + small_sigma0 (w ! (t - 15)) + w ! (t - 16)]))"

fun sha_round :: "word32 list \<Rightarrow> word32 \<times> word32 \<Rightarrow> word32 list" where
  "sha_round [a, b, c, d, e, f, g, h] (k, w) =
     (let t1 = h + big_sigma1 e + ((e AND f) XOR (NOT e AND g)) + k + w;
          t2 = big_sigma0 a + ((a AND b) XOR (a AND c) XOR (b AND c))
      in [t1 + t2, a, b, c, d + t1, e, f, g])"
| "sha_round st kw = st"

definition compress :: "word32 list \<Rightarrow> bytes \<Rightarrow> word32 list" where
  "compress st block = map2 (+) st (foldl sha_round st (zip sha_k (schedule 48 (words_of block))))"

definition sha_pad :: "bytes \<Rightarrow> bytes" where
  "sha_pad m = m @ [0x80] @ replicate (nat ((55 - int (length m)) mod 64)) 0 @ be_bytes 8 (int (8 * length m) mod 2 ^ 64)"

fun blocks64 :: "nat \<Rightarrow> bytes \<Rightarrow> bytes list" where
  "blocks64 0 m = []"
| "blocks64 (Suc n) m = take 64 m # blocks64 n (drop 64 m)"

definition sha256 :: "bytes \<Rightarrow> bytes" where
  "sha256 m =
     (let p = sha_pad m in
      concat (map (\<lambda>w. be_bytes 4 (uint w)) (foldl compress sha_init (blocks64 (length p div 64) p))))"

definition hmac_pad :: "bytes \<Rightarrow> bytes" where
  "hmac_pad key = (let k = (if 64 < length key then sha256 key else key) in k @ replicate (64 - length k) 0)"

definition hmac_sha256 :: "bytes \<Rightarrow> bytes \<Rightarrow> bytes" where
  "hmac_sha256 key msg =
     (let k = hmac_pad key in
      sha256 (map (\<lambda>b. b XOR 0x5c) k @ sha256 (map (\<lambda>b. b XOR 0x36) k @ msg)))"

text \<open>A streaming object: \<open>hmac.new(key, msg)\<close>, \<open>copy\<close> (states are values), \<open>update\<close>, \<open>digest\<close>.\<close>

record hmac_object =
  ho_key :: bytes
  ho_absorbed :: bytes

definition hmac_new :: "bytes \<Rightarrow> bytes \<Rightarrow> hmac_object" where
  "hmac_new key msg = \<lparr>ho_key = key, ho_absorbed = msg\<rparr>"

definition hmac_update :: "hmac_object \<Rightarrow> bytes \<Rightarrow> hmac_object" where
  "hmac_update h msg = h\<lparr>ho_absorbed := ho_absorbed h @ msg\<rparr>"

definition hmac_digest :: "hmac_object \<Rightarrow> bytes" where
  "hmac_digest h = hmac_sha256 (ho_key h) (ho_absorbed h)"

section \<open>Sizes\<close>

lemma sha_round_length: "length st = 8 \<Longrightarrow> length (sha_round st kw) = 8"
  by (cases "(st, kw)" rule: sha_round.cases) (auto simp: Let_def)

lemma foldl_rounds_length: "length st = 8 \<Longrightarrow> length (foldl sha_round st kws) = 8"
  by (induction kws arbitrary: st) (auto simp: sha_round_length)

lemma compress_length: "length st = 8 \<Longrightarrow> length (compress st b) = 8"
  by (simp add: compress_def foldl_rounds_length)

lemma foldl_compress_length: "length st = 8 \<Longrightarrow> length (foldl compress st bs) = 8"
  by (induction bs arbitrary: st) (auto simp: compress_length)

lemma sha256_length [simp]: "length (sha256 m) = 32"
  by (simp add: sha256_def Let_def length_concat comp_def sum_list_triv foldl_compress_length sha_init_def)

lemma hmac_sha256_length [simp]: "length (hmac_sha256 key msg) = 32"
  by (simp add: hmac_sha256_def Let_def)

lemma sha_pad_aligned: "length (sha_pad m) mod 64 = 0"
proof -
  have "int (length (sha_pad m)) mod 64 = (int (length m) + 9 + (55 - int (length m)) mod 64) mod 64"
    by (simp add: sha_pad_def algebra_simps)
  also have "\<dots> = (int (length m) + 9 + (55 - int (length m))) mod 64"
    by (simp add: mod_add_right_eq)
  finally have "int (length (sha_pad m)) mod 64 = 0"
    by simp
  then show ?thesis
    by presburger
qed

lemma hmac_streaming: "hmac_digest (hmac_update (hmac_new key a) b) = hmac_sha256 key (a @ b)"
  by (simp add: hmac_digest_def hmac_update_def hmac_new_def)

end
