(* ===== verification/Determinism.thy ===== *)
theory Determinism
  imports Sha256 Utf8
begin

text \<open>
  The determinism layer: \<open>determinism/_hkdf.py\<close> (RFC 5869 extract and expand) and
  \<open>determinism/_derive.py\<close> (the envelope \<open>derive\<close>, the per-column \<open>DeriveContext\<close> with its
  scalar and streaming forms, \<open>derive_index\<close> and \<open>derive_value\<close>). \<open>hmac\<close> and \<open>hashlib\<close> are the
  definitions of theory \<open>Sha256\<close>; a \<open>Domain\<close> is a function on bytes.
\<close>

section \<open>Model\<close>

datatype determinism_error =
    SEED_WRONG_LENGTH nat | NAMESPACE_EMPTY | POOL_SIZE_OVERFLOW int | POOL_SIZE_INVALID int
  | LengthOverflow | HkdfValueError

definition HASH_LEN :: nat where "HASH_LEN = 32"

definition hkdf_extract :: "bytes \<Rightarrow> bytes \<Rightarrow> determinism_error + bytes" where
  "hkdf_extract salt ikm = (if salt = [] then Inl HkdfValueError else Inr (hmac_sha256 salt ikm))"

text \<open>The loop of \<open>hkdf_expand\<close>: \<open>i\<close> is the next counter octet, \<open>t\<close> the previous block and \<open>okm\<close>
  the joined chunks. \<open>bytes([i])\<close> raises above 255.\<close>

fun expand_loop :: "nat \<Rightarrow> nat \<Rightarrow> bytes \<Rightarrow> bytes \<Rightarrow> bytes \<Rightarrow> bytes \<Rightarrow> determinism_error + bytes" where
  "expand_loop 0 i prk info t okm = Inr okm"
| "expand_loop (Suc n) i prk info t okm =
     (if 256 \<le> i then Inl HkdfValueError
      else let t' = hmac_sha256 prk (t @ info @ [word_of_nat i]) in
        expand_loop n (i + 1) prk info t' (okm @ t'))"

definition hkdf_expand :: "bytes \<Rightarrow> bytes \<Rightarrow> nat \<Rightarrow> determinism_error + bytes" where
  "hkdf_expand prk info len =
     (if 255 * HASH_LEN < len then Inl HkdfValueError
      else and_then (expand_loop ((len + HASH_LEN - 1) div HASH_LEN) 1 prk info [] []) (\<lambda>okm.
        Inr (take len okm)))"

definition hkdf_sha256 :: "bytes \<Rightarrow> bytes \<Rightarrow> bytes \<Rightarrow> nat \<Rightarrow> determinism_error + bytes" where
  "hkdf_sha256 ikm salt info len = and_then (hkdf_extract salt ikm) (\<lambda>prk. hkdf_expand prk info len)"

definition SEED_PROTOCOL_VERSION :: nat where "SEED_PROTOCOL_VERSION = 7"

definition SALT :: bytes where "SALT = utf8 ''decoy-engine/determinism/v1''"

definition SEED_LENGTHS :: "nat list" where "SEED_LENGTHS = [8, 32]"

definition POOL_SIZE_MAX :: int where "POOL_SIZE_MAX = 2 ^ 56"

definition len4 :: "bytes \<Rightarrow> determinism_error + bytes" where
  "len4 bs = of_option LengthOverflow (to_bytes (int (length bs)) 4)"

text \<open>The two halves of the HMAC input: version byte and framed namespace, then the framed source.\<close>

definition ns_prefix :: "string \<Rightarrow> determinism_error + bytes" where
  "ns_prefix namespace =
     and_then (len4 (utf8 namespace)) (\<lambda>lb. Inr ([word_of_nat SEED_PROTOCOL_VERSION] @ lb @ utf8 namespace))"

definition source_frame :: "bytes \<Rightarrow> determinism_error + bytes" where
  "source_frame source = and_then (len4 source) (\<lambda>lb. Inr (lb @ source))"

definition hmac_input :: "string \<Rightarrow> bytes \<Rightarrow> determinism_error + bytes" where
  "hmac_input namespace source =
     and_then (ns_prefix namespace) (\<lambda>p. and_then (source_frame source) (\<lambda>f. Inr (p @ f)))"

definition check_seed_namespace :: "bytes \<Rightarrow> string \<Rightarrow> determinism_error + unit" where
  "check_seed_namespace seed namespace =
     (if length seed \<notin> set SEED_LENGTHS then Inl (SEED_WRONG_LENGTH (length seed))
      else if namespace = [] then Inl NAMESPACE_EMPTY else Inr ())"

record derive_context =
  dc_hmac_key :: bytes

definition for_column :: "bytes \<Rightarrow> string \<Rightarrow> determinism_error + derive_context" where
  "for_column seed namespace =
     and_then (check_seed_namespace seed namespace) (\<lambda>_.
     and_then (hkdf_sha256 seed SALT (utf8 namespace) 32) (\<lambda>k. Inr \<lparr>dc_hmac_key = k\<rparr>))"

definition derive_source :: "derive_context \<Rightarrow> string \<Rightarrow> bytes \<Rightarrow> determinism_error + bytes" where
  "derive_source ctx namespace source =
     and_then (hmac_input namespace source) (\<lambda>m. Inr (hmac_sha256 (dc_hmac_key ctx) m))"

definition derive_sources :: "derive_context \<Rightarrow> string \<Rightarrow> bytes list \<Rightarrow> determinism_error + bytes list" where
  "derive_sources ctx namespace sources =
     and_then (ns_prefix namespace) (\<lambda>p.
     let base = hmac_new (dc_hmac_key ctx) p in
     map_result (\<lambda>source. and_then (source_frame source) (\<lambda>f. Inr (hmac_digest (hmac_update base f)))) sources)"

definition derive :: "bytes \<Rightarrow> string \<Rightarrow> bytes \<Rightarrow> determinism_error + bytes" where
  "derive seed namespace source =
     and_then (check_seed_namespace seed namespace) (\<lambda>_.
     and_then (hmac_input namespace source) (\<lambda>m.
     and_then (hkdf_sha256 seed SALT (utf8 namespace) 32) (\<lambda>k. Inr (hmac_sha256 k m))))"

definition check_pool_size :: "int \<Rightarrow> determinism_error + unit" where
  "check_pool_size pool_size =
     (if POOL_SIZE_MAX < pool_size then Inl (POOL_SIZE_OVERFLOW pool_size)
      else if pool_size < 1 then Inl (POOL_SIZE_INVALID pool_size) else Inr ())"

definition derive_index :: "bytes \<Rightarrow> string \<Rightarrow> bytes \<Rightarrow> int \<Rightarrow> determinism_error + int" where
  "derive_index seed namespace source pool_size =
     and_then (check_pool_size pool_size) (\<lambda>_.
     and_then (derive seed namespace source) (\<lambda>b. Inr (from_bytes (take 8 b) mod pool_size)))"

definition derive_value ::
    "(determinism_error \<Rightarrow> 'e) \<Rightarrow> bytes \<Rightarrow> string \<Rightarrow> bytes \<Rightarrow> (bytes \<Rightarrow> 'e + 'a) \<Rightarrow> 'e + 'a" where
  "derive_value raised seed namespace source from_b = and_then (on_error raised (derive seed namespace source)) from_b"

definition identity_domain :: "bytes \<Rightarrow> determinism_error + bytes" where
  "identity_domain b = Inr b"

section \<open>HKDF\<close>

lemma expand_loop_total:
  "i + n \<le> 256 \<Longrightarrow> \<exists>t. expand_loop n i prk info t0 okm = Inr (okm @ t) \<and> length t = 32 * n"
proof (induction n arbitrary: i t0 okm)
  case 0
  then show ?case by simp
next
  case (Suc n)
  let ?t = "hmac_sha256 prk (t0 @ info @ [word_of_nat i])"
  obtain t where "expand_loop n (i + 1) prk info ?t (okm @ ?t) = Inr ((okm @ ?t) @ t)" "length t = 32 * n"
    using Suc.IH [of "i + 1" ?t "okm @ ?t"] Suc.prems by auto
  then show ?case
    using Suc.prems by (simp add: Let_def)
qed

lemma hkdf_blocks: "len \<le> 255 * HASH_LEN \<Longrightarrow> (len + HASH_LEN - 1) div HASH_LEN \<le> 255 \<and>
    len \<le> 32 * ((len + HASH_LEN - 1) div HASH_LEN)"
  unfolding HASH_LEN_def by linarith

lemma hkdf_expand_total:
  assumes "len \<le> 255 * HASH_LEN"
  shows "\<exists>okm. hkdf_expand prk info len = Inr okm \<and> length okm = len"
proof -
  obtain t where "expand_loop ((len + HASH_LEN - 1) div HASH_LEN) 1 prk info [] [] = Inr t"
      "length t = 32 * ((len + HASH_LEN - 1) div HASH_LEN)"
    using expand_loop_total [of 1 "(len + HASH_LEN - 1) div HASH_LEN" prk info "[]" "[]"] hkdf_blocks [OF assms] by auto
  then show ?thesis
    using assms hkdf_blocks [OF assms] by (auto simp: hkdf_expand_def)
qed

lemma SALT_nonempty: "SALT \<noteq> []"
  by code_simp

lemma hkdf_32: "\<exists>k. hkdf_sha256 seed SALT info 32 = Inr k \<and> length k = 32"
  using hkdf_expand_total [of 32] SALT_nonempty by (simp add: hkdf_sha256_def hkdf_extract_def HASH_LEN_def)

lemma expand_loop_split:
  "expand_loop (m + n) i prk info t okm = Inr r \<Longrightarrow>
   \<exists>r' u. expand_loop m i prk info t okm = Inr r' \<and> r = r' @ u"
proof (induction m arbitrary: i t okm)
  case 0
  have "\<exists>u. r = okm @ u" if "expand_loop n i prk info t okm = Inr r" for n i t okm
    using that by (induction n arbitrary: i t okm) (auto simp: Let_def split: if_splits, metis append_assoc)
  then show ?case
    using 0 by auto
next
  case (Suc m)
  then show ?case
    by (auto simp: Let_def split: if_splits)
qed

section \<open>Frames\<close>

lemma len4_total: "length bs < 2 ^ 32 \<Longrightarrow> \<exists>lb. len4 bs = Inr lb \<and> length lb = 4"
proof -
  assume "length bs < 2 ^ 32"
  then have "int (length bs) < int (2 ^ 32)"
    by (simp only: of_nat_less_iff)
  then show ?thesis
    by (simp add: len4_def to_bytes_def)
qed

lemma len4_Inr: "len4 bs = Inr lb \<Longrightarrow> length lb = 4 \<and> from_bytes lb = int (length bs)"
  by (auto simp: len4_def result_simps codec_simps from_bytes_be_bytes)

lemma hmac_input_total:
  assumes "length (utf8 ns) < 2 ^ 32" "length src < 2 ^ 32"
  shows "\<exists>m. hmac_input ns src = Inr m"
  using len4_total [OF assms(1)] len4_total [OF assms(2)]
  by (auto simp: hmac_input_def ns_prefix_def source_frame_def)

text \<open>A length-prefixed field can be read back: two equal frames carry equal fields.\<close>

lemma frame_split:
  assumes "len4 a = Inr la" "len4 b = Inr lb" "la @ a @ x = lb @ b @ y"
  shows "a = b \<and> x = y"
proof -
  have "la = lb" "a @ x = b @ y"
    using assms len4_Inr [OF assms(1)] len4_Inr [OF assms(2)] by (auto simp: append_eq_append_conv)
  moreover have "length a = length b"
    using len4_Inr [OF assms(1)] len4_Inr [OF assms(2)] \<open>la = lb\<close> by simp
  ultimately show ?thesis
    by (simp add: append_eq_append_conv)
qed

lemma derive_eq:
  assumes "for_column seed ns = Inr ctx"
  shows "derive seed ns src = derive_source ctx ns src"
  using assms by (auto simp: for_column_def derive_def derive_source_def result_simps)

lemma derive_total:
  assumes "length seed \<in> {8, 32}" "ns \<noteq> []" "length (utf8 ns) < 2 ^ 32" "length src < 2 ^ 32"
  shows "\<exists>out. derive seed ns src = Inr out \<and> length out = 32"
proof -
  have "check_seed_namespace seed ns = Inr ()"
    using assms(1,2) by (auto simp: check_seed_namespace_def SEED_LENGTHS_def)
  then show ?thesis
    using hmac_input_total [OF assms(3,4)] hkdf_32 [of seed "utf8 ns"] by (auto simp: derive_def)
qed

section \<open>Properties\<close>

text \<open>C14. The per-column context is an optimisation only: a context built for a seed and namespace
  derives, for each source and for a whole column through the streaming form, exactly what the scalar
  \<open>derive\<close> gives.\<close>

theorem derive_context_agrees:
  assumes "for_column seed ns = Inr ctx" "length (utf8 ns) < 2 ^ 32"
  shows "derive_source ctx ns src = derive seed ns src \<and>
    derive_sources ctx ns srcs = map_result (derive seed ns) srcs"
proof -
  obtain p where p: "ns_prefix ns = Inr p"
    using len4_total [OF assms(2)] by (auto simp: ns_prefix_def)
  have "and_then (source_frame s) (\<lambda>f. Inr (hmac_digest (hmac_update (hmac_new (dc_hmac_key ctx) p) f))) = derive seed ns s" for s
    using derive_eq [OF assms(1), of s] p
    by (cases "source_frame s") (simp_all add: derive_source_def hmac_input_def hmac_streaming)
  moreover have "derive seed ns = derive_source ctx ns"
    using derive_eq [OF assms(1)] by (simp add: fun_eq_iff)
  ultimately show ?thesis
    using p by (simp add: derive_sources_def Let_def)
qed

text \<open>The HMAC input is injective: two (namespace, source) pairs with the same envelope are the
  same pair.\<close>

theorem hmac_input_inj:
  assumes "hmac_input ns src = Inr m" "hmac_input ns' src' = Inr m"
  shows "ns = ns' \<and> src = src'"
proof -
  obtain ln ls where a: "len4 (utf8 ns) = Inr ln" "len4 src = Inr ls"
      "m = word_of_nat SEED_PROTOCOL_VERSION # ln @ utf8 ns @ ls @ src"
    using assms(1) by (auto simp: hmac_input_def ns_prefix_def source_frame_def result_simps)
  obtain ln' ls' where b: "len4 (utf8 ns') = Inr ln'" "len4 src' = Inr ls'"
      "m = word_of_nat SEED_PROTOCOL_VERSION # ln' @ utf8 ns' @ ls' @ src'"
    using assms(2) by (auto simp: hmac_input_def ns_prefix_def source_frame_def result_simps)
  have "utf8 ns = utf8 ns' \<and> ls @ src = ls' @ src'"
    using frame_split [OF a(1) b(1), of "ls @ src" "ls' @ src'"] a(3) b(3) by simp
  then show ?thesis
    using frame_split [OF a(2) b(2), of "[]" "[]"] utf8_inj by auto
qed

text \<open>\<open>derive_index\<close> returns an index below the pool size on every valid input, and an invalid pool
  size is reported before anything else, with its own code for too large and for not positive.\<close>

theorem derive_index_in_range:
  assumes "length seed \<in> {8, 32}" "ns \<noteq> []" "length (utf8 ns) < 2 ^ 32" "length src < 2 ^ 32"
  shows "if POOL_SIZE_MAX < n then derive_index seed ns src n = Inl (POOL_SIZE_OVERFLOW n)
    else if n < 1 then derive_index seed ns src n = Inl (POOL_SIZE_INVALID n)
    else \<exists>i. derive_index seed ns src n = Inr i \<and> 0 \<le> i \<and> i < n"
  using derive_total [OF assms] by (auto simp: derive_index_def check_pool_size_def)

text \<open>HKDF expansion returns exactly the requested number of bytes up to the RFC 5869 bound, and a
  shorter request is a prefix of a longer one.\<close>

theorem hkdf_expand_prefix:
  assumes "m \<le> n" "n \<le> 255 * HASH_LEN"
  shows "\<exists>okm. hkdf_expand prk info n = Inr okm \<and> length okm = n \<and> hkdf_expand prk info m = Inr (take m okm)"
proof -
  let ?b = "\<lambda>k. (k + HASH_LEN - 1) div HASH_LEN"
  have le: "?b m \<le> ?b n"
    using assms(1) by (intro div_le_mono) simp
  obtain r where r: "expand_loop (?b n) 1 prk info [] [] = Inr r" "length r = 32 * ?b n"
    using expand_loop_total [of 1 "?b n" prk info "[]" "[]"] hkdf_blocks [OF assms(2)] by auto
  obtain r' u where r': "expand_loop (?b m) 1 prk info [] [] = Inr r'" "r = r' @ u"
    using expand_loop_split [of "?b m" "?b n - ?b m" 1 prk info "[]" "[]" r] r(1) le by auto
  have "length r' = 32 * ?b m"
    using expand_loop_total [of 1 "?b m" prk info "[]" "[]"] hkdf_blocks [OF assms(2)] le r'(1) by auto
  then have "take m r' = take m (take n r)"
    using hkdf_blocks [of m] assms r'(2) by (simp add: min_def)
  then show ?thesis
    using assms r r' hkdf_blocks [OF assms(2)] by (auto simp: hkdf_expand_def)
qed

section \<open>Witnesses\<close>

lemma demo_context: "\<exists>ctx. for_column (replicate 8 1) ''ns'' = Inr ctx"
  using hkdf_32 [of "replicate 8 1" "utf8 ''ns''"]
  by (auto simp: for_column_def check_seed_namespace_def SEED_LENGTHS_def)

lemma demo_utf8: "length (utf8 ''ns'') = 2"
  by code_simp

theorem derive_context_agrees_witness:
  "\<exists>ctx. for_column (replicate 8 1) ''ns'' = Inr ctx \<and>
     derive_sources ctx ''ns'' [[1], []] = map_result (derive (replicate 8 1) ''ns'') [[1], []]"
proof -
  obtain ctx where ctx: "for_column (replicate 8 1) ''ns'' = Inr ctx"
    using demo_context by blast
  from derive_context_agrees [OF this, of "[1]" "[[1], []]"] show ?thesis
    using ctx demo_utf8 by auto
qed

theorem hmac_input_inj_witness:
  "hmac_input ''abc'' [1] = Inr [7, 0, 0, 0, 3, 97, 98, 99, 0, 0, 0, 1, 1] \<and>
   hmac_input ''ab'' [1] \<noteq> Inr [7, 0, 0, 0, 3, 97, 98, 99, 0, 0, 0, 1, 1]"
proof -
  have "hmac_input ''abc'' [1] = Inr [7, 0, 0, 0, 3, 97, 98, 99, 0, 0, 0, 1, 1]"
    by code_simp
  with hmac_input_inj [OF this, of "''ab''" "[1]"] show ?thesis
    by auto
qed

theorem derive_index_in_range_witness:
  "\<exists>i. derive_index (replicate 32 5) ''ns'' [] 1000 = Inr i \<and> 0 \<le> i \<and> i < 1000"
proof -
  have "length (replicate 32 (5 :: byte)) \<in> {8, 32}" "''ns'' \<noteq> []" "length (utf8 ''ns'') < 2 ^ 32"
      "length ([] :: bytes) < 2 ^ 32"
    using demo_utf8 by simp_all
  from derive_index_in_range [OF this, of 1000] show ?thesis
    by (simp add: POOL_SIZE_MAX_def)
qed

theorem hkdf_expand_prefix_witness:
  "\<exists>okm. hkdf_expand [1] [2] 64 = Inr okm \<and> length okm = 64 \<and> hkdf_expand [1] [2] 33 = Inr (take 33 okm)"
  by (rule hkdf_expand_prefix) (simp_all add: HASH_LEN_def)

end
