(* ===== verification/Canonicalize.thy ===== *)
theory Canonicalize
  imports Determinism Py_Text
begin

text \<open>
  \<open>generation/pool/_canonicalize.py\<close>: the canonical bytes of a source value, the input of every
  deterministic mapping. A value is tagged with the branch of the type dispatch it takes. The text
  of a \<open>Decimal\<close> or of a date is what \<open>str\<close> or \<open>isoformat\<close> gives; Unicode NFC normalisation is the
  identity on code points up to 255.
\<close>

section \<open>Model\<close>

datatype source_value =
    SNone | SBool bool | SInt int | SFloat | SDecimal string | SDatetimeNaive
  | SDatetimeUtc string | SDate string | SStr string

datatype canonical_error =
    NULL_CANONICALIZATION_UNREACHABLE | FLOAT_CANONICALIZATION_UNSUPPORTED | TIMEZONE_NAIVE_DATETIME
  | CanonOverflow

text \<open>\<open>n.to_bytes(k, "big", signed=True)\<close>.\<close>

definition to_bytes_signed :: "int \<Rightarrow> nat \<Rightarrow> bytes option" where
  "to_bytes_signed n k =
     (if 0 < k \<and> - (2 ^ (8 * k - 1)) \<le> n \<and> n < 2 ^ (8 * k - 1) then Some (be_bytes k (n mod 256 ^ k)) else None)"

definition encode_int :: "int \<Rightarrow> canonical_error + bytes" where
  "encode_int n =
     (let nbytes = (bit_length \<bar>n\<bar> + 8) div 8 in
      and_then (of_option CanonOverflow (to_bytes_signed n nbytes)) (\<lambda>body.
      and_then (of_option CanonOverflow (to_bytes (int (length body)) 4)) (\<lambda>lb. Inr (lb @ body))))"

definition canonicalize_source :: "source_value \<Rightarrow> canonical_error + bytes" where
  "canonicalize_source v =
     (case v of
        SNone \<Rightarrow> Inl NULL_CANONICALIZATION_UNREACHABLE
      | SBool b \<Rightarrow> Inr (if b then [1] else [0])
      | SInt n \<Rightarrow> encode_int n
      | SFloat \<Rightarrow> Inl FLOAT_CANONICALIZATION_UNSUPPORTED
      | SDecimal s \<Rightarrow> Inr (utf8 s)
      | SDatetimeNaive \<Rightarrow> Inl TIMEZONE_NAIVE_DATETIME
      | SDatetimeUtc s \<Rightarrow> Inr (utf8 s)
      | SDate s \<Rightarrow> Inr (utf8 s)
      | SStr s \<Rightarrow> Inr (utf8 s))"

section \<open>Integers\<close>

lemma bit_length_abs_fits:
  assumes "k = (bit_length \<bar>n\<bar> + 8) div 8"
  shows "0 < k \<and> - (2 ^ (8 * k - 1)) \<le> n \<and> n < 2 ^ (8 * k - 1)"
proof -
  have k: "0 < k" "bit_length \<bar>n\<bar> \<le> 8 * k - 1"
    using assms by auto
  have "\<bar>n\<bar> < 2 ^ bit_length \<bar>n\<bar>"
    by (rule bit_length_bound)
  also have "\<dots> \<le> 2 ^ (8 * k - 1)"
    using k(2) by (intro power_increasing) auto
  finally show ?thesis
    using k(1) by linarith
qed

lemma signed_mod_inj:
  assumes "0 < k" "- (2 ^ (8 * k - 1)) \<le> n" "n < 2 ^ (8 * k - 1)" "- (2 ^ (8 * k - 1)) \<le> m" "m < 2 ^ (8 * k - 1)"
    and "n mod 256 ^ k = m mod (256 :: int) ^ k"
  shows "n = m"
proof -
  define h where "h = (2 :: int) ^ (8 * k - 1)"
  have w: "(256 :: int) ^ k = 2 * h"
  proof -
    have "(256 :: int) ^ k = 2 ^ (8 * k)"
      by (simp add: power_mult)
    also have "8 * k = Suc (8 * k - 1)"
      using assms(1) by simp
    finally show ?thesis
      by (simp only: h_def power_Suc)
  qed
  have "(n + h) mod (2 * h) = (m + h) mod (2 * h)"
    using assms(6) unfolding w by (metis mod_add_left_eq)
  moreover have "(n + h) mod (2 * h) = n + h" "(m + h) mod (2 * h) = m + h"
    using assms(2-5) unfolding h_def [symmetric] by (auto intro!: mod_pos_pos_trivial)
  ultimately show ?thesis
    by simp
qed

lemma encode_int_total:
  assumes "(bit_length \<bar>n\<bar> + 8) div 8 < 2 ^ 32"
  shows "\<exists>bs. encode_int n = Inr bs"
proof -
  let ?k = "(bit_length \<bar>n\<bar> + 8) div 8"
  have "int ?k < int (2 ^ 32)"
    using assms by (simp only: of_nat_less_iff)
  then show ?thesis
    using bit_length_abs_fits [of ?k n] by (simp add: encode_int_def to_bytes_signed_def to_bytes_def Let_def)
qed

lemma encode_int_Inr:
  assumes "encode_int n = Inr bs" "k = (bit_length \<bar>n\<bar> + 8) div 8"
  shows "length bs = 4 + k \<and> drop 4 bs = be_bytes k (n mod 256 ^ k)"
  using assms
  by (auto simp: encode_int_def to_bytes_signed_def Let_def result_simps codec_simps split: if_splits)

lemma be_bytes_2: "be_bytes 2 x = [word_of_int (x div 256 mod 256), word_of_int (x mod 256)]"
  by (simp add: numeral_2_eq_2)

lemma be_bytes_4:
  "be_bytes 4 x = [word_of_int (x div 256 div 256 div 256 mod 256), word_of_int (x div 256 div 256 mod 256),
     word_of_int (x div 256 mod 256), word_of_int (x mod 256)]"
  by (simp add: numeral_eq_Suc)

text \<open>The canonical form of integers is injective: integers of any magnitude, positive or negative,
  with the same canonical bytes are equal.\<close>

theorem encode_int_inj:
  assumes "canonicalize_source (SInt n) = Inr bs" "canonicalize_source (SInt m) = Inr bs"
  shows "n = m"
proof -
  define k where "k = (bit_length \<bar>n\<bar> + 8) div 8"
  define l where "l = (bit_length \<bar>m\<bar> + 8) div 8"
  have n: "length bs = 4 + k" "drop 4 bs = be_bytes k (n mod 256 ^ k)"
    using encode_int_Inr [OF _ k_def, of bs] assms(1) by (auto simp: canonicalize_source_def)
  have m: "length bs = 4 + l" "drop 4 bs = be_bytes l (m mod 256 ^ l)"
    using encode_int_Inr [OF _ l_def, of bs] assms(2) by (auto simp: canonicalize_source_def)
  have kl: "l = k"
    using n(1) m(1) by simp
  have "n mod 256 ^ k = from_bytes (drop 4 bs)" "m mod 256 ^ k = from_bytes (drop 4 bs)"
    using from_bytes_be_bytes [of "n mod 256 ^ k" k] from_bytes_be_bytes [of "m mod 256 ^ k" k] n(2) m(2) [unfolded kl]
    by (metis pos_mod_bound pos_mod_sign zero_less_numeral zero_less_power)+
  then have eq: "n mod 256 ^ k = m mod 256 ^ k"
    by simp
  note fn = bit_length_abs_fits [OF k_def] and fm = bit_length_abs_fits [OF l_def, unfolded kl]
  show ?thesis
    by (rule signed_mod_inj [OF fn [THEN conjunct1] fn [THEN conjunct2, THEN conjunct1] fn [THEN conjunct2, THEN conjunct2]
          fm [THEN conjunct2, THEN conjunct1] fm [THEN conjunct2, THEN conjunct2] eq])
qed

theorem encode_int_inj_witness:
  "canonicalize_source (SInt (-128)) = Inr [0, 0, 0, 2, 255, 128] \<and>
   canonicalize_source (SInt 128) \<noteq> Inr [0, 0, 0, 2, 255, 128]"
proof -
  have bl: "bit_length 128 = 8"
    by (simp add: bit_length.simps)
  have tb: "to_bytes_signed (-128) 2 = Some [255, 128]"
    by (simp add: to_bytes_signed_def be_bytes_2)
  have "to_bytes 2 4 = Some [0, 0, 0, 2]"
    by (simp add: to_bytes_def be_bytes_4)
  then have "canonicalize_source (SInt (-128)) = Inr [0, 0, 0, 2, 255, 128]"
    by (simp add: canonicalize_source_def encode_int_def Let_def bl tb)
  with encode_int_inj [OF this, of 128] show ?thesis
    by auto
qed

end
