(* ===== verification/Detection_Validators.thy ===== *)
theory Detection_Validators
  imports Checksums
begin

text \<open>
  The per-value validators of the detection scan, \<open>detection/_validators.py\<close>: Luhn, IBAN mod 97,
  IPv4, NPI, ISO date and ICD-10, with their reference tables. \<open>int\<close> raises on the superscript
  digits that \<open>isdigit\<close> lets through; only the IBAN validator catches that.
\<close>

section \<open>Model\<close>

definition drop_space_dash :: "string \<Rightarrow> string" where
  "drop_space_dash s = filter (\<lambda>c. \<not> py_space c \<and> c \<noteq> CHR ''-'') s"

text \<open>The Luhn loop of the validator doubles the odd positions from the right.\<close>

fun luhn_valid_loop :: "nat \<Rightarrow> nat \<Rightarrow> string \<Rightarrow> checksum_error + nat" where
  "luhn_valid_loop i acc [] = Inr acc"
| "luhn_valid_loop i acc (ch # rest) =
     and_then (py_int_char ch) (\<lambda>d.
       luhn_valid_loop (i + 1) (acc + (if i mod 2 = 1 then (if 2 * d > 9 then 2 * d - 9 else 2 * d) else d)) rest)"

definition luhn_valid :: "string \<Rightarrow> checksum_error + bool" where
  "luhn_valid s =
     (let digits = drop_space_dash s in
      if \<not> py_isdigit digits \<or> length digits < 13 then Inr False
      else and_then (luhn_valid_loop 0 0 (rev digits)) (\<lambda>acc. Inr (acc mod 10 = 0)))"

definition IBAN_COUNTRIES :: "string list" where
  "IBAN_COUNTRIES = [
      ''AD'', ''AE'', ''AL'', ''AT'', ''AZ'', ''BA'', ''BE'', ''BG'', ''BH'', ''BR'', ''BY'',
      ''CH'', ''CR'', ''CY'', ''CZ'', ''DE'', ''DK'', ''DO'', ''EE'', ''EG'', ''ES'', ''FI'',
      ''FO'', ''FR'', ''GB'', ''GE'', ''GI'', ''GL'', ''GR'', ''GT'', ''HR'', ''HU'', ''IE'',
      ''IL'', ''IQ'', ''IS'', ''IT'', ''JO'', ''KW'', ''KZ'', ''LB'', ''LC'', ''LI'', ''LT'',
      ''LU'', ''LV'', ''MC'', ''MD'', ''ME'', ''MK'', ''MR'', ''MT'', ''MU'', ''NL'', ''NO'',
      ''PK'', ''PL'', ''PS'', ''PT'', ''QA'', ''RO'', ''RS'', ''RU'', ''SA'', ''SC'', ''SE'',
      ''SI'', ''SK'', ''SM'', ''ST'', ''SV'', ''TL'', ''TN'', ''TR'', ''UA'', ''VA'', ''VG'',
      ''XK'']"

fun iban_digits :: "string \<Rightarrow> string option" where
  "iban_digits [] = Some []"
| "iban_digits (c # rest) =
     (if py_isdigit_char c then map_option (\<lambda>t. c # t) (iban_digits rest)
      else if py_isalpha_char c then map_option (\<lambda>t. py_str_int (int (of_char c) - 55) @ t) (iban_digits rest)
      else None)"

definition iban_valid :: "string \<Rightarrow> bool" where
  "iban_valid s =
     (let iban = filter (\<lambda>c. \<not> py_space c) (py_upper s) in
      if length iban < 15 \<or> 34 < length iban then False
      else if \<not> (py_isalpha (take 2 iban) \<and> py_isdigit (take 2 (drop 2 iban))) then False
      else if take 2 iban \<notin> set IBAN_COUNTRIES then False
      else case iban_digits (drop 4 iban @ take 4 iban) of
          None \<Rightarrow> False
        | Some digits \<Rightarrow> (case py_int digits of None \<Rightarrow> False | Some n \<Rightarrow> n mod 97 = 1))"

fun ipv4_parts :: "string list \<Rightarrow> checksum_error + bool" where
  "ipv4_parts [] = Inr True"
| "ipv4_parts (p # ps) =
     (if \<not> py_isdigit p \<or> 3 < length p then Inr False
      else and_then (of_option ValueErr (py_int p)) (\<lambda>n.
        if n < 0 \<or> 255 < n then Inr False else ipv4_parts ps))"

definition ipv4_valid :: "string \<Rightarrow> checksum_error + bool" where
  "ipv4_valid s =
     (let parts = py_split (CHR ''.'') s in if length parts \<noteq> 4 then Inr False else ipv4_parts parts)"

definition npi_valid :: "string \<Rightarrow> checksum_error + bool" where
  "npi_valid s =
     (let digits = drop_space_dash s in
      if \<not> py_isdigit digits \<or> length digits \<noteq> 10 then Inr False
      else and_then (luhn_loop 0 0 (rev (''80840'' @ take 9 digits))) (\<lambda>acc.
        and_then (py_int_char (digits ! 9)) (\<lambda>d. Inr ((10 - acc mod 10) mod 10 = d))))"

definition iso_date_valid :: "string \<Rightarrow> checksum_error + bool" where
  "iso_date_valid s =
     (let v = py_strip s in
      if CHR ''-'' \<in> set v \<or> CHR ''T'' \<in> set v \<or> CHR '' '' \<in> set v then Inr True
      else if length v \<noteq> 8 \<or> \<not> py_isdigit v then Inr False
      else and_then (of_option ValueErr (py_int (take 4 v))) (\<lambda>year.
        and_then (of_option ValueErr (py_int (take 2 (drop 4 v)))) (\<lambda>month.
        and_then (of_option ValueErr (py_int (take 2 (drop 6 v)))) (\<lambda>day.
        Inr (1900 \<le> year \<and> year \<le> 2100 \<and> 1 \<le> month \<and> month \<le> 12 \<and> 1 \<le> day \<and> day \<le> 31)))))"

definition ICD10_CHAPTERS :: "(char \<times> nat \<times> nat) list" where
  "ICD10_CHAPTERS = [
      (CHR ''A'', (0, 99)), (CHR ''B'', (0, 99)), (CHR ''C'', (0, 99)), (CHR ''D'', (0, 89)),
      (CHR ''E'', (0, 89)), (CHR ''F'', (1, 99)), (CHR ''G'', (0, 99)), (CHR ''H'', (0, 95)),
      (CHR ''I'', (0, 99)), (CHR ''J'', (0, 99)), (CHR ''K'', (0, 95)), (CHR ''L'', (0, 99)),
      (CHR ''M'', (0, 99)), (CHR ''N'', (0, 99)), (CHR ''O'', (0, 99)), (CHR ''P'', (0, 96)),
      (CHR ''Q'', (0, 99)), (CHR ''R'', (0, 99)), (CHR ''S'', (0, 99)), (CHR ''T'', (0, 88)),
      (CHR ''U'', (0, 85)), (CHR ''V'', (0, 99)), (CHR ''W'', (0, 99)), (CHR ''X'', (0, 99)),
      (CHR ''Y'', (0, 99)), (CHR ''Z'', (0, 99))]"

definition icd10_valid :: "string \<Rightarrow> checksum_error + bool" where
  "icd10_valid s =
     (let v = filter (\<lambda>c. c \<noteq> CHR ''.'') (py_upper (py_strip s)) in
      if \<not> (3 \<le> length v \<and> length v \<le> 7 \<and> py_isalpha_char (v ! 0) \<and> py_isdigit (take 2 (drop 1 v))) then Inr False
      else case map_of ICD10_CHAPTERS (v ! 0) of
          None \<Rightarrow> Inr False
        | Some (cat_lo, cat_hi) \<Rightarrow>
            and_then (of_option ValueErr (py_int (take 2 (drop 1 v)))) (\<lambda>cat.
            Inr (int cat_lo \<le> cat \<and> cat \<le> int cat_hi)))"

section \<open>Luhn\<close>

text \<open>The validator's sum over a whole number is the check-digit sum of its body plus the last digit.\<close>

lemma luhn_valid_loop_digits:
  "all_digits s \<Longrightarrow> luhn_valid_loop i t s = Inr (t + luhn_sum (Suc i) s)"
proof (induction s arbitrary: i t)
  case Nil
  then show ?case by simp
next
  case (Cons c s)
  then show ?case
    by (simp add: py_int_char_def luhn_doubled_def) presburger
qed

lemma drop_space_dash_digits: "all_digits s \<Longrightarrow> drop_space_dash s = s"
  by (auto simp: drop_space_dash_def filter_id_conv all_digits_iff digit_plain digit_not_sign)

lemma luhn_valid_iff:
  assumes "all_digits (body @ [c])" "12 \<le> length body"
  shows "luhn_valid (body @ [c]) = Inr (luhn_cd body = Inr [c])"
proof -
  have d: "drop_space_dash (body @ [c]) = body @ [c]"
    using assms(1) by (rule drop_space_dash_digits)
  have "luhn_valid (body @ [c]) = Inr (luhn_sum 1 (rev (body @ [c])) mod 10 = 0)"
    using assms by (simp add: luhn_valid_def d luhn_valid_loop_digits py_int_char_def luhn_doubled_def)
  also have "luhn_sum 1 (rev (body @ [c])) = luhn_sum 0 (rev body) + digit_val c"
  proof -
    have shift: "luhn_sum (Suc (Suc i)) s = luhn_sum i s" for i s
      by (induction s arbitrary: i) (auto simp: luhn_doubled_def)
    show ?thesis
      using shift [of 0 "rev body"] by (simp add: luhn_doubled_def numeral_2_eq_2)
  qed
  finally show ?thesis
    using luhn_cd_iff [OF assms(1)] by simp
qed

lemma npi_valid_digits:
  assumes "all_digits s" "length s = 10" "npi_validate s = Inr True"
  shows "npi_valid s = Inr True"
proof -
  have d9: "is_digit (s ! 9)"
    using assms by (simp add: all_digits_iff)
  have "(luhn_sum 0 (rev (NPI_PREFIX @ take 9 s)) + digit_val (s ! 9)) mod 10 = 0"
    using assms npi_validate_iff by blast
  then have "digit_val (s ! 9) = (10 - luhn_sum 0 (rev (NPI_PREFIX @ take 9 s)) mod 10) mod 10"
    by (rule check_digit_mod [OF digit_val_less [OF d9], THEN iffD2])
  moreover have "luhn_loop 0 0 (rev (NPI_PREFIX @ take 9 s)) = Inr (luhn_sum 0 (rev (NPI_PREFIX @ take 9 s)))"
    using assms luhn_loop_digits [of "rev (NPI_PREFIX @ take 9 s)" 0 0] by (simp add: all_digits_take)
  ultimately show ?thesis
    using assms d9
    by (auto simp: npi_valid_def drop_space_dash_digits py_int_char_def simp flip: NPI_PREFIX_def)
qed

text \<open>A detection scan recognises what the identifier generators emit: on a number of at least
  thirteen digits the scan's Luhn check accepts exactly when the last digit is the registry's check
  digit of the rest, and every ten-digit NPI the registry accepts passes the scan's NPI check.\<close>

theorem detection_agrees_with_registry:
  assumes "all_digits (body @ [c])" "12 \<le> length body" "length npi = 10" "npi_validate npi = Inr True"
  shows "luhn_valid (body @ [c]) = Inr (luhn_cd body = Inr [c]) \<and> npi_valid npi = Inr True"
  using luhn_valid_iff [OF assms(1,2)] npi_valid_digits [of npi] npi_validate_iff [of npi] assms(3,4) by simp

theorem detection_agrees_with_registry_witness:
  "luhn_valid (''453914880343646'' @ ''7'') = Inr (luhn_cd ''453914880343646'' = Inr ''7'') \<and>
   npi_valid ''1234567893'' = Inr True"
  by (rule detection_agrees_with_registry) (code_simp | simp add: is_digit_def)+

end
