(* ===== verification/Identifiers.thy ===== *)
theory Identifiers
  imports Canonicalize Detection_Validators
begin

text \<open>
  The identifier providers \<open>providers_v2/identifiers/\<close>: SSN, EIN, NPI, NDC, PAN, MRN, CUSIP, ICD-10
  and IBAN. Each has a \<open>Domain.from_bytes\<close> that turns the 32 bytes of \<open>derive\<close> into an identifier, a
  validator, a random generator and an adapter whose \<open>generate\<close> chooses between the two. numpy's
  generator is a parameter: \<open>rng k n\<close> is its \<open>k\<close>-th draw below \<open>n\<close> (hypothesis \<open>rng_in_range\<close>).

  The locale \<open>identifier_domain\<close> is the contract between an adapter and its domain; it is interpreted
  on the model's nine domains.
\<close>

section \<open>Model\<close>

datatype ident_error =
    INVALID_INPUT_LENGTH nat | BLOCKLIST_EXHAUSTED | INVALID_CUSIP_CHAR char | UNKNOWN_PROVIDER string
  | MISSING_SEED | MISSING_NAMESPACE | UNSUPPORTED_LOCALE string | BATCH_DETERMINISTIC_UNSUPPORTED
  | RaisedDeterminism determinism_error | RaisedCanonical canonical_error | RaisedValue checksum_error
  | DrawsExhausted

type_synonym 'a ident = "ident_error + 'a"
type_synonym rng = "nat \<Rightarrow> nat \<Rightarrow> nat"

definition rng_in_range :: "rng \<Rightarrow> bool" where
  "rng_in_range rng \<longleftrightarrow> (\<forall>k n. 0 < n \<longrightarrow> rng k n < n)"

definition slice_int :: "bytes \<Rightarrow> nat \<Rightarrow> nat \<Rightarrow> nat" where
  "slice_int b i j = nat (from_bytes (take (j - i) (drop i b)))"

definition need32 :: "bytes \<Rightarrow> unit ident" where
  "need32 b = require (length b = 32) (INVALID_INPUT_LENGTH (length b))"

definition int_of :: "string \<Rightarrow> int ident" where
  "int_of s = of_option (RaisedValue ValueErr) (py_int s)"

subsection \<open>SSN\<close>

definition INVALID_AREAS :: "int list" where
  "INVALID_AREAS = [0, 666] @ map int [900..<1000]"

definition is_blocklisted :: "string \<Rightarrow> bool ident" where
  "is_blocklisted s =
     (if length s \<noteq> 9 \<or> \<not> py_isdigit s then Inr True
      else and_then (int_of (take 3 s)) (\<lambda>area.
        and_then (int_of (take 2 (drop 3 s))) (\<lambda>grp.
        and_then (int_of (drop 5 s)) (\<lambda>serial.
        Inr (area \<in> set INVALID_AREAS \<or> grp = 0 \<or> serial = 0)))))"

definition format_ssn :: "nat \<Rightarrow> string" where
  "format_ssn n = zfill 9 (n mod 1000000000)"

definition format_ssn_display :: "string \<Rightarrow> string" where
  "format_ssn_display s = take 3 s @ ''-'' @ take 2 (drop 3 s) @ ''-'' @ drop 5 s"

fun ssn_offsets :: "bytes \<Rightarrow> nat list \<Rightarrow> string ident" where
  "ssn_offsets b [] = Inl BLOCKLIST_EXHAUSTED"
| "ssn_offsets b (off # offs) =
     (let candidate = format_ssn (slice_int b off (off + 8)) in
      and_then (is_blocklisted candidate) (\<lambda>blocked.
      if \<not> blocked then Inr (format_ssn_display candidate) else ssn_offsets b offs))"

definition ssn_from_bytes :: "bytes \<Rightarrow> string ident" where
  "ssn_from_bytes b = and_then (need32 b) (\<lambda>_. ssn_offsets b [0, 8, 16, 24])"

definition ssn_is_valid :: "string \<Rightarrow> bool ident" where
  "ssn_is_valid s =
     (let parts = py_split (CHR ''-'') s in
      if length parts \<noteq> 3 \<or> map length parts \<noteq> [3, 2, 4] then Inr False
      else and_then (is_blocklisted (concat parts)) (\<lambda>blocked. Inr (\<not> blocked)))"

definition us_only :: "string \<Rightarrow> unit ident" where
  "us_only loc = require (loc = ''en_US'') (UNSUPPORTED_LOCALE loc)"

text \<open>\<open>while True\<close>: \<open>fuel\<close> bounds the number of draws.\<close>

fun ssn_draw_loop :: "nat \<Rightarrow> rng \<Rightarrow> nat \<Rightarrow> string ident" where
  "ssn_draw_loop 0 rng k = Inl DrawsExhausted"
| "ssn_draw_loop (Suc fuel) rng k =
     (let candidate = format_ssn (rng k 1000000000) in
      and_then (is_blocklisted candidate) (\<lambda>blocked.
      if \<not> blocked then Inr (format_ssn_display candidate) else ssn_draw_loop fuel rng (k + 1)))"

definition ssn_generate_random :: "nat \<Rightarrow> rng \<Rightarrow> string \<Rightarrow> string ident" where
  "ssn_generate_random fuel rng loc = and_then (us_only loc) (\<lambda>_. ssn_draw_loop fuel rng 0)"

subsection \<open>EIN\<close>

definition VALID_PREFIXES :: "nat list" where
  "VALID_PREFIXES = [
      1, 2, 3, 4, 5, 6, 10, 11, 12, 13, 14, 15, 16, 20, 21, 22, 23, 24, 25, 26, 27, 30, 31,
      32, 33, 34, 35, 36, 37, 38, 39, 40, 41, 42, 43, 44, 45, 46, 47, 48, 50, 51, 52, 53, 54,
      55, 56, 57, 58, 59, 60, 61, 62, 63, 64, 65, 66, 67, 68, 71, 72, 73, 74, 75, 76, 77, 80,
      81, 82, 83, 84, 85, 86, 87, 88, 90, 91, 92, 93, 94, 95, 98, 99]"

definition is_valid_ein :: "string \<Rightarrow> bool ident" where
  "is_valid_ein s =
     (if length s \<noteq> 9 \<or> \<not> py_isdigit s then Inr False
      else and_then (int_of (take 2 s)) (\<lambda>p. Inr (p \<in> int ` set VALID_PREFIXES)))"

definition ein_text :: "nat \<Rightarrow> nat \<Rightarrow> string" where
  "ein_text prefix last7 = zfill 2 prefix @ ''-'' @ zfill 7 last7"

definition ein_from_bytes :: "bytes \<Rightarrow> string ident" where
  "ein_from_bytes b =
     and_then (need32 b) (\<lambda>_.
     Inr (ein_text (VALID_PREFIXES ! (slice_int b 0 4 mod length VALID_PREFIXES)) (slice_int b 4 12 mod 10000000)))"

definition ein_is_valid :: "string \<Rightarrow> bool ident" where
  "ein_is_valid s =
     (let parts = py_split (CHR ''-'') s in
      if length parts \<noteq> 2 \<or> map length parts \<noteq> [2, 7] then Inr False else is_valid_ein (concat parts))"

definition ein_generate_random :: "rng \<Rightarrow> string \<Rightarrow> string ident" where
  "ein_generate_random rng loc =
     and_then (us_only loc) (\<lambda>_.
     Inr (ein_text (VALID_PREFIXES ! rng 0 (length VALID_PREFIXES)) (rng 1 10000000)))"

subsection \<open>NPI and PAN\<close>

definition luhn_digit :: "string \<Rightarrow> nat ident" where
  "luhn_digit digits = on_error RaisedValue (and_then (luhn_loop 0 0 (rev digits)) (\<lambda>acc. Inr ((10 - acc mod 10) mod 10)))"

definition generate_npi_from_body :: "string \<Rightarrow> string ident" where
  "generate_npi_from_body body9 = and_then (luhn_digit (''80840'' @ body9)) (\<lambda>check. Inr (body9 @ dec_str check))"

definition npi_from_bytes :: "bytes \<Rightarrow> string ident" where
  "npi_from_bytes b =
     and_then (need32 b) (\<lambda>_.
     let first = (if unat (b ! 0) mod 2 = 0 then ''1'' else ''2'') in
     generate_npi_from_body (first @ zfill 8 (slice_int b 1 9 mod 100000000)))"

definition npi_is_valid :: "string \<Rightarrow> bool ident" where
  "npi_is_valid s = on_error RaisedValue (is_valid_npi s)"

definition npi_generate_random :: "rng \<Rightarrow> string \<Rightarrow> string ident" where
  "npi_generate_random rng loc =
     and_then (us_only loc) (\<lambda>_.
     generate_npi_from_body (dec_str ([1, 2] ! rng 0 2) @ zfill 8 (rng 1 100000000)))"

definition DEFAULT_IIN :: string where "DEFAULT_IIN = ''411111''"

definition generate_pan_from_body :: "string \<Rightarrow> string ident" where
  "generate_pan_from_body body9 =
     (let luhn_input = DEFAULT_IIN @ body9 in
      and_then (luhn_digit luhn_input) (\<lambda>check. Inr (luhn_input @ dec_str check)))"

definition is_valid_pan :: "string \<Rightarrow> bool ident" where
  "is_valid_pan s =
     (if length s \<noteq> 16 \<or> \<not> py_isdigit s then Inr False
      else and_then (luhn_digit (take 15 s)) (\<lambda>expected.
        and_then (on_error RaisedValue (py_int_char (s ! 15))) (\<lambda>n. Inr (n = expected))))"

definition pan_from_bytes :: "bytes \<Rightarrow> string ident" where
  "pan_from_bytes b =
     and_then (need32 b) (\<lambda>_. generate_pan_from_body (zfill 9 (slice_int b 0 9 mod 1000000000)))"

definition pan_generate_random :: "rng \<Rightarrow> string \<Rightarrow> string ident" where
  "pan_generate_random rng loc = generate_pan_from_body (zfill 9 (rng 0 1000000000))"

subsection \<open>NDC\<close>

definition DEFAULT_LAYOUT :: "nat \<times> nat \<times> nat" where "DEFAULT_LAYOUT = (5, 4, 2)"

definition VALID_LAYOUTS :: "(nat \<times> nat \<times> nat) list" where
  "VALID_LAYOUTS = [(4, 4, 2), (5, 3, 2), (5, 4, 1), (5, 4, 2)]"

definition format_ndc :: "nat \<times> nat \<times> nat \<Rightarrow> nat \<Rightarrow> nat \<Rightarrow> nat \<Rightarrow> string" where
  "format_ndc layout labeler product package =
     (case layout of (ld, pd, kd) \<Rightarrow> zfill ld labeler @ ''-'' @ zfill pd product @ ''-'' @ zfill kd package)"

definition is_valid_ndc :: "string \<Rightarrow> bool ident" where
  "is_valid_ndc s =
     (case py_split (CHR ''-'') s of
        [p, q, r] \<Rightarrow> Inr ((length p, length q, length r) \<in> set VALID_LAYOUTS \<and> list_all py_isdigit [p, q, r])
      | _ \<Rightarrow> Inr False)"

definition ndc_layout :: "int list option \<Rightarrow> nat \<times> nat \<times> nat" where
  "ndc_layout raw =
     (case raw of
        Some [x, y, z] \<Rightarrow>
          if 0 \<le> x \<and> 0 \<le> y \<and> 0 \<le> z \<and> (nat x, nat y, nat z) \<in> set VALID_LAYOUTS then (nat x, nat y, nat z)
          else DEFAULT_LAYOUT
      | _ \<Rightarrow> DEFAULT_LAYOUT)"

definition ndc_from_bytes :: "int list option \<Rightarrow> bytes \<Rightarrow> string ident" where
  "ndc_from_bytes raw b =
     and_then (need32 b) (\<lambda>_.
     case ndc_layout raw of (ld, pd, kd) \<Rightarrow>
       Inr (format_ndc (ld, pd, kd) (slice_int b 0 4 mod 10 ^ ld) (slice_int b 4 8 mod 10 ^ pd) (slice_int b 8 12 mod 10 ^ kd)))"

definition ndc_generate_random :: "rng \<Rightarrow> string \<Rightarrow> string ident" where
  "ndc_generate_random rng loc =
     and_then (us_only loc) (\<lambda>_.
     case DEFAULT_LAYOUT of (ld, pd, kd) \<Rightarrow>
       Inr (format_ndc (ld, pd, kd) (rng 0 (10 ^ ld)) (rng 1 (10 ^ pd)) (rng 2 (10 ^ kd))))"

subsection \<open>MRN\<close>

record mrn_config =
  mrn_digit_count :: nat
  mrn_alpha_prefix :: string
  mrn_allow_leading_zero :: bool

definition is_valid_mrn :: "mrn_config \<Rightarrow> string \<Rightarrow> bool ident" where
  "is_valid_mrn cfg s =
     (let p = mrn_alpha_prefix cfg; digit_part = drop (length p) s in
      if take (length p) s \<noteq> p then Inr False
      else if length digit_part \<noteq> mrn_digit_count cfg \<or> \<not> py_isdigit digit_part then Inr False
      else Inr (\<not> (\<not> mrn_allow_leading_zero cfg \<and> digit_part ! 0 = CHR ''0'')))"

definition format_mrn :: "mrn_config \<Rightarrow> nat \<Rightarrow> string" where
  "format_mrn cfg n =
     (let digits = zfill (mrn_digit_count cfg) (n mod 10 ^ mrn_digit_count cfg) in
      mrn_alpha_prefix cfg @
        (if \<not> mrn_allow_leading_zero cfg \<and> digits ! 0 = CHR ''0'' then CHR ''1'' # drop 1 digits else digits))"

definition mrn_from_bytes :: "mrn_config \<Rightarrow> bytes \<Rightarrow> string ident" where
  "mrn_from_bytes cfg b = and_then (need32 b) (\<lambda>_. Inr (format_mrn cfg (slice_int b 0 8)))"

definition mrn_generate_random :: "mrn_config \<Rightarrow> rng \<Rightarrow> string \<Rightarrow> string ident" where
  "mrn_generate_random cfg rng loc = Inr (format_mrn cfg (rng 0 (10 ^ mrn_digit_count cfg)))"

subsection \<open>CUSIP\<close>

definition CUSIP_ALPHABET :: string where
  "CUSIP_ALPHABET = ''0123456789ABCDEFGHIJKLMNOPQRSTUVWXYZ*@#''"

definition char_value :: "char \<Rightarrow> nat ident" where
  "char_value ch =
     (if py_isdigit_char ch then on_error RaisedValue (py_int_char ch)
      else if 65 \<le> (of_char ch :: nat) \<and> (of_char ch :: nat) \<le> 90 then Inr (of_char ch - 65 + 10)
      else if ch = CHR ''*'' then Inr 36
      else if ch = CHR ''@'' then Inr 37
      else if ch = CHR ''#'' then Inr 38
      else Inl (INVALID_CUSIP_CHAR ch))"

fun cusip_loop :: "nat \<Rightarrow> nat \<Rightarrow> string \<Rightarrow> nat ident" where
  "cusip_loop i acc [] = Inr acc"
| "cusip_loop i acc (ch # rest) =
     and_then (char_value ch) (\<lambda>v.
     let w = (if i mod 2 = 1 then v * 2 else v) in cusip_loop (i + 1) (acc + (w div 10 + w mod 10)) rest)"

definition cusip_check_digit :: "string \<Rightarrow> nat ident" where
  "cusip_check_digit body8 = and_then (cusip_loop 0 0 body8) (\<lambda>acc. Inr ((10 - acc mod 10) mod 10))"

definition is_valid_cusip :: "string \<Rightarrow> bool ident" where
  "is_valid_cusip s =
     (if length s \<noteq> 9 then Inr False
      else if \<not> list_all (\<lambda>ch. ch \<in> set CUSIP_ALPHABET) (take 8 s) then Inr False
      else if \<not> py_isdigit_char (s ! 8) then Inr False
      else and_then (cusip_check_digit (take 8 s)) (\<lambda>expected.
        and_then (on_error RaisedValue (py_int_char (s ! 8))) (\<lambda>n. Inr (n = expected))))"

definition generate_cusip_from_body :: "string \<Rightarrow> string ident" where
  "generate_cusip_from_body body8 = and_then (cusip_check_digit body8) (\<lambda>check. Inr (body8 @ dec_str check))"

fun body_from_int_loop :: "nat \<Rightarrow> nat \<Rightarrow> string \<Rightarrow> string" where
  "body_from_int_loop 0 n body = body"
| "body_from_int_loop (Suc k) n body =
     body_from_int_loop k (n div length CUSIP_ALPHABET) (CUSIP_ALPHABET ! (n mod length CUSIP_ALPHABET) # body)"

definition body_from_int :: "nat \<Rightarrow> string" where
  "body_from_int n = body_from_int_loop 8 n []"

definition cusip_from_bytes :: "bytes \<Rightarrow> string ident" where
  "cusip_from_bytes b =
     and_then (need32 b) (\<lambda>_.
     generate_cusip_from_body (body_from_int (slice_int b 0 8 mod length CUSIP_ALPHABET ^ 8)))"

definition cusip_generate_random :: "rng \<Rightarrow> string \<Rightarrow> string ident" where
  "cusip_generate_random rng loc =
     generate_cusip_from_body (map (\<lambda>k. CUSIP_ALPHABET ! rng k (length CUSIP_ALPHABET)) [0..<8])"

subsection \<open>ICD-10\<close>

text \<open>The chapter table is in alphabetic order already, so sorting its keys leaves it as it is.\<close>

definition CHAPTERS_ORDERED :: string where
  "CHAPTERS_ORDERED = map fst ICD10_CHAPTERS"

definition icd10_text :: "char \<Rightarrow> nat \<Rightarrow> nat \<Rightarrow> string" where
  "icd10_text chapter category sub = chapter # zfill 2 category @ ''.'' @ dec_str sub"

definition generate_icd10_from_bytes :: "bytes \<Rightarrow> string ident" where
  "generate_icd10_from_bytes b =
     (let chapter = CHAPTERS_ORDERED ! (unat (b ! 0) mod length CHAPTERS_ORDERED) in
      case map_of ICD10_CHAPTERS chapter of
        None \<Rightarrow> Inl (RaisedValue KeyErr)
      | Some (cat_lo, cat_hi) \<Rightarrow>
          Inr (icd10_text chapter (cat_lo + slice_int b 1 3 mod (cat_hi - cat_lo + 1)) (unat (b ! 3) mod 10)))"

definition icd10_from_bytes :: "bytes \<Rightarrow> string ident" where
  "icd10_from_bytes b = and_then (need32 b) (\<lambda>_. generate_icd10_from_bytes b)"

definition icd10_is_valid :: "string \<Rightarrow> bool ident" where
  "icd10_is_valid s = on_error RaisedValue (icd10_valid s)"

definition icd10_generate_random :: "rng \<Rightarrow> string \<Rightarrow> string ident" where
  "icd10_generate_random rng loc =
     (let chapter = CHAPTERS_ORDERED ! rng 0 (length CHAPTERS_ORDERED) in
      case map_of ICD10_CHAPTERS chapter of
        None \<Rightarrow> Inl (RaisedValue KeyErr)
      | Some (cat_lo, cat_hi) \<Rightarrow>
          Inr (icd10_text chapter (cat_lo + rng 1 (cat_hi + 1 - cat_lo)) (rng 2 10)))"

subsection \<open>IBAN\<close>

definition IBAN_LENGTH_BY_COUNTRY :: "(string \<times> nat) list" where
  "IBAN_LENGTH_BY_COUNTRY = [
      (''AD'', 24), (''AE'', 23), (''AL'', 28), (''AT'', 20), (''AZ'', 28), (''BA'', 20),
      (''BE'', 16), (''BG'', 22), (''BH'', 22), (''BR'', 29), (''BY'', 28), (''CH'', 21),
      (''CR'', 22), (''CY'', 28), (''CZ'', 24), (''DE'', 22), (''DK'', 18), (''DO'', 28),
      (''EE'', 20), (''EG'', 29), (''ES'', 24), (''FI'', 18), (''FO'', 18), (''FR'', 27),
      (''GB'', 22), (''GE'', 22), (''GI'', 23), (''GL'', 18), (''GR'', 27), (''GT'', 28),
      (''HR'', 21), (''HU'', 28), (''IE'', 22), (''IL'', 23), (''IQ'', 23), (''IS'', 26),
      (''IT'', 27), (''JO'', 30), (''KW'', 30), (''KZ'', 20), (''LB'', 28), (''LC'', 32),
      (''LI'', 21), (''LT'', 20), (''LU'', 20), (''LV'', 21), (''MC'', 27), (''MD'', 24),
      (''ME'', 22), (''MK'', 19), (''MR'', 27), (''MT'', 31), (''MU'', 30), (''NL'', 18),
      (''NO'', 15), (''PK'', 24), (''PL'', 28), (''PS'', 29), (''PT'', 25), (''QA'', 29),
      (''RO'', 24), (''RS'', 22), (''RU'', 33), (''SA'', 24), (''SC'', 31), (''SE'', 24),
      (''SI'', 19), (''SK'', 24), (''SM'', 27), (''ST'', 25), (''SV'', 28), (''TL'', 23),
      (''TN'', 24), (''TR'', 26), (''UA'', 29), (''VA'', 22), (''VG'', 24), (''XK'', 20)]"

text \<open>The length table is in alphabetic order already.\<close>

definition COUNTRIES_ORDERED :: "string list" where
  "COUNTRIES_ORDERED = map fst IBAN_LENGTH_BY_COUNTRY"

text \<open>\<open>ord(ch.upper())\<close> raises where the upper case has two letters.\<close>

fun letter_to_digits :: "string \<Rightarrow> string ident" where
  "letter_to_digits [] = Inr []"
| "letter_to_digits (ch # rest) =
     and_then (if py_isdigit_char ch then Inr [ch]
               else case py_upper_char ch of [u] \<Rightarrow> Inr (py_str_int (int (of_char u) - 65 + 10))
                                           | _ \<Rightarrow> Inl (RaisedValue ValueErr)) (\<lambda>d.
     and_then (letter_to_digits rest) (\<lambda>ds. Inr (d @ ds)))"

definition compute_iban_check :: "string \<Rightarrow> string \<Rightarrow> string ident" where
  "compute_iban_check country bban =
     and_then (letter_to_digits (bban @ country @ ''00'')) (\<lambda>numeric.
     and_then (int_of numeric) (\<lambda>n. Inr (zfill 2 (nat (98 - n mod 97)))))"

definition generate_iban_from_country_and_bban :: "string \<Rightarrow> string \<Rightarrow> string ident" where
  "generate_iban_from_country_and_bban country bban =
     and_then (compute_iban_check country bban) (\<lambda>check. Inr (country @ check @ bban))"

definition generate_iban_from_bytes :: "bytes \<Rightarrow> string ident" where
  "generate_iban_from_bytes b =
     (let country = COUNTRIES_ORDERED ! (unat (b ! 0) mod length COUNTRIES_ORDERED) in
      case map_of IBAN_LENGTH_BY_COUNTRY country of
        None \<Rightarrow> Inl (RaisedValue KeyErr)
      | Some total_length \<Rightarrow>
          let bban_length = total_length - 4 in
          generate_iban_from_country_and_bban country
            (zfill bban_length (slice_int b 1 (length b) mod 10 ^ bban_length)))"

definition iban_from_bytes :: "bytes \<Rightarrow> string ident" where
  "iban_from_bytes b = and_then (need32 b) (\<lambda>_. generate_iban_from_bytes b)"

definition iban_is_valid :: "string \<Rightarrow> bool ident" where
  "iban_is_valid s = Inr (iban_valid s)"

definition iban_generate_random :: "rng \<Rightarrow> string \<Rightarrow> string ident" where
  "iban_generate_random rng loc =
     (let country = COUNTRIES_ORDERED ! rng 0 (length COUNTRIES_ORDERED) in
      case map_of IBAN_LENGTH_BY_COUNTRY country of
        None \<Rightarrow> Inl (RaisedValue KeyErr)
      | Some total_length \<Rightarrow>
          generate_iban_from_country_and_bban country
            (concat (map (\<lambda>k. dec_str (rng (k + 1) 10)) [0..<total_length - 4])))"

subsection \<open>Adapters\<close>

datatype ident_kind = Ssn | Ein | Npi | Ndc | Pan | Mrn | Cusip | Icd10 | Iban

text \<open>The keys of \<open>spec.extra\<close> the domains read, and the spec itself.\<close>

record ident_extra =
  ndc_segment_layout :: "int list option"
  mrn_extra :: mrn_config

record provider_spec =
  ps_locale :: "string option"
  ps_deterministic :: bool
  ps_namespace :: "string option"
  ps_seed :: "bytes option"
  ps_extra :: ident_extra

fun provider_name :: "ident_kind \<Rightarrow> string" where
  "provider_name Ssn = ''synthetic_ssn''" | "provider_name Ein = ''synthetic_ein''"
| "provider_name Npi = ''synthetic_npi''" | "provider_name Ndc = ''synthetic_ndc''"
| "provider_name Pan = ''synthetic_pan''" | "provider_name Mrn = ''synthetic_mrn''"
| "provider_name Cusip = ''synthetic_cusip''" | "provider_name Icd10 = ''synthetic_icd10''"
| "provider_name Iban = ''synthetic_iban''"

fun domain_from_bytes :: "ident_kind \<Rightarrow> ident_extra \<Rightarrow> bytes \<Rightarrow> string ident" where
  "domain_from_bytes Ssn ex = ssn_from_bytes" | "domain_from_bytes Ein ex = ein_from_bytes"
| "domain_from_bytes Npi ex = npi_from_bytes"
| "domain_from_bytes Ndc ex = ndc_from_bytes (ndc_segment_layout ex)"
| "domain_from_bytes Pan ex = pan_from_bytes" | "domain_from_bytes Mrn ex = mrn_from_bytes (mrn_extra ex)"
| "domain_from_bytes Cusip ex = cusip_from_bytes" | "domain_from_bytes Icd10 ex = icd10_from_bytes"
| "domain_from_bytes Iban ex = iban_from_bytes"

fun kind_is_valid :: "ident_kind \<Rightarrow> ident_extra \<Rightarrow> string \<Rightarrow> bool ident" where
  "kind_is_valid Ssn ex = ssn_is_valid" | "kind_is_valid Ein ex = ein_is_valid"
| "kind_is_valid Npi ex = npi_is_valid" | "kind_is_valid Ndc ex = is_valid_ndc"
| "kind_is_valid Pan ex = is_valid_pan" | "kind_is_valid Mrn ex = is_valid_mrn (mrn_extra ex)"
| "kind_is_valid Cusip ex = is_valid_cusip" | "kind_is_valid Icd10 ex = icd10_is_valid"
| "kind_is_valid Iban ex = iban_is_valid"

fun kind_generate_random :: "ident_kind \<Rightarrow> nat \<Rightarrow> rng \<Rightarrow> ident_extra \<Rightarrow> string \<Rightarrow> string ident" where
  "kind_generate_random Ssn fuel rng ex = ssn_generate_random fuel rng"
| "kind_generate_random Ein fuel rng ex = ein_generate_random rng"
| "kind_generate_random Npi fuel rng ex = npi_generate_random rng"
| "kind_generate_random Ndc fuel rng ex = ndc_generate_random rng"
| "kind_generate_random Pan fuel rng ex = pan_generate_random rng"
| "kind_generate_random Mrn fuel rng ex = mrn_generate_random (mrn_extra ex) rng"
| "kind_generate_random Cusip fuel rng ex = cusip_generate_random rng"
| "kind_generate_random Icd10 fuel rng ex = icd10_generate_random rng"
| "kind_generate_random Iban fuel rng ex = iban_generate_random rng"

text \<open>A source is \<open>None\<close>, raw bytes, or a value to canonicalize.\<close>

datatype adapter_source = NoSource | RawBytes bytes | SourceValue source_value

fun canonical_source :: "adapter_source \<Rightarrow> bytes ident" where
  "canonical_source NoSource = Inl (RaisedCanonical NULL_CANONICALIZATION_UNREACHABLE)"
| "canonical_source (RawBytes b) = Inr b"
| "canonical_source (SourceValue v) = on_error RaisedCanonical (canonicalize_source v)"

definition spec_locale :: "provider_spec \<Rightarrow> string" where
  "spec_locale spec = (case ps_locale spec of None \<Rightarrow> ''en_US'' | Some l \<Rightarrow> if l = [] then ''en_US'' else l)"

definition adapter_generate :: "ident_kind \<Rightarrow> nat \<Rightarrow> rng \<Rightarrow> string \<Rightarrow> provider_spec \<Rightarrow> adapter_source \<Rightarrow> string ident" where
  "adapter_generate kind fuel rng provider spec source =
     (if provider \<noteq> provider_name kind then Inl (UNKNOWN_PROVIDER provider)
      else if ps_deterministic spec \<and> source \<noteq> NoSource then
        and_then (canonical_source source) (\<lambda>canonical.
        case ps_seed spec of None \<Rightarrow> Inl MISSING_SEED
        | Some seed \<Rightarrow> (case ps_namespace spec of None \<Rightarrow> Inl MISSING_NAMESPACE
            | Some ns \<Rightarrow> derive_value RaisedDeterminism seed ns canonical (domain_from_bytes kind (ps_extra spec))))
      else kind_generate_random kind fuel rng (ps_extra spec) (spec_locale spec))"

section \<open>Each domain emits what its validator accepts\<close>

lemma dash_not_digit: "all_digits s \<Longrightarrow> CHR ''-'' \<notin> set s"
  by (auto simp: all_digits_iff is_digit_def)

lemma split_two [simp]: "all_digits a \<Longrightarrow> all_digits b \<Longrightarrow> py_split (CHR ''-'') (a @ CHR ''-'' # b) = [a, b]"
  by (simp add: py_split_sep py_split_none dash_not_digit)

lemma split_three [simp]:
  "all_digits a \<Longrightarrow> all_digits b \<Longrightarrow> all_digits c \<Longrightarrow>
   py_split (CHR ''-'') (a @ CHR ''-'' # b @ CHR ''-'' # c) = [a, b, c]"
  by (simp add: py_split_sep py_split_none dash_not_digit)

lemma zfill_digits [simp]: "all_digits (zfill w n)"
  by (simp add: zfill_def rjust_def)

lemma need32_cases: "length b = 32 \<Longrightarrow> need32 b = Inr ()" "length b \<noteq> 32 \<Longrightarrow> need32 b = Inl (INVALID_INPUT_LENGTH (length b))"
  by (simp_all add: need32_def)

lemma format_ssn_facts: "length (format_ssn n) = 9" "all_digits (format_ssn n)"
  using zfill_facts(1) [of "n mod 1000000000" 9] by (simp_all add: format_ssn_def)

lemma is_blocklisted_total:
  assumes "length s = 9" "all_digits s"
  shows "\<exists>b. is_blocklisted s = Inr b"
  using assms all_digits_take [of s 3] all_digits_take [of "drop 3 s" 2] all_digits_drop [of s 3] all_digits_drop [of s 5]
  by (auto simp: is_blocklisted_def int_of_def)

lemma ssn_display_valid:
  assumes "length s = 9" "all_digits s" "is_blocklisted s = Inr False"
  shows "ssn_is_valid (format_ssn_display s) = Inr True"
proof -
  have drop5: "drop 5 s = drop 2 (drop 3 s)"
    by simp
  have "take 3 s @ take 2 (drop 3 s) @ drop 5 s = s"
    by (simp only: drop5 append_take_drop_id)
  then show ?thesis
    using assms all_digits_take [of s 3] all_digits_take [of "drop 3 s" 2] all_digits_drop [of s 3] all_digits_drop [of s 5]
    by (simp add: ssn_is_valid_def format_ssn_display_def)
qed

lemma ssn_offsets_cases:
  "(\<exists>s. ssn_offsets b offs = Inr (format_ssn_display s) \<and> length s = 9 \<and> all_digits s \<and> is_blocklisted s = Inr False) \<or>
   ssn_offsets b offs = Inl BLOCKLIST_EXHAUSTED"
proof (induction offs)
  case Nil
  then show ?case by simp
next
  case (Cons off offs)
  let ?c = "format_ssn (slice_int b off (off + 8))"
  obtain bl where "is_blocklisted ?c = Inr bl"
    using is_blocklisted_total [OF format_ssn_facts] by blast
  then show ?case
    using Cons format_ssn_facts [of "slice_int b off (off + 8)"] by (auto simp: Let_def)
qed

lemma ein_text_valid: "p \<in> set VALID_PREFIXES \<Longrightarrow> l < 10000000 \<Longrightarrow> ein_is_valid (ein_text p l) = Inr True"
proof -
  assume a: "p \<in> set VALID_PREFIXES" "l < 10000000"
  have "list_all (\<lambda>p. p < 100) VALID_PREFIXES"
    by code_simp
  then have p: "p < 10 ^ 2"
    using a(1) by (auto simp: list_all_iff)
  note z = zfill_facts [OF p] zfill_facts [of l 7]
  have "py_int (zfill 2 p) = Some (int p)"
    using z by (cases "zfill 2 p") auto
  then show ?thesis
    using a z by (auto simp: ein_is_valid_def ein_text_def is_valid_ein_def int_of_def)
qed

lemma luhn_digit_total:
  assumes "all_digits s"
  shows "\<exists>k. luhn_digit s = Inr k \<and> k < 10 \<and> luhn_cd s = Inr [digit_char k]"
  using assms by (auto simp: luhn_digit_def luhn_loop_digits luhn_cd_digits dec_str_small)

lemma npi_body_valid:
  assumes "length body = 9" "all_digits body" "body ! 0 \<in> {CHR ''1'', CHR ''2''}"
  shows "\<exists>v. generate_npi_from_body body = Inr v \<and> npi_is_valid v = Inr True"
proof -
  obtain k where k: "luhn_digit (NPI_PREFIX @ body) = Inr k" "k < 10" "luhn_cd (NPI_PREFIX @ body) = Inr [digit_char k]"
    using luhn_digit_total [of "NPI_PREFIX @ body"] assms(2) by auto
  have "is_valid_npi (body @ [digit_char k]) = Inr True"
  proof -
    have loop: "luhn_loop 0 0 (rev (NPI_PREFIX @ body)) = Inr (luhn_sum 0 (rev (NPI_PREFIX @ body)))"
      using assms(2) luhn_loop_digits [of "rev (NPI_PREFIX @ body)" 0 0] by simp
    then have "k = (10 - luhn_sum 0 (rev (NPI_PREFIX @ body)) mod 10) mod 10"
      using k(1) by (simp add: luhn_digit_def)
    then show ?thesis
      using assms k(2) loop all_digits_iff by (auto simp: is_valid_npi_def nth_append py_int_char_def list_all_iff)
  qed
  then show ?thesis
    using k by (simp add: generate_npi_from_body_def npi_is_valid_def dec_str_small flip: NPI_PREFIX_def)
qed

lemma pan_body_valid:
  assumes "length body = 9" "all_digits body"
  shows "\<exists>v. generate_pan_from_body body = Inr v \<and> is_valid_pan v = Inr True"
proof -
  let ?b = "DEFAULT_IIN @ body"
  have b: "all_digits ?b" "length ?b = 15"
    using assms by (simp_all add: DEFAULT_IIN_def is_digit_def)
  obtain k where k: "luhn_digit ?b = Inr k" "k < 10"
    using luhn_digit_total [OF b(1)] by blast
  have s: "length (?b @ [digit_char k]) = 16" "all_digits (?b @ [digit_char k])" "take 15 (?b @ [digit_char k]) = ?b"
      "(?b @ [digit_char k]) ! 15 = digit_char k"
    using b k(2) by (simp_all del: append_assoc add: nth_append)
  have "is_valid_pan (?b @ [digit_char k]) = Inr True"
    using s k unfolding is_valid_pan_def s(3,4) by (simp add: py_int_char_def del: append_assoc)
  then show ?thesis
    using k by (simp add: generate_pan_from_body_def Let_def dec_str_small)
qed

lemma layout_positive:
  assumes "(ld, pd, kd) \<in> set VALID_LAYOUTS"
  shows "0 < ld \<and> 0 < pd \<and> 0 < kd"
  using assms by (auto simp: VALID_LAYOUTS_def)

lemma ndc_layout_valid: "ndc_layout raw \<in> set VALID_LAYOUTS"
proof -
  have "DEFAULT_LAYOUT \<in> set VALID_LAYOUTS"
    by (simp add: DEFAULT_LAYOUT_def VALID_LAYOUTS_def)
  then show ?thesis
    by (auto simp: ndc_layout_def split: option.split list.split)
qed

lemma format_ndc_valid:
  assumes "(ld, pd, kd) \<in> set VALID_LAYOUTS" "x < 10 ^ ld" "y < 10 ^ pd" "z < 10 ^ kd"
  shows "is_valid_ndc (format_ndc (ld, pd, kd) x y z) = Inr True"
proof -
  have pos: "0 < ld" "0 < pd" "0 < kd"
    using layout_positive [OF assms(1)] by auto
  have "zfill ld x \<noteq> []" "zfill pd y \<noteq> []" "zfill kd z \<noteq> []"
    by (simp_all add: zfill_def rjust_def)
  then show ?thesis
    using assms zfill_facts(1) [of x ld] zfill_facts(1) [of y pd] zfill_facts(1) [of z kd] pos
    by (simp add: format_ndc_def is_valid_ndc_def)
qed

lemma format_mrn_valid:
  assumes "1 \<le> mrn_digit_count cfg"
  shows "is_valid_mrn cfg (format_mrn cfg n) = Inr True"
proof -
  let ?w = "mrn_digit_count cfg"
  define d where "d = zfill ?w (n mod 10 ^ ?w)"
  have d: "length d = ?w" "all_digits d"
    using zfill_facts(1) [of "n mod 10 ^ ?w" ?w] assms by (simp_all add: d_def)
  define e where "e = (if \<not> mrn_allow_leading_zero cfg \<and> d ! 0 = CHR ''0'' then CHR ''1'' # drop 1 d else d)"
  have e: "length e = ?w" "all_digits e" "mrn_allow_leading_zero cfg \<or> e ! 0 \<noteq> CHR ''0''" "e \<noteq> []"
    using d assms all_digits_drop [of d 1] by (auto simp: e_def is_digit_def)
  have "format_mrn cfg n = mrn_alpha_prefix cfg @ e"
    by (simp add: format_mrn_def Let_def flip: d_def e_def)
  then show ?thesis
    using e by (simp add: is_valid_mrn_def Let_def)
qed

subsection \<open>CUSIP\<close>

lemma cusip_char_value: "c \<in> set CUSIP_ALPHABET \<Longrightarrow> \<exists>v. char_value c = Inr v"
proof -
  have "list_all (\<lambda>c. \<not> Sum_Type.isl (char_value c)) CUSIP_ALPHABET"
    by code_simp
  then show "c \<in> set CUSIP_ALPHABET \<Longrightarrow> \<exists>v. char_value c = Inr v"
    by (auto simp: list_all_iff isl_def) (metis sum.exhaust)
qed

lemma cusip_loop_total: "set s \<subseteq> set CUSIP_ALPHABET \<Longrightarrow> \<exists>n. cusip_loop i t s = Inr n"
proof (induction s arbitrary: i t)
  case Nil
  then show ?case by simp
next
  case (Cons c s)
  then obtain v where "char_value c = Inr v"
    using cusip_char_value by fastforce
  then show ?case
    using Cons by (simp add: Let_def)
qed

lemma body_from_int_loop_facts:
  "set body \<subseteq> set CUSIP_ALPHABET \<Longrightarrow>
   length (body_from_int_loop k n body) = k + length body \<and> set (body_from_int_loop k n body) \<subseteq> set CUSIP_ALPHABET"
proof (induction k arbitrary: n body)
  case 0
  then show ?case by simp
next
  case (Suc k)
  have "CUSIP_ALPHABET ! (n mod length CUSIP_ALPHABET) \<in> set CUSIP_ALPHABET"
    by (intro nth_mem) (simp add: CUSIP_ALPHABET_def)
  then show ?case
    using Suc by simp
qed

lemma cusip_body_valid:
  assumes "length body = 8" "set body \<subseteq> set CUSIP_ALPHABET"
  shows "\<exists>v. generate_cusip_from_body body = Inr v \<and> is_valid_cusip v = Inr True"
proof -
  obtain n where n: "cusip_loop 0 0 body = Inr n"
    using cusip_loop_total [OF assms(2)] by blast
  define k where "k = (10 - n mod 10) mod 10"
  have k: "k < 10" "cusip_check_digit body = Inr k"
    using n by (simp_all add: k_def cusip_check_digit_def)
  have "is_valid_cusip (body @ [digit_char k]) = Inr True"
    using assms k by (auto simp: is_valid_cusip_def nth_append list_all_iff py_int_char_def)
  then show ?thesis
    using k by (simp add: generate_cusip_from_body_def dec_str_small)
qed

subsection \<open>ICD-10\<close>

lemma icd10_chapter_facts:
  assumes "map_of ICD10_CHAPTERS ch = Some (lo, hi)"
  shows "lo \<le> hi \<and> hi < 100 \<and> py_isalpha_char ch \<and> \<not> py_space ch \<and> py_upper_char ch = [ch] \<and> ch \<noteq> CHR ''.''"
proof -
  have "list_all (\<lambda>(ch, lo, hi). lo \<le> hi \<and> hi < 100 \<and> py_isalpha_char ch \<and> \<not> py_space ch \<and>
      py_upper_char ch = [ch] \<and> ch \<noteq> CHR ''.'') ICD10_CHAPTERS"
    by code_simp
  then show ?thesis
    using map_of_SomeD [OF assms] by (auto simp: list_all_iff)
qed

lemma icd10_text_valid:
  assumes "map_of ICD10_CHAPTERS ch = Some (lo, hi)" "lo \<le> cat" "cat \<le> hi" "sub < 10"
  shows "icd10_is_valid (icd10_text ch cat sub) = Inr True"
proof -
  note ch = icd10_chapter_facts [OF assms(1)]
  have z: "length (zfill 2 cat) = 2" "dec_val (zfill 2 cat) = cat" "zfill 2 cat \<noteq> []"
    using zfill_facts [of cat 2] ch assms(3) by (auto simp: zfill_def rjust_def)
  have dig: "\<forall>c \<in> set (zfill 2 cat). is_digit c" "is_digit (digit_char sub)"
    using zfill_digits [of 2 cat] assms(4) by (simp_all only: all_digits_iff is_digit_digit_char)
  have v: "icd10_text ch cat sub = ch # zfill 2 cat @ CHR ''.'' # [digit_char sub]"
    using assms(4) by (simp add: icd10_text_def dec_str_small)
  have plain: "\<forall>c \<in> set (icd10_text ch cat sub). \<not> py_space c \<and> py_upper_char c = [c]"
    using ch dig digit_plain by (auto simp: v py_space_def py_upper_char_def)
  have "filter (\<lambda>c. c \<noteq> CHR ''.'') (icd10_text ch cat sub) = ch # zfill 2 cat @ [digit_char sub]"
    using ch dig digit_not_sign by (auto simp: v filter_id_conv)
  then show ?thesis
    using plain ch assms z
    by (simp add: icd10_is_valid_def icd10_valid_def Let_def py_strip_id py_upper_id)
qed

subsection \<open>IBAN\<close>

definition capital :: "char \<Rightarrow> bool" where
  "capital c \<longleftrightarrow> 65 \<le> (of_char c :: nat) \<and> (of_char c :: nat) \<le> 90"

definition iban_expand :: "string \<Rightarrow> string" where
  "iban_expand s = concat (map (\<lambda>c. if is_digit c then [c] else dec_str (of_char c - 55)) s)"

definition iban_plain :: "string \<Rightarrow> bool" where
  "iban_plain s \<longleftrightarrow> (\<forall>c \<in> set s. is_digit c \<or> capital c)"

lemma iban_expand_digits: "all_digits (iban_expand s)"
  by (induction s) (auto simp: iban_expand_def)

lemma iban_expand_append [simp]: "iban_expand (s @ t) = iban_expand s @ iban_expand t"
  by (simp add: iban_expand_def)

lemma iban_expand_of_digits: "all_digits s \<Longrightarrow> iban_expand s = s"
  by (induction s) (auto simp: iban_expand_def)

lemma capital_facts:
  assumes "capital c"
  shows "\<not> py_isdigit_char c" "\<not> is_digit c" "py_isalpha_char c" "py_upper_char c = [c]" "\<not> py_space c"
    "py_str_int (int (of_char c) - 55) = dec_str (of_char c - 55)"
  using assms
  by (auto simp: capital_def py_isdigit_char_def is_digit_def py_isalpha_char_def py_upper_char_def py_space_def
      py_str_int_def Let_def nat_diff_distrib)

lemma letter_to_digits_plain: "iban_plain s \<Longrightarrow> letter_to_digits s = Inr (iban_expand s)"
proof (induction s)
  case Nil
  then show ?case by (simp add: iban_expand_def)
next
  case (Cons c s)
  then have "is_digit c \<or> capital c" "letter_to_digits s = Inr (iban_expand s)"
    by (auto simp: iban_plain_def)
  then show ?case
    by (auto simp: iban_expand_def capital_facts)
qed

lemma iban_digits_plain: "iban_plain s \<Longrightarrow> iban_digits s = Some (iban_expand s)"
proof (induction s)
  case Nil
  then show ?case by (simp add: iban_expand_def)
next
  case (Cons c s)
  then have "is_digit c \<or> capital c" "iban_digits s = Some (iban_expand s)"
    by (auto simp: iban_plain_def)
  then show ?case
    by (auto simp: iban_expand_def capital_facts)
qed

lemma mod97_check:
  fixes x :: int
  shows "(x * 100 + (98 - (x * 100) mod 97)) mod 97 = 1"
proof -
  have "(x * 100 + (98 - (x * 100) mod 97)) mod 97 = (x * 100 - (x * 100) mod 97 + 98) mod 97"
    by (simp add: algebra_simps)
  also have "\<dots> = 98 mod 97"
    by (metis add.commute mod_mult_self2 minus_mod_eq_mult_div)
  finally show ?thesis by simp
qed

lemma iban_country_valid:
  assumes "length country = 2" "\<forall>c \<in> set country. capital c" "country \<in> set IBAN_COUNTRIES"
    and "all_digits bban" "11 \<le> length bban" "length bban \<le> 30"
  shows "\<exists>v. generate_iban_from_country_and_bban country bban = Inr v \<and> iban_valid v"
proof -
  define x where "x = dec_val (iban_expand (bban @ country))"
  define k where "k = 98 - (int x * 100) mod 97"
  have k: "0 \<le> k" "nat k < 10 ^ 2"
    using pos_mod_bound [of 97 "int x * 100"] pos_mod_sign [of 97 "int x * 100"] by (auto simp: k_def)
  have z: "length (zfill 2 (nat k)) = 2" "\<forall>c \<in> set (zfill 2 (nat k)). is_digit c" "dec_val (zfill 2 (nat k)) = nat k"
    using zfill_facts [OF k(2)] zfill_digits [of 2 "nat k"] by (simp_all only: all_digits_iff zero_less_numeral)
  have plain: "iban_plain (bban @ country @ ''00'')" "iban_plain (bban @ country @ zfill 2 (nat k))"
    using assms(2,4) z(2) by (auto simp: iban_plain_def all_digits_iff)
  have ex: "iban_expand (bban @ country @ t) = iban_expand (bban @ country) @ t" if "all_digits t" for t
    using that by (simp add: iban_expand_of_digits)
  have ne: "iban_expand (bban @ country) \<noteq> []"
    using assms(4,5) by (auto simp: iban_expand_of_digits)
  have val: "py_int (iban_expand (bban @ country @ t)) = Some (int (x * 10 ^ length t + dec_val t))" if "all_digits t" for t
    using that iban_expand_digits ne by (simp add: ex [OF that] dec_val_append x_def del: iban_expand_append)
  have "compute_iban_check country bban = Inr (zfill 2 (nat k))"
    using letter_to_digits_plain [OF plain(1)] val [of "''00''"]
    by (simp add: compute_iban_check_def int_of_def k_def is_digit_def dec_val_def digit_val_def)
  then have gen: "generate_iban_from_country_and_bban country bban = Inr (country @ zfill 2 (nat k) @ bban)"
    by (simp add: generate_iban_from_country_and_bban_def)
  let ?v = "country @ zfill 2 (nat k) @ bban"
  have "\<forall>c \<in> set ?v. \<not> py_space c \<and> py_upper_char c = [c]"
    using plain(2) digit_plain capital_facts(4,5) by (auto simp: iban_plain_def)
  then have "py_upper ?v = ?v" "filter (\<lambda>c. \<not> py_space c) ?v = ?v"
    by (blast intro: py_upper_id, simp only: filter_id_conv, blast)
  moreover have "length ?v = length bban + 4" "take 2 ?v = country" "take 2 (drop 2 ?v) = zfill 2 (nat k)"
      "drop 4 ?v @ take 4 ?v = bban @ country @ zfill 2 (nat k)"
    using assms(1) z(1) by simp_all
  moreover have "py_isalpha country" "py_isdigit (zfill 2 (nat k))"
    using assms(1,2) z capital_facts(3) by (auto simp: py_isalpha_def list_all_iff)
  moreover have "int (x * 10 ^ length (zfill 2 (nat k)) + dec_val (zfill 2 (nat k))) mod 97 = 1"
    using z k(1) mod97_check [of "int x"] by (simp add: k_def)
  ultimately have "iban_valid ?v"
    using assms iban_digits_plain [OF plain(2)] val [of "zfill 2 (nat k)"] z
    by (simp only: iban_valid_def Let_def) simp
  then show ?thesis
    using gen by blast
qed

lemma iban_table_facts:
  assumes "map_of IBAN_LENGTH_BY_COUNTRY country = Some n"
  shows "length country = 2 \<and> (\<forall>c \<in> set country. capital c) \<and> country \<in> set IBAN_COUNTRIES \<and> 15 \<le> n \<and> n \<le> 34"
proof -
  have "list_all (\<lambda>(country, n). length country = 2 \<and> list_all capital country \<and> country \<in> set IBAN_COUNTRIES \<and>
      15 \<le> n \<and> n \<le> 34) IBAN_LENGTH_BY_COUNTRY"
    by code_simp
  then show ?thesis
    using map_of_SomeD [OF assms] by (auto simp: list_all_iff)
qed

section \<open>The contract of a domain\<close>

locale identifier_domain =
  fixes from_b :: "bytes \<Rightarrow> string ident" and is_valid :: "string \<Rightarrow> bool ident" and configured :: bool
  assumes wrong_length: "length b \<noteq> 32 \<Longrightarrow> from_b b = Inl (INVALID_INPUT_LENGTH (length b))"
    and emits_valid: "configured \<Longrightarrow> from_b b = Inr v \<Longrightarrow> is_valid v = Inr True"
    and emits: "configured \<Longrightarrow> length b = 32 \<Longrightarrow> (\<exists>v. from_b b = Inr v) \<or> from_b b = Inl BLOCKLIST_EXHAUSTED"
begin

lemma derived_valid:
  assumes "configured" "length seed \<in> {8, 32}" "ns \<noteq> []" "length (utf8 ns) < 2 ^ 32" "length src < 2 ^ 32"
  shows "(\<exists>v. derive_value RaisedDeterminism seed ns src from_b = Inr v \<and> is_valid v = Inr True) \<or>
    derive_value RaisedDeterminism seed ns src from_b = Inl BLOCKLIST_EXHAUSTED"
proof -
  obtain out where "derive seed ns src = Inr out" "length out = 32"
    using derive_total [OF assms(2-5)] by blast
  then show ?thesis
    using emits [OF assms(1), of out] emits_valid [OF assms(1), of out] by (auto simp: derive_value_def)
qed

end

lemma domain_wrong_length:
  "length b \<noteq> 32 \<Longrightarrow> domain_from_bytes kind ex b = Inl (INVALID_INPUT_LENGTH (length b))"
  by (cases kind) (simp_all add: ssn_from_bytes_def ein_from_bytes_def npi_from_bytes_def ndc_from_bytes_def
      pan_from_bytes_def mrn_from_bytes_def cusip_from_bytes_def icd10_from_bytes_def iban_from_bytes_def need32_cases)

lemma prefix_pick: "VALID_PREFIXES ! (n mod length VALID_PREFIXES) \<in> set VALID_PREFIXES"
  by (intro nth_mem) (simp add: VALID_PREFIXES_def)

lemma zfill8: "length (zfill 8 (n mod 100000000)) = 8" "length (zfill 9 (n mod 1000000000)) = 9"
  using zfill_facts(1) [of "n mod 100000000" 8] zfill_facts(1) [of "n mod 1000000000" 9] by simp_all

lemma chapter_pick:
  "\<exists>lo hi. map_of ICD10_CHAPTERS (CHAPTERS_ORDERED ! (n mod length CHAPTERS_ORDERED)) = Some (lo, hi)"
proof -
  have "CHAPTERS_ORDERED ! (n mod length CHAPTERS_ORDERED) \<in> fst ` set ICD10_CHAPTERS"
    unfolding CHAPTERS_ORDERED_def set_map [symmetric] by (intro nth_mem) (simp add: ICD10_CHAPTERS_def)
  then show ?thesis
    by (metis domIff dom_map_of_conv_image_fst option.exhaust surj_pair)
qed

lemma country_pick: "\<exists>k. map_of IBAN_LENGTH_BY_COUNTRY (COUNTRIES_ORDERED ! (n mod length COUNTRIES_ORDERED)) = Some k"
proof -
  have "COUNTRIES_ORDERED ! (n mod length COUNTRIES_ORDERED) \<in> fst ` set IBAN_LENGTH_BY_COUNTRY"
    unfolding COUNTRIES_ORDERED_def set_map [symmetric] by (intro nth_mem) (simp add: IBAN_LENGTH_BY_COUNTRY_def)
  then show ?thesis
    by (metis domIff dom_map_of_conv_image_fst option.exhaust)
qed

lemma iban_bytes_valid: "\<exists>v. generate_iban_from_bytes b = Inr v \<and> iban_valid v"
proof -
  let ?c = "COUNTRIES_ORDERED ! (unat (b ! 0) mod length COUNTRIES_ORDERED)"
  obtain n where n: "map_of IBAN_LENGTH_BY_COUNTRY ?c = Some n"
    using country_pick by blast
  note t = iban_table_facts [OF n]
  let ?d = "zfill (n - 4) (slice_int b 1 (length b) mod 10 ^ (n - 4))"
  have "length ?d = n - 4"
    using t zfill_facts(1) [of "slice_int b 1 (length b) mod 10 ^ (n - 4)" "n - 4"] by simp
  moreover have "11 \<le> n - 4" "n - 4 \<le> 30"
    using t by linarith+
  ultimately show ?thesis
    using iban_country_valid [of ?c ?d] t n by (simp add: generate_iban_from_bytes_def Let_def)
qed

lemma icd10_bytes_valid: "\<exists>v. generate_icd10_from_bytes b = Inr v \<and> icd10_is_valid v = Inr True"
proof -
  let ?c = "CHAPTERS_ORDERED ! (unat (b ! 0) mod length CHAPTERS_ORDERED)"
  obtain lo hi where m: "map_of ICD10_CHAPTERS ?c = Some (lo, hi)"
    using chapter_pick by blast
  have "lo + slice_int b 1 3 mod (hi - lo + 1) \<le> hi"
    using icd10_chapter_facts [OF m] mod_less_divisor [of "hi - lo + 1" "slice_int b 1 3"] by linarith
  then show ?thesis
    using icd10_text_valid [OF m, of "lo + slice_int b 1 3 mod (hi - lo + 1)" "unat (b ! 3) mod 10"] m
    by (simp add: generate_icd10_from_bytes_def Let_def)
qed

lemma domain_emits_valid:
  assumes "1 \<le> mrn_digit_count (mrn_extra ex)" "length b = 32"
  shows "(\<exists>v. domain_from_bytes kind ex b = Inr v \<and> kind_is_valid kind ex v = Inr True) \<or>
    kind = Ssn \<and> domain_from_bytes kind ex b = Inl BLOCKLIST_EXHAUSTED"
proof (cases kind)
  case Ssn
  then show ?thesis
    using ssn_offsets_cases [of b "[0, 8, 16, 24]"] ssn_display_valid assms(2)
    by (auto simp: ssn_from_bytes_def need32_cases)
next
  case Ein
  then show ?thesis
    using assms(2) ein_text_valid [OF prefix_pick] by (simp add: ein_from_bytes_def need32_cases)
next
  case Npi
  then show ?thesis
    using assms(2) npi_body_valid zfill8 by (simp add: npi_from_bytes_def need32_cases Let_def is_digit_def)
next
  case Ndc
  obtain ld pd kd where "ndc_layout (ndc_segment_layout ex) = (ld, pd, kd)" "(ld, pd, kd) \<in> set VALID_LAYOUTS"
    using ndc_layout_valid by (metis prod_cases3)
  then show ?thesis
    using Ndc assms(2) format_ndc_valid [of ld pd kd] by (simp add: ndc_from_bytes_def need32_cases)
next
  case Pan
  then show ?thesis
    using assms(2) pan_body_valid zfill8 by (simp add: pan_from_bytes_def need32_cases)
next
  case Mrn
  then show ?thesis
    using assms format_mrn_valid by (simp add: mrn_from_bytes_def need32_cases)
next
  case Cusip
  then show ?thesis
    using assms(2) cusip_body_valid body_from_int_loop_facts [of "[]" 8]
    by (simp add: cusip_from_bytes_def need32_cases body_from_int_def)
next
  case Icd10
  then show ?thesis
    using assms(2) icd10_bytes_valid by (simp add: icd10_from_bytes_def need32_cases)
next
  case Iban
  then show ?thesis
    using assms(2) iban_bytes_valid by (auto simp: iban_from_bytes_def need32_cases iban_is_valid_def)
qed

interpretation ids: identifier_domain "domain_from_bytes kind ex" "kind_is_valid kind ex"
    "1 \<le> mrn_digit_count (mrn_extra ex)"
proof
  show "domain_from_bytes kind ex b = Inl (INVALID_INPUT_LENGTH (length b))" if "length b \<noteq> 32" for b
    using that by (rule domain_wrong_length)
  show "kind_is_valid kind ex v = Inr True"
    if "1 \<le> mrn_digit_count (mrn_extra ex)" "domain_from_bytes kind ex b = Inr v" for b v
    using that domain_wrong_length [of b kind ex] domain_emits_valid [OF that(1), of b kind] by fastforce
  show "(\<exists>v. domain_from_bytes kind ex b = Inr v) \<or> domain_from_bytes kind ex b = Inl BLOCKLIST_EXHAUSTED"
    if "1 \<le> mrn_digit_count (mrn_extra ex)" "length b = 32" for b
    using domain_emits_valid [OF that, of kind] by blast
qed

lemma random_emits_valid:
  assumes rng: "rng_in_range rng" and cfg: "1 \<le> mrn_digit_count (mrn_extra ex)" and ne: "kind \<noteq> Ssn"
  shows "\<exists>v. kind_generate_random kind fuel rng ex ''en_US'' = Inr v \<and> kind_is_valid kind ex v = Inr True"
proof (cases kind)
  case Ssn
  then show ?thesis
    using ne by simp
next
  case Ein
  have "rng 0 (length VALID_PREFIXES) < length VALID_PREFIXES" "rng 1 10000000 < 10000000"
    using rng by (auto simp: rng_in_range_def VALID_PREFIXES_def)
  then show ?thesis
    using Ein ein_text_valid by (simp add: ein_generate_random_def us_only_def)
next
  case Npi
  have r: "rng 1 100000000 < 10 ^ 8" "rng 0 2 < 2"
    using rng by (auto simp: rng_in_range_def)
  let ?f = "dec_str ([1, 2] ! rng 0 2)"
  have "?f = ''1'' \<or> ?f = ''2''"
  proof -
    have "rng 0 2 = 0 \<or> rng 0 2 = 1"
      using r(2) by linarith
    moreover have "dec_str 1 = ''1''" "dec_str 2 = ''2''"
      by code_simp+
    ultimately show ?thesis
      by auto
  qed
  moreover have "length (zfill 8 (rng 1 100000000)) = 8"
    using zfill_facts(1) [OF r(1)] by simp
  ultimately show ?thesis
    using Npi npi_body_valid [of "?f @ zfill 8 (rng 1 100000000)"]
    by (auto simp: npi_generate_random_def us_only_def is_digit_def)
next
  case Ndc
  then show ?thesis
    using rng format_ndc_valid [of 5 4 2] by (simp add: ndc_generate_random_def us_only_def DEFAULT_LAYOUT_def
        VALID_LAYOUTS_def rng_in_range_def)
next
  case Pan
  have "rng 0 1000000000 < 10 ^ 9"
    using rng by (auto simp: rng_in_range_def)
  then show ?thesis
    using Pan pan_body_valid [of "zfill 9 (rng 0 1000000000)"] zfill_facts(1) [of "rng 0 1000000000" 9]
    by (simp add: pan_generate_random_def)
next
  case Mrn
  then show ?thesis
    using cfg format_mrn_valid by (simp add: mrn_generate_random_def)
next
  case Cusip
  have "CUSIP_ALPHABET ! rng k (length CUSIP_ALPHABET) \<in> set CUSIP_ALPHABET" for k
    using rng by (intro nth_mem) (auto simp: rng_in_range_def CUSIP_ALPHABET_def)
  then show ?thesis
    using Cusip cusip_body_valid [of "map (\<lambda>k. CUSIP_ALPHABET ! rng k (length CUSIP_ALPHABET)) [0..<8]"]
    by (auto simp: cusip_generate_random_def)
next
  case Icd10
  let ?n = "rng 0 (length CHAPTERS_ORDERED)"
  have pos: "0 < length CHAPTERS_ORDERED"
    by (simp add: CHAPTERS_ORDERED_def ICD10_CHAPTERS_def)
  have n: "?n mod length CHAPTERS_ORDERED = ?n"
    using rng pos by (intro mod_less) (simp add: rng_in_range_def)
  obtain lo hi where m: "map_of ICD10_CHAPTERS (CHAPTERS_ORDERED ! ?n) = Some (lo, hi)"
    using chapter_pick [of ?n] n by auto
  have "rng 1 (hi + 1 - lo) < hi + 1 - lo" "rng 2 10 < 10"
    using rng icd10_chapter_facts [OF m] by (auto simp: rng_in_range_def)
  then show ?thesis
    using Icd10 m icd10_text_valid [OF m, of "lo + rng 1 (hi + 1 - lo)" "rng 2 10"]
    by (simp add: icd10_generate_random_def Let_def)
next
  case Iban
  let ?n = "rng 0 (length COUNTRIES_ORDERED)"
  have pos: "0 < length COUNTRIES_ORDERED"
    by (simp add: COUNTRIES_ORDERED_def IBAN_LENGTH_BY_COUNTRY_def)
  have n: "?n mod length COUNTRIES_ORDERED = ?n"
    using rng pos by (intro mod_less) (simp add: rng_in_range_def)
  obtain k where k: "map_of IBAN_LENGTH_BY_COUNTRY (COUNTRIES_ORDERED ! ?n) = Some k"
    using country_pick [of ?n] n by auto
  define d where "d = concat (map (\<lambda>j. dec_str (rng (j + 1) 10)) [0..<k - 4])"
  have digit: "dec_str (rng j 10) = [digit_char (rng j 10)]" "is_digit (digit_char (rng j 10))" for j
    using rng by (auto simp: rng_in_range_def intro!: dec_str_small is_digit_digit_char)
  have "length d = k - 4" "all_digits d"
    by (auto simp: d_def digit length_concat comp_def sum_list_triv all_digits_iff)
  moreover have "11 \<le> k - 4" "k - 4 \<le> 30"
    using iban_table_facts [OF k] by linarith+
  ultimately obtain v where "generate_iban_from_country_and_bban (COUNTRIES_ORDERED ! ?n) d = Inr v" "iban_valid v"
    using iban_country_valid [of "COUNTRIES_ORDERED ! ?n" d] iban_table_facts [OF k] by auto
  then show ?thesis
    using Iban k by (simp add: iban_generate_random_def Let_def iban_is_valid_def d_def)
qed

section \<open>Properties\<close>

text \<open>C39. Every identifier domain except SSN, with an MRN format of at least one digit, turns any 32 bytes
  into an identifier that its own validator accepts: EIN prefix list, NPI and PAN check digits, NDC layout, MRN format, CUSIP modified
  Luhn, ICD-10 chapter range, IBAN country and mod 97.\<close>

theorem identifiers_valid:
  assumes "kind \<noteq> Ssn" "1 \<le> mrn_digit_count (mrn_extra ex)" "length b = 32"
  shows "\<exists>v. domain_from_bytes kind ex b = Inr v \<and> kind_is_valid kind ex v = Inr True"
  using domain_emits_valid [OF assms(2,3), of kind] assms(1) by blast

lemma ssn_exhausted_iff:
  "ssn_offsets b offs = Inl BLOCKLIST_EXHAUSTED \<longleftrightarrow>
   (\<forall>off \<in> set offs. is_blocklisted (format_ssn (slice_int b off (off + 8))) = Inr True)"
proof (induction offs)
  case Nil
  then show ?case by simp
next
  case (Cons off offs)
  obtain bl where "is_blocklisted (format_ssn (slice_int b off (off + 8))) = Inr bl"
    using is_blocklisted_total [OF format_ssn_facts] by blast
  then show ?case
    using Cons by (auto simp: Let_def)
qed

text \<open>The SSN domain never emits a blocklisted number: it returns an SSN its validator accepts, or
  raises \<open>blocklist_exhausted\<close>, and that exactly when all four 8-byte slices format to blocklisted
  numbers.\<close>

theorem ssn_never_blocklisted:
  assumes "length b = 32"
  shows "if \<forall>off \<in> {0, 8, 16, 24}. is_blocklisted (format_ssn (slice_int b off (off + 8))) = Inr True
    then ssn_from_bytes b = Inl BLOCKLIST_EXHAUSTED
    else \<exists>v. ssn_from_bytes b = Inr v \<and> ssn_is_valid v = Inr True"
  using ssn_exhausted_iff [of b "[0, 8, 16, 24]"] ssn_offsets_cases [of b "[0, 8, 16, 24]"] ssn_display_valid assms
  by (auto simp: ssn_from_bytes_def need32_cases)

text \<open>In deterministic mode an adapter with a seed, a namespace and a source returns an identifier
  its validator accepts (for SSN possibly \<open>blocklist_exhausted\<close>), and the result depends on neither the
  random generator nor the locale.\<close>

theorem adapter_deterministic_valid:
  assumes "ps_deterministic spec" "ps_seed spec = Some seed" "ps_namespace spec = Some ns"
    and "source \<noteq> NoSource" "canonical_source source = Inr c" "1 \<le> mrn_digit_count (mrn_extra (ps_extra spec))"
    and "length seed \<in> {8, 32}" "ns \<noteq> []" "length (utf8 ns) < 2 ^ 32" "length c < 2 ^ 32"
  shows "((\<exists>v. adapter_generate kind fuel rng (provider_name kind) spec source = Inr v \<and>
        kind_is_valid kind (ps_extra spec) v = Inr True) \<or>
      adapter_generate kind fuel rng (provider_name kind) spec source = Inl BLOCKLIST_EXHAUSTED) \<and>
    adapter_generate kind fuel rng (provider_name kind) spec source =
    adapter_generate kind fuel' rng' (provider_name kind) (spec\<lparr>ps_locale := loc\<rparr>) source"
proof -
  have "adapter_generate kind f r (provider_name kind) (spec\<lparr>ps_locale := l\<rparr>) source =
      derive_value RaisedDeterminism seed ns c (domain_from_bytes kind (ps_extra spec))" for f r l
    using assms(1-5) by (simp add: adapter_generate_def)
  from this this [of fuel rng "ps_locale spec"] show ?thesis
    using ids.derived_valid [OF assms(6-10), of kind] by simp
qed

text \<open>With a generator that draws in range, every random generator but SSN's returns an identifier
  its validator accepts for the \<open>en_US\<close> locale.\<close>

theorem random_identifiers_valid:
  assumes "rng_in_range rng" "kind \<noteq> Ssn" "1 \<le> mrn_digit_count (mrn_extra ex)"
  shows "\<exists>v. kind_generate_random kind fuel rng ex ''en_US'' = Inr v \<and> kind_is_valid kind ex v = Inr True"
  using random_emits_valid assms by blast

section \<open>Witnesses\<close>

definition demo_extra :: ident_extra where
  "demo_extra = \<lparr>ndc_segment_layout = Some [5, 3, 2],
     mrn_extra = \<lparr>mrn_digit_count = 8, mrn_alpha_prefix = ''MRN'', mrn_allow_leading_zero = False\<rparr>\<rparr>"

definition demo_spec :: provider_spec where
  "demo_spec = \<lparr>ps_locale = None, ps_deterministic = True, ps_namespace = Some ''person'',
     ps_seed = Some (replicate 8 9), ps_extra = demo_extra\<rparr>"

lemma demo_extra_ok: "1 \<le> mrn_digit_count (mrn_extra demo_extra)"
  by (simp add: demo_extra_def)

theorem identifiers_valid_witness:
  "\<exists>v. domain_from_bytes Iban demo_extra (replicate 32 5) = Inr v \<and> kind_is_valid Iban demo_extra v = Inr True"
  by (rule identifiers_valid [OF _ demo_extra_ok]) simp_all

lemma zero_slice: "slice_int (replicate n 0) i j = 0"
proof -
  have "from_bytes (replicate m 0) = 0" for m
    by (induction m) (simp_all flip: replicate_append_same)
  then show ?thesis
    by (simp add: slice_int_def)
qed

theorem ssn_never_blocklisted_witness: "ssn_from_bytes (replicate 32 0) = Inl BLOCKLIST_EXHAUSTED"
proof -
  have "zfill 9 0 = ''000000000''"
    by code_simp
  then have "is_blocklisted (format_ssn 0) = Inr True"
    by (simp add: format_ssn_def is_blocklisted_def int_of_def INVALID_AREAS_def dec_val_def)
  then show ?thesis
    using ssn_never_blocklisted [of "replicate 32 0"] by (simp add: zero_slice)
qed

theorem adapter_deterministic_valid_witness:
  "(\<exists>v. adapter_generate Npi 0 (\<lambda>k n. 0) ''synthetic_npi'' demo_spec (SourceValue (SStr ''a'')) = Inr v \<and>
      kind_is_valid Npi demo_extra v = Inr True) \<or>
   adapter_generate Npi 0 (\<lambda>k n. 0) ''synthetic_npi'' demo_spec (SourceValue (SStr ''a'')) = Inl BLOCKLIST_EXHAUSTED"
proof -
  have u: "length (utf8 ''person'') = 6" "length (utf8 ''a'') = 1"
    by code_simp+
  have spec: "ps_deterministic demo_spec" "ps_seed demo_spec = Some (replicate 8 9)"
      "ps_namespace demo_spec = Some ''person''" "ps_extra demo_spec = demo_extra"
    by (simp_all add: demo_spec_def)
  have src: "SourceValue (SStr ''a'') \<noteq> NoSource" "canonical_source (SourceValue (SStr ''a'')) = Inr (utf8 ''a'')"
    by (simp_all add: canonicalize_source_def)
  have sizes: "length (replicate 8 (9 :: byte)) \<in> {8, 32}" "''person'' \<noteq> []" "length (utf8 ''person'') < 2 ^ 32"
      "length (utf8 ''a'') < 2 ^ 32"
    by (simp_all add: u)
  have "provider_name Npi = ''synthetic_npi''"
    by simp
  from adapter_deterministic_valid [OF spec(1-3) src _ sizes, of Npi, unfolded spec(4) this, OF demo_extra_ok]
  show ?thesis
    by blast
qed

theorem random_identifiers_valid_witness:
  "\<exists>v. kind_generate_random Cusip 0 (\<lambda>k n. k mod n) demo_extra ''en_US'' = Inr v \<and>
     kind_is_valid Cusip demo_extra v = Inr True"
  by (rule random_identifiers_valid [OF _ _ demo_extra_ok]) (simp_all add: rng_in_range_def)

end
