(* ===== verification/Subset_Closure.thy ===== *)
theory Subset_Closure
  imports Decoy_Prelude "HOL-Library.Multiset" "HOL-Library.List_Lexorder" "HOL-Library.Char_ord"
begin

text \<open>
  Referential subsetting: \<open>subset/_edges.py\<close> (edge normalisation), \<open>subset/_policy.py\<close> (edge
  directions, fan-out budget, estimate), \<open>subset/_closure.py\<close> (the fixpoint over surviving rows and
  its re-check) and the row filter of \<open>subset/_materialize.py\<close>.

  A key frame is a list of rows, a row maps column names to cells, and \<open>None\<close> is null; the
  row-index column is the position in the list. The polars operations the code uses (filter by row
  index, semi join, anti join, \<open>drop_nulls\<close>) are the list functions of the first section; a join
  never matches a null. Dictionaries keyed by table or edge id are association lists, and a missing
  key is the error \<open>SubsetKeyError\<close>.

  The locale \<open>growing_step\<close> states what the fixpoint argument needs of one round; it is interpreted
  on the model's round.
\<close>

section \<open>Model\<close>

type_synonym 'v row = "string \<Rightarrow> 'v option"
type_synonym 'v frame = "'v row list"
type_synonym survivors = "string \<Rightarrow> nat set"

datatype edge_direction = Both | Downward | Upward | NoDirection

datatype subset_error =
    SUBSET_CLOSURE_NONTERMINATION | SUBSET_CLOSURE_INVARIANT_VIOLATED string nat
  | SUBSET_UNKNOWN_EDGE string | SUBSET_DANGLING_NOT_ACKNOWLEDGED "string list"
  | SUBSET_BUDGET_TOTAL int nat "string option" | SUBSET_BUDGET_TABLE string int nat "string option"
  | SUBSET_MATERIALIZE_COUNT_MISMATCH string nat nat | SubsetKeyError | SubsetValueError

record subset_edge =
  se_id :: string
  se_parent :: string
  se_pcols :: "string list"
  se_child :: string
  se_ccols :: "string list"
  se_orphan_policy :: string
  se_namespace :: "string option"

record edge_stats =
  es_id :: string
  es_direction :: edge_direction
  es_down :: nat
  es_up :: nat

record round_trace =
  rt_index :: nat
  rt_added :: nat
  rt_per_table :: "(string \<times> nat) list"

record closure_result =
  cr_survivors :: survivors
  cr_rounds :: nat
  cr_edge_stats :: "edge_stats list"
  cr_trace :: "round_trace list"

subsection \<open>Frames\<close>

definition row_key :: "string list \<Rightarrow> 'v row \<Rightarrow> 'v option list" where
  "row_key cols r = map r cols"

definition null_key :: "'v option list \<Rightarrow> bool" where
  "null_key k \<longleftrightarrow> None \<in> set k"

definition keys_at :: "'v frame \<Rightarrow> nat set \<Rightarrow> string list \<Rightarrow> 'v option list list" where
  "keys_at f S cols = map (\<lambda>i. row_key cols (f ! i)) (filter (\<lambda>i. i \<in> S) [0..<length f])"

definition semi_join :: "'v frame \<Rightarrow> string list \<Rightarrow> 'v option list list \<Rightarrow> nat set" where
  "semi_join f cols keys =
     set (filter (\<lambda>i. \<not> null_key (row_key cols (f ! i)) \<and> row_key cols (f ! i) \<in> set keys) [0..<length f])"

definition frame_of :: "(string \<times> 'v frame) list \<Rightarrow> string \<Rightarrow> subset_error + 'v frame" where
  "frame_of kf t = of_option SubsetKeyError (map_of kf t)"

subsection \<open>Edges\<close>

record plan_end =
  pe_table :: string
  pe_columns :: "string list"

record plan_relationship =
  pr_parent :: plan_end
  pr_children :: "plan_end list"
  pr_orphan_policy :: string
  pr_namespace :: "string option"

fun join_with :: "string \<Rightarrow> string list \<Rightarrow> string" where
  "join_with sep [] = []"
| "join_with sep [x] = x"
| "join_with sep (x # y # ys) = x @ sep @ join_with sep (y # ys)"

definition edge_id :: "string \<Rightarrow> string list \<Rightarrow> string \<Rightarrow> string list \<Rightarrow> string" where
  "edge_id parent_table parent_columns child_table child_columns =
     parent_table @ ''.'' @ join_with '','' parent_columns @ '' -> '' @ child_table @ ''.'' @ join_with '','' child_columns"

definition expand_relationship :: "plan_relationship \<Rightarrow> subset_edge list" where
  "expand_relationship rel =
     map (\<lambda>child. \<lparr>se_id = edge_id (pe_table (pr_parent rel)) (pe_columns (pr_parent rel)) (pe_table child) (pe_columns child),
            se_parent = pe_table (pr_parent rel), se_pcols = pe_columns (pr_parent rel),
            se_child = pe_table child, se_ccols = pe_columns child,
            se_orphan_policy = pr_orphan_policy rel, se_namespace = pr_namespace rel\<rparr>)
       (pr_children rel)"

definition build_subset_edges :: "plan_relationship list \<Rightarrow> subset_edge list" where
  "build_subset_edges rels = sort_key se_id (dict_keys (concat (map expand_relationship rels)))"

subsection \<open>Directions\<close>

record fan_out_budget =
  fb_max_total_rows :: "int option"
  fb_table_cap :: "(nat \<Rightarrow> int) option"

record fan_out_policy =
  fp_edge_directions :: "(string \<times> edge_direction) list"
  fp_allow_dangling :: bool

fun override_directions ::
    "string list \<Rightarrow> (string \<times> edge_direction) list \<Rightarrow> (string \<times> edge_direction) list \<Rightarrow>
     subset_error + (string \<times> edge_direction) list" where
  "override_directions valid [] dirs = Inr dirs"
| "override_directions valid ((i, d) # rest) dirs =
     (if i \<notin> set valid then Inl (SUBSET_UNKNOWN_EDGE i)
      else override_directions valid rest (map (\<lambda>(j, d'). (j, if j = i then d else d')) dirs))"

definition resolve_edge_directions ::
    "subset_edge list \<Rightarrow> fan_out_policy \<Rightarrow> subset_error + (string \<times> edge_direction) list" where
  "resolve_edge_directions edges policy =
     (let valid = dict_keys (map se_id edges) in
      and_then (override_directions valid (fp_edge_directions policy) (map (\<lambda>i. (i, Both)) valid)) (\<lambda>dirs.
      let dangling = sort (map fst (filter (\<lambda>(i, d). d = Downward \<or> d = NoDirection) dirs)) in
      if \<not> fp_allow_dangling policy \<and> dangling \<noteq> [] then Inl (SUBSET_DANGLING_NOT_ACKNOWLEDGED dangling)
      else Inr dirs))"

subsection \<open>Closure\<close>

record 'v closure_env =
  ce_edges :: "subset_edge list"
  ce_dirs :: "(string \<times> edge_direction) list"
  ce_frames :: "(string \<times> 'v frame) list"
  ce_budget :: "survivors \<Rightarrow> edge_stats list \<Rightarrow> subset_error + unit"

record closure_state =
  cs_surv :: survivors
  cs_down :: "string \<Rightarrow> nat"
  cs_up :: "string \<Rightarrow> nat"
  cs_round :: "string \<Rightarrow> nat"

definition downward_step ::
    "subset_edge \<Rightarrow> survivors \<Rightarrow> (string \<times> 'v frame) list \<Rightarrow> subset_error + nat set" where
  "downward_step e surv kf =
     and_then (frame_of kf (se_parent e)) (\<lambda>pkf.
     and_then (frame_of kf (se_child e)) (\<lambda>ckf.
     if surv (se_parent e) = {} then Inr {}
     else Inr (semi_join ckf (se_ccols e) (keys_at pkf (surv (se_parent e)) (se_pcols e)) - surv (se_child e))))"

definition upward_step ::
    "subset_edge \<Rightarrow> survivors \<Rightarrow> (string \<times> 'v frame) list \<Rightarrow> subset_error + nat set" where
  "upward_step e surv kf =
     and_then (frame_of kf (se_parent e)) (\<lambda>pkf.
     and_then (frame_of kf (se_child e)) (\<lambda>ckf.
     if surv (se_child e) = {} then Inr {}
     else let needed = filter (\<lambda>k. \<not> null_key k) (keys_at ckf (surv (se_child e)) (se_ccols e)) in
       Inr (semi_join pkf (se_pcols e) needed - surv (se_parent e))))"

definition add_downward :: "subset_edge \<Rightarrow> nat set \<Rightarrow> closure_state \<Rightarrow> closure_state" where
  "add_downward e new st =
     (if new = {} then st
      else \<lparr>cs_surv = (cs_surv st)(se_child e := cs_surv st (se_child e) \<union> new),
        cs_down = (cs_down st)(se_id e := cs_down st (se_id e) + card new), cs_up = cs_up st,
        cs_round = (cs_round st)(se_child e := cs_round st (se_child e) + card new)\<rparr>)"

definition add_upward :: "subset_edge \<Rightarrow> nat set \<Rightarrow> closure_state \<Rightarrow> closure_state" where
  "add_upward e new st =
     (if new = {} then st
      else \<lparr>cs_surv = (cs_surv st)(se_parent e := cs_surv st (se_parent e) \<union> new),
        cs_down = cs_down st, cs_up = (cs_up st)(se_id e := cs_up st (se_id e) + card new),
        cs_round = (cs_round st)(se_parent e := cs_round st (se_parent e) + card new)\<rparr>)"

definition apply_edge :: "'v closure_env \<Rightarrow> closure_state \<Rightarrow> subset_edge \<Rightarrow> subset_error + closure_state" where
  "apply_edge env st e =
     and_then (of_option SubsetKeyError (map_of (ce_dirs env) (se_id e))) (\<lambda>d.
     and_then (if d = Both \<or> d = Downward
               then and_then (downward_step e (cs_surv st) (ce_frames env)) (\<lambda>new. Inr (add_downward e new st))
               else Inr st) (\<lambda>st1.
     if d = Both \<or> d = Upward
     then and_then (upward_step e (cs_surv st1) (ce_frames env)) (\<lambda>new. Inr (add_upward e new st1))
     else Inr st1))"

definition closure_round :: "'v closure_env \<Rightarrow> closure_state \<Rightarrow> subset_error + closure_state" where
  "closure_round env st = fold_result (apply_edge env) (st\<lparr>cs_round := (\<lambda>t. 0)\<rparr>) (ce_edges env)"

definition ce_tables :: "'v closure_env \<Rightarrow> string list" where
  "ce_tables env = sort (map fst (ce_frames env))"

definition stats_of :: "'v closure_env \<Rightarrow> closure_state \<Rightarrow> subset_error + edge_stats list" where
  "stats_of env st =
     map_result (\<lambda>e. and_then (of_option SubsetKeyError (map_of (ce_dirs env) (se_id e))) (\<lambda>d.
       Inr \<lparr>es_id = se_id e, es_direction = d, es_down = cs_down st (se_id e), es_up = cs_up st (se_id e)\<rparr>))
       (ce_edges env)"

definition max_rounds :: "'v closure_env \<Rightarrow> nat" where
  "max_rounds env = sum_list (map (\<lambda>(t, f). length f) (ce_frames env)) + 2"

definition trace_entry :: "'v closure_env \<Rightarrow> nat \<Rightarrow> closure_state \<Rightarrow> round_trace" where
  "trace_entry env rounds st =
     \<lparr>rt_index = rounds, rt_added = sum_list (map (cs_round st) (ce_tables env)),
      rt_per_table = map (\<lambda>t. (t, cs_round st t)) (filter (\<lambda>t. 0 < cs_round st t) (ce_tables env))\<rparr>"

function closure_loop ::
    "'v closure_env \<Rightarrow> nat \<Rightarrow> closure_state \<Rightarrow> round_trace list \<Rightarrow> subset_error + closure_result" where
  "closure_loop env rounds st trace =
     (if max_rounds env < rounds + 1 then Inl SUBSET_CLOSURE_NONTERMINATION
      else and_then (closure_round env st) (\<lambda>st'.
        and_then (stats_of env st') (\<lambda>stats.
        and_then (ce_budget env (cs_surv st') stats) (\<lambda>_.
        let entry = trace_entry env (rounds + 1) st' in
        if rt_added entry = 0
        then Inr \<lparr>cr_survivors = cs_surv st', cr_rounds = rounds + 1, cr_edge_stats = stats, cr_trace = trace @ [entry]\<rparr>
        else closure_loop env (rounds + 1) st' (trace @ [entry])))))"
  by pat_completeness auto
termination
  by (relation "measure (\<lambda>(env, rounds, st, trace). max_rounds env + 1 - rounds)") auto

declare closure_loop.simps [simp del]

definition initial_survivors :: "'v closure_env \<Rightarrow> survivors \<Rightarrow> survivors" where
  "initial_survivors env seed = (\<lambda>t. if t \<in> set (map fst (ce_frames env)) then seed t else {})"

definition compute_closure :: "'v closure_env \<Rightarrow> survivors \<Rightarrow> subset_error + closure_result" where
  "compute_closure env seed =
     closure_loop env 0
       \<lparr>cs_surv = initial_survivors env seed, cs_down = (\<lambda>i. 0), cs_up = (\<lambda>i. 0), cs_round = (\<lambda>t. 0)\<rparr> []"

definition verify_edge :: "'v closure_env \<Rightarrow> closure_result \<Rightarrow> subset_edge \<Rightarrow> subset_error + unit" where
  "verify_edge env r e =
     and_then (of_option SubsetKeyError (map_of (ce_dirs env) (se_id e))) (\<lambda>d.
     if \<not> (d = Both \<or> d = Upward) then Inr ()
     else and_then (frame_of (ce_frames env) (se_parent e)) (\<lambda>pkf.
       and_then (frame_of (ce_frames env) (se_child e)) (\<lambda>ckf.
       let child_keys = remdups (filter (\<lambda>k. \<not> null_key k) (keys_at ckf (cr_survivors r (se_child e)) (se_ccols e)));
           parent_keys = keys_at pkf (cr_survivors r (se_parent e)) (se_pcols e);
           unmatched = filter (\<lambda>k. k \<notin> set parent_keys) child_keys;
           full_parent_keys = filter (\<lambda>k. \<not> null_key k) (keys_at pkf {..<length pkf} (se_pcols e));
           still_present = filter (\<lambda>k. k \<in> set full_parent_keys) unmatched in
       if unmatched = [] then Inr ()
       else if 0 < length still_present then Inl (SUBSET_CLOSURE_INVARIANT_VIOLATED (se_id e) (length still_present))
       else Inr ())))"

definition verify_closure :: "'v closure_env \<Rightarrow> closure_result \<Rightarrow> subset_error + unit" where
  "verify_closure env r = fold_result (\<lambda>_ e. verify_edge env r e) () (ce_edges env)"

definition materialize_table :: "string \<Rightarrow> 'v frame \<Rightarrow> nat set \<Rightarrow> subset_error + 'v frame" where
  "materialize_table t f S =
     (let kept = map snd (filter (\<lambda>(i, r). i \<in> S) (zip [0..<length f] f)) in
      if length kept \<noteq> card S then Inl (SUBSET_MATERIALIZE_COUNT_MISMATCH t (length kept) (card S)) else Inr kept)"

subsection \<open>Budget and estimate\<close>

text \<open>\<open>str.split\<close> on a separator string: \<open>k\<close> counts characters of a matched separator still to skip.\<close>

fun split_go :: "nat \<Rightarrow> string \<Rightarrow> string \<Rightarrow> string \<Rightarrow> string list" where
  "split_go k sep acc [] = [acc]"
| "split_go (Suc k) sep acc (c # s) = split_go k sep acc s"
| "split_go 0 sep acc (c # s) =
     (if take (length sep) (c # s) = sep then acc # split_go (length sep - 1) sep [] s
      else split_go 0 sep (acc @ [c]) s)"

definition edge_endpoints :: "string \<Rightarrow> subset_error + (string \<times> string)" where
  "edge_endpoints i =
     (case split_go 0 '' -> '' [] i of
        [l, r] \<Rightarrow> Inr (takeWhile (\<lambda>c. c \<noteq> CHR ''.'') l, takeWhile (\<lambda>c. c \<noteq> CHR ''.'') r)
      | _ \<Rightarrow> Inl SubsetValueError)"

definition rows_added_into :: "edge_stats \<Rightarrow> string \<Rightarrow> subset_error + nat" where
  "rows_added_into st t =
     and_then (edge_endpoints (es_id st)) (\<lambda>(parent, child).
     Inr ((if child = t then es_down st else 0) + (if parent = t then es_up st else 0)))"

text \<open>\<open>max\<close> with a key keeps the first of equal maxima.\<close>

fun max_by :: "(nat \<times> string) list \<Rightarrow> (nat \<times> string) option" where
  "max_by [] = None"
| "max_by (x # xs) =
     Some (foldl (\<lambda>m y. if fst m < fst y \<or> (fst m = fst y \<and> snd m < snd y) then y else m) x xs)"

definition top_total :: "edge_stats list \<Rightarrow> string option" where
  "top_total stats = map_option snd (max_by (map (\<lambda>st. (es_down st + es_up st, es_id st)) stats))"

definition top_into :: "edge_stats list \<Rightarrow> string \<Rightarrow> subset_error + string option" where
  "top_into stats t =
     and_then (map_result (\<lambda>st. and_then (rows_added_into st t) (\<lambda>n. Inr (n, es_id st))) stats) (\<lambda>keys.
     Inr (map_option snd (max_by keys)))"

fun check_tables :: "int \<Rightarrow> survivors \<Rightarrow> edge_stats list \<Rightarrow> string list \<Rightarrow> subset_error + unit" where
  "check_tables cap surv stats [] = Inr ()"
| "check_tables cap surv stats (t # ts) =
     (if cap < int (card (surv t))
      then and_then (top_into stats t) (\<lambda>top. Inl (SUBSET_BUDGET_TABLE t cap (card (surv t)) top))
      else check_tables cap surv stats ts)"

definition make_budget_check ::
    "fan_out_budget \<Rightarrow> nat \<Rightarrow> string list \<Rightarrow> survivors \<Rightarrow> edge_stats list \<Rightarrow> subset_error + unit" where
  "make_budget_check budget total_seed_rows tables surv stats =
     (let total = sum_list (map (\<lambda>t. card (surv t)) tables) in
      and_then (case fb_max_total_rows budget of
          None \<Rightarrow> Inr ()
        | Some cap \<Rightarrow> if cap < int total then Inl (SUBSET_BUDGET_TOTAL cap total (top_total stats)) else Inr ()) (\<lambda>_.
      case fb_table_cap budget of
          None \<Rightarrow> Inr ()
        | Some ceil_of \<Rightarrow> check_tables (ceil_of total_seed_rows) surv stats (sort tables)))"

record table_estimate =
  te_table :: string
  te_input_rows :: nat
  te_seed_rows :: nat
  te_surviving_rows :: nat
  te_seed_null_excluded :: nat

record subset_plan =
  sp_tables :: "table_estimate list"
  sp_edges :: "edge_stats list"
  sp_closure_rounds :: nat
  sp_total_surviving_rows :: nat
  sp_warnings :: "string list"

definition build_estimate ::
    "(string \<times> 'v frame) list \<Rightarrow> (string \<times> nat) list \<Rightarrow> (string \<times> nat) list \<Rightarrow> closure_result \<Rightarrow> subset_plan" where
  "build_estimate kf seed_counts seed_null_excluded r =
     (let get = (\<lambda>d t. case map_of d t of None \<Rightarrow> 0 | Some n \<Rightarrow> n);
          estimates = map (\<lambda>t. \<lparr>te_table = t, te_input_rows = length (the (map_of kf t)), te_seed_rows = get seed_counts t,
            te_surviving_rows = card (cr_survivors r t), te_seed_null_excluded = get seed_null_excluded t\<rparr>)
            (sort (map fst kf)) in
      \<lparr>sp_tables = estimates, sp_edges = cr_edge_stats r, sp_closure_rounds = cr_rounds r,
       sp_total_surviving_rows = sum_list (map te_surviving_rows estimates),
       sp_warnings = map te_table (filter (\<lambda>t. te_surviving_rows t = 0) estimates)\<rparr>)"

section \<open>Specification\<close>

text \<open>The rows an edge demands of the other side, given a set of surviving rows.\<close>

definition down_match :: "(string \<times> 'v frame) list \<Rightarrow> subset_edge \<Rightarrow> survivors \<Rightarrow> nat set" where
  "down_match kf e S =
     (case (map_of kf (se_parent e), map_of kf (se_child e)) of
        (Some pkf, Some ckf) \<Rightarrow> semi_join ckf (se_ccols e) (keys_at pkf (S (se_parent e)) (se_pcols e))
      | _ \<Rightarrow> {})"

definition up_match :: "(string \<times> 'v frame) list \<Rightarrow> subset_edge \<Rightarrow> survivors \<Rightarrow> nat set" where
  "up_match kf e S =
     (case (map_of kf (se_parent e), map_of kf (se_child e)) of
        (Some pkf, Some ckf) \<Rightarrow>
          semi_join pkf (se_pcols e) (filter (\<lambda>k. \<not> null_key k) (keys_at ckf (S (se_child e)) (se_ccols e)))
      | _ \<Rightarrow> {})"

definition closed_edge :: "'v closure_env \<Rightarrow> survivors \<Rightarrow> subset_edge \<Rightarrow> bool" where
  "closed_edge env S e \<longleftrightarrow>
     (map_of (ce_dirs env) (se_id e) \<in> {Some Both, Some Downward} \<longrightarrow> down_match (ce_frames env) e S \<subseteq> S (se_child e)) \<and>
     (map_of (ce_dirs env) (se_id e) \<in> {Some Both, Some Upward} \<longrightarrow> up_match (ce_frames env) e S \<subseteq> S (se_parent e))"

definition closed_survivors :: "'v closure_env \<Rightarrow> survivors \<Rightarrow> bool" where
  "closed_survivors env S \<longleftrightarrow> (\<forall>e \<in> set (ce_edges env). closed_edge env S e)"

definition env_ok :: "'v closure_env \<Rightarrow> bool" where
  "env_ok env \<longleftrightarrow> distinct (map fst (ce_frames env)) \<and>
     (\<forall>e \<in> set (ce_edges env). map_of (ce_dirs env) (se_id e) \<noteq> None \<and>
        map_of (ce_frames env) (se_parent e) \<noteq> None \<and> map_of (ce_frames env) (se_child e) \<noteq> None)"

definition frame_rows :: "(string \<times> 'v frame) list \<Rightarrow> string \<Rightarrow> nat" where
  "frame_rows kf t = (case map_of kf t of None \<Rightarrow> 0 | Some f \<Rightarrow> length f)"

lemma semi_join_iff:
  "i \<in> semi_join f cols keys \<longleftrightarrow>
     i < length f \<and> \<not> null_key (row_key cols (f ! i)) \<and> row_key cols (f ! i) \<in> set keys"
  by (auto simp: semi_join_def)

lemma keys_at_iff: "k \<in> set (keys_at f S cols) \<longleftrightarrow> (\<exists>i < length f. i \<in> S \<and> k = row_key cols (f ! i))"
  by (auto simp: keys_at_def)

lemma keys_at_empty [simp]: "keys_at f {} cols = []"
  by (simp add: keys_at_def)

lemma down_match_mono: "S \<le> T \<Longrightarrow> down_match kf e S \<subseteq> down_match kf e T"
  by (auto simp: down_match_def semi_join_iff keys_at_iff le_fun_def split: option.splits) blast+

lemma up_match_mono: "S \<le> T \<Longrightarrow> up_match kf e S \<subseteq> up_match kf e T"
  by (auto simp: up_match_def semi_join_iff keys_at_iff le_fun_def split: option.splits) blast+

lemma down_match_rows: "down_match kf e S \<subseteq> {..<frame_rows kf (se_child e)}"
  by (auto simp: down_match_def semi_join_iff frame_rows_def split: option.splits)

lemma up_match_rows: "up_match kf e S \<subseteq> {..<frame_rows kf (se_parent e)}"
  by (auto simp: up_match_def semi_join_iff frame_rows_def split: option.splits)

lemma downward_step_eq:
  assumes "map_of kf (se_parent e) \<noteq> None" "map_of kf (se_child e) \<noteq> None"
  shows "downward_step e S kf = Inr (down_match kf e S - S (se_child e))"
  using assms by (auto simp: downward_step_def down_match_def frame_of_def semi_join_def)

lemma upward_step_eq:
  assumes "map_of kf (se_parent e) \<noteq> None" "map_of kf (se_child e) \<noteq> None"
  shows "upward_step e S kf = Inr (up_match kf e S - S (se_parent e))"
  using assms by (auto simp: upward_step_def up_match_def frame_of_def semi_join_def Let_def)

section \<open>Growth\<close>

text \<open>\<open>grown kf st st'\<close>: the survivors only grew, by rows of the frames, and the round counters count
  exactly the rows added.\<close>

definition grown :: "(string \<times> 'v frame) list \<Rightarrow> closure_state \<Rightarrow> closure_state \<Rightarrow> bool" where
  "grown kf st st' \<longleftrightarrow>
     (\<forall>t. cs_surv st t \<subseteq> cs_surv st' t \<and> cs_surv st' t - cs_surv st t \<subseteq> {..<frame_rows kf t} \<and>
       cs_round st' t = cs_round st t + card (cs_surv st' t - cs_surv st t))"

lemma grown_refl [simp]: "grown kf st st"
  by (simp add: grown_def)

lemma grown_trans:
  assumes "grown kf a b" "grown kf b c"
  shows "grown kf a c"
  unfolding grown_def
proof
  fix t
  have ab: "cs_surv a t \<subseteq> cs_surv b t" "cs_surv b t - cs_surv a t \<subseteq> {..<frame_rows kf t}"
      "cs_round b t = cs_round a t + card (cs_surv b t - cs_surv a t)"
    and bc: "cs_surv b t \<subseteq> cs_surv c t" "cs_surv c t - cs_surv b t \<subseteq> {..<frame_rows kf t}"
      "cs_round c t = cs_round b t + card (cs_surv c t - cs_surv b t)"
    using assms by (auto simp: grown_def)
  have split: "cs_surv c t - cs_surv a t = (cs_surv b t - cs_surv a t) \<union> (cs_surv c t - cs_surv b t)"
    using ab(1) bc(1) by auto
  have "card (cs_surv c t - cs_surv a t) = card (cs_surv b t - cs_surv a t) + card (cs_surv c t - cs_surv b t)"
    unfolding split using ab(2) bc(2) by (intro card_Un_disjoint) (auto intro: finite_subset)
  then show "cs_surv a t \<subseteq> cs_surv c t \<and> cs_surv c t - cs_surv a t \<subseteq> {..<frame_rows kf t} \<and>
      cs_round c t = cs_round a t + card (cs_surv c t - cs_surv a t)"
    using ab bc by auto
qed

lemma add_downward_grown:
  "new \<subseteq> {..<frame_rows kf (se_child e)} \<Longrightarrow> new \<inter> cs_surv st (se_child e) = {} \<Longrightarrow> grown kf st (add_downward e new st)"
  by (auto simp: grown_def add_downward_def Un_Diff Diff_triv)

lemma add_upward_grown:
  "new \<subseteq> {..<frame_rows kf (se_parent e)} \<Longrightarrow> new \<inter> cs_surv st (se_parent e) = {} \<Longrightarrow> grown kf st (add_upward e new st)"
  by (auto simp: grown_def add_upward_def Un_Diff Diff_triv)

lemma add_surv:
  "cs_surv (add_downward e new st) = (cs_surv st)(se_child e := cs_surv st (se_child e) \<union> new)"
  "cs_surv (add_upward e new st) = (cs_surv st)(se_parent e := cs_surv st (se_parent e) \<union> new)"
  by (auto simp: add_downward_def add_upward_def)

text \<open>One edge: it succeeds, grows the state, stays inside every closed superset, and if it adds
  nothing the edge is closed.\<close>

definition edge_ok :: "'v closure_env \<Rightarrow> subset_edge \<Rightarrow> bool" where
  "edge_ok env e \<longleftrightarrow> map_of (ce_dirs env) (se_id e) \<noteq> None \<and>
     map_of (ce_frames env) (se_parent e) \<noteq> None \<and> map_of (ce_frames env) (se_child e) \<noteq> None"

lemma apply_edge_cases:
  assumes "edge_ok env e"
  obtains d where "map_of (ce_dirs env) (se_id e) = Some d"
    and "apply_edge env st e = Inr
      (let st1 = (if d = Both \<or> d = Downward
          then add_downward e (down_match (ce_frames env) e (cs_surv st) - cs_surv st (se_child e)) st else st)
       in if d = Both \<or> d = Upward
          then add_upward e (up_match (ce_frames env) e (cs_surv st1) - cs_surv st1 (se_parent e)) st1 else st1)"
proof -
  obtain d where d: "map_of (ce_dirs env) (se_id e) = Some d"
    using assms by (auto simp: edge_ok_def)
  have m: "map_of (ce_frames env) (se_parent e) \<noteq> None" "map_of (ce_frames env) (se_child e) \<noteq> None"
    using assms by (auto simp: edge_ok_def)
  show ?thesis
    by (rule that [OF d]) (simp add: apply_edge_def d downward_step_eq [OF m] upward_step_eq [OF m] Let_def)
qed

lemma apply_edge_step:
  assumes "edge_ok env e"
  shows "\<exists>st'. apply_edge env st e = Inr st' \<and> grown (ce_frames env) st st' \<and>
    (\<forall>C. cs_surv st \<le> C \<longrightarrow> closed_edge env C e \<longrightarrow> cs_surv st' \<le> C) \<and>
    (cs_surv st' = cs_surv st \<longrightarrow> closed_edge env (cs_surv st) e)"
proof (rule apply_edge_cases [OF assms, of st])
  fix d
  assume d: "map_of (ce_dirs env) (se_id e) = Some d"
  let ?D = "\<lambda>s. down_match (ce_frames env) e (cs_surv s) - cs_surv s (se_child e)"
  let ?U = "\<lambda>s. up_match (ce_frames env) e (cs_surv s) - cs_surv s (se_parent e)"
  define st1 where "st1 = (if d = Both \<or> d = Downward then add_downward e (?D st) st else st)"
  define st2 where "st2 = (if d = Both \<or> d = Upward then add_upward e (?U st1) st1 else st1)"
  assume "apply_edge env st e = Inr (let st1 = (if d = Both \<or> d = Downward then add_downward e (?D st) st else st)
       in if d = Both \<or> d = Upward then add_upward e (?U st1) st1 else st1)"
  then have ap: "apply_edge env st e = Inr st2"
    by (simp only: Let_def st1_def st2_def)
  have g1: "grown (ce_frames env) st st1"
    using down_match_rows [of "ce_frames env" e "cs_surv st"] by (auto simp: st1_def intro!: add_downward_grown)
  have g2: "grown (ce_frames env) st1 st2"
    using up_match_rows [of "ce_frames env" e "cs_surv st1"] by (auto simp: st2_def intro!: add_upward_grown)
  have inside: "cs_surv st2 \<le> C" if "cs_surv st \<le> C" "closed_edge env C e" for C
  proof -
    have "cs_surv st1 \<le> C"
      using that d down_match_mono [OF that(1), of "ce_frames env" e]
      by (auto simp: st1_def add_surv le_fun_def closed_edge_def)
    then show ?thesis
      using that d up_match_mono [of "cs_surv st1" C "ce_frames env" e]
      by (auto simp: st2_def add_surv le_fun_def closed_edge_def)
  qed
  have closed: "closed_edge env (cs_surv st) e" if same: "cs_surv st2 = cs_surv st"
  proof -
    have "cs_surv st1 = cs_surv st"
      using g1 g2 same by (auto simp: grown_def fun_eq_iff)
    moreover from this have "down_match (ce_frames env) e (cs_surv st) \<subseteq> cs_surv st (se_child e)" if "d = Both \<or> d = Downward"
      using that by (auto simp: st1_def add_surv fun_upd_def fun_eq_iff split: if_splits)
    moreover have "up_match (ce_frames env) e (cs_surv st) \<subseteq> cs_surv st (se_parent e)" if "d = Both \<or> d = Upward"
      using that same \<open>cs_surv st1 = cs_surv st\<close> by (auto simp: st2_def add_surv fun_upd_def fun_eq_iff split: if_splits)
    ultimately show ?thesis
      using d by (auto simp: closed_edge_def)
  qed
  show ?thesis
    using ap grown_trans [OF g1 g2] inside closed by blast
qed

lemma fold_edges_step:
  assumes "\<forall>e \<in> set es. edge_ok env e"
  shows "\<exists>st'. fold_result (apply_edge env) st es = Inr st' \<and> grown (ce_frames env) st st' \<and>
    (\<forall>C. cs_surv st \<le> C \<longrightarrow> (\<forall>e \<in> set es. closed_edge env C e) \<longrightarrow> cs_surv st' \<le> C) \<and>
    (cs_surv st' = cs_surv st \<longrightarrow> (\<forall>e \<in> set es. closed_edge env (cs_surv st) e))"
  using assms
proof (induction es arbitrary: st)
  case Nil
  then show ?case by simp
next
  case (Cons e es)
  obtain st1 where 1: "apply_edge env st e = Inr st1" "grown (ce_frames env) st st1"
      "\<forall>C. cs_surv st \<le> C \<longrightarrow> closed_edge env C e \<longrightarrow> cs_surv st1 \<le> C"
      "cs_surv st1 = cs_surv st \<longrightarrow> closed_edge env (cs_surv st) e"
    using apply_edge_step [of env e st] Cons.prems by auto
  obtain st2 where 2: "fold_result (apply_edge env) st1 es = Inr st2" "grown (ce_frames env) st1 st2"
      "\<forall>C. cs_surv st1 \<le> C \<longrightarrow> (\<forall>e \<in> set es. closed_edge env C e) \<longrightarrow> cs_surv st2 \<le> C"
      "cs_surv st2 = cs_surv st1 \<longrightarrow> (\<forall>e \<in> set es. closed_edge env (cs_surv st1) e)"
    using Cons.IH [of st1] Cons.prems by auto
  have squeeze: "cs_surv st1 = cs_surv st" if "cs_surv st2 = cs_surv st"
    using 1(2) 2(2) that by (auto simp: grown_def fun_eq_iff)
  show ?case
    using 1 2 grown_trans [OF 1(2) 2(2)] squeeze by (intro exI [of _ st2]) auto
qed

lemma env_ok_edges: "env_ok env \<Longrightarrow> \<forall>e \<in> set (ce_edges env). edge_ok env e"
  by (auto simp: env_ok_def edge_ok_def)

lemma closure_round_step:
  assumes "env_ok env"
  shows "\<exists>st'. closure_round env st = Inr st' \<and> grown (ce_frames env) (st\<lparr>cs_round := (\<lambda>t. 0)\<rparr>) st' \<and>
    (\<forall>C. cs_surv st \<le> C \<longrightarrow> closed_survivors env C \<longrightarrow> cs_surv st' \<le> C) \<and>
    (cs_surv st' = cs_surv st \<longrightarrow> closed_survivors env (cs_surv st))"
  using fold_edges_step [OF env_ok_edges [OF assms], of "st\<lparr>cs_round := (\<lambda>t. 0)\<rparr>"]
  by (simp add: closure_round_def closed_survivors_def)

section \<open>Least closed superset\<close>

text \<open>What iterating a round to a standstill needs: the round returns, only grows, never leaves a closed
  superset, and stands still only on a closed set.\<close>

locale growing_step =
  fixes step :: "'s \<Rightarrow> 'e + 's" and surv :: "'s \<Rightarrow> 'c :: order" and closed :: "'c \<Rightarrow> bool" and ok :: bool
  assumes returns: "ok \<Longrightarrow> \<exists>s'. step s = Inr s'"
    and inflation: "ok \<Longrightarrow> step s = Inr s' \<Longrightarrow> surv s \<le> surv s'"
    and within: "ok \<Longrightarrow> step s = Inr s' \<Longrightarrow> closed c \<Longrightarrow> surv s \<le> c \<Longrightarrow> surv s' \<le> c"
    and settled: "ok \<Longrightarrow> step s = Inr s' \<Longrightarrow> surv s' = surv s \<Longrightarrow> closed (surv s)"
begin

lemma run_bounds:
  assumes "ok" "(\<lambda>s s'. step s = Inr s')\<^sup>*\<^sup>* s t"
  shows "surv s \<le> surv t \<and> (\<forall>c. closed c \<longrightarrow> surv s \<le> c \<longrightarrow> surv t \<le> c)"
  using assms(2)
proof (induction rule: rtranclp_induct)
  case base
  then show ?case by simp
next
  case (step t u)
  then show ?case
    using inflation [OF assms(1), of t u] within [OF assms(1), of t u] by (meson order_trans)
qed

lemma standstill_least:
  assumes "ok" "(\<lambda>s s'. step s = Inr s')\<^sup>*\<^sup>* s t" "step t = Inr t'" "surv t' = surv t"
  shows "closed (surv t') \<and> surv s \<le> surv t' \<and> (\<forall>c. closed c \<longrightarrow> surv s \<le> c \<longrightarrow> surv t' \<le> c)"
  using settled [OF assms(1,3,4)] run_bounds [OF assms(1,2)] assms(4) by simp

end

interpretation closure: growing_step "closure_round env" cs_surv "closed_survivors env" "env_ok env"
proof
  fix s s' :: closure_state and c
  assume ok: "env_ok env"
  show "\<exists>s'. closure_round env s = Inr s'"
    using closure_round_step [OF ok] by blast
  assume "closure_round env s = Inr s'"
  then have g: "grown (ce_frames env) (s\<lparr>cs_round := (\<lambda>t. 0)\<rparr>) s'"
      "cs_surv s \<le> c \<Longrightarrow> closed_survivors env c \<Longrightarrow> cs_surv s' \<le> c"
      "cs_surv s' = cs_surv s \<Longrightarrow> closed_survivors env (cs_surv s)"
    using closure_round_step [OF ok, of s] by auto
  show "cs_surv s \<le> cs_surv s'"
    using g(1) by (auto simp: grown_def le_fun_def)
  show "cs_surv s' \<le> c" if "closed_survivors env c" "cs_surv s \<le> c"
    using g(2) that by blast
  show "closed_survivors env (cs_surv s)" if "cs_surv s' = cs_surv s"
    using g(3) that by blast
qed

section \<open>The loop\<close>

text \<open>The number of surviving rows that exist in the frames bounds the number of rounds.\<close>

definition live_rows :: "'v closure_env \<Rightarrow> survivors \<Rightarrow> nat" where
  "live_rows env S = sum_list (map (\<lambda>(t, f). card (S t \<inter> {..<length f})) (ce_frames env))"

lemma card_below: "card (A \<inter> {..<n :: nat}) \<le> n"
  by (metis card_lessThan card_mono finite_lessThan Int_lower2)

lemma live_rows_bound: "live_rows env S + 2 \<le> max_rounds env"
proof -
  have "sum_list (map (\<lambda>(t, f). card (S t \<inter> {..<length f})) (ce_frames env)) \<le> sum_list (map (\<lambda>(t, f). length f) (ce_frames env))"
    by (intro sum_list_mono) (auto simp: card_below)
  then show ?thesis
    by (simp add: live_rows_def max_rounds_def)
qed

lemma added_eq: "rt_added (trace_entry env n st) = sum_list (map (\<lambda>(t, f). cs_round st t) (ce_frames env))"
proof -
  have "sum_list (map (cs_round st) (sort xs)) = sum_list (map (cs_round st) xs)" for xs
    by (metis mset_map mset_sort sum_mset_sum_list)
  then show ?thesis
    by (simp add: trace_entry_def ce_tables_def comp_def case_prod_unfold)
qed

lemma round_rows:
  assumes "env_ok env" "grown (ce_frames env) (st\<lparr>cs_round := (\<lambda>t. 0)\<rparr>) st'"
  shows "live_rows env (cs_surv st') = live_rows env (cs_surv st) + rt_added (trace_entry env n st')"
    and "rt_added (trace_entry env n st') = 0 \<Longrightarrow> cs_surv st' = cs_surv st"
proof -
  have g: "cs_surv st t \<subseteq> cs_surv st' t" "cs_surv st' t - cs_surv st t \<subseteq> {..<frame_rows (ce_frames env) t}"
      "cs_round st' t = card (cs_surv st' t - cs_surv st t)" for t
    using assms(2) by (auto simp: grown_def)
  have "card (cs_surv st' t \<inter> {..<length f}) = card (cs_surv st t \<inter> {..<length f}) + cs_round st' t"
    if "(t, f) \<in> set (ce_frames env)" for t f
  proof -
    have "frame_rows (ce_frames env) t = length f"
      using that assms(1) by (simp add: env_ok_def frame_rows_def)
    then have "cs_surv st' t \<inter> {..<length f} = (cs_surv st t \<inter> {..<length f}) \<union> (cs_surv st' t - cs_surv st t)"
        "finite (cs_surv st' t - cs_surv st t)"
      using g(1,2) [of t] by (auto intro: finite_subset)
    then show ?thesis
      unfolding g(3) by (subst card_Un_disjoint [symmetric]) auto
  qed
  then have "map (\<lambda>(t, f). card (cs_surv st' t \<inter> {..<length f})) (ce_frames env) =
      map (\<lambda>(t, f). card (cs_surv st t \<inter> {..<length f}) + cs_round st' t) (ce_frames env)"
    by (intro map_cong) auto
  then have "live_rows env (cs_surv st') =
      sum_list (map (\<lambda>(t, f). card (cs_surv st t \<inter> {..<length f}) + cs_round st' t) (ce_frames env))"
    by (simp only: live_rows_def)
  then show "live_rows env (cs_surv st') = live_rows env (cs_surv st) + rt_added (trace_entry env n st')"
    by (simp add: live_rows_def added_eq case_prod_unfold sum_list_addf)
  show "cs_surv st' = cs_surv st" if "rt_added (trace_entry env n st') = 0"
  proof
    fix t
    have "finite (cs_surv st' t - cs_surv st t)"
      using g(2) [of t] by (rule finite_subset) simp
    moreover have "cs_round st' t = 0" if "t \<in> fst ` set (ce_frames env)"
      using \<open>rt_added (trace_entry env n st') = 0\<close> that by (force simp: added_eq)
    moreover have "frame_rows (ce_frames env) t = 0" if "t \<notin> fst ` set (ce_frames env)"
      using that by (simp add: frame_rows_def map_of_eq_None_iff [THEN iffD2])
    ultimately show "cs_surv st' t = cs_surv st t"
      using g [of t] by (cases "t \<in> fst ` set (ce_frames env)") auto
  qed
qed

lemma stats_total: "env_ok env \<Longrightarrow> \<exists>stats. stats_of env st = Inr stats"
proof -
  assume "env_ok env"
  then have "stats_of env st = Inr (map (\<lambda>e. \<lparr>es_id = se_id e, es_direction = the (map_of (ce_dirs env) (se_id e)),
      es_down = cs_down st (se_id e), es_up = cs_up st (se_id e)\<rparr>) (ce_edges env))"
    unfolding stats_of_def by (intro map_result_eq_map) (auto simp: env_ok_def)
  then show ?thesis
    by blast
qed

text \<open>The loop either is stopped by the budget or returns a state at a standstill; the
  non-termination guard is not reached.\<close>

lemma closure_loop_outcome:
  assumes "env_ok env" "rounds \<le> live_rows env (cs_surv st)"
  shows "(\<exists>e S stats. closure_loop env rounds st trace = Inl e \<and> ce_budget env S stats = Inl e) \<or>
    (\<exists>r t t'. closure_loop env rounds st trace = Inr r \<and> (\<lambda>s s'. closure_round env s = Inr s')\<^sup>*\<^sup>* st t \<and>
      closure_round env t = Inr t' \<and> cs_surv t' = cs_surv t \<and> cr_survivors r = cs_surv t' \<and>
      ce_budget env (cr_survivors r) (cr_edge_stats r) = Inr ())"
  using assms
proof (induction env rounds st trace rule: closure_loop.induct)
  case (1 env rounds st trace)
  have bound: "\<not> max_rounds env < rounds + 1"
    using live_rows_bound [of env "cs_surv st"] 1(3) by linarith
  obtain st' where st': "closure_round env st = Inr st'" "grown (ce_frames env) (st\<lparr>cs_round := (\<lambda>t. 0)\<rparr>) st'"
    using closure_round_step [OF 1(2)] by blast
  obtain stats where stats: "stats_of env st' = Inr stats"
    using stats_total [OF 1(2)] by blast
  note rows = round_rows [OF 1(2) st'(2), of "rounds + 1"]
  let ?entry = "trace_entry env (rounds + 1) st'"
  show ?case
  proof (cases "ce_budget env (cs_surv st') stats")
    case (Inl e)
    then have "closure_loop env rounds st trace = Inl e"
      using bound st' stats by (subst closure_loop.simps) simp
    then show ?thesis
      using Inl by blast
  next
    case (Inr u)
    show ?thesis
    proof (cases "rt_added ?entry = 0")
      case True
      then have "closure_loop env rounds st trace = Inr \<lparr>cr_survivors = cs_surv st', cr_rounds = rounds + 1,
          cr_edge_stats = stats, cr_trace = trace @ [?entry]\<rparr>"
        using bound st' stats Inr by (subst closure_loop.simps) (simp add: Let_def)
      then show ?thesis
        using st'(1) rows(2) [OF True] Inr by (intro disjI2 exI [of _ _]) auto
    next
      case False
      then have eq: "closure_loop env rounds st trace = closure_loop env (rounds + 1) st' (trace @ [?entry])"
        using bound st' stats Inr by (subst closure_loop.simps) (simp add: Let_def)
      have "rounds + 1 \<le> live_rows env (cs_surv st')"
        using rows(1) False 1(3) by linarith
      from 1(1) [OF bound st'(1) stats Inr refl False 1(2) this] show ?thesis
        unfolding eq using st'(1) by (blast intro: converse_rtranclp_into_rtranclp)
    qed
  qed
qed

lemma compute_closure_outcome:
  assumes "env_ok env"
  shows "(\<exists>e S stats. compute_closure env seed = Inl e \<and> ce_budget env S stats = Inl e) \<or>
    (\<exists>r. compute_closure env seed = Inr r \<and> closed_survivors env (cr_survivors r) \<and>
      initial_survivors env seed \<le> cr_survivors r \<and>
      (\<forall>C. closed_survivors env C \<longrightarrow> initial_survivors env seed \<le> C \<longrightarrow> cr_survivors r \<le> C) \<and>
      ce_budget env (cr_survivors r) (cr_edge_stats r) = Inr ())"
proof -
  let ?st = "\<lparr>cs_surv = initial_survivors env seed, cs_down = (\<lambda>i. 0), cs_up = (\<lambda>i. 0), cs_round = (\<lambda>t. 0)\<rparr>"
  show ?thesis
    using closure_loop_outcome [OF assms, of 0 ?st "[]"] closure.standstill_least [OF assms, of ?st]
    unfolding compute_closure_def [symmetric] by fastforce
qed

text \<open>An upward-closed set has every parent row that a surviving child row references.\<close>

lemma closed_upward:
  assumes "closed_survivors env S" "e \<in> set (ce_edges env)" "map_of (ce_dirs env) (se_id e) \<in> {Some Both, Some Upward}"
    and "map_of (ce_frames env) (se_parent e) = Some pkf" "map_of (ce_frames env) (se_child e) = Some ckf"
    and "j \<in> S (se_child e)" "j < length ckf" "\<not> null_key (row_key (se_ccols e) (ckf ! j))"
    and "i < length pkf" "row_key (se_pcols e) (pkf ! i) = row_key (se_ccols e) (ckf ! j)"
  shows "i \<in> S (se_parent e)"
proof -
  have "i \<in> up_match (ce_frames env) e S"
    using assms(4-10) by (auto simp: up_match_def semi_join_iff keys_at_iff)
  then show ?thesis
    using assms(1-3) by (auto simp: closed_survivors_def closed_edge_def)
qed

lemma verify_edge_ok:
  assumes "closed_survivors env (cr_survivors r)" "e \<in> set (ce_edges env)" "edge_ok env e"
  shows "verify_edge env r e = Inr ()"
proof -
  obtain d pkf ckf where d: "map_of (ce_dirs env) (se_id e) = Some d" "map_of (ce_frames env) (se_parent e) = Some pkf"
      "map_of (ce_frames env) (se_child e) = Some ckf"
    using assms(3) by (auto simp: edge_ok_def)
  have "k \<in> set (keys_at pkf (cr_survivors r (se_parent e)) (se_pcols e))"
    if "d = Both \<or> d = Upward" "k \<in> set (keys_at ckf (cr_survivors r (se_child e)) (se_ccols e))" "\<not> null_key k"
      "k \<in> set (keys_at pkf {..<length pkf} (se_pcols e))" for k
    using that closed_upward [OF assms(1,2) _ d(2,3)] d(1) by (auto simp: keys_at_iff)
  then show ?thesis
    using d unfolding verify_edge_def Let_def by (auto simp: frame_of_def filter_empty_conv)
qed

lemma verify_ok:
  assumes "closed_survivors env (cr_survivors r)" "env_ok env"
  shows "verify_closure env r = Inr ()"
proof -
  have "fold_result (\<lambda>_ e. verify_edge env r e) () es = Inr ()" if "set es \<subseteq> set (ce_edges env)" for es
    using that verify_edge_ok [OF assms(1)] env_ok_edges [OF assms(2)] by (induction es) auto
  then show ?thesis
    by (simp add: verify_closure_def)
qed

section \<open>Directions, budget, ids\<close>

lemma override_keys:
  "override_directions valid os dirs = Inr out \<Longrightarrow> map fst out = map fst dirs"
proof (induction valid os dirs rule: override_directions.induct)
  case (1 valid dirs)
  then show ?case by simp
next
  case (2 valid i d rest dirs)
  then have "map fst out = map fst (map (\<lambda>(j, d'). (j, if j = i then d else d')) dirs)"
    by (auto split: if_splits)
  then show ?case
    by (simp add: case_prod_unfold comp_def)
qed

lemma sort_Nil_iff: "sort xs = [] \<longleftrightarrow> xs = []"
  using length_sort [of "\<lambda>x. x" xs] by (metis length_0_conv)

lemma resolved_directions:
  assumes "resolve_edge_directions edges policy = Inr dirs" "e \<in> set edges"
  shows "map_of dirs (se_id e) \<noteq> None \<and>
    (\<not> fp_allow_dangling policy \<longrightarrow> map_of dirs (se_id e) \<in> {Some Both, Some Upward})"
proof -
  have keys: "map fst dirs = dict_keys (map se_id edges)"
    using assms(1) override_keys [of "dict_keys (map se_id edges)" "fp_edge_directions policy"]
    by (auto simp: resolve_edge_directions_def Let_def result_simps comp_def split: if_splits)
  then have "se_id e \<in> set (map fst dirs)"
    using assms(2) by (simp only: dict_keys_set set_map) simp
  then obtain d where d: "map_of dirs (se_id e) = Some d"
    by (metis map_of_eq_None_iff option.exhaust set_map)
  moreover have "d \<noteq> Downward \<and> d \<noteq> NoDirection" if "\<not> fp_allow_dangling policy"
  proof -
    have "sort (map fst (filter (\<lambda>(i, d). d = Downward \<or> d = NoDirection) dirs)) = []"
      using assms(1) that by (auto simp: resolve_edge_directions_def Let_def result_simps split: if_splits)
    then have "filter (\<lambda>(i, d). d = Downward \<or> d = NoDirection) dirs = []"
      by (simp add: sort_Nil_iff)
    then show ?thesis
      using map_of_SomeD [OF d] by (auto simp: filter_empty_conv)
  qed
  ultimately show ?thesis
    by (cases d) auto
qed

lemma check_tables_ok:
  "check_tables cap surv stats ts = Inr () \<Longrightarrow> t \<in> set ts \<Longrightarrow> int (card (surv t)) \<le> cap"
  by (induction ts) (auto simp: result_simps split: if_splits)

lemma budget_ok:
  assumes "make_budget_check budget n tables surv stats = Inr ()"
  shows "(\<forall>cap. fb_max_total_rows budget = Some cap \<longrightarrow> int (sum_list (map (\<lambda>t. card (surv t)) tables)) \<le> cap) \<and>
    (\<forall>f t. fb_table_cap budget = Some f \<longrightarrow> t \<in> set tables \<longrightarrow> int (card (surv t)) \<le> f n)"
  using assms check_tables_ok [of _ surv stats "sort tables"]
  by (auto simp: make_budget_check_def Let_def result_simps split: option.splits if_splits)

lemma arrow_no_match:
  assumes "CHR ''>'' \<notin> set s"
  shows "split_go 0 '' -> '' acc s = [acc @ s]"
  using assms
proof (induction s arbitrary: acc)
  case Nil
  then show ?case by simp
next
  case (Cons c s)
  have "take 4 (c # s) \<noteq> '' -> ''"
  proof
    assume "take 4 (c # s) = '' -> ''"
    then have "CHR ''>'' \<in> set (take 4 (c # s))"
      by simp
    then show False
      using Cons.prems in_set_takeD by fastforce
  qed
  then show ?case
    using Cons by (simp add: numeral_eq_Suc)
qed

lemma arrow_split:
  assumes "CHR ''>'' \<notin> set a" "CHR ''>'' \<notin> set b"
  shows "split_go 0 '' -> '' acc (a @ '' -> '' @ b) = [acc @ a, b]"
  using assms(1)
proof (induction a arbitrary: acc)
  case Nil
  then show ?case
    using arrow_no_match [OF assms(2)] by (simp add: numeral_eq_Suc)
next
  case (Cons c a)
  have "take 4 (c # a @ '' -> '' @ b) \<noteq> '' -> ''"
  proof
    assume "take 4 (c # a @ '' -> '' @ b) = '' -> ''"
    then have "(c # a @ '' -> '' @ b) ! 2 = CHR ''>''"
      by (metis (no_types, lifting) nth_Cons_0 nth_Cons_Suc nth_take numeral_2_eq_2 one_less_numeral_iff
          numeral_less_iff semiring_norm(76,78))
    then show False
      using Cons.prems by (auto simp: nth_Cons' nth_append numeral_2_eq_2 split: if_splits dest: nth_mem)
  qed
  then show ?case
    using Cons by (simp add: numeral_eq_Suc)
qed

lemma join_no_arrow: "\<forall>x \<in> set xs. CHR ''>'' \<notin> set x \<Longrightarrow> CHR ''>'' \<notin> set (join_with '','' xs)"
  by (induction "'',''" xs rule: join_with.induct) auto

lemma takeWhile_dot: "CHR ''.'' \<notin> set t \<Longrightarrow> takeWhile (\<lambda>c. c \<noteq> CHR ''.'') (t @ CHR ''.'' # r) = t"
  by (induction t) auto

section \<open>Properties\<close>

text \<open>C36. The closure terminates. For edges whose tables and directions are declared, the loop never
  reaches its non-termination guard on any schema, cyclic or not: it returns a result, or stops with
  an error the budget check raised.\<close>

theorem closure_terminates:
  assumes "env_ok env"
  shows "(\<exists>r. compute_closure env seed = Inr r) \<or>
    (\<exists>e S stats. compute_closure env seed = Inl e \<and> ce_budget env S stats = Inl e)"
  using compute_closure_outcome [OF assms] by blast

text \<open>C6. The survivors are the least set of rows that contains the seeds and is closed under the two
  rules, downward and upward, on the edges where each is enabled.\<close>

theorem closure_least:
  assumes "env_ok env" "compute_closure env seed = Inr r"
  shows "closed_survivors env (cr_survivors r) \<and> initial_survivors env seed \<le> cr_survivors r \<and>
    (\<forall>C. closed_survivors env C \<longrightarrow> initial_survivors env seed \<le> C \<longrightarrow> cr_survivors r \<le> C)"
  using compute_closure_outcome [OF assms(1), of seed] assms(2) by auto

text \<open>C7. No dangling foreign keys under the default policy. When the directions were resolved without
  \<open>allow_dangling\<close>, every parent row that a surviving child row references by a non-null key survives.\<close>

theorem closure_no_dangling:
  assumes "env_ok env" "compute_closure env seed = Inr r"
    and "resolve_edge_directions (ce_edges env) policy = Inr (ce_dirs env)" "\<not> fp_allow_dangling policy"
    and "e \<in> set (ce_edges env)"
    and "map_of (ce_frames env) (se_parent e) = Some pkf" "map_of (ce_frames env) (se_child e) = Some ckf"
    and "j \<in> cr_survivors r (se_child e)" "j < length ckf" "\<not> null_key (row_key (se_ccols e) (ckf ! j))"
    and "i < length pkf" "row_key (se_pcols e) (pkf ! i) = row_key (se_ccols e) (ckf ! j)"
  shows "i \<in> cr_survivors r (se_parent e)"
proof (rule closed_upward [of env "cr_survivors r", OF _ assms(5) _ assms(6-12)])
  show "closed_survivors env (cr_survivors r)"
    using compute_closure_outcome [OF assms(1), of seed] assms(2) by auto
  show "map_of (ce_dirs env) (se_id e) \<in> {Some Both, Some Upward}"
    using resolved_directions [OF assms(3,5)] assms(4) by blast
qed

text \<open>The defensive re-check never fires: \<open>verify_closure\<close> accepts every result of
  \<open>compute_closure\<close>.\<close>

theorem verify_closure_accepts:
  assumes "env_ok env" "compute_closure env seed = Inr r"
  shows "verify_closure env r = Inr ()"
  using compute_closure_outcome [OF assms(1), of seed] assms verify_ok by fastforce

text \<open>A result respects the fan-out budget: the total row cap, and on every table the cap derived
  from the seed total.\<close>

theorem closure_within_budget:
  assumes "env_ok env" "ce_budget env = make_budget_check budget n (map fst (ce_frames env))"
    and "compute_closure env seed = Inr r"
  shows "(\<forall>cap. fb_max_total_rows budget = Some cap \<longrightarrow>
      int (sum_list (map (\<lambda>t. card (cr_survivors r t)) (map fst (ce_frames env)))) \<le> cap) \<and>
    (\<forall>f t. fb_table_cap budget = Some f \<longrightarrow> t \<in> set (map fst (ce_frames env)) \<longrightarrow>
      int (card (cr_survivors r t)) \<le> f n)"
proof -
  have "ce_budget env (cr_survivors r) (cr_edge_stats r) = Inr ()"
    using compute_closure_outcome [OF assms(1), of seed] assms(3) by auto
  then show ?thesis
    unfolding assms(2) by (rule budget_ok)
qed

text \<open>The budget attribution reads the right tables back from an edge id, when the table names have
  no dot and no name contains the arrow character.\<close>

theorem edge_endpoints_edge_id:
  assumes "CHR ''.'' \<notin> set pt" "CHR ''.'' \<notin> set ct" "\<forall>x \<in> set (pt # ct # pcs @ ccs). CHR ''>'' \<notin> set x"
  shows "edge_endpoints (edge_id pt pcs ct ccs) = Inr (pt, ct)"
proof -
  have "split_go 0 '' -> '' [] ((pt @ ''.'' @ join_with '','' pcs) @ '' -> '' @ (ct @ ''.'' @ join_with '','' ccs)) =
      [[] @ (pt @ ''.'' @ join_with '','' pcs), ct @ ''.'' @ join_with '','' ccs]"
    using assms(3) by (intro arrow_split) (auto simp: join_no_arrow)
  then show ?thesis
    using assms(1,2) by (simp add: edge_endpoints_def edge_id_def takeWhile_dot)
qed

text \<open>A dotted table name is read back wrongly.\<close>

lemma edge_endpoints_dotted:
  "edge_endpoints (edge_id ''hr.staff'' [''id''] ''orders'' [''staff_id'']) = Inr (''hr'', ''orders'')"
  by code_simp

section \<open>Materialisation\<close>

text \<open>Writing a table keeps exactly its surviving rows in their original order, and the row-count
  guard does not fire when the survivors are rows of the table.\<close>

theorem materialize_keeps_survivors:
  assumes "S \<subseteq> {..<length f}"
  shows "materialize_table t f S = Inr (nths f S)"
proof -
  have nths: "map snd (filter (\<lambda>(i, r). i \<in> S) (zip [0..<length f] f)) = nths f S"
    by (simp add: nths_def zip_commute [of "[0..<length f]"] filter_map comp_def case_prod_unfold)
  have "length (nths f S) = card S"
    using assms by (auto simp: length_nths intro!: arg_cong [of _ _ card])
  then show ?thesis
    by (simp add: materialize_table_def nths)
qed

section \<open>Witnesses\<close>

definition demo_frames :: "(string \<times> nat frame) list" where
  "demo_frames =
     [(''customers'', [\<lambda>c. Some 10, \<lambda>c. Some 11]),
      (''orders'', [\<lambda>c. if c = ''cust'' then Some 11 else Some 0, \<lambda>c. None])]"

definition demo_edge :: subset_edge where
  "demo_edge = \<lparr>se_id = edge_id ''customers'' [''id''] ''orders'' [''cust''], se_parent = ''customers'', se_pcols = [''id''],
     se_child = ''orders'', se_ccols = [''cust''], se_orphan_policy = ''fail'', se_namespace = None\<rparr>"

definition demo_budget :: fan_out_budget where
  "demo_budget = \<lparr>fb_max_total_rows = Some 100, fb_table_cap = None\<rparr>"

definition demo_policy :: fan_out_policy where
  "demo_policy = \<lparr>fp_edge_directions = [], fp_allow_dangling = False\<rparr>"

definition demo_env :: "nat closure_env" where
  "demo_env = \<lparr>ce_edges = [demo_edge], ce_dirs = [(se_id demo_edge, Both)], ce_frames = demo_frames,
     ce_budget = (\<lambda>S stats. Inr ())\<rparr>"

definition demo_capped :: "nat closure_env" where
  "demo_capped = demo_env\<lparr>ce_budget := make_budget_check demo_budget 1 [''customers'', ''orders'']\<rparr>"

definition demo_seed :: survivors where
  "demo_seed = (\<lambda>t. if t = ''orders'' then {0} else {})"

lemma demo_env_ok: "env_ok demo_env" "env_ok demo_capped"
  by (simp_all add: env_ok_def demo_env_def demo_capped_def demo_frames_def demo_edge_def)

lemma demo_returns: "\<exists>r. compute_closure demo_env demo_seed = Inr r \<and> 0 \<in> cr_survivors r ''orders''"
proof -
  have "0 \<in> initial_survivors demo_env demo_seed ''orders''"
    by (simp add: initial_survivors_def demo_env_def demo_frames_def demo_seed_def)
  then show ?thesis
    using compute_closure_outcome [OF demo_env_ok(1), of demo_seed] by (force simp: demo_env_def le_fun_def)
qed

theorem closure_terminates_witness: "\<exists>r. compute_closure demo_env demo_seed = Inr r"
  using closure_terminates [OF demo_env_ok(1), of demo_seed] by (auto simp: demo_env_def)

theorem closure_least_witness:
  "\<exists>r. compute_closure demo_env demo_seed = Inr r \<and> closed_survivors demo_env (cr_survivors r)"
  using demo_returns closure_least [OF demo_env_ok(1), of demo_seed] by blast

theorem closure_no_dangling_witness:
  "\<exists>r. compute_closure demo_env demo_seed = Inr r \<and> 1 \<in> cr_survivors r ''customers''"
proof -
  obtain r where r: "compute_closure demo_env demo_seed = Inr r" "0 \<in> cr_survivors r ''orders''"
    using demo_returns by blast
  have res: "resolve_edge_directions (ce_edges demo_env) demo_policy = Inr (ce_dirs demo_env)"
    by (simp add: resolve_edge_directions_def demo_env_def demo_policy_def dict_keys_def)
  have "1 \<in> cr_survivors r (se_parent demo_edge)"
    by (rule closure_no_dangling [OF demo_env_ok(1) r(1) res, of demo_edge
          "[\<lambda>c. Some 10, \<lambda>c. Some 11]" "[\<lambda>c. if c = ''cust'' then Some 11 else Some 0, \<lambda>c. None]" 0 1])
      (use r(2) in \<open>simp_all add: demo_policy_def demo_env_def demo_edge_def demo_frames_def null_key_def row_key_def\<close>)
  then show ?thesis
    using r(1) by (auto simp: demo_edge_def)
qed

theorem verify_closure_accepts_witness:
  "\<exists>r. compute_closure demo_env demo_seed = Inr r \<and> verify_closure demo_env r = Inr ()"
  using demo_returns verify_closure_accepts [OF demo_env_ok(1), of demo_seed] by blast

lemma demo_capped_returns: "\<exists>r. compute_closure demo_capped demo_seed = Inr r"
proof -
  have "case compute_closure demo_capped demo_seed of Inr r \<Rightarrow> True | Inl e \<Rightarrow> False"
    by code_simp
  then show ?thesis
    by (auto split: sum.splits)
qed

theorem closure_within_budget_witness:
  "\<exists>r. compute_closure demo_capped demo_seed = Inr r \<and>
     int (sum_list (map (\<lambda>t. card (cr_survivors r t)) [''customers'', ''orders''])) \<le> 100"
proof -
  obtain r where r: "compute_closure demo_capped demo_seed = Inr r"
    using demo_capped_returns by blast
  have t: "map fst (ce_frames demo_capped) = [''customers'', ''orders'']"
    by (simp add: demo_capped_def demo_env_def demo_frames_def)
  then have b: "ce_budget demo_capped = make_budget_check demo_budget 1 (map fst (ce_frames demo_capped))"
    by (simp add: demo_capped_def)
  have "fb_max_total_rows demo_budget = Some 100"
    by (simp add: demo_budget_def)
  with closure_within_budget [OF demo_env_ok(2) b r] r show ?thesis
    unfolding t by blast
qed

theorem edge_endpoints_edge_id_witness:
  "edge_endpoints (edge_id ''customers'' [''id''] ''orders'' [''cust'']) = Inr (''customers'', ''orders'')"
  by (rule edge_endpoints_edge_id) simp_all

theorem materialize_keeps_survivors_witness:
  "materialize_table ''t'' [\<lambda>c. Some (1 :: nat), \<lambda>c. None] {1} = Inr (nths [\<lambda>c. Some 1, \<lambda>c. None] {1})"
  by (rule materialize_keeps_survivors) simp

end
