(* ===== verification/Kahn.thy ===== *)
theory Kahn
  imports Decoy_Prelude "HOL-Library.List_Lexorder"
begin

text \<open>
  The deterministic topological sort the planner and the executor share: Kahn's algorithm with a
  min-heap of ready nodes (\<open>relationships/_graph.py\<close>, \<open>build_relationship_graph\<close>, and
  \<open>execution/_runner.py\<close>, \<open>_kahn_sorted\<close>). A \<open>heapq\<close> queue is an ordered list: \<open>heapify\<close> is
  \<open>sort\<close>, \<open>heappush\<close> is \<open>insort\<close> and \<open>heappop\<close> takes the head. The in-degree dictionary is a
  function to \<open>int\<close> on the node keys.

  The loop is a total function: every pop is paid for by the queue and every push by a node whose
  in-degree leaves the positive numbers. The locale \<open>topo_sorter\<close> is the contract the two clients
  use; it is interpreted on \<open>topo_order\<close>.
\<close>

section \<open>Model\<close>

definition indegree :: "('a \<times> 'a) list \<Rightarrow> 'a \<Rightarrow> int" where
  "indegree es n = int (length (filter (\<lambda>e. snd e = n) es))"

definition out_edges :: "('a \<times> 'a) list \<Rightarrow> 'a \<Rightarrow> 'a list" where
  "out_edges es n = map snd (filter (\<lambda>e. fst e = n) es)"

text \<open>The inner loop: lower the in-degree of every successor and push the ones that reach zero.\<close>

fun relax_all :: "'a::linorder list \<Rightarrow> 'a list \<Rightarrow> ('a \<Rightarrow> int) \<Rightarrow> 'a list \<times> ('a \<Rightarrow> int)" where
  "relax_all [] q d = (q, d)"
| "relax_all (m # ms) q d =
     (let d' = d(m := d m - 1) in relax_all ms (if d' m = 0 then insort m q else q) d')"

lemma relax_all_pays:
  assumes "finite T" and "set ms \<subseteq> T"
  shows "card {n \<in> T. 0 < snd (relax_all ms q d) n} + length (fst (relax_all ms q d)) =
    card {n \<in> T. 0 < d n} + length q"
  using assms(2)
proof (induction ms arbitrary: q d)
  case Nil
  then show ?case by simp
next
  case (Cons m ms)
  define d' where "d' = d(m := d m - 1)"
  define q' where "q' = (if d' m = 0 then insort m q else q)"
  have "card {n \<in> T. 0 < d' n} + (if d' m = 0 then 1 else 0) = card {n \<in> T. 0 < d n}"
  proof (cases "d m = 1")
    case True
    then have "{n \<in> T. 0 < d n} = insert m {n \<in> T. 0 < d' n}"
      using Cons.prems by (auto simp: d'_def)
    then show ?thesis
      using True assms(1) by (simp add: d'_def)
  next
    case False
    then have "{n \<in> T. 0 < d' n} = {n \<in> T. 0 < d n}"
      by (auto simp: d'_def)
    then show ?thesis
      using False by (simp add: d'_def)
  qed
  moreover have "length q' = length q + (if d' m = 0 then 1 else 0)"
    by (simp add: q'_def)
  moreover have "relax_all (m # ms) q d = relax_all ms q' d'"
    by (simp add: d'_def q'_def Let_def)
  ultimately show ?case
    using Cons.IH [of q' d'] Cons.prems by simp
qed

function kahn_loop ::
    "('a::linorder \<times> 'a) list \<Rightarrow> 'a list \<Rightarrow> ('a \<Rightarrow> int) \<Rightarrow> 'a list \<Rightarrow> 'a list \<times> ('a \<Rightarrow> int)" where
  "kahn_loop es [] d placed = (placed, d)"
| "kahn_loop es (n # q) d placed =
     kahn_loop es (fst (relax_all (sort (out_edges es n)) q d))
       (snd (relax_all (sort (out_edges es n)) q d)) (placed @ [n])"
  by pat_completeness auto
termination
proof (relation "measure (\<lambda>(es, q, d, placed). card {n \<in> snd ` set es. 0 < d n} + length q)")
  show "wf (measure (\<lambda>(es :: ('a \<times> 'a) list, q :: 'a list, d :: 'a \<Rightarrow> int, placed :: 'a list).
    card {n \<in> snd ` set es. 0 < d n} + length q))"
    by simp
next
  fix es :: "('a \<times> 'a) list" and n q d placed
  show "((es, fst (relax_all (sort (out_edges es n)) q d),
      snd (relax_all (sort (out_edges es n)) q d), placed @ [n]), es, n # q, d, placed)
    \<in> measure (\<lambda>(es, q, d, placed). card {n \<in> snd ` set es. 0 < d n} + length q)"
    using relax_all_pays [of "snd ` set es" "sort (out_edges es n)" q d]
    by (force simp: out_edges_def)
qed

text \<open>\<open>kahn\<close> runs the loop on the nodes \<open>ns\<close> and returns the placed nodes and the final in-degrees.\<close>

definition kahn :: "'a::linorder list \<Rightarrow> ('a \<times> 'a) list \<Rightarrow> 'a list \<times> ('a \<Rightarrow> int)" where
  "kahn ns es = kahn_loop es (sort (filter (\<lambda>n. indegree es n = 0) ns)) (indegree es) []"

text \<open>The common ending of both clients: the placed nodes when every node was placed, else the
  sorted nodes whose in-degree stayed positive.\<close>

definition topo_order :: "'a::linorder list \<Rightarrow> ('a \<times> 'a) list \<Rightarrow> 'a list + 'a list" where
  "topo_order ns es = (let (placed, d) = kahn ns es in
     if length placed \<noteq> length ns then Inl (sort (filter (\<lambda>n. 0 < d n) ns)) else Inr placed)"

section \<open>The inner loop\<close>

lemma snd_relax_all: "snd (relax_all ms q d) n = d n - int (count_list ms n)"
  by (induction ms arbitrary: q d) (auto simp: Let_def)

lemma set_relax_all:
  "set (fst (relax_all ms q d)) = set q \<union> {n. 0 < d n \<and> d n \<le> int (count_list ms n)}"
proof (induction ms arbitrary: q d)
  case Nil
  then show ?case by auto
next
  case (Cons m ms)
  then show ?case
    by (auto simp: Let_def set_insort_key split: if_splits)
qed

lemma sorted_relax_all: "sorted q \<Longrightarrow> sorted (fst (relax_all ms q d))"
  by (induction ms arbitrary: q d) (auto simp: Let_def sorted_insort)

lemma distinct_relax_all:
  "distinct q \<Longrightarrow> \<forall>n \<in> set q. d n \<le> 0 \<Longrightarrow> distinct (fst (relax_all ms q d))"
proof (induction ms arbitrary: q d)
  case Nil
  then show ?case by simp
next
  case (Cons m ms)
  let ?d = "d(m := d m - 1)"
  have "distinct (if ?d m = 0 then insort m q else q)"
    using Cons.prems by (auto simp: distinct_insort)
  moreover have "\<forall>n \<in> set (if ?d m = 0 then insort m q else q). ?d n \<le> 0"
    using Cons.prems by (auto simp: set_insort_key split: if_splits)
  ultimately show ?case
    using Cons.IH by (simp add: Let_def)
qed

section \<open>The loop invariant\<close>

definition available :: "'a set \<Rightarrow> ('a \<times> 'a) set \<Rightarrow> 'a set \<Rightarrow> 'a set" where
  "available N E P = {n \<in> N. n \<notin> P \<and> (\<forall>p. (p, n) \<in> E \<longrightarrow> p \<in> P)}"

text \<open>\<open>greedy\<close>: every placed node is the least one available when it is placed.\<close>

definition greedy :: "'a::linorder set \<Rightarrow> ('a \<times> 'a) set \<Rightarrow> 'a list \<Rightarrow> bool" where
  "greedy N E xs \<longleftrightarrow> (\<forall>i < length xs. xs ! i \<in> available N E (set (take i xs)) \<and>
     (\<forall>m \<in> available N E (set (take i xs)). xs ! i \<le> m))"

definition waiting :: "('a \<times> 'a) list \<Rightarrow> 'a set \<Rightarrow> 'a \<Rightarrow> nat" where
  "waiting es P n = length (filter (\<lambda>e. snd e = n \<and> fst e \<notin> P) es)"

lemma count_list_sort: "count_list (sort xs) n = count_list xs n"
proof -
  have "count_list (insort x ys) n = count_list (x # ys) n" for x ys
    by (induction ys) auto
  then show ?thesis
    by (induction xs) auto
qed

lemma waiting_insert:
  "p \<notin> P \<Longrightarrow> int (waiting es (insert p P) n) =
     int (waiting es P n) - int (count_list (out_edges es p) n)"
  by (induction es) (auto simp: waiting_def out_edges_def)

lemma waiting_zero_iff: "waiting es P n = 0 \<longleftrightarrow> (\<forall>p. (p, n) \<in> set es \<longrightarrow> p \<in> P)"
  by (auto simp: waiting_def filter_empty_conv)

definition kahn_inv :: "'a::linorder set \<Rightarrow> ('a \<times> 'a) list \<Rightarrow> 'a list \<Rightarrow> ('a \<Rightarrow> int) \<Rightarrow> 'a list \<Rightarrow> bool" where
  "kahn_inv N es q d xs \<longleftrightarrow> distinct xs \<and> distinct q \<and> sorted q \<and> set xs \<subseteq> N \<and>
     set q = available N (set es) (set xs) \<and>
     (\<forall>n. d n = int (waiting es (set xs) n)) \<and> greedy N (set es) xs"

lemma available_subset: "available N E P \<subseteq> N"
  by (auto simp: available_def)

lemma kahn_inv_init:
  assumes "distinct ns" and "N = set ns"
  shows "kahn_inv N es (sort (filter (\<lambda>n. indegree es n = 0) ns)) (indegree es) []"
proof -
  have "indegree es n = int (waiting es {} n)" for n
    by (simp add: waiting_def indegree_def)
  moreover have "indegree es n = 0 \<longleftrightarrow> (\<forall>p. (p, n) \<notin> set es)" for n
    using waiting_zero_iff [of es "{}" n] by (simp add: calculation)
  ultimately show ?thesis
    using assms by (simp add: kahn_inv_def greedy_def available_def)
qed

lemma greedy_snoc:
  assumes "greedy N E xs" and "n \<in> available N E (set xs)"
    and "\<forall>m \<in> available N E (set xs). n \<le> m"
  shows "greedy N E (xs @ [n])"
  using assms by (auto simp: greedy_def nth_append less_Suc_eq)

lemma greedy_closed:
  assumes "greedy N E xs" and "m \<in> set xs" and "(p, m) \<in> E"
  shows "p \<in> set xs"
proof -
  obtain i where "i < length xs" "m = xs ! i"
    using assms(2) by (auto simp: in_set_conv_nth)
  then have "p \<in> set (take i xs)"
    using assms(1,3) by (auto simp: greedy_def available_def)
  then show ?thesis
    by (rule in_set_takeD)
qed

lemma set_queue_step:
  assumes q: "insert n Q = available N (set es) P" "n \<notin> Q" "n \<notin> P"
    and N: "snd ` set es \<subseteq> N" and closed: "\<And>m p. m \<in> P \<Longrightarrow> (p, m) \<in> set es \<Longrightarrow> p \<in> P"
  shows "Q \<union> {m. 0 < waiting es P m \<and> waiting es P m \<le> count_list (out_edges es n) m} =
    available N (set es) (insert n P)" (is "?L = ?R")
proof -
  have avail: "m \<in> available N (set es) S \<longleftrightarrow> m \<in> N \<and> m \<notin> S \<and> waiting es S m = 0" for m S
    by (auto simp: available_def waiting_zero_iff)
  have w: "waiting es (insert n P) m + count_list (out_edges es n) m = waiting es P m" for m
    using waiting_insert [OF q(3), of es m] by simp
  have zero: "waiting es P m = 0" if "m \<in> insert n P" for m
  proof (cases "m = n")
    case True
    then show ?thesis
      using avail [of n P] unfolding q(1) [symmetric] by simp
  next
    case False
    then show ?thesis
      using that closed by (auto simp: waiting_zero_iff)
  qed
  have inN: "m \<in> N" if "0 < waiting es P m" for m
    using that N by (force simp: waiting_def filter_empty_conv image_subset_iff)
  have Q: "m \<in> Q \<longleftrightarrow> m \<noteq> n \<and> m \<in> N \<and> m \<notin> P \<and> waiting es P m = 0" for m
    using avail [of m P] q(2) unfolding q(1) [symmetric] by auto
  have "m \<in> ?L \<longleftrightarrow> m \<in> ?R" for m
  proof (cases "waiting es P m = 0")
    case True
    then show ?thesis
      using w [of m] by (auto simp: Q avail)
  next
    case False
    then have "m \<noteq> n" "m \<notin> P" "m \<in> N"
      using zero inN by auto
    then show ?thesis
      using False w [of m] by (auto simp: Q avail)
  qed
  then show ?thesis
    by blast
qed

lemma kahn_inv_step:
  assumes inv: "kahn_inv N es (n # q) d xs" and N: "snd ` set es \<subseteq> N"
  shows "kahn_inv N es (fst (relax_all (sort (out_edges es n)) q d))
    (snd (relax_all (sort (out_edges es n)) q d)) (xs @ [n])"
proof -
  let ?ms = "sort (out_edges es n)"
  have q: "set (n # q) = available N (set es) (set xs)" "distinct (n # q)" "sorted (n # q)"
    and d: "\<And>m. d m = int (waiting es (set xs) m)" and "distinct xs" "set xs \<subseteq> N"
    and g: "greedy N (set es) xs"
    using inv by (auto simp: kahn_inv_def)
  have n: "n \<in> available N (set es) (set xs)"
    using q(1) by auto
  then have "n \<notin> set xs" "n \<in> N"
    by (auto simp: available_def)
  have d': "snd (relax_all ?ms q d) m = int (waiting es (set (xs @ [n])) m)" for m
    using waiting_insert [OF \<open>n \<notin> set xs\<close>, of es m]
    by (simp add: snd_relax_all d count_list_sort)
  have "\<forall>m \<in> set q. d m \<le> 0"
  proof
    fix m assume "m \<in> set q"
    then have "m \<in> available N (set es) (set xs)"
      using q(1) by auto
    then show "d m \<le> 0"
      by (simp add: d waiting_zero_iff available_def)
  qed
  then have "distinct (fst (relax_all ?ms q d))"
    using q(2) by (intro distinct_relax_all) simp_all
  moreover have "set (fst (relax_all ?ms q d)) = available N (set es) (set (xs @ [n]))"
    using set_queue_step [of n "set q" N es "set xs"] q(1,2) \<open>n \<notin> set xs\<close> N greedy_closed [OF g]
    by (simp add: set_relax_all d count_list_sort)
  moreover have "greedy N (set es) (xs @ [n])"
  proof (rule greedy_snoc [OF g n])
    show "\<forall>m \<in> available N (set es) (set xs). n \<le> m"
      using q(1,3) by (metis list.set_intros(1) set_ConsD sorted_simps(2) order_refl)
  qed
  moreover have "sorted (fst (relax_all ?ms q d))"
    using q(3) by (simp add: sorted_relax_all)
  ultimately show ?thesis
    using d' \<open>distinct xs\<close> \<open>set xs \<subseteq> N\<close> \<open>n \<notin> set xs\<close> \<open>n \<in> N\<close>
    by (simp add: kahn_inv_def)
qed

lemma kahn_inv_loop:
  assumes "kahn_inv N es q d xs" and "snd ` set es \<subseteq> N"
  shows "kahn_inv N es [] (snd (kahn_loop es q d xs)) (fst (kahn_loop es q d xs))"
  using assms
proof (induction es q d xs rule: kahn_loop.induct)
  case (1 es d xs)
  then show ?case by simp
next
  case (2 es n q d xs)
  then show ?case
    using kahn_inv_step [OF "2.prems"] by simp
qed

lemma kahn_result:
  assumes "distinct ns" and "snd ` set es \<subseteq> set ns" and "kahn ns es = (xs, d)"
  shows "distinct xs" and "set xs \<subseteq> set ns" and "greedy (set ns) (set es) xs"
    and "available (set ns) (set es) (set xs) = {}" and "d n = int (waiting es (set xs) n)"
  using kahn_inv_loop [OF kahn_inv_init [OF assms(1) refl, of es] assms(2)] assms(3)
  by (auto simp: kahn_def kahn_inv_def)

section \<open>Topological orders\<close>

definition topological :: "('a \<times> 'a) set \<Rightarrow> 'a list \<Rightarrow> bool" where
  "topological E xs \<longleftrightarrow> (\<forall>i < length xs. \<forall>p. (p, xs ! i) \<in> E \<longrightarrow> p \<in> set (take i xs))"

definition on_cycle :: "('a \<times> 'a) set \<Rightarrow> 'a \<Rightarrow> bool" where
  "on_cycle E n \<longleftrightarrow> (n, n) \<in> E\<^sup>+"

lemma greedy_topological: "greedy N E xs \<Longrightarrow> topological E xs"
  by (auto simp: greedy_def topological_def available_def)

text \<open>A placed node has all its ancestors before it, so it is not below a cycle.\<close>

lemma topological_ancestors:
  assumes "topological E xs" and "(p, xs ! i) \<in> E\<^sup>+" and "i < length xs"
  shows "p \<in> set (take i xs)"
  using assms(2,3)
proof (induction "xs ! i" arbitrary: i rule: trancl_induct)
  case base
  then show ?case
    using assms(1) by (auto simp: topological_def)
next
  case (step y)
  then have "y \<in> set (take i xs)"
    using assms(1) by (auto simp: topological_def)
  then obtain j where j: "j < i" "j < length xs" "y = xs ! j"
    using step.prems by (auto simp: in_set_conv_nth)
  then have "p \<in> set (take j xs)"
    using step.hyps(3) by simp
  then show ?case
    using j set_take_subset_set_take [of j i xs] by auto
qed

lemma topological_not_below_cycle:
  assumes "topological E xs" and "distinct xs" and "n \<in> set xs" and "(m, n) \<in> E\<^sup>*"
  shows "\<not> on_cycle E m"
proof
  assume cyc: "on_cycle E m"
  obtain i where i: "i < length xs" "n = xs ! i"
    using assms(3) by (auto simp: in_set_conv_nth)
  have "(m, n) \<in> E\<^sup>+"
    using cyc assms(4) by (auto simp: on_cycle_def intro: trancl_rtrancl_trancl)
  then have "m \<in> set (take i xs)"
    using topological_ancestors [OF assms(1)] i by simp
  then obtain j where j: "j < length xs" "m = xs ! j"
    using in_set_takeD in_set_conv_nth by metis
  then have "xs ! j \<in> set (take j xs)"
    using topological_ancestors [OF assms(1)] cyc by (simp add: on_cycle_def)
  then show False
    using assms(2) j by (auto simp: in_set_conv_nth nth_eq_iff_index_eq)
qed

text \<open>A node that is never placed is below a cycle: following unplaced parents inside its finite set
  of unplaced ancestors would otherwise reach an available node.\<close>

lemma unplaced_below_cycle:
  assumes "finite N" and E: "E \<subseteq> N \<times> N" and "available N E P = {}" and "n \<in> N" "n \<notin> P"
    and closed: "\<And>p m. (p, m) \<in> E \<Longrightarrow> m \<in> P \<Longrightarrow> p \<in> P"
  shows "\<exists>m. on_cycle E m \<and> (m, n) \<in> E\<^sup>*"
proof (rule ccontr)
  assume none: "\<not> (\<exists>m. on_cycle E m \<and> (m, n) \<in> E\<^sup>*)"
  let ?A = "{m \<in> N. m \<notin> P \<and> (m, n) \<in> E\<^sup>*}"
  let ?r = "E \<inter> ?A \<times> ?A"
  have "acyclic ?r"
  proof (rule acyclicI, rule allI, rule notI)
    fix m assume "(m, m) \<in> ?r\<^sup>+"
    then have "m \<in> ?A" "(m, m) \<in> E\<^sup>+"
      by (auto dest: tranclD intro: trancl_mono)
    then show False
      using none by (auto simp: on_cycle_def)
  qed
  moreover have "finite ?r"
    using assms(1) by (auto intro: finite_subset [of _ "N \<times> N"])
  ultimately have "wf ?r"
    by (rule finite_acyclic_wf [rotated])
  then obtain m where m: "m \<in> ?A" "\<And>p. (p, m) \<in> ?r \<Longrightarrow> p \<notin> ?A"
    using assms(4,5) by (elim wfE_min [of ?r n ?A]) auto
  moreover have "m \<notin> available N E P"
    using assms(3) by simp
  ultimately obtain p where p: "(p, m) \<in> E" "p \<notin> P"
    by (auto simp: available_def)
  then have "p \<in> ?A"
    using m(1) E by (auto intro: converse_rtrancl_into_rtrancl)
  then show False
    using m p by auto
qed

text \<open>Greedy placement gives the least topological order in the lexicographic order.\<close>

lemma greedy_least:
  assumes "greedy N E xs" and "topological E ys" and "distinct ys" and "set ys = N"
    and "length xs = length ys"
  shows "xs \<le> ys"
proof (rule ccontr)
  assume "\<not> xs \<le> ys"
  then have "ys < xs"
    by simp
  then have "(ys, xs) \<in> lexord {(u, v). u < v}"
    by (simp add: list_less_def)
  then obtain i where i: "i < length ys" "i < length xs" "take i ys = take i xs" "ys ! i < xs ! i"
    using assms(5) by (auto simp: lexord_take_index_conv)
  have "ys ! i \<notin> set (take i ys)"
    using assms(3) i(1) by (auto simp: in_set_conv_nth nth_eq_iff_index_eq)
  then have "ys ! i \<in> available N E (set (take i xs))"
    using assms(2,4) i by (auto simp: available_def topological_def)
  then have "xs ! i \<le> ys ! i"
    using assms(1) i(2) by (simp add: greedy_def)
  then show False
    using i(4) by simp
qed

lemma topological_acyclic:
  assumes "topological E xs" and "distinct xs" and "E \<subseteq> set xs \<times> set xs"
  shows "acyclic E"
proof (rule acyclicI, rule allI, rule notI)
  fix n assume n: "(n, n) \<in> E\<^sup>+"
  then have "n \<in> set xs"
    using assms(3) by (auto dest: tranclD)
  then show False
    using topological_not_below_cycle [OF assms(1,2)] n by (auto simp: on_cycle_def)
qed

section \<open>The contract\<close>

text \<open>What a client may rely on: a sort of a finite graph returns the lexicographically least
  topological order of all nodes, or reports exactly the nodes below a cycle.\<close>

locale topo_sorter =
  fixes topo :: "'a::linorder list \<Rightarrow> ('a \<times> 'a) list \<Rightarrow> 'a list + 'a list"
  assumes sorted_ok: "\<lbrakk>distinct ns; set es \<subseteq> set ns \<times> set ns; topo ns es = Inr xs\<rbrakk> \<Longrightarrow>
      distinct xs \<and> set xs = set ns \<and> topological (set es) xs \<and>
      (\<forall>ys. distinct ys \<and> set ys = set ns \<and> topological (set es) ys \<longrightarrow> xs \<le> ys)"
    and stuck: "\<lbrakk>distinct ns; set es \<subseteq> set ns \<times> set ns; topo ns es = Inl bad\<rbrakk> \<Longrightarrow>
      bad \<noteq> [] \<and> set bad = {n \<in> set ns. \<exists>m. on_cycle (set es) m \<and> (m, n) \<in> (set es)\<^sup>*}"
begin

lemma stuck_iff_cyclic:
  assumes "distinct ns" and "set es \<subseteq> set ns \<times> set ns"
  shows "(\<exists>bad. topo ns es = Inl bad) \<longleftrightarrow> \<not> acyclic (set es)"
proof (cases "topo ns es")
  case (Inl bad)
  then show ?thesis
    using stuck [OF assms Inl] by (auto simp: acyclic_def on_cycle_def neq_Nil_conv)
next
  case (Inr xs)
  then show ?thesis
    using sorted_ok [OF assms Inr] topological_acyclic [of "set es" xs] assms(2) by auto
qed

text \<open>The order depends on the sets of nodes and edges only, not on how they are listed.\<close>

lemma order_independent:
  assumes "distinct ns" "set es \<subseteq> set ns \<times> set ns" "topo ns es = Inr xs"
    and "distinct ns'" "set ns' = set ns" "set es' = set es"
  shows "topo ns' es' = Inr xs"
proof -
  have "acyclic (set es)"
    using stuck_iff_cyclic [OF assms(1,2)] assms(3) by auto
  then obtain ys where ys: "topo ns' es' = Inr ys"
    using stuck_iff_cyclic [of ns' es'] assms by (cases "topo ns' es'") auto
  then show ?thesis
    using sorted_ok [of ns' es' ys] sorted_ok [OF assms(1-3)] assms by (auto intro: antisym)
qed

end

lemma kahn_positive:
  assumes "distinct ns" and "set es \<subseteq> set ns \<times> set ns" and "kahn ns es = (xs, d)" and "n \<in> set ns"
  shows "0 < d n \<longleftrightarrow> n \<notin> set xs"
proof -
  have snd: "snd ` set es \<subseteq> set ns"
    using assms(2) by auto
  note r = kahn_result [OF assms(1) snd assms(3)]
  have "n \<in> set xs \<Longrightarrow> waiting es (set xs) n = 0"
    using greedy_closed [OF r(3)] by (auto simp: waiting_zero_iff)
  moreover have "n \<notin> set xs \<Longrightarrow> waiting es (set xs) n \<noteq> 0"
    using r(4) assms(4) by (auto simp: waiting_zero_iff available_def)
  ultimately show ?thesis
    by (auto simp: r(5))
qed

lemma topo_order_stuck:
  assumes "distinct ns" and "set es \<subseteq> set ns \<times> set ns" and "topo_order ns es = Inl bad"
  shows "bad \<noteq> [] \<and> set bad = {n \<in> set ns. \<exists>m. on_cycle (set es) m \<and> (m, n) \<in> (set es)\<^sup>*}"
proof -
  obtain xs d where k: "kahn ns es = (xs, d)"
    by force
  have snd: "snd ` set es \<subseteq> set ns"
    using assms(2) by auto
  note r = kahn_result [OF assms(1) snd k]
  have bad: "length xs \<noteq> length ns" "set bad = set ns - set xs"
    using assms(3) k kahn_positive [OF assms(1,2) k]
    by (auto simp: topo_order_def split: if_splits)
  have "set xs \<noteq> set ns"
    using bad(1) distinct_card [OF r(1)] distinct_card [OF assms(1)] by auto
  then have "bad \<noteq> []"
    using bad(2) r(2) by auto
  moreover have "n \<notin> set xs \<longleftrightarrow> (\<exists>m. on_cycle (set es) m \<and> (m, n) \<in> (set es)\<^sup>*)" if "n \<in> set ns" for n
    using unplaced_below_cycle [OF finite_set assms(2) r(4) that] greedy_closed [OF r(3)]
      topological_not_below_cycle [OF greedy_topological [OF r(3)] r(1)] by blast
  ultimately show ?thesis
    using bad(2) by auto
qed

lemma topo_order_sorted:
  assumes "distinct ns" and "set es \<subseteq> set ns \<times> set ns" and "topo_order ns es = Inr xs"
  shows "distinct xs \<and> set xs = set ns \<and> topological (set es) xs \<and>
    (\<forall>ys. distinct ys \<and> set ys = set ns \<and> topological (set es) ys \<longrightarrow> xs \<le> ys)"
proof -
  obtain d where k: "kahn ns es = (xs, d)" and len: "length xs = length ns"
    using assms(3) by (auto simp: topo_order_def split: prod.splits if_splits)
  have snd: "snd ` set es \<subseteq> set ns"
    using assms(2) by auto
  note r = kahn_result [OF assms(1) snd k]
  have "set xs = set ns"
    using card_subset_eq [OF finite_set r(2)] r(1) len assms(1) by (simp add: distinct_card)
  moreover have "xs \<le> ys" if "distinct ys" "set ys = set ns" "topological (set es) ys" for ys
  proof (rule greedy_least [OF r(3) that(3,1,2)])
    show "length xs = length ys"
      using that len assms(1) distinct_card [of ys] distinct_card [of ns] by simp
  qed
  ultimately show ?thesis
    using r(1) greedy_topological [OF r(3)] by simp
qed

interpretation ksort: topo_sorter topo_order
proof unfold_locales
qed (fact topo_order_sorted, fact topo_order_stuck)

end
