(* ===== verification/Namespace_Registry.thy ===== *)
theory Namespace_Registry
  imports Decoy_Prelude "HOL-Library.AList" "HOL-Library.List_Lexorder" "HOL-Library.Char_ord"
begin

text \<open>
  The namespace registry of the planner, \<open>relationships/_namespace.py\<close>: \<open>build_namespace_registry\<close>
  with its four passes over the configuration and the profile, and the lookups of
  \<open>NamespaceRegistry\<close>. The configuration is the parsed YAML value \<open>cfg\<close>, read with the code's own
  type tests. Dictionaries the code iterates are association lists in insertion order. A \<open>name\<close> or
  \<open>namespace\<close> that is not a string is outside the configuration schema; the model stops there with
  \<open>NsNameNotString\<close> instead of carrying the foreign value.

  The invariant \<open>registry_ok\<close> says that the owner table and the member lists describe the same
  relation. The locale \<open>namespace_provider\<close> is what the relationship graph relies on; it is
  interpreted here on the built registry.
\<close>

section \<open>Configuration values\<close>

datatype cfg = CNull | CBool bool | CNum int | CStr string | CList "cfg list" | CDict "(string \<times> cfg) list"

type_synonym config = "(string \<times> cfg) list"

fun cfg_truthy :: "cfg \<Rightarrow> bool" where
  "cfg_truthy CNull = False"
| "cfg_truthy (CBool b) = b"
| "cfg_truthy (CNum n) = (n \<noteq> 0)"
| "cfg_truthy (CStr s) = (s \<noteq> [])"
| "cfg_truthy (CList xs) = (xs \<noteq> [])"
| "cfg_truthy (CDict kvs) = (kvs \<noteq> [])"

text \<open>\<open>d.get(k, default)\<close> and iteration of a value; \<open>None\<close> where iteration raises \<open>TypeError\<close>.\<close>

definition cfg_get :: "config \<Rightarrow> string \<Rightarrow> cfg \<Rightarrow> cfg" where
  "cfg_get d k dflt = (case map_of d k of None \<Rightarrow> dflt | Some v \<Rightarrow> v)"

fun cfg_iter :: "cfg \<Rightarrow> cfg list option" where
  "cfg_iter (CList xs) = Some xs"
| "cfg_iter (CStr s) = Some (map (\<lambda>c. CStr [c]) s)"
| "cfg_iter (CDict kvs) = Some (map (\<lambda>kv. CStr (fst kv)) kvs)"
| "cfg_iter _ = None"

definition cfg_or_empty :: "cfg \<Rightarrow> cfg" where
  "cfg_or_empty v = (if cfg_truthy v then v else CList [])"

fun str_items :: "cfg list \<Rightarrow> string list" where
  "str_items [] = []"
| "str_items (v # vs) = (case v of CStr s \<Rightarrow> s # str_items vs | _ \<Rightarrow> str_items vs)"

fun dict_items :: "cfg list \<Rightarrow> config list" where
  "dict_items [] = []"
| "dict_items (v # vs) = (case v of CDict d \<Rightarrow> d # dict_items vs | _ \<Rightarrow> dict_items vs)"

section \<open>Model\<close>

type_synonym node = "string \<times> string list"

record relationship =
  parent_table :: string
  parent_columns :: "string list"
  child_table :: string
  child_columns :: "string list"
  rel_namespace :: "string option"

definition parent_node :: "('a) relationship_scheme \<Rightarrow> node" where
  "parent_node r = (parent_table r, parent_columns r)"

definition child_node :: "('a) relationship_scheme \<Rightarrow> node" where
  "child_node r = (child_table r, child_columns r)"

datatype namespace_error =
    NAMESPACE_AMBIGUITY node "string list" | NAMESPACE_MISSING_COLUMN node
  | NAMESPACE_MISSING_FK node node | NsTypeError | NsNameNotString

record ns_state =
  column_owner :: "node \<Rightarrow> string option"
  namespace_to_columns :: "(string \<times> node list) list"

definition ns_init :: ns_state where
  "ns_init = \<lparr>column_owner = Map.empty, namespace_to_columns = []\<rparr>"

text \<open>\<open>columns_of\<close> reads the \<open>defaultdict(list)\<close>.\<close>

definition columns_of :: "(string \<times> node list) list \<Rightarrow> string \<Rightarrow> node list" where
  "columns_of cols ns = (case map_of cols ns of None \<Rightarrow> [] | Some ks \<Rightarrow> ks)"

definition add_column :: "string \<Rightarrow> node \<Rightarrow> (string \<times> node list) list \<Rightarrow> (string \<times> node list) list" where
  "add_column ns k cols =
     (let ks = columns_of cols ns in
      if k \<in> set ks then cols else AList.update ns (ks @ [k]) cols)"

definition raise_ambiguity :: "node \<Rightarrow> string \<Rightarrow> string \<Rightarrow> namespace_error" where
  "raise_ambiguity k a b = NAMESPACE_AMBIGUITY k (sort [a, b])"

text \<open>Two ways the code registers a column: passes 1 and 2.5 write the owner again when it is already
  the same, passes 2 and 3 leave a registered column alone.\<close>

definition declare_column :: "ns_state \<Rightarrow> node \<Rightarrow> string \<Rightarrow> namespace_error + ns_state" where
  "declare_column st k ns =
     (case column_owner st k of
        Some o' \<Rightarrow> if o' \<noteq> ns then Inl (raise_ambiguity k o' ns)
          else Inr (st\<lparr>column_owner := (column_owner st)(k \<mapsto> ns),
                       namespace_to_columns := add_column ns k (namespace_to_columns st)\<rparr>)
      | None \<Rightarrow> Inr (st\<lparr>column_owner := (column_owner st)(k \<mapsto> ns),
                       namespace_to_columns := add_column ns k (namespace_to_columns st)\<rparr>))"

definition inherit_column :: "ns_state \<Rightarrow> node \<Rightarrow> string \<Rightarrow> namespace_error + ns_state" where
  "inherit_column st k ns =
     (case column_owner st k of
        Some o' \<Rightarrow> if o' \<noteq> ns then Inl (raise_ambiguity k o' ns) else Inr st
      | None \<Rightarrow> Inr (st\<lparr>column_owner := (column_owner st)(k \<mapsto> ns),
                       namespace_to_columns := add_column ns k (namespace_to_columns st)\<rparr>))"

text \<open>Pass 1: the \<open>namespaces\<close> block. An entry is \<open>table.col\<close> or \<open>table.col1__col2\<close>.\<close>

fun split_dunder :: "string \<Rightarrow> string \<Rightarrow> string list" where
  "split_dunder acc (a # b # s) =
     (if a = CHR ''_'' \<and> b = CHR ''_'' then acc # split_dunder [] s else split_dunder (acc @ [a]) (b # s))"
| "split_dunder acc s = [acc @ s]"

definition parse_entry :: "string \<Rightarrow> node" where
  "parse_entry e = (takeWhile (\<lambda>c. c \<noteq> CHR ''.'') e,
     split_dunder [] (drop 1 (dropWhile (\<lambda>c. c \<noteq> CHR ''.'') e)))"

definition declare_entry :: "string \<Rightarrow> ns_state \<Rightarrow> cfg \<Rightarrow> namespace_error + ns_state" where
  "declare_entry ns st v =
     (case v of CStr e \<Rightarrow> if CHR ''.'' \<in> set e then declare_column st (parse_entry e) ns else Inr st
      | _ \<Rightarrow> Inr st)"

definition declare_namespace :: "config \<Rightarrow> ns_state \<Rightarrow> string \<Rightarrow> namespace_error + ns_state" where
  "declare_namespace block st ns =
     (case map_of block ns of
        Some (CDict body) \<Rightarrow>
          and_then (of_option NsTypeError (cfg_iter (cfg_or_empty (cfg_get body ''declared_by'' (CList [])))))
            (fold_result (declare_entry ns) st)
      | _ \<Rightarrow> Inr st)"

definition pass_namespaces :: "config \<Rightarrow> ns_state \<Rightarrow> namespace_error + ns_state" where
  "pass_namespaces config st =
     (case cfg_get config ''namespaces'' (CDict []) of
        CDict block \<Rightarrow> fold_result (declare_namespace block) st (sort (map fst block))
      | _ \<Rightarrow> Inr st)"

text \<open>Pass 2: a relationship that declares a namespace binds its parent and its child column.\<close>

definition bind_relationship :: "ns_state \<Rightarrow> relationship \<Rightarrow> namespace_error + ns_state" where
  "bind_relationship st r =
     (case rel_namespace r of None \<Rightarrow> Inr st
      | Some ns \<Rightarrow> and_then (inherit_column st (parent_node r) ns) (\<lambda>st'.
          inherit_column st' (child_node r) ns))"

text \<open>Pass 2.5: \<open>coherent_with\<close> groups. \<open>cg_columns\<close> and \<open>cg_groups\<close> are \<open>composite_columns\<close> and
  \<open>composite_group_ns\<close>.\<close>

record group_state =
  cg_columns :: "(string \<times> string) list"
  cg_groups :: "(node \<times> string option) list"

definition name_of :: "config \<Rightarrow> namespace_error + string" where
  "name_of d = (case cfg_get d ''name'' (CStr ''?'') of CStr s \<Rightarrow> Inr s | _ \<Rightarrow> Inl NsNameNotString)"

definition explicit_namespace :: "config \<Rightarrow> namespace_error + string option" where
  "explicit_namespace d =
     (let v = cfg_get d ''namespace'' CNull in
      if \<not> cfg_truthy v then Inr None else (case v of CStr s \<Rightarrow> Inr (Some s) | _ \<Rightarrow> Inl NsNameNotString))"

definition table_columns :: "config \<Rightarrow> namespace_error + config list" where
  "table_columns t =
     and_then (of_option NsTypeError (cfg_iter (cfg_or_empty (cfg_get t ''columns'' (CList [])))))
       (\<lambda>vs. Inr (dict_items vs))"

definition tables_block :: "config \<Rightarrow> config list" where
  "tables_block config = (case cfg_get config ''tables'' CNull of CList vs \<Rightarrow> dict_items vs | _ \<Rightarrow> [])"

definition merge_group ::
    "(node \<times> string option) list \<Rightarrow> node \<Rightarrow> string option \<Rightarrow> namespace_error + (node \<times> string option) list" where
  "merge_group groups key ns =
     (case ns of
        Some e \<Rightarrow>
          (case map_of groups key of
             Some (Some prev) \<Rightarrow> if prev \<noteq> e then Inl (raise_ambiguity key prev e)
               else Inr (AList.update key (Some e) groups)
           | _ \<Rightarrow> Inr (AList.update key (Some e) groups))
      | None \<Rightarrow> Inr (if map_of groups key = None then AList.update key None groups else groups))"

definition group_column :: "config \<Rightarrow> group_state \<Rightarrow> config \<Rightarrow> namespace_error + group_state" where
  "group_column t gs c =
     and_then (of_option NsTypeError (cfg_iter (cfg_or_empty (cfg_get c ''coherent_with'' CNull)))) (\<lambda>vs.
     if str_items vs = [] then Inr gs else
     and_then (name_of t) (\<lambda>tn. and_then (name_of c) (\<lambda>cn.
     and_then (explicit_namespace c) (\<lambda>ns.
     and_then (merge_group (cg_groups gs) (tn, sort (remdups (cn # str_items vs))) ns) (\<lambda>groups.
     Inr \<lparr>cg_columns = cg_columns gs @ (tn, cn) # map (Pair tn) (str_items vs), cg_groups = groups\<rparr>)))))"

definition group_table :: "group_state \<Rightarrow> config \<Rightarrow> namespace_error + group_state" where
  "group_table gs t = and_then (table_columns t) (fold_result (group_column t) gs)"

fun join_dunder :: "string list \<Rightarrow> string" where
  "join_dunder [] = []"
| "join_dunder [s] = s"
| "join_dunder (s # t # ss) = s @ ''__'' @ join_dunder (t # ss)"

definition group_namespace :: "node \<Rightarrow> string option \<Rightarrow> string" where
  "group_namespace k e =
     (case e of Some ns \<Rightarrow> ns | None \<Rightarrow> ''composite/'' @ fst k @ ''/'' @ join_dunder (snd k))"

definition bind_group :: "ns_state \<Rightarrow> node \<times> string option \<Rightarrow> namespace_error + ns_state" where
  "bind_group st g = declare_column st (fst g) (group_namespace (fst g) (snd g))"

text \<open>Pass 3: a deterministic column outside the groups needs a namespace.\<close>

definition require_column :: "(string \<times> string) list \<Rightarrow> config \<Rightarrow> ns_state \<Rightarrow> config \<Rightarrow> namespace_error + ns_state" where
  "require_column comps t st c =
     (if \<not> cfg_truthy (cfg_get c ''deterministic'' (CBool False)) then Inr st else
      and_then (name_of t) (\<lambda>tn. and_then (name_of c) (\<lambda>cn.
      if (tn, cn) \<in> set comps then Inr st else
      and_then (explicit_namespace c) (\<lambda>ns.
      case ns of Some e \<Rightarrow> inherit_column st (tn, [cn]) e
      | None \<Rightarrow> if column_owner st (tn, [cn]) = None then Inl (NAMESPACE_MISSING_COLUMN (tn, [cn]))
               else Inr st))))"

definition require_table :: "(string \<times> string) list \<Rightarrow> ns_state \<Rightarrow> config \<Rightarrow> namespace_error + ns_state" where
  "require_table comps st t = and_then (table_columns t) (fold_result (require_column comps t) st)"

record namespace_binding =
  nb_namespace :: string
  declared_by :: "node list"

record namespace_registry =
  bindings :: "namespace_binding list"
  nr_index :: "(node \<times> string) list"

text \<open>The constructor with its \<open>__post_init__\<close>: an empty index is rebuilt from the bindings. In the
  comprehension a later binding of a key replaces an earlier one, hence the reversal.\<close>

definition make_registry :: "namespace_binding list \<Rightarrow> (node \<times> string) list \<Rightarrow> namespace_registry" where
  "make_registry bs idx = \<lparr>bindings = bs,
     nr_index = (if idx = [] then rev (concat (map (\<lambda>b. map (\<lambda>k. (k, nb_namespace b)) (declared_by b)) bs))
                 else idx)\<rparr>"

definition registry_of :: "ns_state \<Rightarrow> namespace_registry" where
  "registry_of st =
     make_registry (map (\<lambda>ns. \<lparr>nb_namespace = ns, declared_by = columns_of (namespace_to_columns st) ns\<rparr>)
       (sort (map fst (namespace_to_columns st)))) []"

definition build_namespace_registry :: "config \<Rightarrow> relationship list \<Rightarrow> namespace_error + namespace_registry" where
  "build_namespace_registry config rels =
     and_then (pass_namespaces config ns_init) (\<lambda>st1.
     and_then (fold_result bind_relationship st1 rels) (\<lambda>st2.
     and_then (fold_result group_table \<lparr>cg_columns = [], cg_groups = []\<rparr> (tables_block config)) (\<lambda>gs.
     and_then (fold_result bind_group st2 (cg_groups gs)) (\<lambda>st3.
     and_then (fold_result (require_table (cg_columns gs)) st3 (tables_block config)) (\<lambda>st4.
     Inr (registry_of st4))))))"

definition for_column :: "namespace_registry \<Rightarrow> node \<Rightarrow> string option" where
  "for_column reg k = map_of (nr_index reg) k"

definition for_relationship :: "namespace_registry \<Rightarrow> relationship \<Rightarrow> namespace_error + string" where
  "for_relationship reg r =
     (case rel_namespace r of Some ns \<Rightarrow> Inr ns
      | None \<Rightarrow> (case for_column reg (parent_node r) of Some ns \<Rightarrow> Inr ns
          | None \<Rightarrow> (case for_column reg (child_node r) of Some ns \<Rightarrow> Inr ns
              | None \<Rightarrow> Inl (NAMESPACE_MISSING_FK (parent_node r) (child_node r)))))"

definition members :: "namespace_registry \<Rightarrow> string \<Rightarrow> node list" where
  "members reg ns = (case find (\<lambda>b. nb_namespace b = ns) (bindings reg) of
     None \<Rightarrow> [] | Some b \<Rightarrow> declared_by b)"

definition declared :: "namespace_registry \<Rightarrow> string set" where
  "declared reg = nb_namespace ` set (bindings reg)"

section \<open>The invariant of the passes\<close>

definition member_of :: "(string \<times> node list) list \<Rightarrow> string \<Rightarrow> node \<Rightarrow> bool" where
  "member_of cols ns k \<longleftrightarrow> k \<in> set (columns_of cols ns)"

definition registry_ok :: "ns_state \<Rightarrow> bool" where
  "registry_ok st \<longleftrightarrow> distinct (map fst (namespace_to_columns st)) \<and>
     (\<forall>k ns. column_owner st k = Some ns \<longleftrightarrow> member_of (namespace_to_columns st) ns k)"

definition extends :: "ns_state \<Rightarrow> ns_state \<Rightarrow> bool" where
  "extends st st' \<longleftrightarrow> registry_ok st' \<and> column_owner st \<subseteq>\<^sub>m column_owner st'"

lemma registry_ok_init [simp]: "registry_ok ns_init"
  by (simp add: registry_ok_def ns_init_def member_of_def columns_of_def)

lemma extends_refl: "registry_ok st \<Longrightarrow> extends st st"
  by (simp add: extends_def)

lemma extends_trans: "extends a b \<Longrightarrow> extends b c \<Longrightarrow> extends a c"
  by (auto simp: extends_def intro: map_le_trans)

lemma extends_lookup: "extends a b \<Longrightarrow> column_owner a k = Some ns \<Longrightarrow> column_owner b k = Some ns"
  unfolding extends_def map_le_def by (metis domI)

lemma extends_ok: "extends a b \<Longrightarrow> registry_ok b"
  by (simp add: extends_def)

lemma extends_fold:
  assumes step: "\<And>s x s'. x \<in> set xs \<Longrightarrow> registry_ok s \<Longrightarrow> f s x = Inr s' \<Longrightarrow> extends s s'"
    and "registry_ok s" and "fold_result f s xs = Inr t"
  shows "extends s t"
proof (rule fold_result_keeps [where P = "extends s" and f = f and xs = xs and s = s and t = t])
  show "extends s s" "fold_result f s xs = Inr t"
    using assms extends_refl by auto
  show "extends s v" if "x \<in> set xs" "extends s u" "f u x = Inr v" for u x v
    using that extends_trans step extends_ok by blast
qed

lemma fold_binds:
  assumes step: "\<And>s x s'. x \<in> set xs \<Longrightarrow> registry_ok s \<Longrightarrow> f s x = Inr s' \<Longrightarrow> extends s s'"
    and "x \<in> set xs" and est: "\<And>s s'. registry_ok s \<Longrightarrow> f s x = Inr s' \<Longrightarrow> column_owner s' k \<noteq> None"
    and "registry_ok s" and "fold_result f s xs = Inr t"
  shows "column_owner t k \<noteq> None"
proof (rule fold_result_establishes [where P = registry_ok and f = f and xs = xs and s = s and t = t])
  show "x \<in> set xs" "registry_ok s" "fold_result f s xs = Inr t"
    using assms by auto
  show "column_owner s' k \<noteq> None" if "registry_ok s" "f s x = Inr s'" for s s'
    by (rule est [OF that])
  show "registry_ok s' \<and> (column_owner s k \<noteq> None \<longrightarrow> column_owner s' k \<noteq> None)"
    if "y \<in> set xs" "registry_ok s" "f s y = Inr s'" for s y s'
    using step [OF that] extends_ok extends_lookup by blast
qed

lemma member_of_add_column:
  "member_of (add_column ns k cols) n j \<longleftrightarrow> member_of cols n j \<or> n = ns \<and> j = k"
  by (cases "map_of cols ns") (auto simp: member_of_def columns_of_def add_column_def Let_def update_conv')

lemma distinct_add_column:
  "distinct (map fst cols) \<Longrightarrow> distinct (map fst (add_column ns k cols))"
  by (simp add: add_column_def Let_def distinct_update)

lemma register_extends:
  assumes "registry_ok st" and "column_owner st k = None \<or> column_owner st k = Some ns"
  shows "extends st (st\<lparr>column_owner := (column_owner st)(k \<mapsto> ns),
    namespace_to_columns := add_column ns k (namespace_to_columns st)\<rparr>)"
proof -
  have ok: "column_owner st j = Some n \<longleftrightarrow> member_of (namespace_to_columns st) n j" for j n
    using assms(1) unfolding registry_ok_def by blast
  have "((column_owner st)(k \<mapsto> ns)) j = Some n \<longleftrightarrow>
      member_of (add_column ns k (namespace_to_columns st)) n j" for j n
    using assms(2) ok [of j n] by (cases "j = k") (auto simp: member_of_add_column)
  moreover have "column_owner st \<subseteq>\<^sub>m (column_owner st)(k \<mapsto> ns)"
    using assms(2) unfolding map_le_def by (metis domIff fun_upd_apply)
  ultimately show ?thesis
    using assms(1) by (simp add: extends_def registry_ok_def distinct_add_column del: fun_upd_apply)
qed

lemma declare_column_extends:
  assumes "registry_ok st" and "declare_column st k ns = Inr st'"
  shows "extends st st'" and "column_owner st' k = Some ns"
  using assms register_extends [of st k ns]
  by (auto simp: declare_column_def split: option.splits if_splits)

lemma inherit_column_extends:
  assumes "registry_ok st" and "inherit_column st k ns = Inr st'"
  shows "extends st st'" and "column_owner st' k = Some ns"
  using assms register_extends [of st k ns] extends_refl [of st]
  by (auto simp: inherit_column_def split: option.splits if_splits)

lemma declare_entry_extends: "registry_ok st \<Longrightarrow> declare_entry ns st v = Inr st' \<Longrightarrow> extends st st'"
  by (auto simp: declare_entry_def intro: declare_column_extends extends_refl
      split: cfg.splits if_splits)

lemma declare_namespace_extends:
  assumes "registry_ok st" and "declare_namespace block st ns = Inr st'"
  shows "extends st st'"
proof (cases "\<exists>body. map_of block ns = Some (CDict body)")
  case True
  then obtain vs where "fold_result (declare_entry ns) st vs = Inr st'"
    using assms(2) by (auto simp: declare_namespace_def result_simps)
  then show ?thesis
    using extends_fold declare_entry_extends assms(1) by blast
next
  case False
  then show ?thesis
    using assms by (auto simp: declare_namespace_def extends_refl split: option.splits cfg.splits)
qed

lemma pass_namespaces_extends:
  assumes "registry_ok st" and "pass_namespaces config st = Inr st'"
  shows "extends st st'"
  using assms extends_fold [OF declare_namespace_extends]
  by (auto simp: pass_namespaces_def extends_refl split: cfg.splits)

lemma bind_relationship_extends:
  assumes "registry_ok st" and "bind_relationship st r = Inr st'"
  shows "extends st st'"
    and "rel_namespace r = Some ns \<Longrightarrow>
      column_owner st' (parent_node r) = Some ns \<and> column_owner st' (child_node r) = Some ns"
proof -
  show "extends st st'"
  proof (cases "rel_namespace r")
    case None
    then show ?thesis
      using assms by (simp add: bind_relationship_def extends_refl)
  next
    case (Some ns)
    then obtain u where "inherit_column st (parent_node r) ns = Inr u" "inherit_column u (child_node r) ns = Inr st'"
      using assms(2) by (auto simp: bind_relationship_def result_simps)
    then show ?thesis
      using inherit_column_extends(1) assms(1) extends_ok extends_trans by blast
  qed
  assume ns: "rel_namespace r = Some ns"
  then obtain u where u: "inherit_column st (parent_node r) ns = Inr u" "inherit_column u (child_node r) ns = Inr st'"
    using assms(2) by (auto simp: bind_relationship_def result_simps)
  have "registry_ok u"
    using inherit_column_extends(1) [OF assms(1) u(1)] by (rule extends_ok)
  then show "column_owner st' (parent_node r) = Some ns \<and> column_owner st' (child_node r) = Some ns"
    using inherit_column_extends(2) [OF assms(1) u(1)] inherit_column_extends [OF _ u(2)] extends_lookup
    by blast
qed

lemma bind_group_extends:
  assumes "registry_ok st" and "bind_group st g = Inr st'"
  shows "extends st st'" and "column_owner st' (fst g) \<noteq> None"
  using declare_column_extends assms by (auto simp: bind_group_def)

lemma require_column_extends:
  assumes "registry_ok st" and "require_column comps t st c = Inr st'"
  shows "extends st st'"
    and "cfg_truthy (cfg_get c ''deterministic'' (CBool False)) \<Longrightarrow> name_of t = Inr tn \<Longrightarrow>
      name_of c = Inr cn \<Longrightarrow> (tn, cn) \<notin> set comps \<Longrightarrow> column_owner st' (tn, [cn]) \<noteq> None"
  using assms inherit_column_extends [OF assms(1)]
  by (auto simp: require_column_def result_simps extends_refl split: if_splits option.splits)

lemma require_table_extends:
  assumes "registry_ok st" and "require_table comps st t = Inr st'"
  shows "extends st st'"
  using assms extends_fold [OF require_column_extends(1)]
  by (auto simp: require_table_def result_simps)

section \<open>The registry reads back the owner table\<close>

lemma map_of_functional:
  assumes "\<And>u w. (k, u) \<in> set xs \<Longrightarrow> (k, w) \<in> set xs \<Longrightarrow> u = w"
  shows "map_of xs k = Some v \<longleftrightarrow> (k, v) \<in> set xs"
  using assms by (metis map_of_SomeD weak_map_of_SomeI)

lemma member_of_key: "member_of cols ns k \<Longrightarrow> ns \<in> fst ` set cols"
  by (cases "map_of cols ns")
    (auto simp: member_of_def columns_of_def dest: map_of_SomeD intro: rev_image_eqI)

lemma index_registry_of:
  "(k, ns) \<in> set (nr_index (registry_of st)) \<longleftrightarrow> member_of (namespace_to_columns st) ns k"
  using member_of_key [of "namespace_to_columns st" ns k]
  by (auto simp: registry_of_def make_registry_def member_of_def)

lemma for_column_registry_of:
  assumes "registry_ok st"
  shows "for_column (registry_of st) k = column_owner st k"
proof -
  have ok: "column_owner st k = Some ns \<longleftrightarrow> member_of (namespace_to_columns st) ns k" for ns
    using assms unfolding registry_ok_def by blast
  then have "u = w" if "(k, u) \<in> set (nr_index (registry_of st))" "(k, w) \<in> set (nr_index (registry_of st))" for u w
    using that unfolding index_registry_of by (metis option.inject)
  then have "for_column (registry_of st) k = Some ns \<longleftrightarrow> column_owner st k = Some ns" for ns
    using map_of_functional [of k "nr_index (registry_of st)" ns]
    by (simp add: for_column_def index_registry_of ok)
  then show ?thesis
    by (metis not_Some_eq)
qed

lemma members_registry_of:
  "k \<in> set (members (registry_of st) ns) \<longleftrightarrow> member_of (namespace_to_columns st) ns k"
proof -
  let ?b = "\<lambda>n. \<lparr>nb_namespace = n, declared_by = columns_of (namespace_to_columns st) n\<rparr>"
  have "find (\<lambda>b. nb_namespace b = ns) (map ?b xs) = (if ns \<in> set xs then Some (?b ns) else None)" for xs
    by (induction xs) auto
  then show ?thesis
    using member_of_key [of "namespace_to_columns st" ns k]
    by (auto simp: members_def registry_of_def make_registry_def member_of_def)
qed

section \<open>What the built registry promises\<close>

lemma build_passes:
  assumes "build_namespace_registry config rels = Inr reg"
  obtains st1 st2 gs st3 st4 where "extends ns_init st1" "fold_result bind_relationship st1 rels = Inr st2"
    and "fold_result group_table \<lparr>cg_columns = [], cg_groups = []\<rparr> (tables_block config) = Inr gs"
    and "fold_result bind_group st2 (cg_groups gs) = Inr st3"
    and "fold_result (require_table (cg_columns gs)) st3 (tables_block config) = Inr st4"
    and "extends st1 st2" "extends st2 st3" "extends st3 st4" "reg = registry_of st4"
proof -
  obtain st1 st2 gs st3 st4 where st: "pass_namespaces config ns_init = Inr st1"
      "fold_result bind_relationship st1 rels = Inr st2"
      "fold_result group_table \<lparr>cg_columns = [], cg_groups = []\<rparr> (tables_block config) = Inr gs"
      "fold_result bind_group st2 (cg_groups gs) = Inr st3"
      "fold_result (require_table (cg_columns gs)) st3 (tables_block config) = Inr st4" "reg = registry_of st4"
    using assms by (auto simp: build_namespace_registry_def result_simps)
  have e1: "extends ns_init st1"
    using pass_namespaces_extends [OF registry_ok_init st(1)] .
  then have e2: "extends st1 st2"
    using extends_fold [OF bind_relationship_extends(1) extends_ok [OF e1] st(2)] by simp
  then have e3: "extends st2 st3"
    using extends_fold [OF bind_group_extends(1) extends_ok [OF e2] st(4)] by simp
  then have "extends st3 st4"
    using extends_fold [OF require_table_extends extends_ok [OF e3] st(5)] by simp
  then show thesis
    using that e1 e2 e3 st by blast
qed

lemma build_reads_owner:
  assumes "build_namespace_registry config rels = Inr reg"
  shows "(k \<in> set (members reg ns)) = (for_column reg k = Some ns)"
proof -
  obtain st where st: "registry_ok st" "reg = registry_of st"
    using build_passes [OF assms] extends_ok by metis
  then have "column_owner st k = Some ns \<longleftrightarrow> member_of (namespace_to_columns st) ns k"
    unfolding registry_ok_def by blast
  then show ?thesis
    using for_column_registry_of [OF st(1)] st(2) by (simp add: members_registry_of)
qed

lemma build_binds_relationship:
  assumes "build_namespace_registry config rels = Inr reg" and "r \<in> set rels" and "rel_namespace r = Some ns"
  shows "for_column reg (parent_node r) = Some ns \<and> for_column reg (child_node r) = Some ns"
proof -
  obtain st1 st2 st3 st4 where st: "extends ns_init st1" "fold_result bind_relationship st1 rels = Inr st2"
    "extends st2 st3" "extends st3 st4" "reg = registry_of st4"
    using build_passes [OF assms(1)] by metis
  have "column_owner st2 (parent_node r) = Some ns \<and> column_owner st2 (child_node r) = Some ns"
  proof (rule fold_result_establishes [where P = registry_ok, OF assms(2) _ _ extends_ok [OF st(1)] st(2)])
    show "column_owner s' (parent_node r) = Some ns \<and> column_owner s' (child_node r) = Some ns"
      if "registry_ok s" "bind_relationship s r = Inr s'" for s s'
      using bind_relationship_extends(2) [OF that assms(3)] .
    show "registry_ok s' \<and> (column_owner s (parent_node r) = Some ns \<and> column_owner s (child_node r) = Some ns \<longrightarrow>
        column_owner s' (parent_node r) = Some ns \<and> column_owner s' (child_node r) = Some ns)"
      if "registry_ok s" "bind_relationship s y = Inr s'" for s y s'
      using bind_relationship_extends(1) [OF that] extends_ok extends_lookup by blast
  qed
  then show ?thesis
    using extends_lookup [OF extends_trans [OF st(3,4)]] extends_ok [OF st(4)] st(5)
    by (simp add: for_column_registry_of)
qed

text \<open>Every column of a \<open>coherent_with\<close> declaration lies in a group that pass 2.5 binds.\<close>

definition groups_cover :: "group_state \<Rightarrow> bool" where
  "groups_cover gs \<longleftrightarrow> (\<forall>tn cn. (tn, cn) \<in> set (cg_columns gs) \<longrightarrow>
     (\<exists>grp. (tn, grp) \<in> fst ` set (cg_groups gs) \<and> cn \<in> set grp))"

lemma merge_group_keys:
  assumes "merge_group groups key ns = Inr groups'"
  shows "fst ` set groups' = insert key (fst ` set groups)"
proof -
  have "map_of groups key \<noteq> None \<longrightarrow> fst ` set groups = insert key (fst ` set groups)"
    by (simp add: map_of_eq_None_iff insert_absorb)
  moreover have "groups' = groups \<and> map_of groups key \<noteq> None \<or> (\<exists>v. groups' = AList.update key v groups)"
    using assms by (auto simp: merge_group_def split: option.splits if_splits)
  ultimately show ?thesis
    using dom_update [of key _ groups] by (metis insert_is_Un)
qed

lemma group_column_cover:
  assumes "groups_cover gs" and "group_column t gs c = Inr gs'"
  shows "groups_cover gs'"
proof -
  obtain vs where vs: "cfg_iter (cfg_or_empty (cfg_get c ''coherent_with'' CNull)) = Some vs"
    using assms(2) by (auto simp: group_column_def result_simps)
  consider "gs' = gs" | tn cn ns groups where
      "gs' = \<lparr>cg_columns = cg_columns gs @ (tn, cn) # map (Pair tn) (str_items vs), cg_groups = groups\<rparr>"
      "merge_group (cg_groups gs) (tn, sort (remdups (cn # str_items vs))) ns = Inr groups"
    using assms(2) vs by (auto simp: group_column_def result_simps simp del: remdups.simps split: if_splits)
  then show ?thesis
  proof cases
    case 1
    then show ?thesis
      using assms(1) by simp
  next
    case 2
    have "x \<in> set (sort (remdups (cn # str_items vs))) \<longleftrightarrow> x = cn \<or> x \<in> set (str_items vs)" for x
      by auto
    then show ?thesis
      using assms(1) merge_group_keys [OF 2(2)] unfolding groups_cover_def 2(1)
      by (simp del: remdups.simps set_remdups set_sort) blast
  qed
qed

lemma group_tables_cover:
  assumes "fold_result group_table \<lparr>cg_columns = [], cg_groups = []\<rparr> ts = Inr gs"
  shows "groups_cover gs"
proof (rule fold_result_keeps [where P = groups_cover, OF _ _ assms])
  show "groups_cover \<lparr>cg_columns = [], cg_groups = []\<rparr>"
    by (simp add: groups_cover_def)
  show "groups_cover s'" if s: "groups_cover s" and t: "group_table s t = Inr s'" for s t s'
  proof -
    obtain cs where "fold_result (group_column t) s cs = Inr s'"
      using t by (auto simp: group_table_def result_simps)
    then show ?thesis
      using fold_result_keeps [where P = groups_cover and f = "group_column t"] group_column_cover s
      by blast
  qed
qed

lemma build_binds_deterministic:
  assumes "build_namespace_registry config rels = Inr reg" and "t \<in> set (tables_block config)"
    and "table_columns t = Inr cs" "c \<in> set cs" "cfg_truthy (cfg_get c ''deterministic'' (CBool False))"
    and "name_of t = Inr tn" "name_of c = Inr cn"
  shows "\<exists>grp. cn \<in> set grp \<and> for_column reg (tn, grp) \<noteq> None"
proof -
  obtain st2 gs st3 st4 where
    gs: "fold_result group_table \<lparr>cg_columns = [], cg_groups = []\<rparr> (tables_block config) = Inr gs"
    and st3: "fold_result bind_group st2 (cg_groups gs) = Inr st3" "registry_ok st2"
    and st4: "fold_result (require_table (cg_columns gs)) st3 (tables_block config) = Inr st4"
      "extends st2 st3" "extends st3 st4" "reg = registry_of st4"
    using build_passes [OF assms(1)] extends_ok by metis
  have ok: "registry_ok st3" "registry_ok st4"
    using st4 extends_ok by auto
  show ?thesis
  proof (cases "(tn, cn) \<in> set (cg_columns gs)")
    case True
    then obtain g where g: "g \<in> set (cg_groups gs)" "fst (fst g) = tn" "cn \<in> set (snd (fst g))"
      using group_tables_cover [OF gs] unfolding groups_cover_def by fastforce
    have "column_owner st3 (fst g) \<noteq> None"
      using fold_binds [OF bind_group_extends(1) g(1) bind_group_extends(2) st3(2,1)] by simp
    then have "column_owner st4 (fst g) \<noteq> None"
      using extends_lookup [OF st4(3)] by blast
    then have "for_column reg (tn, snd (fst g)) \<noteq> None"
      using ok(2) st4(4) by (simp add: for_column_registry_of flip: g(2))
    then show ?thesis
      using g(3) by blast
  next
    case False
    have binds: "column_owner st' (tn, [cn]) \<noteq> None"
      if "registry_ok st" "require_table (cg_columns gs) st t = Inr st'" for st st'
    proof -
      have f: "fold_result (require_column (cg_columns gs) t) st cs = Inr st'"
        using that(2) assms(3) by (simp add: require_table_def)
      show ?thesis
        by (rule fold_binds [OF require_column_extends(1) assms(4) require_column_extends(2) that(1) f])
          (use assms(5-7) False in simp_all)
    qed
    have "column_owner st4 (tn, [cn]) \<noteq> None"
      by (rule fold_binds [OF _ assms(2) binds ok(1) st4(1)]) (rule require_table_extends)
    then have "cn \<in> set [cn] \<and> for_column reg (tn, [cn]) \<noteq> None"
      using ok(2) st4(4) by (simp add: for_column_registry_of)
    then show ?thesis
      by blast
  qed
qed

section \<open>The interface of the registry\<close>

text \<open>The relationship graph resolves a namespace per relationship and relies on these laws of a
  registry built for its relationships.\<close>

locale namespace_provider =
  fixes built :: "'reg \<Rightarrow> relationship list \<Rightarrow> bool"
    and column_ns :: "'reg \<Rightarrow> node \<Rightarrow> string option"
    and resolve :: "'reg \<Rightarrow> relationship \<Rightarrow> 'e + string"
  assumes declared_binds: "\<lbrakk>built reg rels; r \<in> set rels; rel_namespace r = Some ns\<rbrakk> \<Longrightarrow>
      column_ns reg (parent_node r) = Some ns \<and> column_ns reg (child_node r) = Some ns"
    and resolve_declared: "rel_namespace r = Some ns \<Longrightarrow> resolve reg r = Inr ns"
    and resolve_parent: "\<lbrakk>rel_namespace r = None; column_ns reg (parent_node r) = Some ns\<rbrakk> \<Longrightarrow>
      resolve reg r = Inr ns"
    and resolve_bound: "resolve reg r = Inr ns \<Longrightarrow> rel_namespace r = Some ns \<or>
      column_ns reg (parent_node r) = Some ns \<or> column_ns reg (child_node r) = Some ns"
begin

text \<open>A relationship whose parent column is bound resolves to the parent's namespace.\<close>

lemma follows_parent:
  assumes "built reg rels" and "r \<in> set rels" and "column_ns reg (parent_node r) = Some ns"
  shows "resolve reg r = Inr ns"
proof (cases "rel_namespace r")
  case None
  then show ?thesis
    using resolve_parent assms(3) by blast
next
  case (Some ns')
  then show ?thesis
    using declared_binds [OF assms(1,2) Some] resolve_declared [OF Some] assms(3) by simp
qed

lemma resolved_is_bound:
  assumes "built reg rels" and "r \<in> set rels" and "resolve reg r = Inr ns"
  shows "column_ns reg (parent_node r) = Some ns \<or>
    column_ns reg (parent_node r) = None \<and> column_ns reg (child_node r) = Some ns"
  using follows_parent [OF assms(1,2)] resolve_bound [OF assms(3)] declared_binds [OF assms(1,2)] assms(3)
  by (cases "column_ns reg (parent_node r)") auto

end

definition built_registry :: "namespace_registry \<Rightarrow> relationship list \<Rightarrow> bool" where
  "built_registry reg rels \<longleftrightarrow> (\<exists>config. build_namespace_registry config rels = Inr reg)"

interpretation nsreg: namespace_provider built_registry for_column for_relationship
proof unfold_locales
  show "for_column reg (parent_node r) = Some ns \<and> for_column reg (child_node r) = Some ns"
    if "built_registry reg rels" "r \<in> set rels" "rel_namespace r = Some ns" for reg rels r ns
    using that build_binds_relationship by (auto simp: built_registry_def)
qed (auto simp: for_relationship_def split: option.splits)

section \<open>Properties\<close>

text \<open>A small configuration: one declared namespace, a composite group and a foreign key.\<close>

definition demo_config :: config where
  "demo_config = [(''namespaces'', CDict [(''person'', CDict [(''declared_by'', CList [CStr ''users.id''])])]),
     (''tables'', CList [CDict [(''name'', CStr ''users''), (''columns'', CList
       [CDict [(''name'', CStr ''id''), (''deterministic'', CBool True)],
        CDict [(''name'', CStr ''zip''), (''coherent_with'', CList [CStr ''city'']),
               (''deterministic'', CBool True)]])]])]"

definition demo_fk :: relationship where
  "demo_fk = \<lparr>parent_table = ''users'', parent_columns = [''id''], child_table = ''orders'',
     child_columns = [''user_id''], rel_namespace = Some ''person''\<rparr>"

lemma demo_registry_built:
  "build_namespace_registry demo_config [demo_fk] = Inr \<lparr>bindings =
     [\<lparr>nb_namespace = ''composite/users/city__zip'', declared_by = [(''users'', [''city'', ''zip''])]\<rparr>,
      \<lparr>nb_namespace = ''person'', declared_by = [(''users'', [''id'']), (''orders'', [''user_id''])]\<rparr>],
     nr_index = [((''orders'', [''user_id'']), ''person''), ((''users'', [''id'']), ''person''),
       ((''users'', [''city'', ''zip'']), ''composite/users/city__zip'')]\<rparr>"
  by code_simp

text \<open>In a built registry a column is a member of a namespace exactly when the lookup returns that
  namespace, so a column belongs to at most one namespace and the index agrees with the bindings.\<close>

theorem registry_members_iff_lookup:
  assumes "build_namespace_registry config rels = Inr reg"
  shows "k \<in> set (members reg ns) \<longleftrightarrow> for_column reg k = Some ns"
  using assms by (rule build_reads_owner)

theorem registry_members_iff_lookup_witness:
  "\<exists>reg. build_namespace_registry demo_config [demo_fk] = Inr reg \<and>
     ((''orders'', [''user_id'']) \<in> set (members reg ''person'') \<longleftrightarrow>
      for_column reg (''orders'', [''user_id'']) = Some ''person'')"
  using registry_members_iff_lookup [OF demo_registry_built] demo_registry_built by blast

text \<open>C15. Same foreign key, same mask: when a relationship of the profile declares a namespace, the
  built registry binds both its parent and its child column to that namespace.\<close>

theorem same_fk_same_mask:
  assumes "build_namespace_registry config rels = Inr reg" and "r \<in> set rels"
    and "rel_namespace r = Some ns"
  shows "for_column reg (parent_node r) = Some ns \<and> for_column reg (child_node r) = Some ns \<and>
    for_relationship reg r = Inr ns"
  using build_binds_relationship [OF assms] nsreg.resolve_declared [OF assms(3)] by simp

theorem same_fk_same_mask_witness:
  "\<exists>reg. build_namespace_registry demo_config [demo_fk] = Inr reg \<and>
     for_column reg (''orders'', [''user_id'']) = Some ''person''"
  using same_fk_same_mask [OF demo_registry_built, of demo_fk "''person''"] demo_registry_built
  by (auto simp: demo_fk_def child_node_def)

text \<open>A registry is built only when every deterministic column has a namespace: the column alone
  or the whole \<open>coherent_with\<close> group it belongs to is bound.\<close>

theorem deterministic_columns_bound:
  assumes "build_namespace_registry config rels = Inr reg" and "t \<in> set (tables_block config)"
    and "table_columns t = Inr cs" and "c \<in> set cs"
    and "cfg_truthy (cfg_get c ''deterministic'' (CBool False))"
    and "name_of t = Inr tn" and "name_of c = Inr cn"
  shows "\<exists>grp. cn \<in> set grp \<and> for_column reg (tn, grp) \<noteq> None"
  using assms by (rule build_binds_deterministic)

theorem deterministic_columns_bound_witness:
  "\<exists>reg grp. build_namespace_registry demo_config [demo_fk] = Inr reg \<and> ''zip'' \<in> set grp \<and>
     for_column reg (''users'', grp) \<noteq> None"
proof -
  define c where "c = [(''name'', CStr ''zip''), (''coherent_with'', CList [CStr ''city'']),
    (''deterministic'', CBool True)]"
  define t where "t = [(''name'', CStr ''users''), (''columns'', CList
    [CDict [(''name'', CStr ''id''), (''deterministic'', CBool True)], CDict c])]"
  have "t \<in> set (tables_block demo_config)"
    by (simp add: tables_block_def demo_config_def cfg_get_def t_def c_def)
  moreover have "table_columns t = Inr [[(''name'', CStr ''id''), (''deterministic'', CBool True)], c]"
    by (simp add: table_columns_def t_def cfg_get_def cfg_or_empty_def)
  moreover have "name_of t = Inr ''users''" "name_of c = Inr ''zip''"
    "cfg_truthy (cfg_get c ''deterministic'' (CBool False))"
    by (simp_all add: name_of_def t_def c_def cfg_get_def)
  ultimately show ?thesis
    using deterministic_columns_bound [OF demo_registry_built, of t _ c] demo_registry_built by auto
qed

end
