(* ===== verification/Relationship_Graph.thy ===== *)
theory Relationship_Graph
  imports Kahn Namespace_Registry "HOL-Library.Product_Lexorder"
begin

text \<open>
  The relationship graph of the planner, \<open>relationships/_graph.py\<close>: the orphan-policy check of the
  configuration (\<open>check_orphan_fk_policy_completeness\<close>) and \<open>build_relationship_graph\<close>, which
  rejects conflicting policies, resolves every relationship to an edge, removes duplicates, sorts,
  and orders the nodes with the sort of theory Kahn. Error messages are left out; an error carries
  its code and the place it names.

  The lemmas show when a graph is built at all, that its ordering is the least topological order,
  which nodes a cycle error lists, and what the policy lookup contains.
\<close>

section \<open>Model\<close>

datatype orphan_policy = PRESERVE | REMAP | WARN | FAIL

definition policy_value :: "orphan_policy \<Rightarrow> string" where
  "policy_value p = (case p of PRESERVE \<Rightarrow> ''preserve'' | REMAP \<Rightarrow> ''remap'' | WARN \<Rightarrow> ''warn'' | FAIL \<Rightarrow> ''fail'')"

definition policy_of :: "cfg \<Rightarrow> orphan_policy option" where
  "policy_of v = (if v = CStr ''preserve'' then Some PRESERVE else if v = CStr ''remap'' then Some REMAP
     else if v = CStr ''warn'' then Some WARN else if v = CStr ''fail'' then Some FAIL else None)"

type_synonym rel_key = "node \<times> node"
type_synonym policy_lookup = "rel_key \<Rightarrow> orphan_policy option"

datatype policy_site = AtEntry nat | AtRelationship node node

datatype plan_error =
    ORPHAN_POLICY_CONFLICT node | ORPHAN_FK_POLICY_MISSING policy_site | ORPHAN_FK_POLICY_INVALID nat
  | ORPHAN_FK_POLICY_DUPLICATE nat | FK_CYCLE "node list" | NamespaceConfig namespace_error

record relationship_edge =
  e_parent_table :: string
  e_parent_columns :: "string list"
  e_child_table :: string
  e_child_columns :: "string list"
  e_namespace :: string
  e_orphan_policy :: orphan_policy

record relationship_graph =
  g_edges :: "relationship_edge list"
  g_ordering :: "node list"

definition e_parent :: "relationship_edge \<Rightarrow> node" where
  "e_parent e = (e_parent_table e, e_parent_columns e)"

definition e_child :: "relationship_edge \<Rightarrow> node" where
  "e_child e = (e_child_table e, e_child_columns e)"

definition parents_of :: "relationship_graph \<Rightarrow> string \<Rightarrow> string list \<Rightarrow> relationship_edge list" where
  "parents_of g t cs = filter (\<lambda>e. e_child_table e = t \<and> e_child_columns e = cs) (g_edges g)"

definition children_of :: "relationship_graph \<Rightarrow> string \<Rightarrow> string list \<Rightarrow> relationship_edge list" where
  "children_of g t cs = filter (\<lambda>e. e_parent_table e = t \<and> e_parent_columns e = cs) (g_edges g)"

definition rel_key :: "relationship \<Rightarrow> rel_key" where
  "rel_key r = (parent_node r, child_node r)"

text \<open>The policy conflict check: the children in dictionary order, for each the set of policies its
  relationships have in the lookup.\<close>

definition child_policies :: "policy_lookup \<Rightarrow> relationship list \<Rightarrow> node \<Rightarrow> orphan_policy list" where
  "child_policies lk rels k =
     remdups (List.map_filter (\<lambda>r. lk (rel_key r)) (filter (\<lambda>r. child_node r = k) rels))"

definition policy_conflict :: "policy_lookup \<Rightarrow> relationship list \<Rightarrow> node option" where
  "policy_conflict lk rels =
     find (\<lambda>k. 1 < length (child_policies lk rels k)) (dict_keys (map child_node rels))"

definition resolve_edge ::
    "namespace_registry \<Rightarrow> policy_lookup \<Rightarrow> relationship \<Rightarrow> plan_error + relationship_edge" where
  "resolve_edge reg lk r =
     and_then (on_error NamespaceConfig (for_relationship reg r)) (\<lambda>ns.
     case lk (rel_key r) of
       None \<Rightarrow> Inl (ORPHAN_FK_POLICY_MISSING (AtRelationship (parent_node r) (child_node r)))
     | Some p \<Rightarrow> Inr \<lparr>e_parent_table = parent_table r, e_parent_columns = parent_columns r,
         e_child_table = child_table r, e_child_columns = child_columns r,
         e_namespace = ns, e_orphan_policy = p\<rparr>)"

definition edge_key :: "relationship_edge \<Rightarrow> string \<times> string list \<times> string \<times> string list" where
  "edge_key e = (e_parent_table e, e_parent_columns e, e_child_table e, e_child_columns e)"

definition edges_sorted :: "relationship_edge list \<Rightarrow> relationship_edge list" where
  "edges_sorted es = sort_key edge_key (dict_keys es)"

definition graph_nodes :: "relationship_edge list \<Rightarrow> node list" where
  "graph_nodes es = dict_keys (concat (map (\<lambda>e. [e_parent e, e_child e]) es))"

definition graph_pairs :: "relationship_edge list \<Rightarrow> (node \<times> node) list" where
  "graph_pairs es = map (\<lambda>e. (e_parent e, e_child e)) es"

definition build_relationship_graph ::
    "relationship list \<Rightarrow> namespace_registry \<Rightarrow> policy_lookup \<Rightarrow> plan_error + relationship_graph" where
  "build_relationship_graph rels reg lk =
     (case policy_conflict lk rels of
        Some k \<Rightarrow> Inl (ORPHAN_POLICY_CONFLICT k)
      | None \<Rightarrow>
          and_then (map_result (resolve_edge reg lk) rels) (\<lambda>edges.
          let es = edges_sorted edges in
          case topo_order (graph_nodes es) (graph_pairs es) of
            Inl bad \<Rightarrow> Inl (FK_CYCLE bad)
          | Inr ord \<Rightarrow> Inr \<lparr>g_edges = es, g_ordering = ord\<rparr>))"

text \<open>The orphan-policy check of the configuration.\<close>

fun str_list :: "cfg list \<Rightarrow> string list option" where
  "str_list [] = Some []"
| "str_list (v # vs) = (case v of CStr s \<Rightarrow> map_option ((#) s) (str_list vs) | _ \<Rightarrow> None)"

definition relationship_end :: "cfg \<Rightarrow> node option" where
  "relationship_end v =
     (case v of
        CDict d \<Rightarrow>
          (case (cfg_get d ''table'' CNull, cfg_get d ''columns'' CNull) of
             (CStr t, CList vs) \<Rightarrow> map_option (Pair t) (str_list vs)
           | _ \<Rightarrow> None)
      | _ \<Rightarrow> None)"

definition check_child ::
    "nat \<Rightarrow> node \<Rightarrow> orphan_policy \<Rightarrow> policy_lookup \<Rightarrow> cfg \<Rightarrow> plan_error + policy_lookup" where
  "check_child idx p pol lk v =
     (case relationship_end v of
        None \<Rightarrow> Inr lk
      | Some c \<Rightarrow>
          if lk (p, c) \<noteq> None \<and> lk (p, c) \<noteq> Some pol then Inl (ORPHAN_FK_POLICY_DUPLICATE idx)
          else Inr (lk((p, c) \<mapsto> pol)))"

definition check_entry :: "policy_lookup \<Rightarrow> nat \<times> cfg \<Rightarrow> plan_error + policy_lookup" where
  "check_entry lk ie =
     (case snd ie of
        CDict d \<Rightarrow>
          (case relationship_end (cfg_get d ''parent'' CNull) of
             None \<Rightarrow> Inr lk
           | Some p \<Rightarrow>
               let policy = cfg_get d ''orphan_policy'' CNull in
               if policy = CNull then Inl (ORPHAN_FK_POLICY_MISSING (AtEntry (fst ie)))
               else (case policy_of policy of
                  None \<Rightarrow> Inl (ORPHAN_FK_POLICY_INVALID (fst ie))
                | Some pol \<Rightarrow>
                    (case cfg_get d ''children'' (CList []) of
                       CList cs \<Rightarrow> fold_result (check_child (fst ie) p pol) lk cs
                     | _ \<Rightarrow> Inr lk)))
      | _ \<Rightarrow> Inr lk)"

definition config_entries :: "config \<Rightarrow> cfg list" where
  "config_entries config = (case cfg_get config ''relationships'' (CList []) of CList vs \<Rightarrow> vs | _ \<Rightarrow> [])"

definition collect_policy ::
    "policy_lookup \<Rightarrow> policy_lookup \<Rightarrow> relationship \<Rightarrow> plan_error + policy_lookup" where
  "collect_policy conf lk r =
     (case conf (rel_key r) of
        None \<Rightarrow> Inl (ORPHAN_FK_POLICY_MISSING (AtRelationship (parent_node r) (child_node r)))
      | Some p \<Rightarrow> Inr (lk(rel_key r \<mapsto> p)))"

definition check_orphan_fk_policy_completeness ::
    "config \<Rightarrow> relationship list \<Rightarrow> plan_error + policy_lookup" where
  "check_orphan_fk_policy_completeness config rels =
     and_then (fold_result check_entry Map.empty (enumerate 0 (config_entries config))) (\<lambda>conf.
     fold_result (collect_policy conf) Map.empty rels)"

section \<open>Edges and nodes of the graph\<close>

lemma resolve_edge_Inr:
  assumes "resolve_edge reg lk r = Inr e"
  shows "e_parent e = parent_node r" and "e_child e = child_node r"
    and "lk (rel_key r) = Some (e_orphan_policy e)" and "for_relationship reg r = Inr (e_namespace e)"
  using assms
  by (auto simp: resolve_edge_def result_simps e_parent_def e_child_def parent_node_def child_node_def
      split: option.splits)

lemma resolve_edge_total:
  "(\<exists>e. resolve_edge reg lk r = Inr e) \<longleftrightarrow>
     (\<exists>ns. for_relationship reg r = Inr ns) \<and> lk (rel_key r) \<noteq> None"
  by (auto simp: resolve_edge_def result_simps split: option.splits)

lemma set_edges_sorted [simp]: "set (edges_sorted es) = set es"
  by (simp add: edges_sorted_def)

lemma set_graph_pairs: "set (graph_pairs es) = (\<lambda>e. (e_parent e, e_child e)) ` set es"
  by (simp add: graph_pairs_def)

lemma graph_pairs_in_nodes: "set (graph_pairs es) \<subseteq> set (graph_nodes es) \<times> set (graph_nodes es)"
  by (auto simp: set_graph_pairs graph_nodes_def)

lemma distinct_graph_nodes [simp]: "distinct (graph_nodes es)"
  by (simp add: graph_nodes_def)

definition fk_relation :: "relationship list \<Rightarrow> (node \<times> node) set" where
  "fk_relation rels = (\<lambda>r. (parent_node r, child_node r)) ` set rels"

lemma edge_relation:
  assumes "map_result (resolve_edge reg lk) rels = Inr edges"
  shows "set (graph_pairs (edges_sorted edges)) = fk_relation rels"
    and "set (graph_nodes (edges_sorted edges)) = Field (fk_relation rels)"
proof -
  have img: "Inr ` set edges = resolve_edge reg lk ` set rels"
    using map_result_set [OF assms] .
  show rel: "set (graph_pairs (edges_sorted edges)) = fk_relation rels"
  proof (rule set_eqI)
    fix x
    have "x \<in> fk_relation rels \<longleftrightarrow> (\<exists>e \<in> set edges. x = (e_parent e, e_child e))"
      using img resolve_edge_Inr(1,2) unfolding fk_relation_def image_iff set_eq_iff
      by (smt (verit, best) sum.inject(2))
    then show "x \<in> set (graph_pairs (edges_sorted edges)) \<longleftrightarrow> x \<in> fk_relation rels"
      by (auto simp: set_graph_pairs)
  qed
  have "set (graph_nodes es) = Field (set (graph_pairs es))" for es
    by (auto simp: graph_nodes_def set_graph_pairs Field_def)
  then show "set (graph_nodes (edges_sorted edges)) = Field (fk_relation rels)"
    using rel by simp
qed

lemma build_Inr_iff:
  "build_relationship_graph rels reg lk = Inr g \<longleftrightarrow> policy_conflict lk rels = None \<and>
     (\<exists>edges. map_result (resolve_edge reg lk) rels = Inr edges \<and> g_edges g = edges_sorted edges \<and>
        topo_order (graph_nodes (edges_sorted edges)) (graph_pairs (edges_sorted edges)) = Inr (g_ordering g))"
proof (cases "map_result (resolve_edge reg lk) rels")
  case (Inr edges)
  then show ?thesis
    by (cases g; cases "topo_order (graph_nodes (edges_sorted edges)) (graph_pairs (edges_sorted edges))")
      (auto simp: build_relationship_graph_def Let_def split: option.splits)
qed (simp add: build_relationship_graph_def split: option.splits)

lemma build_cycle_iff:
  "build_relationship_graph rels reg lk = Inl (FK_CYCLE bad) \<longleftrightarrow> policy_conflict lk rels = None \<and>
     (\<exists>edges. map_result (resolve_edge reg lk) rels = Inr edges \<and>
        topo_order (graph_nodes (edges_sorted edges)) (graph_pairs (edges_sorted edges)) = Inl bad)"
proof -
  have "map_result (resolve_edge reg lk) rels \<noteq> Inl (FK_CYCLE bad)"
    using map_result_eq_Inl [of "resolve_edge reg lk" rels "FK_CYCLE bad"]
    by (auto simp: resolve_edge_def result_simps split: option.splits)
  then show ?thesis
  proof (cases "map_result (resolve_edge reg lk) rels")
    case (Inr edges)
    then show ?thesis
      by (cases "topo_order (graph_nodes (edges_sorted edges)) (graph_pairs (edges_sorted edges))")
        (auto simp: build_relationship_graph_def Let_def split: option.splits)
  qed (simp add: build_relationship_graph_def split: option.splits)
qed

text \<open>The policies of one child agree when the conflict check passes.\<close>

lemma policy_conflict_None:
  "policy_conflict lk rels = None \<longleftrightarrow>
     (\<forall>r \<in> set rels. \<forall>r' \<in> set rels. child_node r = child_node r' \<longrightarrow> lk (rel_key r) \<noteq> None \<longrightarrow>
        lk (rel_key r') \<noteq> None \<longrightarrow> lk (rel_key r) = lk (rel_key r'))"
proof -
  have set: "p \<in> set (child_policies lk rels k) \<longleftrightarrow>
      (\<exists>r \<in> set rels. child_node r = k \<and> lk (rel_key r) = Some p)" for p k
    by (auto simp: child_policies_def map_filter_def) force
  have len: "\<not> 1 < length (child_policies lk rels k) \<longleftrightarrow>
      (\<forall>p \<in> set (child_policies lk rels k). \<forall>q \<in> set (child_policies lk rels k). p = q)" for k
    by (rule distinct_length_le_1) (simp add: child_policies_def)
  have "policy_conflict lk rels = None \<longleftrightarrow>
      (\<forall>r \<in> set rels. \<not> 1 < length (child_policies lk rels (child_node r)))"
    by (simp add: policy_conflict_def find_None_iff)
  also have "\<dots> \<longleftrightarrow> (\<forall>r \<in> set rels. \<forall>r' \<in> set rels. \<forall>p q. child_node r = child_node r' \<longrightarrow>
      lk (rel_key r) = Some p \<longrightarrow> lk (rel_key r') = Some q \<longrightarrow> p = q)"
    unfolding len Ball_def set by metis
  finally show ?thesis
    by fastforce
qed

text \<open>Every edge of a built graph comes from a relationship, and edges into one child share a policy.\<close>

lemma graph_edge_source:
  assumes "build_relationship_graph rels reg lk = Inr g" and "e \<in> set (g_edges g)"
  obtains r where "r \<in> set rels" and "resolve_edge reg lk r = Inr e"
proof -
  obtain edges where edges: "map_result (resolve_edge reg lk) rels = Inr edges" "g_edges g = edges_sorted edges"
    using assms(1) by (auto simp: build_Inr_iff)
  then have "Inr e \<in> resolve_edge reg lk ` set rels"
    using assms(2) unfolding map_result_set [OF edges(1), symmetric] by simp
  then show thesis
    using that by auto
qed

lemma graph_child_policies_agree:
  assumes "build_relationship_graph rels reg lk = Inr g" and "e \<in> set (g_edges g)" "e' \<in> set (g_edges g)"
    and "e_child e = e_child e'"
  shows "e_orphan_policy e = e_orphan_policy e'"
proof -
  obtain r r' where r: "r \<in> set rels" "resolve_edge reg lk r = Inr e" "r' \<in> set rels" "resolve_edge reg lk r' = Inr e'"
    using graph_edge_source [OF assms(1)] assms(2,3) by metis
  have "policy_conflict lk rels = None"
    using assms(1) by (simp add: build_Inr_iff)
  then have "lk (rel_key r) = lk (rel_key r')"
    using r resolve_edge_Inr(2,3) [OF r(2)] resolve_edge_Inr(2,3) [OF r(4)] assms(4)
    unfolding policy_conflict_None by (metis option.distinct(1))
  then show ?thesis
    using resolve_edge_Inr(3) [OF r(2)] resolve_edge_Inr(3) [OF r(4)] by simp
qed

lemma build_missing_policy:
  assumes "build_relationship_graph rels reg lk = Inl (ORPHAN_FK_POLICY_MISSING s)"
  shows "\<exists>r \<in> set rels. lk (rel_key r) = None"
proof -
  have "map_result (resolve_edge reg lk) rels = Inl (ORPHAN_FK_POLICY_MISSING s)"
  proof (cases "map_result (resolve_edge reg lk) rels")
    case (Inr edges)
    then show ?thesis
      using assms
      by (cases "topo_order (graph_nodes (edges_sorted edges)) (graph_pairs (edges_sorted edges))")
        (auto simp: build_relationship_graph_def Let_def split: option.splits)
  qed (use assms in \<open>simp add: build_relationship_graph_def split: option.splits\<close>)
  then obtain r where r: "r \<in> set rels" "resolve_edge reg lk r = Inl (ORPHAN_FK_POLICY_MISSING s)"
    by (auto dest: map_result_eq_Inl)
  have "lk (rel_key r) = None"
    using r(2) by (cases "lk (rel_key r)") (auto simp: resolve_edge_def result_simps)
  then show ?thesis
    using r(1) by blast
qed

section \<open>The policy lookup\<close>

text \<open>\<open>declares e k p\<close>: the configuration entry \<open>e\<close> gives the pair \<open>k\<close> of ends the policy \<open>p\<close>.\<close>

fun declares :: "cfg \<Rightarrow> rel_key \<Rightarrow> orphan_policy \<Rightarrow> bool" where
  "declares (CDict d) (p, c) pol \<longleftrightarrow> relationship_end (cfg_get d ''parent'' CNull) = Some p \<and>
     cfg_get d ''orphan_policy'' CNull = CStr (policy_value pol) \<and>
     (\<exists>cs. cfg_get d ''children'' (CList []) = CList cs \<and> (\<exists>v \<in> set cs. relationship_end v = Some c))"
| "declares _ _ _ \<longleftrightarrow> False"

lemma policy_of_iff: "policy_of v = Some p \<longleftrightarrow> v = CStr (policy_value p)"
  by (cases p) (auto simp: policy_of_def policy_value_def)

lemma check_children_lookup:
  "fold_result (check_child idx p pol) lk cs = Inr lk' \<Longrightarrow>
     lk' k = Some q \<longleftrightarrow> lk k = Some q \<or> q = pol \<and> fst k = p \<and> (\<exists>v \<in> set cs. relationship_end v = Some (snd k))"
proof (induction cs arbitrary: lk)
  case Nil
  then show ?case by simp
next
  case (Cons v cs)
  then obtain lk1 where lk1: "check_child idx p pol lk v = Inr lk1" "fold_result (check_child idx p pol) lk1 cs = Inr lk'"
    by (auto simp: result_simps)
  have "lk1 k = Some q \<longleftrightarrow> lk k = Some q \<or> q = pol \<and> fst k = p \<and> relationship_end v = Some (snd k)"
    using lk1(1) by (cases k) (auto simp: check_child_def split: option.splits if_splits)
  then show ?case
    using Cons.IH [OF lk1(2)] by auto
qed

lemma check_entry_lookup:
  assumes "check_entry lk ie = Inr lk'"
  shows "lk' k = Some q \<longleftrightarrow> lk k = Some q \<or> declares (snd ie) k q"
proof (cases "\<exists>d. snd ie = CDict d \<and> relationship_end (cfg_get d ''parent'' CNull) \<noteq> None")
  case True
  then obtain d p where d: "snd ie = CDict d" "relationship_end (cfg_get d ''parent'' CNull) = Some p"
    by auto
  then obtain pol where pol: "policy_of (cfg_get d ''orphan_policy'' CNull) = Some pol"
    using assms by (auto simp: check_entry_def Let_def split: option.splits if_splits)
  then have same: "cfg_get d ''orphan_policy'' CNull = CStr (policy_value q) \<longleftrightarrow> q = pol" for q
    unfolding policy_of_iff [symmetric] by auto
  have nn: "cfg_get d ''orphan_policy'' CNull \<noteq> CNull"
    using pol by (auto simp: policy_of_def)
  show ?thesis
  proof (cases "\<exists>cs. cfg_get d ''children'' (CList []) = CList cs")
    case True
    then obtain cs where cs: "cfg_get d ''children'' (CList []) = CList cs"
      by blast
    then have "fold_result (check_child (fst ie) p pol) lk cs = Inr lk'"
      using assms d pol nn by (simp add: check_entry_def Let_def)
    then show ?thesis
      using check_children_lookup cs d same by (cases k) auto
  next
    case False
    then have "lk' = lk"
      using assms d pol nn by (auto simp: check_entry_def Let_def split: cfg.splits)
    then show ?thesis
      using False d by (cases k) auto
  qed
next
  case False
  then have "lk' = lk"
    using assms by (auto simp: check_entry_def split: cfg.splits option.splits)
  moreover have "\<not> declares (snd ie) k q"
    using False by (cases "snd ie"; cases k) auto
  ultimately show ?thesis
    by simp
qed

lemma check_entries_lookup:
  "fold_result check_entry lk (enumerate n es) = Inr lk' \<Longrightarrow>
     lk' k = Some q \<longleftrightarrow> lk k = Some q \<or> (\<exists>e \<in> set es. declares e k q)"
proof (induction es arbitrary: lk n)
  case Nil
  then show ?case by simp
next
  case (Cons e es)
  then obtain lk1 where "check_entry lk (n, e) = Inr lk1" "fold_result check_entry lk1 (enumerate (Suc n) es) = Inr lk'"
    by (auto simp: result_simps)
  then show ?case
    using check_entry_lookup [of lk "(n, e)" lk1 k q] Cons.IH [of lk1 "Suc n"] by auto
qed

lemma collect_policies_lookup:
  "fold_result (collect_policy conf) lk rels = Inr lk' \<Longrightarrow>
     lk' k = (if k \<in> rel_key ` set rels then conf k else lk k) \<and> (\<forall>r \<in> set rels. conf (rel_key r) \<noteq> None)"
proof (induction rels arbitrary: lk)
  case Nil
  then show ?case by simp
next
  case (Cons r rels)
  then obtain lk1 where lk1: "collect_policy conf lk r = Inr lk1" "fold_result (collect_policy conf) lk1 rels = Inr lk'"
    by (auto simp: result_simps)
  then obtain p where "conf (rel_key r) = Some p" "lk1 = lk(rel_key r \<mapsto> p)"
    by (auto simp: collect_policy_def split: option.splits)
  then show ?case
    using Cons.IH [OF lk1(2)] by auto
qed

lemma check_lookup:
  assumes "check_orphan_fk_policy_completeness config rels = Inr lk"
  shows "lk k = Some p \<longleftrightarrow> k \<in> rel_key ` set rels \<and> (\<exists>e \<in> set (config_entries config). declares e k p)"
    and "r \<in> set rels \<Longrightarrow> lk (rel_key r) \<noteq> None"
proof -
  obtain conf where conf: "fold_result check_entry Map.empty (enumerate 0 (config_entries config)) = Inr conf"
      "fold_result (collect_policy conf) Map.empty rels = Inr lk"
    using assms by (auto simp: check_orphan_fk_policy_completeness_def result_simps)
  show "lk k = Some p \<longleftrightarrow> k \<in> rel_key ` set rels \<and> (\<exists>e \<in> set (config_entries config). declares e k p)"
    using check_entries_lookup [OF conf(1), of k p] collect_policies_lookup [OF conf(2), of k] by auto
  show "lk (rel_key r) \<noteq> None" if "r \<in> set rels"
    using collect_policies_lookup [OF conf(2), of "rel_key r"] that by auto
qed

section \<open>Properties\<close>

definition demo_lookup :: policy_lookup where
  "demo_lookup k = Some WARN"

definition demo_rel :: "string \<Rightarrow> string \<Rightarrow> relationship" where
  "demo_rel p c = \<lparr>parent_table = p, parent_columns = [''id''], child_table = c, child_columns = [''id''],
     rel_namespace = Some ''n''\<rparr>"

definition demo_registry :: namespace_registry where
  "demo_registry = make_registry [] []"

definition demo_rels :: "relationship list" where
  "demo_rels = [demo_rel ''b'' ''c'', demo_rel ''a'' ''c'', demo_rel ''b'' ''a'']"

lemma demo_graph:
  "build_relationship_graph demo_rels demo_registry demo_lookup = Inr \<lparr>g_edges =
     [\<lparr>e_parent_table = ''a'', e_parent_columns = [''id''], e_child_table = ''c'', e_child_columns = [''id''],
        e_namespace = ''n'', e_orphan_policy = WARN\<rparr>,
      \<lparr>e_parent_table = ''b'', e_parent_columns = [''id''], e_child_table = ''a'', e_child_columns = [''id''],
        e_namespace = ''n'', e_orphan_policy = WARN\<rparr>,
      \<lparr>e_parent_table = ''b'', e_parent_columns = [''id''], e_child_table = ''c'', e_child_columns = [''id''],
        e_namespace = ''n'', e_orphan_policy = WARN\<rparr>],
     g_ordering = [(''b'', [''id'']), (''a'', [''id'']), (''c'', [''id''])]\<rparr>"
  by code_simp

text \<open>C17. The ordering of a built graph lists every end of every relationship exactly once, every parent
  before its children, and is the lexicographically least such order.\<close>

theorem graph_ordering_least_topological:
  assumes "build_relationship_graph rels reg lk = Inr g"
  shows "distinct (g_ordering g) \<and> set (g_ordering g) = Field (fk_relation rels) \<and>
    topological (fk_relation rels) (g_ordering g) \<and>
    (\<forall>ys. distinct ys \<and> set ys = Field (fk_relation rels) \<and> topological (fk_relation rels) ys \<longrightarrow>
      g_ordering g \<le> ys)"
proof -
  obtain edges where e: "map_result (resolve_edge reg lk) rels = Inr edges"
      "topo_order (graph_nodes (edges_sorted edges)) (graph_pairs (edges_sorted edges)) = Inr (g_ordering g)"
    using assms by (auto simp: build_Inr_iff)
  show ?thesis
    using ksort.sorted_ok [OF distinct_graph_nodes graph_pairs_in_nodes e(2)]
    unfolding edge_relation [OF e(1)] .
qed

theorem graph_ordering_least_topological_witness:
  "\<exists>g. build_relationship_graph demo_rels demo_registry demo_lookup = Inr g \<and>
     set (g_ordering g) = Field (fk_relation demo_rels) \<and> topological (fk_relation demo_rels) (g_ordering g)"
  using graph_ordering_least_topological [OF demo_graph] demo_graph by blast

lemma graph_built_checks:
  "(\<exists>g. build_relationship_graph rels reg lk = Inr g) \<longleftrightarrow>
     policy_conflict lk rels = None \<and> acyclic (fk_relation rels) \<and>
     (\<forall>r \<in> set rels. (\<exists>ns. for_relationship reg r = Inr ns) \<and> lk (rel_key r) \<noteq> None)"
proof (cases "map_result (resolve_edge reg lk) rels")
  case (Inl e)
  then show ?thesis
    using map_result_total [of "resolve_edge reg lk" rels] resolve_edge_total [of reg lk]
    by (auto simp: build_relationship_graph_def split: option.splits)
next
  case (Inr edges)
  have all: "\<forall>r \<in> set rels. (\<exists>ns. for_relationship reg r = Inr ns) \<and> lk (rel_key r) \<noteq> None"
    using map_result_total [of "resolve_edge reg lk" rels] Inr resolve_edge_total [of reg lk] by blast
  let ?t = "topo_order (graph_nodes (edges_sorted edges)) (graph_pairs (edges_sorted edges))"
  have "(\<exists>bad. ?t = Inl bad) \<longleftrightarrow> \<not> acyclic (fk_relation rels)"
    using ksort.stuck_iff_cyclic [OF distinct_graph_nodes graph_pairs_in_nodes, of "edges_sorted edges"]
    unfolding edge_relation(1) [OF Inr] .
  then show ?thesis
    using all Inr by (cases ?t) (auto simp: build_relationship_graph_def Let_def split: option.splits)
qed

text \<open>C38. A graph is built exactly when every relationship resolves to a namespace and has a policy, two
  relationships with the same child end (table and columns) have the same policy, and the foreign keys have no
  cycle.\<close>

theorem graph_built_iff:
  "(\<exists>g. build_relationship_graph rels reg lk = Inr g) \<longleftrightarrow> acyclic (fk_relation rels) \<and>
     (\<forall>r \<in> set rels. (\<exists>ns. for_relationship reg r = Inr ns) \<and> lk (rel_key r) \<noteq> None) \<and>
     (\<forall>r \<in> set rels. \<forall>r' \<in> set rels. child_node r = child_node r' \<longrightarrow> lk (rel_key r) = lk (rel_key r'))"
proof (cases "\<forall>r \<in> set rels. lk (rel_key r) \<noteq> None")
  case True
  then have "policy_conflict lk rels = None \<longleftrightarrow>
      (\<forall>r \<in> set rels. \<forall>r' \<in> set rels. child_node r = child_node r' \<longrightarrow> lk (rel_key r) = lk (rel_key r'))"
    unfolding policy_conflict_None by simp
  then show ?thesis
    unfolding graph_built_checks by blast
next
  case False
  then show ?thesis
    unfolding graph_built_checks by blast
qed

theorem graph_built_iff_witness:
  "acyclic (fk_relation demo_rels)"
  using graph_built_iff [of demo_rels demo_registry demo_lookup] demo_graph by blast

text \<open>A cycle error lists exactly the ends that lie on a cycle or below one.\<close>

theorem fk_cycle_nodes:
  assumes "build_relationship_graph rels reg lk = Inl (FK_CYCLE bad)"
  shows "bad \<noteq> [] \<and>
    set bad = {n \<in> Field (fk_relation rels). \<exists>m. on_cycle (fk_relation rels) m \<and> (m, n) \<in> (fk_relation rels)\<^sup>*}"
proof -
  obtain edges where e: "map_result (resolve_edge reg lk) rels = Inr edges"
      "topo_order (graph_nodes (edges_sorted edges)) (graph_pairs (edges_sorted edges)) = Inl bad"
    using assms by (auto simp: build_cycle_iff)
  show ?thesis
    using ksort.stuck [OF distinct_graph_nodes graph_pairs_in_nodes e(2)]
    unfolding edge_relation [OF e(1)] .
qed

definition demo_cycle :: "relationship list" where
  "demo_cycle = [demo_rel ''a'' ''b'', demo_rel ''b'' ''a'', demo_rel ''b'' ''c'']"

lemma demo_cycle_stuck:
  "build_relationship_graph demo_cycle demo_registry demo_lookup =
     Inl (FK_CYCLE [(''a'', [''id'']), (''b'', [''id'']), (''c'', [''id''])])"
  by code_simp

theorem fk_cycle_nodes_witness:
  "\<exists>m. on_cycle (fk_relation demo_cycle) m \<and> (m, (''c'', [''id''])) \<in> (fk_relation demo_cycle)\<^sup>*"
  using fk_cycle_nodes [OF demo_cycle_stuck] by auto

text \<open>The policy lookup holds a policy for exactly the relationships of the profile, and it is the
  one policy the configuration entries declare for that pair of ends.\<close>

theorem policy_lookup_is_declared:
  assumes "check_orphan_fk_policy_completeness config rels = Inr lk"
  shows "dom lk = rel_key ` set rels \<and>
    (\<forall>k \<in> rel_key ` set rels. \<forall>p. lk k = Some p \<longleftrightarrow> (\<exists>e \<in> set (config_entries config). declares e k p))"
  using check_lookup [OF assms] by (auto simp: dom_def)

definition demo_policy_config :: config where
  "demo_policy_config = [(''relationships'', CList [CDict [(''parent'', CDict [(''table'', CStr ''a''),
     (''columns'', CList [CStr ''id''])]), (''orphan_policy'', CStr ''remap''), (''children'', CList [CDict
     [(''table'', CStr ''b''), (''columns'', CList [CStr ''id''])]])]])]"

theorem policy_lookup_is_declared_witness:
  "\<exists>lk. check_orphan_fk_policy_completeness demo_policy_config [demo_rel ''a'' ''b''] = Inr lk \<and>
     dom lk = {rel_key (demo_rel ''a'' ''b'')}"
proof -
  obtain lk where lk: "check_orphan_fk_policy_completeness demo_policy_config [demo_rel ''a'' ''b''] = Inr lk"
    by (simp add: check_orphan_fk_policy_completeness_def config_entries_def demo_policy_config_def cfg_get_def
        check_entry_def relationship_end_def Let_def policy_of_def check_child_def collect_policy_def
        demo_rel_def rel_key_def parent_node_def child_node_def)
  then show ?thesis
    using policy_lookup_is_declared [OF lk] by auto
qed

end
