(* ===== verification/Work_Order.thy ===== *)
theory Work_Order
  imports Relationship_Graph
begin

text \<open>
  The executor's work list and its order, \<open>execution/_runner.py\<close>: \<open>build_work_list\<close> turns the seed
  envelope of a plan into work nodes, \<open>column_dependency_edges\<close> finds the nodes that write the masked
  columns another node reads, and \<open>order_work\<close> sorts the nodes by foreign keys, composite bundles and
  those column dependencies with the sort of theory Kahn. The lossless-ingestion walkers
  (\<open>date_shift_group_columns\<close> and its siblings) are the last part.

  A provider registry is the backend type of each registered provider name. The columns an expression
  reads (\<open>_get_column_refs (compile_expr e)\<close>, the empty set when that raises) are the parameter
  \<open>refs\<close>. Of a column seed the model keeps the fields these functions read.
\<close>

section \<open>Model\<close>

record column_seed =
  cs_strategy :: string
  cs_provider :: "string option"
  cs_provider_config :: config
  cs_coherent_with :: "string list"

record group_seed =
  gs_namespace :: string
  gs_coherent_columns :: "string list"

record table_seed =
  ts_per_column :: "(string \<times> column_seed) list"
  ts_per_group :: "(string \<times> group_seed) list"

datatype plan_slice = ColumnSlice column_seed | GroupSlice group_seed

datatype node_kind = Scalar | Composite | CompositeFkGroup

record work_node =
  wn_table :: string
  wn_columns :: "string list"
  wn_kind :: node_kind
  wn_strategy :: string
  wn_provider :: "string option"
  wn_slice :: plan_slice

datatype execution_error = CYCLIC_WORK_ORDERING "node list" | WorkTypeError

type_synonym seed_envelope = "(string \<times> table_seed) list"
type_synonym provider_registry = "string \<Rightarrow> string option"

definition work_order_key :: "string \<Rightarrow> string list \<Rightarrow> node" where
  "work_order_key t cs = (t, cs)"

definition wn_key :: "work_node \<Rightarrow> node" where
  "wn_key n = work_order_key (wn_table n) (wn_columns n)"

definition in_work_order :: "string \<Rightarrow> work_node list \<Rightarrow> work_node list" where
  "in_work_order t ns = sort_key (\<lambda>n. work_order_key t (wn_columns n)) ns"

definition provider_is_composite :: "string option \<Rightarrow> provider_registry \<Rightarrow> bool" where
  "provider_is_composite p reg =
     (case p of None \<Rightarrow> False | Some n \<Rightarrow> n \<noteq> [] \<and> reg n = Some ''composite'')"

definition scalar_node :: "string \<Rightarrow> string \<times> column_seed \<Rightarrow> work_node" where
  "scalar_node t c = \<lparr>wn_table = t, wn_columns = [fst c], wn_kind = Scalar, wn_strategy = cs_strategy (snd c),
     wn_provider = cs_provider (snd c), wn_slice = ColumnSlice (snd c)\<rparr>"

definition group_columns :: "string \<times> column_seed \<Rightarrow> string list" where
  "group_columns c = sort (remdups (fst c # cs_coherent_with (snd c)))"

definition composite_node :: "string \<Rightarrow> (string \<times> column_seed) list \<Rightarrow> string list \<Rightarrow> work_node" where
  "composite_node t cs g =
     (let head = snd (hd (filter (\<lambda>c. group_columns c = g) cs)) in
      \<lparr>wn_table = t, wn_columns = g, wn_kind = Composite, wn_strategy = ''<composite>'',
       wn_provider = cs_provider head, wn_slice = ColumnSlice head\<rparr>)"

definition fk_group_node :: "string \<Rightarrow> string \<times> group_seed \<Rightarrow> work_node" where
  "fk_group_node t g = \<lparr>wn_table = t, wn_columns = gs_coherent_columns (snd g), wn_kind = CompositeFkGroup,
     wn_strategy = ''<group>'', wn_provider = Some ''<group>'', wn_slice = GroupSlice (snd g)\<rparr>"

definition table_work :: "provider_registry \<Rightarrow> string \<times> table_seed \<Rightarrow> work_node list" where
  "table_work reg tt =
     (let cs = filter (\<lambda>c. provider_is_composite (cs_provider (snd c)) reg) (ts_per_column (snd tt)) in
      map (scalar_node (fst tt))
        (filter (\<lambda>c. \<not> provider_is_composite (cs_provider (snd c)) reg) (ts_per_column (snd tt))) @
      map (composite_node (fst tt) cs) (dict_keys (map group_columns cs)) @
      map (fk_group_node (fst tt)) (ts_per_group (snd tt)))"

definition build_work_list :: "seed_envelope \<Rightarrow> provider_registry \<Rightarrow> work_node list" where
  "build_work_list env reg = concat (map (table_work reg) env)"

text \<open>\<open>dict(provider_config)\<close>: the last pair of a repeated key wins.\<close>

definition provider_config_to_dict :: "config \<Rightarrow> config" where
  "provider_config_to_dict pc = rev pc"

definition slice_get :: "work_node \<Rightarrow> string \<Rightarrow> cfg" where
  "slice_get n k = (case wn_slice n of ColumnSlice s \<Rightarrow> cfg_get (provider_config_to_dict (cs_provider_config s)) k CNull
     | GroupSlice _ \<Rightarrow> CNull)"

text \<open>The columns a node writes, and the nodes that write a column.\<close>

definition writer_output_columns :: "work_node \<Rightarrow> execution_error + string list" where
  "writer_output_columns n =
     (if wn_strategy n = ''joint_mask'' \<and> cfg_truthy (slice_get n ''columns'')
      then and_then (of_option WorkTypeError (cfg_iter (slice_get n ''columns''))) (\<lambda>vs. Inr (str_items vs))
      else Inr (wn_columns n))"

definition node_writes :: "work_node \<Rightarrow> execution_error + ((string \<times> string) \<times> node) list" where
  "node_writes n = and_then (writer_output_columns n) (\<lambda>cs. Inr (map (\<lambda>c. ((wn_table n, c), wn_key n)) cs))"

definition writer_node_map :: "work_node list \<Rightarrow> execution_error + ((string \<times> string) \<times> node) list" where
  "writer_node_map work = and_then (map_result node_writes work) (\<lambda>ws. Inr (concat ws))"

fun str_value :: "cfg \<Rightarrow> string option" where
  "str_value (CStr s) = (if s = [] then None else Some s)"
| "str_value _ = None"

definition masked_driver_columns :: "(cfg \<Rightarrow> string list) \<Rightarrow> work_node \<Rightarrow> string list" where
  "masked_driver_columns refs n =
     (case wn_slice n of GroupSlice _ \<Rightarrow> []
      | ColumnSlice _ \<Rightarrow>
          if wn_strategy n = ''derived'' then
            (if cfg_truthy (slice_get n ''expression'') then refs (slice_get n ''expression'') else [])
          else if wn_strategy n = ''group_key'' then
            (case str_value (slice_get n ''group_by'') of None \<Rightarrow> [] | Some g \<Rightarrow> [g])
          else [])"

text \<open>Dependencies are pairs of the dependent node and the node it waits for.\<close>

definition column_dependency_edges ::
    "(cfg \<Rightarrow> string list) \<Rightarrow> work_node list \<Rightarrow> execution_error + (node \<times> node) list" where
  "column_dependency_edges refs work =
     and_then (writer_node_map work) (\<lambda>writers.
     Inr (concat (map (\<lambda>n. concat (map (\<lambda>col.
       map (\<lambda>w. (wn_key n, snd w)) (filter (\<lambda>w. fst w = (wn_table n, col) \<and> snd w \<noteq> wn_key n) writers))
       (masked_driver_columns refs n))) work)))"

definition fk_dependencies :: "node list \<Rightarrow> relationship_edge \<Rightarrow> (node \<times> node) list" where
  "fk_dependencies keys e =
     (if e_child e \<notin> set keys then []
      else if e_parent e \<in> set keys then [(e_child e, e_parent e)]
      else map (Pair (e_child e))
        (filter (\<lambda>k. k \<in> set keys) (map (\<lambda>c. (e_parent_table e, [c])) (e_parent_columns e))))"

definition composite_dependencies :: "node list \<Rightarrow> relationship_edge list \<Rightarrow> work_node \<Rightarrow> (node \<times> node) list" where
  "composite_dependencies keys edges n =
     (if wn_kind n \<noteq> Composite then []
      else map (\<lambda>e. (e_child e, wn_key n)) (filter (\<lambda>e. e_parent_table e = wn_table n \<and>
        set (e_parent_columns e) \<subseteq> set (wn_columns n) \<and> e_child e \<in> set keys) edges))"

text \<open>\<open>by_key\<close>: a later node with the same key replaces an earlier one.\<close>

definition by_key :: "work_node list \<Rightarrow> node \<Rightarrow> work_node option" where
  "by_key work = map_of (rev (map (\<lambda>n. (wn_key n, n)) work))"

definition kahn_sorted :: "work_node list \<Rightarrow> (node \<times> node) list \<Rightarrow> execution_error + work_node list" where
  "kahn_sorted work deps =
     (let keys = dict_keys (map wn_key work);
          es = remdups (map (\<lambda>(c, p). (p, c)) (filter (\<lambda>(c, p). c \<in> set keys \<and> p \<in> set keys) deps)) in
      if keys = [] then Inr []
      else (case topo_order keys es of
          Inl bad \<Rightarrow> Inl (CYCLIC_WORK_ORDERING bad)
        | Inr placed \<Rightarrow> Inr (map (\<lambda>k. the (by_key work k)) placed)))"

definition work_dependencies ::
    "work_node list \<Rightarrow> relationship_edge list \<Rightarrow> (node \<times> node) list \<Rightarrow> (node \<times> node) list" where
  "work_dependencies work edges col_deps =
     (let keys = dict_keys (map wn_key work) in
      concat (map (fk_dependencies keys) edges) @
      concat (map (composite_dependencies keys edges) work) @
      filter (\<lambda>(c, p). c \<in> set keys \<and> p \<in> set keys) col_deps)"

definition order_work ::
    "(cfg \<Rightarrow> string list) \<Rightarrow> work_node list \<Rightarrow> relationship_graph \<Rightarrow> (node \<times> node) list option \<Rightarrow>
     execution_error + work_node list" where
  "order_work refs work g column_deps =
     and_then (case column_deps of None \<Rightarrow> column_dependency_edges refs work | Some d \<Rightarrow> Inr d) (\<lambda>col_deps.
     kahn_sorted work (work_dependencies work (g_edges g) col_deps))"

text \<open>The lossless-ingestion walkers: per table the columns a strategy reads at full precision.\<close>

definition walk_columns :: "(work_node \<Rightarrow> string list) \<Rightarrow> work_node list \<Rightarrow> (string \<times> string) list" where
  "walk_columns f work = concat (map (\<lambda>n. map (Pair (wn_table n)) (f n)) work)"

definition group_by_of :: "string \<Rightarrow> work_node \<Rightarrow> string list" where
  "group_by_of strategy n =
     (if wn_kind n \<noteq> Scalar \<or> wn_strategy n \<noteq> strategy then []
      else case str_value (slice_get n ''group_by'') of None \<Rightarrow> [] | Some g \<Rightarrow> [g])"

definition date_shift_group_columns :: "seed_envelope \<Rightarrow> provider_registry \<Rightarrow> (string \<times> string) list" where
  "date_shift_group_columns env reg = walk_columns (group_by_of ''date_shift'') (build_work_list env reg)"

definition top_code_columns :: "seed_envelope \<Rightarrow> provider_registry \<Rightarrow> (string \<times> string) list" where
  "top_code_columns env reg =
     walk_columns (\<lambda>n. if wn_kind n \<noteq> Scalar \<or> wn_strategy n \<noteq> ''top_code'' then [] else wn_columns n)
       (build_work_list env reg)"

definition group_key_group_by_columns :: "seed_envelope \<Rightarrow> provider_registry \<Rightarrow> (string \<times> string) list" where
  "group_key_group_by_columns env reg = walk_columns (group_by_of ''group_key'') (build_work_list env reg)"

definition joint_mask_key_by_columns :: "seed_envelope \<Rightarrow> provider_registry \<Rightarrow> (string \<times> string) list" where
  "joint_mask_key_by_columns env reg =
     walk_columns (\<lambda>n. if wn_strategy n \<noteq> ''joint_mask'' then []
       else case str_value (slice_get n ''key_by'') of None \<Rightarrow> [] | Some k \<Rightarrow> [k]) (build_work_list env reg)"

definition source_anchor_columns :: "seed_envelope \<Rightarrow> provider_registry \<Rightarrow> (string \<times> string) list" where
  "source_anchor_columns env reg = date_shift_group_columns env reg @ joint_mask_key_by_columns env reg"

section \<open>The order respects every dependency\<close>

lemma by_key_Some:
  assumes "k \<in> set (dict_keys (map wn_key work))"
  shows "\<exists>n \<in> set work. by_key work k = Some n \<and> wn_key n = k"
proof -
  have "map_of (rev (map (\<lambda>n. (wn_key n, n)) work)) k \<noteq> None"
    using assms by (auto simp: map_of_eq_None_iff image_image)
  then obtain n where n: "by_key work k = Some n"
    unfolding by_key_def by blast
  then have "(k, n) \<in> set (rev (map (\<lambda>n. (wn_key n, n)) work))"
    unfolding by_key_def by (rule map_of_SomeD)
  then show ?thesis
    using n by auto
qed

definition before :: "'a list \<Rightarrow> 'a \<Rightarrow> 'a \<Rightarrow> bool" where
  "before xs a b \<longleftrightarrow> (\<exists>i j. i < j \<and> j < length xs \<and> xs ! i = a \<and> xs ! j = b)"

lemma topological_before:
  assumes "topological E xs" and "(a, b) \<in> E" and "b \<in> set xs"
  shows "before xs a b"
proof -
  obtain j where j: "j < length xs" "xs ! j = b"
    using assms(3) by (auto simp: in_set_conv_nth)
  then have "a \<in> set (take j xs)"
    using assms(1,2) by (auto simp: topological_def)
  then obtain i where "i < j" "xs ! i = a"
    using j by (auto simp: in_set_conv_nth)
  then show ?thesis
    using j unfolding before_def by blast
qed

definition work_relation :: "work_node list \<Rightarrow> (node \<times> node) list \<Rightarrow> (node \<times> node) set" where
  "work_relation work deps = {(p, c). (c, p) \<in> set deps \<and> c \<in> wn_key ` set work \<and> p \<in> wn_key ` set work}"

lemma kahn_sorted_edges:
  "set (remdups (map (\<lambda>(c, p). (p, c)) (filter (\<lambda>(c, p). c \<in> set (dict_keys (map wn_key work)) \<and>
     p \<in> set (dict_keys (map wn_key work))) deps))) = work_relation work deps"
  by (auto simp: work_relation_def)

lemma kahn_sorted_ok:
  assumes "kahn_sorted work deps = Inr ws"
  shows "distinct (map wn_key ws)" and "wn_key ` set ws = wn_key ` set work" and "set ws \<subseteq> set work"
    and "topological (work_relation work deps) (map wn_key ws)"
    and "\<forall>ys. distinct ys \<and> set ys = wn_key ` set work \<and> topological (work_relation work deps) ys \<longrightarrow>
      map wn_key ws \<le> ys"
proof -
  let ?keys = "dict_keys (map wn_key work)"
  let ?es = "remdups (map (\<lambda>(c, p). (p, c)) (filter (\<lambda>(c, p). c \<in> set ?keys \<and> p \<in> set ?keys) deps))"
  obtain placed where placed: "topo_order ?keys ?es = Inr placed"
      and ws: "ws = map (\<lambda>k. the (by_key work k)) placed"
  proof (cases "?keys = []")
    case True
    then have "topo_order ?keys ?es = Inr []" "ws = []"
      using assms by (simp_all add: kahn_sorted_def topo_order_def kahn_def)
    then show thesis
      using that by simp
  next
    case False
    then show thesis
      using assms that by (auto simp: kahn_sorted_def Let_def split: sum.splits)
  qed
  have es: "set ?es \<subseteq> set ?keys \<times> set ?keys"
    by auto
  note ok = ksort.sorted_ok [OF distinct_dict_keys es placed, unfolded kahn_sorted_edges]
  have "\<exists>n \<in> set work. by_key work k = Some n \<and> wn_key n = k" if "k \<in> set placed" for k
    using by_key_Some [of k work] ok that by simp
  then have keys: "map wn_key ws = placed" and sub: "set ws \<subseteq> set work"
    unfolding ws by (force intro: map_idI)+
  show "set ws \<subseteq> set work"
    by (rule sub)
  show "distinct (map wn_key ws)" "topological (work_relation work deps) (map wn_key ws)"
    "\<forall>ys. distinct ys \<and> set ys = wn_key ` set work \<and> topological (work_relation work deps) ys \<longrightarrow>
      map wn_key ws \<le> ys"
    using ok keys by auto
  have "set placed = wn_key ` set work"
    using ok by simp
  then show "wn_key ` set ws = wn_key ` set work"
    using keys by (metis set_map)
qed

lemma kahn_sorted_cong:
  assumes "kahn_sorted work deps = Inr ws" and "work_relation work deps' = work_relation work deps"
  shows "kahn_sorted work deps' = Inr ws"
proof (cases "dict_keys (map wn_key work) = []")
  case True
  then show ?thesis
    using assms(1) by (simp add: kahn_sorted_def)
next
  case False
  let ?keys = "dict_keys (map wn_key work)"
  let ?es = "\<lambda>deps. remdups (map (\<lambda>(c, p). (p, c)) (filter (\<lambda>(c, p). c \<in> set ?keys \<and> p \<in> set ?keys) deps))"
  obtain placed where placed: "topo_order ?keys (?es deps) = Inr placed"
      and ws: "ws = map (\<lambda>k. the (by_key work k)) placed"
    using assms(1) False by (auto simp: kahn_sorted_def Let_def split: sum.splits)
  have es: "set (?es deps) \<subseteq> set ?keys \<times> set ?keys"
    by auto
  have "topo_order ?keys (?es deps') = Inr placed"
    by (rule ksort.order_independent [OF distinct_dict_keys es placed distinct_dict_keys refl])
      (use assms(2) in \<open>simp only: kahn_sorted_edges\<close>)
  then show ?thesis
    using False ws by (simp only: kahn_sorted_def Let_def if_False sum.case)
qed

lemma kahn_sorted_stuck:
  assumes "kahn_sorted work deps = Inl e"
  shows "\<exists>bad. e = CYCLIC_WORK_ORDERING bad \<and> bad \<noteq> [] \<and>
    set bad = {k \<in> wn_key ` set work. \<exists>m. on_cycle (work_relation work deps) m \<and> (m, k) \<in> (work_relation work deps)\<^sup>*}"
proof -
  let ?keys = "dict_keys (map wn_key work)"
  let ?es = "remdups (map (\<lambda>(c, p). (p, c)) (filter (\<lambda>(c, p). c \<in> set ?keys \<and> p \<in> set ?keys) deps))"
  obtain bad where bad: "topo_order ?keys ?es = Inl bad" "e = CYCLIC_WORK_ORDERING bad"
    using assms by (auto simp: kahn_sorted_def Let_def split: sum.splits if_splits)
  have es: "set ?es \<subseteq> set ?keys \<times> set ?keys"
    by auto
  show ?thesis
    using ksort.stuck [OF distinct_dict_keys es bad(1), unfolded kahn_sorted_edges] bad(2) by simp
qed

lemma writer_node_map_mem:
  assumes "writer_node_map work = Inr writers" and "n \<in> set work" and "writer_output_columns n = Inr cs" and "c \<in> set cs"
  shows "((wn_table n, c), wn_key n) \<in> set writers"
proof -
  obtain ws where ws: "map_result node_writes work = Inr ws" "writers = concat ws"
    using assms(1) by (auto simp: writer_node_map_def result_simps)
  have "Inr (map (\<lambda>c. ((wn_table n, c), wn_key n)) cs) \<in> (Inr ` set ws :: (execution_error + _) set)"
    using assms(2,3) unfolding map_result_set [OF ws(1)]
    by (auto simp: node_writes_def intro: rev_image_eqI)
  then have "map (\<lambda>c. ((wn_table n, c), wn_key n)) cs \<in> set ws"
    by auto
  then show ?thesis
    using ws(2) assms(4) by (auto intro: bexI [rotated])
qed

lemma column_dependency_edges_mem:
  assumes "column_dependency_edges refs work = Inr deps" and "n \<in> set work" "w \<in> set work"
    and "col \<in> set (masked_driver_columns refs n)" and "writer_output_columns w = Inr cs" "col \<in> set cs"
    and "wn_table w = wn_table n" and "wn_key w \<noteq> wn_key n"
  shows "(wn_key n, wn_key w) \<in> set deps"
proof -
  obtain writers where w: "writer_node_map work = Inr writers"
    and deps: "deps = concat (map (\<lambda>n. concat (map (\<lambda>col. map (\<lambda>w. (wn_key n, snd w))
      (filter (\<lambda>w. fst w = (wn_table n, col) \<and> snd w \<noteq> wn_key n) writers)) (masked_driver_columns refs n))) work)"
    using assms(1) by (auto simp: column_dependency_edges_def result_simps)
  have "((wn_table n, col), wn_key w) \<in> set writers"
    using writer_node_map_mem [OF w assms(3,5,6)] assms(7) by simp
  then show ?thesis
    unfolding deps using assms(2,4,8) by force
qed

lemma set_work_dependencies:
  "set (work_dependencies work edges cd) =
     (\<Union>e \<in> set edges. set (fk_dependencies (dict_keys (map wn_key work)) e)) \<union>
     (\<Union>n \<in> set work. set (composite_dependencies (dict_keys (map wn_key work)) edges n)) \<union>
     {(c, p) \<in> set cd. c \<in> wn_key ` set work \<and> p \<in> wn_key ` set work}"
  unfolding work_dependencies_def Let_def by auto

lemma fk_dependency_parent:
  assumes "e \<in> set edges" and "e_child e \<in> wn_key ` set work" and "e_parent e \<in> wn_key ` set work"
  shows "(e_parent e, e_child e) \<in> work_relation work (work_dependencies work edges cd)"
proof -
  have "(e_child e, e_parent e) \<in> set (fk_dependencies (dict_keys (map wn_key work)) e)"
    using assms by (simp add: fk_dependencies_def)
  then show ?thesis
    using assms unfolding work_relation_def set_work_dependencies by blast
qed

lemma fk_dependency_column:
  assumes "e \<in> set edges" and "e_child e \<in> wn_key ` set work" and "e_parent e \<notin> wn_key ` set work"
    and "c \<in> set (e_parent_columns e)" and "(e_parent_table e, [c]) \<in> wn_key ` set work"
  shows "((e_parent_table e, [c]), e_child e) \<in> work_relation work (work_dependencies work edges cd)"
proof -
  have "(e_child e, e_parent_table e, [c]) \<in> set (fk_dependencies (dict_keys (map wn_key work)) e)"
    using assms by (simp add: fk_dependencies_def)
  then show ?thesis
    using assms unfolding work_relation_def set_work_dependencies by blast
qed

lemma composite_dependency:
  assumes "e \<in> set edges" and "e_child e \<in> wn_key ` set work" and "n \<in> set work" and "wn_kind n = Composite"
    and "e_parent_table e = wn_table n" and "set (e_parent_columns e) \<subseteq> set (wn_columns n)"
  shows "(wn_key n, e_child e) \<in> work_relation work (work_dependencies work edges cd)"
proof -
  have "(e_child e, wn_key n) \<in> set (composite_dependencies (dict_keys (map wn_key work)) edges n)"
    using assms by (simp add: composite_dependencies_def)
  then show ?thesis
    using assms unfolding work_relation_def set_work_dependencies by blast
qed

lemma column_dependency:
  assumes "(a, b) \<in> set cd" and "a \<in> wn_key ` set work" and "b \<in> wn_key ` set work"
  shows "(b, a) \<in> work_relation work (work_dependencies work edges cd)"
  using assms unfolding work_relation_def set_work_dependencies by blast

lemmas dependency_intros = fk_dependency_parent fk_dependency_column composite_dependency column_dependency

section \<open>Properties\<close>

text \<open>C27. When \<open>order_work\<close> returns, the result has every node key exactly once and only nodes of the
  work list, a parent comes before its foreign-key child, the single parent columns come before a
  composite child, a composite bundle comes before the children that reference it, and every writer of
  a column comes before the nodes that read its masked value.\<close>

theorem order_work_respects_dependencies:
  assumes "order_work refs work g None = Inr ws"
  shows "distinct (map wn_key ws) \<and> wn_key ` set ws = wn_key ` set work \<and> set ws \<subseteq> set work \<and>
    (\<forall>e \<in> set (g_edges g). e_child e \<in> wn_key ` set work \<longrightarrow>
      (if e_parent e \<in> wn_key ` set work then before (map wn_key ws) (e_parent e) (e_child e)
       else (\<forall>c \<in> set (e_parent_columns e). (e_parent_table e, [c]) \<in> wn_key ` set work \<longrightarrow>
         before (map wn_key ws) (e_parent_table e, [c]) (e_child e))) \<and>
      (\<forall>n \<in> set work. wn_kind n = Composite \<and> e_parent_table e = wn_table n \<and>
         set (e_parent_columns e) \<subseteq> set (wn_columns n) \<longrightarrow> before (map wn_key ws) (wn_key n) (e_child e))) \<and>
    (\<forall>n \<in> set work. \<forall>w \<in> set work. \<forall>col \<in> set (masked_driver_columns refs n). \<forall>cs.
      writer_output_columns w = Inr cs \<and> col \<in> set cs \<and> wn_table w = wn_table n \<and> wn_key w \<noteq> wn_key n \<longrightarrow>
      before (map wn_key ws) (wn_key w) (wn_key n))"
proof -
  obtain cd where cd: "column_dependency_edges refs work = Inr cd"
      and ws: "kahn_sorted work (work_dependencies work (g_edges g) cd) = Inr ws"
    using assms by (auto simp: order_work_def result_simps)
  note ok = kahn_sorted_ok [OF ws]
  have bef: "before (map wn_key ws) p c" if "(p, c) \<in> work_relation work (work_dependencies work (g_edges g) cd)" for p c
    using topological_before [OF ok(4) that] that ok(2) by (auto simp: work_relation_def)
  show ?thesis
  proof (intro conjI ballI impI allI)
    show "distinct (map wn_key ws)" "wn_key ` set ws = wn_key ` set work" "set ws \<subseteq> set work"
      by (rule ok)+
  next
    fix e assume "e \<in> set (g_edges g)" "e_child e \<in> wn_key ` set work"
    then show "if e_parent e \<in> wn_key ` set work then before (map wn_key ws) (e_parent e) (e_child e)
       else (\<forall>c \<in> set (e_parent_columns e). (e_parent_table e, [c]) \<in> wn_key ` set work \<longrightarrow>
         before (map wn_key ws) (e_parent_table e, [c]) (e_child e))"
      by (simp add: bef dependency_intros)
  next
    fix e n assume "e \<in> set (g_edges g)" "e_child e \<in> wn_key ` set work" "n \<in> set work"
      "wn_kind n = Composite \<and> e_parent_table e = wn_table n \<and> set (e_parent_columns e) \<subseteq> set (wn_columns n)"
    then show "before (map wn_key ws) (wn_key n) (e_child e)"
      by (simp add: bef dependency_intros)
  next
    fix n w col cs assume a: "n \<in> set work" "w \<in> set work" "col \<in> set (masked_driver_columns refs n)"
      "writer_output_columns w = Inr cs \<and> col \<in> set cs \<and> wn_table w = wn_table n \<and> wn_key w \<noteq> wn_key n"
    then have "(wn_key n, wn_key w) \<in> set cd"
      using column_dependency_edges_mem [OF cd a(1-3)] by blast
    then show "before (map wn_key ws) (wn_key w) (wn_key n)"
      using a(1,2) by (simp add: bef dependency_intros)
  qed
qed

definition demo_work :: "work_node list" where
  "demo_work = build_work_list [(''a'', \<lparr>ts_per_column = [(''id'', \<lparr>cs_strategy = ''hash'', cs_provider = None,
       cs_provider_config = [], cs_coherent_with = []\<rparr>),
       (''zip'', \<lparr>cs_strategy = ''group_key'', cs_provider = None,
         cs_provider_config = [(''group_by'', CStr ''id'')], cs_coherent_with = []\<rparr>)], ts_per_group = []\<rparr>)]
     (\<lambda>_. None)"

definition demo_graph_b :: relationship_graph where
  "demo_graph_b = \<lparr>g_edges = [\<lparr>e_parent_table = ''a'', e_parent_columns = [''zip''], e_child_table = ''a'',
     e_child_columns = [''id''], e_namespace = ''n'', e_orphan_policy = WARN\<rparr>], g_ordering = []\<rparr>"

lemma demo_order: "map_sum id (map wn_key) (order_work (\<lambda>_. []) demo_work \<lparr>g_edges = [], g_ordering = []\<rparr> None) =
  Inr [(''a'', [''id'']), (''a'', [''zip''])]"
  by code_simp

lemma demo_order_stuck: "order_work (\<lambda>_. []) demo_work demo_graph_b None =
  Inl (CYCLIC_WORK_ORDERING [(''a'', [''id'']), (''a'', [''zip''])])"
  by code_simp

theorem order_work_respects_dependencies_witness:
  "\<exists>ws. order_work (\<lambda>_. []) demo_work \<lparr>g_edges = [], g_ordering = []\<rparr> None = Inr ws \<and>
     wn_key ` set ws = wn_key ` set demo_work \<and> distinct (map wn_key ws)"
proof -
  obtain ws where ws: "order_work (\<lambda>_. []) demo_work \<lparr>g_edges = [], g_ordering = []\<rparr> None = Inr ws"
    using demo_order by (auto simp: map_sum_def split: sum.splits)
  then show ?thesis
    using order_work_respects_dependencies [OF ws] by blast
qed

text \<open>\<open>order_work\<close> fails only on a genuine cycle: given the column dependencies, it returns exactly
  when the dependency relation on the work nodes is acyclic, and its error lists the nodes on or below
  a cycle.\<close>

theorem order_work_fails_iff_cyclic:
  "(case order_work refs work g (Some cd) of
      Inr ws \<Rightarrow> acyclic (work_relation work (work_dependencies work (g_edges g) cd))
    | Inl e \<Rightarrow> \<exists>bad. e = CYCLIC_WORK_ORDERING bad \<and> bad \<noteq> [] \<and>
        set bad = {k \<in> wn_key ` set work. \<exists>m.
          on_cycle (work_relation work (work_dependencies work (g_edges g) cd)) m \<and>
          (m, k) \<in> (work_relation work (work_dependencies work (g_edges g) cd))\<^sup>*})"
proof (cases "order_work refs work g (Some cd)")
  case (Inl e)
  then show ?thesis
    using kahn_sorted_stuck [of work "work_dependencies work (g_edges g) cd" e] by (simp add: order_work_def)
next
  case (Inr ws)
  then have ks: "kahn_sorted work (work_dependencies work (g_edges g) cd) = Inr ws"
    by (simp add: order_work_def)
  have "work_relation work (work_dependencies work (g_edges g) cd) \<subseteq> set (map wn_key ws) \<times> set (map wn_key ws)"
    using kahn_sorted_ok(2) [OF ks] by (auto simp: work_relation_def)
  then show ?thesis
    using topological_acyclic [OF kahn_sorted_ok(4,1) [OF ks]] Inr by simp
qed

text \<open>The order of the work nodes depends only on the work list and on the set of edges of the
  relationship graph: listing the edges in another order or repeating one changes nothing.\<close>

theorem order_work_edge_order_irrelevant:
  assumes "order_work refs work g None = Inr ws" and "set (g_edges g') = set (g_edges g)"
  shows "order_work refs work g' None = Inr ws"
proof -
  obtain cd where cd: "column_dependency_edges refs work = Inr cd"
      and ws: "kahn_sorted work (work_dependencies work (g_edges g) cd) = Inr ws"
    using assms(1) by (auto simp: order_work_def result_simps)
  have "set (composite_dependencies keys (g_edges g') n) = set (composite_dependencies keys (g_edges g) n)" for keys n
    by (simp add: composite_dependencies_def assms(2))
  then have "set (work_dependencies work (g_edges g') cd) = set (work_dependencies work (g_edges g) cd)"
    unfolding set_work_dependencies by (simp only: assms(2))
  then show ?thesis
    using kahn_sorted_cong [OF ws] cd by (simp add: order_work_def work_relation_def)
qed

theorem order_work_edge_order_irrelevant_witness:
  "\<exists>ws. order_work (\<lambda>_. []) demo_work \<lparr>g_edges = [], g_ordering = [(''a'', [])]\<rparr> None = Inr ws"
proof -
  obtain ws where ws: "order_work (\<lambda>_. []) demo_work \<lparr>g_edges = [], g_ordering = []\<rparr> None = Inr ws"
    using demo_order by (auto simp: map_sum_def split: sum.splits)
  then show ?thesis
    using order_work_edge_order_irrelevant [OF ws, of "\<lparr>g_edges = [], g_ordering = [(''a'', [])]\<rparr>"] by auto
qed

end
