(* ===== verification/Unicode_Text.thy ===== *)
theory Unicode_Text
  imports Decoy_Prelude Decimal_Text
begin

text \<open>
  Python text as lists of code points, where the code handles any text and not only Latin-1: the UTF-8
  codec (\<open>bytes.decode\<close> and \<open>str.encode\<close>, with the surrogates they refuse) and \<open>int\<close> on a string, with
  the white space, the decimal digits of other scripts and the underscores it accepts.
\<close>

type_synonym codepoints = "nat list"

section \<open>UTF-8\<close>

text \<open>\<open>bytes.decode("utf-8")\<close> to code points; \<open>None\<close> where it raises.\<close>

definition cont_byte :: "nat \<Rightarrow> nat \<Rightarrow> byte \<Rightarrow> bool" where
  "cont_byte lo hi c \<longleftrightarrow> lo \<le> unat c \<and> unat c \<le> hi"

fun utf8_decode :: "bytes \<Rightarrow> codepoints option" where
  "utf8_decode [] = Some []"
| "utf8_decode (b # bs) =
     (let n = unat b in
      if n < 128 then map_option ((#) n) (utf8_decode bs)
      else if 194 \<le> n \<and> n \<le> 223 then
        (case bs of c # bs' \<Rightarrow>
           if cont_byte 128 191 c then map_option ((#) ((n - 192) * 64 + (unat c - 128))) (utf8_decode bs') else None
         | _ \<Rightarrow> None)
      else if 224 \<le> n \<and> n \<le> 239 then
        (case bs of c # d # bs' \<Rightarrow>
           if cont_byte (if n = 224 then 160 else 128) (if n = 237 then 159 else 191) c \<and> cont_byte 128 191 d
           then map_option ((#) ((n - 224) * 4096 + (unat c - 128) * 64 + (unat d - 128))) (utf8_decode bs') else None
         | _ \<Rightarrow> None)
      else if 240 \<le> n \<and> n \<le> 244 then
        (case bs of c # d # f # bs' \<Rightarrow>
           if cont_byte (if n = 240 then 144 else 128) (if n = 244 then 143 else 191) c \<and> cont_byte 128 191 d \<and>
              cont_byte 128 191 f
           then map_option ((#) ((n - 240) * 262144 + (unat c - 128) * 4096 + (unat d - 128) * 64 + (unat f - 128)))
             (utf8_decode bs') else None
         | _ \<Rightarrow> None)
      else None)"

definition byte_of :: "nat \<Rightarrow> byte" where
  "byte_of n = word_of_nat n"

text \<open>\<open>str.encode("utf-8")\<close>: a lone surrogate raises.\<close>

definition encode_char :: "nat \<Rightarrow> bytes option" where
  "encode_char n =
     (if n < 128 then Some [byte_of n]
      else if n < 2048 then Some [byte_of (192 + n div 64), byte_of (128 + n mod 64)]
      else if 55296 \<le> n \<and> n \<le> 57343 then None
      else if n < 65536 then
        Some [byte_of (224 + n div 4096), byte_of (128 + n div 64 mod 64), byte_of (128 + n mod 64)]
      else if n < 1114112 then
        Some [byte_of (240 + n div 262144), byte_of (128 + n div 4096 mod 64),
              byte_of (128 + n div 64 mod 64), byte_of (128 + n mod 64)]
      else None)"

fun utf8_encode :: "codepoints \<Rightarrow> bytes option" where
  "utf8_encode [] = Some []"
| "utf8_encode (n # s) =
     (case encode_char n of
        None \<Rightarrow> None
      | Some b \<Rightarrow> map_option ((@) b) (utf8_encode s))"

lemma utf8_decode_ascii: "\<forall>c \<in> set bs. unat c < 128 \<Longrightarrow> utf8_decode bs = Some (map unat bs)"
  by (induction bs) (simp_all add: Let_def)

lemma unat_byte [simp]: "n < 256 \<Longrightarrow> unat (byte_of n) = n"
  by (simp add: byte_of_def unat_of_nat)

lemma encode_char_decode:
  assumes "encode_char n = Some b"
  shows "utf8_decode (b @ bs) = map_option ((#) n) (utf8_decode bs)"
proof -
  consider "n < 128" | "128 \<le> n" "n < 2048" | "2048 \<le> n" "n < 65536" "\<not> (55296 \<le> n \<and> n \<le> 57343)" | "65536 \<le> n" "n < 1114112"
    using assms by (fastforce simp: encode_char_def split: if_splits)
  then show ?thesis
  proof cases
    case 1
    then show ?thesis
      using assms by (auto simp: encode_char_def Let_def)
  next
    case 2
    let ?a = "n div 64" and ?d = "n mod 64"
    have r: "2 \<le> ?a" "?a < 32" "?d \<le> 63" and n: "?a * 64 + ?d = n"
      using 2 mod_less_divisor [of 64 n] by (auto simp: div_less_iff_less_mult less_eq_div_iff_mult_less_eq simp del: mod_less_divisor)
    have "b = [byte_of (192 + ?a), byte_of (128 + ?d)]"
      using assms 2 by (simp add: encode_char_def)
    then show ?thesis
      using r n by (simp add: Let_def cont_byte_def)
  next
    case 3
    let ?a = "n div 4096" and ?c = "n div 64 mod 64" and ?d = "n mod 64"
    have n: "?a * 4096 + ?c * 64 + ?d = n"
    proof -
      have "n div 64 * 64 + ?d = n" "?a * 64 + ?c = n div 64"
        using div_mult_mod_eq [of "n div 64" 64] by (simp_all add: div_mult2_eq [symmetric])
      then show ?thesis
        by linarith
    qed
    have r: "?a < 16" "?c < 64" "?d < 64"
      using 3 by (auto simp: div_less_iff_less_mult)
    have lo: "32 \<le> ?c" if "?a = 0"
      using n r 3(1) that by linarith
    have hi: "?c < 32" if "?a = 13"
    proof (rule ccontr)
      assume "\<not> ?c < 32"
      then have "55296 \<le> n \<and> n \<le> 57343"
        using n r that by linarith
      then show False
        using 3(3) by simp
    qed
    have b: "b = [byte_of (224 + ?a), byte_of (128 + ?c), byte_of (128 + ?d)]"
      using assms 3 by (auto simp: encode_char_def split: if_splits)
    show ?thesis
      using r lo hi n unfolding b by (auto simp: Let_def cont_byte_def)
  next
    case 4
    let ?a = "n div 262144" and ?c = "n div 4096 mod 64" and ?d = "n div 64 mod 64" and ?e = "n mod 64"
    have n: "?a * 262144 + ?c * 4096 + ?d * 64 + ?e = n"
    proof -
      have "n div 64 * 64 + ?e = n" "n div 4096 * 64 + ?d = n div 64" "?a * 64 + ?c = n div 4096"
        using div_mult_mod_eq [of "n div 64" 64] div_mult_mod_eq [of "n div 4096" 64]
        by (simp_all add: div_mult2_eq [symmetric])
      then show ?thesis
        by linarith
    qed
    have r: "?a < 5" "?c < 64" "?d < 64" "?e < 64"
      using 4 by (auto simp: div_less_iff_less_mult)
    have lo: "16 \<le> ?c" if "?a = 0"
      using n r 4(1) that by linarith
    have hi: "?c < 16" if "?a = 4"
      using n 4(2) that by linarith
    have b: "b = [byte_of (240 + ?a), byte_of (128 + ?c), byte_of (128 + ?d), byte_of (128 + ?e)]"
      using assms 4 by (auto simp: encode_char_def split: if_splits)
    show ?thesis
      using r lo hi n unfolding b by (auto simp: Let_def cont_byte_def)
  qed
qed

lemma utf8_decode_encode: "utf8_encode s = Some b \<Longrightarrow> utf8_decode (b @ bs) = map_option ((@) s) (utf8_decode bs)"
proof (induction s arbitrary: b)
  case Nil
  then show ?case
    by (cases "utf8_decode bs") auto
next
  case (Cons n s)
  then obtain c d where "encode_char n = Some c" "utf8_encode s = Some d" "b = c @ d"
    by (auto split: option.splits)
  then show ?case
    using Cons.IH [of d] encode_char_decode [of n c "d @ bs"] by (cases "utf8_decode bs") simp_all
qed

lemma utf8_encode_append:
  "utf8_encode (s @ t) = (case utf8_encode s of None \<Rightarrow> None | Some b \<Rightarrow> map_option ((@) b) (utf8_encode t))"
  by (induction s; cases "utf8_encode t") (auto split: option.splits)

text \<open>Only the ASCII characters give ASCII bytes.\<close>

lemma encode_char_ascii: "encode_char n = Some b \<Longrightarrow> c \<in> set b \<Longrightarrow> unat c < 128 \<Longrightarrow> unat c = n"
proof -
  assume b: "encode_char n = Some b" and c: "c \<in> set b" "unat c < 128"
  have "n < 128 \<or> (\<forall>x \<in> set b. 128 \<le> unat x)"
    using b by (auto simp: encode_char_def div_less_iff_less_mult split: if_splits)
  then show ?thesis
    using b c by (auto simp: encode_char_def)
qed

lemma utf8_encode_ascii: "utf8_encode s = Some b \<Longrightarrow> c \<in> set b \<Longrightarrow> unat c < 128 \<Longrightarrow> unat c \<in> set s"
proof (induction s arbitrary: b)
  case (Cons n s)
  then show ?case
    using encode_char_ascii [of n] by (fastforce split: option.splits)
qed simp

section \<open>Integers\<close>

text \<open>The code points of decimal digit zero in every script, and the white space \<open>int\<close> strips.\<close>

definition decimal_zeros :: "nat list" where
  "decimal_zeros = [48, 1632, 1776, 1984, 2406, 2534, 2662, 2790, 2918, 3046, 3174, 3302, 3430, 3558, 3664, 3792, 3872,
     4160, 4240, 6112, 6160, 6470, 6608, 6784, 6800, 6992, 7088, 7232, 7248, 42528, 43216, 43264, 43472, 43504, 43600,
     44016, 65296, 66720, 68912, 69734, 69872, 69942, 70096, 70384, 70736, 70864, 71248, 71360, 71472, 71904, 72016,
     72784, 73040, 73120, 92768, 92864, 93008, 120782, 120792, 120802, 120812, 120822, 123200, 123632, 125264, 130032]"

definition int_spaces :: "nat list" where
  "int_spaces = [9, 10, 11, 12, 13, 32, 133, 160, 5760, 8192, 8193, 8194, 8195, 8196, 8197, 8198, 8199, 8200, 8201, 8202,
     8232, 8233, 8239, 8287, 12288]"

definition decimal_digit :: "nat \<Rightarrow> nat option" where
  "decimal_digit c = map_option (\<lambda>z. c - z) (List.find (\<lambda>z. z \<le> c \<and> c < z + 10) decimal_zeros)"

text \<open>Digits with single underscores between them; the value and the number of digits.\<close>

fun int_digits :: "codepoints \<Rightarrow> nat \<Rightarrow> nat \<Rightarrow> (nat \<times> nat) option" where
  "int_digits [] acc n = Some (acc, n)"
| "int_digits (c # s) acc n =
     (case decimal_digit c of
        Some d \<Rightarrow> int_digits s (acc * 10 + d) (n + 1)
      | None \<Rightarrow>
          if c = 95 \<and> 0 < n then
            (case s of
               [] \<Rightarrow> None
             | e # s' \<Rightarrow> (case decimal_digit e of None \<Rightarrow> None | Some d \<Rightarrow> int_digits s' (acc * 10 + d) (n + 1)))
          else None)"

text \<open>\<open>sys.get_int_max_str_digits\<close> at its default.\<close>

definition INT_MAX_STR_DIGITS :: nat where "INT_MAX_STR_DIGITS = 4300"

definition unsigned_int :: "codepoints \<Rightarrow> int option" where
  "unsigned_int s =
     (case int_digits s 0 0 of
        Some (v, n) \<Rightarrow> if 0 < n \<and> n \<le> INT_MAX_STR_DIGITS then Some (int v) else None
      | None \<Rightarrow> None)"

definition strip_spaces :: "codepoints \<Rightarrow> codepoints" where
  "strip_spaces s = rev (dropWhile (\<lambda>c. c \<in> set int_spaces) (rev (dropWhile (\<lambda>c. c \<in> set int_spaces) s)))"

definition text_int :: "codepoints \<Rightarrow> int option" where
  "text_int s =
     (case strip_spaces s of
        [] \<Rightarrow> None
      | c # t \<Rightarrow> if c = 45 then map_option uminus (unsigned_int t)
                else if c = 43 then unsigned_int t else unsigned_int (c # t))"

text \<open>\<open>str(n)\<close>; \<open>None\<close> above the digit limit, where it raises.\<close>

definition codes :: "string \<Rightarrow> codepoints" where
  "codes s = map of_char s"

definition int_text :: "int \<Rightarrow> codepoints option" where
  "int_text n =
     (let d = codes (dec_str (nat \<bar>n\<bar>)) in
      if length d \<le> INT_MAX_STR_DIGITS then Some (if n < 0 then 45 # d else d) else None)"


lemma codes_nth_digit: "all_digits s \<Longrightarrow> c \<in> set (codes s) \<Longrightarrow> 48 \<le> c \<and> c < 58"
  by (auto simp: codes_def all_digits_iff is_digit_def)

lemma decimal_digit_ascii: "is_digit c \<Longrightarrow> decimal_digit (of_char c) = Some (digit_val c)"
  by (simp add: decimal_digit_def decimal_zeros_def is_digit_def digit_val_def)

lemma int_digits_ascii:
  "all_digits s \<Longrightarrow> int_digits (codes s @ t) acc n = int_digits t (acc * 10 ^ length s + dec_val s) (n + length s)"
proof (induction s arbitrary: acc n)
  case Nil
  then show ?case
    by (simp add: codes_def)
next
  case (Cons c s)
  have "is_digit c" "all_digits s"
    using Cons.prems by simp_all
  moreover have "dec_val (c # s) = digit_val c * 10 ^ length s + dec_val s"
    using dec_val_append [of "[c]" s] by (simp add: dec_val_def)
  ultimately show ?case
    using Cons.IH [of "acc * 10 + digit_val c" "n + 1"] by (simp add: codes_def decimal_digit_ascii algebra_simps)
qed

lemma unsigned_int_digits:
  assumes "all_digits s" and "s \<noteq> []" and "length s \<le> INT_MAX_STR_DIGITS"
  shows "unsigned_int (codes s) = Some (int (dec_val s))"
  using int_digits_ascii [OF assms(1), of "[]" 0 0] assms(2,3) by (simp add: unsigned_int_def)

lemma dropWhile_id: "s \<noteq> [] \<Longrightarrow> \<not> P (hd s) \<Longrightarrow> dropWhile P s = s"
  by (cases s) simp_all

lemma strip_spaces_id:
  "s \<noteq> [] \<Longrightarrow> hd s \<notin> set int_spaces \<Longrightarrow> last s \<notin> set int_spaces \<Longrightarrow> strip_spaces s = s"
proof -
  assume s: "s \<noteq> []" "hd s \<notin> set int_spaces" "last s \<notin> set int_spaces"
  then have "dropWhile (\<lambda>c. c \<in> set int_spaces) s = s" "dropWhile (\<lambda>c. c \<in> set int_spaces) (rev s) = rev s"
    by (simp_all add: dropWhile_id hd_rev)
  then show ?thesis
    by (simp add: strip_spaces_def)
qed

text \<open>\<open>int(str(n)) == n\<close>, also with zeros in front of the digits.\<close>

lemma text_int_codes:
  assumes "all_digits s" and "s \<noteq> []" and "length s \<le> INT_MAX_STR_DIGITS"
  shows "text_int (codes s) = Some (int (dec_val s))" and "text_int (45 # codes s) = Some (- int (dec_val s))"
proof -
  have ne: "codes s \<noteq> []"
    using assms(2) by (simp add: codes_def)
  have range: "48 \<le> hd (codes s)" "hd (codes s) < 58" "48 \<le> last (codes s)" "last (codes s) < 58"
    using codes_nth_digit [OF assms(1) hd_in_set [OF ne]] codes_nth_digit [OF assms(1) last_in_set [OF ne]] by auto
  then have sp: "hd (codes s) \<notin> set int_spaces" "last (codes s) \<notin> set int_spaces"
    by (auto simp: int_spaces_def)
  obtain c t where ct: "codes s = c # t"
    using ne by (cases "codes s") auto
  show "text_int (codes s) = Some (int (dec_val s))"
    using strip_spaces_id [OF ne sp] range(1,2) ct unsigned_int_digits [OF assms] by (simp add: text_int_def)
  have "strip_spaces (45 # codes s) = 45 # codes s"
    by (rule strip_spaces_id) (use ne sp in \<open>simp_all add: int_spaces_def\<close>)
  then show "text_int (45 # codes s) = Some (- int (dec_val s))"
    using unsigned_int_digits [OF assms] by (simp add: text_int_def)
qed

lemma text_int_int_text:
  assumes "int_text n = Some s"
  shows "text_int s = Some n"
  using assms text_int_codes [of "dec_str (nat \<bar>n\<bar>)"] by (auto simp: int_text_def codes_def Let_def split: if_splits)

end
