(* ===== verification/CSV_Framer.thy ===== *)
theory CSV_Framer
  imports Unicode_Text
begin

text \<open>
  The CSV record framer, \<open>io/csv_framer.py\<close>. \<open>iter_csv_records\<close> is modelled with the code's own block
  positions and scanning calls (\<open>bytes.find\<close>, the terminator regular expression, the held CR); the
  file handle is the list of the blocks its \<open>read\<close> returns. A generator's result is the list of
  yielded records and how it ended. \<open>split_record_fields\<close> is modelled on code points, with the UTF-8
  decoder of \<open>Unicode_Text\<close>.

  The reference is the four-state machine of the module docstring, one byte at a time. The main lemma
  is a simulation: what remains to be read, run through the machine from the abstraction of the
  scanner's state, is the same before and after every scanner step. It follows that the framer yields
  what the machine yields, however the input is cut into blocks.
\<close>

section \<open>Model\<close>

definition QUOTE :: byte where "QUOTE = 34"
definition COMMA :: byte where "COMMA = 44"
definition CR :: byte where "CR = 13"
definition LF :: byte where "LF = 10"
definition BOM :: bytes where "BOM = [239, 187, 191]"

lemmas csv_bytes = QUOTE_def COMMA_def CR_def LF_def

lemma csv_bytes_distinct [simp]:
  "QUOTE \<noteq> COMMA" "COMMA \<noteq> QUOTE" "QUOTE \<noteq> CR" "CR \<noteq> QUOTE" "QUOTE \<noteq> LF" "LF \<noteq> QUOTE"
  "COMMA \<noteq> CR" "CR \<noteq> COMMA" "COMMA \<noteq> LF" "LF \<noteq> COMMA" "CR \<noteq> LF" "LF \<noteq> CR"
  by (simp_all add: csv_bytes)

datatype csv_stop = CsvRecordTooLarge nat | CsvUnterminatedQuote nat | CsvValueError

datatype scan_mode = CLEAN | QUOTED | AFTER_QUOTE

text \<open>\<open>sc_out\<close> collects the yielded records; \<open>sc_pos\<close> and \<open>sc_rec_start\<close> are positions in the current
  block, the other fields live across blocks.\<close>

record scan =
  sc_mode :: scan_mode
  sc_at_start :: bool
  sc_pieces :: "bytes list"
  sc_rec_len :: nat
  sc_index :: nat
  sc_pending_cr :: bool
  sc_first_block :: bool
  sc_pos :: nat
  sc_rec_start :: nat
  sc_held_cr :: bool
  sc_out :: "bytes list"

definition slice :: "nat \<Rightarrow> nat \<Rightarrow> 'a list \<Rightarrow> 'a list" where
  "slice i j xs = take (j - i) (drop i xs)"

text \<open>\<open>block.find(c, pos)\<close>, and the next match of the terminator expression in \<open>block[i:e]\<close>.\<close>

definition find_byte :: "byte \<Rightarrow> bytes \<Rightarrow> nat \<Rightarrow> nat option" where
  "find_byte c b i = (let k = length (takeWhile (\<lambda>x. x \<noteq> c) (drop i b)) in
     if i + k < length b then Some (i + k) else None)"

definition next_terminator :: "bytes \<Rightarrow> nat \<Rightarrow> nat \<Rightarrow> (nat \<times> nat) option" where
  "next_terminator b i e = (let k = i + length (takeWhile (\<lambda>x. x \<noteq> CR \<and> x \<noteq> LF) (slice i e b)) in
     if k < e then Some (k, if b ! k = CR \<and> k + 1 < e \<and> b ! (k + 1) = LF then k + 2 else k + 1) else None)"

lemma next_terminator_bounds:
  "next_terminator b i e = Some (st, en) \<Longrightarrow> i \<le> st \<and> st < en \<and> en \<le> e"
  by (auto simp: next_terminator_def Let_def split: if_splits)

definition emit_record :: "bytes \<Rightarrow> nat \<Rightarrow> scan \<Rightarrow> scan" where
  "emit_record b en s =
     s\<lparr>sc_out := sc_out s @ [concat (sc_pieces s) @ slice (sc_rec_start s) en b],
       sc_pieces := [], sc_rec_len := 0, sc_index := sc_index s + 1,
       sc_rec_start := en, sc_at_start := True\<rparr>"

lemma emit_record_simps [simp]:
  "sc_out (emit_record b en s) = sc_out s @ [concat (sc_pieces s) @ slice (sc_rec_start s) en b]"
  "sc_pieces (emit_record b en s) = []" "sc_rec_len (emit_record b en s) = 0"
  "sc_index (emit_record b en s) = sc_index s + 1" "sc_rec_start (emit_record b en s) = en"
  "sc_at_start (emit_record b en s) = True" "sc_mode (emit_record b en s) = sc_mode s"
  "sc_pos (emit_record b en s) = sc_pos s" "sc_held_cr (emit_record b en s) = sc_held_cr s"
  "sc_pending_cr (emit_record b en s) = sc_pending_cr s" "sc_first_block (emit_record b en s) = sc_first_block s"
  by (simp_all add: emit_record_def)

text \<open>The loop over the terminators of a quote-free region; \<open>i\<close> is the code's \<open>cursor\<close>.\<close>

function scan_terminators ::
    "nat \<Rightarrow> bytes \<Rightarrow> nat \<Rightarrow> nat \<Rightarrow> scan \<Rightarrow> (bytes list \<times> csv_stop) + (scan \<times> nat)" where
  "scan_terminators mx b e i s =
     (case next_terminator b i e of
        None \<Rightarrow> Inr (s, i)
      | Some (st, en) \<Rightarrow>
          if sc_rec_len s + (st - sc_rec_start s) > mx then Inl (sc_out s, CsvRecordTooLarge (sc_index s))
          else scan_terminators mx b e en (emit_record b en s))"
  by pat_completeness auto
termination
  by (relation "measure (\<lambda>(mx, b, e, i, s). e - i)") (auto dest: next_terminator_bounds)

declare scan_terminators.simps [simp del]

definition region_end :: "bytes \<Rightarrow> nat \<Rightarrow> nat" where
  "region_end b i = (case find_byte QUOTE b i of
     Some q \<Rightarrow> q
   | None \<Rightarrow> if b ! (length b - 1) = CR then length b - 1 else length b)"

text \<open>One pass over a clean region: terminators, the field-start flag, then the quote that ends it.\<close>

definition scan_clean :: "nat \<Rightarrow> bytes \<Rightarrow> scan \<Rightarrow> (bytes list \<times> csv_stop) + scan" where
  "scan_clean mx b s =
     (let e = region_end b (sc_pos s) in
      and_then (scan_terminators mx b e (sc_pos s) s) (\<lambda>(s', cursor).
      let start = (if cursor < e then b ! (e - 1) = COMMA else sc_at_start s') in
      case find_byte QUOTE b (sc_pos s) of
        None \<Rightarrow> Inr (s'\<lparr>sc_at_start := start, sc_pos := length b, sc_held_cr := b ! (length b - 1) = CR\<rparr>)
      | Some q \<Rightarrow> Inr (s'\<lparr>sc_at_start := start, sc_pos := q + 1, sc_mode := if start then QUOTED else CLEAN\<rparr>)))"

text \<open>One round of \<open>while pos < n\<close>. It advances \<open>pos\<close> or leaves \<open>AFTER_QUOTE\<close>.\<close>

definition scan_step :: "nat \<Rightarrow> bytes \<Rightarrow> scan \<Rightarrow> (bytes list \<times> csv_stop) + scan" where
  "scan_step mx b s =
     (case sc_mode s of
        QUOTED \<Rightarrow> (case find_byte QUOTE b (sc_pos s) of
            None \<Rightarrow> Inr (s\<lparr>sc_pos := length b\<rparr>)
          | Some q \<Rightarrow> Inr (s\<lparr>sc_pos := q + 1, sc_mode := AFTER_QUOTE\<rparr>))
      | AFTER_QUOTE \<Rightarrow>
          if b ! sc_pos s = QUOTE then Inr (s\<lparr>sc_mode := QUOTED, sc_pos := sc_pos s + 1\<rparr>)
          else Inr (s\<lparr>sc_mode := CLEAN, sc_at_start := False\<rparr>)
      | CLEAN \<Rightarrow> scan_clean mx b s)"

definition scan_measure :: "bytes \<Rightarrow> scan \<Rightarrow> nat" where
  "scan_measure b s = 2 * (length b - sc_pos s) + (if sc_mode s = AFTER_QUOTE then 1 else 0)"

lemma find_byte_Some:
  assumes "find_byte c b i = Some q"
  shows "i \<le> q" and "q < length b" and "b ! q = c" and "c \<notin> set (slice i q b)"
proof -
  let ?t = "takeWhile (\<lambda>x. x \<noteq> c) (drop i b)"
  have q: "q = i + length ?t" "q < length b"
    using assms by (auto simp: find_byte_def Let_def split: if_splits)
  show "i \<le> q" "q < length b"
    using q by auto
  have "length ?t < length (drop i b)"
    using q by simp
  then show "b ! q = c"
    using nth_length_takeWhile [of "\<lambda>x. x \<noteq> c" "drop i b"] q by simp
  have "slice i q b = ?t"
    using q(1) by (simp add: slice_def takeWhile_eq_take [symmetric])
  then show "c \<notin> set (slice i q b)"
    by (auto dest: set_takeWhileD)
qed

lemma find_byte_None: "find_byte c b i = None \<Longrightarrow> c \<notin> set (drop i b)"
proof
  assume n: "find_byte c b i = None" and c: "c \<in> set (drop i b)"
  then have "i < length b"
    by (cases "i < length b") auto
  moreover have "length (takeWhile (\<lambda>x. x \<noteq> c) (drop i b)) < length (drop i b)"
    using c by (metis (mono_tags) takeWhile_eq_all_conv length_takeWhile_le le_neq_implies_less takeWhile_eq_take take_all_iff)
  ultimately show False
    using n by (auto simp: find_byte_def Let_def split: if_splits)
qed

lemma scan_terminators_keeps:
  "scan_terminators mx b e i s = Inr (s', c) \<Longrightarrow> sc_mode s' = sc_mode s \<and> sc_pos s' = sc_pos s \<and>
     sc_held_cr s' = sc_held_cr s \<and> sc_pending_cr s' = sc_pending_cr s \<and> sc_first_block s' = sc_first_block s"
proof (induction mx b e i s rule: scan_terminators.induct)
  case (1 mx b e i s)
  show ?case
  proof (cases "next_terminator b i e")
    case None
    then show ?thesis
      using "1.prems" by (simp add: scan_terminators.simps [of mx b e i s])
  next
    case (Some se)
    obtain st en where se: "se = (st, en)"
      by force
    have step: "scan_terminators mx b e i s = (if sc_rec_len s + (st - sc_rec_start s) > mx
        then Inl (sc_out s, CsvRecordTooLarge (sc_index s)) else scan_terminators mx b e en (emit_record b en s))"
      using Some se by (subst scan_terminators.simps) simp
    show ?thesis
      using "1.prems" "1.IH" [OF Some se [symmetric]] unfolding step by (simp split: if_splits)
  qed
qed

lemma scan_step_decreases:
  assumes "scan_step mx b s = Inr s'" and "sc_pos s < length b"
  shows "scan_measure b s' < scan_measure b s"
proof (cases "sc_mode s")
  case CLEAN
  then show ?thesis
    using assms find_byte_Some(1) [of QUOTE b "sc_pos s"]
    by (auto simp: scan_step_def scan_clean_def Let_def result_simps scan_measure_def
        dest!: scan_terminators_keeps split: option.splits)
next
  case QUOTED
  then show ?thesis
    using assms find_byte_Some(1,2) [of QUOTE b "sc_pos s"]
    by (fastforce simp: scan_step_def scan_measure_def split: option.splits)
next
  case AFTER_QUOTE
  then show ?thesis
    using assms by (auto simp: scan_step_def scan_measure_def split: if_splits)
qed

function scan_block :: "nat \<Rightarrow> bytes \<Rightarrow> scan \<Rightarrow> (bytes list \<times> csv_stop) + scan" where
  "scan_block mx b s =
     (if sc_pos s < length b then and_then (scan_step mx b s) (scan_block mx b) else Inr s)"
  by pat_completeness auto
termination
  by (relation "measure (\<lambda>(mx, b, s). scan_measure b s)") (auto dest: scan_step_decreases)

declare scan_block.simps [simp del]

text \<open>The part of a round before the loop: the byte-order mark and the CR held from the last block.\<close>

definition open_block :: "bytes \<Rightarrow> scan \<Rightarrow> scan" where
  "open_block b s =
     (let pos = (if sc_first_block s \<and> take 3 b = BOM then 3 else 0);
          s1 = s\<lparr>sc_first_block := False, sc_pending_cr := False, sc_pos := pos, sc_rec_start := 0,
                 sc_held_cr := False\<rparr> in
      if sc_pending_cr s then
        (let lf = (b ! 0 = LF) in
         s1\<lparr>sc_out := sc_out s @ [concat (sc_pieces s) @ (if lf then [CR, LF] else [CR])],
            sc_pieces := [], sc_rec_len := 0, sc_index := sc_index s + 1, sc_at_start := True, sc_mode := CLEAN,
            sc_pos := (if lf then max pos 1 else pos), sc_rec_start := (if lf then 1 else 0)\<rparr>)
      else s1)"

definition close_block :: "nat \<Rightarrow> bytes \<Rightarrow> scan \<Rightarrow> (bytes list \<times> csv_stop) + scan" where
  "close_block mx b s =
     (let body_end = (if sc_held_cr s then length b - 1 else length b);
          s1 = (if sc_rec_start s < body_end
                then s\<lparr>sc_pieces := sc_pieces s @ [slice (sc_rec_start s) body_end b],
                       sc_rec_len := sc_rec_len s + (body_end - sc_rec_start s)\<rparr>
                else s) in
      if sc_rec_len s1 > mx then Inl (sc_out s1, CsvRecordTooLarge (sc_index s1))
      else Inr (s1\<lparr>sc_pending_cr := sc_held_cr s1\<rparr>))"

definition frame_block :: "nat \<Rightarrow> scan \<Rightarrow> bytes \<Rightarrow> (bytes list \<times> csv_stop) + scan" where
  "frame_block mx s b = and_then (scan_block mx b (open_block b s)) (close_block mx b)"

definition scan_init :: scan where
  "scan_init = \<lparr>sc_mode = CLEAN, sc_at_start = True, sc_pieces = [], sc_rec_len = 0, sc_index = 0,
     sc_pending_cr = False, sc_first_block = True, sc_pos = 0, sc_rec_start = 0, sc_held_cr = False, sc_out = []\<rparr>"

definition frame_end :: "scan \<Rightarrow> bytes list \<times> csv_stop option" where
  "frame_end s =
     (if sc_pending_cr s then (sc_out s @ [concat (sc_pieces s) @ [CR]], None)
      else if sc_mode s = QUOTED then (sc_out s, Some (CsvUnterminatedQuote (sc_index s)))
      else if sc_pieces s \<noteq> [] then (sc_out s @ [concat (sc_pieces s)], None)
      else (sc_out s, None))"

definition frame_blocks :: "nat \<Rightarrow> bytes list \<Rightarrow> bytes list \<times> csv_stop option" where
  "frame_blocks mx blocks =
     (case fold_result (frame_block mx) scan_init blocks of
        Inl (recs, stop) \<Rightarrow> (recs, Some stop)
      | Inr s \<Rightarrow> frame_end s)"

text \<open>Blocks of a buffered file: \<open>read(block_size)\<close> until it returns nothing.\<close>

function read_blocks :: "nat \<Rightarrow> bytes \<Rightarrow> bytes list" where
  "read_blocks n xs = (if n = 0 \<or> xs = [] then [] else take n xs # read_blocks n (drop n xs))"
  by pat_completeness auto
termination
  by (relation "measure (\<lambda>(n, xs). length xs)") auto

declare read_blocks.simps [simp del]

definition iter_csv_records :: "bytes \<Rightarrow> nat \<Rightarrow> nat \<Rightarrow> bytes list \<times> csv_stop option" where
  "iter_csv_records file mx block_size =
     (if block_size < 4 then ([], Some CsvValueError) else frame_blocks mx (read_blocks block_size file))"

subsection \<open>Fields of a record\<close>

definition removesuffix :: "nat \<Rightarrow> nat list \<Rightarrow> nat list" where
  "removesuffix c t = (if t \<noteq> [] \<and> last t = c then butlast t else t)"

text \<open>The quoted part of a field after its opening quote: the text up to the closing quote with doubled
  quotes undoubled, and the rest of the line.\<close>

fun quoted_part :: "nat list \<Rightarrow> (nat list \<times> nat list) option" where
  "quoted_part [] = None"
| "quoted_part [c] = (if c = 34 then Some ([], []) else None)"
| "quoted_part (c # d # t) =
     (if c = 34 then
        (if d = 34 then map_option (\<lambda>(p, r). (34 # p, r)) (quoted_part t) else Some ([], d # t))
      else map_option (\<lambda>(p, r). (c # p, r)) (quoted_part (d # t)))"

lemma quoted_part_length: "quoted_part t = Some (p, r) \<Longrightarrow> length r < length t"
  by (induction t arbitrary: p r rule: quoted_part.induct) (fastforce split: if_splits)+

definition next_field :: "nat list \<Rightarrow> (nat list \<times> nat list) option" where
  "next_field t =
     (case t of
        c # u \<Rightarrow>
          if c = 34 then map_option (\<lambda>(p, r). (p @ takeWhile (\<lambda>x. x \<noteq> 44) r, dropWhile (\<lambda>x. x \<noteq> 44) r)) (quoted_part u)
          else Some (takeWhile (\<lambda>x. x \<noteq> 44) t, dropWhile (\<lambda>x. x \<noteq> 44) t)
      | [] \<Rightarrow> Some ([], []))"

lemma next_field_length: "next_field t = Some (f, r) \<Longrightarrow> length r \<le> length t"
proof (cases t)
  case (Cons c u)
  assume "next_field t = Some (f, r)"
  then show ?thesis
    using Cons quoted_part_length [of u] length_dropWhile_le [of "\<lambda>x. x \<noteq> 44" t]
      length_dropWhile_le [of "\<lambda>x. x \<noteq> 44"]
    by (fastforce simp: next_field_def simp del: dropWhile.simps split: if_splits intro: le_trans)
qed (simp add: next_field_def)

function split_fields :: "nat list \<Rightarrow> nat list list option" where
  "split_fields t =
     (case next_field t of
        None \<Rightarrow> None
      | Some (f, r) \<Rightarrow>
          (case r of
             [] \<Rightarrow> Some [f]
           | c # u \<Rightarrow> if u = [] then Some [f, []] else map_option ((#) f) (split_fields u)))"
  by pat_completeness auto
termination
  by (relation "measure length") (auto dest: next_field_length)

declare split_fields.simps [simp del]

definition split_record_fields :: "bytes \<Rightarrow> nat list list option" where
  "split_record_fields rec =
     (case utf8_decode (if take 3 rec = BOM then drop 3 rec else rec) of
        None \<Rightarrow> None
      | Some t \<Rightarrow> split_fields (removesuffix 13 (removesuffix 10 t)))"

section \<open>The reference machine\<close>

text \<open>The states of the module docstring, and \<open>FCr\<close>: a CR outside quotes that waits for the next byte.
  A machine state holds the record in progress and the finished records, each as body and
  terminator.\<close>

datatype fmode = FStart | FUnquoted | FQuoted | FAfter | FCr

type_synonym fstate = "fmode \<times> bytes \<times> (bytes \<times> bytes) list"

fun clean_byte :: "fmode \<Rightarrow> bytes \<Rightarrow> (bytes \<times> bytes) list \<Rightarrow> byte \<Rightarrow> fstate" where
  "clean_byte m cur recs c =
     (if c = CR then (FCr, cur, recs)
      else if c = LF then (FStart, [], recs @ [(cur, [LF])])
      else if c = COMMA then (FStart, cur @ [c], recs)
      else if c = QUOTE \<and> m = FStart then (FQuoted, cur @ [c], recs)
      else (FUnquoted, cur @ [c], recs))"

fun frame_byte :: "fstate \<Rightarrow> byte \<Rightarrow> fstate" where
  "frame_byte (FCr, cur, recs) c =
     (if c = LF then (FStart, [], recs @ [(cur, [CR, LF])]) else clean_byte FStart [] (recs @ [(cur, [CR])]) c)"
| "frame_byte (FQuoted, cur, recs) c = (if c = QUOTE then FAfter else FQuoted, cur @ [c], recs)"
| "frame_byte (FAfter, cur, recs) c =
     (if c = QUOTE then (FQuoted, cur @ [c], recs) else clean_byte FUnquoted cur recs c)"
| "frame_byte (FStart, cur, recs) c = clean_byte FStart cur recs c"
| "frame_byte (FUnquoted, cur, recs) c = clean_byte FUnquoted cur recs c"

definition frame_bytes :: "fstate \<Rightarrow> bytes \<Rightarrow> fstate" where
  "frame_bytes S xs = foldl frame_byte S xs"

definition frame_file :: "bytes \<Rightarrow> fstate" where
  "frame_file xs = (if take 3 xs = BOM then frame_bytes (FStart, BOM, []) (drop 3 xs)
     else frame_bytes (FStart, [], []) xs)"

definition join_record :: "bytes \<times> bytes \<Rightarrow> bytes" where
  "join_record r = fst r @ snd r"

text \<open>What the machine yields: the records up to the first one whose body is longer than the cap, the
  record in progress counted; else all of them, unless the file ends inside quotes.\<close>

fun frame_result :: "nat \<Rightarrow> fstate \<Rightarrow> bytes list \<times> csv_stop option" where
  "frame_result mx (m, cur, recs) =
     (let parts = recs @ (if m = FCr then [(cur, [CR])] else if cur = [] then [] else [(cur, [])]);
          ok = takeWhile (\<lambda>r. length (fst r) \<le> mx) parts in
      if length ok < length parts then (map join_record ok, Some (CsvRecordTooLarge (length ok)))
      else if m = FQuoted then (map join_record recs, Some (CsvUnterminatedQuote (length recs)))
      else (map join_record parts, None))"

lemma frame_bytes_Nil [simp]: "frame_bytes S [] = S"
  by (simp add: frame_bytes_def)

lemma frame_bytes_Cons [simp]: "frame_bytes S (x # xs) = frame_bytes (frame_byte S x) xs"
  by (simp add: frame_bytes_def)

lemma frame_bytes_append [simp]: "frame_bytes S (xs @ ys) = frame_bytes (frame_bytes S xs) ys"
  by (simp add: frame_bytes_def)

lemma frame_bytes_quoted:
  "QUOTE \<notin> set ws \<Longrightarrow> frame_bytes (FQuoted, cur, recs) ws = (FQuoted, cur @ ws, recs)"
  by (induction ws arbitrary: cur) auto

lemma frame_bytes_clean:
  assumes "QUOTE \<notin> set ws" and "CR \<notin> set ws" and "LF \<notin> set ws" and "m = FStart \<or> m = FUnquoted"
  shows "frame_bytes (m, cur, recs) ws =
    (if ws = [] then m else if last ws = COMMA then FStart else FUnquoted, cur @ ws, recs)"
  using assms
proof (induction ws arbitrary: m cur)
  case Nil
  then show ?case by simp
next
  case (Cons w ws)
  have "frame_byte (m, cur, recs) w = (if w = COMMA then FStart else FUnquoted, cur @ [w], recs)"
    using Cons.prems by auto
  then show ?case
    using Cons.IH [of "if w = COMMA then FStart else FUnquoted" "cur @ [w]"] Cons.prems by auto
qed

section \<open>Too-large records\<close>

fun too_large :: "nat \<Rightarrow> fstate \<Rightarrow> nat \<Rightarrow> bytes list \<Rightarrow> bool" where
  "too_large mx (m, cur, recs) k out \<longleftrightarrow> k \<le> length recs \<and> out = map join_record (take k recs) \<and>
     (\<forall>r \<in> set (take k recs). length (fst r) \<le> mx) \<and>
     (if k < length recs then mx < length (fst (recs ! k)) else mx < length cur)"

lemma too_large_clean:
  assumes "too_large mx (m, cur, recs) k out"
  shows "too_large mx (clean_byte m' cur recs c) k out"
  using assms by (auto simp: nth_append)

lemma too_large_flush:
  assumes "too_large mx (m, cur, recs) k out"
  shows "too_large mx (m', cur', recs @ [(cur, t)]) k out"
  using assms by (auto simp: nth_append)

lemma too_large_byte:
  assumes "too_large mx S k out"
  shows "too_large mx (frame_byte S c) k out"
proof (cases S)
  case (fields m cur recs)
  show ?thesis
  proof (cases m)
    case FCr
    then show ?thesis
      using assms fields too_large_clean [OF too_large_flush, of mx m cur recs k out]
      by (simp add: too_large_flush del: too_large.simps clean_byte.simps)
  qed (use assms fields too_large_clean in \<open>auto simp del: clean_byte.simps split: if_splits\<close>)
qed

lemma too_large_bytes: "too_large mx S k out \<Longrightarrow> too_large mx (frame_bytes S xs) k out"
  by (induction xs arbitrary: S) (simp_all add: too_large_byte)

lemma too_large_result:
  assumes "too_large mx S k out"
  shows "frame_result mx S = (out, Some (CsvRecordTooLarge k))"
proof (cases S)
  case (fields m cur recs)
  define parts where "parts = recs @ (if m = FCr then [(cur, [CR])] else if cur = [] then [] else [(cur, [])])"
  have k: "k < length parts" "take k parts = take k recs" "mx < length (fst (parts ! k))"
    using assms fields by (auto simp: parts_def nth_append split: if_splits)
  have small: "\<forall>r \<in> set (take k parts). length (fst r) \<le> mx"
    using assms fields k(2) by simp
  have ok: "takeWhile (\<lambda>r. length (fst r) \<le> mx) parts = take k parts"
  proof (rule takeWhile_eq_take_P_nth)
    show "length (fst (parts ! i)) \<le> mx" if "i < k" "i < length parts" for i
      using small that by (metis in_set_conv_nth length_take min_less_iff_conj nth_take)
  qed (use k(3) in simp)
  then show ?thesis
    using assms fields k(1,2) by (simp add: parts_def [symmetric] Let_def del: takeWhile_append)
qed

section \<open>Simulation of the scanner\<close>

definition mode_of :: "scan \<Rightarrow> fmode" where
  "mode_of s = (case sc_mode s of QUOTED \<Rightarrow> FQuoted | AFTER_QUOTE \<Rightarrow> FAfter
     | CLEAN \<Rightarrow> if sc_at_start s then FStart else FUnquoted)"

definition in_progress :: "bytes \<Rightarrow> nat \<Rightarrow> scan \<Rightarrow> bytes" where
  "in_progress b i s = concat (sc_pieces s) @ slice (sc_rec_start s) i b"

definition scan_inv :: "nat \<Rightarrow> bytes \<Rightarrow> nat \<Rightarrow> (bytes \<times> bytes) list \<Rightarrow> scan \<Rightarrow> bool" where
  "scan_inv mx b i recs s \<longleftrightarrow> sc_rec_start s \<le> i \<and> i \<le> length b \<and> sc_out s = map join_record recs \<and>
     sc_index s = length recs \<and> sc_rec_len s = length (concat (sc_pieces s)) \<and>
     (\<forall>r \<in> set recs. length (fst r) \<le> mx) \<and> [] \<notin> set (sc_pieces s)"

lemma slice_append: "i \<le> j \<Longrightarrow> j \<le> k \<Longrightarrow> slice i j xs @ slice j k xs = slice i k xs"
proof -
  assume "i \<le> j" "j \<le> k"
  then have "take (k - i) (drop i xs) = take ((j - i) + (k - j)) (drop i xs)"
    by simp
  then show ?thesis
    using \<open>i \<le> j\<close> by (simp only: slice_def take_add drop_drop) simp
qed

lemma slice_drop: "i \<le> j \<Longrightarrow> slice i j xs @ drop j xs = drop i xs"
  by (metis append_take_drop_id drop_drop le_add_diff_inverse2 slice_def)

lemma slice_self [simp]: "slice i i xs = []"
  by (simp add: slice_def)

lemma length_slice: "j \<le> length xs \<Longrightarrow> length (slice i j xs) = j - i"
  by (simp add: slice_def)

lemma last_slice: "i < j \<Longrightarrow> j \<le> length xs \<Longrightarrow> last (slice i j xs) = xs ! (j - 1)"
  by (simp add: slice_def last_conv_nth)

lemma slice_Nil_iff: "j \<le> length xs \<Longrightarrow> slice i j xs = [] \<longleftrightarrow> j \<le> i"
  by (auto simp: slice_def)

lemma slice_not_Nil: "i < j \<Longrightarrow> j \<le> length xs \<Longrightarrow> [] \<noteq> slice i j xs"
  by (auto simp: slice_def)

lemma set_slice_mono: "i \<le> j \<Longrightarrow> j \<le> k \<Longrightarrow> set (slice i j xs) \<subseteq> set (slice i k xs)"
  using slice_append [of i j k xs] by (metis Un_upper1 set_append)

lemma set_slice_mono2: "i \<le> j \<Longrightarrow> j \<le> k \<Longrightarrow> set (slice j k xs) \<subseteq> set (slice i k xs)"
  using slice_append [of i j k xs] by (metis Un_upper2 set_append)

lemma takeWhile_length_all: "length xs \<le> length (takeWhile P xs) \<Longrightarrow> takeWhile P xs = xs"
  by (subst takeWhile_eq_take) simp

lemma next_terminator_Some:
  assumes "next_terminator b i e = Some (st, en)" and "e \<le> length b"
  shows "i \<le> st" "st < e" "CR \<notin> set (slice i st b)" "LF \<notin> set (slice i st b)" "b ! st = CR \<or> b ! st = LF"
    "en = (if b ! st = CR \<and> st + 1 < e \<and> b ! (st + 1) = LF then st + 2 else st + 1)"
proof -
  let ?t = "takeWhile (\<lambda>x. x \<noteq> CR \<and> x \<noteq> LF) (slice i e b)"
  have st: "st = i + length ?t" "st < e"
    and en: "en = (if b ! st = CR \<and> st + 1 < e \<and> b ! (st + 1) = LF then st + 2 else st + 1)"
    using assms(1) by (auto simp: next_terminator_def Let_def split: if_splits)
  show "i \<le> st" "st < e" "en = (if b ! st = CR \<and> st + 1 < e \<and> b ! (st + 1) = LF then st + 2 else st + 1)"
    using st en by auto
  have "length ?t < length (slice i e b)"
    using st assms(2) by (simp add: length_slice)
  then show "b ! st = CR \<or> b ! st = LF"
    using nth_length_takeWhile [of "\<lambda>x. x \<noteq> CR \<and> x \<noteq> LF" "slice i e b"] st assms(2)
    by (simp add: slice_def)
  have "?t = take (length ?t) (slice i e b)"
    by (rule takeWhile_eq_take)
  also have "\<dots> = take (st - i) (slice i e b)"
    using st(1) by simp
  also have "\<dots> = slice i st b"
    using st(2) by (simp add: slice_def)
  finally have "slice i st b = ?t" ..
  then show "CR \<notin> set (slice i st b)" "LF \<notin> set (slice i st b)"
    by (auto dest: set_takeWhileD)
qed

lemma next_terminator_None:
  assumes "next_terminator b i e = None" and "i \<le> e" and "e \<le> length b"
  shows "CR \<notin> set (slice i e b)" "LF \<notin> set (slice i e b)"
proof -
  let ?t = "takeWhile (\<lambda>x. x \<noteq> CR \<and> x \<noteq> LF) (slice i e b)"
  have "length (slice i e b) \<le> length ?t"
    using assms by (auto simp: next_terminator_def Let_def length_slice split: if_splits)
  then have "?t = slice i e b"
    by (rule takeWhile_length_all)
  then show "CR \<notin> set (slice i e b)" "LF \<notin> set (slice i e b)"
    by (auto simp: takeWhile_eq_all_conv)
qed

lemma drop_at: "i < length b \<Longrightarrow> drop i b = b ! i # drop (i + 1) b"
  by (simp add: Cons_nth_drop_Suc)

lemma slice_one: "i < length b \<Longrightarrow> slice i (i + 1) b = [b ! i]"
  by (simp add: slice_def drop_at)

lemma slice_two: "i + 1 < length b \<Longrightarrow> slice i (i + 2) b = [b ! i, b ! (i + 1)]"
  using slice_append [of i "i + 1" "i + 2" b] slice_one [of i b] slice_one [of "i + 1" b] by simp

text \<open>The machine runs over a terminated record: when the byte after a lone CR is known not to be LF,
  the held state and the flushed state agree from there on.\<close>

lemma terminator_step:
  assumes nt: "next_terminator b i e = Some (st, en)" and e: "e \<le> length b" and q: "QUOTE \<notin> set (slice i e b)"
    and bnd: "e < length b \<Longrightarrow> b ! e \<noteq> LF" "e = length b \<Longrightarrow> b ! (e - 1) \<noteq> CR"
    and m: "m = FStart \<or> m = FUnquoted"
  shows "frame_bytes (m, cur, recs) (drop i b) =
    frame_bytes (FStart, [], recs @ [(cur @ slice i st b, slice st en b)]) (drop en b)"
proof -
  note t = next_terminator_Some [OF nt e]
  let ?body = "cur @ slice i st b"
  have q': "QUOTE \<notin> set (slice i st b)"
    using q set_slice_mono [of i st e b] t(1,2) by auto
  have run: "\<exists>m'. (m' = FStart \<or> m' = FUnquoted) \<and>
      frame_bytes (m, cur, recs) (drop i b) = frame_bytes (m', ?body, recs) (drop st b)"
    using frame_bytes_clean [OF q' t(3,4) m] m unfolding slice_drop [OF t(1), of b, symmetric] by auto
  then obtain m' where m': "m' = FStart \<or> m' = FUnquoted"
      "frame_bytes (m, cur, recs) (drop i b) = frame_bytes (m', ?body, recs) (drop st b)"
    by blast
  have st: "drop st b = b ! st # drop (st + 1) b" "st < length b"
    using t(2) e drop_at [of st b] by simp_all
  consider (lf) "b ! st = LF" | (crlf) "b ! st = CR" "st + 1 < e" "b ! (st + 1) = LF"
    | (cr) "b ! st = CR" "\<not> (st + 1 < e \<and> b ! (st + 1) = LF)"
    using t(5) by blast
  then show ?thesis
  proof cases
    case lf
    then show ?thesis
      using m' st t(6) slice_one [of st b] by auto
  next
    case crlf
    then have "drop (st + 1) b = LF # drop (st + 2) b"
      using drop_at [of "st + 1" b] e by simp
    then show ?thesis
      using m' st t(6) crlf slice_two [of st b] e by auto
  next
    case cr
    have n: "st + 1 < length b \<and> b ! (st + 1) \<noteq> LF"
    proof (cases "st + 1 < e")
      case True
      then show ?thesis
        using cr e by auto
    next
      case False
      then have "e = st + 1"
        using t(2) by simp
      then show ?thesis
        using bnd cr(1) e by (cases "e = length b") auto
    qed
    then have "drop (st + 1) b = b ! (st + 1) # drop (st + 2) b"
      using drop_at [of "st + 1" b] by simp
    then show ?thesis
      using m' st t(6) cr n slice_one [of st b] by auto
  qed
qed

lemma scan_inv_emit:
  assumes "scan_inv mx b i recs s" and "i \<le> st" "st \<le> en" "en \<le> length b"
    and "sc_rec_len s + (st - sc_rec_start s) \<le> mx"
  shows "scan_inv mx b en (recs @ [(in_progress b i s @ slice i st b, slice st en b)]) (emit_record b en s)"
proof -
  have inv: "sc_rec_start s \<le> i" "sc_rec_len s = length (concat (sc_pieces s))"
    using assms(1) by (auto simp: scan_inv_def)
  have body: "in_progress b i s @ slice i st b = concat (sc_pieces s) @ slice (sc_rec_start s) st b"
    using slice_append [of "sc_rec_start s" i st b] inv(1) assms(2) by (simp add: in_progress_def)
  have "join_record (in_progress b i s @ slice i st b, slice st en b) =
      concat (sc_pieces s) @ slice (sc_rec_start s) en b"
    using slice_append [of "sc_rec_start s" st en b] inv(1) assms(2,3) unfolding body by (simp add: join_record_def)
  moreover have "length (in_progress b i s @ slice i st b) \<le> mx"
    using assms(3-5) inv(2) unfolding body by (simp add: length_slice)
  ultimately show ?thesis
    using assms(1,4) by (auto simp: scan_inv_def)
qed

lemma too_large_here:
  assumes "scan_inv mx b i recs s" and "mx < length cur"
  shows "too_large mx (m, cur, recs) (sc_index s) (sc_out s)"
  using assms by (simp add: scan_inv_def)

text \<open>The terminator loop over a quote-free region \<open>block[i:e]\<close>.\<close>

definition region_mode :: "bytes \<Rightarrow> nat \<Rightarrow> nat \<Rightarrow> scan \<Rightarrow> fmode" where
  "region_mode b c e s = (if c < e then if b ! (e - 1) = COMMA then FStart else FUnquoted else mode_of s)"

lemma scan_terminators_sim:
  assumes "scan_inv mx b i recs s" and "sc_mode s = CLEAN" and "i \<le> e" and "e \<le> length b"
    and "QUOTE \<notin> set (slice i e b)"
    and "e < length b \<Longrightarrow> b ! e \<noteq> LF" and "e = length b \<Longrightarrow> b ! (e - 1) \<noteq> CR"
  shows "case scan_terminators mx b e i s of
      Inl (out, stop) \<Rightarrow> \<exists>k. stop = CsvRecordTooLarge k \<and>
        too_large mx (frame_bytes (mode_of s, in_progress b i s, recs) (drop i b)) k out
    | Inr (s', c) \<Rightarrow> \<exists>recs'. scan_inv mx b e recs' s' \<and>
        frame_bytes (mode_of s, in_progress b i s, recs) (drop i b) =
        frame_bytes (region_mode b c e s', in_progress b e s', recs') (drop e b)"
  using assms
proof (induction mx b e i s arbitrary: recs rule: scan_terminators.induct)
  case (1 mx b e i s)
  have mode: "mode_of s = FStart \<or> mode_of s = FUnquoted"
    using "1.prems"(2) by (simp add: mode_of_def)
  have inv: "sc_rec_start s \<le> i" "sc_rec_len s = length (concat (sc_pieces s))"
    using "1.prems"(1) by (auto simp: scan_inv_def)
  show ?case
  proof (cases "next_terminator b i e")
    case None
    note no = next_terminator_None [OF None "1.prems"(3,4)]
    have "in_progress b i s @ slice i e b = in_progress b e s"
      using slice_append [of "sc_rec_start s" i e b] inv(1) "1.prems"(3) by (simp add: in_progress_def)
    moreover have "(if slice i e b = [] then mode_of s else if last (slice i e b) = COMMA then FStart else FUnquoted) =
        region_mode b i e s"
      using "1.prems"(3,4) by (simp add: region_mode_def slice_Nil_iff last_slice)
    ultimately have "frame_bytes (mode_of s, in_progress b i s, recs) (drop i b) =
        frame_bytes (region_mode b i e s, in_progress b e s, recs) (drop e b)"
      using frame_bytes_clean [OF "1.prems"(5) no mode] unfolding slice_drop [OF "1.prems"(3), of b, symmetric]
      by simp
    moreover have "scan_inv mx b e recs s"
      using "1.prems"(1,3,4) by (simp add: scan_inv_def)
    ultimately show ?thesis
      using None by (subst scan_terminators.simps) auto
  next
    case (Some se)
    obtain st en where se: "se = (st, en)"
      by force
    have nt: "next_terminator b i e = Some (st, en)"
      using Some se by simp
    note t = next_terminator_Some(1,2) [OF nt "1.prems"(4)] next_terminator_bounds [OF nt]
    have step: "scan_terminators mx b e i s = (if sc_rec_len s + (st - sc_rec_start s) > mx
        then Inl (sc_out s, CsvRecordTooLarge (sc_index s)) else scan_terminators mx b e en (emit_record b en s))"
      using nt by (subst scan_terminators.simps) simp
    have run: "frame_bytes (mode_of s, in_progress b i s, recs) (drop i b) = frame_bytes (FStart, [],
        recs @ [(in_progress b i s @ slice i st b, slice st en b)]) (drop en b)"
      by (rule terminator_step [OF nt "1.prems"(4,5,6,7) mode])
    show ?thesis
    proof (cases "sc_rec_len s + (st - sc_rec_start s) > mx")
      case True
      have "length (in_progress b i s @ slice i st b) = sc_rec_len s + (st - sc_rec_start s)"
        using inv t(1,2) "1.prems"(4) by (simp add: in_progress_def length_slice)
      then have "too_large mx (FStart, in_progress b i s @ slice i st b, recs) (sc_index s) (sc_out s)"
        using True by (intro too_large_here [OF "1.prems"(1)]) simp
      then have "too_large mx (FStart, [], recs @ [(in_progress b i s @ slice i st b, slice st en b)])
          (sc_index s) (sc_out s)"
        by (rule too_large_flush)
      from too_large_bytes [OF this] show ?thesis
        using True by (simp add: step run del: too_large.simps)
    next
      case False
      define recs' where "recs' = recs @ [(in_progress b i s @ slice i st b, slice st en b)]"
      have inv': "scan_inv mx b en recs' (emit_record b en s)"
        using scan_inv_emit [OF "1.prems"(1), of st en] False t "1.prems"(4) by (simp add: recs'_def)
      have q': "QUOTE \<notin> set (slice en e b)"
        using "1.prems"(5) set_slice_mono2 [of i en e b] t by auto
      have eq: "frame_bytes (mode_of s, in_progress b i s, recs) (drop i b) =
          frame_bytes (mode_of (emit_record b en s), in_progress b en (emit_record b en s), recs') (drop en b)"
        using run "1.prems"(2) by (simp add: mode_of_def in_progress_def recs'_def)
      show ?thesis
        using "1.IH" [OF Some se [symmetric] _ inv' _ _ "1.prems"(4) q' "1.prems"(6,7)] False "1.prems"(2) t
        unfolding step eq by simp
    qed
  qed
qed

text \<open>The loop invariant: the rest of the block, run through the machine from the abstraction of the
  scanner state, gives the fixed state \<open>F\<close>. A held CR is the one byte already passed but not yet
  abstracted.\<close>

definition loop_inv :: "nat \<Rightarrow> bytes \<Rightarrow> fstate \<Rightarrow> scan \<Rightarrow> bool" where
  "loop_inv mx b F s \<longleftrightarrow> (\<exists>recs.
     if sc_held_cr s then sc_mode s = CLEAN \<and> sc_pos s = length b \<and> b \<noteq> [] \<and> scan_inv mx b (length b - 1) recs s \<and>
       F = frame_byte (mode_of s, in_progress b (length b - 1) s, recs) CR
     else scan_inv mx b (sc_pos s) recs s \<and>
       F = frame_bytes (mode_of s, in_progress b (sc_pos s) s, recs) (drop (sc_pos s) b))"

lemma loop_invI:
  assumes "\<not> sc_held_cr s" and "scan_inv mx b (sc_pos s) recs s"
    and "F = frame_bytes (mode_of s, in_progress b (sc_pos s) s, recs) (drop (sc_pos s) b)"
  shows "loop_inv mx b F s"
  using assms unfolding loop_inv_def by auto

lemma in_progress_step:
  assumes "sc_rec_start s \<le> i" and "i \<le> j"
  shows "in_progress b i s @ slice i j b = in_progress b j s"
  using slice_append [of "sc_rec_start s" i j b] assms by (simp add: in_progress_def)

lemma scan_quoted_sim:
  assumes inv: "scan_inv mx b (sc_pos s) recs s" and m: "sc_mode s = QUOTED" and "\<not> sc_held_cr s"
    and F: "F = frame_bytes (mode_of s, in_progress b (sc_pos s) s, recs) (drop (sc_pos s) b)"
    and s': "scan_step mx b s = Inr s'"
  shows "loop_inv mx b F s'"
proof -
  have rs: "sc_rec_start s \<le> sc_pos s" "sc_pos s \<le> length b"
    using inv by (auto simp: scan_inv_def)
  have mode: "mode_of s = FQuoted"
    using m by (simp add: mode_of_def)
  show ?thesis
  proof (cases "find_byte QUOTE b (sc_pos s)")
    case None
    have "frame_bytes (FQuoted, in_progress b (sc_pos s) s, recs) (drop (sc_pos s) b) =
        (FQuoted, in_progress b (length b) s, recs)"
      using frame_bytes_quoted [OF find_byte_None [OF None]] in_progress_step [OF rs, of b]
        slice_drop [OF rs(2), of b] by simp
    then show ?thesis
      using s' None m mode F inv assms(3) rs
      by (intro loop_invI [where recs = recs])
        (auto simp: scan_step_def scan_inv_def mode_of_def in_progress_def)
  next
    case (Some q)
    note q = find_byte_Some [OF Some]
    have d: "drop (sc_pos s) b = slice (sc_pos s) q b @ QUOTE # drop (q + 1) b"
      using slice_drop [OF q(1), of b] drop_at [OF q(2)] q(3) by simp
    have "frame_bytes (FQuoted, in_progress b (sc_pos s) s, recs) (drop (sc_pos s) b) =
        frame_bytes (FAfter, in_progress b q s @ [QUOTE], recs) (drop (q + 1) b)"
      using frame_bytes_quoted [OF q(4), of "in_progress b (sc_pos s) s" recs]
        in_progress_step [OF rs(1) q(1), of b] unfolding d by simp
    moreover have "in_progress b q s @ [QUOTE] = in_progress b (q + 1) s"
      using in_progress_step [of s q "q + 1" b] rs(1) q slice_one [of q b] by simp
    ultimately show ?thesis
      using s' Some m mode F inv assms(3) q rs
      by (intro loop_invI [where recs = recs])
        (auto simp: scan_step_def scan_inv_def mode_of_def in_progress_def)
  qed
qed

lemma scan_after_sim:
  assumes inv: "scan_inv mx b (sc_pos s) recs s" and m: "sc_mode s = AFTER_QUOTE" and "\<not> sc_held_cr s"
    and F: "F = frame_bytes (mode_of s, in_progress b (sc_pos s) s, recs) (drop (sc_pos s) b)"
    and s': "scan_step mx b s = Inr s'" and pos: "sc_pos s < length b"
  shows "loop_inv mx b F s'"
proof -
  have rs: "sc_rec_start s \<le> sc_pos s"
    using inv by (auto simp: scan_inv_def)
  have d: "drop (sc_pos s) b = b ! sc_pos s # drop (sc_pos s + 1) b"
    using drop_at [OF pos] .
  have mode: "mode_of s = FAfter"
    using m by (simp add: mode_of_def)
  show ?thesis
  proof (cases "b ! sc_pos s = QUOTE")
    case True
    have "in_progress b (sc_pos s) s @ [QUOTE] = in_progress b (sc_pos s + 1) s"
      using in_progress_step [of s "sc_pos s" "sc_pos s + 1" b] rs pos slice_one [of "sc_pos s" b] True by simp
    then have "F = frame_bytes (FQuoted, in_progress b (sc_pos s + 1) s, recs) (drop (sc_pos s + 1) b)"
      using F True unfolding d mode by simp
    then show ?thesis
      using s' m inv assms(3) pos True
      by (intro loop_invI [where recs = recs])
        (auto simp: scan_step_def scan_inv_def mode_of_def in_progress_def)
  next
    case False
    have "F = frame_bytes (FUnquoted, in_progress b (sc_pos s) s, recs) (drop (sc_pos s) b)"
      using F False unfolding d mode by simp
    then show ?thesis
      using s' m inv assms(3) False
      by (intro loop_invI [where recs = recs])
        (auto simp: scan_step_def scan_inv_def mode_of_def in_progress_def)
  qed
qed

lemma region_end_bounds:
  assumes "i < length b"
  shows "i \<le> region_end b i" and "region_end b i \<le> length b" and "QUOTE \<notin> set (slice i (region_end b i) b)"
    and "region_end b i < length b \<Longrightarrow> b ! region_end b i \<noteq> LF"
    and "region_end b i = length b \<Longrightarrow> b ! (region_end b i - 1) \<noteq> CR"
proof -
  show "i \<le> region_end b i" "region_end b i \<le> length b"
    using assms by (auto simp: region_end_def dest: find_byte_Some(1,2) split: option.splits)
  show "QUOTE \<notin> set (slice i (region_end b i) b)"
  proof (cases "find_byte QUOTE b i")
    case None
    then show ?thesis
      using find_byte_None by (auto simp: slice_def dest: in_set_takeD)
  next
    case (Some q)
    then show ?thesis
      using find_byte_Some(4) by (simp add: region_end_def)
  qed
  show "region_end b i < length b \<Longrightarrow> b ! region_end b i \<noteq> LF"
    by (auto simp: region_end_def dest: find_byte_Some(3) split: option.splits if_splits)
  show "region_end b i = length b \<Longrightarrow> b ! (region_end b i - 1) \<noteq> CR"
    using assms by (auto simp: region_end_def dest: find_byte_Some(2) split: option.splits if_splits)
qed

lemma scan_clean_sim:
  assumes inv: "scan_inv mx b (sc_pos s) recs s" and m: "sc_mode s = CLEAN" and h: "\<not> sc_held_cr s"
    and F: "F = frame_bytes (mode_of s, in_progress b (sc_pos s) s, recs) (drop (sc_pos s) b)"
    and pos: "sc_pos s < length b"
  shows "case scan_clean mx b s of Inl (out, stop) \<Rightarrow> \<exists>k. stop = CsvRecordTooLarge k \<and> too_large mx F k out
    | Inr s' \<Rightarrow> loop_inv mx b F s'"
proof -
  let ?e = "region_end b (sc_pos s)"
  note e = region_end_bounds [OF pos]
  note sim = scan_terminators_sim [OF inv m e]
  show ?thesis
  proof (cases "scan_terminators mx b ?e (sc_pos s) s")
    case (Inl err)
    then show ?thesis
      using sim F by (cases err) (simp add: scan_clean_def)
  next
    case (Inr r)
    obtain s1 c where r: "r = (s1, c)"
      by force
    obtain recs' where s1: "scan_inv mx b ?e recs' s1"
        "F = frame_bytes (region_mode b c ?e s1, in_progress b ?e s1, recs') (drop ?e b)"
      using sim Inr r F by auto
    note keep = scan_terminators_keeps [OF Inr [unfolded r]]
    define start where "start = (if c < ?e then b ! (?e - 1) = COMMA else sc_at_start s1)"
    have mode: "region_mode b c ?e s1 = (if start then FStart else FUnquoted)"
      using keep m by (simp add: region_mode_def start_def mode_of_def)
    have rs: "sc_rec_start s1 \<le> ?e"
      using s1(1) by (simp add: scan_inv_def)
    show ?thesis
    proof (cases "find_byte QUOTE b (sc_pos s)")
      case None
      have e_def: "?e = (if b ! (length b - 1) = CR then length b - 1 else length b)"
        using None by (simp add: region_end_def)
      let ?s = "s1\<lparr>sc_at_start := start, sc_pos := length b, sc_held_cr := b ! (length b - 1) = CR\<rparr>"
      have "scan_clean mx b s = Inr ?s"
        using Inr r None by (simp add: scan_clean_def start_def Let_def)
      moreover have "loop_inv mx b F ?s"
      proof (cases "b ! (length b - 1) = CR")
        case True
        have "drop (length b - 1) b = [CR]"
          using drop_at [of "length b - 1" b] pos True by simp
        then have "F = frame_byte (mode_of ?s, in_progress b (length b - 1) ?s, recs') CR"
          using s1(2) mode True e_def keep m by (simp add: mode_of_def in_progress_def)
        then show ?thesis
          using True s1(1) keep m pos e_def unfolding loop_inv_def by (auto simp: scan_inv_def)
      next
        case False
        then show ?thesis
          using s1 mode keep m e_def
          by (intro loop_invI [where recs = recs']) (auto simp: mode_of_def in_progress_def scan_inv_def)
      qed
      ultimately show ?thesis
        by simp
    next
      case (Some q)
      note q = find_byte_Some [OF Some]
      have eq: "?e = q"
        using Some by (simp add: region_end_def)
      let ?s = "s1\<lparr>sc_at_start := start, sc_pos := q + 1, sc_mode := if start then QUOTED else CLEAN\<rparr>"
      have "scan_clean mx b s = Inr ?s"
        using Inr r Some by (simp add: scan_clean_def start_def Let_def)
      moreover have "loop_inv mx b F ?s"
      proof (rule loop_invI [where recs = recs'])
        show "\<not> sc_held_cr ?s"
          using keep h by simp
        show "scan_inv mx b (sc_pos ?s) recs' ?s"
          using s1(1) q(2) eq by (simp add: scan_inv_def)
        have "drop q b = QUOTE # drop (q + 1) b"
          using drop_at [OF q(2)] q(3) by simp
        moreover have "in_progress b q s1 @ [QUOTE] = in_progress b (q + 1) s1"
          using in_progress_step [of s1 q "q + 1" b] rs eq q slice_one [of q b] by simp
        ultimately show "F = frame_bytes (mode_of ?s, in_progress b (sc_pos ?s) ?s, recs') (drop (sc_pos ?s) b)"
          using s1(2) mode eq by (simp add: mode_of_def in_progress_def)
      qed
      ultimately show ?thesis
        by simp
    qed
  qed
qed

lemma scan_block_sim:
  assumes "loop_inv mx b F s" and "sc_held_cr s \<longrightarrow> sc_pos s = length b"
  shows "case scan_block mx b s of Inl (out, stop) \<Rightarrow> \<exists>k. stop = CsvRecordTooLarge k \<and> too_large mx F k out
    | Inr s' \<Rightarrow> loop_inv mx b F s' \<and> sc_pos s' = length b"
  using assms
proof (induction mx b s rule: scan_block.induct)
  case (1 mx b s)
  show ?case
  proof (cases "sc_pos s < length b")
    case False
    then have "sc_pos s = length b"
      using "1.prems"(1) by (auto simp: loop_inv_def scan_inv_def split: if_splits)
    then show ?thesis
      using False "1.prems"(1) by (subst scan_block.simps) simp
  next
    case True
    then have h: "\<not> sc_held_cr s"
      using "1.prems"(2) by auto
    obtain recs where inv: "scan_inv mx b (sc_pos s) recs s"
        and F: "F = frame_bytes (mode_of s, in_progress b (sc_pos s) s, recs) (drop (sc_pos s) b)"
      using "1.prems"(1) h by (auto simp: loop_inv_def)
    have step: "case scan_step mx b s of Inl (out, stop) \<Rightarrow> \<exists>k. stop = CsvRecordTooLarge k \<and> too_large mx F k out
        | Inr s' \<Rightarrow> loop_inv mx b F s'"
    proof (cases "sc_mode s")
      case CLEAN
      then show ?thesis
        using scan_clean_sim [OF inv _ h F True] by (simp add: scan_step_def)
    next
      case QUOTED
      then show ?thesis
        using scan_quoted_sim [OF inv _ h F] by (auto simp: scan_step_def split: option.splits)
    next
      case AFTER_QUOTE
      then show ?thesis
        using scan_after_sim [OF inv _ h F _ True] by (auto simp: scan_step_def)
    qed
    show ?thesis
    proof (cases "scan_step mx b s")
      case (Inl err)
      then show ?thesis
        using step True by (subst scan_block.simps) simp
    next
      case (Inr s')
      have "sc_held_cr s' \<longrightarrow> sc_pos s' = length b"
        using step Inr by (auto simp: loop_inv_def)
      then show ?thesis
        using "1.IH" [OF True Inr] step Inr True by (subst scan_block.simps) simp
    qed
  qed
qed

section \<open>Blocks\<close>

text \<open>Between two blocks the framer's state is the machine's state.\<close>

fun block_inv :: "nat \<Rightarrow> fstate \<Rightarrow> scan \<Rightarrow> bool" where
  "block_inv mx (m, cur, recs) s \<longleftrightarrow> sc_out s = map join_record recs \<and> sc_index s = length recs \<and>
     sc_rec_len s = length cur \<and> concat (sc_pieces s) = cur \<and> [] \<notin> set (sc_pieces s) \<and> length cur \<le> mx \<and>
     (\<forall>r \<in> set recs. length (fst r) \<le> mx) \<and> (sc_pending_cr s \<longleftrightarrow> m = FCr) \<and>
     (m \<noteq> FCr \<longrightarrow> mode_of s = m)"

lemma close_block_sim:
  assumes "loop_inv mx b F s" and "sc_pos s = length b"
  shows "case close_block mx b s of Inl (out, stop) \<Rightarrow> \<exists>k. stop = CsvRecordTooLarge k \<and> too_large mx F k out
    | Inr s' \<Rightarrow> block_inv mx F s' \<and> sc_first_block s' = sc_first_block s"
proof -
  let ?e = "if sc_held_cr s then length b - 1 else length b"
  obtain recs where inv: "scan_inv mx b ?e recs s"
      and F: "F = (if sc_held_cr s then (FCr, in_progress b ?e s, recs) else (mode_of s, in_progress b ?e s, recs))"
    using assms by (auto simp: loop_inv_def mode_of_def split: if_splits)
  have mode: "mode_of s \<noteq> FCr"
    by (simp add: mode_of_def split: scan_mode.splits)
  define s1 where "s1 = (if sc_rec_start s < ?e then s\<lparr>sc_pieces := sc_pieces s @ [slice (sc_rec_start s) ?e b],
    sc_rec_len := sc_rec_len s + (?e - sc_rec_start s)\<rparr> else s)"
  have "sc_rec_start s \<le> ?e" "?e \<le> length b"
    using inv by (auto simp: scan_inv_def)
  then have s1: "concat (sc_pieces s1) = in_progress b ?e s" "sc_rec_len s1 = length (in_progress b ?e s)"
      "[] \<notin> set (sc_pieces s1)" "sc_out s1 = sc_out s" "sc_index s1 = sc_index s" "sc_held_cr s1 = sc_held_cr s"
      "sc_mode s1 = sc_mode s" "sc_at_start s1 = sc_at_start s" "sc_first_block s1 = sc_first_block s"
    using inv by (auto simp: s1_def in_progress_def scan_inv_def length_slice slice_not_Nil)
  have close: "close_block mx b s = (if sc_rec_len s1 > mx then Inl (sc_out s1, CsvRecordTooLarge (sc_index s1))
      else Inr (s1\<lparr>sc_pending_cr := sc_held_cr s1\<rparr>))"
    by (simp only: close_block_def s1_def Let_def)
  show ?thesis
  proof (cases "sc_rec_len s1 > mx")
    case True
    have "too_large mx F (sc_index s) (sc_out s)"
      unfolding F using True s1(2) by (auto intro: too_large_here [OF inv] simp del: too_large.simps)
    then show ?thesis
      using True s1 by (simp add: close)
  next
    case False
    then have "block_inv mx F (s1\<lparr>sc_pending_cr := sc_held_cr s1\<rparr>)"
      unfolding F using s1 inv mode by (cases "sc_held_cr s") (simp_all add: scan_inv_def mode_of_def)
    then show ?thesis
      using False s1(9) by (simp add: close)
  qed
qed

lemma open_block_sim:
  assumes "block_inv mx S s" and "b \<noteq> []" and "\<not> sc_first_block s"
  shows "loop_inv mx b (frame_bytes S b) (open_block b s)"
proof (cases S)
  case (fields m cur recs)
  show ?thesis
  proof (cases "sc_pending_cr s")
    case False
    then show ?thesis
      using assms fields
      by (intro loop_invI [where recs = recs])
        (auto simp: open_block_def Let_def scan_inv_def mode_of_def in_progress_def)
  next
    case True
    then have m: "m = FCr"
      using assms(1) fields by simp
    obtain c rest where b: "b = c # rest"
      using assms(2) by (cases b) auto
    show ?thesis
    proof (cases "c = LF")
      case True
      then show ?thesis
        using assms fields m b \<open>sc_pending_cr s\<close>
        by (intro loop_invI [where recs = "recs @ [(cur, [CR, LF])]"])
          (auto simp: open_block_def Let_def scan_inv_def mode_of_def in_progress_def join_record_def)
    next
      case False
      then show ?thesis
        using assms fields m b \<open>sc_pending_cr s\<close>
        by (intro loop_invI [where recs = "recs @ [(cur, [CR])]"])
          (auto simp: open_block_def Let_def scan_inv_def mode_of_def in_progress_def join_record_def)
    qed
  qed
qed

lemma open_first_block_sim:
  "loop_inv mx b (frame_file b) (open_block b scan_init)"
proof (cases "take 3 b = BOM")
  case True
  then have "3 \<le> length b"
    using length_take [of 3 b] by (simp add: BOM_def)
  then show ?thesis
    using True
    by (intro loop_invI [where recs = "[]"])
      (auto simp: open_block_def Let_def scan_inv_def mode_of_def in_progress_def scan_init_def frame_file_def slice_def)
next
  case False
  then show ?thesis
    by (intro loop_invI [where recs = "[]"])
      (auto simp: open_block_def Let_def scan_inv_def mode_of_def in_progress_def scan_init_def frame_file_def)
qed

lemma open_block_keeps: "\<not> sc_held_cr (open_block b s)" "\<not> sc_first_block (open_block b s)"
  by (auto simp: open_block_def Let_def)

lemma scan_step_first: "scan_step mx b s = Inr s' \<Longrightarrow> sc_first_block s' = sc_first_block s"
  by (auto simp: scan_step_def scan_clean_def Let_def result_simps dest!: scan_terminators_keeps
      split: scan_mode.splits option.splits if_splits)

lemma scan_block_first: "scan_block mx b s = Inr s' \<Longrightarrow> sc_first_block s' = sc_first_block s"
proof (induction mx b s rule: scan_block.induct)
  case (1 mx b s)
  show ?case
  proof (cases "sc_pos s < length b")
    case True
    then obtain s1 where s1: "scan_step mx b s = Inr s1" "scan_block mx b s1 = Inr s'"
      using "1.prems" scan_block.simps [of mx b s] by (auto simp: result_simps)
    then show ?thesis
      using "1.IH" [OF True s1(1)] scan_step_first [OF s1(1)] by simp
  next
    case False
    then show ?thesis
      using "1.prems" scan_block.simps [of mx b s] by simp
  qed
qed

lemma frame_block_sim:
  assumes "loop_inv mx b F (open_block b s)"
  shows "case frame_block mx s b of Inl (out, stop) \<Rightarrow> \<exists>k. stop = CsvRecordTooLarge k \<and> too_large mx F k out
    | Inr s' \<Rightarrow> block_inv mx F s' \<and> \<not> sc_first_block s'"
proof (cases "scan_block mx b (open_block b s)")
  case (Inl err)
  then show ?thesis
    using scan_block_sim [OF assms] open_block_keeps(1) by (simp add: frame_block_def)
next
  case (Inr s1)
  then have s1: "loop_inv mx b F s1 \<and> sc_pos s1 = length b"
    using scan_block_sim [OF assms] open_block_keeps(1) by simp
  have "\<not> sc_first_block s1"
    using scan_block_first [OF Inr] open_block_keeps(2) by simp
  then show ?thesis
    using close_block_sim [of mx b F s1] s1 Inr
    by (cases "close_block mx b s1") (simp_all add: frame_block_def del: block_inv.simps)
qed

lemma frame_end_result:
  assumes "block_inv mx S s"
  shows "frame_end s = frame_result mx S"
proof (cases S)
  case (fields m cur recs)
  define parts where "parts = recs @ (if m = FCr then [(cur, [CR])] else if cur = [] then [] else [(cur, [])])"
  have tw: "takeWhile (\<lambda>r. length (fst r) \<le> mx) parts = parts"
    using assms fields by (auto simp: parts_def takeWhile_eq_all_conv)
  have res: "frame_result mx S = (if m = FQuoted then (map join_record recs, Some (CsvUnterminatedQuote (length recs)))
      else (map join_record parts, None))"
    unfolding fields frame_result.simps parts_def [symmetric] Let_def tw by simp
  have "sc_mode s = QUOTED \<longleftrightarrow> m = FQuoted" if "m \<noteq> FCr"
    using assms fields that by (auto simp: mode_of_def split: scan_mode.splits if_splits)
  moreover have "sc_pieces s = [] \<longleftrightarrow> cur = []"
    using assms fields by (cases "sc_pieces s") auto
  ultimately show ?thesis
    using assms fields unfolding res by (auto simp: frame_end_def parts_def join_record_def)
qed

abbreviation frame_from :: "nat \<Rightarrow> scan \<Rightarrow> bytes list \<Rightarrow> bytes list \<times> csv_stop option" where
  "frame_from mx s bs \<equiv> (case fold_result (frame_block mx) s bs of
     Inl (recs, stop) \<Rightarrow> (recs, Some stop) | Inr s' \<Rightarrow> frame_end s')"

lemma frame_from_Cons:
  assumes "loop_inv mx b F (open_block b s)"
    and rest: "\<And>s'. block_inv mx F s' \<Longrightarrow> \<not> sc_first_block s' \<Longrightarrow> frame_from mx s' bs = frame_result mx (frame_bytes F (concat bs))"
  shows "frame_from mx s (b # bs) = frame_result mx (frame_bytes F (concat bs))"
proof (cases "frame_block mx s b")
  case (Inl err)
  obtain out stop where err: "err = (out, stop)"
    by force
  obtain k where k: "stop = CsvRecordTooLarge k" "too_large mx F k out"
    using frame_block_sim [OF assms(1)] Inl err by auto
  show ?thesis
    using too_large_result [OF too_large_bytes [OF k(2)]] Inl err k(1) by simp
next
  case (Inr s')
  then show ?thesis
    using frame_block_sim [OF assms(1)] rest [of s'] by (simp del: block_inv.simps)
qed

lemma frame_from_sim:
  assumes "block_inv mx S s" and "\<not> sc_first_block s" and "[] \<notin> set bs"
  shows "frame_from mx s bs = frame_result mx (frame_bytes S (concat bs))"
  using assms
proof (induction bs arbitrary: s S)
  case Nil
  then show ?case
    using frame_end_result by simp
next
  case (Cons b bs)
  have "loop_inv mx b (frame_bytes S b) (open_block b s)"
    using Cons.prems by (intro open_block_sim) auto
  then show ?case
    using frame_from_Cons Cons.IH Cons.prems(3) by simp
qed

text \<open>The byte-order mark is recognised in the first block only, so that block must hold three bytes
  unless it is the whole file.\<close>

lemma frame_blocks_sim:
  assumes "[] \<notin> set blocks" and "blocks = [] \<or> length blocks = 1 \<or> 3 \<le> length (hd blocks)"
  shows "frame_blocks mx blocks = frame_result mx (frame_file (concat blocks))"
proof (cases blocks)
  case Nil
  then show ?thesis
    by (simp add: frame_blocks_def frame_file_def BOM_def frame_end_def scan_init_def)
next
  case (Cons b bs)
  have whole: "frame_file (concat blocks) = frame_bytes (frame_file b) (concat bs)"
    using assms(2) Cons by (auto simp: frame_file_def)
  show ?thesis
    unfolding whole unfolding frame_blocks_def Cons
    by (rule frame_from_Cons [OF open_first_block_sim])
      (use frame_from_sim assms(1) Cons in simp)
qed

lemma read_blocks_facts:
  assumes "0 < n"
  shows "concat (read_blocks n xs) = xs" and "[] \<notin> set (read_blocks n xs)"
    and "\<forall>bs. read_blocks n xs = bs \<longrightarrow> bs = [] \<or> length bs = 1 \<or> length (hd bs) = n"
proof -
  have "concat (read_blocks n xs) = xs \<and> [] \<notin> set (read_blocks n xs)"
    using assms
  proof (induction n xs rule: read_blocks.induct)
    case (1 n xs)
    then show ?case
      by (cases "xs = []") (subst (1 2) read_blocks.simps, simp)+
  qed
  then show "concat (read_blocks n xs) = xs" "[] \<notin> set (read_blocks n xs)"
    by auto
  show "\<forall>bs. read_blocks n xs = bs \<longrightarrow> bs = [] \<or> length bs = 1 \<or> length (hd bs) = n"
  proof (cases "n \<le> length xs")
    case False
    then have "read_blocks n (drop n xs) = []"
      by (subst read_blocks.simps) simp
    then show ?thesis
      by (subst read_blocks.simps) simp
  qed (subst read_blocks.simps, simp)
qed

lemma iter_csv_records_machine:
  assumes "4 \<le> block_size"
  shows "iter_csv_records xs mx block_size = frame_result mx (frame_file xs)"
proof -
  note r = read_blocks_facts [of block_size xs]
  have "read_blocks block_size xs = [] \<or> length (read_blocks block_size xs) = 1 \<or>
      3 \<le> length (hd (read_blocks block_size xs))"
    using r(3) assms by auto
  then show ?thesis
    using frame_blocks_sim [of "read_blocks block_size xs" mx] r(1,2) assms
    by (simp add: iter_csv_records_def)
qed

section \<open>Lossless framing\<close>

fun frame_text :: "fstate \<Rightarrow> bytes" where
  "frame_text (m, cur, recs) = concat (map join_record recs) @ cur @ (if m = FCr then [CR] else [])"

lemma frame_text_byte: "frame_text (frame_byte S c) = frame_text S @ [c]"
  by (cases "(S, c)" rule: frame_byte.cases) (auto simp: join_record_def)

lemma frame_text_bytes: "frame_text (frame_bytes S xs) = frame_text S @ xs"
  by (induction xs arbitrary: S) (simp_all add: frame_text_byte)

lemma frame_text_file: "frame_text (frame_file xs) = xs"
proof (cases "take 3 xs = BOM")
  case True
  then have "BOM @ drop 3 xs = xs"
    by (metis append_take_drop_id)
  then show ?thesis
    using True by (simp add: frame_file_def frame_text_bytes)
next
  case False
  then show ?thesis
    by (simp add: frame_file_def frame_text_bytes)
qed

lemma frame_result_text:
  assumes "frame_result mx S = (recs, None)"
  shows "concat recs = frame_text S"
  using assms by (cases S) (auto simp: Let_def join_record_def split: if_splits)

section \<open>Encoded rows\<close>

text \<open>A writer that quotes every field and ends each row with CRLF.\<close>

definition encode_field :: "bytes \<Rightarrow> bytes" where
  "encode_field f = QUOTE # concat (map (\<lambda>c. if c = QUOTE then [QUOTE, QUOTE] else [c]) f) @ [QUOTE]"

fun encode_fields :: "bytes list \<Rightarrow> bytes" where
  "encode_fields [] = []"
| "encode_fields [f] = encode_field f"
| "encode_fields (f # g # fs) = encode_field f @ COMMA # encode_fields (g # fs)"

definition encode_row :: "bytes list \<Rightarrow> bytes" where
  "encode_row fs = encode_fields fs @ [CR, LF]"

lemma frame_encode_field:
  "frame_bytes (FStart, cur, recs) (encode_field f) = (FAfter, cur @ encode_field f, recs)"
proof -
  have "frame_bytes (FQuoted, cur, recs) (concat (map (\<lambda>c. if c = QUOTE then [QUOTE, QUOTE] else [c]) f)) =
      (FQuoted, cur @ concat (map (\<lambda>c. if c = QUOTE then [QUOTE, QUOTE] else [c]) f), recs)" for cur
    by (induction f arbitrary: cur) auto
  then show ?thesis
    by (simp add: encode_field_def)
qed

lemma frame_encode_fields:
  "fs \<noteq> [] \<Longrightarrow> frame_bytes (FStart, cur, recs) (encode_fields fs) = (FAfter, cur @ encode_fields fs, recs)"
proof (induction fs arbitrary: cur rule: encode_fields.induct)
  case (3 f g fs)
  then show ?case
    by (simp add: frame_encode_field)
qed (simp_all add: frame_encode_field)

lemma frame_encode_row:
  "frame_bytes (FStart, [], recs) (encode_row fs) = (FStart, [], recs @ [(encode_fields fs, [CR, LF])])"
proof (cases "fs = []")
  case True
  then show ?thesis
    by (simp add: encode_row_def)
next
  case False
  then show ?thesis
    by (simp add: encode_row_def frame_encode_fields)
qed

lemma frame_encode_rows:
  "frame_bytes (FStart, [], recs) (concat (map encode_row rows)) =
     (FStart, [], recs @ map (\<lambda>fs. (encode_fields fs, [CR, LF])) rows)"
  by (induction rows arbitrary: recs) (simp_all add: frame_encode_row)

lemma encode_rows_no_bom: "take 3 (concat (map encode_row rows)) \<noteq> BOM"
proof (cases rows)
  case (Cons fs rows')
  then show ?thesis
    by (cases fs rule: encode_fields.cases)
      (auto simp: encode_row_def encode_field_def BOM_def csv_bytes numeral_3_eq_3)
qed (simp add: BOM_def)

lemma quoted_part_encoded:
  assumes "r = [] \<or> hd r \<noteq> 34"
  shows "quoted_part (concat (map (\<lambda>c. if c = 34 then [34, 34] else [c]) f) @ 34 # r) = Some (f, r)"
proof (induction f)
  case Nil
  then show ?case
    using assms by (cases r) auto
next
  case (Cons c f)
  let ?t = "concat (map (\<lambda>c. if c = 34 then [34, 34] else [c]) f) @ 34 # r"
  obtain d u where t: "?t = d # u"
    by (cases ?t) auto
  show ?case
  proof (cases "c = 34")
    case True
    then show ?thesis
      using Cons.IH by simp
  next
    case False
    then have "quoted_part (c # ?t) = map_option (\<lambda>(p, r). (c # p, r)) (quoted_part ?t)"
      unfolding t by simp
    then show ?thesis
      using False Cons.IH by simp
  qed
qed

lemma map_unat_encode_field:
  "map unat (encode_field f) = 34 # concat (map (\<lambda>c. if c = 34 then [34, 34] else [c]) (map unat f)) @ [34]"
proof -
  have "unat (c :: byte) = 34 \<longleftrightarrow> c = QUOTE" for c
    by (simp add: word_unat_eq_iff QUOTE_def)
  then show ?thesis
    by (induction f) (auto simp: encode_field_def QUOTE_def)
qed

lemma next_field_encoded:
  assumes "r = [] \<or> hd r = 44"
  shows "next_field (map unat (encode_field f) @ r) = Some (map unat f, r)"
proof -
  have "quoted_part (concat (map (\<lambda>c. if c = 34 then [34, 34] else [c]) (map unat f)) @ 34 # r) = Some (map unat f, r)"
    using assms by (intro quoted_part_encoded) auto
  moreover have "takeWhile (\<lambda>x. x \<noteq> 44) r = []" "dropWhile (\<lambda>x. x \<noteq> 44) r = r"
    using assms by (cases r; simp)+
  ultimately show ?thesis
    unfolding map_unat_encode_field by (simp add: next_field_def)
qed

lemma encode_fields_not_Nil: "fs \<noteq> [] \<Longrightarrow> encode_fields fs \<noteq> []"
  by (cases fs rule: encode_fields.cases) (auto simp: encode_field_def)

lemma split_fields_encoded:
  "fs \<noteq> [] \<Longrightarrow> split_fields (map unat (encode_fields fs)) = Some (map (map unat) fs)"
proof (induction fs rule: encode_fields.induct)
  case (2 f)
  then show ?case
    using next_field_encoded [of "[]" f] by (subst split_fields.simps) simp
next
  case (3 f g fs)
  have "next_field (map unat (encode_fields (f # g # fs))) = Some (map unat f, 44 # map unat (encode_fields (g # fs)))"
    using next_field_encoded [of "44 # map unat (encode_fields (g # fs))" f] by (simp add: COMMA_def)
  then show ?case
    using 3 encode_fields_not_Nil [of "g # fs"] by (subst split_fields.simps) simp
qed simp

lemma set_encode_fields: "set (encode_fields fs) \<subseteq> {QUOTE, COMMA} \<union> \<Union> (set ` set fs)"
proof (induction fs rule: encode_fields.induct)
  case (3 f g fs)
  then show ?case
    by (auto simp: encode_field_def split: if_splits)
qed (auto simp: encode_field_def split: if_splits)

lemma split_encoded_row:
  assumes "fs \<noteq> []" and "\<forall>f \<in> set fs. \<forall>c \<in> set f. unat c < 128"
  shows "split_record_fields (encode_row fs) = Some (map (map unat) fs)"
proof -
  have ascii: "\<forall>c \<in> set (encode_row fs). unat c < 128"
    using set_encode_fields [of fs] assms(2) by (auto simp: encode_row_def csv_bytes)
  have bom: "take 3 (encode_row fs) \<noteq> BOM"
    using encode_rows_no_bom [of "[fs]"] by simp
  have "removesuffix 13 (removesuffix 10 (map unat (encode_row fs))) = map unat (encode_fields fs)"
    by (simp add: removesuffix_def encode_row_def csv_bytes butlast_append)
  then show ?thesis
    using split_fields_encoded [OF assms(1)] ascii bom by (simp add: split_record_fields_def utf8_decode_ascii)
qed

section \<open>Properties\<close>

text \<open>C13. The block scanner refines the byte machine: for every file, cap and block size of at least four
  bytes, the yielded records and the way the generator ends are those of the four-state machine run
  over the whole file. In particular the result does not depend on the block size.\<close>

theorem csv_framer_refines_machine:
  assumes "4 \<le> block_size"
  shows "iter_csv_records xs mx block_size = frame_result mx (frame_file xs)"
  using assms by (rule iter_csv_records_machine)

definition demo_csv :: bytes where
  "demo_csv = [97, 44, 34, 98, 13, 34, 13, 10, 99, 13]"

theorem csv_framer_refines_machine_witness:
  "iter_csv_records demo_csv 9 4 = iter_csv_records demo_csv 9 5 \<and>
   iter_csv_records demo_csv 9 4 = ([[97, 44, 34, 98, 13, 34, 13, 10], [99, 13]], None)"
proof -
  have "frame_result 9 (frame_file demo_csv) = ([[97, 44, 34, 98, 13, 34, 13, 10], [99, 13]], None)"
    by (simp add: demo_csv_def frame_file_def BOM_def csv_bytes join_record_def)
  then show ?thesis
    using csv_framer_refines_machine [of 4 demo_csv 9] csv_framer_refines_machine [of 5 demo_csv 9] by simp
qed

text \<open>Framing loses nothing: when the generator ends without an error the concatenation of the yielded
  records is the file.\<close>

theorem csv_framing_lossless:
  assumes "4 \<le> block_size" and "iter_csv_records xs mx block_size = (recs, None)"
  shows "concat recs = xs"
  using frame_result_text [of mx "frame_file xs" recs] assms
  by (simp add: iter_csv_records_machine frame_text_file)

theorem csv_framing_lossless_witness:
  "concat [[97, 13, 10], [98 :: byte]] = [97, 13, 10, 98 :: byte]"
proof (rule csv_framing_lossless [of 4 _ 5])
  show "iter_csv_records [97, 13, 10, 98] 5 4 = ([[97, 13, 10], [98]], None)"
    by (simp add: iter_csv_records_machine frame_file_def BOM_def csv_bytes join_record_def)
qed simp

text \<open>Encoded rows come back: a file of rows whose fields are quoted, with inner quotes doubled, is
  framed into exactly its rows when their bodies fit the cap, and the field splitter returns the
  fields of a row of ASCII fields.\<close>

theorem csv_rows_roundtrip:
  assumes "4 \<le> block_size" and "\<forall>fs \<in> set rows. length (encode_fields fs) \<le> mx"
    and "fs \<noteq> []" and "\<forall>f \<in> set fs. \<forall>c \<in> set f. unat c < 128"
  shows "iter_csv_records (concat (map encode_row rows)) mx block_size = (map encode_row rows, None) \<and>
    split_record_fields (encode_row fs) = Some (map (map unat) fs)"
proof -
  have tw: "takeWhile (\<lambda>r. length (fst r) \<le> mx) (map (\<lambda>fs. (encode_fields fs, [CR, LF])) rows) =
      map (\<lambda>fs. (encode_fields fs, [CR, LF])) rows"
    using assms(2) by (auto simp: takeWhile_eq_all_conv)
  have "frame_result mx (frame_file (concat (map encode_row rows))) = (map encode_row rows, None)"
    using encode_rows_no_bom [of rows]
    by (simp add: frame_file_def frame_encode_rows tw Let_def join_record_def encode_row_def)
  then show ?thesis
    using iter_csv_records_machine [OF assms(1)] split_encoded_row [OF assms(3,4)] by simp
qed

theorem csv_rows_roundtrip_witness:
  "iter_csv_records (concat (map encode_row [[[97], [34]], [[13, 10]]])) 20 4 =
     (map encode_row [[[97], [34]], [[13, 10]]], None) \<and>
   split_record_fields (encode_row [[97], [34, 44]]) = Some [[97], [34, 44]]"
  using csv_rows_roundtrip [of 4 "[[[97], [34]], [[13, 10]]]" 20 "[[97], [34, 44]]"]
  by (simp add: encode_field_def csv_bytes)

end
