(* ===== verification/Fixed_Width.thy ===== *)
theory Fixed_Width
  imports Unicode_Text
begin

text \<open>
  Fixed-width files: the layout contract of \<open>config/_fixed_width.py\<close>, the reader
  \<open>profile/_fixed_width_reader.py\<close> and the writer \<open>profile/_fixed_width_writer.py\<close>, which accepts a value only
  when the reader's own decoding gives it back. Text is code points, files are bytes. A file is read
  by lines of bytes and published as a whole, so a failed write is an error and no file.

  Python's \<open>float\<close> is the parameter \<open>float_ops\<close>: its \<open>repr\<close>, its parser, \<open>isnan\<close>, \<open>==\<close> and the sign bit.
  Error messages are left out; errors carry the position, which is all that the messages hold of the
  data.
\<close>

section \<open>Model\<close>

subsection \<open>Layouts\<close>

datatype fw_type = TStr | TInt | TFloat
datatype fw_align = AlignLeft | AlignRight

record fw_column =
  fc_name :: string
  fc_start :: nat
  fc_width :: nat
  fc_type :: fw_type
  fc_pad :: nat
  fc_align :: fw_align

record fw_layout =
  fl_columns :: "fw_column list"
  fl_exact :: bool

definition record_width :: "fw_layout \<Rightarrow> nat" where
  "record_width spec = fold max (map (\<lambda>c. fc_start c + fc_width c) (fl_columns spec)) 0"

text \<open>Names are new and each column starts where the previous one ended, or later.\<close>

fun columns_in_order :: "string list \<Rightarrow> nat \<Rightarrow> fw_column list \<Rightarrow> bool" where
  "columns_in_order seen prev_end [] = True"
| "columns_in_order seen prev_end (c # cs) =
     (fc_name c \<notin> set seen \<and> prev_end \<le> fc_start c \<and>
      columns_in_order (fc_name c # seen) (fc_start c + fc_width c) cs)"

definition validate_layout :: "fw_layout \<Rightarrow> bool" where
  "validate_layout spec \<longleftrightarrow> fl_columns spec \<noteq> [] \<and>
     (\<forall>c \<in> set (fl_columns spec). fc_name c \<noteq> [] \<and> 0 < fc_width c) \<and> columns_in_order [] 0 (fl_columns spec)"

subsection \<open>Values\<close>

text \<open>What a cell can hold; \<open>VOther\<close> is any object that is neither a string nor a real number.\<close>

datatype 'f cell = VStr codepoints | VInt int | VBool bool | VFloat 'f | VOther

record 'f float_ops =
  float_repr :: "'f \<Rightarrow> codepoints"
  float_parse :: "codepoints \<Rightarrow> 'f option"
  float_isnan :: "'f \<Rightarrow> bool"
  float_eq :: "'f \<Rightarrow> 'f \<Rightarrow> bool"
  float_sign :: "'f \<Rightarrow> bool"

subsection \<open>The reader\<close>

datatype fw_error =
    NotUtf8 nat
  | RecordOverlong nat nat
  | RowWidthMismatch nat nat
  | CastFailed nat string
  | PadIsLineSeparator string
  | DuplicateLabels
  | MissingColumns "string list"
  | ExtraColumns "string list"
  | TypeMismatch nat string
  | EmbeddedNewline nat string
  | IntTooLarge nat string
  | FloatIsNaN nat string
  | FieldOverflow nat string
  | Unencodable nat string
  | NoRoundTrip nat string
  | UnicodeEncodeError

definition lstrip :: "nat set \<Rightarrow> codepoints \<Rightarrow> codepoints" where
  "lstrip cs s = dropWhile (\<lambda>c. c \<in> cs) s"

definition rstrip :: "nat set \<Rightarrow> codepoints \<Rightarrow> codepoints" where
  "rstrip cs s = rev (dropWhile (\<lambda>c. c \<in> cs) (rev s))"

definition strip_pad :: "codepoints \<Rightarrow> fw_column \<Rightarrow> codepoints" where
  "strip_pad raw c = (case fc_align c of AlignLeft \<Rightarrow> rstrip {fc_pad c} raw | AlignRight \<Rightarrow> lstrip {fc_pad c} raw)"

definition cast_value :: "'f float_ops \<Rightarrow> codepoints \<Rightarrow> codepoints \<Rightarrow> fw_column \<Rightarrow> 'f cell option" where
  "cast_value F stripped raw c =
     (let candidate = (if stripped = [] \<and> fc_type c \<noteq> TStr then raw else stripped) in
      case fc_type c of
        TStr \<Rightarrow> Some (VStr candidate)
      | TInt \<Rightarrow> map_option VInt (text_int candidate)
      | TFloat \<Rightarrow> map_option VFloat (float_parse F candidate))"

text \<open>\<open>readline\<close> on bytes: lines with their LF, and a last line without one.\<close>

fun read_lines :: "bytes \<Rightarrow> bytes list" where
  "read_lines [] = []"
| "read_lines (b # bs) =
     (if b = 10 then [b] # read_lines bs
      else case read_lines bs of
          [] \<Rightarrow> [[b]]
        | l # ls \<Rightarrow> (b # l) # ls)"

definition column_slice :: "fw_column \<Rightarrow> codepoints \<Rightarrow> codepoints" where
  "column_slice c line = take (fc_width c) (drop (fc_start c) line)"

definition parse_column :: "'f float_ops \<Rightarrow> nat \<Rightarrow> codepoints \<Rightarrow> fw_column \<Rightarrow> fw_error + string \<times> 'f cell" where
  "parse_column F line_no line c =
     (let raw = column_slice c line in
      case cast_value F (strip_pad raw c) raw c of
        None \<Rightarrow> Inl (CastFailed line_no (fc_name c))
      | Some v \<Rightarrow> Inr (fc_name c, v))"

text \<open>One line: \<open>None\<close> when it is blank and skipped, else its row.\<close>

definition parse_line :: "'f float_ops \<Rightarrow> fw_layout \<Rightarrow> nat \<Rightarrow> bytes \<Rightarrow> fw_error + (string \<times> 'f cell) list option" where
  "parse_line F spec line_no raw =
     (case utf8_decode raw of
        None \<Rightarrow> Inl (NotUtf8 line_no)
      | Some raw_line \<Rightarrow>
          (let line = rstrip {13, 10} raw_line in
           if line = [] then Inr None
           else if fl_exact spec \<and> record_width spec < length line then Inl (RecordOverlong line_no (length line))
           else if length line < record_width spec then Inl (RowWidthMismatch line_no (length line))
           else and_then (map_result (parse_column F line_no line) (fl_columns spec)) (\<lambda>row. Inr (Some row))))"

fun parse_records ::
    "'f float_ops \<Rightarrow> fw_layout \<Rightarrow> nat option \<Rightarrow> nat \<Rightarrow> (string \<times> 'f cell) list list \<Rightarrow> bytes list \<Rightarrow>
      fw_error + (string \<times> 'f cell) list list" where
  "parse_records F spec max_records line_no records [] = Inr records"
| "parse_records F spec max_records line_no records (l # ls) =
     (if max_records \<noteq> None \<and> the max_records \<le> length records then Inr records
      else and_then (parse_line F spec (line_no + 1) l) (\<lambda>r.
        parse_records F spec max_records (line_no + 1) (case r of None \<Rightarrow> records | Some row \<Rightarrow> records @ [row]) ls))"

definition read_fixed_width ::
    "'f float_ops \<Rightarrow> bytes \<Rightarrow> fw_layout \<Rightarrow> nat option \<Rightarrow> fw_error + (string \<times> 'f cell) list list" where
  "read_fixed_width F content spec max_records = parse_records F spec max_records 0 [] (read_lines content)"

subsection \<open>The writer\<close>

definition render_value :: "'f float_ops \<Rightarrow> nat \<Rightarrow> 'f cell \<Rightarrow> fw_column \<Rightarrow> fw_error + codepoints" where
  "render_value F row v c =
     (case fc_type c of
        TStr \<Rightarrow>
          (case v of
             VStr s \<Rightarrow> if 10 \<in> set s \<or> 13 \<in> set s then Inl (EmbeddedNewline row (fc_name c)) else Inr s
           | _ \<Rightarrow> Inl (TypeMismatch row (fc_name c)))
      | TInt \<Rightarrow>
          (case v of
             VInt n \<Rightarrow> of_option (IntTooLarge row (fc_name c)) (int_text n)
           | _ \<Rightarrow> Inl (TypeMismatch row (fc_name c)))
      | TFloat \<Rightarrow>
          (case v of
             VFloat f \<Rightarrow> if float_isnan F f then Inl (FloatIsNaN row (fc_name c)) else Inr (float_repr F f)
           | _ \<Rightarrow> Inl (TypeMismatch row (fc_name c))))"

definition pad_field :: "codepoints \<Rightarrow> fw_column \<Rightarrow> codepoints" where
  "pad_field rendered c =
     (case fc_align c of
        AlignLeft \<Rightarrow> rendered @ replicate (fc_width c - length rendered) (fc_pad c)
      | AlignRight \<Rightarrow> replicate (fc_width c - length rendered) (fc_pad c) @ rendered)"

fun cell_equal :: "'f float_ops \<Rightarrow> 'f cell \<Rightarrow> 'f cell \<Rightarrow> bool" where
  "cell_equal F (VStr s) (VStr t) = (s = t)"
| "cell_equal F (VInt m) (VInt n) = (m = n)"
| "cell_equal F (VFloat x) (VFloat y) = (float_eq F x y \<and> float_sign F x = float_sign F y)"
| "cell_equal F _ _ = False"

definition render_field :: "'f float_ops \<Rightarrow> nat \<Rightarrow> 'f cell \<Rightarrow> fw_column \<Rightarrow> fw_error + codepoints" where
  "render_field F row v c =
     and_then (render_value F row v c) (\<lambda>rendered.
       if fc_width c < length rendered then Inl (FieldOverflow row (fc_name c))
       else if utf8_encode rendered = None then Inl (Unencodable row (fc_name c))
       else let field = pad_field rendered c in
         (case cast_value F (strip_pad field c) field c of
            Some decoded \<Rightarrow> if cell_equal F decoded v then Inr field else Inl (NoRoundTrip row (fc_name c))
          | None \<Rightarrow> Inl (NoRoundTrip row (fc_name c))))"

text \<open>\<open>buffer[start : start + width] = field\<close>.\<close>

definition splice :: "nat \<Rightarrow> nat \<Rightarrow> codepoints \<Rightarrow> codepoints \<Rightarrow> codepoints" where
  "splice start width field buffer = take start buffer @ field @ drop (start + width) buffer"

fun fill_record :: "'f float_ops \<Rightarrow> nat \<Rightarrow> (string \<Rightarrow> 'f cell) \<Rightarrow> fw_column list \<Rightarrow> codepoints \<Rightarrow> fw_error + codepoints" where
  "fill_record F row values [] buffer = Inr buffer"
| "fill_record F row values (c # cs) buffer =
     and_then (render_field F row (values (fc_name c)) c) (\<lambda>field.
       fill_record F row values cs (splice (fc_start c) (fc_width c) field buffer))"

definition build_record :: "'f float_ops \<Rightarrow> nat \<Rightarrow> (string \<Rightarrow> 'f cell) \<Rightarrow> fw_layout \<Rightarrow> fw_error + codepoints" where
  "build_record F row values spec = fill_record F row values (fl_columns spec) (replicate (record_width spec) 32)"

fun write_rows :: "'f float_ops \<Rightarrow> fw_layout \<Rightarrow> nat \<Rightarrow> (string \<Rightarrow> 'f cell) list \<Rightarrow> fw_error + bytes" where
  "write_rows F spec i [] = Inr []"
| "write_rows F spec i (row # rows) =
     and_then (build_record F i row spec) (\<lambda>line.
       and_then (of_option UnicodeEncodeError (utf8_encode (line @ [10]))) (\<lambda>b.
         and_then (write_rows F spec (i + 1) rows) (\<lambda>bs. Inr (b @ bs))))"

record 'f frame =
  fr_labels :: "string list"
  fr_rows :: "(string \<Rightarrow> 'f cell) list"

definition check_layout :: "fw_layout \<Rightarrow> fw_error option" where
  "check_layout spec =
     map_option (\<lambda>c. PadIsLineSeparator (fc_name c)) (List.find (\<lambda>c. fc_pad c = 10 \<or> fc_pad c = 13) (fl_columns spec))"

definition check_columns :: "'f frame \<Rightarrow> fw_layout \<Rightarrow> fw_error option" where
  "check_columns frm spec =
     (let labels = fr_labels frm; layout_names = map fc_name (fl_columns spec);
          missing = filter (\<lambda>n. n \<notin> set labels) layout_names; extra = filter (\<lambda>n. n \<notin> set layout_names) labels in
      if \<not> distinct labels then Some DuplicateLabels
      else if missing \<noteq> [] then Some (MissingColumns missing)
      else if extra \<noteq> [] then Some (ExtraColumns extra)
      else None)"

text \<open>The content that is published, or the error and no file.\<close>

definition write_fixed_width :: "'f float_ops \<Rightarrow> 'f frame \<Rightarrow> fw_layout \<Rightarrow> fw_error + bytes" where
  "write_fixed_width F frm spec =
     (case check_layout spec of
        Some e \<Rightarrow> Inl e
      | None \<Rightarrow>
          (case check_columns frm spec of
             Some e \<Rightarrow> Inl e
           | None \<Rightarrow> write_rows F spec 0 (fr_rows frm)))"

section \<open>Fields\<close>

definition plain :: "codepoints \<Rightarrow> bool" where
  "plain s \<longleftrightarrow> 10 \<notin> set s \<and> 13 \<notin> set s"

lemma plain_simps [simp]: "plain []" "plain (c # s) \<longleftrightarrow> c \<noteq> 10 \<and> c \<noteq> 13 \<and> plain s" "plain (s @ t) \<longleftrightarrow> plain s \<and> plain t"
  by (auto simp: plain_def)

lemma plain_subset: "set s \<subseteq> set t \<Longrightarrow> plain t \<Longrightarrow> plain s"
  by (auto simp: plain_def)

lemma plain_replicate: "c \<noteq> 10 \<Longrightarrow> c \<noteq> 13 \<Longrightarrow> plain (replicate n c)"
  by (simp add: plain_def)

lemma length_pad_field: "length s \<le> fc_width c \<Longrightarrow> length (pad_field s c) = fc_width c"
  by (simp add: pad_field_def split: fw_align.split)

lemma int_text_plain: "int_text n = Some s \<Longrightarrow> plain s"
  using codes_nth_digit [OF dec_str_digits, of _ "nat \<bar>n\<bar>"]
  by (fastforce simp: int_text_def plain_def Let_def split: if_splits)

text \<open>What the writer's own check gives: an accepted field has the column's width, and the reader decodes
  it to an equal value.\<close>

lemma render_field_facts:
  assumes "render_field F i v c = Inr f" and "fc_pad c \<noteq> 10" and "fc_pad c \<noteq> 13" and "\<forall>x. plain (float_repr F x)"
  shows "length f = fc_width c" and "plain f"
    and "\<exists>d. cast_value F (strip_pad f c) f c = Some d \<and> cell_equal F d v"
proof -
  obtain r d where r: "render_value F i v c = Inr r" "length r \<le> fc_width c" "f = pad_field r c"
    and d: "cast_value F (strip_pad f c) f c = Some d" "cell_equal F d v"
    using assms(1) by (auto simp: render_field_def result_simps Let_def split: if_splits option.splits)
  show "length f = fc_width c"
    using r(2,3) by (simp add: length_pad_field)
  have "plain r"
    using r(1) assms(4) int_text_plain
    by (auto simp: render_value_def result_simps plain_def split: fw_type.splits cell.splits if_splits)
  then show "plain f"
    using r(3) assms(2,3) by (simp add: pad_field_def plain_replicate split: fw_align.split)
  show "\<exists>d. cast_value F (strip_pad f c) f c = Some d \<and> cell_equal F d v"
    using d by blast
qed

section \<open>Records\<close>

lemma splice_facts:
  assumes "length field = w" and "start + w \<le> length buffer"
  shows "length (splice start w field buffer) = length buffer" and "take start (splice start w field buffer) = take start buffer"
    and "take w (drop start (splice start w field buffer)) = field"
    and "n \<le> start \<Longrightarrow> take n (splice start w field buffer) = take n buffer"
  using assms by (auto simp: splice_def take_drop min_def)

lemma fill_record_facts:
  assumes "fill_record F i row cs buffer = Inr line" and "columns_in_order seen prev_end cs"
    and "\<forall>c \<in> set cs. fc_start c + fc_width c \<le> length buffer \<and> fc_pad c \<noteq> 10 \<and> fc_pad c \<noteq> 13"
    and "\<forall>x. plain (float_repr F x)" and "plain buffer"
  shows "length line = length buffer \<and> plain line \<and> take prev_end line = take prev_end buffer \<and>
    (\<forall>c \<in> set cs. render_field F i (row (fc_name c)) c = Inr (column_slice c line))"
  using assms(1-3,5)
proof (induction cs arbitrary: buffer seen prev_end)
  case (Cons c cs)
  then obtain f where f: "render_field F i (row (fc_name c)) c = Inr f"
    and rest: "fill_record F i row cs (splice (fc_start c) (fc_width c) f buffer) = Inr line"
    by (auto simp: result_simps)
  let ?b = "splice (fc_start c) (fc_width c) f buffer" and ?stop = "fc_start c + fc_width c"
  note ff = render_field_facts [OF f _ _ assms(4)]
  have len: "length f = fc_width c" "?stop \<le> length buffer"
    using ff(1) Cons.prems(3) by auto
  note sp = splice_facts [OF len]
  have "plain ?b"
    using ff(2) Cons.prems(3,4) by (auto simp: splice_def intro: plain_subset dest: in_set_takeD in_set_dropD)
  then have IH: "length line = length ?b" "plain line" "take ?stop line = take ?stop ?b"
      "\<forall>c \<in> set cs. render_field F i (row (fc_name c)) c = Inr (column_slice c line)"
    using Cons.IH [OF rest, of "fc_name c # seen" ?stop] Cons.prems(2,3) sp(1) by auto
  have "column_slice c line = take (fc_width c) (drop (fc_start c) (take ?stop line))"
    by (simp add: column_slice_def take_drop add.commute)
  also have "\<dots> = take (fc_width c) (drop (fc_start c) ?b)"
    unfolding IH(3) by (simp add: take_drop add.commute)
  finally have "column_slice c line = f"
    using sp(3) by simp
  moreover have "take prev_end line = take prev_end buffer"
  proof -
    have "take prev_end line = take prev_end (take ?stop line)"
      using Cons.prems(2) by (simp add: min_def)
    also have "\<dots> = take prev_end ?b"
      unfolding IH(3) using Cons.prems(2) by (simp add: min_def)
    finally show ?thesis
      using sp(4) Cons.prems(2) by simp
  qed
  ultimately show ?case
    using IH f sp(1) by simp
qed simp

lemma record_width_bound: "c \<in> set (fl_columns spec) \<Longrightarrow> fc_start c + fc_width c \<le> record_width spec"
proof -
  have fold: "a \<le> fold max xs a \<and> (\<forall>x \<in> set xs. x \<le> fold max xs a)" for xs and a :: nat
  proof (induction xs arbitrary: a)
    case (Cons x xs)
    have "max x a \<le> fold max xs (max x a)" "\<forall>y \<in> set xs. y \<le> fold max xs (max x a)"
      using Cons [of "max x a"] by blast+
    then show ?case
      by simp
  qed simp
  show "c \<in> set (fl_columns spec) \<Longrightarrow> ?thesis"
    using fold [of 0 "map (\<lambda>c. fc_start c + fc_width c) (fl_columns spec)"] by (auto simp: record_width_def)
qed

text \<open>A record that was built decodes, column by column, to values equal to the row's.\<close>

definition row_matches :: "'f float_ops \<Rightarrow> fw_layout \<Rightarrow> (string \<times> 'f cell) list \<Rightarrow> (string \<Rightarrow> 'f cell) \<Rightarrow> bool" where
  "row_matches F spec read row \<longleftrightarrow> map fst read = map fc_name (fl_columns spec) \<and> (\<forall>(n, v) \<in> set read. cell_equal F v (row n))"

lemma build_record_facts:
  assumes "build_record F i row spec = Inr line" and "validate_layout spec" and "check_layout spec = None"
    and "\<forall>x. plain (float_repr F x)"
  shows "length line = record_width spec" and "plain line" and "0 < record_width spec"
    and "\<exists>read. map_result (parse_column F n line) (fl_columns spec) = Inr read \<and> row_matches F spec read row"
proof -
  have pads: "\<forall>c \<in> set (fl_columns spec). fc_pad c \<noteq> 10 \<and> fc_pad c \<noteq> 13"
    using assms(3) by (auto simp: check_layout_def find_None_iff)
  have fr: "length line = record_width spec \<and> plain line \<and>
      (\<forall>c \<in> set (fl_columns spec). render_field F i (row (fc_name c)) c = Inr (column_slice c line))"
    using fill_record_facts [of F i row "fl_columns spec" "replicate (record_width spec) 32" line "[]" 0] assms pads record_width_bound
    by (auto simp: build_record_def validate_layout_def plain_replicate)
  then show "length line = record_width spec" "plain line"
    by auto
  obtain c where c: "c \<in> set (fl_columns spec)" "0 < fc_width c"
    using assms(2) by (cases "fl_columns spec") (auto simp: validate_layout_def)
  then show "0 < record_width spec"
    using record_width_bound [OF c(1)] by simp
  have col: "\<exists>v. parse_column F n line c = Inr (fc_name c, v) \<and> cell_equal F v (row (fc_name c))" if c: "c \<in> set (fl_columns spec)" for c
  proof -
    have "render_field F i (row (fc_name c)) c = Inr (column_slice c line)"
      using fr c by blast
    then show ?thesis
      using render_field_facts(3) pads c assms(4) by (fastforce simp: parse_column_def Let_def)
  qed
  have "\<exists>read. map_result (parse_column F n line) cs = Inr read \<and> map fst read = map fc_name cs \<and>
      (\<forall>(n, v) \<in> set read. cell_equal F v (row n))" if "set cs \<subseteq> set (fl_columns spec)" for cs
    using that
  proof (induction cs)
    case (Cons c cs)
    then show ?case
      using col [of c] by fastforce
  qed simp
  then show "\<exists>read. map_result (parse_column F n line) (fl_columns spec) = Inr read \<and> row_matches F spec read row"
    by (simp add: row_matches_def)
qed

section \<open>Files\<close>

lemma read_lines_append: "10 \<notin> set b \<Longrightarrow> read_lines (b @ 10 # rest) = (b @ [10]) # read_lines rest"
  by (induction b) auto

lemma rstrip_line: "plain line \<Longrightarrow> rstrip {13, 10} (line @ [10]) = line"
proof (cases line rule: rev_cases)
  case (snoc xs x)
  then show "plain line \<Longrightarrow> ?thesis"
    by (auto simp: rstrip_def plain_def)
qed (simp add: rstrip_def)

lemma parse_written_line:
  assumes "build_record F i row spec = Inr line" and "validate_layout spec" and "check_layout spec = None"
    and "\<forall>x. plain (float_repr F x)" and "utf8_encode (line @ [10]) = Some b"
  shows "\<exists>read. parse_line F spec n b = Inr (Some read) \<and> row_matches F spec read row"
    and "\<exists>b'. b = b' @ [10] \<and> 10 \<notin> set b'"
proof -
  note line = build_record_facts [OF assms(1-4)]
  have "utf8_decode b = Some (line @ [10])"
    using utf8_decode_encode [OF assms(5), of "[]"] by simp
  then show "\<exists>read. parse_line F spec n b = Inr (Some read) \<and> row_matches F spec read row"
    using line(1,3) line(4) [of n] rstrip_line [OF line(2)] by (auto simp: parse_line_def Let_def)
  obtain b' where b': "utf8_encode line = Some b'" "b = b' @ [10]"
    using assms(5) by (auto simp: utf8_encode_append encode_char_def byte_of_def split: option.splits)
  moreover have "10 \<notin> set b'"
    using utf8_encode_ascii [OF b'(1), of 10] line(2) by (auto simp: plain_def)
  ultimately show "\<exists>b'. b = b' @ [10] \<and> 10 \<notin> set b'"
    by blast
qed

lemma parse_written_rows:
  assumes "write_rows F spec i rows = Inr content" and "validate_layout spec" and "check_layout spec = None"
    and "\<forall>x. plain (float_repr F x)"
  shows "\<exists>recs. parse_records F spec None n acc (read_lines content) = Inr (acc @ recs) \<and> list_all2 (row_matches F spec) recs rows"
  using assms(1)
proof (induction rows arbitrary: i n acc content)
  case (Cons row rows)
  then obtain line b bs where w: "build_record F i row spec = Inr line" "utf8_encode (line @ [10]) = Some b"
      "write_rows F spec (i + 1) rows = Inr bs" "content = b @ bs"
    by (auto simp: result_simps)
  obtain read where read: "parse_line F spec (n + 1) b = Inr (Some read)" "row_matches F spec read row"
    using parse_written_line(1) [OF w(1) assms(2-4) w(2)] by blast
  obtain b' where "b = b' @ [10]" "10 \<notin> set b'"
    using parse_written_line(2) [OF w(1) assms(2-4) w(2)] by blast
  then have "read_lines content = b # read_lines bs"
    using read_lines_append [of b' bs] w(4) by simp
  moreover obtain recs where "parse_records F spec None (n + 1) (acc @ [read]) (read_lines bs) = Inr ((acc @ [read]) @ recs)"
      "list_all2 (row_matches F spec) recs rows"
    using Cons.IH [OF w(3), of "n + 1" "acc @ [read]"] by blast
  ultimately show ?case
    using read by (intro exI [of _ "read # recs"]) simp
qed simp

section \<open>Which values a column takes\<close>

lemma lstrip_replicate: "lstrip {p} (replicate k p @ s) = lstrip {p} s"
  by (induction k) (simp_all add: lstrip_def)

lemma lstrip_id_iff: "lstrip {p} s = s \<longleftrightarrow> s = [] \<or> hd s \<noteq> p"
proof (cases s)
  case (Cons c t)
  then show ?thesis
    using length_dropWhile_le [of "\<lambda>c. c \<in> {p}" t] by (auto simp: lstrip_def)
qed (simp add: lstrip_def)

lemma rstrip_lstrip: "rstrip cs s = rev (lstrip cs (rev s))"
  by (simp add: rstrip_def lstrip_def)

lemma strip_pad_field:
  "strip_pad (pad_field s c) c = (case fc_align c of AlignLeft \<Rightarrow> rstrip {fc_pad c} s | AlignRight \<Rightarrow> lstrip {fc_pad c} s)"
  by (simp add: strip_pad_def pad_field_def rstrip_lstrip lstrip_replicate split: fw_align.split)

text \<open>The end of a string that its column's padding touches.\<close>

definition pad_side :: "fw_column \<Rightarrow> codepoints \<Rightarrow> nat" where
  "pad_side c s = (case fc_align c of AlignLeft \<Rightarrow> last s | AlignRight \<Rightarrow> hd s)"

lemma strip_pad_id_iff: "strip_pad (pad_field s c) c = s \<longleftrightarrow> s = [] \<or> pad_side c s \<noteq> fc_pad c"
proof -
  have "rstrip {fc_pad c} s = s \<longleftrightarrow> s = [] \<or> last s \<noteq> fc_pad c"
    using lstrip_id_iff [of "fc_pad c" "rev s"] by (auto simp: rstrip_lstrip hd_rev rev_swap)
  then show ?thesis
    by (auto simp: strip_pad_field pad_side_def lstrip_id_iff split: fw_align.split)
qed

text \<open>In a right-aligned column padded with zeros or spaces every integer that fits decodes to itself.\<close>

lemma zero_padded_int:
  assumes "int_text n = Some s" and "length s \<le> fc_width c" and "fc_width c \<le> INT_MAX_STR_DIGITS"
    and "fc_type c = TInt" and "fc_align c = AlignRight" and "fc_pad c = 48 \<or> fc_pad c = 32"
  shows "cast_value F (strip_pad (pad_field s c) c) (pad_field s c) c = Some (VInt n)"
proof (cases "n = 0 \<and> fc_pad c = 48")
  case True
  then have s: "s = [48]"
    using assms(1) by (auto simp: int_text_def codes_def dec_str_small Let_def split: if_splits)
  let ?z = "replicate (fc_width c) (CHR ''0'')"
  have w: "0 < fc_width c"
    using assms(2) s by simp
  have raw: "pad_field s c = codes ?z"
    using True s w assms(5) by (cases "fc_width c") (simp_all add: pad_field_def codes_def replicate_append_same)
  have "strip_pad (pad_field s c) c = []"
    using True s assms(5) by (simp add: strip_pad_field lstrip_def)
  moreover have "text_int (pad_field s c) = Some 0"
    using text_int_codes(1) [of ?z] w assms(3) by (simp add: raw)
  ultimately show ?thesis
    using True assms(4) by (simp add: cast_value_def)
next
  case False
  have "s \<noteq> []"
    using assms(1) by (auto simp: int_text_def codes_def Let_def split: if_splits)
  moreover have "hd s \<noteq> fc_pad c"
  proof (cases "n < 0")
    case True
    then show ?thesis
      using assms(1,6) by (auto simp: int_text_def Let_def split: if_splits)
  next
    case nonneg: False
    then have s: "s = codes (dec_str (nat n))"
      using assms(1) by (auto simp: int_text_def Let_def split: if_splits)
    have "hd s \<in> set (codes (dec_str (nat n)))"
      using \<open>s \<noteq> []\<close> s by simp
    then have "48 \<le> hd s"
      using codes_nth_digit [OF dec_str_digits] by blast
    moreover have "hd s \<noteq> 48" if "0 < n"
    proof -
      have "(of_char (CHR ''0'') :: nat) = 48"
        by simp
      then show ?thesis
        using dec_str_hd [of "nat n"] that s by (metis codes_def dec_str_nonempty hd_map of_char_eq_iff zero_less_nat_eq)
    qed
    ultimately show ?thesis
      using False nonneg assms(6) by auto
  qed
  ultimately have "strip_pad (pad_field s c) c = s"
    using assms(5) by (simp add: strip_pad_id_iff pad_side_def)
  then show ?thesis
    using text_int_int_text [OF assms(1)] assms(4) \<open>s \<noteq> []\<close> by (simp add: cast_value_def)
qed

lemma int_text_encodable: "int_text n = Some s \<Longrightarrow> utf8_encode s \<noteq> None"
proof -
  have "utf8_encode t \<noteq> None" if "\<forall>c \<in> set t. c < 128" for t
    using that by (induction t) (auto simp: encode_char_def)
  moreover assume "int_text n = Some s"
  then have "\<forall>c \<in> set s. c < 128"
    using codes_nth_digit [OF dec_str_digits, of _ "nat \<bar>n\<bar>"] by (fastforce simp: int_text_def Let_def split: if_splits)
  ultimately show ?thesis
    by blast
qed

section \<open>Properties\<close>

text \<open>C24. The writer inverts to the reader. Every frame the writer accepts for a valid layout reads back, with
  no limit on records, as the same rows in the same order: the layout's columns, each with a value the
  code's equality (sign of zero included) identifies with the one written.\<close>

theorem fixed_width_roundtrip:
  assumes "validate_layout spec" and "\<forall>x. plain (float_repr F x)" and "write_fixed_width F frm spec = Inr content"
  shows "\<exists>recs. read_fixed_width F content spec None = Inr recs \<and> list_all2 (row_matches F spec) recs (fr_rows frm)"
proof -
  have "check_layout spec = None" "write_rows F spec 0 (fr_rows frm) = Inr content"
    using assms(3) by (auto simp: write_fixed_width_def split: option.splits)
  then show ?thesis
    using parse_written_rows [of F spec 0 "fr_rows frm" content 0 "[]"] assms(1,2) by (simp add: read_fixed_width_def)
qed

text \<open>A text column refuses exactly the strings it cannot give back: those with a line break, those wider
  than the column, those with a lone surrogate, and those whose padded end is the pad character.\<close>

theorem fixed_width_text_domain:
  assumes "fc_type c = TStr"
  shows "render_field F i (VStr s) c = Inr f \<longleftrightarrow>
    plain s \<and> length s \<le> fc_width c \<and> utf8_encode s \<noteq> None \<and> (s = [] \<or> pad_side c s \<noteq> fc_pad c) \<and> f = pad_field s c"
  using assms strip_pad_id_iff [of s c]
  by (auto simp: render_field_def render_value_def cast_value_def plain_def Let_def split: if_splits)

text \<open>An integer column that is right-aligned and padded with zeros or spaces takes every integer whose
  decimal text fits its width, zero and negative numbers included.\<close>

theorem fixed_width_int_domain:
  assumes "fc_type c = TInt" and "fc_align c = AlignRight" and "fc_pad c = 48 \<or> fc_pad c = 32" and "fc_width c \<le> INT_MAX_STR_DIGITS"
  shows "(\<exists>f. render_field F i (VInt n) c = Inr f) \<longleftrightarrow> (\<exists>s. int_text n = Some s \<and> length s \<le> fc_width c)"
proof (cases "int_text n")
  case None
  then show ?thesis
    using assms(1) by (simp add: render_field_def render_value_def)
next
  case (Some s)
  then show ?thesis
    using zero_padded_int [OF Some _ assms(4,1,2,3), of F] int_text_encodable [OF Some] assms(1)
    by (auto simp: render_field_def render_value_def Let_def)
qed

definition demo_column :: "nat \<Rightarrow> fw_type \<Rightarrow> nat \<Rightarrow> fw_align \<Rightarrow> fw_column" where
  "demo_column start t pad al = \<lparr>fc_name = (case t of TStr \<Rightarrow> ''name'' | TInt \<Rightarrow> ''age'' | TFloat \<Rightarrow> ''score''), fc_start = start, fc_width = 5,
     fc_type = t, fc_pad = pad, fc_align = al\<rparr>"

definition demo_layout :: fw_layout where
  "demo_layout = \<lparr>fl_columns = [demo_column 0 TStr 32 AlignLeft, demo_column 6 TInt 48 AlignRight], fl_exact = True\<rparr>"

definition demo_float :: "bool float_ops" where
  "demo_float = \<lparr>float_repr = (\<lambda>b. if b then [49, 46, 48] else [48, 46, 48]), float_parse = (\<lambda>s. Some (s = [49, 46, 48])),
     float_isnan = (\<lambda>_. False), float_eq = (=), float_sign = (\<lambda>_. True)\<rparr>"

definition demo_frame :: "bool frame" where
  "demo_frame = \<lparr>fr_labels = [''name'', ''age''],
     fr_rows = [(\<lambda>n. if n = ''name'' then VStr [90, 111, 235] else VInt 42), (\<lambda>n. if n = ''name'' then VStr [] else VInt 0)]\<rparr>"

theorem fixed_width_roundtrip_witness:
  "\<exists>content recs. write_fixed_width demo_float demo_frame demo_layout = Inr content \<and>
     read_fixed_width demo_float content demo_layout None = Inr recs \<and> list_all2 (row_matches demo_float demo_layout) recs (fr_rows demo_frame)"
proof -
  have "validate_layout demo_layout"
    by code_simp
  moreover have "\<forall>x. plain (float_repr demo_float x)"
    by (simp add: demo_float_def)
  moreover obtain content where "write_fixed_width demo_float demo_frame demo_layout = Inr content"
  proof -
    have rep: "replicate 11 (32 :: nat) = [32, 32, 32, 32, 32, 32, 32, 32, 32, 32, 32]" "replicate 5 (32 :: nat) = [32, 32, 32, 32, 32]"
        "replicate 2 (32 :: nat) = [32, 32]" "replicate 3 (48 :: nat) = [48, 48, 48]" "replicate 4 (48 :: nat) = [48, 48, 48, 48]"
      by code_simp+
    show ?thesis
      using that by (simp add: write_fixed_width_def demo_frame_def demo_layout_def demo_column_def check_layout_def check_columns_def
          build_record_def record_width_def render_field_def render_value_def cast_value_def int_text_def codes_def dec_str.simps
          INT_MAX_STR_DIGITS_def encode_char_def pad_field_def strip_pad_def rstrip_def lstrip_def text_int_def strip_spaces_def
          int_spaces_def unsigned_int_def decimal_digit_def decimal_zeros_def splice_def demo_float_def rep Let_def)
  qed
  ultimately show ?thesis
    using fixed_width_roundtrip by blast
qed

lemma replicate_2: "replicate 2 (32 :: nat) = [32, 32]"
  by code_simp

theorem fixed_width_text_domain_witness:
  "render_field demo_float 0 (VStr [90, 111, 235]) (demo_column 0 TStr 32 AlignLeft) = Inr [90, 111, 235, 32, 32]"
proof -
  have "fc_type (demo_column 0 TStr 32 AlignLeft) = TStr"
    by (simp add: demo_column_def)
  from fixed_width_text_domain [OF this, of demo_float 0 "[90, 111, 235]" "[90, 111, 235, 32, 32]"] show ?thesis
    by (simp add: demo_column_def pad_side_def pad_field_def encode_char_def replicate_2)
qed

theorem fixed_width_int_domain_witness: "\<exists>f. render_field demo_float 0 (VInt 0) (demo_column 6 TInt 48 AlignRight) = Inr f"
proof -
  have "int_text 0 = Some [48]"
    by (simp add: int_text_def codes_def dec_str_small INT_MAX_STR_DIGITS_def)
  then show ?thesis
    using fixed_width_int_domain [of "demo_column 6 TInt 48 AlignRight" demo_float 0 0]
    by (simp add: demo_column_def INT_MAX_STR_DIGITS_def)
qed

end
