(* ===== verification/External_Sort.thy ===== *)
theory External_Sort
  imports Decoy_Prelude "HOL-Library.Multiset"
begin

text \<open>
  The bounded external sorter of the out-of-core route: \<open>execution/out_of_core/_external_sort.py\<close> with its
  helpers \<open>_external_sort_bounding.py\<close> and \<open>_external_sort_run.py\<close>. The spill directory is part of the
  state, as a map from run files to their stored batches. What the code takes from its host is the
  record \<open>arrow\<close>: the byte size of a batch, \<open>sort_by\<close>, the chunks a table falls into, and the file
  operations that fail: making or filling a run file, opening one to read it, and unlinking one.

  The merge loop and the loop over the passes may run forever on bad data, so they are partial
  functions into \<open>option\<close>; that they return is part of the theorems. A failed call returns the error
  with the state it leaves behind, since \<open>close\<close> runs on that state.
\<close>

section \<open>Model\<close>

subsection \<open>Batches\<close>

datatype dtype =
    DBool | DInt bool nat | DFloat nat | DTime nat | DDate nat | DTimestamp string | DDuration string | DDecimal nat
  | DFixedBinary nat | DLargeBinary | DLargeString | DLargeList | DBinary | DString | DList | DOther string

type_synonym 'v row = "string \<Rightarrow> 'v option"

record 'v batch =
  ba_schema :: "(string \<times> dtype) list"
  ba_rows :: "'v row list"

text \<open>The counter makes a path unique; the constructor and the number stand for the file name's prefix.\<close>

datatype run_path = RunFile nat | MergeFile nat nat

fun path_no :: "run_path \<Rightarrow> nat" where
  "path_no (RunFile n) = n"
| "path_no (MergeFile pass n) = n"

text \<open>\<open>write_fault\<close> of a path is \<open>None\<close> when its file is written, \<open>Some None\<close> when it cannot be made, and
  \<open>Some (Some n)\<close> when an operation (a write, a read of a merged run, the close) raises after \<open>n\<close> batches.\<close>

record 'v arrow =
  nbytes :: "'v batch \<Rightarrow> nat"
  sort_by :: "string \<Rightarrow> 'v batch \<Rightarrow> 'v batch"
  to_batches :: "'v batch \<Rightarrow> 'v batch list"
  write_fault :: "run_path \<Rightarrow> nat option option"
  open_fault :: "run_path \<Rightarrow> bool"
  unlink_fault :: "run_path \<Rightarrow> bool"

fun type_min_bytes :: "dtype \<Rightarrow> nat" where
  "type_min_bytes DBool = 0"
| "type_min_bytes (DInt s w) = w div 8"
| "type_min_bytes (DFloat w) = w div 8"
| "type_min_bytes (DTime w) = w div 8"
| "type_min_bytes (DDate w) = w div 8"
| "type_min_bytes (DTimestamp u) = 8"
| "type_min_bytes (DDuration u) = 8"
| "type_min_bytes (DDecimal w) = w div 8"
| "type_min_bytes (DFixedBinary n) = n"
| "type_min_bytes DLargeBinary = 8"
| "type_min_bytes DLargeString = 8"
| "type_min_bytes DLargeList = 8"
| "type_min_bytes DBinary = 4"
| "type_min_bytes DString = 4"
| "type_min_bytes DList = 4"
| "type_min_bytes (DOther n) = 0"

definition min_row_bytes :: "(string \<times> dtype) list \<Rightarrow> nat" where
  "min_row_bytes schema = sum_list (map (type_min_bytes \<circ> snd) schema)"

fun is_supported_key_type :: "dtype \<Rightarrow> bool" where
  "is_supported_key_type (DInt s w) = True"
| "is_supported_key_type (DDate w) = True"
| "is_supported_key_type (DTimestamp u) = True"
| "is_supported_key_type DString = True"
| "is_supported_key_type DLargeString = True"
| "is_supported_key_type DBinary = True"
| "is_supported_key_type DLargeBinary = True"
| "is_supported_key_type _ = False"

definition with_rows :: "'v batch \<Rightarrow> 'v row list \<Rightarrow> 'v batch" where
  "with_rows b rs = \<lparr>ba_schema = ba_schema b, ba_rows = rs\<rparr>"

text \<open>\<open>_iter_bounded_views\<close>: bisect until a view fits or is one row.\<close>

function iter_bounded_views :: "('v batch \<Rightarrow> nat) \<Rightarrow> nat \<Rightarrow> 'v batch \<Rightarrow> 'v batch list" where
  "iter_bounded_views nb max_bytes b =
     (if ba_rows b = [] then []
      else if length (ba_rows b) = 1 \<or> nb b \<le> max_bytes then [b]
      else let mid = length (ba_rows b) div 2 in
        iter_bounded_views nb max_bytes (with_rows b (take mid (ba_rows b))) @
        iter_bounded_views nb max_bytes (with_rows b (drop mid (ba_rows b))))"
  by pat_completeness auto
termination
proof (relation "measure (\<lambda>(_, _, b). length (ba_rows b))", goal_cases)
  case (2 nb m b mid)
  then show ?case
    by (cases "ba_rows b") (auto simp: with_rows_def)
next
  case (3 nb m b mid)
  then show ?case
    by (cases "ba_rows b"; cases "tl (ba_rows b)") (auto simp: with_rows_def)
qed simp

declare iter_bounded_views.simps [simp del]

definition bounded_batches :: "'v arrow \<Rightarrow> nat \<Rightarrow> 'v batch \<Rightarrow> 'v batch list" where
  "bounded_batches A max_bytes table = concat (map (iter_bounded_views (nbytes A) max_bytes) (to_batches A table))"

subsection \<open>The sorter\<close>

datatype sort_error =
    OUT_OF_CORE_REORDER_BUDGET_TOO_SMALL
  | OUT_OF_CORE_SORT_KEY_MISSING
  | OUT_OF_CORE_SORT_KEY_TYPE_UNSUPPORTED
  | OUT_OF_CORE_SORT_KEY_TYPE_DRIFT
  | OUT_OF_CORE_SORT_KEY_NULL nat
  | OUT_OF_CORE_SORT_INVALID_STATE
  | OUT_OF_CORE_SORT_ROW_INDEX_UNBOUNDED nat
  | OUT_OF_CORE_SORT_ROW_TOO_WIDE nat
  | ArrowInvalid
  | SortFileNotFound
  | SortAssertion
  | SortOSError

record 'v sorter =
  so_cap :: nat
  so_fan_in :: nat
  so_key :: string
  so_per_head :: nat
  so_buffered :: "'v batch list"
  so_buffered_bytes :: nat
  so_peak_pre_sort :: nat
  so_peak_buffered :: nat
  so_peak_merge :: nat
  so_run_paths :: "run_path list"
  so_all_files :: "run_path set"
  so_counter :: nat
  so_final :: "run_path option"
  so_finished :: bool
  so_schema :: "(string \<times> dtype) list option"
  so_key_type :: "dtype option"
  so_files :: "run_path \<rightharpoonup> 'v batch list"

definition new_sorter :: "int \<Rightarrow> int \<Rightarrow> string \<Rightarrow> sort_error + 'v sorter" where
  "new_sorter run_bytes_cap merge_fan_in key =
     (if run_bytes_cap \<le> 0 \<or> merge_fan_in < 2 \<or> run_bytes_cap div (2 * merge_fan_in) < 1
      then Inl OUT_OF_CORE_REORDER_BUDGET_TOO_SMALL
      else Inr \<lparr>so_cap = nat run_bytes_cap, so_fan_in = nat merge_fan_in, so_key = key,
        so_per_head = nat (run_bytes_cap div (2 * merge_fan_in)), so_buffered = [], so_buffered_bytes = 0,
        so_peak_pre_sort = 0, so_peak_buffered = 0, so_peak_merge = 0, so_run_paths = [], so_all_files = {},
        so_counter = 0, so_final = None, so_finished = False, so_schema = None, so_key_type = None,
        so_files = Map.empty\<rparr>)"

definition null_count :: "string \<Rightarrow> 'v row list \<Rightarrow> nat" where
  "null_count c rows = length (filter (\<lambda>r. r c = None) rows)"

definition validate_key :: "'v batch \<Rightarrow> 'v sorter \<Rightarrow> sort_error \<times> 'v sorter + 'v sorter" where
  "validate_key b st =
     (case map_of (ba_schema b) (so_key st) of
        None \<Rightarrow> Inl (OUT_OF_CORE_SORT_KEY_MISSING, st)
      | Some t \<Rightarrow>
          and_then
            (case so_key_type st of
               None \<Rightarrow> if is_supported_key_type t then Inr (st\<lparr>so_key_type := Some t\<rparr>)
                 else Inl (OUT_OF_CORE_SORT_KEY_TYPE_UNSUPPORTED, st)
             | Some t' \<Rightarrow> if t = t' then Inr st else Inl (OUT_OF_CORE_SORT_KEY_TYPE_DRIFT, st))
            (\<lambda>st. let n = null_count (so_key st) (ba_rows b) in
               if 0 < n then Inl (OUT_OF_CORE_SORT_KEY_NULL n, st) else Inr st))"

definition INDEX_BYTES :: nat where "INDEX_BYTES = 8"

definition check_schema :: "'v batch \<Rightarrow> 'v sorter \<Rightarrow> sort_error \<times> 'v sorter + 'v sorter" where
  "check_schema b st =
     (case so_schema st of
        Some _ \<Rightarrow> Inr st
      | None \<Rightarrow> let min_row = min_row_bytes (ba_schema b) in
          if min_row < INDEX_BYTES then Inl (OUT_OF_CORE_SORT_ROW_INDEX_UNBOUNDED min_row, st)
          else Inr (st\<lparr>so_schema := Some (ba_schema b)\<rparr>))"

definition next_run_path :: "(nat \<Rightarrow> run_path) \<Rightarrow> 'v sorter \<Rightarrow> run_path \<times> 'v sorter" where
  "next_run_path prefix st =
     (let p = prefix (so_counter st) in
      (p, st\<lparr>so_counter := so_counter st + 1, so_all_files := insert p (so_all_files st)\<rparr>))"

text \<open>\<open>Table.from_batches\<close> and \<open>concat_tables\<close> refuse batches of different schemas.\<close>

definition from_batches :: "'v batch list \<Rightarrow> 'v batch option" where
  "from_batches bs =
     (case bs of
        [] \<Rightarrow> None
      | b # _ \<Rightarrow> if list_all (\<lambda>b'. ba_schema b' = ba_schema b) bs then Some (with_rows b (concat (map ba_rows bs)))
                else None)"

definition write_run :: "'v arrow \<Rightarrow> 'v batch \<Rightarrow> run_path \<Rightarrow> 'v sorter \<Rightarrow> sort_error \<times> 'v sorter + 'v sorter" where
  "write_run A table p st =
     (if so_schema st = None then Inl (SortAssertion, st)
      else let out = filter (\<lambda>b. ba_rows b \<noteq> []) (bounded_batches A (so_per_head st) table) in
        case write_fault A p of
          None \<Rightarrow> Inr (st\<lparr>so_files := (so_files st)(p \<mapsto> out)\<rparr>)
        | Some None \<Rightarrow> Inl (SortOSError, st)
        | Some (Some n) \<Rightarrow> Inl (SortOSError, st\<lparr>so_files := (so_files st)(p \<mapsto> take n out)\<rparr>))"

definition flush :: "'v arrow \<Rightarrow> 'v sorter \<Rightarrow> sort_error \<times> 'v sorter + 'v sorter" where
  "flush A st =
     (if so_buffered st = [] then Inr st
      else case from_batches (so_buffered st) of
          None \<Rightarrow> Inl (ArrowInvalid, st)
        | Some table \<Rightarrow>
            (let sorted_table = sort_by A (so_key st) table;
                 st1 = st\<lparr>so_peak_buffered := max (so_peak_buffered st) (so_buffered_bytes st + nbytes A sorted_table)\<rparr>;
                 (p, st2) = next_run_path RunFile st1 in
             and_then (write_run A sorted_table p st2) (\<lambda>st3.
             Inr (st3\<lparr>so_run_paths := so_run_paths st3 @ [p], so_buffered := [], so_buffered_bytes := 0\<rparr>))))"

definition write_view :: "'v arrow \<Rightarrow> 'v sorter \<Rightarrow> 'v batch \<Rightarrow> sort_error \<times> 'v sorter + 'v sorter" where
  "write_view A st view =
     (let n = nbytes A view in
      if so_per_head st < n then Inl (OUT_OF_CORE_SORT_ROW_TOO_WIDE n, st)
      else and_then (if so_buffered st \<noteq> [] \<and> so_cap st < so_buffered_bytes st + n then flush A st else Inr st)
        (\<lambda>st. let total_bytes = so_buffered_bytes st + n in
           Inr (st\<lparr>so_buffered := so_buffered st @ [view], so_buffered_bytes := total_bytes,
             so_peak_pre_sort := max (so_peak_pre_sort st) total_bytes,
             so_peak_buffered := max (so_peak_buffered st) total_bytes\<rparr>)))"

definition sorter_write :: "'v arrow \<Rightarrow> 'v sorter \<Rightarrow> 'v batch \<Rightarrow> sort_error \<times> 'v sorter + 'v sorter" where
  "sorter_write A st b =
     (if so_finished st then Inl (OUT_OF_CORE_SORT_INVALID_STATE, st)
      else if ba_rows b = [] then Inr st
      else and_then (validate_key b st) (\<lambda>st.
        and_then (check_schema b st) (\<lambda>st.
          fold_result (write_view A) st (iter_bounded_views (nbytes A) (so_per_head st) b))))"

subsection \<open>Merging\<close>

record 'v head =
  hd_rest :: "'v batch list"
  hd_pending :: "'v batch option"

definition open_head :: "'v batch list \<Rightarrow> 'v head" where
  "open_head bs = \<lparr>hd_rest = bs, hd_pending = None\<rparr>"

definition is_final_batch :: "'v head \<Rightarrow> bool" where
  "is_final_batch h \<longleftrightarrow> hd_rest h = []"

definition ensure_loaded :: "'v head \<Rightarrow> 'v head" where
  "ensure_loaded h =
     (if (case hd_pending h of None \<Rightarrow> False | Some t \<Rightarrow> ba_rows t \<noteq> []) then h
      else case hd_rest h of
          [] \<Rightarrow> h\<lparr>hd_pending := None\<rparr>
        | b # bs \<Rightarrow> \<lparr>hd_rest = bs, hd_pending = Some b\<rparr>)"

definition set_remaining :: "'v batch \<Rightarrow> 'v head \<Rightarrow> 'v head" where
  "set_remaining t h = h\<lparr>hd_pending := (if ba_rows t = [] then None else Some t)\<rparr>"

text \<open>\<open>pc.max\<close> and \<open>pc.min\<close> skip nulls and give null on nothing else.\<close>

fun opt_max :: "'v :: linorder option list \<Rightarrow> 'v option" where
  "opt_max [] = None"
| "opt_max (None # vs) = opt_max vs"
| "opt_max (Some v # vs) = Some (case opt_max vs of None \<Rightarrow> v | Some w \<Rightarrow> max v w)"

fun opt_min :: "'v :: linorder option list \<Rightarrow> 'v option" where
  "opt_min [] = None"
| "opt_min (None # vs) = opt_min vs"
| "opt_min (Some v # vs) = Some (case opt_min vs of None \<Rightarrow> v | Some w \<Rightarrow> min v w)"

definition max_value :: "string \<Rightarrow> 'v batch \<Rightarrow> sort_error + ('v :: linorder) option" where
  "max_value c t = (if ba_rows t = [] then Inl SortAssertion else Inr (opt_max (map (\<lambda>r. r c) (ba_rows t))))"

definition count_le :: "string \<Rightarrow> ('v :: linorder) option \<Rightarrow> 'v row list \<Rightarrow> nat" where
  "count_le c cutoff rows =
     (case cutoff of
        None \<Rightarrow> 0
      | Some w \<Rightarrow> length (filter (\<lambda>r. case r c of None \<Rightarrow> False | Some v \<Rightarrow> v \<le> w) rows))"

text \<open>A head's rows that may be emitted now, and the head with the others.\<close>

definition split_head :: "string \<Rightarrow> ('v :: linorder) option option \<Rightarrow> 'v head \<Rightarrow> 'v batch list \<times> 'v head" where
  "split_head c cutoff h =
     (case hd_pending h of
        None \<Rightarrow> ([], h)
      | Some t \<Rightarrow>
          (case cutoff of
             None \<Rightarrow> ([t], set_remaining (with_rows t []) h)
           | Some w \<Rightarrow> let k = count_le c w (ba_rows t) in
               ([with_rows t (take k (ba_rows t))], set_remaining (with_rows t (drop k (ba_rows t))) h)))"

definition active_tables :: "'v head list \<Rightarrow> 'v batch list" where
  "active_tables heads = List.map_filter hd_pending heads"

definition round_cutoff :: "string \<Rightarrow> ('v :: linorder) head list \<Rightarrow> sort_error + 'v option option" where
  "round_cutoff c heads =
     and_then (map_result (max_value c) (active_tables (filter (\<lambda>h. \<not> is_final_batch h) heads)))
       (\<lambda>vs. Inr (if vs = [] then None else Some (opt_min vs)))"

text \<open>One round on loaded heads: what is written, the new heads and the resident bytes.\<close>

definition merge_round ::
    "'v arrow \<Rightarrow> string \<Rightarrow> nat \<Rightarrow> (string \<times> dtype) list \<Rightarrow> ('v :: linorder) head list \<Rightarrow>
      sort_error \<times> nat + ('v batch list \<times> 'v head list \<times> nat)" where
  "merge_round A c per_head schema heads =
     (let resident = sum_list (map (nbytes A) (active_tables heads)) in
      and_then (on_error (\<lambda>e. (e, resident)) (round_cutoff c heads)) (\<lambda>cutoff.
        case from_batches (concat (map (fst \<circ> split_head c cutoff) heads)) of
          None \<Rightarrow> Inl (ArrowInvalid, resident)
        | Some table \<Rightarrow>
            (let combined = sort_by A c table;
                 out = filter (\<lambda>b. ba_rows b \<noteq> []) (bounded_batches A per_head combined);
                 peak = resident + nbytes A combined in
             if out \<noteq> [] \<and> ba_schema combined \<noteq> schema then Inl (ArrowInvalid, peak)
             else Inr (out, map (snd \<circ> split_head c cutoff) heads, peak))))"

text \<open>The \<open>while True\<close> loop: the batches written, the peak, and the error that stopped it. With a \<open>limit\<close> the
  loop is stopped by an I/O error after that many batches, at the latest by the one of the close.\<close>

partial_function (option) merge_heads ::
    "'v arrow \<Rightarrow> string \<Rightarrow> nat \<Rightarrow> (string \<times> dtype) list \<Rightarrow> nat option \<Rightarrow> ('v :: linorder) head list \<Rightarrow> 'v batch list \<Rightarrow> nat \<Rightarrow>
      ('v batch list \<times> nat \<times> sort_error option) option" where
  "merge_heads A c per_head schema limit heads out peak =
     (let loaded = map ensure_loaded heads in
      if active_tables loaded = [] then Some (out, peak, if limit = None then None else Some SortOSError)
      else case merge_round A c per_head schema loaded of
          Inl (e, m) \<Rightarrow> Some (out, max peak m, Some e)
        | Inr (written, heads', m) \<Rightarrow>
            if limit \<noteq> None \<and> the limit < length (out @ written)
            then Some (take (the limit) (out @ written), max peak m, Some SortOSError)
            else merge_heads A c per_head schema limit heads' (out @ written) (max peak m))"

definition open_run :: "'v arrow \<Rightarrow> 'v sorter \<Rightarrow> run_path \<Rightarrow> sort_error + 'v batch list" where
  "open_run A st q = (if open_fault A q then Inl SortOSError else of_option SortFileNotFound (so_files st q))"

definition merge_group ::
    "'v arrow \<Rightarrow> run_path list \<Rightarrow> run_path \<Rightarrow> ('v :: linorder) sorter \<Rightarrow>
      (sort_error \<times> 'v sorter + 'v sorter) option" where
  "merge_group A group_paths p st =
     (case so_schema st of
        None \<Rightarrow> Some (Inl (SortAssertion, st))
      | Some schema \<Rightarrow>
          (case map_result (open_run A st) group_paths of
             Inl e \<Rightarrow> Some (Inl (e, st))
           | Inr runs \<Rightarrow>
               if write_fault A p = Some None then Some (Inl (SortOSError, st))
               else map_option (\<lambda>(out, peak, e).
                   (let st' = st\<lparr>so_files := (so_files st)(p \<mapsto> out), so_peak_merge := peak\<rparr> in
                    case e of None \<Rightarrow> Inr st' | Some e \<Rightarrow> Inl (e, st')))
                 (merge_heads A (so_key st) (so_per_head st) schema (Option.bind (write_fault A p) (\<lambda>limit. limit))
                   (map open_head runs) [] (so_peak_merge st))))"

text \<open>The consumed runs are unlinked, and taken off the registry, one after the other.\<close>

fun unlink_runs :: "'v arrow \<Rightarrow> run_path list \<Rightarrow> 'v sorter \<Rightarrow> sort_error \<times> 'v sorter + 'v sorter" where
  "unlink_runs A [] st = Inr st"
| "unlink_runs A (p # ps) st =
     (if unlink_fault A p then Inl (SortOSError, st)
      else unlink_runs A ps (st\<lparr>so_files := (so_files st)(p := None), so_all_files := so_all_files st - {p}\<rparr>))"

definition merge_step ::
    "'v arrow \<Rightarrow> nat \<Rightarrow> run_path list \<Rightarrow> ('v :: linorder) sorter \<times> run_path list \<Rightarrow>
      (sort_error \<times> 'v sorter + 'v sorter \<times> run_path list) option" where
  "merge_step A pass_no group_paths sn =
     (if length group_paths = 1 then Some (Inr (fst sn, snd sn @ group_paths))
      else let (p, st) = next_run_path (MergeFile pass_no) (fst sn) in
        map_option (\<lambda>r. and_then r (\<lambda>st. and_then (unlink_runs A group_paths st) (\<lambda>st. Inr (st, snd sn @ [p]))))
          (merge_group A group_paths p st))"

fun groups_of :: "nat \<Rightarrow> 'a list \<Rightarrow> 'a list list" where
  "groups_of n xs = (if xs = [] \<or> n = 0 then [] else take n xs # groups_of n (drop n xs))"

declare groups_of.simps [simp del]

fun merge_pass ::
    "'v arrow \<Rightarrow> nat \<Rightarrow> run_path list list \<Rightarrow> ('v :: linorder) sorter \<times> run_path list \<Rightarrow>
      (sort_error \<times> 'v sorter + 'v sorter \<times> run_path list) option" where
  "merge_pass A pass_no [] sn = Some (Inr sn)"
| "merge_pass A pass_no (g # gs) sn =
     Option.bind (merge_step A pass_no g sn)
       (\<lambda>r. case r of Inl e \<Rightarrow> Some (Inl e) | Inr sn' \<Rightarrow> merge_pass A pass_no gs sn')"

partial_function (option) merge_passes ::
    "'v arrow \<Rightarrow> nat \<Rightarrow> run_path list \<Rightarrow> ('v :: linorder) sorter \<Rightarrow>
      (sort_error \<times> 'v sorter + 'v sorter \<times> run_path list) option" where
  "merge_passes A pass_no runs st =
     (if length runs \<le> 1 then Some (Inr (st, runs))
      else Option.bind (merge_pass A pass_no (groups_of (so_fan_in st) runs) (st, []))
        (\<lambda>r. case r of Inl e \<Rightarrow> Some (Inl e) | Inr (st', next_runs) \<Rightarrow> merge_passes A (pass_no + 1) next_runs st'))"

definition sorter_finish :: "'v arrow \<Rightarrow> ('v :: linorder) sorter \<Rightarrow> (sort_error \<times> 'v sorter + 'v sorter) option" where
  "sorter_finish A st =
     (if so_finished st then Some (Inr st)
      else case flush A st of
          Inl e \<Rightarrow> Some (Inl e)
        | Inr st1 \<Rightarrow>
            map_option (\<lambda>r. and_then r (\<lambda>(st2, runs).
                Inr (st2\<lparr>so_final := (case runs of [] \<Rightarrow> None | p # _ \<Rightarrow> Some p), so_finished := True\<rparr>)))
              (merge_passes A 0 (so_run_paths st1) st1))"

definition iter_ordered :: "'v sorter \<Rightarrow> sort_error + 'v batch list" where
  "iter_ordered st =
     (if \<not> so_finished st then Inl OUT_OF_CORE_SORT_INVALID_STATE
      else case so_final st of
          None \<Rightarrow> Inr []
        | Some p \<Rightarrow> of_option SortFileNotFound (so_files st p))"

text \<open>\<open>close\<close> unlinks the registered files in the order \<open>order\<close> in which the set of paths is iterated; the registry
  is emptied after the loop.\<close>

fun close_files :: "'v arrow \<Rightarrow> run_path list \<Rightarrow> 'v sorter \<Rightarrow> sort_error \<times> 'v sorter + 'v sorter" where
  "close_files A [] st = Inr st"
| "close_files A (p # ps) st =
     (if unlink_fault A p then Inl (SortOSError, st)
      else close_files A ps (st\<lparr>so_files := (so_files st)(p := None)\<rparr>))"

definition sorter_close :: "'v arrow \<Rightarrow> run_path list \<Rightarrow> 'v sorter \<Rightarrow> sort_error \<times> 'v sorter + 'v sorter" where
  "sorter_close A order st =
     and_then (close_files A order st) (\<lambda>st. Inr (st\<lparr>so_all_files := {}, so_run_paths := [], so_final := None\<rparr>))"

section \<open>Views and run files\<close>

definition table_rows :: "'v batch list \<Rightarrow> 'v row list" where
  "table_rows bs = concat (map ba_rows bs)"

lemma table_rows_simps [simp]:
  "table_rows [] = []" "table_rows (b # bs) = ba_rows b @ table_rows bs" "table_rows (bs @ bs') = table_rows bs @ table_rows bs'"
  by (simp_all add: table_rows_def)

lemma with_rows_simps [simp]:
  "ba_rows (with_rows b rs) = rs" "ba_schema (with_rows b rs) = ba_schema b" "with_rows (with_rows b rs) rs' = with_rows b rs'"
  by (simp_all add: with_rows_def)

lemma iter_bounded_views_rows: "table_rows (iter_bounded_views nb m b) = ba_rows b"
proof (induction nb m b rule: iter_bounded_views.induct)
  case (1 nb m b)
  show ?case
    using 1 by (subst iter_bounded_views.simps) (simp add: Let_def table_rows_def)
qed

lemma iter_bounded_views_view:
  "v \<in> set (iter_bounded_views nb m b) \<Longrightarrow>
    ba_schema v = ba_schema b \<and> ba_rows v \<noteq> [] \<and> set (ba_rows v) \<subseteq> set (ba_rows b) \<and>
    (nb v \<le> m \<or> (\<exists>r \<in> set (ba_rows b). v = with_rows b [r]))"
proof (induction nb m b rule: iter_bounded_views.induct)
  case (1 nb m b)
  show ?case
  proof (cases "ba_rows b = [] \<or> length (ba_rows b) = 1 \<or> nb b \<le> m")
    case True
    then have "v = b" "ba_rows b \<noteq> []"
      using "1.prems" by (subst (asm) iter_bounded_views.simps, force split: if_splits)+
    then show ?thesis
      using True by (cases "ba_rows b") (auto simp: with_rows_def)
  next
    case False
    let ?mid = "length (ba_rows b) div 2"
    have "v \<in> set (iter_bounded_views nb m (with_rows b (take ?mid (ba_rows b)))) \<union>
        set (iter_bounded_views nb m (with_rows b (drop ?mid (ba_rows b))))"
      using "1.prems" False by (subst (asm) iter_bounded_views.simps) (simp add: Let_def)
    then show ?thesis
      using "1.IH"(1,2) False by (auto simp: dest: in_set_takeD in_set_dropD)
  qed
qed

text \<open>What the code relies on of Arrow: \<open>sort_by\<close> permutes the rows and puts non-null keys in order, a
  table's chunks are its rows in order, and no row of a batch is larger than the batch.\<close>

definition key_of :: "string \<Rightarrow> 'v row \<Rightarrow> 'v" where
  "key_of c r = the (r c)"

definition keyed :: "string \<Rightarrow> 'v row list \<Rightarrow> bool" where
  "keyed c rows \<longleftrightarrow> (\<forall>r \<in> set rows. r c \<noteq> None)"

definition sort_by_sorts :: "('v :: linorder) arrow \<Rightarrow> bool" where
  "sort_by_sorts A \<longleftrightarrow> (\<forall>c t. ba_schema (sort_by A c t) = ba_schema t \<and> mset (ba_rows (sort_by A c t)) = mset (ba_rows t) \<and>
     (keyed c (ba_rows t) \<longrightarrow> sorted (map (key_of c) (ba_rows (sort_by A c t)))))"

definition to_batches_splits :: "'v arrow \<Rightarrow> bool" where
  "to_batches_splits A \<longleftrightarrow> (\<forall>t. table_rows (to_batches A t) = ba_rows t \<and>
     (\<forall>b \<in> set (to_batches A t). ba_schema b = ba_schema t))"

text \<open>No file operation fails.\<close>

definition files_work :: "'v arrow \<Rightarrow> bool" where
  "files_work A \<longleftrightarrow> (\<forall>p. write_fault A p = None \<and> \<not> open_fault A p \<and> \<not> unlink_fault A p)"

definition rows_fit_batches :: "'v arrow \<Rightarrow> bool" where
  "rows_fit_batches A \<longleftrightarrow> (\<forall>b. \<forall>r \<in> set (ba_rows b). nbytes A (with_rows b [r]) \<le> nbytes A b)"

lemma keyed_simps [simp]:
  "keyed c []" "keyed c (r # rs) \<longleftrightarrow> r c \<noteq> None \<and> keyed c rs" "keyed c (xs @ ys) \<longleftrightarrow> keyed c xs \<and> keyed c ys"
  by (auto simp: keyed_def)

lemma keyed_mset: "mset xs = mset ys \<Longrightarrow> keyed c xs \<longleftrightarrow> keyed c ys"
  by (metis keyed_def set_mset_mset)

lemma filter_nonempty_rows: "table_rows (filter (\<lambda>b. ba_rows b \<noteq> []) bs) = table_rows bs"
  by (induction bs) auto

lemma bounded_batches_rows: "to_batches_splits A \<Longrightarrow> table_rows (bounded_batches A m t) = ba_rows t"
proof -
  have "table_rows (concat (map (iter_bounded_views (nbytes A) m) bs)) = table_rows bs" for bs
    by (induction bs) (simp_all add: iter_bounded_views_rows)
  then show "to_batches_splits A \<Longrightarrow> ?thesis"
    by (simp add: bounded_batches_def to_batches_splits_def)
qed

lemma in_table_rows: "b \<in> set bs \<Longrightarrow> r \<in> set (ba_rows b) \<Longrightarrow> r \<in> set (table_rows bs)"
  by (auto simp: table_rows_def)

lemma bounded_batches_batch:
  assumes "to_batches_splits A" and "v \<in> set (bounded_batches A m t)"
  shows "ba_schema v = ba_schema t \<and> ba_rows v \<noteq> [] \<and>
    (nbytes A v \<le> m \<or> (\<exists>r \<in> set (ba_rows t). v = with_rows t [r]))"
proof -
  obtain b where b: "b \<in> set (to_batches A t)" "v \<in> set (iter_bounded_views (nbytes A) m b)"
    using assms(2) by (auto simp: bounded_batches_def)
  have sc: "ba_schema b = ba_schema t" and rows: "set (ba_rows b) \<subseteq> set (ba_rows t)"
    using assms(1) b(1) in_table_rows [OF b(1)] by (auto simp: to_batches_splits_def)
  have "with_rows b [r] = with_rows t [r]" for r
    by (simp add: with_rows_def sc)
  then show ?thesis
    using iter_bounded_views_view [OF b(2)] sc rows by (metis subsetD)
qed

section \<open>The merge\<close>

lemma opt_max_keys:
  "keyed c rows \<Longrightarrow> rows \<noteq> [] \<Longrightarrow>
    \<exists>m. opt_max (map (\<lambda>r. r c) rows) = Some m \<and> (\<forall>r \<in> set rows. key_of c r \<le> m) \<and> (\<exists>r \<in> set rows. key_of c r = m)"
proof (induction rows)
  case (Cons r rows)
  then obtain v where v: "r c = Some v" by auto
  show ?case
  proof (cases rows)
    case Nil
    then show ?thesis using v by (simp add: key_of_def)
  next
    case (Cons r' rows')
    then obtain m where "opt_max (map (\<lambda>r. r c) rows) = Some m" "\<forall>r \<in> set rows. key_of c r \<le> m" "\<exists>r \<in> set rows. key_of c r = m"
      using Cons.IH Cons.prems by auto
    then show ?thesis
      using v by (auto simp: key_of_def max_def)
  qed
qed simp

lemma opt_min_somes:
  "vs \<noteq> [] \<Longrightarrow> \<exists>m. opt_min (map Some vs) = Some m \<and> m \<in> set vs \<and> (\<forall>v \<in> set vs. m \<le> v)"
proof (induction vs)
  case (Cons v vs)
  show ?case
  proof (cases vs)
    case (Cons v' vs')
    then obtain m where "opt_min (map Some vs) = Some m" "m \<in> set vs" "\<forall>v \<in> set vs. m \<le> v"
      using Cons.IH by auto
    then show ?thesis
      by (auto simp: min_def)
  qed simp
qed simp

lemma count_le_split:
  assumes "sorted (map (key_of c) rows)" and "keyed c rows"
  shows "take (count_le c (Some w) rows) rows = filter (\<lambda>r. key_of c r \<le> w) rows"
    and "drop (count_le c (Some w) rows) rows = filter (\<lambda>r. \<not> key_of c r \<le> w) rows"
proof -
  have eq: "count_le c (Some w) rows = length (filter (\<lambda>r. key_of c r \<le> w) rows)"
    using assms(2) by (auto simp: count_le_def key_of_def keyed_def intro!: arg_cong [where f = length] filter_cong split: option.splits)
  have *: "take (length (filter (\<lambda>r. key_of c r \<le> w) rows)) rows = filter (\<lambda>r. key_of c r \<le> w) rows \<and>
      drop (length (filter (\<lambda>r. key_of c r \<le> w) rows)) rows = filter (\<lambda>r. \<not> key_of c r \<le> w) rows"
    using assms(1)
  proof (induction rows)
    case (Cons r rows)
    show ?case
    proof (cases "key_of c r \<le> w")
      case False
      then have "filter (\<lambda>r. key_of c r \<le> w) rows = []" "filter (\<lambda>r. \<not> key_of c r \<le> w) rows = rows"
        using Cons.prems by (auto simp: filter_empty_conv intro!: filter_True)
      then show ?thesis
        using False by simp
    qed (use Cons in simp)
  qed simp
  show "take (count_le c (Some w) rows) rows = filter (\<lambda>r. key_of c r \<le> w) rows"
    and "drop (count_le c (Some w) rows) rows = filter (\<lambda>r. \<not> key_of c r \<le> w) rows"
    using * by (simp_all add: eq)
qed

text \<open>A head during a merge: its rows still to come, in order.\<close>

definition pending_rows :: "'v head \<Rightarrow> 'v row list" where
  "pending_rows h = (case hd_pending h of None \<Rightarrow> [] | Some t \<Rightarrow> ba_rows t)"

definition head_rows :: "'v head \<Rightarrow> 'v row list" where
  "head_rows h = pending_rows h @ table_rows (hd_rest h)"

definition batches_ok :: "(string \<times> dtype) list \<Rightarrow> 'v batch list \<Rightarrow> bool" where
  "batches_ok sch bs \<longleftrightarrow> (\<forall>b \<in> set bs. ba_schema b = sch \<and> ba_rows b \<noteq> [])"

definition stored_ok :: "'v arrow \<Rightarrow> nat \<Rightarrow> (string \<times> dtype) list \<Rightarrow> 'v batch list \<Rightarrow> bool" where
  "stored_ok A m sch bs \<longleftrightarrow> batches_ok sch bs \<and> (\<forall>b \<in> set bs. nbytes A b \<le> m \<or> length (ba_rows b) = 1)"

definition ordered :: "string \<Rightarrow> ('v :: linorder) row list \<Rightarrow> bool" where
  "ordered c rows \<longleftrightarrow> keyed c rows \<and> sorted (map (key_of c) rows)"

definition head_ok :: "string \<Rightarrow> (string \<times> dtype) list \<Rightarrow> ('v :: linorder) head \<Rightarrow> bool" where
  "head_ok c sch h \<longleftrightarrow> batches_ok sch (hd_rest h) \<and> ordered c (head_rows h) \<and>
     (\<forall>t. hd_pending h = Some t \<longrightarrow> ba_schema t = sch \<and> ba_rows t \<noteq> [])"

definition loaded :: "'v head \<Rightarrow> bool" where
  "loaded h \<longleftrightarrow> hd_pending h \<noteq> None \<or> hd_rest h = []"

abbreviation remaining :: "'v head list \<Rightarrow> 'v row multiset" where
  "remaining heads \<equiv> sum_list (map (\<lambda>h. mset (head_rows h)) heads)"

lemma in_remaining: "y \<in># remaining heads \<longleftrightarrow> (\<exists>h \<in> set heads. y \<in> set (head_rows h))"
  by (induction heads) auto

lemma ordered_append:
  "ordered c (xs @ ys) \<longleftrightarrow> ordered c xs \<and> ordered c ys \<and> (\<forall>x \<in> set xs. \<forall>y \<in> set ys. key_of c x \<le> key_of c y)"
  by (auto simp: ordered_def sorted_append)

lemma ordered_unique:
  assumes "ordered c xs" and "ordered c ys" and "mset xs = mset ys" and "inj_on (key_of c) (set xs)"
  shows "xs = ys"
proof -
  have "sort_key (key_of c) xs = ys"
    by (rule sort_key_inj_key_eq) (use assms in \<open>simp_all add: ordered_def\<close>)
  moreover have "sort_key (key_of c) xs = xs"
    by (rule sort_key_inj_key_eq) (use assms in \<open>simp_all add: ordered_def\<close>)
  ultimately show ?thesis
    by simp
qed

lemma ordered_filter: "ordered c xs \<Longrightarrow> ordered c (filter P xs)"
  by (auto simp: ordered_def keyed_def intro: sorted_filter)

lemma ensure_loaded_ok:
  assumes "head_ok c sch h"
  shows "head_ok c sch (ensure_loaded h)" and "loaded (ensure_loaded h)" and "head_rows (ensure_loaded h) = head_rows h"
proof -
  have "hd_pending h = None \<or> (\<exists>t. hd_pending h = Some t \<and> ba_rows t \<noteq> [])"
    using assms by (auto simp: head_ok_def)
  then show rows: "head_rows (ensure_loaded h) = head_rows h"
    by (auto simp: ensure_loaded_def head_rows_def pending_rows_def split: list.splits)
  then show "head_ok c sch (ensure_loaded h)" and "loaded (ensure_loaded h)"
    using assms by (auto simp: head_ok_def loaded_def ensure_loaded_def batches_ok_def split: list.splits option.splits)
qed

text \<open>Which rows a cutoff lets through, and what it leaves of a head.\<close>

definition passes :: "string \<Rightarrow> ('v :: linorder) option \<Rightarrow> 'v row \<Rightarrow> bool" where
  "passes c cutoff r \<longleftrightarrow> (case cutoff of None \<Rightarrow> True | Some w \<Rightarrow> key_of c r \<le> w)"

lemma set_remaining_rows [simp]: "pending_rows (set_remaining t h) = ba_rows t" "hd_rest (set_remaining t h) = hd_rest h"
  by (auto simp: set_remaining_def pending_rows_def)

lemma passes_simps [simp]: "passes c None = (\<lambda>_. True)" "passes c (Some w) = (\<lambda>r. key_of c r \<le> w)"
  by (simp_all add: passes_def fun_eq_iff)

lemma split_head_rows:
  assumes "head_ok c sch h"
  shows "table_rows (fst (split_head c (map_option Some cutoff) h)) = filter (passes c cutoff) (pending_rows h)"
    and "pending_rows (snd (split_head c (map_option Some cutoff) h)) = filter (\<lambda>r. \<not> passes c cutoff r) (pending_rows h)"
    and "hd_rest (snd (split_head c (map_option Some cutoff) h)) = hd_rest h"
    and "\<forall>b \<in> set (fst (split_head c (map_option Some cutoff) h)). ba_schema b = sch"
    and "\<forall>t. hd_pending (snd (split_head c (map_option Some cutoff) h)) = Some t \<longrightarrow> ba_schema t = sch \<and> ba_rows t \<noteq> []"
proof -
  have t: "sorted (map (key_of c) (ba_rows t))" "keyed c (ba_rows t)" "ba_schema t = sch" if "hd_pending h = Some t" for t
    using assms that by (auto simp: head_ok_def head_rows_def pending_rows_def ordered_def sorted_append)
  note defs = split_head_def set_remaining_def pending_rows_def Let_def
  show "table_rows (fst (split_head c (map_option Some cutoff) h)) = filter (passes c cutoff) (pending_rows h)"
    by (cases "hd_pending h"; cases cutoff) (simp_all add: defs t count_le_split)
  show "pending_rows (snd (split_head c (map_option Some cutoff) h)) = filter (\<lambda>r. \<not> passes c cutoff r) (pending_rows h)"
    by (cases "hd_pending h"; cases cutoff) (simp_all add: split_head_def Let_def t count_le_split, simp_all add: pending_rows_def)
  show "hd_rest (snd (split_head c (map_option Some cutoff) h)) = hd_rest h"
    by (cases "hd_pending h"; cases cutoff) (simp_all add: defs)
  show "\<forall>b \<in> set (fst (split_head c (map_option Some cutoff) h)). ba_schema b = sch"
    by (cases "hd_pending h"; cases cutoff) (simp_all add: defs t)
  show "\<forall>t. hd_pending (snd (split_head c (map_option Some cutoff) h)) = Some t \<longrightarrow> ba_schema t = sch \<and> ba_rows t \<noteq> []"
    by (cases "hd_pending h"; cases cutoff) (simp_all add: defs t)
qed

lemma split_head_ok:
  assumes "head_ok c sch h"
  shows "head_ok c sch (snd (split_head c (map_option Some cutoff) h))"
    and "mset (head_rows h) = mset (table_rows (fst (split_head c (map_option Some cutoff) h))) +
      mset (head_rows (snd (split_head c (map_option Some cutoff) h)))"
proof -
  note s = split_head_rows [OF assms, of cutoff]
  show "mset (head_rows h) = mset (table_rows (fst (split_head c (map_option Some cutoff) h))) +
      mset (head_rows (snd (split_head c (map_option Some cutoff) h)))"
    using multiset_partition [of "mset (pending_rows h)" "passes c cutoff"] by (simp add: head_rows_def s(1-3))
  have "ordered c (filter (\<lambda>r. \<not> passes c cutoff r) (pending_rows h) @ table_rows (hd_rest h))"
    using assms by (auto simp: head_ok_def head_rows_def ordered_append intro: ordered_filter)
  then show "head_ok c sch (snd (split_head c (map_option Some cutoff) h))"
    using assms s(5) by (auto simp: head_ok_def head_rows_def s(2,3))
qed

lemma active_tables_iff: "t \<in> set (active_tables heads) \<longleftrightarrow> (\<exists>h \<in> set heads. hd_pending h = Some t)"
  by (force simp: active_tables_def List.map_filter_def)

lemma active_tables_Nil: "active_tables heads = [] \<longleftrightarrow> (\<forall>h \<in> set heads. hd_pending h = None)"
  by (induction heads) (auto simp: active_tables_def List.map_filter_simps split: option.splits)

lemma round_cutoff_ok:
  assumes "\<forall>h \<in> set heads. head_ok c sch h"
  shows "\<exists>cutoff. round_cutoff c heads = Inr (map_option Some cutoff) \<and>
    (cutoff = None \<longleftrightarrow> (\<forall>h \<in> set heads. hd_pending h \<noteq> None \<longrightarrow> hd_rest h = [])) \<and>
    (\<forall>w. cutoff = Some w \<longrightarrow>
      (\<forall>h \<in> set heads. hd_pending h \<noteq> None \<longrightarrow> hd_rest h \<noteq> [] \<longrightarrow> (\<exists>r \<in> set (pending_rows h). w \<le> key_of c r)) \<and>
      (\<exists>h \<in> set heads. hd_pending h \<noteq> None \<and> (\<forall>r \<in> set (pending_rows h). key_of c r \<le> w)))"
proof -
  let ?open = "filter (\<lambda>h. \<not> is_final_batch h) heads"
  let ?mx = "\<lambda>t :: 'a batch. the (opt_max (map (\<lambda>r. r c) (ba_rows t)))"
  have mx: "max_value c t = Inr (Some (?mx t)) \<and> (\<forall>r \<in> set (ba_rows t). key_of c r \<le> ?mx t) \<and> (\<exists>r \<in> set (ba_rows t). key_of c r = ?mx t)"
    if t: "t \<in> set (active_tables heads)" for t
  proof -
    obtain h where "h \<in> set heads" "hd_pending h = Some t"
      using t by (auto simp: active_tables_iff)
    then have "keyed c (ba_rows t)" "ba_rows t \<noteq> []"
      using assms by (auto simp: head_ok_def head_rows_def pending_rows_def ordered_def)
    from opt_max_keys [OF this] this(2) show ?thesis
      by (auto simp: max_value_def)
  qed
  have sub: "set (active_tables ?open) \<subseteq> set (active_tables heads)"
    by (auto simp: active_tables_iff)
  have vs: "map_result (max_value c) (active_tables ?open) = Inr (map (\<lambda>t. Some (?mx t)) (active_tables ?open))"
    by (rule map_result_eq_map) (use mx sub in blast)
  show ?thesis
  proof (cases "active_tables ?open")
    case Nil
    then have "round_cutoff c heads = Inr (map_option Some None)"
      using vs by (simp add: round_cutoff_def)
    moreover have "\<forall>h \<in> set heads. hd_pending h \<noteq> None \<longrightarrow> hd_rest h = []"
      using Nil by (auto simp: active_tables_Nil is_final_batch_def)
    ultimately show ?thesis
      by (intro exI [of _ None]) simp
  next
    case (Cons t ts)
    then have "map ?mx (active_tables ?open) \<noteq> []"
      by simp
    from opt_min_somes [OF this] obtain w where w: "opt_min (map Some (map ?mx (active_tables ?open))) = Some w"
      "w \<in> ?mx ` set (active_tables ?open)" "\<forall>t \<in> set (active_tables ?open). w \<le> ?mx t"
      by auto
    have "round_cutoff c heads = Inr (map_option Some (Some w))"
      using vs w(1) Cons by (simp add: round_cutoff_def comp_def)
    moreover have "\<exists>h \<in> set heads. hd_pending h \<noteq> None \<and> hd_rest h \<noteq> []"
      using Cons active_tables_iff [of t ?open] by (auto simp: is_final_batch_def)
    moreover have "\<exists>r \<in> set (pending_rows h). w \<le> key_of c r"
      if "h \<in> set heads" "hd_pending h = Some u" "hd_rest h \<noteq> []" for h u
    proof -
      have "u \<in> set (active_tables ?open)"
        using that by (auto simp: active_tables_iff is_final_batch_def)
      then obtain r where "r \<in> set (ba_rows u)" "w \<le> key_of c r"
        using mx [of u] sub w(3) by (metis subsetD)
      then show ?thesis
        using that(2) by (auto simp: pending_rows_def)
    qed
    moreover have "\<exists>h \<in> set heads. hd_pending h \<noteq> None \<and> (\<forall>r \<in> set (pending_rows h). key_of c r \<le> w)"
    proof -
      obtain u where u: "u \<in> set (active_tables ?open)" "w = ?mx u"
        using w(2) by blast
      then obtain h where "h \<in> set heads" "hd_pending h = Some u"
        by (auto simp: active_tables_iff)
      then show ?thesis
        using mx [of u] sub u by (intro bexI [of _ h]) (auto simp: pending_rows_def)
    qed
    ultimately show ?thesis
      by (intro exI [of _ "Some w"]) auto
  qed
qed

text \<open>What all heads together emit under a cutoff: the split loses nothing, keeps the heads in order, and
  puts no remaining row before an emitted one.\<close>

abbreviation emit_parts :: "string \<Rightarrow> ('v :: linorder) option \<Rightarrow> 'v head list \<Rightarrow> 'v batch list" where
  "emit_parts c cutoff heads \<equiv> concat (map (fst \<circ> split_head c (map_option Some cutoff)) heads)"

abbreviation left_heads :: "string \<Rightarrow> ('v :: linorder) option \<Rightarrow> 'v head list \<Rightarrow> 'v head list" where
  "left_heads c cutoff heads \<equiv> map (snd \<circ> split_head c (map_option Some cutoff)) heads"

lemma emit_parts_mset:
  "\<forall>h \<in> set heads. head_ok c sch h \<Longrightarrow>
    remaining heads = mset (table_rows (emit_parts c cutoff heads)) + remaining (left_heads c cutoff heads)"
proof (induction heads)
  case (Cons h heads)
  then show ?case
    using split_head_ok(2) [of c sch h cutoff] by (simp add: ac_simps)
qed simp

lemma emit_parts_facts:
  assumes "\<forall>h \<in> set heads. head_ok c sch h"
  shows "set (table_rows (emit_parts c cutoff heads)) = (\<Union>h \<in> set heads. {r \<in> set (pending_rows h). passes c cutoff r})"
    and "\<forall>b \<in> set (emit_parts c cutoff heads). ba_schema b = sch"
    and "keyed c (table_rows (emit_parts c cutoff heads))"
    and "\<forall>h \<in> set (left_heads c cutoff heads). head_ok c sch h"
proof -
  have "set (table_rows (emit_parts c cutoff heads)) =
      (\<Union>h \<in> set heads. set (table_rows (fst (split_head c (map_option Some cutoff) h))))"
    by (auto simp: table_rows_def)
  also have "\<dots> = (\<Union>h \<in> set heads. {r \<in> set (pending_rows h). passes c cutoff r})"
    by (rule SUP_cong) (use split_head_rows(1) assms in \<open>force+\<close>)
  finally show rows: "set (table_rows (emit_parts c cutoff heads)) = (\<Union>h \<in> set heads. {r \<in> set (pending_rows h). passes c cutoff r})" .
  show "\<forall>b \<in> set (emit_parts c cutoff heads). ba_schema b = sch"
    using split_head_rows(4) assms by fastforce
  show "keyed c (table_rows (emit_parts c cutoff heads))"
    using rows assms by (auto simp: keyed_def head_ok_def head_rows_def ordered_def)
  have "head_ok c sch (snd (split_head c (map_option Some cutoff) h))" if "h \<in> set heads" for h
    using split_head_ok(1) assms that by blast
  then show "\<forall>h \<in> set (left_heads c cutoff heads). head_ok c sch h"
    by simp
qed

text \<open>A cutoff is safe when it is what \<open>round_cutoff\<close> computes.\<close>

definition safe_cutoff :: "string \<Rightarrow> ('v :: linorder) head list \<Rightarrow> 'v option \<Rightarrow> bool" where
  "safe_cutoff c heads cutoff \<longleftrightarrow>
     (cutoff = None \<longleftrightarrow> (\<forall>h \<in> set heads. hd_pending h \<noteq> None \<longrightarrow> hd_rest h = [])) \<and>
     (\<forall>w. cutoff = Some w \<longrightarrow>
       (\<forall>h \<in> set heads. hd_pending h \<noteq> None \<longrightarrow> hd_rest h \<noteq> [] \<longrightarrow> (\<exists>r \<in> set (pending_rows h). w \<le> key_of c r)) \<and>
       (\<exists>h \<in> set heads. hd_pending h \<noteq> None \<and> (\<forall>r \<in> set (pending_rows h). key_of c r \<le> w)))"

lemma safe_cutoff_progress:
  assumes ok: "\<forall>h \<in> set heads. head_ok c sch h" and act: "active_tables heads \<noteq> []" and safe: "safe_cutoff c heads cutoff"
  shows "table_rows (emit_parts c cutoff heads) \<noteq> []"
proof -
  obtain h where h: "h \<in> set heads" "hd_pending h \<noteq> None" "\<forall>r \<in> set (pending_rows h). passes c cutoff r"
    using act safe by (cases cutoff) (auto simp: active_tables_Nil safe_cutoff_def)
  then have "pending_rows h \<noteq> []"
    using ok by (auto simp: head_ok_def pending_rows_def)
  then obtain r where "r \<in> set (pending_rows h)"
    using list.set_sel(1) by blast
  then have "r \<in> set (table_rows (emit_parts c cutoff heads))"
    using emit_parts_facts(1) [OF ok, of cutoff] h(1,3) by auto
  then show ?thesis
    by (cases "table_rows (emit_parts c cutoff heads)") simp_all
qed

lemma safe_cutoff_separates:
  assumes ok: "\<forall>h \<in> set heads. head_ok c sch h \<and> loaded h" and safe: "safe_cutoff c heads cutoff"
    and x: "x \<in> set (table_rows (emit_parts c cutoff heads))" and y: "y \<in># remaining (left_heads c cutoff heads)"
  shows "key_of c x \<le> key_of c y"
proof -
  have hok: "\<forall>h \<in> set heads. head_ok c sch h"
    using ok by blast
  obtain h where h: "h \<in> set heads" "y \<in> set (head_rows (snd (split_head c (map_option Some cutoff) h)))"
    using y by (auto simp: in_remaining)
  note hh = hok [rule_format, OF h(1)]
  have y': "y \<in> set (pending_rows h) \<and> \<not> passes c cutoff y \<or> y \<in> set (table_rows (hd_rest h))"
    using h(2) split_head_rows(2,3) [OF hh, of cutoff] by (auto simp: head_rows_def)
  then have pend: "hd_pending h \<noteq> None"
    using ok h(1) by (cases "hd_pending h") (auto simp: loaded_def pending_rows_def)
  with y' safe h(1) obtain w where w: "cutoff = Some w"
    by (cases cutoff) (auto simp: safe_cutoff_def)
  have "key_of c x \<le> w"
    using x emit_parts_facts(1) [OF hok, of cutoff] w by auto
  moreover have "w \<le> key_of c y"
    using y'
  proof
    assume "y \<in> set (pending_rows h) \<and> \<not> passes c cutoff y"
    then show ?thesis
      using w by auto
  next
    assume y: "y \<in> set (table_rows (hd_rest h))"
    then obtain r where "r \<in> set (pending_rows h)" "w \<le> key_of c r"
      using safe w h(1) pend by (force simp: safe_cutoff_def)
    then show ?thesis
      using hh y by (auto simp: head_ok_def head_rows_def ordered_append intro: order_trans)
  qed
  ultimately show ?thesis
    by (rule order_trans)
qed

lemma from_batches_same:
  assumes "\<forall>b \<in> set bs. ba_schema b = sch" and "bs = b0 # bs'"
  shows "\<exists>t. from_batches bs = Some t \<and> ba_rows t = table_rows bs \<and> ba_schema t = sch"
  using assms by (auto simp: from_batches_def list_all_iff table_rows_def)

text \<open>One round emits rows in order that no remaining row precedes, and always emits some.\<close>

lemma merge_round_ok:
  assumes A: "sort_by_sorts A" "to_batches_splits A" and ok: "\<forall>h \<in> set heads. head_ok c sch h \<and> loaded h"
    and act: "active_tables heads \<noteq> []"
  shows "\<exists>out heads' m. merge_round A c per_head sch heads = Inr (out, heads', m) \<and> stored_ok A per_head sch out \<and>
    ordered c (table_rows out) \<and> table_rows out \<noteq> [] \<and> (\<forall>h \<in> set heads'. head_ok c sch h) \<and>
    remaining heads = mset (table_rows out) + remaining heads' \<and>
    (\<forall>x \<in> set (table_rows out). \<forall>y \<in># remaining heads'. key_of c x \<le> key_of c y)"
proof -
  have hok: "\<forall>h \<in> set heads. head_ok c sch h"
    using ok by blast
  obtain cutoff where cut: "round_cutoff c heads = Inr (map_option Some cutoff)" and safe: "safe_cutoff c heads cutoff"
    using round_cutoff_ok [OF hok] unfolding safe_cutoff_def by blast
  note facts = emit_parts_facts [OF hok, of cutoff] and ne = safe_cutoff_progress [OF hok act safe]
  obtain b bs where "emit_parts c cutoff heads = b # bs"
    using ne by (cases "emit_parts c cutoff heads") auto
  then obtain table where table: "from_batches (emit_parts c cutoff heads) = Some table"
      "ba_rows table = table_rows (emit_parts c cutoff heads)" "ba_schema table = sch"
    using from_batches_same [OF facts(2)] by blast
  define out where "out = filter (\<lambda>b. ba_rows b \<noteq> []) (bounded_batches A per_head (sort_by A c table))"
  have sorted: "mset (ba_rows (sort_by A c table)) = mset (table_rows (emit_parts c cutoff heads))" "ba_schema (sort_by A c table) = sch"
    using A(1) table(2,3) by (simp_all add: sort_by_sorts_def)
  have out_rows: "table_rows out = ba_rows (sort_by A c table)"
    by (simp add: out_def filter_nonempty_rows bounded_batches_rows [OF A(2)])
  have out_set: "set (table_rows out) = set (table_rows (emit_parts c cutoff heads))" "table_rows out \<noteq> []"
    using sorted(1) ne by (auto simp: out_rows dest: mset_eq_setD)
  have "ordered c (table_rows out)"
    using A(1) facts(3) table(2) keyed_mset [OF sorted(1)] by (auto simp: ordered_def out_rows sort_by_sorts_def)
  moreover have "stored_ok A per_head sch out"
    using bounded_batches_batch [OF A(2)] sorted(2) by (fastforce simp: out_def stored_ok_def batches_ok_def)
  moreover have "merge_round A c per_head sch heads = Inr (out, left_heads c cutoff heads,
      sum_list (map (nbytes A) (active_tables heads)) + nbytes A (sort_by A c table))"
    using cut table(1) sorted(2) by (simp add: merge_round_def out_def Let_def)
  moreover have "remaining heads = mset (table_rows out) + remaining (left_heads c cutoff heads)"
    using emit_parts_mset [OF hok, of cutoff] sorted(1) by (simp add: out_rows)
  ultimately show ?thesis
    using safe_cutoff_separates [OF ok safe] out_set facts(4) by blast
qed

text \<open>The merge loop returns. It has written all rows of its heads in order, or was stopped by an I/O error.\<close>

lemma merge_heads_ok:
  assumes A: "sort_by_sorts A" "to_batches_splits A" and "\<forall>h \<in> set heads. head_ok c sch h"
  shows "(\<exists>out m. limit \<noteq> None \<and> merge_heads A c per_head sch limit heads acc peak = Some (out, m, Some SortOSError)) \<or>
    (\<exists>out m. limit = None \<and> merge_heads A c per_head sch limit heads acc peak = Some (acc @ out, m, None) \<and>
      stored_ok A per_head sch out \<and> ordered c (table_rows out) \<and> mset (table_rows out) = remaining heads)"
  using assms(3)
proof (induction "size (remaining heads)" arbitrary: heads acc peak rule: less_induct)
  case less
  define loads where "loads = map ensure_loaded heads"
  have ok: "\<forall>h \<in> set loads. head_ok c sch h \<and> loaded h"
    using less.prems ensure_loaded_ok(1,2) [of c sch] by (auto simp: loads_def)
  have "mset (head_rows (ensure_loaded h)) = mset (head_rows h)" if "h \<in> set heads" for h
    using less.prems ensure_loaded_ok(3) that by metis
  then have "map (\<lambda>h. mset (head_rows h)) loads = map (\<lambda>h. mset (head_rows h)) heads"
    by (simp add: loads_def)
  then have same: "remaining loads = remaining heads"
    by (rule arg_cong)
  show ?case
  proof (cases "active_tables loads = []")
    case True
    then have "\<forall>h \<in> set loads. head_rows h = []"
      using ok by (auto simp: active_tables_Nil loaded_def head_rows_def pending_rows_def)
    then have "remaining loads = {#}"
      by (induction loads) auto
    moreover have "merge_heads A c per_head sch limit heads acc peak =
        Some (acc, peak, if limit = None then None else Some SortOSError)"
      using True by (subst merge_heads.simps) (simp add: loads_def)
    ultimately show ?thesis
      using same by (cases limit) (simp_all add: stored_ok_def batches_ok_def ordered_def)
  next
    case False
    obtain out heads' m where r: "merge_round A c per_head sch loads = Inr (out, heads', m)" "stored_ok A per_head sch out"
      "ordered c (table_rows out)" "table_rows out \<noteq> []" "\<forall>h \<in> set heads'. head_ok c sch h"
      "remaining loads = mset (table_rows out) + remaining heads'"
      "\<forall>x \<in> set (table_rows out). \<forall>y \<in># remaining heads'. key_of c x \<le> key_of c y"
      using merge_round_ok [OF A ok False] by blast
    have "size (remaining heads') < size (remaining heads)"
      using r(4,6) same by (cases "table_rows out") auto
    note hyp = less.hyps [OF this r(5), of "acc @ out" "max peak m"]
    have step: "merge_heads A c per_head sch limit heads acc peak =
        (if limit \<noteq> None \<and> the limit < length (acc @ out) then Some (take (the limit) (acc @ out), max peak m, Some SortOSError)
         else merge_heads A c per_head sch limit heads' (acc @ out) (max peak m))"
      using False r(1) by (subst merge_heads.simps) (simp add: loads_def Let_def)
    show ?thesis
    proof (cases limit)
      case (Some n)
      then show ?thesis
        using hyp step by (cases "n < length (acc @ out)") auto
    next
      case None
      then obtain out' m' where
        i: "merge_heads A c per_head sch limit heads' (acc @ out) (max peak m) = Some ((acc @ out) @ out', m', None)"
          "stored_ok A per_head sch out'" "ordered c (table_rows out')" "mset (table_rows out') = remaining heads'"
        using hyp by blast
      have "merge_heads A c per_head sch limit heads acc peak = Some (acc @ out @ out', m', None)"
        using step i(1) None by simp
      moreover have "set (table_rows out') = set_mset (remaining heads')"
        by (simp flip: i(4))
      then have "ordered c (table_rows (out @ out'))"
        using r(3,7) i(3) by (simp add: ordered_append)
      ultimately show ?thesis
        using r(2,6) i(2,4) same None
        by (intro disjI2 exI [of _ "out @ out'"] exI [of _ m']) (auto simp: stored_ok_def batches_ok_def)
    qed
  qed
qed

section \<open>The passes\<close>

definition run_ok :: "'v arrow \<Rightarrow> nat \<Rightarrow> string \<Rightarrow> (string \<times> dtype) list \<Rightarrow> ('v :: linorder) batch list \<Rightarrow> bool" where
  "run_ok A m c sch bs \<longleftrightarrow> stored_ok A m sch bs \<and> ordered c (table_rows bs)"

definition file_rows :: "'v sorter \<Rightarrow> run_path \<Rightarrow> 'v row multiset" where
  "file_rows st p = (case so_files st p of None \<Rightarrow> {#} | Some bs \<Rightarrow> mset (table_rows bs))"

definition readable :: "'v arrow \<Rightarrow> (string \<times> dtype) list \<Rightarrow> ('v :: linorder) sorter \<Rightarrow> run_path \<Rightarrow> bool" where
  "readable A sch st p \<longleftrightarrow> path_no p < so_counter st \<and>
     (\<exists>bs. so_files st p = Some bs \<and> run_ok A (so_per_head st) (so_key st) sch bs)"

definition runs_inv :: "'v arrow \<Rightarrow> (string \<times> dtype) list \<Rightarrow> ('v :: linorder) sorter \<Rightarrow> run_path list \<Rightarrow> bool" where
  "runs_inv A sch st runs \<longleftrightarrow> distinct runs \<and> dom (so_files st) = set runs \<and> (\<forall>p \<in> set runs. readable A sch st p)"

abbreviation runs_rows :: "'v sorter \<Rightarrow> run_path list \<Rightarrow> 'v row multiset" where
  "runs_rows st runs \<equiv> sum_list (map (file_rows st) runs)"

lemma open_head_ok: "run_ok A m c sch bs \<Longrightarrow> head_ok c sch (open_head bs) \<and> head_rows (open_head bs) = table_rows bs"
  by (simp add: run_ok_def stored_ok_def head_ok_def open_head_def head_rows_def pending_rows_def)

text \<open>What a merge leaves alone.\<close>

definition same_sorter :: "'v sorter \<Rightarrow> 'v sorter \<Rightarrow> bool" where
  "same_sorter st st' \<longleftrightarrow> so_key st' = so_key st \<and> so_fan_in st' = so_fan_in st \<and> so_schema st' = so_schema st \<and>
     so_per_head st' = so_per_head st \<and> so_cap st' = so_cap st"

text \<open>A call that an I/O error stopped.\<close>

definition io_failed :: "'v arrow \<Rightarrow> sort_error \<times> 'v sorter + 'b \<Rightarrow> bool" where
  "io_failed A r \<longleftrightarrow> \<not> files_work A \<and> (\<exists>st. r = Inl (SortOSError, st))"

lemma open_runs:
  assumes "\<forall>q \<in> set g. so_files st q \<noteq> None"
  shows "map_result (open_run A st) g = Inr (map (\<lambda>q. the (so_files st q)) g) \<or>
    \<not> files_work A \<and> map_result (open_run A st) g = Inl SortOSError"
proof (cases "map_result (open_run A st) g")
  case (Inl e)
  then obtain q where "q \<in> set g" "open_run A st q = Inl e"
    using map_result_eq_Inl [OF Inl] by auto
  then show ?thesis
    using Inl assms by (auto simp: open_run_def files_work_def of_option_eq_Inl split: if_splits)
next
  case (Inr runs)
  then have "\<forall>q \<in> set g. \<exists>y. open_run A st q = Inr y"
    using map_result_total by metis
  then have "open_run A st q = Inr (the (so_files st q))" if "q \<in> set g" for q
    using that by (fastforce simp: open_run_def of_option_eq_Inr split: if_splits)
  then show ?thesis
    by (simp add: map_result_eq_map)
qed

lemma merge_group_ok:
  assumes A: "sort_by_sorts A" "to_batches_splits A" and inv: "\<forall>q \<in> set g. readable A sch st q" and "so_schema st = Some sch"
  shows "\<exists>r. merge_group A g p st = Some r \<and> (io_failed A r \<or>
    (\<exists>bs m. r = Inr (st\<lparr>so_files := (so_files st)(p \<mapsto> bs), so_peak_merge := m\<rparr>) \<and>
      run_ok A (so_per_head st) (so_key st) sch bs \<and> mset (table_rows bs) = runs_rows st g))"
proof -
  define runs where "runs = map (\<lambda>q. the (so_files st q)) g"
  have q: "so_files st q = Some (the (so_files st q))" "run_ok A (so_per_head st) (so_key st) sch (the (so_files st q))" if "q \<in> set g" for q
    using inv that by (auto simp: runs_inv_def readable_def)
  then have files: "\<forall>q \<in> set g. so_files st q \<noteq> None"
    by fastforce
  have heads: "\<forall>h \<in> set (map open_head runs). head_ok (so_key st) sch h"
    using open_head_ok [OF q(2)] by (auto simp: runs_def)
  have rows: "map (\<lambda>h. mset (head_rows h)) (map open_head runs) = map (file_rows st) g"
    using q(1) open_head_ok [OF q(2)] by (fastforce simp: runs_def file_rows_def split: option.splits)
  let ?limit = "Option.bind (write_fault A p) (\<lambda>limit. limit)"
  consider "map_result (open_run A st) g = Inl SortOSError" "\<not> files_work A"
    | "map_result (open_run A st) g = Inr runs" "write_fault A p = Some None"
    | "map_result (open_run A st) g = Inr runs" "write_fault A p \<noteq> Some None"
    using open_runs [OF files, of A] by (auto simp: runs_def)
  then show ?thesis
  proof cases
    case 3
    have bad: "\<not> files_work A" if "?limit \<noteq> None"
      using that by (auto simp: files_work_def bind_eq_None_conv)
    from merge_heads_ok [OF A heads, where limit = ?limit and acc = "[]" and peak = "so_peak_merge st" and per_head = "so_per_head st"]
    consider out m where "?limit \<noteq> None"
        "merge_heads A (so_key st) (so_per_head st) sch ?limit (map open_head runs) [] (so_peak_merge st) = Some (out, m, Some SortOSError)"
      | out m where "merge_heads A (so_key st) (so_per_head st) sch ?limit (map open_head runs) [] (so_peak_merge st) = Some (out, m, None)"
        "stored_ok A (so_per_head st) sch out" "ordered (so_key st) (table_rows out)" "mset (table_rows out) = remaining (map open_head runs)"
      by (metis append_Nil)
    then show ?thesis
    proof cases
      case 1
      then show ?thesis
        using 3 assms(4) bad by (simp add: merge_group_def io_failed_def)
    next
      case 2
      then show ?thesis
        using 3 assms(4) rows by (simp add: merge_group_def run_ok_def) metis
    qed
  qed (use assms(4) in \<open>auto simp: merge_group_def io_failed_def files_work_def\<close>)
qed

lemma unlink_runs_cases:
  "io_failed A (unlink_runs A ps st) \<or>
   unlink_runs A ps st = Inr (st\<lparr>so_files := (so_files st) |` (- set ps), so_all_files := so_all_files st - set ps\<rparr>)"
proof (induction ps arbitrary: st)
  case Nil
  have "so_files st |` (- set []) = so_files st" by (simp add: restrict_map_def)
  then show ?case by simp
next
  case (Cons p ps)
  let ?u = "st\<lparr>so_files := (so_files st)(p := None), so_all_files := so_all_files st - {p}\<rparr>"
  have "?u\<lparr>so_files := (so_files ?u) |` (- set ps), so_all_files := so_all_files ?u - set ps\<rparr> =
      st\<lparr>so_files := (so_files st) |` (- set (p # ps)), so_all_files := so_all_files st - set (p # ps)\<rparr>"
    by (simp add: restrict_map_def fun_eq_iff Diff_insert2 [symmetric])
  then have "io_failed A (unlink_runs A ps ?u) \<or> unlink_runs A ps ?u =
      Inr (st\<lparr>so_files := (so_files st) |` (- set (p # ps)), so_all_files := so_all_files st - set (p # ps)\<rparr>)"
    using Cons [of ?u] by argo
  moreover have "unlink_fault A p \<Longrightarrow> io_failed A (unlink_runs A (p # ps) st)"
    by (simp add: io_failed_def files_work_def) metis
  ultimately show ?case
    by (cases "unlink_fault A p") simp_all
qed

lemma runs_inv_mset: "mset runs = mset runs' \<Longrightarrow> runs_inv A sch st runs \<longleftrightarrow> runs_inv A sch st runs'"
  by (metis runs_inv_def mset_eq_setD mset_eq_imp_distinct_iff)

lemma merge_step_ok:
  assumes A: "sort_by_sorts A" "to_batches_splits A" and inv: "runs_inv A sch st (g @ others)" and sch: "so_schema st = Some sch" and "g \<noteq> []"
  shows "\<exists>r. merge_step A pass_no g (st, nexts) = Some r \<and> (io_failed A r \<or> (\<exists>st' q. r = Inr (st', nexts @ [q]) \<and> same_sorter st st' \<and>
    runs_inv A sch st' (q # others) \<and> runs_rows st' (q # others) = runs_rows st (g @ others)))"
proof (cases "length g = 1")
  case True
  then obtain q where "g = [q]"
    by (cases g) auto
  then show ?thesis
    using inv by (auto simp: merge_step_def same_sorter_def)
next
  case False
  define q where "q = MergeFile pass_no (so_counter st)"
  define st1 where "st1 = st\<lparr>so_counter := so_counter st + 1, so_all_files := insert q (so_all_files st)\<rparr>"
  have np: "next_run_path (MergeFile pass_no) st = (q, st1)"
    by (simp add: next_run_path_def q_def st1_def Let_def)
  have "\<forall>q \<in> set g. readable A sch st1 q"
    using inv by (auto simp: runs_inv_def readable_def st1_def less_Suc_eq)
  from merge_group_ok [OF A this, of q] obtain r where mg: "merge_group A g q st1 = Some r" and
    r: "io_failed A r \<or> (\<exists>bs m. r = Inr (st1\<lparr>so_files := (so_files st1)(q \<mapsto> bs), so_peak_merge := m\<rparr>) \<and>
      run_ok A (so_per_head st) (so_key st) sch bs \<and> mset (table_rows bs) = runs_rows st1 g)"
    using sch by (auto simp: st1_def)
  have step: "merge_step A pass_no g (st, nexts) =
      Some (and_then r (\<lambda>st. and_then (unlink_runs A g st) (\<lambda>st. Inr (st, nexts @ [q]))))"
    using False np mg by (simp add: merge_step_def)
  show ?thesis
  proof (cases "io_failed A r")
    case True
    then show ?thesis
      using step by (auto simp: io_failed_def)
  next
    case nofail: False
    then obtain bs m where g: "r = Inr (st1\<lparr>so_files := (so_files st1)(q \<mapsto> bs), so_peak_merge := m\<rparr>)"
        "run_ok A (so_per_head st) (so_key st) sch bs" "mset (table_rows bs) = runs_rows st1 g"
      using r by blast
    define u where "u = st1\<lparr>so_files := (so_files st1)(q \<mapsto> bs), so_peak_merge := m\<rparr>"
    define st2 where "st2 = u\<lparr>so_files := (so_files u) |` (- set g), so_all_files := so_all_files u - set g\<rparr>"
    have fresh: "q \<notin> set g" "q \<notin> set others" "set g \<inter> set others = {}"
    proof -
      have "path_no p < path_no q" if "p \<in> set (g @ others)" for p
        using inv that by (auto simp: runs_inv_def readable_def q_def)
      then show "q \<notin> set g" "q \<notin> set others"
        by force+
      show "set g \<inter> set others = {}"
        using inv by (simp add: runs_inv_def readable_def)
    qed
    have files: "so_files st2 q = Some bs" "\<forall>r \<in> set others. so_files st2 r = so_files st r"
      using fresh by (auto simp: st2_def u_def st1_def restrict_map_def)
    have "same_sorter st st2"
      by (simp add: same_sorter_def st2_def u_def st1_def)
    moreover have "runs_inv A sch st2 (q # others)"
      using inv files fresh g(2) by (auto simp: runs_inv_def readable_def st2_def u_def st1_def q_def less_Suc_eq)
    moreover have "runs_rows st2 others = runs_rows st others"
      using files(2) by (intro arg_cong [where f = sum_list] map_cong) (simp_all add: file_rows_def)
    moreover have "file_rows st2 q = runs_rows st g"
    proof -
      have "file_rows st1 = file_rows st"
        by (simp add: st1_def file_rows_def fun_eq_iff)
      then show ?thesis
        using files(1) g(3) by (simp add: file_rows_def)
    qed
    ultimately have done_ok: "same_sorter st st2 \<and> runs_inv A sch st2 (q # others) \<and> runs_rows st2 (q # others) = runs_rows st (g @ others)"
      by (metis list.simps(9) map_append sum_list.Cons sum_list.append)
    have "merge_step A pass_no g (st, nexts) = Some (and_then (unlink_runs A g u) (\<lambda>st. Inr (st, nexts @ [q])))"
      using step g(1) by (simp add: u_def)
    moreover have "io_failed A (unlink_runs A g u) \<or> unlink_runs A g u = Inr st2"
      using unlink_runs_cases [of A g u] by (simp add: st2_def)
    ultimately show ?thesis
      using done_ok by (auto simp: io_failed_def)
  qed
qed

lemma merge_pass_ok:
  assumes A: "sort_by_sorts A" "to_batches_splits A" and "runs_inv A sch st (concat gs @ nexts)" and "so_schema st = Some sch"
    and "\<forall>g \<in> set gs. g \<noteq> []"
  shows "\<exists>r. merge_pass A pass_no gs (st, nexts) = Some r \<and> (io_failed A r \<or>
    (\<exists>st' ps. r = Inr (st', nexts @ ps) \<and> length ps = length gs \<and> same_sorter st st' \<and>
      runs_inv A sch st' (nexts @ ps) \<and> runs_rows st' (nexts @ ps) = runs_rows st (concat gs @ nexts)))"
  using assms(3-)
proof (induction gs arbitrary: st nexts)
  case Nil
  then show ?case
    by (simp add: same_sorter_def)
next
  case (Cons g gs)
  have "runs_inv A sch st (g @ concat gs @ nexts)"
    using Cons.prems(1) by simp
  from merge_step_ok [OF A this Cons.prems(2), of pass_no nexts] obtain r where
    r: "merge_step A pass_no g (st, nexts) = Some r" "io_failed A r \<or> (\<exists>st1 q. r = Inr (st1, nexts @ [q]) \<and> same_sorter st st1 \<and>
      runs_inv A sch st1 (q # concat gs @ nexts) \<and> runs_rows st1 (q # concat gs @ nexts) = runs_rows st (g @ concat gs @ nexts))"
    using Cons.prems(3) by auto
  show ?case
  proof (cases "io_failed A r")
    case True
    then show ?thesis
      using r(1) by (auto simp: io_failed_def)
  next
    case False
    then obtain st1 q where
      s: "merge_step A pass_no g (st, nexts) = Some (Inr (st1, nexts @ [q]))" "same_sorter st st1"
        "runs_inv A sch st1 (q # concat gs @ nexts)" "runs_rows st1 (q # concat gs @ nexts) = runs_rows st (g @ concat gs @ nexts)"
      using r by blast
    have "runs_inv A sch st1 (concat gs @ nexts @ [q])"
      using s(3) by (subst runs_inv_mset [where runs' = "q # concat gs @ nexts"]) simp_all
    moreover have "so_schema st1 = Some sch"
      using Cons.prems(2) s(2) by (simp add: same_sorter_def)
    ultimately obtain r' where
      r': "merge_pass A pass_no gs (st1, nexts @ [q]) = Some r'" "io_failed A r' \<or> (\<exists>st' ps. r' = Inr (st', (nexts @ [q]) @ ps) \<and>
        length ps = length gs \<and> same_sorter st1 st' \<and> runs_inv A sch st' ((nexts @ [q]) @ ps) \<and>
        runs_rows st' ((nexts @ [q]) @ ps) = runs_rows st1 (concat gs @ nexts @ [q]))"
      using Cons.IH [of st1 "nexts @ [q]"] Cons.prems(3) by auto
    have pass: "merge_pass A pass_no (g # gs) (st, nexts) = Some r'"
      using s(1) r'(1) by simp
    show ?thesis
    proof (cases "io_failed A r'")
      case True
      then show ?thesis using pass by blast
    next
      case False
      then obtain st' ps where i: "r' = Inr (st', (nexts @ [q]) @ ps)" "length ps = length gs" "same_sorter st1 st'"
          "runs_inv A sch st' ((nexts @ [q]) @ ps)" "runs_rows st' ((nexts @ [q]) @ ps) = runs_rows st1 (concat gs @ nexts @ [q])"
        using r'(2) by blast
      have "runs_rows st1 (concat gs @ nexts @ [q]) = runs_rows st (concat (g # gs) @ nexts)"
        using s(4) by (simp add: ac_simps)
      then show ?thesis
        unfolding pass using s(2) i
        by (intro exI [of _ r'] conjI refl disjI2 exI [of _ st'] exI [of _ "q # ps"]) (simp_all add: same_sorter_def)
    qed
  qed
qed

lemma groups_of_facts:
  assumes "2 \<le> n"
  shows "concat (groups_of n xs) = xs" and "\<forall>g \<in> set (groups_of n xs). g \<noteq> []"
    and "2 * length (groups_of n xs) \<le> length xs + 1"
proof -
  have "concat (groups_of n xs) = xs \<and> (\<forall>g \<in> set (groups_of n xs). g \<noteq> []) \<and> 2 * length (groups_of n xs) \<le> length xs + 1"
    using assms
  proof (induction n xs rule: groups_of.induct)
    case (1 n xs)
    show ?case
    proof (cases "xs = []")
      case True
      then show ?thesis by (simp add: groups_of.simps)
    next
      case False
      then have eq: "groups_of n xs = take n xs # groups_of n (drop n xs)" and i: "concat (groups_of n (drop n xs)) = drop n xs"
          "\<forall>g \<in> set (groups_of n (drop n xs)). g \<noteq> []" "2 * length (groups_of n (drop n xs)) \<le> length (drop n xs) + 1"
        using 1 by (subst groups_of.simps, simp_all)
      have "drop n xs = [] \<or> n \<le> length xs"
        by auto
      then show ?thesis
        using i False "1.prems" by (cases "drop n xs = []") (auto simp: eq groups_of.simps [of n "[]"] Suc_le_eq)
    qed
  qed
  then show "concat (groups_of n xs) = xs" and "\<forall>g \<in> set (groups_of n xs). g \<noteq> []" and "2 * length (groups_of n xs) \<le> length xs + 1"
    by blast+
qed

text \<open>The passes end with at most one run, which holds every row in order, or with an I/O error.\<close>

lemma merge_passes_ok:
  assumes A: "sort_by_sorts A" "to_batches_splits A" and "runs_inv A sch st runs" and "so_schema st = Some sch" and "2 \<le> so_fan_in st"
  shows "\<exists>r. merge_passes A pass_no runs st = Some r \<and> (io_failed A r \<or> (\<exists>st' runs'. r = Inr (st', runs') \<and>
    length runs' \<le> 1 \<and> same_sorter st st' \<and> runs_inv A sch st' runs' \<and> runs_rows st' runs' = runs_rows st runs))"
  using assms(3-)
proof (induction "length runs" arbitrary: runs st pass_no rule: less_induct)
  case less
  show ?case
  proof (cases "length runs \<le> 1")
    case True
    then show ?thesis
      using less.prems by (subst merge_passes.simps) (auto simp: same_sorter_def)
  next
    case False
    note g = groups_of_facts [OF less.prems(3), of runs]
    obtain r where p: "merge_pass A pass_no (groups_of (so_fan_in st) runs) (st, []) = Some r" "io_failed A r \<or>
        (\<exists>st1 ps. r = Inr (st1, ps) \<and> length ps = length (groups_of (so_fan_in st) runs) \<and> same_sorter st st1 \<and>
          runs_inv A sch st1 ps \<and> runs_rows st1 ps = runs_rows st runs)"
      using merge_pass_ok [OF A, of sch st "groups_of (so_fan_in st) runs" "[]" pass_no] less.prems(1,2) g by auto
    have step: "merge_passes A pass_no runs st =
        (case r of Inl e \<Rightarrow> Some (Inl e) | Inr (st', next_runs) \<Rightarrow> merge_passes A (pass_no + 1) next_runs st')"
      using False p(1) by (subst merge_passes.simps) (simp del: One_nat_def add_Suc_right)
    show ?thesis
    proof (cases "io_failed A r")
      case True
      then show ?thesis
        using step by (auto simp: io_failed_def)
    next
      case nofail: False
      then obtain st1 ps where ps: "r = Inr (st1, ps)" "length ps = length (groups_of (so_fan_in st) runs)" "same_sorter st st1"
          "runs_inv A sch st1 ps" "runs_rows st1 ps = runs_rows st runs"
        using p(2) by blast
      have "length ps < length runs"
        using ps(2) g(3) False by simp
      moreover have "so_schema st1 = Some sch" "2 \<le> so_fan_in st1"
        using ps(3) less.prems(2,3) by (auto simp: same_sorter_def)
      ultimately obtain r' where "merge_passes A (pass_no + 1) ps st1 = Some r'" "io_failed A r' \<or> (\<exists>st' runs'. r' = Inr (st', runs') \<and>
          length runs' \<le> 1 \<and> same_sorter st1 st' \<and> runs_inv A sch st' runs' \<and> runs_rows st' runs' = runs_rows st1 ps)"
        using less.hyps [of ps st1 "pass_no + 1"] ps(4) by blast
      then show ?thesis
        using step ps(1,3,5) by (auto simp: same_sorter_def)
    qed
  qed
qed

section \<open>Writing\<close>

text \<open>Before \<open>finish\<close>: the buffer and the runs hold exactly the rows written so far.\<close>

definition write_inv :: "'v arrow \<Rightarrow> (string \<times> dtype) list \<Rightarrow> 'v row multiset \<Rightarrow> ('v :: linorder) sorter \<Rightarrow> bool" where
  "write_inv A sch rows st \<longleftrightarrow> \<not> so_finished st \<and> 2 \<le> so_fan_in st \<and> batches_ok sch (so_buffered st) \<and>
     keyed (so_key st) (table_rows (so_buffered st)) \<and> runs_inv A sch st (so_run_paths st) \<and>
     runs_rows st (so_run_paths st) + mset (table_rows (so_buffered st)) = rows \<and>
     (so_schema st = Some sch \<or> so_schema st = None \<and> so_buffered st = [] \<and> so_run_paths st = [])"

lemma flush_ok:
  assumes A: "sort_by_sorts A" "to_batches_splits A" and inv: "write_inv A sch rows st"
  shows "io_failed A (flush A st) \<or>
    (\<exists>st'. flush A st = Inr st' \<and> write_inv A sch rows st' \<and> so_buffered st' = [] \<and> same_sorter st st')"
proof (cases "so_buffered st")
  case Nil
  then show ?thesis
    using inv by (simp add: flush_def same_sorter_def)
next
  case (Cons b bs)
  have "\<forall>b \<in> set (so_buffered st). ba_schema b = sch"
    using inv by (auto simp: write_inv_def batches_ok_def)
  from from_batches_same [OF this Cons] obtain table where
    table: "from_batches (so_buffered st) = Some table" "ba_rows table = table_rows (so_buffered st)" "ba_schema table = sch"
    by blast
  define p where "p = RunFile (so_counter st)"
  define out where "out = filter (\<lambda>b. ba_rows b \<noteq> []) (bounded_batches A (so_per_head st) (sort_by A (so_key st) table))"
  define st' where "st' = st\<lparr>so_peak_buffered := max (so_peak_buffered st) (so_buffered_bytes st + nbytes A (sort_by A (so_key st) table)),
    so_counter := so_counter st + 1, so_all_files := insert p (so_all_files st), so_files := (so_files st)(p \<mapsto> out),
    so_run_paths := so_run_paths st @ [p], so_buffered := [], so_buffered_bytes := 0\<rparr>"
  have "so_schema st \<noteq> None"
    using inv Cons by (auto simp: write_inv_def)
  then have fl: "io_failed A (flush A st) \<or> flush A st = Inr st'"
    using Cons table(1)
    by (auto simp: flush_def next_run_path_def write_run_def Let_def st'_def out_def p_def io_failed_def files_work_def
        split: option.splits)
  have rows: "table_rows out = ba_rows (sort_by A (so_key st) table)"
    by (simp add: out_def filter_nonempty_rows bounded_batches_rows [OF A(2)])
  have sorted: "mset (ba_rows (sort_by A (so_key st) table)) = mset (ba_rows table)" "ba_schema (sort_by A (so_key st) table) = sch"
    using A(1) table(3) by (auto simp: sort_by_sorts_def)
  have keyed: "keyed (so_key st) (ba_rows table)"
    using inv table(2) by (simp add: write_inv_def)
  have "stored_ok A (so_per_head st) sch out"
    using bounded_batches_batch [OF A(2)] sorted(2) by (fastforce simp: stored_ok_def batches_ok_def out_def)
  moreover have "ordered (so_key st) (table_rows out)"
    using A(1) keyed keyed_mset [OF sorted(1)] by (simp add: ordered_def rows sort_by_sorts_def)
  ultimately have "run_ok A (so_per_head st) (so_key st) sch out"
    by (simp add: run_ok_def)
  moreover have fresh: "p \<notin> set (so_run_paths st)"
    using inv by (auto simp: write_inv_def runs_inv_def readable_def p_def)
  moreover have "runs_rows st' (so_run_paths st) = runs_rows st (so_run_paths st)"
    using fresh by (intro arg_cong [where f = sum_list] map_cong) (auto simp: file_rows_def st'_def)
  moreover have "file_rows st' p = mset (table_rows (so_buffered st))"
    using rows sorted(1) table(2) by (simp add: file_rows_def st'_def)
  ultimately have "write_inv A sch rows st' \<and> so_buffered st' = [] \<and> same_sorter st st'"
    using inv Cons by (auto simp: write_inv_def runs_inv_def readable_def st'_def batches_ok_def p_def less_Suc_eq same_sorter_def)
  then show ?thesis
    using fl by blast
qed

lemma write_view_ok:
  assumes A: "sort_by_sorts A" "to_batches_splits A" and inv: "write_inv A sch rows st" and "so_schema st = Some sch"
    and v: "ba_schema v = sch" "ba_rows v \<noteq> []" "keyed (so_key st) (ba_rows v)" and w: "write_view A st v = Inr st'"
  shows "write_inv A sch (rows + mset (ba_rows v)) st' \<and> same_sorter st st'"
proof -
  obtain st1 where st1: "(if so_buffered st \<noteq> [] \<and> so_cap st < so_buffered_bytes st + nbytes A v then flush A st else Inr st) = Inr st1"
    using w by (auto simp: write_view_def result_simps Let_def split: if_splits)
  then have i1: "write_inv A sch rows st1" "same_sorter st st1"
    using flush_ok [OF A inv] inv by (auto simp: same_sorter_def io_failed_def split: if_splits)
  moreover have "\<exists>n a b. st' = st1\<lparr>so_buffered := so_buffered st1 @ [v], so_buffered_bytes := n, so_peak_pre_sort := a, so_peak_buffered := b\<rparr>"
    using w st1 by (auto simp: write_view_def Let_def split: if_splits)
  then obtain n a b where "st' = st1\<lparr>so_buffered := so_buffered st1 @ [v], so_buffered_bytes := n, so_peak_pre_sort := a, so_peak_buffered := b\<rparr>"
    by blast
  moreover have "file_rows (st1\<lparr>so_buffered := x, so_buffered_bytes := n, so_peak_pre_sort := a, so_peak_buffered := b\<rparr>) = file_rows st1" for x
    by (simp add: file_rows_def fun_eq_iff)
  ultimately show ?thesis
    using v assms(4) by (auto simp: write_inv_def batches_ok_def runs_inv_def readable_def same_sorter_def)
qed

lemma write_views_ok:
  assumes A: "sort_by_sorts A" "to_batches_splits A" and "write_inv A sch rows st" and "so_schema st = Some sch"
    and "\<forall>v \<in> set vs. ba_schema v = sch \<and> ba_rows v \<noteq> [] \<and> keyed (so_key st) (ba_rows v)"
    and "fold_result (write_view A) st vs = Inr st'"
  shows "write_inv A sch (rows + mset (table_rows vs)) st' \<and> same_sorter st st'"
  using assms(3-)
proof (induction vs arbitrary: st rows)
  case Nil
  then show ?case
    by (simp add: same_sorter_def)
next
  case (Cons v vs)
  then obtain st1 where st1: "write_view A st v = Inr st1" "fold_result (write_view A) st1 vs = Inr st'"
    by (auto simp: result_simps)
  have i: "write_inv A sch (rows + mset (ba_rows v)) st1" "same_sorter st st1"
    using write_view_ok [OF A Cons.prems(1,2) _ _ _ st1(1)] Cons.prems(3) by auto
  then have "write_inv A sch (rows + mset (ba_rows v) + mset (table_rows vs)) st' \<and> same_sorter st1 st'"
    using Cons.prems(2,3) by (intro Cons.IH [OF _ _ _ st1(2)]) (auto simp: same_sorter_def)
  then show ?case
    using i(2) by (simp add: same_sorter_def add.assoc)
qed

lemma validate_key_ok:
  assumes "validate_key b st = Inr st1"
  shows "(\<exists>t. st1 = st\<lparr>so_key_type := t\<rparr>) \<and> keyed (so_key st) (ba_rows b)"
proof -
  obtain t where t: "map_of (ba_schema b) (so_key st) = Some t"
    using assms by (auto simp: validate_key_def split: option.splits)
  have "null_count (so_key st) (ba_rows b) = 0 \<and> (st1 = st\<lparr>so_key_type := Some t\<rparr> \<or> st1 = st)"
    using assms t by (cases "so_key_type st") (simp_all add: validate_key_def Let_def split: if_splits)
  moreover have "st = st\<lparr>so_key_type := so_key_type st\<rparr>"
    by simp
  moreover have "null_count (so_key st) (ba_rows b) = 0 \<Longrightarrow> keyed (so_key st) (ba_rows b)"
    by (auto simp: null_count_def keyed_def filter_empty_conv)
  ultimately show ?thesis
    by metis
qed

lemma sorter_write_ok:
  assumes A: "sort_by_sorts A" "to_batches_splits A" and inv: "write_inv A sch rows st" and b: "ba_schema b = sch"
    and w: "sorter_write A st b = Inr st'"
  shows "write_inv A sch (rows + mset (ba_rows b)) st'"
proof (cases "ba_rows b = []")
  case True
  then show ?thesis
    using w inv by (auto simp: sorter_write_def split: if_splits)
next
  case False
  obtain st1 st2 where st1: "validate_key b st = Inr st1" and st2: "check_schema b st1 = Inr st2"
    and st': "fold_result (write_view A) st2 (iter_bounded_views (nbytes A) (so_per_head st2) b) = Inr st'"
    using w False by (auto simp: sorter_write_def result_simps split: if_splits)
  obtain t where t: "st1 = st\<lparr>so_key_type := t\<rparr>" and nn: "keyed (so_key st) (ba_rows b)"
    using validate_key_ok [OF st1] by blast
  have st2': "st2 = st1\<lparr>so_schema := Some sch\<rparr>"
  proof (cases "so_schema st1")
    case None
    then show ?thesis
      using st2 b by (simp add: check_schema_def Let_def split: if_splits)
  next
    case (Some s)
    then have "so_schema st1 = Some sch"
      using inv by (auto simp: write_inv_def t)
    moreover have "st1 = st1\<lparr>so_schema := so_schema st1\<rparr>"
      by simp
    moreover have "st2 = st1"
      using st2 Some by (simp add: check_schema_def)
    ultimately show ?thesis
      by metis
  qed
  have same: "so_files st2 = so_files st" "so_counter st2 = so_counter st" "so_key st2 = so_key st" "so_run_paths st2 = so_run_paths st"
      "so_buffered st2 = so_buffered st" "so_finished st2 = so_finished st" "so_fan_in st2 = so_fan_in st" "so_schema st2 = Some sch"
      "so_per_head st2 = so_per_head st"
    by (simp_all add: st2' t)
  then have "file_rows st2 = file_rows st" "runs_inv A sch st2 = runs_inv A sch st"
    by (simp_all add: file_rows_def [abs_def] runs_inv_def [abs_def] readable_def [abs_def])
  then have "write_inv A sch rows st2"
    using inv by (simp add: write_inv_def same)
  moreover have "ba_schema v = sch \<and> ba_rows v \<noteq> [] \<and> keyed (so_key st2) (ba_rows v)"
    if "v \<in> set (iter_bounded_views (nbytes A) (so_per_head st2) b)" for v
    using iter_bounded_views_view [OF that] nn b same(3) by (auto simp: keyed_def)
  ultimately have "write_inv A sch (rows + mset (table_rows (iter_bounded_views (nbytes A) (so_per_head st2) b))) st'"
    using write_views_ok [OF A _ same(8) _ st'] by blast
  then show ?thesis
    by (simp add: iter_bounded_views_rows)
qed

lemma sorter_writes_ok:
  assumes A: "sort_by_sorts A" "to_batches_splits A" and "write_inv A sch rows st" and "\<forall>b \<in> set bs. ba_schema b = sch"
    and "fold_result (sorter_write A) st bs = Inr st'"
  shows "write_inv A sch (rows + mset (table_rows bs)) st'"
  using assms(3-)
proof (induction bs arbitrary: st rows)
  case (Cons b bs)
  then obtain st1 where st1: "sorter_write A st b = Inr st1" "fold_result (sorter_write A) st1 bs = Inr st'"
    by (auto simp: result_simps)
  then show ?case
    using sorter_write_ok [OF A Cons.prems(1) _ st1(1)] Cons.IH [of "rows + mset (ba_rows b)" st1] Cons.prems(2)
    by (simp add: add.assoc)
qed simp

lemma sorter_finish_ok:
  assumes A: "sort_by_sorts A" "to_batches_splits A" and inv: "write_inv A sch rows st"
  shows "\<exists>r. sorter_finish A st = Some r \<and> (io_failed A r \<or> (\<exists>st' out. r = Inr st' \<and> iter_ordered st' = Inr out \<and>
    ordered (so_key st) (table_rows out) \<and> mset (table_rows out) = rows \<and> stored_ok A (so_per_head st) sch out))"
proof (cases "io_failed A (flush A st)")
  case True
  then show ?thesis
    using inv by (auto simp: io_failed_def sorter_finish_def write_inv_def)
next
  case nofail: False
  obtain st1 where st1: "flush A st = Inr st1" "write_inv A sch rows st1" "so_buffered st1 = []" "same_sorter st st1"
    using flush_ok [OF A inv] nofail by blast
  show ?thesis
  proof (cases "so_run_paths st1 = []")
    case True
    then have "sorter_finish A st = Some (Inr (st1\<lparr>so_final := None, so_finished := True\<rparr>))"
      using inv st1(1) by (simp add: sorter_finish_def write_inv_def merge_passes.simps [of A 0 "[]"])
    then show ?thesis
      using st1(2,3) True by (auto simp: iter_ordered_def write_inv_def ordered_def stored_ok_def batches_ok_def)
  next
    case False
    then have "so_schema st1 = Some sch" "2 \<le> so_fan_in st1" "runs_inv A sch st1 (so_run_paths st1)"
      using st1(2) by (auto simp: write_inv_def)
    from merge_passes_ok [OF A this(3,1,2), of 0] obtain r where
      m: "merge_passes A 0 (so_run_paths st1) st1 = Some r" "io_failed A r \<or> (\<exists>st2 runs. r = Inr (st2, runs) \<and> length runs \<le> 1 \<and>
        same_sorter st1 st2 \<and> runs_inv A sch st2 runs \<and> runs_rows st2 runs = runs_rows st1 (so_run_paths st1))"
      by blast
    have fin: "sorter_finish A st = Some (and_then r (\<lambda>(st2, runs).
        Inr (st2\<lparr>so_final := (case runs of [] \<Rightarrow> None | p # _ \<Rightarrow> Some p), so_finished := True\<rparr>)))"
      using inv st1(1) m(1) by (simp add: sorter_finish_def write_inv_def)
    show ?thesis
    proof (cases "io_failed A r")
      case True
      then show ?thesis
        using fin by (auto simp: io_failed_def)
    next
      case False
      then obtain st2 runs where runs: "r = Inr (st2, runs)" "length runs \<le> 1" "same_sorter st1 st2" "runs_inv A sch st2 runs"
          "runs_rows st2 runs = runs_rows st1 (so_run_paths st1)"
        using m(2) by blast
      have rows: "runs_rows st2 runs = rows"
        using st1(2,3) runs(5) by (simp add: write_inv_def)
      show ?thesis
      proof (cases runs)
        case Nil
        then show ?thesis
          using fin rows runs(1) by (auto simp: iter_ordered_def ordered_def stored_ok_def batches_ok_def)
      next
        case (Cons p ps)
        then have one: "runs = [p]"
          using runs(2) by (cases ps) auto
        then obtain bs where bs: "so_files st2 p = Some bs" "run_ok A (so_per_head st2) (so_key st2) sch bs"
          using runs(4) by (auto simp: runs_inv_def readable_def)
        have "mset (table_rows bs) = rows"
          using rows one bs(1) by (simp add: file_rows_def)
        then show ?thesis
          unfolding fin runs(1) one using bs runs(3) st1(4)
          by (intro exI [of _ "Inr (st2\<lparr>so_final := Some p, so_finished := True\<rparr>)"] conjI disjI2
              exI [of _ "st2\<lparr>so_final := Some p, so_finished := True\<rparr>"] exI [of _ bs])
            (simp_all add: iter_ordered_def run_ok_def same_sorter_def)
      qed
    qed
  qed
qed

section \<open>Memory\<close>

text \<open>The buffer counts its bytes and stays within the cap.\<close>

definition buffer_inv :: "'v arrow \<Rightarrow> 'v sorter \<Rightarrow> bool" where
  "buffer_inv A st \<longleftrightarrow> so_buffered_bytes st = sum_list (map (nbytes A) (so_buffered st)) \<and> so_buffered_bytes st \<le> so_cap st \<and>
     so_peak_pre_sort st \<le> so_cap st \<and> so_per_head st = so_cap st div (2 * so_fan_in st) \<and> 2 \<le> so_fan_in st"

lemma flush_buffer: "buffer_inv A st \<Longrightarrow> flush A st = Inr st' \<Longrightarrow> buffer_inv A st' \<and> so_buffered st' = []"
  by (auto simp: flush_def buffer_inv_def next_run_path_def write_run_def and_then_eq_Inr Let_def split: if_splits option.splits)

lemma write_view_buffer:
  assumes "buffer_inv A st" and "write_view A st v = Inr st'"
  shows "buffer_inv A st' \<and> nbytes A v \<le> so_per_head st"
proof -
  let ?st1 = "if so_buffered st \<noteq> [] \<and> so_cap st < so_buffered_bytes st + nbytes A v then flush A st else Inr st"
  have fits: "nbytes A v \<le> so_per_head st"
    using assms(2) by (auto simp: write_view_def Let_def split: if_splits)
  obtain st1 where st1: "?st1 = Inr st1"
    using assms(2) by (auto simp: write_view_def result_simps Let_def split: if_splits)
  then have inv: "buffer_inv A st1" and room: "so_buffered st1 = [] \<or> so_buffered_bytes st1 + nbytes A v \<le> so_cap st1"
    using assms(1) flush_buffer [OF assms(1)] by (auto split: if_splits)
  have "so_cap st1 = so_cap st \<and> so_per_head st1 = so_per_head st"
    using st1 by (auto simp: flush_def next_run_path_def write_run_def and_then_eq_Inr Let_def split: if_splits option.splits)
  moreover have "so_per_head st \<le> so_cap st"
    using assms(1) by (simp add: buffer_inv_def)
  ultimately have "nbytes A v \<le> so_cap st1"
    using fits by simp
  then have "so_buffered_bytes st1 + nbytes A v \<le> so_cap st1"
    using room inv by (auto simp: buffer_inv_def)
  moreover have "st' = st1\<lparr>so_buffered := so_buffered st1 @ [v], so_buffered_bytes := so_buffered_bytes st1 + nbytes A v,
      so_peak_pre_sort := max (so_peak_pre_sort st1) (so_buffered_bytes st1 + nbytes A v),
      so_peak_buffered := max (so_peak_buffered st1) (so_buffered_bytes st1 + nbytes A v)\<rparr>"
    using assms(2) st1 fits by (auto simp: write_view_def Let_def split: if_splits)
  ultimately show ?thesis
    using inv fits by (simp add: buffer_inv_def)
qed

text \<open>Every row written fits a merge head, and so does every stored batch.\<close>

definition fits :: "'v arrow \<Rightarrow> nat \<Rightarrow> (string \<times> dtype) list \<Rightarrow> 'v row \<Rightarrow> bool" where
  "fits A m sch r \<longleftrightarrow> nbytes A \<lparr>ba_schema = sch, ba_rows = [r]\<rparr> \<le> m"

lemma batch_fits:
  "rows_fit_batches A \<Longrightarrow> nbytes A b \<le> m \<Longrightarrow> r \<in> set (ba_rows b) \<Longrightarrow> fits A m (ba_schema b) r"
  unfolding rows_fit_batches_def fits_def with_rows_def by (meson order_trans)

lemma stored_fits:
  assumes "stored_ok A m sch bs" and "\<forall>r \<in> set (table_rows bs). fits A m sch r" and "b \<in> set bs"
  shows "nbytes A b \<le> m"
proof (cases "nbytes A b \<le> m")
  case False
  then have "ba_schema b = sch" "length (ba_rows b) = 1"
    using assms(1,3) by (auto simp: stored_ok_def batches_ok_def)
  then obtain r where "b = \<lparr>ba_schema = sch, ba_rows = [r]\<rparr>"
    by (cases b) (auto simp: length_Suc_conv)
  then show ?thesis
    using assms(2) in_table_rows [OF assms(3)] by (auto simp: fits_def)
qed

lemma written_run:
  assumes "write_inv A sch rows st" and "so_files st p = Some run"
  shows "stored_ok A (so_per_head st) sch run" and "set_mset (mset (table_rows run)) \<subseteq> set_mset rows"
proof -
  have p: "p \<in> set (so_run_paths st)" "readable A sch st p"
    using assms by (auto simp: write_inv_def runs_inv_def)
  then show "stored_ok A (so_per_head st) sch run"
    using assms(2) by (auto simp: readable_def run_ok_def)
  have "set_mset (file_rows st p) \<subseteq> set_mset (runs_rows st (so_run_paths st))"
    using p(1) by auto
  also have "\<dots> \<subseteq> set_mset rows"
    using assms(1) by (auto simp: write_inv_def)
  finally show "set_mset (mset (table_rows run)) \<subseteq> set_mset rows"
    using assms(2) by (simp add: file_rows_def)
qed

lemma write_views_buffer:
  assumes "rows_fit_batches A" and "buffer_inv A st" and "fold_result (write_view A) st vs = Inr st'"
    and "\<forall>v \<in> set vs. ba_schema v = sch"
  shows "buffer_inv A st' \<and> (\<forall>r \<in> set (table_rows vs). fits A (so_per_head st) sch r)"
  using assms(2-)
proof (induction vs arbitrary: st)
  case (Cons v vs)
  then obtain st1 where st1: "write_view A st v = Inr st1" "fold_result (write_view A) st1 vs = Inr st'"
    by (auto simp: result_simps)
  note v = write_view_buffer [OF Cons.prems(1) st1(1)]
  have "so_per_head st1 = so_per_head st"
    using st1(1) by (auto simp: write_view_def flush_def next_run_path_def write_run_def result_simps Let_def split: if_splits option.splits)
  then show ?case
    using Cons.IH [of st1] v st1(2) Cons.prems(3) batch_fits [OF assms(1), of v "so_per_head st"] by auto
qed simp

lemma sorter_write_buffer:
  assumes law: "rows_fit_batches A" and inv: "buffer_inv A st" and w: "sorter_write A st b = Inr st'"
  shows "buffer_inv A st' \<and> (\<forall>r \<in> set (ba_rows b). fits A (so_per_head st) (ba_schema b) r)"
proof (cases "ba_rows b = []")
  case True
  then show ?thesis
    using w inv by (auto simp: sorter_write_def split: if_splits)
next
  case False
  obtain st1 st2 where st1: "validate_key b st = Inr st1" and st2: "check_schema b st1 = Inr st2"
    and st': "fold_result (write_view A) st2 (iter_bounded_views (nbytes A) (so_per_head st2) b) = Inr st'"
    using w False by (auto simp: sorter_write_def result_simps split: if_splits)
  obtain t where "st1 = st\<lparr>so_key_type := t\<rparr>"
    using validate_key_ok [OF st1] by blast
  moreover have "st2 = st1 \<or> st2 = st1\<lparr>so_schema := Some (ba_schema b)\<rparr>"
    using st2 by (auto simp: check_schema_def Let_def split: option.splits if_splits)
  ultimately have "buffer_inv A st2" "so_per_head st2 = so_per_head st"
    using inv by (auto simp: buffer_inv_def)
  then show ?thesis
    using write_views_buffer [OF law _ st', of "ba_schema b"] iter_bounded_views_view iter_bounded_views_rows by metis
qed

lemma sorter_write_per_head:
  assumes "sorter_write A st b = Inr st'"
  shows "so_per_head st' = so_per_head st \<and> so_cap st' = so_cap st \<and> so_fan_in st' = so_fan_in st \<and> so_key st' = so_key st"
proof -
  have view: "so_per_head u' = so_per_head u \<and> so_cap u' = so_cap u \<and> so_fan_in u' = so_fan_in u \<and> so_key u' = so_key u"
    if "write_view A u v = Inr u'" for u v u'
    using that by (auto simp: write_view_def flush_def next_run_path_def write_run_def result_simps Let_def split: if_splits option.splits)
  have views: "fold_result (write_view A) u vs = Inr u' \<Longrightarrow>
      so_per_head u' = so_per_head u \<and> so_cap u' = so_cap u \<and> so_fan_in u' = so_fan_in u \<and> so_key u' = so_key u" for vs u u'
  proof (induction vs arbitrary: u)
    case (Cons v vs)
    then show ?case
      using view by (fastforce simp: result_simps)
  qed simp
  have "so_per_head u' = so_per_head u \<and> so_cap u' = so_cap u \<and> so_fan_in u' = so_fan_in u \<and> so_key u' = so_key u"
    if "validate_key b u = Inr u'" for u u'
    using validate_key_ok [OF that] by auto
  moreover have "so_per_head u' = so_per_head u \<and> so_cap u' = so_cap u \<and> so_fan_in u' = so_fan_in u \<and> so_key u' = so_key u"
    if "check_schema b u = Inr u'" for u u'
    using that by (auto simp: check_schema_def Let_def split: option.splits if_splits)
  ultimately show ?thesis
    using assms views by (fastforce simp: sorter_write_def result_simps split: if_splits)
qed

lemma sorter_writes_key: "fold_result (sorter_write A) st bs = Inr st' \<Longrightarrow> so_key st' = so_key st"
proof (induction bs arbitrary: st)
  case (Cons b bs)
  then show ?case
    using sorter_write_per_head by (fastforce simp: result_simps)
qed simp

lemma sorter_writes_buffer:
  assumes law: "rows_fit_batches A" and "buffer_inv A st" and "\<forall>b \<in> set bs. ba_schema b = sch"
    and "fold_result (sorter_write A) st bs = Inr st'"
  shows "buffer_inv A st' \<and> (\<forall>r \<in> set (table_rows bs). fits A (so_per_head st) sch r) \<and>
    so_per_head st' = so_per_head st \<and> so_cap st' = so_cap st \<and> so_fan_in st' = so_fan_in st \<and> so_key st' = so_key st"
  using assms(2-)
proof (induction bs arbitrary: st)
  case (Cons b bs)
  then obtain st1 where st1: "sorter_write A st b = Inr st1" "fold_result (sorter_write A) st1 bs = Inr st'"
    by (auto simp: result_simps)
  note b = sorter_write_buffer [OF law Cons.prems(1) st1(1)] sorter_write_per_head [OF st1(1)]
  show ?case
    using Cons.IH [of st1] b st1(2) Cons.prems(2) by auto
qed simp

lemma new_sorter_ok:
  assumes "new_sorter cap fan c = Inr st"
  shows "write_inv A sch {#} st" and "buffer_inv A st" and "so_key st = c" and "so_cap st = nat cap" and "so_fan_in st = nat fan"
    and "so_files st = Map.empty"
  using assms by (auto simp: new_sorter_def write_inv_def runs_inv_def batches_ok_def buffer_inv_def nat_div_distrib nat_mult_distrib
      split: if_splits)

section \<open>The spill directory\<close>

text \<open>Every file on disk is registered for cleanup, whatever call succeeded or failed.\<close>

definition registered :: "'v sorter \<Rightarrow> bool" where
  "registered st \<longleftrightarrow> (\<forall>p bs. so_files st p = Some bs \<longrightarrow> p \<in> so_all_files st)"

text \<open>The state a call leaves behind, returned or raised.\<close>

fun left_state :: "'e \<times> 'v sorter + 'v sorter \<Rightarrow> 'v sorter" where
  "left_state (Inl (e, st)) = st"
| "left_state (Inr st) = st"

lemma flush_registered: "registered st \<Longrightarrow> registered (left_state (flush A st))"
  by (auto simp: flush_def registered_def next_run_path_def write_run_def Let_def split: option.split)

lemma left_state_and_then:
  "P (left_state r) \<Longrightarrow> (\<And>st. r = Inr st \<Longrightarrow> P st \<Longrightarrow> P (left_state (f st))) \<Longrightarrow> P (left_state (and_then r f))"
  by (cases r) auto

lemma left_state_fold:
  assumes "P st" and "\<And>st x. P st \<Longrightarrow> P (left_state (f st x))"
  shows "P (left_state (fold_result f st xs))"
  using assms(1)
proof (induction xs arbitrary: st)
  case (Cons x xs)
  show ?case
    using left_state_and_then [of P "f st x" "\<lambda>s. fold_result f s xs"] Cons assms(2) by simp
qed simp

lemma write_view_registered: "registered st \<Longrightarrow> registered (left_state (write_view A st v))"
proof -
  assume st: "registered st"
  let ?r = "if so_buffered st \<noteq> [] \<and> so_cap st < so_buffered_bytes st + nbytes A v then flush A st else Inr st"
  have "registered (left_state ?r)"
    using st flush_registered [OF st] by simp
  then have "registered (left_state (and_then ?r (\<lambda>st. let n = so_buffered_bytes st + nbytes A v in
      Inr (st\<lparr>so_buffered := so_buffered st @ [v], so_buffered_bytes := n, so_peak_pre_sort := max (so_peak_pre_sort st) n,
        so_peak_buffered := max (so_peak_buffered st) n\<rparr>))))"
    by (rule left_state_and_then [where P = registered]) (simp add: registered_def Let_def)
  then show ?thesis
    using st unfolding write_view_def Let_def by simp
qed

lemma sorter_write_registered:
  assumes "registered st"
  shows "registered (left_state (sorter_write A st b))"
proof -
  have v: "registered (left_state (validate_key b st))"
    using assms by (simp add: validate_key_def registered_def Let_def split: option.splits)
  have c: "registered (left_state (check_schema b st'))" if "registered st'" for st'
    using that by (auto simp: check_schema_def registered_def Let_def split: option.splits)
  have f: "registered (left_state (fold_result (write_view A) st' vs))" if "registered st'" for st' vs
    using left_state_fold [of registered, OF that] write_view_registered by blast
  have "registered (left_state (and_then (validate_key b st) (\<lambda>st. and_then (check_schema b st) (\<lambda>st.
      fold_result (write_view A) st (iter_bounded_views (nbytes A) (so_per_head st) b)))))"
    by (intro left_state_and_then [where P = registered] v c f)
  then show ?thesis
    using assms by (simp add: sorter_write_def)
qed

lemma merge_group_registered:
  assumes "registered st" and "p \<in> so_all_files st" and "merge_group A g p st = Some r"
  shows "registered (left_state r)"
proof (cases "map_result (open_run A st) g")
  case (Inl e)
  then show ?thesis
    using assms by (auto simp: merge_group_def split: option.splits)
next
  case (Inr runs)
  then show ?thesis
    using assms by (auto simp: merge_group_def registered_def Let_def split: option.splits if_splits)
qed

lemma unlink_runs_registered: "registered st \<Longrightarrow> registered (left_state (unlink_runs A ps st))"
  by (induction ps arbitrary: st) (auto simp: registered_def)

lemma close_files_registered:
  "registered st \<Longrightarrow> registered (left_state (close_files A ps st)) \<and>
     so_all_files (left_state (close_files A ps st)) = so_all_files st"
proof (induction ps arbitrary: st)
  case (Cons p ps)
  have "registered (st\<lparr>so_files := (so_files st)(p := None)\<rparr>)"
    using Cons.prems by (auto simp: registered_def)
  then show ?case
    using Cons.IH [of "st\<lparr>so_files := (so_files st)(p := None)\<rparr>"] Cons.prems by auto
qed simp

lemma close_files_removes:
  "close_files A ps st = Inr st' \<Longrightarrow> so_files st' = (so_files st) |` (- set ps)"
proof (induction ps arbitrary: st)
  case (Cons p ps)
  then have "close_files A ps (st\<lparr>so_files := (so_files st)(p := None)\<rparr>) = Inr st'"
    by (simp split: if_splits)
  from Cons.IH [OF this] show ?case
    by (auto simp: restrict_map_def fun_eq_iff)
qed (simp add: restrict_map_def)

abbreviation left_pair :: "'e \<times> 'v sorter + 'v sorter \<times> 'p \<Rightarrow> 'v sorter" where
  "left_pair r \<equiv> (case r of Inl (e, st) \<Rightarrow> st | Inr (st, p) \<Rightarrow> st)"

lemma merge_step_registered:
  assumes "registered (fst sn)" and "merge_step A n g sn = Some r"
  shows "registered (left_pair r)"
proof (cases "length g = 1")
  case True
  then show ?thesis
    using assms by (auto simp: merge_step_def)
next
  case False
  obtain p st where p: "next_run_path (MergeFile n) (fst sn) = (p, st)"
    by (cases "next_run_path (MergeFile n) (fst sn)")
  then have "registered st" "p \<in> so_all_files st"
    using assms(1) by (auto simp: next_run_path_def registered_def Let_def)
  moreover obtain r' where r': "merge_group A g p st = Some r'"
      "r = and_then r' (\<lambda>st. and_then (unlink_runs A g st) (\<lambda>st. Inr (st, snd sn @ [p])))"
    using assms(2) False p by (auto simp: merge_step_def)
  ultimately have reg: "registered (left_state r')"
    using merge_group_registered by blast
  show ?thesis
  proof (cases r')
    case (Inl e)
    then show ?thesis
      using reg r'(2) by (cases e) simp
  next
    case (Inr st')
    then have "registered (left_state (unlink_runs A g st'))"
      using reg unlink_runs_registered by simp
    then show ?thesis
      using r'(2) Inr by (cases "unlink_runs A g st'") (auto split: prod.splits)
  qed
qed

lemma merge_pass_registered:
  "registered (fst sn) \<Longrightarrow> merge_pass A n gs sn = Some r \<Longrightarrow> registered (left_pair r)"
proof (induction gs arbitrary: sn)
  case (Cons g gs)
  then obtain r' where r': "merge_step A n g sn = Some r'"
    and r: "(case r' of Inl e \<Rightarrow> Some (Inl e) | Inr sn' \<Rightarrow> merge_pass A n gs sn') = Some r"
    by (auto simp: bind_eq_Some_conv)
  note reg = merge_step_registered [OF Cons.prems(1) r']
  show ?case
  proof (cases r')
    case (Inr sn')
    then show ?thesis
      using Cons.IH [of sn'] reg r by (auto split: prod.splits)
  qed (use reg r in auto)
qed (auto split: prod.splits)

lemma merge_passes_registered:
  assumes "merge_passes A n runs st = Some r" and "registered st"
  shows "registered (left_pair r)"
  using assms(2)
proof (induction rule: merge_passes.raw_induct [OF _ assms(1)])
  case (1 mp A n runs st r)
  show ?case
  proof (cases "length runs \<le> 1")
    case True
    then show ?thesis
      using 1 by auto
  next
    case False
    then obtain r' where r': "merge_pass A n (groups_of (so_fan_in st) runs) (st, []) = Some r'"
      and r: "(case r' of Inl e \<Rightarrow> Some (Inl e) | Inr (st', runs') \<Rightarrow> mp A (Suc n) runs' st') = Some r"
      using 1(2) by (auto simp: bind_eq_Some_conv)
    have reg: "registered (left_pair r')"
      using merge_pass_registered [OF _ r'] 1(3) by simp
    show ?thesis
    proof (cases r')
      case (Inr sn)
      then show ?thesis
        using reg r 1(1) by (cases sn) auto
    qed (use reg r in auto)
  qed
qed

lemma sorter_finish_registered:
  assumes "registered st" and "sorter_finish A st = Some r"
  shows "registered (left_state r)"
proof (cases "so_finished st")
  case True
  then show ?thesis
    using assms by (auto simp: sorter_finish_def)
next
  case False
  show ?thesis
  proof (cases "flush A st")
    case (Inl e)
    then show ?thesis
      using assms(2) False flush_registered [OF assms(1), of A] by (auto simp: sorter_finish_def)
  next
    case (Inr st1)
    then obtain r' where r': "merge_passes A 0 (so_run_paths st1) st1 = Some r'" and
      r: "r = and_then r' (\<lambda>(st2, runs). Inr (st2\<lparr>so_final := (case runs of [] \<Rightarrow> None | p # _ \<Rightarrow> Some p), so_finished := True\<rparr>))"
      using assms(2) False by (auto simp: sorter_finish_def)
    have "registered (left_pair r')"
      using merge_passes_registered [OF r'] flush_registered [OF assms(1), of A] Inr by simp
    then show ?thesis
      using r by (cases r') (auto simp: registered_def)
  qed
qed

text \<open>Any sequence of calls, failing ones included; the file operations that fail may differ from call to
  call. A close iterates the registry in some order.\<close>

inductive sorter_run :: "('v :: linorder) sorter \<Rightarrow> bool" where
  opened: "new_sorter cap fan c = Inr st \<Longrightarrow> sorter_run st"
| wrote: "sorter_run st \<Longrightarrow> sorter_run (left_state (sorter_write A st b))"
| finished: "sorter_run st \<Longrightarrow> sorter_finish A st = Some r \<Longrightarrow> sorter_run (left_state r)"
| closed: "sorter_run st \<Longrightarrow> set order = so_all_files st \<Longrightarrow> sorter_run (left_state (sorter_close A order st))"

lemma sorter_close_left:
  assumes "registered st" "set order = so_all_files st"
  shows "case sorter_close A order st of
      Inr st' \<Rightarrow> so_files st' = Map.empty \<and> so_all_files st' = {}
    | Inl (e, st') \<Rightarrow> e = SortOSError \<and> \<not> files_work A \<and> registered st' \<and> so_all_files st' = so_all_files st"
proof (cases "close_files A order st")
  case (Inl f)
  have "e = SortOSError \<and> \<not> files_work A" if "close_files A ps u = Inl (e, u')" for ps u e u'
    using that by (induction ps arbitrary: u) (auto simp: files_work_def split: if_splits)
  then show ?thesis
    using Inl close_files_registered [OF assms(1), of A order] by (cases f) (auto simp: sorter_close_def)
next
  case (Inr st')
  have "so_files st |` (- so_all_files st) = Map.empty"
    using assms(1) by (force simp: registered_def restrict_map_def fun_eq_iff)
  then show ?thesis
    using Inr close_files_removes [OF Inr] assms(2) by (simp add: sorter_close_def)
qed

lemma sorter_run_registered: "sorter_run st \<Longrightarrow> registered st"
proof (induction rule: sorter_run.induct)
  case (opened cap fan c st)
  then show ?case
    by (simp add: registered_def new_sorter_ok(6))
next
  case (closed st order A)
  then show ?case
    using sorter_close_left [OF closed.IH closed.hyps(2), of A]
    by (cases "sorter_close A order st") (auto simp: registered_def)
qed (simp_all add: sorter_write_registered sorter_finish_registered)

section \<open>Accepted input\<close>

definition writable :: "'v arrow \<Rightarrow> string \<Rightarrow> nat \<Rightarrow> (string \<times> dtype) list \<Rightarrow> 'v batch \<Rightarrow> bool" where
  "writable A c per_head sch b \<longleftrightarrow> ba_schema b = sch \<and> keyed c (ba_rows b) \<and> (\<forall>r \<in> set (ba_rows b). fits A per_head sch r)"

definition sortable_schema :: "string \<Rightarrow> (string \<times> dtype) list \<Rightarrow> bool" where
  "sortable_schema c sch \<longleftrightarrow> 8 \<le> min_row_bytes sch \<and> (\<exists>t. map_of sch c = Some t \<and> is_supported_key_type t)"

text \<open>The key type is the schema's, once a batch was seen.\<close>

definition key_type_ok :: "(string \<times> dtype) list \<Rightarrow> 'v sorter \<Rightarrow> bool" where
  "key_type_ok sch st \<longleftrightarrow> so_key_type st = None \<or> so_key_type st = map_of sch (so_key st)"

lemma write_view_accepts:
  assumes A: "sort_by_sorts A" "to_batches_splits A" "files_work A" and inv: "write_inv A sch rows st" and "nbytes A v \<le> so_per_head st"
  shows "\<exists>st'. write_view A st v = Inr st' \<and> so_key_type st' = so_key_type st"
proof -
  obtain st1 where "flush A st = Inr st1"
    using flush_ok [OF A(1,2) inv] A(3) by (auto simp: io_failed_def)
  moreover from this have "so_key_type st1 = so_key_type st"
    by (auto simp: flush_def next_run_path_def write_run_def and_then_eq_Inr Let_def split: if_splits option.splits)
  ultimately show ?thesis
    using assms(5) by (auto simp: write_view_def Let_def)
qed

lemma write_views_accept:
  assumes A: "sort_by_sorts A" "to_batches_splits A" "files_work A" and "write_inv A sch rows st" and "so_schema st = Some sch"
    and "\<forall>v \<in> set vs. ba_schema v = sch \<and> ba_rows v \<noteq> [] \<and> keyed (so_key st) (ba_rows v) \<and> nbytes A v \<le> so_per_head st"
  shows "\<exists>st'. fold_result (write_view A) st vs = Inr st' \<and> so_key_type st' = so_key_type st"
  using assms(4-)
proof (induction vs arbitrary: st rows)
  case (Cons v vs)
  obtain st1 where st1: "write_view A st v = Inr st1" "so_key_type st1 = so_key_type st"
    using write_view_accepts [OF A Cons.prems(1)] Cons.prems(3) by auto
  have "write_inv A sch (rows + mset (ba_rows v)) st1 \<and> same_sorter st st1"
    using write_view_ok [OF A(1,2) Cons.prems(1,2) _ _ _ st1(1)] Cons.prems(3) by auto
  then show ?case
    using Cons.IH [of "rows + mset (ba_rows v)" st1] Cons.prems(2,3) st1 by (auto simp: same_sorter_def)
qed simp

lemma sorter_write_accepts:
  assumes A: "sort_by_sorts A" "to_batches_splits A" "files_work A" and inv: "write_inv A sch rows st" and kt: "key_type_ok sch st"
    and sch: "sortable_schema (so_key st) sch" and b: "writable A (so_key st) (so_per_head st) sch b"
  shows "\<exists>st'. sorter_write A st b = Inr st' \<and> key_type_ok sch st' \<and> so_key st' = so_key st \<and> so_per_head st' = so_per_head st"
proof (cases "ba_rows b = []")
  case True
  then show ?thesis
    using inv kt by (simp add: sorter_write_def write_inv_def)
next
  case False
  obtain t where t: "map_of sch (so_key st) = Some t" "is_supported_key_type t"
    using sch by (auto simp: sortable_schema_def)
  have "null_count (so_key st) (ba_rows b) = 0"
    using b by (auto simp: writable_def null_count_def keyed_def filter_empty_conv)
  then have "validate_key b st = Inr (st\<lparr>so_key_type := Some t\<rparr>)"
    using t kt b by (cases "so_key_type st") (auto simp: validate_key_def writable_def key_type_ok_def Let_def)
  moreover define st2 where "st2 = st\<lparr>so_key_type := Some t, so_schema := Some sch\<rparr>"
  have "check_schema b (st\<lparr>so_key_type := Some t\<rparr>) = Inr st2"
    using inv b sch by (cases "so_schema st")
      (auto simp: check_schema_def write_inv_def writable_def sortable_schema_def INDEX_BYTES_def st2_def Let_def)
  moreover have "write_inv A sch rows st2"
  proof -
    have "file_rows st2 = file_rows st" "runs_inv A sch st2 = runs_inv A sch st"
      by (simp_all add: st2_def file_rows_def [abs_def] runs_inv_def [abs_def] readable_def [abs_def])
    then show ?thesis
      using inv by (simp add: write_inv_def st2_def)
  qed
  moreover have "ba_schema v = sch \<and> ba_rows v \<noteq> [] \<and> keyed (so_key st2) (ba_rows v) \<and> nbytes A v \<le> so_per_head st2"
    if "v \<in> set (iter_bounded_views (nbytes A) (so_per_head st2) b)" for v
    using iter_bounded_views_view [OF that] b by (auto simp: writable_def st2_def keyed_def fits_def with_rows_def)
  ultimately obtain st' where st': "sorter_write A st b = Inr st'" "so_key_type st' = Some t"
    using write_views_accept [OF A, of sch rows st2 "iter_bounded_views (nbytes A) (so_per_head st2) b"] False inv
    by (auto simp: sorter_write_def write_inv_def st2_def)
  then show ?thesis
    using sorter_write_per_head [OF st'(1)] t(1) by (simp add: key_type_ok_def)
qed

lemma writes_accepted:
  assumes A: "sort_by_sorts A" "to_batches_splits A" "files_work A" and "write_inv A sch rows st" and "key_type_ok sch st"
    and "sortable_schema (so_key st) sch" and "\<forall>b \<in> set bs. writable A (so_key st) (so_per_head st) sch b"
  shows "\<exists>st'. fold_result (sorter_write A) st bs = Inr st'"
  using assms(4-)
proof (induction bs arbitrary: st rows)
  case (Cons b bs)
  obtain st1 where st1: "sorter_write A st b = Inr st1" "key_type_ok sch st1" "so_key st1 = so_key st" "so_per_head st1 = so_per_head st"
    using sorter_write_accepts [OF A Cons.prems(1-3)] Cons.prems(4) by auto
  have "write_inv A sch (rows + mset (ba_rows b)) st1"
    using sorter_write_ok [OF A(1,2) Cons.prems(1) _ st1(1)] Cons.prems(4) by (auto simp: writable_def)
  then show ?case
    using Cons.IH [of "rows + mset (ba_rows b)" st1] st1 Cons.prems(3,4) by simp
qed simp

section \<open>Properties\<close>

text \<open>A table of rows of eight bytes, and an Arrow that sorts with the library's stable sort.\<close>

definition demo_arrow :: "int arrow" where
  "demo_arrow = \<lparr>nbytes = (\<lambda>b. 8 * length (ba_rows b)), sort_by = (\<lambda>c b. with_rows b (sort_key (key_of c) (ba_rows b))),
     to_batches = (\<lambda>b. [b]), write_fault = (\<lambda>_. None), open_fault = (\<lambda>_. False), unlink_fault = (\<lambda>_. False)\<rparr>"

definition demo_rows :: "int list \<Rightarrow> int batch" where
  "demo_rows ks = \<lparr>ba_schema = [(''k'', DInt True 64)], ba_rows = map (\<lambda>k c. if c = ''k'' then Some k else None) ks\<rparr>"

lemma demo_arrow_laws: "sort_by_sorts demo_arrow" "to_batches_splits demo_arrow" "rows_fit_batches demo_arrow" "files_work demo_arrow"
proof -
  have "Suc 0 \<le> length xs" if "x \<in> set xs" for x :: "int row" and xs
    using that by (cases xs) auto
  then show "sort_by_sorts demo_arrow" "to_batches_splits demo_arrow" "rows_fit_batches demo_arrow" "files_work demo_arrow"
    by (auto simp: demo_arrow_def sort_by_sorts_def to_batches_splits_def rows_fit_batches_def files_work_def)
qed

lemma demo_writes:
  assumes "new_sorter cap 2 ''k'' = Inr st0" and "32 \<le> cap"
  shows "\<exists>st. fold_result (sorter_write demo_arrow) st0 [demo_rows [3, 1, 2], demo_rows [5, 4]] = Inr st"
proof (rule writes_accepted [OF demo_arrow_laws(1,2,4) new_sorter_ok(1) [OF assms(1)]])
  have st0: "so_key st0 = ''k''" "8 \<le> so_per_head st0" "so_key_type st0 = None"
    using assms by (auto simp: new_sorter_def split: if_splits)
  then show "key_type_ok [(''k'', DInt True 64)] st0" "sortable_schema (so_key st0) [(''k'', DInt True 64)]"
    by (simp_all add: key_type_ok_def sortable_schema_def min_row_bytes_def)
  show "\<forall>b \<in> set [demo_rows [3, 1, 2], demo_rows [5, 4]]. writable demo_arrow (so_key st0) (so_per_head st0) [(''k'', DInt True 64)] b"
    using st0 by (auto simp: writable_def demo_rows_def keyed_def fits_def demo_arrow_def)
qed

text \<open>C12. The sorter sorts. Once the writes of a stream of batches succeed, \<open>finish\<close> returns, however many runs
  and merge passes it takes: it raises only the error of a file operation that failed, and otherwise
  \<open>iter_ordered\<close> then yields exactly the rows that were written, in ascending order of the key.\<close>

theorem external_sort_sorts:
  assumes "sort_by_sorts A" and "to_batches_splits A" and "new_sorter cap fan c = Inr st0"
    and "\<forall>b \<in> set bs. ba_schema b = sch" and "fold_result (sorter_write A) st0 bs = Inr st"
  shows "\<exists>r. sorter_finish A st = Some r \<and> (case r of
      Inr st' \<Rightarrow> \<exists>out. iter_ordered st' = Inr out \<and> sorted (map (key_of c) (table_rows out)) \<and>
        mset (table_rows out) = mset (table_rows bs)
    | Inl (e, st') \<Rightarrow> e = SortOSError \<and> \<not> files_work A)"
proof -
  have w: "write_inv A sch (mset (table_rows bs)) st"
    using sorter_writes_ok [OF assms(1,2) new_sorter_ok(1) [OF assms(3)] assms(4,5)] by simp
  have "so_key st = c"
    using sorter_writes_key [OF assms(5)] new_sorter_ok(3) [OF assms(3)] by simp
  then show ?thesis
    using sorter_finish_ok [OF assms(1,2) w] by (auto simp: ordered_def io_failed_def)
qed

theorem external_sort_sorts_witness:
  "\<exists>st0 st st' out. new_sorter 64 2 ''k'' = Inr st0 \<and>
     fold_result (sorter_write demo_arrow) st0 [demo_rows [3, 1, 2], demo_rows [5, 4]] = Inr st \<and>
     sorter_finish demo_arrow st = Some (Inr st') \<and> iter_ordered st' = Inr out \<and>
     sorted (map (key_of ''k'') (table_rows out)) \<and> mset (table_rows out) = mset (table_rows [demo_rows [3, 1, 2], demo_rows [5, 4]])"
proof -
  obtain st0 :: "int sorter" where st0: "new_sorter 64 2 ''k'' = Inr st0"
    by (simp add: new_sorter_def)
  obtain st where st: "fold_result (sorter_write demo_arrow) st0 [demo_rows [3, 1, 2], demo_rows [5, 4]] = Inr st"
    using demo_writes [OF st0] by auto
  have sch: "\<forall>b \<in> set [demo_rows [3, 1, 2], demo_rows [5, 4]]. ba_schema b = [(''k'', DInt True 64)]"
    by (simp add: demo_rows_def)
  obtain r where fin: "sorter_finish demo_arrow st = Some r" "case r of
      Inr st' \<Rightarrow> \<exists>out. iter_ordered st' = Inr out \<and> sorted (map (key_of ''k'') (table_rows out)) \<and>
        mset (table_rows out) = mset (table_rows [demo_rows [3, 1, 2], demo_rows [5, 4]])
    | Inl (e, st') \<Rightarrow> e = SortOSError \<and> \<not> files_work demo_arrow"
    using external_sort_sorts [OF demo_arrow_laws(1,2) st0 sch st] by blast
  then show ?thesis
    using demo_arrow_laws(4) st0 st by (cases r) auto
qed

text \<open>The memory envelope. While batches are written the buffer's byte count is exact and its peak stays
  within the cap; every batch in a run file, and every batch of the merged result, is small enough that
  a merge group of \<open>merge_fan_in\<close> co-loaded batches takes at most half of the cap.\<close>

theorem external_sort_memory:
  assumes "sort_by_sorts A" and "to_batches_splits A" and "rows_fit_batches A" and "new_sorter cap fan c = Inr st0"
    and "\<forall>b \<in> set bs. ba_schema b = sch" and "fold_result (sorter_write A) st0 bs = Inr st"
  shows "so_buffered_bytes st = sum_list (map (nbytes A) (so_buffered st)) \<and> int (so_buffered_bytes st) \<le> cap \<and>
    int (so_peak_pre_sort st) \<le> cap \<and>
    (\<forall>p run b. so_files st p = Some run \<and> b \<in> set run \<longrightarrow> 2 * fan * int (nbytes A b) \<le> cap) \<and>
    (\<forall>st' out b. sorter_finish A st = Some (Inr st') \<and> iter_ordered st' = Inr out \<and> b \<in> set out \<longrightarrow> 2 * fan * int (nbytes A b) \<le> cap)"
proof -
  note st0 = new_sorter_ok [OF assms(4)]
  have pos: "0 < cap" "2 \<le> fan"
    using assms(4) by (auto simp: new_sorter_def split: if_splits)
  have buf: "buffer_inv A st" and rows: "\<forall>r \<in> set (table_rows bs). fits A (so_per_head st) sch r"
    and same: "so_cap st = nat cap" "so_fan_in st = nat fan"
    using sorter_writes_buffer [OF assms(3) st0(2) assms(5,6)] st0(4,5) by auto
  have w: "write_inv A sch (mset (table_rows bs)) st"
    using sorter_writes_ok [OF assms(1,2) st0(1) assms(5,6)] by simp
  have small: "2 * fan * int n \<le> cap" if n: "n \<le> so_per_head st" for n
  proof -
    have "n * (2 * so_fan_in st) \<le> so_cap st"
      using n buf by (metis buffer_inv_def div_times_less_eq_dividend mult_le_mono1 order_trans)
    then have "int (n * (2 * nat fan)) \<le> int (nat cap)"
      using same by (simp only: of_nat_le_iff)
    then show ?thesis
      using pos by (simp add: ac_simps)
  qed
  have stored: "nbytes A b \<le> so_per_head st"
    if "stored_ok A (so_per_head st) sch run" "set_mset (mset (table_rows run)) \<subseteq> set_mset (mset (table_rows bs))" "b \<in> set run" for run b
    using stored_fits [OF that(1) _ that(3)] that(2) rows by auto
  have "2 * fan * int (nbytes A b) \<le> cap" if run: "so_files st p = Some run" "b \<in> set run" for p run b
    using small stored [OF written_run [OF w run(1)] run(2)] by simp
  moreover have "2 * fan * int (nbytes A b) \<le> cap"
    if f: "sorter_finish A st = Some (Inr st')" "iter_ordered st' = Inr out" "b \<in> set out" for st' out b
  proof (rule small, rule stored)
    show "stored_ok A (so_per_head st) sch out" "set_mset (mset (table_rows out)) \<subseteq> set_mset (mset (table_rows bs))"
      using sorter_finish_ok [OF assms(1,2) w] f(1,2) by (auto simp: io_failed_def)
  qed (rule f(3))
  moreover have "int (so_buffered_bytes st) \<le> cap" "int (so_peak_pre_sort st) \<le> cap"
    using buf same(1) pos(1) by (auto simp: buffer_inv_def le_nat_iff)
  ultimately show ?thesis
    using buf by (auto simp: buffer_inv_def)
qed

text \<open>The budget changes nothing but the work. Two sorters with different caps, fan-ins and Arrow
  sizings, fed the same rows in any batching, yield the same row sequence when the key is unique.\<close>

theorem external_sort_budget_invariant:
  assumes "sort_by_sorts A" and "to_batches_splits A" and "sort_by_sorts B" and "to_batches_splits B"
    and "files_work A" and "files_work B"
    and "new_sorter cap fan c = Inr s" and "new_sorter cap' fan' c = Inr t"
    and "\<forall>b \<in> set bs. ba_schema b = sch" and "\<forall>b \<in> set bs'. ba_schema b = sch"
    and "fold_result (sorter_write A) s bs = Inr s1" and "fold_result (sorter_write B) t bs' = Inr t1"
    and "mset (table_rows bs) = mset (table_rows bs')" and "inj_on (key_of c) (set (table_rows bs))"
  shows "\<exists>s2 t2 out out'. sorter_finish A s1 = Some (Inr s2) \<and> sorter_finish B t1 = Some (Inr t2) \<and>
    iter_ordered s2 = Inr out \<and> iter_ordered t2 = Inr out' \<and> table_rows out = table_rows out'"
proof -
  have w: "write_inv A sch (mset (table_rows bs)) s1" "write_inv B sch (mset (table_rows bs')) t1"
    using sorter_writes_ok [OF assms(1,2) new_sorter_ok(1) [OF assms(7)] assms(9,11)]
      sorter_writes_ok [OF assms(3,4) new_sorter_ok(1) [OF assms(8)] assms(10,12)] by simp_all
  have keys: "so_key s1 = c" "so_key t1 = c"
    using sorter_writes_key [OF assms(11)] sorter_writes_key [OF assms(12)] new_sorter_ok(3) assms(7,8) by auto
  obtain s2 out where s2: "sorter_finish A s1 = Some (Inr s2)" "iter_ordered s2 = Inr out" "ordered c (table_rows out)"
      "mset (table_rows out) = mset (table_rows bs)"
    using sorter_finish_ok [OF assms(1,2) w(1)] keys(1) assms(5) by (auto simp: io_failed_def)
  obtain t2 out' where t2: "sorter_finish B t1 = Some (Inr t2)" "iter_ordered t2 = Inr out'" "ordered c (table_rows out')"
      "mset (table_rows out') = mset (table_rows bs')"
    using sorter_finish_ok [OF assms(3,4) w(2)] keys(2) assms(6) by (auto simp: io_failed_def)
  have "inj_on (key_of c) (set (table_rows out))"
    using assms(14) s2(4) by (metis mset_eq_setD)
  then have "table_rows out = table_rows out'"
    using s2(3,4) t2(3,4) assms(13) ordered_unique by metis
  then show ?thesis
    using s2 t2 by blast
qed

text \<open>C34. No spill file is left behind. After any sequence of calls, in which any of them may have failed in the
  middle and any making, filling, reading or unlinking of a run file may have raised, a \<open>close\<close> that returns
  leaves the spill directory empty; one that is stopped by a failing unlink raises that error and keeps every
  file it has not removed registered, so that a later \<open>close\<close> removes it.\<close>

theorem external_sort_no_leak:
  assumes "sorter_run st" and "set order = so_all_files st"
  shows "case sorter_close A order st of
      Inr st' \<Rightarrow> so_files st' = Map.empty
    | Inl (e, st') \<Rightarrow> e = SortOSError \<and> \<not> files_work A \<and> dom (so_files st') \<subseteq> so_all_files st'"
  using sorter_close_left [OF sorter_run_registered [OF assms(1)] assms(2), of A]
  by (auto simp: registered_def split: sum.splits)

text \<open>Well-formed input is never refused: with a schema wide enough for the sort index, a supported key
  column, non-null keys and rows that fit a merge head, every write succeeds.\<close>

theorem external_sort_accepts:
  assumes "sort_by_sorts A" and "to_batches_splits A" and "files_work A" and "new_sorter cap fan c = Inr st0" and "sortable_schema c sch"
    and "\<forall>b \<in> set bs. writable A c (nat (cap div (2 * fan))) sch b"
  shows "\<exists>st. fold_result (sorter_write A) st0 bs = Inr st"
proof (rule writes_accepted [OF assms(1,2,3) new_sorter_ok(1) [OF assms(4)]])
  have "so_key_type st0 = None" "so_per_head st0 = nat (cap div (2 * fan))"
    using assms(4) by (auto simp: new_sorter_def split: if_splits)
  then show "key_type_ok sch st0" "\<forall>b \<in> set bs. writable A (so_key st0) (so_per_head st0) sch b" "sortable_schema (so_key st0) sch"
    using assms(5,6) new_sorter_ok(3) [OF assms(4)] by (simp_all add: key_type_ok_def)
qed

lemma demo_sorter:
  assumes "64 \<le> cap"
  obtains st0 st :: "int sorter" where "new_sorter cap 2 ''k'' = Inr st0"
    "fold_result (sorter_write demo_arrow) st0 [demo_rows [3, 1, 2], demo_rows [5, 4]] = Inr st"
proof -
  have "\<not> cap div (2 * 2) < 1"
    using assms by simp
  then obtain st0 :: "int sorter" where st0: "new_sorter cap 2 ''k'' = Inr st0"
    using assms by (simp add: new_sorter_def)
  then show ?thesis
    using demo_writes [OF st0] assms that by auto
qed

theorem external_sort_memory_witness:
  "\<exists>st0 st. new_sorter 64 2 ''k'' = Inr st0 \<and>
     fold_result (sorter_write demo_arrow) st0 [demo_rows [3, 1, 2], demo_rows [5, 4]] = Inr st \<and> so_peak_pre_sort st \<le> 64"
proof -
  obtain st0 st :: "int sorter" where st: "new_sorter 64 2 ''k'' = Inr st0"
      "fold_result (sorter_write demo_arrow) st0 [demo_rows [3, 1, 2], demo_rows [5, 4]] = Inr st"
    using demo_sorter [of 64] by auto
  then show ?thesis
    using external_sort_memory [OF demo_arrow_laws(1-3) st(1) _ st(2), of "[(''k'', DInt True 64)]"] by (auto simp: demo_rows_def)
qed

theorem external_sort_budget_invariant_witness:
  "\<exists>s t s1 t1 s2 t2 out out'. new_sorter 64 2 ''k'' = Inr s \<and> new_sorter 100 2 ''k'' = Inr t \<and>
     fold_result (sorter_write demo_arrow) s [demo_rows [3, 1, 2], demo_rows [5, 4]] = Inr s1 \<and>
     fold_result (sorter_write demo_arrow) t [demo_rows [3, 1, 2], demo_rows [5, 4]] = Inr t1 \<and>
     sorter_finish demo_arrow s1 = Some (Inr s2) \<and> sorter_finish demo_arrow t1 = Some (Inr t2) \<and>
     iter_ordered s2 = Inr out \<and> iter_ordered t2 = Inr out' \<and> table_rows out = table_rows out'"
proof -
  obtain s s1 :: "int sorter" where s: "new_sorter 64 2 ''k'' = Inr s"
      "fold_result (sorter_write demo_arrow) s [demo_rows [3, 1, 2], demo_rows [5, 4]] = Inr s1"
    using demo_sorter [of 64] by auto
  obtain t t1 :: "int sorter" where t: "new_sorter 100 2 ''k'' = Inr t"
      "fold_result (sorter_write demo_arrow) t [demo_rows [3, 1, 2], demo_rows [5, 4]] = Inr t1"
    using demo_sorter [of 100] by auto
  have sch: "\<forall>b \<in> set [demo_rows [3, 1, 2], demo_rows [5, 4]]. ba_schema b = [(''k'', DInt True 64)]"
    by (simp add: demo_rows_def)
  have inj: "inj_on (key_of ''k'') (set (table_rows [demo_rows [3, 1, 2], demo_rows [5, 4]]))"
    by (auto simp: demo_rows_def key_of_def inj_on_def)
  show ?thesis
    using external_sort_budget_invariant [OF demo_arrow_laws(1,2,1,2,4,4) s(1) t(1) sch sch s(2) t(2) refl inj] s t by blast
qed

text \<open>A disk on which the first run file breaks off after one batch: the failed \<open>finish\<close> leaves it behind, and
  \<open>close\<close> removes it.\<close>

definition failing_arrow :: "int arrow" where
  "failing_arrow = demo_arrow\<lparr>write_fault := (\<lambda>p. if p = RunFile 0 then Some (Some 1) else None)\<rparr>"

definition failing_start :: "int sorter" where
  "failing_start = \<lparr>so_cap = 64, so_fan_in = 2, so_key = ''k'', so_per_head = 16, so_buffered = [], so_buffered_bytes = 0,
     so_peak_pre_sort = 0, so_peak_buffered = 0, so_peak_merge = 0, so_run_paths = [], so_all_files = {}, so_counter = 0,
     so_final = None, so_finished = False, so_schema = None, so_key_type = None, so_files = Map.empty\<rparr>"

theorem external_sort_no_leak_witness:
  "\<exists>st st' bs. sorter_run st \<and> sorter_finish failing_arrow st = Some (Inl (SortOSError, st')) \<and> so_files st' (RunFile 0) = Some bs \<and>
     (case sorter_close demo_arrow [RunFile 0] st' of Inr st'' \<Rightarrow> so_files st'' = Map.empty | Inl _ \<Rightarrow> False)"
proof -
  have "new_sorter 64 2 ''k'' = Inr failing_start"
    by (simp add: new_sorter_def failing_start_def)
  then have start: "sorter_run failing_start"
    by (rule sorter_run.opened)
  define st where "st = left_state (sorter_write failing_arrow failing_start (demo_rows [7]))"
  have st: "sorter_run st"
    unfolding st_def by (rule sorter_run.wrote [OF start])
  have w: "st = failing_start\<lparr>so_key_type := Some (DInt True 64), so_schema := Some [(''k'', DInt True 64)],
      so_buffered := [demo_rows [7]], so_buffered_bytes := 8, so_peak_pre_sort := 8, so_peak_buffered := 8\<rparr>"
    by (simp add: st_def sorter_write_def failing_start_def validate_key_def check_schema_def demo_rows_def null_count_def
        min_row_bytes_def INDEX_BYTES_def iter_bounded_views.simps write_view_def failing_arrow_def demo_arrow_def)
  obtain st' bs where f: "sorter_finish failing_arrow st = Some (Inl (SortOSError, st'))" "so_files st' (RunFile 0) = Some bs"
      "so_all_files st' = {RunFile 0}"
    by (auto simp: w sorter_finish_def failing_start_def flush_def from_batches_def next_run_path_def write_run_def failing_arrow_def
        demo_arrow_def demo_rows_def Let_def)
  then have "sorter_run st'"
    using sorter_run.finished [OF st f(1)] by simp
  then have "case sorter_close demo_arrow [RunFile 0] st' of Inr st'' \<Rightarrow> so_files st'' = Map.empty | Inl _ \<Rightarrow> False"
    using external_sort_no_leak [of st' "[RunFile 0]" demo_arrow] f(3) demo_arrow_laws(4) by (auto split: sum.splits)
  then show ?thesis
    using st f by blast
qed

theorem external_sort_accepts_witness:
  "\<exists>st0 st. new_sorter 64 2 ''k'' = Inr st0 \<and> fold_result (sorter_write demo_arrow) st0 [demo_rows [3, 1, 2]] = Inr st"
proof -
  obtain st0 :: "int sorter" where st0: "new_sorter 64 2 ''k'' = Inr st0"
    by (simp add: new_sorter_def)
  have "sortable_schema ''k'' [(''k'', DInt True 64)]"
    by (simp add: sortable_schema_def min_row_bytes_def)
  moreover have "\<forall>b \<in> set [demo_rows [3, 1, 2]]. writable demo_arrow ''k'' (nat (64 div (2 * 2))) [(''k'', DInt True 64)] b"
    by (auto simp: writable_def demo_rows_def keyed_def fits_def demo_arrow_def)
  ultimately show ?thesis
    using external_sort_accepts [OF demo_arrow_laws(1,2,4) st0] st0 by blast
qed

end
