(* ===== verification/Output_Txn.thy ===== *)
theory Output_Txn
  imports Utf8 "HOL-Library.AList"
begin

text \<open>
  Output transactions: \<open>fileaccess/_output.py\<close> (strict policies, over directory descriptors), the directory
  stages of \<open>fileaccess/_local.py\<close> (the ambient policy, by path) and \<open>fileaccess/_component.py\<close>. The state is the
  directory that holds the target: a map from names to files and directories. What the operating
  system decides is an argument of each operation: the random stage name, an error a call may raise,
  and what a failed removal leaves behind.
\<close>

section \<open>Model\<close>

text \<open>A directory lists each name once.\<close>

type_synonym dir = "(string \<times> bytes) list"

datatype node = FileN bytes | DirN dir

type_synonym world = "string \<rightharpoonup> node"

datatype errno = EIO | ENOENT | EEXIST | ENOTEMPTY | ENOTDIR | EISDIR

datatype out_error = FileAccessUnavailable | FileAccessDenied | OsError errno | TableNameError

datatype policy = Strict | Ambient
datatype tx_kind = KFile | KDir
datatype tx_mode = Exclusive | Replace

record txn =
  tx_policy :: policy
  tx_leaf :: string
  tx_stage :: string
  tx_kind :: tx_kind
  tx_mode :: tx_mode
  tx_finished :: bool
  tx_file_created :: bool

definition MAX_COMPONENT_BYTES :: nat where "MAX_COMPONENT_BYTES = 255"

definition is_valid_component :: "string \<Rightarrow> bool" where
  "is_valid_component c \<longleftrightarrow> c \<noteq> [] \<and> c \<noteq> ''.'' \<and> c \<noteq> ''..'' \<and> CHR ''/'' \<notin> set c \<and> CHR 0x00 \<notin> set c \<and>
     length (utf8 c) \<le> MAX_COMPONENT_BYTES"

text \<open>\<open>_check\<close>: the strict stage validates the whole name, the ambient one leaves length and NUL to the
  operating system.\<close>

definition check_component :: "txn \<Rightarrow> string \<Rightarrow> out_error + unit" where
  "check_component t c =
     (if tx_finished t then Inl FileAccessUnavailable
      else case tx_policy t of
          Strict \<Rightarrow> require (is_valid_component c) FileAccessDenied
        | Ambient \<Rightarrow> require (c \<noteq> [] \<and> c \<noteq> ''.'' \<and> c \<noteq> ''..'' \<and> CHR ''/'' \<notin> set c) FileAccessDenied)"

definition stage_dir :: "txn \<Rightarrow> world \<Rightarrow> dir option" where
  "stage_dir t w = (case w (tx_stage t) of Some (DirN d) \<Rightarrow> Some d | _ \<Rightarrow> None)"

text \<open>\<open>begin\<close>: a directory stage is made at once, a file stage when its file is created. The strict policy
  opens the new directory as a second step; an error there (\<open>reopen\<close>) leaves the directory behind, since the
  transaction that would discard it was not built yet.\<close>

definition txn_begin ::
    "policy \<Rightarrow> string \<Rightarrow> tx_kind \<Rightarrow> tx_mode \<Rightarrow> string \<Rightarrow> out_error option \<Rightarrow> errno option \<Rightarrow> world \<Rightarrow>
      out_error \<times> world + txn \<times> world" where
  "txn_begin pol leaf kind mode stage io reopen w =
     (let t = \<lparr>tx_policy = pol, tx_leaf = leaf, tx_stage = stage, tx_kind = kind, tx_mode = mode, tx_finished = False,
               tx_file_created = False\<rparr> in
      case io of
        Some e \<Rightarrow> Inl (e, w)
      | None \<Rightarrow>
          if pol = Strict \<and> \<not> is_valid_component leaf then Inl (FileAccessDenied, w)
          else if kind = KFile then Inr (t, w)
          else if w stage \<noteq> None then Inl (OsError EEXIST, w)
          else case (pol, reopen) of
              (Strict, Some e) \<Rightarrow> Inl (OsError e, w(stage \<mapsto> DirN []))
            | _ \<Rightarrow> Inr (t, w(stage \<mapsto> DirN [])))"

text \<open>A file stage holds one file, at the stage's own name; a directory stage one file per component. The
  file is created exclusively and filled. A file stage counts as used once its creation is attempted.\<close>

definition create_file :: "string \<Rightarrow> bytes \<Rightarrow> errno option \<Rightarrow> txn \<Rightarrow> world \<Rightarrow> out_error \<times> txn + txn \<times> world" where
  "create_file c content io t w =
     and_then (on_error (\<lambda>e. (e, t)) (check_component t c)) (\<lambda>_.
       if tx_kind t = KFile then
         (if tx_file_created t then Inl (FileAccessUnavailable, t)
          else let t' = t\<lparr>tx_file_created := True\<rparr> in
            case io of
              Some e \<Rightarrow> Inl (OsError e, t')
            | None \<Rightarrow> if w (tx_stage t) \<noteq> None then Inl (OsError EEXIST, t')
                     else Inr (t', w(tx_stage t \<mapsto> FileN content)))
       else
         (case (io, stage_dir t w) of
            (Some e, _) \<Rightarrow> Inl (OsError e, t)
          | (None, None) \<Rightarrow> Inl (OsError ENOENT, t)
          | (None, Some d) \<Rightarrow> if map_of d c \<noteq> None then Inl (OsError EEXIST, t)
                             else Inr (t, w(tx_stage t \<mapsto> DirN (AList.update c content d)))))"

definition remove_file :: "string \<Rightarrow> errno option \<Rightarrow> txn \<Rightarrow> world \<Rightarrow> out_error + world" where
  "remove_file c io t w =
     and_then (check_component t c) (\<lambda>_.
       case (io, stage_dir t w) of
         (Some e, _) \<Rightarrow> Inl (OsError e)
       | (None, None) \<Rightarrow> Inl (OsError ENOENT)
       | (None, Some d) \<Rightarrow> if map_of d c \<noteq> None then Inr (w(tx_stage t \<mapsto> DirN (AList.delete c d))) else Inl (OsError ENOENT))"

definition open_file :: "string \<Rightarrow> errno option \<Rightarrow> txn \<Rightarrow> world \<Rightarrow> out_error + bytes" where
  "open_file c io t w =
     and_then (check_component t c) (\<lambda>_.
       case (io, stage_dir t w) of
         (Some e, _) \<Rightarrow> Inl (OsError e)
       | (None, None) \<Rightarrow> Inl (OsError ENOENT)
       | (None, Some d) \<Rightarrow> of_option (OsError ENOENT) (map_of d c))"

text \<open>\<open>rename(2)\<close> in one directory.\<close>

definition rename_node :: "string \<Rightarrow> string \<Rightarrow> world \<Rightarrow> errno + world" where
  "rename_node src dst w =
     (case w src of
        None \<Rightarrow> Inl ENOENT
      | Some (DirN d) \<Rightarrow>
          (case w dst of
             None \<Rightarrow> Inr (w(src := None, dst \<mapsto> DirN d))
           | Some (FileN _) \<Rightarrow> Inl ENOTDIR
           | Some (DirN d') \<Rightarrow> if d' = [] then Inr (w(src := None, dst \<mapsto> DirN d)) else Inl ENOTEMPTY)
      | Some (FileN b) \<Rightarrow>
          (case w dst of
             Some (DirN _) \<Rightarrow> Inl EISDIR
           | _ \<Rightarrow> Inr (w(src := None, dst \<mapsto> FileN b))))"

text \<open>\<open>_discard\<close>: what removal leaves of the stage, \<open>None\<close> when it works. Nothing is raised.\<close>

definition txn_abort :: "node option \<Rightarrow> txn \<Rightarrow> world \<Rightarrow> txn \<times> world" where
  "txn_abort left t w =
     (if tx_finished t then (t, w)
      else (t\<lparr>tx_finished := True\<rparr>, if w (tx_stage t) \<noteq> None then w(tx_stage t := left) else w))"

text \<open>\<open>publish\<close>. An exclusive file is linked and its stage name unlinked, which may fail (\<open>keep\<close>); everything
  else is one rename. An error leaves the stage for \<open>abort\<close>, except that a taken leaf discards an
  exclusive file stage.\<close>

definition txn_publish :: "errno option \<Rightarrow> bool \<Rightarrow> txn \<Rightarrow> world \<Rightarrow> (out_error \<times> txn \<times> world) + (txn \<times> world)" where
  "txn_publish io keep t w =
     (if tx_finished t \<or> tx_kind t = KFile \<and> \<not> tx_file_created t then Inl (FileAccessUnavailable, t, w)
      else if tx_kind t = KFile \<and> tx_mode t = Exclusive then
        (case (io, w (tx_stage t)) of
           (Some e, _) \<Rightarrow> Inl (OsError e, t, w)
         | (None, None) \<Rightarrow> Inl (OsError ENOENT, t, w)
         | (None, Some n) \<Rightarrow>
             if w (tx_leaf t) \<noteq> None
             then Inl (OsError EEXIST, txn_abort (if keep then Some n else None) t w)
             else Inr (t\<lparr>tx_finished := True\<rparr>, w(tx_leaf t \<mapsto> n, tx_stage t := (if keep then Some n else None))))
      else
        (case io of
           Some e \<Rightarrow> Inl (OsError e, t, w)
         | None \<Rightarrow>
             (case rename_node (tx_stage t) (tx_leaf t) w of
                Inl e \<Rightarrow> Inl (OsError e, t, w)
              | Inr w' \<Rightarrow> Inr (t\<lparr>tx_finished := True\<rparr>, w'))))"

text \<open>\<open>ensure_dir\<close>: make the target directory, or accept one that is there.\<close>

definition ensure_dir :: "policy \<Rightarrow> string \<Rightarrow> errno option \<Rightarrow> world \<Rightarrow> out_error + world" where
  "ensure_dir pol leaf io w =
     (case (io, w leaf) of
        (Some e, _) \<Rightarrow> Inl (case pol of Strict \<Rightarrow> FileAccessDenied | Ambient \<Rightarrow> OsError e)
      | (None, None) \<Rightarrow> Inr (w(leaf \<mapsto> DirN []))
      | (None, Some (DirN _)) \<Rightarrow> Inr w
      | (None, Some (FileN _)) \<Rightarrow> Inl (case pol of Strict \<Rightarrow> FileAccessDenied | Ambient \<Rightarrow> OsError EEXIST))"

definition is_empty_or_absent :: "string \<Rightarrow> world \<Rightarrow> out_error + bool" where
  "is_empty_or_absent leaf w =
     (case w leaf of
        None \<Rightarrow> Inr True
      | Some (DirN d) \<Rightarrow> Inr (d = [])
      | Some (FileN _) \<Rightarrow> Inl FileAccessDenied)"

end
