(* ===== verification/Transactional_Sink.thy ===== *)
theory Transactional_Sink
  imports Output_Txn
begin

text \<open>
  The Parquet sink of \<open>execution/_transactional_sink.py\<close> with the evidence it keeps
  (\<open>execution/_publication_observer.py\<close>), and the way \<open>run_sequential\<close> (\<open>execution/_sequential.py\<close>) drives a sink: write the
  tables in order, commit, and abort on any failure before the commit returned. A table's data is its
  Parquet serialization. Each operation takes what the operating system does to it.

  The protocol class \<open>TransactionalSink\<close> is the locale \<open>txn_sink\<close>: what a sink promises of the target it
  publishes to, and the driver's all-or-nothing guarantee proved from it. The Parquet sink is an
  instance.
\<close>

section \<open>Model\<close>

datatype publication_state = NOT_PUBLISHED | PUBLISHED | PARTIAL | STATE_UNKNOWN
datatype cleanup_state = NOT_NEEDED | ATTEMPTED | CONFIRMED | CLEANUP_FAILED | CLEANUP_UNKNOWN
datatype operation = OP_WRITE | OP_CLOSE | OP_COMMIT | OP_ABORT

record sink =
  sk_world :: world
  sk_policy :: policy
  sk_leaf :: string
  sk_txn :: "txn option"
  ev_state :: publication_state
  ev_cleanup :: cleanup_state
  ev_last :: "operation option"
  ev_stored :: "(string \<times> nat) list"

definition new_sink :: "policy \<Rightarrow> string \<Rightarrow> world \<Rightarrow> sink" where
  "new_sink pol leaf w = \<lparr>sk_world = w, sk_policy = pol, sk_leaf = leaf, sk_txn = None, ev_state = NOT_PUBLISHED,
     ev_cleanup = NOT_NEEDED, ev_last = None, ev_stored = []\<rparr>"

text \<open>What can go wrong in a write: at \<open>begin\<close> before or after the stage is made, at the removal of an earlier file of the table, while the
  file is created or filled (it then holds what was written so far), when the writer closes, and when
  the stored size is read.\<close>

record write_faults =
  wf_stage :: string
  wf_begin :: "out_error option"
  wf_reopen :: "errno option"
  wf_remove :: "errno option"
  wf_create :: "errno option"
  wf_fill :: "(errno \<times> bytes) option"
  wf_close :: "(errno \<times> bytes) option"
  wf_size :: "errno option"

text \<open>\<open>table == Path(table).name\<close> fails, without a separator, for the name of a single dot only.\<close>

fun has_dotdot :: "string \<Rightarrow> bool" where
  "has_dotdot (a # b # s) = (a = CHR ''.'' \<and> b = CHR ''.'' \<or> has_dotdot (b # s))"
| "has_dotdot _ = False"

definition valid_table_name :: "string \<Rightarrow> bool" where
  "valid_table_name table \<longleftrightarrow> CHR ''/'' \<notin> set table \<and> \<not> has_dotdot table \<and> table \<noteq> ''.''"

definition sink_stage :: "write_faults \<Rightarrow> sink \<Rightarrow> out_error \<times> sink + txn \<times> sink" where
  "sink_stage f s =
     (case sk_txn s of
        Some t \<Rightarrow> Inr (t, s)
      | None \<Rightarrow>
          (case txn_begin (sk_policy s) (sk_leaf s) KDir Exclusive (wf_stage f) (wf_begin f) (wf_reopen f) (sk_world s) of
             Inl (e, w) \<Rightarrow> Inl (e, s\<lparr>sk_world := w\<rparr>)
           | Inr (t, w) \<Rightarrow> Inr (t, s\<lparr>sk_txn := Some t, sk_world := w, ev_cleanup := CLEANUP_UNKNOWN\<rparr>)))"

definition replace_staged :: "write_faults \<Rightarrow> string \<Rightarrow> txn \<Rightarrow> sink \<Rightarrow> out_error \<times> sink + sink" where
  "replace_staged f c t s =
     (case remove_file c (wf_remove f) t (sk_world s) of
        Inl (OsError ENOENT) \<Rightarrow> Inr s
      | Inl e \<Rightarrow> Inl (e, s)
      | Inr w \<Rightarrow> Inr (s\<lparr>sk_world := w\<rparr>))"

definition component_of :: "string \<Rightarrow> string" where
  "component_of table = table @ ''.parquet''"

definition note_stored :: "write_faults \<Rightarrow> string \<Rightarrow> txn \<Rightarrow> sink \<Rightarrow> sink" where
  "note_stored f table t s =
     (case open_file (component_of table) (wf_size f) t (sk_world s) of
        Inl _ \<Rightarrow> s
      | Inr b \<Rightarrow> s\<lparr>ev_stored := AList.update table (length b) (ev_stored s)\<rparr>)"

text \<open>Create and fill the table's file, close it and note its size.\<close>

definition fill_table :: "bool \<Rightarrow> write_faults \<Rightarrow> string \<Rightarrow> bytes \<Rightarrow> txn \<Rightarrow> sink \<Rightarrow> out_error \<times> sink + sink" where
  "fill_table streamed f table data t s =
     (let s1 = s\<lparr>ev_last := Some OP_WRITE\<rparr>;
          content = (case wf_fill f of Some (e, b) \<Rightarrow> b | None \<Rightarrow> (case wf_close f of Some (e, b) \<Rightarrow> b | None \<Rightarrow> data)) in
      case create_file (component_of table) content (wf_create f) t (sk_world s1) of
        Inl (e, t') \<Rightarrow> Inl (e, s1)
      | Inr (t', w) \<Rightarrow>
          (let s2 = s\<lparr>ev_last := Some OP_WRITE, sk_world := w\<rparr>;
               s3 = (if streamed then s\<lparr>ev_last := Some OP_CLOSE, sk_world := w\<rparr> else s2) in
           case wf_fill f of
             Some (e, b) \<Rightarrow> Inl (OsError e, s2)
           | None \<Rightarrow> (case wf_close f of Some (e, b) \<Rightarrow> Inl (OsError e, s3) | None \<Rightarrow> Inr (note_stored f table t s3))))"

text \<open>\<open>write\<close>, and \<open>write_batches\<close> which also reports its closing step.\<close>

definition put_table :: "bool \<Rightarrow> write_faults \<Rightarrow> string \<Rightarrow> bytes \<Rightarrow> sink \<Rightarrow> out_error \<times> sink + sink" where
  "put_table streamed f table data s =
     (if \<not> valid_table_name table then Inl (TableNameError, s)
      else and_then (sink_stage f s) (\<lambda>(t, s1).
        and_then (replace_staged f (component_of table) t s1) (fill_table streamed f table data t)))"

definition sink_write :: "write_faults \<Rightarrow> string \<Rightarrow> bytes \<Rightarrow> sink \<Rightarrow> out_error \<times> sink + sink" where
  "sink_write = put_table False"

definition sink_write_batches :: "write_faults \<Rightarrow> string \<Rightarrow> bytes list \<Rightarrow> sink \<Rightarrow> out_error \<times> sink + sink" where
  "sink_write_batches f table parts s = put_table True f table (concat parts) s"

definition sink_commit :: "errno option \<Rightarrow> sink \<Rightarrow> out_error \<times> sink + sink" where
  "sink_commit io s =
     (let s = s\<lparr>ev_last := Some OP_COMMIT\<rparr> in
      case sk_txn s of
        None \<Rightarrow>
          (case ensure_dir (sk_policy s) (sk_leaf s) io (sk_world s) of
             Inl e \<Rightarrow> Inl (e, s\<lparr>ev_state := NOT_PUBLISHED, ev_cleanup := NOT_NEEDED\<rparr>)
           | Inr w \<Rightarrow> Inr (s\<lparr>sk_world := w, ev_state := PUBLISHED\<rparr>))
      | Some t \<Rightarrow>
          (case txn_publish io False t (sk_world s) of
             Inl (e, t', w) \<Rightarrow> Inl (e, s\<lparr>sk_txn := Some t', sk_world := w, ev_state := NOT_PUBLISHED, ev_cleanup := NOT_NEEDED\<rparr>)
           | Inr (t', w) \<Rightarrow> Inr (s\<lparr>sk_txn := None, sk_world := w, ev_state := PUBLISHED, ev_cleanup := NOT_NEEDED\<rparr>)))"

text \<open>\<open>abort\<close>: a strict stage has no path to look at, the ambient one is looked up after the removal.\<close>

definition sink_abort :: "node option \<Rightarrow> sink \<Rightarrow> sink" where
  "sink_abort left s =
     (case sk_txn s of
        None \<Rightarrow> s
      | Some t \<Rightarrow>
          (let (t', w) = txn_abort left t (sk_world s) in
           s\<lparr>sk_txn := None, sk_world := w,
             ev_cleanup := (case sk_policy s of Strict \<Rightarrow> ATTEMPTED
               | Ambient \<Rightarrow> if w (tx_stage t) \<noteq> None then CLEANUP_FAILED else CONFIRMED)\<rparr>))"

definition observed_commit :: "errno option \<Rightarrow> sink \<Rightarrow> out_error \<times> sink + sink" where
  "observed_commit io s = and_then (sink_commit io s) (\<lambda>s. Inr (s\<lparr>ev_state := PUBLISHED, ev_last := Some OP_COMMIT\<rparr>))"

definition observed_abort :: "node option \<Rightarrow> sink \<Rightarrow> sink" where
  "observed_abort left s = sink_abort left (s\<lparr>ev_last := Some OP_ABORT\<rparr>)"

subsection \<open>The driver\<close>

text \<open>\<open>run_sequential\<close>'s use of a sink: each table is masked, or fails, and is written; the evidence is sealed;
  the sink commits; the quarantine sidecar follows. A failure before the commit returned aborts the
  sink; one after it is reported as a partial publication and the tables stay.\<close>

datatype 'e outcome = RunOk | RunFailed 'e | RunPartial 'e

definition write_table :: "('f \<Rightarrow> string \<Rightarrow> 'd \<Rightarrow> 's \<Rightarrow> 'e \<times> 's + 's) \<Rightarrow> 's \<Rightarrow> string \<times> ('e + 'd) \<times> 'f \<Rightarrow> 'e \<times> 's + 's" where
  "write_table wr s item =
     (case item of (table, masked, f) \<Rightarrow>
        (case masked of Inl e \<Rightarrow> Inl (e, s) | Inr data \<Rightarrow> wr f table data s))"

definition drive_sink ::
    "('f \<Rightarrow> string \<Rightarrow> 'd \<Rightarrow> 's \<Rightarrow> 'e \<times> 's + 's) \<Rightarrow> ('s \<Rightarrow> 'e \<times> 's + 's) \<Rightarrow> ('s \<Rightarrow> 's) \<Rightarrow>
      (string \<times> ('e + 'd) \<times> 'f) list \<Rightarrow> 'e option \<Rightarrow> 'e option \<Rightarrow> 's \<Rightarrow> 'e outcome \<times> 's" where
  "drive_sink wr cm ab items seal sidecar s =
     (case fold_result (write_table wr) s items of
        Inl (e, s1) \<Rightarrow> (RunFailed e, ab s1)
      | Inr s1 \<Rightarrow>
          (case seal of
             Some e \<Rightarrow> (RunFailed e, ab s1)
           | None \<Rightarrow>
               (case cm s1 of
                  Inl (e, s2) \<Rightarrow> (RunFailed e, ab s2)
                | Inr s2 \<Rightarrow> (case sidecar of None \<Rightarrow> (RunOk, s2) | Some e \<Rightarrow> (RunPartial e, s2)))))"

text \<open>The tables a run means to publish; a table written twice is the later one.\<close>

definition tables_of :: "(string \<times> ('e + 'd) \<times> 'f) list \<Rightarrow> (string \<rightharpoonup> 'd) \<Rightarrow> string \<rightharpoonup> 'd" where
  "tables_of items m = foldl (\<lambda>m (table, masked, f). case masked of Inl e \<Rightarrow> m | Inr d \<Rightarrow> m(table \<mapsto> d)) m items"

section \<open>The protocol\<close>

locale txn_sink =
  fixes good :: "'s \<Rightarrow> bool"
    and usable :: "'s \<Rightarrow> 'f \<Rightarrow> bool"
    and wr :: "'f \<Rightarrow> string \<Rightarrow> 'd \<Rightarrow> 's \<Rightarrow> 'e \<times> 's + 's"
    and cm :: "'c \<Rightarrow> 's \<Rightarrow> 'e \<times> 's + 's"
    and ab :: "'a \<Rightarrow> 's \<Rightarrow> 's"
    and target :: "'s \<Rightarrow> 't"
    and staged :: "'s \<Rightarrow> string \<rightharpoonup> 'd"
    and holds :: "'t \<Rightarrow> (string \<rightharpoonup> 'd) \<Rightarrow> bool"
  assumes write_ok: "\<lbrakk>good s; usable s f; wr f table d s = Inr s'\<rbrakk> \<Longrightarrow>
      good s' \<and> target s' = target s \<and> staged s' = (staged s)(table \<mapsto> d) \<and> usable s' = usable s"
    and write_fails: "\<lbrakk>good s; usable s f; wr f table d s = Inl (e, s')\<rbrakk> \<Longrightarrow> good s' \<and> target s' = target s"
    and commit_ok: "\<lbrakk>good s; staged s \<noteq> Map.empty; cm c s = Inr s'\<rbrakk> \<Longrightarrow> holds (target s') (staged s)"
    and commit_fails: "\<lbrakk>good s; cm c s = Inl (e, s')\<rbrakk> \<Longrightarrow> good s' \<and> target s' = target s"
    and abort_keeps: "good s \<Longrightarrow> target (ab a s) = target s"
begin

lemma writes_ok:
  assumes "good s" and "\<forall>(table, masked, f) \<in> set items. usable s f" and "fold_result (write_table wr) s items = Inr s'"
  shows "good s' \<and> target s' = target s \<and> staged s' = tables_of items (staged s)"
  using assms
proof (induction items arbitrary: s)
  case (Cons item items)
  obtain table masked f where item: "item = (table, masked, f)"
    by (cases item)
  obtain s1 where s1: "write_table wr s item = Inr s1" and rest: "fold_result (write_table wr) s1 items = Inr s'"
    using Cons.prems(3) by (auto simp: result_simps)
  then obtain d where d: "masked = Inr d" "wr f table d s = Inr s1"
    using item by (auto simp: write_table_def split: sum.splits)
  note w = write_ok [OF Cons.prems(1) _ d(2)]
  have "good s' \<and> target s' = target s1 \<and> staged s' = tables_of items (staged s1)"
    using Cons.IH [of s1] w Cons.prems(2) rest item by auto
  then show ?case
    using w Cons.prems(2) item d(1) by (auto simp: tables_of_def)
qed (simp add: tables_of_def)

lemma writes_fail:
  assumes "good s" and "\<forall>(table, masked, f) \<in> set items. usable s f" and "fold_result (write_table wr) s items = Inl (e, s')"
  shows "good s' \<and> target s' = target s"
  using assms
proof (induction items arbitrary: s)
  case (Cons item items)
  obtain table masked f where item: "item = (table, masked, f)"
    by (cases item)
  show ?case
  proof (cases "write_table wr s item")
    case (Inl r)
    then show ?thesis
      using Cons.prems item write_fails by (cases masked) (auto simp: write_table_def)
  next
    case (Inr s1)
    then obtain d where d: "masked = Inr d" "wr f table d s = Inr s1"
      using item by (auto simp: write_table_def split: sum.splits)
    note w = write_ok [OF Cons.prems(1) _ d(2)]
    show ?thesis
      using Cons.IH [of s1] w Cons.prems(2,3) Inr item by auto
  qed
qed simp

lemma all_or_nothing:
  assumes "good s" and "\<forall>(table, masked, f) \<in> set items. usable s f" and "tables_of items (staged s) \<noteq> Map.empty"
    and "drive_sink wr (cm c) (ab a) items seal sidecar s = (out, s')"
  shows "case out of RunFailed e \<Rightarrow> target s' = target s | _ \<Rightarrow> holds (target s') (tables_of items (staged s))"
proof (cases "fold_result (write_table wr) s items")
  case (Inl r)
  then show ?thesis
    using writes_fail [OF assms(1,2)] abort_keeps assms(4) by (cases r) (auto simp: drive_sink_def)
next
  case (Inr s1)
  note w = writes_ok [OF assms(1,2) Inr]
  show ?thesis
  proof (cases seal)
    case (Some e)
    then show ?thesis
      using w Inr abort_keeps assms(4) by (auto simp: drive_sink_def)
  next
    case None
    show ?thesis
    proof (cases "cm c s1")
      case Inl2: (Inl r)
      then show ?thesis
        using w Inr None abort_keeps commit_fails [of s1 c] assms(4) by (cases r) (auto simp: drive_sink_def)
    next
      case Inr2: (Inr s2)
      then show ?thesis
        using w Inr None commit_ok [of s1 c s2] assms(3,4) by (auto simp: drive_sink_def split: option.splits)
    qed
  qed
qed

end

section \<open>The Parquet sink\<close>

text \<open>Until a commit returns, the parent directory is the one the sink found, plus the stage.\<close>

definition parquet_names :: "dir \<Rightarrow> bool" where
  "parquet_names d \<longleftrightarrow> distinct (map fst d) \<and> (\<forall>c \<in> fst ` set d. \<exists>table. c = component_of table)"

definition sink_inv :: "world \<Rightarrow> sink \<Rightarrow> bool" where
  "sink_inv w0 s \<longleftrightarrow>
     (case sk_txn s of
        None \<Rightarrow> sk_world s = w0
      | Some t \<Rightarrow> \<not> tx_finished t \<and> tx_kind t = KDir \<and> tx_leaf t = sk_leaf s \<and> tx_stage t \<noteq> sk_leaf s \<and> w0 (tx_stage t) = None \<and>
          (\<exists>d. sk_world s = w0(tx_stage t \<mapsto> DirN d) \<and> parquet_names d))"

definition sink_target :: "sink \<Rightarrow> node option" where
  "sink_target s = sk_world s (sk_leaf s)"

definition sink_staged :: "sink \<Rightarrow> string \<rightharpoonup> bytes" where
  "sink_staged s =
     (case sk_txn s of
        None \<Rightarrow> Map.empty
      | Some t \<Rightarrow> (case stage_dir t (sk_world s) of None \<Rightarrow> Map.empty | Some d \<Rightarrow> map_of d \<circ> component_of))"

text \<open>The published directory holds exactly the Parquet files of these tables.\<close>

definition holds_tables :: "node option \<Rightarrow> (string \<rightharpoonup> bytes) \<Rightarrow> bool" where
  "holds_tables n m \<longleftrightarrow> (\<exists>d. n = Some (DirN d) \<and> parquet_names d \<and> map_of d \<circ> component_of = m)"

lemma component_of_eq [simp]: "component_of a = component_of b \<longleftrightarrow> a = b"
  by (simp add: component_of_def)

lemma parquet_names_update: "parquet_names d \<Longrightarrow> parquet_names (AList.update (component_of t) b d)"
  by (auto simp: parquet_names_def distinct_update dom_update)

lemma parquet_names_delete: "parquet_names d \<Longrightarrow> parquet_names (AList.delete c d)"
proof -
  have "set (map fst (AList.delete c d)) = set (map fst d) - {c}"
    by (simp only: delete_keys set_removeAll)
  then show "parquet_names d \<Longrightarrow> parquet_names (AList.delete c d)"
    by (auto simp: parquet_names_def distinct_delete)
qed

lemma comp_empty [simp]: "Map.empty \<circ> f = Map.empty"
  by (simp add: comp_def)

text \<open>The stage's directory and the sink that holds it.\<close>

definition staging :: "world \<Rightarrow> txn \<Rightarrow> dir \<Rightarrow> sink \<Rightarrow> bool" where
  "staging w0 t d s \<longleftrightarrow> sk_txn s = Some t \<and> \<not> tx_finished t \<and> tx_kind t = KDir \<and> tx_leaf t = sk_leaf s \<and>
     tx_stage t \<noteq> sk_leaf s \<and> w0 (tx_stage t) = None \<and> sk_world s = w0(tx_stage t \<mapsto> DirN d) \<and> parquet_names d"

lemma sink_inv_staging: "sink_inv w0 s \<longleftrightarrow> sk_txn s = None \<and> sk_world s = w0 \<or> (\<exists>t d. staging w0 t d s)"
  by (auto simp: sink_inv_def staging_def split: option.splits)

lemma staging_facts:
  "staging w0 t d s \<Longrightarrow> sink_staged s = map_of d \<circ> component_of \<and> sink_target s = w0 (sk_leaf s) \<and> stage_dir t (sk_world s) = Some d"
  by (auto simp: staging_def sink_staged_def sink_target_def stage_dir_def)

text \<open>What no write changes.\<close>

definition sink_frame :: "sink \<Rightarrow> string \<times> policy \<times> publication_state" where
  "sink_frame s = (sk_leaf s, sk_policy s, ev_state s)"

text \<open>The stage is reopened without an error, where the policy reopens it.\<close>

definition reopens :: "policy \<Rightarrow> write_faults \<Rightarrow> bool" where
  "reopens pol f \<longleftrightarrow> pol = Ambient \<or> wf_reopen f = None"

lemma sink_stage_ok:
  assumes "sink_inv w0 s" and "wf_stage f \<noteq> sk_leaf s"
  shows "sink_stage f s = Inr (t, s') \<Longrightarrow>
      \<exists>d. staging w0 t d s' \<and> map_of d \<circ> component_of = sink_staged s \<and> sink_frame s' = sink_frame s"
    and "sink_stage f s = Inl (e, s') \<Longrightarrow>
      (\<exists>w1. sink_inv w1 s' \<and> w1 (sk_leaf s) = w0 (sk_leaf s)) \<and> (reopens (sk_policy s) f \<longrightarrow> s' = s) \<and> sink_frame s' = sink_frame s"
proof -
  show "(\<exists>w1. sink_inv w1 s' \<and> w1 (sk_leaf s) = w0 (sk_leaf s)) \<and> (reopens (sk_policy s) f \<longrightarrow> s' = s) \<and> sink_frame s' = sink_frame s"
    if "sink_stage f s = Inl (e, s')"
    using that assms
    by (auto simp: sink_stage_def txn_begin_def sink_inv_def sink_frame_def reopens_def Let_def
        split: option.splits sum.splits if_splits policy.splits)
  assume r: "sink_stage f s = Inr (t, s')"
  show "\<exists>d. staging w0 t d s' \<and> map_of d \<circ> component_of = sink_staged s \<and> sink_frame s' = sink_frame s"
  proof (cases "sk_txn s")
    case None
    then have "staging w0 t [] s'" "sink_frame s' = sink_frame s" "sink_staged s = Map.empty"
      using r assms by (auto simp: sink_stage_def txn_begin_def sink_inv_def staging_def sink_staged_def parquet_names_def Let_def
          sink_frame_def split: option.splits sum.splits if_splits policy.splits)
    then show ?thesis
      by (intro exI [of _ "[]"]) simp
  next
    case (Some t0)
    then obtain d where d: "staging w0 t0 d s"
      using assms(1) by (auto simp: sink_inv_staging staging_def)
    moreover have "t = t0" "s' = s"
      using r Some by (simp_all add: sink_stage_def)
    ultimately show ?thesis
      using staging_facts [OF d] by auto
  qed
qed

lemma replace_staged_ok:
  assumes "staging w0 t d s"
  shows "replace_staged f c t s = Inr s' \<Longrightarrow>
      \<exists>d'. staging w0 t d' s' \<and> (\<forall>b. (map_of d')(c \<mapsto> b) = (map_of d)(c \<mapsto> b)) \<and> sink_frame s' = sink_frame s"
    and "replace_staged f c t s = Inl (e, s') \<Longrightarrow> s' = s"
proof -
  show "replace_staged f c t s = Inl (e, s') \<Longrightarrow> s' = s"
    by (auto simp: replace_staged_def split: sum.splits out_error.splits errno.splits)
  assume r: "replace_staged f c t s = Inr s'"
  show "\<exists>d'. staging w0 t d' s' \<and> (\<forall>b. (map_of d')(c \<mapsto> b) = (map_of d)(c \<mapsto> b)) \<and> sink_frame s' = sink_frame s"
  proof (cases "remove_file c (wf_remove f) t (sk_world s)")
    case (Inl e)
    then have "s' = s"
      using r by (auto simp: replace_staged_def split: out_error.splits errno.splits)
    then show ?thesis
      using assms by blast
  next
    case (Inr w)
    then have w: "w = (sk_world s)(tx_stage t \<mapsto> DirN (AList.delete c d))" and s': "s' = s\<lparr>sk_world := w\<rparr>"
      using r staging_facts [OF assms]
      by (auto simp: replace_staged_def remove_file_def result_simps split: option.splits if_splits)
    then have "staging w0 t (AList.delete c d) s'"
      using assms by (auto simp: staging_def intro: parquet_names_delete)
    then show ?thesis
      using s' by (intro exI [of _ "AList.delete c d"]) (simp add: delete_conv' sink_frame_def)
  qed
qed

lemma fill_table_ok:
  assumes "staging w0 t d s"
  shows "fill_table streamed f table data t s = Inr s' \<Longrightarrow>
      \<exists>d'. staging w0 t d' s' \<and> map_of d' = (map_of d)(component_of table \<mapsto> data) \<and> sink_frame s' = sink_frame s"
    and "fill_table streamed f table data t s = Inl (e, s') \<Longrightarrow> (\<exists>d'. staging w0 t d' s') \<and> sink_frame s' = sink_frame s"
proof -
  define content where "content = (case wf_fill f of Some (e, b) \<Rightarrow> b | None \<Rightarrow> (case wf_close f of Some (e, b) \<Rightarrow> b | None \<Rightarrow> data))"
  let ?d = "AList.update (component_of table) content d"
  have noted: "staging w0 t d' (note_stored f table t u) = staging w0 t d' u"
      "sink_frame (note_stored f table t u) = sink_frame u" for d' u
    by (auto simp: note_stored_def staging_def sink_frame_def split: sum.splits)
  have frame: "sink_frame (s\<lparr>ev_last := l, sk_world := w\<rparr>) = sink_frame s" for l w
    by (simp add: sink_frame_def)
  have made: "staging w0 t ?d (s\<lparr>ev_last := l, sk_world := w\<rparr>)"
    if "create_file (component_of table) content (wf_create f) t (sk_world s) = Inr (t', w)" for l t' w
    using that assms staging_facts [OF assms] parquet_names_update [of d table content]
    by (auto simp: create_file_def staging_def result_simps split: option.splits if_splits)
  show "\<exists>d'. staging w0 t d' s' \<and> map_of d' = (map_of d)(component_of table \<mapsto> data) \<and> sink_frame s' = sink_frame s"
    if r: "fill_table streamed f table data t s = Inr s'"
  proof (intro exI [of _ ?d] conjI)
    obtain t' w l where c: "create_file (component_of table) content (wf_create f) t (sk_world s) = Inr (t', w)"
      and s': "s' = note_stored f table t (s\<lparr>ev_last := l, sk_world := w\<rparr>)" and data: "content = data"
      using r by (auto simp: fill_table_def content_def [symmetric] Let_def split: sum.splits option.splits if_splits)
        (auto simp: content_def)
    show "staging w0 t ?d s'" "sink_frame s' = sink_frame s"
      using made [OF c] s' noted frame by simp_all
    show "map_of ?d = (map_of d)(component_of table \<mapsto> data)"
      by (simp add: update_conv' data)
  qed
  show "(\<exists>d'. staging w0 t d' s') \<and> sink_frame s' = sink_frame s"
    if r: "fill_table streamed f table data t s = Inl (e, s')"
  proof (cases "create_file (component_of table) content (wf_create f) t (sk_world s)")
    case (Inl e')
    then have "s' = s\<lparr>ev_last := Some OP_WRITE\<rparr>"
      using r by (cases e') (simp add: fill_table_def content_def [symmetric] Let_def)
    then show ?thesis
      using assms by (auto simp: staging_def sink_frame_def)
  next
    case (Inr tw)
    obtain t' w where tw: "tw = (t', w)"
      by (cases tw)
    then obtain l where "s' = s\<lparr>ev_last := l, sk_world := w\<rparr>"
      using r Inr by (auto simp: fill_table_def content_def [symmetric] Let_def split: option.splits if_splits)
    then show ?thesis
      using made Inr tw frame by auto
  qed
qed

lemma put_table_ok:
  assumes "sink_inv w0 s" and "wf_stage f \<noteq> sk_leaf s"
  shows "put_table streamed f table data s = Inr s' \<Longrightarrow> sink_inv w0 s' \<and> sk_txn s' \<noteq> None \<and>
      sink_staged s' = (sink_staged s)(table \<mapsto> data) \<and> sink_frame s' = sink_frame s"
    and "put_table streamed f table data s = Inl (e, s') \<Longrightarrow>
      (\<exists>w1. sink_inv w1 s' \<and> w1 (sk_leaf s) = w0 (sk_leaf s) \<and>
        (reopens (sk_policy s) f \<longrightarrow> w1 = w0 \<and> (sk_txn s' = None \<longrightarrow> s' = s))) \<and> sink_frame s' = sink_frame s"
proof -
  show "sink_inv w0 s' \<and> sk_txn s' \<noteq> None \<and> sink_staged s' = (sink_staged s)(table \<mapsto> data) \<and> sink_frame s' = sink_frame s"
    if r: "put_table streamed f table data s = Inr s'"
  proof -
    obtain t s1 s2 where st: "sink_stage f s = Inr (t, s1)" "replace_staged f (component_of table) t s1 = Inr s2"
        "fill_table streamed f table data t s2 = Inr s'"
      using r by (auto simp: put_table_def result_simps split: if_splits)
    obtain d1 where d1: "staging w0 t d1 s1" "map_of d1 \<circ> component_of = sink_staged s" "sink_frame s1 = sink_frame s"
      using sink_stage_ok(1) [OF assms st(1)] by blast
    obtain d2 where d2: "staging w0 t d2 s2" "(map_of d2)(component_of table \<mapsto> data) = (map_of d1)(component_of table \<mapsto> data)"
        "sink_frame s2 = sink_frame s1"
      using replace_staged_ok(1) [OF d1(1) st(2)] by blast
    obtain d3 where d3: "staging w0 t d3 s'" "map_of d3 = (map_of d2)(component_of table \<mapsto> data)" "sink_frame s' = sink_frame s2"
      using fill_table_ok(1) [OF d2(1) st(3)] by blast
    have "sink_staged s' = (map_of d1)(component_of table \<mapsto> data) \<circ> component_of"
      using staging_facts [OF d3(1)] d3(2) d2(2) by simp
    also have "\<dots> = (sink_staged s)(table \<mapsto> data)"
      using d1(2) by (auto simp: fun_eq_iff)
    finally show ?thesis
      using d1(3) d2(3) d3 by (auto simp: sink_inv_staging staging_def)
  qed
  show "(\<exists>w1. sink_inv w1 s' \<and> w1 (sk_leaf s) = w0 (sk_leaf s) \<and>
        (reopens (sk_policy s) f \<longrightarrow> w1 = w0 \<and> (sk_txn s' = None \<longrightarrow> s' = s))) \<and> sink_frame s' = sink_frame s"
    if r: "put_table streamed f table data s = Inl (e, s')"
  proof (cases "valid_table_name table \<and> (\<exists>r1. sink_stage f s = Inr r1)")
    case False
    then have "s' = s \<or> sink_stage f s = Inl (e, s')"
      using r by (cases "sink_stage f s") (auto simp: put_table_def split: if_splits)
    then show ?thesis
      using assms(1) sink_stage_ok(2) [OF assms, of e s'] by (cases "reopens (sk_policy s) f") auto
  next
    case True
    then obtain t s1 where st: "sink_stage f s = Inr (t, s1)"
      by auto
    obtain d1 where d1: "staging w0 t d1 s1" "sink_frame s1 = sink_frame s"
      using sink_stage_ok(1) [OF assms st] by blast
    show ?thesis
    proof (cases "replace_staged f (component_of table) t s1")
      case (Inl r2)
      then have "s' = s1"
        using r True st replace_staged_ok(2) [OF d1(1)] by (cases r2) (auto simp: put_table_def)
      then have "sink_inv w0 s'" "sk_txn s' \<noteq> None" "sink_frame s' = sink_frame s"
        using d1 by (auto simp: sink_inv_staging staging_def)
      then show ?thesis
        by (intro conjI exI [of _ w0]) auto
    next
      case (Inr s2)
      then obtain d2 where d2: "staging w0 t d2 s2" "sink_frame s2 = sink_frame s1"
        using replace_staged_ok(1) [OF d1(1)] by blast
      then have "(\<exists>d'. staging w0 t d' s') \<and> sink_frame s' = sink_frame s"
        using fill_table_ok(2) [OF d2(1), of streamed f table data e s'] r True st Inr d1 by (simp add: put_table_def)
      moreover have "\<exists>d'. staging w0 t d' s' \<Longrightarrow> sink_inv w0 s' \<and> sk_txn s' \<noteq> None"
        by (auto simp: sink_inv_staging staging_def)
      ultimately have "sink_inv w0 s'" "sk_txn s' \<noteq> None" "sink_frame s' = sink_frame s"
        by simp_all
      then show ?thesis
        by (intro conjI exI [of _ w0]) auto
    qed
  qed
qed

text \<open>A failed commit changes nothing but the evidence; a returned one makes the stage the target.\<close>

lemma sink_commit_fails:
  assumes "sink_inv w0 s" and "sink_commit io s = Inl (e, s')"
  shows "sink_inv w0 s' \<and> sk_leaf s' = sk_leaf s \<and> ev_state s' = NOT_PUBLISHED \<and> (sk_txn s' = None \<longleftrightarrow> sk_txn s = None) \<and> sk_policy s' = sk_policy s"
proof (cases "sk_txn s")
  case None
  then show ?thesis
    using assms by (auto simp: sink_commit_def sink_inv_def Let_def split: sum.splits)
next
  case (Some t)
  then have t: "\<not> tx_finished t" "tx_kind t = KDir"
    using assms(1) by (auto simp: sink_inv_def)
  then have "txn_publish io False t (sk_world s) = Inl (x, t', w') \<Longrightarrow> t' = t \<and> w' = sk_world s" for x t' w'
    by (auto simp: txn_publish_def split: option.splits sum.splits)
  then show ?thesis
    using assms Some by (fastforce simp: sink_commit_def sink_inv_def Let_def split: sum.splits)
qed

lemma sink_commit_returns:
  assumes "staging w0 t d s" and "sink_commit io s = Inr s'"
  shows "sk_world s' = w0(sk_leaf s \<mapsto> DirN d) \<and> sk_txn s' = None \<and> sk_leaf s' = sk_leaf s \<and> ev_state s' = PUBLISHED \<and> ev_cleanup s' = NOT_NEEDED"
proof -
  have t: "sk_txn s = Some t" "\<not> tx_finished t" "tx_kind t = KDir" "tx_leaf t = sk_leaf s" "tx_stage t \<noteq> sk_leaf s"
      "w0 (tx_stage t) = None" "sk_world s = w0(tx_stage t \<mapsto> DirN d)"
    using assms(1) by (auto simp: staging_def)
  have undo: "(w0(tx_stage t \<mapsto> DirN d))(tx_stage t := None, sk_leaf s \<mapsto> n) = w0(sk_leaf s \<mapsto> n)" for n
    using t(6) by (auto simp: fun_eq_iff)
  have "txn_publish io False t (sk_world s) = Inr (t', w') \<Longrightarrow> w' = w0(sk_leaf s \<mapsto> DirN d)" for t' w'
    using t undo by (auto simp: txn_publish_def rename_node_def split: option.splits sum.splits node.splits if_splits)
  then show ?thesis
    using assms(2) t(1) by (auto simp: sink_commit_def Let_def split: sum.splits)
qed

interpretation parquet: txn_sink "\<lambda>s. \<exists>w0. sink_inv w0 s" "\<lambda>s f. wf_stage f \<noteq> sk_leaf s" sink_write observed_commit observed_abort
  sink_target sink_staged holds_tables
proof
  have tgt: "sink_inv w0 s \<Longrightarrow> sink_target s = w0 (sk_leaf s)" for w0 s
    by (auto simp: sink_inv_def sink_target_def split: option.splits)
  show "(\<exists>w0. sink_inv w0 s') \<and> sink_target s' = sink_target s \<and> sink_staged s' = (sink_staged s)(table \<mapsto> d) \<and>
      (\<lambda>f. wf_stage f \<noteq> sk_leaf s') = (\<lambda>f. wf_stage f \<noteq> sk_leaf s)"
    if "\<exists>w0. sink_inv w0 s" "wf_stage f \<noteq> sk_leaf s" "sink_write f table d s = Inr s'" for s f table d s'
    using that put_table_ok(1) tgt unfolding sink_write_def sink_frame_def by (metis prod.inject)
  show "(\<exists>w0. sink_inv w0 s') \<and> sink_target s' = sink_target s"
    if "\<exists>w0. sink_inv w0 s" "wf_stage f \<noteq> sk_leaf s" "sink_write f table d s = Inl (e, s')" for s f table d e s'
    using that put_table_ok(2) tgt unfolding sink_write_def sink_frame_def by (metis prod.inject)
  show "holds_tables (sink_target s') (sink_staged s)"
    if inv: "\<exists>w0. sink_inv w0 s" and some: "sink_staged s \<noteq> Map.empty" and cm: "observed_commit c s = Inr s'" for s c s'
  proof -
    obtain s1 where s1: "sink_commit c s = Inr s1" "s' = s1\<lparr>ev_state := PUBLISHED, ev_last := Some OP_COMMIT\<rparr>"
      using cm by (auto simp: observed_commit_def result_simps)
    obtain w0 t d where d: "staging w0 t d s"
      using inv some by (auto simp: sink_inv_staging sink_staged_def)
    then have "parquet_names d"
      by (simp add: staging_def)
    then show ?thesis
      using sink_commit_returns [OF d s1(1)] staging_facts [OF d] s1(2) by (simp add: holds_tables_def sink_target_def)
  qed
  show "(\<exists>w0. sink_inv w0 s') \<and> sink_target s' = sink_target s"
    if "\<exists>w0. sink_inv w0 s" "observed_commit c s = Inl (e, s')" for s c e s'
    using that sink_commit_fails tgt by (metis (no_types, lifting) and_then_eq_Inl observed_commit_def sum.distinct(1))
  show "sink_target (observed_abort a s) = sink_target s" if "\<exists>w0. sink_inv w0 s" for a s
    using that by (auto simp: observed_abort_def sink_abort_def sink_inv_def sink_target_def txn_abort_def Let_def split: option.splits)
qed

subsection \<open>The evidence\<close>

text \<open>Before the commit the evidence says that nothing is published, and that no cleanup is due as long as
  there is no stage.\<close>

definition unpublished :: "world \<Rightarrow> policy \<Rightarrow> string \<Rightarrow> sink \<Rightarrow> bool" where
  "unpublished w0 pol leaf s \<longleftrightarrow>
     sink_inv w0 s \<and> sk_policy s = pol \<and> sk_leaf s = leaf \<and> ev_state s = NOT_PUBLISHED \<and> (sk_txn s = None \<longrightarrow> ev_cleanup s = NOT_NEEDED)"

lemma unpublished_new: "unpublished w pol leaf (new_sink pol leaf w)"
  by (simp add: unpublished_def new_sink_def sink_inv_def)

lemma write_table_unpublished:
  assumes "unpublished w0 pol leaf s" and "case item of (table, masked, f) \<Rightarrow> wf_stage f \<noteq> leaf \<and> reopens pol f"
  shows "write_table sink_write s item = Inr s' \<Longrightarrow> unpublished w0 pol leaf s'"
    and "write_table sink_write s item = Inl (e, s') \<Longrightarrow> unpublished w0 pol leaf s'"
proof -
  obtain table masked f where item: "item = (table, masked, f)"
    by (cases item)
  have s: "sink_inv w0 s" "wf_stage f \<noteq> sk_leaf s" and f: "reopens pol f"
    using assms item by (simp_all add: unpublished_def)
  have puts: "put_table False f table d s = Inr s' \<Longrightarrow> unpublished w0 pol leaf s'"
      "put_table False f table d s = Inl (e, s') \<Longrightarrow> unpublished w0 pol leaf s'" for d
    using put_table_ok(1) [OF s, of False table d s'] put_table_ok(2) [OF s, of False table d e s'] assms(1) f
    by (auto simp: unpublished_def sink_frame_def)
  show "write_table sink_write s item = Inr s' \<Longrightarrow> unpublished w0 pol leaf s'"
    using puts(1) item by (cases masked) (auto simp: write_table_def sink_write_def)
  show "write_table sink_write s item = Inl (e, s') \<Longrightarrow> unpublished w0 pol leaf s'"
    using puts(2) assms(1) item by (cases masked) (auto simp: write_table_def sink_write_def)
qed

lemma writes_unpublished:
  assumes "unpublished w0 pol leaf s" and "\<forall>(table, masked, f) \<in> set items. wf_stage f \<noteq> leaf \<and> reopens pol f"
  shows "case fold_result (write_table sink_write) s items of Inl (e, s') \<Rightarrow> unpublished w0 pol leaf s' | Inr s' \<Rightarrow> unpublished w0 pol leaf s'"
  using assms
proof (induction items arbitrary: s)
  case (Cons item items)
  have item: "case item of (table, masked, f) \<Rightarrow> wf_stage f \<noteq> leaf \<and> reopens pol f"
    using Cons.prems(2) by (auto split: prod.splits)
  show ?case
  proof (cases "write_table sink_write s item")
    case (Inl r)
    then show ?thesis
      using write_table_unpublished(2) [OF Cons.prems(1) item] by (cases r) simp
  next
    case (Inr s1)
    then have "unpublished w0 pol leaf s1"
      using write_table_unpublished(1) [OF Cons.prems(1) item] by blast
    then show ?thesis
      using Cons.IH [of s1] Cons.prems(2) Inr by simp
  qed
qed simp

lemma abort_evidence:
  assumes "sink_inv w0 s" "ev_state s = NOT_PUBLISHED" "sk_txn s = None \<longrightarrow> ev_cleanup s = NOT_NEEDED"
  shows "ev_state (observed_abort left s) = NOT_PUBLISHED \<and>
    (ev_cleanup (observed_abort left s) \<in> {NOT_NEEDED, CONFIRMED} \<longrightarrow> sk_world (observed_abort left s) = w0)"
proof (cases "sk_txn s")
  case None
  then show ?thesis
    using assms by (simp add: observed_abort_def sink_abort_def sink_inv_def)
next
  case (Some t)
  then obtain d where "w0 (tx_stage t) = None" "sk_world s = w0(tx_stage t \<mapsto> DirN d)" "\<not> tx_finished t"
    using assms(1) by (auto simp: sink_inv_def)
  then show ?thesis
    using assms(2) Some by (auto simp: observed_abort_def sink_abort_def txn_abort_def Let_def fun_eq_iff split: policy.splits if_splits)
qed

lemma commit_evidence:
  assumes "unpublished w0 pol leaf s"
  shows "observed_commit io s = Inl (e, s') \<Longrightarrow>
      sink_inv w0 s' \<and> ev_state s' = NOT_PUBLISHED \<and> (sk_txn s' = None \<longrightarrow> ev_cleanup s' = NOT_NEEDED)"
    and "observed_commit io s = Inr s' \<Longrightarrow>
      ev_state s' = PUBLISHED \<and> ev_cleanup s' = NOT_NEEDED \<and> sk_txn s' = None \<and> (\<exists>d. sk_world s' = w0(leaf \<mapsto> DirN d))"
proof -
  have s: "sink_inv w0 s" "sk_leaf s = leaf" "sk_txn s = None \<longrightarrow> ev_cleanup s = NOT_NEEDED"
    using assms by (auto simp: unpublished_def)
  show "sink_inv w0 s' \<and> ev_state s' = NOT_PUBLISHED \<and> (sk_txn s' = None \<longrightarrow> ev_cleanup s' = NOT_NEEDED)"
    if "observed_commit io s = Inl (e, s')"
  proof -
    have c: "sink_commit io s = Inl (e, s')"
      using that by (simp add: observed_commit_def result_simps)
    then have "ev_cleanup s' = NOT_NEEDED"
      by (auto simp: sink_commit_def Let_def split: option.splits sum.splits)
    then show ?thesis
      using sink_commit_fails [OF s(1) c] by simp
  qed
  assume "observed_commit io s = Inr s'"
  then obtain s1 where c: "sink_commit io s = Inr s1" and s': "s' = s1\<lparr>ev_state := PUBLISHED, ev_last := Some OP_COMMIT\<rparr>"
    by (auto simp: observed_commit_def result_simps)
  show "ev_state s' = PUBLISHED \<and> ev_cleanup s' = NOT_NEEDED \<and> sk_txn s' = None \<and> (\<exists>d. sk_world s' = w0(leaf \<mapsto> DirN d))"
  proof (cases "sk_txn s")
    case None
    have "ensure_dir p l x w = Inr w' \<Longrightarrow> \<exists>d. w' = w(l \<mapsto> DirN d)" for p l x w w'
      by (fastforce simp: ensure_dir_def fun_upd_idem split: option.splits node.splits)
    then show ?thesis
      using None s c s' by (fastforce simp: sink_commit_def sink_inv_def Let_def split: sum.splits)
  next
    case (Some t)
    then obtain d where "staging w0 t d s"
      using s(1) by (auto simp: sink_inv_staging staging_def)
    then show ?thesis
      using sink_commit_returns c s' s(2) by auto
  qed
qed

section \<open>Properties\<close>

text \<open>C8. A run publishes all of its tables or none. Whatever fails, a table's masking, a write at any
  point, the evidence seal, the commit itself, the target is afterwards what it was before the run.
  When the run does not fail before its commit, the target is a directory that holds exactly one
  Parquet file per table, with the data of that table's last write. The stage names are taken to
  differ from the target's name.\<close>

theorem sink_all_or_nothing:
  assumes "\<forall>(table, masked, f) \<in> set items. wf_stage f \<noteq> leaf" and "tables_of items Map.empty \<noteq> Map.empty"
    and "drive_sink sink_write (observed_commit io) (observed_abort left) items seal sidecar (new_sink pol leaf w) = (out, s')"
  shows "case out of RunFailed e \<Rightarrow> sink_target s' = w leaf | _ \<Rightarrow> holds_tables (sink_target s') (tables_of items Map.empty)"
proof -
  let ?s = "new_sink pol leaf w"
  have s: "sink_inv w ?s" "sk_leaf ?s = leaf" "sink_staged ?s = Map.empty" "sink_target ?s = w leaf"
    by (simp_all add: new_sink_def sink_inv_def sink_staged_def sink_target_def)
  show ?thesis
    using parquet.all_or_nothing [of ?s items io left seal sidecar out s'] assms s(1) unfolding s(2-4) by blast
qed

definition demo_faults :: write_faults where
  "demo_faults = \<lparr>wf_stage = ''_decoy_stage_1'', wf_begin = None, wf_reopen = None, wf_remove = None, wf_create = None, wf_fill = None,
     wf_close = None, wf_size = None\<rparr>"

definition demo_items :: "(string \<times> (out_error + bytes) \<times> write_faults) list" where
  "demo_items = [(''users'', Inr [1, 2], demo_faults), (''orders'', Inr [3], demo_faults)]"

lemmas demo_run_defs = demo_items_def demo_faults_def tables_of_def drive_sink_def write_table_def sink_write_def put_table_def
  valid_table_name_def sink_stage_def txn_begin_def replace_staged_def remove_file_def check_component_def component_of_def
  stage_dir_def fill_table_def create_file_def note_stored_def open_file_def observed_commit_def sink_commit_def txn_publish_def
  rename_node_def observed_abort_def sink_abort_def txn_abort_def new_sink_def

theorem sink_all_or_nothing_witness:
  "\<exists>s'. drive_sink sink_write (observed_commit (Some EIO)) (observed_abort None) demo_items None None
      (new_sink Ambient ''out'' Map.empty) = (RunFailed (OsError EIO), s') \<and> sink_target s' = None"
proof -
  obtain s' where run: "drive_sink sink_write (observed_commit (Some EIO)) (observed_abort None) demo_items None None
      (new_sink Ambient ''out'' Map.empty) = (RunFailed (OsError EIO), s')"
    by (simp add: demo_run_defs)
  have "\<forall>(table, masked, f) \<in> set demo_items. wf_stage f \<noteq> ''out''" "tables_of demo_items Map.empty \<noteq> Map.empty"
    by (simp_all add: demo_items_def demo_faults_def tables_of_def)
  then show ?thesis
    using sink_all_or_nothing [OF _ _ run] run by simp
qed

text \<open>C33. The evidence a sink keeps of its publication is true, if no write fails between making its strict
  stage and reopening it (\<open>reopens\<close>; \<open>strict_stage_leaks\<close> below shows that a stage is left when one does, with
  evidence that says no cleanup was needed). After a failed run it says that nothing
  was published, and when it also says that no cleanup was needed or that cleanup is confirmed, the
  target's parent directory is exactly what it was before the run. After a run that committed it says
  published, and the parent directory differs from before in the target only: no stage is left.\<close>

theorem sink_evidence_truthful:
  assumes "\<forall>(table, masked, f) \<in> set items. wf_stage f \<noteq> leaf \<and> reopens pol f"
    and "drive_sink sink_write (observed_commit io) (observed_abort left) items seal sidecar (new_sink pol leaf w) = (out, s')"
  shows "case out of
      RunFailed e \<Rightarrow> ev_state s' = NOT_PUBLISHED \<and> (ev_cleanup s' \<in> {NOT_NEEDED, CONFIRMED} \<longrightarrow> sk_world s' = w)
    | _ \<Rightarrow> ev_state s' = PUBLISHED \<and> ev_cleanup s' = NOT_NEEDED \<and> (\<exists>d. sk_world s' = w(leaf \<mapsto> DirN d))"
proof -
  note writes = writes_unpublished [OF unpublished_new [of w pol leaf] assms(1)]
  have ab: "ev_state (observed_abort left s) = NOT_PUBLISHED \<and>
      (ev_cleanup (observed_abort left s) \<in> {NOT_NEEDED, CONFIRMED} \<longrightarrow> sk_world (observed_abort left s) = w)"
    if "unpublished w pol leaf s" for s
    using abort_evidence [of w s left] that by (simp add: unpublished_def)
  show ?thesis
  proof (cases "fold_result (write_table sink_write) (new_sink pol leaf w) items")
    case (Inl r)
    then show ?thesis
      using writes ab assms(2) by (cases r) (auto simp: drive_sink_def)
  next
    case (Inr s1)
    then have s1: "unpublished w pol leaf s1"
      using writes by simp
    show ?thesis
    proof (cases "seal = None \<and> (\<exists>s2. observed_commit io s1 = Inr s2)")
      case True
      then have "observed_commit io s1 = Inr s'" "out = RunOk \<or> (\<exists>e. out = RunPartial e)"
        using Inr assms(2) by (auto simp: drive_sink_def split: option.splits)
      then show ?thesis
        using commit_evidence(2) [OF s1, of io s'] by (elim disjE exE) simp_all
    next
      case False
      then obtain e s2 where out: "out = RunFailed e" "s' = observed_abort left s2" and s2: "s2 = s1 \<or> observed_commit io s1 = Inl (e, s2)"
        using Inr assms(2) by (cases "observed_commit io s1") (auto simp: drive_sink_def split: option.splits prod.splits)
      have "sink_inv w s2 \<and> ev_state s2 = NOT_PUBLISHED \<and> (sk_txn s2 = None \<longrightarrow> ev_cleanup s2 = NOT_NEEDED)"
        using s2 commit_evidence(1) [OF s1] s1 by (auto simp: unpublished_def)
      then show ?thesis
        using abort_evidence [of w s2 left] out by simp
    qed
  qed
qed

theorem sink_evidence_truthful_witness:
  "\<exists>s'. drive_sink sink_write (observed_commit None) (observed_abort None) demo_items None None
      (new_sink Ambient ''out'' Map.empty) = (RunOk, s') \<and> ev_state s' = PUBLISHED"
proof -
  obtain s' where run: "drive_sink sink_write (observed_commit None) (observed_abort None) demo_items None None
      (new_sink Ambient ''out'' Map.empty) = (RunOk, s')"
    by (simp add: demo_run_defs)
  have "\<forall>(table, masked, f) \<in> set demo_items. wf_stage f \<noteq> ''out'' \<and> reopens Ambient f"
    by (simp add: demo_items_def demo_faults_def reopens_def)
  then show ?thesis
    using sink_evidence_truthful [OF _ run] run by simp
qed

text \<open>When the strict policy makes the stage and then cannot open it, the stage stays behind and the evidence
  says that no cleanup is needed.\<close>

lemma strict_stage_leaks:
  "\<exists>s'. drive_sink sink_write (observed_commit None) (observed_abort None)
      [(''users'', Inr [1], demo_faults\<lparr>wf_reopen := Some EIO\<rparr>)] None None (new_sink Strict ''out'' Map.empty) = (RunFailed (OsError EIO), s') \<and>
    ev_cleanup s' = NOT_NEEDED \<and> sk_world s' ''_decoy_stage_1'' = Some (DirN [])"
  by (simp add: demo_run_defs is_valid_component_def MAX_COMPONENT_BYTES_def utf8_def utf8_char_def)

end
