(* ===== verification/Secret_Cache.thy ===== *)
theory Secret_Cache
  imports Decoy_Prelude "HOL-Library.AList"
begin

text \<open>
  The process cache for prepared secrets, \<open>secret_providers/_cache.py\<close>. Every critical section of
  \<open>SecretCache\<close> is a function on the cache record; the threads that call \<open>get_or_load\<close>,
  \<open>invalidate\<close> and \<open>clear\<close> interleave at the boundaries of those sections, which is the relation
  \<open>cache_step\<close>; a thread's own actions next to a section are part of that section's step. A thread's program point is a \<open>pc\<close> value. Clock readings are integers that other
  steps may move; an object is an address (what \<open>id\<close> returns) with an identity, since addresses are
  recycled.

  Two things are recorded for the statements and never read by the operations: the logical time at
  which the material of an entry began to be read, and the logical time of the last revocation of a
  key. The invariant is proved by rule induction over the reachable states: no cached entry was read
  before its key was last revoked, loads of a key are single-flighted, the lock table holds exactly
  the keys with a caller inside, and the cache stays within its capacity.
\<close>

section \<open>Model\<close>

type_synonym obj = "nat \<times> nat"
type_synonym cache_key = "string \<times> nat list"

record secret =
  se_material :: bytes
  se_key_version :: string
  se_requirement_ids :: "string list"
  se_expires_at :: "int option"

record entry =
  en_master :: secret
  en_deadline :: int
  en_clock :: nat
  en_owners :: "obj list"
  en_inserted :: int
  en_read :: nat

record flight =
  fl_callers :: int
  fl_epoch :: nat
  fl_holder :: "nat option"

record cache =
  ca_capacity :: nat
  ca_entries :: "(cache_key \<times> entry) list"
  ca_locks :: "(cache_key \<times> nat) list"
  ca_flights :: "nat \<Rightarrow> flight"
  ca_next :: nat
  ca_epoch :: nat
  ca_closed :: "entry list"

record request =
  rq_key :: string
  rq_owners :: "obj list"
  rq_ttl :: int
  rq_clock :: nat

definition EXPIRY_SKEW_SECONDS :: int where "EXPIRY_SKEW_SECONDS = 5"

definition full_key :: "string \<Rightarrow> obj list \<Rightarrow> cache_key" where
  "full_key key owners = (key, map fst owners)"

definition rq_full :: "request \<Rightarrow> cache_key" where
  "rq_full r = full_key (rq_key r) (rq_owners r)"

text \<open>The constructor refuses a capacity below one.\<close>

definition new_cache :: "int \<Rightarrow> cache option" where
  "new_cache capacity = (if capacity < 1 then None else
     Some \<lparr>ca_capacity = nat capacity, ca_entries = [], ca_locks = [],
       ca_flights = (\<lambda>_. \<lparr>fl_callers = 0, fl_epoch = 0, fl_holder = None\<rparr>), ca_next = 0, ca_epoch = 0, ca_closed = []\<rparr>)"

definition expired :: "(nat \<Rightarrow> int) \<Rightarrow> entry \<Rightarrow> bool" where
  "expired clk e \<longleftrightarrow> en_deadline e \<le> clk (en_clock e)"

definition older_than :: "(nat \<Rightarrow> int) \<Rightarrow> int \<Rightarrow> entry \<Rightarrow> bool" where
  "older_than clk ttl e \<longleftrightarrow> ttl \<le> clk (en_clock e) - en_inserted e"

definition evict_locked :: "cache_key \<Rightarrow> cache \<Rightarrow> cache" where
  "evict_locked k c =
     (case map_of (ca_entries c) k of
        None \<Rightarrow> c
      | Some e \<Rightarrow> c\<lparr>ca_entries := AList.delete k (ca_entries c), ca_closed := ca_closed c @ [e]\<rparr>)"

definition prune_locked :: "(nat \<Rightarrow> int) \<Rightarrow> cache \<Rightarrow> cache" where
  "prune_locked clk c = fold evict_locked (map fst (filter (\<lambda>ke. expired clk (snd ke)) (ca_entries c))) c"

lemma evict_locked_length:
  "ca_entries c = ke # es \<Longrightarrow> length (ca_entries (evict_locked (fst ke) c)) < Suc (length es)"
  using length_delete_le [of "fst ke" es] by (cases ke) (simp add: evict_locked_def le_imp_less_Suc)

text \<open>\<open>while len(entries) >= capacity\<close>: drop the oldest entry.\<close>

function make_room :: "cache \<Rightarrow> cache" where
  "make_room c =
     (case ca_entries c of
        [] \<Rightarrow> c
      | ke # es \<Rightarrow> if ca_capacity c \<le> length (ca_entries c) then make_room (evict_locked (fst ke) c) else c)"
  by pat_completeness auto
termination
  by (relation "measure (\<lambda>c. length (ca_entries c))") (simp_all add: evict_locked_length)

declare make_room.simps [simp del]

definition insert_locked :: "cache_key \<Rightarrow> entry \<Rightarrow> cache \<Rightarrow> cache" where
  "insert_locked k e c =
     (let c' = make_room (evict_locked k c) in c'\<lparr>ca_entries := AList.update k e (ca_entries c')\<rparr>)"

definition hit_locked :: "(nat \<Rightarrow> int) \<Rightarrow> cache_key \<Rightarrow> obj list \<Rightarrow> int \<Rightarrow> cache \<Rightarrow> cache \<times> secret option" where
  "hit_locked clk k owners ttl c =
     (case map_of (ca_entries c) k of
        None \<Rightarrow> (c, None)
      | Some e \<Rightarrow>
          if expired clk e \<or> en_owners e \<noteq> owners then (evict_locked k c, None)
          else if older_than clk ttl e then (c, None)
          else (c, Some (en_master e)))"

text \<open>The sections of \<open>get_or_load\<close>: entry, the miss, the insert, and the \<open>finally\<close> block.\<close>

definition enter_flight :: "(nat \<Rightarrow> int) \<Rightarrow> cache_key \<Rightarrow> cache \<Rightarrow> cache \<times> nat" where
  "enter_flight clk k c =
     (let c1 = prune_locked clk c;
          f = (case map_of (ca_locks c1) k of Some f \<Rightarrow> f | None \<Rightarrow> ca_next c1);
          c2 = (if map_of (ca_locks c1) k = None
                then c1\<lparr>ca_locks := AList.update k f (ca_locks c1), ca_next := ca_next c1 + 1,
                        ca_flights := (ca_flights c1)(f := \<lparr>fl_callers = 0, fl_epoch = 0, fl_holder = None\<rparr>)\<rparr>
                else c1) in
      (c2\<lparr>ca_flights := (ca_flights c2)(f := (ca_flights c2 f)\<lparr>fl_callers := fl_callers (ca_flights c2 f) + 1\<rparr>)\<rparr>, f))"

definition set_holder :: "nat \<Rightarrow> nat option \<Rightarrow> cache \<Rightarrow> cache" where
  "set_holder f h c = c\<lparr>ca_flights := (ca_flights c)(f := (ca_flights c f)\<lparr>fl_holder := h\<rparr>)\<rparr>"

definition started_at :: "nat \<Rightarrow> cache \<Rightarrow> nat \<times> nat" where
  "started_at f c = (ca_epoch c, fl_epoch (ca_flights c f))"

definition cache_lifetime :: "int \<Rightarrow> int \<Rightarrow> secret \<Rightarrow> int" where
  "cache_lifetime ttl wall p =
     (case se_expires_at p of None \<Rightarrow> ttl | Some x \<Rightarrow> min ttl (x - wall - EXPIRY_SKEW_SECONDS))"

definition store_loaded ::
    "request \<Rightarrow> nat \<Rightarrow> nat \<times> nat \<Rightarrow> int \<Rightarrow> int \<Rightarrow> nat \<Rightarrow> secret \<Rightarrow> cache \<Rightarrow> cache" where
  "store_loaded r f started now wall read p c =
     (let remaining = cache_lifetime (rq_ttl r) wall p;
          e = \<lparr>en_master = p, en_deadline = now + remaining, en_clock = rq_clock r, en_owners = rq_owners r,
               en_inserted = now, en_read = read\<rparr> in
      if remaining \<le> 0 then c
      else if started = started_at f c then insert_locked (rq_full r) e c
      else c\<lparr>ca_closed := ca_closed c @ [e]\<rparr>)"

definition leave_flight :: "cache_key \<Rightarrow> nat \<Rightarrow> cache \<Rightarrow> cache" where
  "leave_flight k f c =
     (let n = fl_callers (ca_flights c f) - 1;
          c1 = c\<lparr>ca_flights := (ca_flights c)(f := (ca_flights c f)\<lparr>fl_callers := n\<rparr>)\<rparr> in
      if n = 0 \<and> map_of (ca_locks c1) k = Some f then c1\<lparr>ca_locks := AList.delete k (ca_locks c1)\<rparr> else c1)"

definition invalidate :: "cache_key \<Rightarrow> cache \<Rightarrow> cache" where
  "invalidate k c =
     evict_locked k (case map_of (ca_locks c) k of
        None \<Rightarrow> c
      | Some f \<Rightarrow> c\<lparr>ca_flights := (ca_flights c)(f := (ca_flights c f)\<lparr>fl_epoch := fl_epoch (ca_flights c f) + 1\<rparr>)\<rparr>)"

definition clear_cache :: "cache \<Rightarrow> cache" where
  "clear_cache c = fold evict_locked (map fst (ca_entries c)) (c\<lparr>ca_epoch := ca_epoch c + 1\<rparr>)"

section \<open>Threads\<close>

text \<open>\<open>Waiting\<close>: entered, waiting for the flight lock. \<open>Loading\<close> and \<open>Loaded\<close>: holding the lock before
  and after the loader returned, with the epochs and the times recorded at the miss. \<open>Leaving\<close>: the
  lock is released, the \<open>finally\<close> block is still to run.\<close>

datatype pc =
    Idle
  | Waiting request nat
  | Loading request nat "nat \<times> nat" int nat
  | Loaded request nat "nat \<times> nat" int nat secret
  | Leaving request nat "secret option"

record sys =
  sy_cache :: cache
  sy_pc :: "nat \<Rightarrow> pc"
  sy_clock :: "nat \<Rightarrow> int"
  sy_wall :: "nat \<Rightarrow> int"
  sy_time :: nat
  sy_revoked :: "cache_key \<Rightarrow> nat"

definition sys_init :: "cache \<Rightarrow> (nat \<Rightarrow> int) \<Rightarrow> (nat \<Rightarrow> int) \<Rightarrow> sys" where
  "sys_init c clk wall = \<lparr>sy_cache = c, sy_pc = (\<lambda>_. Idle), sy_clock = clk, sy_wall = wall, sy_time = 1,
     sy_revoked = (\<lambda>_. 0)\<rparr>"

text \<open>One step of the system: the new cache, and the moving thread's new program point.\<close>

definition moved :: "sys \<Rightarrow> nat \<Rightarrow> cache \<Rightarrow> pc \<Rightarrow> sys" where
  "moved s t c p = s\<lparr>sy_cache := c, sy_pc := (sy_pc s)(t := p), sy_time := sy_time s + 1\<rparr>"

inductive cache_step :: "sys \<Rightarrow> sys \<Rightarrow> bool" where
  enter: "\<lbrakk>sy_pc s t = Idle; enter_flight (sy_clock s) (rq_full r) (sy_cache s) = (c, f)\<rbrakk> \<Longrightarrow>
    cache_step s (moved s t c (Waiting r f))"
| hit: "\<lbrakk>sy_pc s t = Waiting r f; fl_holder (ca_flights (sy_cache s) f) = None;
     hit_locked (sy_clock s) (rq_full r) (rq_owners r) (rq_ttl r) (sy_cache s) = (c, Some p)\<rbrakk> \<Longrightarrow>
    cache_step s (moved s t c (Leaving r f (Some p)))"
| miss: "\<lbrakk>sy_pc s t = Waiting r f; fl_holder (ca_flights (sy_cache s) f) = None;
     hit_locked (sy_clock s) (rq_full r) (rq_owners r) (rq_ttl r) (sy_cache s) = (c, None)\<rbrakk> \<Longrightarrow>
    cache_step s (moved s t (set_holder f (Some t) c)
      (Loading r f (started_at f c) (sy_clock s (rq_clock r)) (sy_time s)))"
| loaded: "sy_pc s t = Loading r f started now read \<Longrightarrow>
    cache_step s (moved s t (sy_cache s) (Loaded r f started now read p))"
| load_failed: "sy_pc s t = Loading r f started now read \<Longrightarrow>
    cache_step s (moved s t (set_holder f None (sy_cache s)) (Leaving r f None))"
| store: "sy_pc s t = Loaded r f started now read p \<Longrightarrow>
    cache_step s (moved s t
      (set_holder f None (store_loaded r f started now (sy_wall s (rq_clock r)) read p (sy_cache s)))
      (Leaving r f (Some p)))"
| leave: "sy_pc s t = Leaving r f res \<Longrightarrow>
    cache_step s (moved s t (leave_flight (rq_full r) f (sy_cache s)) Idle)"
| revoke: "cache_step s (s\<lparr>sy_cache := invalidate k (sy_cache s), sy_time := sy_time s + 1,
    sy_revoked := (sy_revoked s)(k := sy_time s)\<rparr>)"
| clear: "cache_step s (s\<lparr>sy_cache := clear_cache (sy_cache s), sy_time := sy_time s + 1,
    sy_revoked := (\<lambda>_. sy_time s)\<rparr>)"
| tick: "(\<And>i. sy_clock s i \<le> clk i) \<Longrightarrow>
    cache_step s (s\<lparr>sy_clock := clk, sy_wall := wall, sy_time := sy_time s + 1\<rparr>)"

inductive cache_reachable :: "cache \<Rightarrow> sys \<Rightarrow> bool" for c where
  init: "cache_reachable c (sys_init c clk wall)"
| step: "cache_reachable c s \<Longrightarrow> cache_step s s' \<Longrightarrow> cache_reachable c s'"

inductive_cases cache_stepE: "cache_step s s'"

section \<open>Entries\<close>

text \<open>The operations on entries leave locks, flights and epochs alone.\<close>

definition same_locks :: "cache \<Rightarrow> cache \<Rightarrow> bool" where
  "same_locks c c' \<longleftrightarrow> ca_locks c' = ca_locks c \<and> ca_flights c' = ca_flights c \<and> ca_next c' = ca_next c \<and>
     ca_epoch c' = ca_epoch c \<and> ca_capacity c' = ca_capacity c"

lemma same_locks_refl [simp]: "same_locks c c"
  by (simp add: same_locks_def)

lemma same_locks_trans: "same_locks a b \<Longrightarrow> same_locks b c \<Longrightarrow> same_locks a c"
  by (simp add: same_locks_def)

lemma evict_same_locks [simp]: "same_locks c (evict_locked k c)"
  by (simp add: evict_locked_def same_locks_def split: option.splits)

lemma delete_filter: "AList.delete k xs = filter (\<lambda>ke. fst ke \<noteq> k) xs"
  by (simp add: AList.delete_eq case_prod_unfold eq_commute)

lemma update_new: "k \<notin> fst ` set xs \<Longrightarrow> AList.update k v xs = xs @ [(k, v)]"
  by (induction xs) auto

lemma evict_entries: "ca_entries (evict_locked k c) = AList.delete k (ca_entries c)"
proof (cases "map_of (ca_entries c) k")
  case None
  then have "k \<notin> fst ` set (ca_entries c)"
    by (simp add: map_of_eq_None_iff)
  then show ?thesis
    using None by (auto simp: evict_locked_def delete_filter intro!: filter_True [symmetric])
next
  case (Some e)
  then show ?thesis
    by (simp add: evict_locked_def)
qed

lemma fold_evict_same_locks [simp]: "same_locks c (fold evict_locked ks c)"
proof (induction ks arbitrary: c)
  case (Cons k ks)
  show ?case
    using same_locks_trans [OF evict_same_locks Cons.IH] by simp
qed simp

lemma fold_evict_entries: "ca_entries (fold evict_locked ks c) = filter (\<lambda>ke. fst ke \<notin> set ks) (ca_entries c)"
proof (induction ks arbitrary: c)
  case (Cons k ks)
  then show ?case
    by (auto simp: evict_entries delete_filter intro!: filter_cong)
qed simp

lemma make_room_facts:
  assumes "0 < ca_capacity c"
  shows "same_locks c (make_room c) \<and> set (ca_entries (make_room c)) \<subseteq> set (ca_entries c) \<and>
    length (ca_entries (make_room c)) < ca_capacity c \<and>
    (distinct (map fst (ca_entries c)) \<longrightarrow> distinct (map fst (ca_entries (make_room c))))"
  using assms
proof (induction c rule: make_room.induct)
  case (1 c)
  show ?case
  proof (cases "ca_entries c")
    case Nil
    then show ?thesis
      using "1.prems" by (subst (1 2 3 4) make_room.simps) simp
  next
    case (Cons ke es)
    show ?thesis
    proof (cases "ca_capacity c \<le> length (ca_entries c)")
      case True
      let ?c = "evict_locked (fst ke) c"
      have cap: "ca_capacity ?c = ca_capacity c"
        using evict_same_locks [of c "fst ke"] by (simp add: same_locks_def)
      have "set (ca_entries ?c) \<subseteq> set (ca_entries c)"
        by (auto simp: evict_entries delete_filter)
      moreover have "distinct (map fst (ca_entries c)) \<longrightarrow> distinct (map fst (ca_entries ?c))"
        by (simp add: evict_entries distinct_delete)
      moreover have "make_room c = make_room ?c"
        using Cons True by (subst make_room.simps) simp
      ultimately show ?thesis
        using "1.IH" [OF Cons True] "1.prems" cap same_locks_trans [OF evict_same_locks [of c "fst ke"], of "make_room ?c"]
        by auto
    next
      case False
      then have "make_room c = c"
        using Cons by (subst make_room.simps) simp
      then show ?thesis
        using False by simp
    qed
  qed
qed

lemma insert_locked_facts:
  assumes "0 < ca_capacity c" and "distinct (map fst (ca_entries c))"
  shows "same_locks c (insert_locked k e c)" and "length (ca_entries (insert_locked k e c)) \<le> ca_capacity c"
    and "distinct (map fst (ca_entries (insert_locked k e c)))"
    and "set (ca_entries (insert_locked k e c)) \<subseteq> insert (k, e) (set (ca_entries c))"
proof -
  let ?c = "evict_locked k c" and ?m = "make_room (evict_locked k c)"
  have c: "0 < ca_capacity ?c" "ca_capacity ?c = ca_capacity c"
    using assms(1) evict_same_locks [of c k] by (auto simp: same_locks_def)
  note m = make_room_facts [OF c(1)]
  have "k \<notin> fst ` set (ca_entries ?m)"
    using m by (force simp: evict_entries delete_filter)
  then have upd: "AList.update k e (ca_entries ?m) = ca_entries ?m @ [(k, e)]"
    by (simp add: update_new)
  have d: "distinct (map fst (ca_entries ?m))"
    using m assms(2) by (simp add: evict_entries distinct_delete)
  show "same_locks c (insert_locked k e c)"
    using same_locks_trans [OF evict_same_locks [of c k]] m by (simp add: insert_locked_def Let_def same_locks_def)
  show "length (ca_entries (insert_locked k e c)) \<le> ca_capacity c"
    using m c(2) by (simp add: insert_locked_def Let_def upd)
  show "distinct (map fst (ca_entries (insert_locked k e c)))"
    using d by (simp add: insert_locked_def Let_def distinct_update)
  show "set (ca_entries (insert_locked k e c)) \<subseteq> insert (k, e) (set (ca_entries c))"
    using m by (auto simp: insert_locked_def Let_def upd evict_entries delete_filter)
qed

section \<open>Flights and the lock table\<close>

fun pc_flight :: "pc \<Rightarrow> (cache_key \<times> nat) option" where
  "pc_flight Idle = None"
| "pc_flight (Waiting r f) = Some (rq_full r, f)"
| "pc_flight (Loading r f st now rd) = Some (rq_full r, f)"
| "pc_flight (Loaded r f st now rd p) = Some (rq_full r, f)"
| "pc_flight (Leaving r f res) = Some (rq_full r, f)"

definition inside :: "(nat \<Rightarrow> pc) \<Rightarrow> nat \<Rightarrow> nat set" where
  "inside pcs f = {t. \<exists>k. pc_flight (pcs t) = Some (k, f)}"

definition flights_ok :: "cache \<Rightarrow> (nat \<Rightarrow> pc) \<Rightarrow> bool" where
  "flights_ok c pcs \<longleftrightarrow>
     (\<forall>f. finite (inside pcs f) \<and> (f < ca_next c \<longrightarrow> fl_callers (ca_flights c f) = int (card (inside pcs f)))) \<and>
     (\<forall>t k f. pc_flight (pcs t) = Some (k, f) \<longrightarrow> map_of (ca_locks c) k = Some f) \<and>
     (\<forall>k f. map_of (ca_locks c) k = Some f \<longrightarrow> f < ca_next c \<and> (\<exists>t. pc_flight (pcs t) = Some (k, f))) \<and>
     (\<forall>k k' f. map_of (ca_locks c) k = Some f \<longrightarrow> map_of (ca_locks c) k' = Some f \<longrightarrow> k = k')"

lemma flights_okD:
  assumes "flights_ok c pcs"
  shows "finite (inside pcs f)" and "f < ca_next c \<Longrightarrow> fl_callers (ca_flights c f) = int (card (inside pcs f))"
    and "pc_flight (pcs t) = Some (k, f) \<Longrightarrow> map_of (ca_locks c) k = Some f"
    and "map_of (ca_locks c) k = Some f \<Longrightarrow> f < ca_next c"
    and "map_of (ca_locks c) k = Some f \<Longrightarrow> \<exists>t. pc_flight (pcs t) = Some (k, f)"
    and "map_of (ca_locks c) k = Some f \<Longrightarrow> map_of (ca_locks c) k' = Some f \<Longrightarrow> k = k'"
  using assms unfolding flights_ok_def by blast+

lemma flights_ok_cong:
  assumes "flights_ok c pcs" and "ca_locks c' = ca_locks c" and "ca_next c' = ca_next c"
    and "\<And>f. fl_callers (ca_flights c' f) = fl_callers (ca_flights c f)"
    and "\<And>t. pc_flight (pcs' t) = pc_flight (pcs t)"
  shows "flights_ok c' pcs'"
  using assms by (simp add: flights_ok_def inside_def)

lemma flights_ok_moved:
  assumes "flights_ok c pcs" and "same_locks c c'" and "pc_flight p = pc_flight (pcs t)"
  shows "flights_ok c' (pcs(t := p))"
  by (rule flights_ok_cong [OF assms(1)]) (use assms(2,3) in \<open>auto simp: same_locks_def\<close>)

lemma flights_ok_holder: "flights_ok c pcs \<Longrightarrow> flights_ok (set_holder f h c) pcs"
  by (rule flights_ok_cong) (auto simp: set_holder_def)

lemma prune_same_locks [simp]: "same_locks c (prune_locked clk c)"
  by (simp add: prune_locked_def)

lemma inside_upd:
  "inside (pcs(t := p)) f =
     (if \<exists>k. pc_flight p = Some (k, f) then insert t (inside pcs f) else inside pcs f - {t})"
  by (auto simp: inside_def)

lemma flights_ok_enter:
  assumes ok: "flights_ok c pcs" and idle: "pcs t = Idle" and e: "enter_flight clk (rq_full r) c = (c', f)"
  shows "flights_ok c' (pcs(t := Waiting r f))"
proof -
  let ?c1 = "prune_locked clk c"
  have ok1: "flights_ok ?c1 pcs"
    by (rule flights_ok_cong [OF ok]) (use prune_same_locks [of c clk] in \<open>auto simp: same_locks_def\<close>)
  note d = flights_okD [OF ok1]
  have t: "t \<notin> inside pcs g" for g
    using idle by (simp add: inside_def)
  show ?thesis
  proof (cases "map_of (ca_locks ?c1) (rq_full r)")
    case None
    have f: "f = ca_next ?c1" and c': "ca_locks c' = AList.update (rq_full r) f (ca_locks ?c1)"
        "ca_next c' = ca_next ?c1 + 1" "fl_callers (ca_flights c' f) = 1"
        "\<And>g. g \<noteq> f \<Longrightarrow> ca_flights c' g = ca_flights ?c1 g"
      using e None by (auto simp: enter_flight_def Let_def)
    have "pc_flight (pcs u) \<noteq> Some (k, f)" for u k
      using d(3) [of u k f] d(4) [of k f] f by auto
    then have "inside pcs f = {}"
      by (auto simp: inside_def)
    then have callers: "\<forall>g. finite (inside (pcs(t := Waiting r f)) g) \<and>
        (g < ca_next c' \<longrightarrow> fl_callers (ca_flights c' g) = int (card (inside (pcs(t := Waiting r f)) g)))"
      using c' d(1,2) f t by (auto simp: inside_upd)
    have keys: "map_of (ca_locks c') k = (if k = rq_full r then Some f else map_of (ca_locks ?c1) k)" for k
      using c'(1) by (simp add: update_conv')
    have "map_of (ca_locks c') k = Some g" if "pc_flight ((pcs(t := Waiting r f)) u) = Some (k, g)" for u k g
    proof (cases "u = t")
      case False
      then have "map_of (ca_locks ?c1) k = Some g"
        using that d(3) [of u k g] by simp
      then show ?thesis
        using None by (auto simp: keys)
    qed (use that keys in simp)
    moreover have "\<forall>k g. map_of (ca_locks c') k = Some g \<longrightarrow>
        g < ca_next c' \<and> (\<exists>u. pc_flight ((pcs(t := Waiting r f)) u) = Some (k, g))"
    proof (intro allI impI)
      fix k g assume g: "map_of (ca_locks c') k = Some g"
      show "g < ca_next c' \<and> (\<exists>u. pc_flight ((pcs(t := Waiting r f)) u) = Some (k, g))"
      proof (cases "k = rq_full r")
        case True
        then show ?thesis
          using g f c'(2) by (auto simp: keys intro!: exI [of _ t])
      next
        case False
        then obtain u where "pc_flight (pcs u) = Some (k, g)" "g < ca_next ?c1"
          using d(4,5) [of k g] g by (auto simp: keys)
        then show ?thesis
          using idle c'(2) by (intro conjI exI [of _ u]) auto
      qed
    qed
    moreover have "\<forall>k k' g. map_of (ca_locks c') k = Some g \<longrightarrow> map_of (ca_locks c') k' = Some g \<longrightarrow> k = k'"
    proof (intro allI impI)
      fix k k' g assume "map_of (ca_locks c') k = Some g" "map_of (ca_locks c') k' = Some g"
      then show "k = k'"
        using d(4) [of k f] d(4) [of k' f] d(6) [of k g k'] f by (auto simp: keys split: if_splits)
    qed
    ultimately show ?thesis
      unfolding flights_ok_def using callers by blast
  next
    case (Some f0)
    have f: "f = f0" and c': "ca_locks c' = ca_locks ?c1" "ca_next c' = ca_next ?c1"
        "fl_callers (ca_flights c' f) = fl_callers (ca_flights ?c1 f) + 1"
        "\<And>g. g \<noteq> f \<Longrightarrow> ca_flights c' g = ca_flights ?c1 g"
      using e Some by (auto simp: enter_flight_def Let_def)
    have "\<forall>g. finite (inside (pcs(t := Waiting r f)) g) \<and>
        (g < ca_next c' \<longrightarrow> fl_callers (ca_flights c' g) = int (card (inside (pcs(t := Waiting r f)) g)))"
      using c' d(1,2) t by (auto simp: inside_upd)
    moreover have "\<exists>u. pc_flight ((pcs(t := Waiting r f)) u) = Some (k, g)"
      if kg: "map_of (ca_locks c') k = Some g" for k g
    proof -
      obtain u where u: "pc_flight (pcs u) = Some (k, g)"
        using d(5) [of k g] kg c'(1) by auto
      then have "u \<noteq> t"
        using idle by auto
      then show ?thesis
        using u by (intro exI [of _ u]) simp
    qed
    ultimately show ?thesis
      using d(3,4,6) c'(1,2) Some f unfolding flights_ok_def by auto
  qed
qed

lemma flights_ok_leave:
  assumes ok: "flights_ok c pcs" and t: "pc_flight (pcs t) = Some (k, f)"
  shows "flights_ok (leave_flight k f c) (pcs(t := Idle))"
proof -
  let ?c' = "leave_flight k f c" and ?pcs = "pcs(t := Idle)"
  note d = flights_okD [OF ok]
  have lk: "map_of (ca_locks c) k = Some f" "f < ca_next c"
    using d(3) [OF t] d(4) [of k f] by simp_all
  have tin: "t \<in> inside pcs f"
    using t by (auto simp: inside_def)
  define n where "n = fl_callers (ca_flights c f) - 1"
  have n: "n = int (card (inside pcs f - {t}))"
    using d(1,2) [of f] lk(2) tin card_Diff_singleton [OF tin] card_gt_0_iff [of "inside pcs f"]
    by (auto simp: n_def)
  have nxt: "ca_next ?c' = ca_next c"
    by (simp add: leave_flight_def Let_def)
  have locks: "ca_locks ?c' = (if n = 0 then AList.delete k (ca_locks c) else ca_locks c)"
    using lk(1) by (simp add: leave_flight_def Let_def n_def)
  have fl: "fl_callers (ca_flights ?c' g) = (if g = f then n else fl_callers (ca_flights c g))" for g
    by (simp add: leave_flight_def Let_def n_def)
  have ins: "inside ?pcs g = inside pcs g - {t}" for g
    by (simp add: inside_upd)
  have other: "t \<notin> inside pcs g" if "g \<noteq> f" for g
    using t that by (auto simp: inside_def)
  have count: "finite (inside ?pcs g) \<and> (g < ca_next ?c' \<longrightarrow> fl_callers (ca_flights ?c' g) = int (card (inside ?pcs g)))" for g
    using d(1,2) [of g] n other [of g] by (auto simp: ins fl nxt)
  have keys: "map_of (ca_locks ?c') j = (if n = 0 \<and> j = k then None else map_of (ca_locks c) j)" for j
    by (auto simp: locks delete_conv')
  have same: "j = k" if "pc_flight (pcs u) = Some (j, f)" for u j
    using d(3) [of u j f] d(6) [of j f k] that lk(1) by simp
  have "map_of (ca_locks ?c') j = Some g" if "pc_flight (?pcs u) = Some (j, g)" for u j g
  proof -
    have u: "u \<noteq> t" "pc_flight (pcs u) = Some (j, g)"
      using that by (auto split: if_splits)
    have "n \<noteq> 0" if "j = k"
    proof -
      have "g = f"
        using d(3) [OF u(2)] that lk(1) by simp
      then have "u \<in> inside pcs f - {t}"
        using u by (auto simp: inside_def)
      then show ?thesis
        using n d(1) [of f] by auto
    qed
    then show ?thesis
      using d(3) [OF u(2)] by (auto simp: keys)
  qed
  moreover have "g < ca_next ?c' \<and> (\<exists>u. pc_flight (?pcs u) = Some (j, g))" if "map_of (ca_locks ?c') j = Some g" for j g
  proof -
    have j: "map_of (ca_locks c) j = Some g" "n = 0 \<longrightarrow> j \<noteq> k"
      using that by (auto simp: keys split: if_splits)
    obtain u where u: "pc_flight (pcs u) = Some (j, g)"
      using d(5) [OF j(1)] by blast
    have "\<exists>u. u \<noteq> t \<and> pc_flight (pcs u) = Some (j, g)"
    proof (cases "u = t")
      case True
      then have "j = k" "g = f"
        using u t by auto
      then have "n \<noteq> 0"
        using j(2) by auto
      then have "card (inside pcs f - {t}) \<noteq> 0"
        using n by simp
      then have "inside pcs f - {t} \<noteq> {}"
        by (metis card.empty)
      then obtain v where "v \<in> inside pcs f" "v \<noteq> t"
        by blast
      then show ?thesis
        using same \<open>j = k\<close> \<open>g = f\<close> by (auto simp: inside_def)
    next
      case False
      then show ?thesis
        using u by blast
    qed
    then show ?thesis
      using d(4) [OF j(1)] nxt by auto
  qed
  moreover have "j = j'" if "map_of (ca_locks ?c') j = Some g" "map_of (ca_locks ?c') j' = Some g" for j j' g
    using d(6) [of j g j'] that by (auto simp: keys split: if_splits)
  ultimately show ?thesis
    unfolding flights_ok_def using count by blast
qed

section \<open>The system invariant\<close>

text \<open>A thread that is reading material: its flight, the epochs recorded at the miss, the time the read
  began.\<close>

fun pc_reading :: "pc \<Rightarrow> (cache_key \<times> nat \<times> (nat \<times> nat) \<times> nat) option" where
  "pc_reading (Loading r f st now rd) = Some (rq_full r, f, st, rd)"
| "pc_reading (Loaded r f st now rd p) = Some (rq_full r, f, st, rd)"
| "pc_reading _ = None"

definition entries_ok :: "cache \<Rightarrow> (cache_key \<Rightarrow> nat) \<Rightarrow> bool" where
  "entries_ok c revoked \<longleftrightarrow> 0 < ca_capacity c \<and> length (ca_entries c) \<le> ca_capacity c \<and>
     distinct (map fst (ca_entries c)) \<and> (\<forall>ke \<in> set (ca_entries c). revoked (fst ke) < en_read (snd ke))"

definition reading_ok :: "sys \<Rightarrow> bool" where
  "reading_ok s \<longleftrightarrow> (\<forall>t k f st rd. pc_reading (sy_pc s t) = Some (k, f, st, rd) \<longrightarrow>
     fl_holder (ca_flights (sy_cache s) f) = Some t \<and> fst st \<le> ca_epoch (sy_cache s) \<and>
     snd st \<le> fl_epoch (ca_flights (sy_cache s) f) \<and>
     (st = started_at f (sy_cache s) \<longrightarrow> sy_revoked s k < rd))"

definition sys_ok :: "sys \<Rightarrow> bool" where
  "sys_ok s \<longleftrightarrow> entries_ok (sy_cache s) (sy_revoked s) \<and> flights_ok (sy_cache s) (sy_pc s) \<and> reading_ok s \<and>
     (\<forall>k. sy_revoked s k < sy_time s)"

lemma reading_flight: "pc_reading p = Some (k, f, st, rd) \<Longrightarrow> pc_flight p = Some (k, f)"
  by (cases p) auto

lemma entries_ok_subset:
  assumes "entries_ok c rv" and "same_locks c c'" and "ca_entries c' = filter P (ca_entries c)"
  shows "entries_ok c' rv"
  using assms le_trans [OF length_filter_le [of P "ca_entries c"]]
  by (auto simp: entries_ok_def same_locks_def distinct_map_filter)

lemma entries_ok_evict: "entries_ok c rv \<Longrightarrow> entries_ok (evict_locked k c) rv"
  by (rule entries_ok_subset) (auto simp: evict_entries delete_filter)

lemma entries_ok_prune: "entries_ok c rv \<Longrightarrow> entries_ok (prune_locked clk c) rv"
  by (rule entries_ok_subset) (auto simp: prune_locked_def fold_evict_entries)

lemma entries_ok_flights:
  "entries_ok c rv \<Longrightarrow> ca_capacity c' = ca_capacity c \<Longrightarrow> ca_entries c' = ca_entries c \<Longrightarrow> entries_ok c' rv"
  by (simp add: entries_ok_def)

lemma entries_ok_insert:
  assumes "entries_ok c rv" and "rv k < en_read e"
  shows "entries_ok (insert_locked k e c) rv"
proof -
  have c: "0 < ca_capacity c" "distinct (map fst (ca_entries c))"
    using assms(1) by (auto simp: entries_ok_def)
  note i = insert_locked_facts [OF c, of k e]
  show ?thesis
    using i assms c(1) unfolding entries_ok_def by (auto simp: same_locks_def)
qed

lemma hit_locked_locks: "hit_locked clk k ow ttl c = (c', p) \<Longrightarrow> same_locks c c'"
  by (auto simp: hit_locked_def split: option.splits if_splits)

lemma hit_locked_entries: "hit_locked clk k ow ttl c = (c', p) \<Longrightarrow> entries_ok c rv \<Longrightarrow> entries_ok c' rv"
  by (auto simp: hit_locked_def entries_ok_evict split: option.splits if_splits)

lemma store_loaded_locks:
  "entries_ok c rv \<Longrightarrow> same_locks c (store_loaded r f st now wall rd p c)"
  using insert_locked_facts(1) by (auto simp: store_loaded_def Let_def same_locks_def entries_ok_def)

lemma store_loaded_entries:
  assumes "entries_ok c rv" and "st = started_at f c \<longrightarrow> rv (rq_full r) < rd"
  shows "entries_ok (store_loaded r f st now wall rd p c) rv"
proof -
  have "entries_ok (c\<lparr>ca_closed := x\<rparr>) rv" for x
    by (rule entries_ok_flights [OF assms(1)]) simp_all
  then show ?thesis
    using assms entries_ok_insert [OF assms(1)] by (simp add: store_loaded_def Let_def)
qed

text \<open>Steps that keep every other thread's flight and never lower an epoch keep the reading invariant of
  the others.\<close>

lemma reading_ok_moved:
  assumes ok: "reading_ok s"
    and epoch: "ca_epoch c = ca_epoch (sy_cache s)"
    and fl: "\<And>u k f st rd. u \<noteq> t \<Longrightarrow> pc_reading (sy_pc s u) = Some (k, f, st, rd) \<Longrightarrow>
      fl_holder (ca_flights c f) = fl_holder (ca_flights (sy_cache s) f) \<and>
      fl_epoch (ca_flights c f) = fl_epoch (ca_flights (sy_cache s) f)"
    and mine: "\<And>k f st rd. pc_reading p = Some (k, f, st, rd) \<Longrightarrow> fl_holder (ca_flights c f) = Some t \<and>
      fst st \<le> ca_epoch c \<and> snd st \<le> fl_epoch (ca_flights c f) \<and> (st = started_at f c \<longrightarrow> sy_revoked s k < rd)"
  shows "reading_ok (moved s t c p)"
  unfolding reading_ok_def
proof (intro allI impI)
  fix u k f st rd assume u: "pc_reading (sy_pc (moved s t c p) u) = Some (k, f, st, rd)"
  show "fl_holder (ca_flights (sy_cache (moved s t c p)) f) = Some u \<and> fst st \<le> ca_epoch (sy_cache (moved s t c p)) \<and>
      snd st \<le> fl_epoch (ca_flights (sy_cache (moved s t c p)) f) \<and>
      (st = started_at f (sy_cache (moved s t c p)) \<longrightarrow> sy_revoked (moved s t c p) k < rd)"
  proof (cases "u = t")
    case True
    then show ?thesis
      using mine u by (simp add: moved_def)
  next
    case False
    then have r: "pc_reading (sy_pc s u) = Some (k, f, st, rd)"
      using u by (simp add: moved_def)
    then have "fl_holder (ca_flights (sy_cache s) f) = Some u \<and> fst st \<le> ca_epoch (sy_cache s) \<and>
        snd st \<le> fl_epoch (ca_flights (sy_cache s) f) \<and> (st = started_at f (sy_cache s) \<longrightarrow> sy_revoked s k < rd)"
      using ok unfolding reading_ok_def by blast
    then show ?thesis
      using fl [OF False r] epoch by (simp add: moved_def started_at_def)
  qed
qed

lemma sys_ok_moved:
  assumes "sys_ok s" and "entries_ok c (sy_revoked s)" and "flights_ok c ((sy_pc s)(t := p))" and "reading_ok (moved s t c p)"
  shows "sys_ok (moved s t c p)"
proof -
  have "\<forall>k. sy_revoked s k < sy_time s"
    using assms(1) unfolding sys_ok_def by blast
  then have "\<forall>k. sy_revoked s k < sy_time s + 1"
    by (auto intro: less_SucI)
  then show ?thesis
    using assms by (simp add: sys_ok_def moved_def)
qed

lemma sys_okD:
  assumes "sys_ok s"
  shows "entries_ok (sy_cache s) (sy_revoked s)" "flights_ok (sy_cache s) (sy_pc s)" "reading_ok s"
    "sy_revoked s k < sy_time s"
  using assms unfolding sys_ok_def by blast+

lemma reading_okD:
  assumes "reading_ok s" and "pc_reading (sy_pc s t) = Some (k, f, st, rd)"
  shows "fl_holder (ca_flights (sy_cache s) f) = Some t" "fst st \<le> ca_epoch (sy_cache s)"
    "snd st \<le> fl_epoch (ca_flights (sy_cache s) f)" "st = started_at f (sy_cache s) \<longrightarrow> sy_revoked s k < rd"
  using assms unfolding reading_ok_def by blast+

text \<open>Entering a flight: the pruned cache, and a new or joined flight.\<close>

lemma enter_flight_facts:
  assumes "enter_flight clk k c = (c', f)"
  shows "ca_entries c' = ca_entries (prune_locked clk c)" and "ca_capacity c' = ca_capacity c" and "ca_epoch c' = ca_epoch c"
    and "g < ca_next c \<Longrightarrow> fl_holder (ca_flights c' g) = fl_holder (ca_flights c g) \<and>
      fl_epoch (ca_flights c' g) = fl_epoch (ca_flights c g)"
  using assms prune_same_locks [of c clk]
  by (auto simp: enter_flight_def Let_def same_locks_def split: option.splits if_splits)

lemma sys_ok_enter:
  assumes "sys_ok s" and "sy_pc s t = Idle" and e: "enter_flight (sy_clock s) (rq_full r) (sy_cache s) = (c, f)"
  shows "sys_ok (moved s t c (Waiting r f))"
proof (rule sys_ok_moved [OF assms(1)])
  note ok = sys_okD [OF assms(1)] and ef = enter_flight_facts [OF e]
  show "entries_ok c (sy_revoked s)"
    by (rule entries_ok_flights [OF entries_ok_prune [OF ok(1), of "sy_clock s"]])
      (use ef(1,2) prune_same_locks [of "sy_cache s" "sy_clock s"] in \<open>auto simp: same_locks_def\<close>)
  show "flights_ok c ((sy_pc s)(t := Waiting r f))"
    by (rule flights_ok_enter [OF ok(2) assms(2) e])
  show "reading_ok (moved s t c (Waiting r f))"
  proof (rule reading_ok_moved [OF ok(3) ef(3)])
    fix u k g st rd assume "pc_reading (sy_pc s u) = Some (k, g, st, rd)"
    then have "g < ca_next (sy_cache s)"
      using reading_flight flights_okD(3,4) [OF ok(2)] by metis
    then show "fl_holder (ca_flights c g) = fl_holder (ca_flights (sy_cache s) g) \<and>
        fl_epoch (ca_flights c g) = fl_epoch (ca_flights (sy_cache s) g)"
      by (rule ef(4))
  qed simp
qed

text \<open>Steps that only touch entries and the lock of a flight.\<close>

lemma sys_ok_entries_step:
  assumes "sys_ok s" and "same_locks (sy_cache s) c" and "entries_ok c (sy_revoked s)"
    and "pc_flight p = pc_flight (sy_pc s t)"
    and h: "h = fl_holder (ca_flights c f) \<or> (\<forall>u. u \<noteq> t \<longrightarrow> (\<forall>k st rd. pc_reading (sy_pc s u) \<noteq> Some (k, f, st, rd)))"
    and mine: "\<And>k g st rd. pc_reading p = Some (k, g, st, rd) \<Longrightarrow> g = f \<and> h = Some t \<and>
      fst st \<le> ca_epoch (sy_cache s) \<and> snd st \<le> fl_epoch (ca_flights (sy_cache s) f) \<and>
      (st = started_at f (sy_cache s) \<longrightarrow> sy_revoked s k < rd)"
  shows "sys_ok (moved s t (set_holder f h c) p)"
proof (rule sys_ok_moved [OF assms(1)])
  note ok = sys_okD [OF assms(1)]
  have sl: "ca_flights c = ca_flights (sy_cache s)" "ca_epoch c = ca_epoch (sy_cache s)"
    using assms(2) by (auto simp: same_locks_def)
  show "entries_ok (set_holder f h c) (sy_revoked s)"
    by (rule entries_ok_flights [OF assms(3)]) (simp_all add: set_holder_def)
  show "flights_ok (set_holder f h c) ((sy_pc s)(t := p))"
    by (intro flights_ok_holder flights_ok_moved [OF ok(2) assms(2,4)])
  show "reading_ok (moved s t (set_holder f h c) p)"
  proof (rule reading_ok_moved [OF ok(3)])
    show "ca_epoch (set_holder f h c) = ca_epoch (sy_cache s)"
      by (simp add: set_holder_def sl)
    show "fl_holder (ca_flights (set_holder f h c) g) = fl_holder (ca_flights (sy_cache s) g) \<and>
        fl_epoch (ca_flights (set_holder f h c) g) = fl_epoch (ca_flights (sy_cache s) g)"
      if "u \<noteq> t" "pc_reading (sy_pc s u) = Some (k, g, st, rd)" for u k g st rd
    proof (cases "g = f")
      case True
      then have "h = fl_holder (ca_flights c f)"
        using h that by blast
      then show ?thesis
        using True by (simp add: set_holder_def sl)
    qed (simp add: set_holder_def sl)
    show "fl_holder (ca_flights (set_holder f h c) g) = Some t \<and> fst st \<le> ca_epoch (set_holder f h c) \<and>
        snd st \<le> fl_epoch (ca_flights (set_holder f h c) g) \<and>
        (st = started_at g (set_holder f h c) \<longrightarrow> sy_revoked s k < rd)"
      if "pc_reading p = Some (k, g, st, rd)" for k g st rd
      using mine [OF that] by (auto simp: set_holder_def sl started_at_def)
  qed
qed

lemma sys_ok_leave:
  assumes "sys_ok s" and "sy_pc s t = Leaving r f res"
  shows "sys_ok (moved s t (leave_flight (rq_full r) f (sy_cache s)) Idle)"
proof (rule sys_ok_moved [OF assms(1)])
  note ok = sys_okD [OF assms(1)]
  let ?c = "leave_flight (rq_full r) f (sy_cache s)"
  have c: "ca_entries ?c = ca_entries (sy_cache s)" "ca_capacity ?c = ca_capacity (sy_cache s)"
      "ca_epoch ?c = ca_epoch (sy_cache s)" "fl_holder (ca_flights ?c g) = fl_holder (ca_flights (sy_cache s) g)"
      "fl_epoch (ca_flights ?c g) = fl_epoch (ca_flights (sy_cache s) g)" for g
    by (auto simp: leave_flight_def Let_def)
  show "entries_ok ?c (sy_revoked s)"
    by (rule entries_ok_flights [OF ok(1)]) (simp_all add: c)
  show "flights_ok ?c ((sy_pc s)(t := Idle))"
    by (rule flights_ok_leave [OF ok(2)]) (simp add: assms(2))
  show "reading_ok (moved s t ?c Idle)"
    by (rule reading_ok_moved [OF ok(3)]) (simp_all add: c)
qed

lemma sys_ok_revoke:
  assumes "sys_ok s"
  shows "sys_ok (s\<lparr>sy_cache := invalidate k (sy_cache s), sy_time := sy_time s + 1, sy_revoked := (sy_revoked s)(k := sy_time s)\<rparr>)"
    (is "sys_ok ?s")
proof -
  note ok = sys_okD [OF assms]
  let ?c = "sy_cache s" and ?d = "invalidate k (sy_cache s)"
  have entries: "ca_entries ?d = AList.delete k (ca_entries ?c)"
    and c: "ca_capacity ?d = ca_capacity ?c" "ca_locks ?d = ca_locks ?c" "ca_next ?d = ca_next ?c" "ca_epoch ?d = ca_epoch ?c"
    using evict_same_locks [of _ k]
    by (auto simp: invalidate_def evict_entries same_locks_def split: option.splits)
  have fl: "fl_callers (ca_flights ?d f) = fl_callers (ca_flights ?c f)"
      "fl_holder (ca_flights ?d f) = fl_holder (ca_flights ?c f)"
      "fl_epoch (ca_flights ?d f) = fl_epoch (ca_flights ?c f) + (if map_of (ca_locks ?c) k = Some f then 1 else 0)" for f
    using evict_same_locks [of _ k]
    by (auto simp: invalidate_def same_locks_def split: option.splits)
  have "entries_ok ?d ((sy_revoked s)(k := sy_time s))"
    using ok(1) le_trans [OF length_filter_le [of "\<lambda>ke. fst ke \<noteq> k" "ca_entries ?c"]]
    by (auto simp: entries_ok_def entries c delete_filter distinct_map_filter)
  moreover have "flights_ok ?d (sy_pc s)"
    by (rule flights_ok_cong [OF ok(2)]) (simp_all add: c fl)
  moreover have "reading_ok ?s"
    unfolding reading_ok_def
  proof (intro allI impI)
    fix t j f st rd assume "pc_reading (sy_pc ?s t) = Some (j, f, st, rd)"
    then have r: "pc_reading (sy_pc s t) = Some (j, f, st, rd)"
      by simp
    note ro = reading_okD [OF ok(3) r]
    have "map_of (ca_locks ?c) j = Some f"
      using flights_okD(3) [OF ok(2) reading_flight [OF r]] .
    then have "st \<noteq> started_at f ?d" if "j = k"
      using ro(3) that by (auto simp: started_at_def fl)
    moreover have "st = started_at f ?d \<longrightarrow> st = started_at f ?c"
      using ro(3) by (auto simp: started_at_def fl c)
    ultimately show "fl_holder (ca_flights (sy_cache ?s) f) = Some t \<and> fst st \<le> ca_epoch (sy_cache ?s) \<and>
        snd st \<le> fl_epoch (ca_flights (sy_cache ?s) f) \<and> (st = started_at f (sy_cache ?s) \<longrightarrow> sy_revoked ?s j < rd)"
      using ro by (auto simp: fl c)
  qed
  moreover have "\<forall>j. ((sy_revoked s)(k := sy_time s)) j < sy_time s + 1"
    using ok(4) by (auto intro: less_SucI)
  ultimately show ?thesis
    by (simp add: sys_ok_def)
qed

lemma sys_ok_clear:
  assumes "sys_ok s"
  shows "sys_ok (s\<lparr>sy_cache := clear_cache (sy_cache s), sy_time := sy_time s + 1, sy_revoked := (\<lambda>_. sy_time s)\<rparr>)"
    (is "sys_ok ?s")
proof -
  note ok = sys_okD [OF assms]
  let ?c = "sy_cache s" and ?d = "clear_cache (sy_cache s)"
  have entries: "ca_entries ?d = []"
    by (simp add: clear_cache_def fold_evict_entries filter_empty_conv)
  have c: "ca_capacity ?d = ca_capacity ?c" "ca_locks ?d = ca_locks ?c" "ca_next ?d = ca_next ?c"
      "ca_epoch ?d = ca_epoch ?c + 1" "ca_flights ?d = ca_flights ?c"
    using fold_evict_same_locks [of "?c\<lparr>ca_epoch := ca_epoch ?c + 1\<rparr>"] by (auto simp: clear_cache_def same_locks_def)
  have "entries_ok ?d (\<lambda>_. sy_time s)"
    using ok(1) by (simp add: entries_ok_def entries c)
  moreover have "flights_ok ?d (sy_pc s)"
    by (rule flights_ok_cong [OF ok(2)]) (simp_all add: c)
  moreover have "reading_ok ?s"
    unfolding reading_ok_def
  proof (intro allI impI)
    fix t j f st rd assume "pc_reading (sy_pc ?s t) = Some (j, f, st, rd)"
    then have "pc_reading (sy_pc s t) = Some (j, f, st, rd)"
      by simp
    note ro = reading_okD [OF ok(3) this]
    show "fl_holder (ca_flights (sy_cache ?s) f) = Some t \<and> fst st \<le> ca_epoch (sy_cache ?s) \<and>
        snd st \<le> fl_epoch (ca_flights (sy_cache ?s) f) \<and> (st = started_at f (sy_cache ?s) \<longrightarrow> sy_revoked ?s j < rd)"
      using ro by (auto simp: c started_at_def)
  qed
  ultimately show ?thesis
    by (simp add: sys_ok_def)
qed

lemma sys_ok_step:
  assumes "cache_step s s'" and "sys_ok s"
  shows "sys_ok s'"
  using assms
proof (induction rule: cache_step.induct)
  case (enter s t r c f)
  then show ?case
    by (intro sys_ok_enter)
next
  case (hit s t r f c p)
  note ok = sys_okD [OF hit.prems]
  have sl: "same_locks (sy_cache s) c"
    using hit_locked_locks [OF hit.hyps(3)] .
  have "set_holder f (fl_holder (ca_flights c f)) c = c"
    by (simp add: set_holder_def)
  then show ?case
    using sys_ok_entries_step [OF hit.prems sl hit_locked_entries [OF hit.hyps(3) ok(1)], of "Leaving r f (Some p)" t
        "fl_holder (ca_flights c f)" f] hit.hyps(1) by simp
next
  case (miss s t r f c)
  note ok = sys_okD [OF miss.prems]
  have sl: "same_locks (sy_cache s) c"
    using hit_locked_locks [OF miss.hyps(3)] .
  have free: "\<forall>u. u \<noteq> t \<longrightarrow> (\<forall>k st rd. pc_reading (sy_pc s u) \<noteq> Some (k, f, st, rd))"
    using reading_okD(1) [OF ok(3)] miss.hyps(2) by (metis option.distinct(1))
  have eq: "ca_epoch c = ca_epoch (sy_cache s)" "ca_flights c = ca_flights (sy_cache s)"
    using sl by (simp_all add: same_locks_def)
  show ?case
    by (rule sys_ok_entries_step [OF miss.prems sl hit_locked_entries [OF miss.hyps(3) ok(1)]])
      (use free miss.hyps(1) ok(4) [of "rq_full r"] in \<open>auto simp: eq started_at_def\<close>)
next
  case (loaded s t r f started now rd p)
  note ok = sys_okD [OF loaded.prems]
  have "set_holder f (fl_holder (ca_flights (sy_cache s) f)) (sy_cache s) = sy_cache s"
    by (simp add: set_holder_def)
  moreover have "sys_ok (moved s t (set_holder f (fl_holder (ca_flights (sy_cache s) f)) (sy_cache s)) (Loaded r f started now rd p))"
    by (rule sys_ok_entries_step [OF loaded.prems same_locks_refl ok(1)])
      (use loaded.hyps reading_okD [OF ok(3), of t] in auto)
  ultimately show ?case
    by simp
next
  case (load_failed s t r f started now rd)
  note ok = sys_okD [OF load_failed.prems]
  have mine: "fl_holder (ca_flights (sy_cache s) f) = Some t"
    using reading_okD(1) [OF ok(3), of t] load_failed.hyps by simp
  have "\<forall>u. u \<noteq> t \<longrightarrow> (\<forall>k st rd. pc_reading (sy_pc s u) \<noteq> Some (k, f, st, rd))"
    using reading_okD(1) [OF ok(3)] mine by (metis option.inject)
  then show ?case
    by (intro sys_ok_entries_step [OF load_failed.prems same_locks_refl ok(1)]) (use load_failed.hyps in auto)
next
  case (store s t r f started now rd p)
  note ok = sys_okD [OF store.prems]
  have rd: "pc_reading (sy_pc s t) = Some (rq_full r, f, started, rd)"
    using store.hyps by simp
  note mine = reading_okD [OF ok(3) rd]
  have "\<forall>u. u \<noteq> t \<longrightarrow> (\<forall>k st rd. pc_reading (sy_pc s u) \<noteq> Some (k, f, st, rd))"
    using reading_okD(1) [OF ok(3)] mine(1) by (metis option.inject)
  then show ?case
    by (intro sys_ok_entries_step [OF store.prems store_loaded_locks [OF ok(1)] store_loaded_entries [OF ok(1) mine(4)]])
      (use store.hyps in auto)
next
  case (leave s t r f res)
  then show ?case
    by (intro sys_ok_leave)
next
  case (revoke s k)
  then show ?case
    by (intro sys_ok_revoke)
next
  case (clear s)
  then show ?case
    by (intro sys_ok_clear)
next
  case (tick s clk wall)
  have "reading_ok (s\<lparr>sy_clock := clk, sy_wall := wall, sy_time := sy_time s + 1\<rparr>)"
    using sys_okD(3) [OF tick.prems] unfolding reading_ok_def by simp
  moreover have "\<forall>k. sy_revoked s k < sy_time s + 1"
    using sys_okD(4) [OF tick.prems] by (auto intro: less_SucI)
  ultimately show ?case
    using sys_okD(1,2) [OF tick.prems] by (simp add: sys_ok_def)
qed

lemma sys_ok_init:
  assumes "new_cache n = Some c"
  shows "sys_ok (sys_init c clk wall)"
  using assms
  by (auto simp: new_cache_def sys_ok_def sys_init_def entries_ok_def flights_ok_def reading_ok_def inside_def
      split: if_splits)

lemma cache_reachable_ok:
  assumes "cache_reachable c s" and "new_cache n = Some c"
  shows "sys_ok s"
  using assms(1)
proof (induction rule: cache_reachable.induct)
  case (init clk wall)
  then show ?case
    by (rule sys_ok_init [OF assms(2)])
next
  case (step s s')
  then show ?case
    using sys_ok_step by blast
qed

lemma step_capacity: "cache_step s s' \<Longrightarrow> sys_ok s \<Longrightarrow> ca_capacity (sy_cache s') = ca_capacity (sy_cache s)"
proof (induction rule: cache_step.induct)
  case (enter s t r c f)
  then show ?case
    using enter_flight_facts(2) by (simp add: moved_def)
next
  case (store s t r f started now rd p)
  then show ?case
    using store_loaded_locks [OF sys_okD(1) [OF store.prems]]
    by (simp add: moved_def set_holder_def same_locks_def)
next
  case (revoke s k)
  then show ?case
    using evict_same_locks [of _ k] by (auto simp: invalidate_def same_locks_def split: option.splits)
next
  case (clear s)
  then show ?case
    using fold_evict_same_locks [of "sy_cache s\<lparr>ca_epoch := ca_epoch (sy_cache s) + 1\<rparr>"]
    by (simp add: clear_cache_def same_locks_def)
qed (auto simp: moved_def set_holder_def same_locks_def leave_flight_def Let_def dest!: hit_locked_locks)

lemma reachable_capacity:
  assumes "cache_reachable c s" and "new_cache n = Some c"
  shows "ca_capacity (sy_cache s) = ca_capacity c"
  using assms(1)
proof (induction rule: cache_reachable.induct)
  case (init clk wall)
  then show ?case
    by (simp add: sys_init_def)
next
  case (step s s')
  then show ?case
    using step_capacity cache_reachable_ok [OF step.hyps(1) assms(2)] by simp
qed

section \<open>Properties\<close>

definition demo_request :: request where
  "demo_request = \<lparr>rq_key = ''k'', rq_owners = [(7, 1)], rq_ttl = 30, rq_clock = 0\<rparr>"

lemma demo_cache_run:
  assumes "new_cache 2 = Some c"
  shows "\<exists>s f. cache_reachable c s \<and> sy_pc s 0 = Waiting demo_request f"
proof -
  let ?s = "sys_init c (\<lambda>_. 0) (\<lambda>_. 0)"
  obtain c' f where e: "enter_flight (sy_clock ?s) (rq_full demo_request) (sy_cache ?s) = (c', f)"
    by force
  have "cache_step ?s (moved ?s 0 c' (Waiting demo_request f))"
    by (rule cache_step.enter) (use e in \<open>simp_all add: sys_init_def\<close>)
  then have "cache_reachable c (moved ?s 0 c' (Waiting demo_request f))"
    by (rule cache_reachable.step [OF cache_reachable.init])
  then show ?thesis
    by (intro exI [of _ "moved ?s 0 c' (Waiting demo_request f)"] exI [of _ f]) (simp add: moved_def)
qed

definition demo_secret :: secret where
  "demo_secret = \<lparr>se_material = [1, 2], se_key_version = ''1'', se_requirement_ids = [''decoy-mask-root-v1''], se_expires_at = Some 100\<rparr>"

definition demo_entry :: entry where
  "demo_entry = \<lparr>en_master = demo_secret, en_deadline = 30, en_clock = 0, en_owners = [(7, 1)], en_inserted = 0,
     en_read = 2\<rparr>"

text \<open>A run that fills the cache: a caller enters, misses, loads and stores.\<close>

lemma demo_fill:
  assumes c: "new_cache 2 = Some c"
  shows "\<exists>s. cache_reachable c s \<and> ca_entries (sy_cache s) = [(rq_full demo_request, demo_entry)]"
proof -
  let ?z = "\<lambda>_. 0 :: int" and ?r = demo_request
  let ?s0 = "sys_init c ?z ?z"
  obtain c1 f where e: "enter_flight ?z (rq_full ?r) c = (c1, f)"
    by force
  have c1: "ca_entries c1 = []" "fl_holder (ca_flights c1 f) = None" "ca_capacity c1 = 2"
    using e c by (auto simp: enter_flight_def new_cache_def Let_def prune_locked_def)
  define s1 where "s1 = moved ?s0 0 c1 (Waiting ?r f)"
  define s2 where "s2 = moved s1 0 (set_holder f (Some 0) c1) (Loading ?r f (started_at f c1) 0 2)"
  define s3 where "s3 = moved s2 0 (sy_cache s2) (Loaded ?r f (started_at f c1) 0 2 demo_secret)"
  define s4 where "s4 = moved s3 0 (set_holder f None
    (store_loaded ?r f (started_at f c1) 0 0 2 demo_secret (sy_cache s3))) (Leaving ?r f (Some demo_secret))"
  have "cache_step ?s0 s1"
    unfolding s1_def by (rule cache_step.enter) (use e in \<open>simp_all add: sys_init_def\<close>)
  moreover have "cache_step s1 s2"
    using cache_step.miss [of s1 0 ?r f c1] c1
    by (simp add: s2_def s1_def moved_def sys_init_def hit_locked_def numeral_2_eq_2)
  moreover have "cache_step s2 s3"
    unfolding s3_def by (rule cache_step.loaded) (simp add: s2_def moved_def)
  moreover have "cache_step s3 s4"
    using cache_step.store [of s3 0 ?r f "started_at f c1" 0 2 demo_secret]
    by (simp add: s4_def s3_def s2_def s1_def moved_def sys_init_def)
  ultimately have "cache_reachable c s4"
    using cache_reachable.intros by metis
  moreover have "ca_entries (sy_cache s4) = [(rq_full ?r, demo_entry)]"
    using c1
    by (simp add: s4_def s3_def s2_def moved_def set_holder_def store_loaded_def cache_lifetime_def demo_secret_def
        demo_request_def EXPIRY_SKEW_SECONDS_def started_at_def insert_locked_def evict_locked_def make_room.simps
        demo_entry_def Let_def)
  ultimately show ?thesis
    by blast
qed

lemma demo_new_cache: "\<exists>c. new_cache 2 = Some c"
  by (simp add: new_cache_def)

text \<open>C18. Revocation is final. In every reachable state of any interleaving, no cached entry holds material
  whose read began before the last \<open>invalidate\<close> of its key or the last \<open>clear\<close>.\<close>

theorem revoked_material_never_cached:
  assumes "new_cache n = Some c" and "cache_reachable c s" and "(k, e) \<in> set (ca_entries (sy_cache s))"
  shows "sy_revoked s k < en_read e"
  using sys_okD(1) [OF cache_reachable_ok [OF assms(2,1)]] assms(3) by (auto simp: entries_ok_def)

theorem revoked_material_never_cached_witness:
  "\<exists>c s. new_cache 2 = Some c \<and> cache_reachable c s \<and> ca_entries (sy_cache s) \<noteq> [] \<and>
     sy_revoked s (rq_full demo_request) < en_read demo_entry"
proof -
  obtain c where c: "new_cache 2 = Some c"
    using demo_new_cache by blast
  obtain s where s: "cache_reachable c s" "ca_entries (sy_cache s) = [(rq_full demo_request, demo_entry)]"
    using demo_fill [OF c] by blast
  show ?thesis
    using revoked_material_never_cached [OF c s(1), of "rq_full demo_request" demo_entry] c s by auto
qed

text \<open>C37. Single flight and bounded tables. In every reachable state at most one thread is loading a given
  key, the lock table holds exactly the keys some thread is inside for, and the cache holds at most
  its capacity of entries, one per key.\<close>

theorem cache_single_flight_bounded:
  assumes "new_cache n = Some c" and "cache_reachable c s"
  shows "(\<forall>t u k f g st st' rd rd'. pc_reading (sy_pc s t) = Some (k, f, st, rd) \<longrightarrow>
      pc_reading (sy_pc s u) = Some (k, g, st', rd') \<longrightarrow> t = u) \<and>
    (\<forall>k. map_of (ca_locks (sy_cache s)) k \<noteq> None \<longleftrightarrow> (\<exists>t f. pc_flight (sy_pc s t) = Some (k, f))) \<and>
    length (ca_entries (sy_cache s)) \<le> nat n \<and> distinct (map fst (ca_entries (sy_cache s)))"
proof -
  note ok = sys_okD [OF cache_reachable_ok [OF assms(2,1)]]
  note d = flights_okD [OF ok(2)]
  have "t = u" if "pc_reading (sy_pc s t) = Some (k, f, st, rd)" "pc_reading (sy_pc s u) = Some (k, g, st', rd')"
    for t u k f g st st' rd rd'
  proof -
    have "f = g"
      using d(3) [OF reading_flight [OF that(1)]] d(3) [OF reading_flight [OF that(2)]] by simp
    then show ?thesis
      using reading_okD(1) [OF ok(3) that(1)] reading_okD(1) [OF ok(3) that(2)] by simp
  qed
  moreover have "map_of (ca_locks (sy_cache s)) k \<noteq> None \<longleftrightarrow> (\<exists>t f. pc_flight (sy_pc s t) = Some (k, f))" for k
    using d(3,5) by (metis not_Some_eq)
  moreover have "ca_capacity (sy_cache s) = nat n"
    using reachable_capacity [OF assms(2,1)] assms(1) by (auto simp: new_cache_def split: if_splits)
  ultimately show ?thesis
    using ok(1) unfolding entries_ok_def by metis
qed

theorem cache_single_flight_bounded_witness:
  "\<exists>c s. new_cache 2 = Some c \<and> cache_reachable c s \<and> sy_pc s 0 \<noteq> Idle \<and> length (ca_entries (sy_cache s)) \<le> 2"
proof -
  obtain c where c: "new_cache 2 = Some c"
    using demo_new_cache by blast
  obtain s f where s: "cache_reachable c s" "sy_pc s 0 = Waiting demo_request f"
    using demo_cache_run [OF c] by blast
  show ?thesis
    using cache_single_flight_bounded [OF c s(1)] c s by (intro exI [of _ c] exI [of _ s]) simp
qed

text \<open>A hit is fresh and belongs to the caller: the returned secret is the master of the entry under
  the caller's key, its owners are the caller's own objects (not only objects with the same
  addresses), its deadline has not passed and it is younger than the caller's time to live.\<close>

lemma cache_hit_fresh:
  assumes "hit_locked clk (full_key key owners) owners ttl c = (c', Some p)"
  shows "\<exists>e. map_of (ca_entries c) (full_key key owners) = Some e \<and> p = en_master e \<and> en_owners e = owners \<and>
    clk (en_clock e) < en_deadline e \<and> clk (en_clock e) - en_inserted e < ttl \<and> c' = c"
  using assms by (auto simp: hit_locked_def expired_def older_than_def split: option.splits if_splits)

end
