(* ===== verification/Budget_Ledger.thy ===== *)
theory Budget_Ledger
  imports Decoy_Prelude
begin

text \<open>
  The run-scoped memory ledger of bounded generation, \<open>generation/_budget_ledger.py\<close>: \<open>reserve\<close> charges
  a conservative bound or refuses before anything is allocated, and a reservation gives its charge
  back once, however often it is released. A run is a sequence of such calls, in any order and with
  any nesting; \<open>ledger_step\<close> is one call on the ledger and the reservations handed out so far.
\<close>

section \<open>Model\<close>

datatype ledger_error = GENERATION_BUDGET_EXCEEDED string int int int | LedgerValueError string

record ledger =
  ceiling_bytes :: "int option"
  charged_bytes :: int
  peak_bytes :: int
  ledger_events :: "(string \<times> int) list"

record reservation =
  res_stage :: string
  res_nbytes :: int
  res_released :: bool

definition new_ledger :: "int option \<Rightarrow> ledger" where
  "new_ledger ceiling = \<lparr>ceiling_bytes = ceiling, charged_bytes = 0, peak_bytes = 0, ledger_events = []\<rparr>"

definition bounded :: "ledger \<Rightarrow> bool" where
  "bounded l \<longleftrightarrow> ceiling_bytes l \<noteq> None"

definition remaining_bytes :: "ledger \<Rightarrow> int option" where
  "remaining_bytes l = map_option (\<lambda>c. c - charged_bytes l) (ceiling_bytes l)"

definition reserve :: "ledger \<Rightarrow> string \<Rightarrow> int \<Rightarrow> ledger_error + (ledger \<times> reservation)" where
  "reserve l stage n =
     (if n < 0 then Inl (LedgerValueError stage)
      else (case ceiling_bytes l of
          Some c \<Rightarrow>
            if charged_bytes l + n > c then Inl (GENERATION_BUDGET_EXCEEDED stage n (c - charged_bytes l) c)
            else Inr (l\<lparr>charged_bytes := charged_bytes l + n, peak_bytes := max (peak_bytes l) (charged_bytes l + n),
                        ledger_events := ledger_events l @ [(stage, n)]\<rparr>,
                      \<lparr>res_stage = stage, res_nbytes = n, res_released = False\<rparr>)
        | None \<Rightarrow>
            Inr (l\<lparr>charged_bytes := charged_bytes l + n, peak_bytes := max (peak_bytes l) (charged_bytes l + n),
                   ledger_events := ledger_events l @ [(stage, n)]\<rparr>,
                 \<lparr>res_stage = stage, res_nbytes = n, res_released = False\<rparr>)))"

definition ledger_release :: "ledger \<Rightarrow> int \<Rightarrow> ledger" where
  "ledger_release l n = l\<lparr>charged_bytes := charged_bytes l - n\<rparr>"

text \<open>\<open>Reservation.release\<close>, also the exit of a \<open>with\<close> block.\<close>

definition release :: "ledger \<Rightarrow> reservation \<Rightarrow> ledger \<times> reservation" where
  "release l r = (if res_released r then (l, r) else (ledger_release l (res_nbytes r), r\<lparr>res_released := True\<rparr>))"

inductive ledger_step :: "ledger \<times> reservation list \<Rightarrow> ledger \<times> reservation list \<Rightarrow> bool" where
  reserved: "reserve l stage n = Inr (l', r) \<Longrightarrow> ledger_step (l, rs) (l', rs @ [r])"
| refused: "reserve l stage n = Inl e \<Longrightarrow> ledger_step (l, rs) (l, rs)"
| released: "i < length rs \<Longrightarrow> release l (rs ! i) = (l', r) \<Longrightarrow> ledger_step (l, rs) (l', rs[i := r])"

inductive ledger_run :: "int option \<Rightarrow> ledger \<times> reservation list \<Rightarrow> bool" for ceiling where
  start: "ledger_run ceiling (new_ledger ceiling, [])"
| step: "ledger_run ceiling s \<Longrightarrow> ledger_step s s' \<Longrightarrow> ledger_run ceiling s'"

inductive_cases ledger_stepE: "ledger_step s s'"

section \<open>The invariant\<close>

definition held_bytes :: "reservation list \<Rightarrow> int" where
  "held_bytes rs = sum_list (map (\<lambda>r. if res_released r then 0 else res_nbytes r) rs)"

definition ledger_ok :: "int option \<Rightarrow> ledger \<times> reservation list \<Rightarrow> bool" where
  "ledger_ok ceiling s \<longleftrightarrow> ceiling_bytes (fst s) = ceiling \<and> charged_bytes (fst s) = held_bytes (snd s) \<and>
     (\<forall>r \<in> set (snd s). 0 \<le> res_nbytes r) \<and> charged_bytes (fst s) \<le> peak_bytes (fst s) \<and>
     (\<forall>c. ceiling = Some c \<longrightarrow> 0 \<le> c \<longrightarrow> peak_bytes (fst s) \<le> c) \<and>
     ledger_events (fst s) = map (\<lambda>r. (res_stage r, res_nbytes r)) (snd s)"

lemma held_bytes_snoc [simp]: "held_bytes (rs @ [r]) = held_bytes rs + (if res_released r then 0 else res_nbytes r)"
  by (simp add: held_bytes_def)

lemma held_bytes_update:
  assumes "i < length rs" and "\<not> res_released (rs ! i)"
  shows "held_bytes (rs[i := (rs ! i)\<lparr>res_released := True\<rparr>]) = held_bytes rs - res_nbytes (rs ! i)"
  using assms
proof (induction rs arbitrary: i)
  case (Cons r rs)
  then show ?case
    by (cases i) (auto simp: held_bytes_def)
qed simp

lemma held_bytes_nonneg: "\<forall>r \<in> set rs. 0 \<le> res_nbytes r \<Longrightarrow> 0 \<le> held_bytes rs"
  by (induction rs) (auto simp: held_bytes_def)

lemma ledger_ok_step:
  assumes "ledger_step s s'" and "ledger_ok ceiling s"
  shows "ledger_ok ceiling s'"
  using assms
proof (induction rule: ledger_step.induct)
  case (reserved l stage n l' r rs)
  then show ?case
    by (auto simp: reserve_def ledger_ok_def split: if_splits option.splits)
next
  case (refused l stage n e rs)
  then show ?case
    by simp
next
  case (released i rs l l' r)
  show ?case
  proof (cases "res_released (rs ! i)")
    case True
    then have "l' = l" "r = rs ! i"
      using released(2) by (auto simp: release_def)
    then show ?thesis
      using released(3) by simp
  next
    case False
    then have eq: "l' = ledger_release l (res_nbytes (rs ! i))" "r = (rs ! i)\<lparr>res_released := True\<rparr>"
      using released(2) by (auto simp: release_def)
    have "0 \<le> res_nbytes (rs ! i)"
      using released(1,3) by (auto simp: ledger_ok_def)
    then have "charged_bytes l - res_nbytes (rs ! i) \<le> peak_bytes l"
      using released(3) by (auto simp: ledger_ok_def)
    moreover have "map (\<lambda>r. (res_stage r, res_nbytes r)) (rs[i := r]) = map (\<lambda>r. (res_stage r, res_nbytes r)) rs"
      using released(1) eq(2) by (simp add: map_update list_update_same_conv)
    moreover have "\<forall>q \<in> set (rs[i := r]). 0 \<le> res_nbytes q"
      using released(1,3) eq(2) by (auto simp: ledger_ok_def dest!: set_update_subset_insert [THEN subsetD])
    ultimately show ?thesis
      using released False held_bytes_update [of i rs] eq
      by (auto simp: ledger_ok_def ledger_release_def)
  qed
qed

lemma ledger_run_ok: "ledger_run ceiling s \<Longrightarrow> ledger_ok ceiling s"
proof (induction rule: ledger_run.induct)
  case start
  then show ?case
    by (simp add: ledger_ok_def new_ledger_def held_bytes_def)
next
  case (step s s')
  then show ?case
    using ledger_ok_step by blast
qed

section \<open>Properties\<close>

text \<open>C25. In every state of a run the charge is exactly the sum of the reservations still held, it is not
  negative, the event log lists the granted reservations in order, and under a ceiling that is not
  negative neither the charge nor the peak ever passes it.\<close>

theorem ledger_charge_is_held:
  assumes "ledger_run ceiling (l, rs)"
  shows "charged_bytes l = held_bytes rs \<and> 0 \<le> charged_bytes l \<and> charged_bytes l \<le> peak_bytes l \<and>
    ledger_events l = map (\<lambda>r. (res_stage r, res_nbytes r)) rs \<and>
    (\<forall>c. ceiling = Some c \<and> 0 \<le> c \<longrightarrow> charged_bytes l \<le> c \<and> peak_bytes l \<le> c)"
  using ledger_run_ok [OF assms] held_bytes_nonneg [of rs] by (auto simp: ledger_ok_def intro: order_trans)

text \<open>C40. Once every reservation of a run has been released, any non-negative request that fits the ceiling
  is granted again.\<close>

theorem ledger_recovers:
  assumes "ledger_run ceiling (l, rs)" and "\<forall>r \<in> set rs. res_released r" and "0 \<le> n"
    and "\<forall>c. ceiling = Some c \<longrightarrow> n \<le> c"
  shows "\<exists>l' r. reserve l stage n = Inr (l', r) \<and> charged_bytes l' = n"
proof -
  have "held_bytes rs = 0"
    using assms(2) by (induction rs) (auto simp: held_bytes_def)
  then show ?thesis
    using ledger_run_ok [OF assms(1)] assms(3,4) by (auto simp: ledger_ok_def reserve_def split: option.splits)
qed

definition demo_reservation :: "bool \<Rightarrow> reservation" where
  "demo_reservation b = \<lparr>res_stage = ''pool'', res_nbytes = 60, res_released = b\<rparr>"

lemma demo_ledger_run:
  "ledger_run (Some 100) (\<lparr>ceiling_bytes = Some 100, charged_bytes = 0, peak_bytes = 60,
     ledger_events = [(''pool'', 60)]\<rparr>, [demo_reservation True])"
proof -
  let ?l = "\<lparr>ceiling_bytes = Some 100, charged_bytes = 60, peak_bytes = 60, ledger_events = [(''pool'', 60)]\<rparr>"
  have "ledger_step (new_ledger (Some 100), []) (?l, [] @ [demo_reservation False])"
    by (rule ledger_step.reserved [of _ "''pool''" 60]) (simp add: reserve_def new_ledger_def demo_reservation_def)
  then have "ledger_run (Some 100) (?l, [demo_reservation False])"
    using ledger_run.step [OF ledger_run.start] by simp
  moreover have "ledger_step (?l, [demo_reservation False]) (?l\<lparr>charged_bytes := 0\<rparr>, [demo_reservation False][0 := demo_reservation True])"
    by (rule ledger_step.released) (simp_all add: release_def ledger_release_def demo_reservation_def)
  ultimately show ?thesis
    using ledger_run.step by fastforce
qed

theorem ledger_charge_is_held_witness:
  "\<exists>l rs. ledger_run (Some 100) (l, rs) \<and> rs \<noteq> [] \<and> charged_bytes l = held_bytes rs \<and> peak_bytes l \<le> 100"
  using ledger_charge_is_held [OF demo_ledger_run] demo_ledger_run by fastforce

theorem ledger_recovers_witness:
  "\<exists>l rs l' r. ledger_run (Some 100) (l, rs) \<and> reserve l ''sink'' 100 = Inr (l', r)"
  using ledger_recovers [OF demo_ledger_run, of 100 "''sink''"] demo_ledger_run
  by (fastforce simp: demo_reservation_def)

end
