(* ===== verification/Dp_Session.thy ===== *)
theory Dp_Session
  imports Decoy_Prelude "HOL-Library.AList"
begin

text \<open>
  The differential-privacy release session: \<open>quality/dp_session.py\<close>, the schedule of \<open>quality/dp_schedule.py\<close>,
  the composition and bisection helpers of \<open>quality/dp_budget.py\<close> and the ledger of \<open>quality/dp_ledger.py\<close>.

  OpenDP is the backend: it builds measurements, each with its certificate and its noisy answer.
  \<open>dp_accounting\<close> composes certificates. Both are parameters, as is floating-point arithmetic: losses are
  of any type with a comparison, about which nothing is assumed. A session also keeps the list of
  measurements that were invoked on data, with the certificate of each: this is the privacy that was
  spent, whatever the session itself wrote down.
\<close>

section \<open>Model\<close>

datatype dp_code = DP_EPSILON_UNSUPPORTED | DP_BUDGET_INFEASIBLE | DP_CARRIER_BACKEND_UNSUPPORTED | DP_CARRIER_INVALID
  | DP_UNSCHEDULED_RELEASE | DP_DUPLICATE_RELEASE | DP_BUDGET_CATEGORICAL_PAIR_UNSCHEDULED | DP_SCHEDULE_INCOMPLETE

text \<open>\<open>OpenDpValueError\<close> is what a failed calibration raises; anything else a library raises is \<open>LibraryError\<close>.\<close>

datatype dp_error = DpBudgetError dp_code | OpenDpValueError | LibraryError

subsection \<open>Schedules\<close>

record 'n numeric_spec =
  nq_name :: string
  nq_edges :: "'n list"

record categorical_spec =
  cq_grouped :: string
  cq_total :: string
  cq_carrier :: string

record 'n schedule =
  sc_row_count :: string
  sc_numeric :: "'n numeric_spec list"
  sc_categorical :: "categorical_spec list"

definition query_count :: "'n schedule \<Rightarrow> nat" where
  "query_count sc = 1 + length (sc_numeric sc) + 2 * length (sc_categorical sc)"

definition query_names :: "'n schedule \<Rightarrow> string list" where
  "query_names sc = [sc_row_count sc] @ map nq_name (sc_numeric sc) @
     concat (map (\<lambda>q. [cq_grouped q, cq_total q]) (sc_categorical sc))"

type_synonym 'n signature = "string \<times> (string \<times> 'n list) list \<times> (string \<times> string \<times> string) list"

definition signature :: "'n schedule \<Rightarrow> 'n signature" where
  "signature sc = (sc_row_count sc, map (\<lambda>q. (nq_name q, nq_edges q)) (sc_numeric sc),
     map (\<lambda>q. (cq_grouped q, cq_total q, cq_carrier q)) (sc_categorical sc))"

subsection \<open>Floating point, measurements and accounting\<close>

text \<open>The float operations the session uses: \<open>(a + b) / 2.0\<close>, \<open>(d / 2.0) / n\<close>, \<open>math.isfinite\<close>, and the constants.\<close>

record 'n floats =
  fl_zero :: 'n
  fl_mid :: "'n \<Rightarrow> 'n \<Rightarrow> 'n"
  fl_half_share :: "'n \<Rightarrow> nat \<Rightarrow> 'n"
  fl_finite :: "'n \<Rightarrow> bool"
  fl_ceiling :: 'n
  fl_floor :: 'n

definition delta_per_categorical :: "'n floats \<Rightarrow> 'n schedule \<Rightarrow> 'n \<Rightarrow> 'n" where
  "delta_per_categorical F sc delta =
     (if sc_categorical sc = [] then fl_zero F else fl_half_share F delta (length (sc_categorical sc)))"

datatype 'n certificate = PureLoss 'n | ApproxLoss 'n 'n

datatype 'n dp_data = StrData "string list" | NumData "'n list" | FlagData "bool list"

text \<open>\<open>map(1)\<close> and \<open>invoke\<close> of a measurement; the answer depends on the data and on the noise drawn.\<close>

record ('n, 'r, 'v) measurement =
  ms_map :: "dp_error + 'n certificate"
  ms_invoke :: "'n dp_data \<Rightarrow> 'r \<Rightarrow> dp_error + 'v"

record ('n, 'r, 'v) backend =
  be_count :: "'n \<Rightarrow> dp_error + ('n, 'r, 'v) measurement"
  be_numeric :: "'n \<Rightarrow> 'n list \<Rightarrow> dp_error + ('n, 'r, 'v) measurement"
  be_categorical :: "'n \<Rightarrow> 'n \<Rightarrow> dp_error + ('n, 'r, 'v) measurement \<times> ('n, 'r, 'v) measurement"
  be_flag :: "('n \<Rightarrow> 'n \<Rightarrow> dp_error + ('n, 'r, 'v) measurement \<times> ('n, 'r, 'v) measurement) option"
  be_namespace :: "string option"

text \<open>\<open>from_privacy_parameters\<close>, \<open>compose\<close> and \<open>get_epsilon_for_delta\<close>.\<close>

record ('n, 'p) accounting =
  ac_pld :: "'n \<Rightarrow> 'n \<Rightarrow> 'p"
  ac_compose :: "'p \<Rightarrow> 'p \<Rightarrow> 'p"
  ac_epsilon :: "'p \<Rightarrow> 'n \<Rightarrow> 'n"

fun certificate_to_pld :: "'n floats \<Rightarrow> ('n, 'p) accounting \<Rightarrow> 'n certificate \<Rightarrow> 'p" where
  "certificate_to_pld F A (PureLoss e) = ac_pld A e (fl_zero F)"
| "certificate_to_pld F A (ApproxLoss e d) = ac_pld A e d"

text \<open>\<open>_compose\<close>; the list is never empty, the row count being always scheduled.\<close>

definition compose_all :: "'n floats \<Rightarrow> ('n, 'p) accounting \<Rightarrow> 'n certificate list \<Rightarrow> 'p" where
  "compose_all F A cs = (let plds = map (certificate_to_pld F A) cs in foldl (ac_compose A) (hd plds) (tl plds))"

definition composed_epsilon :: "'n floats \<Rightarrow> ('n, 'p) accounting \<Rightarrow> 'n \<Rightarrow> 'n certificate list \<Rightarrow> 'n" where
  "composed_epsilon F A delta cs = ac_epsilon A (compose_all F A cs) delta"

definition check_epsilon_supported :: "('n :: ord) floats \<Rightarrow> 'n \<Rightarrow> dp_error + unit" where
  "check_epsilon_supported F e = require (e \<le> fl_ceiling F) (DpBudgetError DP_EPSILON_UNSUPPORTED)"

subsection \<open>Allocation\<close>

definition categorical_measurements ::
    "('n, 'r, 'v) backend \<Rightarrow> 'n \<Rightarrow> 'n \<Rightarrow> string \<Rightarrow> dp_error + ('n, 'r, 'v) measurement \<times> ('n, 'r, 'v) measurement" where
  "categorical_measurements B eps_q delta_alloc carrier =
     (if carrier = ''text'' then be_categorical B eps_q delta_alloc
      else if carrier = ''flag'' then
        (case be_flag B of
           None \<Rightarrow> Inl (DpBudgetError DP_CARRIER_BACKEND_UNSUPPORTED)
         | Some mk \<Rightarrow> mk eps_q delta_alloc)
      else Inl (DpBudgetError DP_CARRIER_INVALID))"

definition certify_numeric :: "('n, 'r, 'v) backend \<Rightarrow> 'n \<Rightarrow> 'n numeric_spec \<Rightarrow> dp_error + 'n certificate" where
  "certify_numeric B eps_q q = and_then (be_numeric B eps_q (nq_edges q)) ms_map"

definition certify_categorical ::
    "('n, 'r, 'v) backend \<Rightarrow> 'n \<Rightarrow> 'n \<Rightarrow> categorical_spec \<Rightarrow> dp_error + 'n certificate list" where
  "certify_categorical B eps_q delta_alloc q =
     and_then (categorical_measurements B eps_q delta_alloc (cq_carrier q)) (\<lambda>(grouped, tot).
     and_then (ms_map grouped) (\<lambda>cg. and_then (ms_map tot) (\<lambda>ct. Inr [cg, ct])))"

definition certify_schedule ::
    "('n, 'r, 'v) backend \<Rightarrow> 'n schedule \<Rightarrow> 'n \<Rightarrow> 'n \<Rightarrow> dp_error + 'n certificate list" where
  "certify_schedule B sc delta_alloc eps_q =
     and_then (and_then (be_count B eps_q) ms_map) (\<lambda>c.
     and_then (map_result (certify_numeric B eps_q) (sc_numeric sc)) (\<lambda>ns.
     and_then (map_result (certify_categorical B eps_q delta_alloc) (sc_categorical sc)) (\<lambda>cs.
     Inr ([c] @ ns @ concat cs))))"

text \<open>A failed calibration means that this \<open>eps_q\<close> is out of reach; other errors pass through.\<close>

definition composed_epsilon_or_none ::
    "'n floats \<Rightarrow> ('n, 'p) accounting \<Rightarrow> ('n, 'r, 'v) backend \<Rightarrow> 'n schedule \<Rightarrow> 'n \<Rightarrow> 'n \<Rightarrow> dp_error + 'n option" where
  "composed_epsilon_or_none F A B sc delta eps_q =
     (case certify_schedule B sc (delta_per_categorical F sc delta) eps_q of
        Inl OpenDpValueError \<Rightarrow> Inr None
      | Inl e \<Rightarrow> Inl e
      | Inr cs \<Rightarrow> Inr (Some (composed_epsilon F A delta cs)))"

definition PLD_SEARCH_ITERATIONS :: nat where "PLD_SEARCH_ITERATIONS = 40"

fun bisect :: "'n floats \<Rightarrow> ('n \<Rightarrow> dp_error + bool) \<Rightarrow> nat \<Rightarrow> 'n \<Rightarrow> 'n \<Rightarrow> dp_error + 'n \<times> 'n" where
  "bisect F up 0 lo hi = Inr (lo, hi)"
| "bisect F up (Suc n) lo hi =
     (let mid = fl_mid F lo hi in
      and_then (up mid) (\<lambda>b. if b then bisect F up n mid hi else bisect F up n lo mid))"

definition search_largest :: "'n floats \<Rightarrow> ('n \<Rightarrow> dp_error + bool) \<Rightarrow> 'n \<Rightarrow> 'n \<Rightarrow> dp_error + 'n" where
  "search_largest F holds lower upper =
     and_then (holds lower) (\<lambda>b.
       if \<not> b then Inr lower
       else and_then (bisect F holds PLD_SEARCH_ITERATIONS lower upper) (\<lambda>(lo, hi). Inr lo))"

definition allocate_epsilon ::
    "('n :: ord) floats \<Rightarrow> ('n, 'p) accounting \<Rightarrow> ('n, 'r, 'v) backend \<Rightarrow> 'n schedule \<Rightarrow> 'n \<Rightarrow> 'n \<Rightarrow> dp_error + 'n" where
  "allocate_epsilon F A B sc epsilon delta =
     (let ceo = composed_epsilon_or_none F A B sc delta;
          infeasible = DpBudgetError DP_BUDGET_INFEASIBLE;
          within = (\<lambda>r. case r of None \<Rightarrow> False | Some c \<Rightarrow> c \<le> epsilon);
          over = (\<lambda>r. case r of None \<Rightarrow> True | Some c \<Rightarrow> epsilon < c) in
      and_then (ceo epsilon) (\<lambda>r. and_then (require (r \<noteq> None) infeasible) (\<lambda>_.
      and_then (bisect F (\<lambda>e. and_then (ceo e) (\<lambda>r. Inr (r = None))) PLD_SEARCH_ITERATIONS (fl_floor F) epsilon) (\<lambda>(lo, feasible_floor).
      and_then (ceo feasible_floor) (\<lambda>r. and_then (require (\<not> over r) infeasible) (\<lambda>_.
      and_then (search_largest F (\<lambda>e. and_then (ceo e) (\<lambda>r. Inr (within r))) feasible_floor epsilon) (\<lambda>eps_q.
      and_then (ceo eps_q) (\<lambda>r. and_then (require (\<not> over r) infeasible) (\<lambda>_. Inr eps_q)))))))))"

text \<open>The module-level cache of allocations. \<open>versions\<close> are the versions of the two libraries.\<close>

type_synonym 'n cache_key = "'n signature \<times> 'n \<times> 'n \<times> (string \<times> string) \<times> string"

definition budget_cache_key :: "string \<times> string \<Rightarrow> 'n schedule \<Rightarrow> 'n \<Rightarrow> 'n \<Rightarrow> string \<Rightarrow> 'n cache_key" where
  "budget_cache_key versions sc epsilon delta namespace = (signature sc, epsilon, delta, versions, namespace)"

definition allocate_epsilon_cached ::
    "('n :: ord) floats \<Rightarrow> ('n, 'p) accounting \<Rightarrow> ('n, 'r, 'v) backend \<Rightarrow> string \<times> string \<Rightarrow> 'n schedule \<Rightarrow> 'n \<Rightarrow> 'n \<Rightarrow>
      ('n cache_key \<rightharpoonup> 'n) \<Rightarrow> dp_error + 'n \<times> ('n cache_key \<rightharpoonup> 'n)" where
  "allocate_epsilon_cached F A B versions sc epsilon delta cache =
     (case be_namespace B of
        None \<Rightarrow> and_then (allocate_epsilon F A B sc epsilon delta) (\<lambda>q. Inr (q, cache))
      | Some ns \<Rightarrow>
          (let key = budget_cache_key versions sc epsilon delta ns in
           case cache key of
             Some q \<Rightarrow> Inr (q, cache)
           | None \<Rightarrow> and_then (allocate_epsilon F A B sc epsilon delta) (\<lambda>q. Inr (q, cache(key \<mapsto> q)))))"

subsection \<open>The session\<close>

record ('n, 'v) session =
  se_schedule :: "'n schedule"
  se_epsilon :: 'n
  se_delta :: 'n
  se_delta_per_categorical :: 'n
  se_releases :: "(string \<times> 'n certificate \<times> 'v) list"
  se_reserved :: "string set"
  se_eps_q :: 'n
  se_invoked :: "(string \<times> 'n certificate) list"

definition new_session ::
    "('n :: ord) floats \<Rightarrow> ('n, 'p) accounting \<Rightarrow> ('n, 'r, 'v) backend \<Rightarrow> string \<times> string \<Rightarrow> 'n schedule \<Rightarrow> 'n \<Rightarrow> 'n \<Rightarrow>
      ('n cache_key \<rightharpoonup> 'n) \<Rightarrow> dp_error + ('n, 'v) session \<times> ('n cache_key \<rightharpoonup> 'n)" where
  "new_session F A B versions sc epsilon delta cache =
     and_then (check_epsilon_supported F epsilon) (\<lambda>_.
     and_then (allocate_epsilon_cached F A B versions sc epsilon delta cache) (\<lambda>(q, cache').
     Inr (\<lparr>se_schedule = sc, se_epsilon = epsilon, se_delta = delta,
            se_delta_per_categorical = delta_per_categorical F sc delta, se_releases = [], se_reserved = {}, se_eps_q = q,
            se_invoked = []\<rparr>, cache')))"

definition admit :: "string \<Rightarrow> ('n, 'v) session \<Rightarrow> dp_error + ('n, 'v) session" where
  "admit name s =
     (if name \<notin> set (query_names (se_schedule s)) then Inl (DpBudgetError DP_UNSCHEDULED_RELEASE)
      else if map_of (se_releases s) name \<noteq> None \<or> name \<in> se_reserved s then Inl (DpBudgetError DP_DUPLICATE_RELEASE)
      else Inr (s\<lparr>se_reserved := insert name (se_reserved s)\<rparr>))"

text \<open>\<open>_record\<close>: only reached with a name that has no entry, so the entry goes to the end of the dict.\<close>

definition record_release :: "string \<Rightarrow> 'n certificate \<Rightarrow> 'v \<Rightarrow> ('n, 'v) session \<Rightarrow> ('n, 'v) session" where
  "record_release name c v s = s\<lparr>se_releases := AList.update name (c, v) (se_releases s), se_reserved := se_reserved s - {name}\<rparr>"

text \<open>Read the certificate, then invoke, then record. An error of the mechanism leaves the name reserved.\<close>

definition invoke_and_record ::
    "string \<Rightarrow> ('n, 'r, 'v) measurement \<Rightarrow> 'n dp_data \<Rightarrow> 'r \<Rightarrow> ('n, 'v) session \<Rightarrow> (dp_error + 'v) \<times> ('n, 'v) session" where
  "invoke_and_record name m data r s =
     (case ms_map m of
        Inl e \<Rightarrow> (Inl e, s)
      | Inr c \<Rightarrow>
          (let s1 = s\<lparr>se_invoked := se_invoked s @ [(name, c)]\<rparr> in
           case ms_invoke m data r of
             Inl e \<Rightarrow> (Inl e, s1)
           | Inr v \<Rightarrow> (Inr v, record_release name c v s1)))"

definition release_row_count ::
    "('n, 'r, 'v) backend \<Rightarrow> int \<Rightarrow> 'r \<Rightarrow> ('n, 'v) session \<Rightarrow> (dp_error + 'v) \<times> ('n, 'v) session" where
  "release_row_count B row_count r s =
     (let name = sc_row_count (se_schedule s) in
      case admit name s of
        Inl e \<Rightarrow> (Inl e, s)
      | Inr s1 \<Rightarrow>
          (case be_count B (se_eps_q s1) of
             Inl e \<Rightarrow> (Inl e, s1)
           | Inr m \<Rightarrow> invoke_and_record name m (StrData (replicate (nat row_count) [])) r s1))"

definition release_numeric ::
    "('n, 'r, 'v) backend \<Rightarrow> string \<Rightarrow> 'n list \<Rightarrow> 'r \<Rightarrow> ('n, 'v) session \<Rightarrow> (dp_error + 'v) \<times> ('n, 'v) session" where
  "release_numeric B name values r s =
     (case find (\<lambda>q. nq_name q = name) (sc_numeric (se_schedule s)) of
        None \<Rightarrow> (Inl (DpBudgetError DP_UNSCHEDULED_RELEASE), s)
      | Some spec \<Rightarrow>
          (case admit name s of
             Inl e \<Rightarrow> (Inl e, s)
           | Inr s1 \<Rightarrow>
               (case be_numeric B (se_eps_q s1) (nq_edges spec) of
                  Inl e \<Rightarrow> (Inl e, s1)
                | Inr m \<Rightarrow> invoke_and_record name m (NumData values) r s1)))"

definition release_categorical ::
    "('n, 'r, 'v) backend \<Rightarrow> string \<Rightarrow> string \<Rightarrow> 'n dp_data \<Rightarrow> 'r \<Rightarrow> 'r \<Rightarrow> ('n, 'v) session \<Rightarrow>
      (dp_error + 'v \<times> 'v) \<times> ('n, 'v) session" where
  "release_categorical B grouped_name total_name values r1 r2 s =
     (case admit grouped_name s of
        Inl e \<Rightarrow> (Inl e, s)
      | Inr s1 \<Rightarrow>
     (case admit total_name s1 of
        Inl e \<Rightarrow> (Inl e, s1)
      | Inr s2 \<Rightarrow>
     (case find (\<lambda>q. cq_grouped q = grouped_name \<and> cq_total q = total_name) (sc_categorical (se_schedule s2)) of
        None \<Rightarrow> (Inl (DpBudgetError DP_BUDGET_CATEGORICAL_PAIR_UNSCHEDULED), s2)
      | Some spec \<Rightarrow>
     (case categorical_measurements B (se_eps_q s2) (se_delta_per_categorical s2) (cq_carrier spec) of
        Inl e \<Rightarrow> (Inl e, s2)
      | Inr (grouped, tot) \<Rightarrow>
     (case invoke_and_record grouped_name grouped values r1 s2 of
        (Inl e, s3) \<Rightarrow> (Inl e, s3)
      | (Inr g, s3) \<Rightarrow>
     (case invoke_and_record total_name tot values r2 s3 of
        (Inl e, s4) \<Rightarrow> (Inl e, s4)
      | (Inr t, s4) \<Rightarrow> (Inr (g, t), s4)))))))"

definition certificate_count :: "('n, 'v) session \<Rightarrow> nat" where
  "certificate_count s = length (se_releases s)"

definition composed_loss :: "('n :: ord) floats \<Rightarrow> ('n, 'p) accounting \<Rightarrow> ('n, 'v) session \<Rightarrow> dp_error + 'n \<times> 'n" where
  "composed_loss F A s =
     (let names = query_names (se_schedule s);
          missing = filter (\<lambda>n. map_of (se_releases s) n = None) names;
          certificates = map (\<lambda>n. fst (the (map_of (se_releases s) n))) names;
          tot = composed_epsilon F A (se_delta s) certificates in
      and_then (require (missing = []) (DpBudgetError DP_SCHEDULE_INCOMPLETE)) (\<lambda>_.
      and_then (require (fl_finite F tot) (DpBudgetError DP_BUDGET_INFEASIBLE)) (\<lambda>_.
      and_then (require (\<not> se_epsilon s < tot) (DpBudgetError DP_BUDGET_INFEASIBLE)) (\<lambda>_.
      Inr (tot, se_delta s)))))"

text \<open>Any sequence of release calls, failed ones included.\<close>

datatype ('n, 'r) dp_call = CallRowCount int 'r | CallNumeric string "'n list" 'r | CallCategorical string string "'n dp_data" 'r 'r

fun dp_step :: "('n, 'r, 'v) backend \<Rightarrow> ('n, 'v) session \<Rightarrow> ('n, 'r) dp_call \<Rightarrow> ('n, 'v) session" where
  "dp_step B s (CallRowCount n r) = snd (release_row_count B n r s)"
| "dp_step B s (CallNumeric name vs r) = snd (release_numeric B name vs r s)"
| "dp_step B s (CallCategorical g t d r1 r2) = snd (release_categorical B g t d r1 r2 s)"

definition dp_run :: "('n, 'r, 'v) backend \<Rightarrow> ('n, 'r) dp_call list \<Rightarrow> ('n, 'v) session \<Rightarrow> ('n, 'v) session" where
  "dp_run B calls s = foldl (dp_step B) s calls"

section \<open>The ledger of releases\<close>

text \<open>\<open>ReleaseLedger\<close>: totals of finished releases; \<open>math.fsum\<close> is a parameter.\<close>

record 'n ledger_charge =
  lc_label :: string
  lc_epsilon :: 'n
  lc_delta :: 'n

datatype ledger_value_error = NegativeEpsilon | NegativeDelta

definition charge ::
    "('n :: ord) floats \<Rightarrow> string \<Rightarrow> 'n \<Rightarrow> 'n \<Rightarrow> 'n ledger_charge list \<Rightarrow> ledger_value_error + 'n ledger_charge list" where
  "charge F label e d cs =
     (if e < fl_zero F then Inl NegativeEpsilon
      else if d < fl_zero F then Inl NegativeDelta
      else Inr (cs @ [\<lparr>lc_label = label, lc_epsilon = e, lc_delta = d\<rparr>]))"

definition total_epsilon :: "('n list \<Rightarrow> 'n) \<Rightarrow> 'n ledger_charge list \<Rightarrow> 'n" where
  "total_epsilon fsum cs = fsum (map lc_epsilon cs)"

definition total_delta :: "('n list \<Rightarrow> 'n) \<Rightarrow> 'n ledger_charge list \<Rightarrow> 'n" where
  "total_delta fsum cs = fsum (map lc_delta cs)"

section \<open>Invariants\<close>

text \<open>The names no call can be admitted for any more.\<close>

definition taken :: "('n, 'v) session \<Rightarrow> string set" where
  "taken s = dom (map_of (se_releases s)) \<union> se_reserved s"

text \<open>What was invoked is scheduled, was invoked once, and cannot be admitted again; what is recorded was
  invoked with that certificate; and every certificate is one that \<open>ok\<close> allows for its name.\<close>

definition session_ok :: "(string \<Rightarrow> 'n certificate \<Rightarrow> bool) \<Rightarrow> ('n, 'v) session \<Rightarrow> bool" where
  "session_ok ok s \<longleftrightarrow>
     distinct (map fst (se_invoked s)) \<and> fst ` set (se_invoked s) \<subseteq> taken s \<and> taken s \<subseteq> set (query_names (se_schedule s)) \<and>
     (\<forall>n x. map_of (se_releases s) n = Some x \<longrightarrow> (n, fst x) \<in> set (se_invoked s)) \<and>
     (\<forall>x \<in> set (se_invoked s). ok (fst x) (snd x))"

text \<open>The public request of a session, which no call changes.\<close>

definition request :: "('n, 'v) session \<Rightarrow> 'n schedule \<times> 'n \<times> 'n \<times> 'n \<times> 'n" where
  "request s = (se_schedule s, se_epsilon s, se_delta s, se_delta_per_categorical s, se_eps_q s)"

text \<open>A name that is reserved and whose measurement has not run yet.\<close>

definition pending :: "string \<Rightarrow> ('n, 'v) session \<Rightarrow> bool" where
  "pending name s \<longleftrightarrow> name \<in> se_reserved s \<and> name \<notin> fst ` set (se_invoked s)"

lemma session_ok_released:
  assumes "session_ok ok s" and "map_of (se_releases s) n = Some x"
  shows "(n, fst x) \<in> set (se_invoked s)" and "ok n (fst x)"
  using assms unfolding session_ok_def by (metis fst_conv snd_conv)+

lemma admit_Inr:
  "admit name s = Inr s' \<longleftrightarrow>
     name \<in> set (query_names (se_schedule s)) \<and> name \<notin> taken s \<and> s' = s\<lparr>se_reserved := insert name (se_reserved s)\<rparr>"
  by (auto simp: admit_def taken_def)

lemma admit_ok:
  assumes "session_ok ok s" and "admit name s = Inr s'"
  shows "session_ok ok s' \<and> pending name s' \<and> request s' = request s \<and> (\<forall>n. pending n s \<longrightarrow> pending n s')"
proof -
  have a: "name \<in> set (query_names (se_schedule s))" "name \<notin> taken s" "s' = s\<lparr>se_reserved := insert name (se_reserved s)\<rparr>"
    using assms(2) by (simp_all add: admit_Inr)
  then have "taken s' = insert name (taken s)"
    by (auto simp: taken_def)
  then have "session_ok ok s'"
    using assms(1) a by (auto simp: session_ok_def)
  moreover have "pending name s'"
    using assms(1) a by (auto simp: session_ok_def pending_def)
  ultimately show ?thesis
    using a by (auto simp: request_def pending_def)
qed

lemma invoke_ok:
  assumes s: "session_ok ok s" and name: "pending name s" and m: "\<And>c. ms_map m = Inr c \<Longrightarrow> ok name c"
  shows "session_ok ok (snd (invoke_and_record name m data r s)) \<and> request (snd (invoke_and_record name m data r s)) = request s \<and>
    (\<forall>n. n \<noteq> name \<longrightarrow> pending n s \<longrightarrow> pending n (snd (invoke_and_record name m data r s)))"
proof (cases "ms_map m")
  case (Inl e)
  then show ?thesis
    using s by (simp add: invoke_and_record_def)
next
  case (Inr c)
  define s1 where "s1 = s\<lparr>se_invoked := se_invoked s @ [(name, c)]\<rparr>"
  have "taken s1 = taken s" "name \<in> taken s"
    using name by (auto simp: s1_def taken_def pending_def)
  then have s1: "session_ok ok s1"
    using s name m [OF Inr] by (auto simp: s1_def session_ok_def pending_def)
  have "taken (record_release name c v s1) = taken s1" for v
    using name by (auto simp: record_release_def taken_def s1_def pending_def update_conv')
  then have rec: "session_ok ok (record_release name c v s1)" for v
    using s1 by (simp add: record_release_def session_ok_def s1_def update_conv') blast
  have "snd (invoke_and_record name m data r s) = s1 \<or> (\<exists>v. snd (invoke_and_record name m data r s) = record_release name c v s1)"
    using Inr by (auto simp: invoke_and_record_def Let_def s1_def split: sum.splits)
  then show ?thesis
    using s1 rec by (auto simp: request_def pending_def record_release_def s1_def)
qed

text \<open>The certificates a backend gives for a request: those of the measurements it builds for each name.\<close>

definition backend_certificate ::
    "('n, 'r, 'v) backend \<Rightarrow> 'n schedule \<times> 'n \<times> 'n \<times> 'n \<times> 'n \<Rightarrow> string \<Rightarrow> 'n certificate \<Rightarrow> bool" where
  "backend_certificate B req name c \<longleftrightarrow>
     (case req of (sc, _, _, delta_alloc, eps_q) \<Rightarrow>
        name = sc_row_count sc \<and> and_then (be_count B eps_q) ms_map = Inr c \<or>
        (\<exists>q \<in> set (sc_numeric sc). nq_name q = name \<and> certify_numeric B eps_q q = Inr c) \<or>
        (\<exists>q \<in> set (sc_categorical sc). \<exists>grouped tot.
           categorical_measurements B eps_q delta_alloc (cq_carrier q) = Inr (grouped, tot) \<and>
           (cq_grouped q = name \<and> ms_map grouped = Inr c \<or> cq_total q = name \<and> ms_map tot = Inr c)))"

lemma row_count_ok:
  assumes "session_ok (backend_certificate B (request s)) s"
  shows "session_ok (backend_certificate B (request s)) (snd (release_row_count B n r s)) \<and>
    request (snd (release_row_count B n r s)) = request s"
proof (cases "admit (sc_row_count (se_schedule s)) s")
  case (Inr s1)
  note a = admit_ok [OF assms Inr]
  show ?thesis
  proof (cases "be_count B (se_eps_q s1)")
    case m: (Inr m)
    have "backend_certificate B (request s) (sc_row_count (se_schedule s)) c" if "ms_map m = Inr c" for c
      using that m a by (auto simp: backend_certificate_def request_def)
    then show ?thesis
      using invoke_ok [of "backend_certificate B (request s)" s1 "sc_row_count (se_schedule s)" m] a Inr m
      by (simp add: release_row_count_def)
  qed (use a Inr in \<open>simp add: release_row_count_def\<close>)
qed (use assms in \<open>simp add: release_row_count_def\<close>)

lemma numeric_ok:
  assumes "session_ok (backend_certificate B (request s)) s"
  shows "session_ok (backend_certificate B (request s)) (snd (release_numeric B name vs r s)) \<and>
    request (snd (release_numeric B name vs r s)) = request s"
proof (cases "find (\<lambda>q. nq_name q = name) (sc_numeric (se_schedule s))")
  case (Some q)
  then have q: "q \<in> set (sc_numeric (se_schedule s))" "nq_name q = name"
    by (auto simp: find_Some_iff)
  show ?thesis
  proof (cases "admit name s")
    case (Inr s1)
    note a = admit_ok [OF assms Inr]
    show ?thesis
    proof (cases "be_numeric B (se_eps_q s1) (nq_edges q)")
      case m: (Inr m)
      have "backend_certificate B (request s) name c" if "ms_map m = Inr c" for c
        using that m a q by (auto simp: backend_certificate_def request_def certify_numeric_def)
      then show ?thesis
        using invoke_ok [of "backend_certificate B (request s)" s1 name m] a Some Inr m by (simp add: release_numeric_def)
    qed (use a Some Inr in \<open>simp add: release_numeric_def\<close>)
  qed (use assms Some in \<open>simp add: release_numeric_def\<close>)
qed (use assms in \<open>simp add: release_numeric_def\<close>)

lemma categorical_ok:
  assumes "session_ok (backend_certificate B (request s)) s"
  shows "session_ok (backend_certificate B (request s)) (snd (release_categorical B g t d r1 r2 s)) \<and>
    request (snd (release_categorical B g t d r1 r2 s)) = request s"
proof -
  let ?ok = "backend_certificate B (request s)"
  consider (no_grouped) e where "admit g s = Inl e"
    | (no_total) e s1 where "admit g s = Inr s1" "admit t s1 = Inl e"
    | (both) s1 s2 where "admit g s = Inr s1" "admit t s1 = Inr s2"
    by (cases "admit g s") (metis sum.exhaust)+
  then show ?thesis
  proof cases
    case no_grouped
    then show ?thesis using assms by (simp add: release_categorical_def)
  next
    case no_total
    then show ?thesis using admit_ok [OF assms] by (simp add: release_categorical_def)
  next
    case both
    note a1 = admit_ok [OF assms both(1)]
    then have a2: "session_ok ?ok s2" "pending g s2" "pending t s2" "request s2 = request s" "g \<noteq> t"
      using admit_ok [OF _ both(2)] both by (auto simp: admit_Inr taken_def)
    consider (stop) e where "release_categorical B g t d r1 r2 s = (Inl e, s2)"
      | (go) q mg mt where "q \<in> set (sc_categorical (se_schedule s2))" "cq_grouped q = g" "cq_total q = t"
          "categorical_measurements B (se_eps_q s2) (se_delta_per_categorical s2) (cq_carrier q) = Inr (mg, mt)"
          "snd (release_categorical B g t d r1 r2 s) = snd (invoke_and_record g mg d r1 s2) \<or>
           snd (release_categorical B g t d r1 r2 s) = snd (invoke_and_record t mt d r2 (snd (invoke_and_record g mg d r1 s2)))"
    proof (cases "find (\<lambda>q. cq_grouped q = g \<and> cq_total q = t) (sc_categorical (se_schedule s2))")
      case None
      then show ?thesis
        using both that(1) by (simp add: release_categorical_def)
    next
      case (Some q)
      then have q: "q \<in> set (sc_categorical (se_schedule s2))" "cq_grouped q = g" "cq_total q = t"
        by (auto simp: find_Some_iff)
      show ?thesis
      proof (cases "categorical_measurements B (se_eps_q s2) (se_delta_per_categorical s2) (cq_carrier q)")
        case (Inl e)
        then show ?thesis
          using both Some that(1) by (simp add: release_categorical_def)
      next
        case (Inr ms)
        obtain mg mt where ms: "ms = (mg, mt)"
          by (cases ms)
        show ?thesis
          using that(2) [OF q, of mg mt] both Some Inr ms
          by (simp add: release_categorical_def split: prod.splits sum.splits)
      qed
    qed
    then show ?thesis
    proof cases
      case stop
      then show ?thesis using a2 by simp
    next
      case go
      have cert: "?ok g c" if "ms_map mg = Inr c" for c
        using that go a2(4) by (auto simp: backend_certificate_def request_def)
      have cert': "?ok t c" if "ms_map mt = Inr c" for c
        using that go a2(4) by (auto simp: backend_certificate_def request_def)
      note i1 = invoke_ok [of ?ok s2 g mg d r1, OF a2(1,2) cert]
      then have "session_ok ?ok (snd (invoke_and_record g mg d r1 s2))" "pending t (snd (invoke_and_record g mg d r1 s2))"
        using a2(3,5) by auto
      then show ?thesis
        using invoke_ok [of ?ok "snd (invoke_and_record g mg d r1 s2)" t mt d r2, OF _ _ cert'] i1 go(5) a2(4) by auto
    qed
  qed
qed

lemma dp_run_ok:
  assumes "session_ok (backend_certificate B (request s)) s"
  shows "session_ok (backend_certificate B (request s)) (dp_run B calls s) \<and> request (dp_run B calls s) = request s"
  using assms
proof (induction calls arbitrary: s)
  case (Cons c calls)
  have "session_ok (backend_certificate B (request s)) (dp_step B s c) \<and> request (dp_step B s c) = request s"
    using row_count_ok [OF Cons.prems] numeric_ok [OF Cons.prems] categorical_ok [OF Cons.prems] by (cases c) simp_all
  then show ?case
    using Cons.IH [of "dp_step B s c"] by (simp add: dp_run_def)
qed (simp add: dp_run_def)

subsection \<open>Allocation\<close>

lemma allocate_epsilon_sound:
  assumes "allocate_epsilon F A B sc epsilon delta = Inr q"
  shows "\<exists>cs. certify_schedule B sc (delta_per_categorical F sc delta) q = Inr cs \<and> \<not> epsilon < composed_epsilon F A delta cs"
proof -
  obtain r where r: "composed_epsilon_or_none F A B sc delta q = Inr r" "\<not> (case r of None \<Rightarrow> True | Some c \<Rightarrow> epsilon < c)"
    using assms by (auto simp: allocate_epsilon_def Let_def result_simps)
  then obtain c where "r = Some c" "\<not> epsilon < c"
    by (auto split: option.splits)
  then show ?thesis
    using r(1) by (auto simp: composed_epsilon_or_none_def split: sum.splits dp_error.splits)
qed

text \<open>Every cached allocation is the one the search gives for its key.\<close>

definition cache_sound ::
    "('n :: ord) floats \<Rightarrow> ('n, 'p) accounting \<Rightarrow> ('n, 'r, 'v) backend \<Rightarrow> string \<times> string \<Rightarrow> ('n cache_key \<rightharpoonup> 'n) \<Rightarrow> bool" where
  "cache_sound F A B versions cache \<longleftrightarrow>
     (\<forall>sc epsilon delta ns q. be_namespace B = Some ns \<longrightarrow> cache (budget_cache_key versions sc epsilon delta ns) = Some q \<longrightarrow>
        allocate_epsilon F A B sc epsilon delta = Inr q)"

lemma map_triple_inj:
  fixes qs qs' :: "categorical_spec list"
  shows "map (\<lambda>q. (cq_grouped q, cq_total q, cq_carrier q)) qs = map (\<lambda>q. (cq_grouped q, cq_total q, cq_carrier q)) qs' \<Longrightarrow> qs = qs'"
  by (rule injD [OF inj_mapI]) (auto intro: injI)

lemma map_numeric_inj:
  fixes qs qs' :: "'n numeric_spec list"
  shows "map (\<lambda>q. (nq_name q, nq_edges q)) qs = map (\<lambda>q. (nq_name q, nq_edges q)) qs' \<Longrightarrow> qs = qs'"
  by (rule injD [OF inj_mapI]) (auto intro: injI)

lemma signature_inj:
  fixes sc sc' :: "'n schedule"
  assumes "signature sc = signature sc'"
  shows "sc = sc'"
  using assms map_triple_inj [of "sc_categorical sc" "sc_categorical sc'"] map_numeric_inj [of "sc_numeric sc" "sc_numeric sc'"]
  by (simp add: signature_def)

lemma allocate_cached:
  assumes "cache_sound F A B versions cache" and "allocate_epsilon_cached F A B versions sc epsilon delta cache = Inr (q, cache')"
  shows "allocate_epsilon F A B sc epsilon delta = Inr q \<and> cache_sound F A B versions cache'"
proof (cases "be_namespace B")
  case None
  then show ?thesis
    using assms by (auto simp: allocate_epsilon_cached_def result_simps)
next
  case (Some ns)
  let ?key = "budget_cache_key versions sc epsilon delta ns"
  show ?thesis
  proof (cases "cache ?key")
    case None
    then have q: "allocate_epsilon F A B sc epsilon delta = Inr q" "cache' = cache(?key \<mapsto> q)"
      using assms(2) Some by (auto simp: allocate_epsilon_cached_def Let_def result_simps)
    have "sc' = sc \<and> e' = epsilon \<and> d' = delta" if "budget_cache_key versions sc' e' d' ns = ?key" for sc' e' d'
      using that signature_inj [of sc' sc] by (simp add: budget_cache_key_def)
    then show ?thesis
      using q assms(1) Some by (auto simp: cache_sound_def)
  next
    case (Some q')
    then show ?thesis
      using assms \<open>be_namespace B = Some ns\<close> by (auto simp: allocate_epsilon_cached_def cache_sound_def Let_def)
  qed
qed

subsection \<open>Certificates in schedule order\<close>

lemma certify_categoricals:
  assumes "map_result (certify_categorical B eps_q delta_alloc) qs = Inr css"
  shows "length (concat css) = length (concat (map (\<lambda>q. [cq_grouped q, cq_total q]) qs))"
    and "q \<in> set qs \<Longrightarrow> categorical_measurements B eps_q delta_alloc (cq_carrier q) = Inr (mg, mt) \<Longrightarrow>
      (\<exists>cg ct. ms_map mg = Inr cg \<and> ms_map mt = Inr ct \<and>
        {(cq_grouped q, cg), (cq_total q, ct)} \<subseteq> set (zip (concat (map (\<lambda>q. [cq_grouped q, cq_total q]) qs)) (concat css)))"
proof -
  have "length (concat css) = length (concat (map (\<lambda>q. [cq_grouped q, cq_total q]) qs)) \<and>
    (\<forall>q mg mt. q \<in> set qs \<longrightarrow> categorical_measurements B eps_q delta_alloc (cq_carrier q) = Inr (mg, mt) \<longrightarrow>
      (\<exists>cg ct. ms_map mg = Inr cg \<and> ms_map mt = Inr ct \<and>
        {(cq_grouped q, cg), (cq_total q, ct)} \<subseteq> set (zip (concat (map (\<lambda>q. [cq_grouped q, cq_total q]) qs)) (concat css))))"
    using assms
  proof (induction qs arbitrary: css)
    case (Cons q qs)
    obtain cs css' where c: "certify_categorical B eps_q delta_alloc q = Inr cs" "map_result (certify_categorical B eps_q delta_alloc) qs = Inr css'"
        "css = cs # css'"
      using Cons.prems by (auto simp: result_simps)
    then obtain mg mt cg ct where m: "categorical_measurements B eps_q delta_alloc (cq_carrier q) = Inr (mg, mt)" "ms_map mg = Inr cg"
        "ms_map mt = Inr ct" "cs = [cg, ct]"
      by (auto simp: certify_categorical_def result_simps)
    show ?case
      using Cons.IH [OF c(2)] c(3) m by fastforce
  qed simp
  then show "length (concat css) = length (concat (map (\<lambda>q. [cq_grouped q, cq_total q]) qs))"
    and "q \<in> set qs \<Longrightarrow> categorical_measurements B eps_q delta_alloc (cq_carrier q) = Inr (mg, mt) \<Longrightarrow>
      (\<exists>cg ct. ms_map mg = Inr cg \<and> ms_map mt = Inr ct \<and>
        {(cq_grouped q, cg), (cq_total q, ct)} \<subseteq> set (zip (concat (map (\<lambda>q. [cq_grouped q, cq_total q]) qs)) (concat css)))"
    by blast+
qed

lemma certify_schedule_zip:
  assumes "certify_schedule B sc delta_alloc eps_q = Inr cs"
  shows "length cs = length (query_names sc)"
    and "backend_certificate B (sc, e, d, delta_alloc, eps_q) n c \<Longrightarrow> (n, c) \<in> set (zip (query_names sc) cs)"
proof -
  obtain c0 ns css where p: "and_then (be_count B eps_q) ms_map = Inr c0" "map_result (certify_numeric B eps_q) (sc_numeric sc) = Inr ns"
      "map_result (certify_categorical B eps_q delta_alloc) (sc_categorical sc) = Inr css" and cs: "cs = [c0] @ ns @ concat css"
    using assms by (auto simp: certify_schedule_def result_simps)
  note cat = certify_categoricals [OF p(3)]
  have len: "length ns = length (sc_numeric sc)"
    using map_result_length [OF p(2)] .
  show "length cs = length (query_names sc)"
    using cat(1) len by (simp add: cs query_names_def)
  have zip: "zip (query_names sc) cs = (sc_row_count sc, c0) # zip (map nq_name (sc_numeric sc)) ns @
      zip (concat (map (\<lambda>q. [cq_grouped q, cq_total q]) (sc_categorical sc))) (concat css)"
    using len by (simp add: cs query_names_def)
  have num: "(nq_name q, c) \<in> set (zip (map nq_name (sc_numeric sc)) ns)" if q: "q \<in> set (sc_numeric sc)" "certify_numeric B eps_q q = Inr c" for q
  proof -
    obtain i where i: "i < length (sc_numeric sc)" "sc_numeric sc ! i = q"
      using q(1) by (auto simp: in_set_conv_nth)
    then have "ns ! i = c"
      using map_result_nth [OF p(2) i(1)] q(2) by simp
    then show ?thesis
      using i len by (auto simp: set_zip intro!: exI [of _ i])
  qed
  show "(n, c) \<in> set (zip (query_names sc) cs)" if "backend_certificate B (sc, e, d, delta_alloc, eps_q) n c"
    using that num cat(2) p(1) unfolding zip backend_certificate_def by fastforce
qed

section \<open>Properties\<close>

text \<open>C10. A fit spends privacy only where it accounts for it. Whatever calls are made on a session, failed
  ones included, only scheduled measurements run and none runs twice. And when the session reports a
  fit-wide loss, every scheduled measurement has run, the loss is the composition of the certificates
  of exactly the measurements that ran, and it is not above the request.\<close>

theorem dp_loss_covers_every_release:
  assumes "new_session F A B versions sc epsilon delta cache = Inr (s, cache')"
  shows "distinct (map fst (se_invoked (dp_run B calls s))) \<and> fst ` set (se_invoked (dp_run B calls s)) \<subseteq> set (query_names sc) \<and>
    (\<forall>e d. composed_loss F A (dp_run B calls s) = Inr (e, d) \<longrightarrow>
      fst ` set (se_invoked (dp_run B calls s)) = set (query_names sc) \<and>
      e = composed_epsilon F A delta (map (\<lambda>n. the (map_of (se_invoked (dp_run B calls s)) n)) (query_names sc)) \<and>
      \<not> epsilon < e \<and> d = delta)"
proof -
  let ?s = "dp_run B calls s"
  have s: "request s = (sc, epsilon, delta, delta_per_categorical F sc delta, se_eps_q s)" "se_invoked s = []" "taken s = {}"
      "se_releases s = []"
    using assms by (auto simp: new_session_def request_def taken_def result_simps)
  then have "session_ok (backend_certificate B (request s)) s"
    by (simp add: session_ok_def)
  then have ok: "session_ok (backend_certificate B (request s)) ?s" and req: "request ?s = request s"
    using dp_run_ok by blast+
  have sc: "se_schedule ?s = sc" "se_epsilon ?s = epsilon" "se_delta ?s = delta"
    using req s(1) by (auto simp: request_def)
  have inv: "distinct (map fst (se_invoked ?s))" "fst ` set (se_invoked ?s) \<subseteq> set (query_names sc)"
    using ok sc by (auto simp: session_ok_def)
  have "fst ` set (se_invoked ?s) = set (query_names sc) \<and>
      e = composed_epsilon F A delta (map (\<lambda>n. the (map_of (se_invoked ?s) n)) (query_names sc)) \<and> \<not> epsilon < e \<and> d = delta"
    if loss: "composed_loss F A ?s = Inr (e, d)" for e d
  proof -
    have all: "\<forall>n \<in> set (query_names sc). map_of (se_releases ?s) n \<noteq> None"
      and e: "e = composed_epsilon F A delta (map (\<lambda>n. fst (the (map_of (se_releases ?s) n))) (query_names sc))" "\<not> epsilon < e" "d = delta"
      using loss by (auto simp: composed_loss_def Let_def result_simps sc filter_empty_conv)
    have same: "map_of (se_invoked ?s) n = Some (fst (the (map_of (se_releases ?s) n)))" if n: "n \<in> set (query_names sc)" for n
    proof -
      obtain x where x: "map_of (se_releases ?s) n = Some x"
        using all n by blast
      then have "(n, fst x) \<in> set (se_invoked ?s)"
        using session_ok_released(1) [OF ok] by simp
      then show ?thesis
        using x inv(1) by (simp add: map_of_eq_Some_iff)
    qed
    have "set (query_names sc) \<subseteq> fst ` set (se_invoked ?s)"
      using same by (metis map_of_SomeD image_eqI fst_conv subsetI)
    moreover have "map (\<lambda>n. fst (the (map_of (se_releases ?s) n))) (query_names sc) = map (\<lambda>n. the (map_of (se_invoked ?s) n)) (query_names sc)"
      using same by simp
    ultimately show ?thesis
      using e inv(2) by (metis subset_antisym)
  qed
  then show ?thesis
    using inv by blast
qed

text \<open>C29. The receipt is the allocation's promise. With distinct query names and a sound allocation cache,
  once every scheduled query is released the session reports exactly the loss the allocation search
  computed before any data was read, which is within the request; only a loss that is not finite is
  refused.\<close>

theorem dp_receipt_is_allocated_loss:
  assumes "new_session F A B versions sc epsilon delta cache = Inr (s, cache')" and "cache_sound F A B versions cache"
    and "distinct (query_names sc)" and "\<forall>n \<in> set (query_names sc). map_of (se_releases (dp_run B calls s)) n \<noteq> None"
  shows "\<exists>cs. certify_schedule B sc (delta_per_categorical F sc delta) (se_eps_q s) = Inr cs \<and>
    \<not> epsilon < composed_epsilon F A delta cs \<and>
    composed_loss F A (dp_run B calls s) =
      (if fl_finite F (composed_epsilon F A delta cs) then Inr (composed_epsilon F A delta cs, delta)
       else Inl (DpBudgetError DP_BUDGET_INFEASIBLE))"
proof -
  let ?s = "dp_run B calls s"
  obtain q where q: "allocate_epsilon_cached F A B versions sc epsilon delta cache = Inr (q, cache')"
    and s: "request s = (sc, epsilon, delta, delta_per_categorical F sc delta, q)" "se_invoked s = []" "taken s = {}" "se_releases s = []"
    using assms(1) by (auto simp: new_session_def request_def taken_def result_simps)
  then have "session_ok (backend_certificate B (request s)) s"
    by (simp add: session_ok_def)
  then have ok: "session_ok (backend_certificate B (request s)) ?s" and req: "request ?s = request s"
    using dp_run_ok by blast+
  obtain cs where cs: "certify_schedule B sc (delta_per_categorical F sc delta) q = Inr cs" "\<not> epsilon < composed_epsilon F A delta cs"
    using allocate_epsilon_sound allocate_cached [OF assms(2) q] by blast
  note z = certify_schedule_zip [OF cs(1)]
  have "fst (the (map_of (se_releases ?s) n)) = the (map_of (zip (query_names sc) cs) n)" if n: "n \<in> set (query_names sc)" for n
  proof -
    obtain x where x: "map_of (se_releases ?s) n = Some x"
      using assms(4) n by blast
    then have "backend_certificate B (request s) n (fst x)"
      using session_ok_released(2) [OF ok] by simp
    then have "(n, fst x) \<in> set (zip (query_names sc) cs)"
      using z(2) s(1) by simp
    then show ?thesis
      using x assms(3) z(1) by (simp add: map_of_eq_Some_iff)
  qed
  then have certs: "map (\<lambda>n. fst (the (map_of (se_releases ?s) n))) (query_names sc) = map (\<lambda>n. the (map_of (zip (query_names sc) cs) n)) (query_names sc)"
    by simp
  also have "\<dots> = cs"
    using assms(3) z(1) by (auto intro: nth_equalityI simp: map_of_zip_nth)
  finally have certs: "map (\<lambda>n. fst (the (map_of (se_releases ?s) n))) (query_names sc) = cs" .
  have "filter (\<lambda>n. map_of (se_releases ?s) n = None) (query_names sc) = []"
    using assms(4) by (simp add: filter_empty_conv)
  moreover have "se_schedule ?s = sc" "se_epsilon ?s = epsilon" "se_delta ?s = delta" "se_eps_q s = q"
    using req s(1) by (auto simp: request_def)
  ultimately show ?thesis
    using cs certs by (simp add: composed_loss_def Let_def require_def)
qed

text \<open>A backend over whole-number losses, for two columns.\<close>

definition demo_floats :: "nat floats" where
  "demo_floats = \<lparr>fl_zero = 0, fl_mid = \<lambda>a b. (a + b) div 2, fl_half_share = \<lambda>d n. d div 2 div n, fl_finite = \<lambda>_. True,
     fl_ceiling = 700, fl_floor = 1\<rparr>"

definition demo_accounting :: "(nat, nat) accounting" where
  "demo_accounting = \<lparr>ac_pld = \<lambda>e d. e, ac_compose = (+), ac_epsilon = \<lambda>p d. p\<rparr>"

definition demo_measurement :: "nat \<Rightarrow> (nat, unit, nat) measurement" where
  "demo_measurement e = \<lparr>ms_map = Inr (PureLoss e), ms_invoke = \<lambda>data r. Inr 7\<rparr>"

definition demo_backend :: "(nat, unit, nat) backend" where
  "demo_backend = \<lparr>be_count = \<lambda>e. Inr (demo_measurement e), be_numeric = \<lambda>e edges. Inr (demo_measurement e),
     be_categorical = \<lambda>e d. Inr (demo_measurement e, demo_measurement e), be_flag = None, be_namespace = None\<rparr>"

definition demo_schedule :: "nat schedule" where
  "demo_schedule = \<lparr>sc_row_count = ''rows'', sc_numeric = [\<lparr>nq_name = ''age'', nq_edges = [10, 20]\<rparr>],
     sc_categorical = [\<lparr>cq_grouped = ''g'', cq_total = ''t'', cq_carrier = ''text''\<rparr>]\<rparr>"

definition demo_calls :: "(nat, unit) dp_call list" where
  "demo_calls = [CallRowCount 3 (), CallNumeric ''age'' [5, 15, 25] (), CallNumeric ''age'' [5] (),
     CallCategorical ''g'' ''t'' (StrData [''a'', ''b'', ''a'']) () ()]"

lemmas demo_dp_defs = demo_floats_def demo_accounting_def demo_measurement_def demo_backend_def demo_schedule_def

lemmas demo_alloc_defs = allocate_epsilon_def composed_epsilon_or_none_def certify_schedule_def certify_numeric_def
  certify_categorical_def categorical_measurements_def composed_epsilon_def compose_all_def search_largest_def
  delta_per_categorical_def PLD_SEARCH_ITERATIONS_def

lemma demo_composed: "composed_epsilon_or_none demo_floats demo_accounting demo_backend demo_schedule 0 e = Inr (Some (4 * e))"
  by (simp add: demo_dp_defs demo_alloc_defs)

definition demo_session :: "(nat, nat) session" where
  "demo_session = \<lparr>se_schedule = demo_schedule, se_epsilon = 8, se_delta = 0, se_delta_per_categorical = 0, se_releases = [],
     se_reserved = {}, se_eps_q = 2, se_invoked = []\<rparr>"

lemma demo_allocates: "allocate_epsilon demo_floats demo_accounting demo_backend demo_schedule 8 0 = Inr 2"
  by code_simp

lemma demo_new_session:
  "new_session demo_floats demo_accounting demo_backend ([], []) demo_schedule 8 0 Map.empty = Inr (demo_session, Map.empty)"
proof -
  have "be_namespace demo_backend = None"
    by (simp add: demo_backend_def)
  then show ?thesis
    using demo_allocates
    by (simp add: new_session_def allocate_epsilon_cached_def check_epsilon_supported_def demo_session_def delta_per_categorical_def demo_floats_def)
qed

lemma demo_loss: "composed_loss demo_floats demo_accounting (dp_run demo_backend demo_calls demo_session) = Inr (8, 0)"
  by code_simp

theorem dp_loss_covers_every_release_witness:
  "\<exists>s c. new_session demo_floats demo_accounting demo_backend ([], []) demo_schedule 8 0 Map.empty = Inr (s, c) \<and>
     distinct (map fst (se_invoked (dp_run demo_backend demo_calls s))) \<and>
     fst ` set (se_invoked (dp_run demo_backend demo_calls s)) = set (query_names demo_schedule)"
proof (intro exI conjI)
  note run = dp_loss_covers_every_release [OF demo_new_session, of demo_calls]
  show "new_session demo_floats demo_accounting demo_backend ([], []) demo_schedule 8 0 Map.empty = Inr (demo_session, Map.empty)"
    by (rule demo_new_session)
  show "distinct (map fst (se_invoked (dp_run demo_backend demo_calls demo_session)))"
    using run by simp
  show "fst ` set (se_invoked (dp_run demo_backend demo_calls demo_session)) = set (query_names demo_schedule)"
    using run demo_loss by simp
qed

theorem dp_receipt_is_allocated_loss_witness:
  "\<exists>s c. new_session demo_floats demo_accounting demo_backend ([], []) demo_schedule 8 0 Map.empty = Inr (s, c) \<and>
     (\<exists>cs. certify_schedule demo_backend demo_schedule (delta_per_categorical demo_floats demo_schedule 0) (se_eps_q s) = Inr cs \<and>
       \<not> 8 < composed_epsilon demo_floats demo_accounting 0 cs)"
proof -
  have "cache_sound demo_floats demo_accounting demo_backend ([], []) Map.empty"
    by (simp add: cache_sound_def)
  moreover have "distinct (query_names demo_schedule)"
    by (simp add: query_names_def demo_schedule_def)
  moreover have "\<forall>n \<in> set (query_names demo_schedule). map_of (se_releases (dp_run demo_backend demo_calls demo_session)) n \<noteq> None"
    by code_simp
  ultimately obtain cs where
    "certify_schedule demo_backend demo_schedule (delta_per_categorical demo_floats demo_schedule 0) (se_eps_q demo_session) = Inr cs"
    "\<not> 8 < composed_epsilon demo_floats demo_accounting 0 cs"
    using dp_receipt_is_allocated_loss [OF demo_new_session, of demo_calls] by auto
  then show ?thesis
    using demo_new_session by (intro exI [of _ demo_session] exI [of _ "Map.empty"]) auto
qed

end
