(* ===== verification/Calendar.thy ===== *)
theory Calendar
  imports Decoy_Prelude
begin

text \<open>
  The part of Python's \<open>datetime\<close> and \<open>calendar\<close> the date strategies use: dates of the proleptic
  Gregorian calendar from year 1 to 9999, their ordinals, weekdays, month lengths, and \<open>date + timedelta\<close> of
  whole days, which raises \<open>OverflowError\<close> outside that range.
\<close>

section \<open>Model\<close>

record date =
  d_year :: nat
  d_month :: nat
  d_day :: nat

definition MINYEAR :: nat where "MINYEAR = 1"
definition MAXYEAR :: nat where "MAXYEAR = 9999"

definition is_leap :: "nat \<Rightarrow> bool" where
  "is_leap y \<longleftrightarrow> y mod 4 = 0 \<and> (y mod 100 \<noteq> 0 \<or> y mod 400 = 0)"

definition days_in_month :: "nat \<Rightarrow> nat \<Rightarrow> nat" where
  "days_in_month y m = (if m = 2 then (if is_leap y then 29 else 28) else if m \<in> {4, 6, 9, 11} then 30 else 31)"

definition valid_date :: "date \<Rightarrow> bool" where
  "valid_date d \<longleftrightarrow> MINYEAR \<le> d_year d \<and> d_year d \<le> MAXYEAR \<and> 1 \<le> d_month d \<and> d_month d \<le> 12 \<and>
     1 \<le> d_day d \<and> d_day d \<le> days_in_month (d_year d) (d_month d)"

definition days_in_year :: "nat \<Rightarrow> nat" where
  "days_in_year y = (if is_leap y then 366 else 365)"

definition days_before_month :: "nat \<Rightarrow> nat \<Rightarrow> nat" where
  "days_before_month y m = sum_list (map (days_in_month y) [1..<m])"

text \<open>The days before the first of January: \<open>_days_before_year\<close>.\<close>

definition days_before_year :: "nat \<Rightarrow> nat" where
  "days_before_year year = (let y = year - 1 in y * 365 + y div 4 - y div 100 + y div 400)"

definition toordinal :: "date \<Rightarrow> nat" where
  "toordinal d = days_before_year (d_year d) + days_before_month (d_year d) (d_month d) + d_day d"

definition MAXORDINAL :: nat where "MAXORDINAL = 3652059"

text \<open>The date of an ordinal: the year counted up from an estimate that is not too late, then the month.\<close>

lemma days_in_year_pos [simp]: "0 < days_in_year y"
  by (simp add: days_in_year_def)

function year_of :: "nat \<Rightarrow> nat \<Rightarrow> nat \<times> nat" where
  "year_of y n = (if n \<le> days_in_year y then (y, n) else year_of (y + 1) (n - days_in_year y))"
  by auto
termination
  by (relation "measure snd") (auto intro: diff_less)

lemma days_in_month_pos [simp]: "0 < days_in_month y m"
  by (simp add: days_in_month_def)

function month_of :: "nat \<Rightarrow> nat \<Rightarrow> nat \<Rightarrow> nat \<times> nat" where
  "month_of y m n = (if n \<le> days_in_month y m then (m, n) else month_of y (m + 1) (n - days_in_month y m))"
  by auto
termination
  by (relation "measure (\<lambda>(y, m, n). n)") (auto intro: diff_less)

declare year_of.simps [simp del] month_of.simps [simp del]

definition fromordinal :: "nat \<Rightarrow> date" where
  "fromordinal n =
     (let y0 = max 1 (n div 366);
          (y, k) = year_of y0 (n - days_before_year y0);
          (m, dd) = month_of y 1 k in
      \<lparr>d_year = y, d_month = m, d_day = dd\<rparr>)"

datatype date_error = OverflowError | DateValueError

definition date_add :: "date \<Rightarrow> int \<Rightarrow> date_error + date" where
  "date_add d days =
     (let n = int (toordinal d) + days in
      if 1 \<le> n \<and> n \<le> int MAXORDINAL then Inr (fromordinal (nat n)) else Inl OverflowError)"

text \<open>Monday is 0.\<close>

definition weekday :: "date \<Rightarrow> nat" where
  "weekday d = (toordinal d + 6) mod 7"

definition make_date :: "nat \<Rightarrow> nat \<Rightarrow> nat \<Rightarrow> date_error + date" where
  "make_date y m d = (let dt = \<lparr>d_year = y, d_month = m, d_day = d\<rparr> in if valid_date dt then Inr dt else Inl DateValueError)"

section \<open>Ordinals\<close>

lemma days_before_year_Suc:
  assumes "1 \<le> y"
  shows "days_before_year (y + 1) = days_before_year y + days_in_year y"
proof -
  obtain k where k: "y = Suc k"
    using assms by (cases y) auto
  have step: "Suc k div 4 = k div 4 + (if Suc k mod 4 = 0 then 1 else 0)" "Suc k div 100 = k div 100 + (if Suc k mod 100 = 0 then 1 else 0)"
      "Suc k div 400 = k div 400 + (if Suc k mod 400 = 0 then 1 else 0)"
    by (simp_all add: div_Suc)
  have le: "k div 100 \<le> k div 4"
    by (rule div_le_mono2) auto
  have dvd: "Suc k mod 400 = 0 \<Longrightarrow> Suc k mod 100 = 0" "Suc k mod 100 = 0 \<Longrightarrow> Suc k mod 4 = 0"
    by (auto simp: mod_eq_0_iff_dvd intro: dvd_trans [of 100 400] dvd_trans [of 4 100])
  show ?thesis
    using le dvd by (simp add: k days_before_year_def Let_def days_in_year_def is_leap_def step ac_simps)
qed

lemma days_before_year_mono: "1 \<le> y \<Longrightarrow> y \<le> z \<Longrightarrow> days_before_year y \<le> days_before_year z"
proof (induction z)
  case (Suc z)
  then show ?case
    using days_before_year_Suc [of z] by (cases "y = Suc z") auto
qed simp

lemma days_before_year_le: "1 \<le> y \<Longrightarrow> days_before_year y \<le> 366 * (y - 1)"
proof (induction y)
  case (Suc y)
  then show ?case
    using days_before_year_Suc [of y] by (cases "y = 0") (auto simp: days_before_year_def days_in_year_def split: if_splits)
qed simp

lemma days_before_month_Suc: "1 \<le> m \<Longrightarrow> days_before_month y (m + 1) = days_before_month y m + days_in_month y m"
  by (simp add: days_before_month_def)

lemma days_before_month_1 [simp]: "days_before_month y (Suc 0) = 0" "days_before_month y 1 = 0"
  by (simp_all add: days_before_month_def)

lemma upto_12: "[1..<13] = [1, 2, 3, 4, 5, 6, 7, 8, 9, 10, 11, 12 :: nat]"
  by (simp add: upt_rec)

lemma days_in_year_months: "days_in_year y = days_before_month y 13"
  unfolding days_before_month_def upto_12 by (simp add: days_in_year_def days_in_month_def)

lemma days_before_month_mono: "1 \<le> m \<Longrightarrow> m \<le> k \<Longrightarrow> days_before_month y m \<le> days_before_month y k"
proof (induction k)
  case (Suc k)
  then show ?case
    using days_before_month_Suc [of k y] by (cases "m = Suc k") auto
qed simp

lemma day_of_year_le:
  assumes "1 \<le> m" "m \<le> 12" "d \<le> days_in_month y m"
  shows "days_before_month y m + d \<le> days_in_year y"
  using days_before_month_mono [of "m + 1" 13 y] days_before_month_Suc [of m y] assms by (simp add: days_in_year_months)

lemma year_of_days:
  assumes "1 \<le> y" "1 \<le> n" "year_of y n = (z, k)"
  shows "y \<le> z \<and> 1 \<le> k \<and> k \<le> days_in_year z \<and> days_before_year y + n = days_before_year z + k"
  using assms
proof (induction y n rule: year_of.induct)
  case (1 y n)
  then show ?case
    using days_before_year_Suc [of y] by (cases "n \<le> days_in_year y") (force simp: year_of.simps [of y n])+
qed

lemma month_of_days:
  assumes "1 \<le> m" "1 \<le> n" "days_before_month y m + n \<le> days_in_year y" "m \<le> 12" "month_of y m n = (j, k)"
  shows "1 \<le> j \<and> j \<le> 12 \<and> 1 \<le> k \<and> k \<le> days_in_month y j \<and> days_before_month y m + n = days_before_month y j + k"
  using assms
proof (induction y m n rule: month_of.induct)
  case (1 y m n)
  show ?case
  proof (cases "n \<le> days_in_month y m")
    case True
    then show ?thesis
      using "1.prems" by (simp add: month_of.simps [of y m n])
  next
    case False
    have "m \<noteq> 12"
      using False "1.prems"(3) days_before_month_Suc [of m y] by (auto simp: days_in_year_months)
    then show ?thesis
      using "1.IH" [OF False] "1.prems" False days_before_month_Suc [of m y] by (simp add: month_of.simps [of y m n])
  qed
qed

lemma toordinal_fromordinal:
  assumes "1 \<le> n"
  shows "toordinal (fromordinal n) = n" and "n \<le> MAXORDINAL \<Longrightarrow> valid_date (fromordinal n)"
proof -
  let ?y0 = "max 1 (n div 366)"
  have "days_before_year ?y0 \<le> 366 * (?y0 - 1)"
    by (rule days_before_year_le) simp
  also have "\<dots> < n"
    using assms by (auto simp: max_def)
  finally have start: "days_before_year ?y0 < n" .
  obtain y k where yk: "year_of ?y0 (n - days_before_year ?y0) = (y, k)"
    by fastforce
  obtain m d where md: "month_of y 1 k = (m, d)"
    by fastforce
  have eq: "fromordinal n = \<lparr>d_year = y, d_month = m, d_day = d\<rparr>"
    using yk md by (simp add: fromordinal_def Let_def)
  have y: "?y0 \<le> y" "1 \<le> k" "k \<le> days_in_year y" "n = days_before_year y + k"
    using year_of_days [OF _ _ yk] start by auto
  have m: "1 \<le> m" "m \<le> 12" "1 \<le> d" "d \<le> days_in_month y m" "k = days_before_month y m + d"
    using month_of_days [OF _ y(2) _ _ md] y(3) by auto
  show "toordinal (fromordinal n) = n"
    unfolding eq using y(4) m(5) by (simp add: toordinal_def)
  show "valid_date (fromordinal n)" if "n \<le> MAXORDINAL"
  proof -
    have "days_before_year 10000 = MAXORDINAL"
      by (simp add: days_before_year_def MAXORDINAL_def)
    then have "y \<le> 9999"
      using that y(2,4) days_before_year_mono [of 10000 y] by (cases "y \<le> 9999") auto
    then show ?thesis
      using y(1) m by (simp add: eq valid_date_def MINYEAR_def MAXYEAR_def)
  qed
qed

lemma toordinal_range: "valid_date d \<Longrightarrow> 1 \<le> toordinal d \<and> toordinal d \<le> MAXORDINAL"
proof -
  assume d: "valid_date d"
  have "days_before_year 10000 = MAXORDINAL"
    by (simp add: days_before_year_def MAXORDINAL_def)
  moreover have "days_before_year (d_year d + 1) \<le> days_before_year 10000"
    using d by (intro days_before_year_mono) (auto simp: valid_date_def MAXYEAR_def)
  moreover have "days_before_month (d_year d) (d_month d) + d_day d \<le> days_in_year (d_year d)"
    using d by (intro day_of_year_le) (auto simp: valid_date_def)
  moreover have "days_before_year (d_year d + 1) = days_before_year (d_year d) + days_in_year (d_year d)"
    using d by (intro days_before_year_Suc) (auto simp: valid_date_def MINYEAR_def)
  ultimately show ?thesis
    using d by (simp add: toordinal_def valid_date_def)
qed

lemma toordinal_year_less:
  assumes "valid_date d" "valid_date e" "d_year d < d_year e"
  shows "toordinal d < toordinal e"
proof -
  have "days_before_month (d_year d) (d_month d) + d_day d \<le> days_in_year (d_year d)"
    using assms(1) by (intro day_of_year_le) (auto simp: valid_date_def)
  moreover have "days_before_year (d_year d + 1) \<le> days_before_year (d_year e)"
    using assms(3) by (intro days_before_year_mono) auto
  ultimately show ?thesis
    using days_before_year_Suc [of "d_year d"] assms(1,2) by (auto simp: toordinal_def valid_date_def MINYEAR_def)
qed

lemma toordinal_month_less:
  assumes "valid_date d" "valid_date e" "d_year d = d_year e" "d_month d < d_month e"
  shows "toordinal d < toordinal e"
proof -
  have "days_before_month (d_year d) (d_month d + 1) \<le> days_before_month (d_year d) (d_month e)"
    using assms(1,4) by (intro days_before_month_mono) (auto simp: valid_date_def)
  then show ?thesis
    using days_before_month_Suc [of "d_month d" "d_year d"] assms by (auto simp: toordinal_def valid_date_def)
qed

lemma toordinal_inj:
  assumes "valid_date d" "valid_date e" "toordinal d = toordinal e"
  shows "d = e"
proof -
  have "d_year d = d_year e"
    using toordinal_year_less [OF assms(1,2)] toordinal_year_less [OF assms(2,1)] assms(3) by (metis less_irrefl nat_neq_iff)
  moreover from this have "d_month d = d_month e"
    using toordinal_month_less [OF assms(1,2)] toordinal_month_less [OF assms(2,1)] assms(3) by (metis less_irrefl nat_neq_iff)
  ultimately show ?thesis
    using assms(3) by (simp add: toordinal_def)
qed

lemma fromordinal_toordinal: "valid_date d \<Longrightarrow> fromordinal (toordinal d) = d"
  using toordinal_fromordinal toordinal_range toordinal_inj by metis

text \<open>Adding days is adding to the ordinal, within the calendar.\<close>

lemma date_add_Inr:
  assumes "date_add d k = Inr e"
  shows "valid_date e \<and> int (toordinal e) = int (toordinal d) + k"
  using assms toordinal_fromordinal [of "nat (int (toordinal d) + k)"]
  by (auto simp: date_add_def Let_def split: if_splits)

lemma date_add_total: "1 \<le> int (toordinal d) + k \<Longrightarrow> int (toordinal d) + k \<le> int MAXORDINAL \<Longrightarrow> \<exists>e. date_add d k = Inr e"
  by (simp add: date_add_def Let_def)

end
