(* ===== verification/Date_Mask.thy ===== *)
theory Date_Mask
  imports Calendar Canonicalize Namespace_Registry
begin

text \<open>
  Date generalisation: \<open>transforms/bucket_perturb.py\<close>, and the exclusion of sentinel rows in
  \<open>transforms/date_preserve.py\<close>. What pandas parses and what \<open>strftime\<close> writes under the column's format are
  arguments; the calendar is that of theory \<open>Calendar\<close>.
\<close>

section \<open>Model\<close>

datatype bucket_error = BucketValueError | BucketDate date_error | BucketDerive determinism_error | BucketSource canonical_error

definition QUARTER_START_MONTH :: "nat list" where "QUARTER_START_MONTH = [1, 4, 7, 10]"

definition VALID_BUCKETS :: "string list" where "VALID_BUCKETS = [''week'', ''month'', ''quarter'']"

definition bucket_start_and_size :: "date \<Rightarrow> string \<Rightarrow> bucket_error + date \<times> nat" where
  "bucket_start_and_size d bucket =
     (if bucket = ''week'' then
        and_then (on_error BucketDate (date_add d (- int (weekday d)))) (\<lambda>start. Inr (start, 7))
      else if bucket = ''month'' then
        and_then (on_error BucketDate (make_date (d_year d) (d_month d) 1)) (\<lambda>start.
        Inr (start, days_in_month (d_year d) (d_month d)))
      else if bucket = ''quarter'' then
        (let q_start_month = QUARTER_START_MONTH ! ((d_month d - 1) div 3); end_month = q_start_month + 2 in
         and_then (on_error BucketDate (make_date (d_year d) q_start_month 1)) (\<lambda>start.
         and_then (on_error BucketDate (make_date (d_year d) end_month (days_in_month (d_year d) end_month))) (\<lambda>last.
         Inr (start, toordinal last - toordinal start + 1))))
      else Inl BucketValueError)"

definition perturb_date :: "date \<Rightarrow> string \<Rightarrow> bytes \<Rightarrow> string \<Rightarrow> string \<Rightarrow> bucket_error + date" where
  "perturb_date d bucket job_seed namespace value_str =
     and_then (bucket_start_and_size d bucket) (\<lambda>(bucket_start, bucket_size).
     and_then (on_error BucketSource (canonicalize_source (SStr value_str))) (\<lambda>src.
     and_then (on_error BucketDerive (derive job_seed namespace src)) (\<lambda>digest.
     on_error BucketDate (date_add bucket_start (from_bytes (take 8 digest) mod int bucket_size)))))"

text \<open>A column of date texts, \<open>None\<close> for a null. \<open>parse\<close> is \<open>pd.to_datetime(\<dots>, errors="coerce")\<close> on one cell and \<open>render\<close>
  is \<open>strftime\<close>, both under the column's format.\<close>

definition perturb_cell ::
    "(string \<Rightarrow> date option) \<Rightarrow> (date \<Rightarrow> string) \<Rightarrow> string \<Rightarrow> bytes \<Rightarrow> string \<Rightarrow> string option \<Rightarrow> bucket_error + string option" where
  "perturb_cell parse render bucket job_seed namespace cell =
     (case cell of
        None \<Rightarrow> Inr None
      | Some text \<Rightarrow>
          (case parse text of
             None \<Rightarrow> Inr (Some text)
           | Some d \<Rightarrow> and_then (perturb_date d bucket job_seed namespace text) (\<lambda>d'. Inr (Some (render d')))))"

text \<open>\<open>fmt\<close> is the configured format or the detected one; with neither the column passes through.\<close>

definition apply_bucket_perturb ::
    "(string \<Rightarrow> string \<Rightarrow> date option) \<Rightarrow> (string \<Rightarrow> date \<Rightarrow> string) \<Rightarrow> string \<Rightarrow> bytes \<Rightarrow> string \<Rightarrow> string option \<Rightarrow>
      string option list \<Rightarrow> bucket_error + string option list" where
  "apply_bucket_perturb parse render bucket job_seed namespace fmt cells =
     (case fmt of
        None \<Rightarrow> Inr cells
      | Some f \<Rightarrow> map_result (perturb_cell (parse f) (render f) bucket job_seed namespace) cells)"

subsection \<open>Format and configuration checks\<close>

definition DATE_DIRECTIVES :: string where "DATE_DIRECTIVES = ''YyGmbBdjUWVaAuwxc''"
definition OTHER_DIRECTIVES :: string where "OTHER_DIRECTIVES = ''HIMSpfzZX''"

datatype format_problem = BarePercent | UnsupportedDirective char | NoDateDirective

fun scan_format :: "bool \<Rightarrow> string \<Rightarrow> format_problem option" where
  "scan_format has_date [] = (if has_date then None else Some NoDateDirective)"
| "scan_format has_date (c # rest) =
     (if c \<noteq> CHR ''%'' then scan_format has_date rest
      else case rest of
          [] \<Rightarrow> Some BarePercent
        | directive # rest' \<Rightarrow>
            if directive \<in> set DATE_DIRECTIVES then scan_format True rest'
            else if directive \<noteq> CHR ''%'' \<and> directive \<notin> set OTHER_DIRECTIVES then Some (UnsupportedDirective directive)
            else scan_format has_date rest')"

definition bucket_perturb_date_format_problem :: "string option \<Rightarrow> format_problem option" where
  "bucket_perturb_date_format_problem date_format =
     (case date_format of None \<Rightarrow> None | Some f \<Rightarrow> if f = [] then None else scan_format False f)"

subsection \<open>Sentinel dates of the configuration\<close>

text \<open>\<open>_directives\<close> and the checks of \<open>preserve_values\<close>; a configuration is the \<open>config\<close> of theory \<open>Namespace_Registry\<close>.\<close>

fun directives :: "string \<Rightarrow> string" where
  "directives (c # d # rest) =
     (if c = CHR ''%'' then (if d \<noteq> CHR ''%'' then d # directives rest else directives rest) else directives (d # rest))"
| "directives _ = []"

definition is_set :: "cfg option \<Rightarrow> bool" where
  "is_set raw = (case raw of None \<Rightarrow> False | Some CNull \<Rightarrow> False | Some (CList xs) \<Rightarrow> xs \<noteq> [] | Some _ \<Rightarrow> True)"

text \<open>\<open>_LITERAL.fullmatch\<close> and \<open>date.fromisoformat\<close> on it.\<close>

definition parse_literal :: "string \<Rightarrow> date option" where
  "parse_literal s =
     (if length s = 10 \<and> s ! 4 = CHR ''-'' \<and> s ! 7 = CHR ''-'' \<and> all_digits (take 4 s) \<and> all_digits (take 2 (drop 5 s)) \<and> all_digits (drop 8 s)
      then let d = \<lparr>d_year = dec_val (take 4 s), d_month = dec_val (take 2 (drop 5 s)), d_day = dec_val (drop 8 s)\<rparr> in
        if valid_date d then Some d else None
      else None)"

fun entry_date :: "cfg \<Rightarrow> date option" where
  "entry_date (CStr s) = parse_literal s"
| "entry_date _ = None"

datatype preserve_problem = NotAList | BadEntry nat | NoDateFormat | PandasOnlyFormat | BadDirective char

fun first_bad_entry :: "nat \<Rightarrow> cfg list \<Rightarrow> nat option" where
  "first_bad_entry position [] = None"
| "first_bad_entry position (e # entries) = (if entry_date e = None then Some position else first_bad_entry (position + 1) entries)"

definition preserve_config_problem :: "config \<Rightarrow> preserve_problem option" where
  "preserve_config_problem cf =
     (let raw = map_of cf ''preserve_values'' in
      if \<not> is_set raw then None
      else case the raw of
          CList entries \<Rightarrow>
            (case first_bad_entry 0 entries of
               Some position \<Rightarrow> Some (BadEntry position)
             | None \<Rightarrow>
                 (case map_of cf ''date_format'' of
                    Some (CStr f) \<Rightarrow>
                      if f = [] then Some NoDateFormat
                      else if f \<in> {''ISO8601'', ''mixed''} then Some PandasOnlyFormat
                      else if CHR ''Z'' \<in> set (directives f) then Some (BadDirective (CHR ''Z''))
                      else if CHR ''f'' \<in> set (directives f) then Some (BadDirective (CHR ''f''))
                      else None
                  | _ \<Rightarrow> Some NoDateFormat))
        | _ \<Rightarrow> Some NotAList)"

definition preserve_set_from_config :: "config \<Rightarrow> preserve_problem + (date list \<times> string) option" where
  "preserve_set_from_config cf =
     (case preserve_config_problem cf of
        Some p \<Rightarrow> Inl p
      | None \<Rightarrow>
          Inr (case (map_of cf ''preserve_values'', map_of cf ''date_format'') of
                 (Some (CList entries), Some (CStr f)) \<Rightarrow>
                   if entries = [] then None else Some (map (\<lambda>e. the (entry_date e)) (filter (\<lambda>e. entry_date e \<noteq> None) entries), f)
               | _ \<Rightarrow> None))"

text \<open>\<open>PreserveSet.mask\<close> on a text cell: what pandas parses, else what \<open>strptime\<close> does.\<close>

definition sentinel_cell :: "(string \<Rightarrow> date option) \<Rightarrow> (string \<Rightarrow> date option) \<Rightarrow> date list \<Rightarrow> string option \<Rightarrow> bool" where
  "sentinel_cell parse strp dates cell =
     (case cell of
        None \<Rightarrow> False
      | Some s \<Rightarrow> (case parse s of Some d \<Rightarrow> d \<in> set dates | None \<Rightarrow> (case strp s of Some d \<Rightarrow> d \<in> set dates | None \<Rightarrow> False)))"

text \<open>A list or a dict as \<open>bucket\<close> is not hashable, which raises \<open>TypeError\<close>.\<close>

datatype bucket_config_problem = BucketMissing | BucketUnsupported | BucketUnhashable | BucketFormat format_problem | FormatNotText | BucketPreserve preserve_problem

definition validate_bucket_perturb_config :: "config \<Rightarrow> bucket_config_problem + unit" where
  "validate_bucket_perturb_config cf =
     and_then (case map_of cf ''bucket'' of
         Some (CStr b) \<Rightarrow> if b = [] then Inl BucketMissing else require (b \<in> set VALID_BUCKETS) BucketUnsupported
       | Some v \<Rightarrow> Inl (if \<not> cfg_truthy v then BucketMissing
                         else case v of CList _ \<Rightarrow> BucketUnhashable | CDict _ \<Rightarrow> BucketUnhashable | _ \<Rightarrow> BucketUnsupported)
       | None \<Rightarrow> Inl BucketMissing) (\<lambda>_.
     and_then (case map_of cf ''date_format'' of
         None \<Rightarrow> Inr ()
       | Some CNull \<Rightarrow> Inr ()
       | Some (CStr f) \<Rightarrow> (case bucket_perturb_date_format_problem (Some f) of None \<Rightarrow> Inr () | Some p \<Rightarrow> Inl (BucketFormat p))
       | Some _ \<Rightarrow> Inl FormatNotText) (\<lambda>_.
     (case preserve_config_problem cf of None \<Rightarrow> Inr () | Some p \<Rightarrow> Inl (BucketPreserve p))))"

subsection \<open>Sentinel rows\<close>

text \<open>\<open>apply_excluding_preserved\<close>: the rows \<open>preserved\<close> marks are left out of the batch \<open>compute\<close> sees, and their
  text is put back. A text cell is its own rendering.\<close>

fun scatter :: "'c list \<Rightarrow> bool list \<Rightarrow> 'c list \<Rightarrow> 'c list" where
  "scatter (c # cells) (True # marks) out = c # scatter cells marks out"
| "scatter (c # cells) (False # marks) (r # out) = r # scatter cells marks out"
| "scatter _ _ _ = []"

definition apply_excluding_preserved ::
    "('c \<Rightarrow> bool) \<Rightarrow> ('c \<Rightarrow> 'c) \<Rightarrow> ('c list \<Rightarrow> 'e + 'c list) \<Rightarrow> 'c list \<Rightarrow> 'e + 'c list \<times> nat" where
  "apply_excluding_preserved sentinel render compute cells =
     (let marks = map sentinel cells; count = length (filter sentinel cells) in
      if count = 0 then and_then (compute cells) (\<lambda>out. Inr (out, 0))
      else let rest = filter (\<lambda>c. \<not> sentinel c) cells in
        if rest = [] then Inr (map render cells, count)
        else and_then (compute rest) (\<lambda>out.
          Inr (scatter (map (\<lambda>c. if sentinel c then render c else c) cells) marks out, count)))"

section \<open>Buckets\<close>

text \<open>The bucket a date belongs to, stated without reference to the code: the ISO week by its number
  since the calendar's first Monday, the month and the quarter by year and index.\<close>

definition bucket_of :: "string \<Rightarrow> date \<Rightarrow> nat \<times> nat" where
  "bucket_of bucket d =
     (if bucket = ''week'' then (0, (toordinal d + 6) div 7)
      else if bucket = ''month'' then (d_year d, d_month d)
      else (d_year d, (d_month d - 1) div 3))"

text \<open>A span of whole months of one year is an interval of ordinals.\<close>

lemma months_interval:
  assumes "valid_date \<lparr>d_year = y, d_month = m1, d_day = 1\<rparr>" (is "valid_date ?first")
    and "valid_date \<lparr>d_year = y, d_month = m2, d_day = days_in_month y m2\<rparr>" (is "valid_date ?last")
    and e: "valid_date e"
  shows "toordinal ?first \<le> toordinal e \<and> toordinal e \<le> toordinal ?last \<longleftrightarrow> d_year e = y \<and> m1 \<le> d_month e \<and> d_month e \<le> m2"
proof
  assume r: "toordinal ?first \<le> toordinal e \<and> toordinal e \<le> toordinal ?last"
  then have y: "d_year e = y"
    using toordinal_year_less [OF e assms(1)] toordinal_year_less [OF assms(2) e] by fastforce
  then show "d_year e = y \<and> m1 \<le> d_month e \<and> d_month e \<le> m2"
    using toordinal_month_less [OF e assms(1)] toordinal_month_less [OF assms(2) e] r by fastforce
next
  assume r: "d_year e = y \<and> m1 \<le> d_month e \<and> d_month e \<le> m2"
  have "toordinal ?first \<le> toordinal e"
    using toordinal_month_less [OF assms(1) e] r e by (cases "d_month e = m1") (auto simp: toordinal_def valid_date_def)
  moreover have "toordinal e \<le> toordinal ?last"
    using toordinal_month_less [OF e assms(2)] r e by (cases "d_month e = m2") (auto simp: toordinal_def valid_date_def)
  ultimately show "toordinal ?first \<le> toordinal e \<and> toordinal e \<le> toordinal ?last" ..
qed

lemma quarter_months:
  assumes "1 \<le> m" "m \<le> 12" "q = QUARTER_START_MONTH ! ((m - 1) div 3)"
  shows "1 \<le> q" "q + 2 \<le> 12" and "1 \<le> k \<Longrightarrow> q \<le> k \<and> k \<le> q + 2 \<longleftrightarrow> (k - 1) div 3 = (m - 1) div 3"
proof -
  obtain j where j: "m = Suc j" "j < 12"
    using assms(1,2) by (cases m) auto
  have "QUARTER_START_MONTH ! i = 3 * i + 1" if "i < 4" for i
    using that by (auto simp: QUARTER_START_MONTH_def less_Suc_eq numeral_eq_Suc)
  moreover have "j div 3 < 4"
    using j(2) by (simp add: less_mult_imp_div_less)
  ultimately have q: "q = 3 * (j div 3) + 1"
    using assms(3) j(1) by simp
  show "1 \<le> q" "q + 2 \<le> 12"
    using q \<open>j div 3 < 4\<close> by auto
  show "q \<le> k \<and> k \<le> q + 2 \<longleftrightarrow> (k - 1) div 3 = (m - 1) div 3" if "1 \<le> k"
  proof -
    obtain i where i: "k = Suc i"
      using \<open>1 \<le> k\<close> by (cases k) auto
    show ?thesis
      unfolding q i j(1) diff_Suc_1 by (auto simp: div_nat_eqI)
  qed
qed

lemma week_interval:
  assumes "1 \<le> n"
  shows "n - (n + 6) mod 7 \<le> k \<and> k < n - (n + 6) mod 7 + 7 \<longleftrightarrow> (k + 6) div 7 = (n + 6) div (7 :: nat)"
    and "1 \<le> n - (n + 6) mod 7" and "(n + 6) mod 7 < n"
proof -
  define q where "q = (n + 6) div 7"
  have "n + 6 = 7 * q + (n + 6) mod 7" "(n + 6) mod 7 < 7" "1 \<le> q"
    using assms unfolding q_def by (simp_all add: div_greater_zero_iff Suc_le_eq)
  then have start: "n - (n + 6) mod 7 + 6 = 7 * q" and pos: "1 \<le> n - (n + 6) mod 7" "(n + 6) mod 7 < n"
    by linarith+
  have k: "k + 6 = 7 * ((k + 6) div 7) + (k + 6) mod 7" "(k + 6) mod 7 < 7"
    by simp_all
  show "n - (n + 6) mod 7 \<le> k \<and> k < n - (n + 6) mod 7 + 7 \<longleftrightarrow> (k + 6) div 7 = (n + 6) div 7"
    using start k unfolding q_def [symmetric] by (auto; linarith)
  show "1 \<le> n - (n + 6) mod 7" "(n + 6) mod 7 < n"
    using pos by simp_all
qed

text \<open>The bucket's start and size describe exactly the dates of the bucket.\<close>

lemma bucket_interval:
  assumes d: "valid_date d" and bucket: "bucket \<in> set VALID_BUCKETS"
  obtains start size where "bucket_start_and_size d bucket = Inr (start, size)" "valid_date start" "0 < size"
    "\<forall>e. valid_date e \<longrightarrow> (toordinal start \<le> toordinal e \<and> toordinal e < toordinal start + size \<longleftrightarrow> bucket_of bucket e = bucket_of bucket d)"
    "bucket \<noteq> ''week'' \<longrightarrow> toordinal start + size \<le> MAXORDINAL + 1" "bucket = ''week'' \<longrightarrow> size = 7"
proof -
  have m: "1 \<le> d_month d" "d_month d \<le> 12" and y: "MINYEAR \<le> d_year d" "d_year d \<le> MAXYEAR"
    using d by (auto simp: valid_date_def)
  have months: "valid_date \<lparr>d_year = d_year d, d_month = k, d_day = 1\<rparr>" "valid_date \<lparr>d_year = d_year d, d_month = k, d_day = days_in_month (d_year d) k\<rparr>"
    if "1 \<le> k" "k \<le> 12" for k
    using that y by (auto simp: valid_date_def Suc_le_eq)
  consider "bucket = ''week''" | "bucket = ''month''" | "bucket = ''quarter''"
    using bucket by (auto simp: VALID_BUCKETS_def)
  then show thesis
  proof cases
    case 1
    note o = toordinal_range [OF d]
    have w: "\<And>k. toordinal d - weekday d \<le> k \<and> k < toordinal d - weekday d + 7 \<longleftrightarrow> (k + 6) div 7 = (toordinal d + 6) div 7"
        "1 \<le> toordinal d - weekday d" "weekday d < toordinal d"
      using week_interval [of "toordinal d"] o unfolding weekday_def by blast+
    have sub: "int (toordinal d) + - int (weekday d) = int (toordinal d - weekday d)"
      using w(3) by simp
    then obtain start where start: "date_add d (- int (weekday d)) = Inr start"
      using date_add_total [of d "- int (weekday d)"] w(2) o by (metis diff_le_self le_trans of_nat_1 of_nat_le_iff)
    have ord: "valid_date start" "toordinal start = toordinal d - weekday d"
      using date_add_Inr [OF start] sub by (simp_all only: of_nat_eq_iff)
    show thesis
    proof (rule that [of start 7])
      show "bucket_start_and_size d bucket = Inr (start, 7)"
        using 1 start by (simp add: bucket_start_and_size_def)
      show "\<forall>e. valid_date e \<longrightarrow> (toordinal start \<le> toordinal e \<and> toordinal e < toordinal start + 7 \<longleftrightarrow> bucket_of bucket e = bucket_of bucket d)"
        using w(1) ord(2) 1 by (simp add: bucket_of_def)
    qed (use ord 1 in auto)
  next
    case 2
    let ?f = "\<lparr>d_year = d_year d, d_month = d_month d, d_day = 1\<rparr>" and ?n = "days_in_month (d_year d) (d_month d)"
    let ?l = "\<lparr>d_year = d_year d, d_month = d_month d, d_day = ?n\<rparr>"
    have size: "toordinal ?l + 1 = toordinal ?f + ?n"
      by (simp add: toordinal_def)
    show thesis
    proof (rule that [of ?f ?n])
      show "bucket_start_and_size d bucket = Inr (?f, ?n)"
        using 2 months [OF m] by (simp add: bucket_start_and_size_def make_date_def)
      have "toordinal ?f \<le> toordinal e \<and> toordinal e < toordinal ?f + ?n \<longleftrightarrow> bucket_of bucket e = bucket_of bucket d" if "valid_date e" for e
        using months_interval [OF months [OF m] that] 2 size by (auto simp: bucket_of_def)
      then show "\<forall>e. valid_date e \<longrightarrow> (toordinal ?f \<le> toordinal e \<and> toordinal e < toordinal ?f + ?n \<longleftrightarrow> bucket_of bucket e = bucket_of bucket d)"
        by blast
      show "bucket \<noteq> ''week'' \<longrightarrow> toordinal ?f + ?n \<le> MAXORDINAL + 1"
        using toordinal_range [OF months(2) [OF m]] size by simp
    qed (use months [OF m] 2 in auto)
  next
    case 3
    define q where "q = QUARTER_START_MONTH ! ((d_month d - 1) div 3)"
    note qm = quarter_months [OF m q_def]
    let ?f = "\<lparr>d_year = d_year d, d_month = q, d_day = 1\<rparr>" and ?l = "\<lparr>d_year = d_year d, d_month = q + 2, d_day = days_in_month (d_year d) (q + 2)\<rparr>"
    have v: "valid_date ?f" "valid_date ?l"
      using months [of q] months [of "q + 2"] qm(1,2) by auto
    let ?n = "toordinal ?l - toordinal ?f + 1"
    have size: "toordinal ?f + ?n = toordinal ?l + 1"
      using months_interval [OF v v(1)] by simp
    show thesis
    proof (rule that [of ?f ?n])
      show "bucket_start_and_size d bucket = Inr (?f, ?n)"
        unfolding bucket_start_and_size_def Let_def make_date_def q_def [symmetric] using 3 v by simp
      have "toordinal ?f \<le> toordinal e \<and> toordinal e < toordinal ?f + ?n \<longleftrightarrow> bucket_of bucket e = bucket_of bucket d" if e: "valid_date e" for e
      proof -
        have "1 \<le> d_month e"
          using e by (simp add: valid_date_def)
        then show ?thesis
          unfolding size using months_interval [OF v e] qm(3) [of "d_month e"] 3 by (auto simp: bucket_of_def)
      qed
      then show "\<forall>e. valid_date e \<longrightarrow> (toordinal ?f \<le> toordinal e \<and> toordinal e < toordinal ?f + ?n \<longleftrightarrow> bucket_of bucket e = bucket_of bucket d)"
        by blast
      show "bucket \<noteq> ''week'' \<longrightarrow> toordinal ?f + ?n \<le> MAXORDINAL + 1"
        unfolding size using toordinal_range [OF v(2)] by simp
    qed (use v 3 in auto)
  qed
qed

text \<open>A draw below the bucket's size, added to its start, is a date of the bucket, or is past the calendar.\<close>

lemma perturb_date_cases:
  assumes d: "valid_date d" and bucket: "bucket \<in> set VALID_BUCKETS"
    and derives: "length job_seed \<in> {8, 32}" "namespace \<noteq> []" "length (utf8 namespace) < 2 ^ 32" "length (utf8 v) < 2 ^ 32"
  shows "(\<exists>e. perturb_date d bucket job_seed namespace v = Inr e \<and> valid_date e \<and> bucket_of bucket e = bucket_of bucket d) \<or>
    perturb_date d bucket job_seed namespace v = Inl (BucketDate OverflowError) \<and> bucket = ''week'' \<and>
      bucket_of bucket d = bucket_of bucket \<lparr>d_year = 9999, d_month = 12, d_day = 31\<rparr>"
proof -
  obtain start size where b: "bucket_start_and_size d bucket = Inr (start, size)" "valid_date start" "0 < size"
    "\<forall>e. valid_date e \<longrightarrow> (toordinal start \<le> toordinal e \<and> toordinal e < toordinal start + size \<longleftrightarrow> bucket_of bucket e = bucket_of bucket d)"
    "bucket \<noteq> ''week'' \<longrightarrow> toordinal start + size \<le> MAXORDINAL + 1" "bucket = ''week'' \<longrightarrow> size = 7"
    by (rule bucket_interval [OF d bucket]) (rule that)
  obtain digest where dg: "derive job_seed namespace (utf8 v) = Inr digest"
    using derive_total [OF derives] by blast
  define k where "k = from_bytes (take 8 digest) mod int size"
  have k: "0 \<le> k" "k < int size"
    using b(3) by (simp_all add: k_def)
  have run: "perturb_date d bucket job_seed namespace v = on_error BucketDate (date_add start k)"
    by (simp add: perturb_date_def b(1) canonicalize_source_def dg k_def)
  show ?thesis
  proof (cases "date_add start k")
    case (Inr e)
    then have "toordinal start \<le> toordinal e \<and> toordinal e < toordinal start + size" "valid_date e"
      using date_add_Inr [OF Inr] k by auto
    then show ?thesis
      using b(4) run Inr by simp
  next
    case (Inl err)
    let ?last = "\<lparr>d_year = 9999, d_month = 12, d_day = 31\<rparr>"
    have over: "int MAXORDINAL < int (toordinal start) + k" "err = OverflowError"
      using Inl k(1) toordinal_range [OF b(2)] by (auto simp: date_add_def Let_def split: if_splits)
    then have "bucket = ''week''"
      using b(5) k(2) by (cases "bucket = ''week''") auto
    moreover have last: "valid_date ?last"
      by (simp add: valid_date_def MINYEAR_def MAXYEAR_def days_in_month_def)
    moreover have "toordinal ?last = MAXORDINAL"
    proof -
      have "days_before_month 9999 12 = 334"
        unfolding days_before_month_def by (simp add: upt_rec days_in_month_def is_leap_def)
      then show ?thesis
        by (simp add: toordinal_def days_before_year_def MAXORDINAL_def)
    qed
    ultimately have "bucket_of bucket ?last = bucket_of bucket d"
      using b(4) over(1) k(2) toordinal_range [OF b(2)] by auto
    then show ?thesis
      using run Inl over(2) \<open>bucket = ''week''\<close> by simp
  qed
qed

section \<open>Properties\<close>

text \<open>C23. A perturbed date stays in its bucket. For a valid date, a known bucket and a usable seed and
  namespace, the result is a valid date of the same ISO week, month or quarter; the one exception is
  the ISO week that the end of the calendar cuts short, where the addition may overflow.\<close>

theorem bucket_perturb_stays_in_bucket:
  assumes "valid_date d" "bucket \<in> set VALID_BUCKETS" "length job_seed \<in> {8, 32}" "namespace \<noteq> []"
    and "length (utf8 namespace) < 2 ^ 32" "length (utf8 v) < 2 ^ 32"
  shows "(\<exists>e. perturb_date d bucket job_seed namespace v = Inr e \<and> valid_date e \<and> bucket_of bucket e = bucket_of bucket d) \<or>
    perturb_date d bucket job_seed namespace v = Inl (BucketDate OverflowError) \<and> bucket = ''week'' \<and>
      bucket_of bucket d = bucket_of bucket \<lparr>d_year = 9999, d_month = 12, d_day = 31\<rparr>"
  using perturb_date_cases [OF assms] .

theorem bucket_perturb_stays_in_bucket_witness:
  "\<exists>e. perturb_date \<lparr>d_year = 2024, d_month = 2, d_day = 29\<rparr> ''quarter'' (replicate 32 7) ''ns'' ''2024-02-29'' = Inr e \<and>
     d_year e = 2024 \<and> (d_month e - 1) div 3 = 0"
proof -
  let ?d = "\<lparr>d_year = 2024, d_month = 2, d_day = 29\<rparr>"
  have "valid_date ?d"
    by (simp add: valid_date_def MINYEAR_def MAXYEAR_def days_in_month_def is_leap_def)
  moreover have "length (utf8 ''ns'') < 2 ^ 32" "length (utf8 ''2024-02-29'') < 2 ^ 32"
    by (simp_all add: utf8_def utf8_char_def)
  ultimately show ?thesis
    using bucket_perturb_stays_in_bucket [of ?d "''quarter''" "replicate 32 7" "''ns''" "''2024-02-29''"]
    by (auto simp: VALID_BUCKETS_def bucket_of_def)
qed

text \<open>A configured sentinel set holds exactly the dates written in the configuration.\<close>

lemma first_bad_entry_None: "first_bad_entry k entries = None \<longleftrightarrow> (\<forall>e \<in> set entries. entry_date e \<noteq> None)"
  by (induction entries arbitrary: k) auto

lemma preserve_set_dates:
  assumes "preserve_set_from_config cf = Inr (Some (dates, f))"
  obtains entries where "map_of cf ''preserve_values'' = Some (CList entries)" "map_of cf ''date_format'' = Some (CStr f)" "f \<noteq> []"
    "map entry_date entries = map Some dates"
proof -
  obtain entries where e: "map_of cf ''preserve_values'' = Some (CList entries)" "map_of cf ''date_format'' = Some (CStr f)" "entries \<noteq> []"
      "dates = map (\<lambda>e. the (entry_date e)) (filter (\<lambda>e. entry_date e \<noteq> None) entries)" "preserve_config_problem cf = None"
    using assms by (auto simp: preserve_set_from_config_def split: option.splits cfg.splits if_splits)
  then have "\<forall>e \<in> set entries. entry_date e \<noteq> None" "f \<noteq> []"
    by (auto simp: preserve_config_problem_def is_set_def first_bad_entry_None split: option.splits if_splits)
  moreover from this have "map entry_date entries = map Some dates"
    using e(4) by (auto simp: filter_id_conv)
  ultimately show ?thesis
    using that e by blast
qed

text \<open>The sentinel exclusion: preserved rows.\<close>

lemma scatter_facts:
  assumes "length marks = length cells" and "length out = length (filter Not marks)"
  shows "length (scatter cells marks out) = length cells"
    and "i < length cells \<Longrightarrow> marks ! i \<Longrightarrow> scatter cells marks out ! i = cells ! i"
    and "map fst (filter (\<lambda>(r, m). \<not> m) (zip (scatter cells marks out) marks)) = out"
  using assms
proof (induction cells marks out arbitrary: i rule: scatter.induct)
  case (1 c cells marks out)
  {
    case 1
    then show ?case using "1.IH"(1) by simp
  next
    case 2
    then show ?case using "1.IH"(2) by (cases i) auto
  next
    case 3
    then show ?case using "1.IH"(3) by simp
  }
next
  case (2 c cells marks r out)
  {
    case 1
    then show ?case using "2.IH"(1) by simp
  next
    case 2
    then show ?case using "2.IH"(2) by (cases i) auto
  next
    case 3
    then show ?case using "2.IH"(3) by simp
  }
qed auto

text \<open>Sentinel rows never reach the date operator and are emitted as they are. Whatever the operator does
  with a batch, as long as it answers row by row, the column keeps its length, every sentinel row
  holds its own rendering, and the other rows hold, in order, what the operator answered for the
  column without its sentinels.\<close>

theorem sentinels_bypass_operator:
  assumes "\<forall>xs ys. compute xs = Inr ys \<longrightarrow> length ys = length xs"
    and "apply_excluding_preserved sentinel render compute cells = Inr (out, n)"
  shows "length out = length cells \<and> n = length (filter sentinel cells) \<and>
    (\<forall>i < length cells. sentinel (cells ! i) \<longrightarrow> out ! i = render (cells ! i)) \<and>
    (\<exists>ys. (if filter (\<lambda>c. \<not> sentinel c) cells = [] \<and> n \<noteq> 0 then ys = [] else compute (filter (\<lambda>c. \<not> sentinel c) cells) = Inr ys) \<and>
      map fst (filter (\<lambda>(r, m). \<not> m) (zip out (map sentinel cells))) = ys)"
proof -
  let ?rest = "filter (\<lambda>c. \<not> sentinel c) cells" and ?marks = "map sentinel cells"
  let ?cells = "map (\<lambda>c. if sentinel c then render c else c) cells"
  have unmarked: "length (filter Not ?marks) = length ?rest"
    by (simp add: filter_map comp_def)
  consider (none) "filter sentinel cells = []" "compute cells = Inr out" "n = 0"
    | (all) "?rest = []" "filter sentinel cells \<noteq> []" "out = map render cells" "n = length (filter sentinel cells)"
    | (some) ys where "?rest \<noteq> []" "filter sentinel cells \<noteq> []" "compute ?rest = Inr ys" "out = scatter ?cells ?marks ys"
        "n = length (filter sentinel cells)"
    using assms(2) by (auto simp: apply_excluding_preserved_def Let_def result_simps split: if_splits)
  then show ?thesis
  proof cases
    case none
    have no: "\<forall>c \<in> set cells. \<not> sentinel c"
      using none(1) by (simp add: filter_empty_conv)
    then have "?rest = cells"
      by simp
    moreover have len: "length out = length cells"
      using assms(1) none(2) by blast
    have "filter (\<lambda>(r, m). \<not> m) (zip out ?marks) = zip out ?marks"
      using no by (auto simp: filter_id_conv set_zip)
    then have "map fst (filter (\<lambda>(r, m). \<not> m) (zip out ?marks)) = out"
      using len by simp
    ultimately show ?thesis
      using none len no by auto
  next
    case all
    then have yes: "\<forall>c \<in> set cells. sentinel c"
      by (simp add: filter_empty_conv)
    then have "filter (\<lambda>(r, m). \<not> m) (zip out ?marks) = []"
      by (auto simp: filter_empty_conv set_zip)
    then show ?thesis
      using all by auto
  next
    case some
    have len: "length ys = length (filter Not ?marks)"
      using assms(1) some(3) unmarked by simp
    note sc = scatter_facts [of ?marks ?cells ys]
    show ?thesis
      using sc(1) sc(2) sc(3) len some by auto
  qed
qed

theorem sentinels_bypass_operator_witness:
  "\<exists>out n. apply_excluding_preserved (\<lambda>c. c = ''9999-12-31'') id (\<lambda>xs. (Inr (map rev xs) :: unit + string list))
      [''ab'', ''9999-12-31'', ''cd''] = Inr (out, n) \<and> out ! 1 = ''9999-12-31'' \<and> length out = 3"
proof -
  let ?compute = "\<lambda>xs. (Inr (map rev xs) :: unit + string list)" and ?cells = "[''ab'', ''9999-12-31'', ''cd'']"
  obtain out n where run: "apply_excluding_preserved (\<lambda>c. c = ''9999-12-31'') id ?compute ?cells = Inr (out, n)"
    by (simp add: apply_excluding_preserved_def)
  have "\<forall>xs ys. ?compute xs = Inr ys \<longrightarrow> length ys = length xs"
    by auto
  then have "length out = 3 \<and> out ! 1 = ''9999-12-31''"
    using sentinels_bypass_operator [OF _ run] by force
  then show ?thesis
    using run by auto
qed

end
