(* ===== verification/Date_Text.thy ===== *)
theory Date_Text
  imports Calendar Canonicalize
begin

text \<open>
  Dates as text: Python's \<open>strptime\<close> and \<open>strftime\<close> for the directives of \<open>_COMMON_FORMATS\<close>, and the parts of
  \<open>transforms/date_shift.py\<close> that work on them: parsing, format detection and the per-value shift.

  \<open>strptime\<close> turns the format into a regular expression that is matched from the start of the text; the
  match must then be the whole text. A parser here returns all ways its part of the expression can
  match, in the order the regular expression tries them, and the first one that lets the rest match
  is taken. \<open>strftime\<close> writes the year without padding, as the C library does.
\<close>

section \<open>Model\<close>

record datetime =
  t_date :: date
  t_hour :: nat
  t_minute :: nat
  t_second :: nat

datatype fmt_item = Directive char | Spaces | Literal char

fun fmt_items :: "string \<Rightarrow> fmt_item list" where
  "fmt_items [] = []"
| "fmt_items [c] = [if py_space c then Spaces else Literal c]"
| "fmt_items (c # d # s) =
     (if c = CHR ''%'' then Directive d # fmt_items s
      else if py_space c then (if py_space d then fmt_items (d # s) else Spaces # fmt_items (d # s))
      else Literal c # fmt_items (d # s))"

text \<open>A digit in a range, and the alternatives of a two-digit field: each gives the range of its digits.\<close>

definition digit_in :: "nat \<times> nat \<Rightarrow> char \<Rightarrow> bool" where
  "digit_in r c \<longleftrightarrow> is_digit c \<and> fst r \<le> digit_val c \<and> digit_val c \<le> snd r"

fun match_digits :: "(nat \<times> nat) list \<Rightarrow> nat \<Rightarrow> string \<Rightarrow> (nat \<times> string) list" where
  "match_digits [] v s = [(v, s)]"
| "match_digits (r # rs) v (c # s) = (if digit_in r c then match_digits rs (10 * v + digit_val c) s else [])"
| "match_digits (r # rs) v [] = []"

definition alternatives :: "char \<Rightarrow> (nat \<times> nat) list list" where
  "alternatives d =
     (if d = CHR ''Y'' then [[(0, 9), (0, 9), (0, 9), (0, 9)]]
      else if d = CHR ''m'' then [[(1, 1), (0, 2)], [(0, 0), (1, 9)], [(1, 9)]]
      else if d = CHR ''d'' then [[(3, 3), (0, 1)], [(1, 2), (0, 9)], [(0, 0), (1, 9)], [(1, 9)]]
      else if d = CHR ''y'' then [[(0, 9), (0, 9)]]
      else if d = CHR ''H'' then [[(2, 2), (0, 3)], [(0, 1), (0, 9)], [(0, 9)]]
      else if d = CHR ''M'' then [[(0, 5), (0, 9)], [(0, 9)]]
      else if d = CHR ''S'' then [[(6, 6), (0, 1)], [(0, 5), (0, 9)], [(0, 9)]]
      else [])"

text \<open>The day may also be a blank and one digit; a run of blanks in the format matches one or more.\<close>

fun parse_item :: "fmt_item \<Rightarrow> string \<Rightarrow> (nat \<times> string) list" where
  "parse_item (Directive d) s =
     concat (map (\<lambda>rs. match_digits rs 0 s) (alternatives d)) @
     (if d = CHR ''d'' then (case s of c # s' \<Rightarrow> if c = CHR '' '' then match_digits [(1, 9)] 0 s' else [] | [] \<Rightarrow> []) else [])"
| "parse_item Spaces s = (let n = length (takeWhile py_space s) in map (\<lambda>k. (0, drop k s)) (rev [1..<n + 1]))"
| "parse_item (Literal c) s = (case s of c' # s' \<Rightarrow> if py_upper_char c' = py_upper_char c then [(0, s')] else [] | [] \<Rightarrow> [])"

fun parse_items :: "fmt_item list \<Rightarrow> (char \<times> nat) list \<Rightarrow> string \<Rightarrow> ((char \<times> nat) list \<times> string) list" where
  "parse_items [] vs s = [(vs, s)]"
| "parse_items (i # is) vs s =
     concat (map (\<lambda>(v, r). parse_items is (case i of Directive d \<Rightarrow> (d, v) # vs | _ \<Rightarrow> vs) r) (parse_item i s))"

definition field :: "char \<Rightarrow> nat \<Rightarrow> (char \<times> nat) list \<Rightarrow> nat" where
  "field d dflt vs = (case map_of vs d of Some v \<Rightarrow> v | None \<Rightarrow> dflt)"

text \<open>Two-digit years are read as 1969 to 2068.\<close>

definition full_year :: "nat \<Rightarrow> nat" where
  "full_year y = (if y \<le> 68 then y + 2000 else y + 1900)"

definition year_field :: "(char \<times> nat) list \<Rightarrow> nat" where
  "year_field vs =
     (case map_of vs (CHR ''Y'') of
        Some y \<Rightarrow> y
      | None \<Rightarrow> (case map_of vs (CHR ''y'') of Some y \<Rightarrow> full_year y | None \<Rightarrow> 1900))"

definition strptime :: "string \<Rightarrow> string \<Rightarrow> datetime option" where
  "strptime text fmt =
     (case parse_items (fmt_items fmt) [] text of
        [] \<Rightarrow> None
      | (vs, rest) # _ \<Rightarrow>
          let d = \<lparr>d_year = year_field vs, d_month = field (CHR ''m'') 1 vs, d_day = field (CHR ''d'') 1 vs\<rparr>;
              second = field (CHR ''S'') 0 vs in
          if rest = [] \<and> valid_date d \<and> second \<le> 59
          then Some \<lparr>t_date = d, t_hour = field (CHR ''H'') 0 vs, t_minute = field (CHR ''M'') 0 vs, t_second = second\<rparr>
          else None)"

definition pad2 :: "nat \<Rightarrow> string" where
  "pad2 n = [digit_char (n div 10 mod 10), digit_char (n mod 10)]"

fun strftime_item :: "datetime \<Rightarrow> fmt_item \<Rightarrow> string" where
  "strftime_item t (Literal c) = [c]"
| "strftime_item t Spaces = '' ''"
| "strftime_item t (Directive d) =
     (if d = CHR ''Y'' then dec_str (d_year (t_date t))
      else if d = CHR ''y'' then pad2 (d_year (t_date t) mod 100)
      else if d = CHR ''m'' then pad2 (d_month (t_date t))
      else if d = CHR ''d'' then pad2 (d_day (t_date t))
      else if d = CHR ''H'' then pad2 (t_hour t)
      else if d = CHR ''M'' then pad2 (t_minute t)
      else if d = CHR ''S'' then pad2 (t_second t)
      else [])"

definition strftime :: "datetime \<Rightarrow> string \<Rightarrow> string" where
  "strftime t fmt = concat (map (strftime_item t) (fmt_items fmt))"

definition COMMON_FORMATS :: "string list" where
  "COMMON_FORMATS =
     [''%Y-%m-%d'', ''%m/%d/%Y'', ''%d/%m/%Y'', ''%Y/%m/%d'', ''%m-%d-%Y'', ''%d-%m-%Y'', ''%Y%m%d'', ''%m/%d/%y'', ''%d/%m/%y'',
      ''%Y-%m-%dT%H:%M:%S'', ''%Y-%m-%d %H:%M:%S'']"

subsection \<open>\<open>date_shift.py\<close>\<close>

text \<open>\<open>_detect_format\<close>: the common formats that parse every value of the sample, and the first of them.\<close>

definition format_candidates :: "string option list \<Rightarrow> string list" where
  "format_candidates column =
     (let sample = take (min 200 (length column)) (map the (filter (\<lambda>v. v \<noteq> None) column)) in
      filter (\<lambda>f. list_all (\<lambda>v. strptime (py_strip v) f \<noteq> None) sample) COMMON_FORMATS)"

definition detect_format :: "string option list \<Rightarrow> string option" where
  "detect_format column = (case format_candidates column of [] \<Rightarrow> None | f # _ \<Rightarrow> Some f)"

text \<open>The shift of a value: a keyed digest reduced to the range. A range of size zero divides by zero.\<close>

datatype shift_error = ZeroDivision | ShiftOverflow | MaskKeyDerivation

definition shift_in_range :: "int \<Rightarrow> int \<Rightarrow> int \<Rightarrow> shift_error + int" where
  "shift_in_range h min_days max_days =
     (let range_size = max_days - min_days + 1 in
      if range_size = 0 then Inl ZeroDivision else Inr (min_days + h mod range_size))"

definition shift_for_value_keyed :: "bytes \<Rightarrow> string \<Rightarrow> int \<Rightarrow> int \<Rightarrow> shift_error + int" where
  "shift_for_value_keyed key val min_days max_days =
     shift_in_range (from_bytes (take 8 (hmac_sha256 key (utf8 val)))) min_days max_days"

definition datetime_add :: "datetime \<Rightarrow> int \<Rightarrow> shift_error + datetime" where
  "datetime_add t days =
     (case date_add (t_date t) days of Inl _ \<Rightarrow> Inl ShiftOverflow | Inr d \<Rightarrow> Inr (t\<lparr>t_date := d\<rparr>))"


text \<open>\<open>DateShiftStrategy.apply\<close>. The two shift functions: \<open>md5\<close> is the integer of the value's MD5 digest.\<close>

definition shift_for_value_md5 :: "(bytes \<Rightarrow> int) \<Rightarrow> string \<Rightarrow> int \<Rightarrow> int \<Rightarrow> shift_error + int" where
  "shift_for_value_md5 md5 val min_days max_days = shift_in_range (md5 (utf8 val)) min_days max_days"

text \<open>\<open>_column_key\<close>: no resolver means no key; a resolver that fails is refused.\<close>

definition column_key :: "(string \<Rightarrow> 'e + bytes) option \<Rightarrow> shift_error + bytes option" where
  "column_key derive_key =
     (case derive_key of
        None \<Rightarrow> Inr None
      | Some f \<Rightarrow> (case f ''mask'' of Inl _ \<Rightarrow> Inl MaskKeyDerivation | Inr k \<Rightarrow> Inr (Some k)))"

text \<open>What pandas parses under a format (or infers without one), how it adds days and what it renders are arguments.\<close>

record 't pandas =
  pd_parse :: "string option \<Rightarrow> string \<Rightarrow> 't option"
  pd_add :: "'t \<Rightarrow> int \<Rightarrow> shift_error + 't"
  pd_render :: "string \<Rightarrow> 't \<Rightarrow> string"

definition shift_cell ::
    "'t pandas \<Rightarrow> (string \<Rightarrow> shift_error + int) \<Rightarrow> string option \<Rightarrow> string option \<Rightarrow> shift_error + string option" where
  "shift_cell P shift_fn fmt cell =
     (case cell of
        None \<Rightarrow> Inr None
      | Some text \<Rightarrow>
          (case pd_parse P fmt text of
             None \<Rightarrow> Inr (Some text)
           | Some t \<Rightarrow>
               and_then (shift_fn text) (\<lambda>k. and_then (pd_add P t k) (\<lambda>t'.
               Inr (Some (pd_render P (case fmt of Some f \<Rightarrow> f | None \<Rightarrow> ''%Y-%m-%d'') t'))))))"

definition chosen_format :: "string option \<Rightarrow> string option list \<Rightarrow> string option" where
  "chosen_format date_format column =
     (if date_format \<noteq> None \<and> date_format \<noteq> Some [] then date_format else detect_format column)"

definition apply_date_shift ::
    "'t pandas \<Rightarrow> (bytes \<Rightarrow> int) \<Rightarrow> (string \<Rightarrow> 'e + bytes) option \<Rightarrow> int \<Rightarrow> int \<Rightarrow> string option \<Rightarrow> string option list \<Rightarrow>
      shift_error + string option list" where
  "apply_date_shift P md5 derive_key min_days max_days date_format column =
     and_then (column_key derive_key) (\<lambda>key.
       let (lo, hi) = (if max_days < min_days then (max_days, min_days) else (min_days, max_days));
           fmt = chosen_format date_format column;
           shift_fn = (\<lambda>v. case key of Some k \<Rightarrow> shift_for_value_keyed k v lo hi | None \<Rightarrow> shift_for_value_md5 md5 v lo hi) in
       map_result (shift_cell P shift_fn fmt) column)"

subsection \<open>The date strategy of \<open>text_mask.py\<close>\<close>

definition detect_date_format :: "string \<Rightarrow> string option" where
  "detect_date_format text = find (\<lambda>f. strptime text f \<noteq> None) COMMON_FORMATS"

definition mask_date_shift :: "string \<Rightarrow> bytes \<Rightarrow> int \<Rightarrow> int \<Rightarrow> shift_error + string" where
  "mask_date_shift text span_key min_days max_days =
     (case detect_date_format text of
        None \<Rightarrow> Inr text
      | Some f \<Rightarrow>
          (case strptime text f of
             None \<Rightarrow> Inr text
           | Some t \<Rightarrow>
               and_then (shift_in_range (from_bytes (take 8 span_key)) min_days max_days) (\<lambda>k.
               and_then (datetime_add t k) (\<lambda>t'. Inr (strftime t' f)))))"

section \<open>Reading what was written\<close>

lemma digit_in_digit_char [simp]: "n < 10 \<Longrightarrow> digit_in r (digit_char n) \<longleftrightarrow> fst r \<le> n \<and> n \<le> snd r"
  by (simp add: digit_in_def)

lemma digit_in_zero [simp]: "digit_in r (CHR ''0'') \<longleftrightarrow> fst r = 0"
  by (simp add: digit_in_def)

text \<open>\<open>starts i s v r\<close>: the first way the item matches reads \<open>v\<close> and leaves \<open>r\<close>.\<close>

definition starts :: "fmt_item \<Rightarrow> string \<Rightarrow> nat \<Rightarrow> string \<Rightarrow> bool" where
  "starts i s v r \<longleftrightarrow> (\<exists>xs. parse_item i s = (v, r) # xs)"

lemma parse_items_starts:
  assumes "starts i s v r" and "parse_items is (case i of Directive d \<Rightarrow> (d, v) # vs | _ \<Rightarrow> vs) r = x # xs"
  shows "\<exists>xs. parse_items (i # is) vs s = x # xs"
  using assms by (auto simp: starts_def)

lemma starts_year:
  assumes "1000 \<le> y" "y \<le> 9999"
  shows "starts (Directive (CHR ''Y'')) (dec_str y @ r) y r"
proof -
  define a b c d where dig: "a = y div 10 div 10 div 10" "b = y div 10 div 10 mod 10" "c = y div 10 mod 10" "d = y mod 10"
  have "dec_str y = [digit_char a, digit_char b, digit_char c, digit_char d]"
    using assms by (simp add: dig dec_str_big dec_str_small div_le_mono)
  moreover have "a < 10" "b < 10" "c < 10" "d < 10"
    using assms by (simp_all add: dig div_mult2_eq [symmetric] div_less_iff_less_mult)
  moreover have "10 * (10 * (10 * a + b) + c) + d = y"
    unfolding dig by (metis mult_div_mod_eq)
  ultimately show ?thesis
    by (simp add: starts_def alternatives_def)
qed

lemma pad2_digits:
  assumes "n < 100"
  obtains a b where "pad2 n = [digit_char a, digit_char b]" "a < 10" "b < 10" "n = 10 * a + b"
proof
  show "pad2 n = [digit_char (n div 10), digit_char (n mod 10)]" "n div 10 < 10" "n mod 10 < 10" "n = 10 * (n div 10) + n mod 10"
    using assms by (simp_all add: pad2_def div_less_iff_less_mult)
qed

lemma starts_pad2:
  "1 \<le> n \<Longrightarrow> n \<le> 12 \<Longrightarrow> starts (Directive (CHR ''m'')) (pad2 n @ r) n r"
  "1 \<le> n \<Longrightarrow> n \<le> 31 \<Longrightarrow> starts (Directive (CHR ''d'')) (pad2 n @ r) n r"
  "n \<le> 99 \<Longrightarrow> starts (Directive (CHR ''y'')) (pad2 n @ r) n r"
  "n \<le> 23 \<Longrightarrow> starts (Directive (CHR ''H'')) (pad2 n @ r) n r"
  "n \<le> 59 \<Longrightarrow> starts (Directive (CHR ''M'')) (pad2 n @ r) n r"
  "n \<le> 59 \<Longrightarrow> starts (Directive (CHR ''S'')) (pad2 n @ r) n r"
proof -
  have m: "starts (Directive (CHR ''m'')) ([digit_char a, digit_char b] @ r) (10 * a + b) r" if "a < 10" "b < 10" "1 \<le> 10 * a + b" "10 * a + b \<le> 12" for a b
    using that by (cases a) (auto simp: starts_def alternatives_def)
  have d: "starts (Directive (CHR ''d'')) ([digit_char a, digit_char b] @ r) (10 * a + b) r" if ab: "a < 10" "b < 10" "1 \<le> 10 * a + b" "10 * a + b \<le> 31" for a b
  proof -
    consider "a = 3" | "1 \<le> a" "a \<le> 2" | "a = 0"
      using ab by linarith
    then show ?thesis
      using ab by cases (auto simp: starts_def alternatives_def)
  qed
  have H: "starts (Directive (CHR ''H'')) ([digit_char a, digit_char b] @ r) (10 * a + b) r" if ab: "a < 10" "b < 10" "10 * a + b \<le> 23" for a b
  proof -
    consider "a = 2" | "a \<le> 1"
      using ab by linarith
    then show ?thesis
      using ab by cases (auto simp: starts_def alternatives_def)
  qed
  have y: "starts (Directive (CHR ''y'')) ([digit_char a, digit_char b] @ r) (10 * a + b) r" if "a < 10" "b < 10" for a b
    using that by (simp add: starts_def alternatives_def)
  have M: "starts (Directive (CHR ''M'')) ([digit_char a, digit_char b] @ r) (10 * a + b) r"
      "starts (Directive (CHR ''S'')) ([digit_char a, digit_char b] @ r) (10 * a + b) r" if "a < 10" "b < 10" "a \<le> 5" for a b
    using that by (simp_all add: starts_def alternatives_def)
  show "starts (Directive (CHR ''m'')) (pad2 n @ r) n r" if "1 \<le> n" "n \<le> 12"
    by (rule pad2_digits [of n]) (use m that in auto)
  show "starts (Directive (CHR ''d'')) (pad2 n @ r) n r" if "1 \<le> n" "n \<le> 31"
    by (rule pad2_digits [of n]) (use d that in auto)
  show "starts (Directive (CHR ''y'')) (pad2 n @ r) n r" if "n \<le> 99"
    by (rule pad2_digits [of n]) (use y that in auto)
  show "starts (Directive (CHR ''H'')) (pad2 n @ r) n r" if "n \<le> 23"
    by (rule pad2_digits [of n]) (use H that in auto)
  show "starts (Directive (CHR ''M'')) (pad2 n @ r) n r" if "n \<le> 59"
    by (rule pad2_digits [of n]) (use M(1) that in auto)
  show "starts (Directive (CHR ''S'')) (pad2 n @ r) n r" if "n \<le> 59"
    by (rule pad2_digits [of n]) (use M(2) that in auto)
qed

lemma starts_literal: "starts (Literal c) (c # r) 0 r"
  by (simp add: starts_def)

lemma starts_spaces: "r = [] \<or> \<not> py_space (hd r) \<Longrightarrow> starts Spaces (CHR '' '' # r) 0 r"
  by (cases r) (auto simp: starts_def py_space_def)

text \<open>What an item reads back of a time, and the formats and times for which it does.\<close>

definition item_value :: "datetime \<Rightarrow> fmt_item \<Rightarrow> nat" where
  "item_value t i =
     (case i of
        Directive d \<Rightarrow>
          if d = CHR ''Y'' then d_year (t_date t) else if d = CHR ''y'' then d_year (t_date t) mod 100
          else if d = CHR ''m'' then d_month (t_date t) else if d = CHR ''d'' then d_day (t_date t)
          else if d = CHR ''H'' then t_hour t else if d = CHR ''M'' then t_minute t else t_second t
      | _ \<Rightarrow> 0)"

definition writable :: "datetime \<Rightarrow> bool" where
  "writable t \<longleftrightarrow> valid_date (t_date t) \<and> 1000 \<le> d_year (t_date t) \<and> t_hour t \<le> 23 \<and> t_minute t \<le> 59 \<and> t_second t \<le> 59"

fun readable :: "fmt_item list \<Rightarrow> bool" where
  "readable [] = True"
| "readable (Directive d # is) = (d \<in> set ''YymdHMS'' \<and> readable is)"
| "readable (Literal c # is) = readable is"
| "readable (Spaces # is) = (readable is \<and> (case is of Directive d # _ \<Rightarrow> True | _ \<Rightarrow> False))"

fun fields :: "datetime \<Rightarrow> fmt_item list \<Rightarrow> (char \<times> nat) list \<Rightarrow> (char \<times> nat) list" where
  "fields t [] vs = vs"
| "fields t (i # is) vs = fields t is (case i of Directive d \<Rightarrow> (d, item_value t i) # vs | _ \<Rightarrow> vs)"

lemma writable_bounds:
  assumes "writable t"
  shows "1000 \<le> d_year (t_date t)" "d_year (t_date t) \<le> 9999" "1 \<le> d_month (t_date t)" "d_month (t_date t) \<le> 12"
    "1 \<le> d_day (t_date t)" "d_day (t_date t) \<le> 31" "t_hour t \<le> 23" "t_minute t \<le> 59" "t_second t \<le> 59"
  using assms by (auto simp: writable_def valid_date_def MAXYEAR_def days_in_month_def split: if_splits)

lemma directive_starts:
  assumes "writable t" and "d \<in> set ''YymdHMS''"
  shows "starts (Directive d) (strftime_item t (Directive d) @ r) (item_value t (Directive d)) r"
  using assms(2) writable_bounds [OF assms(1)] starts_year starts_pad2
  by (auto simp: item_value_def)

lemma strftime_item_digit:
  assumes "d \<in> set ''YymdHMS''"
  shows "strftime_item t (Directive d) \<noteq> [] \<and> \<not> py_space (hd (strftime_item t (Directive d)))"
proof -
  have "all_digits (strftime_item t (Directive d))" "strftime_item t (Directive d) \<noteq> []"
    using assms by (auto simp: pad2_def)
  then show ?thesis
    using digit_plain by (cases "strftime_item t (Directive d)") auto
qed

lemma parse_items_written:
  assumes "writable t" and "readable is"
  shows "\<exists>xs. parse_items is vs (concat (map (strftime_item t) is)) = (fields t is vs, []) # xs"
  using assms(2)
proof (induction "is" arbitrary: vs rule: readable.induct)
  case (2 d "is")
  have "starts (Directive d) (strftime_item t (Directive d) @ concat (map (strftime_item t) is)) (item_value t (Directive d)) (concat (map (strftime_item t) is))"
    using directive_starts [OF assms(1)] 2(2) by simp
  then show ?case
    using parse_items_starts [of "Directive d"] 2(1) [of "(d, item_value t (Directive d)) # vs"] 2(2) by fastforce
next
  case (3 c "is")
  then show ?case
    using parse_items_starts [OF starts_literal, of "is" vs] 3 by fastforce
next
  case (4 "is")
  then obtain d is' where is': "is = Directive d # is'" "d \<in> set ''YymdHMS''"
    by (auto split: list.splits fmt_item.splits)
  let ?r = "concat (map (strftime_item t) is)"
  have "\<not> py_space (hd ?r)"
    using strftime_item_digit [OF is'(2), of t] by (simp add: is'(1) del: strftime_item.simps)
  then have "starts Spaces (CHR '' '' # ?r) 0 ?r"
    by (intro starts_spaces) simp
  moreover obtain xs where "parse_items is vs ?r = (fields t is vs, []) # xs"
    using 4 by auto
  ultimately have "\<exists>xs. parse_items (Spaces # is) vs (CHR '' '' # ?r) = (fields t is vs, []) # xs"
    by (intro parse_items_starts) simp_all
  then show ?case
    by simp
qed simp

text \<open>A common format reads back every time it can express: a date alone has time zero, and two digits of a
  year stand for 1969 to 2068.\<close>

definition expressible :: "string \<Rightarrow> datetime \<Rightarrow> bool" where
  "expressible f t \<longleftrightarrow> writable t \<and>
     (Directive (CHR ''H'') \<in> set (fmt_items f) \<or> t_hour t = 0 \<and> t_minute t = 0 \<and> t_second t = 0) \<and>
     (Directive (CHR ''y'') \<in> set (fmt_items f) \<longrightarrow> 1969 \<le> d_year (t_date t) \<and> d_year (t_date t) \<le> 2068)"

lemma two_digit_year:
  assumes "1969 \<le> y" "y \<le> 2068"
  shows "full_year (y mod 100) = y"
proof (cases "y < 2000")
  case True
  define k where "k = y - 1900"
  have k: "y = k + 19 * 100" "69 \<le> k" "k < 100"
    using True assms by (auto simp: k_def)
  have "y mod 100 = k"
    unfolding k(1) mod_mult_self1 using k(3) by simp
  then show ?thesis
    using k by (simp add: full_year_def)
next
  case False
  define k where "k = y - 2000"
  have k: "y = k + 20 * 100" "k \<le> 68"
    using False assms by (auto simp: k_def)
  have "y mod 100 = k"
    unfolding k(1) mod_mult_self1 using k(2) by simp
  then show ?thesis
    using k by (simp add: full_year_def)
qed

lemma fmt_items_common:
  "fmt_items ''%Y-%m-%d'' = [Directive (CHR ''Y''), Literal (CHR ''-''), Directive (CHR ''m''), Literal (CHR ''-''), Directive (CHR ''d'')]"
  "fmt_items ''%m/%d/%Y'' = [Directive (CHR ''m''), Literal (CHR ''/''), Directive (CHR ''d''), Literal (CHR ''/''), Directive (CHR ''Y'')]"
  "fmt_items ''%d/%m/%Y'' = [Directive (CHR ''d''), Literal (CHR ''/''), Directive (CHR ''m''), Literal (CHR ''/''), Directive (CHR ''Y'')]"
  "fmt_items ''%Y/%m/%d'' = [Directive (CHR ''Y''), Literal (CHR ''/''), Directive (CHR ''m''), Literal (CHR ''/''), Directive (CHR ''d'')]"
  "fmt_items ''%m-%d-%Y'' = [Directive (CHR ''m''), Literal (CHR ''-''), Directive (CHR ''d''), Literal (CHR ''-''), Directive (CHR ''Y'')]"
  "fmt_items ''%d-%m-%Y'' = [Directive (CHR ''d''), Literal (CHR ''-''), Directive (CHR ''m''), Literal (CHR ''-''), Directive (CHR ''Y'')]"
  "fmt_items ''%Y%m%d'' = [Directive (CHR ''Y''), Directive (CHR ''m''), Directive (CHR ''d'')]"
  "fmt_items ''%m/%d/%y'' = [Directive (CHR ''m''), Literal (CHR ''/''), Directive (CHR ''d''), Literal (CHR ''/''), Directive (CHR ''y'')]"
  "fmt_items ''%d/%m/%y'' = [Directive (CHR ''d''), Literal (CHR ''/''), Directive (CHR ''m''), Literal (CHR ''/''), Directive (CHR ''y'')]"
  "fmt_items ''%Y-%m-%dT%H:%M:%S'' = [Directive (CHR ''Y''), Literal (CHR ''-''), Directive (CHR ''m''), Literal (CHR ''-''), Directive (CHR ''d''),
     Literal (CHR ''T''), Directive (CHR ''H''), Literal (CHR '':''), Directive (CHR ''M''), Literal (CHR '':''), Directive (CHR ''S'')]"
  "fmt_items ''%Y-%m-%d %H:%M:%S'' = [Directive (CHR ''Y''), Literal (CHR ''-''), Directive (CHR ''m''), Literal (CHR ''-''), Directive (CHR ''d''),
     Spaces, Directive (CHR ''H''), Literal (CHR '':''), Directive (CHR ''M''), Literal (CHR '':''), Directive (CHR ''S'')]"
  by code_simp+

declare fmt_items.simps [simp del]

definition fields_time :: "(char \<times> nat) list \<Rightarrow> datetime" where
  "fields_time vs = \<lparr>t_date = \<lparr>d_year = year_field vs, d_month = field (CHR ''m'') 1 vs, d_day = field (CHR ''d'') 1 vs\<rparr>,
     t_hour = field (CHR ''H'') 0 vs, t_minute = field (CHR ''M'') 0 vs, t_second = field (CHR ''S'') 0 vs\<rparr>"

lemma common_format_fields:
  assumes "f \<in> set COMMON_FORMATS" and "expressible f t"
  shows "readable (fmt_items f)" and "fields_time (fields t (fmt_items f) []) = t"
proof -
  note f = assms(1) [unfolded COMMON_FORMATS_def, simplified list.set insert_iff empty_iff]
  have y: "Directive (CHR ''y'') \<in> set (fmt_items f) \<longrightarrow> full_year (d_year (t_date t) mod 100) = d_year (t_date t)"
    and h: "Directive (CHR ''H'') \<notin> set (fmt_items f) \<longrightarrow> t_hour t = 0 \<and> t_minute t = 0 \<and> t_second t = 0"
    using assms(2) two_digit_year by (auto simp: expressible_def)
  have "year_field (fields t (fmt_items f) []) = d_year (t_date t)"
    using f y by (elim disjE) (simp_all add: fmt_items_common year_field_def item_value_def)
  moreover have "field (CHR ''m'') 1 (fields t (fmt_items f) []) = d_month (t_date t) \<and> field (CHR ''d'') 1 (fields t (fmt_items f) []) = d_day (t_date t)"
    using f by (elim disjE) (simp_all add: fmt_items_common field_def item_value_def)
  moreover have "field (CHR ''H'') 0 (fields t (fmt_items f) []) = t_hour t \<and> field (CHR ''M'') 0 (fields t (fmt_items f) []) = t_minute t \<and>
      field (CHR ''S'') 0 (fields t (fmt_items f) []) = t_second t"
    using f h by (elim disjE) (simp_all add: fmt_items_common field_def item_value_def)
  ultimately show "fields_time (fields t (fmt_items f) []) = t"
    by (simp add: fields_time_def)
  show "readable (fmt_items f)"
    using f by (elim disjE) (simp_all add: fmt_items_common)
qed

lemma strptime_strftime:
  assumes "f \<in> set COMMON_FORMATS" and "expressible f t"
  shows "strptime (strftime t f) f = Some t"
proof -
  have w: "writable t"
    using assms(2) by (simp add: expressible_def)
  obtain xs where p: "parse_items (fmt_items f) [] (strftime t f) = (fields t (fmt_items f) [], []) # xs"
    using parse_items_written [OF w common_format_fields(1) [OF assms]] unfolding strftime_def by blast
  define vs where "vs = fields t (fmt_items f) []"
  have "fields_time vs = t"
    using common_format_fields(2) [OF assms] by (simp add: vs_def)
  moreover have "valid_date (t_date t)" "t_second t \<le> 59"
    using w by (simp_all add: writable_def)
  ultimately show ?thesis
    using p by (auto simp: strptime_def fields_time_def vs_def [symmetric] Let_def)
qed

section \<open>What was read\<close>

lemma match_digits_le:
  "(v', r) \<in> set (match_digits rs v s) \<Longrightarrow> v \<le> m \<Longrightarrow> v' \<le> foldl (\<lambda>a q. 10 * a + snd q) m rs"
proof (induction rs v s arbitrary: m rule: match_digits.induct)
  case (2 r rs v c s)
  then have "digit_val c \<le> snd r"
    by (auto simp: digit_in_def split: if_splits)
  then show ?case
    using 2 by (auto split: if_splits)
qed auto

definition time_bound :: "char \<Rightarrow> nat" where
  "time_bound d = (if d = CHR ''H'' then 23 else 59)"

lemma parse_item_time:
  assumes "(v, r) \<in> set (parse_item (Directive d) s)" and "d = CHR ''H'' \<or> d = CHR ''M''"
  shows "v \<le> time_bound d"
  using assms match_digits_le [of v r _ 0 s 0] by (fastforce simp: alternatives_def time_bound_def)

lemma parse_items_keys:
  assumes "(vs', r) \<in> set (parse_items is vs s)" and "(d, v) \<in> set vs'"
  shows "(d, v) \<in> set vs \<or> Directive d \<in> set is \<and> (d = CHR ''H'' \<or> d = CHR ''M'' \<longrightarrow> v \<le> time_bound d)"
  using assms
proof (induction "is" arbitrary: vs s)
  case (Cons i "is")
  then obtain x where p: "x \<in> set (parse_item i s)"
      and q: "(vs', r) \<in> set (parse_items is (case i of Directive d \<Rightarrow> (d, fst x) # vs | _ \<Rightarrow> vs) (snd x))"
    by (auto simp: case_prod_unfold)
  show ?case
  proof (cases i)
    case (Directive e)
    have "e = CHR ''H'' \<or> e = CHR ''M'' \<longrightarrow> fst x \<le> time_bound e"
      using parse_item_time [of "fst x" "snd x" e s] p unfolding Directive by (simp del: parse_item.simps)
    then show ?thesis
      using Cons.IH [OF q Cons.prems(2)] unfolding Directive by auto
  next
    case Spaces
    then show ?thesis
      using Cons.IH [OF q Cons.prems(2)] by auto
  next
    case (Literal c)
    then show ?thesis
      using Cons.IH [OF q Cons.prems(2)] by auto
  qed
qed simp

lemma strptime_Some:
  assumes "strptime text f = Some t"
  shows "valid_date (t_date t)" "t_hour t \<le> 23" "t_minute t \<le> 59" "t_second t \<le> 59"
    and "Directive (CHR ''H'') \<notin> set (fmt_items f) \<Longrightarrow> t_hour t = 0"
    and "Directive (CHR ''M'') \<notin> set (fmt_items f) \<Longrightarrow> t_minute t = 0"
    and "Directive (CHR ''S'') \<notin> set (fmt_items f) \<Longrightarrow> t_second t = 0"
proof -
  obtain vs rest xs where p: "parse_items (fmt_items f) [] text = (vs, rest) # xs"
    using assms by (auto simp: strptime_def split: list.splits)
  note keys = parse_items_keys [of vs rest "fmt_items f" "[]" "text"]
  have t: "t_hour t = field (CHR ''H'') 0 vs" "t_minute t = field (CHR ''M'') 0 vs" "t_second t = field (CHR ''S'') 0 vs"
      "valid_date (t_date t)" "t_second t \<le> 59"
    using assms p by (auto simp: strptime_def Let_def split: if_splits)
  show "valid_date (t_date t)" "t_second t \<le> 59"
    using t by simp_all
  have field_or_zero: "field d 0 vs = 0 \<or> (d, field d 0 vs) \<in> set vs" for d
    by (auto simp: field_def map_of_SomeD split: option.splits)
  show "t_hour t \<le> 23" "t_minute t \<le> 59"
    using field_or_zero [of "CHR ''H''"] field_or_zero [of "CHR ''M''"] keys t p by (auto simp: time_bound_def)
  show "t_hour t = 0" if "Directive (CHR ''H'') \<notin> set (fmt_items f)"
    using field_or_zero [of "CHR ''H''"] keys t p that by auto
  show "t_minute t = 0" if "Directive (CHR ''M'') \<notin> set (fmt_items f)"
    using field_or_zero [of "CHR ''M''"] keys t p that by auto
  show "t_second t = 0" if "Directive (CHR ''S'') \<notin> set (fmt_items f)"
    using field_or_zero [of "CHR ''S''"] keys t p that by auto
qed

lemma common_format_time: "f \<in> set COMMON_FORMATS \<Longrightarrow> Directive (CHR ''H'') \<notin> set (fmt_items f) \<Longrightarrow>
    Directive (CHR ''M'') \<notin> set (fmt_items f) \<and> Directive (CHR ''S'') \<notin> set (fmt_items f)"
  unfolding COMMON_FORMATS_def list.set insert_iff empty_iff by (elim disjE) (simp_all add: fmt_items_common)

lemma shift_in_range_bounds:
  assumes "lo \<le> hi"
  obtains k where "shift_in_range h lo hi = Inr k" "lo \<le> k" "k \<le> hi"
proof
  show "shift_in_range h lo hi = Inr (lo + h mod (hi - lo + 1))"
    using assms by (simp add: shift_in_range_def)
  show "lo \<le> lo + h mod (hi - lo + 1)" "lo + h mod (hi - lo + 1) \<le> hi"
    using assms pos_mod_bound [of "hi - lo + 1" h] pos_mod_sign [of "hi - lo + 1" h] by linarith+
qed

lemma datetime_add_Inr:
  assumes "datetime_add t k = Inr t'"
  shows "valid_date (t_date t')" "int (toordinal (t_date t')) = int (toordinal (t_date t)) + k"
    "t_hour t' = t_hour t" "t_minute t' = t_minute t" "t_second t' = t_second t"
  using assms date_add_Inr [of "t_date t" k] by (auto simp: datetime_add_def split: sum.splits)

text \<open>The years a format can express.\<close>

definition year_expressible :: "string \<Rightarrow> nat \<Rightarrow> bool" where
  "year_expressible f y \<longleftrightarrow> 1000 \<le> y \<and> (Directive (CHR ''y'') \<in> set (fmt_items f) \<longrightarrow> 1969 \<le> y \<and> y \<le> 2068)"

lemma shifted_expressible:
  assumes "f \<in> set COMMON_FORMATS" "strptime text f = Some t" "datetime_add t k = Inr t'" "year_expressible f (d_year (t_date t'))"
  shows "expressible f t'"
  using strptime_Some [OF assms(2)] common_format_time [OF assms(1)] datetime_add_Inr [OF assms(3)] assms(4)
  by (auto simp: expressible_def writable_def year_expressible_def)

section \<open>Properties\<close>

text \<open>C31. A date inside free text is moved within its window and stays a date. When a span is recognised as
  a date of a common format and the configured window is not empty, there is a shift inside the
  window such that the replacement is the date moved by that many days, written in the same format;
  the replacement reads back as that date whenever the format can express its year. The only failure
  is a date that leaves the calendar.\<close>

theorem text_date_shift_in_window:
  assumes "detect_date_format text = Some f" and "min_days \<le> max_days"
  shows "\<exists>t k. strptime text f = Some t \<and> min_days \<le> k \<and> k \<le> max_days \<and>
    (case datetime_add t k of
       Inl e \<Rightarrow> mask_date_shift text span_key min_days max_days = Inl e
     | Inr t' \<Rightarrow> mask_date_shift text span_key min_days max_days = Inr (strftime t' f) \<and>
         int (toordinal (t_date t')) = int (toordinal (t_date t)) + k \<and>
         (year_expressible f (d_year (t_date t')) \<longrightarrow> strptime (strftime t' f) f = Some t'))"
proof -
  obtain t where t: "strptime text f = Some t" and f: "f \<in> set COMMON_FORMATS"
    using assms(1) by (auto simp: detect_date_format_def find_Some_iff in_set_conv_nth)
  obtain k where k: "shift_in_range (from_bytes (take 8 span_key)) min_days max_days = Inr k" "min_days \<le> k" "k \<le> max_days"
    by (rule shift_in_range_bounds [OF assms(2)])
  have "case datetime_add t k of
       Inl e \<Rightarrow> mask_date_shift text span_key min_days max_days = Inl e
     | Inr t' \<Rightarrow> mask_date_shift text span_key min_days max_days = Inr (strftime t' f) \<and>
         int (toordinal (t_date t')) = int (toordinal (t_date t)) + k \<and>
         (year_expressible f (d_year (t_date t')) \<longrightarrow> strptime (strftime t' f) f = Some t')"
    using k(1) t assms(1) datetime_add_Inr(2) [of t k] shifted_expressible [OF f t, of k] strptime_strftime [OF f]
    by (auto simp: mask_date_shift_def split: sum.split)
  then show ?thesis
    using t k by blast
qed

theorem text_date_shift_in_window_witness:
  "\<exists>out t'. mask_date_shift ''2024-02-29'' (replicate 8 0) 1 1 = Inr out \<and>
     strptime out ''%Y-%m-%d'' = Some t' \<and> t_date t' = \<lparr>d_year = 2024, d_month = 3, d_day = 1\<rparr>"
proof -
  let ?mask = "mask_date_shift ''2024-02-29'' (replicate 8 0) 1 1" and ?f = "''%Y-%m-%d''"
  have d: "detect_date_format ''2024-02-29'' = Some ?f"
    and p: "strptime ''2024-02-29'' ?f = Some \<lparr>t_date = \<lparr>d_year = 2024, d_month = 2, d_day = 29\<rparr>, t_hour = 0, t_minute = 0, t_second = 0\<rparr>"
    by code_simp+
  obtain t k where t: "strptime ''2024-02-29'' ?f = Some t" "k = 1"
    and shifted: "case datetime_add t k of Inl e \<Rightarrow> ?mask = Inl e
     | Inr t' \<Rightarrow> ?mask = Inr (strftime t' ?f) \<and> int (toordinal (t_date t')) = int (toordinal (t_date t)) + k \<and>
         (year_expressible ?f (d_year (t_date t')) \<longrightarrow> strptime (strftime t' ?f) ?f = Some t')"
    using text_date_shift_in_window [OF d, of 1 1 "replicate 8 0"] by force
  have ord: "toordinal (t_date t) = 738945" "toordinal \<lparr>d_year = 2024, d_month = 3, d_day = 1\<rparr> = 738946"
    using p t by (simp_all add: toordinal_def days_before_year_def days_before_month_def days_in_month_def is_leap_def upt_rec)
  then obtain t' where t': "datetime_add t k = Inr t'"
    using date_add_total [of "t_date t" 1] t(2) by (auto simp: datetime_add_def MAXORDINAL_def)
  then have "toordinal (t_date t') = toordinal \<lparr>d_year = 2024, d_month = 3, d_day = 1\<rparr>"
    using shifted ord t(2) by simp
  then have "t_date t' = \<lparr>d_year = 2024, d_month = 3, d_day = 1\<rparr>"
    using toordinal_inj datetime_add_Inr(1) [OF t']
    by (simp add: valid_date_def MINYEAR_def MAXYEAR_def days_in_month_def)
  then show ?thesis
    using shifted t' by (auto simp: year_expressible_def fmt_items_common)
qed

text \<open>Column-wise date shifting. Whatever order the bounds are given in, each cell that parses
  is moved by a number of days between them and written in the column's format; nulls and cells that
  do not parse stay as they are; equal cells get equal results; and a key that cannot be derived
  fails the run. With ordered or swapped bounds the shift itself never fails.\<close>

theorem date_shift_column:
  assumes "apply_date_shift P md5 derive_key a b date_format column = Inr out"
  shows "length out = length column \<and> (\<forall>f. derive_key = Some f \<longrightarrow> (\<exists>k. f ''mask'' = Inr k)) \<and>
    (\<forall>i < length column.
      (column ! i = None \<longrightarrow> out ! i = None) \<and>
      (\<forall>s. column ! i = Some s \<and> pd_parse P (chosen_format date_format column) s = None \<longrightarrow> out ! i = Some s) \<and>
      (\<forall>s t. column ! i = Some s \<and> pd_parse P (chosen_format date_format column) s = Some t \<longrightarrow>
        (\<exists>k t'. min a b \<le> k \<and> k \<le> max a b \<and> pd_add P t k = Inr t' \<and>
          out ! i = Some (pd_render P (case chosen_format date_format column of Some f \<Rightarrow> f | None \<Rightarrow> ''%Y-%m-%d'') t'))) \<and>
      (\<forall>j < length column. column ! i = column ! j \<longrightarrow> out ! i = out ! j))"
proof -
  define fmt where "fmt = chosen_format date_format column"
  have swap: "(if b < a then (b, a) else (a, b)) = (min a b, max a b)"
    by auto
  obtain key where key: "column_key derive_key = Inr key"
    and run: "map_result (shift_cell P (\<lambda>v. case key of Some k \<Rightarrow> shift_for_value_keyed k v (min a b) (max a b)
        | None \<Rightarrow> shift_for_value_md5 md5 v (min a b) (max a b)) fmt) column = Inr out"
    using assms unfolding apply_date_shift_def swap by (auto simp: result_simps fmt_def)
  define shift_fn where "shift_fn = (\<lambda>v. case key of Some k \<Rightarrow> shift_for_value_keyed k v (min a b) (max a b)
        | None \<Rightarrow> shift_for_value_md5 md5 v (min a b) (max a b))"
  note run = run [folded shift_fn_def]
  have cell: "shift_cell P shift_fn fmt (column ! i) = Inr (out ! i)" if "i < length column" for i
    using map_result_nth [OF run that] .
  have bounds: "min a b \<le> k \<and> k \<le> max a b" if "shift_fn v = Inr k" for v k
  proof -
    obtain h where h: "shift_fn v = shift_in_range h (min a b) (max a b)"
      by (cases key) (auto simp: shift_fn_def shift_for_value_keyed_def shift_for_value_md5_def)
    obtain k' where "shift_in_range h (min a b) (max a b) = Inr k'" "min a b \<le> k'" "k' \<le> max a b"
      by (rule shift_in_range_bounds [of "min a b" "max a b" h]) simp
    then show ?thesis
      using h that by simp
  qed
  have "\<exists>k t'. min a b \<le> k \<and> k \<le> max a b \<and> pd_add P t k = Inr t' \<and>
      out ! i = Some (pd_render P (case fmt of Some f \<Rightarrow> f | None \<Rightarrow> ''%Y-%m-%d'') t')"
    if i: "i < length column" "column ! i = Some s" "pd_parse P fmt s = Some t" for i s t
  proof -
    obtain k t' where "shift_fn s = Inr k" "pd_add P t k = Inr t'" "out ! i = Some (pd_render P (case fmt of Some f \<Rightarrow> f | None \<Rightarrow> ''%Y-%m-%d'') t')"
      using cell [OF i(1)] i(2,3) by (auto simp: shift_cell_def result_simps)
    then show ?thesis
      using bounds by blast
  qed
  moreover have "out ! i = Some s" if "i < length column" "column ! i = Some s" "pd_parse P fmt s = None" for i s
    using cell [OF that(1)] that(2,3) by (simp add: shift_cell_def)
  moreover have "out ! i = None" if "i < length column" "column ! i = None" for i
    using cell [OF that(1)] that(2) by (simp add: shift_cell_def)
  moreover have "out ! i = out ! j" if "i < length column" "j < length column" "column ! i = column ! j" for i j
    using cell [OF that(1)] cell [OF that(2)] that(3) by simp
  moreover have "\<forall>f. derive_key = Some f \<longrightarrow> (\<exists>k. f ''mask'' = Inr k)"
    using key by (auto simp: column_key_def split: sum.splits)
  ultimately show ?thesis
    using map_result_length [OF run] unfolding fmt_def [symmetric] by blast
qed

text \<open>A column of two dates, a null and a word; pandas is played by the functions of this theory.\<close>

definition demo_pandas :: "datetime pandas" where
  "demo_pandas = \<lparr>pd_parse = (\<lambda>fmt s. case fmt of Some f \<Rightarrow> strptime s f | None \<Rightarrow> None), pd_add = (\<lambda>t k. Inr t),
     pd_render = (\<lambda>f t. strftime t f)\<rparr>"

lemma length_four: "0 < length [a, b, c, d]" "1 < length [a, b, c, d]" "2 < length [a, b, c, d]" "3 < length [a, b, c, d]"
  by simp_all

theorem date_shift_column_witness:
  "\<exists>out. apply_date_shift demo_pandas (\<lambda>_. 5) (None :: (string \<Rightarrow> unit + bytes) option) 3 (- 3) (Some ''%Y-%m-%d'')
      [Some ''2024-02-29'', None, Some ''n/a'', Some ''2024-02-29''] = Inr out \<and> out ! 1 = None \<and> out ! 2 = Some ''n/a'' \<and> out ! 0 = out ! 3"
proof -
  let ?column = "[Some ''2024-02-29'', None, Some ''n/a'', Some ''2024-02-29'']"
  let ?run = "apply_date_shift demo_pandas (\<lambda>_. 5) (None :: (string \<Rightarrow> unit + bytes) option) 3 (- 3) (Some ''%Y-%m-%d'') ?column"
  have na: "strptime ''n/a'' ''%Y-%m-%d'' = None"
    by code_simp
  obtain out where run: "?run = Inr out"
    by (cases "strptime ''2024-02-29'' ''%Y-%m-%d''")
      (simp_all add: apply_date_shift_def column_key_def shift_cell_def demo_pandas_def chosen_format_def na
        shift_for_value_md5_def shift_in_range_def)
  let ?fmt = "chosen_format (Some ''%Y-%m-%d'') ?column"
  note shifted = date_shift_column [OF run]
  have "?column ! 1 = None \<longrightarrow> out ! 1 = None" "?column ! 2 = Some ''n/a'' \<and> pd_parse demo_pandas ?fmt ''n/a'' = None \<longrightarrow> out ! 2 = Some ''n/a''"
    using shifted by (meson length_four)+
  moreover have "?column ! 0 = ?column ! 3 \<longrightarrow> out ! 0 = out ! 3"
    using shifted by (meson length_four)
  moreover have "pd_parse demo_pandas ?fmt ''n/a'' = None"
    using na by (simp add: demo_pandas_def chosen_format_def)
  ultimately show ?thesis
    using run by simp
qed

end
