(* ===== verification/Text_Mask.thy ===== *)
theory Text_Mask
  imports FPE Detection_Validators Date_Text "HOL-Library.Product_Lexorder"
begin

text \<open>
  Masking of personal data inside free text: span resolution (\<open>detection/detectors.py\<close>, \<open>iter_spans\<close>), the
  splice (\<open>transforms/_text_mask_splice.py\<close>), the synthetic replacement
  (\<open>transforms/_text_mask_synthetic.py\<close>) and the per-span strategies (\<open>transforms/text_mask.py\<close>).

  What a compiled pattern finds in a text and what a seeded Faker answers are arguments. A span
  strategy returns its text together with the detectors it counted in \<open>sub_floor_notices\<close>, in order.
\<close>

section \<open>Model\<close>

record span =
  sp_detector :: string
  sp_start :: nat
  sp_end :: nat
  sp_text :: string

datatype text_error =
    TextFpe fpe_error | TextShift shift_error | TextDerive determinism_error | TextChecksum checksum_error
  | TextZeroDivision

subsection \<open>\<open>iter_spans\<close>\<close>

text \<open>\<open>_SPAN_DETECTORS\<close>: the built-in detectors in order, each with its validator.\<close>

definition SPAN_DETECTORS :: "(string \<times> (string \<Rightarrow> checksum_error + bool) option) list" where
  "SPAN_DETECTORS =
     [(''email'', None), (''ssn'', None), (''us_phone'', None), (''us_zip'', None), (''pan'', Some luhn_valid),
      (''iban'', Some (\<lambda>s. Inr (iban_valid s))), (''ipv4'', Some ipv4_valid), (''icd10'', Some icd10_valid),
      (''npi'', Some npi_valid), (''url'', None), (''street_address'', None)]"

definition substring :: "string \<Rightarrow> nat \<Rightarrow> nat \<Rightarrow> string" where
  "substring s i j = take (j - i) (drop i s)"

text \<open>The spans one pattern contributes: \<open>matches\<close> are the ends of what \<open>finditer\<close> yields.\<close>

fun pattern_spans ::
    "string \<Rightarrow> (string \<Rightarrow> checksum_error + bool) option \<Rightarrow> string \<Rightarrow> (nat \<times> nat) list \<Rightarrow> checksum_error + span list" where
  "pattern_spans det_id validator cell [] = Inr []"
| "pattern_spans det_id validator cell ((i, j) # matches) =
     (let matched = substring cell i j in
      and_then (case validator of None \<Rightarrow> Inr True | Some f \<Rightarrow> f matched) (\<lambda>ok.
      and_then (pattern_spans det_id validator cell matches) (\<lambda>spans.
      Inr (if ok then \<lparr>sp_detector = det_id, sp_start = i, sp_end = j, sp_text = matched\<rparr> # spans else spans))))"

text \<open>A custom detector: its id, what its pattern finds, and its validator.\<close>

type_synonym custom = "string \<times> (string \<Rightarrow> (nat \<times> nat) list) \<times> (string \<Rightarrow> checksum_error + bool) option"

definition raw_spans ::
    "(string \<Rightarrow> string \<Rightarrow> (nat \<times> nat) list) \<Rightarrow> string \<Rightarrow> string list option \<Rightarrow> custom list \<Rightarrow> span list \<Rightarrow> checksum_error + span list" where
  "raw_spans finditer cell detector_ids custom extra_spans =
     (let ids = (case detector_ids of None \<Rightarrow> map fst SPAN_DETECTORS | Some ids \<Rightarrow> ids) in
      and_then (map_result (\<lambda>d. case map_of SPAN_DETECTORS d of None \<Rightarrow> Inr [] | Some v \<Rightarrow> pattern_spans d v cell (finditer d cell)) ids) (\<lambda>built.
      and_then (map_result (\<lambda>(d, finds, v). pattern_spans d v cell (finds cell)) custom) (\<lambda>own.
      Inr (extra_spans @ concat built @ concat own))))"

definition span_order :: "span \<Rightarrow> nat \<times> int" where
  "span_order s = (sp_start s, - (int (sp_end s) - int (sp_start s)))"

fun sweep :: "int \<Rightarrow> span list \<Rightarrow> span list" where
  "sweep last_end [] = []"
| "sweep last_end (s # spans) = (if last_end \<le> int (sp_start s) then s # sweep (int (sp_end s)) spans else sweep last_end spans)"

definition iter_spans ::
    "(string \<Rightarrow> string \<Rightarrow> (nat \<times> nat) list) \<Rightarrow> string \<Rightarrow> string list option \<Rightarrow> custom list \<Rightarrow> span list \<Rightarrow> checksum_error + span list" where
  "iter_spans finditer cell detector_ids custom extra_spans =
     (if cell = [] then Inr []
      else and_then (raw_spans finditer cell detector_ids custom extra_spans) (\<lambda>raw. Inr (sweep (- 1) (sort_key span_order raw))))"

subsection \<open>The splice\<close>

definition UNMATCHED_TOKEN :: string where "UNMATCHED_TOKEN = ''[UNMATCHED]''"

definition apply_unmatched :: "string \<Rightarrow> string \<Rightarrow> string \<Rightarrow> string" where
  "apply_unmatched segment policy token =
     (if segment = [] then segment
      else if policy = ''passthrough'' then segment
      else if policy = ''replace_with_token'' then UNMATCHED_TOKEN
      else token)"

fun splice_loop ::
    "(span \<Rightarrow> 'e + string \<times> string list) \<Rightarrow> string \<Rightarrow> string \<Rightarrow> string \<Rightarrow> nat \<Rightarrow> span list \<Rightarrow> 'e + string \<times> string list" where
  "splice_loop mask_span policy token cell cursor [] =
     Inr (if cursor < length cell then apply_unmatched (drop cursor cell) policy token else [], [])"
| "splice_loop mask_span policy token cell cursor (s # spans) =
     and_then (mask_span s) (\<lambda>(masked, notes).
     and_then (splice_loop mask_span policy token cell (sp_end s) spans) (\<lambda>(rest, notes').
     Inr ((if cursor < sp_start s then apply_unmatched (substring cell cursor (sp_start s)) policy token else []) @ masked @ rest,
       notes @ notes')))"

definition splice_spans ::
    "(span \<Rightarrow> 'e + string \<times> string list) \<Rightarrow> string \<Rightarrow> string \<Rightarrow> string \<Rightarrow> span list \<Rightarrow> 'e + string \<times> string list" where
  "splice_spans mask_span policy token cell spans =
     (if spans = [] then Inr (apply_unmatched cell policy token, []) else splice_loop mask_span policy token cell 0 spans)"

subsection \<open>Synthetic replacement\<close>

definition synthetic_block :: "bytes \<Rightarrow> string \<Rightarrow> nat \<Rightarrow> string" where
  "synthetic_block seed_key charset counter =
     map (\<lambda>b. charset ! (unat b mod length charset))
       (hmac_sha256 seed_key (utf8 (''fpe-sub-floor-synthetic/v1:'' @ dec_str counter)))"

function synthetic_loop :: "bytes \<Rightarrow> string \<Rightarrow> nat \<Rightarrow> nat \<Rightarrow> string \<Rightarrow> string" where
  "synthetic_loop seed_key charset n counter out =
     (if length out < n
      then synthetic_loop seed_key charset n (counter + 1) (out @ take (n - length out) (synthetic_block seed_key charset counter))
      else out)"
  by pat_completeness auto

termination
  by (relation "measure (\<lambda>(k, cs, n, c, out). n - length out)") (auto simp: synthetic_block_def)

declare synthetic_loop.simps [simp del]

definition synthetic_digits :: "bytes \<Rightarrow> string \<Rightarrow> nat \<Rightarrow> text_error + string" where
  "synthetic_digits seed_key charset n =
     (if 0 < n \<and> charset = [] then Inl TextZeroDivision else Inr (synthetic_loop seed_key charset n 0 []))"

definition SYNTHETIC_CHECKSUM_PINNED_PREFIX :: "(string \<times> nat) list" where
  "SYNTHETIC_CHECKSUM_PINNED_PREFIX = [(''luhn'', 0), (''npi'', 1)]"

text \<open>The check digit takes the place of the last in-charset character.\<close>

definition synthetic_span_value :: "stdnum \<Rightarrow> bytes \<Rightarrow> string \<Rightarrow> string \<Rightarrow> string option \<Rightarrow> text_error + string" where
  "synthetic_span_value S seed_key matched charset checksum =
     (let positions = in_charset_positions charset matched; body_len = length positions;
          pinned_prefix = (case checksum of None \<Rightarrow> None | Some c \<Rightarrow> if c = [] then None else map_of SYNTHETIC_CHECKSUM_PINNED_PREFIX c) in
      if positions = [] then Inr matched
      else case (checksum, pinned_prefix) of
          (Some scheme, Some npin) \<Rightarrow>
            if npin < body_len then
              (let pinned = map (\<lambda>i. matched ! (positions ! i)) [0..<npin] in
               and_then (synthetic_digits seed_key charset (body_len - npin - 1)) (\<lambda>synth.
               and_then (on_error TextChecksum (calc_check_digit S scheme (pinned @ synth))) (\<lambda>check_digit.
               let out = reinsert matched positions (pinned @ synth) in
               Inr (take (last positions) out @ check_digit @ drop (last positions + 1) out))))
            else and_then (synthetic_digits seed_key charset body_len) (\<lambda>synth. Inr (reinsert matched positions synth))
        | _ \<Rightarrow> and_then (synthetic_digits seed_key charset body_len) (\<lambda>synth. Inr (reinsert matched positions synth)))"

subsection \<open>Strategies\<close>

definition DEFAULT_TOKEN :: string where "DEFAULT_TOKEN = ''[REDACTED]''"

definition DETECTOR_DEFAULTS :: "(string \<times> string) list" where
  "DETECTOR_DEFAULTS =
     map (\<lambda>d. (d, ''fpe'')) [''ssn'', ''us_phone'', ''us_zip'', ''pan'', ''fax_number'', ''npi''] @
     map (\<lambda>d. (d, ''faker'')) [''person_name'', ''first_name'', ''last_name'', ''address'', ''location''] @
     map (\<lambda>d. (d, ''date_shift'')) [''iso_date'', ''us_date'', ''eu_date''] @
     map (\<lambda>d. (d, ''redact'')) [''email'', ''cvv'', ''iban'', ''ipv4'', ''icd10'', ''mrn'', ''url'', ''health_plan_id'', ''license_num'',
       ''vehicle_id'', ''device_id'', ''biometric_id'', ''street_address'']"

definition FPE_CONFIG :: "(string \<times> string \<times> string option) list" where
  "FPE_CONFIG =
     [(''ssn'', ''digits'', None), (''us_phone'', ''digits'', None), (''us_zip'', ''digits'', None), (''pan'', ''digits'', Some ''luhn''),
      (''fax_number'', ''digits'', None), (''npi'', ''digits'', Some ''npi'')]"

definition FAKER_METHOD :: "(string \<times> string) list" where
  "FAKER_METHOD =
     [(''person_name'', ''name''), (''first_name'', ''first_name''), (''last_name'', ''last_name''), (''address'', ''address''),
      (''location'', ''city'')]"

definition span_key :: "bytes \<Rightarrow> string \<Rightarrow> bytes" where
  "span_key mask_key matched = hmac_sha256 mask_key (utf8 matched)"

definition fpe_preset :: "string \<Rightarrow> string \<times> string option" where
  "fpe_preset detector = (case map_of FPE_CONFIG detector of Some p \<Rightarrow> p | None \<Rightarrow> (''digits'', None))"

definition apply_sub_floor_span_policy ::
    "stdnum \<Rightarrow> string \<Rightarrow> bytes \<Rightarrow> string \<Rightarrow> string \<Rightarrow> string option \<Rightarrow> text_error + string \<times> string list" where
  "apply_sub_floor_span_policy S matched seed_key detector token policy =
     (case policy of
        None \<Rightarrow> Inl (TextFpe (Unencryptable FPE_UNENCRYPTABLE_DOMAIN))
      | Some p \<Rightarrow>
          if p \<noteq> ''redact'' \<and> p \<noteq> ''synthetic'' then Inl (TextFpe (Unencryptable FPE_UNENCRYPTABLE_DOMAIN))
          else if p = ''redact'' then Inr (token, [detector])
          else and_then (synthetic_span_value S seed_key matched (resolve_fpe_charset (fst (fpe_preset detector))) (snd (fpe_preset detector)))
            (\<lambda>v. Inr (v, [detector])))"

text \<open>The \<open>fpe_config\<close> of a detector: namespace-scoped key, tweak of the detector, separators kept.\<close>

definition span_fpe_config :: "bytes \<Rightarrow> string \<Rightarrow> text_error + fpe_config" where
  "span_fpe_config mask_key detector =
     and_then (on_error TextDerive (derive mask_key (''text.'' @ detector) FF1_KEY_LABEL)) (\<lambda>key.
     and_then (on_error TextFpe (build_ff1_tweak FF1_TWEAK_SCOPE_TEXT_SPAN detector)) (\<lambda>tweak.
     Inr \<lparr>fc_key = key, fc_charset = resolve_fpe_charset (fst (fpe_preset detector)), fc_tweak = tweak,
       fc_preserve_separators = True, fc_validate_luhn = False, fc_checksum = snd (fpe_preset detector)\<rparr>))"

definition mask_fpe ::
    "aes \<Rightarrow> stdnum \<Rightarrow> string \<Rightarrow> bytes \<Rightarrow> string \<Rightarrow> string \<Rightarrow> string option \<Rightarrow> text_error + string \<times> string list" where
  "mask_fpe A S matched mask_key detector token policy =
     and_then (span_fpe_config mask_key detector) (\<lambda>cfg.
       case fpe_encrypt_value A S cfg matched of
         Inr v \<Rightarrow> Inr (v, [])
       | Inl (Unencryptable FPE_UNENCRYPTABLE_DOMAIN) \<Rightarrow> apply_sub_floor_span_policy S matched (fc_key cfg) detector token policy
       | Inl (ChecksumInvalidSource c) \<Rightarrow> apply_sub_floor_span_policy S matched (fc_key cfg) detector token policy
       | Inl (ChecksumUnsupported c) \<Rightarrow> apply_sub_floor_span_policy S matched (fc_key cfg) detector token policy
       | Inl e \<Rightarrow> Inl (TextFpe e))"

text \<open>\<open>faker\<close> answers a method for a seed, the fallback to \<open>name\<close> included.\<close>

definition mask_faker :: "(string \<Rightarrow> int \<Rightarrow> string) \<Rightarrow> bytes \<Rightarrow> string \<Rightarrow> string" where
  "mask_faker faker key detector =
     faker (case map_of FAKER_METHOD detector of Some m \<Rightarrow> m | None \<Rightarrow> ''name'') (from_bytes (take 4 key))"

record text_cfg =
  tc_token :: string
  tc_min_days :: int
  tc_max_days :: int

definition mask_span ::
    "aes \<Rightarrow> stdnum \<Rightarrow> (string \<Rightarrow> int \<Rightarrow> string) \<Rightarrow> bytes \<Rightarrow> string \<Rightarrow> text_cfg \<Rightarrow> string option \<Rightarrow> span \<Rightarrow> text_error + string \<times> string list" where
  "mask_span A S faker mask_key strategy cfg policy s =
     (if strategy = ''fpe'' then mask_fpe A S (sp_text s) mask_key (sp_detector s) (tc_token cfg) policy
      else let key = span_key mask_key (sp_text s) in
        if strategy = ''faker'' then Inr (mask_faker faker key (sp_detector s), [])
        else if strategy = ''date_shift'' then
          and_then (on_error TextShift (mask_date_shift (sp_text s) key (tc_min_days cfg) (tc_max_days cfg))) (\<lambda>v. Inr (v, []))
        else if strategy = ''passthrough'' then Inr (sp_text s, [])
        else Inr (tc_token cfg, []))"

definition strategy_of :: "(string \<times> string) list \<Rightarrow> string \<Rightarrow> string" where
  "strategy_of strategy_map detector =
     (case map_of strategy_map detector of
        Some st \<Rightarrow> st
      | None \<Rightarrow> (case map_of DETECTOR_DEFAULTS detector of Some st \<Rightarrow> st | None \<Rightarrow> ''redact''))"

text \<open>The arguments of a cell that do not depend on it. \<open>cfg\<close> has the token already filled in.\<close>

record text_job =
  tj_aes :: aes
  tj_stdnum :: stdnum
  tj_faker :: "string \<Rightarrow> int \<Rightarrow> string"
  tj_key :: bytes
  tj_strategies :: "(string \<times> string) list"
  tj_unmatched :: string
  tj_token :: string
  tj_cfg :: text_cfg
  tj_sub_floor :: "string option"

definition job_mask_span :: "text_job \<Rightarrow> span \<Rightarrow> text_error + string \<times> string list" where
  "job_mask_span J s = mask_span (tj_aes J) (tj_stdnum J) (tj_faker J) (tj_key J) (strategy_of (tj_strategies J) (sp_detector s))
     (tj_cfg J) (tj_sub_floor J) s"

definition mask_cell_with_spans :: "text_job \<Rightarrow> string \<Rightarrow> span list \<Rightarrow> text_error + string \<times> string list" where
  "mask_cell_with_spans J cell spans =
     (if cell = [] then Inr (cell, []) else splice_spans (job_mask_span J) (tj_unmatched J) (tj_token J) cell spans)"

definition mask_cell ::
    "(string \<Rightarrow> string \<Rightarrow> (nat \<times> nat) list) \<Rightarrow> text_job \<Rightarrow> string list option \<Rightarrow> span list \<Rightarrow> string \<Rightarrow> text_error + string \<times> string list" where
  "mask_cell finditer J detector_ids extra_spans cell =
     (if cell = [] then Inr (cell, [])
      else and_then (on_error TextChecksum (iter_spans finditer cell detector_ids [] extra_spans)) (mask_cell_with_spans J cell))"

section \<open>Span resolution\<close>

text \<open>Spans in order, disjoint, starting at or after \<open>cursor\<close>.\<close>

fun resolved :: "nat \<Rightarrow> span list \<Rightarrow> bool" where
  "resolved cursor [] = True"
| "resolved cursor (s # spans) = (cursor \<le> sp_start s \<and> sp_start s \<le> sp_end s \<and> resolved (sp_end s) spans)"

text \<open>A span that is a piece of the cell.\<close>

definition span_of :: "string \<Rightarrow> span \<Rightarrow> bool" where
  "span_of cell s \<longleftrightarrow> sp_start s \<le> sp_end s \<and> sp_end s \<le> length cell \<and> sp_text s = substring cell (sp_start s) (sp_end s)"

lemma resolved_starts: "resolved c spans \<Longrightarrow> s \<in> set spans \<Longrightarrow> c \<le> sp_start s"
  by (induction c spans rule: resolved.induct) auto

lemma sweep_subset: "set (sweep e spans) \<subseteq> set spans"
  by (induction e spans rule: sweep.induct) auto

lemma sweep_resolved: "\<forall>s \<in> set spans. sp_start s \<le> sp_end s \<Longrightarrow> resolved (nat e) (sweep e spans)"
  by (induction e spans rule: sweep.induct) auto

lemma sweep_starts:
  assumes "\<forall>s \<in> set spans. sp_start s \<le> sp_end s" "k \<in> set (sweep e spans)"
  shows "e \<le> int (sp_start k)"
  using resolved_starts [OF sweep_resolved [OF assms(1)] assms(2)] by linarith

lemma sweep_covers:
  assumes "r \<in> set spans" and "sorted (map sp_start spans)"
  shows "r \<in> set (sweep e spans) \<or> int (sp_start r) < e \<or> (\<exists>k \<in> set (sweep e spans). sp_start k \<le> sp_start r \<and> sp_start r < sp_end k)"
  using assms
proof (induction e spans rule: sweep.induct)
  case (2 e s spans)
  show ?case
  proof (cases "r = s")
    case True
    then show ?thesis by auto
  next
    case False
    then have r: "r \<in> set spans" "sp_start s \<le> sp_start r" "sorted (map sp_start spans)"
      using 2(3,4) by auto
    show ?thesis
    proof (cases "e \<le> int (sp_start s)")
      case kept: True
      then show ?thesis
        using 2(1) [OF kept r(1,3)] r(2) by auto
    next
      case dropped: False
      then show ?thesis
        using 2(2) [OF dropped r(1,3)] by auto
    qed
  qed
qed simp

lemma span_order_le: "span_order r \<le> span_order s \<longleftrightarrow>
    sp_start r < sp_start s \<or> sp_start r = sp_start s \<and> int (sp_end s) - int (sp_start s) \<le> int (sp_end r) - int (sp_start r)"
  by (auto simp: span_order_def)

lemma sweep_longest:
  assumes "\<forall>s \<in> set spans. sp_start s \<le> sp_end s" and "sorted (map span_order spans)"
    and "k \<in> set (sweep e spans)" "r \<in> set spans" "sp_start r = sp_start k"
  shows "sp_end r \<le> sp_end k"
  using assms
proof (induction e spans rule: sweep.induct)
  case (2 e s spans)
  have later: "sp_start s < sp_start x \<or> sp_start s = sp_start x \<and> sp_end x \<le> sp_end s" if "x \<in> set spans" for x
    using 2(4) that by (auto simp: span_order_le)
  have k: "k = s \<or> k \<in> set (sweep (int (sp_end s)) spans) \<or> \<not> e \<le> int (sp_start s) \<and> k \<in> set (sweep e spans)"
    using 2(5) by (auto split: if_splits)
  have wf: "\<forall>s \<in> set spans. sp_start s \<le> sp_end s"
    using 2(3) by simp
  show ?case
  proof (cases "r = s")
    case True
    then show ?thesis
      using k sweep_starts [OF wf, of k] 2(3,7) sweep_subset [of "int (sp_end s)" spans] by fastforce
  next
    case False
    then show ?thesis
      using 2 k later [of r] by (auto split: if_splits)
  qed
qed simp

lemma pattern_spans_ok:
  assumes "pattern_spans d v cell matches = Inr spans" and "\<forall>(i, j) \<in> set matches. i \<le> j \<and> j \<le> length cell"
  shows "\<forall>s \<in> set spans. span_of cell s"
  using assms
  by (induction d v cell matches arbitrary: spans rule: pattern_spans.induct)
    (auto simp: Let_def result_simps span_of_def split: if_splits)

text \<open>What the code relies on of \<open>finditer\<close>: a match is a piece of the text.\<close>

definition matches_in_text :: "(string \<Rightarrow> (nat \<times> nat) list) \<Rightarrow> bool" where
  "matches_in_text finds \<longleftrightarrow> (\<forall>cell. \<forall>(i, j) \<in> set (finds cell). i \<le> j \<and> j \<le> length cell)"

lemma raw_spans_ok:
  assumes "raw_spans finditer cell ids custom extra = Inr raw"
    and "\<forall>d. matches_in_text (finditer d)" "\<forall>c \<in> set custom. matches_in_text (fst (snd c))" "\<forall>s \<in> set extra. span_of cell s"
  shows "\<forall>s \<in> set raw. span_of cell s"
proof -
  obtain ids' built own where
      b: "map_result (\<lambda>d. case map_of SPAN_DETECTORS d of None \<Rightarrow> Inr [] | Some v \<Rightarrow> pattern_spans d v cell (finditer d cell)) ids' = Inr built"
    and o: "map_result (\<lambda>(d, finds, v). pattern_spans d v cell (finds cell)) custom = Inr own"
    and raw: "raw = extra @ concat built @ concat own"
    using assms(1) by (auto simp: raw_spans_def Let_def result_simps)
  have "\<forall>s \<in> set spans. span_of cell s" if built: "spans \<in> set built" for spans
  proof -
    obtain d where d: "(case map_of SPAN_DETECTORS d of None \<Rightarrow> Inr [] | Some v \<Rightarrow> pattern_spans d v cell (finditer d cell)) = Inr spans"
      using map_result_set [OF b] built by (metis (no_types, lifting) image_iff)
    show ?thesis
    proof (cases "map_of SPAN_DETECTORS d")
      case (Some v)
      then have "pattern_spans d v cell (finditer d cell) = Inr spans"
        using d by simp
      then show ?thesis
        using assms(2) by (intro pattern_spans_ok [of d v cell "finditer d cell"]) (simp_all add: matches_in_text_def)
    qed (use d in simp)
  qed
  moreover have "\<forall>s \<in> set spans. span_of cell s" if own: "spans \<in> set own" for spans
  proof -
    obtain c where c: "c \<in> set custom" "(\<lambda>(d, finds, v). pattern_spans d v cell (finds cell)) c = Inr spans"
      using map_result_set [OF o] own by (metis (no_types, lifting) image_iff)
    obtain d finds v where "c = (d, finds, v)"
      by (cases c) auto
    then show ?thesis
      using c assms(3) by (intro pattern_spans_ok [of d v cell "finds cell"]) (auto simp: matches_in_text_def)
  qed
  ultimately show ?thesis
    using assms(4) raw by auto
qed

lemma sorted_starts: "sorted (map span_order spans) \<Longrightarrow> sorted (map sp_start spans)"
  by (induction spans) (auto simp: span_order_le)

lemma iter_spans_raw:
  assumes "iter_spans finditer cell ids custom extra = Inr kept" "cell \<noteq> []"
  obtains raw where "raw_spans finditer cell ids custom extra = Inr raw" "kept = sweep (- 1) (sort_key span_order raw)"
  using assms by (auto simp: iter_spans_def result_simps)

lemma iter_spans_resolved:
  assumes "iter_spans finditer cell ids custom extra = Inr kept"
    and "\<forall>d. matches_in_text (finditer d)" "\<forall>c \<in> set custom. matches_in_text (fst (snd c))" "\<forall>s \<in> set extra. span_of cell s"
  shows "resolved 0 kept" "\<forall>s \<in> set kept. span_of cell s"
proof -
  have "resolved 0 kept \<and> (\<forall>s \<in> set kept. span_of cell s)"
  proof (cases "cell = []")
    case False
    obtain raw where raw: "raw_spans finditer cell ids custom extra = Inr raw" "kept = sweep (- 1) (sort_key span_order raw)"
      by (rule iter_spans_raw [OF assms(1) False])
    have "\<forall>s \<in> set raw. span_of cell s"
      by (rule raw_spans_ok [OF raw(1) assms(2-4)])
    then show ?thesis
      using sweep_resolved [of "sort_key span_order raw" "- 1"] sweep_subset [of "- 1" "sort_key span_order raw"]
      unfolding raw(2) by (auto simp: span_of_def)
  qed (use assms(1) in \<open>simp add: iter_spans_def\<close>)
  then show "resolved 0 kept" "\<forall>s \<in> set kept. span_of cell s"
    by simp_all
qed

section \<open>Splicing\<close>

lemma substring_length [simp]: "i \<le> j \<Longrightarrow> j \<le> length s \<Longrightarrow> length (substring s i j) = j - i"
  by (simp add: substring_def)

lemma substring_Nil: "substring s i j = [] \<longleftrightarrow> j \<le> i \<or> length s \<le> i"
  by (auto simp: substring_def)

lemma substring_drop: "i \<le> j \<Longrightarrow> substring s i j @ drop j s = drop i s"
proof -
  assume "i \<le> j"
  then have "drop j s = drop (j - i) (drop i s)"
    by simp
  then show ?thesis
    by (simp only: substring_def append_take_drop_id)
qed

definition last_cursor :: "nat \<Rightarrow> span list \<Rightarrow> nat" where
  "last_cursor cursor spans = (if spans = [] then cursor else sp_end (last spans))"

text \<open>Without passthrough, what lies between the spans does not matter.\<close>

lemma splice_loop_gaps:
  assumes "policy \<noteq> ''passthrough''"
    and "\<forall>s \<in> set spans. sp_start s \<le> length cell \<and> sp_start s \<le> length cell'"
    and "last_cursor cursor spans < length cell \<longleftrightarrow> last_cursor cursor spans < length cell'"
  shows "splice_loop hide policy token cell cursor spans = splice_loop hide policy token cell' cursor spans"
  using assms(2,3)
proof (induction spans arbitrary: cursor)
  case Nil
  then show ?case
    using assms(1) by (auto simp: last_cursor_def apply_unmatched_def)
next
  case (Cons s spans)
  have "last_cursor (sp_end s) spans = last_cursor cursor (s # spans)"
    by (simp add: last_cursor_def)
  then have rest: "splice_loop hide policy token cell (sp_end s) spans = splice_loop hide policy token cell' (sp_end s) spans"
    using Cons by simp
  have "apply_unmatched (substring cell cursor (sp_start s)) policy token = apply_unmatched (substring cell' cursor (sp_start s)) policy token"
    if "cursor < sp_start s"
    using assms(1) Cons.prems(1) that by (auto simp: apply_unmatched_def substring_Nil)
  then show ?case
    by (simp add: rest cong: if_cong)
qed

text \<open>The spans of a masked cell: same places, masked text.\<close>

definition relocate :: "string \<Rightarrow> span \<Rightarrow> span" where
  "relocate out s = s\<lparr>sp_text := substring out (sp_start s) (sp_end s)\<rparr>"

lemma relocate_simps [simp]:
  "sp_start (relocate out s) = sp_start s" "sp_end (relocate out s) = sp_end s" "sp_detector (relocate out s) = sp_detector s"
  by (simp_all add: relocate_def)

text \<open>A strategy that keeps lengths and has an inverse can be undone span by span.\<close>

definition undoes :: "(span \<Rightarrow> 'e + string \<times> string list) \<Rightarrow> (span \<Rightarrow> 'e + string \<times> string list) \<Rightarrow> span \<Rightarrow> bool" where
  "undoes hide unhide s \<longleftrightarrow>
     (\<forall>m ntc. hide s = Inr (m, ntc) \<longrightarrow> ntc = [] \<and> length m = length (sp_text s) \<and> unhide (s\<lparr>sp_text := m\<rparr>) = Inr (sp_text s, []))"

lemma splice_loop_undo:
  assumes "resolved cursor spans" "\<forall>s \<in> set spans. span_of cell s \<and> undoes hide unhide s" "cursor \<le> length cell"
    and "splice_loop hide ''passthrough'' token cell cursor spans = Inr (out, ntc)" and "length pre = cursor"
  shows "ntc = [] \<and> length out = length cell - cursor \<and>
    splice_loop unhide ''passthrough'' token (pre @ out) cursor (map (relocate (pre @ out)) spans) = Inr (drop cursor cell, [])"
  using assms
proof (induction spans arbitrary: cursor pre out ntc)
  case Nil
  then show ?case
    by (cases "cursor < length cell") (auto simp: apply_unmatched_def)
next
  case (Cons s spans)
  obtain m ns rest ns' where m: "hide s = Inr (m, ns)"
    and rest: "splice_loop hide ''passthrough'' token cell (sp_end s) spans = Inr (rest, ns')"
    and out: "out = (if cursor < sp_start s then apply_unmatched (substring cell cursor (sp_start s)) ''passthrough'' token else []) @ m @ rest"
      "ntc = ns @ ns'"
    using Cons.prems(4) by (auto simp: result_simps)
  have s: "cursor \<le> sp_start s" "sp_start s \<le> sp_end s" "sp_end s \<le> length cell" "sp_text s = substring cell (sp_start s) (sp_end s)"
      "ns = []" "length m = length (sp_text s)" "unhide (s\<lparr>sp_text := m\<rparr>) = Inr (sp_text s, [])"
    using Cons.prems(1,2) m by (auto simp: span_of_def undoes_def)
  define gap where "gap = substring cell cursor (sp_start s)"
  have gap: "out = gap @ m @ rest" "length gap = sp_start s - cursor" "length m = sp_end s - sp_start s"
    using out(1) s by (auto simp: gap_def apply_unmatched_def substring_def)
  let ?pre = "pre @ gap @ m"
  have len: "length ?pre = sp_end s"
    using gap Cons.prems(5) s by simp
  have IH: "ns' = [] \<and> length rest = length cell - sp_end s \<and>
      splice_loop unhide ''passthrough'' token (?pre @ rest) (sp_end s) (map (relocate (?pre @ rest)) spans) = Inr (drop (sp_end s) cell, [])"
    using Cons.prems s(3) len by (intro Cons.IH [OF _ _ _ rest]) auto
  have whole: "?pre @ rest = pre @ out"
    by (simp add: gap)
  have "relocate (pre @ out) s = s\<lparr>sp_text := m\<rparr>"
    using gap Cons.prems(5) s(1,2) by (simp add: relocate_def substring_def)
  then have u: "unhide (relocate (pre @ out) s) = Inr (sp_text s, [])"
    using s(7) by simp
  have "substring (pre @ out) cursor (sp_start s) = gap"
    using gap Cons.prems(5) by (simp add: substring_def)
  then have "splice_loop unhide ''passthrough'' token (pre @ out) cursor (map (relocate (pre @ out)) (s # spans)) =
      Inr (gap @ sp_text s @ drop (sp_end s) cell, [])"
    using u IH whole s(1) gap(2) by (auto simp: apply_unmatched_def)
  also have "gap @ sp_text s @ drop (sp_end s) cell = drop cursor cell"
    using s(1-4) by (simp add: gap_def substring_drop)
  finally show ?case
    using IH out(2) s gap by simp
qed

section \<open>Reversible strategies\<close>

lemma span_config:
  assumes "span_fpe_config key d = Inr cfg"
  shows "\<not> fc_validate_luhn cfg" "fc_charset cfg = DIGITS_ONLY"
    "fc_checksum cfg = None \<or> (\<exists>c. fc_checksum cfg = Some c \<and> map_of SCHEME_REQUIRED_CHARSET c = Some DIGITS_ONLY)"
proof -
  have "list_all (\<lambda>(d, cs, ck). cs = ''digits'' \<and> ck \<in> {None, Some ''luhn'', Some ''npi''}) FPE_CONFIG"
    by code_simp
  then have all: "\<forall>x \<in> set FPE_CONFIG. fst (snd x) = ''digits'' \<and> snd (snd x) \<in> {None, Some ''luhn'', Some ''npi''}"
    by (simp add: list_all_iff case_prod_unfold)
  have preset: "fst (fpe_preset d) = ''digits'' \<and> snd (fpe_preset d) \<in> {None, Some ''luhn'', Some ''npi''}"
  proof (cases "map_of FPE_CONFIG d")
    case (Some x)
    then show ?thesis
      using all [rule_format, OF map_of_SomeD [OF Some]] by (simp add: fpe_preset_def)
  qed (simp add: fpe_preset_def)
  have required: "map_of SCHEME_REQUIRED_CHARSET ''luhn'' = Some DIGITS_ONLY" "map_of SCHEME_REQUIRED_CHARSET ''npi'' = Some DIGITS_ONLY"
    by (simp_all add: SCHEME_REQUIRED_CHARSET_def)
  have "fc_checksum cfg = snd (fpe_preset d)"
    using assms by (auto simp: span_fpe_config_def result_simps)
  then show "fc_checksum cfg = None \<or> (\<exists>c. fc_checksum cfg = Some c \<and> map_of SCHEME_REQUIRED_CHARSET c = Some DIGITS_ONLY)"
    using preset required by (elim conjE insertE emptyE) simp_all
  have "resolve_fpe_charset ''digits'' = DIGITS_ONLY"
    by (simp add: resolve_fpe_charset_def CHARSETS_def DIGITS_ONLY_def)
  then show "\<not> fc_validate_luhn cfg" "fc_charset cfg = DIGITS_ONLY"
    using assms preset by (auto simp: span_fpe_config_def result_simps)
qed

lemma mask_fpe_strict:
  assumes "mask_fpe A S matched key d token None = Inr (v, ntc)"
  obtains cfg where "span_fpe_config key d = Inr cfg" "fpe_encrypt_value A S cfg matched = Inr v" "ntc = []"
proof -
  obtain cfg where cfg: "span_fpe_config key d = Inr cfg"
    using assms by (auto simp: mask_fpe_def result_simps)
  show ?thesis
  proof (cases "fpe_encrypt_value A S cfg matched")
    case (Inr w)
    then show ?thesis
      using assms cfg that by (simp add: mask_fpe_def)
  next
    case (Inl e)
    then have False
      using assms cfg by (auto simp: mask_fpe_def apply_sub_floor_span_policy_def split: fpe_error.splits fpe_code.splits)
    then show ?thesis ..
  qed
qed

lemma mask_fpe_inverts:
  assumes "aes_lengths A" "stdnum_laws S" "mask_fpe A S matched key d token None = Inr (v, ntc)"
  obtains cfg where "span_fpe_config key d = Inr cfg" "ntc = []" "length v = length matched" "fpe_decrypt_value A S cfg v = Inr matched"
proof -
  obtain cfg where cfg: "span_fpe_config key d = Inr cfg" "fpe_encrypt_value A S cfg matched = Inr v" "ntc = []"
    by (rule mask_fpe_strict [OF assms(3)])
  note props = span_config [OF cfg(1)]
  have "length v = length matched \<and> fpe_decrypt_value A S cfg v = Inr matched"
  proof (cases "fc_checksum cfg")
    case None
    then show ?thesis
      using fpe_plain_inverts [OF assms(1) None props(1) cfg(2)] by blast
  next
    case (Some c)
    then have "map_of SCHEME_REQUIRED_CHARSET c = Some DIGITS_ONLY"
      using props(3) by simp
    then show ?thesis
      using fpe_checksum_inverts [OF assms(1,2) Some, of DIGITS_ONLY matched v] cfg(2) props(2) by (auto simp: in_body_def)
  qed
  then show ?thesis
    using that cfg by blast
qed

text \<open>What a holder of the key does with a masked span.\<close>

definition unmask_span :: "text_job \<Rightarrow> span \<Rightarrow> text_error + string \<times> string list" where
  "unmask_span J s =
     (if strategy_of (tj_strategies J) (sp_detector s) = ''passthrough'' then Inr (sp_text s, [])
      else and_then (span_fpe_config (tj_key J) (sp_detector s)) (\<lambda>cfg.
        and_then (on_error TextFpe (fpe_decrypt_value (tj_aes J) (tj_stdnum J) cfg (sp_text s))) (\<lambda>v. Inr (v, []))))"

lemma reversible_span:
  assumes "aes_lengths (tj_aes J)" "stdnum_laws (tj_stdnum J)" "tj_sub_floor J = None"
    and "strategy_of (tj_strategies J) (sp_detector s) \<in> {''fpe'', ''passthrough''}"
  shows "undoes (job_mask_span J) (unmask_span J) s"
proof -
  have "ntc = [] \<and> length m = length (sp_text s) \<and> unmask_span J (s\<lparr>sp_text := m\<rparr>) = Inr (sp_text s, [])"
    if run: "job_mask_span J s = Inr (m, ntc)" for m ntc
  proof (cases "strategy_of (tj_strategies J) (sp_detector s) = ''passthrough''")
    case True
    then show ?thesis
      using run by (simp add: job_mask_span_def mask_span_def unmask_span_def)
  next
    case False
    then have "mask_fpe (tj_aes J) (tj_stdnum J) (sp_text s) (tj_key J) (sp_detector s) (tc_token (tj_cfg J)) None = Inr (m, ntc)"
      using run assms(3,4) by (auto simp: job_mask_span_def mask_span_def)
    then obtain cfg where "span_fpe_config (tj_key J) (sp_detector s) = Inr cfg" "ntc = []" "length m = length (sp_text s)"
        "fpe_decrypt_value (tj_aes J) (tj_stdnum J) cfg m = Inr (sp_text s)"
      by (rule mask_fpe_inverts [OF assms(1,2)])
    then show ?thesis
      using False by (simp add: unmask_span_def)
  qed
  then show ?thesis
    by (simp add: undoes_def)
qed

section \<open>Synthetic replacements\<close>

lemma synthetic_block_chars: "charset \<noteq> [] \<Longrightarrow> set (synthetic_block key charset c) \<subseteq> set charset"
  by (auto simp: synthetic_block_def)

lemma synthetic_loop_facts:
  assumes "charset \<noteq> []" "length out \<le> n" "set out \<subseteq> set charset"
  shows "length (synthetic_loop key charset n c out) = n \<and> set (synthetic_loop key charset n c out) \<subseteq> set charset"
  using assms
proof (induction key charset n c out rule: synthetic_loop.induct)
  case (1 key charset n c out)
  show ?case
  proof (cases "length out < n")
    case True
    have "set (take (n - length out) (synthetic_block key charset c)) \<subseteq> set charset"
      using synthetic_block_chars [OF 1(2), of key c] set_take_subset by fastforce
    then show ?thesis
      using 1(1) [OF True] 1(2-4) True by (subst (1 2) synthetic_loop.simps) auto
  next
    case False
    then show ?thesis
      using 1 by (simp add: synthetic_loop.simps [of key charset n c out])
  qed
qed

abbreviation synthetic :: "bytes \<Rightarrow> nat \<Rightarrow> string" where
  "synthetic key n \<equiv> synthetic_loop key DIGITS_ONLY n 0 []"

lemma synthetic_digits_facts: "length (synthetic key n) = n" "all_digits (synthetic key n)"
  using synthetic_loop_facts [of DIGITS_ONLY "[]" n key 0] by (auto simp: DIGITS_ONLY_sub) (simp_all add: DIGITS_ONLY_def)

lemma reinsert_snoc:
  assumes "length b = length ps"
  shows "reinsert s (ps @ [p]) (b @ [k]) = (reinsert s (ps @ [p]) b)[p := k]"
proof -
  have "zip (ps @ [p]) b = zip ps b" "zip (ps @ [p]) (b @ [k]) = zip ps b @ [(p, k)]"
    using assms zip_append1 [of ps "[p]" b] by simp_all
  then show ?thesis
    by (simp add: reinsert_def)
qed

lemma splice_last:
  assumes "ps \<noteq> []" "length b + 1 = length ps" "last ps < length s"
  shows "take (last ps) (reinsert s ps b) @ [k] @ drop (last ps + 1) (reinsert s ps b) = reinsert s ps (b @ [k])"
proof -
  have ps: "ps = butlast ps @ [last ps]" "length b = length (butlast ps)"
    using assms by simp_all
  have "reinsert s ps (b @ [k]) = (reinsert s ps b)[last ps := k]"
    using reinsert_snoc [OF ps(2), of s "last ps" k] ps(1) by simp
  then show ?thesis
    using assms(3) by (simp add: upd_conv_take_nth_drop)
qed

text \<open>The body of the replacement: a function of the number of digits, and of the leading digit under \<open>npi\<close>.\<close>

definition check_digits :: "stdnum \<Rightarrow> string \<Rightarrow> string \<Rightarrow> string" where
  "check_digits S scheme body = (case calc_check_digit S scheme body of Inr d \<Rightarrow> d | Inl _ \<Rightarrow> [])"

definition synthetic_body :: "stdnum \<Rightarrow> bytes \<Rightarrow> string option \<Rightarrow> nat \<Rightarrow> string \<Rightarrow> string" where
  "synthetic_body S key checksum n lead =
     (if checksum = Some ''luhn'' then synthetic key (n - 1) @ check_digits S ''luhn'' (synthetic key (n - 1))
      else if checksum = Some ''npi'' \<and> 2 \<le> n
      then (lead @ synthetic key (n - 2)) @ check_digits S ''npi'' (lead @ synthetic key (n - 2))
      else synthetic key n)"

lemma calc_check_digit_luhn:
  assumes "stdnum_laws S" "all_digits b" "b \<noteq> []"
  obtains k where "calc_check_digit S ''luhn'' b = Inr [k]" "is_digit k" "validate S ''luhn'' (b @ [k]) = Inr True"
proof -
  have "\<exists>k. luhn_calc S b = Inr [k] \<and> is_digit k"
    using assms unfolding stdnum_laws_def by (metis all_digits_simps(1,2,3) zero_digit(1))
  then obtain k where k: "luhn_calc S b = Inr [k]" "is_digit k"
    by blast
  moreover have "luhn_is_valid S (b @ [k])"
    using assms k unfolding stdnum_laws_def by (metis all_digits_simps(1,2,3))
  ultimately show ?thesis
    using that by (simp add: calc_check_digit_def validate_def KNOWN_SCHEMES_def)
qed

lemma calc_check_digit_npi:
  assumes "all_digits b"
  obtains k where "calc_check_digit S ''npi'' b = Inr [k]" "is_digit k"
    "length b = 9 \<and> b ! 0 \<in> {CHR ''1'', CHR ''2''} \<longrightarrow> validate S ''npi'' (b @ [k]) = Inr True"
proof -
  obtain k where k: "luhn_cd (NPI_PREFIX @ b) = Inr [k]" "is_digit k"
    using luhn_cd_single [of "NPI_PREFIX @ b"] assms by auto
  have "npi_validate (b @ [k]) = Inr True" if "length b = 9" "b ! 0 \<in> {CHR ''1'', CHR ''2''}"
    using that k assms by (simp add: npi_validate_def npi_re_match_def npi_calc_check_digit_def nth_append)
  then show ?thesis
    using that k by (simp add: calc_check_digit_def validate_def KNOWN_SCHEMES_def npi_calc_check_digit_def)
qed

lemma synthetic_digits_eq: "synthetic_digits key DIGITS_ONLY n = Inr (synthetic key n)"
  by (simp add: synthetic_digits_def) (simp add: DIGITS_ONLY_def)

lemma in_body_digits [simp]: "all_digits (in_body DIGITS_ONLY s)"
  by (auto simp: in_body_def simp flip: DIGITS_ONLY_sub)

lemma positions_lead: "in_charset_positions cs s \<noteq> [] \<Longrightarrow> [s ! (in_charset_positions cs s ! 0)] = take 1 (in_body cs s)"
  by (cases "in_charset_positions cs s") (simp_all flip: positions_body)

lemma last_position: "in_charset_positions cs s \<noteq> [] \<Longrightarrow> last (in_charset_positions cs s) < length s"
  using last_in_set positions_facts(2) by metis

lemma synthetic_with_check_digit:
  fixes key :: bytes
  assumes "in_charset_positions DIGITS_ONLY s \<noteq> []" "map_of SYNTHETIC_CHECKSUM_PINNED_PREFIX scheme = Some npin" "scheme \<noteq> []"
    and "npin < length (in_body DIGITS_ONLY s)"
    and "map (\<lambda>i. s ! (in_charset_positions DIGITS_ONLY s ! i)) [0..<npin] = lead"
    and "calc_check_digit S scheme (lead @ synthetic key (length (in_body DIGITS_ONLY s) - npin - 1)) = Inr [k]"
  shows "synthetic_span_value S key s DIGITS_ONLY (Some scheme) =
    Inr (reinsert s (in_charset_positions DIGITS_ONLY s) ((lead @ synthetic key (length (in_body DIGITS_ONLY s) - npin - 1)) @ [k]))"
proof -
  let ?ps = "in_charset_positions DIGITS_ONLY s" and ?body = "lead @ synthetic key (length (in_body DIGITS_ONLY s) - npin - 1)"
  have "length lead = npin"
    using assms(5) by auto
  then have "length ?body + 1 = length ?ps"
    using assms(4) by (simp add: synthetic_digits_facts)
  from splice_last [OF assms(1) this last_position [OF assms(1)]] show ?thesis
    using assms by (simp add: synthetic_span_value_def Let_def synthetic_digits_eq)
qed

lemma synthetic_luhn:
  fixes key :: bytes and lead :: string
  assumes "stdnum_laws S" "2 \<le> length (in_body DIGITS_ONLY s)"
  defines "b \<equiv> synthetic_body S key (Some ''luhn'') (length (in_body DIGITS_ONLY s)) lead"
  shows "synthetic_span_value S key s DIGITS_ONLY (Some ''luhn'') = Inr (reinsert s (in_charset_positions DIGITS_ONLY s) b)"
    "length b = length (in_body DIGITS_ONLY s)" "all_digits b" "validate S ''luhn'' b = Inr True"
proof -
  let ?body = "synthetic key (length (in_body DIGITS_ONLY s) - 1)"
  have "?body \<noteq> []"
    using assms(2) synthetic_digits_facts(1) [of key "length (in_body DIGITS_ONLY s) - 1"] by fastforce
  then obtain k where k: "calc_check_digit S ''luhn'' ?body = Inr [k]" "is_digit k" "validate S ''luhn'' (?body @ [k]) = Inr True"
    by (rule calc_check_digit_luhn [OF assms(1) synthetic_digits_facts(2)])
  then have b: "b = ?body @ [k]"
    by (simp add: b_def synthetic_body_def check_digits_def)
  show "length b = length (in_body DIGITS_ONLY s)" "all_digits b" "validate S ''luhn'' b = Inr True"
    using k assms(2) by (simp_all add: b synthetic_digits_facts)
  have ne: "in_charset_positions DIGITS_ONLY s \<noteq> []" "in_body DIGITS_ONLY s \<noteq> []"
    using assms(2) by (auto simp: positions_Nil)
  from synthetic_with_check_digit [OF ne(1), of "''luhn''" 0 "[]" S key k] k ne(2)
  show "synthetic_span_value S key s DIGITS_ONLY (Some ''luhn'') = Inr (reinsert s (in_charset_positions DIGITS_ONLY s) b)"
    by (simp add: b SYNTHETIC_CHECKSUM_PINNED_PREFIX_def)
qed

lemma synthetic_npi:
  fixes key :: bytes and S :: stdnum
  assumes "2 \<le> length (in_body DIGITS_ONLY s)"
  defines "b \<equiv> synthetic_body S key (Some ''npi'') (length (in_body DIGITS_ONLY s)) (take 1 (in_body DIGITS_ONLY s))"
  shows "synthetic_span_value S key s DIGITS_ONLY (Some ''npi'') = Inr (reinsert s (in_charset_positions DIGITS_ONLY s) b)"
    "length b = length (in_body DIGITS_ONLY s)" "all_digits b"
    "length (in_body DIGITS_ONLY s) = 10 \<Longrightarrow> in_body DIGITS_ONLY s ! 0 \<in> {CHR ''1'', CHR ''2''} \<Longrightarrow> validate S ''npi'' b = Inr True"
proof -
  let ?lead = "take 1 (in_body DIGITS_ONLY s)" and ?body = "take 1 (in_body DIGITS_ONLY s) @ synthetic key (length (in_body DIGITS_ONLY s) - 2)"
  have ne: "in_charset_positions DIGITS_ONLY s \<noteq> []" "in_body DIGITS_ONLY s \<noteq> []"
    using assms(1) by (auto simp: positions_Nil)
  have digits: "all_digits ?body"
    using synthetic_digits_facts all_digits_take [of "in_body DIGITS_ONLY s" 1] by simp
  obtain k where k: "calc_check_digit S ''npi'' ?body = Inr [k]" "is_digit k"
      "length ?body = 9 \<and> ?body ! 0 \<in> {CHR ''1'', CHR ''2''} \<longrightarrow> validate S ''npi'' (?body @ [k]) = Inr True"
    by (rule calc_check_digit_npi [OF digits, of S])
  then have b: "b = ?body @ [k]"
    using assms(1) by (simp add: b_def synthetic_body_def check_digits_def)
  show "length b = length (in_body DIGITS_ONLY s)" "all_digits b"
    using k digits assms(1) by (simp_all add: b synthetic_digits_facts)
  show "validate S ''npi'' b = Inr True" if "length (in_body DIGITS_ONLY s) = 10" "in_body DIGITS_ONLY s ! 0 \<in> {CHR ''1'', CHR ''2''}"
    using that k(3) ne(2) by (simp add: b synthetic_digits_facts nth_append)
  have "map (\<lambda>i. s ! (in_charset_positions DIGITS_ONLY s ! i)) [0..<1] = ?lead"
    using positions_lead [OF ne(1)] by simp
  from synthetic_with_check_digit [OF ne(1) _ _ _ this, of "''npi''" S key k] k assms(1)
  show "synthetic_span_value S key s DIGITS_ONLY (Some ''npi'') = Inr (reinsert s (in_charset_positions DIGITS_ONLY s) b)"
    by (simp add: b SYNTHETIC_CHECKSUM_PINNED_PREFIX_def diff_diff_left numeral_2_eq_2)
qed

lemma synthetic_plain:
  fixes key :: bytes
  assumes "checksum = None \<or> checksum = Some ''npi'' \<and> length (in_body DIGITS_ONLY s) < 2"
  shows "synthetic_span_value S key s DIGITS_ONLY checksum =
    Inr (reinsert s (in_charset_positions DIGITS_ONLY s) (synthetic_body S key checksum (length (in_body DIGITS_ONLY s)) lead))"
proof (cases "in_charset_positions DIGITS_ONLY s = []")
  case True
  then show ?thesis
    by (simp add: synthetic_span_value_def reinsert_Nil)
next
  case False
  then show ?thesis
    using assms by (auto simp: synthetic_span_value_def Let_def synthetic_digits_eq SYNTHETIC_CHECKSUM_PINNED_PREFIX_def synthetic_body_def)
qed

text \<open>Two texts with the same separators at the same places.\<close>

definition same_layout :: "string \<Rightarrow> string \<Rightarrow> string \<Rightarrow> bool" where
  "same_layout cs s t \<longleftrightarrow> length s = length t \<and>
     (\<forall>i < length s. (s ! i \<in> set cs \<longleftrightarrow> t ! i \<in> set cs) \<and> (s ! i \<notin> set cs \<longrightarrow> s ! i = t ! i))"

lemma same_layout_positions: "same_layout cs s t \<Longrightarrow> in_charset_positions cs s = in_charset_positions cs t"
  by (auto simp: same_layout_def in_charset_positions_def intro!: filter_cong)

lemma same_layout_length: "same_layout cs s t \<Longrightarrow> length (in_body cs s) = length (in_body cs t)"
  using same_layout_positions positions_facts(3) by metis

lemma same_layout_reinsert:
  assumes "same_layout cs s t" "length b = length (in_body cs s)"
  shows "reinsert s (in_charset_positions cs s) b = reinsert t (in_charset_positions cs t) b"
proof (rule nth_equalityI)
  let ?ps = "in_charset_positions cs s"
  have len: "length s = length t"
    using assms(1) by (simp add: same_layout_def)
  then show "length (reinsert s ?ps b) = length (reinsert t (in_charset_positions cs t) b)"
    by simp
  fix i assume "i < length (reinsert s ?ps b)"
  then have i: "i < length s"
    by simp
  have "set ?ps \<subseteq> {..<length s}"
    by auto
  then have "map ((!) (reinsert s ?ps b)) ?ps = map ((!) (reinsert t ?ps b)) ?ps"
    using reinsert_read [of ?ps b s] reinsert_read [of ?ps b t] assms(2) len by simp
  then have inside: "\<forall>j \<in> set ?ps. reinsert s ?ps b ! j = reinsert t ?ps b ! j"
    by (simp only: map_eq_conv)
  have "reinsert s ?ps b ! i = reinsert t ?ps b ! i"
  proof (cases "i \<in> set ?ps")
    case True
    then show ?thesis
      using inside by blast
  next
    case False
    then have "s ! i \<notin> set cs"
      using i by simp
    then have "s ! i = t ! i"
      using i assms(1) unfolding same_layout_def by blast
    then show ?thesis
      by (simp only: reinsert_out [OF False])
  qed
  then show "reinsert s ?ps b ! i = reinsert t (in_charset_positions cs t) b ! i"
    using same_layout_positions [OF assms(1)] by simp
qed

lemma synthetic_span_value_eq:
  assumes "stdnum_laws S" "checksum \<in> {None, Some ''luhn'', Some ''npi''}"
    and "checksum = Some ''luhn'' \<longrightarrow> 2 \<le> length (in_body DIGITS_ONLY s)"
  shows "synthetic_span_value S key s DIGITS_ONLY checksum = Inr (reinsert s (in_charset_positions DIGITS_ONLY s)
      (synthetic_body S key checksum (length (in_body DIGITS_ONLY s)) (take 1 (in_body DIGITS_ONLY s))))"
    and "length (synthetic_body S key checksum (length (in_body DIGITS_ONLY s)) (take 1 (in_body DIGITS_ONLY s))) = length (in_body DIGITS_ONLY s)"
    and "all_digits (synthetic_body S key checksum (length (in_body DIGITS_ONLY s)) (take 1 (in_body DIGITS_ONLY s)))"
proof -
  let ?n = "length (in_body DIGITS_ONLY s)" and ?lead = "take 1 (in_body DIGITS_ONLY s)"
  have "synthetic_span_value S key s DIGITS_ONLY checksum = Inr (reinsert s (in_charset_positions DIGITS_ONLY s) (synthetic_body S key checksum ?n ?lead)) \<and>
      length (synthetic_body S key checksum ?n ?lead) = ?n \<and> all_digits (synthetic_body S key checksum ?n ?lead)"
  proof (cases "checksum = None \<or> checksum = Some ''npi'' \<and> ?n < 2")
    case True
    then show ?thesis
      using synthetic_plain [OF True, of S key ?lead] by (auto simp: synthetic_body_def synthetic_digits_facts)
  next
    case False
    then show ?thesis
      using assms synthetic_luhn [OF assms(1), of s key ?lead] synthetic_npi [of s S key] by auto
  qed
  then show "synthetic_span_value S key s DIGITS_ONLY checksum = Inr (reinsert s (in_charset_positions DIGITS_ONLY s) (synthetic_body S key checksum ?n ?lead))"
      "length (synthetic_body S key checksum ?n ?lead) = ?n" "all_digits (synthetic_body S key checksum ?n ?lead)"
    by simp_all
qed

section \<open>Properties\<close>

text \<open>C30. Span resolution. The spans a cell is masked by are pieces of the cell, in order and
  disjoint; each was detected; of the detected spans with a kept span's start none is longer; and a
  detected span that was not kept starts inside a kept one.\<close>

theorem iter_spans_leftmost_longest:
  assumes "iter_spans finditer cell ids custom extra = Inr kept" "raw_spans finditer cell ids custom extra = Inr raw" "cell \<noteq> []"
    and "\<forall>d. matches_in_text (finditer d)" "\<forall>c \<in> set custom. matches_in_text (fst (snd c))" "\<forall>s \<in> set extra. span_of cell s"
  shows "resolved 0 kept \<and> (\<forall>s \<in> set kept. span_of cell s \<and> s \<in> set raw) \<and>
    (\<forall>k \<in> set kept. \<forall>r \<in> set raw. sp_start r = sp_start k \<longrightarrow> sp_end r \<le> sp_end k) \<and>
    (\<forall>r \<in> set raw. r \<in> set kept \<or> (\<exists>k \<in> set kept. sp_start k \<le> sp_start r \<and> sp_start r < sp_end k))"
proof -
  have kept: "kept = sweep (- 1) (sort_key span_order raw)"
    using assms(1-3) by (simp add: iter_spans_def)
  let ?sorted = "sort_key span_order raw"
  have wf: "\<forall>s \<in> set ?sorted. sp_start s \<le> sp_end s"
    using raw_spans_ok [OF assms(2,4-6)] by (simp add: span_of_def)
  have sorted: "sorted (map span_order ?sorted)"
    by simp
  have "sp_end r \<le> sp_end k" if "k \<in> set kept" "r \<in> set raw" "sp_start r = sp_start k" for k r
    using sweep_longest [OF wf sorted] that kept by simp
  moreover have "r \<in> set kept \<or> (\<exists>k \<in> set kept. sp_start k \<le> sp_start r \<and> sp_start r < sp_end k)" if "r \<in> set raw" for r
    using sweep_covers [of r ?sorted "- 1"] sorted_starts [OF sorted] that kept by simp
  ultimately show ?thesis
    using iter_spans_resolved [OF assms(1,4-6)] sweep_subset [of "- 1" ?sorted] kept by auto
qed

text \<open>C22. Undetected text never leaves the cell, unless the policy passes it through. Under any other
  policy two cells with the same spans, both with or both without text after the last one, get the
  same output, so nothing but the spans' own text and their places is visible in it.\<close>

theorem unmatched_text_hidden:
  assumes "tj_unmatched J \<noteq> ''passthrough''" "cell \<noteq> []" "cell' \<noteq> []"
    and "\<forall>s \<in> set spans. span_of cell s \<and> span_of cell' s"
    and "last_cursor 0 spans < length cell \<longleftrightarrow> last_cursor 0 spans < length cell'"
  shows "mask_cell_with_spans J cell spans = mask_cell_with_spans J cell' spans"
proof (cases "spans = []")
  case True
  then show ?thesis
    using assms(1-3) by (simp add: mask_cell_with_spans_def splice_spans_def apply_unmatched_def)
next
  case False
  have "\<forall>s \<in> set spans. sp_start s \<le> length cell \<and> sp_start s \<le> length cell'"
    using assms(4) by (auto simp: span_of_def)
  then show ?thesis
    using splice_loop_gaps [OF assms(1) _ assms(5)] assms(2,3) False by (simp add: mask_cell_with_spans_def splice_spans_def)
qed

text \<open>C9. Format-preserving masking of free text can be undone. When the surrounding text passes
  through, every span's strategy is \<open>fpe\<close> or \<open>passthrough\<close> and no fallback for small domains is configured,
  a masked cell has the length of the cell and every span its place, nothing was counted as irreversible,
  and decrypting the spans in their places gives back the cell.\<close>

theorem text_fpe_reversible:
  assumes "mask_cell finditer J ids extra cell = Inr (out, ntc)" "iter_spans finditer cell ids [] extra = Inr spans"
    and "\<forall>d. matches_in_text (finditer d)" "\<forall>s \<in> set extra. span_of cell s"
    and "aes_lengths (tj_aes J)" "stdnum_laws (tj_stdnum J)" "tj_unmatched J = ''passthrough''" "tj_sub_floor J = None"
    and "\<forall>s \<in> set spans. strategy_of (tj_strategies J) (sp_detector s) \<in> {''fpe'', ''passthrough''}"
  shows "length out = length cell \<and> ntc = [] \<and>
    splice_spans (unmask_span J) ''passthrough'' (tj_token J) out (map (relocate out) spans) = Inr (cell, [])"
proof (cases "cell = [] \<or> spans = []")
  case True
  then have "spans = []"
    using assms(2) by (auto simp: iter_spans_def)
  then have "out = cell \<and> ntc = [] \<and> spans = []"
    using assms(1,2,7) by (auto simp: mask_cell_def mask_cell_with_spans_def splice_spans_def apply_unmatched_def split: if_splits)
  then show ?thesis
    by (simp add: splice_spans_def apply_unmatched_def)
next
  case False
  then have run: "splice_loop (job_mask_span J) ''passthrough'' (tj_token J) cell 0 spans = Inr (out, ntc)"
    using assms(1,2,7) by (simp add: mask_cell_def mask_cell_with_spans_def splice_spans_def)
  have ok: "resolved 0 spans" "\<forall>s \<in> set spans. span_of cell s"
    using iter_spans_resolved [OF assms(2,3) _ assms(4)] by simp_all
  have "\<forall>s \<in> set spans. undoes (job_mask_span J) (unmask_span J) s"
    using reversible_span [OF assms(5,6,8)] assms(9) by blast
  then have "ntc = [] \<and> length out = length cell - 0 \<and>
      splice_loop (unmask_span J) ''passthrough'' (tj_token J) ([] @ out) 0 (map (relocate ([] @ out)) spans) = Inr (drop 0 cell, [])"
    using ok by (intro splice_loop_undo [OF ok(1) _ _ run]) auto
  then show ?thesis
    using False by (simp add: splice_spans_def)
qed

text \<open>C32. A synthetic replacement tells nothing but the format. For a digit charset, a known check-digit
  scheme and, under Luhn, at least two digits, the replacement exists, keeps every separator where it was and has digits elsewhere; and
  a text with the same separators at the same places (and, for an NPI, the same leading digit) gets
  the same replacement.\<close>

theorem synthetic_reveals_layout_only:
  assumes "stdnum_laws S" "checksum \<in> {None, Some ''luhn'', Some ''npi''}" "checksum = Some ''luhn'' \<longrightarrow> 2 \<le> length (in_body DIGITS_ONLY s)"
    and "same_layout DIGITS_ONLY s t" "checksum = Some ''npi'' \<longrightarrow> take 1 (in_body DIGITS_ONLY s) = take 1 (in_body DIGITS_ONLY t)"
  shows "\<exists>v. synthetic_span_value S key s DIGITS_ONLY checksum = Inr v \<and> synthetic_span_value S key t DIGITS_ONLY checksum = Inr v \<and>
    same_layout DIGITS_ONLY s v"
proof -
  let ?b = "\<lambda>x. synthetic_body S key checksum (length (in_body DIGITS_ONLY x)) (take 1 (in_body DIGITS_ONLY x))"
  let ?v = "\<lambda>x. reinsert x (in_charset_positions DIGITS_ONLY x) (?b x)"
  have len: "length (in_body DIGITS_ONLY s) = length (in_body DIGITS_ONLY t)"
    using same_layout_length [OF assms(4)] .
  note s = synthetic_span_value_eq [OF assms(1-3), of key]
  have t: "synthetic_span_value S key t DIGITS_ONLY checksum = Inr (?v t)"
    using synthetic_span_value_eq(1) [OF assms(1,2), of t key] assms(3) len by simp
  have b: "?b s = ?b t"
    using assms(2,5) len by (auto simp: synthetic_body_def)
  have "?v s = ?v t"
    using same_layout_reinsert [OF assms(4) s(2)] b by simp
  moreover have "same_layout DIGITS_ONLY s (?v s)"
    using reinsert_in_charset(4) [OF s(2)] s(3) by (auto simp: same_layout_def DIGITS_ONLY_sub split: if_splits)
  ultimately show ?thesis
    using s(1) t by metis
qed

section \<open>Witnesses\<close>

text \<open>A pattern set that finds an e-mail at 0 to 5 and a URL at 3 to 8 wherever the text is long enough.\<close>

definition demo_finditer :: "string \<Rightarrow> string \<Rightarrow> (nat \<times> nat) list" where
  "demo_finditer d cell = filter (\<lambda>(i, j). i \<le> j \<and> j \<le> length cell)
     (if d = ''email'' then [(0, 5)] else if d = ''url'' then [(3, 8)] else [])"

lemma demo_finditer_in_text: "matches_in_text (demo_finditer d)"
  by (auto simp: matches_in_text_def demo_finditer_def)

definition demo_job :: text_job where
  "demo_job = \<lparr>tj_aes = demo_aes, tj_stdnum = demo_stdnum, tj_faker = (\<lambda>m n. m), tj_key = replicate 32 7, tj_strategies = [],
     tj_unmatched = ''passthrough'', tj_token = DEFAULT_TOKEN,
     tj_cfg = \<lparr>tc_token = DEFAULT_TOKEN, tc_min_days = - 365, tc_max_days = 365\<rparr>, tj_sub_floor = None\<rparr>"

theorem iter_spans_leftmost_longest_witness:
  "\<exists>kept. iter_spans demo_finditer ''abcdefghij'' None [] [] = Inr kept \<and> resolved 0 kept \<and>
     (\<exists>k \<in> set kept. sp_start k \<le> 3 \<and> 3 < sp_end k)"
proof -
  let ?email = "\<lparr>sp_detector = ''email'', sp_start = 0, sp_end = 5, sp_text = ''abcde''\<rparr>"
  let ?url = "\<lparr>sp_detector = ''url'', sp_start = 3, sp_end = 8, sp_text = ''defgh''\<rparr>"
  have raw: "raw_spans demo_finditer ''abcdefghij'' None [] [] = Inr [?email, ?url]"
    by code_simp
  then obtain kept where kept: "iter_spans demo_finditer ''abcdefghij'' None [] [] = Inr kept"
    by (simp add: iter_spans_def)
  have "?url \<notin> set kept"
    using kept raw by (auto simp: iter_spans_def span_order_def)
  then show ?thesis
    using iter_spans_leftmost_longest [OF kept raw] kept demo_finditer_in_text by auto
qed

text \<open>The URL above is detected but not kept, since it starts inside the e-mail. Under \<open>passthrough\<close> the part
  of it behind the e-mail is treated as undetected text and stays in the output.\<close>

lemma dropped_span_tail_rides_through:
  "mask_cell demo_finditer demo_job None [] ''abcdefghij'' = Inr (DEFAULT_TOKEN @ ''fghij'', [])"
proof -
  let ?email = "\<lparr>sp_detector = ''email'', sp_start = 0, sp_end = 5, sp_text = ''abcde''\<rparr>"
  have "iter_spans demo_finditer ''abcdefghij'' None [] [] = Inr [?email]"
    by code_simp
  moreover have "strategy_of [] ''email'' = ''redact''"
    by code_simp
  ultimately show ?thesis
    by (simp add: mask_cell_def mask_cell_with_spans_def splice_spans_def job_mask_span_def demo_job_def mask_span_def apply_unmatched_def)
qed

theorem unmatched_text_hidden_witness:
  "mask_cell_with_spans (demo_job\<lparr>tj_unmatched := ''redact''\<rparr>) ''ab secret'' [\<lparr>sp_detector = ''email'', sp_start = 0, sp_end = 2, sp_text = ''ab''\<rparr>] =
   mask_cell_with_spans (demo_job\<lparr>tj_unmatched := ''redact''\<rparr>) ''ab x'' [\<lparr>sp_detector = ''email'', sp_start = 0, sp_end = 2, sp_text = ''ab''\<rparr>]"
  by (rule unmatched_text_hidden) (simp_all add: span_of_def substring_def last_cursor_def)

theorem synthetic_reveals_layout_only_witness:
  "\<exists>v. synthetic_span_value demo_stdnum [1, 2, 3] ''12345-6'' DIGITS_ONLY None = Inr v \<and>
     synthetic_span_value demo_stdnum [1, 2, 3] ''99999-0'' DIGITS_ONLY None = Inr v \<and> v ! 5 = CHR ''-''"
proof -
  have layout: "same_layout DIGITS_ONLY ''12345-6'' ''99999-0''"
    by (auto simp: same_layout_def DIGITS_ONLY_def nth_Cons' split: if_splits)
  then obtain v where v: "synthetic_span_value demo_stdnum [1, 2, 3] ''12345-6'' DIGITS_ONLY None = Inr v"
      "synthetic_span_value demo_stdnum [1, 2, 3] ''99999-0'' DIGITS_ONLY None = Inr v" "same_layout DIGITS_ONLY ''12345-6'' v"
    using synthetic_reveals_layout_only [OF demo_stdnum_laws, of None, OF _ _ layout] by auto
  have "''12345-6'' ! 5 = v ! 5"
    using v(3) unfolding same_layout_def by (auto simp: DIGITS_ONLY_def)
  then show ?thesis
    using v(1,2) by simp
qed

text \<open>A cell with a social security number at 4 to 15.\<close>

definition demo_ssn_finditer :: "string \<Rightarrow> string \<Rightarrow> (nat \<times> nat) list" where
  "demo_ssn_finditer d cell = (if d = ''ssn'' \<and> 15 \<le> length cell then [(4, 15)] else [])"

lemma demo_ssn_config:
  obtains cfg where "span_fpe_config (replicate 32 7) ''ssn'' = Inr cfg" "length (fc_key cfg) = 32" "fc_tweak cfg = [1, 3, 0, 3, 115, 115, 110]"
    "fc_charset cfg = DIGITS_ONLY" "fc_checksum cfg = None" "\<not> fc_validate_luhn cfg" "fc_preserve_separators cfg"
proof -
  have "build_ff1_tweak FF1_TWEAK_SCOPE_TEXT_SPAN ''ssn'' = Inr [1, 3, 0, 3, 115, 115, 110]"
    by (simp add: build_ff1_tweak_def utf8_def utf8_char_def FF1_MAX_TWEAK_LEN_def FF1_TWEAK_VERSION_def FF1_TWEAK_SCOPE_TEXT_SPAN_def Let_def to_bytes_def numeral_2_eq_2)
  moreover have "fpe_preset ''ssn'' = (''digits'', None)"
    by code_simp
  moreover have "resolve_fpe_charset ''digits'' = DIGITS_ONLY"
    by code_simp
  moreover obtain key where "derive (replicate 32 7) (''text.'' @ ''ssn'') FF1_KEY_LABEL = Inr key" "length key = 32"
    using derive_total [of "replicate 32 7" "''text.'' @ ''ssn''" FF1_KEY_LABEL] by (auto simp: FF1_KEY_LABEL_def utf8_def utf8_char_def)
  ultimately show ?thesis
    using that by (simp add: span_fpe_config_def)
qed

theorem text_fpe_reversible_witness:
  "\<exists>out spans. mask_cell demo_ssn_finditer demo_job None [] ''ssn 123-45-6789 ok'' = Inr (out, []) \<and>
     iter_spans demo_ssn_finditer ''ssn 123-45-6789 ok'' None [] [] = Inr spans \<and>
     splice_spans (unmask_span demo_job) ''passthrough'' (tj_token demo_job) out (map (relocate out) spans) = Inr (''ssn 123-45-6789 ok'', [])"
proof -
  let ?cell = "''ssn 123-45-6789 ok''"
  let ?span = "\<lparr>sp_detector = ''ssn'', sp_start = 4, sp_end = 15, sp_text = ''123-45-6789''\<rparr>"
  have spans: "iter_spans demo_ssn_finditer ?cell None [] [] = Inr [?span]"
    by code_simp
  have strategy: "strategy_of (tj_strategies demo_job) ''ssn'' = ''fpe''"
    by code_simp
  have job: "tj_aes demo_job = demo_aes" "tj_stdnum demo_job = demo_stdnum" "tj_key demo_job = replicate 32 7"
      "tj_unmatched demo_job = ''passthrough''" "tj_sub_floor demo_job = None"
    by (simp_all add: demo_job_def)
  obtain cfg where cfg: "span_fpe_config (replicate 32 7) ''ssn'' = Inr cfg" "length (fc_key cfg) = 32" "fc_tweak cfg = [1, 3, 0, 3, 115, 115, 110]"
      "fc_charset cfg = DIGITS_ONLY" "fc_checksum cfg = None" "\<not> fc_validate_luhn cfg" "fc_preserve_separators cfg"
    by (rule demo_ssn_config)
  have body: "length (in_body DIGITS_ONLY ''123-45-6789'') = 9"
    by code_simp
  have "profile_ok (fc_key cfg) (fc_charset cfg) (fc_tweak cfg) (length (in_body (fc_charset cfg) ''123-45-6789''))"
    using demo_profile [of 9] cfg(2-4) by (simp add: profile_ok_def FF1_KEY_BYTES_def FF1_MAX_TWEAK_LEN_def body)
  then obtain v where "fpe_encrypt_value demo_aes demo_stdnum cfg ''123-45-6789'' = Inr v"
    using fpe_plain_total [OF demo_aes_lengths cfg(5,6), of "''123-45-6789''" demo_stdnum] cfg(7) by auto
  then have "job_mask_span demo_job ?span = Inr (v, [])"
    using cfg(1) strategy job by (simp add: job_mask_span_def mask_span_def mask_fpe_def)
  then obtain out where out: "mask_cell demo_ssn_finditer demo_job None [] ?cell = Inr (out, [])"
    using spans by (simp add: mask_cell_def mask_cell_with_spans_def splice_spans_def del: substring_length)
  have "\<forall>d. matches_in_text (demo_ssn_finditer d)"
    by (simp add: matches_in_text_def demo_ssn_finditer_def)
  then have "splice_spans (unmask_span demo_job) ''passthrough'' (tj_token demo_job) out (map (relocate out) [?span]) = Inr (?cell, [])"
    using text_fpe_reversible [OF out spans] demo_aes_lengths demo_stdnum_laws job strategy by (simp del: list.map)
  then show ?thesis
    using out spans by blast
qed

end
