(* ===== verification/When_Parser.thy ===== *)
theory When_Parser
  imports Decoy_Prelude Py_Text "HOL-Library.List_Lexorder" "HOL-Library.Char_ord"
begin

text \<open>
  The closed parser of the public \<open>when\<close> predicate: \<open>expressions/_when_parser.py\<close>. The parser Lark generates from
  \<open>when_grammar.lark\<close> is an argument; what the code relies on is that its trees follow the grammar. So is
  floating point (\<open>float\<close> of a numeral, and whether it is finite).
\<close>

section \<open>Model\<close>

subsection \<open>Parse trees of the grammar\<close>

datatype wlit = NumberLit string | StrLit string | TrueLit | FalseLit

datatype wtree =
    OrExpr "wtree list" | AndExpr "wtree list" | NotOp wtree
  | ColFirst string string wlit | LitFirst wlit string string
  | InOp string "wlit list" | NotInOp string "wlit list"

text \<open>How parsing ends other than with a tree.\<close>

datatype lark_error = UnexpectedInput nat | LarkError | LarkRecursion

subsection \<open>The abstract syntax\<close>

datatype 'f scalar = WInt int | WFloat 'f | WStr string | WBool bool

datatype 'f when_expr =
    Compare (cmp_ref: string) (cmp_op: string) (cmp_value: "'f scalar") (literal_first: bool)
  | InList (in_ref: string) (in_values: "'f scalar list") (negated: bool)
  | Not (operand: "'f when_expr")
  | BoolOp (bool_op: string) (operands: "'f when_expr list")

datatype when_reason =
    NotAString | EmptyPredicate | NotOneLine | TooLong | TooManyParentheses | TooManyLevels | TooManyComparisons
  | Dunder | Reserved string | IntRange | FloatNotFinite | DoesNotParse | UnexpectedAt nat | NestedTooDeeply

definition MAX_EXPR_LENGTH :: nat where "MAX_EXPR_LENGTH = 4096"
definition MAX_NESTING_DEPTH :: nat where "MAX_NESTING_DEPTH = 50"
definition MAX_COMPARISONS :: nat where "MAX_COMPARISONS = 32"
definition MAX_TREE_DEPTH :: nat where "MAX_TREE_DEPTH = 50"
definition INT64_MIN :: int where "INT64_MIN = - (2 ^ 63)"
definition INT64_MAX :: int where "INT64_MAX = 2 ^ 63 - 1"
definition INTEGER_CHARS :: string where "INTEGER_CHARS = ''-0123456789''"

definition RESERVED_NAMES :: "string list" where
  "RESERVED_NAMES =
     [''abs'', ''arccos'', ''arccosh'', ''arcsin'', ''arcsinh'', ''arctan'', ''arctan2'', ''arctanh'',
      ''ceil'', ''complex'', ''conj'', ''contains'', ''copy'', ''copysign'', ''cos'', ''cosh'', ''exp'',
      ''expm1'', ''floor'', ''fmod'', ''hypot'', ''imag'', ''isfinite'', ''isinf'', ''isnan'', ''log'',
      ''log10'', ''log1p'', ''log2'', ''max'', ''maximum'', ''min'', ''minimum'', ''nextafter'',
      ''ones_like'', ''prod'', ''real'', ''round'', ''sign'', ''signbit'', ''sin'', ''sinh'', ''sqrt'',
      ''sum'', ''tan'', ''tanh'', ''trunc'', ''where'',
      ''Timestamp'', ''datetime'', ''True'', ''False'', ''list'', ''tuple'', ''inf'', ''Inf'',
      ''nan'', ''NaN'', ''NaT'', ''index'', ''columns'',
      ''None'', ''and'', ''as'', ''assert'', ''async'', ''await'', ''break'', ''class'', ''continue'',
      ''def'', ''del'', ''elif'', ''else'', ''except'', ''finally'', ''for'', ''from'', ''global'', ''if'',
      ''import'', ''in'', ''is'', ''lambda'', ''nonlocal'', ''not'', ''or'', ''pass'', ''raise'',
      ''return'', ''try'', ''while'', ''with'', ''yield'', ''match'', ''case'', ''_'', ''type'']"

definition dunder :: "string \<Rightarrow> bool" where
  "dunder name \<longleftrightarrow> take 2 name = ''__'' \<or> drop (length name - 2) name = ''__''"

definition name_of :: "string \<Rightarrow> when_reason + string" where
  "name_of name =
     (if dunder name then Inl Dunder else if name \<in> set RESERVED_NAMES then Inl (Reserved name) else Inr name)"

text \<open>Floating point as the parser uses it.\<close>

record 'f float_ops =
  fo_float :: "string \<Rightarrow> 'f"
  fo_finite :: "'f \<Rightarrow> bool"

definition number_of :: "'f float_ops \<Rightarrow> string \<Rightarrow> when_reason + 'f scalar" where
  "number_of F s =
     (if set s \<subseteq> set INTEGER_CHARS then
        (case py_int s of
           None \<Rightarrow> Inl DoesNotParse
         | Some v \<Rightarrow> if INT64_MIN \<le> v \<and> v \<le> INT64_MAX then Inr (WInt v) else Inl IntRange)
      else if fo_finite F (fo_float F s) then Inr (WFloat (fo_float F s)) else Inl FloatNotFinite)"

fun build_literal :: "'f float_ops \<Rightarrow> wlit \<Rightarrow> when_reason + 'f scalar" where
  "build_literal F (NumberLit s) = number_of F s"
| "build_literal F (StrLit s) = Inr (WStr (butlast (tl s)))"
| "build_literal F TrueLit = Inr (WBool True)"
| "build_literal F FalseLit = Inr (WBool False)"

lemma map_result_cong [fundef_cong]:
  assumes "xs = ys" "\<And>y. y \<in> set ys \<Longrightarrow> f y = g y"
  shows "map_result f xs = map_result g ys"
proof -
  have "map_result f ys = map_result g ys"
    using assms(2) by (induction ys) auto
  then show ?thesis
    using assms(1) by simp
qed

text \<open>\<open>_Build\<close>: children are transformed before their parent, left to right.\<close>

fun build :: "'f float_ops \<Rightarrow> wtree \<Rightarrow> when_reason + 'f when_expr" where
  "build F (OrExpr ts) = and_then (map_result (build F) ts) (\<lambda>es. Inr (BoolOp ''or'' es))"
| "build F (AndExpr ts) = and_then (map_result (build F) ts) (\<lambda>es. Inr (BoolOp ''and'' es))"
| "build F (NotOp t) = and_then (build F t) (\<lambda>e. Inr (Not e))"
| "build F (ColFirst c ope l) = and_then (build_literal F l) (\<lambda>v. and_then (name_of c) (\<lambda>r. Inr (Compare r ope v False)))"
| "build F (LitFirst l ope c) = and_then (build_literal F l) (\<lambda>v. and_then (name_of c) (\<lambda>r. Inr (Compare r ope v True)))"
| "build F (InOp c ls) = and_then (map_result (build_literal F) ls) (\<lambda>vs. and_then (name_of c) (\<lambda>r. Inr (InList r vs False)))"
| "build F (NotInOp c ls) = and_then (map_result (build_literal F) ls) (\<lambda>vs. and_then (name_of c) (\<lambda>r. Inr (InList r vs True)))"

subsection \<open>Size\<close>

lemma size_operands: "sum_list (map (\<lambda>e. Suc (size e)) es) \<le> size_list size es"
  by (induction es) auto

text \<open>The explicit stack of \<open>_check_size\<close>, its top first; operands are pushed in order, so the last is popped first.\<close>

function check_size_loop :: "nat \<Rightarrow> ('f when_expr \<times> nat) list \<Rightarrow> when_reason + unit" where
  "check_size_loop comparisons [] = Inr ()"
| "check_size_loop comparisons ((node, depth) # stack) =
     (if MAX_TREE_DEPTH < depth then Inl TooManyLevels
      else case node of
          Compare _ _ _ _ \<Rightarrow> if MAX_COMPARISONS < comparisons + 1 then Inl TooManyComparisons else check_size_loop (comparisons + 1) stack
        | InList _ _ _ \<Rightarrow> if MAX_COMPARISONS < comparisons + 1 then Inl TooManyComparisons else check_size_loop (comparisons + 1) stack
        | Not e \<Rightarrow> check_size_loop comparisons ((e, depth + 1) # stack)
        | BoolOp _ es \<Rightarrow> check_size_loop comparisons (rev (map (\<lambda>e. (e, depth + 1)) es) @ stack))"
  by pat_completeness auto

termination
proof (relation "measure (\<lambda>(n, stack). sum_list (map (\<lambda>(e, d). Suc (size e)) stack))")
  fix comparisons depth :: nat and stack :: "('f when_expr \<times> nat) list" and node :: "'f when_expr" and s and es :: "'f when_expr list"
  assume node: "node = BoolOp s es"
  have "sum_list (map (\<lambda>(e, d). Suc (size e)) (rev (map (\<lambda>e. (e, depth + 1)) es))) = sum_list (map (\<lambda>e. Suc (size e)) es)"
    by (simp add: rev_map [symmetric] comp_def)
  then show "((comparisons, rev (map (\<lambda>e. (e, depth + 1)) es) @ stack), comparisons, (node, depth) # stack)
      \<in> measure (\<lambda>(n, stack). sum_list (map (\<lambda>(e, d). Suc (size e)) stack))"
    using size_operands [of es] node by simp
qed auto

definition check_size :: "'f when_expr \<Rightarrow> when_reason + unit" where
  "check_size ast = check_size_loop 0 [(ast, 1)]"

subsection \<open>Entry points\<close>

definition parse_when :: "(string \<Rightarrow> lark_error + wtree) \<Rightarrow> 'f float_ops \<Rightarrow> string \<Rightarrow> when_reason + 'f when_expr" where
  "parse_when lark F expr =
     (let s = py_strip expr in
      if s = [] then Inl EmptyPredicate
      else if CHR 0x0A \<in> set s \<or> CHR 0x0D \<in> set s then Inl NotOneLine
      else if MAX_EXPR_LENGTH < length s then Inl TooLong
      else if MAX_NESTING_DEPTH < length (filter (\<lambda>c. c = CHR ''('') s) then Inl TooManyParentheses
      else case lark s of
          Inl (UnexpectedInput pos) \<Rightarrow> Inl (UnexpectedAt pos)
        | Inl LarkError \<Rightarrow> Inl DoesNotParse
        | Inl LarkRecursion \<Rightarrow> Inl NestedTooDeeply
        | Inr t \<Rightarrow> and_then (build F t) (\<lambda>e. and_then (check_size e) (\<lambda>_. Inr e)))"

text \<open>The stack loop of \<open>when_column_refs\<close>; the set is collected as a list.\<close>

function refs_loop :: "string list \<Rightarrow> 'f when_expr list \<Rightarrow> string list" where
  "refs_loop found [] = found"
| "refs_loop found (node # stack) =
     (case node of
        Compare r _ _ _ \<Rightarrow> refs_loop (r # found) stack
      | InList r _ _ \<Rightarrow> refs_loop (r # found) stack
      | Not e \<Rightarrow> refs_loop found (e # stack)
      | BoolOp _ es \<Rightarrow> refs_loop found (rev es @ stack))"
  by pat_completeness auto

termination
proof (relation "measure (\<lambda>(found, stack). sum_list (map (\<lambda>e. Suc (size e)) stack))")
  fix found :: "string list" and stack es :: "'f when_expr list" and node :: "'f when_expr" and s
  assume node: "node = BoolOp s es"
  have "sum_list (map (\<lambda>e. Suc (size e)) (rev es)) = sum_list (map (\<lambda>e. Suc (size e)) es)"
    by (simp add: rev_map [symmetric])
  then show "((found, rev es @ stack), found, node # stack) \<in> measure (\<lambda>(found, stack). sum_list (map (\<lambda>e. Suc (size e)) stack))"
    using size_operands [of es] node by simp
qed auto

definition when_column_refs :: "'f when_expr \<Rightarrow> string list" where
  "when_column_refs ast = sort (remdups (refs_loop [] [ast]))"

text \<open>A seed envelope: each table with the \<open>when\<close> of its columns. A value of any other type is refused.\<close>

datatype when_value = WhenNone | WhenText string | WhenOther

definition seed_when_ok :: "(string \<Rightarrow> lark_error + wtree) \<Rightarrow> 'f float_ops \<Rightarrow> when_value \<Rightarrow> bool" where
  "seed_when_ok lark F w =
     (case w of WhenNone \<Rightarrow> True | WhenText s \<Rightarrow> (case parse_when lark F s of Inr _ \<Rightarrow> True | Inl _ \<Rightarrow> False) | WhenOther \<Rightarrow> False)"

fun validate_columns ::
    "(string \<Rightarrow> lark_error + wtree) \<Rightarrow> 'f float_ops \<Rightarrow> string \<Rightarrow> (string \<times> when_value) list \<Rightarrow> (string \<times> string) + unit" where
  "validate_columns lark F table [] = Inr ()"
| "validate_columns lark F table ((column, w) # cs) =
     (if seed_when_ok lark F w then validate_columns lark F table cs else Inl (table, column))"

fun validate_envelope_when ::
    "(string \<Rightarrow> lark_error + wtree) \<Rightarrow> 'f float_ops \<Rightarrow> (string \<times> (string \<times> when_value) list) list \<Rightarrow> (string \<times> string) + unit" where
  "validate_envelope_when lark F [] = Inr ()"
| "validate_envelope_when lark F ((table, cs) # ts) =
     and_then (validate_columns lark F table cs) (\<lambda>_. validate_envelope_when lark F ts)"

section \<open>Size\<close>

text \<open>The bounds the stack loop checks, as functions of the tree.\<close>

fun comparisons :: "'f when_expr \<Rightarrow> nat" where
  "comparisons (Compare _ _ _ _) = 1"
| "comparisons (InList _ _ _) = 1"
| "comparisons (Not e) = comparisons e"
| "comparisons (BoolOp _ es) = sum_list (map comparisons es)"

fun depth :: "'f when_expr \<Rightarrow> nat" where
  "depth (Compare _ _ _ _) = 1"
| "depth (InList _ _ _) = 1"
| "depth (Not e) = Suc (depth e)"
| "depth (BoolOp _ es) = Suc (fold max (map depth es) 0)"

lemma fold_max_le: "fold max xs (m :: nat) \<le> n \<longleftrightarrow> m \<le> n \<and> (\<forall>x \<in> set xs. x \<le> n)"
  by (induction xs arbitrary: m) auto

lemma depth_pos: "1 \<le> depth e"
  by (cases e) auto

lemma check_size_loop_iff:
  "check_size_loop n stack = Inr () \<longleftrightarrow>
     n + sum_list (map (\<lambda>(e, d). comparisons e) stack) \<le> max n MAX_COMPARISONS \<and> (\<forall>(e, d) \<in> set stack. d + depth e \<le> MAX_TREE_DEPTH + 1)"
proof (induction n stack rule: check_size_loop.induct)
  case (2 n node d stack)
  show ?case
  proof (cases "MAX_TREE_DEPTH < d")
    case True
    then show ?thesis
      using depth_pos [of node] by (auto simp: not_le)
  next
    case False
    then show ?thesis
    proof (cases node)
      case (BoolOp s es)
      have "sum_list (map (\<lambda>(e, d). comparisons e) (rev (map (\<lambda>e. (e, d + 1)) es))) = sum_list (map comparisons es)"
        by (simp add: rev_map [symmetric] comp_def)
      moreover have "d + fold max (map depth es) 0 \<le> MAX_TREE_DEPTH \<longleftrightarrow> (\<forall>e \<in> set es. d + depth e \<le> MAX_TREE_DEPTH)"
        using False fold_max_le [of "map depth es" 0 "MAX_TREE_DEPTH - d"] by (auto simp: le_diff_conv2 add.commute)
      ultimately show ?thesis
        using 2(4) [OF False BoolOp] False BoolOp by (simp add: ball_Un)
    next
      case (Not e)
      then show ?thesis
        using 2(3) [OF False Not] False by auto
    next
      case (Compare r ope v b)
      then show ?thesis
        using 2(1) [OF False Compare] False by auto
    next
      case (InList r vs b)
      then show ?thesis
        using 2(2) [OF False InList] False by auto
    qed
  qed
qed simp

lemma check_size_iff: "check_size e = Inr () \<longleftrightarrow> comparisons e \<le> MAX_COMPARISONS \<and> depth e \<le> MAX_TREE_DEPTH"
  using check_size_loop_iff [of 0 "[(e, 1)]"] by (simp add: check_size_def del: check_size_loop.simps)

section \<open>Types\<close>

text \<open>Well-formed literals and predicates.\<close>

fun scalar_ok :: "'f float_ops \<Rightarrow> 'f scalar \<Rightarrow> bool" where
  "scalar_ok F (WInt v) = (INT64_MIN \<le> v \<and> v \<le> INT64_MAX)"
| "scalar_ok F (WFloat x) = fo_finite F x"
| "scalar_ok F (WStr s) = (list_all (\<lambda>c. c \<notin> set [CHR 0x27, CHR 0x22, CHR 0x5C, CHR 0x0A, CHR 0x0D]) s)"
| "scalar_ok F (WBool b) = True"

definition ref_ok :: "string \<Rightarrow> bool" where
  "ref_ok r \<longleftrightarrow> \<not> dunder r \<and> r \<notin> set RESERVED_NAMES"

definition CMP :: "string list" where "CMP = [''=='', ''!='', ''<='', ''>='', ''<'', ''>'']"

fun when_ok :: "'f float_ops \<Rightarrow> 'f when_expr \<Rightarrow> bool" where
  "when_ok F (Compare r ope v b) = (ref_ok r \<and> ope \<in> set CMP \<and> scalar_ok F v)"
| "when_ok F (InList r vs b) = (ref_ok r \<and> vs \<noteq> [] \<and> list_all (scalar_ok F) vs)"
| "when_ok F (Not e) = when_ok F e"
| "when_ok F (BoolOp s es) = (s \<in> {''and'', ''or''} \<and> 2 \<le> length es \<and> list_all (when_ok F) es)"

text \<open>Trees of the grammar, as far as it constrains them: comparison operators, non-empty lists, at
  least two operands, and string literals between quotes without a quote, backslash or line break inside.\<close>

fun lit_grammar :: "wlit \<Rightarrow> bool" where
  "lit_grammar (StrLit s) = (\<exists>q inner. q \<in> {CHR 0x27, CHR 0x22} \<and> s = q # inner @ [q] \<and>
     list_all (\<lambda>c. c \<notin> set [CHR 0x27, CHR 0x22, CHR 0x5C, CHR 0x0A, CHR 0x0D]) inner)"
| "lit_grammar _ = True"

fun tree_grammar :: "wtree \<Rightarrow> bool" where
  "tree_grammar (OrExpr ts) = (2 \<le> length ts \<and> list_all tree_grammar ts)"
| "tree_grammar (AndExpr ts) = (2 \<le> length ts \<and> list_all tree_grammar ts)"
| "tree_grammar (NotOp t) = tree_grammar t"
| "tree_grammar (ColFirst c ope l) = (ope \<in> set CMP \<and> lit_grammar l)"
| "tree_grammar (LitFirst l ope c) = (ope \<in> set CMP \<and> lit_grammar l)"
| "tree_grammar (InOp c ls) = (ls \<noteq> [] \<and> list_all lit_grammar ls)"
| "tree_grammar (NotInOp c ls) = (ls \<noteq> [] \<and> list_all lit_grammar ls)"

definition follows_grammar :: "(string \<Rightarrow> lark_error + wtree) \<Rightarrow> bool" where
  "follows_grammar lark \<longleftrightarrow> (\<forall>s t. lark s = Inr t \<longrightarrow> tree_grammar t)"

lemma name_of_ok: "name_of c = Inr r \<Longrightarrow> ref_ok r"
  by (auto simp: name_of_def ref_ok_def split: if_splits)

lemma build_literal_ok: "build_literal F l = Inr v \<Longrightarrow> lit_grammar l \<Longrightarrow> scalar_ok F v"
  by (cases l) (auto simp: number_of_def split: if_splits option.splits)

lemma map_result_all:
  assumes "map_result f xs = Inr ys" "\<And>x y. x \<in> set xs \<Longrightarrow> f x = Inr y \<Longrightarrow> P y"
  shows "list_all P ys"
proof -
  have "P y" if "y \<in> set ys" for y
  proof -
    have "Inr y \<in> f ` set xs"
      using map_result_set [OF assms(1)] that by blast
    then show ?thesis
      using assms(2) by (metis imageE)
  qed
  then show ?thesis
    by (simp add: list_all_iff)
qed

lemma build_ok: "build F t = Inr e \<Longrightarrow> tree_grammar t \<Longrightarrow> when_ok F e"
proof (induction F t arbitrary: e rule: build.induct)
  case (1 F ts)
  then obtain es where es: "map_result (build F) ts = Inr es" "e = BoolOp ''or'' es"
    by (auto simp: result_simps)
  have "list_all (when_ok F) es"
    using 1 by (intro map_result_all [OF es(1)]) (auto simp: list_all_iff)
  then show ?case
    using 1(3) es map_result_length [OF es(1)] by simp
next
  case (2 F ts)
  then obtain es where es: "map_result (build F) ts = Inr es" "e = BoolOp ''and'' es"
    by (auto simp: result_simps)
  have "list_all (when_ok F) es"
    using 2 by (intro map_result_all [OF es(1)]) (auto simp: list_all_iff)
  then show ?case
    using 2(3) es map_result_length [OF es(1)] by simp
next
  case (6 F c ls)
  then obtain vs r where vs: "map_result (build_literal F) ls = Inr vs" "e = InList r vs False" "name_of c = Inr r"
    by (auto simp: result_simps)
  have "list_all (scalar_ok F) vs"
    using 6 by (intro map_result_all [OF vs(1)]) (auto simp: list_all_iff build_literal_ok)
  then show ?case
    using 6(2) vs map_result_length [OF vs(1)] name_of_ok by auto
next
  case (7 F c ls)
  then obtain vs r where vs: "map_result (build_literal F) ls = Inr vs" "e = InList r vs True" "name_of c = Inr r"
    by (auto simp: result_simps)
  have "list_all (scalar_ok F) vs"
    using 7 by (intro map_result_all [OF vs(1)]) (auto simp: list_all_iff build_literal_ok)
  then show ?case
    using 7(2) vs map_result_length [OF vs(1)] name_of_ok by auto
qed (auto simp: result_simps dest: name_of_ok build_literal_ok)

section \<open>Column references\<close>

fun refs :: "'f when_expr \<Rightarrow> string set" where
  "refs (Compare r _ _ _) = {r}"
| "refs (InList r _ _) = {r}"
| "refs (Not e) = refs e"
| "refs (BoolOp _ es) = \<Union> (set (map refs es))"

lemma refs_loop_set: "set (refs_loop found stack) = set found \<union> \<Union> (refs ` set stack)"
proof (induction found stack rule: refs_loop.induct)
  case (2 found node stack)
  then show ?case
    by (cases node) auto
qed simp

lemma when_ok_refs: "when_ok F e \<Longrightarrow> r \<in> refs e \<Longrightarrow> ref_ok r"
  by (induction F e rule: when_ok.induct) (auto simp: list_all_iff)

section \<open>Properties\<close>

text \<open>C21. What \<open>parse_when\<close> accepts is well typed. For a parser that follows the grammar, an accepted predicate
  compares real column names only (none reserved by pandas or numexpr, none with double underscores),
  with known operators; integers fit 64 bits, floats are finite, strings hold no quote, backslash or
  line break, lists are not empty, and the tree has at most 32 comparisons and 50 levels. The columns it
  reads are reported sorted, once each, and all are such names.\<close>

theorem parse_when_well_typed:
  assumes "follows_grammar lark" and "parse_when lark F expr = Inr e"
  shows "when_ok F e \<and> comparisons e \<le> 32 \<and> depth e \<le> 50 \<and> set (when_column_refs e) = refs e \<and>
    sorted (when_column_refs e) \<and> distinct (when_column_refs e) \<and> (\<forall>r \<in> set (when_column_refs e). ref_ok r)"
proof -
  obtain t where t: "lark (py_strip expr) = Inr t" "build F t = Inr e" "check_size e = Inr ()"
    using assms(2) by (auto simp: parse_when_def Let_def result_simps split: if_splits sum.splits lark_error.splits)
  have ok: "when_ok F e"
    using assms(1) t(1) build_ok [OF t(2)] by (simp add: follows_grammar_def)
  have refs: "set (when_column_refs e) = refs e"
    using refs_loop_set [of "[]" "[e]"] by (simp add: when_column_refs_def del: refs_loop.simps)
  show ?thesis
    using ok refs t(3) when_ok_refs [OF ok]
    by (simp add: check_size_iff MAX_COMPARISONS_def MAX_TREE_DEPTH_def) (simp add: when_column_refs_def)
qed

lemma validate_columns_iff: "validate_columns lark F table cs = Inr () \<longleftrightarrow> (\<forall>(c, w) \<in> set cs. seed_when_ok lark F w)"
  by (induction lark F table cs rule: validate_columns.induct) auto

text \<open>A whole envelope is accepted exactly when every predicate in it is absent or parses.\<close>

theorem validate_envelope_when_iff:
  "validate_envelope_when lark F ts = Inr () \<longleftrightarrow>
     (\<forall>(table, cs) \<in> set ts. \<forall>(c, w) \<in> set cs. w = WhenNone \<or> (\<exists>s e. w = WhenText s \<and> parse_when lark F s = Inr e))"
proof -
  have "seed_when_ok lark F w \<longleftrightarrow> w = WhenNone \<or> (\<exists>s e. w = WhenText s \<and> parse_when lark F s = Inr e)" for w
    by (auto simp: seed_when_ok_def split: when_value.splits sum.splits)
  moreover have "validate_envelope_when lark F ts = Inr () \<longleftrightarrow> (\<forall>(table, cs) \<in> set ts. validate_columns lark F table cs = Inr ())"
    by (induction ts) (auto simp: result_simps)
  ultimately show ?thesis
    by (simp add: validate_columns_iff)
qed

text \<open>A parser for one sentence.\<close>

definition demo_lark :: "string \<Rightarrow> lark_error + wtree" where
  "demo_lark s = (if s = ''age >= 18 and state in [1]''
     then Inr (AndExpr [ColFirst ''age'' ''>='' (NumberLit ''18''), InOp ''state'' [NumberLit ''1'']]) else Inl LarkError)"

theorem parse_when_well_typed_witness:
  "\<exists>e. parse_when demo_lark \<lparr>fo_float = (\<lambda>s. ()), fo_finite = (\<lambda>_. True)\<rparr> '' age >= 18 and state in [1] '' = Inr e \<and>
     comparisons e \<le> 32 \<and> set (when_column_refs e) = refs e \<and> (\<forall>r \<in> set (when_column_refs e). \<not> dunder r)"
proof -
  let ?F = "\<lparr>fo_float = (\<lambda>s. ()), fo_finite = (\<lambda>_. True)\<rparr>"
  have e: "parse_when demo_lark ?F '' age >= 18 and state in [1] '' =
      Inr (BoolOp ''and'' [Compare ''age'' ''>='' (WInt 18) False, InList ''state'' [WInt 1] False])"
    by code_simp
  have "follows_grammar demo_lark"
    by (simp add: follows_grammar_def demo_lark_def CMP_def)
  from parse_when_well_typed [OF this e] show ?thesis
    using e by (auto simp: ref_ok_def)
qed

end
