(* ===== verification/Key_Admission.thy ===== *)
theory Key_Admission
  imports Determinism Unicode_Text Py_Text Namespace_Registry Secret_Cache
begin

text \<open>
  The keyed-mask secret: \<open>keyprovider.py\<close>, the job seed of \<open>plan/_seed.py\<close>, and the admission path of
  \<open>secret_providers/\<close> (\<open>_requirements.py\<close>, \<open>_types.py\<close>, \<open>_local.py\<close>, \<open>_errors.py\<close>, \<open>_preflight.py\<close>).
  A prepared secret is the record \<open>secret\<close> of theory \<open>Secret_Cache\<close>. Exceptions are the values of
  \<open>secret_exn\<close>; the text of a message is not kept, only the class and its code.

  Parameters: the environment and the file system (record \<open>host\<close>), the library's own key checks
  (\<open>Fernet\<close> and \<open>AESGCM\<close> constructors), the grammar of \<open>vault://\<close> references, the clock and the
  process cache. Registered extension providers are records of functions and may raise anything.
\<close>

section \<open>Job seed\<close>

datatype seed_error = SEED_NOT_NUMERIC | SEED_OVERFLOW | SeedNotMapping

text \<open>\<open>int(x)\<close> of a configuration value that is neither a bool nor a float (a float has no value in
  \<open>cfg\<close>); \<open>None\<close> where it raises \<open>TypeError\<close> or \<open>ValueError\<close>.\<close>

fun cfg_int :: "cfg \<Rightarrow> int option" where
  "cfg_int (CNum n) = Some n"
| "cfg_int (CStr s) = text_int (codes s)"
| "cfg_int (CBool b) = Some (if b then 1 else 0)"
| "cfg_int _ = None"

definition normalize_job_seed_int :: "config \<Rightarrow> seed_error + int" where
  "normalize_job_seed_int config =
     (let gs = cfg_get config ''global_settings'' (CDict []) in
      and_then (if \<not> cfg_truthy gs then Inr 0
         else case gs of
           CDict settings \<Rightarrow> (case map_of settings ''seed'' of
               None \<Rightarrow> Inr 0
             | Some CNull \<Rightarrow> Inr 0
             | Some (CBool b) \<Rightarrow> Inl SEED_NOT_NUMERIC
             | Some v \<Rightarrow> of_option SEED_NOT_NUMERIC (cfg_int v))
         | CList xs \<Rightarrow> if CStr ''seed'' \<in> set xs then Inl SeedNotMapping else Inr 0
         | CStr s \<Rightarrow> if \<exists>i \<le> length s. take 4 (drop i s) = ''seed'' then Inl SeedNotMapping else Inr 0
         | _ \<Rightarrow> Inl SeedNotMapping) (\<lambda>seed_int.
      if 0 \<le> seed_int \<and> seed_int < 2 ^ 64 then Inr seed_int else Inl SEED_OVERFLOW))"

definition normalize_job_seed :: "config \<Rightarrow> seed_error + bytes" where
  "normalize_job_seed config =
     and_then (normalize_job_seed_int config) (\<lambda>n. of_option SEED_OVERFLOW (to_bytes n 8))"

section \<open>Errors\<close>

datatype secret_code =
    KEYED_STRATEGY_REQUIRES_SECRET | MISSING_MASK_SECRET | WEAK_MASK_SECRET | BAD_SECRET_REF
  | SECRET_PROVIDER_UNKNOWN | SECRET_PROVIDER_UNAVAILABLE | SECRET_ACCESS_DENIED | SECRET_VERSION_UNAVAILABLE
  | SECRET_EXPIRED | SECRET_LEASE_UNSUPPORTED | SECRET_MATERIAL_INVALID | SECRET_FILE_PERMISSIONS_UNSAFE

text \<open>A \<open>MaskSecretError\<close> with a registered code; one with any other code; the carrier of a file
  failure; the class such a carrier is turned into; \<open>KeyboardInterrupt\<close> or \<open>SystemExit\<close>; any other
  exception.\<close>

datatype interrupt = KeyboardInterrupt | SystemExit

datatype secret_exn =
    SecretErr secret_code | UnregisteredErr string | KeptFileFailure string | FileClass string
  | Interrupt interrupt | ForeignExn

definition KEPT_FILE_FAILURES :: "string list" where
  "KEPT_FILE_FAILURES = [''file_access_denied'', ''file_access_unavailable'', ''memory'', ''enomem'', ''enospc'', ''edquot'']"

text \<open>What the boundary keeps of a failure: a registered code, or the kind of a kept file failure.\<close>

datatype failure = FailCode secret_code | FailKept string

fun failure_of :: "secret_exn \<Rightarrow> failure" where
  "failure_of (KeptFileFailure kind) =
     (if kind \<in> set KEPT_FILE_FAILURES then FailKept kind else FailCode SECRET_PROVIDER_UNAVAILABLE)"
| "failure_of (SecretErr code) = FailCode code"
| "failure_of _ = FailCode SECRET_PROVIDER_UNAVAILABLE"

text \<open>\<open>_rebuilt\<close>: \<open>error_for\<close>, or \<open>kept_error\<close> for a kept failure.\<close>

fun rebuilt :: "bool \<Rightarrow> failure \<Rightarrow> secret_exn" where
  "rebuilt outermost (FailCode code) = SecretErr code"
| "rebuilt outermost (FailKept kind) = (if outermost then FileClass kind else KeptFileFailure kind)"

text \<open>\<open>_contained\<close> around work that has already run: an interrupt is raised again as it is, any other
  failure leaves its record. \<open>_call_closed\<close> then raises from that record; \<open>outermost\<close> is \<open>depth = 0\<close>.\<close>

definition contained :: "secret_exn + 'a \<Rightarrow> secret_exn + failure + 'a" where
  "contained r =
     (case r of
        Inr x \<Rightarrow> Inr (Inr x)
      | Inl e \<Rightarrow> (case e of Interrupt i \<Rightarrow> Inl (Interrupt i) | _ \<Rightarrow> Inr (Inl (failure_of e))))"

definition call_closed :: "bool \<Rightarrow> secret_exn + 'a \<Rightarrow> secret_exn + 'a" where
  "call_closed outermost r = and_then (contained r) (on_error (rebuilt outermost))"

section \<open>Key providers\<close>

definition KEYPROVIDER_SALT :: bytes where "KEYPROVIDER_SALT = utf8 ''decoy-engine/keyprovider/v1''"

definition MIN_SECRET_BYTES :: nat where "MIN_SECRET_BYTES = 32"

datatype key_provider =
    SecretKeyProvider bytes string
  | SeedKeyProvider bytes
  | PreparedKeyProvider secret
  | CustomKeyProvider "secret_exn + bytes" string

text \<open>\<open>SecretKeyProvider.__post_init__\<close>; the argument is \<open>bytes\<close>.\<close>

definition secret_key_provider :: "bytes \<Rightarrow> string \<Rightarrow> secret_exn + key_provider" where
  "secret_key_provider material version =
     (if length material < MIN_SECRET_BYTES then Inl (SecretErr WEAK_MASK_SECRET)
      else Inr (SecretKeyProvider material version))"

definition mask_root :: "bytes \<Rightarrow> string \<Rightarrow> secret_exn + bytes" where
  "mask_root material version =
     on_error (\<lambda>_. ForeignExn) (hkdf_sha256 material KEYPROVIDER_SALT (utf8 (''decoy/mask/'' @ version)) 32)"

fun mask_key :: "key_provider \<Rightarrow> secret_exn + bytes" where
  "mask_key (SecretKeyProvider material version) = mask_root material version"
| "mask_key (SeedKeyProvider job_seed) = Inr job_seed"
| "mask_key (PreparedKeyProvider prepared) = Inr (se_material prepared)"
| "mask_key (CustomKeyProvider k version) = k"

fun key_version :: "key_provider \<Rightarrow> string" where
  "key_version (SecretKeyProvider material version) = version"
| "key_version (SeedKeyProvider job_seed) = ''seed''"
| "key_version (PreparedKeyProvider prepared) = se_key_version prepared"
| "key_version (CustomKeyProvider k version) = version"

fun is_seed_provider :: "key_provider \<Rightarrow> bool" where
  "is_seed_provider (SeedKeyProvider s) = True"
| "is_seed_provider _ = False"

section \<open>Requirements and the keyed-ness classifiers\<close>

datatype requirement = MASK_ROOT_V1 | FERNET_V1 | HMAC_SHA256_V1 | AES_GCM_V1

fun requirement_id :: "requirement \<Rightarrow> string" where
  "requirement_id MASK_ROOT_V1 = ''decoy-mask-root-v1''"
| "requirement_id FERNET_V1 = ''fernet-v1''"
| "requirement_id HMAC_SHA256_V1 = ''hmac-sha256-v1''"
| "requirement_id AES_GCM_V1 = ''aes-gcm-v1''"

definition legacy_decoding :: "requirement \<Rightarrow> bool" where
  "legacy_decoding req \<longleftrightarrow> req = MASK_ROOT_V1"

text \<open>\<open>bytes.strip()\<close>, and the constructor checks of the \<open>cryptography\<close> package.\<close>

definition bytes_space :: "byte \<Rightarrow> bool" where
  "bytes_space b \<longleftrightarrow> unat b \<in> {9, 10, 11, 12, 13, 32}"

definition bytes_strip :: "bytes \<Rightarrow> bytes" where
  "bytes_strip b = rev (dropWhile bytes_space (rev (dropWhile bytes_space b)))"

record crypto_lib =
  cl_fernet_accepts :: "bytes \<Rightarrow> bool"
  cl_aesgcm_accepts :: "bytes \<Rightarrow> bool"

fun requirement_prepare :: "crypto_lib \<Rightarrow> requirement \<Rightarrow> bytes \<Rightarrow> string \<Rightarrow> secret_exn + bytes" where
  "requirement_prepare C MASK_ROOT_V1 material version =
     and_then (secret_key_provider material version) mask_key"
| "requirement_prepare C FERNET_V1 material version =
     (let m = bytes_strip material in
      if cl_fernet_accepts C m then Inr m else Inl (SecretErr SECRET_MATERIAL_INVALID))"
| "requirement_prepare C HMAC_SHA256_V1 material version =
     (if length material < 32 then Inl (SecretErr SECRET_MATERIAL_INVALID) else Inr material)"
| "requirement_prepare C AES_GCM_V1 material version =
     (if length material \<in> {16, 24, 32} \<and> cl_aesgcm_accepts C material then Inr material
      else Inl (SecretErr SECRET_MATERIAL_INVALID))"

text \<open>\<open>bytes.fromhex\<close> on text without white space, and \<open>base64.b64decode(s, validate=True)\<close> as
  \<open>binascii\<close> has it from Python 3.11: padding completes the last group and nothing follows it.\<close>

definition hex_digit :: "nat \<Rightarrow> nat option" where
  "hex_digit c =
     (if 48 \<le> c \<and> c \<le> 57 then Some (c - 48)
      else if 97 \<le> c \<and> c \<le> 102 then Some (c - 87)
      else if 65 \<le> c \<and> c \<le> 70 then Some (c - 55) else None)"

fun fromhex :: "codepoints \<Rightarrow> bytes option" where
  "fromhex [] = Some []"
| "fromhex [c] = None"
| "fromhex (c # d # cs) =
     (case (hex_digit c, hex_digit d) of
        (Some h, Some l) \<Rightarrow> map_option ((#) (byte_of (16 * h + l))) (fromhex cs)
      | _ \<Rightarrow> None)"

definition b64_digit :: "nat \<Rightarrow> nat option" where
  "b64_digit c =
     (if 65 \<le> c \<and> c \<le> 90 then Some (c - 65)
      else if 97 \<le> c \<and> c \<le> 122 then Some (c - 71)
      else if 48 \<le> c \<and> c \<le> 57 then Some (c + 4)
      else if c = 43 then Some 62 else if c = 47 then Some 63 else None)"

fun b64_groups :: "nat list \<Rightarrow> bytes" where
  "b64_groups (a # b # c # d # ds) =
     byte_of (4 * a + b div 16) # byte_of (b mod 16 * 16 + c div 4) # byte_of (c mod 4 * 64 + d) # b64_groups ds"
| "b64_groups [a, b, c] = [byte_of (4 * a + b div 16), byte_of (b mod 16 * 16 + c div 4)]"
| "b64_groups [a, b] = [byte_of (4 * a + b div 16)]"
| "b64_groups _ = []"

definition b64decode :: "codepoints \<Rightarrow> bytes option" where
  "b64decode s =
     (let digits = takeWhile (\<lambda>c. b64_digit c \<noteq> None) s; pad = drop (length digits) s in
      if list_all (\<lambda>c. c = 61) pad \<and> (digits = [] \<longrightarrow> pad = []) \<and>
         (length digits mod 4 = 0 \<or> length digits mod 4 = 2 \<and> length pad = 2 \<or>
          length digits mod 4 = 3 \<and> length pad = 1)
      then Some (b64_groups (map (\<lambda>c. the (b64_digit c)) digits)) else None)"

text \<open>\<open>"".join(s.split())\<close>: \<open>split\<close> also takes the separators U+001C to U+001F for white space.\<close>

definition drop_spaces :: "codepoints \<Rightarrow> codepoints" where
  "drop_spaces s = filter (\<lambda>c. c \<notin> set int_spaces \<and> c \<notin> {28, 29, 30, 31}) s"

definition explicit_or_none :: "bytes \<Rightarrow> string \<Rightarrow> bytes option" where
  "explicit_or_none raw encoding =
     (if list_all (\<lambda>b. unat b < 128) raw then
        let stripped = drop_spaces (map unat raw) in
        if stripped = [] then None
        else if encoding = ''hex'' then fromhex stripped else b64decode stripped
      else None)"

definition legacy_or_none :: "bytes \<Rightarrow> bytes option" where
  "legacy_or_none raw =
     (case utf8_decode raw of
        None \<Rightarrow> None
      | Some chars \<Rightarrow>
          let stripped = drop_spaces chars in
          if stripped = [] then None
          else case fromhex stripped of Some b \<Rightarrow> Some b | None \<Rightarrow> b64decode stripped)"

definition bad_encoding_for :: "requirement \<Rightarrow> secret_exn" where
  "bad_encoding_for req =
     (if req = MASK_ROOT_V1 then SecretErr BAD_SECRET_REF else SecretErr SECRET_MATERIAL_INVALID)"

definition decode_material :: "bytes \<Rightarrow> string option \<Rightarrow> requirement \<Rightarrow> secret_exn + bytes" where
  "decode_material raw encoding req =
     (if encoding = Some ''raw'' then Inr raw
      else if encoding = None \<and> \<not> legacy_decoding req then Inl (SecretErr BAD_SECRET_REF)
      else of_option (bad_encoding_for req)
        (case encoding of None \<Rightarrow> legacy_or_none raw | Some e \<Rightarrow> explicit_or_none raw e))"

definition ALWAYS_KEYED_STRATEGIES :: "string list" where
  "ALWAYS_KEYED_STRATEGIES =
     [''fpe'', ''hash'', ''date_shift'', ''shuffle'', ''bucket_perturb'', ''text_mask'', ''code_set'',
      ''grouped_series'', ''windowed_date'', ''group_key'', ''joint_mask'', ''tokenize'']"

definition KNOWN_UNKEYED_STRATEGIES :: "string list" where
  "KNOWN_UNKEYED_STRATEGIES =
     [''bucketize'', ''categorical'', ''derived'', ''derived_aggregate'', ''faker'', ''formula'',
      ''from_parent'', ''geo_generalize'', ''passthrough'', ''redact'', ''text_redact'', ''top_code'', ''truncate'']"

text \<open>\<open>v in frozenset\<close>: a list or dictionary is unhashable.\<close>

fun in_names :: "cfg \<Rightarrow> string list \<Rightarrow> secret_exn + bool" where
  "in_names (CList xs) names = Inl ForeignExn"
| "in_names (CDict d) names = Inl ForeignExn"
| "in_names (CStr s) names = Inr (s \<in> set names)"
| "in_names _ names = Inr False"

definition column_is_keyed :: "cfg \<Rightarrow> bool \<Rightarrow> bool \<Rightarrow> config \<Rightarrow> secret_exn + bool" where
  "column_is_keyed strategy deterministic vault provider_config =
     (if vault \<or> deterministic then Inr True
      else and_then (in_names strategy ALWAYS_KEYED_STRATEGIES) (\<lambda>always.
        if always then Inr True
        else if strategy = CStr ''nested'' then
          let child = cfg_get provider_config ''strategy'' CNull;
              child_det = (case cfg_get provider_config ''strategy_config'' CNull of
                  CDict d \<Rightarrow> cfg_truthy (cfg_get d ''deterministic'' CNull) | _ \<Rightarrow> False) in
          if child = CStr ''nested'' then Inr True
          else and_then (in_names child ALWAYS_KEYED_STRATEGIES) (\<lambda>child_always.
            if child_always \<or> child_det then Inr True
            else and_then (in_names child KNOWN_UNKEYED_STRATEGIES) (\<lambda>known. Inr (\<not> known)))
        else and_then (in_names strategy KNOWN_UNKEYED_STRATEGIES) (\<lambda>known. Inr (\<not> known))))"

fun cfg_len :: "cfg \<Rightarrow> nat option" where
  "cfg_len (CStr s) = Some (length s)"
| "cfg_len (CList xs) = Some (length xs)"
| "cfg_len (CDict d) = Some (length d)"
| "cfg_len _ = None"

text \<open>The column of one configuration entry, and \<open>any\<close> over a list with the early return.\<close>

definition config_column_keyed :: "cfg \<Rightarrow> secret_exn + bool" where
  "config_column_keyed col =
     (case col of
        CDict c \<Rightarrow> column_is_keyed (cfg_get c ''strategy'' CNull)
          (cfg_truthy (cfg_get c ''deterministic'' CNull) \<or> cfg_truthy (cfg_get c ''allow_collisions'' CNull))
          (cfg_truthy (cfg_get c ''vault'' CNull))
          (case cfg_get c ''provider_config'' CNull of CDict p \<Rightarrow> p | _ \<Rightarrow> [])
      | _ \<Rightarrow> Inr False)"

fun any_result :: "('a \<Rightarrow> 'e + bool) \<Rightarrow> 'a list \<Rightarrow> 'e + bool" where
  "any_result f [] = Inr False"
| "any_result f (x # xs) = and_then (f x) (\<lambda>b. if b then Inr True else any_result f xs)"

definition config_table_keyed :: "cfg \<Rightarrow> secret_exn + bool" where
  "config_table_keyed tbl =
     (case tbl of
        CDict t \<Rightarrow>
          if cfg_truthy (cfg_get t ''generate_columns'' CNull) then Inr False
          else and_then (of_option ForeignExn (cfg_iter (cfg_or_empty (cfg_get t ''columns'' CNull))))
            (any_result config_column_keyed)
      | _ \<Rightarrow> Inr False)"

definition config_rel_keyed :: "cfg \<Rightarrow> secret_exn + bool" where
  "config_rel_keyed rel =
     (case (case rel of CDict r \<Rightarrow> cfg_get r ''parent'' CNull | _ \<Rightarrow> CNull) of
        CDict parent \<Rightarrow>
          and_then (of_option ForeignExn (cfg_len (cfg_or_empty (cfg_get parent ''columns'' CNull)))) (\<lambda>n. Inr (1 < n))
      | _ \<Rightarrow> Inr True)"

definition secret_requirements_for_config :: "config \<Rightarrow> secret_exn + requirement list" where
  "secret_requirements_for_config config =
     and_then (of_option ForeignExn (cfg_iter (cfg_or_empty (cfg_get config ''tables'' CNull)))) (\<lambda>tables.
     and_then (any_result config_table_keyed tables) (\<lambda>keyed.
     if keyed then Inr [MASK_ROOT_V1]
     else and_then (of_option ForeignExn (cfg_iter (cfg_or_empty (cfg_get config ''relationships'' CNull)))) (\<lambda>rels.
       and_then (any_result config_rel_keyed rels) (\<lambda>keyed'. Inr (if keyed' then [MASK_ROOT_V1] else [])))))"

text \<open>The seed envelope of a compiled plan; theory \<open>Seed_Envelope\<close> builds it. A configuration value the
  code copies without reading it is kept as it is, and a float is its integer ratio.\<close>

record column_seed =
  cs_namespace :: cfg
  cs_strategy :: string
  cs_provider :: cfg
  cs_backend_type :: string
  cs_backend_version :: cfg
  cs_cardinality_mode :: string
  cs_deterministic :: bool
  cs_provider_config :: config
  cs_coherent_with :: "string list"
  cs_technique_class :: "string option"
  cs_when :: "string option"
  cs_distribution_behavior :: "string option"
  cs_ner_model_version :: "string option"
  cs_pool_size :: "int option"
  cs_scale :: "(int \<times> nat) option"
  cs_vault :: bool

record group_seed =
  gs_namespace :: string
  gs_coherent_columns :: "string list"

record table_seed =
  ts_per_column :: "(string \<times> column_seed) list"
  ts_per_group :: "(string \<times> group_seed) list"

record plan =
  pl_job_seed :: bytes
  pl_per_table :: "(string \<times> table_seed) list"

definition plan_column_keyed :: "column_seed \<Rightarrow> secret_exn + bool" where
  "plan_column_keyed seed =
     column_is_keyed (CStr (cs_strategy seed)) (cs_deterministic seed) (cs_vault seed) (cs_provider_config seed)"

definition secret_requirements_for_plan :: "plan \<Rightarrow> secret_exn + requirement list" where
  "secret_requirements_for_plan p =
     and_then (any_result (\<lambda>(_, table).
         if ts_per_group table \<noteq> [] then Inr True
         else any_result (\<lambda>(_, seed). plan_column_keyed seed) (ts_per_column table)) (pl_per_table p))
       (\<lambda>keyed. Inr (if keyed then [MASK_ROOT_V1] else []))"

definition plan_has_keyed_strategy :: "plan \<Rightarrow> secret_exn + bool" where
  "plan_has_keyed_strategy p = and_then (secret_requirements_for_plan p) (\<lambda>reqs. Inr (reqs \<noteq> []))"

definition require_mask_key :: "plan \<Rightarrow> key_provider option \<Rightarrow> secret_exn + bytes" where
  "require_mask_key p kp =
     and_then (plan_has_keyed_strategy p) (\<lambda>keyed.
     if \<not> keyed then (case kp of Some k \<Rightarrow> mask_key k | None \<Rightarrow> Inr (pl_job_seed p))
     else case kp of
        None \<Rightarrow> Inl (SecretErr KEYED_STRATEGY_REQUIRES_SECRET)
      | Some k \<Rightarrow>
          if is_seed_provider k then Inl (SecretErr KEYED_STRATEGY_REQUIRES_SECRET)
          else and_then (mask_key k) (\<lambda>m.
            if length m < MIN_SECRET_BYTES then Inl (SecretErr KEYED_STRATEGY_REQUIRES_SECRET) else Inr m))"

definition mask_key_from_provider :: "key_provider option \<Rightarrow> bytes \<Rightarrow> secret_exn + bytes" where
  "mask_key_from_provider kp job_seed = (case kp of Some k \<Rightarrow> mask_key k | None \<Rightarrow> Inr job_seed)"

section \<open>References\<close>

record secret_ref =
  sr_scheme :: string
  sr_locator :: string
  sr_version :: "string option"
  sr_field :: "string option"
  sr_encoding :: "string option"
  sr_key_version :: "string option"

definition ENCODINGS :: "string list" where "ENCODINGS = [''base64'', ''hex'', ''raw'']"

definition ascii_alpha :: "char \<Rightarrow> bool" where
  "ascii_alpha c \<longleftrightarrow> (let n = (of_char c :: nat) in (65 \<le> n \<and> n \<le> 90) \<or> (97 \<le> n \<and> n \<le> 122))"

definition scheme_char :: "char \<Rightarrow> bool" where
  "scheme_char c \<longleftrightarrow> ascii_alpha c \<or> is_digit c \<or> c \<in> {CHR ''+'', CHR ''.'', CHR ''-''}"

definition lower_char :: "char \<Rightarrow> char" where
  "lower_char c = (let n = (of_char c :: nat) in
     if (65 \<le> n \<and> n \<le> 90) \<or> (192 \<le> n \<and> n \<le> 222 \<and> n \<noteq> 215) then char_of (n + 32) else c)"

text \<open>\<open>_LOGICAL_VERSION_RE.match\<close>: \<open>$\<close> also matches before a final newline.\<close>

definition logical_version_char :: "char \<Rightarrow> bool" where
  "logical_version_char c \<longleftrightarrow> ascii_alpha c \<or> is_digit c \<or> c \<in> {CHR ''.'', CHR ''_'', CHR ''-''}"

definition logical_version_match :: "string \<Rightarrow> bool" where
  "logical_version_match s =
     (let body = (if s \<noteq> [] \<and> last s = char_of (10 :: nat) then butlast s else s) in
      case body of [] \<Rightarrow> False
      | c # cs \<Rightarrow> (ascii_alpha c \<or> is_digit c) \<and> list_all logical_version_char cs \<and> length cs \<le> 63)"

text \<open>\<open>urllib.parse.unquote\<close> after \<open>+\<close> has become a space; \<open>None\<close> when an escape gives a byte above 127
  (the text then has a character outside ASCII and fits no rule of the local grammar).\<close>

fun unquote_plus :: "string \<Rightarrow> string option" where
  "unquote_plus [] = Some []"
| "unquote_plus (c # cs) =
     (if c = CHR ''%'' then
        (case cs of
           a # b # rest \<Rightarrow>
             (case (hex_digit (of_char a), hex_digit (of_char b)) of
                (Some h, Some l) \<Rightarrow>
                  if 16 * h + l < 128 then map_option ((#) (char_of (16 * h + l))) (unquote_plus rest) else None
              | _ \<Rightarrow> map_option ((#) c) (unquote_plus cs))
         | _ \<Rightarrow> map_option ((#) c) (unquote_plus cs))
      else map_option ((#) (if c = CHR ''+'' then CHR '' '' else c)) (unquote_plus cs))"

text \<open>\<open>s.partition(c)\<close> when \<open>c\<close> occurs, and \<open>s.rpartition(c)\<close>.\<close>

definition partition_at :: "char \<Rightarrow> string \<Rightarrow> (string \<times> string) option" where
  "partition_at c s = (if c \<in> set s then Some (takeWhile (\<lambda>x. x \<noteq> c) s, tl (dropWhile (\<lambda>x. x \<noteq> c) s)) else None)"

definition rpartition_at :: "char \<Rightarrow> string \<Rightarrow> (string \<times> string) option" where
  "rpartition_at c s = map_option (\<lambda>(a, b). (rev b, rev a)) (partition_at c (rev s))"

text \<open>\<open>parse_qsl(query, keep_blank_values=True, strict_parsing=True)\<close>; \<open>Inl\<close> is \<open>ValueError\<close>.\<close>

definition parse_qsl :: "string \<Rightarrow> secret_exn + (string option \<times> string option) list" where
  "parse_qsl query =
     map_result (\<lambda>part. case partition_at (CHR ''='') part of
         None \<Rightarrow> Inl ForeignExn
       | Some (k, v) \<Rightarrow> Inr (unquote_plus k, unquote_plus v)) (py_split (CHR ''&'') query)"

text \<open>The loop over the query pairs; the state is \<open>(encoding, key_version)\<close>.\<close>

definition apply_query_pair ::
    "string option \<times> string option \<Rightarrow> string option \<times> string option \<Rightarrow> secret_exn + (string option \<times> string option)" where
  "apply_query_pair st kv =
     (if fst kv = Some ''encoding'' then
        (case snd kv of
           Some v \<Rightarrow> if v \<in> set ENCODINGS then Inr (Some v, snd st) else Inl (SecretErr BAD_SECRET_REF)
         | None \<Rightarrow> Inl (SecretErr BAD_SECRET_REF))
      else
        (case snd kv of
           Some v \<Rightarrow> if logical_version_match v then Inr (fst st, Some v) else Inl (SecretErr BAD_SECRET_REF)
         | None \<Rightarrow> Inl (SecretErr BAD_SECRET_REF)))"

definition parse_local :: "string \<Rightarrow> string \<Rightarrow> secret_exn + secret_ref" where
  "parse_local scheme rest =
     and_then (case rpartition_at (CHR ''?'') rest of
         Some (head, query) \<Rightarrow>
           if query \<noteq> [] \<and> CHR ''='' \<in> set query then
             and_then (parse_qsl query) (\<lambda>pairs.
             if pairs \<noteq> [] \<and> list_all (\<lambda>kv. fst kv = Some ''encoding'' \<or> fst kv = Some ''key_version'') pairs then
               if \<not> distinct (map fst pairs) then Inl (SecretErr BAD_SECRET_REF)
               else and_then (fold_result apply_query_pair (None, None) pairs) (\<lambda>st. Inr (head, st))
             else Inr (rest, None, None))
           else Inr (rest, None, None)
       | None \<Rightarrow> Inr (rest, None, None)) (\<lambda>(locator, encoding, version).
     if locator = [] then Inl (SecretErr BAD_SECRET_REF)
     else Inr \<lparr>sr_scheme = scheme, sr_locator = locator, sr_version = None, sr_field = None,
               sr_encoding = encoding, sr_key_version = version\<rparr>)"

text \<open>\<open>parse_ref\<close> on a value of the configuration; \<open>parse_vault\<close> is the grammar of \<open>vault://\<close>.\<close>

definition parse_ref :: "(string \<Rightarrow> secret_ref option) \<Rightarrow> cfg \<Rightarrow> secret_exn + secret_ref" where
  "parse_ref parse_vault v =
     (case v of
        CStr txt \<Rightarrow>
          if txt = [] \<or> char_of (0 :: nat) \<in> set txt \<or> \<not> ascii_alpha (hd txt) then Inl (SecretErr BAD_SECRET_REF)
          else let run = takeWhile scheme_char txt; after = dropWhile scheme_char txt in
            if after = [] \<or> hd after \<noteq> CHR '':'' then Inl (SecretErr BAD_SECRET_REF)
            else let scheme = map lower_char run in
              if scheme = ''vault'' then of_option (SecretErr BAD_SECRET_REF) (parse_vault txt)
              else on_error (\<lambda>_. SecretErr BAD_SECRET_REF) (parse_local scheme (tl after))
      | _ \<Rightarrow> Inl (SecretErr BAD_SECRET_REF))"

section \<open>Providers\<close>

record descriptor =
  ds_key_version :: string
  ds_renewable :: bool

record resolved =
  rv_buffer :: bytes
  rv_key_version :: string
  rv_expires_at :: "int option"

datatype provider_kind = EnvSecretProvider | FileSecretProvider | ExtensionProvider

text \<open>An extension's \<open>preflight\<close> is its own code when it is \<open>Some\<close>; the contract asks it to delegate to
  \<open>prepare_secret\<close>, as the built-in providers do.\<close>

record provider =
  pr_kind :: provider_kind
  pr_scheme :: string
  pr_describe :: "secret_ref \<Rightarrow> secret_exn + descriptor"
  pr_resolve :: "secret_ref \<Rightarrow> secret_exn + resolved"
  pr_preflight :: "(secret_ref \<Rightarrow> requirement list \<Rightarrow> secret_exn + secret) option"

text \<open>Failures of a file read, and an opened file: what \<open>fstat\<close> says and what reading gives.\<close>

datatype file_exn =
    FileAccessDenied | FileAccessUnavailable | FileMemoryError | FileOSError string | FileInterrupt interrupt | FileOtherExn

record opened =
  op_is_dir :: bool
  op_mode :: nat
  op_read :: "file_exn + bytes"

record host =
  ho_environ :: "string \<Rightarrow> codepoints option"
  ho_open :: "string \<Rightarrow> file_exn + opened"
  ho_ambient :: bool
  ho_posix :: bool
  ho_wall :: int
  ho_cache :: "secret_exn + secret \<Rightarrow> secret_exn + secret"
  ho_ttl :: nat
  ho_crypto :: crypto_lib
  ho_parse_vault :: "string \<Rightarrow> secret_ref option"

fun kept_kind :: "file_exn \<Rightarrow> string option" where
  "kept_kind FileAccessDenied = Some ''file_access_denied''"
| "kept_kind FileAccessUnavailable = Some ''file_access_unavailable''"
| "kept_kind FileMemoryError = Some ''memory''"
| "kept_kind (FileOSError errno) = (if errno \<in> {''enomem'', ''enospc'', ''edquot''} then Some errno else None)"
| "kept_kind (FileInterrupt i) = None"
| "kept_kind FileOtherExn = None"

text \<open>\<open>fileaccess.read_checked\<close> with the check \<open>_owner_only\<close>; \<open>Inl None\<close> is \<open>SecretFilePermissionsUnsafe\<close>.
  \<open>FileAccessDenied\<close> and \<open>FileAccessUnavailable\<close> are no \<open>OSError\<close>s.\<close>

definition group_or_other :: "nat \<Rightarrow> bool" where
  "group_or_other mode \<longleftrightarrow> mode mod 64 \<noteq> 0"

definition owner_only_read :: "host \<Rightarrow> string \<Rightarrow> file_exn option + bytes" where
  "owner_only_read H locator =
     and_then (on_error Some (ho_open H locator)) (\<lambda>f.
     if op_is_dir f then Inl (Some (FileOSError ''eisdir''))
     else if ho_posix H \<and> group_or_other (op_mode f) then Inl None
     else on_error Some (op_read f))"

definition file_read :: "host \<Rightarrow> secret_ref \<Rightarrow> secret_exn + bytes" where
  "file_read H ref =
     (case owner_only_read H (sr_locator ref) of
        Inr b \<Rightarrow> Inr b
      | Inl None \<Rightarrow> Inl (SecretErr SECRET_FILE_PERMISSIONS_UNSAFE)
      | Inl (Some exn) \<Rightarrow>
          (case (if ho_ambient H then None else kept_kind exn) of
             Some kind \<Rightarrow> Inl (KeptFileFailure kind)
           | None \<Rightarrow>
               (case exn of
                  FileOSError e \<Rightarrow> Inl (SecretErr MISSING_MASK_SECRET)
                | FileInterrupt i \<Rightarrow> Inl (Interrupt i)
                | _ \<Rightarrow> Inl ForeignExn)))"

definition env_read :: "host \<Rightarrow> secret_ref \<Rightarrow> secret_exn + bytes" where
  "env_read H ref =
     (case ho_environ H (sr_locator ref) of
        None \<Rightarrow> Inl (SecretErr MISSING_MASK_SECRET)
      | Some text \<Rightarrow> of_option ForeignExn (utf8_encode text))"

definition ref_key_version :: "secret_ref \<Rightarrow> string" where
  "ref_key_version ref = (case sr_key_version ref of Some v \<Rightarrow> if v = [] then ''v1'' else v | None \<Rightarrow> ''v1'')"

definition local_describe :: "secret_ref \<Rightarrow> secret_exn + descriptor" where
  "local_describe ref = Inr \<lparr>ds_key_version = ref_key_version ref, ds_renewable = False\<rparr>"

definition local_resolve :: "(secret_ref \<Rightarrow> secret_exn + bytes) \<Rightarrow> secret_ref \<Rightarrow> secret_exn + resolved" where
  "local_resolve read ref =
     and_then (read ref) (\<lambda>b. Inr \<lparr>rv_buffer = b, rv_key_version = ref_key_version ref, rv_expires_at = None\<rparr>)"

definition env_provider :: "host \<Rightarrow> provider" where
  "env_provider H = \<lparr>pr_kind = EnvSecretProvider, pr_scheme = ''env'', pr_describe = local_describe,
     pr_resolve = local_resolve (env_read H), pr_preflight = None\<rparr>"

definition file_provider :: "host \<Rightarrow> provider" where
  "file_provider H = \<lparr>pr_kind = FileSecretProvider, pr_scheme = ''file'', pr_describe = local_describe,
     pr_resolve = local_resolve (file_read H), pr_preflight = None\<rparr>"

text \<open>The registry: schemes in registration order. \<open>register\<close> refuses a duplicate or non-lowercase scheme.\<close>

definition register :: "(string \<times> provider) list \<Rightarrow> provider \<Rightarrow> secret_exn + (string \<times> provider) list" where
  "register reg p =
     (let scheme = pr_scheme p in
      if scheme = [] \<or> scheme \<noteq> map lower_char scheme then Inl ForeignExn
      else if map_of reg scheme \<noteq> None then Inl ForeignExn
      else Inr (reg @ [(scheme, p)]))"

definition registry_get :: "(string \<times> provider) list \<Rightarrow> string \<Rightarrow> secret_exn + provider" where
  "registry_get reg scheme = of_option (SecretErr SECRET_PROVIDER_UNKNOWN) (map_of reg scheme)"

definition default_registry :: "host \<Rightarrow> (string \<times> provider) list" where
  "default_registry H = [(''env'', env_provider H), (''file'', file_provider H)]"

section \<open>Preparation and admission\<close>

text \<open>\<open>_derive\<close>: the mask root's output wins, else the first requirement's.\<close>

definition derive_step ::
    "crypto_lib \<Rightarrow> bytes \<Rightarrow> string \<Rightarrow> bytes option \<Rightarrow> requirement \<Rightarrow> secret_exn + bytes option" where
  "derive_step C material version derived req =
     and_then (requirement_prepare C req material version) (\<lambda>out.
     Inr (if derived = None \<or> req = MASK_ROOT_V1 then Some out else derived))"

definition derive_key :: "crypto_lib \<Rightarrow> bytes \<Rightarrow> requirement list \<Rightarrow> string \<Rightarrow> secret_exn + bytes" where
  "derive_key C material reqs version =
     and_then (fold_result (derive_step C material version) None reqs) (of_option (SecretErr SECRET_PROVIDER_UNAVAILABLE))"

definition load_secret :: "host \<Rightarrow> provider \<Rightarrow> secret_ref \<Rightarrow> requirement list \<Rightarrow> secret_exn + secret" where
  "load_secret H p ref reqs =
     and_then (pr_describe p ref) (\<lambda>d.
     if ds_renewable d then Inl (SecretErr SECRET_LEASE_UNSUPPORTED)
     else and_then (pr_resolve p ref) (\<lambda>r.
       if rv_key_version r \<noteq> ds_key_version d then Inl (SecretErr SECRET_VERSION_UNAVAILABLE)
       else if (case rv_expires_at r of Some t \<Rightarrow> t \<le> ho_wall H | None \<Rightarrow> False) then Inl (SecretErr SECRET_EXPIRED)
       else and_then (decode_material (rv_buffer r) (sr_encoding ref) (hd reqs)) (\<lambda>material.
         and_then (derive_key (ho_crypto H) material reqs (ds_key_version d)) (\<lambda>k.
         Inr \<lparr>se_material = k, se_key_version = ds_key_version d, se_requirement_ids = map requirement_id reqs,
              se_expires_at = rv_expires_at r\<rparr>))))"

text \<open>\<open>_file_provider_only\<close>: only the built-in file provider may hand over a kept file failure.\<close>

definition file_provider_only :: "provider \<Rightarrow> secret_exn + 'a \<Rightarrow> secret_exn + 'a" where
  "file_provider_only p r =
     on_error (\<lambda>e. case e of
         KeptFileFailure k \<Rightarrow> if pr_kind p = FileSecretProvider then e else SecretErr SECRET_PROVIDER_UNAVAILABLE
       | _ \<Rightarrow> e) r"

definition is_local :: "provider \<Rightarrow> bool" where
  "is_local p \<longleftrightarrow> pr_kind p = EnvSecretProvider \<or> pr_kind p = FileSecretProvider \<or> pr_scheme p \<in> {''env'', ''file''}"

definition prepare_secret ::
    "bool \<Rightarrow> host \<Rightarrow> provider \<Rightarrow> secret_ref \<Rightarrow> requirement list \<Rightarrow> secret_exn + secret" where
  "prepare_secret outermost H p ref reqs =
     call_closed outermost
       (if reqs = [] then Inl (SecretErr SECRET_PROVIDER_UNAVAILABLE)
        else let loaded = file_provider_only p (load_secret H p ref reqs) in
          if 0 < ho_ttl H \<and> \<not> is_local p then ho_cache H loaded else loaded)"

definition preflight :: "bool \<Rightarrow> host \<Rightarrow> provider \<Rightarrow> secret_ref \<Rightarrow> requirement list \<Rightarrow> secret_exn + secret" where
  "preflight outermost H p ref reqs =
     (case pr_preflight p of
        Some f \<Rightarrow> f ref reqs
      | None \<Rightarrow> prepare_secret outermost H p ref reqs)"

definition load_legacy :: "key_provider \<Rightarrow> requirement list \<Rightarrow> secret_exn + secret" where
  "load_legacy kp reqs =
     (if is_seed_provider kp \<or> \<not> list_all (\<lambda>r. r = MASK_ROOT_V1) reqs
      then Inl (SecretErr KEYED_STRATEGY_REQUIRES_SECRET)
      else and_then (mask_key kp) (\<lambda>k.
        if length k < MIN_SECRET_BYTES then Inl (SecretErr KEYED_STRATEGY_REQUIRES_SECRET)
        else Inr \<lparr>se_material = k, se_key_version = key_version kp, se_requirement_ids = map requirement_id reqs,
                  se_expires_at = None\<rparr>))"

definition prepare_legacy :: "key_provider \<Rightarrow> requirement list \<Rightarrow> secret_exn + secret" where
  "prepare_legacy kp reqs = call_closed True (load_legacy kp reqs)"

text \<open>\<open>_ref_boxed\<close>, behind \<open>prepare_ref\<close> and \<open>key_provider_from_ref\<close>.\<close>

definition prepare_ref :: "host \<Rightarrow> (string \<times> provider) list \<Rightarrow> cfg \<Rightarrow> string option \<Rightarrow> secret_exn + secret" where
  "prepare_ref H reg ref_text version =
     call_closed True
       (and_then (parse_ref (ho_parse_vault H) ref_text) (\<lambda>ref.
        let ref' = (case version of None \<Rightarrow> ref | Some v \<Rightarrow> ref\<lparr>sr_key_version := Some v\<rparr>) in
        and_then (registry_get reg (sr_scheme ref')) (\<lambda>p.
        file_provider_only p (preflight False H p ref' [MASK_ROOT_V1]))))"

definition key_provider_from_ref :: "host \<Rightarrow> (string \<times> provider) list \<Rightarrow> cfg \<Rightarrow> string option \<Rightarrow> secret_exn + key_provider" where
  "key_provider_from_ref H reg ref_text version =
     and_then (prepare_ref H reg ref_text version) (\<lambda>s. Inr (PreparedKeyProvider s))"

record admitted =
  ak_key_provider :: "key_provider option"
  ak_prepared :: "secret option"
  ak_requirements :: "requirement list"

definition mask_secret_ref :: "config \<Rightarrow> secret_exn + cfg" where
  "mask_secret_ref config =
     (let gs = cfg_get config ''global_settings'' CNull in
      if \<not> cfg_truthy gs then Inr CNull
      else case gs of CDict d \<Rightarrow> Inr (cfg_get d ''mask_secret_ref'' CNull) | _ \<Rightarrow> Inl ForeignExn)"

definition admit_boxed ::
    "host \<Rightarrow> (string \<times> provider) list \<Rightarrow> config \<Rightarrow> key_provider option \<Rightarrow> secret_exn + admitted" where
  "admit_boxed H reg config kp =
     and_then (secret_requirements_for_config config) (\<lambda>reqs.
     and_then (mask_secret_ref config) (\<lambda>ref_text.
     case kp of
       Some k \<Rightarrow>
         if reqs = [] then Inr \<lparr>ak_key_provider = Some k, ak_prepared = None, ak_requirements = []\<rparr>
         else and_then (load_legacy k reqs) (\<lambda>prepared.
           Inr \<lparr>ak_key_provider = Some (PreparedKeyProvider prepared), ak_prepared = Some prepared, ak_requirements = reqs\<rparr>)
     | None \<Rightarrow>
         if \<not> cfg_truthy ref_text then
           if reqs \<noteq> [] then Inl (SecretErr KEYED_STRATEGY_REQUIRES_SECRET)
           else Inr \<lparr>ak_key_provider = None, ak_prepared = None, ak_requirements = []\<rparr>
         else let reqs' = (if reqs = [] then [MASK_ROOT_V1] else reqs) in
           and_then (parse_ref (ho_parse_vault H) ref_text) (\<lambda>ref.
           and_then (registry_get reg (sr_scheme ref)) (\<lambda>p.
           and_then (file_provider_only p (preflight False H p ref reqs')) (\<lambda>prepared.
           Inr \<lparr>ak_key_provider = Some (PreparedKeyProvider prepared), ak_prepared = Some prepared, ak_requirements = reqs'\<rparr>)))))"

definition admit_mask_key ::
    "host \<Rightarrow> (string \<times> provider) list \<Rightarrow> config \<Rightarrow> key_provider option \<Rightarrow> secret_exn + admitted" where
  "admit_mask_key H reg config kp = call_closed True (admit_boxed H reg config kp)"

definition assert_plan_requirements_admitted :: "plan \<Rightarrow> admitted \<Rightarrow> secret_exn + unit" where
  "assert_plan_requirements_admitted p adm =
     and_then (secret_requirements_for_plan p) (\<lambda>reqs.
     require (\<not> (reqs \<noteq> [] \<and> ak_requirements adm = [])) (SecretErr KEYED_STRATEGY_REQUIRES_SECRET))"

section \<open>What admission guarantees\<close>

lemma any_result_True: "any_result f xs = Inr True \<Longrightarrow> \<exists>x \<in> set xs. f x = Inr True"
  by (induction xs) (auto simp: result_simps split: if_splits)

lemma any_result_False: "any_result f xs = Inr False \<longleftrightarrow> (\<forall>x \<in> set xs. f x = Inr False)"
  by (induction xs) (auto simp: result_simps split: if_splits)

lemma config_requirements_cases:
  "secret_requirements_for_config config = Inr reqs \<Longrightarrow> reqs = [] \<or> reqs = [MASK_ROOT_V1]"
  by (auto simp: secret_requirements_for_config_def result_simps split: if_splits)

lemma contained_cases:
  "contained (Inr x) = Inr (Inr x)"
  "contained (Inl (Interrupt i)) = Inl (Interrupt i)"
  "(\<And>i. e \<noteq> Interrupt i) \<Longrightarrow> contained (Inl e) = Inr (Inl (failure_of e))"
  by (auto simp: contained_def split: secret_exn.split)

lemma call_closed_cases:
  "call_closed outermost (Inr x) = Inr x"
  "call_closed outermost (Inl (Interrupt i)) = Inl (Interrupt i)"
  "(\<And>i. e \<noteq> Interrupt i) \<Longrightarrow> call_closed outermost (Inl e) = Inl (rebuilt outermost (failure_of e))"
  by (simp_all add: call_closed_def contained_cases)

lemma call_closed_Inr [result_simps]: "call_closed outermost r = Inr x \<longleftrightarrow> r = Inr x"
proof (cases r)
  case (Inl e)
  then show ?thesis
    by (cases "\<exists>i. e = Interrupt i") (auto simp: call_closed_cases)
qed (simp add: call_closed_cases)

lemma rebuilt_not_Interrupt: "rebuilt outermost f \<noteq> Interrupt i"
  by (cases f) auto

lemma call_closed_Interrupt: "call_closed outermost r = Inl (Interrupt i) \<longleftrightarrow> r = Inl (Interrupt i)"
proof (cases r)
  case (Inl e)
  then show ?thesis
    by (cases "\<exists>j. e = Interrupt j") (auto simp: call_closed_cases rebuilt_not_Interrupt)
qed (simp add: call_closed_cases)

lemma file_provider_only_Inr [result_simps]: "file_provider_only p r = Inr x \<longleftrightarrow> r = Inr x"
  by (simp add: file_provider_only_def result_simps)

lemma mask_root_32: "mask_root material version = Inr k \<Longrightarrow> length k = 32"
  using hkdf_expand_total
  by (auto simp: mask_root_def hkdf_sha256_def result_simps hkdf_extract_def hkdf_expand_def HASH_LEN_def)

text \<open>What the two built-in providers read: the variable of an \<open>env\<close> reference, or the bytes of a
  \<open>file\<close> reference that no other user may touch.\<close>

definition secret_source :: "host \<Rightarrow> secret_ref \<Rightarrow> bytes \<Rightarrow> bool" where
  "secret_source H ref raw \<longleftrightarrow>
     sr_scheme ref = ''env'' \<and> (\<exists>t. ho_environ H (sr_locator ref) = Some t \<and> utf8_encode t = Some raw) \<or>
     sr_scheme ref = ''file'' \<and> (\<exists>f. ho_open H (sr_locator ref) = Inr f \<and> \<not> op_is_dir f \<and>
       (ho_posix H \<longrightarrow> \<not> group_or_other (op_mode f)) \<and> op_read f = Inr raw)"

lemma env_read_Inr:
  "env_read H ref = Inr raw \<longleftrightarrow> (\<exists>t. ho_environ H (sr_locator ref) = Some t \<and> utf8_encode t = Some raw)"
  by (auto simp: env_read_def result_simps split: option.splits)

lemma file_read_Inr:
  "file_read H ref = Inr raw \<longleftrightarrow> (\<exists>f. ho_open H (sr_locator ref) = Inr f \<and> \<not> op_is_dir f \<and>
     (ho_posix H \<longrightarrow> \<not> group_or_other (op_mode f)) \<and> op_read f = Inr raw)"
proof -
  have "file_read H ref = Inr raw \<longleftrightarrow> owner_only_read H (sr_locator ref) = Inr raw"
    by (auto simp: file_read_def split: sum.splits option.splits file_exn.splits)
  then show ?thesis
    by (auto simp: owner_only_read_def and_then_eq_Inr on_error_eq_Inr)
qed

lemma local_resolve_Inr:
  "local_resolve rd ref = Inr r \<longleftrightarrow> (\<exists>raw. rd ref = Inr raw \<and>
     r = \<lparr>rv_buffer = raw, rv_key_version = ref_key_version ref, rv_expires_at = None\<rparr>)"
  by (auto simp: local_resolve_def result_simps)

lemma default_registry_get:
  assumes "registry_get (default_registry H) (sr_scheme ref) = Inr p" "preflight b H p ref [MASK_ROOT_V1] = Inr s"
  shows "\<exists>raw material. secret_source H ref raw \<and> decode_material raw (sr_encoding ref) MASK_ROOT_V1 = Inr material \<and>
    32 \<le> length material \<and> mask_root material (ref_key_version ref) = Inr (se_material s)"
proof -
  have p: "sr_scheme ref = ''env'' \<and> p = env_provider H \<or> sr_scheme ref = ''file'' \<and> p = file_provider H"
    using assms(1) by (auto simp: registry_get_def default_registry_def result_simps split: if_splits)
  then have "load_secret H p ref [MASK_ROOT_V1] = Inr s"
    using assms(2) by (auto simp: preflight_def prepare_secret_def env_provider_def file_provider_def is_local_def
        result_simps Let_def)
  moreover have "pr_describe p ref = Inr \<lparr>ds_key_version = ref_key_version ref, ds_renewable = False\<rparr>"
    using p by (auto simp: env_provider_def file_provider_def local_describe_def)
  ultimately obtain r material where r: "pr_resolve p ref = Inr r"
      "decode_material (rv_buffer r) (sr_encoding ref) MASK_ROOT_V1 = Inr material"
      "derive_key (ho_crypto H) material [MASK_ROOT_V1] (ref_key_version ref) = Inr (se_material s)"
    by (auto simp: load_secret_def and_then_eq_Inr simp del: requirement_prepare.simps split: if_splits)
  have "secret_source H ref (rv_buffer r)"
    using p r(1) by (auto simp: secret_source_def env_provider_def file_provider_def local_resolve_Inr env_read_Inr file_read_Inr)
  moreover have "32 \<le> length material \<and> mask_root material (ref_key_version ref) = Inr (se_material s)"
    using r(3) by (auto simp: derive_key_def derive_step_def secret_key_provider_def MIN_SECRET_BYTES_def result_simps
        split: if_splits)
  ultimately show ?thesis
    using r(2) by blast
qed

text \<open>C11. Keyed work runs on a real secret. When admission of a configuration with keyed columns
  succeeds under the built-in providers, the run's key is the key of the caller's provider, which is
  not the job-seed provider and gives at least 32 bytes; or, without a caller's provider, it is the
  32-byte HKDF mask root of at least 32 bytes decoded from the referenced environment variable or from
  a file no other user may access.\<close>

theorem keyed_work_has_secret:
  assumes "secret_requirements_for_config config = Inr reqs" "reqs \<noteq> []"
    and "admit_mask_key H (default_registry H) config kp = Inr adm"
  shows "\<exists>s. ak_key_provider adm = Some (PreparedKeyProvider s) \<and> MIN_SECRET_BYTES \<le> length (se_material s) \<and>
    (case kp of
       Some p \<Rightarrow> \<not> is_seed_provider p \<and> mask_key p = Inr (se_material s)
     | None \<Rightarrow> \<exists>rt ref raw material. mask_secret_ref config = Inr rt \<and> parse_ref (ho_parse_vault H) rt = Inr ref \<and>
         secret_source H ref raw \<and> decode_material raw (sr_encoding ref) MASK_ROOT_V1 = Inr material \<and>
         MIN_SECRET_BYTES \<le> length material \<and> mask_root material (ref_key_version ref) = Inr (se_material s))"
proof -
  have reqs: "reqs = [MASK_ROOT_V1]"
    using config_requirements_cases [OF assms(1)] assms(2) by simp
  obtain rt where rt: "mask_secret_ref config = Inr rt"
    using assms by (auto simp: admit_mask_key_def admit_boxed_def result_simps)
  show ?thesis
  proof (cases kp)
    case (Some p)
    then show ?thesis
      using assms(1,3) rt reqs
      by (auto simp: admit_mask_key_def admit_boxed_def load_legacy_def result_simps split: if_splits)
  next
    case None
    obtain ref p s where ref: "parse_ref (ho_parse_vault H) rt = Inr ref"
        and p: "registry_get (default_registry H) (sr_scheme ref) = Inr p" "preflight False H p ref [MASK_ROOT_V1] = Inr s"
        and s: "ak_key_provider adm = Some (PreparedKeyProvider s)"
      using assms(1,3) rt reqs None
      by (auto simp: admit_mask_key_def admit_boxed_def result_simps Let_def split: if_splits)
    show ?thesis
      using default_registry_get [OF p] ref s rt None mask_root_32
      by (force simp: MIN_SECRET_BYTES_def)
  qed
qed

section \<open>Errors that leave admission\<close>

lemma fold_result_Inl: "fold_result f s xs = Inl e \<Longrightarrow> \<exists>t x. x \<in> set xs \<and> f t x = Inl e"
proof (induction xs arbitrary: s)
  case Nil
  then show ?case by simp
next
  case (Cons x xs)
  show ?case
  proof (cases "f s x")
    case (Inl e')
    then show ?thesis using Cons.prems by auto
  next
    case (Inr s')
    then show ?thesis using Cons.IH [of s'] Cons.prems by auto
  qed
qed

lemma any_result_Inl: "any_result f xs = Inl e \<Longrightarrow> \<exists>x \<in> set xs. f x = Inl e"
  by (induction xs) (auto simp: result_simps split: if_splits)

lemma in_names_Inl: "in_names v names = Inl e \<Longrightarrow> e = ForeignExn"
  by (cases v) auto

lemma column_is_keyed_Inl: "column_is_keyed st det va pc = Inl e \<Longrightarrow> e = ForeignExn"
  by (auto simp: column_is_keyed_def Let_def result_simps split: if_splits dest: in_names_Inl)

lemma config_keyed_Inl:
  "config_column_keyed c = Inl e \<Longrightarrow> e = ForeignExn"
  "config_table_keyed c = Inl e \<Longrightarrow> e = ForeignExn"
  "config_rel_keyed c = Inl e \<Longrightarrow> e = ForeignExn"
proof -
  show col: "config_column_keyed c = Inl e \<Longrightarrow> e = ForeignExn" for c
    by (auto simp: config_column_keyed_def split: cfg.splits dest: column_is_keyed_Inl)
  show "config_table_keyed c = Inl e \<Longrightarrow> e = ForeignExn"
    by (auto simp: config_table_keyed_def result_simps split: cfg.splits if_splits dest!: any_result_Inl col)
  show "config_rel_keyed c = Inl e \<Longrightarrow> e = ForeignExn"
    by (auto simp: config_rel_keyed_def result_simps split: cfg.splits)
qed

lemma requirements_Inl: "secret_requirements_for_config config = Inl e \<Longrightarrow> e = ForeignExn"
  by (auto simp: secret_requirements_for_config_def result_simps split: if_splits dest!: any_result_Inl config_keyed_Inl)

lemma parse_ref_Inl: "parse_ref pv v = Inl e \<Longrightarrow> e = SecretErr BAD_SECRET_REF"
  by (cases v) (auto simp: parse_ref_def Let_def result_simps split: if_splits)

lemma kept_failure: "failure_of e = FailKept k \<longleftrightarrow> e = KeptFileFailure k \<and> k \<in> set KEPT_FILE_FAILURES"
  by (cases e) auto

lemma call_closed_Kept: "call_closed False r = Inl (KeptFileFailure k) \<longleftrightarrow>
    r = Inl (KeptFileFailure k) \<and> k \<in> set KEPT_FILE_FAILURES"
proof (cases r)
  case (Inl e)
  have kept: "rebuilt False f = KeptFileFailure k \<longleftrightarrow> f = FailKept k" for f
    by (cases f) auto
  show ?thesis
  proof (cases "\<exists>i. e = Interrupt i")
    case True
    then show ?thesis using Inl by (elim exE) (simp add: call_closed_cases)
  next
    case False
    then have "call_closed False r = Inl (rebuilt False (failure_of e))"
      using Inl call_closed_cases(3) by blast
    then show ?thesis using Inl by (simp add: kept kept_failure)
  qed
qed (simp add: call_closed_cases)

lemma file_provider_only_Interrupt: "file_provider_only p r = Inl (Interrupt i) \<longleftrightarrow> r = Inl (Interrupt i)"
proof (cases r)
  case (Inl e)
  then show ?thesis
    by (cases e) (auto simp: file_provider_only_def)
qed (simp add: file_provider_only_def)

lemma file_provider_only_Kept: "file_provider_only p r = Inl (KeptFileFailure k) \<longleftrightarrow>
    r = Inl (KeptFileFailure k) \<and> pr_kind p = FileSecretProvider"
proof (cases r)
  case (Inl e)
  then show ?thesis
    by (cases e) (auto simp: file_provider_only_def)
qed (simp add: file_provider_only_def)

lemma mask_key_Kept: "mask_key kp = Inl (KeptFileFailure k) \<Longrightarrow> \<exists>v. kp = CustomKeyProvider (Inl (KeptFileFailure k)) v"
  by (cases kp) (auto simp: mask_root_def result_simps)

lemma requirement_prepare_Inl: "requirement_prepare C req material version \<noteq> Inl (KeptFileFailure k)"
  by (cases req) (auto simp: result_simps secret_key_provider_def Let_def mask_root_def split: if_splits)

lemma load_secret_file_Kept:
  assumes "load_secret H (file_provider H) ref reqs = Inl (KeptFileFailure k)"
  shows "\<not> ho_ambient H \<and> (\<exists>exn. owner_only_read H (sr_locator ref) = Inl (Some exn) \<and> kept_kind exn = Some k)"
proof -
  have dec: "decode_material raw enc req \<noteq> Inl (KeptFileFailure k)" for raw enc req
    by (auto simp: decode_material_def bad_encoding_for_def result_simps)
  have der: "derive_key C material reqs version \<noteq> Inl (KeptFileFailure k)" for C material version
    using requirement_prepare_Inl by (auto simp: derive_key_def derive_step_def result_simps dest!: fold_result_Inl)
  have "local_resolve (file_read H) ref = Inl (KeptFileFailure k)"
    using assms dec der
    by (auto simp: load_secret_def file_provider_def local_describe_def and_then_eq_Inl split: if_splits)
  then have "file_read H ref = Inl (KeptFileFailure k)"
    by (auto simp: local_resolve_def result_simps)
  then show ?thesis
    by (auto simp: file_read_def split: sum.splits option.splits file_exn.splits if_splits)
qed

text \<open>Where an interrupt can reach admission from: the \<open>mask_key\<close> of the caller's provider, when the
  configuration is keyed, or the \<open>preflight\<close> of the provider the reference names.\<close>

definition interrupted ::
    "host \<Rightarrow> (string \<times> provider) list \<Rightarrow> config \<Rightarrow> key_provider option \<Rightarrow> interrupt \<Rightarrow> bool" where
  "interrupted H reg config kp i \<longleftrightarrow>
     (\<exists>reqs rt. secret_requirements_for_config config = Inr reqs \<and> mask_secret_ref config = Inr rt \<and>
        (case kp of
           Some k \<Rightarrow> reqs \<noteq> [] \<and> (\<exists>v. k = CustomKeyProvider (Inl (Interrupt i)) v)
         | None \<Rightarrow> cfg_truthy rt \<and> (\<exists>ref p. parse_ref (ho_parse_vault H) rt = Inr ref \<and>
             registry_get reg (sr_scheme ref) = Inr p \<and>
             preflight False H p ref (if reqs = [] then [MASK_ROOT_V1] else reqs) = Inl (Interrupt i))))"

lemma mask_key_Interrupt: "mask_key k = Inl (Interrupt i) \<longleftrightarrow> (\<exists>v. k = CustomKeyProvider (Inl (Interrupt i)) v)"
  by (cases k) (auto simp: mask_root_def result_simps)

lemma load_legacy_Interrupt:
  "load_legacy k [MASK_ROOT_V1] = Inl (Interrupt i) \<longleftrightarrow> (\<exists>v. k = CustomKeyProvider (Inl (Interrupt i)) v)"
  by (auto simp: load_legacy_def result_simps mask_key_Interrupt split: if_splits)

lemma mask_secret_ref_Inl: "mask_secret_ref config = Inl e \<Longrightarrow> e = ForeignExn"
  by (auto simp: mask_secret_ref_def Let_def split: if_splits cfg.splits)

lemma registry_get_Inl: "registry_get reg scheme = Inl e \<Longrightarrow> e = SecretErr SECRET_PROVIDER_UNKNOWN"
  by (auto simp: registry_get_def of_option_eq_Inl)

text \<open>The two calls of admission that run code of others.\<close>

lemma admit_boxed_provider:
  assumes "secret_requirements_for_config config = Inr reqs" "mask_secret_ref config = Inr rt"
    and "\<And>c. e \<noteq> SecretErr c"
  shows "admit_boxed H reg config (Some k) = Inl e \<longleftrightarrow> reqs \<noteq> [] \<and> load_legacy k reqs = Inl e"
    and "admit_boxed H reg config None = Inl e \<longleftrightarrow> cfg_truthy rt \<and> (\<exists>ref p. parse_ref (ho_parse_vault H) rt = Inr ref \<and>
      registry_get reg (sr_scheme ref) = Inr p \<and>
      file_provider_only p (preflight False H p ref (if reqs = [] then [MASK_ROOT_V1] else reqs)) = Inl e)"
proof -
  show "admit_boxed H reg config (Some k) = Inl e \<longleftrightarrow> reqs \<noteq> [] \<and> load_legacy k reqs = Inl e"
    using assms by (auto simp: admit_boxed_def and_then_eq_Inl)
  show "admit_boxed H reg config None = Inl e \<longleftrightarrow> cfg_truthy rt \<and> (\<exists>ref p. parse_ref (ho_parse_vault H) rt = Inr ref \<and>
      registry_get reg (sr_scheme ref) = Inr p \<and>
      file_provider_only p (preflight False H p ref (if reqs = [] then [MASK_ROOT_V1] else reqs)) = Inl e)"
    using assms by (auto simp: admit_boxed_def and_then_eq_Inl Let_def dest: parse_ref_Inl registry_get_Inl)
qed

lemma admit_boxed_reads:
  assumes "admit_boxed H reg config kp = Inl e" "e \<noteq> ForeignExn"
  obtains reqs rt where "secret_requirements_for_config config = Inr reqs" "mask_secret_ref config = Inr rt"
proof (cases "secret_requirements_for_config config")
  case (Inl x)
  then show ?thesis using requirements_Inl [OF Inl] assms by (simp add: admit_boxed_def)
next
  case (Inr reqs)
  then show ?thesis
    using mask_secret_ref_Inl assms that by (cases "mask_secret_ref config") (auto simp: admit_boxed_def)
qed

lemma admit_boxed_Interrupt: "admit_boxed H reg config kp = Inl (Interrupt i) \<longleftrightarrow> interrupted H reg config kp i"
proof -
  have iff: "admit_boxed H reg config kp = Inl (Interrupt i) \<longleftrightarrow> interrupted H reg config kp i"
    if "secret_requirements_for_config config = Inr reqs" "mask_secret_ref config = Inr rt" for reqs rt
    using admit_boxed_provider [OF that, of "Interrupt i"] that config_requirements_cases [OF that(1)]
    by (cases kp) (auto simp: interrupted_def load_legacy_Interrupt file_provider_only_Interrupt)
  show ?thesis
  proof
    assume "admit_boxed H reg config kp = Inl (Interrupt i)"
    moreover obtain reqs rt where "secret_requirements_for_config config = Inr reqs" "mask_secret_ref config = Inr rt"
      using admit_boxed_reads [OF calculation] by auto
    ultimately show "interrupted H reg config kp i"
      using iff by simp
  next
    assume "interrupted H reg config kp i"
    then show "admit_boxed H reg config kp = Inl (Interrupt i)"
      using iff by (auto simp: interrupted_def)
  qed
qed

lemma admit_boxed_Kept:
  assumes "\<forall>p \<in> snd ` set reg. pr_kind p = FileSecretProvider \<longrightarrow> p = file_provider H"
    and "admit_boxed H reg config kp = Inl (KeptFileFailure k)"
  shows "(\<exists>v. kp = Some (CustomKeyProvider (Inl (KeptFileFailure k)) v)) \<or>
    kp = None \<and> \<not> ho_ambient H \<and> (\<exists>rt ref exn. mask_secret_ref config = Inr rt \<and>
      parse_ref (ho_parse_vault H) rt = Inr ref \<and> owner_only_read H (sr_locator ref) = Inl (Some exn) \<and>
      kept_kind exn = Some k)"
proof -
  obtain reqs rt where rr: "secret_requirements_for_config config = Inr reqs" "mask_secret_ref config = Inr rt"
    using admit_boxed_reads [OF assms(2)] by auto
  note provider = admit_boxed_provider [OF rr, of "KeptFileFailure k"]
  let ?reqs = "if reqs = [] then [MASK_ROOT_V1] else reqs"
  show ?thesis
  proof (cases kp)
    case (Some q)
    then have "mask_key q = Inl (KeptFileFailure k)"
      using assms(2) provider by (auto simp: load_legacy_def result_simps split: if_splits)
    then show ?thesis
      using mask_key_Kept Some by simp
  next
    case None
    then obtain ref p where ref: "parse_ref (ho_parse_vault H) rt = Inr ref" "registry_get reg (sr_scheme ref) = Inr p"
        and pf: "file_provider_only p (preflight False H p ref ?reqs) = Inl (KeptFileFailure k)"
      using assms(2) provider by auto
    then have "p = file_provider H"
      using assms(1) by (auto simp: file_provider_only_Kept registry_get_def of_option_eq_Inr dest!: map_of_SomeD)
    then have "load_secret H (file_provider H) ref ?reqs = Inl (KeptFileFailure k)"
      using pf by (auto simp: file_provider_only_Kept preflight_def prepare_secret_def call_closed_Kept is_local_def
          file_provider_def Let_def split: if_splits)
    then show ?thesis
      using load_secret_file_Kept [of H ref ?reqs k] None ref(1) rr(2) by auto
  qed
qed

text \<open>C20. The admission boundary is closed. Whatever a provider, a decoder or the configuration makes the
  code raise, what leaves \<open>admit_mask_key\<close> is an engine error with a registered code, or a file-access
  class that the built-in file provider met under a strict policy, or one that the caller's own key
  provider carried, or an interrupt; and an interrupt leaves exactly when code of the caller's key
  provider or of the named secret provider was interrupted, and it leaves as the same interrupt.\<close>

theorem admission_errors_closed:
  assumes "\<forall>p \<in> snd ` set reg. pr_kind p = FileSecretProvider \<longrightarrow> p = file_provider H"
    and "admit_mask_key H reg config kp = Inl e"
  shows "((\<exists>code. e = SecretErr code) \<or> (\<exists>i. e = Interrupt i) \<or>
    (\<exists>k \<in> set KEPT_FILE_FAILURES. e = FileClass k \<and>
      ((\<exists>v. kp = Some (CustomKeyProvider (Inl (KeptFileFailure k)) v)) \<or>
       kp = None \<and> \<not> ho_ambient H \<and> (\<exists>rt ref exn. mask_secret_ref config = Inr rt \<and>
         parse_ref (ho_parse_vault H) rt = Inr ref \<and> owner_only_read H (sr_locator ref) = Inl (Some exn) \<and>
         kept_kind exn = Some k)))) \<and>
    (\<forall>i. e = Interrupt i \<longleftrightarrow> interrupted H reg config kp i)"
proof -
  have interrupts: "e = Interrupt i \<longleftrightarrow> interrupted H reg config kp i" for i
    using assms(2) admit_boxed_Interrupt call_closed_Interrupt
    by (metis (no_types, lifting) admit_mask_key_def old.sum.inject(1))
  obtain x where x: "admit_boxed H reg config kp = Inl x" "(\<exists>i. e = Interrupt i) \<or> e = rebuilt True (failure_of x)"
    using assms(2) by (cases "admit_boxed H reg config kp")
      (auto simp: admit_mask_key_def call_closed_def contained_def split: secret_exn.splits)
  consider i where "e = Interrupt i" | code where "e = SecretErr code"
    | k where "e = FileClass k" "k \<in> set KEPT_FILE_FAILURES" "x = KeptFileFailure k"
    using x(2) kept_failure [of x] by (cases "failure_of x") auto
  then show ?thesis
  proof cases
    case 3
    then have "admit_boxed H reg config kp = Inl (KeptFileFailure k)"
      using x(1) by simp
    from admit_boxed_Kept [OF assms(1) this] show ?thesis
      using interrupts 3(1,2) by simp
  qed (use interrupts in auto)
qed

section \<open>Encodings\<close>

definition hex_code :: "nat \<Rightarrow> nat" where
  "hex_code h = (if h < 10 then 48 + h else 87 + h)"

definition hex_text :: "bytes \<Rightarrow> codepoints" where
  "hex_text m = concat (map (\<lambda>b. [hex_code (unat b div 16), hex_code (unat b mod 16)]) m)"

definition b64_code :: "nat \<Rightarrow> nat" where
  "b64_code d = (if d < 26 then d + 65 else if d < 52 then d + 71 else if d < 62 then d - 4 else if d = 62 then 43 else 47)"

fun b64_sextets :: "nat list \<Rightarrow> nat list" where
  "b64_sextets (x # y # z # r) =
     x div 4 # (x mod 4 * 16 + y div 16) # (y mod 16 * 4 + z div 64) # z mod 64 # b64_sextets r"
| "b64_sextets [x, y] = [x div 4, x mod 4 * 16 + y div 16, y mod 16 * 4]"
| "b64_sextets [x] = [x div 4, x mod 4 * 16]"
| "b64_sextets [] = []"

definition b64_text :: "bytes \<Rightarrow> codepoints" where
  "b64_text m = map b64_code (b64_sextets (map unat m)) @ replicate ((3 - length m mod 3) mod 3) 61"

lemma unat_less_256: "unat (b :: byte) < 256"
  using unsigned_less [of b, where 'a = nat] by simp

lemma hex_digit_code: "h < 16 \<Longrightarrow> hex_digit (hex_code h) = Some h"
  by (auto simp: hex_digit_def hex_code_def)

lemma fromhex_text: "fromhex (hex_text m) = Some m"
proof (induction m)
  case Nil
  then show ?case by (simp add: hex_text_def)
next
  case (Cons b m)
  have "unat b div 16 < 16"
    using unat_less_256 [of b] by linarith
  then show ?case
    using Cons.IH by (simp add: hex_text_def hex_digit_code byte_of_def)
qed

lemma hex_code_plain: "h < 16 \<Longrightarrow> hex_code h < 128 \<and> hex_code h \<notin> set int_spaces \<and> hex_code h \<notin> {28, 29, 30, 31}"
  by (auto simp: hex_code_def int_spaces_def)

lemma b64_digit_code: "d < 64 \<Longrightarrow> b64_digit (b64_code d) = Some d"
  by (auto simp: b64_digit_def b64_code_def)

lemma b64_code_plain: "d < 64 \<Longrightarrow> b64_code d < 128 \<and> b64_code d \<notin> set int_spaces \<and> b64_code d \<notin> {28, 29, 30, 31}"
  by (auto simp: b64_code_def int_spaces_def)

lemma b64_sextets_small: "\<forall>x \<in> set xs. x < 256 \<Longrightarrow> \<forall>d \<in> set (b64_sextets xs). d < 64"
  by (induction xs rule: b64_sextets.induct) auto

lemma b64_sextets_length:
  "length (b64_sextets xs) = 4 * (length xs div 3) + (if length xs mod 3 = 0 then 0 else length xs mod 3 + 1)"
proof (induction xs rule: b64_sextets.induct)
  case (1 x y z r)
  have "length (x # y # z # r) div 3 = Suc (length r div 3)" "length (x # y # z # r) mod 3 = length r mod 3"
    by simp_all
  then show ?case
    using 1 by simp
qed simp_all

lemma sextets_join:
  fixes x y z :: nat
  assumes "x < 256" "y < 256" "z < 256"
  shows "4 * (x div 4) + (x mod 4 * 16 + y div 16) div 16 = x"
    and "(x mod 4 * 16 + y div 16) mod 16 * 16 + (y mod 16 * 4 + z div 64) div 4 = y"
    and "(y mod 16 * 4 + z div 64) mod 4 * 64 + z mod 64 = z"
proof -
  have b: "y div 16 < 16" "z div 64 < 4"
    using assms by linarith+
  have "(x mod 4 * 16 + y div 16) div 16 = x mod 4" "(x mod 4 * 16 + y div 16) mod 16 = y div 16"
      "(y mod 16 * 4 + z div 64) div 4 = y mod 16" "(y mod 16 * 4 + z div 64) mod 4 = z div 64"
    using b by (simp_all add: div_mult_self3 mod_mult_self3)
  then show "4 * (x div 4) + (x mod 4 * 16 + y div 16) div 16 = x"
      "(x mod 4 * 16 + y div 16) mod 16 * 16 + (y mod 16 * 4 + z div 64) div 4 = y"
      "(y mod 16 * 4 + z div 64) mod 4 * 64 + z mod 64 = z"
    by simp_all
qed

lemma b64_groups_sextets: "b64_groups (b64_sextets (map unat (m :: bytes))) = m"
proof (induction "map unat m" arbitrary: m rule: b64_sextets.induct)
  case (1 x y z r)
  then obtain a b c m' where m: "m = a # b # c # m'" "x = unat a" "y = unat b" "z = unat c" "r = map unat m'"
    by (auto simp: map_eq_Cons_conv)
  show ?case
    using 1(1) [OF m(5)] sextets_join [of "unat a" "unat b" "unat c"] unat_less_256
    by (simp add: m byte_of_def)
next
  case (2 x y)
  then obtain a b where "m = [a, b]" "x = unat a" "y = unat b"
    by (auto simp: map_eq_Cons_conv)
  then show ?case
    using sextets_join [of "unat a" "unat b" 0] unat_less_256 by (simp add: byte_of_def)
next
  case (3 x)
  then obtain a where "m = [a]" "x = unat a"
    by (auto simp: map_eq_Cons_conv)
  then show ?case
    using sextets_join [of "unat a" 0 0] unat_less_256 by (simp add: byte_of_def)
qed simp

lemma b64decode_text: "b64decode (b64_text m) = Some m"
proof -
  define ds where "ds = b64_sextets (map unat m)"
  define pad where "pad = replicate ((3 - length m mod 3) mod 3) (61 :: nat)"
  have small: "\<forall>d \<in> set ds. d < 64"
    unfolding ds_def by (rule b64_sextets_small) (simp add: unat_less_256)
  have digits: "takeWhile (\<lambda>c. b64_digit c \<noteq> None) (map b64_code ds @ pad) = map b64_code ds"
  proof -
    have "b64_digit 61 = None"
      by (simp add: b64_digit_def)
    then have "takeWhile (\<lambda>c. b64_digit c \<noteq> None) pad = []"
      by (simp add: pad_def takeWhile_replicate)
    then show ?thesis
      using small by (subst takeWhile_append2) (auto simp: b64_digit_code)
  qed
  have digit_values: "map (\<lambda>c. the (b64_digit c)) (map b64_code ds) = ds"
    using small by (simp add: map_idI b64_digit_code)
  have len: "length ds = 4 * (length m div 3) + (if length m mod 3 = 0 then 0 else length m mod 3 + 1)"
    by (simp add: ds_def b64_sextets_length)
  have "length m mod 3 = 0 \<or> length m mod 3 = 1 \<or> length m mod 3 = 2"
    by presburger
  then have shape: "length ds mod 4 = 0 \<and> pad = [] \<or> length ds mod 4 = 2 \<and> length pad = 2 \<or>
      length ds mod 4 = 3 \<and> length pad = 1"
    by (auto simp: len pad_def)
  moreover have "ds = [] \<longrightarrow> pad = []"
    using shape by auto
  ultimately have "b64decode (map b64_code ds @ pad) = Some (b64_groups ds)"
    unfolding b64decode_def digits Let_def digit_values by (auto simp: pad_def list_all_iff)
  then show ?thesis
    by (simp add: b64_text_def ds_def pad_def b64_groups_sextets)
qed

text \<open>A secret survives its transport. Material written as hexadecimal digits or as padded base64,
  with any white space between the characters, decodes under the matching explicit encoding to the
  material, for every requirement; and hexadecimal text needs no explicit encoding for the mask root.\<close>

theorem decode_material_roundtrip:
  assumes "material \<noteq> []" "list_all (\<lambda>b. unat b < 128) raw"
  shows "(drop_spaces (map unat raw) = hex_text material \<longrightarrow>
      decode_material raw (Some ''hex'') req = Inr material \<and> decode_material raw None MASK_ROOT_V1 = Inr material) \<and>
    (drop_spaces (map unat raw) = b64_text material \<longrightarrow> decode_material raw (Some ''base64'') req = Inr material)"
proof -
  have ne: "hex_text material \<noteq> []" "b64_text material \<noteq> []"
    using fromhex_text [of material] b64decode_text [of material] assms(1) by (auto simp: b64decode_def)
  have u: "utf8_decode raw = Some (map unat raw)"
    using utf8_decode_ascii assms(2) by (simp add: list_all_iff)
  show ?thesis
    using assms(2) ne
    by (simp add: decode_material_def explicit_or_none_def legacy_or_none_def legacy_decoding_def u fromhex_text
        b64decode_text)
qed

section \<open>Witnesses\<close>

definition demo_host :: host where
  "demo_host = \<lparr>ho_environ = (\<lambda>n. if n = ''K'' then Some (replicate 64 97) else None),
     ho_open = (\<lambda>_. Inl FileAccessDenied), ho_ambient = True, ho_posix = True, ho_wall = 0, ho_cache = (\<lambda>r. r), ho_ttl = 0,
     ho_crypto = \<lparr>cl_fernet_accepts = (\<lambda>b. length b = 44), cl_aesgcm_accepts = (\<lambda>b. length b \<in> {16, 24, 32})\<rparr>,
     ho_parse_vault = (\<lambda>_. None)\<rparr>"

definition keyed_config :: config where
  "keyed_config = [(''global_settings'', CDict [(''mask_secret_ref'', CStr ''env:K'')]),
     (''tables'', CList [CDict [(''name'', CStr ''t''), (''columns'', CList [CDict [(''name'', CStr ''c''),
       (''strategy'', CStr ''fpe'')]])]])]"

definition demo_secret_ref :: secret_ref where
  "demo_secret_ref = \<lparr>sr_scheme = ''env'', sr_locator = ''K'', sr_version = None, sr_field = None, sr_encoding = None,
     sr_key_version = None\<rparr>"

lemma mask_root_total: "\<exists>k. mask_root material version = Inr k"
proof -
  have "KEYPROVIDER_SALT \<noteq> []"
    by code_simp
  then show ?thesis
    using hkdf_expand_total [of 32] by (simp add: mask_root_def hkdf_sha256_def hkdf_extract_def HASH_LEN_def result_simps)
      (metis on_error_simps(2))
qed

lemma keyed_config_facts:
  "secret_requirements_for_config keyed_config = Inr [MASK_ROOT_V1]" "mask_secret_ref keyed_config = Inr (CStr ''env:K'')"
  by code_simp+

lemma demo_text: "utf8_encode (replicate n 97) = Some (replicate n 97)"
  by (induction n) (simp_all add: encode_char_def byte_of_def)

lemma demo_hex: "fromhex (replicate (2 * n) 97) = Some (replicate n 170)"
  by (induction n) (simp_all add: hex_digit_def byte_of_def)

lemma demo_ref_facts:
  "parse_ref (\<lambda>_. None) (CStr ''env:K'') = Inr demo_secret_ref" "ref_key_version demo_secret_ref = ''v1''"
  "env_read demo_host demo_secret_ref = Inr (replicate 64 97)"
  "decode_material (replicate 64 97) None MASK_ROOT_V1 = Inr (replicate 32 170)"
proof -
  show "parse_ref (\<lambda>_. None) (CStr ''env:K'') = Inr demo_secret_ref" "ref_key_version demo_secret_ref = ''v1''"
    by code_simp+
  show "env_read demo_host demo_secret_ref = Inr (replicate 64 97)"
    by (simp add: env_read_def demo_host_def demo_secret_ref_def demo_text)
  have "utf8_decode (replicate 64 97) = Some (replicate 64 97)"
    using utf8_decode_ascii [of "replicate 64 97"] by (simp)
  moreover have "drop_spaces (replicate 64 97) = replicate 64 97"
    by (simp add: drop_spaces_def int_spaces_def)
  ultimately show "decode_material (replicate 64 97) None MASK_ROOT_V1 = Inr (replicate 32 170)"
    using demo_hex [of 32]
    by (simp add: decode_material_def legacy_decoding_def legacy_or_none_def)
qed

lemma demo_admits: "\<exists>adm. admit_mask_key demo_host (default_registry demo_host) keyed_config None = Inr adm"
proof -
  obtain k where k: "mask_root (replicate 32 170) ''v1'' = Inr k"
    using mask_root_total by blast
  have "derive_key (ho_crypto demo_host) (replicate 32 170) [MASK_ROOT_V1] ''v1'' = Inr k"
    using k by (simp add: derive_key_def derive_step_def secret_key_provider_def MIN_SECRET_BYTES_def)
  then have "\<exists>s. load_secret demo_host (env_provider demo_host) demo_secret_ref [MASK_ROOT_V1] = Inr s"
    using demo_ref_facts by (simp add: load_secret_def env_provider_def local_describe_def local_resolve_def demo_secret_ref_def)
  moreover have "ho_parse_vault demo_host = (\<lambda>_. None)" "ho_ttl demo_host = 0"
    by (simp_all add: demo_host_def)
  moreover have "registry_get (default_registry demo_host) (sr_scheme demo_secret_ref) = Inr (env_provider demo_host)"
    by (simp add: registry_get_def default_registry_def demo_secret_ref_def)
  moreover have "pr_preflight (env_provider demo_host) = None"
    by (simp add: env_provider_def)
  ultimately show ?thesis
    using demo_ref_facts(1) keyed_config_facts
    by (auto simp: admit_mask_key_def admit_boxed_def call_closed_cases file_provider_only_def preflight_def prepare_secret_def)
qed

theorem keyed_work_has_secret_witness:
  "\<exists>adm s. admit_mask_key demo_host (default_registry demo_host) keyed_config None = Inr adm \<and>
     ak_key_provider adm = Some (PreparedKeyProvider s) \<and> MIN_SECRET_BYTES \<le> length (se_material s)"
proof -
  obtain adm where adm: "admit_mask_key demo_host (default_registry demo_host) keyed_config None = Inr adm"
    using demo_admits by blast
  show ?thesis
    using keyed_work_has_secret [OF keyed_config_facts(1) _ adm] adm by blast
qed

definition unkeyed_ref_config :: config where
  "unkeyed_ref_config = [(''global_settings'', CDict [(''mask_secret_ref'', CStr ''file:/k'')])]"

text \<open>A denied file under a strict policy, and the same under the ambient one.\<close>

theorem admission_errors_closed_witness:
  "admit_mask_key (demo_host\<lparr>ho_ambient := False\<rparr>) (default_registry (demo_host\<lparr>ho_ambient := False\<rparr>))
       unkeyed_ref_config None = Inl (FileClass ''file_access_denied'') \<and>
   admit_mask_key demo_host (default_registry demo_host) unkeyed_ref_config None = Inl (SecretErr SECRET_PROVIDER_UNAVAILABLE)
   \<and> (\<exists>code. SecretErr SECRET_PROVIDER_UNAVAILABLE = SecretErr code)"
proof -
  have strict: "admit_mask_key (demo_host\<lparr>ho_ambient := False\<rparr>) (default_registry (demo_host\<lparr>ho_ambient := False\<rparr>))
       unkeyed_ref_config None = Inl (FileClass ''file_access_denied'')"
    by code_simp
  have ambient: "admit_mask_key demo_host (default_registry demo_host) unkeyed_ref_config None =
      Inl (SecretErr SECRET_PROVIDER_UNAVAILABLE)"
    by code_simp
  have "\<forall>p \<in> snd ` set (default_registry demo_host). pr_kind p = FileSecretProvider \<longrightarrow> p = file_provider demo_host"
    by (auto simp: default_registry_def env_provider_def)
  note admission_errors_closed [OF this ambient]
  then show ?thesis
    using strict ambient by simp
qed

theorem decode_material_roundtrip_witness:
  "decode_material [97, 10, 98] (Some ''hex'') HMAC_SHA256_V1 = Inr [171]"
proof -
  have "drop_spaces (map unat [97, 10, 98 :: byte]) = hex_text [171]"
    by (simp add: drop_spaces_def int_spaces_def hex_text_def hex_code_def)
  then show ?thesis
    using decode_material_roundtrip [of "[171]" "[97, 10, 98]" HMAC_SHA256_V1] by simp
qed

text \<open>Two details of the code that differ from what its comments say. The pattern of a logical version ends
  with \<open>$\<close>, which also matches before a final newline; and a caller's key provider can hand over the
  carrier that only the built-in file provider is meant to raise.\<close>

lemma logical_version_accepts_newline:
  "parse_ref (\<lambda>_. None) (CStr ''env:K?key_version=v1%0A'') =
     Inr (demo_secret_ref\<lparr>sr_key_version := Some (''v1'' @ [char_of (10 :: nat)])\<rparr>)"
  by code_simp

lemma key_provider_forges_file_class:
  "admit_mask_key demo_host [] keyed_config (Some (CustomKeyProvider (Inl (KeptFileFailure ''memory'')) ''v'')) =
     Inl (FileClass ''memory'')"
  by code_simp

end
