(* ===== verification/Vault.thy ===== *)
theory Vault
  imports Key_Admission "HOL-Library.Product_Lexorder"
begin

text \<open>
  The token vault, \<open>vault.py\<close>: the length-prefixed frames, the walk over the vaulted columns of a
  configuration, the pairing of source and masked values, \<open>VaultWriter\<close> (accumulate, drop conflicting
  keys, sort, encrypt chunk by chunk) and \<open>load_vault\<close>. Opening and publishing the file is the business
  of theory \<open>Output_Txn\<close>; here a vault file is its bytes, or \<open>None\<close> when it cannot be read.

  Parameters (record \<open>vault_lib\<close>): the Fernet cipher, which is randomised and gets a nonce argument,
  the Parquet writer and reader, \<open>json.loads\<close>, and the order in which a Python set is iterated. Their
  documented behaviour is the predicate \<open>vault_lib_ok\<close>.
\<close>

section \<open>Model\<close>

type_synonym triple = "string \<times> string \<times> string"

datatype vault_error =
    VAULT_UNREADABLE | VAULT_FORMAT_UNSUPPORTED cfg | VAULT_PROTOCOL_VERSION_MISMATCH cfg | VAULT_KEY_MISMATCH
  | VaultDerive determinism_error | VaultFrameOverflow | VaultHeaderNotObject | VaultCountNotInt
  | VaultPayloadError | VaultTypeError | VaultNameNotString | VaultZipStrict | VaultSecret secret_exn | VaultSeed seed_error

definition VAULT_FORMAT_VERSION :: string where "VAULT_FORMAT_VERSION = ''decoy-vault/v2''"
definition VAULT_NAMESPACE :: string where "VAULT_NAMESPACE = ''vault''"
definition VAULT_KEY_LABEL :: bytes where "VAULT_KEY_LABEL = utf8 ''vault-key/v1''"
definition VAULT_MAGIC :: bytes where "VAULT_MAGIC = utf8 (''DCYVAULT2'' @ [char_of (10 :: nat)])"
definition CHUNK_ROWS :: nat where "CHUNK_ROWS = 65536"

record vault_lib =
  vl_encrypt :: "bytes \<Rightarrow> nat \<Rightarrow> bytes \<Rightarrow> bytes"
  vl_decrypt :: "bytes \<Rightarrow> bytes \<Rightarrow> bytes option"
  vl_write_table :: "triple list \<Rightarrow> bytes"
  vl_read_table :: "bytes \<Rightarrow> (string list \<times> string list \<times> string list) option"
  vl_json_loads :: "bytes \<Rightarrow> cfg option"
  vl_set_order :: "triple list \<Rightarrow> triple list"

definition frame :: "bytes \<Rightarrow> vault_error + bytes" where
  "frame block = and_then (of_option VaultFrameOverflow (to_bytes (int (length block)) 4)) (\<lambda>lb. Inr (lb @ block))"

definition read_frame :: "bytes \<Rightarrow> nat \<Rightarrow> vault_error + (bytes \<times> nat)" where
  "read_frame blob offset =
     (if length blob < offset + 4 then Inl VAULT_UNREADABLE
      else let len = nat (from_bytes (take 4 (drop offset blob))); start = offset + 4; stop = start + len in
        if length blob < stop then Inl VAULT_UNREADABLE
        else Inr (take len (drop start blob), stop))"

text \<open>\<open>base64.urlsafe_b64encode\<close> and \<open>_fernet\<close>: the key text the cipher is built from.\<close>

definition urlsafe_b64encode :: "bytes \<Rightarrow> bytes" where
  "urlsafe_b64encode m = map (\<lambda>c. byte_of (if c = 43 then 45 else if c = 47 then 95 else c)) (b64_text m)"

definition fernet_key :: "bytes \<Rightarrow> vault_error + bytes" where
  "fernet_key ikm =
     and_then (on_error VaultDerive (derive ikm VAULT_NAMESPACE VAULT_KEY_LABEL)) (\<lambda>k. Inr (urlsafe_b64encode k))"

text \<open>\<open>iter_vault_columns\<close>. A truthy name that is not a string is outside the configuration schema.\<close>

fun cfg_name :: "cfg \<Rightarrow> vault_error + string option" where
  "cfg_name (CStr s) = Inr (if s = [] then None else Some s)"
| "cfg_name v = (if cfg_truthy v then Inl VaultNameNotString else Inr None)"

definition vault_column :: "string \<Rightarrow> cfg \<Rightarrow> vault_error + triple list" where
  "vault_column table col =
     (case col of
        CDict c \<Rightarrow>
          if \<not> cfg_truthy (cfg_get c ''vault'' CNull) then Inr []
          else and_then (cfg_name (cfg_get c ''name'' CNull)) (\<lambda>name.
            and_then (cfg_name (cfg_get c ''namespace'' CNull)) (\<lambda>ns.
            Inr (case (name, ns) of (Some n, Some s) \<Rightarrow> [(table, n, s)] | _ \<Rightarrow> [])))
      | _ \<Rightarrow> Inr [])"

definition vault_table :: "cfg \<Rightarrow> vault_error + triple list" where
  "vault_table tbl =
     (case tbl of
        CDict t \<Rightarrow>
          and_then (cfg_name (cfg_get t ''name'' CNull)) (\<lambda>name.
          case name of
            None \<Rightarrow> Inr []
          | Some table \<Rightarrow>
              and_then (of_option VaultTypeError (cfg_iter (cfg_or_empty (cfg_get t ''columns'' CNull)))) (\<lambda>cols.
              and_then (map_result (vault_column table) cols) (\<lambda>xs. Inr (concat xs))))
      | _ \<Rightarrow> Inr [])"

definition iter_vault_columns :: "config \<Rightarrow> vault_error + triple list" where
  "iter_vault_columns config =
     and_then (of_option VaultTypeError (cfg_iter (cfg_or_empty (cfg_get config ''tables'' CNull)))) (\<lambda>tables.
     and_then (map_result vault_table tables) (\<lambda>xs. Inr (concat xs)))"

text \<open>A cell of an Arrow column after \<open>to_pylist\<close>: null, a string, or a value of another type with its
  \<open>str\<close>. A table is its columns in order.\<close>

datatype cell = NullCell | TextCell string | OtherCell string

type_synonym table = "(string \<times> cell list) list"

fun cell_str :: "cell \<Rightarrow> string" where
  "cell_str (TextCell s) = s"
| "cell_str (OtherCell s) = s"
| "cell_str NullCell = ''None''"

definition pair_entries :: "string \<Rightarrow> cell list \<Rightarrow> cell list \<Rightarrow> vault_error + triple list" where
  "pair_entries namespace src out =
     (if length src \<noteq> length out then Inl VaultZipStrict
      else Inr (map (\<lambda>(s, m). (namespace, cell_str m, cell_str s))
        (filter (\<lambda>(s, m). s \<noteq> NullCell \<and> m \<noteq> NullCell) (zip src out))))"

definition column_entries ::
    "(string \<Rightarrow> table option) \<Rightarrow> (string \<Rightarrow> table option) \<Rightarrow> triple \<Rightarrow> vault_error + triple list" where
  "column_entries sources outputs tcn =
     (case tcn of (table, column, namespace) \<Rightarrow>
       (case (sources table, outputs table) of
          (Some src, Some out) \<Rightarrow>
            (case (map_of src column, map_of out column) of
               (Some s, Some m) \<Rightarrow> pair_entries namespace s m
             | _ \<Rightarrow> Inr [])
        | _ \<Rightarrow> Inr []))"

definition collect_vault_entries ::
    "config \<Rightarrow> (string \<Rightarrow> table option) \<Rightarrow> (string \<Rightarrow> table option) \<Rightarrow> vault_error + triple list" where
  "collect_vault_entries config sources outputs =
     and_then (iter_vault_columns config) (\<lambda>cols.
     and_then (map_result (column_entries sources outputs) cols) (\<lambda>xs. Inr (concat xs)))"

text \<open>\<open>VaultWriter\<close>: the set of entries as a list without repetition.\<close>

record vault_writer =
  vw_mask_key :: bytes
  vw_entries :: "triple list"

definition new_vault_writer :: "bytes \<Rightarrow> vault_writer" where
  "new_vault_writer ikm = \<lparr>vw_mask_key = ikm, vw_entries = []\<rparr>"

text \<open>\<open>vault_writer_for_config\<close>: the key of the admitted provider, else the job seed.\<close>

definition vault_writer_for_config ::
    "host \<Rightarrow> (string \<times> provider) list \<Rightarrow> config \<Rightarrow> key_provider option \<Rightarrow> vault_error + vault_writer" where
  "vault_writer_for_config H reg config kp =
     and_then (on_error VaultSeed (normalize_job_seed config)) (\<lambda>job_seed.
     and_then (on_error VaultSecret (admit_mask_key H reg config kp)) (\<lambda>adm.
     and_then (on_error VaultSecret (mask_key_from_provider (ak_key_provider adm) job_seed)) (\<lambda>ikm.
     Inr (new_vault_writer ikm))))"

definition assert_keyed_with :: "vault_writer \<Rightarrow> bytes \<Rightarrow> vault_error + unit" where
  "assert_keyed_with w ikm = require (vw_mask_key w = ikm) VAULT_KEY_MISMATCH"

definition vault_add :: "vault_writer \<Rightarrow> triple list \<Rightarrow> vault_writer" where
  "vault_add w entries = w\<lparr>vw_entries := foldl (\<lambda>acc e. if e \<in> set acc then acc else acc @ [e]) (vw_entries w) entries\<rparr>"

type_synonym key_table = "((string \<times> string) \<times> string option) list"

fun by_key_step :: "key_table \<Rightarrow> triple \<Rightarrow> key_table" where
  "by_key_step d (ns, masked, source) =
     (case map_of d (ns, masked) of
        Some v \<Rightarrow> if v \<noteq> Some source then AList.update (ns, masked) None d else d
      | None \<Rightarrow> AList.update (ns, masked) (Some source) d)"

definition by_key :: "triple list \<Rightarrow> key_table" where
  "by_key entries = foldl by_key_step [] entries"

definition ambiguous_count :: "key_table \<Rightarrow> nat" where
  "ambiguous_count d = length (filter (\<lambda>(k, v). v = None) d)"

definition vault_rows :: "key_table \<Rightarrow> triple list" where
  "vault_rows d = sort (concat (map (\<lambda>((ns, masked), v). case v of Some s \<Rightarrow> [(ns, masked, s)] | None \<Rightarrow> []) d))"

definition row_windows :: "triple list \<Rightarrow> triple list list" where
  "row_windows rows = map (\<lambda>i. take CHUNK_ROWS (drop (i * CHUNK_ROWS) rows)) [0..<(length rows + CHUNK_ROWS - 1) div CHUNK_ROWS]"

text \<open>\<open>json.dumps(header, sort_keys=True)\<close>.\<close>

definition header_json :: "nat \<Rightarrow> nat \<Rightarrow> string" where
  \<open>header_json ambiguous chunks =
     ''{"ambiguous_dropped": '' @ dec_str ambiguous @ '', "chunk_count": '' @ dec_str chunks @
     '', "chunk_rows": '' @ dec_str CHUNK_ROWS @ '', "format": "'' @ VAULT_FORMAT_VERSION @
     ''", "seed_protocol_version": '' @ dec_str SEED_PROTOCOL_VERSION @ ''}''\<close>

definition header_dict :: "nat \<Rightarrow> nat \<Rightarrow> config" where
  "header_dict ambiguous chunks =
     [(''ambiguous_dropped'', CNum (int ambiguous)), (''chunk_count'', CNum (int chunks)),
      (''chunk_rows'', CNum (int CHUNK_ROWS)), (''format'', CStr VAULT_FORMAT_VERSION),
      (''seed_protocol_version'', CNum (int SEED_PROTOCOL_VERSION))]"

fun chunk_frames :: "vault_lib \<Rightarrow> bytes \<Rightarrow> nat \<Rightarrow> triple list list \<Rightarrow> vault_error + bytes list" where
  "chunk_frames L fk nonce [] = Inr []"
| "chunk_frames L fk nonce (window # windows) =
     and_then (frame (vl_encrypt L fk nonce (vl_write_table L window))) (\<lambda>f.
     and_then (chunk_frames L fk (Suc nonce) windows) (\<lambda>fs. Inr (f # fs)))"

definition vault_write :: "vault_lib \<Rightarrow> vault_writer \<Rightarrow> nat \<Rightarrow> vault_error + (bytes \<times> nat)" where
  "vault_write L w nonce =
     (let d = by_key (vl_set_order L (vw_entries w)); rows = vault_rows d; windows = row_windows rows in
      and_then (fernet_key (vw_mask_key w)) (\<lambda>fk.
      and_then (frame (utf8 (header_json (ambiguous_count d) (length windows)))) (\<lambda>h.
      and_then (chunk_frames L fk nonce windows) (\<lambda>fs. Inr (VAULT_MAGIC @ h @ concat fs, length rows)))))"

text \<open>\<open>load_vault\<close>: the header checks and the loop over the framed tokens.\<close>

definition chunk_entries :: "(string list \<times> string list \<times> string list) option \<Rightarrow> vault_error + ((string \<times> string) \<times> string) list" where
  "chunk_entries t =
     (case t of
        None \<Rightarrow> Inl VaultPayloadError
      | Some (ns, ms, ss) \<Rightarrow>
          if length ns = length ms \<and> length ms = length ss then Inr (zip (zip ns ms) ss) else Inl VaultZipStrict)"

function load_frames ::
    "vault_lib \<Rightarrow> bytes \<Rightarrow> bytes \<Rightarrow> nat \<Rightarrow> (string \<times> string \<Rightarrow> string option) \<Rightarrow> vault_error + (string \<times> string \<Rightarrow> string option)" where
  "load_frames L fk blob offset mapping =
     (if offset < length blob then
        and_then (read_frame blob offset) (\<lambda>to.
        and_then (of_option VAULT_KEY_MISMATCH (vl_decrypt L fk (fst to))) (\<lambda>payload.
        and_then (chunk_entries (vl_read_table L payload)) (\<lambda>es.
        load_frames L fk blob (snd to) (mapping ++ map_of (rev es)))))
      else Inr mapping)"
  by pat_completeness auto
termination
  by (relation "measure (\<lambda>(L, fk, blob, offset, mapping). length blob - offset)")
    (auto simp: read_frame_def Let_def split: if_splits)

declare load_frames.simps [simp del]

definition load_header :: "vault_lib \<Rightarrow> bytes \<Rightarrow> vault_error + (int \<times> nat)" where
  "load_header L blob =
     (if take (length VAULT_MAGIC) blob \<noteq> VAULT_MAGIC then Inl VAULT_UNREADABLE
      else and_then (read_frame blob (length VAULT_MAGIC)) (\<lambda>(header_bytes, offset).
        and_then (of_option VAULT_UNREADABLE (vl_json_loads L header_bytes)) (\<lambda>header.
        case header of
          CDict h \<Rightarrow>
            let fmt = cfg_get h ''format'' CNull; version = cfg_get h ''seed_protocol_version'' CNull in
            if fmt \<noteq> CStr VAULT_FORMAT_VERSION then Inl (VAULT_FORMAT_UNSUPPORTED fmt)
            else if version \<noteq> CNum (int SEED_PROTOCOL_VERSION) then Inl (VAULT_PROTOCOL_VERSION_MISMATCH version)
            else and_then (of_option VaultCountNotInt (cfg_int (cfg_get h ''ambiguous_dropped'' (CNum 0)))) (\<lambda>n.
              Inr (n, offset))
        | _ \<Rightarrow> Inl VaultHeaderNotObject)))"

definition load_vault ::
    "vault_lib \<Rightarrow> bytes option \<Rightarrow> bytes \<Rightarrow> vault_error + ((string \<times> string \<Rightarrow> string option) \<times> int)" where
  "load_vault L contents ikm =
     and_then (fernet_key ikm) (\<lambda>fk.
     and_then (of_option VAULT_UNREADABLE contents) (\<lambda>blob.
     and_then (load_header L blob) (\<lambda>(ambiguous, offset).
     and_then (load_frames L fk blob offset Map.empty) (\<lambda>mapping. Inr (mapping, ambiguous)))))"

section \<open>Laws of the libraries\<close>

definition table_columns :: "triple list \<Rightarrow> string list \<times> string list \<times> string list" where
  "table_columns rows = (map fst rows, map (\<lambda>r. fst (snd r)) rows, map (\<lambda>r. snd (snd r)) rows)"

text \<open>Fernet decrypts what it encrypted under the same key; Parquet reads back the table it wrote;
  \<open>json.loads\<close> reads back the header text; iterating a set gives each element once.\<close>

definition vault_lib_ok :: "vault_lib \<Rightarrow> bool" where
  "vault_lib_ok L \<longleftrightarrow>
     (\<forall>k n p. vl_decrypt L k (vl_encrypt L k n p) = Some p) \<and>
     (\<forall>rows. vl_read_table L (vl_write_table L rows) = Some (table_columns rows)) \<and>
     (\<forall>a c. vl_json_loads L (utf8 (header_json a c)) = Some (CDict (header_dict a c))) \<and>
     (\<forall>xs. distinct xs \<longrightarrow> distinct (vl_set_order L xs) \<and> set (vl_set_order L xs) = set xs)"

section \<open>Frames\<close>

lemma frame_length: "frame b = Inr f \<Longrightarrow> length f = 4 + length b"
  by (auto simp: frame_def result_simps codec_simps)

lemma frame_total: "length b < 2 ^ 32 \<Longrightarrow> \<exists>f. frame b = Inr f"
  by (simp add: frame_def to_bytes_def)

lemma read_frame_frame:
  assumes "frame b = Inr f"
  shows "read_frame (pre @ f @ post) (length pre) = Inr (b, length pre + length f)"
proof -
  have f: "f = be_bytes 4 (int (length b)) @ b" "int (length b) < 256 ^ 4"
    using assms by (auto simp: frame_def result_simps codec_simps)
  then have "from_bytes (take 4 f) = int (length b)"
    by (simp add: from_bytes_be_bytes)
  then show ?thesis
    using f by (simp add: read_frame_def Let_def)
qed

lemma load_frames_tokens:
  assumes "vault_lib_ok L"
  shows "chunk_frames L fk nonce windows = Inr fs \<Longrightarrow>
    load_frames L fk (pre @ concat fs) (length pre) m = Inr (m ++ map_of (rev (map (\<lambda>(a, b, c). ((a, b), c)) (concat windows))))"
proof (induction windows arbitrary: nonce fs pre m)
  case Nil
  then show ?case
    by (simp add: load_frames.simps)
next
  case (Cons window windows)
  obtain f fs' where fs: "fs = f # fs'" "frame (vl_encrypt L fk nonce (vl_write_table L window)) = Inr f"
      "chunk_frames L fk (Suc nonce) windows = Inr fs'"
    using Cons.prems by (auto simp: result_simps)
  have "f \<noteq> []"
    using frame_length [OF fs(2)] by auto
  moreover have "zip (zip (map fst window) (map (\<lambda>r. fst (snd r)) window)) (map (\<lambda>r. snd (snd r)) window) =
      map (\<lambda>(a, b, c). ((a, b), c)) window"
    by (induction window) auto
  ultimately show ?case
    using Cons.IH [OF fs(3), of "pre @ f" "m ++ map_of (rev (map (\<lambda>(a, b, c). ((a, b), c)) window))"] assms
      read_frame_frame [OF fs(2), of pre "concat fs'"]
    by (subst load_frames.simps) (simp add: fs(1) vault_lib_ok_def chunk_entries_def table_columns_def)
qed

section \<open>The key table\<close>

definition sources_of :: "triple list \<Rightarrow> string \<times> string \<Rightarrow> string set" where
  "sources_of entries k = {s. (fst k, snd k, s) \<in> set entries}"

lemma Some_None_iff: "x = Some None \<longleftrightarrow> x \<noteq> None \<and> (\<forall>s. x \<noteq> Some (Some s))"
  by (cases x; cases "the x") auto

lemma by_key_snoc: "by_key (es @ [e]) = by_key_step (by_key es) e"
  by (simp add: by_key_def)

lemma sources_of_snoc:
  "sources_of (es @ [(a, b, c)]) k = (if k = (a, b) then insert c (sources_of es k) else sources_of es k)"
  by (cases k) (auto simp: sources_of_def)

text \<open>What the table says of a key: absent without a source, the source when it is the only one.\<close>

lemma by_key_lookup:
  "(map_of (by_key es) k = None \<longleftrightarrow> sources_of es k = {}) \<and> (\<forall>s. map_of (by_key es) k = Some (Some s) \<longleftrightarrow> sources_of es k = {s})"
proof (induction es rule: rev_induct)
  case Nil
  then show ?case by (simp add: by_key_def sources_of_def)
next
  case (snoc e es)
  obtain a b c where e: "e = (a, b, c)"
    by (cases e)
  show ?case
  proof (cases "k = (a, b)")
    case False
    then have "map_of (by_key (es @ [e])) k = map_of (by_key es) k"
      by (simp add: by_key_snoc e update_conv' split: option.split)
    then show ?thesis
      using snoc False by (simp add: e sources_of_snoc)
  next
    case k: True
    have S: "sources_of (es @ [e]) k = insert c (sources_of es k)"
      using k by (simp add: e sources_of_snoc)
    have M: "map_of (by_key (es @ [e])) k = (case map_of (by_key es) k of
        Some v \<Rightarrow> if v \<noteq> Some c then Some None else Some v | None \<Rightarrow> Some (Some c))"
      using k by (simp add: by_key_snoc e update_conv' split: option.split)
    consider (none) "map_of (by_key es) k = None" "sources_of es k = {}"
      | (one) t where "map_of (by_key es) k = Some (Some t)" "sources_of es k = {t}"
      | (many) "map_of (by_key es) k = Some None" "sources_of es k \<noteq> {}" "\<forall>t. sources_of es k \<noteq> {t}"
      using snoc Some_None_iff [of "map_of (by_key es) k"] by blast
    then show ?thesis
    proof cases
      case none
      then show ?thesis by (auto simp: M S)
    next
      case one
      then show ?thesis by (auto simp: M S doubleton_eq_iff)
    next
      case many
      then have "\<not> sources_of es k \<subseteq> {c}"
        by blast
      then show ?thesis
        using many by (auto simp: M S)
    qed
  qed
qed

lemma by_key_distinct: "distinct (map fst (by_key es))"
proof (induction es rule: rev_induct)
  case Nil
  then show ?case by (simp add: by_key_def)
next
  case (snoc e es)
  then show ?case
    by (cases e) (simp add: by_key_snoc distinct_update split: option.split)
qed

lemma by_key_single: "((a, b), Some s) \<in> set (by_key es) \<longleftrightarrow> sources_of es (a, b) = {s}"
proof -
  have "((a, b), Some s) \<in> set (by_key es) \<longleftrightarrow> map_of (by_key es) (a, b) = Some (Some s)"
    using by_key_distinct [of es] by simp
  then show ?thesis
    using by_key_lookup [of es "(a, b)"] by simp
qed

lemma two_elements: "A \<noteq> {} \<and> \<not> (\<exists>s. A = {s}) \<longleftrightarrow> (\<exists>s \<in> A. \<exists>t \<in> A. s \<noteq> t)"
proof
  assume A: "A \<noteq> {} \<and> \<not> (\<exists>s. A = {s})"
  then obtain s where s: "s \<in> A"
    by blast
  then have "\<not> A \<subseteq> {s}"
    using A by (metis subset_singletonD)
  then show "\<exists>s \<in> A. \<exists>t \<in> A. s \<noteq> t"
    using s by auto
qed auto

lemma by_key_many:
  "(k, None) \<in> set (by_key es) \<longleftrightarrow> (\<exists>s \<in> sources_of es k. \<exists>t \<in> sources_of es k. s \<noteq> t)"
proof -
  have "(k, None) \<in> set (by_key es) \<longleftrightarrow> map_of (by_key es) k = Some None"
    using by_key_distinct [of es] by simp
  also have "\<dots> \<longleftrightarrow> sources_of es k \<noteq> {} \<and> \<not> (\<exists>s. sources_of es k = {s})"
    using by_key_lookup [of es k] by (simp add: Some_None_iff)
  also have "\<dots> \<longleftrightarrow> (\<exists>s \<in> sources_of es k. \<exists>t \<in> sources_of es k. s \<noteq> t)"
    by (rule two_elements)
  finally show ?thesis .
qed

lemma ambiguous_card: "ambiguous_count (by_key es) = card {k. \<exists>s \<in> sources_of es k. \<exists>t \<in> sources_of es k. s \<noteq> t}"
proof -
  let ?d = "filter (\<lambda>(k, v). v = None) (by_key es)"
  have "distinct (map fst ?d)"
    by (rule distinct_map_filter [OF by_key_distinct])
  then have "length ?d = card (fst ` set ?d)"
    using distinct_card [of "map fst ?d"] by simp
  moreover have "fst ` set ?d = {k. (k, None) \<in> set (by_key es)}"
    by (auto intro: rev_image_eqI)
  ultimately show ?thesis
    by (simp add: ambiguous_count_def by_key_many)
qed

section \<open>Rows and windows\<close>

lemma rows_set: "(a, b, s) \<in> set (vault_rows (by_key es)) \<longleftrightarrow> sources_of es (a, b) = {s}"
proof -
  have "(a, b, s) \<in> set (vault_rows (by_key es)) \<longleftrightarrow> ((a, b), Some s) \<in> set (by_key es)"
    by (auto simp: vault_rows_def split: option.splits)
  then show ?thesis
    by (simp add: by_key_single)
qed

definition row_entry :: "triple \<Rightarrow> (string \<times> string) \<times> string" where
  "row_entry r = (case r of (a, b, c) \<Rightarrow> ((a, b), c))"

lemma rows_distinct: "distinct (map (fst \<circ> row_entry) (vault_rows (by_key es)))"
proof -
  have kept: "distinct (map (fst \<circ> row_entry) (concat (map (\<lambda>((ns, masked), v). case v of Some s \<Rightarrow> [(ns, masked, s)] | None \<Rightarrow> []) d)))"
    if "distinct (map fst d)" for d :: key_table
    using that
  proof (induction d)
    case (Cons kv d)
    have "fst (row_entry r) \<in> fst ` set d"
      if "r \<in> set (concat (map (\<lambda>((ns, masked), v). case v of Some s \<Rightarrow> [(ns, masked, s)] | None \<Rightarrow> []) d))" for r
      using that by (force simp: row_entry_def split: option.splits)
    then show ?case
      using Cons by (cases kv) (auto simp: row_entry_def split: option.split)
  qed simp
  define xs where "xs = concat (map (\<lambda>((ns, masked), v). case v of Some s \<Rightarrow> [(ns, masked, s)] | None \<Rightarrow> []) (by_key es))"
  have "distinct (map (fst \<circ> row_entry) xs)"
    using kept [OF by_key_distinct] by (simp add: xs_def)
  then show ?thesis
    by (simp add: vault_rows_def xs_def [symmetric] distinct_map)
qed

lemma window_prefix: "concat (map (\<lambda>i. take n (drop (i * n) xs)) [0..<k]) = take (k * n) xs"
proof (induction k)
  case (Suc k)
  have "take (Suc k * n) xs = take (k * n) xs @ take n (drop (k * n) xs)"
    using take_add [of "k * n" n xs] by (simp add: add.commute)
  then show ?case
    using Suc by simp
qed simp

lemma row_windows_concat: "concat (row_windows rows) = rows"
proof -
  have "length rows \<le> (length rows + CHUNK_ROWS - 1) div CHUNK_ROWS * CHUNK_ROWS"
    unfolding CHUNK_ROWS_def by linarith
  then show ?thesis
    by (simp add: row_windows_def window_prefix)
qed

text \<open>The map the reader builds from the rows of the first windows.\<close>

definition rows_map :: "triple list \<Rightarrow> string \<times> string \<Rightarrow> string option" where
  "rows_map rows = map_of (rev (map row_entry rows))"

lemma rows_map_iff:
  assumes "distinct (map (fst \<circ> row_entry) rows)"
  shows "rows_map rows (a, b) = Some s \<longleftrightarrow> (a, b, s) \<in> set rows"
proof -
  have "distinct (map fst (rev (map row_entry rows)))"
    using assms by (simp add: rev_map [symmetric])
  then have "rows_map rows (a, b) = Some s \<longleftrightarrow> ((a, b), s) \<in> row_entry ` set rows"
    by (simp add: rows_map_def)
  also have "\<dots> \<longleftrightarrow> (a, b, s) \<in> set rows"
    by (force simp: row_entry_def split: prod.splits)
  finally show ?thesis .
qed

section \<open>Reading a written vault\<close>

lemma row_entry_eq: "row_entry = (\<lambda>(a, b, c). ((a, b), c))"
  by (auto simp: row_entry_def)

lemma chunk_frames_take: "chunk_frames L fk nonce windows = Inr fs \<Longrightarrow> chunk_frames L fk nonce (take i windows) = Inr (take i fs)"
proof (induction windows arbitrary: nonce fs i)
  case (Cons window windows)
  then show ?case
    by (cases i) (auto simp: result_simps)
qed simp

lemma load_header_written:
  assumes "vault_lib_ok L" "frame (utf8 (header_json a c)) = Inr h"
  shows "load_header L (VAULT_MAGIC @ h @ post) = Inr (int a, length (VAULT_MAGIC @ h))"
  using read_frame_frame [OF assms(2), of VAULT_MAGIC post] assms(1)
  by (simp add: load_header_def vault_lib_ok_def header_dict_def cfg_get_def Let_def)

lemma load_prefix:
  assumes "vault_lib_ok L" "vault_write L w nonce = Inr (blob, n)"
  obtains d h fs where "d = by_key (vl_set_order L (vw_entries w))"
    "blob = VAULT_MAGIC @ h @ concat fs" "length fs = length (row_windows (vault_rows d))" "n = length (vault_rows d)"
    "\<forall>i. load_vault L (Some (VAULT_MAGIC @ h @ concat (take i fs))) (vw_mask_key w) =
       Inr (rows_map (concat (take i (row_windows (vault_rows d)))), int (ambiguous_count d))"
proof -
  define d where "d = by_key (vl_set_order L (vw_entries w))"
  let ?ws = "row_windows (vault_rows d)"
  obtain fk h fs where fk: "fernet_key (vw_mask_key w) = Inr fk"
      and h: "frame (utf8 (header_json (ambiguous_count d) (length ?ws))) = Inr h"
      and fs: "chunk_frames L fk nonce ?ws = Inr fs" "blob = VAULT_MAGIC @ h @ concat fs" "n = length (vault_rows d)"
    using assms(2) by (auto simp: vault_write_def Let_def d_def result_simps)
  have "length fs' = length ws" if "chunk_frames L fk k ws = Inr fs'" for k ws fs'
    using that by (induction ws arbitrary: k fs') (auto simp: result_simps)
  moreover have "load_vault L (Some (VAULT_MAGIC @ h @ concat (take i fs))) (vw_mask_key w) =
       Inr (rows_map (concat (take i ?ws)), int (ambiguous_count d))" for i
    using load_frames_tokens [OF assms(1) chunk_frames_take [OF fs(1), of i], of "VAULT_MAGIC @ h" Map.empty]
      load_header_written [OF assms(1) h] fk
    by (simp add: load_vault_def rows_map_def row_entry_eq)
  ultimately show thesis
    using that [OF d_def fs(2)] fs(1,3) by blast
qed

lemma sources_order: "vault_lib_ok L \<Longrightarrow> distinct es \<Longrightarrow> sources_of (vl_set_order L es) = sources_of es"
  by (auto simp: fun_eq_iff sources_of_def vault_lib_ok_def)

text \<open>The entries of a writer never repeat.\<close>

lemma vault_add_keeps:
  assumes "distinct (vw_entries w)"
  shows "distinct (vw_entries (vault_add w es)) \<and> set (vw_entries (vault_add w es)) = set (vw_entries w) \<union> set es \<and>
    vw_mask_key (vault_add w es) = vw_mask_key w"
proof -
  have "distinct (foldl (\<lambda>acc e. if e \<in> set acc then acc else acc @ [e]) acc es) \<and>
      set (foldl (\<lambda>acc e. if e \<in> set acc then acc else acc @ [e]) acc es) = set acc \<union> set es"
    if "distinct acc" for acc :: "triple list"
    using that
  proof (induction es arbitrary: acc)
    case (Cons e es)
    then show ?case
      using Cons.IH [of acc] Cons.IH [of "acc @ [e]"] by (cases "e \<in> set acc") auto
  qed simp
  then show ?thesis
    using assms by (simp add: vault_add_def)
qed

lemma written_vault_loads:
  assumes "vault_lib_ok L" "distinct (vw_entries w)" "vault_write L w nonce = Inr (blob, n)"
  shows "\<exists>m. load_vault L (Some blob) (vw_mask_key w) =
      Inr (m, int (card {k. \<exists>s \<in> sources_of (vw_entries w) k. \<exists>t \<in> sources_of (vw_entries w) k. s \<noteq> t})) \<and>
    (\<forall>k s. m k = Some s \<longleftrightarrow> sources_of (vw_entries w) k = {s}) \<and> n = card (dom m)"
proof -
  obtain d h fs where d: "d = by_key (vl_set_order L (vw_entries w))" "blob = VAULT_MAGIC @ h @ concat fs"
      "length fs = length (row_windows (vault_rows d))" "n = length (vault_rows d)"
      and load: "\<forall>i. load_vault L (Some (VAULT_MAGIC @ h @ concat (take i fs))) (vw_mask_key w) =
        Inr (rows_map (concat (take i (row_windows (vault_rows d)))), int (ambiguous_count d))"
    by (rule load_prefix [OF assms(1,3)])
  let ?rows = "vault_rows d"
  note so = sources_order [OF assms(1,2)]
  have dist: "distinct (map (fst \<circ> row_entry) ?rows)"
    unfolding d(1) by (rule rows_distinct)
  have m: "rows_map ?rows k = Some s \<longleftrightarrow> sources_of (vw_entries w) k = {s}" for k s
    using rows_map_iff [OF dist] rows_set so d(1) by (cases k) simp
  have "dom (rows_map ?rows) = set (map (fst \<circ> row_entry) ?rows)"
    by (simp add: rows_map_def dom_map_of_conv_image_fst image_image)
  then have "card (dom (rows_map ?rows)) = n"
    using distinct_card [OF dist] d(4) by simp
  then show ?thesis
    using load [rule_format, of "length fs"] m d(1-3) so by (simp add: row_windows_concat ambiguous_card)
qed

text \<open>C19. A written vault gives back exactly the invertible part of what was recorded, whatever order the
  entries are iterated in: the map it loads sends a masked value to a source iff that is the only source
  recorded for it, the header counts the masked values with two or more sources, and the entry count
  returned by \<open>write\<close> is the size of the map.\<close>

theorem vault_roundtrip:
  assumes "vault_lib_ok L" "distinct (vw_entries w)" "vault_write L w nonce = Inr (blob, n)"
  shows "\<exists>m. load_vault L (Some blob) (vw_mask_key w) =
      Inr (m, int (card {k. \<exists>s \<in> sources_of (vw_entries w) k. \<exists>t \<in> sources_of (vw_entries w) k. s \<noteq> t})) \<and>
    (\<forall>k s. m k = Some s \<longleftrightarrow> sources_of (vw_entries w) k = {s}) \<and> n = card (dom m)"
  using written_vault_loads [OF assms] .

text \<open>A file cut after a whole chunk still loads: it is read as a smaller vault, and the chunk count of the
  header is not compared.\<close>

theorem vault_cut_at_chunk_loads:
  assumes "vault_lib_ok L" "vault_write L w nonce = Inr (blob, n)"
  shows "\<exists>pre fs. blob = pre @ concat fs \<and> (\<forall>i. \<exists>m a. load_vault L (Some (pre @ concat (take i fs))) (vw_mask_key w) = Inr (m, a))"
proof -
  obtain d h fs where "blob = VAULT_MAGIC @ h @ concat fs" and
      "\<forall>i. load_vault L (Some (VAULT_MAGIC @ h @ concat (take i fs))) (vw_mask_key w) =
        Inr (rows_map (concat (take i (row_windows (vault_rows d)))), int (ambiguous_count d))"
    by (rule load_prefix [OF assms])
  then show ?thesis
    by (intro exI [of _ "VAULT_MAGIC @ h"] exI [of _ fs]) simp
qed

text \<open>A vault does not open under another key. When the cipher refuses the writer's tokens under the other
  derived key, loading a non-empty vault fails with \<open>vault_key_mismatch\<close>; an empty one has no
  token to refuse and loads as the empty map.\<close>

theorem vault_needs_its_key:
  assumes "vault_lib_ok L" "vault_write L w nonce = Inr (blob, n)"
    and "fernet_key (vw_mask_key w) = Inr fk" "fernet_key other = Inr fk'"
    and "\<forall>i p. vl_decrypt L fk' (vl_encrypt L fk i p) = None"
  shows "if n = 0 then \<exists>a. load_vault L (Some blob) other = Inr (Map.empty, a)
    else load_vault L (Some blob) other = Inl VAULT_KEY_MISMATCH"
proof -
  define d where "d = by_key (vl_set_order L (vw_entries w))"
  let ?ws = "row_windows (vault_rows d)"
  obtain h fs where h: "frame (utf8 (header_json (ambiguous_count d) (length ?ws))) = Inr h"
      and fs: "chunk_frames L fk nonce ?ws = Inr fs" "blob = VAULT_MAGIC @ h @ concat fs" "n = length (vault_rows d)"
    using assms(2,3) by (auto simp: vault_write_def Let_def d_def result_simps)
  note head = load_header_written [OF assms(1) h, of "concat fs"]
  show ?thesis
  proof (cases ?ws)
    case Nil
    then have "n = 0"
      using row_windows_concat [of "vault_rows d"] fs(3) by simp
    moreover have "concat fs = []"
      using Nil fs(1) by simp
    ultimately show ?thesis
      using head fs(2) assms(4) by (simp add: load_vault_def load_frames.simps)
  next
    case (Cons window windows)
    then have "n \<noteq> 0"
      using fs(3) by (auto simp: row_windows_def CHUNK_ROWS_def)
    obtain f fs' where f: "fs = f # fs'" "frame (vl_encrypt L fk nonce (vl_write_table L window)) = Inr f"
      using fs(1) Cons by (auto simp: result_simps)
    have "f \<noteq> []"
      using frame_length [OF f(2)] by auto
    moreover have "vl_decrypt L fk' (vl_encrypt L fk nonce (vl_write_table L window)) = None"
      using assms(5) by blast
    ultimately have "load_frames L fk' blob (length (VAULT_MAGIC @ h)) Map.empty = Inl VAULT_KEY_MISMATCH"
      using read_frame_frame [OF f(2), of "VAULT_MAGIC @ h" "concat fs'"] fs(2) f(1)
      by (subst load_frames.simps) simp
    then show ?thesis
      using head fs(2) assms(4) \<open>n \<noteq> 0\<close> by (simp add: load_vault_def)
  qed
qed

section \<open>Witnesses\<close>

text \<open>A library that meets the laws: the key in front of the plaintext, strings as tagged characters, and
  the two numbers of the header read from their places.\<close>

definition demo_enc :: "string \<Rightarrow> bytes" where
  "demo_enc s = concat (map (\<lambda>c. [1, byte_of (of_char c)]) s) @ [0]"

fun demo_dec :: "bytes \<Rightarrow> string \<Rightarrow> string list" where
  "demo_dec [] acc = []"
| "demo_dec [b] acc = (if b = 0 then [acc] else [])"
| "demo_dec (b # c # bs) acc =
     (if b = 0 then acc # demo_dec (c # bs) [] else demo_dec bs (acc @ [char_of (unat c)]))"

fun demo_columns :: "string list \<Rightarrow> string list \<times> string list \<times> string list" where
  "demo_columns (a # b # c # r) = (case demo_columns r of (x, y, z) \<Rightarrow> (a # x, b # y, c # z))"
| "demo_columns _ = ([], [], [])"

definition demo_loads :: "bytes \<Rightarrow> cfg option" where
  "demo_loads bs =
     (let s = drop 22 (map (\<lambda>b. char_of (unat b)) bs); a = takeWhile is_digit s;
          c = takeWhile is_digit (drop (length a + 17) s) in
      Some (CDict (header_dict (dec_val a) (dec_val c))))"

definition demo_lib :: vault_lib where
  "demo_lib = \<lparr>vl_encrypt = (\<lambda>k n p. k @ p),
     vl_decrypt = (\<lambda>k t. if take (length k) t = k then Some (drop (length k) t) else None),
     vl_write_table = (\<lambda>rows. concat (map (\<lambda>(a, b, c). demo_enc a @ demo_enc b @ demo_enc c) rows)),
     vl_read_table = (\<lambda>b. Some (demo_columns (demo_dec b []))), vl_json_loads = demo_loads, vl_set_order = rev\<rparr>"

lemma demo_dec_enc: "demo_dec (concat (map (\<lambda>c. [1, byte_of (of_char c)]) s) @ 0 # bs) acc = (acc @ s) # demo_dec bs []"
proof (induction s arbitrary: acc)
  case Nil
  then show ?case by (cases bs) simp_all
next
  case (Cons c s)
  then show ?case by simp
qed

lemma demo_table: "demo_columns (demo_dec (concat (map (\<lambda>(a, b, c). demo_enc a @ demo_enc b @ demo_enc c) rows)) []) = table_columns rows"
proof (induction rows)
  case Nil
  then show ?case by (simp add: table_columns_def)
next
  case (Cons r rows)
  then show ?case
    by (cases r) (simp add: demo_enc_def demo_dec_enc table_columns_def)
qed

lemma utf8_ascii: "\<forall>c \<in> set s. (of_char c :: nat) < 128 \<Longrightarrow> map (\<lambda>b. char_of (unat b)) (utf8 s) = s"
  by (induction s) (auto simp: utf8_def utf8_char_def unat_byte [unfolded byte_of_def])

lemma utf8_length: "length (utf8 s) \<le> 2 * length s"
  by (induction s) (auto simp: utf8_def utf8_char_def Let_def)

lemma digit_ascii: "is_digit c \<Longrightarrow> (of_char c :: nat) < 128"
  by (auto simp: is_digit_def)

lemma header_ascii: "c \<in> set (header_json a n) \<Longrightarrow> (of_char c :: nat) < 128"
proof -
  have "\<forall>c \<in> set (dec_str m). (of_char c :: nat) < 128" for m
    using dec_str_digits [of m] digit_ascii by (auto simp: all_digits_iff)
  then show "c \<in> set (header_json a n) \<Longrightarrow> (of_char c :: nat) < 128"
    by (auto simp: header_json_def VAULT_FORMAT_VERSION_def)
qed

lemma digits_then: "takeWhile is_digit (dec_str m @ c # s) = dec_str m" if "\<not> is_digit c"
  using that dec_str_digits [of m] by (subst takeWhile_append2) (auto simp: all_digits_iff)

lemma demo_loads_header: "demo_loads (utf8 (header_json a c)) = Some (CDict (header_dict a c))"
proof -
  have nd: "\<not> is_digit (CHR '','')"
    by (simp add: is_digit_def)
  have "map (\<lambda>b. char_of (unat b)) (utf8 (header_json a c)) = header_json a c"
    using utf8_ascii header_ascii by blast
  then show ?thesis
    by (simp add: demo_loads_def header_json_def digits_then [OF nd])
qed

lemma demo_lib_ok: "vault_lib_ok demo_lib"
  by (simp add: vault_lib_ok_def demo_lib_def demo_table demo_loads_header)

lemma fernet_key_total: "length ikm \<in> {8, 32} \<Longrightarrow> \<exists>fk. fernet_key ikm = Inr fk \<and> length fk = 44"
proof -
  assume "length ikm \<in> {8, 32}"
  moreover have "VAULT_NAMESPACE \<noteq> []" "length (utf8 VAULT_NAMESPACE) = 5" "length VAULT_KEY_LABEL = 12"
    by code_simp+
  ultimately obtain k where "derive ikm VAULT_NAMESPACE VAULT_KEY_LABEL = Inr k" "length k = 32"
    using derive_total [of ikm VAULT_NAMESPACE VAULT_KEY_LABEL] by auto
  then show ?thesis
    by (simp add: fernet_key_def urlsafe_b64encode_def b64_text_def b64_sextets_length)
qed

lemma chunk_frames_total:
  assumes "\<forall>window \<in> set windows. \<forall>i. length (vl_encrypt L fk i (vl_write_table L window)) < 2 ^ 32"
  shows "\<exists>fs. chunk_frames L fk nonce windows = Inr fs"
  using assms
proof (induction windows arbitrary: nonce)
  case (Cons window windows)
  have "\<exists>fs. chunk_frames L fk (Suc nonce) windows = Inr fs"
    by (rule Cons.IH) (use Cons.prems in simp)
  then obtain fs where "chunk_frames L fk (Suc nonce) windows = Inr fs" ..
  moreover obtain f where "frame (vl_encrypt L fk nonce (vl_write_table L window)) = Inr f"
    using frame_total [of "vl_encrypt L fk nonce (vl_write_table L window)"] Cons.prems by auto
  ultimately show ?case by simp
qed simp

text \<open>Writing returns whenever the key has a legal length and no frame reaches 4 GiB.\<close>

lemma vault_write_total:
  fixes L w
  defines "d \<equiv> by_key (vl_set_order L (vw_entries w))"
  assumes "length (vw_mask_key w) \<in> {8, 32}" "length (utf8 (header_json (ambiguous_count d) (length (row_windows (vault_rows d))))) < 2 ^ 32"
    and "\<forall>fk. length fk = 44 \<longrightarrow> (\<forall>window \<in> set (row_windows (vault_rows d)). \<forall>i. length (vl_encrypt L fk i (vl_write_table L window)) < 2 ^ 32)"
  shows "\<exists>blob. vault_write L w nonce = Inr (blob, length (vault_rows d))"
proof -
  obtain fk where fk: "fernet_key (vw_mask_key w) = Inr fk" "length fk = 44"
    using fernet_key_total [OF assms(2)] by blast
  obtain fs where "chunk_frames L fk nonce (row_windows (vault_rows d)) = Inr fs"
    using chunk_frames_total assms(4) fk(2) by blast
  moreover obtain h where "frame (utf8 (header_json (ambiguous_count d) (length (row_windows (vault_rows d))))) = Inr h"
    using frame_total [OF assms(3)] by blast
  ultimately show ?thesis
    using fk(1) by (simp add: vault_write_def Let_def d_def)
qed

lemma header_small: "a < 10 \<Longrightarrow> c < 10 \<Longrightarrow> length (utf8 (header_json a c)) < 2 ^ 32"
proof -
  assume "a < 10" "c < 10"
  then have "length (dec_str a) \<le> 1" "length (dec_str c) \<le> 1" "length (dec_str CHUNK_ROWS) \<le> 5" "length (dec_str SEED_PROTOCOL_VERSION) \<le> 1"
    using dec_str_length_le [of a 1] dec_str_length_le [of c 1] dec_str_length_le [of CHUNK_ROWS 5] dec_str_length_le [of SEED_PROTOCOL_VERSION 1]
    by (simp_all add: CHUNK_ROWS_def SEED_PROTOCOL_VERSION_def)
  then have "length (header_json a c) < 200"
    by (simp add: header_json_def VAULT_FORMAT_VERSION_def)
  then show ?thesis
    using utf8_length [of "header_json a c"] by simp
qed
definition demo_writer :: vault_writer where
  "demo_writer = \<lparr>vw_mask_key = replicate 32 5, vw_entries = [(''ns'', ''x'', ''a''), (''ns'', ''y'', ''b''), (''ns'', ''y'', ''c'')]\<rparr>"

lemma demo_by_key: "by_key (rev (vw_entries demo_writer)) = [((''ns'', ''y''), None), ((''ns'', ''x''), Some ''a'')]"
  by (simp add: by_key_def demo_writer_def)

lemma demo_windows: "row_windows [(''ns'', ''x'', ''a'')] = [[(''ns'', ''x'', ''a'')]]"
  by (simp add: row_windows_def CHUNK_ROWS_def)

lemma demo_written: "\<exists>blob. vault_write demo_lib demo_writer 0 = Inr (blob, 1)"
proof -
  have d: "vl_set_order demo_lib = rev" "vault_rows (by_key (rev (vw_entries demo_writer))) = [(''ns'', ''x'', ''a'')]"
      "ambiguous_count (by_key (rev (vw_entries demo_writer))) = 1"
    by (simp_all add: demo_lib_def demo_by_key vault_rows_def ambiguous_count_def)
  show ?thesis
    using vault_write_total [of demo_writer demo_lib 0, unfolded d demo_windows] header_small [of 1 1]
    by (simp add: demo_lib_def demo_enc_def demo_writer_def)
qed

theorem vault_roundtrip_witness:
  "\<exists>blob m. vault_write demo_lib demo_writer 0 = Inr (blob, 1) \<and>
     (\<exists>a. load_vault demo_lib (Some blob) (vw_mask_key demo_writer) = Inr (m, a)) \<and>
     m (''ns'', ''x'') = Some ''a'' \<and> m (''ns'', ''y'') = None"
proof -
  obtain blob where blob: "vault_write demo_lib demo_writer 0 = Inr (blob, 1)"
    using demo_written by blast
  have "distinct (vw_entries demo_writer)"
    by (simp add: demo_writer_def)
  then obtain m a where m: "load_vault demo_lib (Some blob) (vw_mask_key demo_writer) = Inr (m, a)"
      "\<forall>k s. m k = Some s \<longleftrightarrow> sources_of (vw_entries demo_writer) k = {s}"
    using vault_roundtrip [OF demo_lib_ok _ blob] by blast
  have src: "sources_of (vw_entries demo_writer) (''ns'', ''x'') = {''a''}"
      "sources_of (vw_entries demo_writer) (''ns'', ''y'') = {''b'', ''c''}"
    by (auto simp: sources_of_def demo_writer_def)
  have "m (''ns'', ''y'') \<noteq> Some s" for s
    using m(2) src(2) by (auto simp: doubleton_eq_iff)
  then have "m (''ns'', ''x'') = Some ''a'' \<and> m (''ns'', ''y'') = None"
    using m(2) src(1) by blast
  then show ?thesis
    using blob m(1) by blast
qed

end
