(* ===== verification/Fpe_Column.thy ===== *)
theory Fpe_Column
  imports FPE Determinism Vault
begin

text \<open>
  Masking and unmasking one fpe column: \<open>FpeStrategyHandler\<close> of \<open>execution/_strategies/_fpe.py\<close> (settings,
  key, tweak, missing-data policy, chunked encryption, error codes, warnings) and \<open>_decrypt_column\<close> of
  \<open>unmask.py\<close>, which resolves the settings a second time. The native kernel route of the handler
  (\<open>ctx.seq_native\<close>) is not modelled: the context here has none. A setting of a type outside the
  configuration schema stops with \<open>SettingNotString\<close>.

  The locale \<open>reversible_column\<close> states what makes a masked column recoverable and what follows from it;
  it is interpreted on the two functions here and on the vault lookup in theory \<open>Unmask\<close>.
\<close>

section \<open>Model\<close>

datatype strategy_code =
    FPE_REQUIRES_NAMESPACE | FPE_CHARSET_DUPLICATE_SYMBOLS | FPE_CHARSET_DEGENERATE
  | FPE_UNENCRYPTABLE_VALUE_CODE | FPE_UNENCRYPTABLE_DOMAIN_CODE | FPE_UNENCRYPTABLE_LENGTH_CODE
  | FPE_CHECKSUM_UNSUPPORTED_CODE | FPE_CHECKSUM_INVALID_SOURCE_CODE

text \<open>A \<open>StrategyError\<close> (or \<open>ExecutionError\<close>) with its code, or an exception no handler of the two
  functions catches.\<close>

datatype column_error =
    StrategyError strategy_code | EscapedFpe fpe_error | EscapedDerive determinism_error | SettingNotString

definition strategy_code_for_unencryptable :: "fpe_code \<Rightarrow> strategy_code" where
  "strategy_code_for_unencryptable code =
     (case code of FPE_UNENCRYPTABLE_DOMAIN \<Rightarrow> FPE_UNENCRYPTABLE_DOMAIN_CODE
      | FPE_UNENCRYPTABLE_LENGTH \<Rightarrow> FPE_UNENCRYPTABLE_LENGTH_CODE
      | _ \<Rightarrow> FPE_UNENCRYPTABLE_VALUE_CODE)"

text \<open>The two \<open>except\<close> clauses around the encryption.\<close>

fun strategy_error_for :: "fpe_error \<Rightarrow> column_error" where
  "strategy_error_for (Unencryptable code) = StrategyError (strategy_code_for_unencryptable code)"
| "strategy_error_for (ChecksumInvalidSource scheme) = StrategyError FPE_CHECKSUM_INVALID_SOURCE_CODE"
| "strategy_error_for (ChecksumUnsupported scheme) = StrategyError FPE_CHECKSUM_UNSUPPORTED_CODE"
| "strategy_error_for e = EscapedFpe e"

text \<open>\<open>cfg.get(k) or None\<close> for a setting that is a string.\<close>

definition optional_setting :: "config \<Rightarrow> string \<Rightarrow> column_error + string option" where
  "optional_setting cfg k =
     (let v = cfg_get cfg k CNull in
      if \<not> cfg_truthy v then Inr None
      else case v of CStr s \<Rightarrow> Inr (Some s) | _ \<Rightarrow> Inl SettingNotString)"

definition charset_setting :: "config \<Rightarrow> column_error + string" where
  "charset_setting cfg =
     (case cfg_get cfg ''charset'' (CStr ''digits'') of
        CStr spec \<Rightarrow> Inr (resolve_fpe_charset spec) | _ \<Rightarrow> Inl SettingNotString)"

text \<open>The worker count \<open>min(chunk_count, cpu_count)\<close> and \<open>np.array_split\<close>, a parameter: numpy documents
  that the parts of an array, in order, are the array.\<close>

record worker_pool =
  wp_workers :: nat
  wp_split :: "string list \<Rightarrow> nat \<Rightarrow> string list list"

definition array_split_law :: "worker_pool \<Rightarrow> bool" where
  "array_split_law P \<longleftrightarrow> (\<forall>xs w. 0 < w \<longrightarrow> concat (wp_split P xs w) = xs)"

text \<open>\<open>_encrypt_values\<close>: the results of the worker threads are taken in the order of the chunks, so the
  exception that is raised is the one of the first failing chunk.\<close>

definition encrypt_values ::
    "worker_pool \<Rightarrow> (string \<Rightarrow> fpe_error + string) \<Rightarrow> string list \<Rightarrow> fpe_error + string list" where
  "encrypt_values P encrypt_one values =
     (let workers = wp_workers P in
      if workers \<le> 1 \<or> length values < workers then map_result encrypt_one values
      else and_then (map_result (map_result encrypt_one) (wp_split P values workers)) (\<lambda>chunks. Inr (concat chunks)))"

text \<open>The values that are sent to the cipher, and the column rebuilt from their ciphertexts.\<close>

definition cipher_values :: "cell list \<Rightarrow> string list" where
  "cipher_values cells = filter (\<lambda>s. s \<noteq> []) (map cell_str (filter (\<lambda>c. c \<noteq> NullCell) cells))"

fun refill :: "cell list \<Rightarrow> string list \<Rightarrow> cell list" where
  "refill [] es = []"
| "refill (c # cs) es =
     (if c = NullCell then NullCell # refill cs es
      else if cell_str c = [] then TextCell [] # refill cs es
      else case es of e # es' \<Rightarrow> TextCell e # refill cs es' | [] \<Rightarrow> NullCell # refill cs es)"

datatype quality_warning =
    FPE_PARTIAL_PLAINTEXT_DISCLOSURE string nat nat
  | FPE_JOIN_GROUP_ACTIVE string string

text \<open>\<open>str.isalnum\<close> of one character: letters, digits, and the superscripts and fractions of Latin-1.\<close>

definition py_isalnum_char :: "char \<Rightarrow> bool" where
  "py_isalnum_char c \<longleftrightarrow> py_isalpha_char c \<or> py_isdigit_char c \<or> (of_char c :: nat) \<in> {188, 189, 190}"

definition residual_risk_warnings :: "string list \<Rightarrow> string \<Rightarrow> bool \<Rightarrow> string \<Rightarrow> quality_warning list" where
  "residual_risk_warnings values charset preserve_sep column =
     (let partial_prefix = length (filter (\<lambda>v. preserve_sep \<and> (\<exists>ch \<in> set v. ch \<in> set charset) \<and>
            (\<exists>ch \<in> set v. ch \<notin> set charset \<and> py_isalnum_char ch)) values) in
      if partial_prefix \<noteq> 0 then [FPE_PARTIAL_PLAINTEXT_DISCLOSURE column partial_prefix (length values)] else [])"

definition fpe_run ::
    "aes \<Rightarrow> stdnum \<Rightarrow> worker_pool \<Rightarrow> bytes \<Rightarrow> string \<Rightarrow> string option \<Rightarrow> config \<Rightarrow> cell list
      \<Rightarrow> column_error + (cell list \<times> quality_warning list)" where
  "fpe_run A S P ikm column namespace cfg cells =
     (case namespace of
        None \<Rightarrow> Inl (StrategyError FPE_REQUIRES_NAMESPACE)
      | Some ns \<Rightarrow>
          and_then (charset_setting cfg) (\<lambda>charset.
          if check_charset_unique charset \<noteq> Inr () then Inl (StrategyError FPE_CHARSET_DUPLICATE_SYMBOLS)
          else if length charset < 2 then Inl (StrategyError FPE_CHARSET_DEGENERATE)
          else and_then (optional_setting cfg ''checksum'') (\<lambda>checksum.
            and_then (optional_setting cfg ''fpe_join_group'') (\<lambda>join_group.
            and_then (on_error EscapedFpe (case join_group of
                Some g \<Rightarrow> build_ff1_tweak FF1_TWEAK_SCOPE_JOIN_GROUP g
              | None \<Rightarrow> build_ff1_tweak FF1_TWEAK_SCOPE_COLUMN column)) (\<lambda>tweak.
            and_then (on_error EscapedDerive (derive ikm ns FF1_KEY_LABEL)) (\<lambda>key.
            let preserve_sep = cfg_truthy (cfg_get cfg ''preserve_separators'' (CBool True));
                luhn = (checksum = None \<and> cfg_truthy (cfg_get cfg ''validate_luhn'' (CBool False)) \<and>
                  list_all (\<lambda>c. c \<in> set DIGITS_ONLY) charset);
                fc = \<lparr>fc_key = key, fc_charset = charset, fc_tweak = tweak, fc_preserve_separators = preserve_sep,
                      fc_validate_luhn = luhn, fc_checksum = checksum\<rparr>;
                values = cipher_values cells in
            and_then (on_error strategy_error_for (encrypt_values P (fpe_encrypt_value A S fc) values)) (\<lambda>encrypted.
            Inr (refill cells encrypted,
              residual_risk_warnings values charset preserve_sep column @
              (case join_group of Some g \<Rightarrow> [FPE_JOIN_GROUP_ACTIVE column g] | None \<Rightarrow> [])))))))))"

text \<open>\<open>unmask._decrypt_column\<close>, with the key and the tweak the caller resolved.\<close>

definition decrypt_one :: "aes \<Rightarrow> stdnum \<Rightarrow> fpe_config \<Rightarrow> cell \<Rightarrow> column_error + cell" where
  "decrypt_one A S fc v =
     (if v = NullCell then Inr NullCell
      else if cell_str v = [] then Inr (TextCell [])
      else and_then (on_error EscapedFpe (fpe_decrypt_value A S fc (cell_str v))) (\<lambda>s. Inr (TextCell s)))"

definition decrypt_column ::
    "aes \<Rightarrow> stdnum \<Rightarrow> bytes \<Rightarrow> config \<Rightarrow> bytes \<Rightarrow> cell list \<Rightarrow> column_error + cell list" where
  "decrypt_column A S key cfg tweak cells =
     and_then (charset_setting cfg) (\<lambda>charset.
     if check_charset_unique charset \<noteq> Inr () then Inl (StrategyError FPE_CHARSET_DUPLICATE_SYMBOLS)
     else if length charset < 2 then Inl (StrategyError FPE_CHARSET_DEGENERATE)
     else and_then (optional_setting cfg ''checksum'') (\<lambda>checksum.
       let fc = \<lparr>fc_key = key, fc_charset = charset, fc_tweak = tweak,
                 fc_preserve_separators = cfg_truthy (cfg_get cfg ''preserve_separators'' (CBool True)),
                 fc_validate_luhn = (checksum = None \<and> cfg_truthy (cfg_get cfg ''validate_luhn'' (CBool False)) \<and>
                   list_all (\<lambda>c. c \<in> set DIGITS_ONLY) charset),
                 fc_checksum = checksum\<rparr> in
       map_result (decrypt_one A S fc) cells))"

text \<open>The reversal of one fpe column as \<open>unmask_pipeline\<close> calls it: key and tweak, then the column.\<close>

definition unmask_fpe_column ::
    "aes \<Rightarrow> stdnum \<Rightarrow> bytes \<Rightarrow> string \<Rightarrow> string option \<Rightarrow> config \<Rightarrow> cell list \<Rightarrow> column_error + cell list" where
  "unmask_fpe_column A S ikm column namespace cfg cells =
     (case namespace of
        None \<Rightarrow> Inl (StrategyError FPE_REQUIRES_NAMESPACE)
      | Some ns \<Rightarrow>
          and_then (optional_setting cfg ''fpe_join_group'') (\<lambda>join_group.
          and_then (on_error EscapedFpe (build_ff1_tweak
              (if join_group \<noteq> None then FF1_TWEAK_SCOPE_JOIN_GROUP else FF1_TWEAK_SCOPE_COLUMN)
              (case join_group of Some g \<Rightarrow> g | None \<Rightarrow> column))) (\<lambda>tweak.
          and_then (on_error EscapedDerive (derive ikm ns FF1_KEY_LABEL)) (\<lambda>key.
          decrypt_column A S key cfg tweak cells))))"

section \<open>Chunked encryption\<close>

lemma map_result_append:
  "map_result f (xs @ ys) = and_then (map_result f xs) (\<lambda>a. and_then (map_result f ys) (\<lambda>b. Inr (a @ b)))"
proof (induction xs)
  case Nil
  then show ?case by (cases "map_result f ys") simp_all
next
  case (Cons x xs)
  then show ?case
    by (cases "f x"; cases "map_result f xs"; cases "map_result f ys") simp_all
qed

lemma map_result_concat:
  "map_result f (concat xss) = and_then (map_result (map_result f) xss) (\<lambda>yss. Inr (concat yss))"
proof (induction xss)
  case (Cons xs xss)
  then show ?case
    by (cases "map_result f xs"; cases "map_result (map_result f) xss") (simp_all add: map_result_append)
qed simp

text \<open>The chunked route returns the list, or raises the error, of encrypting the values one after the other.\<close>

lemma encrypt_values_eq:
  assumes "array_split_law P"
  shows "encrypt_values P encrypt_one values = map_result encrypt_one values"
  using assms map_result_concat [of encrypt_one "wp_split P values (wp_workers P)"]
  by (auto simp: encrypt_values_def array_split_law_def Let_def)

section \<open>Reversal\<close>

text \<open>A recovered column is a column of strings.\<close>

definition cell_text :: "cell \<Rightarrow> cell" where
  "cell_text c = (if c = NullCell then NullCell else TextCell (cell_str c))"

lemma cell_text_simps [simp]: "cell_text NullCell = NullCell" "cell_text (TextCell s) = TextCell s" "cell_text (OtherCell s) = TextCell s"
  by (simp_all add: cell_text_def)

text \<open>What a client of a reversible masking may rely on: in its domain, revealing a hidden column gives
  the column as text.\<close>

locale reversible_column =
  fixes domain :: "cell list \<Rightarrow> bool" and hide :: "cell list \<Rightarrow> 'e + cell list" and reveal :: "cell list \<Rightarrow> 'f + cell list"
  assumes reveals: "domain cs \<Longrightarrow> hide cs = Inr out \<Longrightarrow> reveal out = Inr (map cell_text cs)"
begin

lemma hide_inj: "domain cs \<Longrightarrow> domain cs' \<Longrightarrow> hide cs = Inr out \<Longrightarrow> hide cs' = Inr out \<Longrightarrow> map cell_text cs = map cell_text cs'"
  using reveals [of cs out] reveals [of cs' out] by simp

lemma rows_kept: "domain cs \<Longrightarrow> hide cs = Inr out \<Longrightarrow> reveal out = Inr back' \<Longrightarrow> length back' = length cs"
  using reveals [of cs out] by auto

end

text \<open>The values whose encryption the strategy can undo: any in plain mode; in the check-digit modes, the
  values the mode is meant for, over a charset that has the mode's alphabet.\<close>

definition reversible_value :: "fpe_config \<Rightarrow> string \<Rightarrow> bool" where
  "reversible_value fc s \<longleftrightarrow>
     (case fc_checksum fc of
        None \<Rightarrow> \<not> fc_validate_luhn fc \<or>
          set DIGITS_ONLY \<subseteq> set (fc_charset fc) \<and> 2 \<le> length (in_body (fc_charset fc) s) \<and>
          luhn_check_digit (butlast (in_body (fc_charset fc) s)) = Inr [last (in_body (fc_charset fc) s)]
      | Some scheme \<Rightarrow> \<exists>req. map_of SCHEME_REQUIRED_CHARSET scheme = Some req \<and> set req \<subseteq> set (fc_charset fc) \<and>
          set (in_body (fc_charset fc) s) \<subseteq> set req)"

lemma reversible_value_inverts:
  assumes "aes_lengths A" "stdnum_laws S" "reversible_value fc s" "fpe_encrypt_value A S fc s = Inr out"
  shows "length out = length s \<and> fpe_decrypt_value A S fc out = Inr s"
proof (cases "fc_checksum fc")
  case (Some scheme)
  then show ?thesis
    using fpe_checksum_inverts [OF assms(1,2) Some _ _ _ assms(4)] assms(3) by (auto simp: reversible_value_def)
next
  case None
  show ?thesis
  proof (cases "fc_validate_luhn fc")
    case True
    then show ?thesis
      using fpe_luhn_inverts [OF assms(1) None True _ _ _ assms(4)] assms(3) None by (simp add: reversible_value_def)
  next
    case False
    then show ?thesis
      using fpe_plain_inverts [OF assms(1) None False assms(4)] by simp
  qed
qed

lemma cipher_values_Cons [simp]:
  "cipher_values (c # cs) = (if c = NullCell \<or> cell_str c = [] then cipher_values cs else cell_str c # cipher_values cs)"
  by (simp add: cipher_values_def)

lemma decrypt_refill:
  assumes "aes_lengths A" "stdnum_laws S" "\<forall>v \<in> set (cipher_values cells). reversible_value fc v"
    and "map_result (fpe_encrypt_value A S fc) (cipher_values cells) = Inr es"
  shows "map_result (decrypt_one A S fc) (refill cells es) = Inr (map cell_text cells)"
  using assms(3,4)
proof (induction cells arbitrary: es)
  case (Cons c cs)
  show ?case
  proof (cases "c = NullCell \<or> cell_str c = []")
    case True
    then show ?thesis
      using Cons by (auto simp: decrypt_one_def cell_text_def)
  next
    case False
    obtain e es' where e: "es = e # es'" "fpe_encrypt_value A S fc (cell_str c) = Inr e"
        "map_result (fpe_encrypt_value A S fc) (cipher_values cs) = Inr es'"
      using Cons.prems(2) False by (auto simp: result_simps)
    have "length e = length (cell_str c) \<and> fpe_decrypt_value A S fc e = Inr (cell_str c)"
      using reversible_value_inverts [OF assms(1,2) _ e(2)] Cons.prems(1) False by simp
    then show ?thesis
      using Cons.IH [OF _ e(3)] Cons.prems(1) False e(1) by (auto simp: decrypt_one_def cell_text_def)
  qed
qed simp

lemma refill_length: "length (refill cells es) = length cells"
  by (induction cells arbitrary: es) (auto split: list.split)

text \<open>The settings an fpe column is masked with.\<close>

definition column_settings :: "bytes \<Rightarrow> string \<Rightarrow> string \<Rightarrow> config \<Rightarrow> column_error + fpe_config" where
  "column_settings ikm column ns cfg =
     and_then (charset_setting cfg) (\<lambda>charset.
     and_then (optional_setting cfg ''checksum'') (\<lambda>checksum.
     and_then (optional_setting cfg ''fpe_join_group'') (\<lambda>join_group.
     and_then (on_error EscapedFpe (case join_group of
         Some g \<Rightarrow> build_ff1_tweak FF1_TWEAK_SCOPE_JOIN_GROUP g
       | None \<Rightarrow> build_ff1_tweak FF1_TWEAK_SCOPE_COLUMN column)) (\<lambda>tweak.
     and_then (on_error EscapedDerive (derive ikm ns FF1_KEY_LABEL)) (\<lambda>key.
     Inr \<lparr>fc_key = key, fc_charset = charset, fc_tweak = tweak,
          fc_preserve_separators = cfg_truthy (cfg_get cfg ''preserve_separators'' (CBool True)),
          fc_validate_luhn = (checksum = None \<and> cfg_truthy (cfg_get cfg ''validate_luhn'' (CBool False)) \<and>
            list_all (\<lambda>c. c \<in> set DIGITS_ONLY) charset),
          fc_checksum = checksum\<rparr>)))))"

lemma fpe_run_settings:
  assumes "array_split_law P" "fpe_run A S P ikm column ns cfg cells = Inr (out, warnings)"
  shows "\<exists>n fc es. ns = Some n \<and> column_settings ikm column n cfg = Inr fc \<and> distinct (fc_charset fc) \<and> 2 \<le> length (fc_charset fc) \<and>
    map_result (fpe_encrypt_value A S fc) (cipher_values cells) = Inr es \<and> out = refill cells es"
proof -
  obtain n where n: "ns = Some n"
    using assms(2) by (cases ns) (simp_all add: fpe_run_def)
  obtain charset checksum join_group tweak key es where
      set1: "charset_setting cfg = Inr charset" "distinct charset" "2 \<le> length charset"
        "optional_setting cfg ''checksum'' = Inr checksum" "optional_setting cfg ''fpe_join_group'' = Inr join_group"
      and set2: "(case join_group of Some g \<Rightarrow> build_ff1_tweak FF1_TWEAK_SCOPE_JOIN_GROUP g
        | None \<Rightarrow> build_ff1_tweak FF1_TWEAK_SCOPE_COLUMN column) = Inr tweak" "derive ikm n FF1_KEY_LABEL = Inr key"
      and es: "map_result (fpe_encrypt_value A S \<lparr>fc_key = key, fc_charset = charset, fc_tweak = tweak,
          fc_preserve_separators = cfg_truthy (cfg_get cfg ''preserve_separators'' (CBool True)),
          fc_validate_luhn = (checksum = None \<and> cfg_truthy (cfg_get cfg ''validate_luhn'' (CBool False)) \<and>
            list_all (\<lambda>c. c \<in> set DIGITS_ONLY) charset),
          fc_checksum = checksum\<rparr>) (cipher_values cells) = Inr es" "out = refill cells es"
    using assms(2)
    by (auto simp: n fpe_run_def and_then_eq_Inr on_error_eq_Inr Let_def encrypt_values_eq [OF assms(1)] check_charset_unique_def
        require_def split: if_splits)
  then have "column_settings ikm column n cfg = Inr \<lparr>fc_key = key, fc_charset = charset, fc_tweak = tweak,
          fc_preserve_separators = cfg_truthy (cfg_get cfg ''preserve_separators'' (CBool True)),
          fc_validate_luhn = (checksum = None \<and> cfg_truthy (cfg_get cfg ''validate_luhn'' (CBool False)) \<and>
            list_all (\<lambda>c. c \<in> set DIGITS_ONLY) charset),
          fc_checksum = checksum\<rparr>"
    by (simp add: column_settings_def)
  then show ?thesis
    using n set1(2,3) es by (intro exI [of _ n]) auto
qed

lemma unmask_settings:
  assumes "column_settings ikm column n cfg = Inr fc" "distinct (fc_charset fc)" "2 \<le> length (fc_charset fc)"
  shows "unmask_fpe_column A S ikm column (Some n) cfg cells = map_result (decrypt_one A S fc) cells"
proof -
  obtain charset checksum join_group tweak key where
      "charset_setting cfg = Inr charset" "optional_setting cfg ''checksum'' = Inr checksum"
      "optional_setting cfg ''fpe_join_group'' = Inr join_group"
      "(case join_group of Some g \<Rightarrow> build_ff1_tweak FF1_TWEAK_SCOPE_JOIN_GROUP g
        | None \<Rightarrow> build_ff1_tweak FF1_TWEAK_SCOPE_COLUMN column) = Inr tweak"
      "derive ikm n FF1_KEY_LABEL = Inr key"
      "fc = \<lparr>fc_key = key, fc_charset = charset, fc_tweak = tweak,
          fc_preserve_separators = cfg_truthy (cfg_get cfg ''preserve_separators'' (CBool True)),
          fc_validate_luhn = (checksum = None \<and> cfg_truthy (cfg_get cfg ''validate_luhn'' (CBool False)) \<and>
            list_all (\<lambda>c. c \<in> set DIGITS_ONLY) charset),
          fc_checksum = checksum\<rparr>"
    using assms(1) by (auto simp: column_settings_def and_then_eq_Inr on_error_eq_Inr)
  then show ?thesis
    using assms(2,3)
    by (cases join_group) (simp_all add: unmask_fpe_column_def decrypt_column_def check_charset_unique_def Let_def)
qed

definition reversible_cells :: "bytes \<Rightarrow> string \<Rightarrow> string option \<Rightarrow> config \<Rightarrow> cell list \<Rightarrow> bool" where
  "reversible_cells ikm column ns cfg cells \<longleftrightarrow>
     (\<forall>n fc. ns = Some n \<longrightarrow> column_settings ikm column n cfg = Inr fc \<longrightarrow> (\<forall>v \<in> set (cipher_values cells). reversible_value fc v))"

lemma fpe_column_inverts:
  assumes "aes_lengths A" "stdnum_laws S" "array_split_law P" "reversible_cells ikm column ns cfg cells"
    and "fpe_run A S P ikm column ns cfg cells = Inr (out, warnings)"
  shows "unmask_fpe_column A S ikm column ns cfg out = Inr (map cell_text cells)"
proof -
  obtain n fc es where s: "ns = Some n" "column_settings ikm column n cfg = Inr fc" "distinct (fc_charset fc)"
      "2 \<le> length (fc_charset fc)" "map_result (fpe_encrypt_value A S fc) (cipher_values cells) = Inr es" "out = refill cells es"
    using fpe_run_settings [OF assms(3,5)] by blast
  then have "\<forall>v \<in> set (cipher_values cells). reversible_value fc v"
    using assms(4) by (simp add: reversible_cells_def)
  then show ?thesis
    using decrypt_refill [OF assms(1,2) _ s(5)] unmask_settings [OF s(2-4)] s(1,6) by simp
qed

interpretation fpe_column: reversible_column
  "\<lambda>cells. aes_lengths A \<and> stdnum_laws S \<and> array_split_law P \<and> reversible_cells ikm column ns cfg cells"
  "\<lambda>cells. and_then (fpe_run A S P ikm column ns cfg cells) (\<lambda>r. Inr (fst r))"
  "unmask_fpe_column A S ikm column ns cfg"
  by unfold_locales (auto simp: and_then_eq_Inr intro: fpe_column_inverts)

text \<open>Unmasking an fpe column gives back the column. With the configuration and key of the mask run, in
  every mode and under a join group or not, whenever the handler masks a column of values the mode can
  undo, the reversal, which resolves the settings again, returns every value as text, with nulls and empty
  strings in their places.\<close>

theorem fpe_column_roundtrip:
  assumes "aes_lengths A" "stdnum_laws S" "array_split_law P" "reversible_cells ikm column ns cfg cells"
    and "fpe_run A S P ikm column ns cfg cells = Inr (out, warnings)"
  shows "unmask_fpe_column A S ikm column ns cfg out = Inr (map cell_text cells) \<and> length out = length cells"
proof -
  have hidden: "and_then (fpe_run A S P ikm column ns cfg cells) (\<lambda>r. Inr (fst r)) = Inr out"
    using assms(5) by simp
  have "length out = length cells"
    using fpe_run_settings [OF assms(3,5)] refill_length by blast
  then show ?thesis
    using fpe_column.reveals [OF _ hidden] assms(1-4) by simp
qed

section \<open>Witnesses\<close>

text \<open>Four workers, with parts as numpy makes them: the first \<open>n mod w\<close> are one longer.\<close>

fun slices :: "nat list \<Rightarrow> 'a list \<Rightarrow> 'a list list" where
  "slices [] xs = []"
| "slices (n # ns) xs = take n xs # slices ns (drop n xs)"

definition demo_pool :: worker_pool where
  "demo_pool = \<lparr>wp_workers = 4, wp_split = (\<lambda>xs w. let n = length xs in
     slices (replicate (n mod w) (n div w + 1) @ replicate (w - n mod w) (n div w)) xs)\<rparr>"

lemma concat_slices: "concat (slices ns xs) = take (sum_list ns) xs"
  by (induction ns arbitrary: xs) (simp_all add: take_add)

lemma demo_pool_law: "array_split_law demo_pool"
proof -
  have "n mod w * (n div w + 1) + (w - n mod w) * (n div w) = w * (n div w) + n mod w" if "0 < w" for n w :: nat
    using mod_less_divisor [OF that, of n] by (simp add: algebra_simps flip: add_mult_distrib)
  then show ?thesis
    by (simp add: array_split_law_def demo_pool_def Let_def concat_slices sum_list_replicate)
qed

definition demo_cells :: "cell list" where
  "demo_cells = [TextCell ''123456'', NullCell, TextCell [], OtherCell ''900001'']"

lemma digits_profile:
  assumes "length key = 32" "length tw \<le> FF1_MAX_TWEAK_LEN" "6 \<le> n" "n \<le> 256"
  shows "profile_ok key DIGITS_ONLY tw n"
  using demo_profile [OF assms(3,4)] assms(1,2) by (simp add: profile_ok_def)

lemma demo_column_masks:
  "\<exists>out w. fpe_run demo_aes demo_stdnum demo_pool (replicate 32 7) ''c'' (Some ''ns'') [] demo_cells = Inr (out, w)"
proof -
  have "length (utf8 ''ns'') = 2" "length FF1_KEY_LABEL = 10"
    by code_simp+
  then obtain key where key: "derive (replicate 32 7) ''ns'' FF1_KEY_LABEL = Inr key" "length key = 32"
    using derive_total [of "replicate 32 7" "''ns''" FF1_KEY_LABEL] by auto
  obtain tw where tw: "build_ff1_tweak FF1_TWEAK_SCOPE_COLUMN ''c'' = Inr tw" "length tw \<le> FF1_MAX_TWEAK_LEN"
    by (auto simp: build_ff1_tweak_def FF1_TWEAK_SCOPE_COLUMN_def utf8_def utf8_char_def to_bytes_def FF1_MAX_TWEAK_LEN_def)
  define fc where "fc = \<lparr>fc_key = key, fc_charset = DIGITS_ONLY, fc_tweak = tw, fc_preserve_separators = True,
    fc_validate_luhn = False, fc_checksum = None\<rparr>"
  have enc: "\<exists>e. fpe_encrypt_value demo_aes demo_stdnum fc s = Inr e" if "all_digits s" "6 \<le> length s" "length s \<le> 256" for s
    by (rule fpe_plain_total [OF demo_aes_lengths])
      (use digits_profile [OF key(2) tw(2) that(2,3)] that(1) in \<open>simp_all add: fc_def digits_in_body\<close>)
  have "\<exists>es. map_result (fpe_encrypt_value demo_aes demo_stdnum fc) (cipher_values demo_cells) = Inr es"
    unfolding map_result_total by (rule ballI, rule enc) (auto simp: cipher_values_def demo_cells_def all_digits_iff is_digit_def)
  then obtain es where es: "map_result (fpe_encrypt_value demo_aes demo_stdnum fc) (cipher_values demo_cells) = Inr es" ..
  have cs: "charset_setting [] = Inr DIGITS_ONLY" "check_charset_unique DIGITS_ONLY = Inr ()" "\<not> length DIGITS_ONLY < 2"
    by code_simp+
  show ?thesis
    using es key(1) tw(1) cs by (simp add: fpe_run_def optional_setting_def cfg_get_def Let_def encrypt_values_eq [OF demo_pool_law] fc_def)
qed

lemma demo_cells_reversible: "reversible_cells ikm column ns [] cells"
  by (auto simp: reversible_cells_def column_settings_def and_then_eq_Inr on_error_eq_Inr optional_setting_def cfg_get_def
      reversible_value_def)

theorem fpe_column_roundtrip_witness:
  "\<exists>out w. fpe_run demo_aes demo_stdnum demo_pool (replicate 32 7) ''c'' (Some ''ns'') [] demo_cells = Inr (out, w) \<and>
     unmask_fpe_column demo_aes demo_stdnum (replicate 32 7) ''c'' (Some ''ns'') [] out =
       Inr [TextCell ''123456'', NullCell, TextCell [], TextCell ''900001'']"
proof -
  obtain out w where run: "fpe_run demo_aes demo_stdnum demo_pool (replicate 32 7) ''c'' (Some ''ns'') [] demo_cells = Inr (out, w)"
    using demo_column_masks by blast
  show ?thesis
    using fpe_column_roundtrip [OF demo_aes_lengths demo_stdnum_laws demo_pool_law demo_cells_reversible run] run
    by (auto simp: demo_cells_def)
qed

end
