(* ===== verification/Unmask.thy ===== *)
theory Unmask
  imports Fpe_Column
begin

text \<open>
  Detokenization, \<open>unmask.py\<close>: \<open>_vault_recover_column\<close> and \<open>unmask_pipeline\<close>, over the fpe reversal of
  theory \<open>Fpe_Column\<close>, the vault of theory \<open>Vault\<close> and the admission of theory \<open>Key_Admission\<close>. Tables and
  dictionaries are association lists in insertion order; an Arrow table has distinct column names. A name or
  strategy that is not a string is outside the configuration schema and stops with \<open>UnmaskNotString\<close>.
\<close>

section \<open>Model\<close>

datatype unmask_error =
    UnmaskColumn column_error | UnmaskVault vault_error | UnmaskSecret secret_exn | UnmaskSeed seed_error
  | UnmaskNotMapping | UnmaskNotString | UnmaskArrowType

datatype unmask_status =
    ReversedUnverified | VaultReversed | VaultMiss | Irreversible | Untouched | TableMissing

record unmask_report =
  ur_table :: string
  ur_column :: string
  ur_strategy :: "string option"
  ur_status :: unmask_status
  ur_detail :: string

text \<open>\<open>pa.array(values, type=pa.string())\<close> refuses a value that is neither null nor a string.\<close>

definition string_array :: "cell list \<Rightarrow> unmask_error + cell list" where
  "string_array cells = (if \<exists>c \<in> set cells. \<exists>s. c = OtherCell s then Inl UnmaskArrowType else Inr cells)"

definition recover_cell :: "(string \<times> string \<Rightarrow> string option) \<Rightarrow> string \<Rightarrow> cell \<Rightarrow> cell" where
  "recover_cell vmap ns v =
     (if v = NullCell then NullCell
      else case vmap (ns, cell_str v) of None \<Rightarrow> v | Some s \<Rightarrow> TextCell s)"

text \<open>\<open>"; ".join(parts)\<close>.\<close>

fun join_parts :: "string list \<Rightarrow> string" where
  "join_parts [] = []"
| "join_parts [p] = p"
| "join_parts (p # ps) = p @ ''; '' @ join_parts ps"

definition vault_recover_column ::
    "cell list \<Rightarrow> string \<Rightarrow> (string \<times> string \<Rightarrow> string option) \<Rightarrow> int
      \<Rightarrow> unmask_error + (cell list \<times> unmask_status \<times> string)" where
  "vault_recover_column cells ns vmap vault_ambiguous =
     (let present = filter (\<lambda>v. v \<noteq> NullCell) cells;
          total_values = length present;
          hits = length (filter (\<lambda>v. vmap (ns, cell_str v) \<noteq> None) present);
          misses = total_values - hits;
          outcome = (if hits = 0 \<and> 0 < total_values
            then (VaultMiss, ''no masked value of this column is in the vault; wrong vault for this output?'')
            else (VaultReversed, join_parts
              ((if 0 < misses then [dec_str misses @ '' of '' @ dec_str total_values @ '' values not in the vault; left masked''] else []) @
               (if 0 < vault_ambiguous then [''vault dropped '' @ py_str_int vault_ambiguous @
                  '' ambiguous key(s) at write time (conflicting sources for one masked value)''] else [])))) in
      and_then (string_array (map (recover_cell vmap ns) cells)) (\<lambda>recovered. Inr (recovered, outcome)))"

fun cfg_string :: "cfg \<Rightarrow> unmask_error + string option" where
  "cfg_string (CStr s) = Inr (if s = [] then None else Some s)"
| "cfg_string v = (if cfg_truthy v then Inl UnmaskNotString else Inr None)"

definition FPE_UNVERIFIED_CAVEAT :: string where
  "FPE_UNVERIFIED_CAVEAT =
     ''UNVERIFIED: FF1 is unauthenticated, so a wrong key yields a plausible-looking '' @
     ''but WRONG plaintext with no signal that it is wrong. This caveat applies '' @
     ''regardless of whether a mask secret was supplied (Task 5.2 P4); there is '' @
     ''no authenticated-reversal mode for FF1 today.''"

definition LUHN_CAVEAT :: string where
  "LUHN_CAVEAT = ''validate_luhn recomputes the check digit on decrypt; round trip is '' @
     ''byte-exact iff the source was Luhn-valid''"

definition CHECKSUM_CAVEAT :: "string \<Rightarrow> string" where
  "CHECKSUM_CAVEAT scheme = ''checksum='' @ scheme @ '' recomputes the check digit on decrypt; round trip is '' @
     ''byte-exact iff the source was valid for the scheme''"

definition fpe_detail :: "config \<Rightarrow> unmask_error + string" where
  "fpe_detail cfg =
     and_then (on_error UnmaskColumn (optional_setting cfg ''checksum'')) (\<lambda>checksum.
     Inr ((case checksum of
         Some scheme \<Rightarrow> CHECKSUM_CAVEAT scheme @ '' ''
       | None \<Rightarrow> if cfg_truthy (cfg_get cfg ''validate_luhn'' (CBool False)) then LUHN_CAVEAT @ '' '' else []) @
       FPE_UNVERIFIED_CAVEAT))"

text \<open>What the run knows: the cipher, the registry of check digits, the mask key, the loaded vault.\<close>

record unmask_context =
  uc_aes :: aes
  uc_stdnum :: stdnum
  uc_mask_key :: bytes
  uc_vault :: "((string \<times> string \<Rightarrow> string option) \<times> int) option"

text \<open>One configured column that is present in the table: its new cells, status and detail.\<close>

definition unmask_column ::
    "unmask_context \<Rightarrow> string \<Rightarrow> config \<Rightarrow> cell list \<Rightarrow> unmask_error + (cell list \<times> string option \<times> unmask_status \<times> string)" where
  "unmask_column U col c cells =
     (case cfg_get c ''strategy'' CNull of
        CNull \<Rightarrow> Inr (cells, None, Untouched, [])
      | CStr strategy \<Rightarrow>
          if strategy \<noteq> ''fpe'' then
            if cfg_truthy (cfg_get c ''vault'' CNull) then
              (case uc_vault U of
                 None \<Rightarrow> Inr (cells, Some strategy, Irreversible,
                   ''vault: true is declared on this column; supply the mask run'' @ [CHR 0x27] @ ''s vault file to recover it'')
               | Some (vmap, vault_ambiguous) \<Rightarrow>
                   and_then (cfg_string (cfg_get c ''namespace'' CNull)) (\<lambda>namespace.
                   case namespace of
                     None \<Rightarrow> Inr (cells, Some strategy, Irreversible, ''vault: true without a namespace cannot be looked up'')
                   | Some ns \<Rightarrow>
                       and_then (vault_recover_column cells ns vmap vault_ambiguous) (\<lambda>(recovered, status, detail).
                       Inr (recovered, Some strategy, status, detail))))
            else Inr (cells, Some strategy, Irreversible, strategy @ '' does not retain the information needed to invert'')
          else
            and_then (cfg_string (cfg_get c ''namespace'' CNull)) (\<lambda>namespace.
            let pc = cfg_get c ''provider_config'' CNull in
            if namespace = None then Inl (UnmaskColumn (StrategyError FPE_REQUIRES_NAMESPACE))
            else and_then (if \<not> cfg_truthy pc then Inr [] else case pc of CDict d \<Rightarrow> Inr d | _ \<Rightarrow> Inl UnmaskNotMapping) (\<lambda>cfg.
              and_then (on_error UnmaskColumn (unmask_fpe_column (uc_aes U) (uc_stdnum U) (uc_mask_key U) col namespace cfg cells)) (\<lambda>plain.
              and_then (fpe_detail cfg) (\<lambda>detail. Inr (plain, Some ''fpe'', ReversedUnverified, detail)))))
      | _ \<Rightarrow> Inl UnmaskNotString)"

text \<open>The loop over the column entries; the state is the table and the reports.\<close>

definition unmask_column_entry ::
    "unmask_context \<Rightarrow> string \<Rightarrow> string list \<Rightarrow> table \<times> unmask_report list \<times> string list \<Rightarrow> cfg
      \<Rightarrow> unmask_error + (table \<times> unmask_report list \<times> string list)" where
  "unmask_column_entry U name present st entry =
     (case (entry, st) of
        (CDict c, tbl, reports, configured) \<Rightarrow>
          and_then (cfg_string (cfg_get c ''name'' CNull)) (\<lambda>col'.
          case col' of
            None \<Rightarrow> Inr st
          | Some col \<Rightarrow>
              if col \<notin> set present then Inr st
              else and_then (unmask_column U col c (the (map_of tbl col))) (\<lambda>(cells, strategy, status, detail).
                Inr (AList.update col cells tbl,
                  reports @ [\<lparr>ur_table = name, ur_column = col, ur_strategy = strategy, ur_status = status, ur_detail = detail\<rparr>],
                  configured @ [col])))
      | _ \<Rightarrow> Inl UnmaskNotMapping)"

definition unmask_table ::
    "unmask_context \<Rightarrow> string \<Rightarrow> config \<Rightarrow> table \<Rightarrow> unmask_error + (table \<times> unmask_report list)" where
  "unmask_table U name t tbl =
     (let present = map fst tbl in
      and_then (of_option UnmaskNotMapping (cfg_iter (cfg_or_empty (cfg_get t ''columns'' CNull)))) (\<lambda>cols.
      and_then (fold_result (unmask_column_entry U name present) (tbl, [], []) cols) (\<lambda>(tbl', reports, configured).
      Inr (tbl', reports @ map (\<lambda>col. \<lparr>ur_table = name, ur_column = col, ur_strategy = None, ur_status = Untouched,
           ur_detail = ''column not in the pipeline config''\<rparr>)
         (sorted_list_of_set (set present - set configured))))))"

text \<open>The loop over the table entries; the state is the outputs, the reports and the configured names.\<close>

definition unmask_table_entry ::
    "unmask_context \<Rightarrow> (string \<times> table) list \<Rightarrow> (string \<times> table) list \<times> unmask_report list \<times> string list \<Rightarrow> cfg
      \<Rightarrow> unmask_error + ((string \<times> table) list \<times> unmask_report list \<times> string list)" where
  "unmask_table_entry U masked st entry =
     (case (entry, st) of
        (CDict t, outputs, reports, configured) \<Rightarrow>
          and_then (cfg_string (cfg_get t ''name'' CNull)) (\<lambda>name'.
          case name' of
            None \<Rightarrow> Inr st
          | Some name \<Rightarrow>
              (case map_of masked name of
                 None \<Rightarrow> Inr (outputs, reports @ [\<lparr>ur_table = name, ur_column = ''*'', ur_strategy = None,
                   ur_status = TableMissing, ur_detail = ''configured table absent from the provided inputs''\<rparr>], configured @ [name])
               | Some tbl \<Rightarrow>
                   if cfg_truthy (cfg_get t ''generate_columns'' CNull) then
                     Inr (AList.update name tbl outputs, reports @ [\<lparr>ur_table = name, ur_column = ''*'', ur_strategy = None,
                       ur_status = Irreversible, ur_detail = ''generated synthetic table; no source to recover''\<rparr>], configured @ [name])
                   else and_then (unmask_table U name t tbl) (\<lambda>(tbl', reports').
                     Inr (AList.update name tbl' outputs, reports @ reports', configured @ [name]))))
      | _ \<Rightarrow> Inl UnmaskNotMapping)"

record unmask_result =
  un_outputs :: "(string \<times> table) list"
  un_columns :: "unmask_report list"

definition unmask_tables :: "unmask_context \<Rightarrow> config \<Rightarrow> (string \<times> table) list \<Rightarrow> unmask_error + unmask_result" where
  "unmask_tables U config masked =
     and_then (of_option UnmaskNotMapping (cfg_iter (cfg_or_empty (cfg_get config ''tables'' CNull)))) (\<lambda>tables.
     and_then (fold_result (unmask_table_entry U masked) ([], [], []) tables) (\<lambda>(outputs, reports, configured).
     let rest = filter (\<lambda>(name, tbl). name \<notin> set configured) masked in
     Inr \<lparr>un_outputs = foldl (\<lambda>outs (name, tbl). AList.update name tbl outs) outputs rest,
          un_columns = reports @ map (\<lambda>(name, tbl). \<lparr>ur_table = name, ur_column = ''*'', ur_strategy = None,
            ur_status = Untouched, ur_detail = ''table not in the pipeline config''\<rparr>) rest\<rparr>))"

text \<open>\<open>_has_fpe\<close>: the first fpe column ends the search.\<close>

definition column_is_fpe :: "cfg \<Rightarrow> unmask_error + bool" where
  "column_is_fpe c = (case c of CDict d \<Rightarrow> Inr (cfg_get d ''strategy'' CNull = CStr ''fpe'') | _ \<Rightarrow> Inl UnmaskNotMapping)"

definition has_fpe :: "config \<Rightarrow> unmask_error + bool" where
  "has_fpe config =
     and_then (of_option UnmaskNotMapping (cfg_iter (cfg_or_empty (cfg_get config ''tables'' CNull)))) (any_result (\<lambda>t.
       case t of
         CDict d \<Rightarrow> and_then (of_option UnmaskNotMapping (cfg_iter (cfg_or_empty (cfg_get d ''columns'' CNull)))) (any_result column_is_fpe)
       | _ \<Rightarrow> Inl UnmaskNotMapping))"

definition run_key :: "bytes \<Rightarrow> admitted \<Rightarrow> unmask_error + bytes" where
  "run_key job_seed adm =
     (case ak_key_provider adm of Some kp \<Rightarrow> on_error UnmaskSecret (mask_key kp) | None \<Rightarrow> Inr job_seed)"

text \<open>\<open>unmask_pipeline\<close>; the vault argument is \<open>None\<close> when no vault is given, and \<open>Some None\<close> when the file
  cannot be read.\<close>

definition unmask_pipeline ::
    "aes \<Rightarrow> stdnum \<Rightarrow> vault_lib \<Rightarrow> host \<Rightarrow> (string \<times> provider) list \<Rightarrow> config \<Rightarrow> (string \<times> table) list \<Rightarrow> bytes option option
      \<Rightarrow> key_provider option \<Rightarrow> unmask_error + unmask_result" where
  "unmask_pipeline A S L H reg config masked vault kp =
     and_then (on_error UnmaskSeed (normalize_job_seed config)) (\<lambda>job_seed.
     and_then (on_error UnmaskSecret (admit_mask_key H reg config kp)) (\<lambda>adm.
     and_then (run_key job_seed adm) (\<lambda>ikm.
     and_then (has_fpe config) (\<lambda>fpe.
     if (vault \<noteq> None \<or> fpe) \<and> length ikm < MIN_SECRET_BYTES
     then Inl (UnmaskSecret (SecretErr KEYED_STRATEGY_REQUIRES_SECRET))
     else and_then (case vault of
         None \<Rightarrow> Inr None
       | Some contents \<Rightarrow> and_then (on_error UnmaskVault (load_vault L contents ikm)) (\<lambda>m. Inr (Some m))) (\<lambda>vmap.
       unmask_tables \<lparr>uc_aes = A, uc_stdnum = S, uc_mask_key = ikm, uc_vault = vmap\<rparr> config masked)))))"

section \<open>Vault recovery of one column\<close>

text \<open>Every masked value of the column is recorded with its source, and nulls are kept.\<close>

definition recorded :: "(string \<times> string \<Rightarrow> string option) \<Rightarrow> string \<Rightarrow> cell list \<Rightarrow> cell list \<Rightarrow> bool" where
  "recorded vmap ns src out \<longleftrightarrow>
     list_all2 (\<lambda>s m. (s = NullCell \<longleftrightarrow> m = NullCell) \<and> (s \<noteq> NullCell \<longrightarrow> vmap (ns, cell_str m) = Some (cell_str s))) src out"

lemma recovered_cells: "recorded vmap ns src out \<Longrightarrow> map (recover_cell vmap ns) out = map cell_text src"
  unfolding recorded_def by (induction src out rule: list_all2_induct) (auto simp: recover_cell_def cell_text_def)

lemma text_array: "string_array (map cell_text cs) = Inr (map cell_text cs)"
  by (auto simp: string_array_def cell_text_def split: if_splits)

interpretation vault_column: reversible_column
  "\<lambda>src. recorded vmap ns src (masking src)" "\<lambda>src. Inr (masking src)"
  "\<lambda>out. and_then (vault_recover_column out ns vmap n) (\<lambda>r. Inr (fst r))"
  by unfold_locales (auto simp: vault_recover_column_def Let_def recovered_cells text_array)

section \<open>Columns of a table\<close>

definition entry_name :: "cfg \<Rightarrow> string option" where
  "entry_name e = (case e of CDict d \<Rightarrow> (case cfg_get d ''name'' CNull of CStr s \<Rightarrow> if s = [] then None else Some s | _ \<Rightarrow> None) | _ \<Rightarrow> None)"

abbreviation entry_names :: "cfg list \<Rightarrow> string list" where
  "entry_names es \<equiv> List.map_filter entry_name es"

lemma cfg_string_Inr: "cfg_string v = Inr x \<Longrightarrow> x = (case v of CStr s \<Rightarrow> if s = [] then None else Some s | _ \<Rightarrow> None)"
  by (cases v) (auto split: if_splits)

lemma map_filter_Cons: "List.map_filter f (x # xs) = (case f x of None \<Rightarrow> List.map_filter f xs | Some y \<Rightarrow> y # List.map_filter f xs)"
  by (cases "f x") (simp_all add: List.map_filter_def)

lemma set_entry_names: "n \<in> set (entry_names es) \<longleftrightarrow> (\<exists>e \<in> set es. entry_name e = Some n)"
  by (auto simp: List.map_filter_def image_iff)

lemma update_present: "k \<in> fst ` set al \<Longrightarrow> map fst (AList.update k v al) = map fst al"
  by (induction al) auto

lemma update_present_set: "k \<in> fst ` set al \<Longrightarrow> fst ` set (AList.update k v al) = fst ` set al"
  using update_present [of k al v] by (metis list.set_map)

text \<open>One step of the column loop: nothing happens, or one present column is replaced.\<close>

lemma unmask_column_entry_Inr:
  assumes "unmask_column_entry U name present (tbl, rs, cf) e = Inr st"
  shows "(case entry_name e of
      None \<Rightarrow> st = (tbl, rs, cf)
    | Some col \<Rightarrow> if col \<notin> set present then st = (tbl, rs, cf)
        else \<exists>c cells strategy status detail. e = CDict c \<and>
          unmask_column U col c (the (map_of tbl col)) = Inr (cells, strategy, status, detail) \<and>
          st = (AList.update col cells tbl, rs @ [\<lparr>ur_table = name, ur_column = col, ur_strategy = strategy,
            ur_status = status, ur_detail = detail\<rparr>], cf @ [col]))"
proof -
  obtain c col' where c: "e = CDict c" "cfg_string (cfg_get c ''name'' CNull) = Inr col'"
    using assms by (cases e) (auto simp: unmask_column_entry_def result_simps)
  then have n: "entry_name e = col'"
    using cfg_string_Inr [OF c(2)] by (simp add: entry_name_def)
  show ?thesis
  proof (cases col')
    case None
    then show ?thesis
      using assms c n by (simp add: unmask_column_entry_def)
  next
    case (Some col)
    then show ?thesis
      using assms c n by (auto simp: unmask_column_entry_def and_then_eq_Inr split: if_splits)
  qed
qed

lemma fold_columns_frame:
  assumes "fold_result (unmask_column_entry U name present) (tbl, rs, cf) cols = Inr (tbl', rs', cf')" "set present = fst ` set tbl"
  shows "map fst tbl' = map fst tbl \<and> (\<forall>col. col \<notin> set (entry_names cols) \<longrightarrow> map_of tbl' col = map_of tbl col) \<and> set rs \<subseteq> set rs'"
  using assms
proof (induction cols arbitrary: tbl rs cf)
  case (Cons e es)
  obtain st where st: "unmask_column_entry U name present (tbl, rs, cf) e = Inr st"
      "fold_result (unmask_column_entry U name present) st es = Inr (tbl', rs', cf')"
    using Cons.prems(1) by (auto simp: result_simps)
  note step = unmask_column_entry_Inr [OF st(1)]
  show ?case
  proof (cases "\<exists>col. entry_name e = Some col \<and> col \<in> set present")
    case False
    then have "st = (tbl, rs, cf)"
      using step by (cases "entry_name e") auto
    then show ?thesis
      using Cons.IH [OF st(2) [unfolded \<open>st = _\<close>] Cons.prems(2)] by (auto simp: map_filter_Cons split: option.splits)
  next
    case True
    then obtain col cells r where u: "entry_name e = Some col" "col \<in> set present"
        "st = (AList.update col cells tbl, rs @ [r], cf @ [col])"
      using step by auto
    have keys: "map fst (AList.update col cells tbl) = map fst tbl" "fst ` set (AList.update col cells tbl) = fst ` set tbl"
      using u(2) Cons.prems(2) by (simp_all add: update_present update_present_set)
    then show ?thesis
      using Cons.IH [OF st(2) [unfolded u(3)]] Cons.prems(2) u(1) by (auto simp: map_filter_Cons update_conv')
  qed
qed simp

lemma fold_columns_value:
  assumes "fold_result (unmask_column_entry U name present) (tbl, rs, cf) cols = Inr (tbl', rs', cf')" "set present = fst ` set tbl"
    and "distinct (entry_names cols)" "CDict c \<in> set cols" "entry_name (CDict c) = Some col" "map_of tbl col = Some cells"
  shows "\<exists>cells' strategy status detail. unmask_column U col c cells = Inr (cells', strategy, status, detail) \<and>
    map_of tbl' col = Some cells' \<and>
    \<lparr>ur_table = name, ur_column = col, ur_strategy = strategy, ur_status = status, ur_detail = detail\<rparr> \<in> set rs'"
  using assms
proof (induction cols arbitrary: tbl rs cf)
  case (Cons e es)
  obtain st where st: "unmask_column_entry U name present (tbl, rs, cf) e = Inr st"
      "fold_result (unmask_column_entry U name present) st es = Inr (tbl', rs', cf')"
    using Cons.prems(1) by (auto simp: result_simps)
  note step = unmask_column_entry_Inr [OF st(1)]
  have present: "col \<in> set present"
    using Cons.prems(2,6) by (force dest: map_of_SomeD)
  show ?case
  proof (cases "e = CDict c")
    case True
    then obtain cells' strategy status detail where u: "unmask_column U col c cells = Inr (cells', strategy, status, detail)"
        "st = (AList.update col cells' tbl, rs @ [\<lparr>ur_table = name, ur_column = col, ur_strategy = strategy,
            ur_status = status, ur_detail = detail\<rparr>], cf @ [col])"
      using step Cons.prems(5,6) present by auto
    have "col \<notin> set (entry_names es)"
      using Cons.prems(3,5) True by (simp add: map_filter_Cons)
    moreover have "set present = fst ` set (AList.update col cells' tbl)"
      using Cons.prems(2) present by (simp add: update_present_set)
    ultimately show ?thesis
      using fold_columns_frame [OF st(2) [unfolded u(2)]] u(1) by (auto simp: update_conv')
  next
    case False
    then have c: "CDict c \<in> set es" "distinct (entry_names es)"
      using Cons.prems(3,4) by (auto simp: map_filter_Cons split: option.splits)
    show ?thesis
    proof (cases "\<exists>x. entry_name e = Some x \<and> x \<in> set present")
      case True
      then obtain x xs r where x: "entry_name e = Some x" "x \<in> set present" "st = (AList.update x xs tbl, rs @ [r], cf @ [x])"
        using step by auto
      have "x \<noteq> col"
        using Cons.prems(3,5) c(1) x(1) set_entry_names by (auto simp: map_filter_Cons)
      moreover have "set present = fst ` set (AList.update x xs tbl)"
        using Cons.prems(2) x(2) by (simp add: update_present_set)
      ultimately show ?thesis
        using Cons.IH [OF st(2) [unfolded x(3)] _ c(2,1) Cons.prems(5)] Cons.prems(6) by (simp add: update_conv')
    next
      case False
      then have "st = (tbl, rs, cf)"
        using step by (cases "entry_name e") auto
      then show ?thesis
        using Cons.IH [OF st(2) [unfolded \<open>st = _\<close>] Cons.prems(2) c(2,1) Cons.prems(5,6)] by simp
    qed
  qed
qed simp

section \<open>Tables\<close>

lemma unmask_table_Inr:
  assumes "unmask_table U name t tbl = Inr (tbl', reports)"
    and "cfg_iter (cfg_or_empty (cfg_get t ''columns'' CNull)) = Some cols"
  shows "\<exists>rs cf. fold_result (unmask_column_entry U name (map fst tbl)) (tbl, [], []) cols = Inr (tbl', rs, cf) \<and> set rs \<subseteq> set reports"
  using assms by (auto simp: unmask_table_def Let_def and_then_eq_Inr)

lemma unmask_table_entry_Inr:
  assumes "unmask_table_entry U masked (outs, rs, cf) e = Inr st"
  shows "(case entry_name e of
      None \<Rightarrow> st = (outs, rs, cf)
    | Some name \<Rightarrow> (case map_of masked name of
        None \<Rightarrow> \<exists>r. st = (outs, rs @ [r], cf @ [name])
      | Some tbl \<Rightarrow> \<exists>t tbl' rs'. e = CDict t \<and> st = (AList.update name tbl' outs, rs @ rs', cf @ [name]) \<and>
          (if cfg_truthy (cfg_get t ''generate_columns'' CNull) then tbl' = tbl else unmask_table U name t tbl = Inr (tbl', rs'))))"
proof -
  obtain t name' where t: "e = CDict t" "cfg_string (cfg_get t ''name'' CNull) = Inr name'"
    using assms by (cases e) (auto simp: unmask_table_entry_def result_simps)
  then have n: "entry_name e = name'"
    using cfg_string_Inr [OF t(2)] by (simp add: entry_name_def)
  show ?thesis
  proof (cases name')
    case None
    then show ?thesis
      using assms t n by (simp add: unmask_table_entry_def)
  next
    case (Some name)
    then show ?thesis
      using assms t n by (cases "map_of masked name") (auto simp: unmask_table_entry_def and_then_eq_Inr split: if_splits)
  qed
qed

lemma fold_tables_frame:
  assumes "fold_result (unmask_table_entry U masked) (outs, rs, cf) es = Inr (outs', rs', cf')"
  shows "set cf' = set cf \<union> set (entry_names es) \<and> set rs \<subseteq> set rs' \<and> (\<forall>n. n \<notin> set (entry_names es) \<longrightarrow> map_of outs' n = map_of outs n)"
  using assms
proof (induction es arbitrary: outs rs cf)
  case (Cons e es)
  obtain o1 r1 c1 where st: "unmask_table_entry U masked (outs, rs, cf) e = Inr (o1, r1, c1)"
      "fold_result (unmask_table_entry U masked) (o1, r1, c1) es = Inr (outs', rs', cf')"
    using Cons.prems by (auto simp: result_simps)
  have "set c1 = set cf \<union> set (entry_names [e]) \<and> set rs \<subseteq> set r1 \<and> (\<forall>n. n \<notin> set (entry_names [e]) \<longrightarrow> map_of o1 n = map_of outs n)"
    using unmask_table_entry_Inr [OF st(1)]
    by (auto simp: map_filter_Cons update_conv' List.map_filter_def split: option.splits)
  then show ?case
    using Cons.IH [OF st(2)] by (auto simp: map_filter_Cons List.map_filter_def split: option.splits)
qed (simp add: List.map_filter_def)

lemma fold_tables_value:
  assumes "fold_result (unmask_table_entry U masked) (outs, rs, cf) es = Inr (outs', rs', cf')"
    and "distinct (entry_names es)" "CDict t \<in> set es" "entry_name (CDict t) = Some name" "map_of masked name = Some tbl"
    and "\<not> cfg_truthy (cfg_get t ''generate_columns'' CNull)"
  shows "\<exists>tbl' r. unmask_table U name t tbl = Inr (tbl', r) \<and> map_of outs' name = Some tbl' \<and> set r \<subseteq> set rs'"
proof -
  obtain xs ys where es: "es = xs @ CDict t # ys"
    using assms(3) by (meson split_list)
  then obtain s1 s2 where f: "fold_result (unmask_table_entry U masked) (outs, rs, cf) xs = Inr s1"
      "unmask_table_entry U masked s1 (CDict t) = Inr s2" "fold_result (unmask_table_entry U masked) s2 ys = Inr (outs', rs', cf')"
    using assms(1) by (auto simp: fold_result_append result_simps)
  obtain o1 r1 c1 where s1: "s1 = (o1, r1, c1)"
    by (cases s1)
  obtain tbl' r where r: "s2 = (AList.update name tbl' o1, r1 @ r, c1 @ [name])" "unmask_table U name t tbl = Inr (tbl', r)"
    using unmask_table_entry_Inr [OF f(2) [unfolded s1]] assms(4-6) by auto
  have "name \<notin> set (entry_names ys)"
    using assms(2,4) es by (auto simp: List.map_filter_def)
  then show ?thesis
    using fold_tables_frame [OF f(3) [unfolded r(1)]] r(2) by (auto simp: update_conv')
qed

lemma foldl_update:
  assumes "distinct (map fst rest)"
  shows "map_of (foldl (\<lambda>outs (n, t). AList.update n t outs) outs rest) name =
    (case map_of rest name of Some t \<Rightarrow> Some t | None \<Rightarrow> map_of outs name)"
  using assms
proof (induction rest arbitrary: outs)
  case (Cons p rest)
  then show ?case
    by (cases p) (auto simp: update_conv' split: option.split dest: map_of_SomeD intro: rev_image_eqI)
qed simp

text \<open>The entry of a table that is masked, with its column entries; names are not repeated.\<close>

definition config_table :: "config \<Rightarrow> string \<Rightarrow> cfg list \<Rightarrow> bool" where
  "config_table config name cols \<longleftrightarrow>
     (\<exists>tables t. cfg_iter (cfg_or_empty (cfg_get config ''tables'' CNull)) = Some tables \<and> distinct (entry_names tables) \<and>
        CDict t \<in> set tables \<and> entry_name (CDict t) = Some name \<and> \<not> cfg_truthy (cfg_get t ''generate_columns'' CNull) \<and>
        cfg_iter (cfg_or_empty (cfg_get t ''columns'' CNull)) = Some cols \<and> distinct (entry_names cols))"

lemma unmask_tables_columnwise:
  assumes "unmask_tables U config masked = Inr res" "config_table config name cols" "map_of masked name = Some tbl"
    and "distinct (map fst masked)"
  shows "\<exists>tbl'. map_of (un_outputs res) name = Some tbl' \<and> map fst tbl' = map fst tbl \<and>
    (\<forall>col. col \<notin> set (entry_names cols) \<longrightarrow> map_of tbl' col = map_of tbl col) \<and>
    (\<forall>c col cells. CDict c \<in> set cols \<longrightarrow> entry_name (CDict c) = Some col \<longrightarrow> map_of tbl col = Some cells \<longrightarrow>
       (\<exists>cells' strategy status detail. unmask_column U col c cells = Inr (cells', strategy, status, detail) \<and>
          map_of tbl' col = Some cells' \<and>
          \<lparr>ur_table = name, ur_column = col, ur_strategy = strategy, ur_status = status, ur_detail = detail\<rparr> \<in> set (un_columns res)))"
proof -
  obtain tables t where t: "cfg_iter (cfg_or_empty (cfg_get config ''tables'' CNull)) = Some tables" "distinct (entry_names tables)"
      "CDict t \<in> set tables" "entry_name (CDict t) = Some name" "\<not> cfg_truthy (cfg_get t ''generate_columns'' CNull)"
      "cfg_iter (cfg_or_empty (cfg_get t ''columns'' CNull)) = Some cols" "distinct (entry_names cols)"
    using assms(2) by (auto simp: config_table_def)
  obtain outs rs cf where f: "fold_result (unmask_table_entry U masked) ([], [], []) tables = Inr (outs, rs, cf)"
    and res: "un_outputs res = foldl (\<lambda>outs (n, t). AList.update n t outs) outs (filter (\<lambda>(n, t). n \<notin> set cf) masked)"
      "set rs \<subseteq> set (un_columns res)"
    using assms(1) t(1) by (auto simp: unmask_tables_def and_then_eq_Inr Let_def)
  obtain tbl' r where r: "unmask_table U name t tbl = Inr (tbl', r)" "map_of outs name = Some tbl'" "set r \<subseteq> set rs"
    using fold_tables_value [OF f t(2-4) assms(3) t(5)] by blast
  have "name \<in> set cf"
    using fold_tables_frame [OF f] t(3,4) set_entry_names by auto
  then have "map_of (filter (\<lambda>(n, t). n \<notin> set cf) masked) name = None"
    by (auto simp: map_of_eq_None_iff)
  then have out: "map_of (un_outputs res) name = Some tbl'"
    using foldl_update [OF distinct_map_filter [OF assms(4)]] r(2) res(1) by simp
  obtain rs2 cf2 where g: "fold_result (unmask_column_entry U name (map fst tbl)) (tbl, [], []) cols = Inr (tbl', rs2, cf2)"
      "set rs2 \<subseteq> set r"
    using unmask_table_Inr [OF r(1) t(6)] by blast
  have pres: "set (map fst tbl) = fst ` set tbl"
    by simp
  have sub: "set rs2 \<subseteq> set (un_columns res)"
    using g(2) r(3) res(2) by blast
  show ?thesis
  proof (intro exI [of _ tbl'] conjI allI impI)
    show "map_of (un_outputs res) name = Some tbl'" "map fst tbl' = map fst tbl"
      using out fold_columns_frame [OF g(1) pres] by simp_all
    show "map_of tbl' col = map_of tbl col" if "col \<notin> set (entry_names cols)" for col
      using fold_columns_frame [OF g(1) pres] that by simp
    fix c col cells
    assume "CDict c \<in> set cols" "entry_name (CDict c) = Some col" "map_of tbl col = Some cells"
    then show "\<exists>cells' strategy status detail. unmask_column U col c cells = Inr (cells', strategy, status, detail) \<and>
          map_of tbl' col = Some cells' \<and>
          \<lparr>ur_table = name, ur_column = col, ur_strategy = strategy, ur_status = status, ur_detail = detail\<rparr> \<in> set (un_columns res)"
      using fold_columns_value [OF g(1) pres t(7)] sub by (meson subsetD)
  qed
qed

section \<open>Masking and unmasking\<close>

lemma unmask_pipeline_Inr:
  assumes "unmask_pipeline A S L H reg config masked vault kp = Inr res"
    and "admit_mask_key H reg config kp = Inr adm" "normalize_job_seed config = Inr job_seed" "run_key job_seed adm = Inr ikm"
  obtains vmap fpe where "has_fpe config = Inr fpe" "vault \<noteq> None \<or> fpe \<longrightarrow> MIN_SECRET_BYTES \<le> length ikm"
    "unmask_tables \<lparr>uc_aes = A, uc_stdnum = S, uc_mask_key = ikm, uc_vault = vmap\<rparr> config masked = Inr res"
    "\<forall>contents. vault = Some contents \<longrightarrow> (\<exists>m. vmap = Some m \<and> load_vault L contents ikm = Inr m)"
  using assms that
  by (cases vault) (auto simp: unmask_pipeline_def and_then_eq_Inr on_error_eq_Inr not_less split: if_splits)

text \<open>An fpe column of the configuration, with its namespace and settings.\<close>

definition fpe_entry :: "config \<Rightarrow> string \<Rightarrow> string \<Rightarrow> string \<Rightarrow> config \<Rightarrow> bool" where
  "fpe_entry config name col ns cfg \<longleftrightarrow>
     (\<exists>cols c. config_table config name cols \<and> CDict c \<in> set cols \<and> entry_name (CDict c) = Some col \<and>
        cfg_get c ''strategy'' CNull = CStr ''fpe'' \<and> cfg_get c ''namespace'' CNull = CStr ns \<and> ns \<noteq> [] \<and>
        cfg_get c ''provider_config'' (CDict []) = CDict cfg)"

lemma fpe_entry_has_fpe: "fpe_entry config name col ns cfg \<Longrightarrow> has_fpe config \<noteq> Inr False"
proof
  assume "fpe_entry config name col ns cfg" and none: "has_fpe config = Inr False"
  then obtain tables t cols c where t: "cfg_iter (cfg_or_empty (cfg_get config ''tables'' CNull)) = Some tables" "CDict t \<in> set tables"
      "cfg_iter (cfg_or_empty (cfg_get t ''columns'' CNull)) = Some cols" "CDict c \<in> set cols" "cfg_get c ''strategy'' CNull = CStr ''fpe''"
    by (auto simp: fpe_entry_def config_table_def)
  have "(case CDict t of
         CDict d \<Rightarrow> and_then (of_option UnmaskNotMapping (cfg_iter (cfg_or_empty (cfg_get d ''columns'' CNull)))) (any_result column_is_fpe)
       | _ \<Rightarrow> Inl UnmaskNotMapping) = Inr False"
    using none t(1,2) by (simp only: has_fpe_def any_result_False of_option_simps and_then.simps)
  then have "column_is_fpe (CDict c) = Inr False"
    using t(3,4) by (simp add: any_result_False)
  then show False
    using t(5) by (simp add: column_is_fpe_def)
qed

lemma unmask_column_fpe:
  assumes "cfg_get c ''strategy'' CNull = CStr ''fpe''" "cfg_get c ''namespace'' CNull = CStr ns" "ns \<noteq> []"
    and "cfg_get c ''provider_config'' (CDict []) = CDict cfg"
    and "unmask_column U col c cells = Inr (cells', strategy, status, detail)"
  shows "unmask_fpe_column (uc_aes U) (uc_stdnum U) (uc_mask_key U) col (Some ns) cfg cells = Inr cells' \<and> status = ReversedUnverified"
proof -
  have "(let pc = cfg_get c ''provider_config'' CNull in
      if \<not> cfg_truthy pc then Inr [] else case pc of CDict d \<Rightarrow> Inr d | _ \<Rightarrow> Inl UnmaskNotMapping) = Inr cfg"
    using assms(4) by (auto simp: cfg_get_def split: option.splits)
  then show ?thesis
    using assms(1-3,5) by (auto simp: unmask_column_def Let_def and_then_eq_Inr on_error_eq_Inr)
qed

text \<open>C4. Masking and unmasking a run restores its fpe columns. Under one configuration and secret, if the
  handler masked a column, the masked tables hold that output, and the mode of the column can undo every value
  of it (\<open>reversible_cells\<close>: any value in plain mode; under \<open>validate_luhn\<close> a value whose last digit is its
  Luhn check digit, since the code replaces that digit and unmasking gives any other source back with the check
  digit normalized; under a checksum scheme a value over the scheme's alphabet, with a charset that has it), then
  a successful \<open>unmask_pipeline\<close> ran with at least 32 key bytes, returns the table with the same columns in the
  same order and this column restored as text, and reports it as reversed but unverified.\<close>

theorem unmask_restores_fpe:
  assumes "aes_lengths A" "stdnum_laws S" "array_split_law P"
    and "admit_mask_key H reg config kp = Inr adm" "normalize_job_seed config = Inr job_seed" "run_key job_seed adm = Inr ikm"
    and "fpe_entry config name col ns cfg" "reversible_cells ikm col (Some ns) cfg cells"
    and "fpe_run A S P ikm col (Some ns) cfg cells = Inr (out, warnings)"
    and "distinct (map fst masked)" "map_of masked name = Some tbl" "map_of tbl col = Some out"
    and "unmask_pipeline A S L H reg config masked vault kp = Inr res"
  shows "MIN_SECRET_BYTES \<le> length ikm \<and> (\<exists>tbl'. map_of (un_outputs res) name = Some tbl' \<and> map fst tbl' = map fst tbl \<and>
    map_of tbl' col = Some (map cell_text cells)) \<and>
    (\<exists>r \<in> set (un_columns res). ur_table r = name \<and> ur_column r = col \<and> ur_status r = ReversedUnverified)"
proof -
  obtain vmap fpe where run: "has_fpe config = Inr fpe" "vault \<noteq> None \<or> fpe \<longrightarrow> MIN_SECRET_BYTES \<le> length ikm"
      "unmask_tables \<lparr>uc_aes = A, uc_stdnum = S, uc_mask_key = ikm, uc_vault = vmap\<rparr> config masked = Inr res"
    by (rule unmask_pipeline_Inr [OF assms(13,4,5,6)])
  obtain cols c where c: "config_table config name cols" "CDict c \<in> set cols" "entry_name (CDict c) = Some col"
      "cfg_get c ''strategy'' CNull = CStr ''fpe''" "cfg_get c ''namespace'' CNull = CStr ns" "ns \<noteq> []"
      "cfg_get c ''provider_config'' (CDict []) = CDict cfg"
    using assms(7) by (auto simp: fpe_entry_def)
  have "fpe"
    using fpe_entry_has_fpe [OF assms(7)] run(1) by auto
  moreover obtain tbl' cells' strategy status detail where u: "map_of (un_outputs res) name = Some tbl'" "map fst tbl' = map fst tbl"
      "unmask_column \<lparr>uc_aes = A, uc_stdnum = S, uc_mask_key = ikm, uc_vault = vmap\<rparr> col c out = Inr (cells', strategy, status, detail)"
      "map_of tbl' col = Some cells'"
      "\<lparr>ur_table = name, ur_column = col, ur_strategy = strategy, ur_status = status, ur_detail = detail\<rparr> \<in> set (un_columns res)"
    using unmask_tables_columnwise [OF run(3) c(1) assms(11,10)] c(2,3) assms(12) by blast
  moreover have "cells' = map cell_text cells \<and> status = ReversedUnverified"
    using unmask_column_fpe [OF c(4-7) u(3)] fpe_column_inverts [OF assms(1,2,3,8,9)] by simp
  ultimately show ?thesis
    using run(2) by force
qed

lemma writer_key:
  assumes "admit_mask_key H reg config kp = Inr adm" "normalize_job_seed config = Inr job_seed" "run_key job_seed adm = Inr ikm"
    and "vault_writer_for_config H reg config kp = Inr writer"
  shows "writer = new_vault_writer ikm"
  using assms by (auto simp: vault_writer_for_config_def mask_key_from_provider_def run_key_def and_then_eq_Inr on_error_eq_Inr
      split: option.splits)

text \<open>A vaulted column of the configuration, with its namespace.\<close>

definition vault_entry :: "config \<Rightarrow> string \<Rightarrow> string \<Rightarrow> string \<Rightarrow> bool" where
  "vault_entry config name col ns \<longleftrightarrow>
     (\<exists>cols c strategy. config_table config name cols \<and> CDict c \<in> set cols \<and> entry_name (CDict c) = Some col \<and>
        cfg_get c ''strategy'' CNull = CStr strategy \<and> strategy \<noteq> ''fpe'' \<and> cfg_truthy (cfg_get c ''vault'' CNull) \<and>
        cfg_get c ''namespace'' CNull = CStr ns \<and> ns \<noteq> [])"

lemma entry_name_cfg: "entry_name (CDict d) = Some n \<Longrightarrow> cfg_get d ''name'' CNull = CStr n \<and> n \<noteq> []"
  by (auto simp: entry_name_def split: cfg.splits if_splits)

lemma concat_result_member:
  "and_then (map_result f xs) (\<lambda>yss. Inr (concat yss)) = Inr ys \<Longrightarrow> x \<in> set xs \<Longrightarrow> f x = Inr zs \<Longrightarrow> set zs \<subseteq> set ys"
  by (auto simp: and_then_eq_Inr dest!: map_result_set) (metis UN_I imageE imageI sum.inject(2))

lemma vault_entry_column:
  assumes "vault_entry config name col ns" "iter_vault_columns config = Inr cols"
  shows "(name, col, ns) \<in> set cols"
proof -
  obtain tables t ccols c where t: "cfg_iter (cfg_or_empty (cfg_get config ''tables'' CNull)) = Some tables" "CDict t \<in> set tables"
      "entry_name (CDict t) = Some name" "cfg_iter (cfg_or_empty (cfg_get t ''columns'' CNull)) = Some ccols"
      and c: "CDict c \<in> set ccols" "entry_name (CDict c) = Some col" "cfg_truthy (cfg_get c ''vault'' CNull)"
      "cfg_get c ''namespace'' CNull = CStr ns" "ns \<noteq> []"
    using assms(1) by (auto simp: vault_entry_def config_table_def)
  have "vault_column name (CDict c) = Inr [(name, col, ns)]"
    using c(3-5) entry_name_cfg [OF c(2)] by (simp add: vault_column_def)
  moreover obtain xs where xs: "vault_table (CDict t) = Inr xs"
    using assms(2) t(1,2) by (auto simp: iter_vault_columns_def and_then_eq_Inr) (metis map_result_total)
  ultimately have "(name, col, ns) \<in> set xs"
    using concat_result_member [of "vault_column name" ccols xs "CDict c" "[(name, col, ns)]"] entry_name_cfg [OF t(3)] t(4) c(1)
    by (simp add: vault_table_def)
  then show ?thesis
    using concat_result_member [of vault_table tables cols "CDict t" xs] assms(2) t(1,2) xs by (auto simp: iter_vault_columns_def)
qed

lemma collected_pairs:
  assumes "collect_vault_entries config sources outputs = Inr entries" "vault_entry config name col ns"
    and "sources name = Some src" "map_of src col = Some cells" "outputs name = Some tbl" "map_of tbl col = Some out"
  shows "length cells = length out \<and>
    (\<forall>i < length cells. cells ! i \<noteq> NullCell \<longrightarrow> out ! i \<noteq> NullCell \<longrightarrow> (ns, cell_str (out ! i), cell_str (cells ! i)) \<in> set entries)"
proof -
  obtain cols where cols: "iter_vault_columns config = Inr cols"
      "and_then (map_result (column_entries sources outputs) cols) (\<lambda>xs. Inr (concat xs)) = Inr entries"
    using assms(1) by (auto simp: collect_vault_entries_def and_then_eq_Inr)
  have mem: "(name, col, ns) \<in> set cols"
    using vault_entry_column [OF assms(2) cols(1)] .
  have eq: "column_entries sources outputs (name, col, ns) = pair_entries ns cells out"
    using assms(3-6) by (simp add: column_entries_def)
  then obtain ps where ps: "pair_entries ns cells out = Inr ps"
    using cols(2) mem by (auto simp: and_then_eq_Inr) (metis map_result_total)
  then have sub: "set ps \<subseteq> set entries"
    using concat_result_member [OF cols(2) mem] eq by simp
  have len: "length cells = length out"
    using ps by (auto simp: pair_entries_def split: if_splits)
  moreover have "(ns, cell_str (out ! i), cell_str (cells ! i)) \<in> set ps"
    if "i < length cells" "cells ! i \<noteq> NullCell" "out ! i \<noteq> NullCell" for i
  proof -
    have "(cells ! i, out ! i) \<in> set (zip cells out)"
      using that(1) len by (auto simp: in_set_zip)
    then show ?thesis
      using ps that(2,3) len by (auto simp: pair_entries_def intro!: rev_image_eqI)
  qed
  ultimately show ?thesis
    using sub by blast
qed

text \<open>C5. A vaulted column comes back. If the entries of a mask run were collected, written to a vault under
  the run's key, and no masked value of the namespace stands for two sources, then \<open>unmask_pipeline\<close> with that
  vault restores the column as text, whatever the one-way strategy was, and reports it recovered.\<close>

theorem unmask_restores_vaulted:
  assumes "vault_lib_ok L"
    and "admit_mask_key H reg config kp = Inr adm" "normalize_job_seed config = Inr job_seed" "run_key job_seed adm = Inr ikm"
    and "collect_vault_entries config sources (map_of masked) = Inr entries"
    and "vault_writer_for_config H reg config kp = Inr writer" "vault_write L (vault_add writer entries) nonce = Inr (blob, n)"
    and "vault_entry config name col ns" "sources name = Some src" "map_of src col = Some cells"
    and "distinct (map fst masked)" "map_of masked name = Some tbl" "map_of tbl col = Some out"
    and "\<forall>i < length cells. cells ! i = NullCell \<longleftrightarrow> out ! i = NullCell"
    and "\<forall>m s s'. (ns, m, s) \<in> set entries \<longrightarrow> (ns, m, s') \<in> set entries \<longrightarrow> s = s'"
    and "unmask_pipeline A S L H reg config masked (Some (Some blob)) kp = Inr res"
  shows "\<exists>tbl'. map_of (un_outputs res) name = Some tbl' \<and> map fst tbl' = map fst tbl \<and> map_of tbl' col = Some (map cell_text cells)"
proof -
  define w where "w = vault_add writer entries"
  have "writer = new_vault_writer ikm"
    using writer_key [OF assms(2-4,6)] .
  then have w: "distinct (vw_entries w)" "set (vw_entries w) = set entries" "vw_mask_key w = ikm"
    using vault_add_keeps [of "new_vault_writer ikm" entries] by (simp_all add: w_def new_vault_writer_def)
  obtain m where m: "\<exists>a. load_vault L (Some blob) ikm = Inr (m, a)" "\<forall>k s. m k = Some s \<longleftrightarrow> sources_of (vw_entries w) k = {s}"
    using written_vault_loads [OF assms(1) w(1) assms(7) [folded w_def], unfolded w(3)] by blast
  obtain vmap fpe where run: "has_fpe config = Inr fpe" "Some (Some blob) \<noteq> None \<or> fpe \<longrightarrow> MIN_SECRET_BYTES \<le> length ikm"
      "unmask_tables \<lparr>uc_aes = A, uc_stdnum = S, uc_mask_key = ikm, uc_vault = vmap\<rparr> config masked = Inr res"
      "\<forall>contents. Some (Some blob) = Some contents \<longrightarrow> (\<exists>m. vmap = Some m \<and> load_vault L contents ikm = Inr m)"
    by (rule unmask_pipeline_Inr [OF assms(16,2,3,4)])
  obtain a where vm: "vmap = Some (m, a)"
    using run(4) m(1) by auto
  obtain cols c strategy where c: "config_table config name cols" "CDict c \<in> set cols" "entry_name (CDict c) = Some col"
      "cfg_get c ''strategy'' CNull = CStr strategy" "strategy \<noteq> ''fpe''" "cfg_truthy (cfg_get c ''vault'' CNull)"
      "cfg_get c ''namespace'' CNull = CStr ns" "ns \<noteq> []"
    using assms(8) by (auto simp: vault_entry_def)
  note pairs = collected_pairs [OF assms(5,8,9,10,12,13)]
  have "m (ns, cell_str (out ! i)) = Some (cell_str (cells ! i))" if "i < length cells" "cells ! i \<noteq> NullCell" for i
  proof -
    have "(ns, cell_str (out ! i), cell_str (cells ! i)) \<in> set entries"
      using pairs assms(14) that by simp
    then have "sources_of (vw_entries w) (ns, cell_str (out ! i)) = {cell_str (cells ! i)}"
      using assms(15) w(2) by (auto simp: sources_of_def)
    then show ?thesis
      using m(2) by simp
  qed
  then have rec: "recorded m ns cells out"
    using pairs assms(14) by (simp add: recorded_def list_all2_conv_all_nth)
  obtain tbl' cells' st status detail where u: "map_of (un_outputs res) name = Some tbl'" "map fst tbl' = map fst tbl"
      "unmask_column \<lparr>uc_aes = A, uc_stdnum = S, uc_mask_key = ikm, uc_vault = vmap\<rparr> col c out = Inr (cells', st, status, detail)"
      "map_of tbl' col = Some cells'"
    using unmask_tables_columnwise [OF run(3) c(1) assms(12,11)] c(2,3) assms(13) by blast
  have "and_then (vault_recover_column out ns m a) (\<lambda>r. Inr (fst r)) = Inr (map cell_text cells)"
    using vault_column.reveals [where masking = "\<lambda>_. out" and vmap = m and ns = ns and cs = cells and n = a] rec by simp
  then have "cells' = map cell_text cells"
    using u(3) c(4-8) vm by (auto simp: unmask_column_def and_then_eq_Inr)
  then show ?thesis
    using u by blast
qed

section \<open>Witnesses\<close>

definition demo_unmask_config :: config where
  "demo_unmask_config = [(''tables'', CList [CDict [(''name'', CStr ''t''), (''columns'', CList
     [CDict [(''name'', CStr ''c''), (''strategy'', CStr ''fpe''), (''namespace'', CStr ''ns'')],
      CDict [(''name'', CStr ''v''), (''strategy'', CStr ''hash''), (''namespace'', CStr ''nv''), (''vault'', CBool True)]])]])]"

definition demo_provider :: key_provider where
  "demo_provider = CustomKeyProvider (Inr (replicate 32 7)) ''v1''"

definition demo_admitted :: admitted where
  "demo_admitted = (let s = \<lparr>se_material = replicate 32 7, se_key_version = ''v1'', se_requirement_ids = [''decoy-mask-root-v1''],
     se_expires_at = None\<rparr> in \<lparr>ak_key_provider = Some (PreparedKeyProvider s), ak_prepared = Some s, ak_requirements = [MASK_ROOT_V1]\<rparr>)"

lemma demo_key:
  "admit_mask_key demo_host [] demo_unmask_config (Some demo_provider) = Inr demo_admitted"
  "normalize_job_seed demo_unmask_config = Inr (replicate 8 0)"
  "run_key (replicate 8 0) demo_admitted = Inr (replicate 32 7)"
  by code_simp+

lemma demo_entries:
  "fpe_entry demo_unmask_config ''t'' ''c'' ''ns'' []" "vault_entry demo_unmask_config ''t'' ''v'' ''nv''"
  "has_fpe demo_unmask_config = Inr True"
proof -
  have "config_table demo_unmask_config ''t'' [CDict [(''name'', CStr ''c''), (''strategy'', CStr ''fpe''), (''namespace'', CStr ''ns'')],
      CDict [(''name'', CStr ''v''), (''strategy'', CStr ''hash''), (''namespace'', CStr ''nv''), (''vault'', CBool True)]]"
    by (simp add: config_table_def demo_unmask_config_def cfg_get_def cfg_or_empty_def entry_name_def map_filter_Cons List.map_filter_def)
  then show "fpe_entry demo_unmask_config ''t'' ''c'' ''ns'' []" "vault_entry demo_unmask_config ''t'' ''v'' ''nv''"
    by (fastforce simp: fpe_entry_def vault_entry_def cfg_get_def entry_name_def)+
  show "has_fpe demo_unmask_config = Inr True"
    by code_simp
qed

lemma demo_unmasks:
  assumes "unmask_fpe_column demo_aes demo_stdnum (replicate 32 7) ''c'' (Some ''ns'') [] out = Inr plain"
    and "\<forall>contents. vault = Some contents \<longrightarrow> (\<exists>m. load_vault L contents (replicate 32 7) = Inr m)"
  shows "\<exists>res. unmask_pipeline demo_aes demo_stdnum L demo_host [] demo_unmask_config
    [(''t'', [(''c'', out), (''v'', [TextCell ''x'', NullCell, NullCell, NullCell])])] vault (Some demo_provider) = Inr res"
proof -
  define U where "U = (\<lambda>vm. \<lparr>uc_aes = demo_aes, uc_stdnum = demo_stdnum, uc_mask_key = replicate 32 7, uc_vault = vm\<rparr>)"
  have tables: "\<exists>res. unmask_tables (U vm) demo_unmask_config [(''t'', [(''c'', out), (''v'', [TextCell ''x'', NullCell, NullCell, NullCell])])] = Inr res"
    for vm
  proof -
    have "unmask_column (U vm) ''c'' [(''name'', CStr ''c''), (''strategy'', CStr ''fpe''), (''namespace'', CStr ''ns'')] out =
        Inr (plain, Some ''fpe'', ReversedUnverified, FPE_UNVERIFIED_CAVEAT)"
      using assms(1) by (simp add: unmask_column_def U_def cfg_get_def fpe_detail_def optional_setting_def)
    moreover have "\<exists>r. unmask_column (U vm) ''v'' [(''name'', CStr ''v''), (''strategy'', CStr ''hash''), (''namespace'', CStr ''nv''),
        (''vault'', CBool True)] [TextCell ''x'', NullCell, NullCell, NullCell] = Inr r"
      by (cases vm) (auto simp: unmask_column_def U_def cfg_get_def vault_recover_column_def Let_def string_array_def recover_cell_def
          split: option.splits)
    ultimately show ?thesis
      by (auto simp: unmask_tables_def demo_unmask_config_def cfg_get_def cfg_or_empty_def unmask_table_entry_def unmask_table_def
          unmask_column_entry_def Let_def)
  qed
  show ?thesis
  proof (cases vault)
    case None
    then show ?thesis
      using tables [of None] demo_key demo_entries(3) by (simp add: unmask_pipeline_def MIN_SECRET_BYTES_def U_def)
  next
    case (Some contents)
    then obtain m where "load_vault L contents (replicate 32 7) = Inr m"
      using assms(2) by blast
    then show ?thesis
      using tables [of "Some m"] demo_key demo_entries(3) Some by (simp add: unmask_pipeline_def MIN_SECRET_BYTES_def U_def)
  qed
qed

theorem unmask_restores_fpe_witness:
  "\<exists>out w res tbl'. fpe_run demo_aes demo_stdnum demo_pool (replicate 32 7) ''c'' (Some ''ns'') [] demo_cells = Inr (out, w) \<and>
     unmask_pipeline demo_aes demo_stdnum demo_lib demo_host [] demo_unmask_config
       [(''t'', [(''c'', out), (''v'', [TextCell ''x'', NullCell, NullCell, NullCell])])] None (Some demo_provider) = Inr res \<and>
     map_of (un_outputs res) ''t'' = Some tbl' \<and> map_of tbl' ''c'' = Some (map cell_text demo_cells)"
proof -
  obtain out w where run: "fpe_run demo_aes demo_stdnum demo_pool (replicate 32 7) ''c'' (Some ''ns'') [] demo_cells = Inr (out, w)"
    using demo_column_masks by blast
  then obtain res where res: "unmask_pipeline demo_aes demo_stdnum demo_lib demo_host [] demo_unmask_config
      [(''t'', [(''c'', out), (''v'', [TextCell ''x'', NullCell, NullCell, NullCell])])] None (Some demo_provider) = Inr res"
    using demo_unmasks fpe_column_inverts [OF demo_aes_lengths demo_stdnum_laws demo_pool_law demo_cells_reversible run] by blast
  show ?thesis
    using unmask_restores_fpe [OF demo_aes_lengths demo_stdnum_laws demo_pool_law demo_key demo_entries(1) demo_cells_reversible run _ _ _ res] run res
    by auto
qed

definition demo_sources :: "string \<Rightarrow> table option" where
  "demo_sources = map_of [(''t'', [(''v'', [TextCell ''a'', NullCell, NullCell, NullCell])])]"

theorem unmask_restores_vaulted_witness:
  "\<exists>out w blob n res tbl'. fpe_run demo_aes demo_stdnum demo_pool (replicate 32 7) ''c'' (Some ''ns'') [] demo_cells = Inr (out, w) \<and>
     vault_write demo_lib (vault_add (new_vault_writer (replicate 32 7)) [(''nv'', ''x'', ''a'')]) 0 = Inr (blob, n) \<and>
     unmask_pipeline demo_aes demo_stdnum demo_lib demo_host [] demo_unmask_config
       [(''t'', [(''c'', out), (''v'', [TextCell ''x'', NullCell, NullCell, NullCell])])] (Some (Some blob)) (Some demo_provider) = Inr res \<and>
     map_of (un_outputs res) ''t'' = Some tbl' \<and> map_of tbl' ''v'' = Some [TextCell ''a'', NullCell, NullCell, NullCell]"
proof -
  let ?w = "vault_add (new_vault_writer (replicate 32 7)) [(''nv'', ''x'', ''a'')]"
  have writer: "vault_writer_for_config demo_host [] demo_unmask_config (Some demo_provider) = Inr (new_vault_writer (replicate 32 7))"
    by code_simp
  obtain out ws where run: "fpe_run demo_aes demo_stdnum demo_pool (replicate 32 7) ''c'' (Some ''ns'') [] demo_cells = Inr (out, ws)"
    using demo_column_masks by blast
  let ?masked = "[(''t'', [(''c'', out), (''v'', [TextCell ''x'', NullCell, NullCell, NullCell])])]"
  have w: "vw_entries ?w = [(''nv'', ''x'', ''a'')]" "vw_mask_key ?w = replicate 32 7"
    by (simp_all add: vault_add_def new_vault_writer_def)
  have rows: "vault_rows (by_key (vl_set_order demo_lib (vw_entries ?w))) = [(''nv'', ''x'', ''a'')]"
      "ambiguous_count (by_key (vl_set_order demo_lib (vw_entries ?w))) = 0"
    by (simp_all add: w demo_lib_def by_key_def vault_rows_def ambiguous_count_def)
  have wins: "row_windows [(''nv'', ''x'', ''a'')] = [[(''nv'', ''x'', ''a'')]]"
    by (simp add: row_windows_def CHUNK_ROWS_def)
  have "\<exists>blob. vault_write demo_lib ?w 0 = Inr (blob, length (vault_rows (by_key (vl_set_order demo_lib (vw_entries ?w)))))"
  proof (rule vault_write_total)
    show "length (vw_mask_key ?w) \<in> {8, 32}"
      by (simp add: w)
    show "length (utf8 (header_json (ambiguous_count (by_key (vl_set_order demo_lib (vw_entries ?w))))
        (length (row_windows (vault_rows (by_key (vl_set_order demo_lib (vw_entries ?w)))))))) < 2 ^ 32"
      unfolding rows wins using header_small [of 0 1] by simp
    show "\<forall>fk. length fk = 44 \<longrightarrow> (\<forall>window \<in> set (row_windows (vault_rows (by_key (vl_set_order demo_lib (vw_entries ?w))))).
        \<forall>i. length (vl_encrypt demo_lib fk i (vl_write_table demo_lib window)) < 2 ^ 32)"
      unfolding rows wins by (simp add: demo_lib_def demo_enc_def)
  qed
  then obtain blob n where blob: "vault_write demo_lib ?w 0 = Inr (blob, n)"
    by blast
  have "distinct (vw_entries ?w)"
    by (simp add: w)
  then have "\<exists>m. load_vault demo_lib (Some blob) (replicate 32 7) = Inr m"
    using written_vault_loads [OF demo_lib_ok _ blob] by (auto simp: w(2))
  then obtain res where res: "unmask_pipeline demo_aes demo_stdnum demo_lib demo_host [] demo_unmask_config ?masked
      (Some (Some blob)) (Some demo_provider) = Inr res"
    using demo_unmasks [OF fpe_column_inverts [OF demo_aes_lengths demo_stdnum_laws demo_pool_law demo_cells_reversible run],
        of "Some (Some blob)" demo_lib] by auto
  have ents: "collect_vault_entries demo_unmask_config demo_sources (map_of ?masked) = Inr [(''nv'', ''x'', ''a'')]"
    by (simp add: collect_vault_entries_def iter_vault_columns_def demo_unmask_config_def cfg_get_def cfg_or_empty_def vault_table_def
        vault_column_def column_entries_def demo_sources_def pair_entries_def)
  show ?thesis
    using unmask_restores_vaulted [OF demo_lib_ok demo_key ents writer blob demo_entries(2) _ _ _ _ _ _ _ res,
        where src = "[(''v'', [TextCell ''a'', NullCell, NullCell, NullCell])]" and cells = "[TextCell ''a'', NullCell, NullCell, NullCell]"
          and tbl = "[(''c'', out), (''v'', [TextCell ''x'', NullCell, NullCell, NullCell])]"
          and out = "[TextCell ''x'', NullCell, NullCell, NullCell]"] blob res run
    by (auto simp: demo_sources_def less_Suc_eq nth_Cons')
qed

text \<open>A vault miss on a column that is not of strings does not leave the value masked: building the string
  array raises.\<close>

lemma miss_on_typed_column_raises:
  "vault_recover_column [TextCell ''x'', OtherCell ''7''] ''nv'' ((\<lambda>_. None)((''nv'', ''x'') \<mapsto> ''a'')) 0 = Inl UnmaskArrowType"
  by (simp add: vault_recover_column_def string_array_def recover_cell_def Let_def)

end
