(* ===== verification/Seed_Envelope.thy ===== *)
theory Seed_Envelope
  imports Key_Admission
begin

text \<open>
  The seed envelope of a plan, \<open>plan/_seed_envelope.py\<close>, with the pieces it reads: the pool size of a column
  (\<open>plan/_pool_size.py\<close>), the technique and distribution labels (\<open>execution/_technique_class.py\<close>,
  \<open>execution/_distribution_behavior.py\<close>), the relationships of a profile (\<open>profile/_source.py\<close>) and the
  rule that a table is either masked or generated (\<open>config/_tables.py\<close>). It closes the loop with theory
  \<open>Key_Admission\<close>: what admission read from the configuration covers the compiled plan.

  Parameters (record \<open>planner_env\<close>): the bindings of the provider registry, \<open>float\<close> of a configuration
  value, and the installed version of the package a NER model names. The schema of the configuration admits
  only text as names and strategies; a value of another type there is the error \<open>EnvelopeNotText\<close>.
\<close>

section \<open>Model\<close>

text \<open>\<open>EnvelopeTypeError\<close> is a \<open>TypeError\<close> or \<open>ValueError\<close> of an iteration, a conversion or a comparison;
  \<open>EnvelopeRelationship\<close> is the \<open>ValueError\<close> of \<open>Relationship.__post_init__\<close>.\<close>

datatype envelope_error =
    PLAN_SCHEMA_DETERMINISTIC_MAP_RENAMED | ALLOW_COLLISIONS_MODE_CONFLICT | POOL_SIZE_LOCATION_CONFLICT
  | WHEN_WITH_COHERENT_WITH_UNSUPPORTED | EnvelopeSeed seed_error | EnvelopeRelationship | EnvelopeTypeError
  | EnvelopeNotText

datatype stamp_warning =
    BackendTypeIgnored string string | BackendVersionIgnored string string | NerVersionUnavailable string string

record planner_env =
  pe_bindings :: "(string \<times> string \<times> string) list"
  pe_float :: "cfg \<Rightarrow> (int \<times> nat) option"
  pe_model_version :: "cfg \<Rightarrow> string option"

subsection \<open>Labels of a strategy\<close>

definition TECHNIQUE_CLASS_BY_STRATEGY :: "(string \<times> string) list" where
  "TECHNIQUE_CLASS_BY_STRATEGY =
     [(''passthrough'', ''passthrough''), (''redact'', ''anonymisation''), (''truncate'', ''anonymisation''),
      (''bucketize'', ''anonymisation''), (''shuffle'', ''anonymisation''), (''hash'', ''pseudonymisation''),
      (''fpe'', ''pseudonymisation''), (''date_shift'', ''pseudonymisation''), (''formula'', ''pseudonymisation''),
      (''faker'', ''synthetic''), (''categorical'', ''synthetic''), (''text_redact'', ''anonymisation''),
      (''text_mask'', ''pseudonymisation''), (''joint_mask'', ''anonymisation''), (''geo_generalize'', ''anonymisation''),
      (''code_set'', ''anonymisation''), (''derived'', ''pseudonymisation''), (''derived_aggregate'', ''pseudonymisation''),
      (''bucket_perturb'', ''anonymisation''), (''grouped_series'', ''synthetic''), (''windowed_date'', ''pseudonymisation''),
      (''group_key'', ''pseudonymisation''), (''top_code'', ''anonymisation''), (''tokenize'', ''pseudonymisation'')]"

definition technique_class_for :: "string \<Rightarrow> string option" where
  "technique_class_for strategy = (if strategy = [] then None else map_of TECHNIQUE_CLASS_BY_STRATEGY strategy)"

definition STATIC_BEHAVIOR :: "(string \<times> string) list" where
  "STATIC_BEHAVIOR =
     [(''passthrough'', ''preserves_all''), (''shuffle'', ''preserves_all''), (''hash'', ''preserves_cardinality_only''),
      (''fpe'', ''preserves_cardinality_only''), (''tokenize'', ''preserves_cardinality_only''),
      (''faker'', ''destroys_frequency''), (''categorical'', ''destroys_frequency''), (''bucketize'', ''coarsens''),
      (''truncate'', ''coarsens''), (''redact'', ''collapses''), (''text_redact'', ''collapses''), (''text_mask'', ''mixed''),
      (''date_shift'', ''varies_shape''), (''formula'', ''mixed''), (''nested'', ''inherits''), (''joint_mask'', ''coarsens''),
      (''geo_generalize'', ''coarsens''), (''code_set'', ''coarsens''), (''derived'', ''mixed''),
      (''derived_aggregate'', ''coarsens''), (''bucket_perturb'', ''coarsens''), (''grouped_series'', ''destroys_frequency''),
      (''windowed_date'', ''varies_shape''), (''group_key'', ''preserves_cardinality_only''), (''top_code'', ''coarsens'')]"

definition distribution_behavior_for :: "string \<Rightarrow> config \<Rightarrow> string option" where
  "distribution_behavior_for strategy provider_config =
     (if strategy = [] then None
      else if strategy = ''categorical'' then
        let from_profile = cfg_get provider_config ''from_profile'' CNull in
        if from_profile = CBool True \<or> from_profile = CNum 1 then Some ''preserves_all''
        else (case cfg_get provider_config ''weights'' CNull of
           CList (w # ws) \<Rightarrow> Some ''preserves_all''
         | _ \<Rightarrow> Some ''destroys_frequency'')
      else map_of STATIC_BEHAVIOR strategy)"

subsection \<open>The fields of a column seed\<close>

text \<open>\<open>resolve_pool_size\<close>. Two locations that both hold a list or a mapping raise in either order of the
  checks, so equality of configuration values is the equality of their terms, numbers and booleans apart.\<close>

definition same_number :: "cfg \<Rightarrow> cfg \<Rightarrow> bool" where
  "same_number v w \<longleftrightarrow> v = w \<or> (case (v, w) of
     (CNum n, CBool b) \<Rightarrow> n = (if b then 1 else 0) | (CBool b, CNum n) \<Rightarrow> n = (if b then 1 else 0) | _ \<Rightarrow> False)"

definition resolve_pool_size :: "config \<Rightarrow> envelope_error + int option" where
  "resolve_pool_size c =
     (let top = cfg_get c ''pool_size'' CNull;
          prov = (case cfg_get c ''provider_config'' CNull of CDict p \<Rightarrow> cfg_get p ''pool_size'' CNull | _ \<Rightarrow> CNull) in
      if top \<noteq> CNull \<and> prov \<noteq> CNull \<and> \<not> same_number top prov then Inl POOL_SIZE_LOCATION_CONFLICT
      else let resolved = (if top \<noteq> CNull then top else prov) in
        if resolved = CNull then Inr None
        else and_then (of_option EnvelopeTypeError (cfg_int resolved)) (\<lambda>n. Inr (Some n)))"

text \<open>\<open>registry.get_capabilities(provider)\<close> under the handler for an unknown provider; a list or a mapping is
  unhashable.\<close>

definition provider_capabilities :: "planner_env \<Rightarrow> cfg \<Rightarrow> envelope_error + (string \<times> string) option" where
  "provider_capabilities E prov =
     (if \<not> cfg_truthy prov then Inr None
      else case prov of
        CStr name \<Rightarrow> Inr (map_of (pe_bindings E) name)
      | CList xs \<Rightarrow> Inl EnvelopeTypeError
      | CDict d \<Rightarrow> Inl EnvelopeTypeError
      | _ \<Rightarrow> Inr None)"

definition BACKEND_TYPES :: "string list" where
  "BACKEND_TYPES = [''faker'', ''mimesis'', ''pool'', ''decoy_native'']"

definition backend_stamp ::
    "planner_env \<Rightarrow> string \<Rightarrow> string \<Rightarrow> config \<Rightarrow> envelope_error + (string \<times> cfg \<times> stamp_warning list)" where
  "backend_stamp E table name c =
     and_then (provider_capabilities E (cfg_get c ''provider'' CNull)) (\<lambda>caps.
     case caps of
       Some (backend_type, backend_version) \<Rightarrow>
         let user_type = cfg_get c ''backend_type'' CNull; user_version = cfg_get c ''backend_version'' CNull in
         Inr (backend_type, CStr backend_version,
           (if user_type \<noteq> CNull \<and> user_type \<noteq> CStr backend_type then [BackendTypeIgnored table name] else []) @
           (if user_version \<noteq> CNull \<and> user_version \<noteq> CStr backend_version then [BackendVersionIgnored table name] else []))
     | None \<Rightarrow>
         Inr (case cfg_get c ''backend_type'' (CStr ''faker'') of
                CStr b \<Rightarrow> if b \<in> set BACKEND_TYPES then b else ''faker'' | _ \<Rightarrow> ''faker'',
              cfg_get c ''backend_version'' (CStr ''stub-0''), []))"

definition CARDINALITY_MODES :: "string list" where
  "CARDINALITY_MODES = [''reuse'', ''unique'', ''match_source_cardinality'', ''scale_source_cardinality'']"

text \<open>The cardinality mode and the deterministic flag, with the alias \<open>allow_collisions\<close>.\<close>

definition column_mode :: "config \<Rightarrow> envelope_error + (string \<times> bool)" where
  "column_mode c =
     (let raw = cfg_get c ''cardinality_mode'' (CStr ''reuse'') in
      if raw = CStr ''deterministic_map'' then Inl PLAN_SCHEMA_DETERMINISTIC_MAP_RENAMED
      else if cfg_truthy (cfg_get c ''allow_collisions'' (CBool False)) then
        let explicit_mode = cfg_get c ''cardinality_mode'' CNull in
        if explicit_mode \<noteq> CNull \<and> explicit_mode \<noteq> CStr ''reuse'' then Inl ALLOW_COLLISIONS_MODE_CONFLICT
        else Inr (''reuse'', True)
      else Inr (case raw of CStr m \<Rightarrow> if m \<in> set CARDINALITY_MODES then m else ''reuse'' | _ \<Rightarrow> ''reuse'',
                cfg_truthy (cfg_get c ''deterministic'' (CBool False))))"

definition raw_provider_config :: "config \<Rightarrow> config" where
  "raw_provider_config c = (case cfg_get c ''provider_config'' (CDict []) of CDict p \<Rightarrow> p | _ \<Rightarrow> [])"

text \<open>\<open>sorted((*items, ("declared_integer_output", True)))\<close>: an item with the same key is compared by value.\<close>

definition stamp_integer_output :: "config \<Rightarrow> envelope_error + config" where
  "stamp_integer_output items =
     (let stamp = (''declared_integer_output'', CBool True) in
      case map_of items ''declared_integer_output'' of
        None \<Rightarrow> Inr (sort_key fst (items @ [stamp]))
      | Some (CNum n) \<Rightarrow> Inr (sort_key fst (if n \<le> 1 then items @ [stamp] else stamp # items))
      | Some (CBool b) \<Rightarrow> Inr (sort_key fst (items @ [stamp]))
      | Some v \<Rightarrow> Inl EnvelopeTypeError)"

definition provider_items :: "string \<Rightarrow> config \<Rightarrow> envelope_error + config" where
  "provider_items strategy c =
     (let items = sort_key fst (raw_provider_config c) in
      if strategy = ''bucketize'' \<and> cfg_get c ''logical_type'' CNull = CStr ''integer'' then stamp_integer_output items
      else Inr items)"

definition column_scale :: "planner_env \<Rightarrow> config \<Rightarrow> envelope_error + (int \<times> nat) option" where
  "column_scale E c =
     (let raw = cfg_get c ''scale'' CNull in
      if raw = CNull then Inr None
      else and_then (of_option EnvelopeTypeError (pe_float E raw)) (\<lambda>x. Inr (Some x)))"

definition column_when :: "config \<Rightarrow> string option" where
  "column_when c =
     (case cfg_get c ''when'' CNull of CStr s \<Rightarrow> if drop_spaces (codes s) \<noteq> [] then Some s else None | _ \<Rightarrow> None)"

definition DEFAULT_NER_MODEL :: string where "DEFAULT_NER_MODEL = ''en_core_web_sm''"

definition ner_stamp ::
    "planner_env \<Rightarrow> string \<Rightarrow> string \<Rightarrow> string \<Rightarrow> config \<Rightarrow> string option \<times> stamp_warning list" where
  "ner_stamp E table name strategy c =
     (let ner = cfg_get (raw_provider_config c) ''ner'' CNull in
      if strategy \<in> {''text_redact'', ''text_mask''} \<and> cfg_truthy ner then
        let model = (case ner of
               CDict d \<Rightarrow> if cfg_truthy (cfg_get d ''model'' CNull) then cfg_get d ''model'' CNull else CStr DEFAULT_NER_MODEL
             | _ \<Rightarrow> CStr DEFAULT_NER_MODEL);
            version = pe_model_version E model in
        (version, if version = None then [NerVersionUnavailable table name] else [])
      else (None, []))"

text \<open>The seed of one column that has a name and a strategy, in the order of the code's checks.\<close>

definition column_seed_of ::
    "planner_env \<Rightarrow> string \<Rightarrow> string \<Rightarrow> string \<Rightarrow> config \<Rightarrow> envelope_error + (column_seed \<times> stamp_warning list)" where
  "column_seed_of E table name strategy c =
     and_then (backend_stamp E table name c) (\<lambda>(backend_type, backend_version, ws).
     and_then (column_mode c) (\<lambda>(mode, deterministic).
     and_then (provider_items strategy c) (\<lambda>provider_config.
     and_then (resolve_pool_size c) (\<lambda>pool_size.
     and_then (column_scale E c) (\<lambda>scale.
     and_then (of_option EnvelopeTypeError (cfg_iter (cfg_or_empty (cfg_get c ''coherent_with'' (CList []))))) (\<lambda>coherent_raw.
     let coherent_with = str_items coherent_raw; wh = column_when c; ner = ner_stamp E table name strategy c in
     if wh \<noteq> None \<and> coherent_with \<noteq> [] then Inl WHEN_WITH_COHERENT_WITH_UNSUPPORTED
     else Inr (\<lparr>cs_namespace = cfg_get c ''namespace'' CNull, cs_strategy = strategy,
       cs_provider = cfg_get c ''provider'' CNull, cs_backend_type = backend_type,
       cs_backend_version = backend_version, cs_cardinality_mode = mode, cs_deterministic = deterministic,
       cs_provider_config = provider_config, cs_coherent_with = coherent_with,
       cs_technique_class = technique_class_for strategy, cs_when = wh,
       cs_distribution_behavior = distribution_behavior_for strategy provider_config,
       cs_ner_model_version = fst ner, cs_pool_size = pool_size, cs_scale = scale,
       cs_vault = cfg_truthy (cfg_get c ''vault'' (CBool False))\<rparr>, ws @ snd ner)))))))"

text \<open>One entry of a table's \<open>columns\<close>: skipped, or the named seed.\<close>

definition column_entry ::
    "planner_env \<Rightarrow> string \<Rightarrow> string list \<Rightarrow> cfg \<Rightarrow> envelope_error + ((string \<times> column_seed) list \<times> stamp_warning list)" where
  "column_entry E table grouped entry =
     (case entry of
        CDict c \<Rightarrow>
          (case cfg_get c ''name'' CNull of
             CStr name \<Rightarrow>
               let strategy = cfg_get c ''strategy'' CNull in
               if name \<in> set grouped \<or> name = [] \<or> \<not> cfg_truthy strategy then Inr ([], [])
               else if strategy = CStr ''faker'' \<and> \<not> cfg_truthy (cfg_get c ''provider'' CNull) then Inr ([], [])
               else (case strategy of
                   CStr s \<Rightarrow> and_then (column_seed_of E table name s c) (\<lambda>(seed, ws). Inr ([(name, seed)], ws))
                 | _ \<Rightarrow> Inl EnvelopeNotText)
           | v \<Rightarrow> if cfg_truthy v \<or> v = CList [] \<or> v = CDict [] then Inl EnvelopeNotText else Inr ([], []))
      | _ \<Rightarrow> Inr ([], []))"

subsection \<open>Relationships of a profile\<close>

fun texts_of :: "cfg list \<Rightarrow> envelope_error + string list" where
  "texts_of [] = Inr []"
| "texts_of (CStr s # vs) = and_then (texts_of vs) (\<lambda>ss. Inr (s # ss))"
| "texts_of (v # vs) = Inl EnvelopeNotText"

text \<open>\<open>Relationship.__post_init__\<close>.\<close>

definition new_relationship ::
    "string \<Rightarrow> string list \<Rightarrow> string \<Rightarrow> string list \<Rightarrow> string option \<Rightarrow> envelope_error + relationship" where
  "new_relationship pt pcs ct ccs ns =
     (if pcs = [] \<or> ccs = [] then Inl EnvelopeRelationship
      else if length pcs \<noteq> length ccs then Inl EnvelopeRelationship
      else Inr \<lparr>parent_table = pt, parent_columns = pcs, child_table = ct, child_columns = ccs, rel_namespace = ns\<rparr>)"

definition relationship_child ::
    "string \<Rightarrow> cfg list \<Rightarrow> string option \<Rightarrow> cfg \<Rightarrow> envelope_error + relationship list" where
  "relationship_child pt pcs ns child =
     (case child of
        CDict ch \<Rightarrow>
          (case (cfg_get ch ''table'' CNull, cfg_get ch ''columns'' (CList [])) of
             (CStr ct, CList ccs) \<Rightarrow>
               and_then (texts_of pcs) (\<lambda>ps. and_then (texts_of ccs) (\<lambda>cs.
               and_then (new_relationship pt ps ct cs ns) (\<lambda>r. Inr [r])))
           | _ \<Rightarrow> Inr [])
      | _ \<Rightarrow> Inr [])"

definition relationship_entry :: "cfg \<Rightarrow> envelope_error + relationship list" where
  "relationship_entry rel =
     (case rel of
        CDict r \<Rightarrow>
          (case (cfg_get r ''parent'' (CDict []), cfg_get r ''children'' (CList [])) of
             (CDict parent, CList children) \<Rightarrow>
               (case (cfg_get parent ''table'' CNull, cfg_get parent ''columns'' (CList [])) of
                  (CStr pt, CList pcs) \<Rightarrow>
                    and_then (map_result (relationship_child pt pcs
                        (case cfg_get r ''namespace'' CNull of CStr ns \<Rightarrow> Some ns | _ \<Rightarrow> None)) children)
                      (\<lambda>rss. Inr (concat rss))
                | _ \<Rightarrow> Inr [])
           | _ \<Rightarrow> Inr [])
      | _ \<Rightarrow> Inr [])"

definition build_relationships :: "config \<Rightarrow> envelope_error + relationship list" where
  "build_relationships config =
     and_then (of_option EnvelopeTypeError (cfg_iter (cfg_or_empty (cfg_get config ''relationships'' (CList []))))) (\<lambda>rels.
     and_then (map_result relationship_entry rels) (\<lambda>rss. Inr (concat rss)))"

definition composite_fk_relationships :: "relationship list \<Rightarrow> relationship list" where
  "composite_fk_relationships rels = filter (\<lambda>r. 1 < length (parent_columns r)) rels"

subsection \<open>The envelope\<close>

text \<open>\<open>config_tables\<close>: a later entry with the same name replaces an earlier one.\<close>

fun named_table :: "config \<Rightarrow> (string \<times> config) list" where
  "named_table t = (case cfg_get t ''name'' CNull of CStr n \<Rightarrow> [(n, t)] | _ \<Rightarrow> [])"

definition config_tables :: "config \<Rightarrow> string \<Rightarrow> config option" where
  "config_tables config = map_of (rev (concat (map named_table (tables_block config))))"

definition group_seed_of :: "relationship \<Rightarrow> string \<times> group_seed" where
  "group_seed_of rel =
     (join_dunder (sort (child_columns rel)),
      \<lparr>gs_namespace = (case rel_namespace rel of Some ns \<Rightarrow> ns | None \<Rightarrow> []), gs_coherent_columns = child_columns rel\<rparr>)"

definition table_entry ::
    "planner_env \<Rightarrow> config \<Rightarrow> relationship list \<Rightarrow> string \<Rightarrow> envelope_error + ((string \<times> table_seed) list \<times> stamp_warning list)" where
  "table_entry E config composite_rels table =
     (let here = filter (\<lambda>r. child_table r = table) composite_rels;
          grouped = concat (map child_columns here) in
      and_then (case config_tables config table of
          None \<Rightarrow> Inr []
        | Some t \<Rightarrow> and_then (of_option EnvelopeTypeError (cfg_iter (cfg_or_empty (cfg_get t ''columns'' (CList [])))))
            (map_result (column_entry E table grouped))) (\<lambda>outs.
      let per_column = concat (map fst outs); per_group = map group_seed_of here in
      Inr (if per_column = [] \<and> per_group = [] then []
           else [(table, \<lparr>ts_per_column = per_column, ts_per_group = per_group\<rparr>)], concat (map snd outs))))"

definition build_seed_envelope ::
    "planner_env \<Rightarrow> config \<Rightarrow> string list \<Rightarrow> relationship list \<Rightarrow> envelope_error + (plan \<times> stamp_warning list)" where
  "build_seed_envelope E config tables rels =
     and_then (on_error EnvelopeSeed (normalize_job_seed config)) (\<lambda>job_seed.
     and_then (map_result (table_entry E config (composite_fk_relationships rels)) tables) (\<lambda>outs.
     Inr (\<lparr>pl_job_seed = job_seed, pl_per_table = concat (map fst outs)\<rparr>, concat (map snd outs))))"

text \<open>\<open>TableConfig._mask_xor_generate\<close> on the validated mapping, up to the check of its transforms.\<close>

datatype table_kind_error = GenerateWithColumns | GenerateRowCount | MaskWithoutColumns | MaskWithRowCount

definition mask_xor_generate :: "config \<Rightarrow> table_kind_error + unit" where
  "mask_xor_generate t =
     (let columns = cfg_get t ''columns'' CNull; row_count = cfg_get t ''row_count'' CNull in
      if cfg_truthy (cfg_get t ''generate_columns'' CNull) then
        if cfg_truthy columns then Inl GenerateWithColumns
        else (case row_count of CNum n \<Rightarrow> require (0 \<le> n) GenerateRowCount | _ \<Rightarrow> Inl GenerateRowCount)
      else if \<not> cfg_truthy columns then Inl MaskWithoutColumns
      else require (row_count = CNull) MaskWithRowCount)"

section \<open>The plan's classifier and the configuration's\<close>

text \<open>Sorting the items of a mapping by key changes no lookup.\<close>

lemma map_of_insort_key: "map_of (insort_key fst x xs) = map_of (x # xs)"
  by (induction xs) (auto simp: fun_eq_iff)

lemma map_of_sort_key: "map_of (sort_key fst xs) = map_of xs"
  by (induction xs) (simp_all add: map_of_insort_key)

lemma stamp_integer_output_lookup:
  "stamp_integer_output items = Inr items' \<Longrightarrow> k \<noteq> ''declared_integer_output'' \<Longrightarrow> map_of items' k = map_of items k"
  by (auto simp: stamp_integer_output_def Let_def map_of_sort_key map_of_insort_key map_add_def split: option.splits cfg.splits if_splits)

lemma provider_items_lookup:
  assumes "provider_items strategy c = Inr items" "k \<noteq> ''declared_integer_output''"
  shows "cfg_get items k d = cfg_get (raw_provider_config c) k d"
  using assms stamp_integer_output_lookup
  by (fastforce simp: provider_items_def cfg_get_def Let_def map_of_sort_key split: if_splits)

lemma column_is_keyed_cong:
  assumes "\<And>k d. k \<noteq> ''declared_integer_output'' \<Longrightarrow> cfg_get pc k d = cfg_get pc' k d"
  shows "column_is_keyed strategy det va pc = column_is_keyed strategy det va pc'"
  by (simp add: column_is_keyed_def assms)

lemma truthy_default: "cfg_truthy (cfg_get c k (CBool False)) = cfg_truthy (cfg_get c k CNull)"
  by (simp add: cfg_get_def split: option.split)

lemma column_mode_deterministic:
  "column_mode c = Inr (mode, det) \<Longrightarrow>
     det \<longleftrightarrow> cfg_truthy (cfg_get c ''deterministic'' CNull) \<or> cfg_truthy (cfg_get c ''allow_collisions'' CNull)"
  by (auto simp: column_mode_def Let_def truthy_default split: if_splits)

lemma raw_provider_config_default: "raw_provider_config c = (case cfg_get c ''provider_config'' CNull of CDict p \<Rightarrow> p | _ \<Rightarrow> [])"
  by (simp add: raw_provider_config_def cfg_get_def split: option.split)

lemma column_seed_of_fields:
  assumes "column_seed_of E table name strategy c = Inr (seed, ws)"
  shows "cs_strategy seed = strategy \<and> cs_vault seed = cfg_truthy (cfg_get c ''vault'' CNull) \<and>
    (\<exists>mode. column_mode c = Inr (mode, cs_deterministic seed)) \<and> provider_items strategy c = Inr (cs_provider_config seed)"
  using assms by (auto simp: column_seed_of_def and_then_eq_Inr Let_def truthy_default split: if_splits)

text \<open>The two classifiers agree on a column: what the plan's reads from the compiled seed is what the
  configuration's reads from the entry.\<close>

lemma classifiers_agree:
  assumes "column_seed_of E table name strategy c = Inr (seed, ws)" "cfg_get c ''strategy'' CNull = CStr strategy"
  shows "plan_column_keyed seed = config_column_keyed (CDict c)"
proof -
  note seed = column_seed_of_fields [OF assms(1)]
  then obtain mode where mode: "column_mode c = Inr (mode, cs_deterministic seed)"
    by blast
  have items: "provider_items strategy c = Inr (cs_provider_config seed)"
    using seed by blast
  have "column_is_keyed st det va (cs_provider_config seed) = column_is_keyed st det va (raw_provider_config c)" for st det va
    by (rule column_is_keyed_cong, rule provider_items_lookup [OF items])
  then show ?thesis
    using seed column_mode_deterministic [OF mode] assms(2)
    by (simp add: plan_column_keyed_def config_column_keyed_def raw_provider_config_default)
qed

section \<open>Where the parts of an envelope come from\<close>

lemma map_result_member: "map_result f xs = Inr ys \<Longrightarrow> y \<in> set ys \<Longrightarrow> \<exists>x \<in> set xs. f x = Inr y"
  using map_result_set [of f xs ys] by (metis imageE imageI)

lemma dict_items_iff: "d \<in> set (dict_items vs) \<longleftrightarrow> CDict d \<in> set vs"
  by (induction vs) (auto split: cfg.split)

lemma config_tables_from:
  "config_tables config n = Some t \<Longrightarrow> t \<in> set (tables_block config)"
  by (auto simp: config_tables_def dest!: map_of_SomeD split: cfg.splits)

lemma column_entry_from:
  assumes "column_entry E table grouped entry = Inr (outs, ws)" "(name, seed) \<in> set outs"
  obtains c strategy ws' where "entry = CDict c" "cfg_get c ''name'' CNull = CStr name" "cfg_get c ''strategy'' CNull = CStr strategy"
    "column_seed_of E table name strategy c = Inr (seed, ws')"
  using assms by (auto simp: column_entry_def Let_def and_then_eq_Inr split: cfg.splits if_splits)

lemma table_entry_from:
  assumes "table_entry E config crels n = Inr (outs, ws)" "(m, ts) \<in> set outs"
  shows "m = n" "ts_per_group ts = map group_seed_of (filter (\<lambda>r. child_table r = n) crels)"
    and "(name, seed) \<in> set (ts_per_column ts) \<Longrightarrow> \<exists>t cols entry grouped o' ws'. config_tables config n = Some t \<and>
      cfg_iter (cfg_or_empty (cfg_get t ''columns'' (CList []))) = Some cols \<and> entry \<in> set cols \<and>
      column_entry E n grouped entry = Inr (o', ws') \<and> (name, seed) \<in> set o'"
proof -
  show "m = n" "ts_per_group ts = map group_seed_of (filter (\<lambda>r. child_table r = n) crels)"
    using assms by (auto simp: table_entry_def Let_def and_then_eq_Inr split: if_splits)
  assume seed: "(name, seed) \<in> set (ts_per_column ts)"
  obtain gr couts where couts: "(case config_tables config n of None \<Rightarrow> Inr []
        | Some t \<Rightarrow> and_then (of_option EnvelopeTypeError (cfg_iter (cfg_or_empty (cfg_get t ''columns'' (CList [])))))
            (map_result (column_entry E n gr))) = Inr couts" "ts_per_column ts = concat (map fst couts)"
    using assms by (auto simp: table_entry_def Let_def and_then_eq_Inr split: if_splits)
  then obtain o' ws' where o': "(o', ws') \<in> set couts" "(name, seed) \<in> set o'"
    using seed by auto
  then obtain t where "config_tables config n = Some t"
    using couts(1) by (cases "config_tables config n") auto
  then show "\<exists>t cols entry grouped o' ws'. config_tables config n = Some t \<and>
      cfg_iter (cfg_or_empty (cfg_get t ''columns'' (CList []))) = Some cols \<and> entry \<in> set cols \<and>
      column_entry E n grouped entry = Inr (o', ws') \<and> (name, seed) \<in> set o'"
    using couts(1) o' map_result_member by (fastforce simp: and_then_eq_Inr of_option_eq_Inr)
qed

lemma build_relationships_from:
  assumes "build_relationships config = Inr rels" "r \<in> set rels" "1 < length (parent_columns r)"
  shows "\<exists>vs v. cfg_iter (cfg_or_empty (cfg_get config ''relationships'' (CList []))) = Some vs \<and> v \<in> set vs \<and>
    config_rel_keyed v = Inr True"
proof -
  obtain vs v rs where v: "cfg_iter (cfg_or_empty (cfg_get config ''relationships'' (CList []))) = Some vs" "v \<in> set vs"
      "relationship_entry v = Inr rs" "r \<in> set rs"
    using assms(1,2) map_result_member
    by (force simp: build_relationships_def and_then_eq_Inr of_option_eq_Inr)
  obtain d parent pt pcs ns children rss where d: "v = CDict d" "cfg_get d ''parent'' (CDict []) = CDict parent"
      "cfg_get parent ''columns'' (CList []) = CList pcs" "map_result (relationship_child pt pcs ns) children = Inr rss"
      "r \<in> set (concat rss)"
    using v(3,4) by (auto simp: relationship_entry_def and_then_eq_Inr split: cfg.splits)
  then obtain rs' where rs': "rs' \<in> set rss" "r \<in> set rs'"
    by auto
  then obtain child where child: "relationship_child pt pcs ns child = Inr rs'" "r \<in> set rs'"
    using map_result_member [OF d(4)] by blast
  have "length ps = length ws" if "texts_of ws = Inr ps" for ws ps
    using that by (induction ws arbitrary: ps rule: texts_of.induct) (auto simp: and_then_eq_Inr)
  then have "length (parent_columns r) = length pcs"
    using child by (auto simp: relationship_child_def and_then_eq_Inr new_relationship_def split: cfg.splits if_splits)
  then have pcs: "1 < length pcs"
    using assms(3) by simp
  have "cfg_get d ''parent'' CNull = (if map_of d ''parent'' = None then CNull else CDict parent)"
    using d(2) by (auto simp: cfg_get_def split: option.splits)
  moreover have "cfg_get parent ''columns'' CNull = CList pcs"
    using d(3) pcs by (auto simp: cfg_get_def split: option.splits)
  moreover have "cfg_truthy (CList pcs)"
    using pcs by auto
  ultimately have "config_rel_keyed v = Inr True"
    using d(1) pcs by (auto simp: config_rel_keyed_def cfg_or_empty_def)
  then show ?thesis
    using v by blast
qed

section \<open>Admission covers the plan\<close>

lemma build_seed_envelope_from:
  assumes "build_seed_envelope E config tables rels = Inr (p, ws)" "(n, ts) \<in> set (pl_per_table p)"
  obtains outs ws' where "table_entry E config (composite_fk_relationships rels) n = Inr (outs, ws')" "(n, ts) \<in> set outs"
proof -
  obtain couts where couts: "map_result (table_entry E config (composite_fk_relationships rels)) tables = Inr couts"
      "pl_per_table p = concat (map fst couts)"
    using assms(1) by (auto simp: build_seed_envelope_def and_then_eq_Inr)
  then obtain outs ws' where o: "(outs, ws') \<in> set couts" "(n, ts) \<in> set outs"
    using assms(2) by auto
  then obtain m where m: "table_entry E config (composite_fk_relationships rels) m = Inr (outs, ws')"
    using map_result_member [OF couts(1)] by blast
  then have "m = n"
    using table_entry_from(1) [OF m o(2)] by simp
  then show ?thesis
    using that m o(2) by blast
qed

lemma config_requirements_empty:
  assumes "secret_requirements_for_config config = Inr []"
  obtains tables rels where "cfg_iter (cfg_or_empty (cfg_get config ''tables'' CNull)) = Some tables"
    "cfg_iter (cfg_or_empty (cfg_get config ''relationships'' CNull)) = Some rels"
    "\<forall>t \<in> set tables. config_table_keyed t = Inr False" "\<forall>r \<in> set rels. config_rel_keyed r = Inr False"
  using assms that
  by (auto simp: secret_requirements_for_config_def and_then_eq_Inr of_option_eq_Inr any_result_False split: if_splits)

lemma or_empty_default: "cfg_or_empty (cfg_get c k (CList [])) = cfg_or_empty (cfg_get c k CNull)"
  by (simp add: cfg_get_def cfg_or_empty_def split: option.split)

lemma tables_block_iter:
  assumes "cfg_iter (cfg_or_empty (cfg_get config ''tables'' CNull)) = Some tables" "t \<in> set (tables_block config)"
  shows "CDict t \<in> set tables"
  using assms by (cases "cfg_get config ''tables'' CNull")
    (auto simp: tables_block_def cfg_or_empty_def dict_items_iff split: if_splits)

text \<open>An unkeyed configuration compiles to an unkeyed plan.\<close>

lemma unkeyed_config_unkeyed_plan:
  assumes "\<forall>t \<in> set (tables_block config). mask_xor_generate t = Inr ()"
    and "build_relationships config = Inr rels" "build_seed_envelope E config tables rels = Inr (p, ws)"
    and "secret_requirements_for_config config = Inr []"
  shows "secret_requirements_for_plan p = Inr []"
proof -
  obtain ctables crels where c: "cfg_iter (cfg_or_empty (cfg_get config ''tables'' CNull)) = Some ctables"
      "cfg_iter (cfg_or_empty (cfg_get config ''relationships'' CNull)) = Some crels"
      "\<forall>t \<in> set ctables. config_table_keyed t = Inr False" "\<forall>r \<in> set crels. config_rel_keyed r = Inr False"
    using config_requirements_empty [OF assms(4)] .
  have plain: "composite_fk_relationships rels = []"
    using build_relationships_from [OF assms(2)] c(2,4)
    by (fastforce simp: composite_fk_relationships_def or_empty_default filter_empty_conv)
  have "ts_per_group ts = [] \<and> any_result (\<lambda>(_, seed). plan_column_keyed seed) (ts_per_column ts) = Inr False"
    if ts: "(n, ts) \<in> set (pl_per_table p)" for n ts
  proof -
    obtain outs ws' where te: "table_entry E config [] n = Inr (outs, ws')" "(n, ts) \<in> set outs"
      using build_seed_envelope_from [OF assms(3) ts] plain by auto
    have "plan_column_keyed seed = Inr False" if seed: "(name, seed) \<in> set (ts_per_column ts)" for name seed
    proof -
      obtain t cols entry gr o' ws' where t: "config_tables config n = Some t"
          "cfg_iter (cfg_or_empty (cfg_get t ''columns'' CNull)) = Some cols" "entry \<in> set cols"
          "column_entry E n gr entry = Inr (o', ws')" "(name, seed) \<in> set o'"
        using table_entry_from(3) [OF te seed] by (auto simp: or_empty_default)
      obtain e strategy ws' where e: "entry = CDict e" "cfg_get e ''strategy'' CNull = CStr strategy"
          "column_seed_of E n name strategy e = Inr (seed, ws')"
        using column_entry_from [OF t(4,5)] .
      have tb: "t \<in> set (tables_block config)"
        using config_tables_from [OF t(1)] .
      have "cols \<noteq> []"
        using t(3) by auto
      then have "\<not> cfg_truthy (cfg_get t ''generate_columns'' CNull)"
        using assms(1) tb t(2) by (auto simp: mask_xor_generate_def cfg_or_empty_def Let_def split: if_splits)
      moreover have "config_table_keyed (CDict t) = Inr False"
        using c(3) tables_block_iter [OF c(1) tb] by blast
      ultimately have "config_column_keyed entry = Inr False"
        using t(2,3) by (simp add: config_table_keyed_def any_result_False)
      then show ?thesis
        using classifiers_agree [OF e(3,2)] e(1) by simp
    qed
    then show ?thesis
      using table_entry_from(2) [OF te] by (auto simp: any_result_False)
  qed
  then have "any_result (\<lambda>(_, table). if ts_per_group table \<noteq> [] then Inr True
      else any_result (\<lambda>(_, seed). plan_column_keyed seed) (ts_per_column table)) (pl_per_table p) = Inr False"
    by (auto simp: any_result_False)
  then show ?thesis
    by (simp add: secret_requirements_for_plan_def)
qed

text \<open>C26. The pre-read classifier is conservative. For a validated configuration (every table is masked or
  generated, not both) and the plan the compiler's seed envelope makes of it with the relationships of the
  same configuration, a successful admission covers what the plan needs: the late assertion never fails,
  and a keyed plan gets from \<open>require_mask_key\<close> the admitted material, or the fail-closed error when
  that material is shorter than 32 bytes. Columns with \<open>vault: true\<close> count as keyed on both sides.\<close>

theorem admission_covers_plan:
  assumes "\<forall>t \<in> set (tables_block config). mask_xor_generate t = Inr ()"
    and "build_relationships config = Inr rels" "build_seed_envelope E config tables rels = Inr (p, ws)"
    and "admit_mask_key H reg config kp = Inr adm"
    and "secret_requirements_for_plan p = Inr reqs"
  shows "assert_plan_requirements_admitted p adm = Inr () \<and>
    (reqs \<noteq> [] \<longrightarrow> (\<exists>s. ak_prepared adm = Some s \<and> require_mask_key p (ak_key_provider adm) =
       (if length (se_material s) < MIN_SECRET_BYTES then Inl (SecretErr KEYED_STRATEGY_REQUIRES_SECRET)
        else Inr (se_material s))))"
proof -
  obtain creqs where creqs: "secret_requirements_for_config config = Inr creqs"
    using assms(4) by (auto simp: admit_mask_key_def admit_boxed_def call_closed_Inr and_then_eq_Inr)
  have "creqs \<noteq> []" if "reqs \<noteq> []"
    using unkeyed_config_unkeyed_plan [OF assms(1-3)] creqs assms(5) that by auto
  moreover have "ak_requirements adm \<noteq> [] \<and> (\<exists>s. ak_prepared adm = Some s \<and> ak_key_provider adm = Some (PreparedKeyProvider s))"
    if "creqs \<noteq> []"
    using assms(4) creqs that
    by (auto simp: admit_mask_key_def admit_boxed_def call_closed_Inr and_then_eq_Inr Let_def split: option.splits if_splits)
  ultimately consider "reqs = []" | s where "reqs \<noteq> []" "ak_requirements adm \<noteq> []" "ak_prepared adm = Some s"
      "ak_key_provider adm = Some (PreparedKeyProvider s)"
    by blast
  then show ?thesis
    by cases (use assms(5) in \<open>auto simp: assert_plan_requirements_admitted_def require_mask_key_def
        plan_has_keyed_strategy_def require_def\<close>)
qed

section \<open>No column is left out\<close>

lemma column_entry_kept:
  assumes "column_entry E n grouped (CDict c) = Inr (outs, ws)"
    and "cfg_get c ''name'' CNull = CStr name" "name \<noteq> []" "name \<notin> set grouped"
    and "cfg_get c ''strategy'' CNull = CStr s" "s \<noteq> []" "s = ''faker'' \<longrightarrow> cfg_truthy (cfg_get c ''provider'' CNull)"
  shows "\<exists>seed ws'. outs = [(name, seed)] \<and> column_seed_of E n name s c = Inr (seed, ws')"
  using assms by (auto simp: column_entry_def Let_def and_then_eq_Inr split: if_splits)

lemma column_entry_grouped:
  assumes "column_entry E n grouped entry = Inr (outs, ws)" "(name, seed) \<in> set outs"
  shows "name \<notin> set grouped"
  using assms by (auto simp: column_entry_def Let_def and_then_eq_Inr split: cfg.splits if_splits)

lemma table_entry_columns:
  assumes "table_entry E config crels n = Inr (outs, ws)" "config_tables config n = Some t"
    and "cfg_iter (cfg_or_empty (cfg_get t ''columns'' (CList []))) = Some cols"
  obtains couts where
    "map_result (column_entry E n (concat (map child_columns (filter (\<lambda>r. child_table r = n) crels)))) cols = Inr couts"
    "outs = (if concat (map fst couts) = [] \<and> filter (\<lambda>r. child_table r = n) crels = [] then []
       else [(n, \<lparr>ts_per_column = concat (map fst couts),
                  ts_per_group = map group_seed_of (filter (\<lambda>r. child_table r = n) crels)\<rparr>)])"
  using assms by (auto simp: table_entry_def Let_def and_then_eq_Inr)

text \<open>No declared column is left out of the plan. A column of a profiled table that has a name and a
  strategy (and, for \<open>faker\<close>, a provider) is in the compiled seed envelope: a member of a composite
  foreign key is among the columns of one of the table's groups and has no seed of its own; any other column has a seed with the strategy, the vault flag and the deterministic flag of its entry.\<close>

theorem envelope_keeps_every_column:
  assumes "build_seed_envelope E config tables rels = Inr (p, ws)" "n \<in> set tables" "config_tables config n = Some t"
    and "cfg_iter (cfg_or_empty (cfg_get t ''columns'' (CList []))) = Some cols" "CDict c \<in> set cols"
    and "cfg_get c ''name'' CNull = CStr name" "name \<noteq> []"
    and "cfg_get c ''strategy'' CNull = CStr s" "s \<noteq> []" "s = ''faker'' \<longrightarrow> cfg_truthy (cfg_get c ''provider'' CNull)"
  shows "\<exists>ts. (n, ts) \<in> set (pl_per_table p) \<and>
    (if \<exists>r \<in> set rels. 1 < length (parent_columns r) \<and> child_table r = n \<and> name \<in> set (child_columns r)
     then name \<notin> fst ` set (ts_per_column ts) \<and> (\<exists>g \<in> snd ` set (ts_per_group ts). name \<in> set (gs_coherent_columns g))
     else \<exists>seed. (name, seed) \<in> set (ts_per_column ts) \<and> cs_strategy seed = s \<and>
       (cs_vault seed \<longleftrightarrow> cfg_truthy (cfg_get c ''vault'' CNull)) \<and>
       (cs_deterministic seed \<longleftrightarrow>
          cfg_truthy (cfg_get c ''deterministic'' CNull) \<or> cfg_truthy (cfg_get c ''allow_collisions'' CNull)))"
proof -
  let ?here = "filter (\<lambda>r. child_table r = n) (composite_fk_relationships rels)"
  let ?grouped = "concat (map child_columns ?here)"
  obtain touts where touts: "map_result (table_entry E config (composite_fk_relationships rels)) tables = Inr touts"
      "pl_per_table p = concat (map fst touts)"
    using assms(1) by (auto simp: build_seed_envelope_def and_then_eq_Inr)
  obtain outs ws' where te: "table_entry E config (composite_fk_relationships rels) n = Inr (outs, ws')" "(outs, ws') \<in> set touts"
    using map_result_nth [OF touts(1)] map_result_length [OF touts(1)] assms(2) by (metis in_set_conv_nth surj_pair)
  obtain couts where couts: "map_result (column_entry E n ?grouped) cols = Inr couts"
      "outs = (if concat (map fst couts) = [] \<and> ?here = [] then []
         else [(n, \<lparr>ts_per_column = concat (map fst couts), ts_per_group = map group_seed_of ?here\<rparr>)])"
    using table_entry_columns [OF te(1) assms(3,4)] .
  let ?ts = "\<lparr>ts_per_column = concat (map fst couts), ts_per_group = map group_seed_of ?here\<rparr>"
  have in_plan: "(n, ?ts) \<in> set (pl_per_table p)" if "concat (map fst couts) \<noteq> [] \<or> ?here \<noteq> []"
  proof -
    have "outs = [(n, ?ts)]"
      using couts(2) that by auto
    then show ?thesis
      using te(2) touts(2) by force
  qed
  have grouped: "name \<in> set ?grouped \<longleftrightarrow>
      (\<exists>r \<in> set rels. 1 < length (parent_columns r) \<and> child_table r = n \<and> name \<in> set (child_columns r))"
    by (auto simp: composite_fk_relationships_def)
  obtain o' ws'' where o': "column_entry E n ?grouped (CDict c) = Inr (o', ws'')" "(o', ws'') \<in> set couts"
    using map_result_nth [OF couts(1)] map_result_length [OF couts(1)] assms(5) by (metis in_set_conv_nth surj_pair)
  show ?thesis
  proof (cases "name \<in> set ?grouped")
    case True
    then have "(n, ?ts) \<in> set (pl_per_table p)"
      by (intro in_plan) (auto simp: filter_empty_conv)
    moreover have "name \<notin> fst ` set (ts_per_column ?ts)"
      using True column_entry_grouped map_result_member [OF couts(1)] by fastforce
    moreover have "\<exists>g \<in> snd ` set (ts_per_group ?ts). name \<in> set (gs_coherent_columns g)"
      using True by (auto simp: group_seed_of_def)
    ultimately show ?thesis
      using True by (intro exI [of _ ?ts]) (simp only: grouped [symmetric] if_True simp_thms)
  next
    case False
    obtain seed wz where seed: "o' = [(name, seed)]" "column_seed_of E n name s c = Inr (seed, wz)"
      using column_entry_kept [OF o'(1) assms(6,7) False assms(8,9,10)] by blast
    have mem: "(name, seed) \<in> set (ts_per_column ?ts)"
      using seed(1) o'(2) by force
    then have "(n, ?ts) \<in> set (pl_per_table p)"
      by (intro in_plan) fastforce
    moreover obtain mode where "column_mode c = Inr (mode, cs_deterministic seed)"
      using column_seed_of_fields [OF seed(2)] by blast
    then have "cs_deterministic seed \<longleftrightarrow>
        cfg_truthy (cfg_get c ''deterministic'' CNull) \<or> cfg_truthy (cfg_get c ''allow_collisions'' CNull)"
      by (rule column_mode_deterministic)
    ultimately show ?thesis
      using mem False column_seed_of_fields [OF seed(2)]
      by (intro exI [of _ ?ts]) (simp only: grouped [symmetric] if_False simp_thms, blast)
  qed
qed

section \<open>Witnesses\<close>

definition demo_env :: planner_env where
  "demo_env = \<lparr>pe_bindings = [(''ssn'', ''faker'', ''2'')], pe_float = (\<lambda>_. None), pe_model_version = (\<lambda>_. None)\<rparr>"

definition demo_seed :: column_seed where
  "demo_seed = \<lparr>cs_namespace = CNull, cs_strategy = ''fpe'', cs_provider = CNull, cs_backend_type = ''faker'',
     cs_backend_version = CStr ''stub-0'', cs_cardinality_mode = ''reuse'', cs_deterministic = False,
     cs_provider_config = [], cs_coherent_with = [], cs_technique_class = Some ''pseudonymisation'', cs_when = None,
     cs_distribution_behavior = Some ''preserves_cardinality_only'', cs_ner_model_version = None, cs_pool_size = None,
     cs_scale = None, cs_vault = False\<rparr>"

definition keyed_plan :: plan where
  "keyed_plan = \<lparr>pl_job_seed = replicate 8 0, pl_per_table = [(''t'', \<lparr>ts_per_column = [(''c'', demo_seed)], ts_per_group = []\<rparr>)]\<rparr>"

lemma keyed_plan_facts:
  "build_relationships keyed_config = Inr []" "build_seed_envelope demo_env keyed_config [''t''] [] = Inr (keyed_plan, [])"
  "secret_requirements_for_plan keyed_plan = Inr [MASK_ROOT_V1]"
  "\<forall>t \<in> set (tables_block keyed_config). mask_xor_generate t = Inr ()"
  by code_simp+

theorem admission_covers_plan_witness:
  "\<exists>adm. admit_mask_key demo_host (default_registry demo_host) keyed_config None = Inr adm \<and>
     assert_plan_requirements_admitted keyed_plan adm = Inr ()"
proof -
  obtain adm where adm: "admit_mask_key demo_host (default_registry demo_host) keyed_config None = Inr adm"
    using demo_admits by blast
  show ?thesis
    using admission_covers_plan [OF keyed_plan_facts(4,1,2) adm keyed_plan_facts(3)] adm by blast
qed

text \<open>A redacted column that is vaulted, and two members of a composite key.\<close>

definition vault_config :: config where
  "vault_config = [(''tables'', CList [CDict [(''name'', CStr ''t''), (''columns'', CList
     [CDict [(''name'', CStr ''c''), (''strategy'', CStr ''redact''), (''vault'', CBool True)],
      CDict [(''name'', CStr ''a''), (''strategy'', CStr ''hash'')]])]])]"

definition composite_rel :: relationship where
  "composite_rel = \<lparr>parent_table = ''p'', parent_columns = [''x'', ''y''], child_table = ''t'',
     child_columns = [''b'', ''a''], rel_namespace = None\<rparr>"

theorem envelope_keeps_every_column_witness:
  "\<exists>p ws ts seed. build_seed_envelope demo_env vault_config [''t''] [composite_rel] = Inr (p, ws) \<and>
     (''t'', ts) \<in> set (pl_per_table p) \<and> (''c'', seed) \<in> set (ts_per_column ts) \<and> cs_vault seed \<and>
     secret_requirements_for_config vault_config = Inr [MASK_ROOT_V1]"
proof -
  define t where "t = [(''name'', CStr ''t''), (''columns'', CList
     [CDict [(''name'', CStr ''c''), (''strategy'', CStr ''redact''), (''vault'', CBool True)],
      CDict [(''name'', CStr ''a''), (''strategy'', CStr ''hash'')]])]"
  define c where "c = [(''name'', CStr ''c''), (''strategy'', CStr ''redact''), (''vault'', CBool True)]"
  have "\<not> isl (build_seed_envelope demo_env vault_config [''t''] [composite_rel])"
    by code_simp
  then obtain p ws where p: "build_seed_envelope demo_env vault_config [''t''] [composite_rel] = Inr (p, ws)"
    by (cases "build_seed_envelope demo_env vault_config [''t''] [composite_rel]") auto
  have facts: "config_tables vault_config ''t'' = Some t" "cfg_get c ''name'' CNull = CStr ''c''"
      "cfg_get c ''strategy'' CNull = CStr ''redact''" "cfg_truthy (cfg_get c ''vault'' CNull)"
    unfolding t_def c_def by code_simp+
  have cols: "cfg_iter (cfg_or_empty (cfg_get t ''columns'' (CList []))) =
      Some [CDict c, CDict [(''name'', CStr ''a''), (''strategy'', CStr ''hash'')]]"
    unfolding t_def c_def by code_simp
  have "secret_requirements_for_config vault_config = Inr [MASK_ROOT_V1]"
    by code_simp
  then show ?thesis
    using envelope_keeps_every_column [OF p _ facts(1) cols _ facts(2) _ facts(3)] p facts(4)
    by (auto simp: composite_rel_def)
qed

end
