(* ===== verification/Declared_Formats.thy ===== *)
theory Declared_Formats
  imports Py_Text Calendar Utf8
begin

text \<open>
  Declared formats of a column: the shapes of \<open>contracts/_declared_base.py\<close> and \<open>contracts/_declared_formats.py\<close>
  with what their validators accept, the kernels of \<open>declared_casting/_numeric.py\<close> (integers, decimals,
  currency), \<open>_cobol.py\<close> (overpunch, zoned, packed) and \<open>_date.py\<close>, and the formatter of
  \<open>declared_casting/_catalog.py\<close>, which renders, pads and reads its own output back; and that every rendering
  kernel is inverted by the parser of its shape (the formatter itself: theory \<open>Declared_Formatter\<close>). A failing kernel answers
  \<open>Inl\<close> with its reason; the read-back check of the formatter raises. A shape is the typed model that
  validation returns: what pydantic coerces and which code a rejected one reports are not modelled.
\<close>

section \<open>Model\<close>

subsection \<open>Values\<close>

text \<open>A decimal is its sign, coefficient and exponent; infinities and NaNs have no integer exponent.\<close>

datatype decimal = Finite (dec_neg: bool) (dec_coef: nat) (dec_exp: int) | NonFinite

text \<open>\<open>VOther\<close> is a value of another type (a float, a timestamp, a numpy scalar).\<close>

datatype cell_value =
    VText string | VBytes bytes | VInt int | VBool bool | VDecimal decimal | VDate date | VOther

datatype cast_reason =
    DECLARED_INTEGER_INVALID | DECLARED_INTEGER_OVERFLOW | DECLARED_DECIMAL_INVALID
  | DECLARED_DECIMAL_PRECISION_LOSS | DECLARED_DECIMAL_OVERFLOW | DECLARED_CURRENCY_INVALID
  | DECLARED_DATE_INVALID | DECLARED_COBOL_INVALID | DECLARED_OUTPUT_WIDTH_OVERFLOW
  | DECLARED_CAST_INPUT_TYPE_INCOMPATIBLE

type_synonym cast_outcome = "cast_reason + cell_value"

subsection \<open>Shapes\<close>

record precision =
  pr_precision :: nat
  pr_scale :: nat

record separators =
  sp_radix :: char
  sp_group :: "char option"

datatype token_position = Prefix | Suffix
datatype sign_style = LeadingMinus | AccountingParentheses

record currency =
  cu_code :: string
  cu_token :: string
  cu_position :: token_position
  cu_sign_style :: sign_style

datatype width_unit = CodePoints | Bytes
datatype alignment = AlignLeft | AlignRight

record padding =
  pd_width :: "nat option"
  pd_unit :: "width_unit option"
  pd_pad :: char
  pd_align :: alignment

datatype parse_format =
    StringExact
  | IntegerAscii bool nat
  | DecimalPlain precision
  | DecimalGrouped precision separators
  | DateIso
  | DateStrptime string
  | Currency precision separators currency
  | Overpunch precision
  | Zoned precision bool
  | Comp3 precision bool

datatype output_format =
    StringExactOut padding
  | IntegerAsciiOut padding bool nat
  | IntegerZeroPad padding bool nat
  | DecimalPlainOut padding precision
  | DecimalGroupedOut padding precision separators
  | DateIsoOut padding
  | DateStrftime padding string
  | CurrencyOut padding precision separators currency
  | OverpunchOut precision
  | ZonedOut precision bool
  | Comp3Out precision bool

subsection \<open>What validation accepts\<close>

definition MAX_PRECISION :: nat where "MAX_PRECISION = 38"
definition MAX_TOKEN_BYTES :: nat where "MAX_TOKEN_BYTES = 32"
definition INTEGER_WIDTHS :: "nat list" where "INTEGER_WIDTHS = [8, 16, 32, 64]"

text \<open>\<open>str.isprintable\<close> of one character.\<close>

definition py_isprintable_char :: "char \<Rightarrow> bool" where
  "py_isprintable_char c \<longleftrightarrow> (let n = (of_char c :: nat) in (32 \<le> n \<and> n \<le> 126) \<or> (161 \<le> n \<and> n \<noteq> 173))"

definition precision_ok :: "precision \<Rightarrow> bool" where
  "precision_ok p \<longleftrightarrow> 1 \<le> pr_precision p \<and> pr_precision p \<le> MAX_PRECISION \<and> pr_scale p \<le> 10 ^ 6 \<and>
     pr_scale p \<le> pr_precision p"

definition separator_ok :: "char \<Rightarrow> bool" where
  "separator_ok c \<longleftrightarrow> (of_char c :: nat) < 128 \<and> py_isprintable_char c \<and> c \<notin> set ''0123456789+-() ''"

definition separators_ok :: "separators \<Rightarrow> bool" where
  "separators_ok s \<longleftrightarrow> separator_ok (sp_radix s) \<and>
     (case sp_group s of None \<Rightarrow> True | Some g \<Rightarrow> separator_ok g \<and> g \<noteq> sp_radix s)"

datatype date_part = PartY | PartM | PartD | PartLit char

definition DATE_LITERALS :: string where "DATE_LITERALS = ''-/. :_,''"

text \<open>The loop of \<open>date_pattern\<close>; \<open>None\<close> where it raises a violation.\<close>

fun date_tokens :: "string \<Rightarrow> date_part list option" where
  "date_tokens [] = Some []"
| "date_tokens (c # cs) =
     (if c = CHR ''%'' then
        (case cs of
           [] \<Rightarrow> None
         | d # ds \<Rightarrow>
             if d = CHR ''Y'' then map_option ((#) PartY) (date_tokens ds)
             else if d = CHR ''m'' then map_option ((#) PartM) (date_tokens ds)
             else if d = CHR ''d'' then map_option ((#) PartD) (date_tokens ds)
             else None)
      else if c \<in> set DATE_LITERALS then map_option ((#) (PartLit c)) (date_tokens cs)
      else None)"

fun is_field :: "date_part \<Rightarrow> bool" where
  "is_field (PartLit c) = False"
| "is_field p = True"

fun adjacent_fields :: "date_part list \<Rightarrow> bool" where
  "adjacent_fields (a # b # ps) = (is_field a \<and> is_field b \<or> adjacent_fields (b # ps))"
| "adjacent_fields ps = False"

definition date_pattern :: "string \<Rightarrow> date_part list option" where
  "date_pattern fmt =
     (case date_tokens fmt of
        None \<Rightarrow> None
      | Some parts \<Rightarrow>
          if (\<forall>p \<in> {PartY, PartM, PartD}. length (filter ((=) p) parts) = 1) \<and> \<not> adjacent_fields parts
          then Some parts else None)"

fun part_width :: "date_part \<Rightarrow> nat" where
  "part_width PartY = 4"
| "part_width PartM = 2"
| "part_width PartD = 2"
| "part_width (PartLit c) = 1"

definition date_width :: "string \<Rightarrow> nat option" where
  "date_width fmt = map_option (\<lambda>parts. sum_list (map part_width parts)) (date_pattern fmt)"

definition currency_ok :: "currency \<Rightarrow> bool" where
  "currency_ok c \<longleftrightarrow>
     length (cu_code c) = 3 \<and> (\<forall>x \<in> set (cu_code c). 65 \<le> (of_char x :: nat) \<and> (of_char x :: nat) \<le> 90) \<and>
     (let t = cu_token c in
       t \<noteq> [] \<and> length (utf8 t) \<le> MAX_TOKEN_BYTES \<and>
       (\<forall>x \<in> set t. py_isprintable_char x \<and> \<not> py_isdigit_char x \<and> x \<notin> set ''-()'') \<and>
       (\<exists>x \<in> set t. x \<noteq> CHR '' ''))"

fun parse_format_ok :: "parse_format \<Rightarrow> bool" where
  "parse_format_ok StringExact = True"
| "parse_format_ok (IntegerAscii sg bits) = (bits \<in> set INTEGER_WIDTHS)"
| "parse_format_ok (DecimalPlain p) = precision_ok p"
| "parse_format_ok (DecimalGrouped p s) = (precision_ok p \<and> separators_ok s \<and> sp_group s \<noteq> None)"
| "parse_format_ok DateIso = True"
| "parse_format_ok (DateStrptime fmt) = (date_pattern fmt \<noteq> None)"
| "parse_format_ok (Currency p s c) = (precision_ok p \<and> separators_ok s \<and> currency_ok c)"
| "parse_format_ok (Overpunch p) = precision_ok p"
| "parse_format_ok (Zoned p sg) = precision_ok p"
| "parse_format_ok (Comp3 p sg) = precision_ok p"

text \<open>\<open>_Padded\<close>: \<open>required\<close> is its \<open>_width_required\<close>, \<open>zero_pad\<close> exempts the one id that pads with a digit.\<close>

definition padding_ok :: "bool \<Rightarrow> bool \<Rightarrow> padding \<Rightarrow> bool" where
  "padding_ok required zero_pad p \<longleftrightarrow>
     (case pd_width p of None \<Rightarrow> \<not> required | Some w \<Rightarrow> 1 \<le> w \<and> w \<le> 1000000) \<and>
     (pd_width p \<noteq> None \<longrightarrow> pd_unit p \<noteq> None) \<and>
     py_isprintable_char (pd_pad p) \<and>
     (pd_unit p = Some Bytes \<longrightarrow> length (utf8 [pd_pad p]) = 1) \<and>
     (py_isdigit_char (pd_pad p) \<longrightarrow> zero_pad)"

definition wide_enough :: "padding \<Rightarrow> nat \<Rightarrow> bool" where
  "wide_enough p n \<longleftrightarrow> (case pd_width p of None \<Rightarrow> True | Some w \<Rightarrow> n \<le> w)"

fun output_format_ok :: "output_format \<Rightarrow> bool" where
  "output_format_ok (StringExactOut pd) = padding_ok False False pd"
| "output_format_ok (IntegerAsciiOut pd sg bits) = (padding_ok False False pd \<and> bits \<in> set INTEGER_WIDTHS)"
| "output_format_ok (IntegerZeroPad pd sg bits) =
     (padding_ok True True pd \<and> bits \<in> set INTEGER_WIDTHS \<and> pd_pad pd = CHR ''0'' \<and> pd_align pd = AlignRight)"
| "output_format_ok (DecimalPlainOut pd p) = (padding_ok False False pd \<and> precision_ok p)"
| "output_format_ok (DecimalGroupedOut pd p s) =
     (padding_ok False False pd \<and> precision_ok p \<and> separators_ok s \<and> sp_group s \<noteq> None)"
| "output_format_ok (DateIsoOut pd) = (padding_ok False False pd \<and> wide_enough pd 10)"
| "output_format_ok (DateStrftime pd fmt) =
     (padding_ok False False pd \<and> (case date_width fmt of None \<Rightarrow> False | Some n \<Rightarrow> wide_enough pd n))"
| "output_format_ok (CurrencyOut pd p s c) = (padding_ok False False pd \<and> precision_ok p \<and> separators_ok s \<and> currency_ok c)"
| "output_format_ok (OverpunchOut p) = precision_ok p"
| "output_format_ok (ZonedOut p sg) = precision_ok p"
| "output_format_ok (Comp3Out p sg) = precision_ok p"

subsection \<open>Exact decimals\<close>

definition MAX_TEXT :: nat where "MAX_TEXT = 128"

text \<open>\<open>scaled\<close>: the pinned context holds 80 digits and exponents down to -200, so \<open>scaleb\<close> rounds nothing for a
  scale and a digit count that validation admits.\<close>

definition scaled :: "nat \<Rightarrow> nat \<Rightarrow> bool \<Rightarrow> decimal" where
  "scaled unscaled scale negative = Finite negative unscaled (- int scale)"

text \<open>\<open>unscale\<close>; the digits of a decimal are those of its coefficient.\<close>

definition unscale_decimal :: "bool \<Rightarrow> nat \<Rightarrow> int \<Rightarrow> nat \<Rightarrow> nat \<Rightarrow> cast_reason + (nat \<times> bool)" where
  "unscale_decimal neg coefficient expo scale precision =
     (if 2 * MAX_TEXT < length (dec_str coefficient) \<or> int (2 * MAX_TEXT) < \<bar>expo\<bar> then Inl DECLARED_DECIMAL_INVALID
      else let shift = expo + int scale in
        if 0 \<le> shift
        then let unscaled = coefficient * 10 ^ nat shift in
          if 10 ^ precision \<le> unscaled then Inl DECLARED_DECIMAL_OVERFLOW else Inr (unscaled, neg)
        else let d = 10 ^ nat (- shift) in
          if coefficient mod d \<noteq> 0 then Inl DECLARED_DECIMAL_PRECISION_LOSS
          else if 10 ^ precision \<le> coefficient div d then Inl DECLARED_DECIMAL_OVERFLOW
          else Inr (coefficient div d, neg))"

fun unscale :: "cell_value \<Rightarrow> nat \<Rightarrow> nat \<Rightarrow> cast_reason + (nat \<times> bool)" where
  "unscale (VDecimal (Finite neg coefficient expo)) scale precision = unscale_decimal neg coefficient expo scale precision"
| "unscale (VInt i) scale precision = unscale_decimal (i < 0) (nat \<bar>i\<bar>) 0 scale precision"
| "unscale v scale precision = Inl DECLARED_DECIMAL_INVALID"

subsection \<open>Integers\<close>

definition int_bounds :: "bool \<Rightarrow> nat \<Rightarrow> int \<times> int" where
  "int_bounds sg bits = (if sg then (- (2 ^ (bits - 1)), 2 ^ (bits - 1) - 1) else (0, 2 ^ bits - 1))"

text \<open>\<open>_INT.fullmatch\<close>.\<close>

fun drop_sign :: "string \<Rightarrow> string" where
  "drop_sign [] = []"
| "drop_sign (c # s) = (if c \<in> set ''+-'' then s else c # s)"

definition int_match :: "string \<Rightarrow> bool" where
  "int_match s \<longleftrightarrow> drop_sign s \<noteq> [] \<and> all_digits (drop_sign s)"

definition int_of_text :: "string \<Rightarrow> int" where
  "int_of_text s = (if take 1 s = ''-'' then - int (dec_val (drop_sign s)) else int (dec_val (drop_sign s)))"

definition parse_integer :: "bool \<Rightarrow> nat \<Rightarrow> cell_value \<Rightarrow> cast_outcome" where
  "parse_integer sg bits v =
     (case v of
        VText raw \<Rightarrow>
          if MAX_TEXT < length raw \<or> \<not> int_match raw then Inl DECLARED_INTEGER_INVALID
          else
            let significant = dropWhile (\<lambda>c. c = CHR ''0'') (dropWhile (\<lambda>c. c \<in> set ''+-'') raw);
                (lo, hi) = int_bounds sg bits;
                n = int_of_text raw in
            if length (py_str_int hi) + 1 < length significant then Inl DECLARED_INTEGER_OVERFLOW
            else if lo \<le> n \<and> n \<le> hi then Inr (VInt n) else Inl DECLARED_INTEGER_OVERFLOW
      | _ \<Rightarrow> Inl DECLARED_INTEGER_INVALID)"

text \<open>\<open>format_integer\<close>: \<open>zero_pad\<close> is the declared width of an \<open>IntegerZeroPad\<close>.\<close>

definition format_integer :: "bool \<Rightarrow> nat \<Rightarrow> nat option \<Rightarrow> cell_value \<Rightarrow> cast_outcome" where
  "format_integer sg bits zero_pad v =
     (case v of
        VInt n \<Rightarrow>
          let (lo, hi) = int_bounds sg bits in
          if \<not> (lo \<le> n \<and> n \<le> hi) then Inl DECLARED_INTEGER_OVERFLOW
          else (case zero_pad of
              None \<Rightarrow> Inr (VText (py_str_int n))
            | Some width \<Rightarrow>
                let sign = (if n < 0 then ''-'' else []); digits = dec_str (nat \<bar>n\<bar>) in
                if width < length sign + length digits then Inl DECLARED_OUTPUT_WIDTH_OVERFLOW
                else Inr (VText (sign @ rjust digits (width - length sign) (CHR ''0''))))
      | _ \<Rightarrow> Inl DECLARED_INTEGER_INVALID)"

subsection \<open>Decimals and currency\<close>

definition from_parts :: "precision \<Rightarrow> bool \<Rightarrow> string \<Rightarrow> string \<Rightarrow> cast_reason \<Rightarrow> cast_reason \<Rightarrow> cast_outcome" where
  "from_parts p negative whole frac loss overflow =
     (if pr_scale p < length frac then Inl loss
      else let unscaled = dec_val (whole @ ljust frac (pr_scale p) (CHR ''0'')) in
        if 10 ^ pr_precision p \<le> unscaled then Inl overflow
        else Inr (VDecimal (scaled unscaled (pr_scale p) negative)))"

text \<open>\<open>_PLAIN.fullmatch\<close> on the text after the sign: the whole and the fraction digits.\<close>

definition plain_match :: "string \<Rightarrow> (string \<times> string) option" where
  "plain_match s =
     (let whole = takeWhile is_digit s; rest = dropWhile is_digit s in
      if whole = [] then None
      else case rest of
          [] \<Rightarrow> Some (whole, [])
        | c # frac \<Rightarrow> if c = CHR ''.'' \<and> frac \<noteq> [] \<and> all_digits frac then Some (whole, frac) else None)"

definition parse_plain :: "precision \<Rightarrow> cell_value \<Rightarrow> cast_outcome" where
  "parse_plain p v =
     (case v of
        VText raw \<Rightarrow>
          if MAX_TEXT < length raw then Inl DECLARED_DECIMAL_INVALID
          else (case plain_match (drop_sign raw) of
              None \<Rightarrow> Inl DECLARED_DECIMAL_INVALID
            | Some (whole, frac) \<Rightarrow>
                from_parts p (take 1 raw = ''-'') whole frac DECLARED_DECIMAL_PRECISION_LOSS DECLARED_DECIMAL_OVERFLOW)
      | _ \<Rightarrow> Inl DECLARED_DECIMAL_INVALID)"

text \<open>\<open>_group\<close>: a head of one to three digits, then groups of three.\<close>

fun tail_groups :: "char \<Rightarrow> string \<Rightarrow> string" where
  "tail_groups g (a # b # c # s) = g # a # b # c # tail_groups g s"
| "tail_groups g s = (if s = [] then [] else g # s)"

definition group_digits :: "string \<Rightarrow> char option \<Rightarrow> string" where
  "group_digits whole sep =
     (case sep of
        None \<Rightarrow> whole
      | Some g \<Rightarrow>
          if length whole \<le> 3 then whole
          else let head = (if length whole mod 3 = 0 then 3 else length whole mod 3) in
            take head whole @ tail_groups g (drop head whole))"

definition render_number :: "nat \<Rightarrow> nat \<Rightarrow> char \<Rightarrow> char option \<Rightarrow> string" where
  "render_number unscaled scale radix grp =
     (let digits = rjust (dec_str unscaled) (scale + 1) (CHR ''0'');
          whole = take (length digits - scale) digits; frac = drop (length digits - scale) digits in
      group_digits whole grp @ (if scale = 0 then [] else radix # frac))"

definition format_plain :: "precision \<Rightarrow> char \<Rightarrow> char option \<Rightarrow> cell_value \<Rightarrow> cast_outcome" where
  "format_plain p radix grp v =
     and_then (unscale v (pr_scale p) (pr_precision p)) (\<lambda>(unscaled, negative).
     Inr (VText ((if negative then ''-'' else []) @ render_number unscaled (pr_scale p) radix grp)))"

text \<open>\<open>_number_pattern\<close> and \<open>_grouped_digits\<close>. The fraction has a fixed length, so the split is unique.\<close>

definition nonzero_digit :: "char \<Rightarrow> bool" where
  "nonzero_digit c \<longleftrightarrow> is_digit c \<and> c \<noteq> CHR ''0''"

fun groups_tail :: "char \<Rightarrow> string \<Rightarrow> bool" where
  "groups_tail g [] = True"
| "groups_tail g (x # a # b # c # s) = (x = g \<and> all_digits [a, b, c] \<and> groups_tail g s)"
| "groups_tail g s = False"

definition grouped_whole :: "char \<Rightarrow> string \<Rightarrow> bool" where
  "grouped_whole g w \<longleftrightarrow> w \<noteq> [] \<and> nonzero_digit (hd w) \<and>
     (\<exists>k \<in> {1, 2, 3}. all_digits (take k w) \<and> groups_tail g (drop k w))"

definition whole_match :: "char option \<Rightarrow> string \<Rightarrow> bool" where
  "whole_match grp w \<longleftrightarrow>
     (case grp of
        None \<Rightarrow> w \<noteq> [] \<and> all_digits w
      | Some g \<Rightarrow> w = ''0'' \<or> grouped_whole g w \<or> w \<noteq> [] \<and> nonzero_digit (hd w) \<and> all_digits w)"

definition number_match :: "separators \<Rightarrow> nat \<Rightarrow> string \<Rightarrow> (string \<times> string) option" where
  "number_match s scale number =
     (let flen = (if scale = 0 then 0 else scale + 1);
          whole = take (length number - flen) number; frac = drop (length number - flen) number in
      if flen \<le> length number \<and> (scale \<noteq> 0 \<longrightarrow> hd frac = sp_radix s \<and> all_digits (tl frac)) \<and> whole_match (sp_group s) whole
      then Some (whole, tl frac) else None)"

definition grouped_digits :: "separators \<Rightarrow> nat \<Rightarrow> string \<Rightarrow> (string \<times> string) option" where
  "grouped_digits s scale number =
     (case number_match s scale number of
        None \<Rightarrow> None
      | Some (whole, frac) \<Rightarrow>
          (case sp_group s of
             None \<Rightarrow> Some (whole, frac)
           | Some g \<Rightarrow>
               if 4 \<le> length whole \<and> nonzero_digit (hd whole) \<and> all_digits whole then None
               else Some (filter (\<lambda>c. c \<noteq> g) whole, frac)))"

definition parse_grouped :: "precision \<Rightarrow> separators \<Rightarrow> cell_value \<Rightarrow> cast_outcome" where
  "parse_grouped p s v =
     (case v of
        VText raw \<Rightarrow>
          if MAX_TEXT < length raw then Inl DECLARED_DECIMAL_INVALID
          else (case grouped_digits s (pr_scale p) (drop_sign raw) of
              None \<Rightarrow> Inl DECLARED_DECIMAL_INVALID
            | Some (whole, frac) \<Rightarrow>
                from_parts p (take 1 raw = ''-'') whole frac DECLARED_DECIMAL_PRECISION_LOSS DECLARED_DECIMAL_OVERFLOW)
      | _ \<Rightarrow> Inl DECLARED_DECIMAL_INVALID)"

definition starts_with :: "string \<Rightarrow> string \<Rightarrow> bool" where
  "starts_with s p \<longleftrightarrow> take (length p) s = p"

definition ends_with :: "string \<Rightarrow> string \<Rightarrow> bool" where
  "ends_with s p \<longleftrightarrow> length p \<le> length s \<and> drop (length s - length p) s = p"

text \<open>The sign of a currency text, and its number between sign and token. \<open>body[1:-1]\<close> of \<open>"("\<close> alone is not
  reached: it does not end with a closing parenthesis.\<close>

definition currency_body :: "currency \<Rightarrow> string \<Rightarrow> string \<times> bool" where
  "currency_body c raw =
     (case cu_sign_style c of
        LeadingMinus \<Rightarrow> if starts_with raw ''-'' then (tl raw, True) else (raw, False)
      | AccountingParentheses \<Rightarrow> if starts_with raw ''('' \<and> ends_with raw '')'' then (butlast (tl raw), True) else (raw, False))"

definition currency_number :: "currency \<Rightarrow> string \<Rightarrow> string option" where
  "currency_number c body =
     (case cu_position c of
        Prefix \<Rightarrow> if starts_with body (cu_token c) then Some (drop (length (cu_token c)) body) else None
      | Suffix \<Rightarrow> if ends_with body (cu_token c) then Some (take (length body - length (cu_token c)) body) else None)"

definition parse_currency :: "precision \<Rightarrow> separators \<Rightarrow> currency \<Rightarrow> cell_value \<Rightarrow> cast_outcome" where
  "parse_currency p s c v =
     (case v of
        VText raw \<Rightarrow>
          if MAX_TEXT < length raw then Inl DECLARED_CURRENCY_INVALID
          else let (body, negative) = currency_body c raw in
            (case currency_number c body of
               None \<Rightarrow> Inl DECLARED_CURRENCY_INVALID
             | Some number \<Rightarrow>
                 (case grouped_digits s (pr_scale p) number of
                    None \<Rightarrow> Inl DECLARED_CURRENCY_INVALID
                  | Some (whole, frac) \<Rightarrow>
                      from_parts p negative whole frac DECLARED_CURRENCY_INVALID DECLARED_CURRENCY_INVALID))
      | _ \<Rightarrow> Inl DECLARED_CURRENCY_INVALID)"

definition format_currency :: "precision \<Rightarrow> separators \<Rightarrow> currency \<Rightarrow> cell_value \<Rightarrow> cast_outcome" where
  "format_currency p s c v =
     and_then (unscale v (pr_scale p) (pr_precision p)) (\<lambda>(unscaled, negative).
     let number = render_number unscaled (pr_scale p) (sp_radix s) (sp_group s);
         body = (case cu_position c of Prefix \<Rightarrow> cu_token c @ number | Suffix \<Rightarrow> number @ cu_token c) in
     Inr (VText (if \<not> negative then body
       else case cu_sign_style c of LeadingMinus \<Rightarrow> ''-'' @ body | AccountingParentheses \<Rightarrow> ''('' @ body @ '')'')))"

subsection \<open>COBOL fields\<close>

definition POSITIVE :: string where "POSITIVE = ''{ABCDEFGHI''"
definition NEGATIVE :: string where "NEGATIVE = ''}JKLMNOPQR''"

definition OVERPUNCH :: "char \<Rightarrow> (nat \<times> bool) option" where
  "OVERPUNCH = map_of (zip POSITIVE (map (\<lambda>d. (d, False)) [0..<10]) @ zip NEGATIVE (map (\<lambda>d. (d, True)) [0..<10]))"

definition comp3_length :: "nat \<Rightarrow> nat" where
  "comp3_length precision = (precision + 2) div 2"

definition digits_value :: "string \<Rightarrow> precision \<Rightarrow> bool \<Rightarrow> cast_outcome" where
  "digits_value digits p negative = Inr (VDecimal (scaled (dec_val digits) (pr_scale p) negative))"

definition parse_overpunch :: "precision \<Rightarrow> cell_value \<Rightarrow> cast_outcome" where
  "parse_overpunch p v =
     (case v of
        VText raw \<Rightarrow>
          if length raw \<noteq> pr_precision p then Inl DECLARED_COBOL_INVALID
          else (case OVERPUNCH (last raw) of
              None \<Rightarrow> Inl DECLARED_COBOL_INVALID
            | Some (digit, negative) \<Rightarrow>
                if \<not> all_digits (butlast raw) then Inl DECLARED_COBOL_INVALID
                else digits_value (butlast raw @ dec_str digit) p negative)
      | _ \<Rightarrow> Inl DECLARED_COBOL_INVALID)"

definition format_overpunch :: "precision \<Rightarrow> cell_value \<Rightarrow> cast_outcome" where
  "format_overpunch p v =
     and_then (unscale v (pr_scale p) (pr_precision p)) (\<lambda>(unscaled, negative).
     let digits = rjust (dec_str unscaled) (pr_precision p) (CHR ''0'') in
     Inr (VText (butlast digits @ [(if negative then NEGATIVE else POSITIVE) ! digit_val (last digits)])))"

text \<open>\<open>byte >> 4\<close> and \<open>byte & 0xF\<close>.\<close>

definition zone :: "byte \<Rightarrow> nat" where "zone b = unat b div 16"
definition nibble :: "byte \<Rightarrow> nat" where "nibble b = unat b mod 16"

definition ZONED_POSITIVE :: "nat list" where "ZONED_POSITIVE = [0xA, 0xC, 0xE]"
definition ZONED_NEGATIVE :: "nat list" where "ZONED_NEGATIVE = [0xB, 0xD]"

definition parse_zoned :: "precision \<Rightarrow> bool \<Rightarrow> cell_value \<Rightarrow> cast_outcome" where
  "parse_zoned p sg v =
     (case v of
        VBytes raw \<Rightarrow>
          if length raw \<noteq> pr_precision p then Inl DECLARED_COBOL_INVALID
          else if (\<exists>b \<in> set raw. 9 < nibble b) \<or> (\<exists>b \<in> set (butlast raw). zone b \<noteq> 0xF) then Inl DECLARED_COBOL_INVALID
          else
            let z = zone (last raw); digits = map (\<lambda>b. digit_char (nibble b)) raw in
            if sg then
              if z \<notin> set ZONED_POSITIVE \<and> z \<notin> set ZONED_NEGATIVE then Inl DECLARED_COBOL_INVALID
              else digits_value digits p (z \<in> set ZONED_NEGATIVE)
            else if z \<noteq> 0xF then Inl DECLARED_COBOL_INVALID
            else digits_value digits p False
      | _ \<Rightarrow> Inl DECLARED_COBOL_INVALID)"

definition zoned_byte :: "nat \<Rightarrow> char \<Rightarrow> byte" where
  "zoned_byte z c = word_of_nat (16 * z + digit_val c)"

definition format_zoned :: "precision \<Rightarrow> bool \<Rightarrow> cell_value \<Rightarrow> cast_outcome" where
  "format_zoned p sg v =
     and_then (unscale v (pr_scale p) (pr_precision p)) (\<lambda>(unscaled, negative).
     if negative \<and> \<not> sg then Inl DECLARED_COBOL_INVALID
     else
       let digits = rjust (dec_str unscaled) (pr_precision p) (CHR ''0'');
           z = (if sg then (if negative then 0xD else 0xC) else 0xF) in
       Inr (VBytes (map (zoned_byte 0xF) (butlast digits) @ [zoned_byte z (last digits)])))"

fun nibbles :: "bytes \<Rightarrow> nat list" where
  "nibbles [] = []"
| "nibbles (b # bs) = zone b # nibble b # nibbles bs"

definition parse_comp3 :: "precision \<Rightarrow> bool \<Rightarrow> cell_value \<Rightarrow> cast_outcome" where
  "parse_comp3 p sg v =
     (case v of
        VBytes raw \<Rightarrow>
          if length raw \<noteq> comp3_length (pr_precision p) then Inl DECLARED_COBOL_INVALID
          else
            let ds = butlast (nibbles raw); sign = last (nibbles raw) in
            if (\<exists>n \<in> set ds. 9 < n) \<or> pr_precision p < length ds \<and> hd ds \<noteq> 0 then Inl DECLARED_COBOL_INVALID
            else if (if sg then sign \<noteq> 0xC \<and> sign \<noteq> 0xD else sign \<noteq> 0xF) then Inl DECLARED_COBOL_INVALID
            else digits_value (concat (map dec_str ds)) p (sign = 0xD)
      | _ \<Rightarrow> Inl DECLARED_COBOL_INVALID)"

text \<open>\<open>int(digits, 16)\<close> of decimal digits.\<close>

definition hex_val :: "string \<Rightarrow> nat" where
  "hex_val s = foldl (\<lambda>acc c. acc * 16 + digit_val c) 0 s"

definition format_comp3 :: "precision \<Rightarrow> bool \<Rightarrow> cell_value \<Rightarrow> cast_outcome" where
  "format_comp3 p sg v =
     and_then (unscale v (pr_scale p) (pr_precision p)) (\<lambda>(unscaled, negative).
     if negative \<and> \<not> sg then Inl DECLARED_COBOL_INVALID
     else
       let len = comp3_length (pr_precision p);
           sign = (if sg then (if negative then 0xD else 0xC) else 0xF);
           digits = rjust (dec_str unscaled) (2 * len - 1) (CHR ''0'') in
       Inr (VBytes (be_bytes len (int (hex_val digits * 16 + sign)))))"

subsection \<open>Dates\<close>

definition ISO_FORMAT :: string where "ISO_FORMAT = ''%Y-%m-%d''"

text \<open>\<open>fullmatch\<close> of the compiled pattern; each part has a fixed width. The result lists the fields.\<close>

fun match_parts :: "date_part list \<Rightarrow> string \<Rightarrow> (date_part \<times> nat) list option" where
  "match_parts [] s = (if s = [] then Some [] else None)"
| "match_parts (p # ps) s =
     (let w = part_width p; x = take w s in
      if length x = w \<and> (case p of PartLit c \<Rightarrow> x = [c] | _ \<Rightarrow> all_digits x)
      then map_option ((#) (p, dec_val x)) (match_parts ps (drop w s)) else None)"

definition parse_date :: "string \<Rightarrow> cell_value \<Rightarrow> cast_outcome" where
  "parse_date fmt v =
     (case v of
        VText raw \<Rightarrow>
          if 32 < length raw then Inl DECLARED_DATE_INVALID
          else (case date_pattern fmt of
              None \<Rightarrow> Inl DECLARED_DATE_INVALID
            | Some parts \<Rightarrow>
                (case match_parts parts raw of
                   None \<Rightarrow> Inl DECLARED_DATE_INVALID
                 | Some parsed \<Rightarrow>
                     let f = (\<lambda>p. the (map_of parsed p)) in
                     (case make_date (f PartY) (f PartM) (f PartD) of
                        Inl e \<Rightarrow> Inl DECLARED_DATE_INVALID
                      | Inr d \<Rightarrow> Inr (VDate d))))
      | _ \<Rightarrow> Inl DECLARED_DATE_INVALID)"

fun render_part :: "date \<Rightarrow> date_part \<Rightarrow> string" where
  "render_part d PartY = zfill 4 (d_year d)"
| "render_part d PartM = zfill 2 (d_month d)"
| "render_part d PartD = zfill 2 (d_day d)"
| "render_part d (PartLit c) = [c]"

definition format_date :: "string \<Rightarrow> cell_value \<Rightarrow> cast_outcome" where
  "format_date fmt v =
     (case (v, date_pattern fmt) of
        (VDate d, Some parts) \<Rightarrow> Inr (VText (concat (map (render_part d) parts)))
      | _ \<Rightarrow> Inl DECLARED_DATE_INVALID)"

subsection \<open>The catalog\<close>

definition string_exact :: "cell_value \<Rightarrow> cast_outcome" where
  "string_exact v = (case v of VText s \<Rightarrow> Inr v | _ \<Rightarrow> Inl DECLARED_CAST_INPUT_TYPE_INCOMPATIBLE)"

text \<open>The kernels the registry holds for the two directions.\<close>

fun compile_parser :: "parse_format \<Rightarrow> cell_value \<Rightarrow> cast_outcome" where
  "compile_parser StringExact = string_exact"
| "compile_parser (IntegerAscii sg bits) = parse_integer sg bits"
| "compile_parser (DecimalPlain p) = parse_plain p"
| "compile_parser (DecimalGrouped p s) = parse_grouped p s"
| "compile_parser DateIso = parse_date ISO_FORMAT"
| "compile_parser (DateStrptime fmt) = parse_date fmt"
| "compile_parser (Currency p s c) = parse_currency p s c"
| "compile_parser (Overpunch p) = parse_overpunch p"
| "compile_parser (Zoned p sg) = parse_zoned p sg"
| "compile_parser (Comp3 p sg) = parse_comp3 p sg"

fun format_kernel :: "output_format \<Rightarrow> cell_value \<Rightarrow> cast_outcome" where
  "format_kernel (StringExactOut pd) = string_exact"
| "format_kernel (IntegerAsciiOut pd sg bits) = format_integer sg bits None"
| "format_kernel (IntegerZeroPad pd sg bits) = format_integer sg bits (Some (case pd_width pd of None \<Rightarrow> 0 | Some w \<Rightarrow> w))"
| "format_kernel (DecimalPlainOut pd p) = format_plain p (CHR ''.'') None"
| "format_kernel (DecimalGroupedOut pd p s) = format_plain p (sp_radix s) (sp_group s)"
| "format_kernel (DateIsoOut pd) = format_date ISO_FORMAT"
| "format_kernel (DateStrftime pd fmt) = format_date fmt"
| "format_kernel (CurrencyOut pd p s c) = format_currency p s c"
| "format_kernel (OverpunchOut p) = format_overpunch p"
| "format_kernel (ZonedOut p sg) = format_zoned p sg"
| "format_kernel (Comp3Out p sg) = format_comp3 p sg"

text \<open>The parse shape a formatter is checked against.\<close>

fun twin :: "output_format \<Rightarrow> parse_format" where
  "twin (StringExactOut pd) = StringExact"
| "twin (IntegerAsciiOut pd sg bits) = IntegerAscii sg bits"
| "twin (IntegerZeroPad pd sg bits) = IntegerAscii sg bits"
| "twin (DecimalPlainOut pd p) = DecimalPlain p"
| "twin (DecimalGroupedOut pd p s) = DecimalGrouped p s"
| "twin (DateIsoOut pd) = DateIso"
| "twin (DateStrftime pd fmt) = DateStrptime fmt"
| "twin (CurrencyOut pd p s c) = Currency p s c"
| "twin (OverpunchOut p) = Overpunch p"
| "twin (ZonedOut p sg) = Zoned p sg"
| "twin (Comp3Out p sg) = Comp3 p sg"

text \<open>The controls that pad the kernel's text: none for the binary and overpunch shapes, and none for
  \<open>integer/zero-pad/v1\<close>, whose kernel pads.\<close>

fun pad_controls :: "output_format \<Rightarrow> padding option" where
  "pad_controls (StringExactOut pd) = Some pd"
| "pad_controls (IntegerAsciiOut pd sg bits) = Some pd"
| "pad_controls (DecimalPlainOut pd p) = Some pd"
| "pad_controls (DecimalGroupedOut pd p s) = Some pd"
| "pad_controls (DateIsoOut pd) = Some pd"
| "pad_controls (DateStrftime pd fmt) = Some pd"
| "pad_controls (CurrencyOut pd p s c) = Some pd"
| "pad_controls m = None"

definition measure_text :: "string \<Rightarrow> width_unit option \<Rightarrow> nat" where
  "measure_text text unit = (if unit = Some Bytes then length (utf8 text) else length text)"

text \<open>Numerical equality of decimals, brought to the smaller exponent.\<close>

definition decimal_eq :: "decimal \<Rightarrow> decimal \<Rightarrow> bool" where
  "decimal_eq a b =
     (case (a, b) of
        (Finite s1 c1 e1, Finite s2 c2 e2) \<Rightarrow>
          let e = min e1 e2; n1 = c1 * 10 ^ nat (e1 - e); n2 = c2 * 10 ^ nat (e2 - e) in
          n1 = n2 \<and> (n1 = 0 \<or> s1 = s2)
      | _ \<Rightarrow> False)"

definition same_value :: "cell_value \<Rightarrow> cell_value \<Rightarrow> bool" where
  "same_value a b =
     (case (a, b) of
        (VDecimal (Finite s1 c1 e1), VDecimal (Finite s2 c2 e2)) \<Rightarrow> decimal_eq (Finite s1 c1 e1) (Finite s2 c2 e2) \<and> s1 = s2
      | _ \<Rightarrow> a = b)"

text \<open>\<open>_normalized\<close>; \<open>None\<close> is Python's \<open>None\<close>, which no parser answers.\<close>

fun twin_precision :: "parse_format \<Rightarrow> precision option" where
  "twin_precision (DecimalPlain p) = Some p"
| "twin_precision (DecimalGrouped p s) = Some p"
| "twin_precision (Currency p s c) = Some p"
| "twin_precision (Overpunch p) = Some p"
| "twin_precision (Zoned p sg) = Some p"
| "twin_precision (Comp3 p sg) = Some p"
| "twin_precision m = None"

definition normalized :: "cell_value \<Rightarrow> parse_format \<Rightarrow> cell_value option" where
  "normalized v m =
     (case twin_precision m of
        None \<Rightarrow> Some v
      | Some p \<Rightarrow>
          (case unscale v (pr_scale p) (pr_precision p) of
             Inl r \<Rightarrow> None
           | Inr (unscaled, negative) \<Rightarrow> Some (VDecimal (scaled unscaled (pr_scale p) negative))))"

datatype contract_error = DECLARED_CAST_CONTRACT_INVALID

text \<open>\<open>emitted.lstrip(pad)\<close> or \<open>rstrip\<close>; only text is stripped.\<close>

definition strip_pad :: "alignment \<Rightarrow> char \<Rightarrow> string \<Rightarrow> string" where
  "strip_pad al pad s =
     (case al of AlignRight \<Rightarrow> dropWhile (\<lambda>c. c = pad) s | AlignLeft \<Rightarrow> rev (dropWhile (\<lambda>c. c = pad) (rev s)))"

definition inverse_checked ::
    "cell_value \<Rightarrow> parse_format \<Rightarrow> cell_value \<Rightarrow> (alignment \<times> char) option \<Rightarrow> contract_error + cast_outcome" where
  "inverse_checked emitted m v strip =
     (let probe = (case (strip, emitted) of
            (Some (al, pad), VText s) \<Rightarrow> VText (strip_pad al pad s)
          | _ \<Rightarrow> emitted);
          expected = (if m = StringExact then Some v else normalized v m) in
      case (compile_parser m probe, expected) of
        (Inr w, Some e) \<Rightarrow>
          if same_value w e then Inr (Inr emitted)
          else if m = StringExact then Inr (Inl DECLARED_OUTPUT_WIDTH_OVERFLOW) else Inl DECLARED_CAST_CONTRACT_INVALID
      | _ \<Rightarrow> if m = StringExact then Inr (Inl DECLARED_OUTPUT_WIDTH_OVERFLOW) else Inl DECLARED_CAST_CONTRACT_INVALID)"

definition pad_text :: "padding \<Rightarrow> nat \<Rightarrow> string \<Rightarrow> string" where
  "pad_text pd room text =
     (case pd_align pd of AlignLeft \<Rightarrow> text @ replicate room (pd_pad pd) | AlignRight \<Rightarrow> replicate room (pd_pad pd) @ text)"

definition compile_formatter :: "output_format \<Rightarrow> cell_value \<Rightarrow> contract_error + cast_outcome" where
  "compile_formatter m v =
     (case format_kernel m v of
        Inl r \<Rightarrow> Inr (Inl r)
      | Inr out \<Rightarrow>
          (case (out, pad_controls m) of
             (VText text, Some pd) \<Rightarrow>
               (case pd_width pd of
                  None \<Rightarrow> inverse_checked out (twin m) v None
                | Some width \<Rightarrow>
                    if width < measure_text text (pd_unit pd) then Inr (Inl DECLARED_OUTPUT_WIDTH_OVERFLOW)
                    else inverse_checked (VText (pad_text pd (width - measure_text text (pd_unit pd)) text)) (twin m) v
                      (Some (pd_align pd, pd_pad pd)))
           | _ \<Rightarrow> inverse_checked out (twin m) v None))"

subsection \<open>Widths\<close>

fun static_width :: "output_format \<Rightarrow> nat option" where
  "static_width (DateIsoOut pd) = Some 10"
| "static_width (DateStrftime pd fmt) = date_width fmt"
| "static_width (OverpunchOut p) = Some (pr_precision p)"
| "static_width (ZonedOut p sg) = Some (pr_precision p)"
| "static_width (Comp3Out p sg) = Some (comp3_length (pr_precision p))"
| "static_width m = None"

definition number_width :: "precision \<Rightarrow> bool \<Rightarrow> nat" where
  "number_width p grouped =
     (let whole = max (pr_precision p - pr_scale p) 1 in
      whole + (if pr_scale p = 0 then 0 else pr_scale p + 1) + (if grouped then (whole - 1) div 3 else 0))"

definition integer_width :: "bool \<Rightarrow> nat \<Rightarrow> nat" where
  "integer_width sg bits =
     (let (lo, hi) = int_bounds sg bits in max (length (py_str_int lo)) (length (py_str_int hi)))"

fun max_rendered_width :: "output_format \<Rightarrow> nat option" where
  "max_rendered_width (IntegerAsciiOut pd sg bits) = Some (integer_width sg bits)"
| "max_rendered_width (IntegerZeroPad pd sg bits) = Some (integer_width sg bits)"
| "max_rendered_width (DecimalPlainOut pd p) = Some (number_width p False + 1)"
| "max_rendered_width (DecimalGroupedOut pd p s) = Some (number_width p (sp_group s \<noteq> None) + 1)"
| "max_rendered_width (CurrencyOut pd p s c) =
     Some (number_width p (sp_group s \<noteq> None) + 2 + measure_text (cu_token c) (pd_unit pd))"
| "max_rendered_width m = static_width m"

section \<open>Kernels invert\<close>

subsection \<open>Digits\<close>

lemma dec_str_length_mono: "m \<le> n + 1 \<Longrightarrow> length (dec_str m) \<le> length (dec_str n) + 1"
proof (rule dec_str_length_le)
  assume "m \<le> n + 1"
  moreover have "n < 10 ^ length (dec_str n)"
    using dec_val_less [of "dec_str n"] by simp
  ultimately have "m \<le> 10 ^ length (dec_str n)"
    by simp
  then show "m < 10 ^ (length (dec_str n) + 1)"
    by (rule le_less_trans) simp
qed simp

lemma dropWhile_zeros: "length (dropWhile (\<lambda>c. c = x) (replicate k x @ s)) \<le> length s"
  by (induction k) (simp_all add: length_dropWhile_le)

lemma hd_digits: "all_digits s \<Longrightarrow> s \<noteq> [] \<Longrightarrow> is_digit (hd s)"
  by (cases s) auto

lemma last_digits: "all_digits s \<Longrightarrow> s \<noteq> [] \<Longrightarrow> is_digit (last s)"
  by (simp add: all_digits_iff)

lemma drop_sign_digits: "s \<noteq> [] \<Longrightarrow> is_digit (hd s) \<Longrightarrow> drop_sign s = s \<and> take 1 s \<noteq> ''-''"
  by (cases s) (auto dest: digit_not_sign)

lemma signed_text:
  assumes "s \<noteq> []" "is_digit (hd s)"
  shows "drop_sign ((if neg then ''-'' else []) @ s) = s" "take 1 ((if neg then ''-'' else []) @ s) = ''-'' \<longleftrightarrow> neg"
  using drop_sign_digits [OF assms] by auto

lemma dec_str_zero: "dec_str 0 = ''0''"
  by (simp add: dec_str_small)

lemma digits_no_char: "all_digits s \<Longrightarrow> \<not> is_digit g \<Longrightarrow> g \<notin> set s"
  by (auto simp: all_digits_iff)

subsection \<open>Integers\<close>

lemma int_bounds_abs:
  assumes "fst (int_bounds sg bits) \<le> n" "n \<le> snd (int_bounds sg bits)"
  shows "nat \<bar>n\<bar> \<le> nat (snd (int_bounds sg bits)) + 1" "0 \<le> snd (int_bounds sg bits)"
proof -
  have "(1 :: int) \<le> 2 ^ k" for k
    by simp
  then show "0 \<le> snd (int_bounds sg bits)"
    by (simp add: int_bounds_def)
  show "nat \<bar>n\<bar> \<le> nat (snd (int_bounds sg bits)) + 1"
    using assms by (auto simp: int_bounds_def split: if_splits)
qed

lemma int_bounds_small:
  assumes "fst (int_bounds sg bits) \<le> n" "n \<le> snd (int_bounds sg bits)" "bits \<le> 64"
  shows "length (dec_str (nat \<bar>n\<bar>)) \<le> 20"
proof (rule dec_str_length_le)
  have "(2 :: int) ^ k \<le> 2 ^ 64" if "k \<le> 64" for k
    using that by (intro power_increasing) auto
  then have "(2 :: int) ^ bits \<le> 2 ^ 64" "(2 :: int) ^ (bits - 1) \<le> 2 ^ 64"
    using assms(3) by auto
  then have "\<bar>n\<bar> \<le> 2 ^ 64"
    using assms(1,2) by (auto simp: int_bounds_def split: if_splits)
  then show "nat \<bar>n\<bar> < 10 ^ 20"
    by (simp add: nat_less_iff)
qed simp

lemma parse_signed_digits:
  assumes "fst (int_bounds sg bits) \<le> n" "n \<le> snd (int_bounds sg bits)" 
    and "length ((if n < 0 then ''-'' else []) @ replicate k (CHR ''0'') @ dec_str (nat \<bar>n\<bar>)) \<le> MAX_TEXT"
  shows "parse_integer sg bits (VText ((if n < 0 then ''-'' else []) @ replicate k (CHR ''0'') @ dec_str (nat \<bar>n\<bar>))) = Inr (VInt n)"
proof -
  let ?d = "replicate k (CHR ''0'') @ dec_str (nat \<bar>n\<bar>)"
  let ?t = "(if n < 0 then ''-'' else []) @ ?d"
  obtain lo hi where b: "int_bounds sg bits = (lo, hi)"
    by force
  have d: "all_digits ?d" "?d \<noteq> []" "dec_val ?d = nat \<bar>n\<bar>"
    by (simp_all add: dec_val_append)
  note st = signed_text [OF d(2) hd_digits [OF d(1,2)], of "n < 0"]
  have "dropWhile (\<lambda>c. c \<in> set ''+-'') ?t = ?d"
    using hd_digits [OF d(1,2)] d(2) by (cases ?d) (auto dest: digit_not_sign)
  moreover have "length (dec_str (nat \<bar>n\<bar>)) \<le> length (py_str_int hi) + 1"
    using dec_str_length_mono [OF int_bounds_abs(1) [OF assms(1,2)]] int_bounds_abs(2) [OF assms(1,2)]
    by (simp add: b py_str_int_def)
  ultimately have "\<not> length (py_str_int hi) + 1 < length (dropWhile (\<lambda>c. c = CHR ''0'') (dropWhile (\<lambda>c. c \<in> set ''+-'') ?t))"
    using dropWhile_zeros [of "CHR ''0''" k "dec_str (nat \<bar>n\<bar>)"] by simp
  moreover have "int_match ?t" "int_of_text ?t = n"
    using st d by (auto simp: int_match_def int_of_text_def)
  moreover have "\<not> MAX_TEXT < length ?t"
    using assms(3) by auto
  ultimately show ?thesis
    using assms(1,2) by (simp add: parse_integer_def b Let_def)
qed

lemma integer_inverts:
  assumes "format_integer sg bits zero_pad (VInt n) = Inr out" "bits \<le> 64" "\<And>w. zero_pad = Some w \<Longrightarrow> w \<le> MAX_TEXT"
  shows "parse_integer sg bits out = Inr (VInt n)"
proof -
  have b: "fst (int_bounds sg bits) \<le> n" "n \<le> snd (int_bounds sg bits)"
    using assms(1) by (auto simp: format_integer_def split_beta Let_def split: if_splits)
  define sign where "sign = (if n < 0 then ''-'' else [])"
  obtain k where k: "out = VText (sign @ replicate k (CHR ''0'') @ dec_str (nat \<bar>n\<bar>))"
      "k = 0 \<or> k + length sign + length (dec_str (nat \<bar>n\<bar>)) \<le> MAX_TEXT"
  proof (cases zero_pad)
    case None
    then have "out = VText (sign @ replicate 0 (CHR ''0'') @ dec_str (nat \<bar>n\<bar>))"
      using assms(1) b by (auto simp: format_integer_def split_beta py_str_int_def sign_def)
    then show ?thesis
      by (rule that) simp
  next
    case (Some w)
    then have "out = VText (sign @ replicate (w - length sign - length (dec_str (nat \<bar>n\<bar>))) (CHR ''0'') @ dec_str (nat \<bar>n\<bar>))"
        "length sign + length (dec_str (nat \<bar>n\<bar>)) \<le> w"
      using assms(1) b by (auto simp: format_integer_def split_beta Let_def sign_def rjust_def split: if_splits)
    then show ?thesis
      using assms(3) [OF Some] by (intro that) auto
  qed
  have "length ((if n < 0 then ''-'' else []) @ replicate k (CHR ''0'') @ dec_str (nat \<bar>n\<bar>)) \<le> MAX_TEXT"
    using k(2) int_bounds_small [OF b assms(2)] by (auto simp: sign_def MAX_TEXT_def)
  then show ?thesis
    using parse_signed_digits [OF b] by (simp add: k(1) sign_def)
qed

subsection \<open>Decimals\<close>

lemma unscale_decimal_Inr: "unscale_decimal neg c e scale prec = Inr (n, negative) \<Longrightarrow> n < 10 ^ prec"
  by (auto simp: unscale_decimal_def Let_def split: if_splits)

lemma unscale_bound: "unscale v scale prec = Inr (n, negative) \<Longrightarrow> n < 10 ^ prec"
  by (cases "(v, scale, prec)" rule: unscale.cases) (auto dest: unscale_decimal_Inr)

text \<open>What \<open>render_number\<close> writes: the whole part, canonical, and a fraction of \<open>scale\<close> digits.\<close>

definition number_parts :: "nat \<Rightarrow> nat \<Rightarrow> string \<times> string" where
  "number_parts n scale =
     (let digits = rjust (dec_str n) (scale + 1) (CHR ''0'') in
      (take (length digits - scale) digits, drop (length digits - scale) digits))"

lemma render_number_parts:
  "number_parts n scale = (whole, frac) \<Longrightarrow>
    render_number n scale radix grp = group_digits whole grp @ (if scale = 0 then [] else radix # frac)"
  by (auto simp: number_parts_def render_number_def Let_def)

lemma number_parts_facts:
  assumes "number_parts n scale = (whole, frac)"
  shows "all_digits whole" "all_digits frac" "whole \<noteq> []" "length frac = scale" "dec_val (whole @ frac) = n"
    and "length whole + scale = max (scale + 1) (length (dec_str n))"
proof -
  let ?d = "rjust (dec_str n) (scale + 1) (CHR ''0'')"
  have p: "whole = take (length ?d - scale) ?d" "frac = drop (length ?d - scale) ?d"
    using assms by (simp_all add: number_parts_def Let_def)
  have d: "all_digits ?d" "length ?d = max (scale + 1) (length (dec_str n))"
    by simp_all
  show "all_digits whole" "all_digits frac"
    using d(1) by (simp_all only: p all_digits_take all_digits_drop)
  show "length frac = scale" "length whole + scale = max (scale + 1) (length (dec_str n))"
    using d(2) by (simp_all add: p)
  then show "whole \<noteq> []"
    by auto
  show "dec_val (whole @ frac) = n"
    by (simp add: p)
qed

lemma number_parts_canonical:
  assumes "number_parts n scale = (whole, frac)"
  shows "whole = ''0'' \<or> nonzero_digit (hd whole)"
proof (cases "length (dec_str n) \<le> scale")
  case True
  then have "whole = ''0''"
    using assms by (auto simp: number_parts_def Let_def rjust_def max_def Suc_diff_le)
  then show ?thesis ..
next
  case False
  then have w: "whole = take (length (dec_str n) - scale) (dec_str n)" "whole \<noteq> []"
    using assms by (auto simp: number_parts_def Let_def rjust_def)
  then have "hd whole = hd (dec_str n)"
    by (metis hd_take take_eq_Nil zero_less_iff_neq_zero)
  then show ?thesis
    using w number_parts_facts(1) [OF assms] hd_digits [of whole] dec_str_hd [of n]
    by (cases "n = 0") (auto simp: nonzero_digit_def dec_str_zero take_Cons' split: if_splits)
qed

lemma number_parts_length:
  assumes "number_parts n (pr_scale p) = (whole, frac)" "n < 10 ^ pr_precision p" "precision_ok p"
  shows "length whole \<le> max (pr_precision p - pr_scale p) 1" "length whole + length frac \<le> 39"
proof -
  have "length (dec_str n) \<le> pr_precision p"
    using dec_str_length_le [OF assms(2)] assms(3) by (simp add: precision_ok_def)
  then show "length whole \<le> max (pr_precision p - pr_scale p) 1" "length whole + length frac \<le> 39"
    using number_parts_facts(4,6) [OF assms(1)] assms(3) by (auto simp: precision_ok_def MAX_PRECISION_def)
qed

lemma from_parts_inverts:
  assumes "number_parts n (pr_scale p) = (whole, frac)" "n < 10 ^ pr_precision p"
  shows "from_parts p negative whole frac loss overflow = Inr (VDecimal (scaled n (pr_scale p) negative))"
  using number_parts_facts(4,5) [OF assms(1)] assms(2) by (simp add: from_parts_def ljust_def)

lemma plain_match_parts:
  assumes "all_digits whole" "whole \<noteq> []" "all_digits frac" "frac = [] \<longleftrightarrow> scale = 0"
  shows "plain_match (whole @ (if scale = 0 then [] else CHR ''.'' # frac)) = Some (whole, frac)"
proof -
  have dot: "\<not> is_digit (CHR ''.'')"
    by (simp add: is_digit_def)
  have "\<forall>c \<in> set whole. is_digit c"
    using assms(1) by (simp add: all_digits_iff)
  then show ?thesis
    using assms dot by (auto simp: plain_match_def Let_def)
qed

lemma tail_groups_facts:
  "all_digits s \<Longrightarrow> length s mod 3 = 0 \<Longrightarrow> \<not> is_digit g \<Longrightarrow>
    groups_tail g (tail_groups g s) \<and> filter (\<lambda>c. c \<noteq> g) (tail_groups g s) = s \<and>
    length (tail_groups g s) = length s + length s div 3"
proof (induction g s rule: tail_groups.induct)
  case (1 g a b c s)
  have len: "length (a # b # c # s) = length s + 3"
    by simp
  then have "length s mod 3 = 0" "length (a # b # c # s) div 3 = length s div 3 + 1"
    using "1.prems"(2) by (simp_all only: mod_add_self2 div_add_self2)
  moreover have "a \<noteq> g" "b \<noteq> g" "c \<noteq> g"
    using "1.prems"(1,3) by auto
  ultimately show ?case
    using "1.IH" "1.prems"(1,3) by simp
qed auto

lemma head_of_groups:
  fixes n :: nat
  assumes "3 < n"
  defines "k \<equiv> if n mod 3 = 0 then 3 else n mod 3"
  shows "k \<in> {1, 2, 3} \<and> (n - k) mod 3 = 0 \<and> (n - k) div 3 = (n - 1) div 3"
proof -
  obtain q r where n: "n = 3 * q + r" "r < 3"
    by (metis mod_less_divisor mult_div_mod_eq zero_less_numeral)
  then have m: "n mod 3 = r"
    by simp
  show ?thesis
  proof (cases "r = 0")
    case True
    then obtain q' where "q = Suc q'"
      using assms(1) n(1) by (cases q) auto
    then show ?thesis
      using True by (simp add: k_def n(1))
  next
    case False
    then have "n - 1 = 3 * q + (r - 1)" "k = r" "r \<in> {1, 2}"
      using n m by (auto simp: k_def)
    then show ?thesis
      using n by (auto simp: m)
  qed
qed

lemma group_digits_split:
  assumes "3 < length whole"
  obtains h t where "whole = h @ t" "length h \<in> {1, 2, 3}" "length t mod 3 = 0" "t \<noteq> []"
    "group_digits whole (Some g) = h @ tail_groups g t" "length t div 3 = (length whole - 1) div 3"
proof -
  define k where "k = (if length whole mod 3 = 0 then 3 else length whole mod 3)"
  have k: "k \<in> {1, 2, 3}" and m: "(length whole - k) mod 3 = 0" "(length whole - k) div 3 = (length whole - 1) div 3"
    using head_of_groups [OF assms] by (auto simp: k_def)
  show thesis
  proof (rule that [of "take k whole" "drop k whole"])
    show "length (take k whole) \<in> {1, 2, 3}" "drop k whole \<noteq> []"
      using k assms by auto
    show "group_digits whole (Some g) = take k whole @ tail_groups g (drop k whole)"
      using assms by (simp add: group_digits_def k_def Let_def)
  qed (use m in simp_all)
qed

lemma tail_groups_first: "t \<noteq> [] \<Longrightarrow> g \<in> set (tail_groups g t)"
  by (cases "(g, t)" rule: tail_groups.cases) auto

text \<open>A grouped whole part reads back: it matches the pattern, is not a long ungrouped number, and
  without its separators is the whole part again.\<close>

lemma group_digits_facts:
  assumes "all_digits whole" "whole \<noteq> []" "\<not> is_digit g"
  shows "filter (\<lambda>c. c \<noteq> g) (group_digits whole (Some g)) = whole" (is ?filter)
    and "length (group_digits whole (Some g)) = length whole + (length whole - 1) div 3" (is ?length)
    and "group_digits whole (Some g) \<noteq> [] \<and> hd (group_digits whole (Some g)) = hd whole" (is ?hd)
    and "nonzero_digit (hd whole) \<Longrightarrow> grouped_whole g (group_digits whole (Some g))" (is "_ \<Longrightarrow> ?match")
    and "\<not> (4 \<le> length (group_digits whole (Some g)) \<and> all_digits (group_digits whole (Some g)))" (is ?short)
proof -
  have g: "filter (\<lambda>c. c \<noteq> g) h = h" if "all_digits h" for h
    using digits_no_char [OF that assms(3)] by (auto simp: filter_id_conv)
  have "?filter \<and> ?length \<and> ?hd \<and> (nonzero_digit (hd whole) \<longrightarrow> ?match) \<and> ?short"
  proof (cases "length whole \<le> 3")
    case True
    then have eq: "group_digits whole (Some g) = whole"
      by (simp add: group_digits_def)
    have "(length whole - 1) div 3 = 0" "length whole \<in> {1, 2, 3}"
      using True assms(2) by (cases "length whole"; auto)+
    moreover have "grouped_whole g whole" if "nonzero_digit (hd whole)"
      unfolding grouped_whole_def using that assms(1,2) \<open>length whole \<in> _\<close> by auto
    ultimately show ?thesis
      using g [OF assms(1)] assms(2) True by (auto simp: eq)
  next
    case False
    then have "3 < length whole"
      by simp
    then obtain h t where s: "whole = h @ t" "length h \<in> {1, 2, 3}" "length t mod 3 = 0" "t \<noteq> []"
        "group_digits whole (Some g) = h @ tail_groups g t" "length t div 3 = (length whole - 1) div 3"
      using group_digits_split by metis
    note t = tail_groups_facts [of t g]
    have dt: "all_digits h" "all_digits t" "h \<noteq> []"
      using assms(1) s(1,2) by auto
    have "grouped_whole g (h @ tail_groups g t)" if "nonzero_digit (hd whole)"
      unfolding grouped_whole_def using that s(1,2) dt t s(3) assms(3) by (auto intro!: bexI [of _ "length h"])
    moreover have "\<not> all_digits (tail_groups g t)"
      using tail_groups_first [OF s(4), of g] assms(3) by (auto simp: all_digits_iff)
    ultimately show ?thesis
      unfolding s(5) using s(1,3,6) dt t assms(3) g [OF dt(1)] by auto
  qed
  then show ?filter ?length ?hd ?short "nonzero_digit (hd whole) \<Longrightarrow> ?match"
    by auto
qed

lemma separator_digit: "separator_ok c \<Longrightarrow> \<not> is_digit c"
proof
  assume "separator_ok c" "is_digit c"
  then have "c \<notin> set ''0123456789''" "c = digit_char (digit_val c)" "digit_val c < 10"
    by (auto simp: separator_ok_def digit_val_less)
  moreover have "\<forall>d < 10. digit_char d \<in> set ''0123456789''"
    by code_simp
  ultimately show False
    by metis
qed

lemma grouped_digits_inverts:
  assumes "number_parts n scale = (whole, frac)" "separators_ok s"
  shows "grouped_digits s scale (render_number n scale (sp_radix s) (sp_group s)) = Some (whole, frac)"
proof -
  note f = number_parts_facts [OF assms(1)]
  let ?w = "group_digits whole (sp_group s)"
  have sep: "\<not> is_digit g" if "sp_group s = Some g" for g
    using that assms(2) separator_digit by (simp add: separators_ok_def)
  have m: "whole_match (sp_group s) ?w"
  proof (cases "sp_group s")
    case None
    then show ?thesis
      using f(1,3) by (simp add: whole_match_def group_digits_def)
  next
    case (Some g)
    then show ?thesis
      using number_parts_canonical [OF assms(1)] group_digits_facts(4) [OF f(1,3) sep [OF Some]]
      by (auto simp: whole_match_def group_digits_def)
  qed
  have "number_match s scale (render_number n scale (sp_radix s) (sp_group s)) = Some (?w, frac)"
    using f(2,4) m by (auto simp: number_match_def render_number_parts [OF assms(1)] Let_def)
  then show ?thesis
    using group_digits_facts(1,5) [OF f(1,3) sep]
    by (cases "sp_group s") (auto simp: grouped_digits_def group_digits_def)
qed

lemma render_number_width:
  assumes "n < 10 ^ pr_precision p" "precision_ok p" "\<And>g. grp = Some g \<Longrightarrow> \<not> is_digit g"
  shows "length (render_number n (pr_scale p) radix grp) \<le> number_width p (grp \<noteq> None)"
proof -
  obtain whole frac where w: "number_parts n (pr_scale p) = (whole, frac)"
    by force
  note f = number_parts_facts [OF w]
  let ?m = "max (pr_precision p - pr_scale p) 1"
  have "length whole \<le> ?m"
    using number_parts_length(1) [OF w assms(1,2)] .
  then have "(length whole - 1) div 3 \<le> (?m - 1) div 3"
    by (intro div_le_mono diff_le_mono)
  moreover have "length (group_digits whole grp) = length whole + (if grp = None then 0 else (length whole - 1) div 3)"
    using group_digits_facts(2) [OF f(1,3)] assms(3) by (cases grp) (auto simp: group_digits_def)
  ultimately show ?thesis
    using \<open>length whole \<le> ?m\<close> f(4) by (auto simp: render_number_parts [OF w] number_width_def Let_def)
qed

lemma number_width_small:
  assumes "precision_ok p"
  shows "number_width p grouped \<le> 60"
proof -
  let ?m = "max (pr_precision p - pr_scale p) 1"
  have "?m + pr_scale p \<le> 39" "pr_scale p \<le> 38"
    using assms by (auto simp: precision_ok_def MAX_PRECISION_def)
  moreover have "(?m - 1) div 3 \<le> 38 div 3"
    using calculation by (intro div_le_mono) linarith
  ultimately show ?thesis
    by (auto simp: number_width_def Let_def)
qed

lemma render_number_ends:
  assumes "\<And>g. grp = Some g \<Longrightarrow> \<not> is_digit g"
  shows "render_number n scale radix grp \<noteq> []" "is_digit (hd (render_number n scale radix grp))"
    "is_digit (last (render_number n scale radix grp))"
proof -
  obtain whole frac where w: "number_parts n scale = (whole, frac)"
    by force
  note f = number_parts_facts [OF w]
  have g: "group_digits whole grp \<noteq> []" "hd (group_digits whole grp) = hd whole"
    using group_digits_facts(3) [OF f(1,3)] assms f(3) by (cases grp; auto simp: group_digits_def)+
  show "render_number n scale radix grp \<noteq> []" "is_digit (hd (render_number n scale radix grp))"
    using g hd_digits [OF f(1,3)] by (simp_all add: render_number_parts [OF w])
  have "is_digit (last (group_digits whole grp))"
  proof (cases "grp = None \<or> length whole \<le> 3")
    case True
    then have "group_digits whole grp = whole"
      by (auto simp: group_digits_def split: option.splits)
    then show ?thesis
      using last_digits [OF f(1,3)] by simp
  next
    case False
    then obtain gc where gc: "grp = Some gc" "3 < length whole"
      by auto
    then obtain h t where s: "whole = h @ t" "length t mod 3 = 0" "t \<noteq> []" "group_digits whole grp = h @ tail_groups gc t"
      using group_digits_split by metis
    have "last (tail_groups gc t) = last t \<and> tail_groups gc t \<noteq> []"
      using s(2,3)
    proof (induction gc t rule: tail_groups.induct)
      case (1 g a b c u)
      have "length (a # b # c # u) = length u + 3"
        by simp
      then have "length u mod 3 = 0"
        using "1.prems"(1) by (simp only: mod_add_self2)
      then show ?case
        using "1.IH" by (cases "u = []") auto
    qed auto
    then show ?thesis
      using s(1,3,4) f(1) last_digits [of t] by simp
  qed
  then show "is_digit (last (render_number n scale radix grp))"
    using g(1) f(2,4) last_digits [of frac] by (auto simp: render_number_parts [OF w])
qed

lemma plain_inverts:
  assumes "unscale v (pr_scale p) (pr_precision p) = Inr (n, negative)" "precision_ok p"
  shows "parse_plain p (VText ((if negative then ''-'' else []) @ render_number n (pr_scale p) (CHR ''.'') None)) =
    Inr (VDecimal (scaled n (pr_scale p) negative))"
proof -
  have n: "n < 10 ^ pr_precision p"
    using unscale_bound [OF assms(1)] .
  obtain whole frac where w: "number_parts n (pr_scale p) = (whole, frac)"
    by force
  note f = number_parts_facts [OF w]
  let ?r = "render_number n (pr_scale p) (CHR ''.'') None"
  have r: "?r \<noteq> []" "is_digit (hd ?r)"
    using render_number_ends [of None] by simp_all
  have "frac = [] \<longleftrightarrow> pr_scale p = 0"
    using f(4) by auto
  then have "plain_match ?r = Some (whole, frac)"
    using plain_match_parts [OF f(1,3,2), of "pr_scale p"] by (simp only: render_number_parts [OF w] group_digits_def option.case)
  moreover have "length ?r \<le> 60"
    using render_number_width [OF n assms(2), of None "CHR ''.''"] number_width_small [OF assms(2), of False] by simp
  ultimately show ?thesis
    using signed_text [OF r, of negative] from_parts_inverts [OF w n] by (simp add: parse_plain_def MAX_TEXT_def)
qed

lemma grouped_inverts:
  assumes "unscale v (pr_scale p) (pr_precision p) = Inr (n, negative)" "precision_ok p" "separators_ok s"
  shows "parse_grouped p s (VText ((if negative then ''-'' else []) @ render_number n (pr_scale p) (sp_radix s) (sp_group s))) =
    Inr (VDecimal (scaled n (pr_scale p) negative))"
proof -
  have n: "n < 10 ^ pr_precision p"
    using unscale_bound [OF assms(1)] .
  obtain whole frac where w: "number_parts n (pr_scale p) = (whole, frac)"
    by force
  have sep: "\<not> is_digit g" if "sp_group s = Some g" for g
    using that assms(3) separator_digit by (simp add: separators_ok_def)
  let ?r = "render_number n (pr_scale p) (sp_radix s) (sp_group s)"
  have "length ?r \<le> 60"
    using render_number_width [OF n assms(2) sep] number_width_small [OF assms(2)] le_trans by blast
  then show ?thesis
    using signed_text [OF render_number_ends(1,2) [OF sep]] from_parts_inverts [OF w n]
      grouped_digits_inverts [OF w assms(3)] by (simp add: parse_grouped_def MAX_TEXT_def)
qed

lemma ends_with_append [simp]: "ends_with (s @ t) t"
  by (simp add: ends_with_def)

lemma starts_with_append [simp]: "starts_with (s @ t) s"
  by (simp add: starts_with_def)

lemma starts_with_char: "s \<noteq> [] \<Longrightarrow> starts_with s [c] \<longleftrightarrow> hd s = c"
  by (cases s) (auto simp: starts_with_def)

lemma token_chars:
  assumes "currency_ok c" "x \<in> set (cu_token c)"
  shows "\<not> is_digit x" "x \<noteq> CHR ''-''" "x \<noteq> CHR ''(''" "x \<noteq> CHR '')''"
proof -
  have "\<not> py_isdigit_char x \<and> x \<notin> set ''-()''"
    using assms unfolding currency_ok_def Let_def by blast
  then show "\<not> is_digit x" "x \<noteq> CHR ''-''" "x \<noteq> CHR ''(''" "x \<noteq> CHR '')''"
    by (simp_all add: py_isdigit_char_def)
qed

lemma utf8_at_least: "length s \<le> length (utf8 s)"
  by (induction s) (auto simp: utf8_def utf8_char_def Let_def)

text \<open>The body of a currency text: token and number.\<close>

definition currency_text :: "currency \<Rightarrow> string \<Rightarrow> string" where
  "currency_text c number = (case cu_position c of Prefix \<Rightarrow> cu_token c @ number | Suffix \<Rightarrow> number @ cu_token c)"

lemma currency_text_facts:
  assumes "currency_ok c" "number \<noteq> []" "is_digit (hd number)"
  shows "currency_number c (currency_text c number) = Some number" "currency_text c number \<noteq> []"
    "hd (currency_text c number) \<noteq> CHR ''-''" "hd (currency_text c number) \<noteq> CHR ''(''"
proof -
  have "cu_token c \<noteq> []"
    using assms(1) by (simp add: currency_ok_def Let_def)
  then show "currency_number c (currency_text c number) = Some number" "currency_text c number \<noteq> []"
    "hd (currency_text c number) \<noteq> CHR ''-''" "hd (currency_text c number) \<noteq> CHR ''(''"
    using assms token_chars [OF assms(1), of "hd (cu_token c)"]
    by (auto simp: currency_number_def currency_text_def is_digit_def split: token_position.splits)
qed

definition currency_signed :: "currency \<Rightarrow> bool \<Rightarrow> string \<Rightarrow> string" where
  "currency_signed c negative body =
     (if \<not> negative then body
      else case cu_sign_style c of LeadingMinus \<Rightarrow> ''-'' @ body | AccountingParentheses \<Rightarrow> ''('' @ body @ '')'')"

lemma format_currency_text:
  "format_currency p s c v = and_then (unscale v (pr_scale p) (pr_precision p)) (\<lambda>(n, negative).
     Inr (VText (currency_signed c negative (currency_text c (render_number n (pr_scale p) (sp_radix s) (sp_group s))))))"
  by (simp add: format_currency_def currency_signed_def currency_text_def Let_def)

lemma currency_body_signed:
  assumes "body \<noteq> []" "hd body \<noteq> CHR ''-''" "hd body \<noteq> CHR ''(''"
  shows "currency_body c (currency_signed c negative body) = (body, negative)"
  using assms by (auto simp: currency_body_def currency_signed_def starts_with_char ends_with_def butlast_append
      split: sign_style.splits)

lemma currency_inverts:
  assumes "unscale v (pr_scale p) (pr_precision p) = Inr (n, negative)" "precision_ok p" "separators_ok s" "currency_ok c"
  shows "parse_currency p s c (VText (currency_signed c negative
      (currency_text c (render_number n (pr_scale p) (sp_radix s) (sp_group s))))) =
    Inr (VDecimal (scaled n (pr_scale p) negative))"
proof -
  have n: "n < 10 ^ pr_precision p"
    using unscale_bound [OF assms(1)] .
  obtain whole frac where w: "number_parts n (pr_scale p) = (whole, frac)"
    by force
  have sep: "\<not> is_digit g" if "sp_group s = Some g" for g
    using that assms(3) separator_digit by (simp add: separators_ok_def)
  let ?r = "render_number n (pr_scale p) (sp_radix s) (sp_group s)"
  note t = currency_text_facts [OF assms(4) render_number_ends(1,2) [OF sep]]
  have "length ?r \<le> 60"
    using render_number_width [OF n assms(2) sep] number_width_small [OF assms(2)] le_trans by blast
  moreover have "length (cu_token c) \<le> 32"
    using utf8_at_least [of "cu_token c"] assms(4) by (simp add: currency_ok_def Let_def MAX_TOKEN_BYTES_def)
  ultimately have "length (currency_signed c negative (currency_text c ?r)) \<le> MAX_TEXT"
    by (auto simp: currency_signed_def currency_text_def MAX_TEXT_def split: sign_style.splits token_position.splits)
  then show ?thesis
    using currency_body_signed [OF t(2-4)] t(1) from_parts_inverts [OF w n] grouped_digits_inverts [OF w assms(3)]
    by (simp add: parse_currency_def)
qed

subsection \<open>COBOL fields\<close>

lemma padded_digits:
  assumes "n < 10 ^ w" "0 < w"
  defines "d \<equiv> rjust (dec_str n) w (CHR ''0'')"
  shows "length d = w" "all_digits d" "d \<noteq> []" "dec_val d = n"
  using rjust_dec_str_length [OF assms(1,2)] assms(2) unfolding d_def by (simp_all flip: length_greater_0_conv)

lemma overpunch_table: "\<forall>d < 10. OVERPUNCH (POSITIVE ! d) = Some (d, False) \<and> OVERPUNCH (NEGATIVE ! d) = Some (d, True)"
  by code_simp

lemma overpunch_inverts:
  assumes "unscale v (pr_scale p) (pr_precision p) = Inr (n, negative)" "precision_ok p" "format_overpunch p v = Inr out"
  shows "parse_overpunch p out = Inr (VDecimal (scaled n (pr_scale p) negative))"
proof -
  let ?d = "rjust (dec_str n) (pr_precision p) (CHR ''0'')"
  have d: "length ?d = pr_precision p" "all_digits ?d" "?d \<noteq> []" "dec_val ?d = n"
    using padded_digits [OF unscale_bound [OF assms(1)]] assms(2) by (simp_all add: precision_ok_def)
  have l: "is_digit (last ?d)"
    using last_digits [OF d(2,3)] .
  have b: "all_digits (butlast ?d)"
    using d(2) by (auto simp: all_digits_iff dest: in_set_butlastD)
  have o: "OVERPUNCH ((if negative then NEGATIVE else POSITIVE) ! digit_val (last ?d)) = Some (digit_val (last ?d), negative)"
    using overpunch_table digit_val_less [OF l] by auto
  have "out = VText (butlast ?d @ [(if negative then NEGATIVE else POSITIVE) ! digit_val (last ?d)])"
    using assms(3) by (simp add: format_overpunch_def assms(1) Let_def)
  moreover have "butlast ?d @ dec_str (digit_val (last ?d)) = ?d"
    using d(3) l by (simp add: dec_str_small digit_val_less)
  ultimately show ?thesis
    using d o b assms(2) by (simp add: parse_overpunch_def digits_value_def precision_ok_def)
qed

lemma unat_small: "n < 256 \<Longrightarrow> unat (word_of_nat n :: byte) = n"
  by (simp add: unsigned_of_nat take_bit_nat_eq_self)

lemma zoned_byte_parts:
  assumes "z < 16" "is_digit c"
  shows "zone (zoned_byte z c) = z" "nibble (zoned_byte z c) = digit_val c"
proof -
  have "digit_val c < 16"
    using digit_val_less [OF assms(2)] by simp
  moreover have "16 * z + digit_val c < 256"
    using assms(1) calculation by linarith
  ultimately show "zone (zoned_byte z c) = z" "nibble (zoned_byte z c) = digit_val c"
    by (simp_all only: zone_def nibble_def zoned_byte_def unat_small) simp_all
qed

lemma zoned_inverts:
  assumes "unscale v (pr_scale p) (pr_precision p) = Inr (n, negative)" "precision_ok p" "format_zoned p sg v = Inr out"
  shows "parse_zoned p sg out = Inr (VDecimal (scaled n (pr_scale p) negative))"
proof -
  let ?d = "rjust (dec_str n) (pr_precision p) (CHR ''0'')"
  define z :: nat where "z = (if sg then (if negative then 0xD else 0xC) else 0xF)"
  have d: "length ?d = pr_precision p" "all_digits ?d" "?d \<noteq> []" "dec_val ?d = n"
    using padded_digits [OF unscale_bound [OF assms(1)]] assms(2) by (simp_all add: precision_ok_def)
  have l: "is_digit (last ?d)" "\<And>c. c \<in> set (butlast ?d) \<Longrightarrow> is_digit c"
    using last_digits [OF d(2,3)] d(2) by (auto simp: all_digits_iff dest: in_set_butlastD)
  let ?raw = "map (zoned_byte 0xF) (butlast ?d) @ [zoned_byte z (last ?d)]"
  have out: "out = VBytes ?raw" and sg: "negative \<longrightarrow> sg"
    using assms(3) by (auto simp: format_zoned_def assms(1) Let_def z_def split: if_splits)
  have z: "z < 16"
    by (simp add: z_def)
  have digits: "map (\<lambda>b. digit_char (nibble b)) ?raw = ?d"
  proof -
    have "map (\<lambda>b. digit_char (nibble b)) ?raw = map id (butlast ?d) @ [last ?d]"
      using l zoned_byte_parts z by (simp cong: map_cong)
    then show ?thesis
      using d(3) by simp
  qed
  have small: "\<forall>b \<in> set ?raw. nibble b \<le> 9" "\<forall>b \<in> set (butlast ?raw). zone b = 0xF" "zone (last ?raw) = z"
    using l z zoned_byte_parts digit_val_less by (fastforce simp: less_Suc_eq_le)+
  then have "\<not> ((\<exists>b \<in> set ?raw. 9 < nibble b) \<or> (\<exists>b \<in> set (butlast ?raw). zone b \<noteq> 0xF))"
    by fastforce
  moreover have "length ?raw = pr_precision p"
    using d(1,3) assms(2) by (simp add: precision_ok_def)
  ultimately show ?thesis
    unfolding out parse_zoned_def digits_value_def cell_value.case digits small(3) Let_def
    using sg d(4) by (simp add: z_def ZONED_POSITIVE_def ZONED_NEGATIVE_def)
qed

lemma nibbles_append [simp]: "nibbles (a @ b) = nibbles a @ nibbles b"
  by (induction a) auto

definition hex_list :: "nat list \<Rightarrow> nat" where
  "hex_list ns = foldl (\<lambda>acc n. acc * 16 + n) 0 ns"

lemma hex_list_snoc [simp]: "hex_list (ns @ [n]) = hex_list ns * 16 + n"
  by (simp add: hex_list_def)

lemma nibbles_be_bytes: "length ns = 2 * len \<Longrightarrow> \<forall>n \<in> set ns. n < 16 \<Longrightarrow> nibbles (be_bytes len (int (hex_list ns))) = ns"
proof (induction len arbitrary: ns)
  case (Suc len)
  obtain ms a b where ns: "ns = (ms @ [a]) @ [b]"
    using Suc.prems(1) by (cases ns rule: rev_cases; cases "butlast ns" rule: rev_cases) auto
  have ab: "a < 16" "b < 16" "length ms = 2 * len" "\<forall>n \<in> set ms. n < 16"
    using Suc.prems by (auto simp: ns)
  let ?x = "int (hex_list ns)"
  have x: "hex_list ns = hex_list ms * 256 + (16 * a + b)"
    unfolding ns hex_list_snoc by simp
  define r where "r = 16 * a + b"
  have r: "r < 256"
    using ab unfolding r_def by linarith
  have "hex_list ns div 256 = hex_list ms" "hex_list ns mod 256 = r"
    using r by (simp_all add: x flip: r_def)
  moreover have "?x div 256 = int (hex_list ns div 256)" "?x mod 256 = int (hex_list ns mod 256)"
    by (simp_all add: of_nat_div of_nat_mod)
  ultimately have "?x div 256 = int (hex_list ms)" "?x mod 256 = int r"
    by simp_all
  moreover have "zone (word_of_nat r) = a" "nibble (word_of_nat r) = b"
    using ab by (simp_all add: zone_def nibble_def unat_small [OF r]) (simp_all add: r_def)
  moreover have "be_bytes (Suc len) ?x = be_bytes len (int (hex_list ms)) @ [word_of_nat r]"
    unfolding be_bytes.simps calculation(1,2) by (simp only: of_int_of_nat_eq)
  ultimately show ?case
    using Suc.IH [OF ab(3,4)] by (simp only: nibbles_append nibbles.simps) (simp add: ns)
qed (auto simp: hex_list_def)

lemma comp3_width: "precision_ok p \<Longrightarrow> pr_precision p \<le> 2 * comp3_length (pr_precision p) - 1 \<and> 0 < 2 * comp3_length (pr_precision p) - 1"
  by (simp add: comp3_length_def precision_ok_def)

lemma dec_str_digit: "is_digit c \<Longrightarrow> dec_str (digit_val c) = [c]"
  by (simp add: dec_str_small digit_val_less)

lemma concat_dec_str: "all_digits s \<Longrightarrow> concat (map dec_str (map digit_val s)) = s"
  by (induction s) (auto simp: dec_str_digit)

lemma hex_val_list: "hex_val s = hex_list (map digit_val s)"
  by (simp add: hex_val_def hex_list_def foldl_map)

lemma comp3_inverts:
  assumes "unscale v (pr_scale p) (pr_precision p) = Inr (n, negative)" "precision_ok p" "format_comp3 p sg v = Inr out"
  shows "parse_comp3 p sg out = Inr (VDecimal (scaled n (pr_scale p) negative))"
proof -
  define len where "len = comp3_length (pr_precision p)"
  define sign :: nat where "sign = (if sg then (if negative then 0xD else 0xC) else 0xF)"
  let ?d = "rjust (dec_str n) (2 * len - 1) (CHR ''0'')"
  have w: "pr_precision p \<le> 2 * len - 1" "0 < 2 * len - 1"
    using comp3_width [OF assms(2)] by (simp_all add: len_def)
  have n: "n < 10 ^ pr_precision p"
    using unscale_bound [OF assms(1)] .
  also have "(10 :: nat) ^ pr_precision p \<le> 10 ^ (2 * len - 1)"
    using w(1) by (intro power_increasing) auto
  finally have "n < 10 ^ (2 * len - 1)" .
  note d = padded_digits [OF this w(2)]
  have raw: "out = VBytes (be_bytes len (int (hex_list (map digit_val ?d @ [sign]))))" and sg: "negative \<longrightarrow> sg"
    using assms(3) by (auto simp: format_comp3_def assms(1) Let_def len_def sign_def hex_val_list split: if_splits)
  have small: "\<forall>k \<in> set (map digit_val ?d). k \<le> 9"
    using d(2) digit_val_less by (fastforce simp: all_digits_iff)
  have nib: "nibbles (be_bytes len (int (hex_list (map digit_val ?d @ [sign])))) = map digit_val ?d @ [sign]"
  proof (rule nibbles_be_bytes)
    show "length (map digit_val ?d @ [sign]) = 2 * len"
      using d(1) w(2) by simp
    show "\<forall>k \<in> set (map digit_val ?d @ [sign]). k < 16"
      using small by (fastforce simp: sign_def)
  qed
  have lead: "hd (map digit_val ?d) = 0" if "pr_precision p < length (map digit_val ?d)"
  proof -
    have "length (dec_str n) < 2 * len - 1"
      using dec_str_length_le [OF n] assms(2) that d(1) by (simp add: precision_ok_def)
    then show ?thesis
      by (simp add: rjust_def Suc_diff_Suc flip: Suc_diff_Suc)
  qed
  have "\<not> ((\<exists>k \<in> set (map digit_val ?d). 9 < k) \<or> pr_precision p < length (map digit_val ?d) \<and> hd (map digit_val ?d) \<noteq> 0)"
    using small lead by fastforce
  moreover have "concat (map dec_str (map digit_val ?d)) = ?d"
    using concat_dec_str [OF d(2)] .
  ultimately show ?thesis
    unfolding raw parse_comp3_def digits_value_def cell_value.case nib butlast_snoc last_snoc Let_def
    using sg d(4) by (simp add: sign_def len_def)
qed

subsection \<open>Dates\<close>

lemma valid_date_fields:
  assumes "valid_date d"
  shows "d_year d < 10 ^ 4" "d_month d < 10 ^ 2" "d_day d < 10 ^ 2" "make_date (d_year d) (d_month d) (d_day d) = Inr d"
  using assms by (auto simp: valid_date_def MAXYEAR_def days_in_month_def make_date_def Let_def split: if_splits)

lemma render_part_facts:
  assumes "valid_date d"
  shows "length (render_part d p) = part_width p" "is_field p \<Longrightarrow> all_digits (render_part d p)"
    "dec_val (render_part d PartY) = d_year d" "dec_val (render_part d PartM) = d_month d" "dec_val (render_part d PartD) = d_day d"
  using zfill_facts [OF valid_date_fields(1) [OF assms]] zfill_facts [OF valid_date_fields(2) [OF assms]]
    zfill_facts [OF valid_date_fields(3) [OF assms]]
  by (cases p; simp)+

lemma match_parts_rendered:
  assumes "valid_date d"
  shows "match_parts parts (concat (map (render_part d) parts)) = Some (map (\<lambda>p. (p, dec_val (render_part d p))) parts)"
proof (induction parts)
  case (Cons p ps)
  then show ?case
    using render_part_facts(1,2) [OF assms, of p] by (cases p) (simp_all add: Let_def)
qed simp

lemma date_inverts:
  assumes "format_date fmt (VDate d) = Inr out" "valid_date d" "date_width fmt = Some w" "w \<le> 32"
  shows "parse_date fmt out = Inr (VDate d)"
proof -
  obtain parts where parts: "date_pattern fmt = Some parts" "out = VText (concat (map (render_part d) parts))"
    using assms(1) by (auto simp: format_date_def split: option.splits)
  have "length (concat (map (render_part d) parts)) = sum_list (map part_width parts)"
    using render_part_facts(1) [OF assms(2)] by (induction parts) auto
  then have len: "\<not> 32 < length (concat (map (render_part d) parts))"
    using assms(3,4) parts(1) by (simp add: date_width_def)
  have "{PartY, PartM, PartD} \<subseteq> set parts"
  proof
    fix q assume "q \<in> {PartY, PartM, PartD}"
    then have "length (filter ((=) q) parts) = 1"
      using parts(1) unfolding date_pattern_def by (auto split: option.splits if_splits)
    then have "filter ((=) q) parts \<noteq> []"
      by auto
    then show "q \<in> set parts"
      by (auto simp: filter_empty_conv)
  qed
  then show ?thesis
    using match_parts_rendered [OF assms(2), of parts] len render_part_facts(3-5) [OF assms(2)] valid_date_fields(4) [OF assms(2)]
    by (simp add: parts parse_date_def Let_def map_of_map_restrict)
qed

end
