(* ===== verification/Declared_Formatter.thy ===== *)
theory Declared_Formatter
  imports Declared_Formats
begin

text \<open>
  The formatter of declared columns, \<open>compile_formatter\<close> of \<open>declared_casting/_catalog.py\<close>: what it emits has the
  declared width and reads back as the value, its read-back check never fires under three side conditions
  on the shape, and \<open>max_rendered_width\<close> is enough for every value. The conditions are needed: the last
  lemmas show accepted shapes on which the check raises.
\<close>

section \<open>The contract of a format\<close>

text \<open>A rendering that the parser of the same shape inverts, on the values it accepts; \<open>norm\<close> is the value the
  parser gives back. Two values with one rendering are then one value.\<close>

locale exact_format =
  fixes accepts :: "cell_value \<Rightarrow> bool"
    and render :: "cell_value \<Rightarrow> cast_reason + cell_value"
    and parse :: "cell_value \<Rightarrow> cast_reason + cell_value"
    and norm :: "cell_value \<Rightarrow> cell_value option"
  assumes inverts: "accepts v \<Longrightarrow> render v = Inr out \<Longrightarrow> \<exists>w. parse out = Inr w \<and> norm v = Some w"
begin

lemma render_determines:
  assumes "accepts v" "accepts v'" "render v = Inr out" "render v' = Inr out"
  shows "norm v = norm v'"
  using inverts [OF assms(1,3)] inverts [OF assms(2,4)] by auto

end

section \<open>The formatter\<close>

text \<open>Every date value is a real date.\<close>

definition python_value :: "cell_value \<Rightarrow> bool" where
  "python_value v = (case v of VDate d \<Rightarrow> valid_date d | _ \<Rightarrow> True)"

text \<open>Shapes whose own output their parser does not refuse as too long.\<close>

fun readable :: "output_format \<Rightarrow> bool" where
  "readable (IntegerZeroPad pd sg bits) = (case pd_width pd of None \<Rightarrow> True | Some w \<Rightarrow> w \<le> MAX_TEXT)"
| "readable (DateStrftime pd fmt) = (case date_width fmt of None \<Rightarrow> False | Some n \<Rightarrow> n \<le> 32)"
| "readable m = True"

text \<open>What a rendering can start and end with, digits apart.\<close>

definition date_edge :: "date_part \<Rightarrow> string" where
  "date_edge p = (case p of PartLit c \<Rightarrow> [c] | _ \<Rightarrow> [])"

fun lead_chars :: "output_format \<Rightarrow> string" where
  "lead_chars (IntegerAsciiOut pd sg bits) = ''-''"
| "lead_chars (DecimalPlainOut pd p) = ''-''"
| "lead_chars (DecimalGroupedOut pd p s) = ''-''"
| "lead_chars (DateStrftime pd fmt) = (case date_pattern fmt of Some parts \<Rightarrow> date_edge (hd parts) | None \<Rightarrow> [])"
| "lead_chars (CurrencyOut pd p s c) =
     (case cu_sign_style c of LeadingMinus \<Rightarrow> ''-'' | AccountingParentheses \<Rightarrow> ''('') @
     (case cu_position c of Prefix \<Rightarrow> [hd (cu_token c)] | Suffix \<Rightarrow> [])"
| "lead_chars m = []"

fun trail_chars :: "output_format \<Rightarrow> string" where
  "trail_chars (DateStrftime pd fmt) = (case date_pattern fmt of Some parts \<Rightarrow> date_edge (last parts) | None \<Rightarrow> [])"
| "trail_chars (CurrencyOut pd p s c) =
     (case cu_sign_style c of LeadingMinus \<Rightarrow> [] | AccountingParentheses \<Rightarrow> '')'') @
     (case cu_position c of Prefix \<Rightarrow> [] | Suffix \<Rightarrow> [last (cu_token c)])"
| "trail_chars m = []"

definition pad_clear :: "output_format \<Rightarrow> bool" where
  "pad_clear m =
     (case pad_controls m of
        None \<Rightarrow> True
      | Some pd \<Rightarrow> pd_width pd = None \<or>
          pd_pad pd \<notin> set (case pd_align pd of AlignRight \<Rightarrow> lead_chars m | AlignLeft \<Rightarrow> trail_chars m))"

text \<open>A value with the padding of its shape taken off.\<close>

definition unpadded :: "output_format \<Rightarrow> cell_value \<Rightarrow> cell_value" where
  "unpadded m out =
     (case (out, pad_controls m) of
        (VText t, Some pd) \<Rightarrow> if pd_width pd = None then out else VText (strip_pad (pd_align pd) (pd_pad pd) t)
      | _ \<Rightarrow> out)"

definition exact_width :: "output_format \<Rightarrow> cell_value \<Rightarrow> bool" where
  "exact_width m out =
     (case (out, pad_controls m) of
        (VText t, Some pd) \<Rightarrow> (case pd_width pd of None \<Rightarrow> True | Some w \<Rightarrow> measure_text t (pd_unit pd) = w)
      | _ \<Rightarrow> True)"

lemma same_value_refl [simp]: "same_value v v"
  by (auto simp: same_value_def decimal_eq_def Let_def split: cell_value.splits decimal.splits)

lemma format_plain_Inr:
  assumes "format_plain p radix grp v = Inr out"
  obtains n negative where "unscale v (pr_scale p) (pr_precision p) = Inr (n, negative)"
    "out = VText ((if negative then ''-'' else []) @ render_number n (pr_scale p) radix grp)"
  using assms by (auto simp: format_plain_def and_then_eq_Inr)

lemma format_currency_Inr:
  assumes "format_currency p s c v = Inr out"
  obtains n negative where "unscale v (pr_scale p) (pr_precision p) = Inr (n, negative)"
    "out = VText (currency_signed c negative (currency_text c (render_number n (pr_scale p) (sp_radix s) (sp_group s))))"
  using assms by (auto simp: format_currency_text and_then_eq_Inr)

lemma cobol_unscales:
  assumes "format_overpunch p v = Inr out \<or> format_zoned p sg v = Inr out \<or> format_comp3 p sg v = Inr out"
  shows "\<exists>n negative. unscale v (pr_scale p) (pr_precision p) = Inr (n, negative)"
  using assms by (auto simp: format_overpunch_def format_zoned_def format_comp3_def and_then_eq_Inr)

lemma integer_widths: "bits \<in> set INTEGER_WIDTHS \<Longrightarrow> bits \<le> 64"
  by (auto simp: INTEGER_WIDTHS_def)

lemma format_integer_int:
  assumes "format_integer sg bits zero_pad v = Inr out"
  obtains n where "v = VInt n"
  using assms by (cases v) (auto simp: format_integer_def)

lemma format_date_date:
  assumes "format_date fmt v = Inr out"
  obtains d parts where "v = VDate d" "date_pattern fmt = Some parts" "out = VText (concat (map (render_part d) parts))"
  using assms by (cases v) (auto simp: format_date_def split: option.splits)

lemma iso_pattern: "date_pattern ISO_FORMAT = Some [PartY, PartLit (CHR ''-''), PartM, PartLit (CHR ''-''), PartD]" "date_width ISO_FORMAT = Some 10"
  by code_simp+

text \<open>Every kernel is the exact inverse of the parser of its twin.\<close>

lemma kernel_inverts:
  assumes "output_format_ok m" "readable m" "python_value v" "format_kernel m v = Inr out"
  shows "\<exists>w. compile_parser (twin m) out = Inr w \<and> normalized v (twin m) = Some w"
proof (cases m)
  case (StringExactOut pd)
  then show ?thesis
    using assms(4) by (auto simp: string_exact_def normalized_def split: cell_value.splits)
next
  case (IntegerAsciiOut pd sg bits)
  then obtain n where "v = VInt n"
    using assms(4) by (auto elim: format_integer_int)
  then show ?thesis
    using integer_inverts [of sg bits None n out] assms IntegerAsciiOut integer_widths by (simp add: normalized_def)
next
  case (IntegerZeroPad pd sg bits)
  then obtain n where "v = VInt n"
    using assms(4) by (auto elim: format_integer_int)
  then show ?thesis
    using integer_inverts [of sg bits "Some (case pd_width pd of None \<Rightarrow> 0 | Some w \<Rightarrow> w)" n out] assms IntegerZeroPad integer_widths
    by (auto simp: normalized_def padding_ok_def split: option.splits)
next
  case (DecimalPlainOut pd p)
  then show ?thesis
    using assms plain_inverts [of v p] by (auto elim!: format_plain_Inr simp: normalized_def)
next
  case (DecimalGroupedOut pd p s)
  then have "format_plain p (sp_radix s) (sp_group s) v = Inr out" "precision_ok p" "separators_ok s"
    using assms(1,4) by simp_all
  then show ?thesis
    using DecimalGroupedOut grouped_inverts [of v p _ _ s] by (elim format_plain_Inr) (simp add: normalized_def)
next
  case (DateIsoOut pd)
  then obtain d where "v = VDate d"
    using assms(4) by (auto elim: format_date_date)
  then show ?thesis
    using assms(3,4) DateIsoOut date_inverts [of ISO_FORMAT d out 10] iso_pattern(2) by (simp add: normalized_def python_value_def)
next
  case (DateStrftime pd fmt)
  then obtain d where "v = VDate d"
    using assms(4) by (auto elim: format_date_date)
  then show ?thesis
    using assms DateStrftime date_inverts [of fmt d out] by (auto simp: normalized_def python_value_def split: option.splits)
next
  case (CurrencyOut pd p s c)
  then have "format_currency p s c v = Inr out" "precision_ok p" "separators_ok s" "currency_ok c"
    using assms(1,4) by simp_all
  then show ?thesis
    using CurrencyOut currency_inverts [of v p _ _ s c] by (elim format_currency_Inr) (simp add: normalized_def)
next
  case (OverpunchOut p)
  then obtain n negative where "unscale v (pr_scale p) (pr_precision p) = Inr (n, negative)"
    using assms(4) cobol_unscales [of p v out] by auto
  then show ?thesis
    using overpunch_inverts assms OverpunchOut by (auto simp: normalized_def)
next
  case (ZonedOut p sg)
  then obtain n negative where "unscale v (pr_scale p) (pr_precision p) = Inr (n, negative)"
    using assms(4) cobol_unscales [of p v out sg] by auto
  then show ?thesis
    using zoned_inverts assms ZonedOut by (auto simp: normalized_def)
next
  case (Comp3Out p sg)
  then obtain n negative where "unscale v (pr_scale p) (pr_precision p) = Inr (n, negative)"
    using assms(4) cobol_unscales [of p v out sg] by auto
  then show ?thesis
    using comp3_inverts assms Comp3Out by (auto simp: normalized_def)
qed

interpretation kernel: exact_format "\<lambda>v. output_format_ok m \<and> readable m \<and> python_value v" "format_kernel m"
    "compile_parser (twin m)" "\<lambda>v. normalized v (twin m)"
  by unfold_locales (simp add: kernel_inverts)

subsection \<open>What a parser reads, the kernel writes\<close>








lemma nibbles_length [simp]: "length (nibbles bs) = 2 * length bs"
  by (induction bs) simp_all



subsection \<open>Padding\<close>

lemma strip_pad_text:
  assumes "t \<noteq> []" "case pd_align pd of AlignRight \<Rightarrow> hd t \<noteq> pd_pad pd | AlignLeft \<Rightarrow> last t \<noteq> pd_pad pd"
  shows "strip_pad (pd_align pd) (pd_pad pd) (pad_text pd room t) = t"
proof (cases "pd_align pd")
  case AlignRight
  have "dropWhile (\<lambda>c. c = pd_pad pd) (replicate room (pd_pad pd) @ t) = t"
    using assms AlignRight by (induction room) (auto simp: neq_Nil_conv)
  then show ?thesis
    by (simp add: strip_pad_def pad_text_def AlignRight)
next
  case AlignLeft
  obtain u c where "rev t = c # u" "c \<noteq> pd_pad pd"
    using assms AlignLeft by (cases t rule: rev_cases) auto
  then have "dropWhile (\<lambda>x. x = pd_pad pd) (replicate room (pd_pad pd) @ rev t) = rev t"
    by (induction room) auto
  then show ?thesis
    by (simp add: strip_pad_def pad_text_def AlignLeft)
qed

lemma render_date_edges:
  assumes "valid_date d" "parts \<noteq> []"
  defines "t \<equiv> concat (map (render_part d) parts)"
  shows "t \<noteq> []" "is_digit (hd t) \<or> hd t \<in> set (date_edge (hd parts))" "is_digit (last t) \<or> last t \<in> set (date_edge (last parts))"
proof -
  have ends: "render_part d p \<noteq> [] \<and> (is_digit (hd (render_part d p)) \<or> hd (render_part d p) \<in> set (date_edge p)) \<and>
      (is_digit (last (render_part d p)) \<or> last (render_part d p) \<in> set (date_edge p))" for p
    using render_part_facts(1,2) [OF assms(1), of p] hd_digits [of "render_part d p"] last_digits [of "render_part d p"]
    by (cases p) (auto simp: date_edge_def simp flip: length_0_conv)
  show "t \<noteq> []" "is_digit (hd t) \<or> hd t \<in> set (date_edge (hd parts))"
    using ends [of "hd parts"] assms(2) by (cases parts; simp add: t_def)+
  show "is_digit (last t) \<or> last t \<in> set (date_edge (last parts))"
    using ends [of "last parts"] assms(2) by (cases parts rule: rev_cases) (auto simp: t_def)
qed

lemma currency_text_last:
  assumes "currency_ok c" "number \<noteq> []" "is_digit (last number)"
  shows "is_digit (last (currency_text c number)) \<or> cu_position c = Suffix \<and> last (currency_text c number) = last (cu_token c)"
  using assms by (auto simp: currency_text_def currency_ok_def Let_def split: token_position.splits)

lemma currency_text_first:
  assumes "currency_ok c" "number \<noteq> []" "is_digit (hd number)"
  shows "is_digit (hd (currency_text c number)) \<or> cu_position c = Prefix \<and> hd (currency_text c number) = hd (cu_token c)"
  using assms by (auto simp: currency_text_def currency_ok_def Let_def split: token_position.splits)

lemma rendered_edges:
  assumes "output_format_ok m" "python_value v" "format_kernel m v = Inr (VText t)" "pad_controls m \<noteq> None"
    and "\<forall>pd. m \<noteq> StringExactOut pd"
  shows "t \<noteq> [] \<and> (is_digit (hd t) \<or> hd t \<in> set (lead_chars m)) \<and> (is_digit (last t) \<or> last t \<in> set (trail_chars m))"
proof (cases m)
  case (IntegerAsciiOut pd sg bits)
  then obtain n where "v = VInt n"
    using assms(3) by (auto elim: format_integer_int)
  then have "t = py_str_int n"
    using assms(3) IntegerAsciiOut by (auto simp: format_integer_def Let_def split_beta split: if_splits)
  then show ?thesis
    using IntegerAsciiOut by (auto simp: py_str_int_def hd_digits last_digits)
next
  case (DecimalPlainOut pd p)
  then have "format_plain p (CHR ''.'') None v = Inr (VText t)"
    using assms(3) by simp
  then show ?thesis
    using DecimalPlainOut render_number_ends [of None] by (elim format_plain_Inr) (auto split: if_splits)
next
  case (DecimalGroupedOut pd p s)
  then have k: "format_plain p (sp_radix s) (sp_group s) v = Inr (VText t)"
    using assms(3) by simp
  have "\<not> is_digit g" if "sp_group s = Some g" for g
    using that assms(1) DecimalGroupedOut separator_digit by (simp add: separators_ok_def)
  note e = render_number_ends [of "sp_group s", OF this]
  show ?thesis
    using k DecimalGroupedOut e by (elim format_plain_Inr) (auto split: if_splits)
next
  case (DateIsoOut pd)
  then show ?thesis
    using assms(2,3) render_date_edges [of _ "[PartY, PartLit (CHR ''-''), PartM, PartLit (CHR ''-''), PartD]"]
    by (auto elim!: format_date_date simp: iso_pattern python_value_def date_edge_def)
next
  case (DateStrftime pd fmt)
  then obtain d parts where d: "v = VDate d" "date_pattern fmt = Some parts" "t = concat (map (render_part d) parts)"
    using assms(3) by (auto elim: format_date_date)
  have "parts \<noteq> []"
    using d(2) by (auto simp: date_pattern_def split: option.splits if_splits)
  then show ?thesis
    using render_date_edges [of d parts] d assms(2) DateStrftime by (simp add: python_value_def)
next
  case (CurrencyOut pd p s c)
  then have k: "format_currency p s c v = Inr (VText t)" and c: "currency_ok c"
    using assms(1,3) by simp_all
  have sep: "\<not> is_digit g" if "sp_group s = Some g" for g
    using that assms(1) CurrencyOut separator_digit by (simp add: separators_ok_def)
  obtain n negative where t: "t = currency_signed c negative (currency_text c (render_number n (pr_scale p) (sp_radix s) (sp_group s)))"
    using k by (auto elim: format_currency_Inr)
  note e = render_number_ends [of "sp_group s" n "pr_scale p" "sp_radix s", OF sep]
  show ?thesis
    using currency_text_first [OF c e(1,2)] currency_text_last [OF c e(1,3)] currency_text_facts(2) [OF c e(1,2)] CurrencyOut
    unfolding t by (cases "cu_position c"; cases "cu_sign_style c") (auto simp: currency_signed_def)
qed (use assms in auto)

lemma pad_controls_ok: "output_format_ok m \<Longrightarrow> pad_controls m = Some pd \<Longrightarrow> padding_ok False False pd"
  by (cases m) auto

lemma pad_not_digit:
  assumes "output_format_ok m" "pad_controls m = Some pd"
  shows "\<not> is_digit (pd_pad pd)"
  using pad_controls_ok [OF assms] by (auto simp: padding_ok_def)

lemma stripped_rendering:
  assumes "output_format_ok m" "python_value v" "format_kernel m v = Inr (VText t)" "pad_controls m = Some pd"
    and "pad_clear m" "pd_width pd \<noteq> None" "\<forall>pd. m \<noteq> StringExactOut pd"
  shows "strip_pad (pd_align pd) (pd_pad pd) (pad_text pd room t) = t"
proof (rule strip_pad_text)
  note e = rendered_edges [OF assms(1-3)]
  show "t \<noteq> []"
    using e assms(4,7) by simp
  show "case pd_align pd of AlignRight \<Rightarrow> hd t \<noteq> pd_pad pd | AlignLeft \<Rightarrow> last t \<noteq> pd_pad pd"
    using e assms(4-7) pad_not_digit [OF assms(1,4)] by (auto simp: pad_clear_def split: alignment.splits)
qed

lemma measure_text_append [simp]: "measure_text (a @ b) u = measure_text a u + measure_text b u"
  by (simp add: measure_text_def utf8_def)

lemma measure_pad:
  assumes "padding_ok required zero_pad pd"
  shows "measure_text (pad_text pd room t) (pd_unit pd) = room + measure_text t (pd_unit pd)"
proof -
  have "measure_text (replicate room (pd_pad pd)) (pd_unit pd) = room"
    using assms by (induction room) (auto simp: measure_text_def padding_ok_def utf8_def)
  then show ?thesis
    by (simp add: pad_text_def split: alignment.splits)
qed

subsection \<open>The read-back check never fires\<close>

lemma twin_string: "twin m = StringExact \<longleftrightarrow> (\<exists>pd. m = StringExactOut pd)"
  by (cases m) auto

lemma inverse_checked_passes:
  assumes "compile_parser m probe = Inr w" "normalized v m = Some w"
    and "probe = (case (strip, emitted) of (Some (al, pad), VText s) \<Rightarrow> VText (strip_pad al pad s) | _ \<Rightarrow> emitted)"
  shows "inverse_checked emitted m v strip = Inr (Inr emitted)"
proof -
  have "(if m = StringExact then Some v else normalized v m) = Some w"
    using assms(2) by (cases "m = StringExact") (simp_all add: normalized_def)
  then show ?thesis
    unfolding inverse_checked_def Let_def assms(3) [symmetric] assms(1) by simp
qed

lemma string_checked:
  "inverse_checked (VText e) StringExact (VText t) (Some (al, pad)) =
     Inr (if strip_pad al pad e = t then Inr (VText e) else Inl DECLARED_OUTPUT_WIDTH_OVERFLOW)"
  by (simp add: inverse_checked_def string_exact_def same_value_def)

text \<open>The formatter's answer, once the kernel accepted: the value, padded where the shape says so.\<close>

definition emits :: "output_format \<Rightarrow> cell_value \<Rightarrow> cell_value \<Rightarrow> cell_value \<Rightarrow> bool" where
  "emits m v rendered out \<longleftrightarrow> unpadded m out = rendered \<and> exact_width m out \<and>
     (case compile_parser (twin m) rendered of Inr w \<Rightarrow> normalized v (twin m) = Some w | Inl r \<Rightarrow> False)"

text \<open>A text that the declared width cannot hold: it is longer, or it is a plain string that already has the pad
  character at the padded end.\<close>

definition too_narrow :: "output_format \<Rightarrow> cell_value \<Rightarrow> bool" where
  "too_narrow m rendered \<longleftrightarrow> (\<exists>t pd width. rendered = VText t \<and> pad_controls m = Some pd \<and> pd_width pd = Some width \<and>
     (width < measure_text t (pd_unit pd) \<or> twin m = StringExact \<and> strip_pad (pd_align pd) (pd_pad pd) t \<noteq> t))"

lemma strip_pad_pad: "strip_pad (pd_align pd) (pd_pad pd) (pad_text pd room t) = strip_pad (pd_align pd) (pd_pad pd) t"
proof -
  have "dropWhile (\<lambda>c. c = pd_pad pd) (replicate room (pd_pad pd) @ s) = dropWhile (\<lambda>c. c = pd_pad pd) s" for s
    by (induction room) simp_all
  then show ?thesis
    by (simp add: strip_pad_def pad_text_def split: alignment.splits)
qed

lemma formatter_emits:
  assumes "output_format_ok m" "readable m" "pad_clear m" "python_value v" "format_kernel m v = Inr rendered"
  shows "if too_narrow m rendered then compile_formatter m v = Inr (Inl DECLARED_OUTPUT_WIDTH_OVERFLOW)
    else \<exists>out. compile_formatter m v = Inr (Inr out) \<and> emits m v rendered out"
proof -
  obtain w where w: "compile_parser (twin m) rendered = Inr w" "normalized v (twin m) = Some w"
    using kernel.inverts [OF _ assms(5)] assms(1,2,4) by blast
  have plain: ?thesis if "compile_formatter m v = inverse_checked rendered (twin m) v None" "unpadded m rendered = rendered"
      "exact_width m rendered" "\<not> too_narrow m rendered"
    using that w inverse_checked_passes [OF w, where strip = None and emitted = rendered] by (simp add: emits_def)
  show ?thesis
  proof (cases "\<exists>t pd width. rendered = VText t \<and> pad_controls m = Some pd \<and> pd_width pd = Some width")
    case False
    show ?thesis
    proof (rule plain)
      show "compile_formatter m v = inverse_checked rendered (twin m) v None"
        using False by (auto simp: compile_formatter_def assms(5) split: cell_value.splits option.splits)
    qed (use False in \<open>auto simp: unpadded_def exact_width_def too_narrow_def split: cell_value.splits option.splits\<close>)
  next
    case True
    then obtain t pd width where r: "rendered = VText t" "pad_controls m = Some pd" "pd_width pd = Some width"
      by blast
    let ?room = "width - measure_text t (pd_unit pd)"
    let ?e = "pad_text pd ?room t"
    show ?thesis
    proof (cases "width < measure_text t (pd_unit pd)")
      case True
      then show ?thesis
        by (simp add: compile_formatter_def assms(5) r too_narrow_def)
    next
      case False
      then have f: "compile_formatter m v = inverse_checked (VText ?e) (twin m) v (Some (pd_align pd, pd_pad pd))"
        by (simp add: compile_formatter_def assms(5) r)
      have width: "exact_width m (VText ?e)"
        using False measure_pad [OF pad_controls_ok [OF assms(1) r(2)]] by (simp add: exact_width_def r)
      have un: "unpadded m (VText ?e) = VText (strip_pad (pd_align pd) (pd_pad pd) ?e)"
        by (simp add: unpadded_def r)
      show ?thesis
      proof (cases "\<exists>pd. m = StringExactOut pd")
        case True
        then have "v = VText t" "twin m = StringExact"
          using assms(5) r(1) by (auto simp: string_exact_def split: cell_value.splits)
        then show ?thesis
          using f string_checked [of ?e t "pd_align pd" "pd_pad pd"] un width w r False
          by (auto simp: emits_def too_narrow_def strip_pad_pad)
      next
        case no: False
        have s: "strip_pad (pd_align pd) (pd_pad pd) ?e = t"
          using stripped_rendering [OF assms(1,4) _ r(2) assms(3)] assms(5) r(1,3) no by simp
        have "inverse_checked (VText ?e) (twin m) v (Some (pd_align pd, pd_pad pd)) = Inr (Inr (VText ?e))"
          by (rule inverse_checked_passes [OF w]) (simp add: r(1) s)
        then show ?thesis
          using f un width w r s no False by (cases m) (auto simp: emits_def too_narrow_def)
      qed
    qed
  qed
qed

subsection \<open>Widths\<close>

definition ascii_text :: "string \<Rightarrow> bool" where
  "ascii_text s \<longleftrightarrow> (\<forall>c \<in> set s. (of_char c :: nat) < 128)"

lemma ascii_text_simps [simp]:
  "ascii_text []" "ascii_text (c # s) \<longleftrightarrow> (of_char c :: nat) < 128 \<and> ascii_text s" "ascii_text (s @ t) \<longleftrightarrow> ascii_text s \<and> ascii_text t"
  by (auto simp: ascii_text_def)

lemma digits_ascii: "all_digits s \<Longrightarrow> ascii_text s"
  by (auto simp: ascii_text_def all_digits_iff is_digit_def)

lemma measure_ascii: "ascii_text s \<Longrightarrow> measure_text s u = length s"
  by (induction s) (auto simp: measure_text_def utf8_def utf8_char_def split: if_splits)

lemma tail_groups_ascii: "all_digits s \<Longrightarrow> (of_char g :: nat) < 128 \<Longrightarrow> ascii_text (tail_groups g s)"
  by (induction g s rule: tail_groups.induct) (auto simp: digits_ascii is_digit_def)

lemma render_number_ascii:
  assumes "(of_char radix :: nat) < 128" "\<And>g. grp = Some g \<Longrightarrow> (of_char g :: nat) < 128"
  shows "ascii_text (render_number n scale radix grp)"
proof -
  obtain whole frac where w: "number_parts n scale = (whole, frac)"
    by force
  note f = number_parts_facts [OF w]
  have "ascii_text (group_digits whole grp)"
    using digits_ascii [OF f(1)] assms(2) all_digits_take [OF f(1)] all_digits_drop [OF f(1)]
    by (auto simp: group_digits_def Let_def tail_groups_ascii digits_ascii split: option.splits)
  then show ?thesis
    using assms(1) digits_ascii [OF f(2)] by (simp add: render_number_parts [OF w])
qed

lemma dec_str_length_le_mono: "m \<le> n \<Longrightarrow> length (dec_str m) \<le> length (dec_str n)"
  using dec_val_less [of "dec_str n"] by (intro dec_str_length_le) auto

lemma integer_rendering_width:
  assumes "fst (int_bounds sg bits) \<le> n" "n \<le> snd (int_bounds sg bits)"
  shows "length (py_str_int n) \<le> integer_width sg bits"
proof (cases "n < 0")
  case True
  then have "length (py_str_int n) \<le> length (py_str_int (fst (int_bounds sg bits)))"
    using assms(1) dec_str_length_le_mono [of "nat (- n)" "nat (- fst (int_bounds sg bits))"] by (simp add: py_str_int_def)
  then show ?thesis
    by (simp add: integer_width_def split_beta Let_def)
next
  case False
  then have "length (py_str_int n) \<le> length (py_str_int (snd (int_bounds sg bits)))"
    using assms(2) dec_str_length_le_mono [of "nat n" "nat (snd (int_bounds sg bits))"] by (simp add: py_str_int_def nat_mono)
  then show ?thesis
    by (simp add: integer_width_def split_beta Let_def)
qed

lemma signed_number_width:
  assumes "format_plain p radix grp v = Inr (VText t)" "precision_ok p" "(of_char radix :: nat) < 128"
    and "\<And>g. grp = Some g \<Longrightarrow> separator_ok g"
  shows "measure_text t u \<le> number_width p (grp \<noteq> None) + 1"
proof -
  obtain n negative where t: "unscale v (pr_scale p) (pr_precision p) = Inr (n, negative)"
      "t = (if negative then ''-'' else []) @ render_number n (pr_scale p) radix grp"
    using format_plain_Inr [OF assms(1)] by (metis cell_value.inject(1))
  have "ascii_text (render_number n (pr_scale p) radix grp)"
    using assms(3,4) by (intro render_number_ascii) (auto simp: separator_ok_def)
  then have "measure_text t u = length t"
    by (intro measure_ascii) (simp add: t(2))
  then show ?thesis
    using render_number_width [OF unscale_bound [OF t(1)] assms(2), of grp radix] assms(4) separator_digit by (simp add: t(2))
qed

lemma currency_width:
  assumes "format_currency p s c v = Inr (VText t)" "precision_ok p" "separators_ok s" "currency_ok c"
  shows "measure_text t u \<le> number_width p (sp_group s \<noteq> None) + 2 + measure_text (cu_token c) u"
proof -
  let ?r = "\<lambda>n. render_number n (pr_scale p) (sp_radix s) (sp_group s)"
  obtain n negative where t: "unscale v (pr_scale p) (pr_precision p) = Inr (n, negative)"
      "t = currency_signed c negative (currency_text c (?r n))"
    using format_currency_Inr [OF assms(1)] by (metis cell_value.inject(1))
  have sep: "separator_ok (sp_radix s)" "\<And>g. sp_group s = Some g \<Longrightarrow> separator_ok g"
    using assms(3) by (simp_all add: separators_ok_def)
  have "ascii_text (?r n)"
    using sep by (intro render_number_ascii) (auto simp: separator_ok_def)
  then have "measure_text (?r n) u \<le> number_width p (sp_group s \<noteq> None)"
    using render_number_width [OF unscale_bound [OF t(1)] assms(2)] sep(2) separator_digit by (simp add: measure_ascii)
  moreover have "measure_text (x # e) u = 1 + measure_text e u" if "(of_char x :: nat) < 128" for x e
    using that by (simp add: measure_text_def utf8_def utf8_char_def)
  then have "measure_text (CHR ''-'' # e) u = 1 + measure_text e u" "measure_text (CHR ''('' # e) u = 1 + measure_text e u" for e
    by simp_all
  moreover have "measure_text '')'' u = 1"
    by (simp add: measure_ascii)
  ultimately show ?thesis
    unfolding t(2) currency_signed_def currency_text_def
    by (auto split: sign_style.splits token_position.splits)
qed

lemma date_tokens_Cons:
  assumes "date_tokens (a # cs) = Some parts"
  obtains p ps ds where "parts = p # ps" "date_tokens ds = Some ps" "length ds < length (a # cs)"
    "p \<in> {PartY, PartM, PartD} \<or> p = PartLit a \<and> a \<in> set DATE_LITERALS"
proof (cases "a = CHR ''%''")
  case True
  then obtain d ds where "cs = d # ds"
    using assms by (cases cs) auto
  then show thesis
    using assms True that [of _ _ ds] by (auto simp del: length_Cons split: if_splits)
next
  case False
  then have "a \<in> set DATE_LITERALS" "map_option ((#) (PartLit a)) (date_tokens cs) = Some parts"
    using assms by (simp_all split: if_splits)
  then show thesis
    using that [of "PartLit a" _ cs] by auto
qed

lemma date_tokens_literal: "date_tokens fmt = Some parts \<Longrightarrow> PartLit c \<in> set parts \<Longrightarrow> c \<in> set DATE_LITERALS"
proof (induction fmt arbitrary: parts rule: length_induct)
  case (1 fmt)
  show ?case
  proof (cases fmt)
    case (Cons a cs)
    then obtain p ps ds where "parts = p # ps" "date_tokens ds = Some ps" "length ds < length fmt"
        "p \<in> {PartY, PartM, PartD} \<or> p = PartLit a \<and> a \<in> set DATE_LITERALS"
      using "1.prems"(1) date_tokens_Cons by metis
    then show ?thesis
      using "1.prems"(2) "1.IH" by auto
  qed (use "1.prems" in simp)
qed

lemma date_literal_ascii: "c \<in> set DATE_LITERALS \<Longrightarrow> (of_char c :: nat) < 128"
  by (auto simp: DATE_LITERALS_def)

lemma date_text_width:
  assumes "format_date fmt v = Inr (VText t)" "python_value v" "date_width fmt = Some w"
  shows "measure_text t u = w"
proof -
  obtain d parts where d: "v = VDate d" "date_pattern fmt = Some parts" "t = concat (map (render_part d) parts)"
    using assms(1) by (auto elim: format_date_date)
  have v: "valid_date d"
    using assms(2) d(1) by (simp add: python_value_def)
  have "date_tokens fmt = Some parts"
    using d(2) by (auto simp: date_pattern_def split: option.splits if_splits)
  then have lit: "(of_char c :: nat) < 128" if "PartLit c \<in> set parts" for c
    using that date_tokens_literal date_literal_ascii by blast
  have "measure_text (concat (map (render_part d) ps)) u = sum_list (map part_width ps)" if "set ps \<subseteq> set parts" for ps
    using that
  proof (induction ps)
    case (Cons p ps)
    have "ascii_text (render_part d p)"
      using Cons.prems lit render_part_facts(2) [OF v, of p] by (cases p) (auto simp: digits_ascii)
    then show ?case
      using Cons render_part_facts(1) [OF v, of p] by (simp add: measure_ascii)
  qed (simp add: measure_ascii)
  then show ?thesis
    using assms(3) d by (simp add: date_width_def)
qed

text \<open>The widest rendering of a shape, as the code computes it, is never exceeded.\<close>

lemma rendering_width:
  assumes "output_format_ok m" "python_value v" "format_kernel m v = Inr (VText t)" "pad_controls m = Some pd"
    and "max_rendered_width m = Some w"
  shows "measure_text t (pd_unit pd) \<le> w"
proof (cases m)
  case (IntegerAsciiOut pd' sg bits)
  then obtain n where n: "v = VInt n"
    using assms(3) by (auto elim: format_integer_int)
  then have "t = py_str_int n" "fst (int_bounds sg bits) \<le> n" "n \<le> snd (int_bounds sg bits)"
    using assms(3) IntegerAsciiOut by (auto simp: format_integer_def Let_def split_beta split: if_splits)
  then show ?thesis
    using integer_rendering_width [of sg bits n] assms(5) IntegerAsciiOut
    by (simp add: measure_ascii digits_ascii py_str_int_def)
next
  case (DecimalPlainOut pd' p)
  then show ?thesis
    using signed_number_width [of p "CHR ''.''" None v t] assms by simp
next
  case (DecimalGroupedOut pd' p s)
  then have "separator_ok (sp_radix s)" "\<And>g. sp_group s = Some g \<Longrightarrow> separator_ok g"
    using assms(1) by (simp_all add: separators_ok_def)
  then show ?thesis
    using signed_number_width [of p "sp_radix s" "sp_group s" v t "pd_unit pd"] assms DecimalGroupedOut
    by (simp add: separator_ok_def)
next
  case (DateIsoOut pd')
  then show ?thesis
    using date_text_width [of ISO_FORMAT v t 10] assms(2,3,5) iso_pattern(2) by simp
next
  case (DateStrftime pd' fmt)
  then show ?thesis
    using date_text_width [of fmt v t w] assms(2,3,5) by simp
next
  case (CurrencyOut pd' p s c)
  then show ?thesis
    using currency_width [of p s c v t "pd_unit pd"] assms by simp
qed (use assms in auto)

text \<open>The whole formatter meets the same contract.\<close>

definition formatted :: "output_format \<Rightarrow> cell_value \<Rightarrow> cast_reason + cell_value" where
  "formatted m v = (case compile_formatter m v of Inr r \<Rightarrow> r | Inl e \<Rightarrow> Inl DECLARED_OUTPUT_WIDTH_OVERFLOW)"

lemma formatter_inverts:
  assumes "output_format_ok m" "readable m" "pad_clear m" "python_value v" "compile_formatter m v = Inr (Inr out)"
  shows "exact_width m out \<and> (\<exists>w. compile_parser (twin m) (unpadded m out) = Inr w \<and> normalized v (twin m) = Some w)"
proof -
  obtain rendered where "format_kernel m v = Inr rendered"
    using assms(5) by (cases "format_kernel m v") (auto simp: compile_formatter_def)
  then show ?thesis
    using formatter_emits [OF assms(1-4)] assms(5) by (auto simp: emits_def split: sum.splits if_splits)
qed

interpretation formatter: exact_format "\<lambda>v. output_format_ok m \<and> readable m \<and> pad_clear m \<and> python_value v" "formatted m"
    "\<lambda>out. compile_parser (twin m) (unpadded m out)" "\<lambda>v. normalized v (twin m)"
  by unfold_locales (auto simp: formatted_def formatter_inverts split: sum.splits)

section \<open>Properties\<close>


text \<open>A declared width of at least \<open>max_rendered_width\<close> is always enough: every value the kernel renders is emitted.\<close>

theorem declared_width_suffices:
  assumes "output_format_ok m" "readable m" "pad_clear m" "python_value v"
    and "format_kernel m v = Inr rendered" "pad_controls m = Some pd" "max_rendered_width m = Some w"
    and "pd_width pd = Some width" "w \<le> width"
  shows "\<exists>out. compile_formatter m v = Inr (Inr out) \<and> unpadded m out = rendered"
proof -
  have "\<not> too_narrow m rendered"
    using rendering_width [OF assms(1,4) _ assms(6,7)] assms(5-9) by (fastforce simp: too_narrow_def twin_string)
  then show ?thesis
    using formatter_emits [OF assms(1-5)] by (auto simp: emits_def)
qed

subsection \<open>Witnesses\<close>

text \<open>A currency column, padded to 14 characters; its format accepts every amount of up to eight digits.\<close>

definition demo_currency :: currency where
  "demo_currency = \<lparr>cu_code = ''USD'', cu_token = ''$'', cu_position = Prefix, cu_sign_style = AccountingParentheses\<rparr>"

definition demo_output :: output_format where
  "demo_output = CurrencyOut \<lparr>pd_width = Some 14, pd_unit = Some CodePoints, pd_pad = CHR '' '', pd_align = AlignRight\<rparr>
     \<lparr>pr_precision = 8, pr_scale = 2\<rparr> \<lparr>sp_radix = CHR ''.'', sp_group = Some (CHR '','')\<rparr> demo_currency"

definition demo_amount :: cell_value where
  "demo_amount = VDecimal (Finite True 12345 (-1))"

lemma demo_output_facts:
  "output_format_ok demo_output" "readable demo_output" "pad_clear demo_output" "python_value demo_amount"
  "max_rendered_width demo_output = Some 13"
  by (simp_all add: demo_output_def padding_ok_def precision_ok_def MAX_PRECISION_def separators_ok_def separator_ok_def
      py_isprintable_char_def currency_ok_def demo_currency_def utf8_def utf8_char_def MAX_TOKEN_BYTES_def
      py_isdigit_char_def is_digit_def pad_clear_def python_value_def demo_amount_def number_width_def measure_text_def)

lemma digit_char_literals:
  "digit_char 1 = CHR ''1''" "digit_char 2 = CHR ''2''" "digit_char 3 = CHR ''3''" "digit_char 4 = CHR ''4''" "digit_char 5 = CHR ''5''"
  by code_simp+

lemma demo_rendered: "format_kernel demo_output demo_amount = Inr (VText ''($1,234.50)'')"
proof -
  have d: "dec_str 12345 = ''12345''" "dec_str 123450 = ''123450''"
    by (simp_all add: dec_str_big dec_str_small digit_char_literals [simplified])
  have u: "unscale demo_amount 2 8 = Inr (123450, True)"
    by (simp add: demo_amount_def unscale_decimal_def d MAX_TEXT_def Let_def)
  have "render_number 123450 2 (CHR ''.'') (Some (CHR '','')) = ''1,234.50''"
    by (simp add: render_number_def d rjust_def group_digits_def Let_def)
  then show ?thesis
    by (simp add: demo_output_def format_currency_def u demo_currency_def)
qed


theorem declared_width_suffices_witness:
  "\<exists>out. compile_formatter demo_output demo_amount = Inr (Inr out) \<and> unpadded demo_output out = VText ''($1,234.50)''"
  using declared_width_suffices [OF demo_output_facts(1-4) demo_rendered _ demo_output_facts(5)]
  by (simp add: demo_output_def)

subsection \<open>Where the check does fire\<close>

text \<open>Without the side conditions the read-back check raises, on shapes that validation accepts: a sign as the
  pad, a zero-padded integer wider than the parser reads, a date pattern longer than the parser reads.\<close>

lemma sign_pad_raises:
  fixes m defines "m \<equiv> IntegerAsciiOut \<lparr>pd_width = Some 4, pd_unit = Some CodePoints, pd_pad = CHR ''-'', pd_align = AlignRight\<rparr> True 64"
  shows "output_format_ok m \<and> compile_formatter m (VInt (- 5)) = Inl DECLARED_CAST_CONTRACT_INVALID"
  by (simp add: m_def padding_ok_def py_isprintable_char_def py_isdigit_char_def is_digit_def INTEGER_WIDTHS_def utf8_def
      compile_formatter_def format_integer_def int_bounds_def py_str_int_def dec_str_small digit_char_literals measure_text_def
      pad_text_def inverse_checked_def strip_pad_def parse_integer_def int_match_def int_of_text_def MAX_TEXT_def
      normalized_def same_value_def Let_def numeral_2_eq_2)

lemma wide_zero_pad_raises:
  fixes m defines "m \<equiv> IntegerZeroPad \<lparr>pd_width = Some 129, pd_unit = Some CodePoints, pd_pad = CHR ''0'', pd_align = AlignRight\<rparr> True 64"
  shows "output_format_ok m \<and> compile_formatter m (VInt 5) = Inl DECLARED_CAST_CONTRACT_INVALID"
  by (simp add: m_def padding_ok_def py_isprintable_char_def INTEGER_WIDTHS_def compile_formatter_def format_integer_def
      int_bounds_def dec_str_small rjust_def inverse_checked_def parse_integer_def MAX_TEXT_def normalized_def Let_def)

lemma long_date_raises:
  fixes m defines "m \<equiv> DateStrftime \<lparr>pd_width = None, pd_unit = None, pd_pad = CHR '' '', pd_align = AlignRight\<rparr> (''%Y'' @ replicate 25 (CHR ''-'') @ ''%m-%d'')"
  shows "output_format_ok m \<and> compile_formatter m (VDate \<lparr>d_year = 2026, d_month = 2, d_day = 1\<rparr>) = Inl DECLARED_CAST_CONTRACT_INVALID"
  unfolding m_def by code_simp

end
