(* ===== verification/Spec2Isabelle.thy ===== *)
theory Spec2Isabelle
  imports FPE Identifiers Subset_Closure Work_Order CSV_Framer Fixed_Width External_Sort Transactional_Sink
    Secret_Cache Budget_Ledger Dp_Session Date_Mask Text_Mask When_Parser Unmask Seed_Envelope Declared_Formatter
begin

text \<open>
  Verification of the decoy-engine data plane.

  decoy-engine masks relational data: a configuration names tables, columns and foreign keys; the planner
  binds columns to namespaces, orders the relationships and compiles a plan; the runner masks column after
  column with keyed, deterministic operators and publishes the result all at once; the unmask pipeline
  reverses what can be reversed. Around this core stand the readers and writers of files, the selection of
  a referentially complete subset, the out-of-core sort, the secret that keys a run, the memory ledger of
  generation and the accounting of differential privacy. Paths below are relative to \<open>src/src/decoy_engine/\<close>.

  \<^bold>\<open>How the parts fit together.\<close> \<open>Key_Admission\<close> decides which key a run gets. From it \<open>Determinism\<close> derives a
  key per namespace, which \<open>FPE\<close> (over \<open>FF1\<close> and \<open>Checksums\<close>), \<open>Text_Mask\<close>, \<open>Date_Mask\<close> and \<open>Date_Text\<close> mask with.
  \<open>Fpe_Column\<close> runs the cipher over a column, \<open>Vault\<close> records the pairs no operator can invert, and \<open>Unmask\<close>
  puts both together and reverses a masked run. \<open>Namespace_Registry\<close> and \<open>Relationship_Graph\<close> make equal keys
  of two tables share a namespace, \<open>Seed_Envelope\<close> compiles the configuration into the seeds the run works from,
  and \<open>Work_Order\<close> runs the columns in dependency order (both sort with
  \<open>Kahn\<close>). \<open>Subset_Closure\<close> chooses the rows, \<open>CSV_Framer\<close> and \<open>Fixed_Width\<close> read and write them,
  \<open>Declared_Formats\<close> and \<open>Declared_Formatter\<close> parse and render cells of declared columns,
  \<open>External_Sort\<close> orders what does not fit in memory, \<open>Transactional_Sink\<close> over \<open>Output_Txn\<close> publishes.
  \<open>compiled_graph_consistent\<close> below states how registry, policy lookup and graph of one configuration agree.

  \<^bold>\<open>Theories and sources.\<close>
  \<^item> \<open>Decoy_Prelude\<close>: the result type (\<open>Inl\<close> an error, \<open>Inr\<close> a value) with \<open>and_then\<close>, \<open>map_result\<close> and
    \<open>fold_result\<close>, big-endian codecs, numerals, dictionaries, and the collection \<open>result_simps\<close>.
    \<open>Decimal_Text\<close>, \<open>Py_Text\<close>, \<open>Utf8\<close>, \<open>Unicode_Text\<close>, \<open>Calendar\<close> and \<open>Sha256\<close> model what the code uses of
    Python: \<open>str\<close> and \<open>int\<close> of numbers, string methods, UTF-8, dates, SHA-256 and HMAC.
  \<^item> \<open>FF1\<close>: \<open>transforms/_ff1.py\<close>; encryption and decryption invert each other in the locale
    \<open>reversible_rounds\<close>, lengths and numerals are kept, every error branch is characterised.
  \<^item> \<open>Checksums\<close>, \<open>Detection_Validators\<close>, \<open>Identifiers\<close>: \<open>checksums.py\<close>, \<open>detection/_validators.py\<close> and
    \<open>providers_v2/identifiers/\<close>; generated identifiers pass their validators, single digit errors are found,
    the scan and the registry agree.
  \<^item> \<open>FPE\<close>: \<open>transforms/fpe.py\<close>, \<open>_fpe_checksum.py\<close>; round trips of the plain, Luhn and check digit modes
    over the locale \<open>string_cipher\<close>, and the exact inputs on which masking refuses.
  \<^item> \<open>Determinism\<close>, \<open>Canonicalize\<close>: \<open>determinism/\<close>, \<open>generation/pool/_canonicalize.py\<close>; the envelope is
    injective and the three forms of derivation agree.
  \<^item> \<open>Key_Admission\<close>: \<open>plan/_seed.py\<close>, \<open>keyprovider.py\<close>, \<open>secret_providers/\<close> (requirements, local references,
    registry, preflight, error boundary); keyed work runs under a secret of at least 32 bytes; errors stay in
    the closed vocabulary and interrupts pass the boundary untouched.
  \<^item> \<open>Seed_Envelope\<close>: \<open>plan/_seed_envelope.py\<close>, \<open>_pool_size.py\<close>, \<open>execution/_technique_class.py\<close>,
    \<open>_distribution_behavior.py\<close>, the relationships of \<open>profile/_source.py\<close>; admission of a configuration covers
    the plan compiled from it, vaulted columns included, and no declared column is left out of the plan.
  \<^item> \<open>Secret_Cache\<close>: \<open>secret_providers/_cache.py\<close> as a step relation over threads.
  \<^item> \<open>Vault\<close>, \<open>Fpe_Column\<close>, \<open>Unmask\<close>: \<open>vault.py\<close>, \<open>execution/_strategies/_fpe.py\<close>, \<open>unmask.py\<close>; the locale
    \<open>reversible_column\<close> is the contract that both kinds of column meet, and the pipeline restores the
    values a column's mode can undo (under \<open>validate_luhn\<close> a source that is not Luhn-valid comes back with its
    check digit normalized) and the vaulted values that stand for one source.
  \<^item> \<open>Text_Mask\<close>, \<open>Date_Text\<close>, \<open>Date_Mask\<close>: \<open>transforms/text_mask.py\<close>, \<open>_text_mask_splice.py\<close>,
    \<open>_text_mask_synthetic.py\<close>, \<open>date_shift.py\<close>, \<open>date_preserve.py\<close>, \<open>bucket_perturb.py\<close> and \<open>iter_spans\<close> of
    \<open>detection/detectors.py\<close>; what a masked text or date reveals, and that spans are resolved leftmost-longest.
  \<^item> \<open>Namespace_Registry\<close>, \<open>Kahn\<close>, \<open>Relationship_Graph\<close>, \<open>Work_Order\<close>: \<open>relationships/\<close>, \<open>execution/_runner.py\<close>;
    the least topological order, the exact inputs on which a graph is built, dependencies respected.
  \<^item> \<open>Subset_Closure\<close>: \<open>subset/_edges.py\<close>, \<open>_policy.py\<close>, \<open>_closure.py\<close>, \<open>_materialize.py\<close>; the loop ends and
    returns the least closed set, without dangling references.
  \<^item> \<open>CSV_Framer\<close>, \<open>Fixed_Width\<close>, \<open>External_Sort\<close>: \<open>io/csv_framer.py\<close>, \<open>config/_fixed_width.py\<close>,
    \<open>profile/_fixed_width_reader.py\<close>, \<open>_fixed_width_writer.py\<close>, \<open>execution/out_of_core/_external_sort*.py\<close>;
    refinement of the byte machine, round trip, sorting within the memory bound, and no leaked files even when
    making, filling, opening or unlinking a run file fails.
  \<^item> \<open>Declared_Formats\<close>, \<open>Declared_Formatter\<close>: \<open>contracts/_declared_base.py\<close>, \<open>_declared_formats.py\<close>,
    \<open>declared_casting/_numeric.py\<close>, \<open>_cobol.py\<close>, \<open>_date.py\<close>, \<open>_catalog.py\<close>; every kernel and the whole formatter
    meet the locale \<open>exact_format\<close>: what is emitted has the declared width and parses back to the value.
  \<^item> \<open>Output_Txn\<close>, \<open>Transactional_Sink\<close>: \<open>fileaccess/_output.py\<close>, \<open>_local.py\<close>, \<open>_component.py\<close>,
    \<open>execution/_transactional_sink.py\<close>, \<open>_publication_observer.py\<close>; all or nothing, true evidence.
  \<^item> \<open>Budget_Ledger\<close>, \<open>Dp_Session\<close>: \<open>generation/_budget_ledger.py\<close>, \<open>quality/dp_session.py\<close>, \<open>dp_schedule.py\<close>,
    \<open>dp_budget.py\<close>, \<open>dp_ledger.py\<close>; the charge is what is held, the reported loss covers every release.
  \<^item> \<open>When_Parser\<close>: \<open>expressions/_when_parser.py\<close>; accepted predicates are well typed and within the limits.

  \<^bold>\<open>Style.\<close> A function of the source is a HOL function of the same name; its state is a record, an exception
  is a constructor of the component's error type, a dictionary is an association list in insertion order
  (the last entry of a literal repeated key wins). Messages are left out where only the code of an error can
  be told apart. Configuration values have the type \<open>cfg\<close> of \<open>Namespace_Registry\<close>; it has no floats. Text is
  \<open>string\<close>, code points up to 255, except where \<open>Unicode_Text\<close> is used.

  \<^bold>\<open>Termination and fuel.\<close> Loops are recursive functions with a measure. The subset fixpoint counts its
  rounds against the bound the code itself checks, and \<open>closure_terminates\<close> shows the bound is never reached.
  The merge loops of the external sorter are partial functions, and \<open>external_sort_sorts\<close> shows that they
  return. The redraw loop of the SSN generator, which the source does not bound, takes the number of draws as
  fuel; the property of the identifier domains is about the keyed, loop-free route.

  \<^bold>\<open>What is assumed.\<close> Code outside the repository is an argument of the definitions with a named hypothesis:
  AES has fixed lengths (\<open>aes_lengths\<close>), python-stdnum computes check digits (\<open>stdnum_laws\<close>), Fernet and Parquet
  invert (\<open>vault_lib_ok\<close>), a compiled pattern matches inside the text (\<open>matches_in_text\<close>), the generated parser
  follows its grammar (\<open>follows_grammar\<close>), Arrow sorts stably and sizes batches monotonically, the parts of \<open>np.array_split\<close> are the
  array (\<open>array_split_law\<close>). The registry of providers and package metadata, the operating
  system, the clocks, Faker, pandas' date parsing, the OpenDP measurements, the accounting library and floating
  point are arguments as well. Each property with such a hypothesis has a witness that instantiates it.

  \<^bold>\<open>Not modelled.\<close> The planner's other checks and the rest of its compiler (\<open>plan/\<close> except \<open>_seed.py\<close>,
  \<open>_seed_envelope.py\<close> and \<open>_pool_size.py\<close>): they rewrite one schema into another and rest on pydantic models. The execution routes, physical plans and native kernels
  (\<open>execution/\<close> beyond the parts above): drivers over pandas, polars, DuckDB and a Rust extension whose
  behaviour is in those libraries. Connectors, cloud readers and HashiCorp Vault: network protocols.
  Profiling, the classifier model packs, fidelity and quality reports: floating point statistics. Generation by
  Faker, Mimesis and statistical samplers: third-party value sources. Telemetry, progress, reason
  catalogues and the scripts: data and reporting. The list of components in the manifest names every one.
\<close>

section \<open>Properties that span components\<close>

text \<open>A configuration that declares the namespace and the orphan policy of one foreign key.\<close>

definition demo_plan_config :: config where
  "demo_plan_config = demo_config @ [(''relationships'', CList [CDict [(''parent'', CDict [(''table'', CStr ''users''),
     (''columns'', CList [CStr ''id''])]), (''orphan_policy'', CStr ''remap''), (''children'', CList [CDict
     [(''table'', CStr ''orders''), (''columns'', CList [CStr ''user_id''])]])]])]"

lemma demo_plan_registry: "\<exists>reg. build_namespace_registry demo_plan_config [demo_fk] = Inr reg"
proof -
  have "build_namespace_registry demo_plan_config [demo_fk] = build_namespace_registry demo_config [demo_fk]"
    by (simp add: build_namespace_registry_def pass_namespaces_def tables_block_def demo_plan_config_def
        demo_config_def cfg_get_def)
  then show ?thesis
    using demo_registry_built by simp
qed

text \<open>C16. The planner's passes fit together. With a registry and a policy lookup built from the same
  configuration and relationships, the graph builder never reports a missing policy; and in the graph
  it returns every edge masks under its parent's namespace (or the child's when the parent has none),
  carries the policy the configuration declares for its two ends, and shares that policy with every
  other edge into the same child.\<close>

theorem compiled_graph_consistent:
  assumes "build_namespace_registry config rels = Inr reg"
    and "check_orphan_fk_policy_completeness config rels = Inr lk"
  shows "(\<forall>s. build_relationship_graph rels reg lk \<noteq> Inl (ORPHAN_FK_POLICY_MISSING s)) \<and>
    (\<forall>g. build_relationship_graph rels reg lk = Inr g \<longrightarrow> (\<forall>e \<in> set (g_edges g).
      (for_column reg (e_parent e) = Some (e_namespace e) \<or>
        for_column reg (e_parent e) = None \<and> for_column reg (e_child e) = Some (e_namespace e)) \<and>
      (\<exists>c \<in> set (config_entries config). declares c (e_parent e, e_child e) (e_orphan_policy e)) \<and>
      (\<forall>e' \<in> set (g_edges g). e_child e' = e_child e \<longrightarrow> e_orphan_policy e' = e_orphan_policy e)))"
proof (intro conjI allI impI ballI notI)
  fix s assume "build_relationship_graph rels reg lk = Inl (ORPHAN_FK_POLICY_MISSING s)"
  then show False
    using build_missing_policy check_lookup(2) [OF assms(2)] by blast
next
  fix g e assume g: "build_relationship_graph rels reg lk = Inr g" and e: "e \<in> set (g_edges g)"
  obtain r where r: "r \<in> set rels" "resolve_edge reg lk r = Inr e"
    using graph_edge_source [OF g e] .
  note res = resolve_edge_Inr [OF r(2)]
  have "built_registry reg rels"
    using assms(1) by (auto simp: built_registry_def)
  then show "for_column reg (e_parent e) = Some (e_namespace e) \<or>
      for_column reg (e_parent e) = None \<and> for_column reg (e_child e) = Some (e_namespace e)"
    using nsreg.resolved_is_bound [OF _ r(1) res(4)] res(1,2) by simp
  show "\<exists>c \<in> set (config_entries config). declares c (e_parent e, e_child e) (e_orphan_policy e)"
    using check_lookup(1) [OF assms(2), of "rel_key r"] res(1-3) by (simp add: rel_key_def)
  show "e_orphan_policy e' = e_orphan_policy e" if "e' \<in> set (g_edges g)" "e_child e' = e_child e" for e'
    using graph_child_policies_agree [OF g that(1) e that(2)] .
qed

theorem compiled_graph_consistent_witness:
  "\<exists>reg lk. build_namespace_registry demo_plan_config [demo_fk] = Inr reg \<and>
     check_orphan_fk_policy_completeness demo_plan_config [demo_fk] = Inr lk \<and>
     (\<forall>s. build_relationship_graph [demo_fk] reg lk \<noteq> Inl (ORPHAN_FK_POLICY_MISSING s))"
proof -
  obtain reg where reg: "build_namespace_registry demo_plan_config [demo_fk] = Inr reg"
    using demo_plan_registry by blast
  obtain lk where lk: "check_orphan_fk_policy_completeness demo_plan_config [demo_fk] = Inr lk"
    by (simp add: check_orphan_fk_policy_completeness_def config_entries_def demo_plan_config_def demo_config_def
        cfg_get_def check_entry_def relationship_end_def Let_def policy_of_def check_child_def collect_policy_def
        demo_fk_def rel_key_def parent_node_def child_node_def)
  show ?thesis
    using compiled_graph_consistent [OF reg lk] reg lk by blast
qed

end
